(* ===== verification/Prelude.thy ===== *)
theory Prelude
  imports Main "HOL-Library.Word" "HOL-Library.Multiset"
begin

text \<open>
  Shared vocabulary of the development: bytes, results with errors as values, the
  insertion-ordered \<open>Map\<close> of JavaScript, little-endian byte strings and the list
  facts that several components use. Everything here is about the language the
  repository is written in, not about one of its packages.
\<close>

unbundle bit_operations_syntax

type_synonym byte = "8 word"
type_synonym bytes = "byte list"

named_theorems result_simps
named_theorems jsmap_simps
named_theorems codec_simps

section \<open>Results: a thrown error is an \<open>Inl\<close>\<close>

definition rbind :: "'e + 'a \<Rightarrow> ('a \<Rightarrow> 'e + 'b) \<Rightarrow> 'e + 'b" where
  "rbind m f = (case m of Inl e \<Rightarrow> Inl e | Inr x \<Rightarrow> f x)"

lemma rbind_Inl [simp]: "rbind (Inl e) f = Inl e"
  by (simp add: rbind_def)

lemma rbind_Inr [simp]: "rbind (Inr x) f = f x"
  by (simp add: rbind_def)

lemma rbind_eq_Inr [result_simps]:
  "rbind m f = Inr y \<longleftrightarrow> (\<exists>x. m = Inr x \<and> f x = Inr y)"
  by (cases m) auto

lemma rbind_eq_Inl [result_simps]:
  "rbind m f = Inl e \<longleftrightarrow> m = Inl e \<or> (\<exists>x. m = Inr x \<and> f x = Inl e)"
  by (cases m) auto

text \<open>\<open>for (const x of xs) out.push(f(x))\<close>, where \<open>f\<close> may throw.\<close>

fun rmap :: "('a \<Rightarrow> 'e + 'b) \<Rightarrow> 'a list \<Rightarrow> 'e + 'b list" where
  "rmap f [] = Inr []"
| "rmap f (x # xs) = rbind (f x) (\<lambda>y. rbind (rmap f xs) (\<lambda>ys. Inr (y # ys)))"

lemma rmap_all_Inr: "(\<And>x. x \<in> set xs \<Longrightarrow> f x = Inr (g x)) \<Longrightarrow> rmap f xs = Inr (map g xs)"
  by (induction xs) auto

lemma rmap_eq_Inr_length: "rmap f xs = Inr ys \<Longrightarrow> length ys = length xs"
  by (induction xs arbitrary: ys) (auto simp: result_simps)

lemma rmap_eq_Inr_iff:
  "rmap f xs = Inr ys \<longleftrightarrow> length ys = length xs \<and> (\<forall>i < length xs. f (xs ! i) = Inr (ys ! i))"
proof (induction xs arbitrary: ys)
  case Nil
  then show ?case by auto
next
  case (Cons x xs)
  show ?case
    by (cases ys) (auto simp: result_simps Cons.IH nth_Cons split: nat.splits)
qed

section \<open>The insertion-ordered \<open>Map\<close>\<close>

text \<open>
  A JavaScript \<open>Map\<close> iterates in insertion order; \<open>set\<close> on a present key keeps the
  key's place. It is an association list with distinct keys.
\<close>

type_synonym ('k, 'v) jsmap = "('k \<times> 'v) list"

abbreviation jm_get :: "('k, 'v) jsmap \<Rightarrow> 'k \<Rightarrow> 'v option" where
  "jm_get \<equiv> map_of"

definition jm_has :: "('k, 'v) jsmap \<Rightarrow> 'k \<Rightarrow> bool" where
  "jm_has m k \<longleftrightarrow> jm_get m k \<noteq> None"

fun jm_set :: "('k, 'v) jsmap \<Rightarrow> 'k \<Rightarrow> 'v \<Rightarrow> ('k, 'v) jsmap" where
  "jm_set [] k v = [(k, v)]"
| "jm_set ((k', v') # m) k v = (if k' = k then (k, v) # m else (k', v') # jm_set m k v)"

definition jm_delete :: "('k, 'v) jsmap \<Rightarrow> 'k \<Rightarrow> ('k, 'v) jsmap" where
  "jm_delete m k = filter (\<lambda>(k', _). k' \<noteq> k) m"

definition jm_keys :: "('k, 'v) jsmap \<Rightarrow> 'k list" where
  "jm_keys m = map fst m"

definition jm_values :: "('k, 'v) jsmap \<Rightarrow> 'v list" where
  "jm_values m = map snd m"

definition jm_inv :: "('k, 'v) jsmap \<Rightarrow> bool" where
  "jm_inv m \<longleftrightarrow> distinct (jm_keys m)"

lemma jm_get_set: "jm_get (jm_set m k v) = (jm_get m)(k \<mapsto> v)"
  by (induction m k v rule: jm_set.induct) auto

lemma jm_get_delete: "jm_get (jm_delete m k) = (jm_get m)(k := None)"
  unfolding jm_delete_def by (induction m) auto

lemma jm_has_iff [jsmap_simps]: "jm_has m k \<longleftrightarrow> k \<in> set (jm_keys m)"
  by (simp add: jm_has_def jm_keys_def map_of_eq_None_iff)

lemma jm_keys_set: "jm_keys (jm_set m k v) = (if jm_has m k then jm_keys m else jm_keys m @ [k])"
  by (induction m k v rule: jm_set.induct) (auto simp: jm_keys_def jm_has_def)

lemma jm_keys_delete: "jm_keys (jm_delete m k) = filter (\<lambda>k'. k' \<noteq> k) (jm_keys m)"
  by (induction m) (auto simp: jm_keys_def jm_delete_def)

lemma jm_inv_Nil [simp]: "jm_inv []"
  by (simp add: jm_inv_def jm_keys_def)

lemma jm_inv_set: "jm_inv m \<Longrightarrow> jm_inv (jm_set m k v)"
  by (simp add: jm_inv_def jm_keys_set jsmap_simps)

lemma jm_inv_delete: "jm_inv m \<Longrightarrow> jm_inv (jm_delete m k)"
  by (simp add: jm_inv_def jm_keys_delete)

lemma jm_set_absent: "\<not> jm_has m k \<Longrightarrow> jm_set m k v = m @ [(k, v)]"
  by (induction m k v rule: jm_set.induct) (auto simp: jm_has_def)

lemma jm_length_set: "length (jm_set m k v) = (if jm_has m k then length m else Suc (length m))"
proof -
  have "length (jm_set m k v) = length (jm_keys (jm_set m k v))"
    by (simp add: jm_keys_def)
  then show ?thesis by (simp add: jm_keys_set) (simp add: jm_keys_def)
qed

lemma set_jm_keys: "set (jm_keys m) = dom (jm_get m)"
  by (simp add: jm_keys_def dom_map_of_conv_image_fst)

lemma jm_inv_distinct: "jm_inv m \<Longrightarrow> distinct (jm_keys m)"
  by (simp add: jm_inv_def)

text \<open>The contract a client of a \<open>Map\<close> relies on, and the model that provides it.\<close>

locale map_like =
  fixes get :: "'m \<Rightarrow> 'k \<Rightarrow> 'v option"
    and put :: "'m \<Rightarrow> 'k \<Rightarrow> 'v \<Rightarrow> 'm"
    and del :: "'m \<Rightarrow> 'k \<Rightarrow> 'm"
    and keys :: "'m \<Rightarrow> 'k list"
    and invar :: "'m \<Rightarrow> bool"
  assumes get_put: "get (put m k v) = (get m)(k \<mapsto> v)"
    and get_del: "get (del m k) = (get m)(k := None)"
    and keys_get: "set (keys m) = dom (get m)"
    and keys_distinct: "invar m \<Longrightarrow> distinct (keys m)"
    and invar_put: "invar m \<Longrightarrow> invar (put m k v)"
    and invar_del: "invar m \<Longrightarrow> invar (del m k)"
begin

lemma put_other: "k \<noteq> k' \<Longrightarrow> get (put m k v) k' = get m k'"
  by (simp add: get_put)

lemma put_twice: "get (put (put m k v) k w) = get (put m k w)"
  by (simp add: get_put)

lemma del_put: "get m k = None \<Longrightarrow> get (del (put m k v) k) = get m"
  by (simp add: get_put get_del fun_upd_idem)

lemma card_keys_put_le: "invar m \<Longrightarrow> length (keys (put m k v)) \<le> Suc (length (keys m))"
proof -
  assume inv: "invar m"
  have "length (keys (put m k v)) = card (set (keys (put m k v)))"
    using invar_put [OF inv] keys_distinct by (simp add: distinct_card)
  also have "\<dots> = card (insert k (set (keys m)))"
    by (simp add: keys_get get_put)
  also have "\<dots> \<le> Suc (card (set (keys m)))"
    by (rule card_insert_le_m1 [where n = "Suc (card (set (keys m)))"]) auto
  finally show ?thesis
    using keys_distinct [OF inv] by (simp add: distinct_card)
qed

end

interpretation jsm: map_like jm_get jm_set jm_delete jm_keys jm_inv
  by unfold_locales
    (simp_all add: jm_get_set jm_get_delete jm_inv_set jm_inv_delete set_jm_keys jm_inv_distinct)

section \<open>Bytes\<close>

text \<open>Little-endian bytes of a natural number, the layout of \<open>DataView\<close> with \<open>true\<close>.\<close>

fun le_bytes :: "nat \<Rightarrow> nat \<Rightarrow> bytes" where
  "le_bytes 0 v = []"
| "le_bytes (Suc k) v = word_of_nat v # le_bytes k (v div 256)"

fun le_val :: "bytes \<Rightarrow> nat" where
  "le_val [] = 0"
| "le_val (b # bs) = unat b + 256 * le_val bs"

lemma le_bytes_numeral: "le_bytes (numeral k) v = word_of_nat v # le_bytes (pred_numeral k) (v div 256)"
  by (metis le_bytes.simps(2) numeral_eq_Suc)

lemma length_le_bytes [simp]: "length (le_bytes k v) = k"
  by (induction k arbitrary: v) auto

lemma le_val_le_bytes: "le_val (le_bytes k v) = v mod 256 ^ k"
proof (induction k arbitrary: v)
  case 0
  then show ?case by simp
next
  case (Suc k)
  have "v mod (256 * 256 ^ k) = 256 * (v div 256 mod 256 ^ k) + v mod 256"
    by (rule mod_mult2_eq)
  then show ?case by (simp add: Suc.IH unat_of_nat)
qed

lemma le_val_le_bytes_small [codec_simps]: "v < 256 ^ k \<Longrightarrow> le_val (le_bytes k v) = v"
  by (simp add: le_val_le_bytes)

lemma unat_byte_bound: "unat (b :: byte) < 256"
  using unsigned_less [of b, where 'a = nat] by simp

lemma le_val_bound: "le_val bs < 256 ^ length bs"
proof (induction bs)
  case Nil
  then show ?case by simp
next
  case (Cons b bs)
  have "unat b < 256" by (rule unat_byte_bound)
  with Cons show ?case by simp
qed

lemma le_bytes_le_val: "le_bytes (length bs) (le_val bs) = bs"
proof (induction bs)
  case Nil
  then show ?case by simp
next
  case (Cons b bs)
  have b: "unat b < 256" by (rule unat_byte_bound)
  have "word_of_nat (unat b + 256 * le_val bs) = b"
  proof -
    have "unat (word_of_nat (unat b + 256 * le_val bs) :: byte) = unat b"
      using b by (simp add: unat_of_nat del: of_nat_add of_nat_mult)
    then show ?thesis by (simp add: word_unat_eq_iff)
  qed
  moreover have "(unat b + 256 * le_val bs) div 256 = le_val bs"
    using b by simp
  ultimately show ?case by (simp add: Cons.IH)
qed

text \<open>\<open>bs.slice(a, b)\<close> for \<open>0 \<le> a \<le> b\<close>: clipped at the end of the array.\<close>

definition jslice :: "'a list \<Rightarrow> nat \<Rightarrow> nat \<Rightarrow> 'a list" where
  "jslice xs a b = take (b - a) (drop a xs)"

lemma jslice_append [codec_simps]: "jslice (pre @ xs @ post) (length pre) (length pre + length xs) = xs"
  by (simp add: jslice_def)

lemma length_jslice: "b \<le> length xs \<Longrightarrow> length (jslice xs a b) = b - a"
  by (simp add: jslice_def)

text \<open>\<open>bs[i]\<close>: \<open>undefined\<close> out of range.\<close>

definition jat :: "'a list \<Rightarrow> nat \<Rightarrow> 'a option" where
  "jat xs i = (if i < length xs then Some (xs ! i) else None)"

lemma jat_append [codec_simps]: "jat (pre @ x # post) (length pre) = Some x"
  by (simp add: jat_def)

lemma jat_eq_Some: "jat xs i = Some x \<longleftrightarrow> i < length xs \<and> xs ! i = x"
  by (simp add: jat_def)

text \<open>\<open>findIndex\<close>, \<open>-1\<close> being \<open>None\<close>.\<close>

fun findIndex :: "('a \<Rightarrow> bool) \<Rightarrow> 'a list \<Rightarrow> nat option" where
  "findIndex p [] = None"
| "findIndex p (x # xs) = (if p x then Some 0 else map_option Suc (findIndex p xs))"

lemma findIndex_Some: "findIndex p xs = Some i \<Longrightarrow> i < length xs \<and> p (xs ! i)"
  by (induction xs arbitrary: i) (auto split: if_splits)

lemma findIndex_None: "findIndex p xs = None \<longleftrightarrow> (\<forall>x \<in> set xs. \<not> p x)"
  by (induction xs) auto

end
