(* ===== verification/Base58.thy ===== *)
theory Base58
  imports Prelude
begin

text \<open>
  \<open>packages/solana-core/src/base58.ts\<close>: the big-integer conversion between byte arrays
  and the Bitcoin alphabet. The digit loops are related to positional notation
  (\<open>radix\<close> and \<open>radix_val\<close>), from which both round trips follow.
\<close>

section \<open>Positional notation\<close>

function radix :: "nat \<Rightarrow> nat \<Rightarrow> nat list" where
  "radix b n = (if n = 0 \<or> b < 2 then [] else radix b (n div b) @ [n mod b])"
  by pat_completeness auto
termination
  by (relation "measure (\<lambda>(b, n). n)") auto

declare radix.simps [simp del]

definition radix_val :: "nat \<Rightarrow> nat list \<Rightarrow> nat" where
  "radix_val b ds = foldl (\<lambda>n d. n * b + d) 0 ds"

lemma radix_0 [simp]: "radix b 0 = []"
  by (simp add: radix.simps)

lemma radix_pos: "2 \<le> b \<Longrightarrow> 0 < n \<Longrightarrow> radix b n = radix b (n div b) @ [n mod b]"
  by (simp add: radix.simps [of b n])

lemma radix_val_Nil [simp]: "radix_val b [] = 0"
  by (simp add: radix_val_def)

lemma radix_val_snoc [simp]: "radix_val b (ds @ [d]) = radix_val b ds * b + d"
  by (simp add: radix_val_def)

lemma radix_val_Cons_0 [simp]: "radix_val b (0 # ds) = radix_val b ds"
  by (simp add: radix_val_def)

lemma radix_val_replicate_0 [simp]: "radix_val b (replicate z 0 @ ds) = radix_val b ds"
  by (induction z) auto

lemma radix_val_radix: "2 \<le> b \<Longrightarrow> radix_val b (radix b n) = n"
proof (induction b n rule: radix.induct)
  case (1 b n)
  then show ?case
    by (cases "n = 0") (simp_all add: radix_pos)
qed

lemma radix_digits: "2 \<le> b \<Longrightarrow> d \<in> set (radix b n) \<Longrightarrow> d < b"
proof (induction b n rule: radix.induct)
  case (1 b n)
  then show ?case
    by (cases "n = 0") (auto simp: radix_pos)
qed

lemma radix_Nil_iff: "2 \<le> b \<Longrightarrow> radix b n = [] \<longleftrightarrow> n = 0"
  by (cases "n = 0") (auto simp: radix_pos)

lemma hd_radix: "2 \<le> b \<Longrightarrow> 0 < n \<Longrightarrow> hd (radix b n) \<noteq> 0"
proof (induction b n rule: radix.induct)
  case (1 b n)
  show ?case
  proof (cases "n div b = 0")
    case True
    with 1 have "radix b n = [n]" by (simp add: radix_pos div_eq_0_iff)
    with 1 show ?thesis by simp
  next
    case False
    then have "radix b (n div b) \<noteq> []" using 1 by (simp add: radix_Nil_iff)
    moreover have "hd (radix b (n div b)) \<noteq> 0" using 1 False by simp
    ultimately show ?thesis using 1 radix_pos [of b n] by simp
  qed
qed

lemma radix_val_eq_0: "2 \<le> b \<Longrightarrow> radix_val b ds = 0 \<longleftrightarrow> (\<forall>d \<in> set ds. d = 0)"
  by (induction ds rule: rev_induct) auto

lemma radix_of_radix_val:
  assumes b: "2 \<le> b" and ds: "\<forall>d \<in> set ds. d < b"
  shows "radix b (radix_val b ds) = dropWhile (\<lambda>d. d = 0) ds"
  using ds
proof (induction ds rule: rev_induct)
  case Nil
  then show ?case by simp
next
  case (snoc d ds)
  then have IH: "radix b (radix_val b ds) = dropWhile (\<lambda>d. d = 0) ds" and d: "d < b" by auto
  show ?case
  proof (cases "radix_val b ds = 0")
    case True
    then have z: "\<forall>x \<in> set ds. x = 0" using b by (simp add: radix_val_eq_0)
    show ?thesis
      using True z d b by (cases "d = 0") (simp_all add: dropWhile_append radix_pos div_eq_0_iff)
  next
    case False
    then obtain x where "x \<in> set ds" "x \<noteq> 0" using b by (auto simp: radix_val_eq_0)
    then have "dropWhile (\<lambda>d. d = 0) (ds @ [d]) = dropWhile (\<lambda>d. d = 0) ds @ [d]"
      by (metis (mono_tags) dropWhile_append1)
    with False d b IH show ?thesis by (simp add: radix_pos)
  qed
qed

section \<open>The alphabet\<close>

definition ALPHABET :: string where
  "ALPHABET = ''123456789ABCDEFGHJKLMNPQRSTUVWXYZabcdefghijkmnopqrstuvwxyz''"

text \<open>\<open>DECODE_MAP\<close>: 128 entries, \<open>-1\<close> outside the alphabet.\<close>

definition DECODE_MAP :: "int list" where
  "DECODE_MAP = foldl (\<lambda>m i. m[of_char (ALPHABET ! i) := int i]) (replicate 128 (-1))
     [0..<length ALPHABET]"

datatype base58_error = InvalidCharacter char nat

section \<open>Encoding\<close>

text \<open>\<open>while (k < xs.length && xs[k] === x) k++\<close>\<close>

fun leading :: "'a \<Rightarrow> 'a list \<Rightarrow> nat" where
  "leading x [] = 0"
| "leading x (y # ys) = (if y = x then Suc (leading x ys) else 0)"

definition bytes_to_int :: "bytes \<Rightarrow> nat" where
  "bytes_to_int bs = foldl (\<lambda>n b. push_bit 8 n OR unat b) 0 bs"

function encode_digits :: "nat \<Rightarrow> string \<Rightarrow> string" where
  "encode_digits n encoded =
     (if n > 0 then encode_digits (n div 58) (ALPHABET ! (n mod 58) # encoded) else encoded)"
  by pat_completeness auto
termination
  by (relation "measure fst") auto

declare encode_digits.simps [simp del]

definition base58_encode :: "bytes \<Rightarrow> string" where
  "base58_encode bs =
     (if length bs = 0 then ''''
      else let zeros = leading 0 bs;
               encoded = encode_digits (bytes_to_int bs) ''''
           in if zeros > 0 then replicate zeros (CHR ''1'') @ encoded else encoded)"

section \<open>Decoding\<close>

definition decode_char :: "char \<Rightarrow> int" where
  "decode_char c = (let code = of_char c :: nat in if code < 128 then DECODE_MAP ! code else -1)"

fun accumulate_digits :: "nat \<Rightarrow> nat \<Rightarrow> string \<Rightarrow> base58_error + nat" where
  "accumulate_digits n i [] = Inr n"
| "accumulate_digits n i (c # cs) =
     (if decode_char c < 0 then Inl (InvalidCharacter c i)
      else accumulate_digits (n * 58 + nat (decode_char c)) (Suc i) cs)"

function extract_bytes :: "nat \<Rightarrow> bytes \<Rightarrow> bytes" where
  "extract_bytes n bs =
     (if n > 0 then extract_bytes (drop_bit 8 n) (word_of_nat (n AND 0xff) # bs) else bs)"
  by pat_completeness auto
termination
  by (relation "measure fst") (auto simp: drop_bit_eq_div)

declare extract_bytes.simps [simp del]

definition base58_decode :: "string \<Rightarrow> base58_error + bytes" where
  "base58_decode str =
     (if length str = 0 then Inr []
      else let zeros = leading (CHR ''1'') str
           in rbind (accumulate_digits 0 0 str) (\<lambda>n. Inr (replicate zeros 0 @ extract_bytes n [])))"

section \<open>The table\<close>

lemma length_ALPHABET [simp]: "length ALPHABET = 58"
  by (simp add: ALPHABET_def)

lemma distinct_ALPHABET: "distinct ALPHABET"
  by (simp add: ALPHABET_def)

lemma ALPHABET_ascii: "d < 58 \<Longrightarrow> (of_char (ALPHABET ! d) :: nat) < 128"
proof -
  have "\<forall>c \<in> set ALPHABET. (of_char c :: nat) < 128"
    by (simp add: ALPHABET_def of_char_Char)
  then show "d < 58 \<Longrightarrow> ?thesis" by simp
qed

lemma fill_table:
  fixes f :: "nat \<Rightarrow> nat"
  assumes "inj_on f {..<n}" and "\<forall>i < n. f i < length m"
  defines "t \<equiv> foldl (\<lambda>m i. m[f i := int i]) m [0..<n]"
  shows "length t = length m" and "i < n \<Longrightarrow> t ! f i = int i"
    and "k \<notin> f ` {..<n} \<Longrightarrow> t ! k = m ! k"
proof -
  have "length t = length m \<and> (\<forall>i < n. t ! f i = int i) \<and> (\<forall>k. k \<notin> f ` {..<n} \<longrightarrow> t ! k = m ! k)"
    using assms(1,2) unfolding t_def
  proof (induction n)
    case (Suc n)
    then have IH: "length (foldl (\<lambda>m i. m[f i := int i]) m [0..<n]) = length m"
      "\<forall>i < n. foldl (\<lambda>m i. m[f i := int i]) m [0..<n] ! f i = int i"
      "\<forall>k. k \<notin> f ` {..<n} \<longrightarrow> foldl (\<lambda>m i. m[f i := int i]) m [0..<n] ! k = m ! k"
      by (auto simp: inj_on_def)
    moreover have "\<forall>i < n. f i \<noteq> f n"
      using Suc.prems(1) by (auto simp: inj_on_def)
    ultimately show ?case
      using Suc.prems(2) by (auto simp: less_Suc_eq lessThan_Suc)
  qed auto
  then show "length t = length m" "i < n \<Longrightarrow> t ! f i = int i" "k \<notin> f ` {..<n} \<Longrightarrow> t ! k = m ! k"
    by auto
qed

lemma DECODE_MAP_nth:
  "i < 58 \<Longrightarrow> DECODE_MAP ! of_char (ALPHABET ! i) = int i"
  "k < 128 \<Longrightarrow> 0 \<le> DECODE_MAP ! k \<Longrightarrow> \<exists>i < 58. k = of_char (ALPHABET ! i)"
proof -
  let ?f = "\<lambda>i. of_char (ALPHABET ! i) :: nat"
  have "inj_on ?f {..<58}"
    using nth_eq_iff_index_eq [OF distinct_ALPHABET] by (auto simp: inj_on_def)
  moreover have "\<forall>i < 58. ?f i < length (replicate 128 (- 1 :: int))"
    by (simp add: ALPHABET_ascii)
  ultimately have t: "i < 58 \<Longrightarrow> DECODE_MAP ! ?f i = int i"
    "k \<notin> ?f ` {..<58} \<Longrightarrow> DECODE_MAP ! k = replicate 128 (- 1) ! k" for i k
    using fill_table [of ?f 58 "replicate 128 (- 1)"] by (simp_all add: DECODE_MAP_def)
  show "i < 58 \<Longrightarrow> DECODE_MAP ! of_char (ALPHABET ! i) = int i"
    by (rule t(1))
  show "k < 128 \<Longrightarrow> 0 \<le> DECODE_MAP ! k \<Longrightarrow> \<exists>i < 58. k = of_char (ALPHABET ! i)"
    using t(2) [of k] by force
qed

lemma decode_char_alphabet [simp]: "d < 58 \<Longrightarrow> decode_char (ALPHABET ! d) = int d"
  by (simp add: decode_char_def Let_def ALPHABET_ascii DECODE_MAP_nth)

lemma decode_char_nonneg:
  assumes "0 \<le> decode_char c"
  shows "nat (decode_char c) < 58" and "ALPHABET ! nat (decode_char c) = c"
proof -
  have "(of_char c :: nat) < 128" "0 \<le> DECODE_MAP ! of_char c"
    using assms by (auto simp: decode_char_def Let_def split: if_splits)
  then obtain i where "i < 58" "(of_char c :: nat) = of_char (ALPHABET ! i)"
    using DECODE_MAP_nth(2) by blast
  then have "i < 58" "c = ALPHABET ! i" by (auto simp: of_char_eq_iff)
  then show "nat (decode_char c) < 58" "ALPHABET ! nat (decode_char c) = c" by auto
qed

lemma alphabet_0: "ALPHABET ! 0 = CHR ''1''"
  by (simp add: ALPHABET_def)

lemma alphabet_eq_iff: "d < 58 \<Longrightarrow> e < 58 \<Longrightarrow> ALPHABET ! d = ALPHABET ! e \<longleftrightarrow> d = e"
  by (metis decode_char_alphabet of_nat_eq_iff)

section \<open>The loops compute positional notation\<close>

lemma encode_digits_radix: "encode_digits n acc = map ((!) ALPHABET) (radix 58 n) @ acc"
proof (induction n acc rule: encode_digits.induct)
  case (1 n acc)
  then show ?case
    by (cases "n = 0") (simp_all add: encode_digits.simps [of n acc] encode_digits.simps [of 0 acc] radix_pos)
qed

lemma and_0xff: "n AND 0xff = n mod (256 :: nat)"
  using take_bit_eq_mask [of 8 n] by (simp add: take_bit_eq_mod mask_eq_exp_minus_1)

lemma extract_bytes_radix: "extract_bytes n acc = map word_of_nat (radix 256 n) @ acc"
proof (induction n acc rule: extract_bytes.induct)
  case (1 n acc)
  then show ?case
    by (cases "n = 0") (simp_all add: extract_bytes.simps [of n acc] extract_bytes.simps [of 0 acc] radix_pos drop_bit_eq_div and_0xff)
qed

lemma push_or_byte: "push_bit 8 n OR unat (b :: byte) = n * 256 + unat b"
proof -
  have b: "take_bit 8 (unat b) = unat b"
    using unat_byte_bound [of b] by (simp add: take_bit_eq_mod)
  have "push_bit 8 n AND unat b = 0"
  proof (rule bit_eqI)
    fix k
    have "bit (unat b) k \<Longrightarrow> k < 8"
      using b by (metis bit_take_bit_iff)
    then show "bit (push_bit 8 n AND unat b) k \<longleftrightarrow> bit (0 :: nat) k"
      by (auto simp: bit_and_iff bit_push_bit_iff)
  qed
  then show ?thesis
    by (simp flip: disjunctive_add_eq_or add: push_bit_eq_mult)
qed

lemma bytes_to_int_radix: "bytes_to_int bs = radix_val 256 (map unat bs)"
proof (induction bs rule: rev_induct)
  case Nil
  then show ?case by (simp add: bytes_to_int_def)
next
  case (snoc b bs)
  then show ?case by (simp add: bytes_to_int_def push_or_byte)
qed

lemma accumulate_digits_alphabet:
  "\<forall>d \<in> set ds. d < 58 \<Longrightarrow>
     accumulate_digits n i (map ((!) ALPHABET) ds) = Inr (foldl (\<lambda>n d. n * 58 + d) n ds)"
  by (induction ds arbitrary: n i) auto

lemma accumulate_digits_Inr:
  "accumulate_digits n i s = Inr m \<Longrightarrow> \<exists>ds. (\<forall>d \<in> set ds. d < 58) \<and> s = map ((!) ALPHABET) ds"
proof (induction s arbitrary: n i)
  case Nil
  then show ?case by (intro exI [of _ "[]"]) simp
next
  case (Cons c s)
  then obtain ds where "\<forall>d \<in> set ds. d < 58" "s = map ((!) ALPHABET) ds"
    and c: "\<not> decode_char c < 0"
    by (fastforce split: if_splits)
  then show ?case
    by (intro exI [of _ "nat (decode_char c) # ds"]) (auto simp: decode_char_nonneg not_less)
qed

section \<open>Leading digits\<close>

lemma leading_split: "replicate (leading x xs) x @ dropWhile (\<lambda>y. y = x) xs = xs"
  by (induction xs) auto

lemma leading_replicate: "xs = [] \<or> hd xs \<noteq> x \<Longrightarrow> leading x (replicate k x @ xs) = k"
  by (induction k) (cases xs; simp)+

lemma leading_map:
  "(\<And>y. y \<in> set ys \<Longrightarrow> f y = f x \<longleftrightarrow> y = x) \<Longrightarrow> leading (f x) (map f ys) = leading x ys"
  by (induction ys) auto

lemma dropWhile_map_inj:
  "(\<And>y. y \<in> set ys \<Longrightarrow> f y = f x \<longleftrightarrow> y = x) \<Longrightarrow>
     dropWhile (\<lambda>z. z = f x) (map f ys) = map f (dropWhile (\<lambda>z. z = x) ys)"
  by (induction ys) auto

lemma unat_dropWhile: "dropWhile (\<lambda>d. d = 0) (map unat bs) = map unat (dropWhile (\<lambda>b. b = 0) (bs :: bytes))"
  using dropWhile_map_inj [of bs unat 0] by (simp add: unat_eq_0)

section \<open>Round trips\<close>

lemma base58_encode_eq:
  "base58_encode bs = map ((!) ALPHABET) (replicate (leading 0 bs) 0 @ radix 58 (bytes_to_int bs))"
  by (auto simp: base58_encode_def Let_def encode_digits_radix alphabet_0 bytes_to_int_def)

lemma base58_decode_alphabet:
  assumes "\<forall>d \<in> set ds. d < 58"
  shows "base58_decode (map ((!) ALPHABET) ds) =
    Inr (replicate (leading 0 ds) 0 @ map word_of_nat (radix 256 (radix_val 58 ds)))"
proof -
  have "leading (CHR ''1'') (map ((!) ALPHABET) ds) = leading 0 ds"
    using leading_map [of ds "(!) ALPHABET" 0] assms by (simp add: alphabet_0 [symmetric] alphabet_eq_iff)
  moreover have "accumulate_digits 0 0 (map ((!) ALPHABET) ds) = Inr (radix_val 58 ds)"
    using assms by (simp add: accumulate_digits_alphabet radix_val_def)
  ultimately show ?thesis
    by (auto simp: base58_decode_def Let_def extract_bytes_radix)
qed

lemma base58_decode_encode: "base58_decode (base58_encode bs) = Inr bs"
proof -
  let ?n = "bytes_to_int bs"
  let ?ds = "replicate (leading 0 bs) 0 @ radix 58 ?n"
  have lead: "leading 0 ?ds = leading 0 bs"
    by (rule leading_replicate) (use hd_radix [of 58 ?n] radix_Nil_iff [of 58 ?n] in auto)
  have "\<forall>d \<in> set (map unat bs). d < 256" by (auto simp: unat_byte_bound)
  then have "radix 256 ?n = map unat (dropWhile (\<lambda>b. b = 0) bs)"
    by (simp add: bytes_to_int_radix radix_of_radix_val unat_dropWhile)
  moreover have "\<forall>d \<in> set ?ds. d < 58"
    using radix_digits [of 58 _ ?n] by auto
  ultimately show ?thesis
    by (simp add: base58_encode_eq base58_decode_alphabet lead radix_val_radix comp_def leading_split
        del: map_append)
qed

lemma base58_encode_decode: "base58_decode s = Inr bs \<Longrightarrow> base58_encode bs = s"
proof -
  assume dec: "base58_decode s = Inr bs"
  then have "\<exists>m. accumulate_digits 0 0 s = Inr m"
    by (cases "s = []") (auto simp: base58_decode_def Let_def result_simps)
  then obtain ds where ds: "\<forall>d \<in> set ds. d < 58" and s: "s = map ((!) ALPHABET) ds"
    using accumulate_digits_Inr by blast
  let ?v = "radix_val 58 ds"
  let ?w = "map word_of_nat (radix 256 ?v) :: bytes"
  have bs: "bs = replicate (leading 0 ds) 0 @ ?w"
    using dec ds by (simp add: s base58_decode_alphabet)
  have unat_w: "map unat ?w = radix 256 ?v"
    using radix_digits [of 256 _ ?v] by (auto simp: unat_of_nat intro!: map_idI)
  have "leading 0 bs = leading 0 ds"
    unfolding bs
  proof (rule leading_replicate)
    show "?w = [] \<or> hd ?w \<noteq> 0"
    proof (cases "?v = 0")
      case False
      then have "hd (map unat ?w) \<noteq> 0" by (simp add: unat_w hd_radix del: map_map)
      with False show ?thesis
        by (metis hd_map unat_0 map_is_Nil_conv)
    qed simp
  qed
  moreover have "bytes_to_int bs = ?v"
    using radix_val_radix [of 256 ?v] by (simp add: bytes_to_int_radix bs unat_w del: map_map)
  moreover have "replicate (leading 0 ds) 0 @ radix 58 ?v = ds"
    using ds by (simp add: radix_of_radix_val leading_split)
  ultimately show ?thesis by (simp add: base58_encode_eq s del: map_append)
qed

lemma base58_encode_inject: "base58_encode as = base58_encode bs \<longleftrightarrow> as = bs"
  by (metis base58_decode_encode sum.inject(2))

text \<open>Decimal digits, as in \<open>String(n)\<close>.\<close>

definition digit_char :: "nat \<Rightarrow> char" where
  "digit_char d = char_of (48 + d)"

definition decimal :: "nat \<Rightarrow> string" where
  "decimal n = (if n = 0 then ''0'' else map digit_char (radix 10 n))"

end
