(* ===== verification/PublicKey.thy ===== *)
theory PublicKey
  imports Base58
begin

text \<open>
  \<open>packages/solana-core/src/public-key.ts\<close>: a 32-byte value that owns its bytes. The
  private constructor makes the length an invariant of the class, so the model is a
  type of 32-byte lists; \<open>fromBytes\<close> and \<open>fromBase58\<close> are the only ways in.
\<close>

typedef pubkey = "{bs :: bytes. length bs = 32}"
  morphisms toBuffer Abs_pubkey
  by (rule exI [of _ "replicate 32 0"]) simp

datatype pubkey_error = InvalidByteLength nat | BadBase58 base58_error

definition fromBytes :: "bytes \<Rightarrow> pubkey_error + pubkey" where
  "fromBytes bs =
     (if length bs \<noteq> 32 then Inl (InvalidByteLength (length bs)) else Inr (Abs_pubkey bs))"

definition fromBase58 :: "string \<Rightarrow> pubkey_error + pubkey" where
  "fromBase58 s = (case base58_decode s of Inl e \<Rightarrow> Inl (BadBase58 e) | Inr bs \<Rightarrow> fromBytes bs)"

definition toBase58 :: "pubkey \<Rightarrow> string" where
  "toBase58 pk = base58_encode (toBuffer pk)"

text \<open>The element-wise loop of \<open>equals\<close>.\<close>

fun equal_from :: "bytes \<Rightarrow> bytes \<Rightarrow> bool" where
  "equal_from (a # as) (b # bs) = (if a \<noteq> b then False else equal_from as bs)"
| "equal_from _ _ = True"

definition pk_equals :: "pubkey \<Rightarrow> pubkey \<Rightarrow> bool" where
  "pk_equals a b =
     (if length (toBuffer a) \<noteq> length (toBuffer b) then False
      else equal_from (toBuffer a) (toBuffer b))"

lemma length_toBuffer [simp]: "length (toBuffer pk) = 32"
  using toBuffer [of pk] by simp

lemma toBuffer_Abs [simp]: "length bs = 32 \<Longrightarrow> toBuffer (Abs_pubkey bs) = bs"
  by (simp add: Abs_pubkey_inverse)

lemma fromBytes_Inr: "fromBytes bs = Inr pk \<longleftrightarrow> toBuffer pk = bs"
  by (auto simp: fromBytes_def toBuffer_inverse)

lemma fromBytes_toBuffer [simp]: "fromBytes (toBuffer pk) = Inr pk"
  by (simp add: fromBytes_Inr)

lemma toBuffer_eq_iff: "toBuffer a = toBuffer b \<longleftrightarrow> a = b"
  by (rule toBuffer_inject)

lemma toBase58_eq_iff [simp]: "toBase58 a = toBase58 b \<longleftrightarrow> a = b"
  by (simp add: toBase58_def base58_encode_inject toBuffer_eq_iff)

text \<open>Equality of keys is computed on their bytes.\<close>

instantiation pubkey :: equal
begin

definition equal_pubkey :: "pubkey \<Rightarrow> pubkey \<Rightarrow> bool" where
  "equal_pubkey a b \<longleftrightarrow> toBuffer a = toBuffer b"

instance
  by standard (simp add: equal_pubkey_def toBuffer_eq_iff)

end

lemma inj_toBase58: "inj toBase58"
  by (rule injI) simp

lemma fromBase58_toBase58 [simp]: "fromBase58 (toBase58 pk) = Inr pk"
  by (simp add: fromBase58_def toBase58_def base58_decode_encode)

lemma toBase58_fromBase58: "fromBase58 s = Inr pk \<Longrightarrow> toBase58 pk = s"
  by (auto simp: fromBase58_def toBase58_def fromBytes_Inr base58_encode_decode split: sum.splits)

lemma equal_from_eq: "length as = length bs \<Longrightarrow> equal_from as bs \<longleftrightarrow> as = bs"
  by (induction as bs rule: equal_from.induct) auto

lemma pk_equals_eq [simp]: "pk_equals a b \<longleftrightarrow> a = b"
  by (simp add: pk_equals_def equal_from_eq toBuffer_eq_iff)

text \<open>Concrete keys for closed examples: 31 zero bytes and a last one.\<close>

definition key_of :: "nat \<Rightarrow> pubkey" where
  "key_of n = Abs_pubkey (replicate 31 0 @ [word_of_nat n])"

lemma toBuffer_key_of: "toBuffer (key_of n) = replicate 31 0 @ [word_of_nat n]"
  by (simp add: key_of_def)

lemma key_of_eq [simp]: "key_of m = key_of n \<longleftrightarrow> m mod 256 = n mod 256"
proof -
  have "key_of m = key_of n \<longleftrightarrow> (word_of_nat m :: byte) = word_of_nat n"
    by (metis append_same_eq list.inject toBuffer_eq_iff toBuffer_key_of append1_eq_conv)
  also have "\<dots> \<longleftrightarrow> m mod 256 = n mod 256"
    by (simp add: word_of_nat_eq_iff take_bit_eq_mod)
  finally show ?thesis .
qed

text \<open>The zero key, \<open>PublicKey.fromBytes(new Uint8Array(32))\<close>.\<close>

definition zero_key :: pubkey where
  "zero_key = Abs_pubkey (replicate 32 0)"

lemma toBuffer_zero_key [simp]: "toBuffer zero_key = replicate 32 0"
  by (simp add: zero_key_def)

end
