(* ===== verification/Utf8.thy ===== *)
theory Utf8
  imports Prelude
begin

text \<open>
  What \<open>borsh.ts\<close> uses of the platform's \<open>TextEncoder\<close> and \<open>TextDecoder\<close> (WHATWG
  encoding standard). A string is its list of code points; the encoder replaces lone
  surrogates by U+FFFD, the decoder (\<open>fatal: true\<close>, \<open>ignoreBOM\<close> left at its default
  \<open>false\<close>) rejects malformed input and drops one leading byte order mark.
\<close>

type_synonym ustring = "nat list"

definition scalar :: "nat \<Rightarrow> bool" where
  "scalar c \<longleftrightarrow> c < 0xD800 \<or> 0xDFFF < c \<and> c < 0x110000"

definition to_scalar :: "nat \<Rightarrow> nat" where
  "to_scalar c = (if scalar c then c else 0xFFFD)"

definition utf8_char :: "nat \<Rightarrow> nat list" where
  "utf8_char c =
     (if c < 0x80 then [c]
      else if c < 0x800 then [0xC0 + c div 64, 0x80 + c mod 64]
      else if c < 0x10000 then [0xE0 + c div 4096, 0x80 + c div 64 mod 64, 0x80 + c mod 64]
      else [0xF0 + c div 262144, 0x80 + c div 4096 mod 64, 0x80 + c div 64 mod 64, 0x80 + c mod 64])"

definition text_encode :: "ustring \<Rightarrow> bytes" where
  "text_encode s = map word_of_nat (concat (map (utf8_char \<circ> to_scalar) s))"

definition cont :: "nat \<Rightarrow> bool" where
  "cont b \<longleftrightarrow> 0x80 \<le> b \<and> b \<le> 0xBF"

fun utf8_decode :: "nat list \<Rightarrow> ustring option" where
  "utf8_decode [] = Some []"
| "utf8_decode (a # bs) =
     (if a < 0x80 then map_option ((#) a) (utf8_decode bs)
      else if 0xC2 \<le> a \<and> a \<le> 0xDF then
        (case bs of
           b # bs' \<Rightarrow> if cont b then map_option ((#) ((a - 0xC0) * 64 + (b - 0x80))) (utf8_decode bs') else None
         | _ \<Rightarrow> None)
      else if 0xE0 \<le> a \<and> a \<le> 0xEF then
        (case bs of
           b # c # bs' \<Rightarrow>
             if cont b \<and> cont c \<and> (a = 0xE0 \<longrightarrow> 0xA0 \<le> b) \<and> (a = 0xED \<longrightarrow> b \<le> 0x9F)
             then map_option ((#) ((a - 0xE0) * 4096 + (b - 0x80) * 64 + (c - 0x80))) (utf8_decode bs')
             else None
         | _ \<Rightarrow> None)
      else if 0xF0 \<le> a \<and> a \<le> 0xF4 then
        (case bs of
           b # c # d # bs' \<Rightarrow>
             if cont b \<and> cont c \<and> cont d \<and> (a = 0xF0 \<longrightarrow> 0x90 \<le> b) \<and> (a = 0xF4 \<longrightarrow> b \<le> 0x8F)
             then map_option ((#) ((a - 0xF0) * 262144 + (b - 0x80) * 4096 + (c - 0x80) * 64 + (d - 0x80)))
                    (utf8_decode bs')
             else None
         | _ \<Rightarrow> None)
      else None)"

definition drop_bom :: "ustring \<Rightarrow> ustring" where
  "drop_bom s = (case s of c # cs \<Rightarrow> if c = 0xFEFF then cs else s | [] \<Rightarrow> [])"

definition text_decode :: "bytes \<Rightarrow> ustring option" where
  "text_decode bs = map_option drop_bom (utf8_decode (map unat bs))"

lemma utf8_char_byte: "c < 0x110000 \<Longrightarrow> b \<in> set (utf8_char c) \<Longrightarrow> b < 256"
  by (auto simp: utf8_char_def split: if_splits)

lemma to_scalar_scalar [simp]: "scalar (to_scalar c)"
  by (simp add: to_scalar_def scalar_def)

lemma scalar_bound: "scalar c \<Longrightarrow> c < 0x110000"
  by (auto simp: scalar_def)

lemma utf8_decode_char:
  assumes "scalar c"
  shows "utf8_decode (utf8_char c @ bs) = map_option ((#) c) (utf8_decode bs)"
proof -
  consider "c < 0x80" | "0x80 \<le> c" "c < 0x800" | "0x800 \<le> c" "c < 0x10000" | "0x10000 \<le> c" "c < 0x110000"
    using scalar_bound [OF assms] by linarith
  then show ?thesis
  proof cases
    case 1
    then show ?thesis by (simp add: utf8_char_def)
  next
    case 2
    then have "c div 64 * 64 + c mod 64 = c" "2 \<le> c div 64" "c div 64 < 32" "c mod 64 \<le> 63" by auto
    moreover have "utf8_char c = [0xC0 + c div 64, 0x80 + c mod 64]"
      using 2 by (simp add: utf8_char_def)
    ultimately show ?thesis by (simp add: cont_def)
  next
    case 3
    have "c = c div 64 * 64 + c mod 64" "c div 64 = c div 4096 * 64 + c div 64 mod 64"
      by (simp_all add: div_mult2_eq [of c 64 64, simplified])
    then have c: "c div 4096 * 4096 + c div 64 mod 64 * 64 + c mod 64 = c" by linarith
    moreover have "c div 4096 < 16" using 3 by auto
    moreover have "c div 4096 = 0 \<longrightarrow> 32 \<le> c div 64 mod 64" using 3 by auto
    moreover have "c div 4096 = 13 \<longrightarrow> c div 64 mod 64 \<le> 31"
    proof
      assume h: "c div 4096 = 13"
      then have "c < 57344" using c by auto
      then have "c < 0xD800" using assms by (auto simp: scalar_def)
      then show "c div 64 mod 64 \<le> 31" using c h by auto
    qed
    moreover have "c mod 64 \<le> 63" "c div 64 mod 64 \<le> 63" by auto
    moreover have "utf8_char c = [0xE0 + c div 4096, 0x80 + c div 64 mod 64, 0x80 + c mod 64]"
      using 3 by (simp add: utf8_char_def)
    ultimately show ?thesis by (simp add: cont_def)
  next
    case 4
    have "c = c div 64 * 64 + c mod 64" "c div 64 = c div 4096 * 64 + c div 64 mod 64"
      "c div 4096 = c div 262144 * 64 + c div 4096 mod 64"
      by (simp_all add: div_mult2_eq [of c 64 64, simplified] div_mult2_eq [of c 4096 64, simplified])
    then have c: "c div 262144 * 262144 + c div 4096 mod 64 * 4096 + c div 64 mod 64 * 64 + c mod 64 = c"
      by linarith
    moreover have "c div 262144 \<le> 4" using 4 by auto
    moreover have "c div 262144 = 0 \<longrightarrow> 16 \<le> c div 4096 mod 64" using 4 by auto
    moreover have "c div 262144 = 4 \<longrightarrow> c div 4096 mod 64 \<le> 15" using 4 c by auto
    moreover have "c mod 64 \<le> 63" "c div 64 mod 64 \<le> 63" "c div 4096 mod 64 \<le> 63" by auto
    moreover have "utf8_char c =
        [0xF0 + c div 262144, 0x80 + c div 4096 mod 64, 0x80 + c div 64 mod 64, 0x80 + c mod 64]"
      using 4 by (simp add: utf8_char_def)
    ultimately show ?thesis by (simp add: cont_def)
  qed
qed

lemma map_unat_word_of_nat: "\<forall>n \<in> set ns. n < 256 \<Longrightarrow> map unat (map word_of_nat ns :: bytes) = ns"
  by (induction ns) (auto simp: unat_of_nat)

lemma text_decode_encode:
  assumes "\<forall>c \<in> set s. scalar c"
  shows "text_decode (text_encode s) = Some (drop_bom s)"
proof -
  have "utf8_decode (concat (map (utf8_char \<circ> to_scalar) s)) = Some s"
    using assms by (induction s) (simp_all add: utf8_decode_char to_scalar_def)
  moreover have "map unat (text_encode s) = concat (map (utf8_char \<circ> to_scalar) s)"
    unfolding text_encode_def
    by (rule map_unat_word_of_nat) (auto intro: utf8_char_byte [OF scalar_bound [OF to_scalar_scalar]])
  ultimately show ?thesis by (simp add: text_decode_def)
qed

lemma utf8_decode_concat: "utf8_decode (concat (map (utf8_char \<circ> to_scalar) s)) = Some (map to_scalar s)"
  by (induction s) (simp_all add: utf8_decode_char)

lemma text_encode_eq: "text_encode a = text_encode b \<longleftrightarrow> map to_scalar a = map to_scalar b"
proof
  assume "text_encode a = text_encode b"
  moreover have bytes: "\<forall>n \<in> set (concat (map (utf8_char \<circ> to_scalar) s)). n < 256" for s
    using utf8_char_byte scalar_bound[OF to_scalar_scalar] by auto
  ultimately have "concat (map (utf8_char \<circ> to_scalar) a) = concat (map (utf8_char \<circ> to_scalar) b)"
    unfolding text_encode_def by (metis map_unat_word_of_nat)
  then show "map to_scalar a = map to_scalar b"
    using utf8_decode_concat[of a] utf8_decode_concat[of b] by simp
next
  assume "map to_scalar a = map to_scalar b"
  then have "map utf8_char (map to_scalar a) = map utf8_char (map to_scalar b)" by simp
  then show "text_encode a = text_encode b" by (simp add: text_encode_def)
qed

end
