(* ===== verification/Borsh.thy ===== *)
theory Borsh
  imports PublicKey Utf8
begin

text \<open>
  \<open>packages/solana-core/src/borsh.ts\<close>: the cursor \<open>Reader\<close> and the growable \<open>Writer\<close>.
  Method calls pass the object's state explicitly. A wire type is an interpretation of
  the locale \<open>borsh_codec\<close>: what the writer appends, the reader takes off again.
\<close>

section \<open>Reader\<close>

record reader =
  rbuf :: bytes
  roffset :: nat

datatype read_what = WU8 | WU16 | WU32 | WU64 | WI64 | WBool | WRaw nat | WOptionTag

datatype borsh_error =
    UnexpectedEnd read_what nat nat int  \<comment> \<open>needed, offset, remaining\<close>
  | InvalidBool byte nat
  | InvalidOption byte nat
  | BadPubkey pubkey_error
  | MalformedUtf8

definition new_reader :: "bytes \<Rightarrow> reader" where
  "new_reader buf = \<lparr>rbuf = buf, roffset = 0\<rparr>"

definition remaining :: "reader \<Rightarrow> int" where
  "remaining r = int (length (rbuf r)) - int (roffset r)"

definition requireRemaining :: "nat \<Rightarrow> read_what \<Rightarrow> reader \<Rightarrow> borsh_error + unit" where
  "requireRemaining n what r =
     (if remaining r < int n then Inl (UnexpectedEnd what n (roffset r) (remaining r)) else Inr ())"

text \<open>\<open>#view.getUintN(this.offset, true)\<close> and the cursor advance.\<close>

definition view_le :: "nat \<Rightarrow> reader \<Rightarrow> nat" where
  "view_le k r = le_val (jslice (rbuf r) (roffset r) (roffset r + k))"

definition advance :: "nat \<Rightarrow> reader \<Rightarrow> reader" where
  "advance k r = r\<lparr>roffset := roffset r + k\<rparr>"

definition readU8 :: "reader \<Rightarrow> borsh_error + (int \<times> reader)" where
  "readU8 r = rbind (requireRemaining 1 WU8 r) (\<lambda>_. Inr (int (view_le 1 r), advance 1 r))"

definition readU16 :: "reader \<Rightarrow> borsh_error + (int \<times> reader)" where
  "readU16 r = rbind (requireRemaining 2 WU16 r) (\<lambda>_. Inr (int (view_le 2 r), advance 2 r))"

definition readU32 :: "reader \<Rightarrow> borsh_error + (int \<times> reader)" where
  "readU32 r = rbind (requireRemaining 4 WU32 r) (\<lambda>_. Inr (int (view_le 4 r), advance 4 r))"

definition readU64 :: "reader \<Rightarrow> borsh_error + (int \<times> reader)" where
  "readU64 r = rbind (requireRemaining 8 WU64 r) (\<lambda>_. Inr (int (view_le 8 r), advance 8 r))"

definition readI64 :: "reader \<Rightarrow> borsh_error + (int \<times> reader)" where
  "readI64 r = rbind (requireRemaining 8 WI64 r)
     (\<lambda>_. Inr (sint (word_of_nat (view_le 8 r) :: 64 word), advance 8 r))"

definition readBool :: "reader \<Rightarrow> borsh_error + (bool \<times> reader)" where
  "readBool r = rbind (requireRemaining 1 WBool r) (\<lambda>_.
     let b = rbuf r ! roffset r
     in if b \<noteq> 0x00 \<and> b \<noteq> 0x01 then Inl (InvalidBool b (roffset r))
        else Inr (b = 0x01, advance 1 r))"

definition readBytes :: "nat \<Rightarrow> reader \<Rightarrow> borsh_error + (bytes \<times> reader)" where
  "readBytes n r = rbind (requireRemaining n (WRaw n) r)
     (\<lambda>_. Inr (jslice (rbuf r) (roffset r) (roffset r + n), advance n r))"

fun read_items :: "(reader \<Rightarrow> borsh_error + ('a \<times> reader)) \<Rightarrow> nat \<Rightarrow> reader \<Rightarrow>
    borsh_error + ('a list \<times> reader)" where
  "read_items item 0 r = Inr ([], r)"
| "read_items item (Suc n) r = rbind (item r) (\<lambda>(x, r1).
     rbind (read_items item n r1) (\<lambda>(xs, r2). Inr (x # xs, r2)))"

definition readVec :: "(reader \<Rightarrow> borsh_error + ('a \<times> reader)) \<Rightarrow> reader \<Rightarrow>
    borsh_error + ('a list \<times> reader)" where
  "readVec item r = rbind (readU32 r) (\<lambda>(len, r1). read_items item (nat len) r1)"

definition readOption :: "(reader \<Rightarrow> borsh_error + ('a \<times> reader)) \<Rightarrow> reader \<Rightarrow>
    borsh_error + ('a option \<times> reader)" where
  "readOption item r = rbind (requireRemaining 1 WOptionTag r) (\<lambda>_.
     let disc = rbuf r ! roffset r
     in if disc \<noteq> 0x00 \<and> disc \<noteq> 0x01 then Inl (InvalidOption disc (roffset r))
        else if disc = 0x00 then Inr (None, advance 1 r)
        else rbind (item (advance 1 r)) (\<lambda>(x, r1). Inr (Some x, r1)))"

definition readPubkey :: "reader \<Rightarrow> borsh_error + (pubkey \<times> reader)" where
  "readPubkey r = rbind (readBytes 32 r) (\<lambda>(bs, r1).
     case fromBytes bs of Inl e \<Rightarrow> Inl (BadPubkey e) | Inr pk \<Rightarrow> Inr (pk, r1))"

definition readString :: "reader \<Rightarrow> borsh_error + (ustring \<times> reader)" where
  "readString r = rbind (readU32 r) (\<lambda>(len, r1). rbind (readBytes (nat len) r1) (\<lambda>(bs, r2).
     case text_decode bs of None \<Rightarrow> Inl MalformedUtf8 | Some s \<Rightarrow> Inr (s, r2)))"

section \<open>Writer\<close>

record writer =
  wbuf :: bytes
  wlen :: nat

definition INITIAL_CAPACITY :: nat where "INITIAL_CAPACITY = 128"

definition new_writer :: writer where
  "new_writer = \<lparr>wbuf = replicate INITIAL_CAPACITY 0, wlen = 0\<rparr>"

text \<open>
  \<open>while (next < required) next *= 2\<close>. The capacity is never 0 (\<open>writer_inv\<close>), which is
  what makes the loop end.
\<close>

function grow_capacity :: "nat \<Rightarrow> nat \<Rightarrow> nat" where
  "grow_capacity cap required =
     (if 0 < cap \<and> cap < required then grow_capacity (cap * 2) required else cap)"
  by pat_completeness auto
termination
  by (relation "measure (\<lambda>(cap, required). required - cap)") auto

declare grow_capacity.simps [simp del]

definition ensureCapacity :: "nat \<Rightarrow> writer \<Rightarrow> writer" where
  "ensureCapacity n w =
     (let required = wlen w + n
      in if required \<le> length (wbuf w) then w
         else let cap = grow_capacity (length (wbuf w)) required
              in w\<lparr>wbuf := take (wlen w) (wbuf w) @ replicate (cap - wlen w) 0\<rparr>)"

text \<open>\<open>#view.set...(this.#length, ...)\<close> or \<open>#buf.set(bytes, this.#length)\<close>, after the growth.\<close>

definition store :: "bytes \<Rightarrow> writer \<Rightarrow> writer" where
  "store bs w =
     (let w1 = ensureCapacity (length bs) w
      in w1\<lparr>wbuf := take (wlen w1) (wbuf w1) @ bs @ drop (wlen w1 + length bs) (wbuf w1),
            wlen := wlen w1 + length bs\<rparr>)"

definition writeU8 :: "writer \<Rightarrow> int \<Rightarrow> writer" where
  "writeU8 w v = store (le_bytes 1 (nat (v mod 2 ^ 8))) w"

definition writeU16 :: "writer \<Rightarrow> int \<Rightarrow> writer" where
  "writeU16 w v = store (le_bytes 2 (nat (v mod 2 ^ 16))) w"

definition writeU32 :: "writer \<Rightarrow> int \<Rightarrow> writer" where
  "writeU32 w v = store (le_bytes 4 (nat (v mod 2 ^ 32))) w"

definition writeU64 :: "writer \<Rightarrow> int \<Rightarrow> writer" where
  "writeU64 w v = store (le_bytes 8 (nat (v mod 2 ^ 64))) w"

definition writeI64 :: "writer \<Rightarrow> int \<Rightarrow> writer" where
  "writeI64 w v = store (le_bytes 8 (nat (v mod 2 ^ 64))) w"

definition writeBool :: "writer \<Rightarrow> bool \<Rightarrow> writer" where
  "writeBool w v = writeU8 w (if v then 0x01 else 0x00)"

definition writeBytes :: "writer \<Rightarrow> bytes \<Rightarrow> writer" where
  "writeBytes w bs = store bs w"

definition writeString :: "writer \<Rightarrow> ustring \<Rightarrow> writer" where
  "writeString w s = (let bs = text_encode s in writeBytes (writeU32 w (int (length bs))) bs)"

definition writeVec :: "(writer \<Rightarrow> 'a \<Rightarrow> writer) \<Rightarrow> writer \<Rightarrow> 'a list \<Rightarrow> writer" where
  "writeVec item w xs = foldl item (writeU32 w (int (length xs))) xs"

definition writeOption :: "(writer \<Rightarrow> 'a \<Rightarrow> writer) \<Rightarrow> writer \<Rightarrow> 'a option \<Rightarrow> writer" where
  "writeOption item w v =
     (case v of None \<Rightarrow> writeU8 w 0x00 | Some x \<Rightarrow> item (writeU8 w 0x01) x)"

definition writePubkey :: "writer \<Rightarrow> pubkey \<Rightarrow> writer" where
  "writePubkey w pk = writeBytes w (toBuffer pk)"

definition toBytes :: "writer \<Rightarrow> bytes" where
  "toBytes w = take (wlen w) (wbuf w)"

section \<open>The writer's invariant and what it appends\<close>

definition writer_inv :: "writer \<Rightarrow> bool" where
  "writer_inv w \<longleftrightarrow> wlen w \<le> length (wbuf w) \<and> 0 < length (wbuf w)
     \<and> (length (wbuf w) = INITIAL_CAPACITY \<or> length (wbuf w) < 2 * wlen w)"

lemma grow_capacity_bounds:
  "0 < cap \<Longrightarrow> cap < required \<Longrightarrow> required \<le> grow_capacity cap required \<and> grow_capacity cap required < 2 * required"
proof (induction cap required rule: grow_capacity.induct)
  case (1 cap required)
  then show ?case
    by (cases "cap * 2 < required")
      (simp_all add: grow_capacity.simps [of cap required] grow_capacity.simps [of "cap * 2" required])
qed

lemma writer_inv_new [simp]: "writer_inv new_writer"
  by (simp add: writer_inv_def new_writer_def INITIAL_CAPACITY_def)

lemma toBytes_new [simp]: "toBytes new_writer = []"
  by (simp add: toBytes_def new_writer_def)

lemma length_toBytes: "writer_inv w \<Longrightarrow> length (toBytes w) = wlen w"
  by (simp add: writer_inv_def toBytes_def)

lemma store_spec:
  assumes "writer_inv w"
  shows "writer_inv (store bs w) \<and> toBytes (store bs w) = toBytes w @ bs"
proof (cases "wlen w + length bs \<le> length (wbuf w)")
  case True
  with assms show ?thesis
    by (auto simp: writer_inv_def toBytes_def store_def ensureCapacity_def Let_def)
next
  case False
  let ?cap = "grow_capacity (length (wbuf w)) (wlen w + length bs)"
  have "wlen w + length bs \<le> ?cap \<and> ?cap < 2 * (wlen w + length bs)"
    using assms False by (intro grow_capacity_bounds) (auto simp: writer_inv_def)
  with assms False show ?thesis
    by (auto simp: writer_inv_def toBytes_def store_def ensureCapacity_def Let_def)
qed

section \<open>Codecs\<close>

locale borsh_codec =
  fixes enc :: "'a \<Rightarrow> bytes"
    and rd :: "reader \<Rightarrow> borsh_error + ('a \<times> reader)"
    and wr :: "writer \<Rightarrow> 'a \<Rightarrow> writer"
    and ok :: "'a \<Rightarrow> bool"
  assumes read_enc: "ok x \<Longrightarrow> rd \<lparr>rbuf = pre @ enc x @ post, roffset = length pre\<rparr> =
      Inr (x, \<lparr>rbuf = pre @ enc x @ post, roffset = length pre + length (enc x)\<rparr>)"
    and write_enc: "ok x \<Longrightarrow> writer_inv w \<Longrightarrow>
      writer_inv (wr w x) \<and> toBytes (wr w x) = toBytes w @ enc x"
begin

lemma roundtrip:
  assumes "ok x" and "writer_inv w"
  shows "rd \<lparr>rbuf = toBytes (wr w x), roffset = wlen w\<rparr> =
    Inr (x, \<lparr>rbuf = toBytes (wr w x), roffset = wlen (wr w x)\<rparr>)"
proof -
  have w: "toBytes (wr w x) = toBytes w @ enc x" "writer_inv (wr w x)"
    using write_enc assms by auto
  then have "wlen (wr w x) = wlen w + length (enc x)"
    using assms(2) length_toBytes by (metis length_append)
  then show ?thesis
    using read_enc [OF assms(1), of "toBytes w" "[]"] assms(2) by (simp add: w length_toBytes)
qed

lemma read_items_enc:
  assumes "\<forall>x \<in> set xs. ok x"
  shows "read_items rd (length xs) \<lparr>rbuf = pre @ concat (map enc xs) @ post, roffset = length pre\<rparr> =
    Inr (xs, \<lparr>rbuf = pre @ concat (map enc xs) @ post,
              roffset = length pre + length (concat (map enc xs))\<rparr>)"
  using assms
proof (induction xs arbitrary: pre)
  case Nil
  then show ?case by simp
next
  case (Cons x xs)
  have "rd \<lparr>rbuf = pre @ enc x @ concat (map enc xs) @ post, roffset = length pre\<rparr> =
      Inr (x, \<lparr>rbuf = pre @ enc x @ concat (map enc xs) @ post, roffset = length pre + length (enc x)\<rparr>)"
    using Cons.prems by (intro read_enc) simp
  moreover have "read_items rd (length xs)
        \<lparr>rbuf = (pre @ enc x) @ concat (map enc xs) @ post, roffset = length (pre @ enc x)\<rparr> =
      Inr (xs, \<lparr>rbuf = (pre @ enc x) @ concat (map enc xs) @ post,
                roffset = length (pre @ enc x) + length (concat (map enc xs))\<rparr>)"
    using Cons.prems by (intro Cons.IH) simp
  ultimately show ?case by simp
qed

lemma write_items_enc:
  assumes "\<forall>x \<in> set xs. ok x" and "writer_inv w"
  shows "writer_inv (foldl wr w xs) \<and> toBytes (foldl wr w xs) = toBytes w @ concat (map enc xs)"
  using assms
proof (induction xs arbitrary: w)
  case Nil
  then show ?case by simp
next
  case (Cons x xs)
  then have "writer_inv (wr w x)" "toBytes (wr w x) = toBytes w @ enc x"
    using write_enc by auto
  with Cons show ?case by simp
qed

end

section \<open>The wire types\<close>

definition enc_uint :: "nat \<Rightarrow> int \<Rightarrow> bytes" where
  "enc_uint k v = le_bytes k (nat (v mod 2 ^ (8 * k)))"

definition fits :: "nat \<Rightarrow> int \<Rightarrow> bool" where
  "fits k v \<longleftrightarrow> 0 \<le> v \<and> v < 2 ^ (8 * k)"

definition fits_i64 :: "int \<Rightarrow> bool" where
  "fits_i64 v \<longleftrightarrow> - (2 ^ 63) \<le> v \<and> v < 2 ^ 63"

definition enc_bool :: "bool \<Rightarrow> bytes" where
  "enc_bool v = [if v then 1 else 0]"

definition enc_vec :: "('a \<Rightarrow> bytes) \<Rightarrow> 'a list \<Rightarrow> bytes" where
  "enc_vec enc xs = enc_uint 4 (int (length xs)) @ concat (map enc xs)"

definition enc_option :: "('a \<Rightarrow> bytes) \<Rightarrow> 'a option \<Rightarrow> bytes" where
  "enc_option enc v = (case v of None \<Rightarrow> [0] | Some x \<Rightarrow> 1 # enc x)"

definition enc_string :: "ustring \<Rightarrow> bytes" where
  "enc_string s = enc_uint 4 (int (length (text_encode s))) @ text_encode s"

definition ok_vec :: "('a \<Rightarrow> bool) \<Rightarrow> 'a list \<Rightarrow> bool" where
  "ok_vec ok xs \<longleftrightarrow> int (length xs) < 2 ^ 32 \<and> list_all ok xs"

definition ok_string :: "ustring \<Rightarrow> bool" where
  "ok_string s \<longleftrightarrow> list_all scalar s \<and> (s = [] \<or> hd s \<noteq> 0xFEFF) \<and> int (length (text_encode s)) < 2 ^ 32"

lemma require_enc [simp]:
  "k \<le> length xs \<Longrightarrow> requireRemaining k what \<lparr>rbuf = pre @ xs, roffset = length pre\<rparr> = Inr ()"
  by (simp add: requireRemaining_def remaining_def)

lemma length_enc_uint [simp]: "length (enc_uint k v) = k"
  by (simp add: enc_uint_def)

lemma view_le_enc [simp]:
  "view_le k \<lparr>rbuf = pre @ enc_uint k v @ post, roffset = length pre\<rparr> = nat (v mod 2 ^ (8 * k))"
proof -
  have "nat (v mod 2 ^ (8 * k)) < 2 ^ (8 * k)"
    using pos_mod_bound [of "2 ^ (8 * k)" v] by (simp add: nat_less_iff)
  then have "nat (v mod 2 ^ (8 * k)) < 256 ^ k"
    by (simp add: power_mult)
  moreover have "jslice (pre @ enc_uint k v @ post) (length pre) (length pre + k) = enc_uint k v"
    using jslice_append [of pre "enc_uint k v" post] by simp
  ultimately show ?thesis by (simp add: view_le_def enc_uint_def le_val_le_bytes_small)
qed

lemma fits_mod: "fits k v \<Longrightarrow> v mod 2 ^ (8 * k) = v"
  by (simp add: fits_def)

lemma fits_nat: "fits k v \<Longrightarrow> int (nat (v mod 2 ^ (8 * k))) = v"
  by (simp add: fits_mod) (simp add: fits_def)

lemmas read_defs = readU8_def readU16_def readU32_def readU64_def advance_def
lemmas write_defs = writeU8_def writeU16_def writeU32_def writeU64_def

interpretation u8: borsh_codec "enc_uint 1" readU8 writeU8 "fits 1"
proof unfold_locales
  show "fits 1 x \<Longrightarrow> readU8 \<lparr>rbuf = pre @ enc_uint 1 x @ post, roffset = length pre\<rparr> =
      Inr (x, \<lparr>rbuf = pre @ enc_uint 1 x @ post, roffset = length pre + length (enc_uint 1 x)\<rparr>)" for x pre post
    using fits_nat [of 1 x] by (simp add: read_defs)
qed (use store_spec in \<open>simp add: write_defs enc_uint_def\<close>)

interpretation u16: borsh_codec "enc_uint 2" readU16 writeU16 "fits 2"
proof unfold_locales
  show "fits 2 x \<Longrightarrow> readU16 \<lparr>rbuf = pre @ enc_uint 2 x @ post, roffset = length pre\<rparr> =
      Inr (x, \<lparr>rbuf = pre @ enc_uint 2 x @ post, roffset = length pre + length (enc_uint 2 x)\<rparr>)" for x pre post
    using fits_nat [of 2 x] by (simp add: read_defs)
qed (use store_spec in \<open>simp add: write_defs enc_uint_def\<close>)

interpretation u32: borsh_codec "enc_uint 4" readU32 writeU32 "fits 4"
proof unfold_locales
  show "fits 4 x \<Longrightarrow> readU32 \<lparr>rbuf = pre @ enc_uint 4 x @ post, roffset = length pre\<rparr> =
      Inr (x, \<lparr>rbuf = pre @ enc_uint 4 x @ post, roffset = length pre + length (enc_uint 4 x)\<rparr>)" for x pre post
    using fits_nat [of 4 x] by (simp add: read_defs)
qed (use store_spec in \<open>simp add: write_defs enc_uint_def\<close>)

interpretation u64: borsh_codec "enc_uint 8" readU64 writeU64 "fits 8"
proof unfold_locales
  show "fits 8 x \<Longrightarrow> readU64 \<lparr>rbuf = pre @ enc_uint 8 x @ post, roffset = length pre\<rparr> =
      Inr (x, \<lparr>rbuf = pre @ enc_uint 8 x @ post, roffset = length pre + length (enc_uint 8 x)\<rparr>)" for x pre post
    using fits_nat [of 8 x] by (simp add: read_defs)
qed (use store_spec in \<open>simp add: write_defs enc_uint_def\<close>)

lemma sint_word_of_int_small: "fits_i64 v \<Longrightarrow> sint (word_of_int v :: 64 word) = v"
  by (simp add: signed_of_int signed_take_bit_int_eq_self fits_i64_def)

lemma sint_i64: "fits_i64 v \<Longrightarrow> sint (word_of_nat (nat (v mod 2 ^ 64)) :: 64 word) = v"
proof -
  assume v: "fits_i64 v"
  have "(word_of_nat (nat (v mod 2 ^ 64)) :: 64 word) = word_of_int (int (nat (v mod 2 ^ 64)))"
    by (simp only: of_int_of_nat_eq)
  also have "\<dots> = word_of_int (v mod 2 ^ 64)"
    by simp
  also have "\<dots> = word_of_int v"
    by (simp add: word_of_int_eq_iff take_bit_eq_mod)
  finally show ?thesis
    using v by (simp add: sint_word_of_int_small)
qed

interpretation i64: borsh_codec "enc_uint 8" readI64 writeI64 fits_i64
proof unfold_locales
  show "fits_i64 x \<Longrightarrow> readI64 \<lparr>rbuf = pre @ enc_uint 8 x @ post, roffset = length pre\<rparr> =
      Inr (x, \<lparr>rbuf = pre @ enc_uint 8 x @ post, roffset = length pre + length (enc_uint 8 x)\<rparr>)" for x pre post
    using sint_i64 [of x] by (simp add: readI64_def advance_def)
qed (use store_spec in \<open>simp add: writeI64_def enc_uint_def\<close>)

interpretation bool: borsh_codec enc_bool readBool writeBool "\<lambda>_. True"
proof unfold_locales
  show "readBool \<lparr>rbuf = pre @ enc_bool x @ post, roffset = length pre\<rparr> =
      Inr (x, \<lparr>rbuf = pre @ enc_bool x @ post, roffset = length pre + length (enc_bool x)\<rparr>)" for x pre post
    by (simp add: readBool_def enc_bool_def Let_def advance_def)
qed (use store_spec in \<open>simp add: writeBool_def writeU8_def enc_bool_def\<close>)

lemma readBytes_enc:
  "readBytes (length bs) \<lparr>rbuf = pre @ bs @ post, roffset = length pre\<rparr> =
    Inr (bs, \<lparr>rbuf = pre @ bs @ post, roffset = length pre + length bs\<rparr>)"
  by (simp add: readBytes_def advance_def jslice_append)

interpretation pubkey: borsh_codec toBuffer readPubkey writePubkey "\<lambda>_. True"
proof unfold_locales
  show "readPubkey \<lparr>rbuf = pre @ toBuffer x @ post, roffset = length pre\<rparr> =
      Inr (x, \<lparr>rbuf = pre @ toBuffer x @ post, roffset = length pre + length (toBuffer x)\<rparr>)" for x pre post
    using readBytes_enc [of "toBuffer x" pre post] by (simp add: readPubkey_def)
qed (use store_spec in \<open>simp add: writePubkey_def writeBytes_def\<close>)

interpretation str: borsh_codec enc_string readString writeString ok_string
proof unfold_locales
  show "readString \<lparr>rbuf = pre @ enc_string s @ post, roffset = length pre\<rparr> =
      Inr (s, \<lparr>rbuf = pre @ enc_string s @ post, roffset = length pre + length (enc_string s)\<rparr>)"
    if "ok_string s" for s pre post
  proof -
    let ?b = "text_encode s"
    let ?n = "enc_uint 4 (int (length ?b))"
    have "readU32 \<lparr>rbuf = pre @ ?n @ ?b @ post, roffset = length pre\<rparr> =
        Inr (int (length ?b), \<lparr>rbuf = pre @ ?n @ ?b @ post, roffset = length pre + 4\<rparr>)"
      using u32.read_enc [of "int (length ?b)" pre "?b @ post"] that by (simp add: fits_def ok_string_def)
    moreover have "readBytes (length ?b) \<lparr>rbuf = pre @ ?n @ ?b @ post, roffset = length pre + 4\<rparr> =
        Inr (?b, \<lparr>rbuf = pre @ ?n @ ?b @ post, roffset = length pre + 4 + length ?b\<rparr>)"
      using readBytes_enc [of ?b "pre @ ?n" post] by simp
    moreover have "text_decode ?b = Some s"
      using that text_decode_encode [of s]
      by (cases s) (auto simp: ok_string_def drop_bom_def list_all_iff)
    ultimately show ?thesis by (simp add: readString_def enc_string_def)
  qed
  show "writer_inv (writeString w s) \<and> toBytes (writeString w s) = toBytes w @ enc_string s"
    if "ok_string s" "writer_inv w" for s w
  proof -
    let ?w = "writeU32 w (int (length (text_encode s)))"
    have "writer_inv ?w \<and> toBytes ?w = toBytes w @ enc_uint 4 (int (length (text_encode s)))"
      using that by (intro u32.write_enc) (auto simp: fits_def ok_string_def)
    then show ?thesis
      using store_spec [of ?w "text_encode s"] by (simp add: writeString_def Let_def writeBytes_def enc_string_def)
  qed
qed

context borsh_codec begin

text \<open>Vectors and options of a wire type are wire types.\<close>

lemma vec_codec: "borsh_codec (enc_vec enc) (readVec rd) (writeVec wr) (ok_vec ok)"
proof unfold_locales
  show "readVec rd \<lparr>rbuf = pre @ enc_vec enc xs @ post, roffset = length pre\<rparr> =
      Inr (xs, \<lparr>rbuf = pre @ enc_vec enc xs @ post, roffset = length pre + length (enc_vec enc xs)\<rparr>)"
    if "ok_vec ok xs" for xs pre post
  proof -
    let ?n = "enc_uint 4 (int (length xs))"
    have "readU32 \<lparr>rbuf = pre @ ?n @ concat (map enc xs) @ post, roffset = length pre\<rparr> =
        Inr (int (length xs), \<lparr>rbuf = pre @ ?n @ concat (map enc xs) @ post, roffset = length pre + 4\<rparr>)"
      using u32.read_enc [of "int (length xs)" pre "concat (map enc xs) @ post"] that
      by (simp add: fits_def ok_vec_def)
    moreover have "\<forall>x \<in> set xs. ok x" using that by (simp add: ok_vec_def list_all_iff)
    ultimately show ?thesis
      using read_items_enc [of xs "pre @ ?n" post] by (simp add: readVec_def enc_vec_def)
  qed
  show "writer_inv (writeVec wr w xs) \<and> toBytes (writeVec wr w xs) = toBytes w @ enc_vec enc xs"
    if "ok_vec ok xs" "writer_inv w" for xs w
  proof -
    let ?w = "writeU32 w (int (length xs))"
    have "writer_inv ?w \<and> toBytes ?w = toBytes w @ enc_uint 4 (int (length xs))"
      using that by (intro u32.write_enc) (auto simp: fits_def ok_vec_def)
    then show ?thesis
      using write_items_enc [of xs ?w] that by (simp add: writeVec_def enc_vec_def ok_vec_def list_all_iff)
  qed
qed

lemma option_codec: "borsh_codec (enc_option enc) (readOption rd) (writeOption wr) (pred_option ok)"
proof unfold_locales
  show "readOption rd \<lparr>rbuf = pre @ enc_option enc v @ post, roffset = length pre\<rparr> =
      Inr (v, \<lparr>rbuf = pre @ enc_option enc v @ post, roffset = length pre + length (enc_option enc v)\<rparr>)"
    if "pred_option ok v" for v pre post
  proof (cases v)
    case None
    then show ?thesis by (simp add: readOption_def enc_option_def advance_def)
  next
    case (Some x)
    then show ?thesis
      using that read_enc [of x "pre @ [1]" post] by (simp add: readOption_def enc_option_def advance_def)
  qed
  show "writer_inv (writeOption wr w v) \<and> toBytes (writeOption wr w v) = toBytes w @ enc_option enc v"
    if "pred_option ok v" "writer_inv w" for v w
    using that u8.write_enc [of 0 w] u8.write_enc [of 1 w] write_enc
    by (cases v) (auto simp: writeOption_def enc_option_def fits_def enc_uint_def)
qed

end

interpretation vec_u64: borsh_codec "enc_vec (enc_uint 8)" "readVec readU64" "writeVec writeU64" "ok_vec (fits 8)"
  by (rule u64.vec_codec)

interpretation vec_opt_str: borsh_codec "enc_vec (enc_option enc_string)" "readVec (readOption readString)"
    "writeVec (writeOption writeString)" "ok_vec (pred_option ok_string)"
  by (rule borsh_codec.vec_codec [OF str.option_codec])

end
