(* ===== verification/AddressLookupTable.thy ===== *)
theory AddressLookupTable
  imports Borsh
begin

text \<open>
  \<open>packages/solana-tx/src/address-lookup-table.ts\<close>: decoding an on-chain lookup table
  with the borsh \<open>Reader\<close>, and ranking tables by how many required keys they cover.
\<close>

record lookup_table =
  deactivationSlot :: int
  lastExtendedSlot :: int
  lastExtendedSlotStartIndex :: int
  authority :: "pubkey option"
  addresses :: "pubkey list"

datatype alt_error =
    AltTooShort nat
  | AltDiscriminator int
  | AltAuthorityTag int nat
  | AltRegionLength nat
  | AltRead borsh_error

definition LOOKUP_TABLE_META_SIZE :: nat where "LOOKUP_TABLE_META_SIZE = 56"

definition ALT_DISCRIMINATOR_LOOKUP_TABLE :: int where "ALT_DISCRIMINATOR_LOOKUP_TABLE = 1"

definition alt_read :: "borsh_error + 'a \<Rightarrow> alt_error + 'a" where
  "alt_read m = map_sum AltRead id m"

definition decodeAlt :: "bytes \<Rightarrow> alt_error + lookup_table" where
  "decodeAlt data =
     (if length data < LOOKUP_TABLE_META_SIZE then Inl (AltTooShort (length data))
      else rbind (alt_read (readU32 (new_reader data))) (\<lambda>(discriminator, r).
        if discriminator \<noteq> ALT_DISCRIMINATOR_LOOKUP_TABLE then Inl (AltDiscriminator discriminator)
        else rbind (alt_read (readU64 r)) (\<lambda>(deact, r).
        rbind (alt_read (readU64 r)) (\<lambda>(last, r).
        rbind (alt_read (readU8 r)) (\<lambda>(start, r).
        rbind (alt_read (readU8 r)) (\<lambda>(authorityTag, r).
        if authorityTag \<noteq> 0 \<and> authorityTag \<noteq> 1 then Inl (AltAuthorityTag authorityTag (roffset r - 1))
        else rbind (alt_read (readBytes 32 r)) (\<lambda>(authorityBytes, r).
        rbind (if authorityTag = 1
               then (case fromBytes authorityBytes of
                       Inl e \<Rightarrow> Inl (AltRead (BadPubkey e)) | Inr pk \<Rightarrow> Inr (Some pk))
               else Inr None) (\<lambda>auth.
        let r = r\<lparr>roffset := LOOKUP_TABLE_META_SIZE\<rparr>;
            addressesLen = length data - LOOKUP_TABLE_META_SIZE
        in if addressesLen mod 32 \<noteq> 0 then Inl (AltRegionLength addressesLen)
           else rbind (alt_read (read_items readPubkey (addressesLen div 32) r)) (\<lambda>(addrs, r).
             Inr \<lparr>deactivationSlot = deact, lastExtendedSlot = last,
                  lastExtendedSlotStartIndex = start, authority = auth, addresses = addrs\<rparr>)))))))))"

text \<open>The layout table of the file's header comment, as an encoder.\<close>

definition alt_layout :: "lookup_table \<Rightarrow> bytes \<Rightarrow> bytes \<Rightarrow> bytes" where
  "alt_layout t unused padding =
     enc_uint 4 1 @ enc_uint 8 (deactivationSlot t) @ enc_uint 8 (lastExtendedSlot t)
     @ enc_uint 1 (lastExtendedSlotStartIndex t)
     @ (case authority t of None \<Rightarrow> enc_uint 1 0 @ unused | Some pk \<Rightarrow> enc_uint 1 1 @ toBuffer pk)
     @ padding @ concat (map toBuffer (addresses t))"

lemma alt_read_Inr [simp]: "alt_read (Inr x) = Inr x"
  by (simp add: alt_read_def)

lemma alt_read_Inl [simp]: "alt_read (Inl e) = Inl (AltRead e)"
  by (simp add: alt_read_def)

lemma new_reader_0: "new_reader bs = \<lparr>rbuf = [] @ bs, roffset = length ([] :: bytes)\<rparr>"
  by (simp add: new_reader_def)

lemma length_concat_keys [simp]: "length (concat (map toBuffer ks)) = 32 * length ks"
  by (induction ks) auto

lemma decodeAlt_layout:
  assumes fit: "fits 8 (deactivationSlot t)" "fits 8 (lastExtendedSlot t)"
      "fits 1 (lastExtendedSlotStartIndex t)"
    and len: "length unused = 32" "length padding = 2"
  shows "decodeAlt (alt_layout t unused padding) = Inr t"
proof -
  define tag where "tag = (if authority t = None then 0 else 1 :: int)"
  define auth where "auth = (case authority t of None \<Rightarrow> unused | Some pk \<Rightarrow> toBuffer pk)"
  define ks where "ks = concat (map toBuffer (addresses t))"
  let ?d = "enc_uint 8 (deactivationSlot t)" and ?l = "enc_uint 8 (lastExtendedSlot t)"
    and ?s = "enc_uint 1 (lastExtendedSlotStartIndex t)" and ?t = "enc_uint 1 tag"
  define buf where "buf = enc_uint 4 1 @ ?d @ ?l @ ?s @ ?t @ auth @ padding @ ks"
  have buf: "alt_layout t unused padding = buf"
    by (auto simp: buf_def alt_layout_def tag_def auth_def ks_def split: option.splits)
  have lena: "length auth = 32" using len by (auto simp: auth_def split: option.splits)
  have r1: "readU32 (new_reader buf) = Inr (1, \<lparr>rbuf = buf, roffset = 4\<rparr>)"
    using u32.read_enc [of 1 "[]"] by (simp add: new_reader_0 buf_def fits_def)
  have r2: "readU64 \<lparr>rbuf = buf, roffset = 4\<rparr> = Inr (deactivationSlot t, \<lparr>rbuf = buf, roffset = 12\<rparr>)"
    using u64.read_enc [of "deactivationSlot t" "enc_uint 4 1"] fit by (simp add: buf_def)
  have r3: "readU64 \<lparr>rbuf = buf, roffset = 12\<rparr> = Inr (lastExtendedSlot t, \<lparr>rbuf = buf, roffset = 20\<rparr>)"
    using u64.read_enc [of "lastExtendedSlot t" "enc_uint 4 1 @ ?d"] fit by (simp add: buf_def)
  have r4: "readU8 \<lparr>rbuf = buf, roffset = 20\<rparr> = Inr (lastExtendedSlotStartIndex t, \<lparr>rbuf = buf, roffset = 21\<rparr>)"
    using u8.read_enc [of "lastExtendedSlotStartIndex t" "enc_uint 4 1 @ ?d @ ?l"] fit by (simp add: buf_def)
  have r5: "readU8 \<lparr>rbuf = buf, roffset = 21\<rparr> = Inr (tag, \<lparr>rbuf = buf, roffset = 22\<rparr>)"
    using u8.read_enc [of tag "enc_uint 4 1 @ ?d @ ?l @ ?s"] by (simp add: buf_def tag_def fits_def)
  have r6: "readBytes 32 \<lparr>rbuf = buf, roffset = 22\<rparr> = Inr (auth, \<lparr>rbuf = buf, roffset = 54\<rparr>)"
    using readBytes_enc [of auth "enc_uint 4 1 @ ?d @ ?l @ ?s @ ?t"] lena by (simp add: buf_def)
  have r7: "read_items readPubkey (length (addresses t)) \<lparr>rbuf = buf, roffset = 56\<rparr> =
      Inr (addresses t, \<lparr>rbuf = buf, roffset = 56 + length ks\<rparr>)"
    using pubkey.read_items_enc [of "addresses t" "enc_uint 4 1 @ ?d @ ?l @ ?s @ ?t @ auth @ padding" "[]"]
      lena len by (simp add: buf_def ks_def)
  have lenb: "length buf = 56 + 32 * length (addresses t)"
    using lena len by (simp add: buf_def ks_def)
  have a: "(if tag = 1 then (case fromBytes auth of Inl e \<Rightarrow> Inl (AltRead (BadPubkey e)) | Inr pk \<Rightarrow> Inr (Some pk))
      else Inr None) = Inr (authority t)"
    by (auto simp: tag_def auth_def split: option.splits)
  have "tag = 0 \<or> tag = 1" by (simp add: tag_def)
  then show ?thesis
    by (simp add: buf decodeAlt_def LOOKUP_TABLE_META_SIZE_def ALT_DISCRIMINATOR_LOOKUP_TABLE_def lenb
        r1 r2 r3 r4 r5 r6 r7 a)
qed

section \<open>Coverage ranking\<close>

record alt_coverage =
  cov_alt :: lookup_table
  covered :: "pubkey list"

definition coverage_of :: "pubkey list \<Rightarrow> lookup_table \<Rightarrow> alt_coverage" where
  "coverage_of requiredKeys alt =
     \<lparr>cov_alt = alt, covered = filter (\<lambda>key. list_ex (\<lambda>a. pk_equals a key) (addresses alt)) requiredKeys\<rparr>"

text \<open>
  \<open>scored.sort((a, b) => b.covered.length - a.covered.length)\<close>: a stable sort by
  descending length.
\<close>

definition findInstructionsForKeys :: "lookup_table list \<Rightarrow> pubkey list \<Rightarrow> alt_coverage list" where
  "findInstructionsForKeys alts requiredKeys =
     sort_key (\<lambda>c. - int (length (covered c)))
       (filter (\<lambda>c. length (covered c) > 0) (map (coverage_of requiredKeys) alts))"

lemma set_findInstructionsForKeys:
  "set (findInstructionsForKeys alts ks) =
     {c. \<exists>alt \<in> set alts. c = coverage_of ks alt \<and> set ks \<inter> set (addresses alt) \<noteq> {}}"
  by (auto simp: findInstructionsForKeys_def coverage_of_def list_ex_iff filter_empty_conv)

lemma sorted_findInstructionsForKeys:
  "sorted_wrt (\<lambda>c d. length (covered d) \<le> length (covered c)) (findInstructionsForKeys alts ks)"
proof -
  have "sorted (map (\<lambda>c. - int (length (covered c))) (findInstructionsForKeys alts ks))"
    by (simp add: findInstructionsForKeys_def)
  then show ?thesis by (simp add: sorted_map)
qed

lemma stable_findInstructionsForKeys:
  "filter (\<lambda>c. length (covered c) = Suc n) (findInstructionsForKeys alts ks) =
   filter (\<lambda>c. length (covered c) = Suc n) (map (coverage_of ks) alts)"
proof -
  have "filter (\<lambda>c. length (covered c) = Suc n) xs = filter (\<lambda>c. - int (length (covered c)) = - int (Suc n)) xs"
    for xs :: "alt_coverage list"
    by (rule filter_cong) auto
  then show ?thesis
    by (simp add: findInstructionsForKeys_def sort_key_stable) (rule filter_cong; auto)
qed

end
