(* ===== verification/CompactU16.thy ===== *)
theory CompactU16
  imports Prelude
begin

text \<open>
  \<open>packages/solana-core/src/compact-u16.ts\<close>: the shortvec length prefix. Numbers are
  the integers the guards admit; bytes are written with the masks and shifts of the
  source and related to \<open>div\<close> and \<open>mod\<close> by 128 for the proofs.
\<close>

datatype compact_error =
    OutOfRange int
  | Truncated nat nat   \<comment> \<open>offset needed, buffer length\<close>
  | ExceedsU16

definition MAX_VALUE :: int where "MAX_VALUE = 0xffff"
definition MAX_BYTES :: nat where "MAX_BYTES = 3"

function compact_groups :: "nat \<Rightarrow> bytes \<Rightarrow> bytes" where
  "compact_groups rem out =
     (if rem > 0x7f
      then compact_groups (drop_bit 7 rem) (out @ [word_of_nat ((rem AND 0x7f) OR 0x80)])
      else out @ [word_of_nat rem])"
  by pat_completeness auto
termination
  by (relation "measure fst") (auto simp: drop_bit_eq_div)

declare compact_groups.simps [simp del]

definition compact_encode :: "int \<Rightarrow> compact_error + bytes" where
  "compact_encode n =
     (if n < 0 \<or> n > MAX_VALUE then Inl (OutOfRange n)
      else if n \<le> 0x7f then Inr [word_of_int n]
      else Inr (compact_groups (nat n) []))"

function compact_decode_loop :: "bytes \<Rightarrow> nat \<Rightarrow> nat \<Rightarrow> nat \<Rightarrow> nat \<Rightarrow> compact_error + (nat \<times> nat)" where
  "compact_decode_loop bs offset v0 shift len =
     (if offset + len \<ge> length bs then Inl (Truncated (offset + len) (length bs))
      else let b = bs ! (offset + len);
               v1 = v0 OR push_bit shift (unat (b AND 0x7f));
               len1 = len + 1
           in if b AND 0x80 = 0 then Inr (v1, len1)
              else if len1 \<ge> MAX_BYTES then Inl ExceedsU16
              else compact_decode_loop bs offset v1 (shift + 7) len1)"
  by pat_completeness auto
termination
  by (relation "measure (\<lambda>(bs, offset, v0, shift, len). MAX_BYTES - len)") auto

declare compact_decode_loop.simps [simp del]

definition compact_decode :: "bytes \<Rightarrow> nat \<Rightarrow> compact_error + (nat \<times> nat)" where
  "compact_decode bs offset = compact_decode_loop bs offset 0 0 0"

section \<open>The masks as arithmetic\<close>

lemma and_0x7f: "n AND 0x7f = n mod (128 :: nat)"
  using take_bit_eq_mask [of 7 n] by (simp add: take_bit_eq_mod mask_eq_exp_minus_1)

lemma disjoint_or: "v < 2 ^ s \<Longrightarrow> v OR push_bit s w = v + w * 2 ^ s" for v w :: nat
proof -
  assume v: "v < 2 ^ s"
  have "v AND push_bit s w = 0"
  proof (rule bit_eqI)
    fix k
    have "bit v k \<Longrightarrow> k < s"
      using v by (metis bit_take_bit_iff take_bit_nat_eq_self)
    then show "bit (v AND push_bit s w) k \<longleftrightarrow> bit (0 :: nat) k"
      by (auto simp: bit_and_iff bit_push_bit_iff)
  qed
  then show ?thesis
    by (simp flip: disjunctive_add_eq_or add: push_bit_eq_mult)
qed

lemma or_0x80: "n < 128 \<Longrightarrow> n OR 0x80 = n + (128 :: nat)"
  using disjoint_or [of n 7 1] by (simp add: push_bit_eq_mult)

lemma unat_and_0x7f: "unat (b AND (0x7f :: byte)) = unat b mod 128"
  by (simp add: unsigned_and_eq and_0x7f)

lemma and_0x80_eq_0: "b AND (0x80 :: byte) = 0 \<longleftrightarrow> unat b < 128"
proof -
  have "b AND 0x80 = 0 \<longleftrightarrow> unat b AND 2 ^ 7 = 0"
    by (simp add: unsigned_and_eq flip: unat_eq_0)
  also have "\<dots> \<longleftrightarrow> even (unat b div 128)"
    by (simp only: and_exp_eq_0_iff_not_bit) (simp add: bit_iff_odd)
  also have "\<dots> \<longleftrightarrow> unat b < 128"
  proof -
    have "unat b div 128 = 0 \<or> unat b div 128 = 1"
      using unat_byte_bound [of b] by linarith
    then show ?thesis by (auto simp: div_eq_0_iff)
  qed
  finally show ?thesis .
qed

section \<open>Encoding by ranges\<close>

lemma compact_groups_small: "n \<le> 0x7f \<Longrightarrow> compact_groups n out = out @ [word_of_nat n]"
  by (simp add: compact_groups.simps [of n])

lemma compact_groups_step:
  "0x7f < n \<Longrightarrow> compact_groups n out = compact_groups (n div 128) (out @ [word_of_nat (n mod 128 + 128)])"
  by (simp add: compact_groups.simps [of n] drop_bit_eq_div and_0x7f or_0x80)

lemma compact_encode_ranges:
  assumes "n \<le> 65535"
  shows "compact_encode (int n) = Inr
    (if n < 128 then [word_of_nat n]
     else if n < 16384 then [word_of_nat (n mod 128 + 128), word_of_nat (n div 128)]
     else [word_of_nat (n mod 128 + 128), word_of_nat (n div 128 mod 128 + 128), word_of_nat (n div 16384)])"
proof -
  consider "n < 128" | "128 \<le> n" "n < 16384" | "16384 \<le> n" by linarith
  then show ?thesis
  proof cases
    case 1
    then show ?thesis by (simp add: compact_encode_def MAX_VALUE_def)
  next
    case 2
    then show ?thesis
      by (simp add: compact_encode_def MAX_VALUE_def compact_groups_step compact_groups_small)
  next
    case 3
    then have "0x7f < n div 128" "n div 128 div 128 \<le> 0x7f" using assms by auto
    then show ?thesis
      using 3 assms
      by (simp add: compact_encode_def MAX_VALUE_def compact_groups_step compact_groups_small
          div_mult2_eq [symmetric])
  qed
qed

lemma compact_encode_Inr_bounds: "compact_encode n = Inr bs \<Longrightarrow> 0 \<le> n \<and> n \<le> 65535"
  by (auto simp: compact_encode_def MAX_VALUE_def split: if_splits)

lemma compact_encode_total: "n \<le> 65535 \<Longrightarrow> \<exists>bs. compact_encode (int n) = Inr bs"
  by (simp add: compact_encode_ranges)

lemma compact_encode_length:
  "compact_encode (int n) = Inr bs \<Longrightarrow> length bs = (if n < 128 then 1 else if n < 16384 then 2 else 3)"
  using compact_encode_Inr_bounds [of "int n" bs] by (auto simp: compact_encode_ranges)

section \<open>Decoding\<close>

lemma compact_decode_step:
  assumes "v0 < 2 ^ shift" and "offset + len < length bs" and "bs ! (offset + len) = b"
  shows "compact_decode_loop bs offset v0 shift len =
    (if unat b < 128 then Inr (v0 + unat b * 2 ^ shift, len + 1)
     else if len + 1 \<ge> 3 then Inl ExceedsU16
     else compact_decode_loop bs offset (v0 + (unat b - 128) * 2 ^ shift) (shift + 7) (len + 1))"
proof -
  have "unat b mod 128 = (if unat b < 128 then unat b else unat b - 128)"
    using unat_byte_bound [of b] by (simp add: mod_if)
  then show ?thesis
    using assms
    by (simp add: compact_decode_loop.simps [of bs offset v0 shift len] Let_def and_0x80_eq_0
        unat_and_0x7f disjoint_or MAX_BYTES_def)
qed

lemma unat_byte_small: "n < 256 \<Longrightarrow> unat (word_of_nat n :: byte) = n"
  by (simp add: unat_of_nat)

lemma compact_decode_encode:
  assumes "compact_encode (int n) = Inr bs"
  shows "compact_decode (pre @ bs @ post) (length pre) = Inr (n, length bs)"
proof -
  have n: "n \<le> 65535" using compact_encode_Inr_bounds [OF assms] by simp
  consider "n < 128" | "128 \<le> n" "n < 16384" | "16384 \<le> n" by linarith
  then show ?thesis
  proof cases
    case 1
    then have "bs = [word_of_nat n]" using assms n by (simp add: compact_encode_ranges)
    with 1 show ?thesis
      by (simp add: compact_decode_def compact_decode_step [where b = "word_of_nat n"] unat_byte_small del: of_nat_add)
  next
    case 2
    then have bs: "bs = [word_of_nat (n mod 128 + 128), word_of_nat (n div 128)]"
      using assms n by (simp add: compact_encode_ranges)
    have "n div 128 < 128" "n mod 128 + 128 < 256" using 2 by auto
    with bs show ?thesis
      by (simp add: compact_decode_def compact_decode_step [where b = "word_of_nat (n mod 128 + 128)"]
          compact_decode_step [where b = "word_of_nat (n div 128)"] unat_byte_small nth_append del: of_nat_add)
  next
    case 3
    let ?b1 = "n mod 128 + 128" and ?b2 = "n div 128 mod 128 + 128" and ?b3 = "n div 16384"
    have bs: "bs = [word_of_nat ?b1, word_of_nat ?b2, word_of_nat ?b3]"
      using 3 assms n by (simp add: compact_encode_ranges)
    have b: "?b3 < 128" "?b1 < 256" "?b2 < 256" "?b3 < 256" using n by auto
    have "n mod 128 + n div 128 mod 128 * 128 < 2 ^ 14" by auto
    moreover have "n mod 128 + n div 128 mod 128 * 128 + ?b3 * 16384 = n"
    proof -
      have "n div 128 = n div 128 mod 128 + ?b3 * 128"
        using mod_div_mult_eq [of "n div 128" 128] by (simp add: div_mult2_eq [symmetric])
      moreover have "n = n mod 128 + n div 128 * 128" by (simp add: mod_div_mult_eq)
      ultimately show ?thesis by linarith
    qed
    ultimately show ?thesis
      using b by (simp add: bs compact_decode_def compact_decode_step [where b = "word_of_nat ?b1"]
          compact_decode_step [where b = "word_of_nat ?b2"] compact_decode_step [where b = "word_of_nat ?b3"]
          unat_byte_small nth_append del: of_nat_add)
  qed
qed

lemma compact_decode_loop_bounds:
  assumes "compact_decode_loop bs offset v0 shift len = Inr (v, l)" and "v0 < 2 ^ shift"
    and "len < 3" and "shift = 7 * len"
  shows "len < l \<and> l \<le> 3 \<and> offset + l \<le> length bs \<and> v < 2 ^ (7 * l)"
  using assms
proof (induction bs offset v0 shift len rule: compact_decode_loop.induct)
  case (1 bs offset val shift len)
  have lt: "offset + len < length bs"
    using "1.prems"(1) by (auto simp: compact_decode_loop.simps [of bs offset val shift len] split: if_splits)
  let ?b = "bs ! (offset + len)"
  have b: "unat ?b < 256" by (rule unat_byte_bound)
  have grow: "w < 128 \<Longrightarrow> val + w * 2 ^ shift < 2 ^ (7 * (len + 1))" for w
  proof -
    assume "w < 128"
    then have "val + w * 2 ^ shift < 2 ^ shift + 127 * 2 ^ shift"
      using "1.prems"(2) mult_le_mono1 [of w 127 "2 ^ shift"] by linarith
    also have "\<dots> = 2 ^ (7 * (len + 1))" using "1.prems"(4) by (simp add: power_add)
    finally show ?thesis .
  qed
  show ?case
  proof (cases "unat ?b < 128")
    case True
    then have "v = val + unat ?b * 2 ^ shift" "l = len + 1"
      using "1.prems"(1) compact_decode_step [OF "1.prems"(2) lt refl] by auto
    with True lt grow "1.prems"(3) show ?thesis by simp
  next
    case False
    then have rec: "compact_decode_loop bs offset (val + (unat ?b - 128) * 2 ^ shift) (shift + 7) (len + 1) = Inr (v, l)"
      and len: "len + 1 < 3"
      using "1.prems"(1) compact_decode_step [OF "1.prems"(2) lt refl] by (auto split: if_splits)
    have eq: "val OR push_bit shift (unat (?b AND 0x7f)) = val + (unat ?b - 128) * 2 ^ shift"
      using False b "1.prems"(2) by (simp add: unat_and_0x7f disjoint_or mod_if)
    have lt7: "val + (unat ?b - 128) * 2 ^ shift < 2 ^ (shift + 7)"
      using grow [of "unat ?b - 128"] b "1.prems"(4) by (simp add: algebra_simps)
    have p: "\<not> length bs \<le> offset + len" "?b AND 0x80 \<noteq> 0" "\<not> MAX_BYTES \<le> len + 1"
      and sh: "shift + 7 = 7 * (len + 1)"
      using lt False len "1.prems"(4) by (simp_all add: and_0x80_eq_0 MAX_BYTES_def)
    show ?thesis
      using "1.IH" [OF p(1) refl refl refl p(2) p(3), unfolded eq, OF rec lt7 len sh] by simp
  qed
qed

lemma compact_decode_bounds:
  assumes "compact_decode bs offset = Inr (v, l)"
  shows "1 \<le> l \<and> l \<le> 3 \<and> offset + l \<le> length bs \<and> v < 2 ^ (7 * l)"
  using compact_decode_loop_bounds [of bs offset 0 0 0 v l] assms by (auto simp: compact_decode_def)

end
