(* ===== verification/Assembler.thy ===== *)
theory Assembler
  imports AddressLookupTable CompactU16
begin

text \<open>
  \<open>packages/solana-tx/src/transaction-assembler.ts\<close>: collecting the accounts of a
  transaction, ordering them in the four classes of the wire format, resolving
  non-signers through lookup tables, serialising the v0 message and signing it.
\<close>

section \<open>Data\<close>

record account_meta =
  m_pubkey :: pubkey
  m_isSigner :: bool
  m_isWritable :: bool

record instruction =
  programId :: pubkey
  ix_keys :: "account_meta list"
  ix_data :: bytes

datatype malformed =
    V1Size | V1SignaturesPastEnd | V1HeaderMissing | V1HeaderCounts | V1ConfigMask | V1FieldPastEnd
  | V1DuplicateAddress | V1HeapSize | V1ProgramIndex | V1AccountIndex | V1Trailing | V1Loaded
  | V1Key pubkey_error
  | SignaturesPastEnd | UnsupportedVersion nat | HeaderMissing | KeysPastEnd | BlockhashPastEnd
  | ProgramIndexRange nat | AccountsPastEnd nat | DataPastEnd nat
  | TablePastEnd | TableNotProvided string | LookupIndexesPastEnd | TableNoIndex string nat
  | LoadedMismatch | TrailingBytes | AccountIndexRange nat nat
  | BadLengthPrefix nat compact_error | BadKey pubkey_error

datatype tx_error =
    PayerNotInSigners string
  | MissingSigner string
  | BadSignatureLength string nat  \<comment> \<open>thrown with the code of a missing signer\<close>
  | BlockhashNotBase58 base58_error
  | BlockhashLength nat
  | LengthOutOfRange compact_error
  | NullAltEntry                   \<comment> \<open>\<open>acc.alt!\<close> of an account without a table\<close>
  | SignerRejected string
  | Malformed malformed

datatype assembler_alt = BareAlt lookup_table | KeyedAlt pubkey lookup_table

definition SIGNATURE_LENGTH :: nat where "SIGNATURE_LENGTH = 64"
definition BLOCKHASH_LENGTH :: nat where "BLOCKHASH_LENGTH = 32"
definition VERSION_V0 :: byte where "VERSION_V0 = 0x80"

record account_info =
  a_pubkey :: pubkey
  a_isSigner :: bool
  a_isWritable :: bool
  a_alt :: "(pubkey \<times> nat) option"

fun normaliseAlt :: "assembler_alt \<Rightarrow> pubkey \<times> lookup_table" where
  "normaliseAlt (KeyedAlt key alt) = (key, alt)"
| "normaliseAlt (BareAlt alt) = (zero_key, alt)"

section \<open>\<open>compileAccounts\<close>\<close>

definition upsert :: "pubkey \<Rightarrow> bool \<Rightarrow> bool \<Rightarrow> (string, account_info) jsmap \<Rightarrow> (string, account_info) jsmap" where
  "upsert pk isSigner isWritable byKey =
     (let k = toBase58 pk
      in case jm_get byKey k of
           Some existing \<Rightarrow>
             jm_set byKey k (existing\<lparr>a_isSigner := isSigner \<or> a_isSigner existing,
                                      a_isWritable := isWritable \<or> a_isWritable existing\<rparr>)
         | None \<Rightarrow> jm_set byKey k
             \<lparr>a_pubkey = pk, a_isSigner = isSigner, a_isWritable = isWritable, a_alt = None\<rparr>)"

definition collect_instruction :: "(string, account_info) jsmap \<Rightarrow> instruction \<Rightarrow> (string, account_info) jsmap" where
  "collect_instruction byKey ix =
     foldl (\<lambda>m meta. upsert (m_pubkey meta) (m_isSigner meta) (m_isWritable meta) m)
       (upsert (programId ix) False False byKey) (ix_keys ix)"

definition collect_accounts :: "instruction list \<Rightarrow> pubkey \<Rightarrow> (string, account_info) jsmap" where
  "collect_accounts instructions payer =
     foldl collect_instruction (upsert payer True True []) instructions"

fun first_alt :: "pubkey \<Rightarrow> (pubkey \<times> lookup_table) list \<Rightarrow> (pubkey \<times> nat) option" where
  "first_alt pk [] = None"
| "first_alt pk ((altKey, alt) # alts) =
     (case findIndex (\<lambda>a. pk_equals a pk) (addresses alt) of
        Some idx \<Rightarrow> Some (altKey, idx)
      | None \<Rightarrow> first_alt pk alts)"

definition resolve_alt :: "string list \<Rightarrow> (pubkey \<times> lookup_table) list \<Rightarrow> account_info \<Rightarrow> account_info" where
  "resolve_alt invoked alts acc =
     (if a_isSigner acc \<or> toBase58 (a_pubkey acc) \<in> set invoked then acc
      else case first_alt (a_pubkey acc) alts of
             Some ref \<Rightarrow> acc\<lparr>a_alt := Some ref\<rparr>
           | None \<Rightarrow> acc)"

text \<open>\<open>indexByBase58.set(acc.pubkey.toBase58(), idx++)\<close> over a list of accounts.\<close>

fun assign_indices :: "account_info list \<Rightarrow> nat \<Rightarrow> (string, nat) jsmap \<Rightarrow> (string, nat) jsmap" where
  "assign_indices [] idx m = m"
| "assign_indices (acc # accs) idx m =
     assign_indices accs (Suc idx) (jm_set m (toBase58 (a_pubkey acc)) idx)"

record compiled_accounts =
  staticAccounts :: "account_info list"
  altWritable :: "account_info list"
  altReadonly :: "account_info list"
  indexByBase58 :: "(string, nat) jsmap"
  numRequiredSignatures :: nat
  numReadonlySigned :: nat
  numReadonlyUnsigned :: nat

text \<open>
  The comparator of the payer-first sort puts the payer before every other account and
  calls all other pairs equal; the sort is stable.
\<close>

definition compileAccounts :: "instruction list \<Rightarrow> pubkey \<Rightarrow> (pubkey \<times> lookup_table) list \<Rightarrow> compiled_accounts" where
  "compileAccounts instructions payer alts =
     (let byKey = collect_accounts instructions payer;
          invoked = map (\<lambda>ix. toBase58 (programId ix)) instructions;
          accounts = map (resolve_alt invoked alts) (jm_values byKey);
          writableSigners = filter (\<lambda>a. a_isSigner a \<and> a_isWritable a) accounts;
          readonlySigners = filter (\<lambda>a. a_isSigner a \<and> \<not> a_isWritable a) accounts;
          writableStatic = filter (\<lambda>a. \<not> a_isSigner a \<and> a_isWritable a \<and> a_alt a = None) accounts;
          readonlyStatic = filter (\<lambda>a. \<not> a_isSigner a \<and> \<not> a_isWritable a \<and> a_alt a = None) accounts;
          writableAlt = filter (\<lambda>a. \<not> a_isSigner a \<and> a_isWritable a \<and> a_alt a \<noteq> None) accounts;
          readonlyAlt = filter (\<lambda>a. \<not> a_isSigner a \<and> \<not> a_isWritable a \<and> a_alt a \<noteq> None) accounts;
          writableSigners = sort_key (\<lambda>a. if toBase58 (a_pubkey a) = toBase58 payer then 0 else 1 :: nat)
            writableSigners;
          static = writableSigners @ readonlySigners @ writableStatic @ readonlyStatic
      in \<lparr>staticAccounts = static, altWritable = writableAlt, altReadonly = readonlyAlt,
          indexByBase58 = assign_indices (static @ writableAlt @ readonlyAlt) 0 [],
          numRequiredSignatures = length writableSigners + length readonlySigners,
          numReadonlySigned = length readonlySigners,
          numReadonlyUnsigned = length readonlyStatic\<rparr>)"

section \<open>\<open>serializeMessage\<close>\<close>

record table_lookup =
  accountKey :: pubkey
  writableIndexes :: "nat list"
  readonlyIndexes :: "nat list"

text \<open>\<open>lookup(acc).xIndexes.push(acc.alt!.altIndex)\<close>: find or create the table's entry, then push.\<close>

definition push_lookup :: "(nat \<Rightarrow> table_lookup \<Rightarrow> table_lookup) \<Rightarrow> account_info \<Rightarrow>
    (string, table_lookup) jsmap \<Rightarrow> tx_error + (string, table_lookup) jsmap" where
  "push_lookup push acc perAlt =
     (case a_alt acc of
        None \<Rightarrow> Inl NullAltEntry
      | Some (altKey, altIndex) \<Rightarrow>
          (let k = toBase58 altKey;
               entry = (case jm_get perAlt k of
                          Some e \<Rightarrow> e
                        | None \<Rightarrow> \<lparr>accountKey = altKey, writableIndexes = [], readonlyIndexes = []\<rparr>)
           in Inr (jm_set perAlt k (push altIndex entry))))"

fun push_lookups :: "(nat \<Rightarrow> table_lookup \<Rightarrow> table_lookup) \<Rightarrow> account_info list \<Rightarrow>
    (string, table_lookup) jsmap \<Rightarrow> tx_error + (string, table_lookup) jsmap" where
  "push_lookups push [] perAlt = Inr perAlt"
| "push_lookups push (acc # accs) perAlt = rbind (push_lookup push acc perAlt) (push_lookups push accs)"

definition push_writable :: "nat \<Rightarrow> table_lookup \<Rightarrow> table_lookup" where
  "push_writable i e = e\<lparr>writableIndexes := writableIndexes e @ [i]\<rparr>"

definition push_readonly :: "nat \<Rightarrow> table_lookup \<Rightarrow> table_lookup" where
  "push_readonly i e = e\<lparr>readonlyIndexes := readonlyIndexes e @ [i]\<rparr>"

definition buildAddressTableLookups :: "account_info list \<Rightarrow> account_info list \<Rightarrow> tx_error + table_lookup list" where
  "buildAddressTableLookups writable readonly =
     rbind (push_lookups push_writable writable []) (\<lambda>perAlt.
     rbind (push_lookups push_readonly readonly perAlt) (\<lambda>perAlt.
     Inr (jm_values perAlt)))"

definition push_compact :: "nat \<Rightarrow> tx_error + bytes" where
  "push_compact n = map_sum LengthOutOfRange id (compact_encode (int n))"

definition pushCompactArrayU8 :: "bytes \<Rightarrow> tx_error + bytes" where
  "pushCompactArrayU8 bs = rbind (push_compact (length bs)) (\<lambda>p. Inr (p @ bs))"

definition lookup_index :: "(string, nat) jsmap \<Rightarrow> pubkey \<Rightarrow> tx_error + nat" where
  "lookup_index idx pk =
     (case jm_get idx (toBase58 pk) of None \<Rightarrow> Inl (MissingSigner (toBase58 pk)) | Some i \<Rightarrow> Inr i)"

text \<open>Numbers pushed on \<open>out\<close> are reduced to bytes by \<open>new Uint8Array(out)\<close>.\<close>

definition serialize_instruction :: "(string, nat) jsmap \<Rightarrow> instruction \<Rightarrow> tx_error + bytes" where
  "serialize_instruction idx ix =
     rbind (lookup_index idx (programId ix)) (\<lambda>programIdIndex.
     rbind (rmap (\<lambda>meta. lookup_index idx (m_pubkey meta)) (ix_keys ix)) (\<lambda>accountIndices.
     rbind (pushCompactArrayU8 (map word_of_nat accountIndices)) (\<lambda>accs.
     rbind (pushCompactArrayU8 (ix_data ix)) (\<lambda>dat.
     Inr (word_of_nat programIdIndex # accs @ dat)))))"

definition serialize_lookup :: "table_lookup \<Rightarrow> tx_error + bytes" where
  "serialize_lookup lk =
     rbind (pushCompactArrayU8 (map word_of_nat (writableIndexes lk))) (\<lambda>w.
     rbind (pushCompactArrayU8 (map word_of_nat (readonlyIndexes lk))) (\<lambda>r.
     Inr (toBuffer (accountKey lk) @ w @ r)))"

definition serializeMessage :: "compiled_accounts \<Rightarrow> instruction list \<Rightarrow> bytes \<Rightarrow> tx_error + bytes" where
  "serializeMessage c instructions blockhash =
     rbind (push_compact (length (staticAccounts c))) (\<lambda>nStatic.
     rbind (push_compact (length instructions)) (\<lambda>nIx.
     rbind (rmap (serialize_instruction (indexByBase58 c)) instructions) (\<lambda>ixs.
     rbind (buildAddressTableLookups (altWritable c) (altReadonly c)) (\<lambda>lookups.
     rbind (push_compact (length lookups)) (\<lambda>nLookups.
     rbind (rmap serialize_lookup lookups) (\<lambda>lks.
     Inr ([VERSION_V0, word_of_nat (numRequiredSignatures c), word_of_nat (numReadonlySigned c),
           word_of_nat (numReadonlyUnsigned c)]
          @ nStatic @ concat (map (\<lambda>a. toBuffer (a_pubkey a)) (staticAccounts c))
          @ take BLOCKHASH_LENGTH blockhash
          @ nIx @ concat ixs
          @ nLookups @ concat lks)))))))"

section \<open>Entry points\<close>

record compile_options =
  o_instructions :: "instruction list"
  o_payer :: pubkey
  o_recentBlockhash :: string
  o_alts :: "assembler_alt list"

record compile_result =
  r_compiled :: compiled_accounts
  r_messageBytes :: bytes
  r_accountKeys :: "pubkey list"

definition compile_message :: "compile_options \<Rightarrow> tx_error + compile_result" where
  "compile_message opts =
     (let alts = map normaliseAlt (o_alts opts)
      in case base58_decode (o_recentBlockhash opts) of
           Inl e \<Rightarrow> Inl (BlockhashNotBase58 e)
         | Inr blockhashBytes \<Rightarrow>
             if length blockhashBytes \<noteq> BLOCKHASH_LENGTH then Inl (BlockhashLength (length blockhashBytes))
             else let c = compileAccounts (o_instructions opts) (o_payer opts) alts
                  in rbind (serializeMessage c (o_instructions opts) blockhashBytes) (\<lambda>messageBytes.
                       Inr \<lparr>r_compiled = c, r_messageBytes = messageBytes,
                            r_accountKeys = map a_pubkey (staticAccounts c) @ map a_pubkey (altWritable c)
                              @ map a_pubkey (altReadonly c)\<rparr>))"

text \<open>\<open>wire\<close>: both callers pass 64-byte signatures.\<close>

definition wire :: "bytes list \<Rightarrow> bytes \<Rightarrow> tx_error + bytes" where
  "wire signatures messageBytes =
     rbind (push_compact (length signatures)) (\<lambda>p. Inr (p @ concat signatures @ messageBytes))"

record compiled_transaction =
  ct_messageBytes :: bytes
  ct_unsignedTransaction :: bytes
  ct_signers :: "pubkey list"
  ct_accountKeys :: "pubkey list"

definition compileUnsigned :: "compile_options \<Rightarrow> tx_error + compiled_transaction" where
  "compileUnsigned opts =
     rbind (compile_message opts) (\<lambda>c.
       let signers = map a_pubkey (take (numRequiredSignatures (r_compiled c)) (staticAccounts (r_compiled c)))
       in rbind (wire (map (\<lambda>_. replicate SIGNATURE_LENGTH 0) signers) (r_messageBytes c)) (\<lambda>tx.
            Inr \<lparr>ct_messageBytes = r_messageBytes c, ct_unsignedTransaction = tx,
                 ct_signers = signers, ct_accountKeys = r_accountKeys c\<rparr>))"

text \<open>A signer: its address and its \<open>sign\<close>, which may reject.\<close>

record signer =
  s_address :: pubkey
  s_sign :: "bytes \<Rightarrow> string + bytes"

definition signer_map :: "signer list \<Rightarrow> (string, signer) jsmap" where
  "signer_map signers = foldl (\<lambda>m s. jm_set m (toBase58 (s_address s)) s) [] signers"

fun check_signers :: "(string, signer) jsmap \<Rightarrow> account_info list \<Rightarrow> tx_error + unit" where
  "check_signers m [] = Inr ()"
| "check_signers m (acc # accs) =
     (if a_isSigner acc \<and> \<not> jm_has m (toBase58 (a_pubkey acc))
      then Inl (MissingSigner (toBase58 (a_pubkey acc)))
      else check_signers m accs)"

definition sign_slot :: "(string, signer) jsmap \<Rightarrow> bytes \<Rightarrow> account_info \<Rightarrow> tx_error + bytes" where
  "sign_slot m messageBytes acc =
     (case jm_get m (toBase58 (a_pubkey acc)) of
        None \<Rightarrow> Inl (MissingSigner (toBase58 (a_pubkey acc)))
      | Some s \<Rightarrow>
          (case s_sign s messageBytes of
             Inl e \<Rightarrow> Inl (SignerRejected e)
           | Inr sig \<Rightarrow>
               if length sig \<noteq> SIGNATURE_LENGTH
               then Inl (BadSignatureLength (toBase58 (a_pubkey acc)) (length sig))
               else Inr sig))"

record assembler_result =
  ar_signedTransaction :: bytes
  ar_messageBytes :: bytes
  ar_accountKeys :: "pubkey list"

definition assemble :: "compile_options \<Rightarrow> signer list \<Rightarrow> tx_error + assembler_result" where
  "assemble opts signers =
     (let payerB58 = toBase58 (o_payer opts);
          signerByB58 = signer_map signers
      in if \<not> jm_has signerByB58 payerB58 then Inl (PayerNotInSigners payerB58)
         else rbind (compile_message opts) (\<lambda>c.
           rbind (check_signers signerByB58 (staticAccounts (r_compiled c))) (\<lambda>_.
           rbind (rmap (sign_slot signerByB58 (r_messageBytes c))
                    (take (numRequiredSignatures (r_compiled c)) (staticAccounts (r_compiled c)))) (\<lambda>signatures.
           rbind (wire signatures (r_messageBytes c)) (\<lambda>tx.
           Inr \<lparr>ar_signedTransaction = tx, ar_messageBytes = r_messageBytes c,
                ar_accountKeys = r_accountKeys c\<rparr>)))))"

end
