(* ===== verification/AccountOrder.thy ===== *)
theory AccountOrder
  imports Assembler
begin

text \<open>
  What \<open>compileAccounts\<close> guarantees: every mentioned account occurs once, with the
  disjunction of its permissions; the payer is first; the header's three counts
  describe the four classes; only non-signers that no instruction invokes come from a
  lookup table, and their reference is right.
\<close>

section \<open>Mentions\<close>

type_synonym mention = "pubkey \<times> bool \<times> bool"

definition ix_mentions :: "instruction \<Rightarrow> mention list" where
  "ix_mentions ix = (programId ix, False, False)
     # map (\<lambda>meta. (m_pubkey meta, m_isSigner meta, m_isWritable meta)) (ix_keys ix)"

definition mentions :: "instruction list \<Rightarrow> pubkey \<Rightarrow> mention list" where
  "mentions ixs payer = (payer, True, True) # concat (map ix_mentions ixs)"

definition upsert_mention :: "(string, account_info) jsmap \<Rightarrow> mention \<Rightarrow> (string, account_info) jsmap" where
  "upsert_mention m t = (case t of (pk, s, w) \<Rightarrow> upsert pk s w m)"

definition signs :: "mention list \<Rightarrow> pubkey \<Rightarrow> bool" where
  "signs ms pk \<longleftrightarrow> (\<exists>w. (pk, True, w) \<in> set ms)"

definition writes :: "mention list \<Rightarrow> pubkey \<Rightarrow> bool" where
  "writes ms pk \<longleftrightarrow> (\<exists>s. (pk, s, True) \<in> set ms)"

definition merged :: "mention list \<Rightarrow> pubkey \<Rightarrow> account_info" where
  "merged ms pk = \<lparr>a_pubkey = pk, a_isSigner = signs ms pk, a_isWritable = writes ms pk, a_alt = None\<rparr>"

lemma set_mentions:
  "set (mentions ixs payer) = {(payer, True, True)} \<union> {(programId ix, False, False) | ix. ix \<in> set ixs}
     \<union> {(m_pubkey m, m_isSigner m, m_isWritable m) | m ix. ix \<in> set ixs \<and> m \<in> set (ix_keys ix)}"
  by (auto simp: mentions_def ix_mentions_def)

lemma signs_iff: "signs (mentions ixs payer) pk \<longleftrightarrow>
    pk = payer \<or> (\<exists>ix \<in> set ixs. \<exists>m \<in> set (ix_keys ix). m_pubkey m = pk \<and> m_isSigner m)"
  unfolding signs_def set_mentions by auto

lemma writes_iff: "writes (mentions ixs payer) pk \<longleftrightarrow>
    pk = payer \<or> (\<exists>ix \<in> set ixs. \<exists>m \<in> set (ix_keys ix). m_pubkey m = pk \<and> m_isWritable m)"
  unfolding writes_def set_mentions by auto

lemma mentioned_iff: "pk \<in> fst ` set (mentions ixs payer) \<longleftrightarrow>
    pk = payer \<or> (\<exists>ix \<in> set ixs. pk = programId ix \<or> (\<exists>m \<in> set (ix_keys ix). m_pubkey m = pk))"
proof -
  have "fst ` set (mentions ixs payer) = insert payer (\<Union>ix \<in> set ixs. fst ` set (ix_mentions ix))"
    by (simp add: mentions_def image_UN)
  then have "fst ` set (mentions ixs payer) =
      insert payer (\<Union>ix \<in> set ixs. insert (programId ix) (m_pubkey ` set (ix_keys ix)))"
    by (simp add: ix_mentions_def image_image)
  then show ?thesis by (simp only:) auto
qed

lemma collect_instruction_mentions:
  "collect_instruction m ix = foldl upsert_mention m (ix_mentions ix)"
  by (simp add: collect_instruction_def ix_mentions_def upsert_mention_def foldl_map)

lemma collect_accounts_mentions:
  "collect_accounts ixs payer = foldl upsert_mention [] (mentions ixs payer)"
proof -
  have "foldl collect_instruction m ixs = foldl upsert_mention m (concat (map ix_mentions ixs))" for m
    by (induction ixs arbitrary: m) (simp_all add: collect_instruction_mentions)
  then show ?thesis by (simp add: collect_accounts_def mentions_def upsert_mention_def)
qed

text \<open>The keys, in order of first mention, and the entry of each.\<close>

fun first_mentions :: "pubkey list \<Rightarrow> pubkey list \<Rightarrow> pubkey list" where
  "first_mentions seen [] = seen"
| "first_mentions seen (pk # pks) = first_mentions (if pk \<in> set seen then seen else seen @ [pk]) pks"

lemma first_mentions_snoc:
  "first_mentions seen (pks @ [pk]) =
    (let r = first_mentions seen pks in if pk \<in> set r then r else r @ [pk])"
  by (induction seen pks rule: first_mentions.induct) (simp_all add: Let_def)

lemma set_first_mentions: "set (first_mentions seen pks) = set seen \<union> set pks"
  by (induction seen pks rule: first_mentions.induct) auto

lemma distinct_first_mentions: "distinct seen \<Longrightarrow> distinct (first_mentions seen pks)"
  by (induction seen pks rule: first_mentions.induct) auto

lemma hd_first_mentions: "seen \<noteq> [] \<Longrightarrow> hd (first_mentions seen pks) = hd seen"
  by (induction seen pks rule: first_mentions.induct) auto

lemma map_of_map_keys:
  "map_of (map (\<lambda>pk. (toBase58 pk, f pk)) pks) (toBase58 pk) = (if pk \<in> set pks then Some (f pk) else None)"
  by (induction pks) auto

lemma jm_set_map_keys:
  "jm_set (map (\<lambda>pk. (toBase58 pk, f pk)) pks) (toBase58 pk) v =
    (if pk \<in> set pks then map (\<lambda>q. (toBase58 q, if q = pk then v else f q)) (pks)
     else map (\<lambda>pk. (toBase58 pk, f pk)) pks @ [(toBase58 pk, v)])"
  if "distinct pks"
  using that
proof (induction pks)
  case (Cons q pks)
  then show ?case by (cases "q = pk") (auto intro!: map_cong)
qed simp

lemma upsert_mentions:
  "foldl upsert_mention [] ms =
    map (\<lambda>pk. (toBase58 pk, merged ms pk)) (first_mentions [] (map fst ms))"
proof (induction ms rule: rev_induct)
  case Nil
  then show ?case by simp
next
  case (snoc t ms)
  obtain pk s w where t: "t = (pk, s, w)" by (cases t)
  let ?ks = "first_mentions [] (map fst ms)"
  have d: "distinct ?ks" by (simp add: distinct_first_mentions)
  have other: "q \<noteq> pk \<Longrightarrow> merged (ms @ [t]) q = merged ms q" for q
    by (simp add: merged_def signs_def writes_def t)
  have self: "merged (ms @ [t]) pk =
      (merged ms pk)\<lparr>a_isSigner := s \<or> signs ms pk, a_isWritable := w \<or> writes ms pk\<rparr>"
    by (auto simp: merged_def signs_def writes_def t)
  show ?case
  proof (cases "pk \<in> set ?ks")
    case True
    then have "foldl upsert_mention [] (ms @ [t]) =
        map (\<lambda>q. (toBase58 q, if q = pk then merged (ms @ [t]) pk else merged ms q)) ?ks"
      by (simp add: snoc.IH upsert_mention_def t upsert_def map_of_map_keys jm_set_map_keys [OF d]
          self [unfolded t]) (simp add: merged_def)
    also have "\<dots> = map (\<lambda>q. (toBase58 q, merged (ms @ [t]) q)) ?ks"
      by (rule map_cong) (auto simp: other)
    finally show ?thesis using True by (simp add: t first_mentions_snoc Let_def)
  next
    case False
    then have n: "pk \<notin> fst ` set ms" by (simp add: set_first_mentions)
    then have "\<not> signs ms pk" "\<not> writes ms pk" by (force simp: signs_def writes_def)+
    with False have "foldl upsert_mention [] (ms @ [t]) =
        map (\<lambda>q. (toBase58 q, merged ms q)) ?ks @ [(toBase58 pk, merged (ms @ [t]) pk)]"
      by (simp add: snoc.IH upsert_mention_def t upsert_def map_of_map_keys jm_set_map_keys [OF d])
        (auto simp: merged_def signs_def writes_def)
    also have "\<dots> = map (\<lambda>q. (toBase58 q, merged (ms @ [t]) q)) (?ks @ [pk])"
      using False other by (auto intro!: map_cong) (metis other)
    finally show ?thesis using False by (simp add: t first_mentions_snoc Let_def)
  qed
qed

section \<open>Accounts after table resolution\<close>

definition account_order :: "instruction list \<Rightarrow> pubkey \<Rightarrow> pubkey list" where
  "account_order ixs payer = first_mentions [] (map fst (mentions ixs payer))"

definition invoked_keys :: "instruction list \<Rightarrow> string list" where
  "invoked_keys ixs = map (\<lambda>ix. toBase58 (programId ix)) ixs"

definition resolved_account :: "instruction list \<Rightarrow> pubkey \<Rightarrow> (pubkey \<times> lookup_table) list \<Rightarrow> pubkey \<Rightarrow> account_info" where
  "resolved_account ixs payer alts pk = resolve_alt (invoked_keys ixs) alts (merged (mentions ixs payer) pk)"

definition resolved_accounts :: "instruction list \<Rightarrow> pubkey \<Rightarrow> (pubkey \<times> lookup_table) list \<Rightarrow> account_info list" where
  "resolved_accounts ixs payer alts = map (resolved_account ixs payer alts) (account_order ixs payer)"

lemma resolve_alt_fields [simp]:
  "a_pubkey (resolve_alt invk alts a) = a_pubkey a"
  "a_isSigner (resolve_alt invk alts a) = a_isSigner a"
  "a_isWritable (resolve_alt invk alts a) = a_isWritable a"
  by (auto simp: resolve_alt_def split: option.splits)

lemma resolved_account_fields [simp]:
  "a_pubkey (resolved_account ixs payer alts pk) = pk"
  "a_isSigner (resolved_account ixs payer alts pk) = signs (mentions ixs payer) pk"
  "a_isWritable (resolved_account ixs payer alts pk) = writes (mentions ixs payer) pk"
  by (simp_all add: resolved_account_def merged_def)

lemma resolved_accounts_collect:
  "map (resolve_alt (map (\<lambda>ix. toBase58 (programId ix)) ixs) alts) (jm_values (collect_accounts ixs payer)) =
    resolved_accounts ixs payer alts"
  by (simp add: collect_accounts_mentions upsert_mentions jm_values_def comp_def resolved_accounts_def
      resolved_account_def account_order_def invoked_keys_def)

lemma distinct_account_order: "distinct (account_order ixs payer)"
  by (simp add: account_order_def distinct_first_mentions)

lemma set_account_order: "set (account_order ixs payer) = fst ` set (mentions ixs payer)"
  by (simp add: account_order_def set_first_mentions)

lemma pubkeys_resolved: "map a_pubkey (resolved_accounts ixs payer alts) = account_order ixs payer"
  by (simp add: resolved_accounts_def comp_def)

section \<open>The partition\<close>

lemma sort_key_first:
  "sort_key (\<lambda>a. if p a then 0 else 1 :: nat) xs = filter p xs @ filter (\<lambda>a. \<not> p a) xs"
proof (induction xs)
  case Nil
  then show ?case by simp
next
  case (Cons x xs)
  have zero: "insort_key (\<lambda>a. if p a then 0 else 1 :: nat) x ys = x # ys" if "p x" for ys
    using that by (cases ys) auto
  have one: "insort_key (\<lambda>a. if p a then 0 else 1 :: nat) x (filter p ys @ zs) =
      filter p ys @ insort_key (\<lambda>a. if p a then 0 else 1 :: nat) x zs" if "\<not> p x" for ys zs
    using that by (induction ys) auto
  have head: "insort_key (\<lambda>a. if p a then 0 else 1 :: nat) x (filter (\<lambda>a. \<not> p a) ys) =
      x # filter (\<lambda>a. \<not> p a) ys" if "\<not> p x" for ys
    using that by (cases "filter (\<lambda>a. \<not> p a) ys") (auto dest: filter_eq_ConsD)
  show ?case
    by (cases "p x") (simp_all add: Cons.IH zero one head)
qed

definition classes :: "account_info list \<Rightarrow> pubkey \<Rightarrow> account_info list list" where
  "classes accs payer =
     [filter (\<lambda>a. a_isSigner a \<and> a_isWritable a \<and> a_pubkey a = payer) accs,
      filter (\<lambda>a. a_isSigner a \<and> a_isWritable a \<and> a_pubkey a \<noteq> payer) accs,
      filter (\<lambda>a. a_isSigner a \<and> \<not> a_isWritable a) accs,
      filter (\<lambda>a. \<not> a_isSigner a \<and> a_isWritable a \<and> a_alt a = None) accs,
      filter (\<lambda>a. \<not> a_isSigner a \<and> \<not> a_isWritable a \<and> a_alt a = None) accs,
      filter (\<lambda>a. \<not> a_isSigner a \<and> a_isWritable a \<and> a_alt a \<noteq> None) accs,
      filter (\<lambda>a. \<not> a_isSigner a \<and> \<not> a_isWritable a \<and> a_alt a \<noteq> None) accs]"

lemma mset_classes: "mset (concat (classes accs payer)) = mset accs"
  by (induction accs) (auto simp: classes_def)

definition all_accounts :: "compiled_accounts \<Rightarrow> account_info list" where
  "all_accounts c = staticAccounts c @ altWritable c @ altReadonly c"

lemma compileAccounts_classes:
  fixes ixs payer alts
  defines "accs \<equiv> resolved_accounts ixs payer alts"
    and "c \<equiv> compileAccounts ixs payer alts"
  shows "staticAccounts c = concat (take 5 (classes accs payer))"
    and "altWritable c = classes accs payer ! 5"
    and "altReadonly c = classes accs payer ! 6"
    and "indexByBase58 c = assign_indices (all_accounts c) 0 []"
    and "numRequiredSignatures c = length (concat (take 3 (classes accs payer)))"
    and "numReadonlySigned c = length (classes accs payer ! 2)"
    and "numReadonlyUnsigned c = length (classes accs payer ! 4)"
  unfolding accs_def c_def compileAccounts_def Let_def resolved_accounts_collect classes_def all_accounts_def
    sort_key_first
  by (simp_all add: conj_ac)

lemma all_accounts_classes:
  "all_accounts (compileAccounts ixs payer alts) =
    concat (classes (resolved_accounts ixs payer alts) payer)"
  by (simp add: all_accounts_def compileAccounts_classes) (simp add: classes_def)

lemma mset_all_accounts:
  "mset (all_accounts (compileAccounts ixs payer alts)) = mset (resolved_accounts ixs payer alts)"
  by (simp add: all_accounts_classes mset_classes)

lemma set_all_accounts:
  "set (all_accounts (compileAccounts ixs payer alts)) =
    resolved_account ixs payer alts ` fst ` set (mentions ixs payer)"
proof -
  have "set (all_accounts (compileAccounts ixs payer alts)) = set (resolved_accounts ixs payer alts)"
    by (metis mset_all_accounts set_mset_mset)
  then show ?thesis by (simp add: resolved_accounts_def set_account_order)
qed

lemma distinct_all_accounts:
  "distinct (map a_pubkey (all_accounts (compileAccounts ixs payer alts)))"
proof -
  have "mset (map a_pubkey (all_accounts (compileAccounts ixs payer alts))) = mset (account_order ixs payer)"
    by (simp add: mset_all_accounts pubkeys_resolved [symmetric, of _ _ alts])
  then show ?thesis
    by (metis distinct_account_order mset_eq_imp_distinct_iff)
qed

section \<open>The index\<close>

lemma assign_indices_get:
  assumes "distinct (map a_pubkey accs)"
  shows "jm_get (assign_indices accs n m) (toBase58 pk) =
    (case findIndex (\<lambda>a. a_pubkey a = pk) accs of Some i \<Rightarrow> Some (n + i) | None \<Rightarrow> jm_get m (toBase58 pk))"
  using assms
proof (induction accs n m rule: assign_indices.induct)
  case (1 n m)
  then show ?case by simp
next
  case (2 acc accs n m)
  have "findIndex (\<lambda>a. a_pubkey a = a_pubkey acc) accs = None" if "a_pubkey acc \<notin> a_pubkey ` set accs"
    using that by (induction accs) auto
  then show ?case
    using 2 by (auto simp: jm_get_set split: option.splits)
qed

lemma index_of_account:
  fixes ixs payer alts
  defines "c \<equiv> compileAccounts ixs payer alts"
  assumes "pk \<in> fst ` set (mentions ixs payer)"
  obtains i where "lookup_index (indexByBase58 c) pk = Inr i" and "i < length (all_accounts c)"
    and "all_accounts c ! i = resolved_account ixs payer alts pk"
proof -
  have mem: "resolved_account ixs payer alts pk \<in> set (all_accounts c)"
    using assms by (auto simp: set_all_accounts)
  then obtain i where i: "findIndex (\<lambda>a. a_pubkey a = pk) (all_accounts c) = Some i"
    using findIndex_None [of "\<lambda>a. a_pubkey a = pk" "all_accounts c"] by fastforce
  then have "i < length (all_accounts c)" "a_pubkey (all_accounts c ! i) = pk"
    using findIndex_Some by fast+
  moreover have "all_accounts c ! i = resolved_account ixs payer alts pk"
  proof -
    have "all_accounts c ! i \<in> set (all_accounts c)" using calculation(1) by simp
    then obtain q where "all_accounts c ! i = resolved_account ixs payer alts q"
      by (auto simp: c_def set_all_accounts)
    with calculation(2) show ?thesis by simp
  qed
  moreover have "lookup_index (indexByBase58 c) pk = Inr i"
    using assign_indices_get [OF distinct_all_accounts, of ixs payer alts 0 "[]" pk] i
    by (simp add: lookup_index_def c_def compileAccounts_classes)
  ultimately show thesis using that by blast
qed

section \<open>Table references\<close>

lemma first_alt_Some:
  "first_alt pk alts = Some (key, idx) \<Longrightarrow>
    \<exists>t. (key, t) \<in> set alts \<and> idx < length (addresses t) \<and> addresses t ! idx = pk"
  by (induction pk alts rule: first_alt.induct) (auto dest: findIndex_Some split: option.splits)

lemma resolved_alt_cases:
  assumes "a_alt (resolved_account ixs payer alts pk) = Some (key, idx)"
  shows "\<not> signs (mentions ixs payer) pk" and "pk \<notin> programId ` set ixs"
    and "first_alt pk alts = Some (key, idx)"
  using assms by (auto simp: resolved_account_def resolve_alt_def merged_def invoked_keys_def split: if_splits option.splits)

end
