(* ===== verification/TxCodec.thy ===== *)
theory TxCodec
  imports Assembler
begin

text \<open>
  \<open>packages/solana-tx/src/transaction-codec.ts\<close> and \<open>transaction-v1.ts\<close>: reading a wire
  transaction back. Every bound the code checks is a branch; \<open>undefined\<close> reads are the
  \<open>None\<close> of \<open>jat\<close>.
\<close>

definition readCompact :: "bytes \<Rightarrow> nat \<Rightarrow> tx_error + (nat \<times> nat)" where
  "readCompact bs offset = map_sum (\<lambda>e. Malformed (BadLengthPrefix offset e)) id (compact_decode bs offset)"

definition readKey :: "bytes \<Rightarrow> nat \<Rightarrow> tx_error + pubkey" where
  "readKey bs pos = map_sum (\<lambda>e. Malformed (BadKey e)) id (fromBytes (jslice bs pos (pos + 32)))"

text \<open>\<open>(bytes[0] ?? 0) & 0x80\<close>\<close>

definition is_versioned :: "bytes \<Rightarrow> bool" where
  "is_versioned bs = (case jat bs 0 of None \<Rightarrow> False | Some b \<Rightarrow> b AND 0x80 \<noteq> 0)"

definition version_of :: "bytes \<Rightarrow> nat" where
  "version_of bs = (case jat bs 0 of None \<Rightarrow> 0 | Some b \<Rightarrow> unat (b AND 0x7f))"

section \<open>Version 1 messages\<close>

record v1_config =
  c_mask :: nat
  c_priorityFeeLamports :: nat
  c_computeUnitLimit :: nat
  c_loadedAccountsDataSizeLimit :: nat
  c_heapSize :: nat

record decompiled =
  d_config :: "v1_config option"   \<comment> \<open>present for version 1 only\<close>
  d_instructions :: "instruction list"
  d_accountKeys :: "pubkey list"
  d_signers :: "pubkey list"
  d_recentBlockhash :: string

definition v1_fail :: "malformed \<Rightarrow> tx_error + 'a" where
  "v1_fail m = Inl (Malformed m)"

definition requireBytes :: "bytes \<Rightarrow> nat \<Rightarrow> nat \<Rightarrow> tx_error + unit" where
  "requireBytes bs offset nBytes = (if offset + nBytes > length bs then v1_fail V1FieldPastEnd else Inr ())"

text \<open>The configuration words: one \<open>u32\<close> for every set bit of the mask, lowest first.\<close>

fun v1_values :: "bytes \<Rightarrow> nat \<Rightarrow> nat list \<Rightarrow> nat \<Rightarrow> (nat, nat) jsmap \<Rightarrow>
    tx_error + ((nat, nat) jsmap \<times> nat)" where
  "v1_values bs cmask [] offset m = Inr (m, offset)"
| "v1_values bs cmask (b # bits) offset m =
     (if bit cmask b
      then rbind (requireBytes bs offset 4) (\<lambda>_.
             v1_values bs cmask bits (offset + 4) (jm_set m b (le_val (jslice bs offset (offset + 4)))))
      else v1_values bs cmask bits offset m)"

definition v1_word :: "(nat, nat) jsmap \<Rightarrow> nat \<Rightarrow> nat \<Rightarrow> nat" where
  "v1_word m b dflt = (case jm_get m b of None \<Rightarrow> dflt | Some v \<Rightarrow> v)"

definition v1_account :: "pubkey list \<Rightarrow> nat \<Rightarrow> nat \<Rightarrow> nat \<Rightarrow> nat \<Rightarrow> nat \<Rightarrow> tx_error + account_meta" where
  "v1_account ks addressCount required readonlySigned readonlyUnsigned index =
     (if index \<ge> addressCount then v1_fail V1AccountIndex
      else Inr \<lparr>m_pubkey = ks ! index, m_isSigner = index < required,
                m_isWritable = (if index < required then index < required - readonlySigned
                                else index < addressCount - readonlyUnsigned)\<rparr>)"

text \<open>One instruction body per header \<open>(program, accounts, data)\<close>.\<close>

fun v1_bodies :: "bytes \<Rightarrow> pubkey list \<Rightarrow> nat \<Rightarrow> nat \<Rightarrow> nat \<Rightarrow> nat \<Rightarrow> (nat \<times> nat \<times> nat) list \<Rightarrow> nat \<Rightarrow>
    tx_error + (instruction list \<times> nat)" where
  "v1_bodies bs ks n rq rs ru [] offset = Inr ([], offset)"
| "v1_bodies bs ks n rq rs ru ((program, accounts, dlen) # hs) offset =
     (if program \<ge> n then v1_fail V1ProgramIndex
      else rbind (requireBytes bs offset (accounts + dlen)) (\<lambda>_.
        rbind (rmap (v1_account ks n rq rs ru) (map unat (jslice bs offset (offset + accounts)))) (\<lambda>metas.
        let offset = offset + accounts;
            dat = jslice bs offset (offset + dlen)
        in rbind (v1_bodies bs ks n rq rs ru hs (offset + dlen)) (\<lambda>(ixs, end).
             Inr (\<lparr>programId = ks ! program, ix_keys = metas, ix_data = dat\<rparr> # ixs, end)))))"

definition v1_header :: "bytes \<Rightarrow> nat \<Rightarrow> nat \<Rightarrow> nat \<times> nat \<times> nat" where
  "v1_header bs offset index =
     (unat (bs ! (offset + index * 4)), unat (bs ! (offset + index * 4 + 1)),
      le_val (jslice bs (offset + index * 4 + 2) (offset + index * 4 + 4)))"

definition parseV1Message :: "bytes \<Rightarrow> tx_error + decompiled" where
  "parseV1Message bs =
     (if length bs < 42 \<or> bs ! 0 \<noteq> 0x81 then v1_fail V1HeaderMissing
      else let required = unat (bs ! 1); readonlySigned = unat (bs ! 2); readonlyUnsigned = unat (bs ! 3);
               instructionCount = unat (bs ! 40); addressCount = unat (bs ! 41)
      in if required < 1 \<or> required > 12 \<or> readonlySigned \<ge> required \<or> addressCount > 64
            \<or> addressCount < required + readonlyUnsigned \<or> instructionCount > 64
         then v1_fail V1HeaderCounts
         else let cmask = le_val (jslice bs 4 8)
         in if cmask > 31 \<or> (cmask AND 3 \<noteq> 0 \<and> cmask AND 3 \<noteq> 3) then v1_fail V1ConfigMask
         else rbind (requireBytes bs 42 (addressCount * 32)) (\<lambda>_.
           rbind (rmap (\<lambda>i. map_sum (\<lambda>e. Malformed (V1Key e)) id
                    (fromBytes (jslice bs (42 + i * 32) (42 + (i + 1) * 32)))) [0..<addressCount]) (\<lambda>ks.
           let offset = 42 + addressCount * 32
           in if length (remdups (map toBase58 ks)) \<noteq> addressCount then v1_fail V1DuplicateAddress
           else rbind (v1_values bs cmask [0, 1, 2, 3, 4] offset []) (\<lambda>(vals, offset).
           let heapSize = v1_word vals 4 32768
           in if heapSize < 32768 \<or> heapSize > 262144 \<or> heapSize mod 1024 \<noteq> 0 then v1_fail V1HeapSize
           else rbind (requireBytes bs offset (instructionCount * 4)) (\<lambda>_.
           let headers = map (v1_header bs offset) [0..<instructionCount]
           in rbind (v1_bodies bs ks addressCount required readonlySigned readonlyUnsigned headers
                       (offset + instructionCount * 4)) (\<lambda>(ixs, offset).
           if offset \<noteq> length bs \<or> length bs + required * 64 > 4096 then v1_fail V1Trailing
           else Inr \<lparr>d_config = Some \<lparr>c_mask = cmask,
                       c_priorityFeeLamports = v1_word vals 0 0 OR push_bit 32 (v1_word vals 1 0),
                       c_computeUnitLimit = v1_word vals 2 0,
                       c_loadedAccountsDataSizeLimit = v1_word vals 3 0, c_heapSize = heapSize\<rparr>,
                     d_instructions = ixs, d_accountKeys = ks, d_signers = take required ks,
                     d_recentBlockhash = base58_encode (jslice bs 8 40)\<rparr>))))))"

section \<open>Splitting signatures from the message\<close>

definition decodeTransaction :: "bytes \<Rightarrow> tx_error + (bytes list \<times> bytes)" where
  "decodeTransaction bs =
     (if jat bs 0 = Some 0x81
      then if length bs < 42 \<or> length bs > 4096 then Inl (Malformed V1Size)
           else let required = unat (bs ! 1)
             in if int (length bs) - int (required * SIGNATURE_LENGTH) < 42 then Inl (Malformed V1SignaturesPastEnd)
                else let messageEnd = length bs - required * SIGNATURE_LENGTH;
                         messageBytes = jslice bs 0 messageEnd
                     in rbind (parseV1Message messageBytes) (\<lambda>_.
                          Inr (map (\<lambda>i. jslice bs (messageEnd + i * SIGNATURE_LENGTH)
                                              (messageEnd + (i + 1) * SIGNATURE_LENGTH)) [0..<required],
                               messageBytes))
      else rbind (readCompact bs 0) (\<lambda>(nSigs, size).
        let sigEnd = size + nSigs * SIGNATURE_LENGTH
        in if sigEnd \<ge> length bs then Inl (Malformed SignaturesPastEnd)
           else Inr (map (\<lambda>i. jslice bs (size + i * SIGNATURE_LENGTH)
                                 (size + i * SIGNATURE_LENGTH + SIGNATURE_LENGTH)) [0..<nSigs],
                     drop sigEnd bs)))"

section \<open>Required signers\<close>

definition messageSigners :: "bytes \<Rightarrow> tx_error + pubkey list" where
  "messageSigners mb =
     (if jat mb 0 = Some 0x81 then map_sum id d_signers (parseV1Message mb)
      else let off = (if is_versioned mb then 1 else 0)
      in if off = 1 \<and> version_of mb \<noteq> 0 then Inl (Malformed (UnsupportedVersion (version_of mb)))
      else case jat mb off of
        None \<Rightarrow> Inl (Malformed HeaderMissing)
      | Some requiredByte \<Rightarrow>
          let required = unat requiredByte; off = off + 3
          in rbind (readCompact mb off) (\<lambda>(nKeys, size).
            let off = off + size
            in if required > nKeys \<or> off + nKeys * 32 > length mb then Inl (Malformed KeysPastEnd)
               else rmap (\<lambda>i. readKey mb (off + i * 32)) [0..<required]))"

section \<open>Decompiling\<close>

type_synonym raw_instruction = "nat \<times> nat list \<times> bytes"

text \<open>The instruction loop: \<open>n\<close> is the index used in error details, \<open>k\<close> what is left to read.\<close>

fun read_raw_instructions :: "bytes \<Rightarrow> nat \<Rightarrow> nat \<Rightarrow> nat \<Rightarrow> nat \<Rightarrow> tx_error + (raw_instruction list \<times> nat)" where
  "read_raw_instructions mb nKeys n 0 off = Inr ([], off)"
| "read_raw_instructions mb nKeys n (Suc k) off =
     (case jat mb off of
        None \<Rightarrow> Inl (Malformed (ProgramIndexRange n))
      | Some p \<Rightarrow>
          if unat p \<ge> nKeys then Inl (Malformed (ProgramIndexRange n))
          else let off = off + 1
          in rbind (readCompact mb off) (\<lambda>(nAcc, size).
            let off = off + size
            in if off + nAcc > length mb then Inl (Malformed (AccountsPastEnd n))
            else let accounts = map unat (jslice mb off (off + nAcc)); off = off + nAcc
            in rbind (readCompact mb off) (\<lambda>(len, size).
              let off = off + size
              in if off + len > length mb then Inl (Malformed (DataPastEnd n))
              else rbind (read_raw_instructions mb nKeys (Suc n) k (off + len)) (\<lambda>(rest, end).
                Inr ((unat p, accounts, jslice mb off (off + len)) # rest, end)))))"

text \<open>
  One side (writable, then readonly) of one table: with \<open>loaded\<close> only the count matters,
  otherwise the table's addresses are looked up. Returns the addresses, the count and
  the new offset.
\<close>

definition lookup_address :: "string \<Rightarrow> pubkey list \<Rightarrow> byte \<Rightarrow> tx_error + pubkey" where
  "lookup_address table addrs i =
     (case jat addrs (unat i) of None \<Rightarrow> Inl (Malformed (TableNoIndex table (unat i))) | Some a \<Rightarrow> Inr a)"

definition read_side :: "bytes \<Rightarrow> string \<Rightarrow> pubkey list option \<Rightarrow> nat \<Rightarrow> tx_error + (pubkey list \<times> nat \<times> nat)" where
  "read_side mb table addrs off =
     rbind (readCompact mb off) (\<lambda>(n, size).
       let off = off + size
       in if off + n > length mb then Inl (Malformed LookupIndexesPastEnd)
          else case addrs of
            None \<Rightarrow> Inr ([], n, off + n)
          | Some as \<Rightarrow> rbind (rmap (lookup_address table as) (jslice mb off (off + n))) (\<lambda>ks.
              Inr (ks, 0, off + n)))"

record looked_up =
  lu_writable :: "pubkey list"
  lu_readonly :: "pubkey list"
  lu_countW :: nat
  lu_countR :: nat

fun read_lookups :: "bytes \<Rightarrow> (string \<Rightarrow> pubkey list option) \<Rightarrow> bool \<Rightarrow> nat \<Rightarrow> nat \<Rightarrow> looked_up \<Rightarrow>
    tx_error + (looked_up \<times> nat)" where
  "read_lookups mb tables loaded 0 off acc = Inr (acc, off)"
| "read_lookups mb tables loaded (Suc k) off acc =
     (if off + 32 > length mb then Inl (Malformed TablePastEnd)
      else rbind (readKey mb off) (\<lambda>key.
        let table = toBase58 key; off = off + 32;
            addrs = (if loaded then None else tables table)
        in if \<not> loaded \<and> addrs = None then Inl (Malformed (TableNotProvided table))
           else rbind (read_side mb table addrs off) (\<lambda>(w, nw, off).
             rbind (read_side mb table addrs off) (\<lambda>(r, nr, off).
             read_lookups mb tables loaded k off
               \<lparr>lu_writable = lu_writable acc @ w, lu_readonly = lu_readonly acc @ r,
                lu_countW = lu_countW acc + nw, lu_countR = lu_countR acc + nr\<rparr>))))"

definition no_lookups :: looked_up where
  "no_lookups = \<lparr>lu_writable = [], lu_readonly = [], lu_countW = 0, lu_countR = 0\<rparr>"

definition message_writable :: "nat \<Rightarrow> nat \<Rightarrow> nat \<Rightarrow> nat \<Rightarrow> nat \<Rightarrow> nat \<Rightarrow> bool" where
  "message_writable required readonlySigned readonlyUnsigned nKeys nLookedUpWritable i =
     (if i < required then i < required - readonlySigned
      else if i < nKeys then i < nKeys - readonlyUnsigned
      else i < nKeys + nLookedUpWritable)"

definition resolve_meta :: "pubkey list \<Rightarrow> nat \<Rightarrow> (nat \<Rightarrow> bool) \<Rightarrow> nat \<Rightarrow> nat \<Rightarrow> tx_error + account_meta" where
  "resolve_meta resolved required writable n i =
     (case jat resolved i of
        None \<Rightarrow> Inl (Malformed (AccountIndexRange n i))
      | Some pk \<Rightarrow> Inr \<lparr>m_pubkey = pk, m_isSigner = i < required, m_isWritable = writable i\<rparr>)"

fun resolve_raw :: "pubkey list \<Rightarrow> pubkey list \<Rightarrow> nat \<Rightarrow> (nat \<Rightarrow> bool) \<Rightarrow> nat \<Rightarrow> raw_instruction list \<Rightarrow>
    tx_error + instruction list" where
  "resolve_raw accountKeys resolved required writable n [] = Inr []"
| "resolve_raw accountKeys resolved required writable n ((program, accounts, dat) # raw) =
     rbind (rmap (resolve_meta resolved required writable n) accounts) (\<lambda>metas.
     rbind (resolve_raw accountKeys resolved required writable (Suc n) raw) (\<lambda>ixs.
     Inr (\<lparr>programId = accountKeys ! program, ix_keys = metas, ix_data = dat\<rparr> # ixs)))"

definition decompileMessage :: "bytes \<Rightarrow> (string \<Rightarrow> pubkey list option) \<Rightarrow> (pubkey list \<times> pubkey list) option \<Rightarrow>
    tx_error + decompiled" where
  "decompileMessage mb lookupTables loaded =
     (if jat mb 0 = Some 0x81
      then if (case loaded of Some (w, r) \<Rightarrow> w \<noteq> [] \<or> r \<noteq> [] | None \<Rightarrow> False) then Inl (Malformed V1Loaded)
           else parseV1Message mb
      else let versioned = is_versioned mb
      in if versioned \<and> version_of mb \<noteq> 0 then Inl (Malformed (UnsupportedVersion (version_of mb)))
      else let off = (if versioned then 1 else 0)
      in case (jat mb off, jat mb (off + 1), jat mb (off + 2)) of
        (Some h0, Some h1, Some h2) \<Rightarrow>
          let required = unat h0; readonlySigned = unat h1; readonlyUnsigned = unat h2; off = off + 3
          in rbind (readCompact mb off) (\<lambda>(nKeys, size).
            let off = off + size
            in if required > nKeys \<or> off + nKeys * 32 > length mb then Inl (Malformed KeysPastEnd)
            else rbind (rmap (\<lambda>i. readKey mb (off + i * 32)) [0..<nKeys]) (\<lambda>accountKeys.
            let off = off + nKeys * 32
            in if off + 32 > length mb then Inl (Malformed BlockhashPastEnd)
            else let recentBlockhash = base58_encode (jslice mb off (off + 32)); off = off + 32
            in rbind (readCompact mb off) (\<lambda>(nIx, size).
            rbind (read_raw_instructions mb nKeys 0 nIx (off + size)) (\<lambda>(raw, off).
            rbind (if versioned
                   then rbind (readCompact mb off) (\<lambda>(nLookups, size).
                          read_lookups mb lookupTables (loaded \<noteq> None) nLookups (off + size) no_lookups)
                   else Inr (no_lookups, off)) (\<lambda>(lu, off).
            rbind (case loaded of
                     None \<Rightarrow> Inr (lu_writable lu, lu_readonly lu)
                   | Some (w, r) \<Rightarrow>
                       if length w \<noteq> lu_countW lu \<or> length r \<noteq> lu_countR lu then Inl (Malformed LoadedMismatch)
                       else Inr (lu_writable lu @ w, lu_readonly lu @ r)) (\<lambda>(lookedUpWritable, lookedUpReadonly).
            if off \<noteq> length mb then Inl (Malformed TrailingBytes)
            else rbind (resolve_raw accountKeys (accountKeys @ lookedUpWritable @ lookedUpReadonly) required
                     (message_writable required readonlySigned readonlyUnsigned nKeys (length lookedUpWritable))
                     0 raw) (\<lambda>ixs.
              Inr \<lparr>d_config = None, d_instructions = ixs, d_accountKeys = accountKeys,
                   d_signers = take required accountKeys, d_recentBlockhash = recentBlockhash\<rparr>)))))))
      | _ \<Rightarrow> Inl (Malformed HeaderMissing))"

text \<open>
  \<open>verifyTransactionSignatures\<close>; \<open>verify\<close> stands for \<open>ed.verifyAsync\<close> of
  \<open>@noble/ed25519\<close> (signature, message, public key), a rejection counting as \<open>False\<close>.
\<close>

definition verifyTransactionSignatures :: "(bytes \<Rightarrow> bytes \<Rightarrow> bytes \<Rightarrow> bool) \<Rightarrow> bytes \<Rightarrow> tx_error + bool" where
  "verifyTransactionSignatures verify bs =
     rbind (decodeTransaction bs) (\<lambda>(signatures, messageBytes).
     rbind (messageSigners messageBytes) (\<lambda>signers.
     Inr (if length signatures \<noteq> length signers then False
          else list_all (\<lambda>(sig, pk). verify sig messageBytes (toBuffer pk)) (zip signatures signers))))"

end
