(* ===== verification/TxRoundTrip.thy ===== *)
theory TxRoundTrip
  imports AccountOrder TxCodec
begin

text \<open>
  Reading back what the assembler writes. Each section of the message has a lemma of
  the same shape: a reader placed at the section's first byte, whatever comes before
  and after, returns what was written and stops at the section's end.
\<close>

section \<open>Length prefixes and keys\<close>

lemma readCompact_push:
  assumes "push_compact n = Inr p"
  shows "readCompact (pre @ p @ post) (length pre) = Inr (n, length p)"
proof -
  have "compact_encode (int n) = Inr p"
    using assms by (cases "compact_encode (int n)") (auto simp: push_compact_def)
  then show ?thesis by (simp add: readCompact_def compact_decode_encode)
qed

lemma pushCompactArrayU8_Inr:
  "pushCompactArrayU8 bs = Inr s \<longleftrightarrow> (\<exists>p. push_compact (length bs) = Inr p \<and> s = p @ bs)"
  by (auto simp: pushCompactArrayU8_def result_simps)

lemma jslice_key:
  "i < length ks \<Longrightarrow>
    jslice (pre @ concat (map toBuffer ks) @ post) (length pre + i * 32) (length pre + i * 32 + 32) = toBuffer (ks ! i)"
proof (induction ks arbitrary: i pre)
  case Nil
  then show ?case by simp
next
  case (Cons k ks)
  show ?case
  proof (cases i)
    case 0
    then show ?thesis using jslice_append [of pre "toBuffer k" "concat (map toBuffer ks) @ post"] by simp
  next
    case (Suc j)
    then show ?thesis
      using Cons.IH [of j "pre @ toBuffer k"] Cons.prems by (simp add: algebra_simps)
  qed
qed

lemma readKey_keys:
  "i < length ks \<Longrightarrow> readKey (pre @ concat (map toBuffer ks) @ post) (length pre + i * 32) = Inr (ks ! i)"
  by (simp add: readKey_def jslice_key)

lemma readKeys_keys:
  "rmap (\<lambda>i. readKey (pre @ concat (map toBuffer ks) @ post) (length pre + i * 32)) [0..<length ks] = Inr ks"
  by (simp add: rmap_eq_Inr_iff readKey_keys)

lemma readKey_append: "readKey (pre @ toBuffer k @ post) (length pre) = Inr k"
  using readKey_keys [of 0 "[k]" pre post] by simp

section \<open>Instructions\<close>

definition serialize_raw :: "raw_instruction \<Rightarrow> tx_error + bytes" where
  "serialize_raw t = (case t of (p, accs, dat) \<Rightarrow>
     rbind (pushCompactArrayU8 (map word_of_nat accs)) (\<lambda>a.
     rbind (pushCompactArrayU8 dat) (\<lambda>d. Inr (word_of_nat p # a @ d))))"

definition raw_ok :: "nat \<Rightarrow> raw_instruction \<Rightarrow> bool" where
  "raw_ok nKeys t = (case t of (p, accs, dat) \<Rightarrow> p < nKeys \<and> p < 256 \<and> list_all (\<lambda>i. i < 256) accs)"

lemma map_unat_bytes: "list_all (\<lambda>i. i < 256) xs \<Longrightarrow> map unat (map word_of_nat xs :: bytes) = xs"
  by (rule map_unat_word_of_nat) (simp add: list_all_iff)

lemma read_raw_step:
  assumes ser: "serialize_raw (p, accs, dat) = Inr s" and ok: "raw_ok nKeys (p, accs, dat)"
  shows "read_raw_instructions (pre @ s @ post) nKeys n (Suc k) (length pre) =
    rbind (read_raw_instructions (pre @ s @ post) nKeys (Suc n) k (length pre + length s))
      (\<lambda>(rest, end). Inr ((p, accs, dat) # rest, end))"
proof -
  obtain pa pd where pa: "push_compact (length accs) = Inr pa" and pd: "push_compact (length dat) = Inr pd"
    and s: "s = [word_of_nat p] @ pa @ map word_of_nat accs @ pd @ dat"
    using ser by (auto simp: serialize_raw_def result_simps pushCompactArrayU8_Inr)
  let ?mb = "pre @ s @ post" and ?a = "map word_of_nat accs :: bytes"
  have b: "unat (word_of_nat p :: byte) = p" and accs: "map unat ?a = accs"
    using ok map_unat_bytes by (auto simp: raw_ok_def unat_byte_small)
  have r0: "jat ?mb (length pre) = Some (word_of_nat p)"
    using jat_append [of pre "word_of_nat p"] by (simp add: s)
  have r1: "readCompact ?mb (length pre + 1) = Inr (length accs, length pa)"
    using readCompact_push [OF pa, of "pre @ [word_of_nat p]"] by (simp add: s)
  have r2: "jslice ?mb (length pre + 1 + length pa) (length pre + 1 + length pa + length accs) = ?a"
    using jslice_append [of "pre @ [word_of_nat p] @ pa" ?a] by (simp add: s)
  have r3: "readCompact ?mb (length pre + 1 + length pa + length accs) = Inr (length dat, length pd)"
    using readCompact_push [OF pd, of "pre @ [word_of_nat p] @ pa @ ?a"] by (simp add: s add.assoc)
  have r4: "jslice ?mb (length pre + 1 + length pa + length accs + length pd)
      (length pre + 1 + length pa + length accs + length pd + length dat) = dat"
    using jslice_append [of "pre @ [word_of_nat p] @ pa @ ?a @ pd" dat] by (simp add: s add.assoc)
  have e: "length pre + 1 + length pa + length accs + length pd + length dat = length pre + length s"
    by (simp add: s)
  have len: "length ?mb = length pre + 1 + length pa + length accs + length pd + length dat + length post"
    by (simp add: s)
  have b1: "(length pre + 1 + length pa + length accs > length ?mb) = False"
    by (simp add: len del: length_append)
  have b2: "(length pre + length s > length ?mb) = False" by simp
  have b3: "(p \<ge> nKeys) = False" using ok by (simp add: raw_ok_def)
  show ?thesis
    by (simp only: read_raw_instructions.simps r0 r1 r2 r3 r4 [unfolded e] e accs b b1 b2 b3 option.case rbind_Inr
        Let_def prod.case if_False)
qed

lemma read_raw_list:
  assumes "rmap serialize_raw raws = Inr ss" and "list_all (raw_ok nKeys) raws"
  shows "read_raw_instructions (pre @ concat ss @ post) nKeys n (length raws) (length pre) =
    Inr (raws, length pre + length (concat ss))"
  using assms
proof (induction raws arbitrary: ss pre n)
  case Nil
  then show ?case by simp
next
  case (Cons raw raws)
  obtain p accs dat where raw: "raw = (p, accs, dat)" by (cases raw)
  from Cons.prems obtain s ss' where s: "serialize_raw raw = Inr s" and ss': "rmap serialize_raw raws = Inr ss'"
    and ss: "ss = s # ss'" by (auto simp: result_simps)
  have "read_raw_instructions ((pre @ s) @ concat ss' @ post) nKeys (Suc n) (length raws) (length (pre @ s)) =
      Inr (raws, length (pre @ s) + length (concat ss'))"
    using Cons.prems ss' by (intro Cons.IH) auto
  then show ?case
    using read_raw_step [of p accs dat s nKeys pre "concat ss' @ post" n "length raws"] s Cons.prems
    by (simp add: ss raw add.assoc)
qed

section \<open>Table lookups\<close>

lemma read_side_push:
  assumes "pushCompactArrayU8 (map word_of_nat is) = Inr s"
    and "list_all (\<lambda>i. i < 256 \<and> i < length addrs) is"
  shows "read_side (pre @ s @ post) table (Some addrs) (length pre) =
    Inr (map ((!) addrs) is, 0, length pre + length s)"
proof -
  obtain p where p: "push_compact (length is) = Inr p" and s: "s = p @ map word_of_nat is"
    using assms(1) by (auto simp: pushCompactArrayU8_Inr)
  let ?b = "map word_of_nat is :: bytes"
  have "rmap (lookup_address table addrs) ?b = Inr (map ((!) addrs) is)"
    using assms(2) by (auto simp: rmap_eq_Inr_iff lookup_address_def jat_def list_all_length unat_byte_small)
  moreover have "jslice (pre @ s @ post) (length pre + length p) (length pre + length p + length is) = ?b"
    using jslice_append [of "pre @ p" ?b post] by (simp add: s)
  moreover have "readCompact (pre @ s @ post) (length pre) = Inr (length is, length p)"
    using readCompact_push [OF p, of pre "?b @ post"] by (simp add: s)
  ultimately show ?thesis by (simp add: read_side_def s add.assoc)
qed

definition lookup_ok :: "(string \<Rightarrow> pubkey list option) \<Rightarrow> table_lookup \<Rightarrow> bool" where
  "lookup_ok tables lk = (case tables (toBase58 (accountKey lk)) of None \<Rightarrow> False
     | Some addrs \<Rightarrow> list_all (\<lambda>i. i < 256 \<and> i < length addrs) (writableIndexes lk)
                   \<and> list_all (\<lambda>i. i < 256 \<and> i < length addrs) (readonlyIndexes lk))"

definition side_keys :: "(string \<Rightarrow> pubkey list option) \<Rightarrow> (table_lookup \<Rightarrow> nat list) \<Rightarrow> table_lookup \<Rightarrow> pubkey list" where
  "side_keys tables side lk = map ((!) (the (tables (toBase58 (accountKey lk))))) (side lk)"

lemma read_lookups_list:
  assumes "rmap serialize_lookup lks = Inr ss" and "list_all (lookup_ok tables) lks"
  shows "read_lookups (pre @ concat ss @ post) tables False (length lks) (length pre) acc =
    Inr (acc\<lparr>lu_writable := lu_writable acc @ concat (map (side_keys tables writableIndexes) lks),
             lu_readonly := lu_readonly acc @ concat (map (side_keys tables readonlyIndexes) lks)\<rparr>,
         length pre + length (concat ss))"
  using assms
proof (induction lks arbitrary: ss pre acc)
  case Nil
  then show ?case by simp
next
  case (Cons lk lks)
  from Cons.prems obtain s ss' where s: "serialize_lookup lk = Inr s" and ss': "rmap serialize_lookup lks = Inr ss'"
    and ss: "ss = s # ss'" by (auto simp: result_simps)
  from s obtain w r where w: "pushCompactArrayU8 (map word_of_nat (writableIndexes lk)) = Inr w"
    and r: "pushCompactArrayU8 (map word_of_nat (readonlyIndexes lk)) = Inr r"
    and s': "s = toBuffer (accountKey lk) @ w @ r" by (auto simp: serialize_lookup_def result_simps)
  from Cons.prems obtain addrs where addrs: "tables (toBase58 (accountKey lk)) = Some addrs"
    and wok: "list_all (\<lambda>i. i < 256 \<and> i < length addrs) (writableIndexes lk)"
    and rok: "list_all (\<lambda>i. i < 256 \<and> i < length addrs) (readonlyIndexes lk)"
    by (auto simp: lookup_ok_def split: option.splits)
  let ?mb = "pre @ concat ss @ post"
  have k: "readKey ?mb (length pre) = Inr (accountKey lk)"
    using readKey_append [of pre] by (simp add: ss s')
  have ws: "read_side ?mb table (Some addrs) (length pre + 32) =
      Inr (map ((!) addrs) (writableIndexes lk), 0, length pre + 32 + length w)" for table
    using read_side_push [OF w wok, of "pre @ toBuffer (accountKey lk)"] by (simp add: ss s')
  have rs: "read_side ?mb table (Some addrs) (length pre + 32 + length w) =
      Inr (map ((!) addrs) (readonlyIndexes lk), 0, length pre + 32 + length w + length r)" for table
    using read_side_push [OF r rok, of "pre @ toBuffer (accountKey lk) @ w"] by (simp add: ss s' add.assoc)
  have IH: "read_lookups ?mb tables False (length lks) (length pre + 32 + length w + length r) acc' =
      Inr (acc'\<lparr>lu_writable := lu_writable acc' @ concat (map (side_keys tables writableIndexes) lks),
                lu_readonly := lu_readonly acc' @ concat (map (side_keys tables readonlyIndexes) lks)\<rparr>,
           length (pre @ s) + length (concat ss'))" for acc'
    using Cons.IH [OF ss', of "pre @ s"] Cons.prems by (simp add: ss s' add.assoc)
  have side: "side_keys tables f lk = map ((!) addrs) (f lk)" for f
    by (simp add: side_keys_def addrs)
  have "\<not> length pre + 32 > length ?mb" by (simp add: ss s')
  then show ?case
    using side [of writableIndexes] side [of readonlyIndexes]
    by (cases acc) (simp add: k ws rs IH addrs Let_def, simp add: ss add.assoc)
qed

section \<open>Header flags\<close>

lemma nth_filter: "i < length (filter p xs) \<Longrightarrow> p (filter p xs ! i)"
  using nth_mem [of i "filter p xs"] by simp

lemma header_flags:
  fixes ixs payer alts
  defines "c \<equiv> compileAccounts ixs payer alts"
  assumes "i < length (all_accounts c)"
  shows "a_isSigner (all_accounts c ! i) \<longleftrightarrow> i < numRequiredSignatures c"
    and "a_isWritable (all_accounts c ! i) \<longleftrightarrow>
      message_writable (numRequiredSignatures c) (numReadonlySigned c) (numReadonlyUnsigned c)
        (length (staticAccounts c)) (length (altWritable c)) i"
proof -
  let ?accs = "resolved_accounts ixs payer alts"
  define c0 where "c0 = filter (\<lambda>a. a_isSigner a \<and> a_isWritable a \<and> a_pubkey a = payer) ?accs"
  define c1 where "c1 = filter (\<lambda>a. a_isSigner a \<and> a_isWritable a \<and> a_pubkey a \<noteq> payer) ?accs"
  define c2 where "c2 = filter (\<lambda>a. a_isSigner a \<and> \<not> a_isWritable a) ?accs"
  define c3 where "c3 = filter (\<lambda>a. \<not> a_isSigner a \<and> a_isWritable a \<and> a_alt a = None) ?accs"
  define c4 where "c4 = filter (\<lambda>a. \<not> a_isSigner a \<and> \<not> a_isWritable a \<and> a_alt a = None) ?accs"
  define c5 where "c5 = filter (\<lambda>a. \<not> a_isSigner a \<and> a_isWritable a \<and> a_alt a \<noteq> None) ?accs"
  define c6 where "c6 = filter (\<lambda>a. \<not> a_isSigner a \<and> \<not> a_isWritable a \<and> a_alt a \<noteq> None) ?accs"
  note cs = c0_def c1_def c2_def c3_def c4_def c5_def c6_def
  have all: "all_accounts c = c0 @ c1 @ c2 @ c3 @ c4 @ c5 @ c6"
    by (simp add: c_def all_accounts_classes classes_def cs)
  have counts: "numRequiredSignatures c = length c0 + length c1 + length c2" "numReadonlySigned c = length c2"
    "numReadonlyUnsigned c = length c4" "length (altWritable c) = length c5"
    "length (staticAccounts c) = length c0 + length c1 + length c2 + length c3 + length c4"
    by (simp_all add: c_def compileAccounts_classes classes_def cs)
  have flags:
    "j < length c0 \<Longrightarrow> a_isSigner (c0 ! j) \<and> a_isWritable (c0 ! j)"
    "j < length c1 \<Longrightarrow> a_isSigner (c1 ! j) \<and> a_isWritable (c1 ! j)"
    "j < length c2 \<Longrightarrow> a_isSigner (c2 ! j) \<and> \<not> a_isWritable (c2 ! j)"
    "j < length c3 \<Longrightarrow> \<not> a_isSigner (c3 ! j) \<and> a_isWritable (c3 ! j)"
    "j < length c4 \<Longrightarrow> \<not> a_isSigner (c4 ! j) \<and> \<not> a_isWritable (c4 ! j)"
    "j < length c5 \<Longrightarrow> \<not> a_isSigner (c5 ! j) \<and> a_isWritable (c5 ! j)"
    "j < length c6 \<Longrightarrow> \<not> a_isSigner (c6 ! j) \<and> \<not> a_isWritable (c6 ! j)" for j
    unfolding cs by (auto dest: nth_filter)
  have lt: "i < length c0 + length c1 + length c2 + length c3 + length c4 + length c5 + length c6"
    using assms(2) by (simp add: all add.assoc)
  show "a_isSigner (all_accounts c ! i) \<longleftrightarrow> i < numRequiredSignatures c"
    using lt by (auto simp: all counts nth_append flags)
  show "a_isWritable (all_accounts c ! i) \<longleftrightarrow>
      message_writable (numRequiredSignatures c) (numReadonlySigned c) (numReadonlyUnsigned c)
        (length (staticAccounts c)) (length (altWritable c)) i"
    using lt by (auto simp: all counts nth_append flags message_writable_def)
qed


section \<open>The whole message\<close>

text \<open>What the runtime, and \<open>decompileMessage\<close>, resolve account indices against.\<close>

definition runtime_accounts :: "(string \<Rightarrow> pubkey list option) \<Rightarrow> compiled_accounts \<Rightarrow> table_lookup list \<Rightarrow> pubkey list" where
  "runtime_accounts tables c lks = map a_pubkey (staticAccounts c)
     @ concat (map (side_keys tables writableIndexes) lks)
     @ concat (map (side_keys tables readonlyIndexes) lks)"

definition raw_of :: "(string, nat) jsmap \<Rightarrow> instruction \<Rightarrow> raw_instruction" where
  "raw_of idx ix = (projr (lookup_index idx (programId ix)),
     map (\<lambda>m. projr (lookup_index idx (m_pubkey m))) (ix_keys ix), ix_data ix)"

lemma serialize_instruction_raw:
  "serialize_instruction idx ix = Inr s \<Longrightarrow> serialize_raw (raw_of idx ix) = Inr s"
proof -
  assume "serialize_instruction idx ix = Inr s"
  then obtain p accs a d where p: "lookup_index idx (programId ix) = Inr p"
    and accs: "rmap (\<lambda>m. lookup_index idx (m_pubkey m)) (ix_keys ix) = Inr accs"
    and a: "pushCompactArrayU8 (map word_of_nat accs) = Inr a" and d: "pushCompactArrayU8 (ix_data ix) = Inr d"
    and s: "s = word_of_nat p # a @ d"
    by (auto simp: serialize_instruction_def result_simps)
  have "map (\<lambda>m. projr (lookup_index idx (m_pubkey m))) (ix_keys ix) = accs"
    using accs by (auto simp: rmap_eq_Inr_iff intro: nth_equalityI)
  with p a d s show ?thesis by (simp add: serialize_raw_def raw_of_def)
qed

lemma rmap_mono: "rmap f xs = Inr ys \<Longrightarrow> (\<And>x y. x \<in> set xs \<Longrightarrow> f x = Inr y \<Longrightarrow> g (h x) = Inr y) \<Longrightarrow>
    rmap g (map h xs) = Inr ys"
  by (induction xs arbitrary: ys) (auto simp: result_simps)

lemma unat_header: "n < 256 \<Longrightarrow> unat (word_of_nat n :: byte) = n"
  by (rule unat_byte_small)

text \<open>
  Decompiling a serialized message, up to the resolution of the account indices: the
  whole of the parser has run, no bound check has failed.
\<close>

lemma decompile_serialized:
  assumes ser: "serializeMessage c ixs blockhash = Inr mb"
    and lks: "buildAddressTableLookups (altWritable c) (altReadonly c) = Inr lks"
    and tables: "list_all (lookup_ok tables) lks"
    and raws: "list_all (raw_ok (length (staticAccounts c))) (map (raw_of (indexByBase58 c)) ixs)"
    and blockhash: "length blockhash = 32"
    and header: "numRequiredSignatures c < 256" "numReadonlySigned c < 256" "numReadonlyUnsigned c < 256"
      "numRequiredSignatures c \<le> length (staticAccounts c)"
  shows "decompileMessage mb tables None =
    rbind (resolve_raw (map a_pubkey (staticAccounts c)) (runtime_accounts tables c lks) (numRequiredSignatures c)
        (message_writable (numRequiredSignatures c) (numReadonlySigned c) (numReadonlyUnsigned c)
          (length (staticAccounts c)) (length (concat (map (side_keys tables writableIndexes) lks))))
        0 (map (raw_of (indexByBase58 c)) ixs))
      (\<lambda>out. Inr \<lparr>d_config = None, d_instructions = out, d_accountKeys = map a_pubkey (staticAccounts c),
                 d_signers = map a_pubkey (take (numRequiredSignatures c) (staticAccounts c)),
                 d_recentBlockhash = base58_encode blockhash\<rparr>)"
proof -
  let ?ks = "map a_pubkey (staticAccounts c)" and ?raws = "map (raw_of (indexByBase58 c)) ixs"
  define h where "h = [VERSION_V0, word_of_nat (numRequiredSignatures c), word_of_nat (numReadonlySigned c),
      word_of_nat (numReadonlyUnsigned c)]"
  have [simp]: "length h = 4" by (simp add: h_def)
  have [simp]: "length (concat (map (toBuffer \<circ> a_pubkey) xs)) = length xs * 32" for xs
    by (induction xs) auto
  let ?kb = "concat (map toBuffer ?ks)"
  from ser lks obtain ns ni iss nl ls where
    ns: "push_compact (length (staticAccounts c)) = Inr ns" and
    ni: "push_compact (length ixs) = Inr ni" and
    siss: "rmap (serialize_instruction (indexByBase58 c)) ixs = Inr iss" and
    nl: "push_compact (length lks) = Inr nl" and
    ls: "rmap serialize_lookup lks = Inr ls" and
    mb: "mb = h @ ns @ ?kb @ blockhash @ ni @ concat iss @ nl @ concat ls"
    using blockhash by (auto simp: serializeMessage_def result_simps BLOCKHASH_LENGTH_def comp_def h_def)
  define o1 where "o1 = 4 + length ns"
  define o2 where "o2 = o1 + length ?ks * 32"
  define o3 where "o3 = o2 + 32"
  define o4 where "o4 = o3 + length ni"
  define o5 where "o5 = o4 + length (concat iss)"
  define o6 where "o6 = o5 + length nl"
  note os = o1_def o2_def o3_def o4_def o5_def o6_def
  have heads: "jat mb 0 = Some VERSION_V0" "jat mb 1 = Some (word_of_nat (numRequiredSignatures c))"
    "jat mb 2 = Some (word_of_nat (numReadonlySigned c))" "jat mb 3 = Some (word_of_nat (numReadonlyUnsigned c))"
    by (simp_all add: mb jat_def h_def)
  have v: "is_versioned mb" "version_of mb = 0"
    by (simp_all add: is_versioned_def version_of_def heads VERSION_V0_def)
  have r1: "readCompact mb 4 = Inr (length ?ks, length ns)"
    using readCompact_push [OF ns, of h] by (simp add: mb)
  have r2: "rmap (\<lambda>i. readKey mb (o1 + i * 32)) [0..<length ?ks] = Inr ?ks"
    using readKeys_keys [of "h @ ns" ?ks "blockhash @ ni @ concat iss @ nl @ concat ls"]
    by (simp add: mb o1_def add.assoc)
  have r3: "jslice mb o2 o3 = blockhash"
    using jslice_append [of "h @ ns @ ?kb" blockhash "ni @ concat iss @ nl @ concat ls"] blockhash
    by (simp add: mb os algebra_simps)
  have r4: "readCompact mb o3 = Inr (length ?raws, length ni)"
    using readCompact_push [OF ni, of "h @ ns @ ?kb @ blockhash"] blockhash
    by (simp add: mb os algebra_simps)
  have ser_raws: "rmap serialize_raw ?raws = Inr iss"
    using siss by (rule rmap_mono) (rule serialize_instruction_raw)
  have r5: "read_raw_instructions mb (length ?ks) 0 (length ?raws) o4 = Inr (?raws, o5)"
    using read_raw_list [OF ser_raws, of "length ?ks" "h @ ns @ ?kb @ blockhash @ ni" "nl @ concat ls" 0] raws blockhash
    by (simp add: mb os algebra_simps del: length_map) (simp add: algebra_simps)
  have r6: "readCompact mb o5 = Inr (length lks, length nl)"
    using readCompact_push [OF nl, of "h @ ns @ ?kb @ blockhash @ ni @ concat iss"] blockhash
    by (simp add: mb os algebra_simps)
  have r7: "read_lookups mb tables False (length lks) o6 no_lookups =
      Inr (\<lparr>lu_writable = concat (map (side_keys tables writableIndexes) lks),
           lu_readonly = concat (map (side_keys tables readonlyIndexes) lks), lu_countW = 0, lu_countR = 0\<rparr>, length mb)"
    using read_lookups_list [OF ls tables, of "h @ ns @ ?kb @ blockhash @ ni @ concat iss @ nl" "[]" no_lookups] blockhash
    by (simp add: mb os algebra_simps no_lookups_def)
  have b1: "(length ?ks < numRequiredSignatures c \<or> length mb < o2) = False"
    using header blockhash by (simp add: mb os)
  have b2: "(length mb < o3) = False"
    using blockhash by (simp add: mb os)
  have nv1: "(Some VERSION_V0 = Some (0x81 :: byte)) = False" by (simp add: VERSION_V0_def)
  have one: "(1 :: nat) + 1 = 2" "(1 :: nat) + 2 = 3" "(1 :: nat) + 3 = 4" by simp_all
  show ?thesis
    unfolding decompileMessage_def heads(1) nv1 Let_def
    using v
    by (simp only: if_False if_True HOL.simp_thms one heads option.case prod.case unat_header [OF header(1)]
        unat_header [OF header(2)] unat_header [OF header(3)] r1 rbind_Inr o1_def [symmetric]
        o2_def [symmetric] b1 r2 b2 o3_def [symmetric] r3 r4 o4_def [symmetric] r5 r6 o6_def [symmetric]
        not_True_eq_False r7 looked_up.simps runtime_accounts_def take_map) (simp only: length_map)
qed

end
