(* ===== verification/CompileRoundTrip.thy ===== *)
theory CompileRoundTrip
  imports TxRoundTrip
begin

text \<open>
  From \<open>compile\<close> to \<open>decompileMessage\<close>: the instructions come back with the merged
  permissions whenever the order in which accounts were assigned indices is the order
  in which the runtime loads the tables. With at most one table it always is.
\<close>

section \<open>Instructions as the transaction really grants them\<close>

definition effective_meta :: "mention list \<Rightarrow> account_meta \<Rightarrow> account_meta" where
  "effective_meta ms m = \<lparr>m_pubkey = m_pubkey m, m_isSigner = signs ms (m_pubkey m),
     m_isWritable = writes ms (m_pubkey m)\<rparr>"

definition effective_instruction :: "mention list \<Rightarrow> instruction \<Rightarrow> instruction" where
  "effective_instruction ms ix = ix\<lparr>ix_keys := map (effective_meta ms) (ix_keys ix)\<rparr>"

lemma mentioned_program: "ix \<in> set ixs \<Longrightarrow> programId ix \<in> fst ` set (mentions ixs payer)"
  by (auto simp: mentions_def ix_mentions_def image_iff)

lemma mentioned_key: "ix \<in> set ixs \<Longrightarrow> m \<in> set (ix_keys ix) \<Longrightarrow> m_pubkey m \<in> fst ` set (mentions ixs payer)"
  by (force simp: mentions_def ix_mentions_def)

section \<open>Resolving indices\<close>

lemma static_iff_no_alt:
  fixes ixs payer alts
  defines "c \<equiv> compileAccounts ixs payer alts"
  assumes "i < length (all_accounts c)" and "a_alt (all_accounts c ! i) = None"
  shows "i < length (staticAccounts c)"
proof (rule ccontr)
  assume n: "\<not> i < length (staticAccounts c)"
  then have "all_accounts c ! i \<in> set (altWritable c @ altReadonly c)"
    using assms(2) by (auto simp: all_accounts_def nth_append)
  then have "a_alt (all_accounts c ! i) \<noteq> None"
    by (auto simp: c_def compileAccounts_classes classes_def)
  with assms(3) show False by simp
qed

lemma static_no_alt:
  fixes ixs payer alts
  defines "c \<equiv> compileAccounts ixs payer alts"
  assumes i: "i < length (staticAccounts c)"
  shows "a_alt (all_accounts c ! i) = None"
proof -
  have a: "all_accounts c ! i \<in> set (staticAccounts c)"
    using i by (simp add: all_accounts_def nth_append)
  then have "all_accounts c ! i \<in> set (all_accounts c)" by (simp add: all_accounts_def)
  then obtain pk where pk: "all_accounts c ! i = resolved_account ixs payer alts pk"
    by (auto simp: c_def set_all_accounts)
  have "a_isSigner (all_accounts c ! i) \<or> a_alt (all_accounts c ! i) = None"
    using a by (auto simp: c_def compileAccounts_classes classes_def)
  then show ?thesis
    using resolved_alt_cases(1) [of ixs payer alts pk] pk by (cases "a_alt (all_accounts c ! i)") auto
qed

lemma program_static: "ix \<in> set ixs \<Longrightarrow> a_alt (resolved_account ixs payer alts (programId ix)) = None"
  using resolved_alt_cases(2) by (cases "a_alt (resolved_account ixs payer alts (programId ix))") fastforce+

lemma resolve_meta_effective:
  fixes ixs payer alts
  defines "c \<equiv> compileAccounts ixs payer alts"
  assumes pk: "m_pubkey m \<in> fst ` set (mentions ixs payer)"
  shows "resolve_meta (map a_pubkey (all_accounts c)) (numRequiredSignatures c)
      (message_writable (numRequiredSignatures c) (numReadonlySigned c) (numReadonlyUnsigned c)
        (length (staticAccounts c)) (length (altWritable c))) n
      (projr (lookup_index (indexByBase58 c) (m_pubkey m))) = Inr (effective_meta (mentions ixs payer) m)"
proof -
  obtain i where i: "lookup_index (indexByBase58 c) (m_pubkey m) = Inr i" "i < length (all_accounts c)"
    and acc: "all_accounts c ! i = resolved_account ixs payer alts (m_pubkey m)"
    using index_of_account [OF pk, of alts] unfolding c_def by blast
  then show ?thesis
    using header_flags [of i ixs payer alts]
    by (simp add: resolve_meta_def jat_def effective_meta_def c_def)
qed

lemma resolve_raw_effective:
  fixes ixs payer alts
  defines "c \<equiv> compileAccounts ixs payer alts"
  assumes "set is \<subseteq> set ixs"
  shows "resolve_raw (map a_pubkey (staticAccounts c)) (map a_pubkey (all_accounts c)) (numRequiredSignatures c)
      (message_writable (numRequiredSignatures c) (numReadonlySigned c) (numReadonlyUnsigned c)
        (length (staticAccounts c)) (length (altWritable c))) n (map (raw_of (indexByBase58 c)) is) =
    Inr (map (effective_instruction (mentions ixs payer)) is)"
  using assms(2)
proof (induction "is" arbitrary: n)
  case Nil
  then show ?case by simp
next
  case (Cons ix "is")
  then have ix: "ix \<in> set ixs" by simp
  let ?w = "message_writable (numRequiredSignatures c) (numReadonlySigned c) (numReadonlyUnsigned c)
        (length (staticAccounts c)) (length (altWritable c))"
  have metas: "rmap (resolve_meta (map a_pubkey (all_accounts c)) (numRequiredSignatures c) ?w n)
      (map (\<lambda>m. projr (lookup_index (indexByBase58 c) (m_pubkey m))) (ix_keys ix)) =
      Inr (map (effective_meta (mentions ixs payer)) (ix_keys ix))"
    using resolve_meta_effective [OF mentioned_key [OF ix], where alts = alts] unfolding c_def
    by (auto simp: rmap_eq_Inr_iff)
  obtain i where i: "lookup_index (indexByBase58 c) (programId ix) = Inr i" "i < length (all_accounts c)"
    and acc: "all_accounts c ! i = resolved_account ixs payer alts (programId ix)"
    using index_of_account [OF mentioned_program [OF ix], where alts = alts] unfolding c_def by blast
  then have "i < length (staticAccounts c)"
    using static_iff_no_alt [of i ixs payer alts] program_static [OF ix] by (simp add: c_def)
  then have "map a_pubkey (staticAccounts c) ! i = programId ix"
    using acc by (simp add: all_accounts_def nth_append)
  then show ?case
    using Cons metas i by (simp add: raw_of_def effective_instruction_def)
qed

lemma raw_of_ok:
  fixes ixs payer alts
  defines "c \<equiv> compileAccounts ixs payer alts"
  assumes size: "length (all_accounts c) \<le> 256" and ix: "ix \<in> set ixs"
  shows "raw_ok (length (staticAccounts c)) (raw_of (indexByBase58 c) ix)"
proof -
  have keys: "projr (lookup_index (indexByBase58 c) pk) < 256" if "pk \<in> fst ` set (mentions ixs payer)" for pk
    using index_of_account [OF that, of alts] size unfolding c_def
    by (metis order_less_le_trans sum.sel(2))
  obtain i where i: "lookup_index (indexByBase58 c) (programId ix) = Inr i" "i < length (all_accounts c)"
    and acc: "all_accounts c ! i = resolved_account ixs payer alts (programId ix)"
    using index_of_account [OF mentioned_program [OF ix], where alts = alts] unfolding c_def by blast
  then have "i < length (staticAccounts c)"
    using static_iff_no_alt [of i ixs payer alts] program_static [OF ix] by (simp add: c_def)
  then show ?thesis
    using i size keys mentioned_key [OF ix] by (auto simp: raw_ok_def raw_of_def list_all_iff)
qed

section \<open>Table lookups of a compiled message\<close>

lemma header_bounds:
  fixes ixs payer alts
  defines "c \<equiv> compileAccounts ixs payer alts"
  shows "numRequiredSignatures c \<le> length (staticAccounts c)"
    and "numReadonlySigned c \<le> numRequiredSignatures c"
    and "numRequiredSignatures c + numReadonlyUnsigned c \<le> length (staticAccounts c)"
  by (simp_all add: c_def compileAccounts_classes classes_def)

lemma payer_signer:
  "\<exists>i < numRequiredSignatures (compileAccounts ixs payer alts).
     a_pubkey (all_accounts (compileAccounts ixs payer alts) ! i) = payer"
proof -
  let ?c = "compileAccounts ixs payer alts"
  have "payer \<in> fst ` set (mentions ixs payer)" by (simp add: mentions_def)
  then obtain i where i: "i < length (all_accounts ?c)" "all_accounts ?c ! i = resolved_account ixs payer alts payer"
    by (rule index_of_account)
  moreover have "a_isSigner (resolved_account ixs payer alts payer)"
    by (auto simp: signs_def mentions_def)
  ultimately show ?thesis using header_flags(1) [OF i(1)] by auto
qed

text \<open>The order condition, and when it holds.\<close>

definition tables_in_order :: "(string \<Rightarrow> pubkey list option) \<Rightarrow> compiled_accounts \<Rightarrow> table_lookup list \<Rightarrow> bool" where
  "tables_in_order tables c lks \<longleftrightarrow>
     concat (map (side_keys tables writableIndexes) lks) = map a_pubkey (altWritable c)
     \<and> concat (map (side_keys tables readonlyIndexes) lks) = map a_pubkey (altReadonly c)"

lemma push_lookups_one:
  assumes "\<forall>a \<in> set accs. a_alt a = Some (key, f a)"
  shows "push_lookups push accs [(toBase58 key, e)] = Inr [(toBase58 key, foldl (\<lambda>e a. push (f a) e) e accs)]"
  using assms by (induction accs arbitrary: e) (simp_all add: push_lookup_def)

lemma push_lookups_first:
  assumes "\<forall>a \<in> set accs. a_alt a = Some (key, f a)" and "accs \<noteq> []"
  shows "push_lookups push accs [] = Inr [(toBase58 key,
    foldl (\<lambda>e a. push (f a) e) \<lparr>accountKey = key, writableIndexes = [], readonlyIndexes = []\<rparr> accs)]"
  using assms push_lookups_one [of "tl accs" key f push] by (cases accs) (simp_all add: push_lookup_def)

lemma foldl_push_writable:
  "foldl (\<lambda>e a. push_writable (f a) e) e accs = e\<lparr>writableIndexes := writableIndexes e @ map f accs\<rparr>"
  by (induction accs arbitrary: e) (simp_all add: push_writable_def)

lemma foldl_push_readonly:
  "foldl (\<lambda>e a. push_readonly (f a) e) e accs = e\<lparr>readonlyIndexes := readonlyIndexes e @ map f accs\<rparr>"
  by (induction accs arbitrary: e) (simp_all add: push_readonly_def)

lemma lookups_one_table:
  assumes "\<forall>a \<in> set w \<union> set r. a_alt a = Some (key, f a)"
  shows "buildAddressTableLookups w r = Inr (if w = [] \<and> r = [] then []
    else [\<lparr>accountKey = key, writableIndexes = map f w, readonlyIndexes = map f r\<rparr>])"
proof (cases "w = []")
  case True
  then show ?thesis
    using assms push_lookups_first [of r key f push_readonly]
    by (cases "r = []") (simp_all add: buildAddressTableLookups_def jm_values_def foldl_push_readonly)
next
  case False
  then show ?thesis
    using assms push_lookups_first [of w key f push_writable] push_lookups_one [of r key f push_readonly]
    by (simp add: buildAddressTableLookups_def jm_values_def foldl_push_readonly foldl_push_writable)
qed

lemma alt_accounts_ref:
  assumes "a \<in> set (altWritable (compileAccounts ixs payer alts)) \<union> set (altReadonly (compileAccounts ixs payer alts))"
  shows "\<exists>key idx. a_alt a = Some (key, idx) \<and> first_alt (a_pubkey a) alts = Some (key, idx)"
proof -
  let ?c = "compileAccounts ixs payer alts"
  have "a \<in> set (all_accounts ?c)" using assms by (auto simp: all_accounts_def)
  then obtain pk where a: "a = resolved_account ixs payer alts pk" by (auto simp: set_all_accounts)
  have "a_alt a \<noteq> None" using assms by (auto simp: compileAccounts_classes classes_def)
  then obtain key idx where "a_alt a = Some (key, idx)" by auto
  then show ?thesis using resolved_alt_cases(3) [of ixs payer alts pk key idx] by (simp add: a)
qed

lemma one_table_lookups:
  fixes ixs payer alts
  defines "c \<equiv> compileAccounts ixs payer alts"
  assumes one: "length alts \<le> 1"
    and tables: "\<forall>(key, t) \<in> set alts. tables (toBase58 key) = Some (addresses t) \<and> length (addresses t) \<le> 256"
  shows "\<exists>lks. buildAddressTableLookups (altWritable c) (altReadonly c) = Inr lks
    \<and> list_all (lookup_ok tables) lks \<and> tables_in_order tables c lks"
proof (cases alts)
  case Nil
  then have "altWritable c = []" "altReadonly c = []"
    using alt_accounts_ref [of _ ixs payer alts] by (fastforce simp: c_def intro: ccontr dest: hd_in_set)+
  then show ?thesis
    by (simp add: buildAddressTableLookups_def jm_values_def tables_in_order_def)
next
  case (Cons kt alts')
  then obtain key t where alts: "alts = [(key, t)]" using one by (cases kt) auto
  have t: "tables (toBase58 key) = Some (addresses t)" "length (addresses t) \<le> 256"
    using tables by (auto simp: alts)
  let ?f = "\<lambda>a. snd (the (a_alt a))"
  have ref: "a_alt a = Some (key, ?f a) \<and> ?f a < length (addresses t) \<and> addresses t ! ?f a = a_pubkey a"
    if "a \<in> set (altWritable c) \<union> set (altReadonly c)" for a
    using alt_accounts_ref [of a ixs payer alts] that first_alt_Some [of "a_pubkey a" alts]
    by (fastforce simp: c_def alts)
  let ?lk = "\<lparr>accountKey = key, writableIndexes = map ?f (altWritable c), readonlyIndexes = map ?f (altReadonly c)\<rparr>"
  have b: "buildAddressTableLookups (altWritable c) (altReadonly c) =
      Inr (if altWritable c = [] \<and> altReadonly c = [] then [] else [?lk])"
    using ref by (intro lookups_one_table) auto
  have ok: "lookup_ok tables ?lk"
    using ref t by (fastforce simp: lookup_ok_def list_all_iff)
  have ord: "side_keys tables writableIndexes ?lk = map a_pubkey (altWritable c)"
    "side_keys tables readonlyIndexes ?lk = map a_pubkey (altReadonly c)"
    using ref t by (simp_all add: side_keys_def)
  show ?thesis
    using b ok ord by (cases "altWritable c = [] \<and> altReadonly c = []") (auto simp: tables_in_order_def)
qed

section \<open>The round trip\<close>

lemma compile_message_Inr:
  assumes "compile_message opts = Inr r"
  obtains bh where "base58_decode (o_recentBlockhash opts) = Inr bh" and "length bh = 32"
    and "r_compiled r = compileAccounts (o_instructions opts) (o_payer opts) (map normaliseAlt (o_alts opts))"
    and "serializeMessage (r_compiled r) (o_instructions opts) bh = Inr (r_messageBytes r)"
    and "r_accountKeys r = map a_pubkey (all_accounts (r_compiled r))"
  using assms
  by (auto simp: compile_message_def Let_def result_simps BLOCKHASH_LENGTH_def all_accounts_def split: sum.splits if_splits)

lemma decompile_in_order:
  assumes comp: "compile_message opts = Inr r"
    and size: "length (r_accountKeys r) \<le> 256" "numRequiredSignatures (r_compiled r) \<le> 255"
    and lks: "buildAddressTableLookups (altWritable (r_compiled r)) (altReadonly (r_compiled r)) = Inr lks"
    and tables: "list_all (lookup_ok tables) lks"
    and order: "tables_in_order tables (r_compiled r) lks"
  shows "decompileMessage (r_messageBytes r) tables None = Inr
    \<lparr>d_config = None,
     d_instructions = map (effective_instruction (mentions (o_instructions opts) (o_payer opts))) (o_instructions opts),
     d_accountKeys = map a_pubkey (staticAccounts (r_compiled r)),
     d_signers = map a_pubkey (take (numRequiredSignatures (r_compiled r)) (staticAccounts (r_compiled r))),
     d_recentBlockhash = o_recentBlockhash opts\<rparr>"
proof -
  obtain bh where bh: "base58_decode (o_recentBlockhash opts) = Inr bh" "length bh = 32"
    and c: "r_compiled r = compileAccounts (o_instructions opts) (o_payer opts) (map normaliseAlt (o_alts opts))"
    and ser: "serializeMessage (r_compiled r) (o_instructions opts) bh = Inr (r_messageBytes r)"
    and ks: "r_accountKeys r = map a_pubkey (all_accounts (r_compiled r))"
    using compile_message_Inr [OF comp] by blast
  let ?c = "r_compiled r" and ?ixs = "o_instructions opts"
  have hb: "numRequiredSignatures ?c \<le> length (staticAccounts ?c)" "numReadonlySigned ?c \<le> numRequiredSignatures ?c"
    "numRequiredSignatures ?c + numReadonlyUnsigned ?c \<le> length (staticAccounts ?c)"
    unfolding c by (rule header_bounds)+
  have "0 < numRequiredSignatures ?c" unfolding c using payer_signer by (metis gr_zeroI not_less_zero)
  moreover have "length (staticAccounts ?c) \<le> 256" using size by (simp add: ks all_accounts_def)
  ultimately have hdr: "numRequiredSignatures ?c < 256" "numReadonlySigned ?c < 256" "numReadonlyUnsigned ?c < 256"
    using size hb by linarith+
  have raws: "list_all (raw_ok (length (staticAccounts ?c))) (map (raw_of (indexByBase58 ?c)) ?ixs)"
    using size raw_of_ok [of ?ixs "o_payer opts" "map normaliseAlt (o_alts opts)"] by (auto simp: list_all_iff c ks)
  have rt: "runtime_accounts tables ?c lks = map a_pubkey (all_accounts ?c)"
    "length (concat (map (side_keys tables writableIndexes) lks)) = length (altWritable ?c)"
    using order by (simp_all add: runtime_accounts_def tables_in_order_def all_accounts_def)
  show ?thesis
    unfolding decompile_serialized [OF ser lks tables raws bh(2) hdr hb(1)] rt
    unfolding c resolve_raw_effective [OF order.refl]
    using base58_encode_decode [OF bh(1)] by simp
qed

end
