(* ===== verification/SignedTx.thy ===== *)
theory SignedTx
  imports CompileRoundTrip
begin

text \<open>
  From the assembled bytes back to signatures, message and required signers: what
  \<open>decodeTransaction\<close>, \<open>messageSigners\<close> and \<open>verifyTransactionSignatures\<close>
  read from what \<open>wire\<close>, \<open>serializeMessage\<close> and \<open>assemble\<close> write.
\<close>

section \<open>The signature section\<close>

lemma push_compact_small: "n < 128 \<Longrightarrow> push_compact n = Inr [word_of_nat n]"
  by (simp add: push_compact_def compact_encode_ranges)

lemma jslice_chunks:
  assumes "list_all (\<lambda>x. length x = k) xs"
  shows "map (\<lambda>i. jslice (pre @ concat xs @ post) (length pre + i * k) (length pre + i * k + k)) [0..<length xs] = xs"
  using assms
proof (induction xs arbitrary: pre)
  case (Cons x xs)
  have x: "length x = k" using Cons.prems by simp
  have "map (\<lambda>i. jslice (pre @ concat (x # xs) @ post) (length pre + i * k) (length pre + i * k + k)) [1..<Suc (length xs)] = xs"
    using Cons.IH [of "pre @ x"] Cons.prems x
    by (simp add: algebra_simps comp_def del: upt_Suc flip: map_Suc_upt)
  moreover have "jslice (pre @ concat (x # xs) @ post) (length pre) (length pre + k) = x"
    using jslice_append [of pre x "concat xs @ post"] x by simp
  ultimately show ?case by (simp add: upt_conv_Cons del: upt_Suc)
qed simp

lemma decode_wire:
  assumes w: "wire sigs mb = Inr tx" and len: "list_all (\<lambda>s. length s = SIGNATURE_LENGTH) sigs"
    and small: "length sigs < 128" and mb: "mb \<noteq> []"
  shows "decodeTransaction tx = Inr (sigs, mb)"
proof -
  have p: "push_compact (length sigs) = Inr [word_of_nat (length sigs)]" (is "_ = Inr ?p")
    using small by (rule push_compact_small)
  have tx: "tx = ?p @ concat sigs @ mb" using w p by (simp add: wire_def result_simps)
  have total: "length (concat sigs) = length sigs * SIGNATURE_LENGTH"
    using len by (induction sigs) auto
  have "unat (word_of_nat (length sigs) :: byte) = length sigs" using small by (simp add: unat_byte_small)
  then have nv1: "jat tx 0 \<noteq> Some 0x81" using small by (auto simp: tx jat_def)
  have rc: "readCompact tx 0 = Inr (length sigs, 1)"
    using readCompact_push [OF p, of "[]" "concat sigs @ mb"] by (simp add: tx)
  have sl: "map (\<lambda>i. jslice tx (1 + i * SIGNATURE_LENGTH) (1 + i * SIGNATURE_LENGTH + SIGNATURE_LENGTH)) [0..<length sigs] = sigs"
    using jslice_chunks [OF len, of ?p mb] by (simp add: tx)
  have "\<not> 1 + length sigs * SIGNATURE_LENGTH \<ge> length tx" using mb by (simp add: tx total)
  then show ?thesis
    using nv1 sl by (simp add: decodeTransaction_def rc rbind_Inr) (simp add: tx total)
qed

section \<open>The required signers\<close>

lemma serializeMessage_prefix:
  assumes "serializeMessage c ixs bh = Inr mb" and "length bh = 32"
  obtains ns post where "push_compact (length (staticAccounts c)) = Inr ns"
    and "mb = [VERSION_V0, word_of_nat (numRequiredSignatures c), word_of_nat (numReadonlySigned c),
           word_of_nat (numReadonlyUnsigned c)] @ ns @ concat (map toBuffer (map a_pubkey (staticAccounts c))) @ bh @ post"
  using assms by (auto simp: serializeMessage_def result_simps BLOCKHASH_LENGTH_def comp_def)

lemma messageSigners_serialized:
  assumes ser: "serializeMessage c ixs bh = Inr mb" "length bh = 32"
    and n: "numRequiredSignatures c \<le> length (staticAccounts c)" "numRequiredSignatures c < 256"
  shows "messageSigners mb = Inr (map a_pubkey (take (numRequiredSignatures c) (staticAccounts c)))"
proof -
  let ?ks = "map a_pubkey (staticAccounts c)" and ?n = "numRequiredSignatures c"
  obtain ns post where ns: "push_compact (length (staticAccounts c)) = Inr ns"
    and mb: "mb = [VERSION_V0, word_of_nat ?n, word_of_nat (numReadonlySigned c), word_of_nat (numReadonlyUnsigned c)]
      @ ns @ concat (map toBuffer ?ks) @ bh @ post" (is "_ = ?h @ _")
    using serializeMessage_prefix [OF ser] by blast
  have [simp]: "length (concat (map (toBuffer \<circ> a_pubkey) xs)) = length xs * 32" for xs
    by (induction xs) auto
  have head: "jat mb 0 = Some VERSION_V0" "jat mb 1 = Some (word_of_nat ?n)"
    by (simp_all add: mb jat_def)
  have v: "is_versioned mb" "version_of mb = 0"
    by (simp_all add: is_versioned_def version_of_def head VERSION_V0_def)
  have rc: "readCompact mb 4 = Inr (length ?ks, length ns)"
    using readCompact_push [OF ns, of ?h "concat (map toBuffer ?ks) @ bh @ post"]
    by (simp add: mb numeral_eq_Suc)
  have "rmap (\<lambda>i. readKey mb (length (?h @ ns) + i * 32)) [0..<length ?ks] = Inr ?ks"
    unfolding mb using readKeys_keys [of "?h @ ns" ?ks "bh @ post"] by (simp add: add.assoc)
  then have "rmap (\<lambda>i. readKey mb (4 + length ns + i * 32)) [0..<?n] = Inr (take ?n ?ks)"
    using n(1) by (auto simp: rmap_eq_Inr_iff numeral_eq_Suc)
  then have rk: "rmap (\<lambda>i. readKey mb (4 + length ns + i * 32)) [0..<?n] = Inr (map a_pubkey (take ?n (staticAccounts c)))"
    by (simp add: take_map)
  have bnd: "(length (staticAccounts c) < ?n \<or> length mb < 4 + length ns + length (staticAccounts c) * 32) = False"
    using n by (simp add: mb)
  have nv1: "(Some VERSION_V0 = Some (0x81 :: byte)) = False" by (simp add: VERSION_V0_def)
  have one: "(1 :: nat) + 3 = 4" by simp
  show ?thesis
    unfolding messageSigners_def head(1) nv1 Let_def
    using v by (simp only: if_False if_True HOL.simp_thms head option.case prod.case unat_header [OF n(2)] one rc rbind_Inr
        length_map bnd rk)
qed

section \<open>Assembling\<close>

lemma foldl_signer_map:
  "jm_get (foldl (\<lambda>m s. jm_set m (toBase58 (s_address s)) s) m0 signers) (toBase58 pk) =
     (case find (\<lambda>s. s_address s = pk) (rev signers) of Some s \<Rightarrow> Some s | None \<Rightarrow> jm_get m0 (toBase58 pk))"
proof (induction signers rule: rev_induct)
  case (snoc s signers)
  then show ?case by (cases "s_address s = pk") (simp_all add: jm_get_set)
qed simp

lemma signer_map_get:
  "jm_get (signer_map signers) (toBase58 pk) = find (\<lambda>s. s_address s = pk) (rev signers)"
  by (simp add: signer_map_def foldl_signer_map split: option.split)


text \<open>The order in which the signers are passed does not matter, as long as no address is passed twice.\<close>

lemma find_distinct:
  assumes "distinct (map f xs)" and "x \<in> set xs"
  shows "find (\<lambda>y. f y = f x) xs = Some x"
  using assms by (induction xs) (auto simp: image_iff)

lemma signer_map_mset:
  assumes "distinct (map s_address signers)" and "mset signers' = mset signers"
  shows "jm_get (signer_map signers') (toBase58 pk) = jm_get (signer_map signers) (toBase58 pk)"
proof -
  have set: "set signers' = set signers" using assms(2) by (rule mset_eq_setD)
  have d': "distinct (map s_address signers')"
    using assms by (metis mset_map mset_eq_imp_distinct_iff)
  show ?thesis
  proof (cases "\<exists>s \<in> set signers. s_address s = pk")
    case True
    then obtain s where s: "s \<in> set signers" "s_address s = pk" by blast
    then show ?thesis
      using find_distinct [of s_address "rev signers" s] find_distinct [of s_address "rev signers'" s] assms d'
      by (simp add: signer_map_get set rev_map [symmetric])
  next
    case False
    then have "find (\<lambda>s. s_address s = pk) (rev xs) = None" if "set xs = set signers" for xs
      using that by (simp add: find_None_iff)
    then show ?thesis using set by (simp add: signer_map_get)
  qed
qed

lemma check_signers_cong:
  "(\<And>pk. jm_get m (toBase58 pk) = jm_get m' (toBase58 pk)) \<Longrightarrow> check_signers m accs = check_signers m' accs"
  by (induction accs) (simp_all add: jm_has_def)

lemma sign_slot_Inr:
  "sign_slot (signer_map signers) mb acc = Inr sig \<longleftrightarrow>
     (\<exists>s. find (\<lambda>s. s_address s = a_pubkey acc) (rev signers) = Some s
        \<and> s_sign s mb = Inr sig \<and> length sig = SIGNATURE_LENGTH)"
  by (auto simp: sign_slot_def signer_map_get split: option.splits sum.splits)

lemma find_rev_Some: "find P (rev xs) = Some x \<Longrightarrow> x \<in> set xs \<and> P x"
  by (metis find_Some_iff nth_mem set_rev)

lemma rmap_sign_slot:
  "rmap (sign_slot (signer_map signers) mb) accs = Inr sigs \<Longrightarrow>
   list_all2 (\<lambda>pk sig. \<exists>s \<in> set signers. s_address s = pk \<and> s_sign s mb = Inr sig) (map a_pubkey accs) sigs"
  by (induction accs arbitrary: sigs) (auto simp: result_simps sign_slot_Inr dest!: find_rev_Some)

lemma assemble_Inr:
  assumes "assemble opts signers = Inr a"
  obtains r sigs where "compile_message opts = Inr r" and "ar_messageBytes a = r_messageBytes r"
    and "rmap (sign_slot (signer_map signers) (r_messageBytes r))
           (take (numRequiredSignatures (r_compiled r)) (staticAccounts (r_compiled r))) = Inr sigs"
    and "wire sigs (r_messageBytes r) = Inr (ar_signedTransaction a)"
    and "ar_accountKeys a = r_accountKeys r"
  using assms by (auto simp: assemble_def Let_def result_simps split: if_splits)

lemma assemble_signatures:
  assumes a: "assemble opts signers = Inr a" and small: "length sigs < 128"
    and r: "compile_message opts = Inr r"
    and sigs: "rmap (sign_slot (signer_map signers) (r_messageBytes r))
           (take (numRequiredSignatures (r_compiled r)) (staticAccounts (r_compiled r))) = Inr sigs"
  shows "decodeTransaction (ar_signedTransaction a) = Inr (sigs, ar_messageBytes a)"
    and "messageSigners (ar_messageBytes a) =
       Inr (map a_pubkey (take (numRequiredSignatures (r_compiled r)) (staticAccounts (r_compiled r))))"
    and "list_all2 (\<lambda>pk sig. \<exists>s \<in> set signers. s_address s = pk \<and> s_sign s (ar_messageBytes a) = Inr sig)
       (map a_pubkey (take (numRequiredSignatures (r_compiled r)) (staticAccounts (r_compiled r)))) sigs"
proof -
  have m: "ar_messageBytes a = r_messageBytes r" and w: "wire sigs (r_messageBytes r) = Inr (ar_signedTransaction a)"
    using assemble_Inr [OF a] r sigs by (metis sum.inject(2))+
  obtain bh where bh: "length bh = 32"
    and c: "r_compiled r = compileAccounts (o_instructions opts) (o_payer opts) (map normaliseAlt (o_alts opts))"
    and ser: "serializeMessage (r_compiled r) (o_instructions opts) bh = Inr (r_messageBytes r)"
    using compile_message_Inr [OF r] by blast
  let ?c = "r_compiled r"
  have n: "numRequiredSignatures ?c \<le> length (staticAccounts ?c)" unfolding c by (rule header_bounds)
  have len: "length sigs = numRequiredSignatures ?c" using sigs n by (auto simp: rmap_eq_Inr_iff)
  have mb: "r_messageBytes r \<noteq> []" by (rule serializeMessage_prefix [OF ser bh]) simp
  have "list_all (\<lambda>s. length s = SIGNATURE_LENGTH) sigs"
    using sigs by (auto simp: rmap_eq_Inr_iff list_all_length sign_slot_Inr)
  then show "decodeTransaction (ar_signedTransaction a) = Inr (sigs, ar_messageBytes a)"
    using decode_wire [OF w _ small mb] m by simp
  show "messageSigners (ar_messageBytes a) = Inr (map a_pubkey (take (numRequiredSignatures ?c) (staticAccounts ?c)))"
    unfolding m using messageSigners_serialized [OF ser bh n] small len by simp
  show "list_all2 (\<lambda>pk sig. \<exists>s \<in> set signers. s_address s = pk \<and> s_sign s (ar_messageBytes a) = Inr sig)
       (map a_pubkey (take (numRequiredSignatures ?c) (staticAccounts ?c))) sigs"
    unfolding m using rmap_sign_slot [OF sigs] .
qed

lemma verify_assembled:
  assumes len: "list_all2 (\<lambda>pk sig. \<exists>s \<in> set signers. s_address s = pk \<and> s_sign s mb = Inr sig) pks sigs"
    and d: "decodeTransaction tx = Inr (sigs, mb)" and m: "messageSigners mb = Inr pks"
    and honest: "\<forall>s \<in> set signers. \<forall>sig. s_sign s mb = Inr sig \<longrightarrow> verify sig mb (toBuffer (s_address s))"
  shows "verifyTransactionSignatures verify tx = Inr True"
proof -
  have "length sigs = length pks" using len by (simp add: list_all2_lengthD)
  moreover have "list_all (\<lambda>(sig, pk). verify sig mb (toBuffer pk)) (zip sigs pks)"
    using len honest by (induction rule: list_all2_induct) auto
  ultimately show ?thesis by (simp add: verifyTransactionSignatures_def d m)
qed

end
