(* ===== verification/TransactionProperties.thy ===== *)
theory TransactionProperties
  imports SignedTx
begin

text \<open>
  The properties of transaction assembly (\<open>packages/solana-tx/src\<close>:
  \<open>transaction-assembler.ts\<close>, \<open>transaction-codec.ts\<close>, \<open>transaction-v1.ts\<close>),
  over \<open>Assembler\<close>, \<open>TxCodec\<close> and the round-trip theories, with a concrete
  transaction for the witnesses.
\<close>

section \<open>A concrete transaction\<close>

text \<open>
  Payer 1; program 9 invoked on a writable account 2 and a readonly account 3, both in
  one lookup table, and on a read-only signer 4.
\<close>

definition sample_table :: lookup_table where
  "sample_table = \<lparr>deactivationSlot = 18446744073709551615, lastExtendedSlot = 7, lastExtendedSlotStartIndex = 0,
     authority = None, addresses = [key_of 5, key_of 3, key_of 2]\<rparr>"

definition sample_ix :: instruction where
  "sample_ix = \<lparr>programId = key_of 9,
     ix_keys = [\<lparr>m_pubkey = key_of 2, m_isSigner = False, m_isWritable = True\<rparr>,
                \<lparr>m_pubkey = key_of 3, m_isSigner = False, m_isWritable = False\<rparr>,
                \<lparr>m_pubkey = key_of 4, m_isSigner = True, m_isWritable = False\<rparr>,
                \<lparr>m_pubkey = key_of 3, m_isSigner = False, m_isWritable = False\<rparr>],
     ix_data = [1, 2, 3]\<rparr>"

definition sample_opts :: compile_options where
  "sample_opts = \<lparr>o_instructions = [sample_ix], o_payer = key_of 1,
     o_recentBlockhash = base58_encode (replicate 32 7), o_alts = [KeyedAlt (key_of 20) sample_table]\<rparr>"

definition acct :: "nat \<Rightarrow> bool \<Rightarrow> bool \<Rightarrow> (pubkey \<times> nat) option \<Rightarrow> account_info" where
  "acct n s w r = \<lparr>a_pubkey = key_of n, a_isSigner = s, a_isWritable = w, a_alt = r\<rparr>"

definition sample_compiled :: compiled_accounts where
  "sample_compiled = \<lparr>staticAccounts = [acct 1 True True None, acct 4 True False None, acct 9 False False None],
     altWritable = [acct 2 False True (Some (key_of 20, 2))],
     altReadonly = [acct 3 False False (Some (key_of 20, 1))],
     indexByBase58 = [(toBase58 (key_of 1), 0), (toBase58 (key_of 4), 1), (toBase58 (key_of 9), 2),
       (toBase58 (key_of 2), 3), (toBase58 (key_of 3), 4)],
     numRequiredSignatures = 2, numReadonlySigned = 1, numReadonlyUnsigned = 1\<rparr>"

lemma sample_compileAccounts:
  "compileAccounts [sample_ix] (key_of 1) [(key_of 20, sample_table)] = sample_compiled"
  by (simp add: sample_compiled_def compileAccounts_def collect_accounts_def collect_instruction_def upsert_def sample_ix_def
      resolve_alt_def sample_table_def jm_values_def acct_def Let_def)

lemma sample_lookups: "buildAddressTableLookups (altWritable sample_compiled) (altReadonly sample_compiled) =
    Inr [\<lparr>accountKey = key_of 20, writableIndexes = [2], readonlyIndexes = [1]\<rparr>]"
  by (simp add: sample_compiled_def buildAddressTableLookups_def push_lookup_def acct_def jm_values_def
      push_writable_def push_readonly_def)

definition sample_message :: bytes where
  "sample_message = [128, 2, 1, 1, 3] @ concat (map (toBuffer \<circ> key_of) [1, 4, 9]) @ replicate 32 7
     @ [1, 2, 4, 3, 4, 1, 4, 3, 1, 2, 3] @ [1] @ toBuffer (key_of 20) @ [1, 2, 1, 1]"

lemma sample_serialized: "serializeMessage sample_compiled [sample_ix] (replicate 32 7) = Inr sample_message"
  unfolding serializeMessage_def sample_lookups
  by (simp add: push_compact_small serialize_instruction_def lookup_index_def sample_compiled_def sample_ix_def
      pushCompactArrayU8_def serialize_lookup_def VERSION_V0_def BLOCKHASH_LENGTH_def sample_message_def acct_def)

definition sample_result :: compile_result where
  "sample_result = \<lparr>r_compiled = sample_compiled, r_messageBytes = sample_message,
     r_accountKeys = map key_of [1, 4, 9, 2, 3]\<rparr>"

lemma sample_compile: "compile_message sample_opts = Inr sample_result"
  by (simp add: compile_message_def sample_opts_def base58_decode_encode BLOCKHASH_LENGTH_def
      sample_compileAccounts sample_serialized sample_result_def Let_def del: One_nat_def)
    (simp add: sample_compiled_def acct_def)


definition sample_tables :: "string \<Rightarrow> pubkey list option" where
  "sample_tables s = (if s = toBase58 (key_of 20) then Some (addresses sample_table) else None)"

section \<open>The message format\<close>

text \<open>
  C1. Compiling a message and decompiling it gives back the instructions, in order, with
  the same program, accounts and data; the flags of every account are the union of the
  flags it was given across the message (the payer signs and writes). This holds for at
  most one lookup table and up to 256 accounts; the static keys, the signers and the
  blockhash come back too.
\<close>

theorem compile_decompile:
  assumes "compile_message opts = Inr r"
    and "length (o_alts opts) \<le> 1"
    and "\<forall>(key, t) \<in> set (map normaliseAlt (o_alts opts)).
           tables (toBase58 key) = Some (addresses t) \<and> length (addresses t) \<le> 256"
    and "length (r_accountKeys r) \<le> 256" and "numRequiredSignatures (r_compiled r) \<le> 255"
  shows "decompileMessage (r_messageBytes r) tables None = Inr
    \<lparr>d_config = None,
     d_instructions = map (effective_instruction (mentions (o_instructions opts) (o_payer opts))) (o_instructions opts),
     d_accountKeys = map a_pubkey (staticAccounts (r_compiled r)),
     d_signers = map a_pubkey (take (numRequiredSignatures (r_compiled r)) (staticAccounts (r_compiled r))),
     d_recentBlockhash = o_recentBlockhash opts\<rparr>"
proof -
  have c: "r_compiled r = compileAccounts (o_instructions opts) (o_payer opts) (map normaliseAlt (o_alts opts))"
    by (rule compile_message_Inr [OF assms(1)])
  obtain lks where "buildAddressTableLookups (altWritable (r_compiled r)) (altReadonly (r_compiled r)) = Inr lks"
    and "list_all (lookup_ok tables) lks" and "tables_in_order tables (r_compiled r) lks"
    using one_table_lookups [of "map normaliseAlt (o_alts opts)" tables "o_instructions opts" "o_payer opts"] assms(2,3)
    unfolding c by auto
  then show ?thesis by (rule decompile_in_order [OF assms(1,4,5)])
qed

theorem compile_decompile_witness:
  "decompileMessage sample_message sample_tables None = Inr
    \<lparr>d_config = None, d_instructions = map (effective_instruction (mentions [sample_ix] (key_of 1))) [sample_ix],
     d_accountKeys = [key_of 1, key_of 4, key_of 9], d_signers = [key_of 1, key_of 4],
     d_recentBlockhash = base58_encode (replicate 32 7)\<rparr>"
  using compile_decompile [OF sample_compile, of sample_tables]
  by (simp add: sample_opts_def sample_tables_def sample_table_def sample_result_def sample_compiled_def acct_def)

text \<open>
  C2. The account table of a message: every key mentioned by the instructions, and the
  payer, occurs exactly once; its signer flag is the union of the signer flags it was
  given and its writable flag the union of the writable flags, the payer counting as
  both. (\<open>compileAccounts\<close>, any instructions and tables.)
\<close>

theorem compileAccounts_complete:
  "distinct (map a_pubkey (all_accounts (compileAccounts ixs payer alts)))
   \<and> set (map a_pubkey (all_accounts (compileAccounts ixs payer alts))) =
       {payer} \<union> programId ` set ixs \<union> (\<Union>ix \<in> set ixs. m_pubkey ` set (ix_keys ix))
   \<and> {a_pubkey a | a. a \<in> set (all_accounts (compileAccounts ixs payer alts)) \<and> a_isSigner a} =
       {payer} \<union> {m_pubkey m | m ix. ix \<in> set ixs \<and> m \<in> set (ix_keys ix) \<and> m_isSigner m}
   \<and> {a_pubkey a | a. a \<in> set (all_accounts (compileAccounts ixs payer alts)) \<and> a_isWritable a} =
       {payer} \<union> {m_pubkey m | m ix. ix \<in> set ixs \<and> m \<in> set (ix_keys ix) \<and> m_isWritable m}"
proof (intro conjI)
  let ?A = "set (all_accounts (compileAccounts ixs payer alts))" and ?ms = "mentions ixs payer"
  show "distinct (map a_pubkey (all_accounts (compileAccounts ixs payer alts)))" by (rule distinct_all_accounts)
  have keys: "a_pubkey ` {a \<in> ?A. P a} = {pk \<in> fst ` set ?ms. P (resolved_account ixs payer alts pk)}" for P
    unfolding set_all_accounts by (simp add: Compr_image_eq image_image)
  show "set (map a_pubkey (all_accounts (compileAccounts ixs payer alts))) =
       {payer} \<union> programId ` set ixs \<union> (\<Union>ix \<in> set ixs. m_pubkey ` set (ix_keys ix))"
    using keys [of "\<lambda>_. True"] by (auto simp: mentioned_iff)
  have "{a_pubkey a | a. a \<in> ?A \<and> a_isSigner a} = {pk \<in> fst ` set ?ms. signs ?ms pk}"
    using keys [of a_isSigner] by auto
  then show "{a_pubkey a | a. a \<in> ?A \<and> a_isSigner a} =
       {payer} \<union> {m_pubkey m | m ix. ix \<in> set ixs \<and> m \<in> set (ix_keys ix) \<and> m_isSigner m}"
    by (auto simp: mentioned_iff signs_iff)
  have "{a_pubkey a | a. a \<in> ?A \<and> a_isWritable a} = {pk \<in> fst ` set ?ms. writes ?ms pk}"
    using keys [of a_isWritable] by auto
  then show "{a_pubkey a | a. a \<in> ?A \<and> a_isWritable a} =
       {payer} \<union> {m_pubkey m | m ix. ix \<in> set ixs \<and> m \<in> set (ix_keys ix) \<and> m_isWritable m}"
    by (auto simp: mentioned_iff writes_iff)
qed

text \<open>
  The order of the account table is the one the header describes: the payer is
  account 0, exactly the first \<open>numRequiredSignatures\<close> accounts sign, an account is
  writable iff the runtime's reading of the three header counts says so, and the accounts
  taken from a table are exactly those after the static ones.
\<close>

theorem compileAccounts_header:
  "a_pubkey (all_accounts (compileAccounts ixs payer alts) ! 0) = payer
   \<and> (\<forall>i < length (all_accounts (compileAccounts ixs payer alts)).
        let c = compileAccounts ixs payer alts; a = all_accounts c ! i in
        (a_isSigner a \<longleftrightarrow> i < numRequiredSignatures c)
        \<and> (a_isWritable a \<longleftrightarrow> message_writable (numRequiredSignatures c) (numReadonlySigned c)
             (numReadonlyUnsigned c) (length (staticAccounts c)) (length (altWritable c)) i)
        \<and> (a_alt a = None \<longleftrightarrow> i < length (staticAccounts c)))"
proof -
  let ?acc = "resolved_account ixs payer alts payer"
  have pm: "payer \<in> fst ` set (mentions ixs payer)" and s: "signs (mentions ixs payer) payer" and w: "writes (mentions ixs payer) payer"
    by (auto simp: mentions_def signs_def writes_def)
  then have "?acc \<in> set (resolved_accounts ixs payer alts)"
    by (auto simp: resolved_accounts_def set_account_order)
  then have "filter (\<lambda>a. a_isSigner a \<and> a_isWritable a \<and> a_pubkey a = payer) (resolved_accounts ixs payer alts) \<noteq> []"
    using s w by (auto simp: filter_empty_conv intro!: bexI [of _ ?acc])
  then have "a_pubkey (all_accounts (compileAccounts ixs payer alts) ! 0) = payer"
    by (cases "filter (\<lambda>a. a_isSigner a \<and> a_isWritable a \<and> a_pubkey a = payer) (resolved_accounts ixs payer alts)")
      (auto simp: all_accounts_classes classes_def dest: filter_eq_ConsD)
  then show ?thesis
    using header_flags static_iff_no_alt static_no_alt unfolding Let_def by blast
qed


theorem compileAccounts_header_witness:
  "a_isSigner (all_accounts sample_compiled ! 3) = (3 < (2 :: nat))
     \<and> a_isWritable (all_accounts sample_compiled ! 3) = message_writable 2 1 1 3 1 3
     \<and> (a_alt (all_accounts sample_compiled ! 3) = None) = (3 < (3 :: nat))"
proof -
  have n: "length (all_accounts sample_compiled) = 5" and
    h: "numRequiredSignatures sample_compiled = 2" "numReadonlySigned sample_compiled = 1" "numReadonlyUnsigned sample_compiled = 1"
      "length (staticAccounts sample_compiled) = 3" "length (altWritable sample_compiled) = 1"
    by (simp_all add: sample_compiled_def all_accounts_def)
  show ?thesis
    using compileAccounts_header [of "[sample_ix]" "key_of 1" "[(key_of 20, sample_table)]", unfolded sample_compileAccounts]
    unfolding Let_def n h by simp
qed

section \<open>Two lookup tables\<close>

text \<open>
  Writable accounts 2 and 4 in table 20, writable account 3 in table 21, mentioned in the
  order 2, 3, 4.
\<close>

definition table_of :: "nat list \<Rightarrow> lookup_table" where
  "table_of ns = \<lparr>deactivationSlot = 18446744073709551615, lastExtendedSlot = 0, lastExtendedSlotStartIndex = 0,
     authority = None, addresses = map key_of ns\<rparr>"

definition writes_to :: "nat \<Rightarrow> nat list \<Rightarrow> instruction" where
  "writes_to program ns = \<lparr>programId = key_of program,
     ix_keys = map (\<lambda>n. \<lparr>m_pubkey = key_of n, m_isSigner = False, m_isWritable = True\<rparr>) ns, ix_data = []\<rparr>"

definition two_table_opts :: compile_options where
  "two_table_opts = \<lparr>o_instructions = [writes_to 9 [2, 3, 4]], o_payer = key_of 1,
     o_recentBlockhash = base58_encode (replicate 32 7),
     o_alts = [KeyedAlt (key_of 20) (table_of [2, 4]), KeyedAlt (key_of 21) (table_of [3])]\<rparr>"

definition two_tables :: "string \<Rightarrow> pubkey list option" where
  "two_tables s = (if s = toBase58 (key_of 20) then Some (map key_of [2, 4])
     else if s = toBase58 (key_of 21) then Some (map key_of [3]) else None)"

definition two_compiled :: compiled_accounts where
  "two_compiled = \<lparr>staticAccounts = [acct 1 True True None, acct 9 False False None],
     altWritable = [acct 2 False True (Some (key_of 20, 0)), acct 3 False True (Some (key_of 21, 0)),
        acct 4 False True (Some (key_of 20, 1))], altReadonly = [],
     indexByBase58 = [(toBase58 (key_of 1), 0), (toBase58 (key_of 9), 1), (toBase58 (key_of 2), 2),
       (toBase58 (key_of 3), 3), (toBase58 (key_of 4), 4)],
     numRequiredSignatures = 1, numReadonlySigned = 0, numReadonlyUnsigned = 1\<rparr>"

definition two_lookups :: "table_lookup list" where
  "two_lookups = [\<lparr>accountKey = key_of 20, writableIndexes = [0, 1], readonlyIndexes = []\<rparr>,
     \<lparr>accountKey = key_of 21, writableIndexes = [0], readonlyIndexes = []\<rparr>]"

lemma two_compileAccounts:
  "compileAccounts [writes_to 9 [2, 3, 4]] (key_of 1) [(key_of 20, table_of [2, 4]), (key_of 21, table_of [3])] = two_compiled"
  by (simp add: two_compiled_def compileAccounts_def collect_accounts_def collect_instruction_def upsert_def writes_to_def
      resolve_alt_def table_of_def jm_values_def acct_def Let_def)

lemma two_table_lookups: "buildAddressTableLookups (altWritable two_compiled) (altReadonly two_compiled) = Inr two_lookups"
  by (simp add: two_compiled_def buildAddressTableLookups_def push_lookup_def acct_def jm_values_def two_lookups_def
      push_writable_def push_readonly_def)

definition two_message :: bytes where
  "two_message = projr (serializeMessage two_compiled [writes_to 9 [2, 3, 4]] (replicate 32 7))"

lemma two_serialized: "serializeMessage two_compiled [writes_to 9 [2, 3, 4]] (replicate 32 7) = Inr two_message"
  unfolding two_message_def serializeMessage_def two_table_lookups
  by (simp add: push_compact_small serialize_instruction_def lookup_index_def two_compiled_def writes_to_def
      pushCompactArrayU8_def serialize_lookup_def two_lookups_def)

lemma two_compile: "compile_message two_table_opts = Inr \<lparr>r_compiled = two_compiled, r_messageBytes = two_message,
     r_accountKeys = map key_of [1, 9, 2, 3, 4]\<rparr>"
  by (simp add: compile_message_def two_table_opts_def base58_decode_encode BLOCKHASH_LENGTH_def two_compileAccounts
      two_serialized Let_def del: One_nat_def) (simp add: two_compiled_def acct_def)

lemma two_decompile: "decompileMessage two_message two_tables None = Inr
    \<lparr>d_config = None, d_instructions = [writes_to 9 [2, 4, 3]], d_accountKeys = map key_of [1, 9],
     d_signers = [key_of 1], d_recentBlockhash = base58_encode (replicate 32 7)\<rparr>"
proof -
  have "list_all (lookup_ok two_tables) two_lookups"
    by (simp add: two_lookups_def lookup_ok_def two_tables_def)
  moreover have "list_all (raw_ok (length (staticAccounts two_compiled)))
      (map (raw_of (indexByBase58 two_compiled)) [writes_to 9 [2, 3, 4]])"
    by (simp add: raw_ok_def raw_of_def two_compiled_def writes_to_def lookup_index_def)
  ultimately show ?thesis
    by (subst decompile_serialized [OF two_serialized two_table_lookups])
      (simp_all add: two_compiled_def runtime_accounts_def two_lookups_def side_keys_def two_tables_def acct_def
        raw_of_def writes_to_def lookup_index_def resolve_meta_def jat_def message_writable_def take_Cons' del: One_nat_def)
qed

text \<open>
  C3. With two lookup tables the message can name the wrong accounts. Indices are given in
  the order in which the accounts are first mentioned, but the message lists the looked-up
  addresses table by table, so writable accounts 2 and 4 of one table with 3 of another
  in between are resolved as 2, 4, 3: the instruction of the compiled message passes
  accounts 3 and 4 to the program in each other's place.
\<close>

theorem two_tables_misordered:
  "\<exists>r d. compile_message two_table_opts = Inr r
     \<and> r_accountKeys r = map key_of [1, 9, 2, 3, 4]
     \<and> decompileMessage (r_messageBytes r) two_tables None = Inr d
     \<and> o_instructions two_table_opts = [writes_to 9 [2, 3, 4]]
     \<and> d_instructions d = [writes_to 9 [2, 4, 3]]
     \<and> writes_to 9 [2, 4, 3] \<noteq> writes_to 9 [2, 3, 4]"
proof (intro exI conjI)
  show "compile_message two_table_opts = Inr \<lparr>r_compiled = two_compiled, r_messageBytes = two_message,
     r_accountKeys = map key_of [1, 9, 2, 3, 4]\<rparr>" by (rule two_compile)
  show "decompileMessage (r_messageBytes \<lparr>r_compiled = two_compiled, r_messageBytes = two_message,
     r_accountKeys = map key_of [1, 9, 2, 3, 4]\<rparr>) two_tables None = Inr
    \<lparr>d_config = None, d_instructions = [writes_to 9 [2, 4, 3]], d_accountKeys = map key_of [1, 9],
     d_signers = [key_of 1], d_recentBlockhash = base58_encode (replicate 32 7)\<rparr>"
    using two_decompile by simp
qed (simp_all add: two_table_opts_def writes_to_def)

section \<open>Lookup tables\<close>

text \<open>
  An account is loaded from a table only if it is not a signer, not the payer and not
  an invoked program; its reference is the first table, in the order given, that lists
  the key, at the first index at which it lists it. Every other account that no rule
  excludes and some table lists is loaded that way.
\<close>

theorem compileAccounts_alt_refs:
  "\<forall>a \<in> set (all_accounts (compileAccounts ixs payer alts)).
     a_alt a = (if a_isSigner a \<or> a_pubkey a \<in> programId ` set ixs then None else first_alt (a_pubkey a) alts)
     \<and> (a_alt a \<noteq> None \<longrightarrow> a_pubkey a \<noteq> payer \<and>
          (\<exists>(key, t) \<in> set alts. \<exists>i < length (addresses t). a_alt a = Some (key, i) \<and> addresses t ! i = a_pubkey a))"
proof
  fix a assume "a \<in> set (all_accounts (compileAccounts ixs payer alts))"
  then obtain pk where a: "a = resolved_account ixs payer alts pk" by (auto simp: set_all_accounts)
  have eq: "a_alt a = (if a_isSigner a \<or> a_pubkey a \<in> programId ` set ixs then None else first_alt (a_pubkey a) alts)"
    by (auto simp: a resolved_account_def resolve_alt_def merged_def invoked_keys_def split: option.split)
  moreover have "\<not> a_isSigner a \<Longrightarrow> a_pubkey a \<noteq> payer" by (auto simp: a signs_iff)
  ultimately show "a_alt a = (if a_isSigner a \<or> a_pubkey a \<in> programId ` set ixs then None else first_alt (a_pubkey a) alts)
     \<and> (a_alt a \<noteq> None \<longrightarrow> a_pubkey a \<noteq> payer \<and>
          (\<exists>(key, t) \<in> set alts. \<exists>i < length (addresses t). a_alt a = Some (key, i) \<and> addresses t ! i = a_pubkey a))"
  proof (intro conjI impI)
    assume "a_alt a \<noteq> None"
    then obtain key i where ki: "a_alt a = Some (key, i)" by auto
    then have "first_alt (a_pubkey a) alts = Some (key, i)" using eq by (auto split: if_splits)
    then show "\<exists>(key, t) \<in> set alts. \<exists>i < length (addresses t). a_alt a = Some (key, i) \<and> addresses t ! i = a_pubkey a"
      using ki first_alt_Some by fastforce
  qed (auto split: if_splits)
qed

theorem compileAccounts_alt_refs_witness:
  "acct 2 False True (Some (key_of 20, 2)) \<in> set (all_accounts (compileAccounts [sample_ix] (key_of 1) [(key_of 20, sample_table)]))
   \<and> first_alt (key_of 2) [(key_of 20, sample_table)] = Some (key_of 20, 2)"
proof -
  have m: "acct 2 False True (Some (key_of 20, 2)) \<in> set (all_accounts (compileAccounts [sample_ix] (key_of 1) [(key_of 20, sample_table)]))"
    unfolding sample_compileAccounts by (simp add: all_accounts_def sample_compiled_def)
  then show ?thesis
    using bspec [OF compileAccounts_alt_refs m] by (simp add: acct_def sample_ix_def)
qed


section \<open>Signing\<close>

text \<open>
  C4. A transaction assembled with fewer than 128 signatures decodes into the message
  that was signed and one signature per required signer; the i-th signature is the one
  that a signer passed to \<open>assemble\<close>, holding the address of the i-th required signer,
  returned for exactly these message bytes, whatever the order of the signers.
\<close>

theorem assemble_decodes:
  assumes "assemble opts signers = Inr a"
    and "compile_message opts = Inr r" and "numRequiredSignatures (r_compiled r) < 128"
  shows "\<exists>sigs pks. decodeTransaction (ar_signedTransaction a) = Inr (sigs, ar_messageBytes a)
     \<and> messageSigners (ar_messageBytes a) = Inr pks
     \<and> pks = take (numRequiredSignatures (r_compiled r)) (ar_accountKeys a)
     \<and> list_all2 (\<lambda>pk sig. \<exists>s \<in> set signers. s_address s = pk \<and> s_sign s (ar_messageBytes a) = Inr sig) pks sigs"
proof -
  obtain sigs where sigs: "rmap (sign_slot (signer_map signers) (r_messageBytes r))
      (take (numRequiredSignatures (r_compiled r)) (staticAccounts (r_compiled r))) = Inr sigs"
    and keys: "ar_accountKeys a = r_accountKeys r"
    using assemble_Inr [OF assms(1)] assms(2) by (metis sum.inject(2))
  have "length sigs < 128" using sigs assms(3) by (auto simp: rmap_eq_Inr_iff)
  note facts = assemble_signatures [OF assms(1) this assms(2) sigs]
  have "numRequiredSignatures (r_compiled r) \<le> length (staticAccounts (r_compiled r))"
    and "r_accountKeys r = map a_pubkey (all_accounts (r_compiled r))"
    using compile_message_Inr [OF assms(2)] header_bounds(1) by metis+
  then have "map a_pubkey (take (numRequiredSignatures (r_compiled r)) (staticAccounts (r_compiled r))) =
      take (numRequiredSignatures (r_compiled r)) (ar_accountKeys a)"
    by (simp add: keys all_accounts_def take_map)
  then show ?thesis using facts by auto
qed

text \<open>Signers whose signature is their key's last byte and the message length, padded to 64 bytes.\<close>

definition toy_signature :: "pubkey \<Rightarrow> bytes \<Rightarrow> bytes" where
  "toy_signature pk mb = last (toBuffer pk) # word_of_nat (length mb) # replicate 62 0"

definition toy_signer :: "nat \<Rightarrow> signer" where
  "toy_signer n = \<lparr>s_address = key_of n, s_sign = (\<lambda>mb. Inr (toy_signature (key_of n) mb))\<rparr>"

lemma length_toy_signature [simp]: "length (toy_signature pk mb) = 64"
  by (simp add: toy_signature_def)

lemma sample_assemble:
  "assemble sample_opts [toy_signer 4, toy_signer 1] = Inr
     \<lparr>ar_signedTransaction = 2 # toy_signature (key_of 1) sample_message @ toy_signature (key_of 4) sample_message
        @ sample_message,
      ar_messageBytes = sample_message, ar_accountKeys = map key_of [1, 4, 9, 2, 3]\<rparr>"
proof -
  have "o_payer sample_opts = key_of 1" by (simp add: sample_opts_def)
  then show ?thesis
    unfolding assemble_def sample_compile
    by (simp add: sample_result_def sample_compiled_def acct_def signer_map_def toy_signer_def jm_has_def sign_slot_def
        SIGNATURE_LENGTH_def wire_def push_compact_small Let_def take_Cons' del: One_nat_def)
qed

theorem assemble_decodes_witness:
  "\<exists>sigs. decodeTransaction (2 # toy_signature (key_of 1) sample_message @ toy_signature (key_of 4) sample_message
        @ sample_message) = Inr (sigs, sample_message)
     \<and> messageSigners sample_message = Inr [key_of 1, key_of 4]"
  using assemble_decodes [OF sample_assemble sample_compile]
  by (simp add: sample_result_def sample_compiled_def del: One_nat_def) (auto simp: take_Cons')

text \<open>
  A transaction whose signers all return signatures that verify passes
  \<open>verifyTransactionSignatures\<close>; \<open>verify\<close> is any verification function.
\<close>

theorem assembled_verifies:
  assumes "assemble opts signers = Inr a"
    and "compile_message opts = Inr r" and "numRequiredSignatures (r_compiled r) < 128"
    and "\<forall>s \<in> set signers. \<forall>sig. s_sign s (ar_messageBytes a) = Inr sig \<longrightarrow>
           verify sig (ar_messageBytes a) (toBuffer (s_address s))"
  shows "verifyTransactionSignatures verify (ar_signedTransaction a) = Inr True"
proof -
  obtain sigs where sigs: "rmap (sign_slot (signer_map signers) (r_messageBytes r))
      (take (numRequiredSignatures (r_compiled r)) (staticAccounts (r_compiled r))) = Inr sigs"
    using assemble_Inr [OF assms(1)] assms(2) by (metis sum.inject(2))
  have "length sigs < 128" using sigs assms(3) by (auto simp: rmap_eq_Inr_iff)
  note facts = assemble_signatures [OF assms(1) this assms(2) sigs]
  show ?thesis using verify_assembled [where verify = verify, OF facts(3) facts(1,2)] assms(4) by blast
qed

theorem assembled_verifies_witness:
  "verifyTransactionSignatures (\<lambda>sig mb pk. hd sig = last pk)
     (2 # toy_signature (key_of 1) sample_message @ toy_signature (key_of 4) sample_message @ sample_message) = Inr True"
  using assembled_verifies [OF sample_assemble sample_compile, of "\<lambda>sig mb pk. hd sig = last pk"]
  by (simp add: sample_result_def sample_compiled_def) (simp add: toy_signer_def toy_signature_def)

text \<open>
  Assembly does not depend on the order in which the signers are passed, as long as
  no address is passed twice.
\<close>

theorem assemble_signer_order:
  assumes "distinct (map s_address signers)" and "mset signers' = mset signers"
  shows "assemble opts signers' = assemble opts signers"
proof -
  note get = signer_map_mset [OF assms]
  have "check_signers (signer_map signers') accs = check_signers (signer_map signers) accs" for accs
    by (rule check_signers_cong) (rule get)
  moreover have "sign_slot (signer_map signers') = sign_slot (signer_map signers)"
    by (intro ext) (simp add: sign_slot_def get)
  moreover have "jm_has (signer_map signers') (toBase58 pk) = jm_has (signer_map signers) (toBase58 pk)" for pk
    by (simp add: jm_has_def get)
  ultimately show ?thesis by (simp add: assemble_def Let_def)
qed

theorem assemble_signer_order_witness:
  "assemble sample_opts [toy_signer 1, toy_signer 4] = assemble sample_opts [toy_signer 4, toy_signer 1]"
  by (rule assemble_signer_order) (simp_all add: toy_signer_def)

lemma check_signers_first:
  "check_signers m accs = (case find (\<lambda>a. a_isSigner a \<and> \<not> jm_has m (toBase58 (a_pubkey a))) accs of
     None \<Rightarrow> Inr () | Some a \<Rightarrow> Inl (MissingSigner (toBase58 (a_pubkey a))))"
  by (induction accs) auto

lemma signer_map_has: "jm_has (signer_map signers) (toBase58 pk) \<longleftrightarrow> pk \<in> s_address ` set signers"
  by (force simp: jm_has_def signer_map_get find_None_iff)

lemma signed_keys: "rmap (sign_slot (signer_map signers) mb) accs = Inr sigs \<Longrightarrow>
    a_pubkey ` set accs \<subseteq> s_address ` set signers"
  by (induction accs arbitrary: sigs) (auto simp: result_simps sign_slot_Inr intro: rev_image_eqI dest!: find_rev_Some)

text \<open>
  \<open>assemble\<close> never returns a transaction without every required signature: it
  succeeds only if the payer and every account that must sign is among the signers; when
  the payer is not, the error names the payer, and when the message compiles and another
  required signer is missing, the error names the first one in account order.
\<close>

theorem assemble_needs_signers:
  "(o_payer opts \<notin> s_address ` set signers \<longrightarrow>
      assemble opts signers = Inl (PayerNotInSigners (toBase58 (o_payer opts))))
   \<and> (\<forall>r a. o_payer opts \<in> s_address ` set signers \<and> compile_message opts = Inr r
        \<and> find (\<lambda>a. a_isSigner a \<and> a_pubkey a \<notin> s_address ` set signers) (staticAccounts (r_compiled r)) = Some a
      \<longrightarrow> assemble opts signers = Inl (MissingSigner (toBase58 (a_pubkey a))))
   \<and> (\<forall>r a. assemble opts signers = Inr a \<and> compile_message opts = Inr r \<longrightarrow>
        set (take (numRequiredSignatures (r_compiled r)) (r_accountKeys r)) \<subseteq> s_address ` set signers)"
proof (intro conjI allI impI)
  show "assemble opts signers = Inl (PayerNotInSigners (toBase58 (o_payer opts)))"
    if "o_payer opts \<notin> s_address ` set signers"
    using that by (simp add: assemble_def Let_def signer_map_has)
next
  fix r a
  assume "o_payer opts \<in> s_address ` set signers \<and> compile_message opts = Inr r
    \<and> find (\<lambda>a. a_isSigner a \<and> a_pubkey a \<notin> s_address ` set signers) (staticAccounts (r_compiled r)) = Some a"
  then show "assemble opts signers = Inl (MissingSigner (toBase58 (a_pubkey a)))"
    by (simp add: assemble_def Let_def signer_map_has check_signers_first)
next
  fix r a
  assume ar: "assemble opts signers = Inr a \<and> compile_message opts = Inr r"
  obtain sigs where sigs: "rmap (sign_slot (signer_map signers) (r_messageBytes r))
      (take (numRequiredSignatures (r_compiled r)) (staticAccounts (r_compiled r))) = Inr sigs"
    using assemble_Inr [OF conjunct1 [OF ar]] conjunct2 [OF ar] by (metis sum.inject(2))
  have "numRequiredSignatures (r_compiled r) \<le> length (staticAccounts (r_compiled r))"
    and "r_accountKeys r = map a_pubkey (all_accounts (r_compiled r))"
    using compile_message_Inr [OF conjunct2 [OF ar]] header_bounds(1) by metis+
  then have "take (numRequiredSignatures (r_compiled r)) (r_accountKeys r) =
      map a_pubkey (take (numRequiredSignatures (r_compiled r)) (staticAccounts (r_compiled r)))"
    by (simp add: all_accounts_def take_map)
  then show "set (take (numRequiredSignatures (r_compiled r)) (r_accountKeys r)) \<subseteq> s_address ` set signers"
    using signed_keys [OF sigs] by (metis set_map)
qed

theorem assemble_needs_signers_witness:
  "assemble sample_opts [toy_signer 4] = Inl (PayerNotInSigners (toBase58 (key_of 1)))
   \<and> assemble sample_opts [toy_signer 1] = Inl (MissingSigner (toBase58 (key_of 4)))"
proof
  have p: "o_payer sample_opts = key_of 1" by (simp add: sample_opts_def)
  show "assemble sample_opts [toy_signer 4] = Inl (PayerNotInSigners (toBase58 (key_of 1)))"
    using assemble_needs_signers [of sample_opts "[toy_signer 4]"] by (simp add: p toy_signer_def)
  have "find (\<lambda>a. a_isSigner a \<and> a_pubkey a \<notin> s_address ` set [toy_signer 1]) (staticAccounts (r_compiled sample_result))
      = Some (acct 4 True False None)"
    by (simp add: sample_result_def sample_compiled_def acct_def toy_signer_def)
  then show "assemble sample_opts [toy_signer 1] = Inl (MissingSigner (toBase58 (key_of 4)))"
    using assemble_needs_signers [of sample_opts "[toy_signer 1]"] sample_compile
    by (simp add: p toy_signer_def acct_def)
qed

text \<open>
  \<open>compileUnsigned\<close> returns a transaction whose signature slots are one 64-byte
  zero placeholder per required signer, which decodes back to the compiled message, and
  whose reported signers are the ones the message asks for (fewer than 128 of them).
\<close>

theorem compileUnsigned_decodes:
  assumes "compileUnsigned opts = Inr ct" and "length (ct_signers ct) < 128"
  shows "decodeTransaction (ct_unsignedTransaction ct) =
      Inr (replicate (length (ct_signers ct)) (replicate 64 0), ct_messageBytes ct)
    \<and> messageSigners (ct_messageBytes ct) = Inr (ct_signers ct)"
proof -
  obtain r where r: "compile_message opts = Inr r" and mb: "ct_messageBytes ct = r_messageBytes r"
    and s: "ct_signers ct = map a_pubkey (take (numRequiredSignatures (r_compiled r)) (staticAccounts (r_compiled r)))"
    and w: "wire (map (\<lambda>_. replicate SIGNATURE_LENGTH 0) (ct_signers ct)) (r_messageBytes r) = Inr (ct_unsignedTransaction ct)"
    using assms(1) by (auto simp: compileUnsigned_def Let_def result_simps)
  obtain bh where bh: "length bh = 32"
    and c: "r_compiled r = compileAccounts (o_instructions opts) (o_payer opts) (map normaliseAlt (o_alts opts))"
    and ser: "serializeMessage (r_compiled r) (o_instructions opts) bh = Inr (r_messageBytes r)"
    using compile_message_Inr [OF r] by blast
  have n: "numRequiredSignatures (r_compiled r) \<le> length (staticAccounts (r_compiled r))"
    unfolding c by (rule header_bounds)
  have ne: "r_messageBytes r \<noteq> []" by (rule serializeMessage_prefix [OF ser bh]) simp
  have "decodeTransaction (ct_unsignedTransaction ct) =
      Inr (map (\<lambda>_. replicate SIGNATURE_LENGTH 0) (ct_signers ct), r_messageBytes r)"
    by (rule decode_wire [OF w]) (use ne assms(2) in \<open>simp_all add: list_all_iff\<close>)
  moreover have "messageSigners (r_messageBytes r) = Inr (ct_signers ct)"
    unfolding s by (rule messageSigners_serialized [OF ser bh n]) (use s n assms(2) in simp)
  ultimately show ?thesis by (simp add: mb SIGNATURE_LENGTH_def map_replicate_const)
qed

lemma sample_unsigned: "compileUnsigned sample_opts = Inr
    \<lparr>ct_messageBytes = sample_message, ct_unsignedTransaction = 2 # replicate 128 0 @ sample_message,
     ct_signers = [key_of 1, key_of 4], ct_accountKeys = map key_of [1, 4, 9, 2, 3]\<rparr>"
proof -
  have "replicate 128 (0 :: byte) = replicate 64 0 @ replicate 64 0" by (simp flip: replicate_add)
  then show ?thesis
    by (simp add: compileUnsigned_def sample_compile sample_result_def sample_compiled_def acct_def wire_def
        push_compact_small SIGNATURE_LENGTH_def take_Cons' del: One_nat_def)
qed

theorem compileUnsigned_decodes_witness:
  "decodeTransaction (2 # replicate 128 0 @ sample_message) = Inr ([replicate 64 0, replicate 64 0], sample_message)"
  using compileUnsigned_decodes [OF sample_unsigned] by (simp add: numeral_2_eq_2)

end
