(* ===== verification/CodecProperties.thy ===== *)
theory CodecProperties
  imports CompactU16 AddressLookupTable
begin

text \<open>
  The properties of the wire formats (\<open>packages/solana-core/src\<close>: \<open>base58.ts\<close>,
  \<open>public-key.ts\<close>, \<open>compact-u16.ts\<close>, \<open>borsh.ts\<close>;
  \<open>packages/solana-tx/src/address-lookup-table.ts\<close>).
\<close>

section \<open>Base58 and public keys\<close>

text \<open>
  Base58 is a bijection between byte strings and the texts that decode:
  \<open>decode\<close> accepts exactly the encodings, each with the bytes it came from, so no two
  texts decode to the same bytes (leading zero bytes and leading \<open>1\<close>s included).
\<close>

theorem base58_bijection: "base58_decode s = Inr bs \<longleftrightarrow> s = base58_encode bs"
  using base58_decode_encode [of bs] base58_encode_decode [of s bs] by auto

text \<open>
  A public key is parsed from exactly one text; parsing rejects every other text, with
  the length error when the text is base58 of another length.
\<close>

theorem fromBase58_iff:
  "(fromBase58 s = Inr pk \<longleftrightarrow> s = toBase58 pk)
   \<and> (length bs = 32 \<or> fromBase58 (base58_encode bs) = Inl (InvalidByteLength (length bs)))
   \<and> (pk_equals pk pk' \<longleftrightarrow> toBase58 pk = toBase58 pk')"
proof (intro conjI)
  show "fromBase58 s = Inr pk \<longleftrightarrow> s = toBase58 pk" using toBase58_fromBase58 [of s pk] by auto
qed (auto simp: fromBase58_def fromBytes_def base58_decode_encode)

section \<open>Compact-u16\<close>

text \<open>
  \<open>encode\<close> accepts exactly 0 to 65535 and writes 1, 2 or 3 bytes; \<open>decode\<close> at the
  start of the encoding, in any buffer, returns the number and the bytes consumed.
\<close>

theorem compact_roundtrip:
  "(if 0 \<le> n \<and> n \<le> 65535
    then \<exists>bs. compact_encode n = Inr bs \<and> length bs = (if n < 128 then 1 else if n < 16384 then 2 else 3)
           \<and> compact_decode (pre @ bs @ post) (length pre) = Inr (nat n, length bs)
    else compact_encode n = Inl (OutOfRange n))"
proof (cases "0 \<le> n \<and> n \<le> 65535")
  case True
  then obtain m where n: "n = int m" and m: "m \<le> 65535" by (metis nat_le_iff nat_0_le of_nat_numeral)
  obtain bs where bs: "compact_encode (int m) = Inr bs" using compact_encode_total [OF m] by blast
  then show ?thesis
    using compact_decode_encode [OF bs, of pre post] compact_encode_length [OF bs] True by (simp add: n)
qed (auto simp: compact_encode_def MAX_VALUE_def)

text \<open>
  \<open>decode\<close> never reads past the buffer or more than three bytes, but what it accepts is
  not a u16: its bound is 21 bits, reached by \<open>[0xff, 0xff, 0x7f]\<close>, where the
  documentation of the function promises a value in [0, 65535].
\<close>

theorem compact_decode_range:
  "(case compact_decode bs offset of
      Inl _ \<Rightarrow> True
    | Inr (v, l) \<Rightarrow> 1 \<le> l \<and> l \<le> 3 \<and> offset + l \<le> length bs \<and> v < 2 ^ 21)
   \<and> compact_decode [0xff, 0xff, 0x7f] 0 = Inr (2097151, 3)"
proof
  show "case compact_decode bs offset of Inl _ \<Rightarrow> True
    | Inr (v, l) \<Rightarrow> 1 \<le> l \<and> l \<le> 3 \<and> offset + l \<le> length bs \<and> v < 2 ^ 21"
  proof (cases "compact_decode bs offset")
    case (Inr vl)
    obtain v l where vl: "vl = (v, l)" by (cases vl)
    note b = compact_decode_bounds [OF Inr [unfolded vl]]
    then have "(2 :: nat) ^ (7 * l) \<le> 2 ^ 21" by (intro power_increasing) auto
    with b show ?thesis by (simp add: Inr vl)
  qed simp
  show "compact_decode [0xff, 0xff, 0x7f] 0 = Inr (2097151, 3)"
    by (simp add: compact_decode_def compact_decode_step)
qed

section \<open>Borsh\<close>

text \<open>
  What the Borsh writer appends the reader reads back: a record of a u64, an i64, a
  public key, a bool and a vector of optional strings, written one after the other to any
  writer, is returned by the corresponding reads from the written bytes, which end where
  the writer is. (Integers in range, strings without a leading byte order mark.)
\<close>

theorem borsh_roundtrip:
  fixes k :: pubkey and t :: bool
  assumes "writer_inv w" and "fits 8 a" and "fits_i64 b" and "ok_vec (pred_option ok_string) xs"
    and w'_def: "w' = writeVec (writeOption writeString) (writeBool (writePubkey (writeI64 (writeU64 w a) b) k) t) xs"
  shows "writer_inv w'
   \<and> rbind (readU64 \<lparr>rbuf = toBytes w', roffset = wlen w\<rparr>) (\<lambda>(x1, r).
     rbind (readI64 r) (\<lambda>(x2, r).
     rbind (readPubkey r) (\<lambda>(x3, r).
     rbind (readBool r) (\<lambda>(x4, r).
     rbind (readVec (readOption readString) r) (\<lambda>(x5, r). Inr (x1, x2, x3, x4, x5, roffset r))))))
     = Inr (a, b, k, t, xs, length (toBytes w'))"
proof -
  let ?e1 = "enc_uint 8 a" and ?e2 = "enc_uint 8 b" and ?e3 = "toBuffer k" and ?e4 = "enc_bool t"
    and ?e5 = "enc_vec (enc_option enc_string) xs" and ?p = "toBytes w"
  have l4: "length ?e4 = 1" by (simp add: enc_bool_def)
  have w': "writer_inv w' \<and> toBytes w' = ?p @ ?e1 @ ?e2 @ ?e3 @ ?e4 @ ?e5"
    using assms(1-4) by (simp add: w'_def vec_opt_str.write_enc bool.write_enc pubkey.write_enc i64.write_enc u64.write_enc)
  have l: "wlen w = length ?p" using assms(1) by (simp add: length_toBytes)
  show ?thesis
    using w' u64.read_enc [OF assms(2), of ?p "?e2 @ ?e3 @ ?e4 @ ?e5"] i64.read_enc [OF assms(3), of "?p @ ?e1" "?e3 @ ?e4 @ ?e5"]
      pubkey.read_enc [where x = k and pre = "?p @ ?e1 @ ?e2" and post = "?e4 @ ?e5"]
      bool.read_enc [where x = t and pre = "?p @ ?e1 @ ?e2 @ ?e3" and post = ?e5]
      vec_opt_str.read_enc [OF assms(4), of "?p @ ?e1 @ ?e2 @ ?e3 @ ?e4" "[]"]
    by (simp add: l l4 add_ac)
qed

theorem borsh_roundtrip_witness:
  "\<exists>bs. rbind (readU64 \<lparr>rbuf = bs, roffset = 0\<rparr>) (\<lambda>(x1, r).
     rbind (readI64 r) (\<lambda>(x2, r). rbind (readPubkey r) (\<lambda>(x3, r). rbind (readBool r) (\<lambda>(x4, r).
     rbind (readVec (readOption readString) r) (\<lambda>(x5, r). Inr (x1, x2, x3, x4, x5, roffset r))))))
     = Inr (7, -1, key_of 3, True, [Some [0x41, 0x20AC], None], length bs)"
proof -
  have "ok_vec (pred_option ok_string) [Some [0x41, 0x20AC], None]"
    by (simp add: ok_vec_def ok_string_def scalar_def text_encode_def utf8_char_def)
  then show ?thesis
    using borsh_roundtrip [OF _ _ _ _ refl, of new_writer 7 "-1" "[Some [0x41, 0x20AC], None]" "key_of 3" True]
    by (simp add: fits_def fits_i64_def) (auto simp: new_writer_def)
qed

text \<open>
  A string that starts with a byte order mark is not read back: \<open>writeString\<close>
  stores it and \<open>readString\<close>, whose \<open>TextDecoder\<close> drops it, returns the rest.
\<close>

theorem borsh_string_bom:
  "toBytes (writeString new_writer [0xFEFF, 0x41]) = [4, 0, 0, 0, 0xEF, 0xBB, 0xBF, 0x41]
   \<and> map_sum id fst (readString (new_reader [4, 0, 0, 0, 0xEF, 0xBB, 0xBF, 0x41])) = Inr [0x41]"
proof
  have e: "text_encode [0xFEFF, 0x41] = [0xEF, 0xBB, 0xBF, 0x41]"
    by (simp add: text_encode_def to_scalar_def scalar_def utf8_char_def)
  have n: "enc_uint 4 4 = [4, 0, 0, 0]" by (simp add: enc_uint_def le_bytes_numeral)
  have "writer_inv (writeU32 new_writer 4) \<and> toBytes (writeU32 new_writer 4) = [] @ enc_uint 4 4"
    using u32.write_enc [of 4 new_writer] by (simp add: fits_def)
  then show "toBytes (writeString new_writer [0xFEFF, 0x41]) = [4, 0, 0, 0, 0xEF, 0xBB, 0xBF, 0x41]"
    using store_spec [of "writeU32 new_writer 4" "[0xEF, 0xBB, 0xBF, 0x41]"]
    by (simp add: writeString_def e Let_def writeBytes_def n)
  have "readU32 (new_reader [4, 0, 0, 0, 0xEF, 0xBB, 0xBF, 0x41]) =
      Inr (4, \<lparr>rbuf = [4, 0, 0, 0, 0xEF, 0xBB, 0xBF, 0x41], roffset = 4\<rparr>)"
    using u32.read_enc [of 4 "[]" "[0xEF, 0xBB, 0xBF, 0x41]"] by (simp add: fits_def n new_reader_def)
  moreover have "readBytes 4 \<lparr>rbuf = [4, 0, 0, 0, 0xEF, 0xBB, 0xBF, 0x41], roffset = 4\<rparr> =
      Inr ([0xEF, 0xBB, 0xBF, 0x41], \<lparr>rbuf = [4, 0, 0, 0, 0xEF, 0xBB, 0xBF, 0x41], roffset = 8\<rparr>)"
    using readBytes_enc [of "[0xEF, 0xBB, 0xBF, 0x41]" "[4, 0, 0, 0]" "[]"] by (simp add: eval_nat_numeral)
  moreover have "text_decode [0xEF, 0xBB, 0xBF, 0x41] = Some [0x41]"
    by (simp add: text_decode_def cont_def drop_bom_def)
  ultimately show "map_sum id fst (readString (new_reader [4, 0, 0, 0, 0xEF, 0xBB, 0xBF, 0x41])) = Inr [0x41]"
    by (simp add: readString_def)
qed

section \<open>Address lookup tables\<close>

text \<open>
  \<open>decodeAlt\<close> inverts the layout of the file's header comment: every table
  whose numbers fit their fields is read back, whatever the unused authority bytes and the
  padding hold.
\<close>

theorem decodeAlt_reads_layout:
  assumes "fits 8 (deactivationSlot t)" and "fits 8 (lastExtendedSlot t)" and "fits 1 (lastExtendedSlotStartIndex t)"
    and "length unused = 32" and "length padding = 2"
  shows "decodeAlt (alt_layout t unused padding) = Inr t"
  by (rule decodeAlt_layout [OF assms])

theorem decodeAlt_reads_layout_witness:
  "decodeAlt (alt_layout \<lparr>deactivationSlot = 18446744073709551615, lastExtendedSlot = 5,
      lastExtendedSlotStartIndex = 1, authority = Some (key_of 3), addresses = [key_of 1, key_of 2]\<rparr>
      (replicate 32 0) [0, 0])
   = Inr \<lparr>deactivationSlot = 18446744073709551615, lastExtendedSlot = 5, lastExtendedSlotStartIndex = 1,
       authority = Some (key_of 3), addresses = [key_of 1, key_of 2]\<rparr>"
  by (rule decodeAlt_reads_layout) (simp_all add: fits_def)

text \<open>
  \<open>findInstructionsForKeys\<close> returns exactly the tables that hold one of the keys,
  each with the keys it holds in the order asked, by descending number of keys, tables
  with the same number staying in the order given.
\<close>

theorem findInstructionsForKeys_ranking:
  "set (findInstructionsForKeys alts ks) =
      {c. \<exists>alt \<in> set alts. c = coverage_of ks alt \<and> set ks \<inter> set (addresses alt) \<noteq> {}}
   \<and> sorted_wrt (\<lambda>c d. length (covered d) \<le> length (covered c)) (findInstructionsForKeys alts ks)
   \<and> filter (\<lambda>c. length (covered c) = Suc n) (findInstructionsForKeys alts ks) =
      filter (\<lambda>c. length (covered c) = Suc n) (map (coverage_of ks) alts)"
  by (intro conjI set_findInstructionsForKeys sorted_findInstructionsForKeys stable_findInstructionsForKeys)

end
