(* ===== verification/BigInt.thy ===== *)
theory BigInt
  imports Prelude "HOL-Library.Signed_Division"
begin

text \<open>
  Arithmetic on JavaScript \<open>BigInt\<close>s: integers, with \<open>/\<close> truncating towards zero and
  throwing a \<open>RangeError\<close> on a zero divisor.
\<close>

datatype bigint_error = DivisionByZero

definition bigint_div :: "int \<Rightarrow> int \<Rightarrow> bigint_error + int" where
  "bigint_div a b = (if b = 0 then Inl DivisionByZero else Inr (a sdiv b))"

lemma bigint_div_nonneg: "0 \<le> a \<Longrightarrow> 0 < b \<Longrightarrow> bigint_div a b = Inr (a div b)"
  by (cases "a = 0") (simp_all add: bigint_div_def signed_divide_int_def)

lemma div_bounds: "0 < b \<Longrightarrow> a div b * b \<le> a \<and> a < (a div b + 1) * b" for a b :: int
proof -
  assume "0 < b"
  then have "a div b * b + a mod b = a" "a mod b < b" "0 \<le> a mod b" by simp_all
  then show ?thesis unfolding distrib_right mult_1 by linarith
qed

end
