(* ===== verification/BondingCurve.thy ===== *)
theory BondingCurve
  imports BigInt
begin

text \<open>
  The quotes of \<open>packages/pumpfun-protocol/src/curve/math.ts\<close> (the bonding curve) and
  \<open>pumpswap/math.ts\<close> (the constant-product pool). Amounts are \<open>BigInt\<close>s (\<open>BigInt\<close>).
  \<open>feeBasisPoints\<close> is a number; \<open>BigInt\<close> of it is the integer itself.
\<close>

section \<open>The bonding curve\<close>

record curve_reserves =
  virtualSolReserves :: int
  virtualTokenReserves :: int
  realSolReserves :: int
  realTokenReserves :: int

definition SCALE :: int where "SCALE = 1000000000"

definition priceFromReserves :: "curve_reserves \<Rightarrow> bigint_error + int" where
  "priceFromReserves r = bigint_div (virtualSolReserves r * SCALE) (virtualTokenReserves r)"

definition tokensOutForSolIn :: "int \<Rightarrow> curve_reserves \<Rightarrow> int \<Rightarrow> bigint_error + int" where
  "tokensOutForSolIn solIn r feeBasisPoints =
     rbind (bigint_div (solIn * feeBasisPoints) 10000) (\<lambda>fee.
     let solInAfterFee = solIn - fee;
         k = virtualSolReserves r * virtualTokenReserves r;
         newVirtualSol = virtualSolReserves r + solInAfterFee
     in rbind (bigint_div k newVirtualSol) (\<lambda>newVirtualToken.
        Inr (virtualTokenReserves r - newVirtualToken)))"

definition solOutForTokensIn :: "int \<Rightarrow> curve_reserves \<Rightarrow> int \<Rightarrow> bigint_error + int" where
  "solOutForTokensIn tokensIn r feeBasisPoints =
     (let k = virtualSolReserves r * virtualTokenReserves r;
          newVirtualToken = virtualTokenReserves r + tokensIn
      in rbind (bigint_div k newVirtualToken) (\<lambda>newVirtualSol.
         let solOutBeforeFee = virtualSolReserves r - newVirtualSol
         in rbind (bigint_div (solOutBeforeFee * feeBasisPoints) 10000) (\<lambda>fee.
            Inr (solOutBeforeFee - fee))))"

text \<open>\<open>Number\<close> of the result rounds to a double; the model keeps the \<open>BigInt\<close>.\<close>

definition priceImpactBps :: "int \<Rightarrow> curve_reserves \<Rightarrow> bigint_error + int" where
  "priceImpactBps solIn r =
     rbind (priceFromReserves r) (\<lambda>priceBefore.
     let k = virtualSolReserves r * virtualTokenReserves r;
         newVirtualSol = virtualSolReserves r + solIn
     in rbind (bigint_div k newVirtualSol) (\<lambda>newVirtualToken.
        rbind (bigint_div (newVirtualSol * SCALE) newVirtualToken) (\<lambda>priceAfter.
        let delta = priceAfter - priceBefore
        in bigint_div (delta * 10000) priceBefore)))"

section \<open>The pool\<close>

record pumpswap_reserves =
  baseReserves :: int
  quoteReserves :: int

definition ammPrice :: "pumpswap_reserves \<Rightarrow> bigint_error + int" where
  "ammPrice r = bigint_div (quoteReserves r * SCALE) (baseReserves r)"

definition ammTokensOut :: "int \<Rightarrow> pumpswap_reserves \<Rightarrow> int \<Rightarrow> bigint_error + int" where
  "ammTokensOut quoteIn r feeBps =
     rbind (bigint_div (quoteIn * feeBps) 10000) (\<lambda>fee.
     let quoteInAfterFee = quoteIn - fee;
         k = baseReserves r * quoteReserves r;
         newQuote = quoteReserves r + quoteInAfterFee
     in rbind (bigint_div k newQuote) (\<lambda>newBase. Inr (baseReserves r - newBase)))"

definition ammSolOut :: "int \<Rightarrow> pumpswap_reserves \<Rightarrow> int \<Rightarrow> bigint_error + int" where
  "ammSolOut tokensIn r feeBps =
     (let k = baseReserves r * quoteReserves r;
          newBase = baseReserves r + tokensIn
      in rbind (bigint_div k newBase) (\<lambda>newQuote.
         let quoteOutBeforeFee = quoteReserves r - newQuote
         in rbind (bigint_div (quoteOutBeforeFee * feeBps) 10000) (\<lambda>fee.
            Inr (quoteOutBeforeFee - fee))))"

section \<open>One constant-product step\<close>

text \<open>What a deposit \<open>x\<close> takes out of the other side: \<open>y - \<lfloor>x0 y / (x0 + x)\<rfloor>\<close>.\<close>

definition swap_out :: "int \<Rightarrow> int \<Rightarrow> int \<Rightarrow> int" where
  "swap_out x0 y0 dx = y0 - (x0 * y0) div (x0 + dx)"

text \<open>It is the exact quotient rounded up.\<close>

lemma swap_out_ceil:
  assumes "0 < x0" and "0 \<le> dx"
  shows "y0 * dx \<le> swap_out x0 y0 dx * (x0 + dx) \<and> swap_out x0 y0 dx * (x0 + dx) < y0 * dx + (x0 + dx)"
  using div_bounds [of "x0 + dx" "x0 * y0"] assms by (simp add: swap_out_def algebra_simps)

lemma swap_out_bounds:
  assumes "0 < x0" and "0 \<le> y0" and "0 \<le> dx"
  shows "0 \<le> swap_out x0 y0 dx \<and> swap_out x0 y0 dx \<le> y0"
proof -
  have "(x0 * y0) div (x0 + dx) \<le> (x0 * y0) div x0"
    using assms by (intro zdiv_mono2) auto
  then show ?thesis using assms by (simp add: swap_out_def pos_imp_zdiv_nonneg_iff)
qed

lemma swap_out_mono:
  assumes "0 < x0" and "0 \<le> y0" and "0 \<le> dx" and "dx \<le> dx'"
  shows "swap_out x0 y0 dx \<le> swap_out x0 y0 dx'"
  using zdiv_mono2 [of "x0 * y0" "x0 + dx" "x0 + dx'"] assms by (simp add: swap_out_def)

text \<open>A fee in basis points, and what is left.\<close>

definition after_fee :: "int \<Rightarrow> int \<Rightarrow> int" where
  "after_fee x bps = x - x * bps div 10000"

lemma after_fee_bounds:
  assumes "0 \<le> x" and "0 \<le> bps" and "bps \<le> 10000"
  shows "0 \<le> after_fee x bps \<and> after_fee x bps \<le> x"
proof -
  have "x * bps div 10000 \<le> x * 10000 div 10000"
    using assms by (intro zdiv_mono1 mult_left_mono) auto
  then show ?thesis using assms by (simp add: after_fee_def pos_imp_zdiv_nonneg_iff)
qed

lemma after_fee_mono:
  assumes "0 \<le> x" and "x \<le> x'" and "0 \<le> bps" and "bps \<le> 10000"
  shows "after_fee x bps \<le> after_fee x' bps"
proof -
  have "x' * bps \<le> x * bps + (x' - x) * 10000"
    using assms mult_left_mono [of bps 10000 "x' - x"] by (simp add: algebra_simps)
  then have "x' * bps div 10000 \<le> (x * bps + (x' - x) * 10000) div 10000"
    by (rule zdiv_mono1) simp
  then show ?thesis by (simp add: after_fee_def)
qed

lemma after_fee_antimono:
  "0 \<le> x \<Longrightarrow> bps \<le> bps' \<Longrightarrow> after_fee x bps' \<le> after_fee x bps"
  by (simp add: after_fee_def zdiv_mono1 mult_left_mono)

lemma tokensOut_swap:
  assumes "0 < virtualSolReserves r" and "0 \<le> virtualTokenReserves r"
    and "0 \<le> solIn" and "0 \<le> fee" and "fee \<le> 10000"
  shows "tokensOutForSolIn solIn r fee =
    Inr (swap_out (virtualSolReserves r) (virtualTokenReserves r) (after_fee solIn fee))"
  using assms after_fee_bounds [of solIn fee]
  by (simp add: tokensOutForSolIn_def bigint_div_nonneg swap_out_def Let_def flip: after_fee_def)

lemma solOut_swap:
  assumes "0 \<le> virtualSolReserves r" and "0 < virtualTokenReserves r"
    and "0 \<le> tokensIn" and "0 \<le> fee"
  shows "solOutForTokensIn tokensIn r fee =
    Inr (after_fee (swap_out (virtualTokenReserves r) (virtualSolReserves r) tokensIn) fee)"
  using assms swap_out_bounds [of "virtualTokenReserves r" "virtualSolReserves r" tokensIn]
  by (simp add: solOutForTokensIn_def bigint_div_nonneg swap_out_def Let_def mult.commute after_fee_def)


lemma ammTokensOut_curve:
  "ammTokensOut q r fee = tokensOutForSolIn q
     \<lparr>virtualSolReserves = quoteReserves r, virtualTokenReserves = baseReserves r,
      realSolReserves = s, realTokenReserves = t\<rparr> fee"
  unfolding ammTokensOut_def tokensOutForSolIn_def curve_reserves.simps mult.commute [of "baseReserves r"] ..

lemma ammSolOut_curve:
  "ammSolOut b r fee = solOutForTokensIn b
     \<lparr>virtualSolReserves = quoteReserves r, virtualTokenReserves = baseReserves r,
      realSolReserves = s, realTokenReserves = t\<rparr> fee"
  unfolding ammSolOut_def solOutForTokensIn_def curve_reserves.simps mult.commute [of "baseReserves r"] ..

section \<open>Properties\<close>

text \<open>
  C12. The buy quote is the constant-product output rounded up, since the code rounds the tokens that stay in
  the curve down: with positive virtual SOL, for any input and a fee of at most 10000 basis points, it is defined, lies between
  0 and the virtual tokens, and exceeds \<open>vt * x / (vs + x)\<close>, where \<open>x\<close> is the input
  after the fee, by less than one unit and never falls below it.
\<close>

theorem buy_quote_exact:
  assumes "0 < virtualSolReserves r" and "0 \<le> virtualTokenReserves r"
    and "0 \<le> solIn" and "0 \<le> fee" and "fee \<le> 10000"
    and "x = solIn - solIn * fee div 10000"
  shows "\<exists>out. tokensOutForSolIn solIn r fee = Inr out
     \<and> 0 \<le> out \<and> out \<le> virtualTokenReserves r
     \<and> virtualTokenReserves r * x \<le> out * (virtualSolReserves r + x)
     \<and> out * (virtualSolReserves r + x) < virtualTokenReserves r * x + (virtualSolReserves r + x)"
proof -
  have x: "x = after_fee solIn fee" using assms(6) by (simp add: after_fee_def)
  then have "0 \<le> x" using after_fee_bounds assms by simp
  then show ?thesis
    using tokensOut_swap [OF assms(1-5)] swap_out_bounds [OF assms(1,2)] swap_out_ceil [OF assms(1)] by (simp add: x)
qed

theorem buy_quote_exact_witness:
  "\<exists>out. tokensOutForSolIn 1000000000 \<lparr>virtualSolReserves = 30000000000, virtualTokenReserves = 1073000000000000,
        realSolReserves = 0, realTokenReserves = 793100000000000\<rparr> 100 = Inr out
     \<and> 1073000000000000 * 990000000 \<le> out * 30990000000"
  using buy_quote_exact [of "\<lparr>virtualSolReserves = 30000000000, virtualTokenReserves = 1073000000000000,
        realSolReserves = 0, realTokenReserves = 793100000000000\<rparr>" 1000000000 100 990000000] by auto

text \<open>
  More SOL never buys fewer tokens, a higher fee never buys more, and the sell quote
  is monotone in the tokens sold and never exceeds the virtual SOL.
\<close>

theorem quotes_monotone:
  assumes "0 < virtualSolReserves r" and "0 < virtualTokenReserves r"
    and "0 \<le> dx" and "dx \<le> dx'" and "0 \<le> fee" and "fee \<le> fee'" and "fee' \<le> 10000"
  shows "\<exists>a b c d e f. tokensOutForSolIn dx r fee = Inr a \<and> tokensOutForSolIn dx' r fee = Inr b \<and> a \<le> b
     \<and> tokensOutForSolIn dx r fee' = Inr c \<and> c \<le> a
     \<and> solOutForTokensIn dx r fee = Inr d \<and> solOutForTokensIn dx' r fee = Inr e \<and> d \<le> e
     \<and> solOutForTokensIn dx r fee' = Inr f \<and> f \<le> d \<and> e \<le> virtualSolReserves r"
proof -
  let ?vs = "virtualSolReserves r" and ?vt = "virtualTokenReserves r"
  have af: "0 \<le> after_fee dx fee" "after_fee dx fee \<le> after_fee dx' fee" "0 \<le> after_fee dx fee'"
    "after_fee dx fee' \<le> after_fee dx fee"
    using assms after_fee_bounds after_fee_mono after_fee_antimono by auto
  have so: "0 \<le> swap_out ?vt ?vs dx" "swap_out ?vt ?vs dx \<le> swap_out ?vt ?vs dx'" "swap_out ?vt ?vs dx' \<le> ?vs"
    using assms swap_out_bounds [of ?vt ?vs] swap_out_mono [of ?vt ?vs dx dx'] by auto
  have "after_fee (swap_out ?vt ?vs dx') fee \<le> swap_out ?vt ?vs dx'"
    using assms so by (intro conjunct2 [OF after_fee_bounds]) auto
  moreover have "swap_out ?vs ?vt (after_fee dx fee) \<le> swap_out ?vs ?vt (after_fee dx' fee)"
    "swap_out ?vs ?vt (after_fee dx fee') \<le> swap_out ?vs ?vt (after_fee dx fee)"
    using assms af by (auto intro!: swap_out_mono)
  moreover have "after_fee (swap_out ?vt ?vs dx) fee \<le> after_fee (swap_out ?vt ?vs dx') fee"
    "after_fee (swap_out ?vt ?vs dx) fee' \<le> after_fee (swap_out ?vt ?vs dx) fee"
    using assms so by (auto intro!: after_fee_mono after_fee_antimono)
  ultimately show ?thesis
    using assms so by (simp add: tokensOut_swap solOut_swap)
qed

theorem quotes_monotone_witness:
  "\<exists>a b c d e f. tokensOutForSolIn 10 \<lparr>virtualSolReserves = 100, virtualTokenReserves = 1000, realSolReserves = 0, realTokenReserves = 0\<rparr> 100 = Inr a
     \<and> tokensOutForSolIn 20 \<lparr>virtualSolReserves = 100, virtualTokenReserves = 1000, realSolReserves = 0, realTokenReserves = 0\<rparr> 100 = Inr b \<and> a \<le> b
     \<and> tokensOutForSolIn 10 \<lparr>virtualSolReserves = 100, virtualTokenReserves = 1000, realSolReserves = 0, realTokenReserves = 0\<rparr> 500 = Inr c \<and> c \<le> a
     \<and> solOutForTokensIn 10 \<lparr>virtualSolReserves = 100, virtualTokenReserves = 1000, realSolReserves = 0, realTokenReserves = 0\<rparr> 100 = Inr d
     \<and> solOutForTokensIn 20 \<lparr>virtualSolReserves = 100, virtualTokenReserves = 1000, realSolReserves = 0, realTokenReserves = 0\<rparr> 100 = Inr e \<and> d \<le> e
     \<and> solOutForTokensIn 10 \<lparr>virtualSolReserves = 100, virtualTokenReserves = 1000, realSolReserves = 0, realTokenReserves = 0\<rparr> 500 = Inr f \<and> f \<le> d \<and> e \<le> 100"
  using quotes_monotone [of "\<lparr>virtualSolReserves = 100, virtualTokenReserves = 1000, realSolReserves = 0, realTokenReserves = 0\<rparr>" 10 20 100 500] by simp

text \<open>
  Both quotes round in the trader's favour: without a fee, buying with \<open>x\<close> lamports
  and selling the quoted tokens back against the moved reserves is quoted at least \<open>x\<close>
  lamports, because the invariant is rounded down at each step.
\<close>

theorem round_trip_favours_trader:
  assumes "0 < virtualSolReserves r" and "0 < virtualTokenReserves r" and "0 \<le> dx"
    and "tokensOutForSolIn dx r 0 = Inr tok"
    and "tok < virtualTokenReserves r"
    and "solOutForTokensIn tok (r\<lparr>virtualSolReserves := virtualSolReserves r + dx,
           virtualTokenReserves := virtualTokenReserves r - tok\<rparr>) 0 = Inr sol"
  shows "dx \<le> sol"
proof -
  let ?vs = "virtualSolReserves r" and ?vt = "virtualTokenReserves r"
  have af: "after_fee y 0 = y" for y by (simp add: after_fee_def)
  have tok: "tok = swap_out ?vs ?vt dx" using tokensOut_swap [of r dx 0] assms by (simp add: af)
  have "0 \<le> tok" using swap_out_bounds [of ?vs ?vt dx] assms by (simp add: tok)
  then have sol: "sol = swap_out (?vt - tok) (?vs + dx) tok"
    using solOut_swap [of "r\<lparr>virtualSolReserves := ?vs + dx, virtualTokenReserves := ?vt - tok\<rparr>" tok 0] assms
    by (simp add: af)
  have "(?vs * ?vt) div (?vs + dx) * (?vs + dx) \<le> ?vs * ?vt"
    using div_bounds [of "?vs + dx" "?vs * ?vt"] assms by simp
  then have "((?vt - tok) * (?vs + dx)) div ?vt \<le> (?vs * ?vt) div ?vt"
    using assms by (intro zdiv_mono1) (simp_all add: tok swap_out_def)
  then show ?thesis using assms by (simp add: sol swap_out_def)
qed

theorem round_trip_favours_trader_witness:
  "\<exists>tok sol. tokensOutForSolIn 7 \<lparr>virtualSolReserves = 30, virtualTokenReserves = 100, realSolReserves = 0, realTokenReserves = 0\<rparr> 0 = Inr tok
     \<and> solOutForTokensIn tok \<lparr>virtualSolReserves = 37, virtualTokenReserves = 100 - tok, realSolReserves = 0, realTokenReserves = 0\<rparr> 0 = Inr sol
     \<and> (7 :: int) \<le> sol"
proof -
  let ?r = "\<lparr>virtualSolReserves = 30, virtualTokenReserves = 100, realSolReserves = 0, realTokenReserves = 0\<rparr>"
  have t: "tokensOutForSolIn 7 ?r 0 = Inr 19"
    by (simp add: tokensOutForSolIn_def bigint_div_def)
  have s: "solOutForTokensIn 19 (?r\<lparr>virtualSolReserves := virtualSolReserves ?r + 7,
      virtualTokenReserves := virtualTokenReserves ?r - 19\<rparr>) 0 = Inr 8"
    by (simp add: solOutForTokensIn_def bigint_div_def)
  then show ?thesis
    using round_trip_favours_trader [OF _ _ _ t _ s] t by (intro exI [of _ 19] exI [of _ 8]) simp
qed

text \<open>
  The pool's quotes are the curve's with the quote side as SOL and the base side as
  tokens, on every input and fee, the error on a zero divisor included.
\<close>

theorem pool_quotes_are_curve_quotes:
  "ammTokensOut q r fee = tokensOutForSolIn q
     \<lparr>virtualSolReserves = quoteReserves r, virtualTokenReserves = baseReserves r,
      realSolReserves = s, realTokenReserves = t\<rparr> fee
   \<and> ammSolOut q r fee = solOutForTokensIn q
     \<lparr>virtualSolReserves = quoteReserves r, virtualTokenReserves = baseReserves r,
      realSolReserves = s, realTokenReserves = t\<rparr> fee
   \<and> ammPrice r = priceFromReserves
     \<lparr>virtualSolReserves = quoteReserves r, virtualTokenReserves = baseReserves r,
      realSolReserves = s, realTokenReserves = t\<rparr>"
  by (intro conjI ammTokensOut_curve ammSolOut_curve) (simp add: ammPrice_def priceFromReserves_def)

end
