(* ===== verification/Accounting.thy ===== *)
theory Accounting
  imports BigInt
begin

text \<open>
  Cost-basis accounting, \<open>packages/solana-portfolio/src/accounting.ts\<close>: selling an
  amount out of a position's lots, first in first out, last in first out or at average
  cost. Errors are values; a lot of amount 0 makes the divisions throw.
\<close>

datatype lot_source = Trade | Airdrop | TransferIn | ColdStartReconstructed | ColdStartUnresolved

record lot =
  amount :: int
  costBasisLamports :: int
  acquiredSlot :: nat
  acquiredSig :: string
  source :: lot_source
  reconstructedAt :: "nat option"
  basisUnresolved :: bool   \<comment> \<open>\<open>l.basisUnresolved === true\<close>\<close>

datatype accounting_method = FIFO | LIFO | AvgCost

record reduce_result =
  rr_remaining :: "lot list"
  rr_realized :: int
  rr_costBasis :: int
  rr_proceeds :: int
  rr_basisUnresolved :: bool

datatype accounting_error = Insufficient int int | Arith bigint_error

definition arith :: "bigint_error + 'a \<Rightarrow> accounting_error + 'a" where
  "arith m = map_sum Arith id m"

definition sum_amount :: "lot list \<Rightarrow> int" where
  "sum_amount lots = foldl (\<lambda>s l. s + amount l) 0 lots"

definition sum_basis :: "lot list \<Rightarrow> int" where
  "sum_basis lots = foldl (\<lambda>s l. s + costBasisLamports l) 0 lots"

section \<open>Average cost\<close>

definition avg_lot :: "int \<Rightarrow> int \<Rightarrow> lot \<Rightarrow> accounting_error + lot" where
  "avg_lot amt totalAmt l =
     rbind (arith (bigint_div (amount l * amt) totalAmt)) (\<lambda>take.
     if take = 0 then Inr l
     else rbind (arith (bigint_div (costBasisLamports l * take) (amount l))) (\<lambda>basisTaken.
       Inr (l\<lparr>amount := amount l - take, costBasisLamports := costBasisLamports l - basisTaken\<rparr>)))"

definition reduce_avg :: "lot list \<Rightarrow> int \<Rightarrow> int \<Rightarrow> accounting_error + reduce_result" where
  "reduce_avg lots amt proceeds =
     (let totalAmt = sum_amount lots; totalBasis = sum_basis lots
      in if totalAmt = 0
         then Inr \<lparr>rr_remaining = lots, rr_realized = 0, rr_costBasis = 0, rr_proceeds = proceeds, rr_basisUnresolved = False\<rparr>
         else if amt > totalAmt then Inl (Insufficient amt totalAmt)
         else rbind (arith (bigint_div (totalBasis * amt) totalAmt)) (\<lambda>avgBasis.
              rbind (rmap (avg_lot amt totalAmt) lots) (\<lambda>reduced.
              Inr \<lparr>rr_remaining = filter (\<lambda>l. amount l > 0) reduced, rr_realized = proceeds - avgBasis,
                   rr_costBasis = avgBasis, rr_proceeds = proceeds,
                   rr_basisUnresolved = list_ex basisUnresolved lots\<rparr>)))"

section \<open>First in first out, last in first out\<close>

text \<open>The variables of the loop over the ordered lots.\<close>

record walk =
  toTake :: int
  w_costBasis :: int
  allocatedProceeds :: int
  w_unresolved :: bool
  w_out :: "lot list"

definition walk_lot :: "int \<Rightarrow> int \<Rightarrow> walk \<Rightarrow> lot \<Rightarrow> accounting_error + walk" where
  "walk_lot amt proceeds w l =
     (if toTake w = 0 then Inr (w\<lparr>w_out := w_out w @ [l]\<rparr>)
      else let tokensTaken = (if amount l \<le> toTake w then amount l else toTake w)
           in rbind (arith (bigint_div (costBasisLamports l * tokensTaken) (amount l))) (\<lambda>partialBasis.
              let denom = (if amount l > amt then amount l else amt)
              in rbind (arith (bigint_div (proceeds * tokensTaken) denom)) (\<lambda>lotProceeds.
                 Inr \<lparr>toTake = toTake w - tokensTaken, w_costBasis = w_costBasis w + partialBasis,
                      allocatedProceeds = allocatedProceeds w + lotProceeds,
                      w_unresolved = (w_unresolved w \<or> basisUnresolved l),
                      w_out = (if tokensTaken < amount l
                               then w_out w @ [l\<lparr>amount := amount l - tokensTaken,
                                                costBasisLamports := costBasisLamports l - partialBasis\<rparr>]
                               else w_out w)\<rparr>)))"

fun walk_lots :: "int \<Rightarrow> int \<Rightarrow> walk \<Rightarrow> lot list \<Rightarrow> accounting_error + walk" where
  "walk_lots amt proceeds w [] = Inr w"
| "walk_lots amt proceeds w (l # ls) = rbind (walk_lot amt proceeds w l) (\<lambda>w. walk_lots amt proceeds w ls)"

definition reduce_ordered :: "lot list \<Rightarrow> int \<Rightarrow> int \<Rightarrow> accounting_method \<Rightarrow> accounting_error + reduce_result" where
  "reduce_ordered lots amt proceeds m =
     (let ordered = (if m = FIFO then lots else rev lots)
      in rbind (walk_lots amt proceeds \<lparr>toTake = amt, w_costBasis = 0, allocatedProceeds = 0,
                  w_unresolved = False, w_out = []\<rparr> ordered) (\<lambda>w.
         if toTake w > 0 then Inl (Insufficient amt (amt - toTake w))
         else Inr \<lparr>rr_remaining = (if m = FIFO then w_out w else rev (w_out w)),
                   rr_realized = allocatedProceeds w - w_costBasis w, rr_costBasis = w_costBasis w,
                   rr_proceeds = proceeds, rr_basisUnresolved = w_unresolved w\<rparr>))"

definition reduceLots :: "lot list \<Rightarrow> int \<Rightarrow> int \<Rightarrow> accounting_method \<Rightarrow> accounting_error + reduce_result" where
  "reduceLots lots amt proceeds m =
     (if amt \<le> 0
      then Inr \<lparr>rr_remaining = lots, rr_realized = 0, rr_costBasis = 0, rr_proceeds = proceeds, rr_basisUnresolved = False\<rparr>
      else if m = AvgCost then reduce_avg lots amt proceeds
      else reduce_ordered lots amt proceeds m)"

definition PRICE_SCALE :: int where "PRICE_SCALE = 1000000000"

definition unrealizedPnl :: "lot list \<Rightarrow> int \<Rightarrow> bigint_error + int" where
  "unrealizedPnl lots currentPrice =
     rbind (bigint_div (sum_amount lots * currentPrice) PRICE_SCALE) (\<lambda>v. Inr (v - sum_basis lots))"

section \<open>Sums and the walk\<close>

lemma foldl_sum: "foldl (\<lambda>s x. s + f x) a xs = a + sum_list (map f xs)" for a :: int
  by (induction xs arbitrary: a) auto

lemma sum_amount_list: "sum_amount lots = sum_list (map amount lots)"
  by (simp add: sum_amount_def foldl_sum)

lemma sum_basis_list: "sum_basis lots = sum_list (map costBasisLamports lots)"
  by (simp add: sum_basis_def foldl_sum)

lemma arith_Inr [simp]: "arith (Inr x) = Inr x"
  by (simp add: arith_def)

definition positive :: "lot list \<Rightarrow> bool" where
  "positive lots \<longleftrightarrow> (\<forall>l \<in> set lots. amount l > 0)"

lemma positive_simps [simp]:
  "positive []" "positive (l # ls) \<longleftrightarrow> amount l > 0 \<and> positive ls" "positive (ls @ ls') \<longleftrightarrow> positive ls \<and> positive ls'"
  "positive (rev ls) \<longleftrightarrow> positive ls"
  by (auto simp: positive_def)

lemma sum_positive: "positive ls \<Longrightarrow> 0 \<le> sum_amount ls"
  by (induction ls) (auto simp: sum_amount_list)

text \<open>One lot: nothing is lost between what is taken and what stays.\<close>

lemma walk_lot_ok:
  assumes "amount l > 0" and "0 < amt" and "0 \<le> toTake w" and "positive (w_out w)"
  obtains w' where "walk_lot amt proceeds w l = Inr w'"
    and "toTake w' = max 0 (toTake w - amount l)" and "positive (w_out w')"
    and "sum_amount (w_out w') - toTake w' = sum_amount (w_out w) + amount l - toTake w"
    and "sum_basis (w_out w') + w_costBasis w' = sum_basis (w_out w) + w_costBasis w + costBasisLamports l"
proof -
  have z: "x * y sdiv y = x" if "0 < y" for x y :: int
    using that by (simp add: signed_divide_int_def abs_mult sgn_mult mult.assoc sgn_mult_abs)
  show thesis
    using assms that [of "projr (walk_lot amt proceeds w l)"]
    by (auto simp: walk_lot_def bigint_div_def Let_def sum_amount_list sum_basis_list z)
qed


lemma walk_lots_ok:
  assumes "positive ls" and "0 < amt" and "0 \<le> toTake w" and "positive (w_out w)"
  shows "\<exists>w'. walk_lots amt proceeds w ls = Inr w' \<and> toTake w' = max 0 (toTake w - sum_amount ls) \<and> positive (w_out w')
    \<and> sum_amount (w_out w') - toTake w' = sum_amount (w_out w) + sum_amount ls - toTake w
    \<and> sum_basis (w_out w') + w_costBasis w' = sum_basis (w_out w) + w_costBasis w + sum_basis ls"
  using assms
proof (induction ls arbitrary: w)
  case Nil
  then show ?case by (simp add: sum_amount_list sum_basis_list)
next
  case (Cons l ls)
  obtain w1 where w1: "walk_lot amt proceeds w l = Inr w1"
    "toTake w1 = max 0 (toTake w - amount l)" "positive (w_out w1)"
    "sum_amount (w_out w1) - toTake w1 = sum_amount (w_out w) + amount l - toTake w"
    "sum_basis (w_out w1) + w_costBasis w1 = sum_basis (w_out w) + w_costBasis w + costBasisLamports l"
    using walk_lot_ok [of l amt w proceeds] Cons.prems by auto
  obtain w2 where w2: "walk_lots amt proceeds w1 ls = Inr w2"
    "toTake w2 = max 0 (toTake w1 - sum_amount ls)" "positive (w_out w2)"
    "sum_amount (w_out w2) - toTake w2 = sum_amount (w_out w1) + sum_amount ls - toTake w1"
    "sum_basis (w_out w2) + w_costBasis w2 = sum_basis (w_out w1) + w_costBasis w1 + sum_basis ls"
    using Cons.IH [of w1] Cons.prems w1 by auto
  have "0 \<le> sum_amount ls" using Cons.prems by (simp add: sum_positive)
  then show ?case
    using w1 w2 by (intro exI [of _ w2]) (auto simp: sum_amount_list sum_basis_list max_def)
qed

text \<open>What stays, as a function of the lots alone.\<close>

fun consume :: "int \<Rightarrow> lot list \<Rightarrow> lot list" where
  "consume t [] = []"
| "consume t (l # ls) =
     (if t \<le> 0 then l # ls
      else if amount l \<le> t then consume (t - amount l) ls
      else l\<lparr>amount := amount l - t,
             costBasisLamports := costBasisLamports l - (costBasisLamports l * t) sdiv amount l\<rparr> # ls)"

lemma walk_lots_out:
  assumes "walk_lots amt proceeds w ls = Inr w'" and "positive ls" and "0 < amt" and "0 \<le> toTake w"
  shows "w_out w' = w_out w @ consume (toTake w) ls"
  using assms
proof (induction ls arbitrary: w)
  case (Cons l ls)
  obtain w1 where w1: "walk_lot amt proceeds w l = Inr w1" "walk_lots amt proceeds w1 ls = Inr w'"
    using Cons.prems by (auto simp: result_simps)
  have idle: "walk_lots amt proceeds v xs = Inr v' \<Longrightarrow> toTake v = 0 \<Longrightarrow> w_out v' = w_out v @ xs" for v v' xs
    by (induction xs arbitrary: v) (auto simp: walk_lot_def)
  have "0 \<le> toTake w1"
    using w1(1) Cons.prems by (auto simp: walk_lot_def Let_def result_simps split: if_splits)
  then have IH: "w_out w' = w_out w1 @ consume (toTake w1) ls"
    using Cons.IH [OF w1(2)] Cons.prems by simp
  show ?case
  proof (cases "0 < toTake w \<and> toTake w < amount l")
    case True
    then have "toTake w1 = 0" using w1(1) by (auto simp: walk_lot_def Let_def result_simps split: if_splits)
    then show ?thesis
      using True idle [OF w1(2)] w1(1) by (auto simp: walk_lot_def Let_def result_simps bigint_div_def arith_def split: if_splits)
  next
    case False
    have c0: "consume 0 xs = xs" for xs by (cases xs) auto
    show ?thesis
      using False IH w1(1) Cons.prems by (auto simp: walk_lot_def Let_def result_simps c0 split: if_splits)
  qed
qed simp

lemma ordered_sale:
  assumes "positive lots" and "0 < amt" and "amt \<le> sum_amount lots" and "m \<noteq> AvgCost"
  shows "\<exists>r. reduceLots lots amt proceeds m = Inr r
     \<and> positive (rr_remaining r)
     \<and> sum_amount (rr_remaining r) = sum_amount lots - amt
     \<and> sum_basis (rr_remaining r) + rr_costBasis r = sum_basis lots
     \<and> rr_remaining r = (if m = FIFO then consume amt lots else rev (consume amt (rev lots)))"
proof -
  let ?ls = "if m = FIFO then lots else rev lots"
  let ?w0 = "\<lparr>toTake = amt, w_costBasis = 0, allocatedProceeds = 0, w_unresolved = False, w_out = []\<rparr>"
  have sums: "sum_amount ?ls = sum_amount lots" "sum_basis ?ls = sum_basis lots"
    by (simp_all add: sum_amount_list sum_basis_list rev_map [symmetric])
  have pos: "positive ?ls" using assms(1) by simp
  have nil: "sum_amount [] = 0" "sum_basis [] = 0" by (simp_all add: sum_amount_def sum_basis_def)
  obtain w where w: "walk_lots amt proceeds ?w0 ?ls = Inr w" "toTake w = max 0 (amt - sum_amount lots)"
    "positive (w_out w)" "sum_amount (w_out w) - toTake w = sum_amount lots - amt"
    "sum_basis (w_out w) + w_costBasis w = sum_basis lots"
    using walk_lots_ok [OF pos assms(2), of ?w0 proceeds] assms(2) by (auto simp: sums nil)
  have out: "w_out w = consume amt ?ls"
    using walk_lots_out [OF w(1)] assms(1,2) by simp
  have rev: "sum_amount (rev xs) = sum_amount xs" "sum_basis (rev xs) = sum_basis xs" for xs
    by (simp_all add: sum_amount_list sum_basis_list rev_map [symmetric])
  have "toTake w = 0" using w(2) assms(3) by simp
  then show ?thesis
    using assms w(1,3-5) out
    by (auto simp: reduceLots_def reduce_ordered_def Let_def rev)
qed

section \<open>Properties\<close>

text \<open>
  First-in-first-out and last-in-first-out sales conserve the position: with lots of
  positive amounts and an amount between 1 and their total, the sale succeeds, what
  remains is the total less the amount, in lots of positive amounts, the cost basis
  reported as sold and the basis of what remains add up to the basis before, and
  the lots kept are those left when the sale consumes the lots oldest first (newest
  first), the last one touched in part.
\<close>

theorem ordered_sale_conserves:
  assumes "positive lots" and "0 < amt" and "amt \<le> sum_amount lots" and "m \<noteq> AvgCost"
  shows "\<exists>r. reduceLots lots amt proceeds m = Inr r
     \<and> positive (rr_remaining r)
     \<and> sum_amount (rr_remaining r) = sum_amount lots - amt
     \<and> sum_basis (rr_remaining r) + rr_costBasis r = sum_basis lots
     \<and> rr_remaining r = (if m = FIFO then consume amt lots else rev (consume amt (rev lots)))"
  by (rule ordered_sale[OF assms])

definition sample_lots :: "lot list" where
  "sample_lots = [\<lparr>amount = 100, costBasisLamports = 1000, acquiredSlot = 1, acquiredSig = ''a'', source = Trade,
       reconstructedAt = None, basisUnresolved = False\<rparr>,
     \<lparr>amount = 60, costBasisLamports = 900, acquiredSlot = 2, acquiredSig = ''b'', source = Trade,
       reconstructedAt = None, basisUnresolved = False\<rparr>]"

theorem ordered_sale_conserves_witness:
  "\<exists>r. reduceLots sample_lots 130 5000 LIFO = Inr r \<and> sum_amount (rr_remaining r) = 30
     \<and> sum_basis (rr_remaining r) + rr_costBasis r = 1900"
  using ordered_sale_conserves [of sample_lots 130 LIFO 5000]
  by (auto simp: sample_lots_def sum_amount_list sum_basis_list)

text \<open>
  A sale of more than is held is refused, under every method, with the amount asked
  and the amount available; an amount of zero or less changes nothing.
\<close>

theorem oversale_refused:
  assumes "positive lots" and "sum_amount lots < amt"
  shows "reduceLots lots amt proceeds m =
      (if m = AvgCost \<and> lots = []
       then Inr \<lparr>rr_remaining = [], rr_realized = 0, rr_costBasis = 0, rr_proceeds = proceeds, rr_basisUnresolved = False\<rparr>
       else Inl (Insufficient amt (sum_amount lots)))"
proof -
  have nn: "0 \<le> sum_amount lots" using assms(1) by (rule sum_positive)
  show ?thesis
  proof (cases "m = AvgCost")
    case True
    have "sum_amount lots = 0 \<longleftrightarrow> lots = []"
    proof (cases lots)
      case (Cons l ls)
      then have "0 \<le> sum_amount ls" "0 < amount l" using assms(1) by (auto intro: sum_positive)
      then show ?thesis by (simp add: Cons sum_amount_list)
    qed (simp add: sum_amount_def)
    then show ?thesis
      using True assms nn by (auto simp: reduceLots_def reduce_avg_def Let_def)
  next
    case False
    let ?ls = "if m = FIFO then lots else rev lots"
    let ?w0 = "\<lparr>toTake = amt, w_costBasis = 0, allocatedProceeds = 0, w_unresolved = False, w_out = []\<rparr>"
    have pos: "positive ?ls" using assms(1) by simp
    have "sum_amount ?ls = sum_amount lots" by (simp add: sum_amount_list rev_map [symmetric])
    then obtain w where "walk_lots amt proceeds ?w0 ?ls = Inr w" "toTake w = max 0 (amt - sum_amount lots)"
      using walk_lots_ok [OF pos, of amt ?w0 proceeds] assms nn by auto
    then show ?thesis
      using False assms nn by (auto simp: reduceLots_def reduce_ordered_def Let_def)
  qed
qed

theorem oversale_refused_witness:
  "reduceLots sample_lots 161 5000 FIFO = Inl (Insufficient 161 160)"
  using oversale_refused [of sample_lots 161 5000 FIFO] by (simp add: sample_lots_def sum_amount_list)

text \<open>
  Selling part of one lot first in first out under-reports the gain: the proceeds are
  scaled by the share of the lot sold although they are those of the sold tokens alone.
  For one lot larger than the sale the realized amount is short of the one at average
  cost by the unsold share of the proceeds; half of a lot bought for 1000 and sold for 1000
  is reported as no gain instead of 500.
\<close>

theorem partial_sale_underreports:
  assumes "0 < amt" and "amt < amount l" and "0 \<le> proceeds" and "m \<noteq> AvgCost"
  shows "\<exists>a b. reduceLots [l] amt proceeds m = Inr a \<and> reduceLots [l] amt proceeds AvgCost = Inr b
     \<and> rr_costBasis a = rr_costBasis b
     \<and> rr_realized b - rr_realized a = proceeds - proceeds * amt div amount l
     \<and> (0 < proceeds \<longrightarrow> rr_realized a < rr_realized b)"
proof -
  have "proceeds * amt < proceeds * amount l" if "0 < proceeds" using that assms by simp
  then have "proceeds * amt div amount l < proceeds" if "0 < proceeds"
    using that assms div_bounds [of "amount l" "proceeds * amt"]
    by (smt (verit, best) mult_less_cancel_right_pos)
  moreover have "amount l * amt sdiv amount l = amt"
    using assms by (simp add: signed_divide_int_def abs_mult sgn_mult)
  ultimately show ?thesis
    using assms bigint_div_nonneg [of "proceeds * amt" "amount l"]
    by (auto simp: reduceLots_def reduce_ordered_def reduce_avg_def walk_lot_def avg_lot_def Let_def bigint_div_def sum_amount_def sum_basis_def)
qed

theorem partial_sale_underreports_witness:
  "\<exists>a b. reduceLots [hd sample_lots] 50 1000 FIFO = Inr a \<and> reduceLots [hd sample_lots] 50 1000 AvgCost = Inr b
     \<and> rr_costBasis a = rr_costBasis b \<and> rr_realized b - rr_realized a = 500"
  using partial_sale_underreports [of 50 "hd sample_lots" 1000 FIFO] by (auto simp: sample_lots_def)

text \<open>
  Average cost does not conserve the position: every lot gives up its share rounded
  down, so the lots can keep tokens that were sold. Two lots of one token each still hold
  two tokens after one is sold.
\<close>

theorem avg_cost_keeps_sold_tokens:
  "\<exists>r. reduceLots [(hd sample_lots)\<lparr>amount := 1\<rparr>, (hd sample_lots)\<lparr>amount := 1\<rparr>] 1 500 AvgCost = Inr r
     \<and> sum_amount (rr_remaining r) = 2 \<and> rr_costBasis r = 1000"
  by (simp add: reduceLots_def reduce_avg_def avg_lot_def bigint_div_def sum_amount_def sum_basis_def sample_lots_def Let_def
      signed_divide_int_def)

end
