(* ===== verification/HealthState.thy ===== *)
theory HealthState
  imports Prelude
begin

text \<open>
  The per-endpoint health machine, \<open>packages/solana-connectivity/src/health-state.ts\<close>.
  The clock is a parameter of the operations that read it (milliseconds).
\<close>

datatype health_name = Healthy | Degraded | Unhealthy

record health =
  consecutiveErrors :: nat
  h_state :: health_name
  cooldownMs :: int
  probeAt :: int

definition DEGRADE_THRESHOLD :: nat where "DEGRADE_THRESHOLD = 5"
definition UNHEALTHY_THRESHOLD :: nat where "UNHEALTHY_THRESHOLD = 10"
definition PROBE_COOLDOWN_MS :: int where "PROBE_COOLDOWN_MS = 5000"
definition MAX_PROBE_COOLDOWN_MS :: int where "MAX_PROBE_COOLDOWN_MS = 60000"

lemmas health_constants = DEGRADE_THRESHOLD_def UNHEALTHY_THRESHOLD_def PROBE_COOLDOWN_MS_def MAX_PROBE_COOLDOWN_MS_def

definition new_health :: health where
  "new_health = \<lparr>consecutiveErrors = 0, h_state = Healthy, cooldownMs = PROBE_COOLDOWN_MS, probeAt = 0\<rparr>"

definition recordSuccess :: "health \<Rightarrow> health" where
  "recordSuccess h = h\<lparr>consecutiveErrors := 0, h_state := Healthy, cooldownMs := PROBE_COOLDOWN_MS\<rparr>"

definition recordError :: "int \<Rightarrow> health \<Rightarrow> health" where
  "recordError now h =
     (let h = h\<lparr>consecutiveErrors := consecutiveErrors h + 1\<rparr>
      in if consecutiveErrors h \<ge> UNHEALTHY_THRESHOLD
         then let h = (if h_state h = Unhealthy
                       then h\<lparr>cooldownMs := min (cooldownMs h * 2) MAX_PROBE_COOLDOWN_MS\<rparr> else h)
              in h\<lparr>probeAt := now + cooldownMs h, h_state := Unhealthy\<rparr>
         else if consecutiveErrors h \<ge> DEGRADE_THRESHOLD then h\<lparr>h_state := Degraded\<rparr>
         else h)"

definition recordRateLimit :: "health \<Rightarrow> health" where
  "recordRateLimit h =
     (let h = h\<lparr>consecutiveErrors := consecutiveErrors h + 1\<rparr>
      in if h_state h = Healthy \<and> consecutiveErrors h \<ge> DEGRADE_THRESHOLD then h\<lparr>h_state := Degraded\<rparr> else h)"

definition takeProbe :: "int \<Rightarrow> health \<Rightarrow> bool \<times> health" where
  "takeProbe now h =
     (if h_state h \<noteq> Unhealthy \<or> now < probeAt h then (False, h)
      else (True, h\<lparr>probeAt := now + cooldownMs h\<rparr>))"

section \<open>Steps\<close>

datatype health_event = Succeeded | Failed int | RateLimited | Probed int

inductive health_step :: "health \<Rightarrow> health_event \<Rightarrow> health \<Rightarrow> bool" where
  success: "health_step h Succeeded (recordSuccess h)"
| failure: "health_step h (Failed now) (recordError now h)"
| rate_limit: "health_step h RateLimited (recordRateLimit h)"
| probe: "takeProbe now h = (True, h') \<Longrightarrow> health_step h (Probed now) h'"

inductive_cases health_step_cases: "health_step h e h'"

inductive health_run :: "health_event list \<Rightarrow> health \<Rightarrow> bool" where
  start: "health_run [] new_health"
| step: "health_run es h \<Longrightarrow> health_step h e h' \<Longrightarrow> health_run (es @ [e]) h'"

section \<open>The invariant\<close>

definition health_inv :: "health \<Rightarrow> bool" where
  "health_inv h \<longleftrightarrow>
     (case h_state h of
        Healthy \<Rightarrow> consecutiveErrors h < DEGRADE_THRESHOLD
      | Degraded \<Rightarrow> DEGRADE_THRESHOLD \<le> consecutiveErrors h
      | Unhealthy \<Rightarrow> UNHEALTHY_THRESHOLD \<le> consecutiveErrors h)
     \<and> PROBE_COOLDOWN_MS \<le> cooldownMs h \<and> cooldownMs h \<le> MAX_PROBE_COOLDOWN_MS
     \<and> (h_state h \<noteq> Unhealthy \<longrightarrow> cooldownMs h = PROBE_COOLDOWN_MS)"

lemma health_inv_new: "health_inv new_health"
  by (simp add: health_inv_def new_health_def health_constants)

lemma health_inv_success: "health_inv h \<Longrightarrow> health_inv (recordSuccess h)"
  by (simp add: health_inv_def recordSuccess_def health_constants)

lemma health_inv_error: "health_inv h \<Longrightarrow> health_inv (recordError now h)"
  by (cases "h_state h") (auto simp: health_inv_def recordError_def health_constants Let_def)

lemma health_inv_rate_limit: "health_inv h \<Longrightarrow> health_inv (recordRateLimit h)"
  by (cases "h_state h") (auto simp: health_inv_def recordRateLimit_def health_constants Let_def)

lemma health_inv_probe: "health_inv h \<Longrightarrow> takeProbe now h = (b, h') \<Longrightarrow> health_inv h'"
  by (auto simp: health_inv_def takeProbe_def split: if_splits health_name.splits)

lemma health_inv_step: "health_step h e h' \<Longrightarrow> health_inv h \<Longrightarrow> health_inv h'"
  by (erule health_step_cases)
    (auto intro: health_inv_success health_inv_error health_inv_rate_limit health_inv_probe)

lemma health_inv_run: "health_run es h \<Longrightarrow> health_inv h"
  by (induction rule: health_run.induct) (auto intro: health_inv_new health_inv_step)

section \<open>What the state says of the history\<close>

text \<open>The errors and rate limits since the last success, newest first.\<close>

fun streak :: "health_event list \<Rightarrow> health_event list" where
  "streak [] = []"
| "streak (Succeeded # es) = []"
| "streak (Probed _ # es) = streak es"
| "streak (e # es) = e # streak es"

text \<open>
  Unhealthy as soon as an error other than a rate limit is at least the tenth of the
  streak; otherwise degraded from the fifth event on.
\<close>

fun hard_tenth :: "health_event list \<Rightarrow> bool" where
  "hard_tenth [] = False"
| "hard_tenth (e # es) = ((\<exists>now. e = Failed now) \<and> length es \<ge> 9 \<or> hard_tenth es)"

definition state_of :: "health_event list \<Rightarrow> health_name" where
  "state_of s = (if hard_tenth s then Unhealthy else if length s \<ge> 5 then Degraded else Healthy)"

lemma streak_cons: "streak (e # es) =
    (case e of Succeeded \<Rightarrow> [] | Probed _ \<Rightarrow> streak es | _ \<Rightarrow> e # streak es)"
  by (cases e) auto

lemma hard_tenth_length: "hard_tenth s \<Longrightarrow> 10 \<le> length s"
  by (induction s) auto

lemma health_run_streak:
  "health_run es h \<Longrightarrow> consecutiveErrors h = length (streak (rev es)) \<and> h_state h = state_of (streak (rev es))"
proof (induction rule: health_run.induct)
  case start
  then show ?case by (simp add: new_health_def state_of_def)
next
  case (step es h e h')
  have ht: "hard_tenth s \<Longrightarrow> 10 \<le> length s" for s by (rule hard_tenth_length)
  from step(2) show ?case
  proof (cases rule: health_step.cases)
    case success
    then show ?thesis by (simp add: recordSuccess_def state_of_def)
  next
    case (failure now)
    then show ?thesis
      using step.IH ht [of "streak (rev es)"]
      by (auto simp: recordError_def Let_def state_of_def health_constants)
  next
    case rate_limit
    then show ?thesis
      using step.IH ht [of "streak (rev es)"]
      by (auto simp: recordRateLimit_def Let_def state_of_def health_constants split: if_splits)
  next
    case (probe now)
    then show ?thesis
      using step.IH by (auto simp: takeProbe_def state_of_def split: if_splits)
  qed
qed

section \<open>Properties\<close>

text \<open>
  In every reachable state the name of the state is a function of the streak since the
  last success: unhealthy once an error that is not a rate limit was its tenth event or a
  later one, otherwise degraded from its fifth event on, otherwise healthy. A success
  makes any endpoint healthy, and rate limits alone never make one unhealthy.
\<close>

theorem health_tracks_streak:
  assumes "health_run es h"
  shows "h_state h = state_of (streak (rev es))
     \<and> consecutiveErrors h = length (streak (rev es))
     \<and> h_state (recordSuccess h) = Healthy
     \<and> (h_state (recordRateLimit h) = Unhealthy \<longleftrightarrow> h_state h = Unhealthy)"
  using health_run_streak [OF assms]
  by (auto simp: recordSuccess_def recordRateLimit_def Let_def)

fun run_events :: "health_event list \<Rightarrow> health \<Rightarrow> health" where
  "run_events [] h = h"
| "run_events (Succeeded # es) h = run_events es (recordSuccess h)"
| "run_events (Failed now # es) h = run_events es (recordError now h)"
| "run_events (RateLimited # es) h = run_events es (recordRateLimit h)"
| "run_events (Probed now # es) h = run_events es (snd (takeProbe now h))"

lemma health_run_append:
  assumes "health_run es0 h" and "\<forall>e \<in> set es. \<forall>now. e \<noteq> Probed now"
  shows "health_run (es0 @ es) (run_events es h)"
  using assms
proof (induction es h arbitrary: es0 rule: run_events.induct)
  case (2 es h)
  then show ?case using 2(1) [OF health_run.step [OF 2(2) health_step.success]] by simp
next
  case (3 now es h)
  then show ?case using 3(1) [OF health_run.step [OF 3(2) health_step.failure]] by simp
next
  case (4 es h)
  then show ?case using 4(1) [OF health_run.step [OF 4(2) health_step.rate_limit]] by simp
qed auto

theorem health_tracks_streak_witness:
  "h_state (run_events (Failed 1 # replicate 9 RateLimited @ [Failed 2]) new_health)
     = state_of (Failed 2 # replicate 9 RateLimited @ [Failed 1])"
proof -
  let ?es = "Failed 1 # replicate 9 RateLimited @ [Failed 2]"
  have "health_run ([] @ ?es) (run_events ?es new_health)"
    by (rule health_run_append [OF health_run.start]) auto
  note health_tracks_streak [OF this]
  then show ?thesis by (simp add: numeral_eq_Suc)
qed

text \<open>
  Probing an unhealthy endpoint: while a probe is claimed or an error was just recorded
  at time \<open>now\<close>, no probe is granted before the cooldown has passed, one is granted once
  it has, which is at most a minute later; so an endpoint is probed again and again,
  never twice within a cooldown. Cooldowns stay between 5 and 60 seconds.
\<close>

theorem probe_spacing:
  assumes "health_run es h" and "h_state h = Unhealthy"
    and "h' = recordError now h \<or> takeProbe now h = (True, h')"
  shows "PROBE_COOLDOWN_MS \<le> cooldownMs h' \<and> cooldownMs h' \<le> MAX_PROBE_COOLDOWN_MS
     \<and> (fst (takeProbe t h') \<longleftrightarrow> now + cooldownMs h' \<le> t)
     \<and> fst (takeProbe (now + MAX_PROBE_COOLDOWN_MS) h')
     \<and> cooldownMs h' = (if h' = recordError now h then min (2 * cooldownMs h) 60000 else cooldownMs h)"
proof -
  note inv = health_inv_run [OF assms(1)]
  have h': "h_state h' = Unhealthy \<and> probeAt h' = now + cooldownMs h' \<and>
      (h' = recordError now h \<and> cooldownMs h' = min (2 * cooldownMs h) 60000
       \<or> h' \<noteq> recordError now h \<and> cooldownMs h' = cooldownMs h)"
  proof (cases "h' = recordError now h")
    case True
    then show ?thesis
      using inv assms(2) by (simp add: recordError_def Let_def health_inv_def health_constants)
  next
    case False
    then show ?thesis
      using assms(2,3) by (auto simp: takeProbe_def split: if_splits)
  qed
  then show ?thesis
    using inv assms(2) by (auto simp: takeProbe_def health_inv_def health_constants)
qed

theorem probe_spacing_witness:
  "let h = run_events (replicate 10 (Failed 100)) new_health; h' = recordError 5100 h
   in cooldownMs h' = 10000 \<and> \<not> fst (takeProbe 15099 h') \<and> fst (takeProbe 15100 h')"
proof -
  let ?es = "replicate 10 (Failed 100)" and ?h = "run_events (replicate 10 (Failed 100)) new_health"
  have run: "health_run ([] @ ?es) ?h"
    by (rule health_run_append [OF health_run.start]) auto
  have h: "h_state ?h = Unhealthy \<and> cooldownMs ?h = 5000"
    by (simp add: numeral_eq_Suc new_health_def recordError_def DEGRADE_THRESHOLD_def UNHEALTHY_THRESHOLD_def PROBE_COOLDOWN_MS_def)
  show ?thesis
    using probe_spacing [OF run, of "recordError 5100 ?h" 5100 15099] probe_spacing [OF run, of "recordError 5100 ?h" 5100 15100] h
    by (simp add: Let_def)
qed

end
