(* ===== verification/RpcPool.thy ===== *)
theory RpcPool
  imports HealthState
begin

text \<open>
  \<open>packages/solana-connectivity/src/latency-tracker.ts\<close> and \<open>rpc-pool.ts\<close>: the latency
  average, endpoint selection and the retrying call. The type \<open>'n\<close> stands for numbers
  of milliseconds (doubles) and \<open>blend\<close> for the double arithmetic
  \<open>ALPHA * new + (1 - ALPHA) * old\<close>. What the outside answers is the environment: the reply
  of the HTTP client to each request and the clock readings of each attempt.
\<close>

section \<open>Latency\<close>

record 'n tracker =
  t_ewma :: "'n option"
  t_samples :: nat

definition WINDOW :: nat where "WINDOW = 50"

definition new_tracker :: "'n tracker" where
  "new_tracker = \<lparr>t_ewma = None, t_samples = 0\<rparr>"

definition record_latency :: "('n \<Rightarrow> 'n \<Rightarrow> 'n) \<Rightarrow> 'n \<Rightarrow> 'n tracker \<Rightarrow> 'n tracker" where
  "record_latency blend latencyMs t =
     \<lparr>t_ewma = Some (case t_ewma t of None \<Rightarrow> latencyMs | Some e \<Rightarrow> blend latencyMs e),
      t_samples = min (t_samples t + 1) WINDOW\<rparr>"

text \<open>\<open>ewma() ?? Infinity\<close>, compared: no sample is above every number.\<close>

definition ewma_le :: "('n :: linorder) tracker \<Rightarrow> 'n tracker \<Rightarrow> bool" where
  "ewma_le a b = (case t_ewma b of None \<Rightarrow> True
                  | Some y \<Rightarrow> (case t_ewma a of None \<Rightarrow> False | Some x \<Rightarrow> x \<le> y))"

section \<open>The pool\<close>

record 'n endpoint_state =
  es_name :: string
  es_tracker :: "'n tracker"
  es_health :: health

record 'n metric_event =
  me_endpoint :: string
  me_healthState :: health_name
  me_latencyMs :: 'n
  me_errorClass :: "string option"
  me_retryCount :: nat

record 'n pool =
  p_states :: "'n endpoint_state list"
  p_cursor :: nat
  p_rpcIdCounter :: nat
  p_metrics :: "'n metric_event list"   \<comment> \<open>the events emitted so far\<close>

datatype thrown = RpcError string string | OtherError string

text \<open>The constructor: an empty pool is rejected.\<close>

definition new_pool :: "string list \<Rightarrow> unit + 'n pool" where
  "new_pool names =
     (if names = [] then Inl ()
      else Inr \<lparr>p_states = map (\<lambda>n. \<lparr>es_name = n, es_tracker = new_tracker, es_health = new_health\<rparr>) names,
                p_cursor = 0, p_rpcIdCounter = 0, p_metrics = []\<rparr>)"

section \<open>\<open>pinForWrite\<close>\<close>

text \<open>The first of the sorted list: the leftmost endpoint with a least average.\<close>

fun leftmost_min :: "('a \<Rightarrow> 'a \<Rightarrow> bool) \<Rightarrow> 'a \<Rightarrow> 'a list \<Rightarrow> 'a" where
  "leftmost_min le x [] = x"
| "leftmost_min le x (y # ys) = leftmost_min le (if le x y then x else y) ys"

definition pinForWrite :: "('n :: linorder) pool \<Rightarrow> thrown + string" where
  "pinForWrite p =
     (let healthy = filter (\<lambda>s. h_state (es_health s) = Healthy) (p_states p);
          degraded = filter (\<lambda>s. h_state (es_health s) = Degraded) (p_states p);
          pool = (if length healthy > 0 then healthy else degraded)
      in case pool of
           [] \<Rightarrow> Inl (RpcError ''circuit_open'' ''no healthy endpoints available'')
         | s # ss \<Rightarrow> Inr (es_name (leftmost_min (\<lambda>a b. ewma_le (es_tracker a) (es_tracker b)) s ss)))"

section \<open>\<open>#pickEndpoint\<close>\<close>

text \<open>\<open>(cursor + i) % total\<close> for \<open>i < total\<close>, and the first that passes a test.\<close>

definition ring :: "nat \<Rightarrow> nat \<Rightarrow> nat list" where
  "ring cursor n = map (\<lambda>i. (cursor + i) mod n) [0..<n]"

definition pass :: "('n endpoint_state \<Rightarrow> bool) \<Rightarrow> 'n pool \<Rightarrow> nat option" where
  "pass test p = find (\<lambda>idx. test (p_states p ! idx)) (ring (p_cursor p) (length (p_states p)))"

definition advance_cursor :: "nat \<Rightarrow> 'n pool \<Rightarrow> 'n pool" where
  "advance_cursor idx p = p\<lparr>p_cursor := (idx + 1) mod length (p_states p)\<rparr>"

definition update_state :: "nat \<Rightarrow> ('n endpoint_state \<Rightarrow> 'n endpoint_state) \<Rightarrow> 'n pool \<Rightarrow> 'n pool" where
  "update_state idx f p = p\<lparr>p_states := (p_states p)[idx := f (p_states p ! idx)]\<rparr>"

definition set_health :: "health \<Rightarrow> 'n endpoint_state \<Rightarrow> 'n endpoint_state" where
  "set_health h s = s\<lparr>es_health := h\<rparr>"

definition pickEndpoint :: "int \<Rightarrow> 'n pool \<Rightarrow> nat option \<times> 'n pool" where
  "pickEndpoint now p =
     (case pass (\<lambda>s. h_state (es_health s) = Healthy) p of
        Some idx \<Rightarrow> (Some idx, advance_cursor idx p)
      | None \<Rightarrow>
     (case pass (\<lambda>s. h_state (es_health s) = Degraded) p of
        Some idx \<Rightarrow> (Some idx, advance_cursor idx p)
      | None \<Rightarrow>
     (case pass (\<lambda>s. fst (takeProbe now (es_health s))) p of
        Some idx \<Rightarrow> (Some idx, advance_cursor idx
          (update_state idx (\<lambda>s. set_health (snd (takeProbe now (es_health s))) s) p))
      | None \<Rightarrow> (None, p))))"

section \<open>\<open>call\<close>\<close>

text \<open>What the HTTP client does with one request: throws, or answers with a body.\<close>

datatype 'r http_reply =
    PostThrows thrown
  | InvalidJson
  | Envelope "(int \<times> string) option" 'r   \<comment> \<open>the \<open>error\<close> and \<open>result\<close> fields\<close>

record ('r, 'n) env =
  e_reply :: "nat \<Rightarrow> nat \<Rightarrow> 'r http_reply"   \<comment> \<open>to the request with this id, on this endpoint\<close>
  e_pick :: "nat \<Rightarrow> int"      \<comment> \<open>the clock at the selection of this attempt\<close>
  e_latency :: "nat \<Rightarrow> 'n"    \<comment> \<open>the measured latency of this attempt\<close>
  e_error :: "nat \<Rightarrow> int"     \<comment> \<open>the clock when its error is recorded\<close>

definition sendOnce :: "('r, 'n) env \<Rightarrow> nat \<Rightarrow> 'n pool \<Rightarrow> (thrown + 'r) \<times> 'n pool" where
  "sendOnce env idx p =
     (let p = p\<lparr>p_rpcIdCounter := p_rpcIdCounter p + 1\<rparr>
      in (case e_reply env (p_rpcIdCounter p) idx of
            PostThrows t \<Rightarrow> Inl t
          | InvalidJson \<Rightarrow> Inl (RpcError ''parse'' ''invalid JSON-RPC response body'')
          | Envelope (Some (code, message)) _ \<Rightarrow> Inl (RpcError ''rpc_method'' message)
          | Envelope None result \<Rightarrow> Inr result, p))"

definition classifyError :: "thrown \<Rightarrow> string" where
  "classifyError t = (case t of RpcError code _ \<Rightarrow> code | OtherError _ \<Rightarrow> ''network'')"

definition is_method_error :: "thrown \<Rightarrow> bool" where
  "is_method_error t = (case t of RpcError code _ \<Rightarrow> code = ''rpc_method'' | OtherError _ \<Rightarrow> False)"

definition emitMetrics :: "nat \<Rightarrow> 'n \<Rightarrow> string option \<Rightarrow> nat \<Rightarrow> 'n pool \<Rightarrow> 'n pool" where
  "emitMetrics idx latency errorClass retryCount p =
     (let s = p_states p ! idx
      in p\<lparr>p_metrics := p_metrics p @ [\<lparr>me_endpoint = es_name s, me_healthState = h_state (es_health s),
             me_latencyMs = latency, me_errorClass = errorClass, me_retryCount = retryCount\<rparr>]\<rparr>)"

text \<open>The variables of the loop: \<open>lastState\<close>, \<open>lastLatencyMs\<close>, \<open>lastErrorClass\<close>, \<open>lastError\<close>.\<close>

record 'n last_try =
  l_state :: "nat option"
  l_latency :: 'n
  l_class :: "string option"
  l_error :: "thrown option"

definition exhausted :: "nat \<Rightarrow> 'n last_try \<Rightarrow> 'n pool \<Rightarrow> (thrown + 'r) \<times> 'n pool" where
  "exhausted retryCount l p =
     (let label = (case l_state l of Some idx \<Rightarrow> idx | None \<Rightarrow> 0);
          cls = (case l_class l of Some c \<Rightarrow> c | None \<Rightarrow> ''network'')
      in (Inl (case l_error l of Some e \<Rightarrow> e | None \<Rightarrow> RpcError ''http'' ''rpc pool exhausted''),
          emitMetrics label (l_latency l) (Some cls) retryCount p))"

definition record_outcome :: "('n \<Rightarrow> 'n \<Rightarrow> 'n) \<Rightarrow> nat \<Rightarrow> 'n \<Rightarrow> (health \<Rightarrow> health) \<Rightarrow> 'n pool \<Rightarrow> 'n pool" where
  "record_outcome blend idx latency f p =
     update_state idx (\<lambda>s. s\<lparr>es_tracker := record_latency blend latency (es_tracker s), es_health := f (es_health s)\<rparr>) p"

text \<open>\<open>attempt\<close> runs from 1; the third argument is how many attempts are left.\<close>

fun call_loop :: "('n \<Rightarrow> 'n \<Rightarrow> 'n) \<Rightarrow> ('r, 'n) env \<Rightarrow> nat \<Rightarrow> nat \<Rightarrow> nat \<Rightarrow> 'n last_try \<Rightarrow> 'n pool \<Rightarrow>
    (thrown + 'r) \<times> 'n pool" where
  "call_loop blend env 0 attempt retryCount l p = exhausted retryCount l p"
| "call_loop blend env (Suc left) attempt retryCount l p =
     (case pickEndpoint (e_pick env attempt) p of
        (None, p) \<Rightarrow>
          exhausted retryCount (l\<lparr>l_class := Some ''circuit_open'',
            l_error := Some (RpcError ''circuit_open'' ''no healthy endpoints available'')\<rparr>) p
      | (Some idx, p) \<Rightarrow>
          (let latency = e_latency env attempt in
           case sendOnce env idx p of
             (Inr result, p) \<Rightarrow>
               (Inr result, emitMetrics idx latency None retryCount (record_outcome blend idx latency recordSuccess p))
           | (Inl err, p) \<Rightarrow>
               if is_method_error err
               then (Inl err, emitMetrics idx latency (Some ''rpc_method'') retryCount
                       (record_outcome blend idx latency recordSuccess p))
               else let cls = classifyError err;
                        p = record_outcome blend idx latency
                              (if cls = ''rate_limited'' then recordRateLimit else recordError (e_error env attempt)) p;
                        l = \<lparr>l_state = Some idx, l_latency = latency, l_class = Some cls, l_error = Some err\<rparr>
                    in call_loop blend env left (Suc attempt) (if left = 0 then retryCount else attempt) l p))"

definition pool_call :: "('n :: zero \<Rightarrow> 'n \<Rightarrow> 'n) \<Rightarrow> ('r, 'n) env \<Rightarrow> nat \<Rightarrow> 'n pool \<Rightarrow> (thrown + 'r) \<times> 'n pool" where
  "pool_call blend env attempts p =
     call_loop blend env attempts 1 0 \<lparr>l_state = None, l_latency = 0, l_class = None, l_error = None\<rparr> p"


section \<open>Selection\<close>

lemma set_ring: "cursor < n \<Longrightarrow> set (ring cursor n) = {..<n}"
proof (intro equalityI subsetI)
  fix j assume c: "cursor < n" and j: "j \<in> {..<n}"
  let ?i = "(j + n - cursor) mod n"
  have "(cursor + ?i) mod n = (cursor + (j + n - cursor)) mod n" by (simp add: mod_simps)
  also have "\<dots> = j" using c j by simp
  finally have "j = (cursor + ?i) mod n" ..
  moreover have "?i < n" using c by simp
  ultimately show "j \<in> set (ring cursor n)"
    unfolding ring_def by (metis (lifting) atLeastLessThan_iff image_eqI list.set_map set_upt zero_le)
qed (auto simp: ring_def)

definition pool_inv :: "'n pool \<Rightarrow> bool" where
  "pool_inv p \<longleftrightarrow> p_cursor p < length (p_states p)"

lemma pass_None: "pool_inv p \<Longrightarrow> pass test p = None \<longleftrightarrow> (\<forall>s \<in> set (p_states p). \<not> test s)"
proof -
  assume "pool_inv p"
  then have "pass test p = None \<longleftrightarrow> (\<forall>i < length (p_states p). \<not> test (p_states p ! i))"
    unfolding pass_def find_None_iff by (auto simp: set_ring pool_inv_def)
  then show ?thesis by (simp add: all_set_conv_all_nth)
qed

lemma pass_Some:
  assumes "pass test p = Some idx"
  obtains k where "k < length (p_states p)" and "idx = (p_cursor p + k) mod length (p_states p)"
    and "test (p_states p ! idx)"
    and "\<forall>j < k. \<not> test (p_states p ! ((p_cursor p + j) mod length (p_states p)))"
  using assms unfolding pass_def find_Some_iff ring_def
  by (auto simp del: upt_Suc)

lemma pass_bound: "pass test p = Some idx \<Longrightarrow> idx < length (p_states p)"
  by (erule pass_Some) (auto intro: mod_less_divisor)

lemma pickEndpoint_inv:
  assumes "pool_inv p" and "pickEndpoint now p = (r, p')"
  shows "pool_inv p' \<and> length (p_states p') = length (p_states p) \<and> (\<forall>idx. r = Some idx \<longrightarrow> idx < length (p_states p))
    \<and> p_metrics p' = p_metrics p \<and> p_rpcIdCounter p' = p_rpcIdCounter p"
proof -
  have "Suc idx mod length (p_states p) < length (p_states p)" for idx
    using assms(1) by (intro mod_less_divisor) (auto simp: pool_inv_def)
  then show ?thesis
    using assms
    by (auto simp: pickEndpoint_def pool_inv_def advance_cursor_def update_state_def split: option.splits dest: pass_bound)
qed

section \<open>Calls\<close>

lemma update_state_simps [simp]:
  "length (p_states (update_state idx f p)) = length (p_states p)" "p_cursor (update_state idx f p) = p_cursor p"
  "p_metrics (update_state idx f p) = p_metrics p" "p_rpcIdCounter (update_state idx f p) = p_rpcIdCounter p"
  by (simp_all add: update_state_def)

lemma record_outcome_simps [simp]:
  "length (p_states (record_outcome blend idx t f p)) = length (p_states p)"
  "p_cursor (record_outcome blend idx t f p) = p_cursor p"
  "p_metrics (record_outcome blend idx t f p) = p_metrics p"
  "p_rpcIdCounter (record_outcome blend idx t f p) = p_rpcIdCounter p"
  by (simp_all add: record_outcome_def)

lemma emitMetrics_simps [simp]:
  "p_states (emitMetrics idx t c n p) = p_states p" "p_cursor (emitMetrics idx t c n p) = p_cursor p"
  "p_rpcIdCounter (emitMetrics idx t c n p) = p_rpcIdCounter p"
  by (simp_all add: emitMetrics_def Let_def)

lemma sendOnce_pool: "sendOnce env idx p = (r, p') \<Longrightarrow> p' = p\<lparr>p_rpcIdCounter := p_rpcIdCounter p + 1\<rparr>"
  by (simp add: sendOnce_def Let_def)

lemma call_loop_inv:
  assumes "call_loop blend env n attempt retryCount l p = (r, p')" and "pool_inv p"
  shows "pool_inv p' \<and> length (p_states p') = length (p_states p)
    \<and> (\<exists>ev. p_metrics p' = p_metrics p @ [ev] \<and> (me_errorClass ev = None \<longleftrightarrow> (\<exists>x. r = Inr x))
         \<and> me_retryCount ev \<le> max retryCount (attempt + n - 2))
    \<and> p_rpcIdCounter p \<le> p_rpcIdCounter p' \<and> p_rpcIdCounter p' \<le> p_rpcIdCounter p + n"
  using assms
proof (induction blend env n attempt retryCount l p rule: call_loop.induct)
  case (1 blend env attempt retryCount l p)
  then show ?case by (auto simp: exhausted_def Let_def pool_inv_def emitMetrics_def)
next
  case (2 blend env n attempt retryCount l p)
  obtain pick p1 where pick: "pickEndpoint (e_pick env attempt) p = (pick, p1)" by fastforce
  note inv1 = pickEndpoint_inv [OF "2.prems"(2) pick]
  show ?case
  proof (cases pick)
    case None
    then show ?thesis
      using "2.prems" pick inv1 by (auto simp: exhausted_def Let_def pool_inv_def emitMetrics_def)
  next
    case (Some idx)
    obtain res p2 where send: "sendOnce env idx p1 = (res, p2)" by fastforce
    note p2 = sendOnce_pool [OF send]
    have inv2: "pool_inv p2" "length (p_states p2) = length (p_states p)" "p_metrics p2 = p_metrics p"
      "p_rpcIdCounter p2 = p_rpcIdCounter p + 1"
      using inv1 by (simp_all add: p2 pool_inv_def)
    show ?thesis
    proof (cases res)
      case (Inr x)
      then show ?thesis
        using "2.prems" pick Some send inv2 by (auto simp: Let_def pool_inv_def emitMetrics_def)
    next
      case (Inl err)
      show ?thesis
      proof (cases "is_method_error err")
        case True
        then show ?thesis
          using "2.prems" pick Some send inv2 Inl by (auto simp: Let_def pool_inv_def emitMetrics_def)
      next
        case False
        define p3 where "p3 = record_outcome blend idx (e_latency env attempt)
          (if classifyError err = ''rate_limited'' then recordRateLimit else recordError (e_error env attempt)) p2"
        define l3 where "l3 = \<lparr>l_state = Some idx, l_latency = e_latency env attempt,
          l_class = Some (classifyError err), l_error = Some err\<rparr>"
        have inv3: "pool_inv p3" "length (p_states p3) = length (p_states p)" "p_metrics p3 = p_metrics p"
          "p_rpcIdCounter p3 = p_rpcIdCounter p + 1"
          using inv2 by (simp_all add: p3_def pool_inv_def)
        have rec: "call_loop blend env n (Suc attempt) (if n = 0 then retryCount else attempt) l3 p3 = (r, p')"
          using "2.prems"(1) pick Some send Inl False by (simp add: Let_def p3_def l3_def)
        note IH = "2.IH" [OF pick [symmetric] Some refl send [symmetric] Inl False refl p3_def l3_def rec inv3(1)]
        show ?thesis using IH inv3 by (auto split: if_splits)
      qed
    qed
  qed
qed

section \<open>Properties\<close>

definition tier :: "int \<Rightarrow> 'n pool \<Rightarrow> 'n endpoint_state \<Rightarrow> bool" where
  "tier now p s =
     (if \<exists>s \<in> set (p_states p). h_state (es_health s) = Healthy then h_state (es_health s) = Healthy
      else if \<exists>s \<in> set (p_states p). h_state (es_health s) = Degraded then h_state (es_health s) = Degraded
      else probeAt (es_health s) \<le> now)"

lemma pickEndpoint_tier:
  assumes inv: "pool_inv p"
  shows "fst (pickEndpoint now p) = pass (tier now p) p"
proof -
  have unh: "h_state h = Unhealthy" if "h_state h \<noteq> Healthy" "h_state h \<noteq> Degraded" for h
    using that by (cases "h_state h") auto
  have cong: "pass t p = pass t' p" if "\<forall>s \<in> set (p_states p). t s = t' s" for t t'
    unfolding pass_def using that inv by (intro find_cong) (auto simp: set_ring pool_inv_def)
  show ?thesis
  proof (cases "pass (\<lambda>s. h_state (es_health s) = Healthy) p")
    case (Some idx)
    then have "\<exists>s \<in> set (p_states p). h_state (es_health s) = Healthy"
      using pass_None [OF inv, of "\<lambda>s. h_state (es_health s) = Healthy"] by auto
    then show ?thesis using Some by (simp add: pickEndpoint_def tier_def [abs_def])
  next
    case None
    then have h: "\<forall>s \<in> set (p_states p). h_state (es_health s) \<noteq> Healthy"
      using pass_None [OF inv, of "\<lambda>s. h_state (es_health s) = Healthy"] by simp
    show ?thesis
    proof (cases "pass (\<lambda>s. h_state (es_health s) = Degraded) p")
      case (Some idx)
      then have "\<exists>s \<in> set (p_states p). h_state (es_health s) = Degraded"
        using pass_None [OF inv, of "\<lambda>s. h_state (es_health s) = Degraded"] by auto
      then show ?thesis using None Some h by (simp add: pickEndpoint_def tier_def [abs_def])
    next
      case d: None
      then have dg: "\<forall>s \<in> set (p_states p). h_state (es_health s) \<noteq> Degraded"
        using pass_None [OF inv, of "\<lambda>s. h_state (es_health s) = Degraded"] by simp
      have "pass (\<lambda>s. fst (takeProbe now (es_health s))) p = pass (tier now p) p"
        using h dg unh by (intro cong) (auto simp: takeProbe_def tier_def)
      then show ?thesis using None d by (auto simp: pickEndpoint_def split: option.split)
    qed
  qed
qed

text \<open>
  Endpoint selection: the endpoint chosen is the first at or after the cursor, in
  cyclic order, of the best tier that has one (healthy, else degraded, else unhealthy
  with its probe due), and the cursor moves behind it; nothing is chosen, and nothing
  changes, exactly when every endpoint is unhealthy and waiting for its probe.
\<close>

theorem pickEndpoint_round_robin:
  assumes "pool_inv p"
  shows "(case pickEndpoint now p of
      (Some idx, p') \<Rightarrow>
        p_cursor p' = (idx + 1) mod length (p_states p) \<and> tier now p (p_states p ! idx)
        \<and> (\<exists>k < length (p_states p). idx = (p_cursor p + k) mod length (p_states p)
             \<and> filter (\<lambda>j. tier now p (p_states p ! ((p_cursor p + j) mod length (p_states p)))) [0..<k] = [])
    | (None, p') \<Rightarrow> p' = p \<and> filter (\<lambda>s. h_state (es_health s) \<noteq> Unhealthy \<or> probeAt (es_health s) \<le> now) (p_states p) = [])"
proof -
  obtain r p' where pick: "pickEndpoint now p = (r, p')" by fastforce
  have r: "r = pass (tier now p) p" using pickEndpoint_tier [OF assms, of now] pick by simp
  show ?thesis
  proof (cases r)
    case None
    then have "\<forall>s \<in> set (p_states p). \<not> tier now p s" using r pass_None [OF assms] by metis
    then have h: "\<forall>s \<in> set (p_states p). h_state (es_health s) \<noteq> Healthy"
      and d: "\<forall>s \<in> set (p_states p). h_state (es_health s) \<noteq> Healthy \<longrightarrow> h_state (es_health s) \<noteq> Degraded"
      and "\<forall>s \<in> set (p_states p). \<not> tier now p s"
      unfolding tier_def by metis+
    then have "\<forall>s \<in> set (p_states p). h_state (es_health s) \<noteq> Healthy \<and> h_state (es_health s) \<noteq> Degraded \<and> \<not> probeAt (es_health s) \<le> now"
      by (simp add: tier_def)
    moreover have "p' = p" using pick None by (auto simp: pickEndpoint_def split: option.splits)
    ultimately show ?thesis using pick None by (auto simp: filter_empty_conv) (metis health_name.exhaust)
  next
    case (Some idx)
    then have "pass (tier now p) p = Some idx" using r by simp
    moreover have "p_cursor p' = (idx + 1) mod length (p_states p)"
      using pick Some by (auto simp: pickEndpoint_def advance_cursor_def split: option.splits)
    ultimately show ?thesis
      using pick Some by (elim pass_Some) (auto simp: filter_empty_conv)
  qed
qed

definition sample_pool :: "health \<Rightarrow> health \<Rightarrow> nat pool" where
  "sample_pool h h' = \<lparr>p_states = [\<lparr>es_name = ''helius'', es_tracker = new_tracker, es_health = h\<rparr>,
       \<lparr>es_name = ''triton'', es_tracker = new_tracker, es_health = h'\<rparr>],
     p_cursor = 1, p_rpcIdCounter = 0, p_metrics = []\<rparr>"

lemma ring_two: "ring (Suc 0) (Suc (Suc 0)) = [1, 0]" "ring 0 (Suc (Suc 0)) = [0, 1]"
  by (simp_all add: ring_def)

theorem pickEndpoint_round_robin_witness:
  "case pickEndpoint 7 (sample_pool new_health (new_health\<lparr>h_state := Degraded\<rparr>)) of
     (Some idx, p') \<Rightarrow> idx = 0 \<and> p_cursor p' = 1 | (None, p') \<Rightarrow> False"
proof -
  have "pool_inv (sample_pool new_health (new_health\<lparr>h_state := Degraded\<rparr>))" by (simp add: pool_inv_def sample_pool_def)
  note pickEndpoint_round_robin [OF this, of 7]
  then show ?thesis
    by (auto simp: pickEndpoint_def pass_def sample_pool_def new_health_def advance_cursor_def ring_two)
qed

text \<open>
  A call sends at most as many requests as it has attempts, emits exactly one
  metrics event, whose error class is absent exactly when the call succeeds and whose
  retry count is at most the attempts less one, and keeps the cursor inside the pool: whatever the
  endpoints answer and however the clock moves.
\<close>

theorem call_emits_one_event:
  assumes "pool_inv p" and "pool_call blend env attempts p = (r, p')"
  shows "pool_inv p' \<and> length (p_states p') = length (p_states p)
    \<and> p_rpcIdCounter p' \<le> p_rpcIdCounter p + attempts
    \<and> (\<exists>ev. p_metrics p' = p_metrics p @ [ev] \<and> (me_errorClass ev = None \<longleftrightarrow> (\<exists>x. r = Inr x))
         \<and> me_retryCount ev \<le> attempts - 1)"
proof -
  from call_loop_inv [OF assms(2) [unfolded pool_call_def] assms(1)] show ?thesis by auto
qed

definition sample_env :: "(string, nat) env" where
  "sample_env = \<lparr>e_reply = (\<lambda>i idx. if i = 1 then PostThrows (RpcError ''timeout'' ''late'') else Envelope None ''ok''),
     e_pick = (\<lambda>_. 0), e_latency = (\<lambda>_. 20), e_error = (\<lambda>_. 0)\<rparr>"

theorem call_emits_one_event_witness:
  "\<exists>ev p'. pool_call (\<lambda>a b. a) sample_env 3 (sample_pool new_health new_health) = (Inr ''ok'', p')
     \<and> p_metrics p' = [ev] \<and> me_errorClass ev = None \<and> p_rpcIdCounter p' \<le> 3"
proof -
  have inv: "pool_inv (sample_pool new_health new_health)" by (simp add: pool_inv_def sample_pool_def)
  obtain p' where c: "pool_call (\<lambda>a b. a) sample_env 3 (sample_pool new_health new_health) = (Inr ''ok'', p')"
    by (simp add: pool_call_def numeral_3_eq_3 pickEndpoint_def pass_def sample_pool_def new_health_def advance_cursor_def ring_two
        sendOnce_def sample_env_def is_method_error_def classifyError_def record_outcome_def update_state_def recordError_def
        UNHEALTHY_THRESHOLD_def DEGRADE_THRESHOLD_def Let_def)
  show ?thesis
    using call_emits_one_event [OF inv c] c by (auto simp: sample_pool_def)
qed

text \<open>
  A JSON-RPC method error is final: it is thrown after one request, without a retry,
  and counts as a success for the endpoint's health, as does a result.
\<close>

theorem method_error_is_final:
  assumes "pool_inv p" and "0 < attempts" and "pickEndpoint (e_pick env 1) p = (Some idx, p1)"
    and "e_reply env (p_rpcIdCounter p + 1) idx = Envelope err x"
  shows "\<exists>p'. pool_call blend env attempts p =
       (case err of None \<Rightarrow> Inr x | Some (code, message) \<Rightarrow> Inl (RpcError ''rpc_method'' message), p')
     \<and> p_rpcIdCounter p' = p_rpcIdCounter p + 1
     \<and> es_health (p_states p' ! idx) = recordSuccess (es_health (p_states p1 ! idx))
     \<and> h_state (es_health (p_states p' ! idx)) = Healthy"
proof -
  obtain n where n: "attempts = Suc n" using assms(2) gr0_implies_Suc by blast
  have p1: "p_rpcIdCounter p1 = p_rpcIdCounter p" "idx < length (p_states p1)"
    using pickEndpoint_inv [OF assms(1,3)] by auto
  show ?thesis
    using assms(3,4) p1
    by (cases err)
      (auto simp: pool_call_def n sendOnce_def is_method_error_def Let_def record_outcome_def update_state_def recordSuccess_def)
qed

theorem method_error_is_final_witness:
  "\<exists>p'. pool_call (\<lambda>a b. a) (sample_env\<lparr>e_reply := \<lambda>_ _. Envelope (Some (-32602, ''bad'')) []\<rparr>) 3 (sample_pool new_health new_health)
     = (Inl (RpcError ''rpc_method'' ''bad''), p') \<and> p_rpcIdCounter p' = 1"
proof -
  have inv: "pool_inv (sample_pool new_health new_health)" by (simp add: pool_inv_def sample_pool_def)
  have pick: "pickEndpoint (e_pick (sample_env\<lparr>e_reply := \<lambda>_ _. Envelope (Some (-32602, ''bad'')) []\<rparr>) 1) (sample_pool new_health new_health)
      = (Some 1, (sample_pool new_health new_health)\<lparr>p_cursor := 0\<rparr>)"
    by (simp add: pickEndpoint_def pass_def sample_pool_def new_health_def advance_cursor_def ring_two)
  show ?thesis
    using method_error_is_final [OF inv _ pick, where attempts = 3 and x = "[]" and err = "Some (-32602, ''bad'')"]
    by (auto simp: sample_pool_def)
qed

text \<open>
  A pool whose endpoints are all unhealthy recovers: from the moment the cooldown of
  some endpoint has passed, a call sends it a request, and if that answers, the endpoint
  is healthy again. Before that, a call fails without sending anything.
\<close>

theorem pool_recovers:
  assumes "pool_inv p" and "0 < attempts"
    and "filter (\<lambda>s. h_state (es_health s) \<noteq> Unhealthy) (p_states p) = []"
  shows "(if filter (\<lambda>s. probeAt (es_health s) \<le> e_pick env 1) (p_states p) = []
      then pool_call blend env attempts p =
         (Inl (RpcError ''circuit_open'' ''no healthy endpoints available''), emitMetrics 0 0 (Some ''circuit_open'') 0 p)
      else \<exists>idx < length (p_states p). probeAt (es_health (p_states p ! idx)) \<le> e_pick env 1
        \<and> (e_reply env (p_rpcIdCounter p + 1) idx \<noteq> Envelope None x \<or>
            (\<exists>p'. pool_call blend env attempts p = (Inr x, p') \<and> h_state (es_health (p_states p' ! idx)) = Healthy)))"
proof -
  obtain n where n: "attempts = Suc n" using assms(2) gr0_implies_Suc by blast
  obtain r p1 where pick: "pickEndpoint (e_pick env 1) p = (r, p1)" by fastforce
  have unh: "\<forall>s \<in> set (p_states p). h_state (es_health s) = Unhealthy"
    using assms(3) by (auto simp: filter_empty_conv)
  then have t: "tier (e_pick env 1) p s = (probeAt (es_health s) \<le> e_pick env 1)" for s
    by (simp add: tier_def)
  have r: "r = pass (\<lambda>s. probeAt (es_health s) \<le> e_pick env 1) p"
  proof -
    have "tier (e_pick env 1) p = (\<lambda>s. probeAt (es_health s) \<le> e_pick env 1)" by (rule ext) (rule t)
    then show ?thesis using pickEndpoint_tier [OF assms(1), of "e_pick env 1"] pick by (simp only: fst_conv)
  qed
  show ?thesis
  proof (cases r)
    case None
    then have "filter (\<lambda>s. probeAt (es_health s) \<le> e_pick env 1) (p_states p) = []"
      using r pass_None [OF assms(1), of "\<lambda>s. probeAt (es_health s) \<le> e_pick env 1"] by (auto simp: filter_empty_conv)
    moreover have "p1 = p" using pick None by (auto simp: pickEndpoint_def split: option.splits)
    ultimately show ?thesis
      using None pick by (simp add: pool_call_def n exhausted_def)
  next
    case (Some idx)
    have ps: "pass (\<lambda>s. probeAt (es_health s) \<le> e_pick env 1) p = Some idx" using r Some by simp
    have b: "idx < length (p_states p)" "probeAt (es_health (p_states p ! idx)) \<le> e_pick env 1"
      using pass_bound [OF ps] by simp (rule pass_Some [OF ps])
    then have ne: "filter (\<lambda>s. probeAt (es_health s) \<le> e_pick env 1) (p_states p) \<noteq> []"
      by (auto simp: filter_empty_conv intro!: bexI [OF _ nth_mem])
    have p1: "p_rpcIdCounter p1 = p_rpcIdCounter p" "idx < length (p_states p1)"
      using pickEndpoint_inv [OF assms(1) pick] Some by auto
    have "\<exists>p'. pool_call blend env attempts p = (Inr x, p') \<and> h_state (es_health (p_states p' ! idx)) = Healthy"
      if "e_reply env (p_rpcIdCounter p + 1) idx = Envelope None x"
      using that pick Some p1
      by (simp add: pool_call_def n sendOnce_def Let_def record_outcome_def update_state_def recordSuccess_def)
    then show ?thesis using b ne by auto
  qed
qed

theorem pool_recovers_witness:
  "\<exists>idx < 2. e_reply (sample_env\<lparr>e_reply := \<lambda>_ _. Envelope None ''ok''\<rparr>) 1 idx \<noteq> Envelope None ''ok'' \<or>
     (\<exists>p'. pool_call (\<lambda>a b. a) (sample_env\<lparr>e_reply := \<lambda>_ _. Envelope None ''ok''\<rparr>) 3
        (sample_pool (new_health\<lparr>h_state := Unhealthy, probeAt := 9\<rparr>) (new_health\<lparr>h_state := Unhealthy\<rparr>)) = (Inr ''ok'', p')
      \<and> h_state (es_health (p_states p' ! idx)) = Healthy)"
proof -
  let ?p = "sample_pool (new_health\<lparr>h_state := Unhealthy, probeAt := 9\<rparr>) (new_health\<lparr>h_state := Unhealthy\<rparr>)"
  have "pool_inv ?p" "filter (\<lambda>s. h_state (es_health s) \<noteq> Unhealthy) (p_states ?p) = []"
    "filter (\<lambda>s. probeAt (es_health s) \<le> 0) (p_states ?p) \<noteq> []" "length (p_states ?p) = 2" "p_rpcIdCounter ?p = 0"
    "e_pick (sample_env\<lparr>e_reply := \<lambda>_ _. Envelope None ''ok''\<rparr>) 1 = 0"
    by (simp_all add: pool_inv_def sample_pool_def new_health_def sample_env_def)
  then show ?thesis
    using pool_recovers [of ?p 3 "sample_env\<lparr>e_reply := \<lambda>_ _. Envelope None ''ok''\<rparr>" "\<lambda>a b. a" "''ok''"]
    by (auto simp del: One_nat_def)
qed

end
