(* ===== verification/SplToken.thy ===== *)
theory SplToken
  imports Borsh CompactU16
begin

text \<open>
  Decoding SPL token accounts, \<open>packages/solana-spl/src\<close>: \<open>program-ids.ts\<close>,
  \<open>mint.ts\<close>, \<open>token-account.ts\<close> and the type-length-value region of
  \<open>token-2022-extensions.ts\<close>. A thrown error is a value of \<open>spl_error\<close>.
\<close>

section \<open>Accounts and programs\<close>

definition TOKEN_2022_PROGRAM_ID :: pubkey where
  "TOKEN_2022_PROGRAM_ID = projr (fromBase58 ''TokenzQdBNbLqP5VEhdkAS6EPFLC1PHnBqCXEpPxuEb'')"

datatype token_program = SplV1 | Token2022

record spl_account =
  sa_data :: bytes
  sa_owner :: "pubkey option"

definition detectTokenProgram :: "spl_account \<Rightarrow> token_program" where
  "detectTokenProgram a =
     (case sa_owner a of Some pk \<Rightarrow> if pk_equals pk TOKEN_2022_PROGRAM_ID then Token2022 else SplV1
      | None \<Rightarrow> SplV1)"

datatype spl_error =
    DataTooShort nat nat
  | BadCOptionTag int string
  | BadStateByte int
  | PayloadTooShort string nat
  | TlvPastEnd nat nat nat
  | SplRead borsh_error
  | SplKey pubkey_error

definition spl_read :: "borsh_error + 'a \<Rightarrow> spl_error + 'a" where
  "spl_read m = map_sum SplRead id m"

definition spl_key :: "bytes \<Rightarrow> spl_error + pubkey" where
  "spl_key bs = map_sum SplKey id (fromBytes bs)"

section \<open>Optional fields\<close>

definition readCOptionPubkey :: "reader \<Rightarrow> string \<Rightarrow> spl_error + (pubkey option \<times> reader)" where
  "readCOptionPubkey r field =
     rbind (spl_read (readU32 r)) (\<lambda>(tag, r).
     rbind (spl_read (readBytes 32 r)) (\<lambda>(pkBytes, r).
     if tag = 0 then Inr (None, r)
     else if tag = 1 then rbind (spl_key pkBytes) (\<lambda>pk. Inr (Some pk, r))
     else Inl (BadCOptionTag tag field)))"

definition readCOptionU64 :: "reader \<Rightarrow> string \<Rightarrow> spl_error + (int option \<times> reader)" where
  "readCOptionU64 r field =
     rbind (spl_read (readU32 r)) (\<lambda>(tag, r).
     rbind (spl_read (readU64 r)) (\<lambda>(v, r).
     if tag = 0 then Inr (None, r) else if tag = 1 then Inr (Some v, r)
     else Inl (BadCOptionTag tag field)))"

datatype account_state = StateUninitialized | StateInitialized | StateFrozen

definition stateFromByte :: "int \<Rightarrow> spl_error + account_state" where
  "stateFromByte b =
     (if b = 0 then Inr StateUninitialized else if b = 1 then Inr StateInitialized
      else if b = 2 then Inr StateFrozen else Inl (BadStateByte b))"

section \<open>Token-2022 extensions\<close>

definition ACCOUNT_TYPE_OFFSET :: nat where "ACCOUNT_TYPE_OFFSET = 165"
definition TLV_START_OFFSET :: nat where "TLV_START_OFFSET = 166"
definition EXT_Uninitialized :: nat where "EXT_Uninitialized = 0"
definition EXT_TransferFeeConfig :: nat where "EXT_TransferFeeConfig = 1"
definition EXT_MintCloseAuthority :: nat where "EXT_MintCloseAuthority = 3"
definition EXT_DefaultAccountState :: nat where "EXT_DefaultAccountState = 6"

lemmas ext_types = EXT_Uninitialized_def EXT_TransferFeeConfig_def EXT_MintCloseAuthority_def EXT_DefaultAccountState_def

record tlv_entry =
  tlv_type :: nat
  tlv_data :: bytes

record transfer_fee =
  epoch :: int
  maximumFee :: int
  transferFeeBasisPoints :: int

record transfer_fee_config =
  transferFeeConfigAuthority :: "pubkey option"
  withdrawWithheldAuthority :: "pubkey option"
  withheldAmount :: int
  olderTransferFee :: transfer_fee
  newerTransferFee :: transfer_fee

record mint_extensions =
  mintCloseAuthority :: "pubkey option option"
  transferFeeConfig :: "transfer_fee_config option"
  defaultAccountState :: "account_state option"

record decoded_extensions =
  de_extensions :: mint_extensions
  de_unknown :: "tlv_entry list"

definition no_extensions :: mint_extensions where
  "no_extensions = \<lparr>mintCloseAuthority = None, transferFeeConfig = None, defaultAccountState = None\<rparr>"

definition u16_at :: "bytes \<Rightarrow> nat \<Rightarrow> nat" where
  "u16_at bs i = unat (bs ! i) OR push_bit 8 (unat (bs ! (i + 1)))"

text \<open>The cursor loop; every round moves the offset by at least the four header bytes.\<close>

function tlv_from :: "bytes \<Rightarrow> nat \<Rightarrow> spl_error + tlv_entry list" where
  "tlv_from bs offset =
     (if offset + 4 \<le> length bs
      then let ty = u16_at bs offset; len = u16_at bs (offset + 2); offset = offset + 4
           in if ty = EXT_Uninitialized then Inr []
              else if offset + len > length bs then Inl (TlvPastEnd ty len offset)
              else rbind (tlv_from bs (offset + len)) (\<lambda>es.
                     Inr (\<lparr>tlv_type = ty, tlv_data = jslice bs offset (offset + len)\<rparr> # es))
      else Inr [])"
  by pat_completeness auto
termination
  by (relation "measure (\<lambda>(bs, offset). length bs - offset)") auto

declare tlv_from.simps [simp del]

definition readTlvEntries :: "bytes \<Rightarrow> spl_error + tlv_entry list" where
  "readTlvEntries bs = tlv_from bs 0"

definition isZeroPubkey :: "bytes \<Rightarrow> bool" where
  "isZeroPubkey bs = list_all (\<lambda>i. jat bs i = Some 0) [0..<32]"

definition nullable_key :: "bytes \<Rightarrow> spl_error + pubkey option" where
  "nullable_key bs = (if isZeroPubkey bs then Inr None else rbind (spl_key bs) (\<lambda>pk. Inr (Some pk)))"

definition decodeMintCloseAuthority :: "bytes \<Rightarrow> spl_error + pubkey option" where
  "decodeMintCloseAuthority bs =
     (if length bs < 32 then Inl (PayloadTooShort ''MintCloseAuthority'' (length bs))
      else nullable_key (jslice bs 0 32))"

definition readTransferFee :: "reader \<Rightarrow> spl_error + (transfer_fee \<times> reader)" where
  "readTransferFee r =
     rbind (spl_read (readU64 r)) (\<lambda>(e, r).
     rbind (spl_read (readU64 r)) (\<lambda>(m, r).
     rbind (spl_read (readU16 r)) (\<lambda>(bps, r).
     Inr (\<lparr>epoch = e, maximumFee = m, transferFeeBasisPoints = bps\<rparr>, r))))"

definition decodeTransferFeeConfig :: "bytes \<Rightarrow> spl_error + transfer_fee_config" where
  "decodeTransferFeeConfig bs =
     (if length bs < 108 then Inl (PayloadTooShort ''TransferFeeConfig'' (length bs))
      else rbind (spl_read (readBytes 32 (new_reader (jslice bs 0 108)))) (\<lambda>(configAuthority, r).
           rbind (spl_read (readBytes 32 r)) (\<lambda>(withdrawAuthority, r).
           rbind (spl_read (readU64 r)) (\<lambda>(withheld, r).
           rbind (readTransferFee r) (\<lambda>(older, r).
           rbind (readTransferFee r) (\<lambda>(newer, r).
           rbind (nullable_key configAuthority) (\<lambda>ca.
           rbind (nullable_key withdrawAuthority) (\<lambda>wa.
           Inr \<lparr>transferFeeConfigAuthority = ca, withdrawWithheldAuthority = wa, withheldAmount = withheld,
                olderTransferFee = older, newerTransferFee = newer\<rparr>))))))))"

definition decodeDefaultAccountState :: "bytes \<Rightarrow> spl_error + account_state" where
  "decodeDefaultAccountState bs =
     (case bs of [] \<Rightarrow> Inl (PayloadTooShort ''DefaultAccountState'' 0)
      | b # _ \<Rightarrow> stateFromByte (int (unat b)))"

datatype account_kind = KindMint | KindAccount

text \<open>One round of the loop over the entries.\<close>

definition add_extension :: "account_kind \<Rightarrow> decoded_extensions \<Rightarrow> tlv_entry \<Rightarrow> spl_error + decoded_extensions" where
  "add_extension kind d e =
     (if tlv_type e = EXT_Uninitialized then Inr d
      else if kind = KindMint \<and> tlv_type e = EXT_MintCloseAuthority
      then rbind (decodeMintCloseAuthority (tlv_data e)) (\<lambda>x.
             Inr (d\<lparr>de_extensions := (de_extensions d)\<lparr>mintCloseAuthority := Some x\<rparr>\<rparr>))
      else if kind = KindMint \<and> tlv_type e = EXT_TransferFeeConfig
      then rbind (decodeTransferFeeConfig (tlv_data e)) (\<lambda>x.
             Inr (d\<lparr>de_extensions := (de_extensions d)\<lparr>transferFeeConfig := Some x\<rparr>\<rparr>))
      else if kind = KindMint \<and> tlv_type e = EXT_DefaultAccountState
      then rbind (decodeDefaultAccountState (tlv_data e)) (\<lambda>x.
             Inr (d\<lparr>de_extensions := (de_extensions d)\<lparr>defaultAccountState := Some x\<rparr>\<rparr>))
      else Inr (d\<lparr>de_unknown := de_unknown d @ [e]\<rparr>))"

fun add_extensions :: "account_kind \<Rightarrow> decoded_extensions \<Rightarrow> tlv_entry list \<Rightarrow> spl_error + decoded_extensions" where
  "add_extensions kind d [] = Inr d"
| "add_extensions kind d (e # es) = rbind (add_extension kind d e) (\<lambda>d. add_extensions kind d es)"

definition decodeExtensions :: "bytes \<Rightarrow> account_kind \<Rightarrow> spl_error + decoded_extensions" where
  "decodeExtensions bs kind =
     (let none = \<lparr>de_extensions = no_extensions, de_unknown = []\<rparr>
      in if length bs \<le> ACCOUNT_TYPE_OFFSET then Inr none
         else if bs ! ACCOUNT_TYPE_OFFSET = 0 then Inr none
         else rbind (readTlvEntries (drop TLV_START_OFFSET bs)) (add_extensions kind none))"

definition decodeAccountExtensions :: "spl_account \<Rightarrow> account_kind \<Rightarrow> spl_error + decoded_extensions option" where
  "decodeAccountExtensions a kind =
     (if detectTokenProgram a \<noteq> Token2022 then Inr None
      else rbind (decodeExtensions (sa_data a) kind) (\<lambda>d. Inr (Some d)))"

section \<open>Mints\<close>

definition MINT_ACCOUNT_SIZE :: nat where "MINT_ACCOUNT_SIZE = 82"

record token_mint =
  mintAuthority :: "pubkey option"
  mint_supply :: int
  decimals :: int
  isInitialized :: bool
  freezeAuthority :: "pubkey option"
  mint_program :: token_program
  mint_exts :: "decoded_extensions option"   \<comment> \<open>\<open>extensions\<close> and \<open>unknownExtensions\<close>, present together\<close>

definition decodeMint :: "spl_account \<Rightarrow> spl_error + token_mint" where
  "decodeMint a =
     (if length (sa_data a) < MINT_ACCOUNT_SIZE then Inl (DataTooShort (length (sa_data a)) MINT_ACCOUNT_SIZE)
      else rbind (readCOptionPubkey (new_reader (jslice (sa_data a) 0 MINT_ACCOUNT_SIZE)) ''mintAuthority'') (\<lambda>(ma, r).
           rbind (spl_read (readU64 r)) (\<lambda>(sup, r).
           rbind (spl_read (readU8 r)) (\<lambda>(dec, r).
           rbind (spl_read (readBool r)) (\<lambda>(ini, r).
           rbind (readCOptionPubkey r ''freezeAuthority'') (\<lambda>(fa, r).
           rbind (if detectTokenProgram a = Token2022
                  then rbind (decodeExtensions (sa_data a) KindMint) (\<lambda>d. Inr (Some d)) else Inr None) (\<lambda>ext.
           Inr \<lparr>mintAuthority = ma, mint_supply = sup, decimals = dec, isInitialized = ini, freezeAuthority = fa,
                mint_program = detectTokenProgram a, mint_exts = ext\<rparr>)))))))"

section \<open>Token accounts\<close>

definition TOKEN_ACCOUNT_SIZE :: nat where "TOKEN_ACCOUNT_SIZE = 165"

record token_account =
  ta_mint :: pubkey
  ta_owner :: pubkey
  ta_amount :: int
  delegate :: "pubkey option"
  ta_state :: account_state
  isNative :: "int option"
  delegatedAmount :: int
  closeAuthority :: "pubkey option"
  ta_program :: token_program
  ta_exts :: "decoded_extensions option"

definition decodeTokenAccount :: "spl_account \<Rightarrow> spl_error + token_account" where
  "decodeTokenAccount a =
     (if length (sa_data a) < TOKEN_ACCOUNT_SIZE then Inl (DataTooShort (length (sa_data a)) TOKEN_ACCOUNT_SIZE)
      else rbind (spl_read (readPubkey (new_reader (jslice (sa_data a) 0 TOKEN_ACCOUNT_SIZE)))) (\<lambda>(m, r).
           rbind (spl_read (readPubkey r)) (\<lambda>(own, r).
           rbind (spl_read (readU64 r)) (\<lambda>(am, r).
           rbind (readCOptionPubkey r ''delegate'') (\<lambda>(del, r).
           rbind (spl_read (readU8 r)) (\<lambda>(sb, r).
           rbind (stateFromByte sb) (\<lambda>st.
           rbind (readCOptionU64 r ''isNative'') (\<lambda>(nat, r).
           rbind (spl_read (readU64 r)) (\<lambda>(da, r).
           rbind (readCOptionPubkey r ''closeAuthority'') (\<lambda>(ca, r).
           rbind (if detectTokenProgram a = Token2022
                  then rbind (decodeExtensions (sa_data a) KindAccount) (\<lambda>d. Inr (Some d)) else Inr None) (\<lambda>ext.
           Inr \<lparr>ta_mint = m, ta_owner = own, ta_amount = am, delegate = del, ta_state = st, isNative = nat,
                delegatedAmount = da, closeAuthority = ca, ta_program = detectTokenProgram a, ta_exts = ext\<rparr>)))))))))))"

section \<open>The layouts as encoders\<close>

text \<open>A slot is present whether or not it is used; \<open>unused\<close> is what an unused one holds.\<close>

definition enc_coption :: "('a \<Rightarrow> bytes) \<Rightarrow> bytes \<Rightarrow> 'a option \<Rightarrow> bytes" where
  "enc_coption enc unused v = (case v of None \<Rightarrow> enc_uint 4 0 @ unused | Some x \<Rightarrow> enc_uint 4 1 @ enc x)"

definition enc_state :: "account_state \<Rightarrow> bytes" where
  "enc_state s = enc_uint 1 (case s of StateUninitialized \<Rightarrow> 0 | StateInitialized \<Rightarrow> 1 | StateFrozen \<Rightarrow> 2)"

definition enc_tlv :: "tlv_entry \<Rightarrow> bytes" where
  "enc_tlv e = enc_uint 2 (int (tlv_type e)) @ enc_uint 2 (int (length (tlv_data e))) @ tlv_data e"

lemma spl_read_simps [simp]: "spl_read (Inr x) = Inr x" "spl_read (Inl e) = Inl (SplRead e)"
  by (simp_all add: spl_read_def)

lemma spl_key_toBuffer [simp]: "spl_key (toBuffer pk) = Inr pk"
  by (simp add: spl_key_def)

lemma readU32_at: "fits 4 x \<Longrightarrow> readU32 \<lparr>rbuf = pre @ enc_uint 4 x @ post, roffset = length pre\<rparr> =
    Inr (x, \<lparr>rbuf = pre @ enc_uint 4 x @ post, roffset = length pre + 4\<rparr>)"
  using u32.read_enc [of x pre post] by simp

lemma readCOptionPubkey_at:
  assumes "length unused = 32"
  shows "readCOptionPubkey \<lparr>rbuf = pre @ enc_coption toBuffer unused v @ post, roffset = length pre\<rparr> f =
    Inr (v, \<lparr>rbuf = pre @ enc_coption toBuffer unused v @ post, roffset = length pre + 36\<rparr>)"
proof (cases v)
  case None
  then show ?thesis
    using assms readU32_at [of 0 pre "unused @ post"] readBytes_enc [of unused "pre @ enc_uint 4 0" post]
    by (simp add: readCOptionPubkey_def enc_coption_def fits_def add_ac)
next
  case (Some pk)
  then show ?thesis
    using readU32_at [of 1 pre "toBuffer pk @ post"] readBytes_enc [of "toBuffer pk" "pre @ enc_uint 4 1" post]
    by (simp add: readCOptionPubkey_def enc_coption_def fits_def add_ac)
qed

lemma readCOptionU64_at:
  assumes "length unused = 8" and "pred_option (fits 8) v"
  shows "readCOptionU64 \<lparr>rbuf = pre @ enc_coption (enc_uint 8) unused v @ post, roffset = length pre\<rparr> f =
    Inr (v, \<lparr>rbuf = pre @ enc_coption (enc_uint 8) unused v @ post, roffset = length pre + 12\<rparr>)"
proof (cases v)
  case (Some x)
  then show ?thesis
    using assms readU32_at [of 1 pre "enc_uint 8 x @ post"] u64.read_enc [of x "pre @ enc_uint 4 1" post]
    by (simp add: readCOptionU64_def enc_coption_def fits_def)
next
  case None
  have "unused = le_bytes 8 (le_val unused)" using le_bytes_le_val [of unused] assms(1) by simp
  moreover have "le_val unused < 256 ^ 8" using le_val_bound [of unused] assms(1) by simp
  ultimately have u: "unused = enc_uint 8 (int (le_val unused))" and b: "fits 8 (int (le_val unused))"
    by (simp_all add: enc_uint_def fits_def)
  show ?thesis
    using None assms(1) readU32_at [of 0 pre "unused @ post"] u64.read_enc [OF b, of "pre @ enc_uint 4 0" post]
    by (simp add: readCOptionU64_def enc_coption_def fits_def flip: u)
qed

text \<open>The value region.\<close>

lemma u16_at_enc:
  assumes "n < 65536"
  shows "u16_at (pre @ enc_uint 2 (int n) @ post) (length pre) = n"
proof -
  have e: "enc_uint 2 (int n) = [word_of_nat n, word_of_nat (n div 256)]"
    using assms by (simp add: enc_uint_def le_bytes_numeral nat_mod_distrib)
  have "unat (word_of_nat n :: byte) = n mod 256" "unat (word_of_nat (n div 256) :: byte) = n div 256"
    using assms by (simp_all add: unat_of_nat)
  then show ?thesis
    using disjoint_or [of "n mod 256" 8 "n div 256"] by (simp add: u16_at_def e nth_append)
qed

definition tlv_ok :: "tlv_entry \<Rightarrow> bool" where
  "tlv_ok e \<longleftrightarrow> 0 < tlv_type e \<and> tlv_type e < 65536 \<and> length (tlv_data e) < 65536"

definition tlv_end :: "bytes \<Rightarrow> bool" where
  "tlv_end bs \<longleftrightarrow> length bs < 4 \<or> (\<exists>rest. bs = enc_uint 2 0 @ rest)"

lemma tlv_from_enc:
  assumes "list_all tlv_ok es" and "tlv_end rst"
  shows "tlv_from (pre @ concat (map enc_tlv es) @ rst) (length pre) = Inr es"
  using assms
proof (induction es arbitrary: pre)
  case Nil
  show ?case
  proof (cases "length rst < 4")
    case False
    then obtain rest where "rst = enc_uint 2 0 @ rest" using Nil by (auto simp: tlv_end_def)
    then show ?thesis
      using u16_at_enc [of 0 pre rest] by (subst tlv_from.simps) (simp add: EXT_Uninitialized_def)
  qed (subst tlv_from.simps; simp)
next
  case (Cons e es)
  let ?t = "enc_uint 2 (int (tlv_type e))" and ?l = "enc_uint 2 (int (length (tlv_data e)))"
  let ?post = "concat (map enc_tlv es) @ rst"
  have ok: "tlv_type e \<noteq> 0" "tlv_type e < 65536" "length (tlv_data e) < 65536"
    using Cons.prems by (simp_all add: tlv_ok_def)
  have buf: "pre @ concat (map enc_tlv (e # es)) @ rst = pre @ ?t @ ?l @ tlv_data e @ ?post" (is "_ = ?buf")
    by (simp add: enc_tlv_def)
  have ty: "u16_at ?buf (length pre) = tlv_type e"
    using u16_at_enc [OF ok(2), of pre "?l @ tlv_data e @ ?post"] by simp
  have len: "u16_at ?buf (length pre + 2) = length (tlv_data e)"
    using u16_at_enc [OF ok(3), of "pre @ ?t" "tlv_data e @ ?post"] by simp
  have dat: "jslice ?buf (length pre + 4) (length pre + 4 + length (tlv_data e)) = tlv_data e"
    using jslice_append [of "pre @ ?t @ ?l" "tlv_data e" ?post] by (simp add: add_ac)
  have "tlv_from ?buf (length pre + 4 + length (tlv_data e)) = Inr es"
    using Cons.IH [of "pre @ ?t @ ?l @ tlv_data e"] Cons.prems by (simp add: add_ac eval_nat_numeral)
  then show ?case
    unfolding buf by (subst tlv_from.simps) (simp add: Let_def ty len dat EXT_Uninitialized_def ok del: add_2_eq_Suc')
qed

text \<open>Which entries the loop keeps as unknown.\<close>

definition known_type :: "account_kind \<Rightarrow> nat \<Rightarrow> bool" where
  "known_type kind ty \<longleftrightarrow> kind = KindMint \<and> ty \<in> {EXT_TransferFeeConfig, EXT_MintCloseAuthority, EXT_DefaultAccountState}"

lemma add_extensions_unknown:
  "add_extensions kind d es = Inr d' \<Longrightarrow> list_all tlv_ok es \<Longrightarrow>
    de_unknown d' = de_unknown d @ filter (\<lambda>e. \<not> known_type kind (tlv_type e)) es
    \<and> (kind = KindAccount \<longrightarrow> de_extensions d' = de_extensions d)"
proof (induction es arbitrary: d)
  case (Cons e es)
  obtain d1 where d1: "add_extension kind d e = Inr d1" "add_extensions kind d1 es = Inr d'"
    using Cons.prems by (auto simp: result_simps)
  have "tlv_type e \<noteq> 0" using Cons.prems by (simp add: tlv_ok_def)
  then have "de_unknown d1 = de_unknown d @ (if known_type kind (tlv_type e) then [] else [e])
      \<and> (kind = KindAccount \<longrightarrow> de_extensions d1 = de_extensions d)"
    using d1(1) by (auto simp: add_extension_def known_type_def ext_types result_simps split: if_splits)
  then show ?case using Cons.IH [OF d1(2)] Cons.prems by auto
qed simp

lemma add_extensions_account: "add_extensions KindAccount d es =
    Inr (d\<lparr>de_unknown := de_unknown d @ filter (\<lambda>e. tlv_type e \<noteq> 0) es\<rparr>)"
  by (induction es arbitrary: d) (auto simp: add_extension_def EXT_Uninitialized_def)

section \<open>Whole accounts\<close>

text \<open>A mint of 82 bytes, and a token account of 165, with the unused slots given.\<close>

definition mint_layout :: "token_mint \<Rightarrow> bytes \<Rightarrow> bytes \<Rightarrow> bytes" where
  "mint_layout m u1 u2 = enc_coption toBuffer u1 (mintAuthority m) @ enc_uint 8 (mint_supply m) @ enc_uint 1 (decimals m)
     @ enc_bool (isInitialized m) @ enc_coption toBuffer u2 (freezeAuthority m)"

definition token_layout :: "token_account \<Rightarrow> bytes \<Rightarrow> bytes \<Rightarrow> bytes \<Rightarrow> bytes" where
  "token_layout t u1 u2 u3 = toBuffer (ta_mint t) @ toBuffer (ta_owner t) @ enc_uint 8 (ta_amount t)
     @ enc_coption toBuffer u1 (delegate t) @ enc_state (ta_state t) @ enc_coption (enc_uint 8) u2 (isNative t)
     @ enc_uint 8 (delegatedAmount t) @ enc_coption toBuffer u3 (closeAuthority t)"

lemma length_enc_coption: "length unused = n \<Longrightarrow> (\<And>x. length (enc x) = n) \<Longrightarrow> length (enc_coption enc unused v) = 4 + n"
  by (simp add: enc_coption_def split: option.split)

lemma read_fixed:
  "fits 8 a \<Longrightarrow> readU64 \<lparr>rbuf = pre @ enc_uint 8 a @ post, roffset = length pre\<rparr> =
     Inr (a, \<lparr>rbuf = pre @ enc_uint 8 a @ post, roffset = length pre + 8\<rparr>)"
  "fits 1 a \<Longrightarrow> readU8 \<lparr>rbuf = pre @ enc_uint 1 a @ post, roffset = length pre\<rparr> =
     Inr (a, \<lparr>rbuf = pre @ enc_uint 1 a @ post, roffset = length pre + 1\<rparr>)"
  "readBool \<lparr>rbuf = pre @ enc_bool b @ post, roffset = length pre\<rparr> =
     Inr (b, \<lparr>rbuf = pre @ enc_bool b @ post, roffset = length pre + 1\<rparr>)"
  "readPubkey \<lparr>rbuf = pre @ toBuffer k @ post, roffset = length pre\<rparr> =
     Inr (k, \<lparr>rbuf = pre @ toBuffer k @ post, roffset = length pre + 32\<rparr>)"
  using u64.read_enc [of a pre post] u8.read_enc [of a pre post] bool.read_enc [where x = b and pre = pre and post = post]
    pubkey.read_enc [where x = k and pre = pre and post = post]
  by (simp_all add: enc_bool_def)

lemma decodeMint_layout:
  assumes fit: "fits 8 (mint_supply m)" "fits 1 (decimals m)" and u: "length u1 = 32" "length u2 = 32"
    and dat: "sa_data a = mint_layout m u1 u2 @ rest"
  shows "decodeMint a = rbind (if detectTokenProgram a = Token2022
      then rbind (decodeExtensions (sa_data a) KindMint) (\<lambda>d. Inr (Some d)) else Inr None)
      (\<lambda>ext. Inr (m\<lparr>mint_program := detectTokenProgram a, mint_exts := ext\<rparr>))"
proof -
  let ?a = "enc_coption toBuffer u1 (mintAuthority m)" and ?s = "enc_uint 8 (mint_supply m)" and ?d = "enc_uint 1 (decimals m)"
    and ?i = "enc_bool (isInitialized m)" and ?f = "enc_coption toBuffer u2 (freezeAuthority m)"
  define buf where "buf = ?a @ ?s @ ?d @ ?i @ ?f"
  have la: "length ?a = 36" "length ?f = 36" using u by (simp_all add: length_enc_coption)
  have li: "length ?i = 1" by (simp add: enc_bool_def)
  have lb: "length buf = 82" by (simp add: buf_def la li)
  have dat': "sa_data a = buf @ rest" by (simp add: dat mint_layout_def buf_def)
  have base: "jslice (sa_data a) 0 82 = buf"
    using jslice_append [of "[]" buf rest] lb by (simp add: dat')
  have r1: "readCOptionPubkey (new_reader buf) f = Inr (mintAuthority m, \<lparr>rbuf = buf, roffset = 36\<rparr>)" for f
    using readCOptionPubkey_at [OF u(1), of "[]" "mintAuthority m" "?s @ ?d @ ?i @ ?f"] by (simp add: new_reader_def buf_def)
  have r2: "readU64 \<lparr>rbuf = buf, roffset = 36\<rparr> = Inr (mint_supply m, \<lparr>rbuf = buf, roffset = 44\<rparr>)"
    using read_fixed(1) [OF fit(1), of ?a "?d @ ?i @ ?f"] by (simp add: buf_def la)
  have r3: "readU8 \<lparr>rbuf = buf, roffset = 44\<rparr> = Inr (decimals m, \<lparr>rbuf = buf, roffset = 45\<rparr>)"
    using read_fixed(2) [OF fit(2), of "?a @ ?s" "?i @ ?f"] by (simp add: buf_def la)
  have r4: "readBool \<lparr>rbuf = buf, roffset = 45\<rparr> = Inr (isInitialized m, \<lparr>rbuf = buf, roffset = 46\<rparr>)"
    using read_fixed(3) [of "?a @ ?s @ ?d" "isInitialized m" ?f] by (simp add: buf_def la)
  have r5: "readCOptionPubkey \<lparr>rbuf = buf, roffset = 46\<rparr> f = Inr (freezeAuthority m, \<lparr>rbuf = buf, roffset = 82\<rparr>)" for f
    using readCOptionPubkey_at [OF u(2), of "?a @ ?s @ ?d @ ?i" "freezeAuthority m" "[]"] by (simp add: buf_def la li)
  have "\<not> length (sa_data a) < 82" using lb by (simp add: dat')
  moreover have eq: "\<lparr>mintAuthority = mintAuthority m, mint_supply = mint_supply m, decimals = decimals m,
      isInitialized = isInitialized m, freezeAuthority = freezeAuthority m, mint_program = p, mint_exts = ext\<rparr>
    = m\<lparr>mint_program := p, mint_exts := ext\<rparr>" for p ext
    by (cases m) simp
  ultimately show ?thesis
    by (simp add: decodeMint_def MINT_ACCOUNT_SIZE_def base r1 r2 r3 r4 r5 eq)
qed

definition state_byte :: "account_state \<Rightarrow> int" where
  "state_byte s = (case s of StateUninitialized \<Rightarrow> 0 | StateInitialized \<Rightarrow> 1 | StateFrozen \<Rightarrow> 2)"

lemma state_byte: "fits 1 (state_byte s)" "stateFromByte (state_byte s) = Inr s" "enc_state s = enc_uint 1 (state_byte s)"
  by (cases s; simp add: state_byte_def fits_def stateFromByte_def enc_state_def)+

lemma decodeTokenAccount_layout:
  assumes fit: "fits 8 (ta_amount t)" "fits 8 (delegatedAmount t)" "pred_option (fits 8) (isNative t)"
    and u: "length u1 = 32" "length u2 = 8" "length u3 = 32"
    and dat: "sa_data a = token_layout t u1 u2 u3 @ rest"
  shows "decodeTokenAccount a = rbind (if detectTokenProgram a = Token2022
      then rbind (decodeExtensions (sa_data a) KindAccount) (\<lambda>d. Inr (Some d)) else Inr None)
      (\<lambda>ext. Inr (t\<lparr>ta_program := detectTokenProgram a, ta_exts := ext\<rparr>))"
proof -
  let ?m = "toBuffer (ta_mint t)" and ?o = "toBuffer (ta_owner t)" and ?a = "enc_uint 8 (ta_amount t)"
    and ?d = "enc_coption toBuffer u1 (delegate t)" and ?s = "enc_uint 1 (state_byte (ta_state t))"
    and ?n = "enc_coption (enc_uint 8) u2 (isNative t)" and ?x = "enc_uint 8 (delegatedAmount t)"
    and ?c = "enc_coption toBuffer u3 (closeAuthority t)"
  define buf where "buf = ?m @ ?o @ ?a @ ?d @ ?s @ ?n @ ?x @ ?c"
  have l: "length ?d = 36" "length ?c = 36" "length ?n = 12" using u by (simp_all add: length_enc_coption)
  have lb: "length buf = 165" by (simp add: buf_def l)
  have dat': "sa_data a = buf @ rest" by (simp add: dat token_layout_def buf_def state_byte(3))
  have base: "jslice (sa_data a) 0 165 = buf"
    using jslice_append [of "[]" buf rest] lb by (simp add: dat')
  have r1: "readPubkey (new_reader buf) = Inr (ta_mint t, \<lparr>rbuf = buf, roffset = 32\<rparr>)"
    using read_fixed(4) [of "[]"] by (simp add: new_reader_def buf_def)
  have r2: "readPubkey \<lparr>rbuf = buf, roffset = 32\<rparr> = Inr (ta_owner t, \<lparr>rbuf = buf, roffset = 64\<rparr>)"
    using read_fixed(4) [of ?m] by (simp add: buf_def)
  have r3: "readU64 \<lparr>rbuf = buf, roffset = 64\<rparr> = Inr (ta_amount t, \<lparr>rbuf = buf, roffset = 72\<rparr>)"
    using read_fixed(1) [OF fit(1), of "?m @ ?o"] by (simp add: buf_def)
  have r4: "readCOptionPubkey \<lparr>rbuf = buf, roffset = 72\<rparr> f = Inr (delegate t, \<lparr>rbuf = buf, roffset = 108\<rparr>)" for f
    using readCOptionPubkey_at [OF u(1), of "?m @ ?o @ ?a" "delegate t" "?s @ ?n @ ?x @ ?c"] by (simp add: buf_def)
  have r5: "readU8 \<lparr>rbuf = buf, roffset = 108\<rparr> = Inr (state_byte (ta_state t), \<lparr>rbuf = buf, roffset = 109\<rparr>)"
    using read_fixed(2) [OF state_byte(1), of "?m @ ?o @ ?a @ ?d"] by (simp add: buf_def l)
  have r6: "readCOptionU64 \<lparr>rbuf = buf, roffset = 109\<rparr> f = Inr (isNative t, \<lparr>rbuf = buf, roffset = 121\<rparr>)" for f
    using readCOptionU64_at [OF u(2) fit(3), of "?m @ ?o @ ?a @ ?d @ ?s" "?x @ ?c"] by (simp add: buf_def l)
  have r7: "readU64 \<lparr>rbuf = buf, roffset = 121\<rparr> = Inr (delegatedAmount t, \<lparr>rbuf = buf, roffset = 129\<rparr>)"
    using read_fixed(1) [OF fit(2), of "?m @ ?o @ ?a @ ?d @ ?s @ ?n"] by (simp add: buf_def l)
  have r8: "readCOptionPubkey \<lparr>rbuf = buf, roffset = 129\<rparr> f = Inr (closeAuthority t, \<lparr>rbuf = buf, roffset = 165\<rparr>)" for f
    using readCOptionPubkey_at [OF u(3), of "?m @ ?o @ ?a @ ?d @ ?s @ ?n @ ?x" "closeAuthority t" "[]"] by (simp add: buf_def l)
  have "\<not> length (sa_data a) < 165" using lb by (simp add: dat')
  moreover have eq: "\<lparr>ta_mint = ta_mint t, ta_owner = ta_owner t, ta_amount = ta_amount t, delegate = delegate t,
      ta_state = ta_state t, isNative = isNative t, delegatedAmount = delegatedAmount t, closeAuthority = closeAuthority t,
      ta_program = p, ta_exts = ext\<rparr> = t\<lparr>ta_program := p, ta_exts := ext\<rparr>" for p ext
    by (cases t) simp
  ultimately show ?thesis
    by (simp add: decodeTokenAccount_def TOKEN_ACCOUNT_SIZE_def base r1 r2 r3 r4 r5 r6 r7 r8 state_byte(2) eq)
qed

section \<open>Properties\<close>

text \<open>
  A classic token account is decoded exactly: for every account whose amounts fit their
  fields, the 165 bytes of the layout, whatever the unused optional slots hold and
  whatever follows, decode to that account. So do the 82 bytes of a mint.
\<close>

theorem spl_accounts_roundtrip:
  assumes "fits 8 (ta_amount t)" "fits 8 (delegatedAmount t)" "pred_option (fits 8) (isNative t)"
    and "fits 8 (mint_supply m)" "fits 1 (decimals m)"
    and "length u1 = 32" "length u2 = 8" "length u3 = 32"
    and "detectTokenProgram \<lparr>sa_data = [], sa_owner = owner\<rparr> = SplV1"
  shows "decodeTokenAccount \<lparr>sa_data = token_layout t u1 u2 u3 @ rest, sa_owner = owner\<rparr> =
      Inr (t\<lparr>ta_program := SplV1, ta_exts := None\<rparr>)
    \<and> decodeMint \<lparr>sa_data = mint_layout m u1 u3 @ rest, sa_owner = owner\<rparr> =
      Inr (m\<lparr>mint_program := SplV1, mint_exts := None\<rparr>)"
proof -
  have p: "detectTokenProgram \<lparr>sa_data = x, sa_owner = owner\<rparr> = SplV1" for x
    using assms(9) by (simp add: detectTokenProgram_def)
  show ?thesis
    using decodeTokenAccount_layout [OF assms(1,2,3,6,7,8), of "\<lparr>sa_data = token_layout t u1 u2 u3 @ rest, sa_owner = owner\<rparr>" rest]
      decodeMint_layout [OF assms(4,5,6,8), of "\<lparr>sa_data = mint_layout m u1 u3 @ rest, sa_owner = owner\<rparr>" rest]
    by (simp add: p)
qed

definition sample_token :: token_account where
  "sample_token = \<lparr>ta_mint = key_of 1, ta_owner = key_of 2, ta_amount = 5000, delegate = Some (key_of 3), ta_state = StateFrozen,
     isNative = None, delegatedAmount = 10, closeAuthority = None, ta_program = SplV1, ta_exts = None\<rparr>"

definition sample_mint :: token_mint where
  "sample_mint = \<lparr>mintAuthority = None, mint_supply = 1000000, decimals = 6, isInitialized = True, freezeAuthority = Some (key_of 4),
     mint_program = SplV1, mint_exts = None\<rparr>"

theorem spl_accounts_roundtrip_witness:
  "decodeTokenAccount \<lparr>sa_data = token_layout sample_token (replicate 32 9) (replicate 8 0) (replicate 32 0), sa_owner = None\<rparr> =
      Inr sample_token
   \<and> decodeMint \<lparr>sa_data = mint_layout sample_mint (replicate 32 9) (replicate 32 0), sa_owner = None\<rparr> = Inr sample_mint"
  using spl_accounts_roundtrip [of sample_token sample_mint "replicate 32 9" "replicate 8 0" "replicate 32 0" None "[]"]
  by (simp add: sample_token_def sample_mint_def fits_def detectTokenProgram_def)

text \<open>
  No extension is dropped. When the region after byte 166 of a token-2022 account is a
  list of entries with non-zero 16-bit types, ended by a zero type or by fewer than four
  bytes, the entries found are exactly those, in order; an account keeps all of them as
  unknown entries, a mint all but the three types it decodes, or fails on a payload of
  one of those; a length past the end is an error.
\<close>

theorem extensions_complete:
  assumes "length bs0 = 165" and "tag \<noteq> 0" and "list_all tlv_ok es" and "tlv_end rst"
  shows "decodeExtensions (bs0 @ tag # concat (map enc_tlv es) @ rst) KindAccount =
      Inr \<lparr>de_extensions = no_extensions, de_unknown = es\<rparr>
    \<and> (case decodeExtensions (bs0 @ tag # concat (map enc_tlv es) @ rst) KindMint of
         Inr d \<Rightarrow> de_unknown d = filter (\<lambda>e. tlv_type e \<notin> {1, 3, 6}) es
       | Inl err \<Rightarrow> filter (\<lambda>e. tlv_type e \<in> {1, 3, 6}) es \<noteq> [])"
proof -
  let ?bs = "bs0 @ tag # concat (map enc_tlv es) @ rst"
  have tlv: "readTlvEntries (drop 166 ?bs) = Inr es"
    using tlv_from_enc [OF assms(3,4), of "[]"] assms(1) by (simp add: readTlvEntries_def)
  have dec: "decodeExtensions ?bs kind = add_extensions kind \<lparr>de_extensions = no_extensions, de_unknown = []\<rparr> es" for kind
    using assms(1,2) tlv by (simp add: decodeExtensions_def ACCOUNT_TYPE_OFFSET_def TLV_START_OFFSET_def nth_append Let_def)
  have nz: "filter (\<lambda>e. tlv_type e \<noteq> 0) es = es"
    using assms(3) by (auto simp: filter_id_conv list_all_iff tlv_ok_def)
  have known: "known_type KindMint ty \<longleftrightarrow> ty \<in> {1, 3, 6}" for ty
    by (auto simp: known_type_def ext_types)
  have total: "\<exists>d'. add_extensions KindMint d es = Inr d'" if "filter (\<lambda>e. tlv_type e \<in> {1, 3, 6}) es = []" for d
    using that by (induction es arbitrary: d) (auto simp: add_extension_def ext_types split: if_splits)
  show ?thesis
    unfolding dec
    using add_extensions_account [of "\<lparr>de_extensions = no_extensions, de_unknown = []\<rparr>" es] nz
      add_extensions_unknown [where kind = KindMint and d = "\<lparr>de_extensions = no_extensions, de_unknown = []\<rparr>" and es = es] assms(3) total
    by (fastforce simp: known split: sum.split)
qed

theorem extensions_complete_witness:
  "decodeExtensions (replicate 165 0 @ 2 # concat (map enc_tlv [\<lparr>tlv_type = 7, tlv_data = []\<rparr>, \<lparr>tlv_type = 2, tlv_data = [1, 2]\<rparr>]) @ []) KindAccount
   = Inr \<lparr>de_extensions = no_extensions, de_unknown = [\<lparr>tlv_type = 7, tlv_data = []\<rparr>, \<lparr>tlv_type = 2, tlv_data = [1, 2]\<rparr>]\<rparr>"
  by (rule conjunct1 [OF extensions_complete]) (simp_all add: tlv_ok_def tlv_end_def)

end
