(* ===== verification/Executor.thy ===== *)
theory Executor
  imports Assembler
begin

text \<open>
  Executing a trade intent, \<open>packages/solana-executor/src\<close>: \<open>executor.ts\<close> and
  \<open>confirm-landed.ts\<close>. Everything outside the executor (wallets, RPC, fee estimator,
  assembler, submitters, clock) is an environment of operations on a world of
  type \<open>'w\<close>, each of which may fail and returns the world it leaves. What an
  asynchronous call awaits is one such operation. The executor's own state is the list of
  events it emitted and the name of the last submitter that took a bundle.
\<close>

section \<open>Intents and results\<close>

datatype fee_tier = Low | Med | High | Turbo
datatype submitter_kind = Rpc | JitoHttp | JitoGrpc

record submitter_hint =
  sh_kind :: submitter_kind
  bundleGroup :: "string option"
  tipLamports :: "int option"

record retry_policy =
  maxAttempts :: "int option"
  bumpProgression :: "bool option"

record intent =
  intentId :: string
  i_wallet :: string
  i_instructions :: "instruction list"
  feeTier :: fee_tier
  deadline :: int
  i_submitter :: "submitter_hint option"
  i_retry :: "retry_policy option"

datatype exec_result =
    Landed string string nat string int          \<comment> \<open>intent, signature, slot, submitter, landed at\<close>
  | Reverted string string nat string "string list" string
  | TimedOut string string string
  | Rejected string "string option" string string \<comment> \<open>intent, submitter, code, message\<close>

datatype exec_event =
    Attempt string nat fee_tier
  | FeeTierEvent string fee_tier int
  | Result exec_result

section \<open>The environment\<close>

datatype payload = SingleTx bytes | Bundle "bytes list"

record 'w submitter =
  sub_name :: string
  sub_kind :: submitter_kind
  sub_healthy :: "'w \<Rightarrow> bool"   \<comment> \<open>\<open>health().state !== 'unhealthy'\<close>\<close>
  sub_submit :: "payload \<Rightarrow> 'w \<Rightarrow> (string + string option) \<times> 'w"   \<comment> \<open>the signature of the acknowledgement, if any\<close>

record status =
  st_slot :: nat
  st_confirmation :: string
  st_err :: "string option"   \<comment> \<open>\<open>JSON.stringify(err)\<close> of a truthy error\<close>

datatype assemble_failure = ReserveBreach string | AssembleError string
datatype bundle_failure = WithoutTip string | FlushFailed string

record 'w exec_env =
  e_resolveWallet :: "string \<Rightarrow> 'w \<Rightarrow> (string + pubkey) \<times> 'w"
  e_feeTier :: "fee_tier \<Rightarrow> int"
  e_blockhash :: "'w \<Rightarrow> (string + string) \<times> 'w"
  e_assemble :: "instruction list \<Rightarrow> pubkey \<Rightarrow> string \<Rightarrow> 'w \<Rightarrow> (assemble_failure + bytes) \<times> 'w"
  e_tipInstruction :: "pubkey \<Rightarrow> pubkey \<Rightarrow> int \<Rightarrow> string + instruction"
  e_bundleAdd :: "string \<Rightarrow> bytes \<Rightarrow> bool \<Rightarrow> 'w \<Rightarrow> (bundle_failure + string \<times> string option) \<times> 'w"
    \<comment> \<open>the signature, and \<open>#lastBundleSubmitter\<close> as the flush left it\<close>
  e_now :: "'w \<Rightarrow> int"
  e_signatureStatus :: "string \<Rightarrow> 'w \<Rightarrow> (string + status option) \<times> 'w"
  e_transactionLogs :: "string \<Rightarrow> 'w \<Rightarrow> (string + string list) \<times> 'w"
  e_sleep :: "'w \<Rightarrow> 'w"
  e_submitters :: "'w submitter list"
  e_jitoTipAccount :: "pubkey option"
  e_defaultSubmitter :: submitter_kind
  e_fallbackChain :: "submitter_kind list"

record 'w exec_state =
  x_world :: 'w
  x_events :: "exec_event list"
  x_lastBundleSubmitter :: "string option"

definition emit :: "exec_event \<Rightarrow> 'w exec_state \<Rightarrow> 'w exec_state" where
  "emit ev s = s\<lparr>x_events := x_events s @ [ev]\<rparr>"

definition on_world :: "('w \<Rightarrow> 'a \<times> 'w) \<Rightarrow> 'w exec_state \<Rightarrow> 'a \<times> 'w exec_state" where
  "on_world f s = (case f (x_world s) of (a, w) \<Rightarrow> (a, s\<lparr>x_world := w\<rparr>))"

section \<open>\<open>confirmLanded\<close>\<close>

datatype confirm_result =
    ConfirmLanded nat int
  | ConfirmReverted nat "string list" string
  | ConfirmTimeout

text \<open>
  One fuel unit per round of the polling loop; \<open>None\<close> when it runs out. A call that rejects
  propagates (\<open>Inl\<close>).
\<close>

fun confirmLanded :: "nat \<Rightarrow> 'w exec_env \<Rightarrow> string \<Rightarrow> int \<Rightarrow> 'w \<Rightarrow> ((string + confirm_result) \<times> 'w) option" where
  "confirmLanded 0 env sig dl w = None"
| "confirmLanded (Suc n) env sig dl w =
     (if e_now env w < dl
      then case e_signatureStatus env sig w of
             (Inl e, w) \<Rightarrow> Some (Inl e, w)
           | (Inr st, w) \<Rightarrow>
               (case st of
                  Some s \<Rightarrow>
                    (case st_err s of
                       Some err \<Rightarrow>
                         (case e_transactionLogs env sig w of
                            (Inl e, w) \<Rightarrow> Some (Inl e, w)
                          | (Inr logs, w) \<Rightarrow> Some (Inr (ConfirmReverted (st_slot s) logs err), w))
                     | None \<Rightarrow>
                         if st_confirmation s = ''confirmed'' \<or> st_confirmation s = ''finalized''
                         then Some (Inr (ConfirmLanded (st_slot s) (e_now env w)), w)
                         else confirmLanded n env sig dl (e_sleep env w))
                | None \<Rightarrow> confirmLanded n env sig dl (e_sleep env w))
      else Some (Inr ConfirmTimeout, w))"

definition confirm :: "nat \<Rightarrow> 'w exec_env \<Rightarrow> intent \<Rightarrow> string \<Rightarrow> string \<Rightarrow> 'w exec_state \<Rightarrow>
    ((string + exec_result) \<times> 'w exec_state) option" where
  "confirm fuel env i sig submitterUsed s =
     (case confirmLanded fuel env sig (deadline i) (x_world s) of
        None \<Rightarrow> None
      | Some (Inl e, w) \<Rightarrow> Some (Inl e, s\<lparr>x_world := w\<rparr>)
      | Some (Inr r, w) \<Rightarrow>
          let final = (case r of
                ConfirmLanded slot at \<Rightarrow> Landed (intentId i) sig slot submitterUsed at
              | ConfirmReverted slot logs err \<Rightarrow> Reverted (intentId i) sig slot submitterUsed logs err
              | ConfirmTimeout \<Rightarrow> TimedOut (intentId i) sig submitterUsed)
          in Some (Inr final, emit (Result final) (s\<lparr>x_world := w\<rparr>)))"

definition rejected :: "intent \<Rightarrow> string option \<Rightarrow> string \<Rightarrow> string \<Rightarrow> 'w exec_state \<Rightarrow> exec_result \<times> 'w exec_state" where
  "rejected i submitterUsed code message s =
     (let r = Rejected (intentId i) submitterUsed code message in (r, emit (Result r) s))"

abbreviation reject_now :: "intent \<Rightarrow> string option \<Rightarrow> string \<Rightarrow> string \<Rightarrow> 'w exec_state \<Rightarrow>
    ((string + exec_result) \<times> 'w exec_state) option" where
  "reject_now i u code message s \<equiv> Some (map_prod Inr id (rejected i u code message s))"

section \<open>Routing\<close>

definition candidates :: "'w exec_env \<Rightarrow> intent \<Rightarrow> 'w \<Rightarrow> 'w submitter list" where
  "candidates env i w =
     (let wantedKind = (case i_submitter i of Some h \<Rightarrow> sh_kind h | None \<Rightarrow> e_defaultSubmitter env);
          ordered = wantedKind # filter (\<lambda>k. k \<noteq> wantedKind) (e_fallbackChain env)
      in concat (map (\<lambda>kind. filter (\<lambda>s. sub_kind s = kind \<and> sub_healthy s w) (e_submitters env)) ordered))"

definition is_jito :: "submitter_kind \<Rightarrow> bool" where
  "is_jito k \<longleftrightarrow> k = JitoHttp \<or> k = JitoGrpc"

text \<open>\<open>errors.join('; ')\<close>\<close>

fun join :: "string list \<Rightarrow> string" where
  "join [] = []"
| "join [e] = e"
| "join (e # es) = e @ ''; '' @ join es"

text \<open>The single-transaction path: the same signed bytes to each candidate in turn.\<close>

fun submit_single :: "bytes \<Rightarrow> 'w submitter list \<Rightarrow> string list \<Rightarrow> 'w \<Rightarrow> (string list + string \<times> string) \<times> 'w" where
  "submit_single tx [] errors w = (Inl errors, w)"
| "submit_single tx (c # cs) errors w =
     (case sub_submit c (SingleTx tx) w of
        (Inl e, w) \<Rightarrow> submit_single tx cs (errors @ [sub_name c @ '': '' @ e]) w
      | (Inr sig, w) \<Rightarrow>
          (case sig of
             Some (ch # sg) \<Rightarrow> (Inr (ch # sg, sub_name c), w)
           | _ \<Rightarrow> submit_single tx cs (errors @ [sub_name c @ '': returned no signature for tx payload'']) w))"

section \<open>\<open>#execute\<close>\<close>

definition group_of :: "intent \<Rightarrow> string option" where
  "group_of i = (case i_submitter i of Some h \<Rightarrow> bundleGroup h | None \<Rightarrow> None)"

definition tip_of :: "intent \<Rightarrow> int" where
  "tip_of i = (case i_submitter i of
     Some h \<Rightarrow> (if bundleGroup h \<noteq> None then case tipLamports h of Some t \<Rightarrow> t | None \<Rightarrow> 0 else 0)
   | None \<Rightarrow> 0)"

definition route :: "nat \<Rightarrow> 'w exec_env \<Rightarrow> intent \<Rightarrow> bytes \<Rightarrow> 'w exec_state \<Rightarrow> ((string + exec_result) \<times> 'w exec_state) option" where
  "route fuel env i signedTx s =
     (let cs = candidates env i (x_world s)
      in case cs of
           [] \<Rightarrow> reject_now i None ''no_submitter'' ''no healthy submitter for requested kind'' s
         | submitter # _ \<Rightarrow>
             (case group_of i of
                Some grp \<Rightarrow>
                  (case on_world (e_bundleAdd env grp signedTx (tip_of i > 0)) s of
                     (Inl (WithoutTip e), s) \<Rightarrow> reject_now i None ''bundle_without_tip'' e s
                   | (Inl (FlushFailed e), s) \<Rightarrow> reject_now i None ''bundle_flush_failed'' e s
                   | (Inr (sig, flushedBy), s) \<Rightarrow>
                       (let s = s\<lparr>x_lastBundleSubmitter := flushedBy\<rparr>
                        in confirm fuel env i sig (case x_lastBundleSubmitter s of Some n \<Rightarrow> n | None \<Rightarrow> sub_name submitter) s))
              | None \<Rightarrow>
                  (case on_world (submit_single signedTx (filter (\<lambda>c. \<not> is_jito (sub_kind c)) cs) []) s of
                     (Inl errors, s) \<Rightarrow>
                       reject_now i (Some (sub_name submitter)) ''submit_failed''
                         (if join errors = [] then ''no submitter accepts single transactions'' else join errors) s
                   | (Inr (sig, name), s) \<Rightarrow> confirm fuel env i sig name s)))"

text \<open>The tip goes last; building it throws for an amount beyond 64 bits, and \<open>submit\<close> rejects with that.\<close>

definition with_tip :: "'w exec_env \<Rightarrow> intent \<Rightarrow> pubkey \<Rightarrow> string + instruction list" where
  "with_tip env i handle =
     (if tip_of i > 0
      then rbind (e_tipInstruction env handle (the (e_jitoTipAccount env)) (tip_of i)) (\<lambda>tip. Inr (i_instructions i @ [tip]))
      else Inr (i_instructions i))"

definition execute :: "nat \<Rightarrow> 'w exec_env \<Rightarrow> intent \<Rightarrow> 'w exec_state \<Rightarrow> ((string + exec_result) \<times> 'w exec_state) option" where
  "execute fuel env i s =
     (case on_world (e_resolveWallet env (i_wallet i)) s of
        (Inl e, s) \<Rightarrow> reject_now i None ''wallet_locked'' e s
      | (Inr handle, s) \<Rightarrow>
          (let s = emit (FeeTierEvent (intentId i) (feeTier i) (e_feeTier env (feeTier i))) s
           in case on_world (e_blockhash env) s of
                (Inl e, s) \<Rightarrow> reject_now i None ''blockhash_fetch_failed'' e s
              | (Inr recentBlockhash, s) \<Rightarrow>
                  if tip_of i > 0 \<and> e_jitoTipAccount env = None
                  then reject_now i None ''no_tip_account'' ''tipLamports set but no jitoTipAccount configured'' s
                  else (case with_tip env i handle of
                          Inl e \<Rightarrow> Some (Inl e, s)
                        | Inr ixs \<Rightarrow>
                            (case on_world (e_assemble env ixs handle recentBlockhash) s of
                               (Inl (ReserveBreach e), s) \<Rightarrow> reject_now i None ''reserve_breach'' e s
                             | (Inl (AssembleError e), s) \<Rightarrow> reject_now i None ''sign_failed'' e s
                             | (Inr signedTx, s) \<Rightarrow> route fuel env i signedTx s))))"

section \<open>The retry loop\<close>

definition BUMP_PROGRESSION :: "fee_tier list" where
  "BUMP_PROGRESSION = [Low, Med, High, Turbo]"

definition TERMINAL_REJECT_CODES :: "string list" where
  "TERMINAL_REJECT_CODES = [''reserve_breach'', ''sign_failed'', ''wallet_locked'', ''no_jito_submitter_for_bundle'',
     ''no_tip_account'', ''bundle_without_tip'']"

fun isTerminalResult :: "exec_result \<Rightarrow> bool" where
  "isTerminalResult (Landed _ _ _ _ _) = True"
| "isTerminalResult (Reverted _ _ _ _ _ _) = True"
| "isTerminalResult (Rejected _ _ code _) = (code \<in> set TERMINAL_REJECT_CODES)"
| "isTerminalResult (TimedOut _ _ _) = False"

definition bump :: "fee_tier \<Rightarrow> fee_tier" where
  "bump t = (case findIndex (\<lambda>x. x = t) BUMP_PROGRESSION of
     Some idx \<Rightarrow> if idx < length BUMP_PROGRESSION - 1 then BUMP_PROGRESSION ! (idx + 1) else t
   | None \<Rightarrow> t)"

text \<open>\<open>attempt\<close> runs from 1; the number of further attempts is explicit.\<close>

fun retry_loop :: "nat \<Rightarrow> 'w exec_env \<Rightarrow> intent \<Rightarrow> bool \<Rightarrow> nat \<Rightarrow> nat \<Rightarrow> fee_tier \<Rightarrow> 'w exec_state \<Rightarrow>
    ((string + exec_result) \<times> 'w exec_state) option" where
  "retry_loop fuel env i bumping further attempt tier s =
     (let s = emit (Attempt (intentId i) attempt tier) s
      in case execute fuel env (i\<lparr>feeTier := tier\<rparr>) s of
           None \<Rightarrow> None
         | Some (Inl e, s) \<Rightarrow> Some (Inl e, s)
         | Some (Inr r, s) \<Rightarrow>
             (if isTerminalResult r then Some (Inr r, s)
              else case further of
                     0 \<Rightarrow> Some (Inr r, s)
                   | Suc m \<Rightarrow> retry_loop fuel env i bumping m (attempt + 1) (if bumping then bump tier else tier) s))"

definition max_attempts :: "intent \<Rightarrow> nat" where
  "max_attempts i =
     (let raw = (case i_retry i of Some p \<Rightarrow> (case maxAttempts p of Some n \<Rightarrow> n | None \<Rightarrow> 1) | None \<Rightarrow> 1)
      in if raw > 0 then nat raw else 1)"

definition bumping_of :: "intent \<Rightarrow> bool" where
  "bumping_of i = (case i_retry i of Some p \<Rightarrow> (case bumpProgression p of Some b \<Rightarrow> b | None \<Rightarrow> False) | None \<Rightarrow> False)"

definition runWithRetry :: "nat \<Rightarrow> 'w exec_env \<Rightarrow> intent \<Rightarrow> 'w exec_state \<Rightarrow> ((string + exec_result) \<times> 'w exec_state) option" where
  "runWithRetry fuel env i s = retry_loop fuel env i (bumping_of i) (max_attempts i - 1) 1 (feeTier i) s"

text \<open>\<open>submit\<close>, for an intent that is not in flight.\<close>

definition submit :: "nat \<Rightarrow> 'w exec_env \<Rightarrow> intent \<Rightarrow> 'w exec_state \<Rightarrow> ((string + exec_result) \<times> 'w exec_state) option" where
  "submit fuel env i s =
     (if group_of i \<noteq> None \<and> \<not> list_ex (\<lambda>sub. is_jito (sub_kind sub) \<and> sub_healthy sub (x_world s)) (e_submitters env)
      then reject_now i None ''no_jito_submitter_for_bundle'' ''bundleGroup requires a healthy Jito submitter; none configured'' s
      else runWithRetry fuel env i s)"

section \<open>Bundles\<close>

definition transactionSignature :: "bytes \<Rightarrow> string + string" where
  "transactionSignature signedTx =
     (if length signedTx < 65 \<or> signedTx ! 0 = 0 then Inl ''signed transaction is too short to carry a signature''
      else Inr (base58_encode (jslice signedTx 1 65)))"

fun submit_bundle :: "bytes list \<Rightarrow> 'w submitter list \<Rightarrow> string list \<Rightarrow> 'w \<Rightarrow> (string list + string) \<times> 'w" where
  "submit_bundle txs [] errors w = (Inl errors, w)"
| "submit_bundle txs (c # cs) errors w =
     (case sub_submit c (Bundle txs) w of
        (Inl e, w) \<Rightarrow> submit_bundle txs cs (errors @ [sub_name c @ '': '' @ e]) w
      | (Inr _, w) \<Rightarrow> (Inr (sub_name c), w))"

text \<open>
  \<open>#flushBundle\<close> of entries \<open>(signedTx, tipped)\<close>. \<open>new Set(jito)\<close> keeps the first occurrence
  of each submitter; submitters are told apart by their place in the configuration.
\<close>

definition jito_order :: "'w exec_env \<Rightarrow> 'w \<Rightarrow> 'w submitter list" where
  "jito_order env w =
     (let kinds = filter is_jito (e_fallbackChain env @ [JitoGrpc, JitoHttp]);
          subs = zip [0..<length (e_submitters env)] (e_submitters env);
          jito = concat (map (\<lambda>kind. filter (\<lambda>(_, s). sub_kind s = kind \<and> sub_healthy s w) subs) kinds);
          firsts = map fst jito
      in map (\<lambda>idx. e_submitters env ! idx) (rev (remdups (rev firsts))))"

definition flushBundle :: "'w exec_env \<Rightarrow> (bytes \<times> bool) list \<Rightarrow> 'w exec_state \<Rightarrow> (bundle_failure + string list) \<times> 'w exec_state" where
  "flushBundle env entries s =
     (if \<not> list_ex snd entries
      then (Inl (WithoutTip ''bundle has no tip: set submitter.tipLamports on at least one intent in the group''), s)
      else case on_world (submit_bundle (map fst entries) (jito_order env (x_world s)) []) s of
             (Inl errors, s) \<Rightarrow>
               (Inl (FlushFailed (''bundle submission failed: '' @
                  (if join errors = [] then ''no healthy Jito submitter'' else join errors))), s)
           | (Inr name, s) \<Rightarrow>
               (map_sum FlushFailed id (rmap (transactionSignature \<circ> fst) entries), s\<lparr>x_lastBundleSubmitter := Some name\<rparr>))"

section \<open>One attempt\<close>

definition is_attempt :: "exec_event \<Rightarrow> bool" where
  "is_attempt ev = (case ev of Attempt _ _ _ \<Rightarrow> True | _ \<Rightarrow> False)"

lemma is_attempt_simps [simp]:
  "is_attempt (Attempt x n t)" "\<not> is_attempt (FeeTierEvent x t p)" "\<not> is_attempt (Result r)"
  by (simp_all add: is_attempt_def)

definition is_fee :: "exec_event \<Rightarrow> bool" where
  "is_fee ev = (case ev of FeeTierEvent _ _ _ \<Rightarrow> True | _ \<Rightarrow> False)"

lemma is_fee_simps [simp]:
  "is_fee (FeeTierEvent x t p)" "\<not> is_fee (Attempt x n t)" "\<not> is_fee (Result r)"
  by (simp_all add: is_fee_def)

lemma fees_no_attempts: "list_all is_fee evs \<Longrightarrow> filter is_attempt evs = []"
proof (induction evs)
  case (Cons ev evs)
  then show ?case by (cases ev) simp_all
qed simp

text \<open>A run from \<open>s\<close> that returned: its last event is its result, after fee telemetry only.\<close>

definition reports :: "'w exec_state \<Rightarrow> ((string + exec_result) \<times> 'w exec_state) option \<Rightarrow> bool" where
  "reports s out = (case out of
     Some (Inr r, s') \<Rightarrow> \<exists>evs. x_events s' = x_events s @ evs @ [Result r] \<and> list_all is_fee evs
   | Some (Inl e, s') \<Rightarrow> \<exists>evs. x_events s' = x_events s @ evs \<and> list_all is_fee evs
   | None \<Rightarrow> True)"

lemma reports_rejected: "reports s (reject_now i u c m s)"
  by (auto simp: reports_def rejected_def Let_def emit_def)

lemma reports_confirm: "reports s (confirm fuel env i sig u s)"
  by (auto simp: reports_def confirm_def Let_def emit_def split: option.splits sum.splits confirm_result.splits)

lemma on_world_events: "x_events (snd (on_world f s)) = x_events s"
  by (auto simp: on_world_def split: prod.splits)

lemma candidates_subset: "set (candidates env i w) \<subseteq> set (e_submitters env)"
  by (auto simp: candidates_def Let_def)

text \<open>
  What holds of a run of \<open>#execute\<close>, for any fact \<open>P\<close> about a start state and an outcome
  that can be carried back over the calls to the environment.
\<close>

lemma route_rule:
  assumes carry: "\<And>s s' out. P s' out \<Longrightarrow> le s s' \<Longrightarrow> P s out"
    and rej: "\<And>s u c m. P s (reject_now i u c m s)"
    and conf: "\<And>s sig u. P s (confirm fuel env i sig u s)"
    and gadd: "\<And>s g tx b. le s (snd (on_world (e_bundleAdd env g tx b) s))"
    and last: "\<And>s name. le s (s\<lparr>x_lastBundleSubmitter := name\<rparr>)"
    and single: "\<And>s tx cs. set cs \<subseteq> set (e_submitters env) \<Longrightarrow> le s (snd (on_world (submit_single tx cs []) s))"
  shows "P s (route fuel env i tx s)"
proof (cases "candidates env i (x_world s)")
  case Nil
  then show ?thesis using rej by (simp add: route_def)
next
  case (Cons sub subs)
  show ?thesis
  proof (cases "group_of i")
    case (Some g)
    obtain a s1 where ba: "on_world (e_bundleAdd env g tx (tip_of i > 0)) s = (a, s1)" by fastforce
    have "le s s1" using gadd [of s g tx "tip_of i > 0"] ba by simp
    then show ?thesis
      using Cons Some ba
      by (auto simp: route_def Let_def intro: carry [OF rej] carry [OF carry [OF conf last]] split: sum.split bundle_failure.split)
  next
    case None
    let ?cs = "filter (\<lambda>c. \<not> is_jito (sub_kind c)) (candidates env i (x_world s))"
    obtain a s1 where su: "on_world (submit_single tx ?cs []) s = (a, s1)" by fastforce
    have "set ?cs \<subseteq> set (e_submitters env)" using candidates_subset by fastforce
    then have le: "le s s1" using single [of ?cs s tx] su by simp
    show ?thesis
    proof (cases a)
      case (Inl errs)
      then show ?thesis
        using Cons None su le unfolding route_def Let_def by (auto intro: carry [OF rej])
    next
      case (Inr r)
      then show ?thesis
        using Cons None su le unfolding route_def Let_def by (cases r) (auto intro: carry [OF conf])
    qed
  qed
qed

lemma execute_rule:
  assumes carry: "\<And>s s' out. P s' out \<Longrightarrow> le s s' \<Longrightarrow> P s out"
    and rej: "\<And>s u c m. P s (reject_now i u c m s)"
    and conf: "\<And>s sig u. P s (confirm fuel env i sig u s)"
    and gadd: "\<And>s g tx b. le s (snd (on_world (e_bundleAdd env g tx b) s))"
    and last: "\<And>s name. le s (s\<lparr>x_lastBundleSubmitter := name\<rparr>)"
    and single: "\<And>s tx cs. set cs \<subseteq> set (e_submitters env) \<Longrightarrow> le s (snd (on_world (submit_single tx cs []) s))"
    and wallet: "\<And>s. le s (snd (on_world (e_resolveWallet env (i_wallet i)) s))"
    and fee: "\<And>s p. le s (emit (FeeTierEvent (intentId i) (feeTier i) p) s)"
    and hash: "\<And>s. le s (snd (on_world (e_blockhash env) s))"
    and asm: "\<And>s ixs h bh. le s (snd (on_world (e_assemble env ixs h bh) s))"
    and throws: "\<And>s e. P s (Some (Inl e, s))"
  shows "P s (execute fuel env i s)"
proof -
  note route = route_rule [of P le i fuel env, OF carry rej conf gadd last single]
  obtain a s1 where w: "on_world (e_resolveWallet env (i_wallet i)) s = (a, s1)" by fastforce
  have le1: "le s s1" using wallet [of s] w by simp
  show ?thesis
  proof (cases a)
    case (Inl e)
    then show ?thesis using w le1 by (auto simp: execute_def intro: carry [OF rej])
  next
    case (Inr handle)
    define s2 where "s2 = emit (FeeTierEvent (intentId i) (feeTier i) (e_feeTier env (feeTier i))) s1"
    have up: "P s out" if "P s2 out" for out
      using carry [OF carry [OF that] le1] fee by (simp add: s2_def)
    obtain b s3 where bh: "on_world (e_blockhash env) s2 = (b, s3)" by fastforce
    have le3: "le s2 s3" using hash [of s2] bh by simp
    show ?thesis
    proof (cases b)
      case (Inl e)
      then show ?thesis
        using w Inr bh le3 by (auto simp: execute_def Let_def simp flip: s2_def intro: up carry [OF rej])
    next
      case b: (Inr hash)
      have s3: "P s out" if "P s3 out" for out using up carry [OF that le3] .
      show ?thesis
      proof (cases "(tip_of i > 0 \<and> e_jitoTipAccount env = None) \<or> (\<exists>e. with_tip env i handle = Inl e)")
        case True
        then show ?thesis using w Inr bh b rej throws
          by (auto simp: execute_def Let_def simp flip: s2_def intro!: s3)
      next
        case False
        then obtain ixs where ixs: "with_tip env i handle = Inr ixs" by (cases "with_tip env i handle") auto
        obtain c s4 where as4: "on_world (e_assemble env ixs handle hash) s3 = (c, s4)" by fastforce
        have le4: "le s3 s4" using asm [of s3 ixs handle hash] as4 by simp
        have tip: "\<not> (tip_of i > 0 \<and> e_jitoTipAccount env = None)" using False by simp
        have "execute fuel env i s =
          (case c of Inl (ReserveBreach e) \<Rightarrow> reject_now i None ''reserve_breach'' e s4
                   | Inl (AssembleError e) \<Rightarrow> reject_now i None ''sign_failed'' e s4
                   | Inr signedTx \<Rightarrow> route fuel env i signedTx s4)"
          using w Inr bh b as4 ixs
          by (simp add: execute_def Let_def if_not_P [OF tip] flip: s2_def split: sum.split assemble_failure.split)
        moreover have "P s out" if "P s4 out" for out using up carry [OF carry [OF that le4] le3] .
        ultimately show ?thesis
          using rej route by (simp split: sum.split assemble_failure.split)
      qed
    qed
  qed
qed

lemma reports_execute: "reports s (execute fuel env i s)"
proof (rule execute_rule [where le = "\<lambda>s s'. \<exists>evs. x_events s' = x_events s @ evs \<and> list_all is_fee evs"])
  show "reports s out" if "reports s' out" and "\<exists>evs. x_events s' = x_events s @ evs \<and> list_all is_fee evs"
    for s s' :: "'a exec_state" and out
    using that by (fastforce simp: reports_def split: option.splits sum.splits)
  show "reports s (Some (Inl e, s))" for s :: "'a exec_state" and e
    by (simp add: reports_def)
qed (use reports_rejected reports_confirm in \<open>auto simp: on_world_events emit_def\<close>)

section \<open>The attempts of one intent\<close>

fun bumps :: "bool \<Rightarrow> nat \<Rightarrow> fee_tier \<Rightarrow> fee_tier" where
  "bumps bumping 0 t = t"
| "bumps bumping (Suc k) t = bumps bumping k (if bumping then bump t else t)"

lemma retry_loop_attempts:
  assumes "retry_loop fuel env i bumping further att tier s = Some (Inr r, s')"
  shows "\<exists>n evs. n \<le> further \<and> (isTerminalResult r \<or> n = further) \<and> x_events s' = x_events s @ evs @ [Result r] \<and>
    filter is_attempt evs = map (\<lambda>k. Attempt (intentId i) (att + k) (bumps bumping k tier)) [0..<Suc n]"
  using assms
proof (induction further arbitrary: att tier s)
  case (0 att tier s)
  let ?s = "emit (Attempt (intentId i) att tier) s"
  have "reports ?s (execute fuel env (i\<lparr>feeTier := tier\<rparr>) ?s)" by (rule reports_execute)
  moreover have ex: "execute fuel env (i\<lparr>feeTier := tier\<rparr>) ?s = Some (Inr r, s')"
    using 0 by (auto simp: Let_def split: option.splits sum.splits if_splits)
  ultimately obtain e1 where "x_events s' = x_events s @ [Attempt (intentId i) att tier] @ e1 @ [Result r]" "filter is_attempt e1 = []"
    by (auto simp: reports_def emit_def dest: fees_no_attempts)
  then show ?case
    by (intro exI [of _ 0] exI [of _ "Attempt (intentId i) att tier # e1"]) simp
next
  case (Suc m att tier s)
  let ?s = "emit (Attempt (intentId i) att tier) s"
  have rep: "reports ?s (execute fuel env (i\<lparr>feeTier := tier\<rparr>) ?s)" by (rule reports_execute)
  obtain r1 s1 where ex: "execute fuel env (i\<lparr>feeTier := tier\<rparr>) ?s = Some (Inr r1, s1)"
    using Suc.prems by (auto simp: Let_def split: option.splits sum.splits)
  then obtain e1 where e1: "x_events s1 = x_events s @ [Attempt (intentId i) att tier] @ e1 @ [Result r1]" "filter is_attempt e1 = []"
    using rep by (auto simp: reports_def emit_def dest: fees_no_attempts)
  show ?case
  proof (cases "isTerminalResult r1")
    case True
    then have "r = r1" "s' = s1" using Suc.prems ex by (simp_all add: Let_def)
    then show ?thesis
      using e1 True by (intro exI [of _ 0] exI [of _ "Attempt (intentId i) att tier # e1"]) simp
  next
    case False
    let ?t = "if bumping then bump tier else tier"
    have "retry_loop fuel env i bumping m (att + 1) ?t s1 = Some (Inr r, s')"
      using Suc.prems ex False by (simp add: Let_def)
    from Suc.IH [OF this] obtain n evs where n: "n \<le> m" "isTerminalResult r \<or> n = m"
      "x_events s' = x_events s1 @ evs @ [Result r]"
      "filter is_attempt evs = map (\<lambda>k. Attempt (intentId i) (att + 1 + k) (bumps bumping k ?t)) [0..<Suc n]"
      by blast
    have split: "map f [0..<Suc (Suc n)] = f 0 # map (\<lambda>k. f (Suc k)) [0..<Suc n]" for f :: "nat \<Rightarrow> exec_event"
      by (simp add: map_Suc_upt [symmetric] upt_conv_Cons del: upt_Suc)
    let ?evs = "Attempt (intentId i) att tier # e1 @ [Result r1] @ evs"
    have "filter is_attempt ?evs = map (\<lambda>k. Attempt (intentId i) (att + k) (bumps bumping k tier)) [0..<Suc (Suc n)]"
      unfolding split using n(4) e1(2) by (simp del: upt_Suc)
    moreover have "x_events s' = x_events s @ ?evs @ [Result r]" using n(3) e1(1) by simp
    moreover have "Suc n \<le> Suc m" "isTerminalResult r \<or> Suc n = Suc m" using n(1,2) by auto
    ultimately show ?thesis by blast
  qed
qed

section \<open>Time\<close>

text \<open>
  The documented behaviour of the clock: no call moves it back, and a sleep of the polling
  loop moves it on.
\<close>

definition never_back :: "'w exec_env \<Rightarrow> ('w \<Rightarrow> 'a \<times> 'w) \<Rightarrow> bool" where
  "never_back env f \<longleftrightarrow> (\<forall>w. e_now env w \<le> e_now env (snd (f w)))"

definition clock_ok :: "'w exec_env \<Rightarrow> bool" where
  "clock_ok env \<longleftrightarrow>
     (\<forall>n. never_back env (e_resolveWallet env n)) \<and> never_back env (e_blockhash env) \<and>
     (\<forall>ixs h b. never_back env (e_assemble env ixs h b)) \<and> (\<forall>g tx b. never_back env (e_bundleAdd env g tx b)) \<and>
     (\<forall>sig. never_back env (e_signatureStatus env sig)) \<and> (\<forall>sig. never_back env (e_transactionLogs env sig)) \<and>
     (\<forall>sub \<in> set (e_submitters env). \<forall>p. never_back env (sub_submit sub p)) \<and>
     (\<forall>w. e_now env w < e_now env (e_sleep env w))"

lemma never_backD: "never_back env f \<Longrightarrow> f w = (a, w') \<Longrightarrow> e_now env w \<le> e_now env w'"
  by (auto simp: never_back_def dest: spec [of _ w])

lemma never_back_on_world:
  "never_back env f \<Longrightarrow> e_now env (x_world s) \<le> e_now env (x_world (snd (on_world f s)))"
  by (auto simp: on_world_def dest: never_backD split: prod.split)

lemma submit_single_clock:
  assumes "clock_ok env" "set cs \<subseteq> set (e_submitters env)"
  shows "never_back env (submit_single tx cs errors)"
proof -
  have "e_now env w \<le> e_now env (snd (submit_single tx cs errors w))" for w
    using assms(2)
  proof (induction cs arbitrary: errors w)
    case (Cons c cs)
    obtain a w1 where su: "sub_submit c (SingleTx tx) w = (a, w1)" by fastforce
    have "never_back env (sub_submit c (SingleTx tx))"
      using assms(1) Cons.prems by (auto simp: clock_ok_def)
    then have le: "e_now env w \<le> e_now env w1" using su by (rule never_backD)
    have ih: "e_now env w \<le> e_now env (snd (submit_single tx cs es w1))" for es
      using le Cons.IH [of w1 es] Cons.prems by simp
    show ?case
    proof (cases a)
      case (Inl e)
      then show ?thesis using su ih by simp
    next
      case (Inr sig)
      then show ?thesis using su le ih by (cases sig; cases "the sig") simp_all
    qed
  qed simp
  then show ?thesis by (simp add: never_back_def)
qed

text \<open>
  A timed run: it returns when the fuel covers the time to the deadline; it never moves the
  clock back; a timeout is reported at or after the deadline, a landing or a revert is found by
  a poll made before it.
\<close>

definition timed :: "nat \<Rightarrow> 'w exec_env \<Rightarrow> int \<Rightarrow> 'w exec_state \<Rightarrow> ((string + exec_result) \<times> 'w exec_state) option \<Rightarrow> bool" where
  "timed fuel env dl s out = (case out of
     None \<Rightarrow> int fuel \<le> dl - e_now env (x_world s) \<or> fuel = 0
   | Some (res, s') \<Rightarrow> e_now env (x_world s) \<le> e_now env (x_world s') \<and>
       (case res of
          Inr (TimedOut _ _ _) \<Rightarrow> dl \<le> e_now env (x_world s')
        | Inr (Landed _ _ _ _ _) \<Rightarrow> e_now env (x_world s) < dl
        | Inr (Reverted _ _ _ _ _ _) \<Rightarrow> e_now env (x_world s) < dl
        | _ \<Rightarrow> True))"

definition confirm_timed :: "nat \<Rightarrow> 'w exec_env \<Rightarrow> int \<Rightarrow> 'w \<Rightarrow> ((string + confirm_result) \<times> 'w) option \<Rightarrow> bool" where
  "confirm_timed fuel env dl w out = (case out of
     None \<Rightarrow> int fuel \<le> dl - e_now env w \<or> fuel = 0
   | Some (res, w') \<Rightarrow> e_now env w \<le> e_now env w' \<and>
       (case res of
          Inl _ \<Rightarrow> True
        | Inr r \<Rightarrow> if r = ConfirmTimeout then dl \<le> e_now env w' else e_now env w < dl))"

lemma confirm_timed_later:
  assumes "confirm_timed n env dl w1 out" "e_now env w < e_now env w1" "e_now env w < dl"
  shows "confirm_timed (Suc n) env dl w out"
  using assms by (cases out) (auto simp: confirm_timed_def split: sum.splits if_splits)

lemma confirmLanded_timed:
  assumes "clock_ok env"
  shows "confirm_timed fuel env dl w (confirmLanded fuel env sig dl w)"
proof (induction fuel arbitrary: w)
  case (Suc n)
  show ?case
  proof (cases "e_now env w < dl")
    case True
    obtain st w1 where st: "e_signatureStatus env sig w = (st, w1)" by fastforce
    have le1: "e_now env w \<le> e_now env w1"
      using assms never_backD [of env "e_signatureStatus env sig" w, OF _ st] by (simp add: clock_ok_def)
    obtain lg w2 where lg: "e_transactionLogs env sig w1 = (lg, w2)" by fastforce
    have le2: "e_now env w1 \<le> e_now env w2"
      using assms never_backD [of env "e_transactionLogs env sig" w1, OF _ lg] by (simp add: clock_ok_def)
    have slp: "e_now env w1 < e_now env (e_sleep env w1)" using assms by (simp add: clock_ok_def)
    note ih = Suc.IH [of "e_sleep env w1"]
    have rec: "confirm_timed (Suc n) env dl w (confirmLanded n env sig dl (e_sleep env w1))"
      by (rule confirm_timed_later [OF ih]) (use le1 slp True in simp_all)
    show ?thesis
    proof (cases st)
      case (Inl e)
      then show ?thesis using True st le1 by (simp add: confirm_timed_def)
    next
      case r: (Inr so)
      show ?thesis
      proof (cases so)
        case None
        then show ?thesis using rec True st r by simp
      next
        case (Some status)
        show ?thesis
        proof (cases "st_err status")
          case None
          show ?thesis
          proof (cases "st_confirmation status = ''confirmed'' \<or> st_confirmation status = ''finalized''")
            case True
            then show ?thesis using \<open>e_now env w < dl\<close> st r Some None le1 by (simp add: confirm_timed_def)
          next
            case False
            then show ?thesis using rec True st r Some None by simp
          qed
        next
          case (Some err)
          then show ?thesis
            using True st r \<open>so = Some status\<close> lg le1 le2 by (cases lg) (simp_all add: confirm_timed_def)
        qed
      qed
    qed
  next
    case False
    then show ?thesis by (simp add: confirm_timed_def)
  qed
qed (simp add: confirm_timed_def)

lemma confirm_timed_run:
  assumes "clock_ok env"
  shows "timed fuel env (deadline i) s (confirm fuel env i sig u s)"
  using confirmLanded_timed [OF assms, of fuel "deadline i" "x_world s" sig]
  by (auto simp: timed_def confirm_timed_def confirm_def emit_def Let_def split: option.splits sum.splits confirm_result.splits)

lemma rejected_timed: "timed fuel env dl s (reject_now i u c m s)"
  by (simp add: timed_def rejected_def Let_def emit_def)

lemma timed_carry:
  assumes "timed fuel env dl s' out" "e_now env (x_world s) \<le> e_now env (x_world s')"
  shows "timed fuel env dl s out"
  using assms by (auto simp: timed_def split: option.splits sum.splits exec_result.splits)

lemma emit_world [simp]: "x_world (emit ev s) = x_world s"
  by (simp add: emit_def)

lemma timed_emit [simp]: "timed fuel env dl (emit ev s) out \<longleftrightarrow> timed fuel env dl s out"
  unfolding timed_def emit_world ..

lemma execute_timed:
  assumes "clock_ok env"
  shows "timed fuel env (deadline i) s (execute fuel env i s)"
proof (rule execute_rule [where le = "\<lambda>s s'. e_now env (x_world s) \<le> e_now env (x_world s')"])
  show "e_now env (x_world s) \<le> e_now env (x_world (snd (on_world (submit_single tx cs []) s)))"
    if "set cs \<subseteq> set (e_submitters env)" for s tx cs
    using never_back_on_world [OF submit_single_clock [OF assms that]] .
  show "timed fuel env (deadline i) s (Some (Inl e, s))" for s e
    by (simp add: timed_def)
qed (use assms in \<open>auto simp: clock_ok_def emit_def intro!: never_back_on_world
       intro: timed_carry rejected_timed confirm_timed_run [OF assms]\<close>)

definition landing :: "exec_event \<Rightarrow> bool" where
  "landing ev = (case ev of Result (Landed _ _ _ _ _) \<Rightarrow> True | Result (Reverted _ _ _ _ _ _) \<Rightarrow> True | _ \<Rightarrow> False)"

fun quiet_after_timeout :: "exec_event list \<Rightarrow> bool" where
  "quiet_after_timeout [] = True"
| "quiet_after_timeout (ev # evs) =
     ((case ev of Result (TimedOut _ _ _) \<Rightarrow> list_all (\<lambda>e. \<not> landing e) evs | _ \<Rightarrow> True) \<and> quiet_after_timeout evs)"

lemma fees_quiet:
  assumes "list_all is_fee evs"
  shows "quiet_after_timeout (evs @ rest) = quiet_after_timeout rest" "list_all (\<lambda>e. \<not> landing e) evs"
  using assms
proof (induction evs)
  case (Cons ev evs)
  {
    case 1
    then show ?case using Cons.IH by (cases ev) simp_all
  next
    case 2
    then show ?case using Cons.IH by (cases ev) (simp_all add: landing_def)
  }
qed simp_all

text \<open>The retry loop, given that each attempt is timed.\<close>

lemma retry_timed:
  assumes "clock_ok env"
  shows "timed fuel env (deadline i) s (retry_loop fuel env i bumping further att tier s)"
proof (induction further arbitrary: att tier s)
  case (0 att tier s)
  let ?s = "emit (Attempt (intentId i) att tier) s"
  have "timed fuel env (deadline i) ?s (execute fuel env (i\<lparr>feeTier := tier\<rparr>) ?s)"
    using execute_timed [OF assms, of fuel "i\<lparr>feeTier := tier\<rparr>" ?s] by simp
  moreover have "retry_loop fuel env i bumping 0 att tier s = execute fuel env (i\<lparr>feeTier := tier\<rparr>) ?s"
    by (auto simp: Let_def split: option.split sum.split)
  ultimately show ?case by simp
next
  case (Suc m att tier s)
  let ?s = "emit (Attempt (intentId i) att tier) s"
  have w: "x_world ?s = x_world s" by (simp add: emit_def)
  have t: "timed fuel env (deadline i) ?s (execute fuel env (i\<lparr>feeTier := tier\<rparr>) ?s)"
    using execute_timed [OF assms, of fuel "i\<lparr>feeTier := tier\<rparr>" ?s] by simp
  show ?case
  proof (cases "\<exists>r s1. execute fuel env (i\<lparr>feeTier := tier\<rparr>) ?s = Some (Inr r, s1) \<and> \<not> isTerminalResult r")
    case True
    then obtain r s1 where ex: "execute fuel env (i\<lparr>feeTier := tier\<rparr>) ?s = Some (Inr r, s1)" "\<not> isTerminalResult r"
      by blast
    have "e_now env (x_world s) \<le> e_now env (x_world s1)" using t ex w by (simp add: timed_def)
    from timed_carry [OF Suc.IH this] show ?thesis using ex by (simp add: Let_def)
  next
    case False
    then have "retry_loop fuel env i bumping (Suc m) att tier s = execute fuel env (i\<lparr>feeTier := tier\<rparr>) ?s"
      by (auto simp: Let_def split: option.split sum.split)
    then show ?thesis using t by simp
  qed
qed

lemma attempt_quiet:
  assumes "clock_ok env" and ex: "execute fuel env (i\<lparr>feeTier := tier\<rparr>) (emit (Attempt x n tier) s) = Some (res, s')"
  shows "\<exists>evs. x_events s' = x_events s @ evs \<and> quiet_after_timeout evs \<and>
    (deadline i \<le> e_now env (x_world s) \<longrightarrow> list_all (\<lambda>e. \<not> landing e) evs)"
proof -
  let ?s = "emit (Attempt x n tier) s"
  have rep: "reports ?s (Some (res, s'))" using reports_execute ex by metis
  have t: "timed fuel env (deadline i) ?s (Some (res, s'))"
    using execute_timed [OF assms(1), of fuel "i\<lparr>feeTier := tier\<rparr>" ?s] ex by simp
  show ?thesis
  proof (cases res)
    case (Inl e)
    then obtain e1 where e1: "x_events s' = x_events s @ [Attempt x n tier] @ e1" "list_all is_fee e1"
      using rep by (auto simp: reports_def emit_def)
    then show ?thesis
      using fees_quiet(1) [of e1 "[]"] fees_quiet(2) [OF e1(2)]
      by (intro exI [of _ "Attempt x n tier # e1"]) (simp add: landing_def)
  next
    case (Inr r)
    then obtain e1 where e1: "x_events s' = x_events s @ [Attempt x n tier] @ e1 @ [Result r]" "list_all is_fee e1"
      using rep by (auto simp: reports_def emit_def)
    moreover have "\<not> landing (Result r)" if "deadline i \<le> e_now env (x_world s)"
      using t Inr that by (cases r) (simp_all add: timed_def landing_def emit_def)
    moreover have "quiet_after_timeout [Result r]" by (cases r) simp_all
    ultimately show ?thesis
      using fees_quiet [OF e1(2)]
      by (intro exI [of _ "Attempt x n tier # e1 @ [Result r]"]) (auto simp: landing_def)
  qed
qed

lemma retry_quiet:
  assumes "clock_ok env" "retry_loop fuel env i bumping further att tier s = Some (res, s')"
  shows "\<exists>evs. x_events s' = x_events s @ evs \<and> quiet_after_timeout evs \<and>
    (deadline i \<le> e_now env (x_world s) \<longrightarrow> list_all (\<lambda>e. \<not> landing e) evs)"
  using assms(2)
proof (induction further arbitrary: att tier s)
  case (0 att tier s)
  let ?s = "emit (Attempt (intentId i) att tier) s"
  have ex: "execute fuel env (i\<lparr>feeTier := tier\<rparr>) ?s = Some (res, s')"
    using 0 by (simp add: Let_def split: option.splits sum.splits prod.splits if_splits)
  show ?case using attempt_quiet [OF assms(1) ex] by blast
next
  case (Suc m att tier s)
  let ?s = "emit (Attempt (intentId i) att tier) s"
  show ?case
  proof (cases "execute fuel env (i\<lparr>feeTier := tier\<rparr>) ?s = Some (res, s')")
    case True
    then show ?thesis using attempt_quiet [OF assms(1) True] by blast
  next
    case False
    then obtain r s1 where ex: "execute fuel env (i\<lparr>feeTier := tier\<rparr>) ?s = Some (Inr r, s1)" "\<not> isTerminalResult r"
      using Suc.prems by (auto simp: Let_def split: option.splits sum.splits if_splits)
    let ?t = "if bumping then bump tier else tier"
    have "retry_loop fuel env i bumping m (att + 1) ?t s1 = Some (res, s')" using Suc.prems ex by (simp add: Let_def)
    from Suc.IH [OF this] obtain e2 where e2: "x_events s' = x_events s1 @ e2" "quiet_after_timeout e2"
      "deadline i \<le> e_now env (x_world s1) \<longrightarrow> list_all (\<lambda>e. \<not> landing e) e2" by blast
    obtain e1 where e1: "x_events s1 = x_events s @ [Attempt (intentId i) att tier] @ e1 @ [Result r]" "list_all is_fee e1"
      using reports_execute [of ?s fuel env "i\<lparr>feeTier := tier\<rparr>"] ex by (auto simp: reports_def emit_def)
    have t: "timed fuel env (deadline i) ?s (Some (Inr r, s1))"
      using execute_timed [OF assms(1), of fuel "i\<lparr>feeTier := tier\<rparr>" ?s] ex by simp
    have "e_now env (x_world s) \<le> e_now env (x_world s1)" using t by (simp add: timed_def emit_def)
    moreover have "\<not> landing (Result r)" using ex(2) by (cases r) (simp_all add: landing_def)
    moreover have "quiet_after_timeout (Result r # e2)"
      using e2 t ex(2) by (cases r) (simp_all add: timed_def)
    ultimately show ?thesis
      using e1 e2 fees_quiet [OF e1(2)]
      by (intro exI [of _ "Attempt (intentId i) att tier # e1 @ Result r # e2"]) (auto simp: landing_def)
  qed
qed

section \<open>A concrete environment\<close>

text \<open>
  The world is the clock and the transactions that reached the network. The chain hands out a
  new blockhash after every five ticks, the assembler's output carries it, and the RPC node
  accepts every transaction but reports no status before the deadline.
\<close>

definition sample_rpc :: "(int \<times> bytes list) submitter" where
  "sample_rpc = \<lparr>sub_name = ''rpc-1'', sub_kind = Rpc, sub_healthy = (\<lambda>_. True),
     sub_submit = (\<lambda>p (t, txs). case p of SingleTx tx \<Rightarrow> (Inr (Some ''sig''), (t + 1, txs @ [tx]))
                                        | Bundle ts \<Rightarrow> (Inr None, (t + 1, txs @ ts)))\<rparr>"

definition sample_exec_env :: "(int \<times> bytes list) exec_env" where
  "sample_exec_env = \<lparr>e_resolveWallet = (\<lambda>n w. (Inr zero_key, w)), e_feeTier = (\<lambda>_. 5),
     e_blockhash = (\<lambda>(t, txs). (Inr (if t < 5 then ''H1'' else ''H2''), (t + 1, txs))),
     e_assemble = (\<lambda>ixs h bh w. (Inr (if bh = ''H1'' then [1, 1] else [1, 2]), w)),
     e_tipInstruction = (\<lambda>p t l. Inr \<lparr>programId = p, ix_keys = [], ix_data = []\<rparr>),
     e_bundleAdd = (\<lambda>g tx b w. (Inl (FlushFailed ''no bundles''), w)),
     e_now = fst,
     e_signatureStatus = (\<lambda>sig (t, txs). (Inr (if t \<ge> 8 then Some \<lparr>st_slot = 7, st_confirmation = ''confirmed'', st_err = None\<rparr> else None), (t + 1, txs))),
     e_transactionLogs = (\<lambda>sig w. (Inr [], w)),
     e_sleep = (\<lambda>(t, txs). (t + 1, txs)),
     e_submitters = [sample_rpc], e_jitoTipAccount = None, e_defaultSubmitter = Rpc,
     e_fallbackChain = [JitoGrpc, JitoHttp, Rpc]\<rparr>"

definition sample_intent :: "int \<Rightarrow> intent" where
  "sample_intent dl = \<lparr>intentId = ''buy-1'', i_wallet = ''main'', i_instructions = [], feeTier = Med, deadline = dl,
     i_submitter = None, i_retry = Some \<lparr>maxAttempts = Some 3, bumpProgression = Some True\<rparr>\<rparr>"

definition sample_start :: "(int \<times> bytes list) exec_state" where
  "sample_start = \<lparr>x_world = (0, []), x_events = [], x_lastBundleSubmitter = None\<rparr>"

lemmas sample_exec_defs = sample_exec_env_def sample_rpc_def sample_intent_def sample_start_def

lemma sample_clock: "clock_ok sample_exec_env"
  by (auto simp: clock_ok_def never_back_def sample_exec_env_def sample_rpc_def split: payload.split)

lemma sample_timeout: "submit 9 sample_exec_env (sample_intent 6) sample_start =
  Some (Inr (TimedOut ''buy-1'' ''sig'' ''rpc-1''),
    \<lparr>x_world = (10, [[1, 1], [1, 2], [1, 2]]),
     x_events = [Attempt ''buy-1'' 1 Med, FeeTierEvent ''buy-1'' Med 5, Result (TimedOut ''buy-1'' ''sig'' ''rpc-1''),
       Attempt ''buy-1'' 2 High, FeeTierEvent ''buy-1'' High 5, Result (TimedOut ''buy-1'' ''sig'' ''rpc-1''),
       Attempt ''buy-1'' 3 Turbo, FeeTierEvent ''buy-1'' Turbo 5, Result (TimedOut ''buy-1'' ''sig'' ''rpc-1'')],
     x_lastBundleSubmitter = None\<rparr>)"
  by code_simp

section \<open>Properties\<close>

definition tier_index :: "fee_tier \<Rightarrow> nat" where
  "tier_index t = (case t of Low \<Rightarrow> 0 | Med \<Rightarrow> 1 | High \<Rightarrow> 2 | Turbo \<Rightarrow> 3)"

lemma bumps_plateau: "bumps b k t = (if b then BUMP_PROGRESSION ! min 3 (tier_index t + k) else t)"
proof (cases b)
  case True
  have "bumps True k t = BUMP_PROGRESSION ! min 3 (tier_index t + k)"
  proof (induction k arbitrary: t)
    case 0
    show ?case by (cases t) (simp_all add: tier_index_def BUMP_PROGRESSION_def)
  next
    case (Suc k)
    have "min 3 (tier_index (bump t) + k) = min 3 (tier_index t + Suc k)"
      by (cases t) (simp_all add: tier_index_def bump_def BUMP_PROGRESSION_def)
    then show ?case using Suc [of "bump t"] by simp
  qed
  then show ?thesis using True by simp
next
  case False
  have "bumps False k t = t" by (induction k) simp_all
  then show ?thesis using False by simp
qed

lemma max_attempts_pos: "1 \<le> max_attempts i"
  by (auto simp: max_attempts_def Let_def split: option.split)

text \<open>
  C8. The attempts of a submitted intent are numbered 1, 2, .. without gaps, at most
  \<open>maxAttempts\<close> of them (one when the policy is missing or not positive); with
  \<open>bumpProgression\<close> the fee tier climbs one step per attempt and stays at the top; the
  result returned is the last event, and it is terminal or follows the last allowed attempt.
\<close>

theorem submit_attempts:
  assumes "submit fuel env i s = Some (Inr r, s')"
  shows "\<exists>n evs. n \<le> max_attempts i \<and> x_events s' = x_events s @ evs @ [Result r]
    \<and> filter is_attempt evs = map (\<lambda>k. Attempt (intentId i) (Suc k)
        (if bumping_of i then BUMP_PROGRESSION ! min 3 (tier_index (feeTier i) + k) else feeTier i)) [0..<n]
    \<and> (isTerminalResult r \<or> n = max_attempts i)"
proof (cases "group_of i \<noteq> None \<and> \<not> list_ex (\<lambda>sub. is_jito (sub_kind sub) \<and> sub_healthy sub (x_world s)) (e_submitters env)")
  case True
  then show ?thesis
    using assms
    by (intro exI [of _ 0] exI [of _ "[]"])
      (auto simp: submit_def rejected_def Let_def emit_def TERMINAL_REJECT_CODES_def)
next
  case False
  then have "retry_loop fuel env i (bumping_of i) (max_attempts i - 1) 1 (feeTier i) s = Some (Inr r, s')"
    using assms unfolding submit_def runWithRetry_def by (simp only: if_False)
  from retry_loop_attempts [OF this] obtain n evs where n: "n \<le> max_attempts i - 1" "isTerminalResult r \<or> n = max_attempts i - 1"
    "x_events s' = x_events s @ evs @ [Result r]"
    "filter is_attempt evs = map (\<lambda>k. Attempt (intentId i) (1 + k) (bumps (bumping_of i) k (feeTier i))) [0..<Suc n]"
    by blast
  then have "Suc n \<le> max_attempts i" "isTerminalResult r \<or> Suc n = max_attempts i"
    using max_attempts_pos [of i] by auto
  then show ?thesis
    using n(3,4) unfolding bumps_plateau by (intro exI [of _ "Suc n"] exI [of _ evs]) (simp del: upt_Suc)
qed

theorem submit_attempts_witness:
  "\<exists>n evs. n \<le> (3 :: nat) \<and> [Attempt ''buy-1'' 1 Med, FeeTierEvent ''buy-1'' Med 5, Result (TimedOut ''buy-1'' ''sig'' ''rpc-1''),
       Attempt ''buy-1'' 2 High, FeeTierEvent ''buy-1'' High 5, Result (TimedOut ''buy-1'' ''sig'' ''rpc-1''),
       Attempt ''buy-1'' 3 Turbo, FeeTierEvent ''buy-1'' Turbo 5, Result (TimedOut ''buy-1'' ''sig'' ''rpc-1'')]
      = evs @ [Result (TimedOut ''buy-1'' ''sig'' ''rpc-1'')]
    \<and> filter is_attempt evs = map (\<lambda>k. Attempt ''buy-1'' (Suc k) (BUMP_PROGRESSION ! min 3 (1 + k))) [0..<n] \<and> n = 3"
proof -
  have "max_attempts (sample_intent 6) = 3" "bumping_of (sample_intent 6)" "intentId (sample_intent 6) = ''buy-1''"
    "tier_index (feeTier (sample_intent 6)) = 1" "x_events sample_start = []"
    by (simp_all add: sample_exec_defs max_attempts_def bumping_of_def tier_index_def)
  then show ?thesis
    using submit_attempts [OF sample_timeout] by (simp only: isTerminalResult.simps append_Nil if_True exec_state.select_convs simp_thms)
qed

text \<open>
  C9. Submission returns: when the clock never goes back and moves on with every sleep, a
  polling budget larger than the time left to the deadline is enough for all the attempts
  together.
\<close>

theorem submit_returns:
  assumes "clock_ok env" and "deadline i - e_now env (x_world s) < int fuel" and "0 < fuel"
  shows "\<exists>res s'. submit fuel env i s = Some (res, s') \<and> e_now env (x_world s) \<le> e_now env (x_world s')"
proof -
  let ?no = "group_of i \<noteq> None \<and> \<not> list_ex (\<lambda>sub. is_jito (sub_kind sub) \<and> sub_healthy sub (x_world s)) (e_submitters env)"
  have "timed fuel env (deadline i) s (submit fuel env i s)"
  proof (cases ?no)
    case True
    then show ?thesis by (simp add: submit_def rejected_timed)
  next
    case False
    then have "submit fuel env i s = runWithRetry fuel env i s" unfolding submit_def by (simp only: if_False)
    then show ?thesis using retry_timed [OF assms(1)] unfolding runWithRetry_def by (simp only:)
  qed
  then show ?thesis using assms(2,3) by (cases "submit fuel env i s") (auto simp: timed_def)
qed

theorem submit_returns_witness: "\<exists>res s'. submit 9 sample_exec_env (sample_intent 6) sample_start = Some (res, s') \<and> 0 \<le> e_now sample_exec_env (x_world s')"
  using submit_returns [OF sample_clock, of "sample_intent 6" sample_start 9] by (simp add: sample_exec_defs)

text \<open>
  A timeout is final as far as the chain is concerned: retries never extend the deadline,
  so once an attempt of an intent timed out, no later attempt of it reports a landing or a
  revert, whatever was submitted.
\<close>

theorem no_landing_after_timeout:
  assumes "clock_ok env" and "submit fuel env i s = Some (res, s')"
  shows "\<exists>evs. x_events s' = x_events s @ evs \<and> quiet_after_timeout evs"
proof (cases "group_of i \<noteq> None \<and> \<not> list_ex (\<lambda>sub. is_jito (sub_kind sub) \<and> sub_healthy sub (x_world s)) (e_submitters env)")
  case True
  then show ?thesis
    using assms by (auto simp: submit_def rejected_def Let_def emit_def)
next
  case False
  then have "retry_loop fuel env i (bumping_of i) (max_attempts i - 1) 1 (feeTier i) s = Some (res, s')"
    using assms(2) unfolding submit_def runWithRetry_def by (simp only: if_False)
  from retry_quiet [OF assms(1) this] show ?thesis by blast
qed

theorem no_landing_after_timeout_witness:
  "\<exists>evs. [Attempt ''buy-1'' 1 Med, FeeTierEvent ''buy-1'' Med 5, Result (TimedOut ''buy-1'' ''sig'' ''rpc-1''),
       Attempt ''buy-1'' 2 High, FeeTierEvent ''buy-1'' High 5, Result (TimedOut ''buy-1'' ''sig'' ''rpc-1''),
       Attempt ''buy-1'' 3 Turbo, FeeTierEvent ''buy-1'' Turbo 5, Result (TimedOut ''buy-1'' ''sig'' ''rpc-1'')]
     = [] @ evs \<and> quiet_after_timeout evs"
  using no_landing_after_timeout [OF sample_clock sample_timeout] by (simp only: exec_state.select_convs sample_start_def)

text \<open>
  What the retry of a timeout does: the retried attempts fetch another blockhash and send
  another signed transaction, so two different transactions for one intent reach the network
  while the first one is still valid; the intent reports a timeout although its transaction is
  confirmed when \<open>submit\<close> returns.
\<close>

theorem timeout_retry_sends_twice:
  "\<exists>s'. submit 9 sample_exec_env (sample_intent 6) sample_start = Some (Inr (TimedOut ''buy-1'' ''sig'' ''rpc-1''), s')
     \<and> snd (x_world s') = [[1, 1], [1, 2], [1, 2]]
     \<and> fst (e_signatureStatus sample_exec_env ''sig'' (x_world s'))
         = Inr (Some \<lparr>st_slot = 7, st_confirmation = ''confirmed'', st_err = None\<rparr>)"
  by (rule exI) (rule conjI [OF sample_timeout], simp add: sample_exec_env_def)

text \<open>A failing status request is not turned into a result: \<open>submit\<close> itself fails.\<close>

lemma status_failure_escapes:
  "case submit 9 (sample_exec_env\<lparr>e_signatureStatus := \<lambda>sig w. (Inl ''503'', w)\<rparr>) (sample_intent 6) sample_start of
     Some (out, s') \<Rightarrow> out = Inl ''503'' \<and> x_events s' = [Attempt ''buy-1'' 1 Med, FeeTierEvent ''buy-1'' Med 5]
   | None \<Rightarrow> False"
  by code_simp

end
