(* ===== verification/Base64.thy ===== *)
theory Base64
  imports Prelude
begin

text \<open>
  \<open>decodeBase64Data\<close> of \<open>packages/solana-events/src/parse-logs.ts\<close>: the validation the code
  does before it calls \<open>Buffer.from(s, 'base64')\<close>, and what that call returns for the strings
  that pass it. \<open>b64_encode\<close> is the standard encoder, the specification of the decoder.
\<close>

definition b64_value :: "char \<Rightarrow> nat option" where
  "b64_value ch =
     (let n = of_char ch :: nat
      in if 65 \<le> n \<and> n \<le> 90 then Some (n - 65)
         else if 97 \<le> n \<and> n \<le> 122 then Some (n - 71)
         else if 48 \<le> n \<and> n \<le> 57 then Some (n + 4)
         else if n = 43 then Some 62 else if n = 47 then Some 63 else None)"

definition is_b64 :: "char \<Rightarrow> bool" where
  "is_b64 ch \<longleftrightarrow> b64_value ch \<noteq> None"

definition pad :: char where "pad = CHR ''=''"

datatype base64_error = InvalidBase64 | InvalidPadding

text \<open>The test \<open>/^[A-Za-z0-9+/]*={0,2}$/\<close>.\<close>

definition b64_pattern :: "string \<Rightarrow> bool" where
  "b64_pattern s = (let tail = takeWhile ((=) pad) (rev s)
     in length tail \<le> 2 \<and> list_all is_b64 (drop (length tail) (rev s)))"

definition sextet :: "char \<Rightarrow> nat" where
  "sextet ch = (case b64_value ch of Some v \<Rightarrow> v | None \<Rightarrow> 0)"

fun b64_groups :: "string \<Rightarrow> bytes" where
  "b64_groups (a # b # c # d # rest) =
     (let n = sextet a * 262144 + sextet b * 4096 + sextet c * 64 + sextet d;
          three = [word_of_nat (n div 65536), word_of_nat (n div 256 mod 256), word_of_nat (n mod 256)]
      in if c = pad then take 1 three else if d = pad then take 2 three else three @ b64_groups rest)"
| "b64_groups _ = []"

definition decodeBase64Data :: "string \<Rightarrow> base64_error + bytes" where
  "decodeBase64Data s =
     (if \<not> b64_pattern s then Inl InvalidBase64
      else if length s mod 4 \<noteq> 0 then Inl InvalidPadding
      else Inr (b64_groups s))"

section \<open>The encoder\<close>

definition b64_char :: "nat \<Rightarrow> char" where
  "b64_char v = (if v < 26 then char_of (v + 65) else if v < 52 then char_of (v + 71)
     else if v < 62 then char_of (v - 4) else if v = 62 then CHR ''+'' else CHR ''/'')"

fun b64_encode :: "bytes \<Rightarrow> string" where
  "b64_encode (x # y # z # rest) =
     (let n = unat x * 65536 + unat y * 256 + unat z
      in [b64_char (n div 262144), b64_char (n div 4096 mod 64), b64_char (n div 64 mod 64), b64_char (n mod 64)] @ b64_encode rest)"
| "b64_encode [x, y] =
     (let n = unat x * 65536 + unat y * 256
      in [b64_char (n div 262144), b64_char (n div 4096 mod 64), b64_char (n div 64 mod 64), pad])"
| "b64_encode [x] = (let n = unat x * 65536 in [b64_char (n div 262144), b64_char (n div 4096 mod 64), pad, pad])"
| "b64_encode [] = []"

lemma b64_char: "v < 64 \<Longrightarrow> b64_value (b64_char v) = Some v" "v < 64 \<Longrightarrow> b64_char v \<noteq> pad"
proof -
  show v: "b64_value (b64_char v) = Some v" if "v < 64"
  proof -
    consider "v < 26" | "26 \<le> v" "v < 52" | "52 \<le> v" "v < 62" | "62 \<le> v" "v < 63" | "63 \<le> v" by linarith
    then show ?thesis
      using that by cases (auto simp: b64_char_def b64_value_def Let_def dest: le_neq_implies_less)
  qed
  have "b64_value pad = None" by (simp add: b64_value_def pad_def Let_def)
  then show "b64_char v \<noteq> pad" if "v < 64" using v [OF that] by auto
qed

lemma sextet_char [simp]: "v < 64 \<Longrightarrow> sextet (b64_char v) = v"
  by (simp add: sextet_def b64_char)

lemma is_b64_char [simp]: "v < 64 \<Longrightarrow> is_b64 (b64_char v)"
  by (simp add: is_b64_def b64_char)

lemma pad_not_b64 [simp]: "\<not> is_b64 pad" "sextet pad = 0"
  by (simp_all add: is_b64_def sextet_def b64_value_def pad_def Let_def)

lemma b64_pattern_append:
  assumes "list_all is_b64 xs" "ys = [] \<or> ys = [pad] \<or> ys = [pad, pad]"
  shows "b64_pattern (xs @ ys)"
proof -
  have nopad: "x \<noteq> pad" if "x \<in> set xs" for x
    using that assms(1) pad_not_b64(1) by (metis list_all_iff)
  have "takeWhile ((=) pad) (rev xs) = []"
    using nopad hd_in_set [of "rev xs"] by (cases "rev xs") auto
  then have "takeWhile ((=) pad) (rev (xs @ ys)) = rev ys" using assms(2) by auto
  then show ?thesis
    using assms by (auto simp: b64_pattern_def list_all_iff)
qed

text \<open>Three bytes are four digits.\<close>

lemma triple:
  fixes a b c :: nat
  assumes "a < 256" "b < 256" "c < 256"
  defines "n \<equiv> a * 65536 + b * 256 + c"
  shows "n div 262144 < 64" "n div 65536 = a" "n div 256 mod 256 = b" "n mod 256 = c"
proof -
  have d: "n div 256 = a * 256 + b" unfolding n_def by (rule div_nat_eqI) (use assms(3) in simp_all)
  show a: "n div 65536 = a" unfolding n_def by (rule div_nat_eqI) (use assms(2,3) in simp_all)
  show "n div 256 mod 256 = b" using assms(2) by (simp add: d)
  have "n = c + 256 * (a * 256 + b)" by (simp add: n_def)
  then show "n mod 256 = c" using assms(3) by (simp only: mod_mult_self2) simp
  have "n div 262144 = a div 4" using div_mult2_eq [of n 65536 4] a by simp
  then show "n div 262144 < 64" using assms(1) by (simp add: less_mult_imp_div_less)
qed

lemma digits: "(n :: nat) div 262144 * 262144 + n div 4096 mod 64 * 4096 + n div 64 mod 64 * 64 + n mod 64 = n"
proof -
  have "n div 64 * 64 + n mod 64 = n" by (rule div_mult_mod_eq)
  moreover have "n div 4096 * 64 + n div 64 mod 64 = n div 64"
    using div_mult_mod_eq [of "n div 64" 64] div_mult2_eq [of n 64 64] by simp
  moreover have "n div 262144 * 64 + n div 4096 mod 64 = n div 4096"
    using div_mult_mod_eq [of "n div 4096" 64] div_mult2_eq [of n 4096 64] by simp
  ultimately show ?thesis by linarith
qed

lemma mod64_bound [simp]: "(n :: nat) mod 64 < 64" by simp

text \<open>An encoding is whole characters followed by its padding.\<close>

definition shaped :: "string \<Rightarrow> bool" where
  "shaped s \<longleftrightarrow> (\<exists>xs ys. s = xs @ ys \<and> list_all is_b64 xs \<and> (ys = [] \<or> ys = [pad] \<or> ys = [pad, pad])) \<and> length s mod 4 = 0"

lemma shaped_Cons4:
  assumes "list_all is_b64 [p, q, r, t]" "shaped s"
  shows "shaped ([p, q, r, t] @ s)"
proof -
  obtain xs ys where "s = xs @ ys" "list_all is_b64 xs" "ys = [] \<or> ys = [pad] \<or> ys = [pad, pad]"
    using assms(2) by (auto simp: shaped_def)
  then have "\<exists>xs ys. [p, q, r, t] @ s = xs @ ys \<and> list_all is_b64 xs \<and> (ys = [] \<or> ys = [pad] \<or> ys = [pad, pad])"
    using assms(1) by (intro exI [of _ "[p, q, r, t] @ xs"] exI [of _ ys]) simp
  moreover have "length ([p, q, r, t] @ s) mod 4 = 0" using assms(2) by (simp add: shaped_def mod_Suc)
  ultimately show ?thesis unfolding shaped_def by blast
qed

lemma shaped_pad: "list_all is_b64 [p, q, r] \<Longrightarrow> shaped [p, q, r, pad]" "list_all is_b64 [p, q] \<Longrightarrow> shaped [p, q, pad, pad]"
  unfolding shaped_def by (fastforce intro: exI [of _ "[p, q, r]"], fastforce intro: exI [of _ "[p, q]"])

lemma b64_encode_shape: "shaped (b64_encode bs)"
proof (induction bs rule: b64_encode.induct)
  case (1 x y z rest)
  have "(unat x * 65536 + unat y * 256 + unat z) div 262144 < 64" by (rule triple(1) [OF unat_byte_bound unat_byte_bound unat_byte_bound])
  then show ?case unfolding b64_encode.simps(1) Let_def by (intro shaped_Cons4 1 [OF refl]) simp
next
  case (2 x y)
  have "(unat x * 65536 + unat y * 256 + 0) div 262144 < 64" by (rule triple(1) [OF unat_byte_bound unat_byte_bound]) simp
  then show ?case by (simp add: Let_def shaped_pad)
next
  case (3 x)
  have "(unat x * 65536 + 0 * 256 + 0) div 262144 < 64" by (rule triple(1) [OF unat_byte_bound]) simp_all
  then show ?case by (simp add: Let_def shaped_pad)
next
  case 4
  show ?case by (simp add: shaped_def)
qed

lemma b64_groups_encode: "b64_groups (b64_encode bs) = bs"
proof (induction bs rule: b64_encode.induct)
  case (1 x y z rest)
  note t = triple [OF unat_byte_bound [of x] unat_byte_bound [of y] unat_byte_bound [of z]]
  show ?case unfolding b64_encode.simps(1) Let_def using 1 t by (simp add: b64_char digits)
next
  case (2 x y)
  let ?n = "unat x * 65536 + unat y * 256"
  note t = triple [OF unat_byte_bound [of x] unat_byte_bound [of y], of 0, simplified]
  have "?n = 64 * (unat x * 1024 + unat y * 4)" by simp
  then have "?n mod 64 = 0" by simp
  then have "?n div 262144 * 262144 + ?n div 4096 mod 64 * 4096 + ?n div 64 mod 64 * 64 = ?n"
    using digits [of ?n] by linarith
  then show ?case using t by (simp add: Let_def b64_char)
next
  case (3 x)
  let ?n = "unat x * 65536"
  note t = triple [OF unat_byte_bound [of x], of 0 0, simplified]
  have "?n = 64 * (64 * (unat x * 16))" by simp
  then have "?n mod 64 = 0" "?n div 64 mod 64 = 0" by simp_all
  then have "?n div 262144 * 262144 + ?n div 4096 mod 64 * 4096 = ?n"
    using digits [of ?n] by linarith
  then show ?case using t by (simp add: Let_def b64_char)
qed simp

lemma decodeBase64_encode: "decodeBase64Data (b64_encode bs) = Inr bs"
proof -
  have "b64_pattern (b64_encode bs)"
    using b64_encode_shape [of bs] b64_pattern_append unfolding shaped_def by metis
  then show ?thesis
    using b64_encode_shape [of bs] by (simp add: decodeBase64Data_def b64_groups_encode shaped_def)
qed

end
