(* ===== verification/LogTree.thy ===== *)
theory LogTree
  imports Base64 Base58
begin

text \<open>
  \<open>packages/solana-events/src\<close>: the log parser (\<open>parse-logs.ts\<close>), the walk over its tree
  (\<open>cpi-decoder.ts\<close>) and the decoder registry (\<open>registry.ts\<close>). Log lines are
  strings. The code appends a new chunk to its parent's \<open>children\<close> when it is opened and
  goes on changing it; the model keeps the open chunks on the stack and appends a chunk when
  it is closed, which leaves the same tree because a parent's next child is only opened then.
\<close>

section \<open>Line patterns\<close>

fun strip_prefix :: "string \<Rightarrow> string \<Rightarrow> string option" where
  "strip_prefix [] s = Some s"
| "strip_prefix (p # ps) (c # cs) = (if p = c then strip_prefix ps cs else None)"
| "strip_prefix (p # ps) [] = None"

definition is_id_char :: "char \<Rightarrow> bool" where
  "is_id_char ch \<longleftrightarrow> ch \<in> set ALPHABET"

definition is_digit :: "char \<Rightarrow> bool" where
  "is_digit ch \<longleftrightarrow> 48 \<le> (of_char ch :: nat) \<and> (of_char ch :: nat) \<le> 57"

text \<open>\<open>Number(digits)\<close>, exact up to \<open>2 ^ 53\<close>.\<close>

definition number_of :: "string \<Rightarrow> nat" where
  "number_of s = foldl (\<lambda>n ch. n * 10 + (of_char ch - 48)) 0 s"

text \<open>
  \<open>([1-9A-HJ-NP-Za-km-z]{32,44})\<close> followed by something that is not in the class, and
  \<open>(\d+)\<close> likewise: the longest run.
\<close>

definition match_id :: "string \<Rightarrow> (string \<times> string) option" where
  "match_id s = (let i = takeWhile is_id_char s
     in if 32 \<le> length i \<and> length i \<le> 44 then Some (i, dropWhile is_id_char s) else None)"

definition match_number :: "string \<Rightarrow> (nat \<times> string) option" where
  "match_number s = (let d = takeWhile is_digit s
     in if d \<noteq> [] then Some (number_of d, dropWhile is_digit s) else None)"

text \<open>\<open>.\<close> matches every character that does not end a line.\<close>

definition no_newline :: "string \<Rightarrow> bool" where
  "no_newline s \<longleftrightarrow> list_all (\<lambda>ch. ch \<noteq> CHR 0x0A \<and> ch \<noteq> CHR 0x0D) s"

definition INVOKE_RE :: "string \<Rightarrow> (string \<times> nat) option" where
  "INVOKE_RE line = Option.bind (strip_prefix ''Program '' line) (\<lambda>s. Option.bind (match_id s) (\<lambda>(i, s).
     Option.bind (strip_prefix '' invoke ['' s) (\<lambda>s. Option.bind (match_number s) (\<lambda>(n, s).
       if s = '']'' then Some (i, n) else None))))"

definition SUCCESS_RE :: "string \<Rightarrow> string option" where
  "SUCCESS_RE line = Option.bind (strip_prefix ''Program '' line) (\<lambda>s. Option.bind (match_id s) (\<lambda>(i, s).
     if s = '' success'' then Some i else None))"

definition FAILED_RE :: "string \<Rightarrow> (string \<times> string) option" where
  "FAILED_RE line = Option.bind (strip_prefix ''Program '' line) (\<lambda>s. Option.bind (match_id s) (\<lambda>(i, s).
     Option.bind (strip_prefix '' failed: '' s) (\<lambda>r. if r \<noteq> [] \<and> no_newline r then Some (i, r) else None)))"

definition LOG_RE :: "string \<Rightarrow> string option" where
  "LOG_RE line = Option.bind (strip_prefix ''Program log: '' line) (\<lambda>s. if no_newline s then Some s else None)"

definition is_field_char :: "char \<Rightarrow> bool" where
  "is_field_char ch \<longleftrightarrow> is_b64 ch \<or> ch = pad"

text \<open>\<open>s.split(' ')\<close>\<close>

fun split_spaces :: "string \<Rightarrow> string list" where
  "split_spaces [] = [[]]"
| "split_spaces (c # cs) =
     (if c = CHR '' '' then [] # split_spaces cs
      else case split_spaces cs of w # ws \<Rightarrow> (c # w) # ws | [] \<Rightarrow> [[c]])"

definition DATA_RE :: "string \<Rightarrow> string option" where
  "DATA_RE line = Option.bind (strip_prefix ''Program data: '' line) (\<lambda>s.
     if list_all (\<lambda>w. w \<noteq> [] \<and> list_all is_field_char w) (split_spaces s) then Some s else None)"

definition CONSUMED_RE :: "string \<Rightarrow> (string \<times> nat \<times> nat) option" where
  "CONSUMED_RE line = Option.bind (strip_prefix ''Program '' line) (\<lambda>s. Option.bind (match_id s) (\<lambda>(i, s).
     Option.bind (strip_prefix '' consumed '' s) (\<lambda>s. Option.bind (match_number s) (\<lambda>(n, s).
     Option.bind (strip_prefix '' of '' s) (\<lambda>s. Option.bind (match_number s) (\<lambda>(m, s).
       if s = '' compute units'' then Some (i, n, m) else None))))))"

definition RETURN_RE :: "string \<Rightarrow> (string \<times> string) option" where
  "RETURN_RE line = Option.bind (strip_prefix ''Program return: '' line) (\<lambda>s. Option.bind (match_id s) (\<lambda>(i, s).
     Option.bind (strip_prefix '' '' s) (\<lambda>d. if list_all is_field_char d then Some (i, d) else None)))"

definition CONSUMPTION_RE :: "string \<Rightarrow> bool" where
  "CONSUMPTION_RE line = (case strip_prefix ''Program consumption: '' line of None \<Rightarrow> False | Some s \<Rightarrow>
     (case match_number s of None \<Rightarrow> False | Some (_, s) \<Rightarrow> s = '' units remaining''))"

definition LOG_TRUNCATED :: string where "LOG_TRUNCATED = ''Log truncated''"

section \<open>The tree\<close>

record chunk_info =
  ch_programId :: string
  ch_depth :: nat
  ch_success :: bool
  ch_failureReason :: "string option"
  ch_logs :: "string list"
  ch_dataPayloads :: "bytes list"
  ch_computeUnits :: "(nat \<times> nat) option"
  ch_returnData :: "bytes option"
  ch_rawLines :: "string list"

datatype chunk = Chunk (c_info: chunk_info) (c_children: "chunk list")

datatype log_reason =
    SuccessWithoutInvoke | MismatchOnSuccess string string
  | FailedWithoutInvoke | MismatchOnFailed string string
  | LogOutside | DataOutside | BadData base64_error
  | UnitsNotExecuting | ReturnNotExecuting | BadReturn base64_error | Unrecognized

record log_error =
  le_lineIndex :: nat
  le_line :: string
  le_reason :: log_reason

record parser =
  roots :: "chunk list"
  stack :: "chunk list"   \<comment> \<open>the innermost open invocation first\<close>
  parseErrors :: "log_error list"
  truncated :: bool

definition new_chunk :: "string \<Rightarrow> nat \<Rightarrow> string \<Rightarrow> chunk" where
  "new_chunk i d line = Chunk \<lparr>ch_programId = i, ch_depth = d, ch_success = False, ch_failureReason = None, ch_logs = [],
     ch_dataPayloads = [], ch_computeUnits = None, ch_returnData = None, ch_rawLines = [line]\<rparr> []"

definition on_info :: "(chunk_info \<Rightarrow> chunk_info) \<Rightarrow> chunk \<Rightarrow> chunk" where
  "on_info f c = Chunk (f (c_info c)) (c_children c)"

definition raw :: "string \<Rightarrow> chunk_info \<Rightarrow> chunk_info" where
  "raw line ci = ci\<lparr>ch_rawLines := ch_rawLines ci @ [line]\<rparr>"

definition add_child :: "chunk \<Rightarrow> chunk \<Rightarrow> chunk" where
  "add_child c parent = Chunk (c_info parent) (c_children parent @ [c])"

text \<open>\<open>top()?.f(...)\<close>\<close>

definition on_top :: "(chunk_info \<Rightarrow> chunk_info) \<Rightarrow> parser \<Rightarrow> parser" where
  "on_top f p = (case stack p of [] \<Rightarrow> p | c # cs \<Rightarrow> p\<lparr>stack := on_info f c # cs\<rparr>)"

definition log_problem :: "nat \<Rightarrow> string \<Rightarrow> log_reason \<Rightarrow> parser \<Rightarrow> parser" where
  "log_problem i line r p = p\<lparr>parseErrors := parseErrors p @ [\<lparr>le_lineIndex = i, le_line = line, le_reason = r\<rparr>]\<rparr>"

text \<open>\<open>stack.pop()\<close>: the closed chunk takes its place under its parent or among the roots.\<close>

definition pop_chunk :: "parser \<Rightarrow> parser" where
  "pop_chunk p = (case stack p of
     [] \<Rightarrow> p
   | [c] \<Rightarrow> p\<lparr>stack := [], roots := roots p @ [c]\<rparr>
   | c # parent # cs \<Rightarrow> p\<lparr>stack := add_child c parent # cs\<rparr>)"

section \<open>One line\<close>

definition on_invoke :: "string \<Rightarrow> string \<Rightarrow> nat \<Rightarrow> parser \<Rightarrow> parser" where
  "on_invoke line i d p =
     (let p = on_top (raw line) p in p\<lparr>stack := new_chunk i d line # stack p\<rparr>)"

text \<open>\<open>success\<close> and \<open>failed\<close>: they differ in what they write and in the errors they report.\<close>

definition on_terminator :: "nat \<Rightarrow> string \<Rightarrow> string \<Rightarrow> log_reason \<Rightarrow> (string \<Rightarrow> string \<Rightarrow> log_reason) \<Rightarrow>
    (chunk_info \<Rightarrow> chunk_info) \<Rightarrow> parser \<Rightarrow> parser" where
  "on_terminator k line i none mismatch f p =
     (case stack p of
        [] \<Rightarrow> log_problem k line none p
      | current # _ \<Rightarrow>
          (let p = (if ch_programId (c_info current) \<noteq> i
                    then log_problem k line (mismatch (ch_programId (c_info current)) i) p else p)
           in on_top (raw line) (pop_chunk (on_top (raw line \<circ> f) p))))"

definition on_success :: "nat \<Rightarrow> string \<Rightarrow> string \<Rightarrow> parser \<Rightarrow> parser" where
  "on_success k line i = on_terminator k line i SuccessWithoutInvoke MismatchOnSuccess (ch_success_update (\<lambda>_. True))"

definition on_failed :: "nat \<Rightarrow> string \<Rightarrow> string \<Rightarrow> string \<Rightarrow> parser \<Rightarrow> parser" where
  "on_failed k line i reason = on_terminator k line i FailedWithoutInvoke MismatchOnFailed
     (\<lambda>ci. ci\<lparr>ch_success := False, ch_failureReason := Some reason\<rparr>)"

definition on_log :: "nat \<Rightarrow> string \<Rightarrow> string \<Rightarrow> parser \<Rightarrow> parser" where
  "on_log k line msg p =
     (if stack p = [] then log_problem k line LogOutside p
      else on_top (\<lambda>ci. raw line (ci\<lparr>ch_logs := ch_logs ci @ [msg]\<rparr>)) p)"

definition on_data :: "nat \<Rightarrow> string \<Rightarrow> string \<Rightarrow> parser \<Rightarrow> parser" where
  "on_data k line flds p =
     (if stack p = [] then log_problem k line DataOutside p
      else case rmap decodeBase64Data (split_spaces flds) of
             Inl e \<Rightarrow> log_problem k line (BadData e) p
           | Inr slices \<Rightarrow> on_top (\<lambda>ci. raw line (ci\<lparr>ch_dataPayloads := ch_dataPayloads ci @ [concat slices]\<rparr>)) p)"

definition executing :: "string \<Rightarrow> parser \<Rightarrow> bool" where
  "executing i p = (case stack p of [] \<Rightarrow> False | c # _ \<Rightarrow> ch_programId (c_info c) = i)"

definition on_consumed :: "nat \<Rightarrow> string \<Rightarrow> string \<Rightarrow> nat \<Rightarrow> nat \<Rightarrow> parser \<Rightarrow> parser" where
  "on_consumed k line i n m p =
     (if executing i p then on_top (\<lambda>ci. raw line (ci\<lparr>ch_computeUnits := Some (n, m)\<rparr>)) p
      else on_top (raw line) (log_problem k line UnitsNotExecuting p))"

definition on_return :: "nat \<Rightarrow> string \<Rightarrow> string \<Rightarrow> string \<Rightarrow> parser \<Rightarrow> parser" where
  "on_return k line i d p =
     (if executing i p
      then on_top (raw line) (case decodeBase64Data d of
             Inl e \<Rightarrow> log_problem k line (BadReturn e) p
           | Inr bs \<Rightarrow> on_top (\<lambda>ci. ci\<lparr>ch_returnData := Some bs\<rparr>) p)
      else on_top (raw line) (log_problem k line ReturnNotExecuting p))"

definition parse_line :: "nat \<Rightarrow> string \<Rightarrow> parser \<Rightarrow> parser" where
  "parse_line k line p =
     (case INVOKE_RE line of Some (i, d) \<Rightarrow> on_invoke line i d p | None \<Rightarrow>
     (case SUCCESS_RE line of Some i \<Rightarrow> on_success k line i p | None \<Rightarrow>
     (case FAILED_RE line of Some (i, r) \<Rightarrow> on_failed k line i r p | None \<Rightarrow>
     (case LOG_RE line of Some msg \<Rightarrow> on_log k line msg p | None \<Rightarrow>
     (case DATA_RE line of Some d \<Rightarrow> on_data k line d p | None \<Rightarrow>
     (case CONSUMED_RE line of Some (i, n, m) \<Rightarrow> on_consumed k line i n m p | None \<Rightarrow>
     (case RETURN_RE line of Some (i, d) \<Rightarrow> on_return k line i d p | None \<Rightarrow>
      if CONSUMPTION_RE line then on_top (raw line) p
      else if line = LOG_TRUNCATED then on_top (raw line) (p\<lparr>truncated := True\<rparr>)
      else on_top (raw line) (log_problem k line Unrecognized p))))))))"

section \<open>\<open>parseLogs\<close>\<close>

fun parse_lines :: "nat \<Rightarrow> string list \<Rightarrow> parser \<Rightarrow> parser" where
  "parse_lines k [] p = p"
| "parse_lines k (line # ls) p = parse_lines (Suc k) ls (parse_line k line p)"

definition cut_off :: "chunk_info \<Rightarrow> chunk_info" where
  "cut_off ci = ci\<lparr>ch_success := False, ch_failureReason := Some ''truncated''\<rparr>"

text \<open>\<open>while (stack.length > 0)\<close>: close what is still open.\<close>

fun close_open :: "chunk list \<Rightarrow> chunk list \<Rightarrow> chunk list" where
  "close_open [] rs = rs"
| "close_open [c] rs = rs @ [on_info cut_off c]"
| "close_open (c # parent # cs) rs = close_open (add_child (on_info cut_off c) parent # cs) rs"

record transaction_log =
  tl_chunks :: "chunk list"
  tl_parseErrors :: "log_error list"
  tl_logTruncated :: bool

definition parseLogs :: "string list \<Rightarrow> transaction_log" where
  "parseLogs logs =
     (let p = parse_lines 0 logs \<lparr>roots = [], stack = [], parseErrors = [], truncated = False\<rparr>
      in \<lparr>tl_chunks = close_open (stack p) (roots p), tl_parseErrors = parseErrors p, tl_logTruncated = truncated p\<rparr>)"

section \<open>The walk and the registry\<close>

text \<open>\<open>walkInvocations\<close>: pre-order, with the path of program ids from the root.\<close>

fun walk_chunk :: "string list \<Rightarrow> chunk \<Rightarrow> (chunk \<times> nat \<times> string list) list" where
  "walk_chunk path (Chunk ci cs) =
     (Chunk ci cs, ch_depth ci, path) # concat (map (\<lambda>c. walk_chunk (path @ [ch_programId (c_info c)]) c) cs)"

definition walkInvocations :: "transaction_log \<Rightarrow> (chunk \<times> nat \<times> string list) list" where
  "walkInvocations t = concat (map (\<lambda>c. walk_chunk [ch_programId (c_info c)] c) (tl_chunks t))"

record unknown_event =
  u_programId :: string
  u_reason :: string
  u_rawLines :: "string list option"

datatype 'e event = Decoded string 'e | Unknown unknown_event

text \<open>
  A registered decoder: what \<open>decodeAll\<close> (or \<open>decode\<close>, as a one-element list) returns, or the
  message of what it throws.
\<close>

type_synonym 'e decoder = "chunk \<Rightarrow> string + ('e + unknown_event) list"
type_synonym 'e registry = "(string, 'e decoder) jsmap"

definition register :: "'e registry \<Rightarrow> string \<Rightarrow> 'e decoder \<Rightarrow> 'e registry" where
  "register r key d = jm_set r key d"

definition has_decoder :: "'e registry \<Rightarrow> string \<Rightarrow> bool" where
  "has_decoder r key = jm_has r key"

definition resolve_result :: "chunk_info \<Rightarrow> 'e + unknown_event \<Rightarrow> 'e event" where
  "resolve_result ci res = (case res of
     Inl e \<Rightarrow> Decoded (ch_programId ci) e
   | Inr u \<Rightarrow> Unknown \<lparr>u_programId = (if u_programId u = [] then ch_programId ci else u_programId u), u_reason = u_reason u,
                u_rawLines = (case u_rawLines u of Some ls \<Rightarrow> Some ls | None \<Rightarrow> Some (ch_rawLines ci))\<rparr>)"

definition chunk_events :: "'e registry \<Rightarrow> chunk \<Rightarrow> 'e event list" where
  "chunk_events r c =
     (let ci = c_info c in
      case jm_get r (ch_programId ci) of
        None \<Rightarrow> [Unknown \<lparr>u_programId = ch_programId ci, u_reason = ''no decoder registered'', u_rawLines = Some (ch_rawLines ci)\<rparr>]
      | Some d \<Rightarrow>
          (case d c of
             Inr results \<Rightarrow> map (resolve_result ci) results
           | Inl m \<Rightarrow> [Unknown \<lparr>u_programId = ch_programId ci, u_reason = ''decoder threw: '' @ m, u_rawLines = Some (ch_rawLines ci)\<rparr>]))"

definition is_unknown :: "'e event \<Rightarrow> bool" where
  "is_unknown ev = (case ev of Unknown _ \<Rightarrow> True | Decoded _ _ \<Rightarrow> False)"

record 'e event_stream =
  es_events :: "'e event list"
  es_unknown :: "'e event list"
  es_errors :: "log_error list"

text \<open>\<open>walk\<close> pushes to both lists as it goes.\<close>

definition push_events :: "'e event list \<Rightarrow> 'e event_stream \<Rightarrow> 'e event_stream" where
  "push_events evs s = s\<lparr>es_events := es_events s @ evs, es_unknown := es_unknown s @ filter is_unknown evs\<rparr>"

fun decode_walk :: "'e registry \<Rightarrow> chunk \<Rightarrow> 'e event_stream \<Rightarrow> 'e event_stream" where
  "decode_walk r (Chunk ci cs) s = fold (decode_walk r) cs (push_events (chunk_events r (Chunk ci cs)) s)"

definition decode_log :: "'e registry \<Rightarrow> transaction_log \<Rightarrow> 'e event_stream" where
  "decode_log r t = fold (decode_walk r) (tl_chunks t) \<lparr>es_events = [], es_unknown = [], es_errors = tl_parseErrors t\<rparr>"

section \<open>The registry decodes along the walk\<close>

fun preorder :: "chunk \<Rightarrow> chunk list" where
  "preorder (Chunk ci cs) = Chunk ci cs # concat (map preorder cs)"

lemma walk_preorder: "map fst (walk_chunk path c) = preorder c"
proof (induction c arbitrary: path)
  case (Chunk ci cs)
  then show ?case by (auto simp: map_concat o_def intro!: arg_cong [where f = concat] map_cong)
qed

lemma push_events_append: "push_events ys (push_events xs s) = push_events (xs @ ys) s"
  by (simp add: push_events_def)

lemma decode_walk_preorder:
  "decode_walk r c s = push_events (concat (map (chunk_events r) (preorder c))) s"
  and decode_walks_preorder: "fold (decode_walk r) cs s = push_events (concat (map (chunk_events r) (concat (map preorder cs)))) s"
proof -
  have fold_walk: "fold (decode_walk r) cs s = push_events (concat (map (chunk_events r) (concat (map preorder cs)))) s"
    if "\<And>c s. c \<in> set cs \<Longrightarrow> decode_walk r c s = push_events (concat (map (chunk_events r) (preorder c))) s" for cs s
    using that
  proof (induction cs arbitrary: s)
    case Nil
    then show ?case by (simp add: push_events_def)
  next
    case (Cons c cs)
    then show ?case by (simp add: push_events_append)
  qed
  show one: "decode_walk r c s = push_events (concat (map (chunk_events r) (preorder c))) s" for c s
  proof (induction c arbitrary: s)
    case (Chunk ci cs)
    then show ?case by (simp add: fold_walk push_events_append)
  qed
  show "fold (decode_walk r) cs s = push_events (concat (map (chunk_events r) (concat (map preorder cs)))) s"
    by (rule fold_walk) (rule one)
qed

text \<open>
  The registry visits the chunks in the order of \<open>walkInvocations\<close>, each once; the events
  are those of its chunks, one decoder's failure being one event of its own chunk, and the
  \<open>unknown\<close> list is exactly the unknown ones among them, in the same order.
\<close>

theorem registry_follows_walk:
  "es_events (decode_log r t) = concat (map (chunk_events r \<circ> fst) (walkInvocations t))
   \<and> es_unknown (decode_log r t) = filter is_unknown (es_events (decode_log r t))
   \<and> es_errors (decode_log r t) = tl_parseErrors t"
proof -
  have "map fst (walkInvocations t) = concat (map preorder (tl_chunks t))"
    by (simp add: walkInvocations_def map_concat o_def walk_preorder)
  then have "map (chunk_events r \<circ> fst) (walkInvocations t) = map (chunk_events r) (concat (map preorder (tl_chunks t)))"
    by (metis map_map)
  then show ?thesis
    unfolding decode_log_def decode_walks_preorder by (simp add: push_events_def)
qed

section \<open>Every invocation is a chunk\<close>

definition opened :: "chunk \<Rightarrow> string \<times> nat" where
  "opened c = (ch_programId (c_info c), ch_depth (c_info c))"

lemma walk_opened: "map (\<lambda>(c, d, p). (ch_programId (c_info c), d)) (walk_chunk path c) = map opened (preorder c)"
proof (induction c arbitrary: path)
  case (Chunk ci cs)
  then show ?case by (auto simp: map_concat o_def opened_def intro!: arg_cong [where f = concat] map_cong)
qed

text \<open>The chunks in the order they were opened: the closed ones, then the open ones from the outside in.\<close>

definition all_opened :: "parser \<Rightarrow> (string \<times> nat) list" where
  "all_opened p = map opened (concat (map preorder (roots p @ rev (stack p))))"

lemma preorder_unfold: "preorder c = c # concat (map preorder (c_children c))"
  by (cases c) simp

lemma opened_on_info:
  assumes "\<And>ci. ch_programId (f ci) = ch_programId ci \<and> ch_depth (f ci) = ch_depth ci"
  shows "map opened (preorder (on_info f c)) = map opened (preorder c)"
  using assms by (simp add: preorder_unfold [of c] preorder_unfold [of "on_info f c"] on_info_def opened_def)

lemma opened_add_child: "map opened (preorder (add_child c p)) = map opened (preorder p) @ map opened (preorder c)"
  by (simp add: preorder_unfold [of p] preorder_unfold [of "add_child c p"] add_child_def opened_def)

definition keeps_id :: "(chunk_info \<Rightarrow> chunk_info) \<Rightarrow> bool" where
  "keeps_id f \<longleftrightarrow> (\<forall>ci. ch_programId (f ci) = ch_programId ci \<and> ch_depth (f ci) = ch_depth ci)"

lemma opened_on_top: "keeps_id f \<Longrightarrow> all_opened (on_top f p) = all_opened p"
  using opened_on_info [of f] by (cases "stack p") (simp_all add: all_opened_def on_top_def keeps_id_def)

lemma opened_problem [simp]: "all_opened (log_problem k line r p) = all_opened p"
  by (simp add: all_opened_def log_problem_def)

lemma opened_truncated [simp]: "all_opened (p\<lparr>truncated := b\<rparr>) = all_opened p"
  by (simp add: all_opened_def)

lemma opened_pop: "all_opened (pop_chunk p) = all_opened p"
  by (auto simp: all_opened_def pop_chunk_def opened_add_child split: list.split)

lemma keeps_id_parts [simp]:
  "keeps_id (raw line)" "keeps_id f \<Longrightarrow> keeps_id (raw line \<circ> f)"
  "keeps_id (\<lambda>ci. raw line (ci\<lparr>ch_logs := ch_logs ci @ [m]\<rparr>))"
  "keeps_id (\<lambda>ci. raw line (ci\<lparr>ch_dataPayloads := ch_dataPayloads ci @ [bs]\<rparr>))"
  "keeps_id (\<lambda>ci. raw line (ci\<lparr>ch_computeUnits := cu\<rparr>))"
  "keeps_id (\<lambda>ci. ci\<lparr>ch_returnData := rd\<rparr>)" "keeps_id (ch_success_update (\<lambda>_. b))"
  "keeps_id (\<lambda>ci. ci\<lparr>ch_success := b, ch_failureReason := fr\<rparr>)"
  by (simp_all add: keeps_id_def raw_def)

lemma opened_terminator: "keeps_id f \<Longrightarrow> all_opened (on_terminator k line i none mm f p) = all_opened p"
  by (auto simp: on_terminator_def Let_def opened_on_top opened_pop split: list.split)

lemma opened_handlers:
  "all_opened (on_success k line i p) = all_opened p" "all_opened (on_failed k line i r p) = all_opened p"
  "all_opened (on_log k line m p) = all_opened p" "all_opened (on_data k line d p) = all_opened p"
  "all_opened (on_consumed k line i a b p) = all_opened p" "all_opened (on_return k line i d p) = all_opened p"
  by (simp_all add: on_success_def on_failed_def on_log_def on_data_def on_consumed_def on_return_def
      opened_terminator opened_on_top split: sum.split)

lemma opened_line:
  "all_opened (parse_line k line p) = all_opened p @ (case INVOKE_RE line of Some x \<Rightarrow> [x] | None \<Rightarrow> [])"
proof (cases "INVOKE_RE line")
  case (Some x)
  then obtain i d where x: "x = (i, d)" by fastforce
  have "all_opened (on_invoke line i d p) = all_opened (on_top (raw line) p) @ [(i, d)]"
    by (simp add: on_invoke_def all_opened_def Let_def new_chunk_def opened_def)
  then show ?thesis using Some x by (simp add: parse_line_def opened_on_top)
next
  case None
  then show ?thesis
    by (simp add: parse_line_def opened_on_top opened_handlers split: option.split)
qed

lemma opened_lines:
  "all_opened (parse_lines k ls p) = all_opened p @ List.map_filter INVOKE_RE ls"
proof (induction ls arbitrary: k p)
  case Nil
  show ?case by (simp add: map_filter_simps)
next
  case (Cons l ls)
  show ?case by (auto simp: Cons.IH opened_line map_filter_simps split: option.split)
qed

lemma keeps_cut_off [simp]: "keeps_id cut_off"
  by (simp add: keeps_id_def cut_off_def)

lemma opened_close: "map opened (concat (map preorder (close_open st rs))) = map opened (concat (map preorder (rs @ rev st)))"
proof (induction st rs rule: close_open.induct)
  case (2 c rs)
  then show ?case using opened_on_info [of cut_off c] by (simp add: keeps_cut_off [unfolded keeps_id_def])
next
  case (3 c parent cs rs)
  then show ?case
    using opened_on_info [of cut_off c] by (simp add: opened_add_child keeps_cut_off [unfolded keeps_id_def])
qed simp

text \<open>
  Whatever the log, the tree has one chunk per \<open>invoke\<close> line: walking it yields the program
  ids and depths of those lines, in the order of the lines.
\<close>

theorem parseLogs_keeps_invocations:
  "map (\<lambda>(c, d, path). (ch_programId (c_info c), d)) (walkInvocations (parseLogs logs)) = List.map_filter INVOKE_RE logs"
proof -
  let ?p = "parse_lines 0 logs \<lparr>roots = [], stack = [], parseErrors = [], truncated = False\<rparr>"
  have "map (\<lambda>(c, d, path). (ch_programId (c_info c), d)) (walkInvocations (parseLogs logs))
      = map opened (concat (map preorder (close_open (stack ?p) (roots ?p))))"
    by (simp add: walkInvocations_def parseLogs_def Let_def map_concat o_def walk_opened)
  also have "\<dots> = all_opened ?p" by (simp add: opened_close all_opened_def)
  also have "\<dots> = List.map_filter INVOKE_RE logs" by (simp add: opened_lines) (simp add: all_opened_def)
  finally show ?thesis .
qed

end
