(* ===== verification/LogRoundTrip.thy ===== *)
theory LogRoundTrip
  imports LogTree
begin

text \<open>
  What the runtime prints for a tree of invocations, and the proof that \<open>parseLogs\<close> reads it
  back. \<open>render\<close> is the specification: the log format documented in the header of
  \<open>packages/solana-events/src/parse-logs.ts\<close>.
\<close>

section \<open>Printing\<close>

datatype trace_item =
    TLog string
  | TData "bytes list"
  | TUnits nat nat
  | TReturn bytes
  | TCall trace
and trace = Trace string "string option" "trace_item list"   \<comment> \<open>program, failure, body\<close>

fun join_spaces :: "string list \<Rightarrow> string" where
  "join_spaces [] = []"
| "join_spaces [w] = w"
| "join_spaces (w # ws) = w @ '' '' @ join_spaces ws"

definition invoke_line :: "string \<Rightarrow> nat \<Rightarrow> string" where
  "invoke_line i d = ''Program '' @ i @ '' invoke ['' @ decimal d @ '']''"

definition end_line :: "string \<Rightarrow> string option \<Rightarrow> string" where
  "end_line i failure = (case failure of None \<Rightarrow> ''Program '' @ i @ '' success'' | Some r \<Rightarrow> ''Program '' @ i @ '' failed: '' @ r)"

definition log_line :: "string \<Rightarrow> string" where "log_line m = ''Program log: '' @ m"
definition data_line :: "bytes list \<Rightarrow> string" where "data_line bss = ''Program data: '' @ join_spaces (map b64_encode bss)"
definition units_line :: "string \<Rightarrow> nat \<Rightarrow> nat \<Rightarrow> string" where
  "units_line i n m = ''Program '' @ i @ '' consumed '' @ decimal n @ '' of '' @ decimal m @ '' compute units''"
definition return_line :: "string \<Rightarrow> bytes \<Rightarrow> string" where "return_line i bs = ''Program return: '' @ i @ '' '' @ b64_encode bs"

fun render :: "nat \<Rightarrow> trace \<Rightarrow> string list" and render_items :: "nat \<Rightarrow> string \<Rightarrow> trace_item list \<Rightarrow> string list" where
  "render d (Trace i failure items) = invoke_line i d # render_items d i items @ [end_line i failure]"
| "render_items d i [] = []"
| "render_items d i (TLog m # its) = log_line m # render_items d i its"
| "render_items d i (TData bss # its) = data_line bss # render_items d i its"
| "render_items d i (TUnits n m # its) = units_line i n m # render_items d i its"
| "render_items d i (TReturn bs # its) = return_line i bs # render_items d i its"
| "render_items d i (TCall t # its) = render (Suc d) t @ render_items d i its"

text \<open>The tree that stands for a trace. A chunk's raw trace has its own lines and the first and last line of each child.\<close>

definition logs_of :: "trace_item list \<Rightarrow> string list" where
  "logs_of its = concat (map (\<lambda>it. case it of TLog m \<Rightarrow> [m] | _ \<Rightarrow> []) its)"
definition payloads_of :: "trace_item list \<Rightarrow> bytes list" where
  "payloads_of its = concat (map (\<lambda>it. case it of TData bss \<Rightarrow> [concat bss] | _ \<Rightarrow> []) its)"
definition units_of :: "(nat \<times> nat) option \<Rightarrow> trace_item list \<Rightarrow> (nat \<times> nat) option" where
  "units_of u its = foldl (\<lambda>u it. case it of TUnits n m \<Rightarrow> Some (n, m) | _ \<Rightarrow> u) u its"
definition return_of :: "bytes option \<Rightarrow> trace_item list \<Rightarrow> bytes option" where
  "return_of r its = foldl (\<lambda>r it. case it of TReturn bs \<Rightarrow> Some bs | _ \<Rightarrow> r) r its"
definition raw_of :: "nat \<Rightarrow> string \<Rightarrow> trace_item list \<Rightarrow> string list" where
  "raw_of d i its = concat (map (\<lambda>it. case it of
      TLog m \<Rightarrow> [log_line m] | TData bss \<Rightarrow> [data_line bss] | TUnits n m \<Rightarrow> [units_line i n m] | TReturn bs \<Rightarrow> [return_line i bs]
    | TCall (Trace j failure _) \<Rightarrow> [invoke_line j (Suc d), end_line j failure]) its)"

fun chunk_of :: "nat \<Rightarrow> trace \<Rightarrow> chunk" and children_of :: "nat \<Rightarrow> trace_item list \<Rightarrow> chunk list" where
  "chunk_of d (Trace i failure its) =
     Chunk \<lparr>ch_programId = i, ch_depth = d, ch_success = (failure = None), ch_failureReason = failure, ch_logs = logs_of its,
       ch_dataPayloads = payloads_of its, ch_computeUnits = units_of None its, ch_returnData = return_of None its,
       ch_rawLines = invoke_line i d # raw_of d i its @ [end_line i failure]\<rparr> (children_of d its)"
| "children_of d [] = []"
| "children_of d (TCall t # its) = chunk_of (Suc d) t # children_of d its"
| "children_of d (_ # its) = children_of d its"

text \<open>The identifiers, messages and data the runtime prints.\<close>

definition valid_id :: "string \<Rightarrow> bool" where
  "valid_id i \<longleftrightarrow> list_all is_id_char i \<and> 32 \<le> length i \<and> length i \<le> 44"

fun valid_trace :: "trace \<Rightarrow> bool" and valid_item :: "trace_item \<Rightarrow> bool" where
  "valid_trace (Trace i failure its) \<longleftrightarrow> valid_id i \<and> (case failure of None \<Rightarrow> True | Some r \<Rightarrow> r \<noteq> [] \<and> no_newline r) \<and> list_all valid_item its"
| "valid_item (TLog m) \<longleftrightarrow> no_newline m"
| "valid_item (TData bss) \<longleftrightarrow> bss \<noteq> [] \<and> [] \<notin> set bss"
| "valid_item (TUnits n m) \<longleftrightarrow> True"
| "valid_item (TReturn bs) \<longleftrightarrow> True"
| "valid_item (TCall t) \<longleftrightarrow> valid_trace t"

section \<open>Matching what was printed\<close>

lemma digit_char: "d < 10 \<Longrightarrow> of_char (digit_char d) = 48 + d"
  by (simp add: digit_char_def)

lemma decimal_digits: "list_all is_digit (decimal n)" "decimal n \<noteq> []"
proof -
  have "is_digit (digit_char d)" if "d \<in> set (radix 10 n)" for d
  proof -
    have "d < 10" using radix_digits [of 10 d n] that by simp
    then show ?thesis by (simp add: is_digit_def digit_char)
  qed
  then show "list_all is_digit (decimal n)" by (simp add: decimal_def list_all_iff is_digit_def)
  show "decimal n \<noteq> []" by (simp add: decimal_def radix_Nil_iff)
qed

lemma number_of_decimal: "number_of (decimal n) = n"
proof -
  have "foldl (\<lambda>a ch. a * 10 + (of_char ch - 48)) z (map digit_char ds) = foldl (\<lambda>a d. a * 10 + d) z ds"
    if "\<forall>d \<in> set ds. d < 10" for ds and z :: nat
    using that by (induction ds arbitrary: z) (simp_all add: digit_char)
  moreover have "\<forall>d \<in> set (radix 10 n). d < 10" using radix_digits [of 10 _ n] by simp
  ultimately have "number_of (map digit_char (radix 10 n)) = radix_val 10 (radix 10 n)"
    by (simp add: number_of_def radix_val_def)
  then show ?thesis by (simp add: decimal_def radix_val_radix number_of_def)
qed

lemma match_decimal:
  assumes "\<not> is_digit c"
  shows "match_number (decimal n @ c # s) = Some (n, c # s)"
  using decimal_digits [of n] assms
  by (simp add: match_number_def Let_def list_all_iff takeWhile_append2 dropWhile_append2 takeWhile_append1 number_of_decimal
      cong: takeWhile_cong)

lemma match_valid_id:
  assumes "valid_id i" "\<not> is_id_char c"
  shows "match_id (i @ c # s) = Some (i, c # s)"
  using assms by (simp add: match_id_def valid_id_def Let_def list_all_iff)

lemma strip_append [simp]: "strip_prefix p (p @ s) = Some s"
  by (induction p) auto

lemma strip_common: "strip_prefix (p @ q) (p @ s) = strip_prefix q s"
  by (induction p) auto

lemma strip_id:
  assumes "list_all is_id_char i" "length p \<le> length i" "\<not> list_all is_id_char p"
  shows "strip_prefix p (i @ s) = None"
  using assms by (induction p i rule: list_induct2') auto

lemma id_chars: "\<not> is_id_char CHR '' ''" "\<not> is_id_char CHR ''l''" "\<not> is_id_char CHR '':''"
  by code_simp+

lemma digit_chars: "\<not> is_digit CHR '' ''" "\<not> is_digit CHR '']''"
  by code_simp+


section \<open>Each printed line is recognised\<close>

lemma match_other:
  assumes "\<not> is_id_char c" "list_all is_id_char p" "length p < 32"
  shows "match_id (p @ c # s) = None"
  using assms by (simp add: match_id_def Let_def list_all_iff)

lemmas line_matching = INVOKE_RE_def SUCCESS_RE_def FAILED_RE_def LOG_RE_def DATA_RE_def CONSUMED_RE_def RETURN_RE_def
  match_valid_id match_decimal id_chars digit_chars

text \<open>Lines that start with \<open>Program\<close> and a program id are none of the others.\<close>

lemma id_line:
  assumes "valid_id i"
  shows "LOG_RE (''Program '' @ i @ s) = None" "DATA_RE (''Program '' @ i @ s) = None"
    "RETURN_RE (''Program '' @ i @ s) = None"
proof -
  have i: "list_all is_id_char i" "32 \<le> length i" using assms by (auto simp: valid_id_def)
  have "strip_prefix p (i @ s) = None" if "p \<in> {''log: '', ''data: '', ''return: ''}" for p
  proof (rule strip_id [OF i(1)])
    show "length p \<le> length i" using that i(2) by auto
    show "\<not> list_all is_id_char p" using that id_chars by auto
  qed
  then have n: "strip_prefix ''log: '' (i @ s) = None" "strip_prefix ''data: '' (i @ s) = None" "strip_prefix ''return: '' (i @ s) = None"
    by blast+
  show "LOG_RE (''Program '' @ i @ s) = None" "DATA_RE (''Program '' @ i @ s) = None" "RETURN_RE (''Program '' @ i @ s) = None"
    using n by (simp_all add: LOG_RE_def DATA_RE_def RETURN_RE_def)
qed

lemma INVOKE_line: "valid_id i \<Longrightarrow> INVOKE_RE (invoke_line i d) = Some (i, d)"
  by (simp add: invoke_line_def line_matching)

lemma success_line:
  assumes "valid_id i"
  shows "INVOKE_RE (''Program '' @ i @ '' success'') = None" "SUCCESS_RE (''Program '' @ i @ '' success'') = Some i"
  using assms by (simp_all add: line_matching)

lemma failed_line:
  assumes "valid_id i"
  shows "INVOKE_RE (''Program '' @ i @ '' failed: '' @ r) = None" "SUCCESS_RE (''Program '' @ i @ '' failed: '' @ r) = None"
    "r \<noteq> [] \<Longrightarrow> no_newline r \<Longrightarrow> FAILED_RE (''Program '' @ i @ '' failed: '' @ r) = Some (i, r)"
  using assms by (simp_all add: line_matching)

lemma units_line:
  assumes "valid_id i"
  shows "INVOKE_RE (units_line i n m) = None" "SUCCESS_RE (units_line i n m) = None" "FAILED_RE (units_line i n m) = None"
    "LOG_RE (units_line i n m) = None" "DATA_RE (units_line i n m) = None" "CONSUMED_RE (units_line i n m) = Some (i, n, m)"
  using assms id_line [OF assms] unfolding units_line_def
  by (simp_all add: INVOKE_RE_def SUCCESS_RE_def FAILED_RE_def CONSUMED_RE_def match_valid_id match_decimal id_chars digit_chars)

lemma no_id_lines:
  assumes "match_id s = None"
  shows "INVOKE_RE (''Program '' @ s) = None" "SUCCESS_RE (''Program '' @ s) = None" "FAILED_RE (''Program '' @ s) = None"
    "CONSUMED_RE (''Program '' @ s) = None"
  using assms by (simp_all add: INVOKE_RE_def SUCCESS_RE_def FAILED_RE_def CONSUMED_RE_def)

lemma words_no_id: "match_id (''log: '' @ s) = None" "match_id (''data: '' @ s) = None" "match_id (''return: '' @ s) = None"
proof -
  have "is_id_char CHR ''d''" "is_id_char CHR ''a''" "is_id_char CHR ''t''" "is_id_char CHR ''r''" "is_id_char CHR ''e''"
    "is_id_char CHR ''u''" "is_id_char CHR ''n''" by code_simp+
  then show "match_id (''log: '' @ s) = None" "match_id (''data: '' @ s) = None" "match_id (''return: '' @ s) = None"
    using id_chars by (simp_all add: match_id_def)
qed

lemma log_line:
  assumes "no_newline m"
  shows "INVOKE_RE (log_line m) = None" "SUCCESS_RE (log_line m) = None" "FAILED_RE (log_line m) = None" "LOG_RE (log_line m) = Some m"
  using no_id_lines [OF words_no_id(1), of m] assms by (simp_all add: log_line_def LOG_RE_def)

lemma return_line:
  assumes "valid_id i"
  shows "INVOKE_RE (return_line i bs) = None" "SUCCESS_RE (return_line i bs) = None" "FAILED_RE (return_line i bs) = None"
    "LOG_RE (return_line i bs) = None" "DATA_RE (return_line i bs) = None" "CONSUMED_RE (return_line i bs) = None"
    "RETURN_RE (return_line i bs) = Some (i, b64_encode bs)"
proof -
  have "list_all is_field_char (b64_encode bs)"
    using b64_encode_shape [of bs] by (auto simp: shaped_def is_field_char_def list_all_iff)
  then show "RETURN_RE (return_line i bs) = Some (i, b64_encode bs)"
    using assms by (simp add: return_line_def line_matching)
qed (use no_id_lines [OF words_no_id(3), of "i @ '' '' @ b64_encode bs"] in
     \<open>simp_all add: return_line_def LOG_RE_def DATA_RE_def\<close>)

lemma encoded_word:
  assumes "bs \<noteq> []"
  shows "b64_encode bs \<noteq> []" "list_all is_field_char (b64_encode bs)" "CHR '' '' \<notin> set (b64_encode bs)"
proof -
  show "b64_encode bs \<noteq> []" using assms by (cases bs rule: b64_encode.cases) (simp_all add: Let_def)
  show f: "list_all is_field_char (b64_encode bs)"
    using b64_encode_shape [of bs] by (auto simp: shaped_def is_field_char_def list_all_iff)
  have "\<not> is_field_char CHR '' ''" by (simp add: is_field_char_def is_b64_def b64_value_def pad_def Let_def)
  then show "CHR '' '' \<notin> set (b64_encode bs)" using f by (auto simp: list_all_iff)
qed

lemma split_word: "CHR '' '' \<notin> set w \<Longrightarrow> split_spaces w = [w]"
  by (induction w) auto

lemma split_word_space: "CHR '' '' \<notin> set w \<Longrightarrow> split_spaces (w @ CHR '' '' # s) = w # split_spaces s"
  by (induction w) auto

lemma split_join: "ws \<noteq> [] \<Longrightarrow> \<forall>w \<in> set ws. CHR '' '' \<notin> set w \<Longrightarrow> split_spaces (join_spaces ws) = ws"
  by (induction ws rule: join_spaces.induct) (simp_all add: split_word split_word_space)

lemma data_line:
  assumes "valid_item (TData bss)"
  shows "INVOKE_RE (data_line bss) = None" "SUCCESS_RE (data_line bss) = None" "FAILED_RE (data_line bss) = None"
    "LOG_RE (data_line bss) = None" "DATA_RE (data_line bss) = Some (join_spaces (map b64_encode bss))"
    "rmap decodeBase64Data (split_spaces (join_spaces (map b64_encode bss))) = Inr bss"
proof -
  have b: "bs \<noteq> []" if "bs \<in> set bss" for bs using assms that by auto
  have ne: "map b64_encode bss \<noteq> []" using assms by simp
  have sp: "split_spaces (join_spaces (map b64_encode bss)) = map b64_encode bss"
    by (rule split_join [OF ne]) (use encoded_word(3) [OF b] in auto)
  show "DATA_RE (data_line bss) = Some (join_spaces (map b64_encode bss))"
    using encoded_word(1,2) [OF b] by (auto simp: data_line_def DATA_RE_def sp list_all_iff)
  have "rmap decodeBase64Data (map b64_encode bss) = Inr bss"
    by (induction bss) (simp_all add: decodeBase64_encode)
  then show "rmap decodeBase64Data (split_spaces (join_spaces (map b64_encode bss))) = Inr bss" by (simp add: sp)
qed (use no_id_lines [OF words_no_id(2), of "join_spaces (map b64_encode bss)"] in
     \<open>simp_all add: data_line_def LOG_RE_def\<close>)

section \<open>Parsing what was printed\<close>

definition fill :: "nat \<Rightarrow> string \<Rightarrow> trace_item list \<Rightarrow> chunk \<Rightarrow> chunk" where
  "fill d i its c = Chunk ((c_info c)\<lparr>ch_logs := ch_logs (c_info c) @ logs_of its,
     ch_dataPayloads := ch_dataPayloads (c_info c) @ payloads_of its,
     ch_computeUnits := units_of (ch_computeUnits (c_info c)) its, ch_returnData := return_of (ch_returnData (c_info c)) its,
     ch_rawLines := ch_rawLines (c_info c) @ raw_of d i its\<rparr>) (c_children c @ children_of d its)"

definition trace_raw :: "nat \<Rightarrow> trace \<Rightarrow> string list" where
  "trace_raw d t = (case t of Trace i failure its \<Rightarrow> [invoke_line i d, end_line i failure])"

definition place :: "nat \<Rightarrow> trace \<Rightarrow> parser \<Rightarrow> parser" where
  "place d t p = (case stack p of
     [] \<Rightarrow> p\<lparr>roots := roots p @ [chunk_of d t]\<rparr>
   | c # cs \<Rightarrow> p\<lparr>stack := Chunk ((c_info c)\<lparr>ch_rawLines := ch_rawLines (c_info c) @ trace_raw d t\<rparr>) (c_children c @ [chunk_of d t]) # cs\<rparr>)"

lemmas of_defs = logs_of_def payloads_of_def units_of_def return_of_def raw_of_def

lemma fill_Nil: "fill d i [] c = c"
  by (cases c) (simp add: fill_def of_defs)

lemma parser_stack_same [simp]: "stack p = st \<Longrightarrow> p\<lparr>stack := st\<rparr> = p"
  by (cases p) simp

lemma parse_simple:
  assumes "stack p = c # cs" "ch_programId (c_info c) = i" "valid_id i"
  shows "valid_item (TLog m) \<Longrightarrow> parse_line k (log_line m) p = p\<lparr>stack := fill d i [TLog m] c # cs\<rparr>"
    "valid_item (TData bss) \<Longrightarrow> parse_line k (data_line bss) p = p\<lparr>stack := fill d i [TData bss] c # cs\<rparr>"
    "parse_line k (units_line i n n') p = p\<lparr>stack := fill d i [TUnits n n'] c # cs\<rparr>"
    "parse_line k (return_line i bs) p = p\<lparr>stack := fill d i [TReturn bs] c # cs\<rparr>"
proof -
  note defs = parse_line_def on_top_def on_info_def raw_def fill_def of_defs executing_def
  show "valid_item (TLog m) \<Longrightarrow> parse_line k (log_line m) p = p\<lparr>stack := fill d i [TLog m] c # cs\<rparr>"
    using assms(1) log_line [of m] by (simp add: defs on_log_def)
  show "valid_item (TData bss) \<Longrightarrow> parse_line k (data_line bss) p = p\<lparr>stack := fill d i [TData bss] c # cs\<rparr>"
    using assms(1) data_line [of bss] by (simp add: defs on_data_def)
  show "parse_line k (units_line i n n') p = p\<lparr>stack := fill d i [TUnits n n'] c # cs\<rparr>"
    using assms units_line [OF assms(3)] by (simp add: defs on_consumed_def)
  show "parse_line k (return_line i bs) p = p\<lparr>stack := fill d i [TReturn bs] c # cs\<rparr>"
    using assms return_line [OF assms(3), of bs] by (simp add: defs on_return_def decodeBase64_encode)
qed

lemma fill_append: "fill d i its' (fill d i its c) = fill d i (its @ its') c"
proof -
  have "children_of d (its @ its') = children_of d its @ children_of d its'"
    by (induction its) (auto split: trace_item.split, case_tac a, auto)
  then show ?thesis by (simp add: fill_def of_defs)
qed

lemma place_fill:
  assumes "stack p = c # cs"
  shows "place (Suc d) t p = p\<lparr>stack := fill d i [TCall t] c # cs\<rparr>"
  using assms by (cases t) (simp add: place_def fill_def of_defs trace_raw_def)

lemma parse_invoke:
  assumes "valid_id i"
  shows "parse_line k (invoke_line i d) p = (let p' = on_top (raw (invoke_line i d)) p
     in p'\<lparr>stack := new_chunk i d (invoke_line i d) # stack p'\<rparr>)"
  using INVOKE_line [OF assms, of d] by (simp add: parse_line_def on_invoke_def)

lemma on_terminator_match:
  assumes "stack p = c # cs" "ch_programId (c_info c) = i"
  shows "on_terminator k line i none mismatch f p = on_top (raw line) (pop_chunk (p\<lparr>stack := on_info (raw line \<circ> f) c # cs\<rparr>))"
proof -
  have "on_top (raw line \<circ> f) p = p\<lparr>stack := on_info (raw line \<circ> f) c # cs\<rparr>" using assms(1) by (simp add: on_top_def)
  then show ?thesis using assms by (simp add: on_terminator_def)
qed

definition finish :: "string option \<Rightarrow> chunk_info \<Rightarrow> chunk_info" where
  "finish failure ci = (case failure of None \<Rightarrow> ci\<lparr>ch_success := True\<rparr> | Some r \<Rightarrow> ci\<lparr>ch_success := False, ch_failureReason := Some r\<rparr>)"

lemma parse_end:
  assumes "stack p = c # cs" "ch_programId (c_info c) = i" "valid_trace (Trace i failure its)"
  shows "parse_line k (end_line i failure) p = on_top (raw (end_line i failure)) (pop_chunk (p\<lparr>stack :=
    on_info (raw (end_line i failure) \<circ> finish failure) c # cs\<rparr>))"
proof (cases failure)
  case None
  have "finish failure = ch_success_update (\<lambda>_. True)" using None by (simp add: finish_def fun_eq_iff)
  then show ?thesis
    using assms None success_line [of i] on_terminator_match [OF assms(1,2)]
    by (simp add: parse_line_def end_line_def on_success_def)
next
  case (Some r)
  have "finish failure = (\<lambda>ci. ci\<lparr>ch_success := False, ch_failureReason := Some r\<rparr>)" using Some by (simp add: finish_def fun_eq_iff)
  then show ?thesis
    using assms Some failed_line [of i r] on_terminator_match [OF assms(1,2)]
    by (simp add: parse_line_def end_line_def on_failed_def)
qed

lemma end_of_trace:
  assumes "stack p = fill d i its (new_chunk i d (invoke_line i d)) # stack p0" "valid_trace (Trace i failure its)"
    and "p0 = on_top (raw (invoke_line i d)) q" "p = p0\<lparr>stack := stack p\<rparr>"
  shows "parse_line k (end_line i failure) p = place d (Trace i failure its) q"
proof -
  have id: "ch_programId (c_info (fill d i its (new_chunk i d (invoke_line i d)))) = i" by (simp add: fill_def new_chunk_def)
  have p: "p = p0\<lparr>stack := fill d i its (new_chunk i d (invoke_line i d)) # stack p0\<rparr>" using assms(1,4) by simp
  note e = parse_end [OF assms(1) id assms(2), of k]
  show ?thesis
  proof (cases "stack q")
    case Nil
    then show ?thesis
      unfolding e unfolding p assms(3)
      by (cases failure) (simp_all add: on_top_def pop_chunk_def place_def on_info_def fill_def new_chunk_def raw_def finish_def of_defs)
  next
    case (Cons c cs)
    then show ?thesis
      unfolding e unfolding p assms(3)
      by (cases failure) (simp_all add: on_top_def pop_chunk_def place_def on_info_def fill_def new_chunk_def raw_def finish_def of_defs
          add_child_def trace_raw_def)
  qed
qed

lemma parse_rendered:
  "valid_trace t \<Longrightarrow> parse_lines k (render d t @ rest) p = parse_lines (k + length (render d t)) rest (place d t p)"
  "list_all valid_item its \<Longrightarrow> stack p = c # cs \<Longrightarrow> ch_programId (c_info c) = i \<Longrightarrow> valid_id i \<Longrightarrow>
     parse_lines k (render_items d i its @ rest) p
       = parse_lines (k + length (render_items d i its)) rest (p\<lparr>stack := fill d i its c # cs\<rparr>)"
proof (induction d t and d i its arbitrary: k p rest and k p c cs rest rule: render_render_items.induct)
  case (1 d i failure items k p rest)
  let ?p0 = "on_top (raw (invoke_line i d)) p" and ?c = "new_chunk i d (invoke_line i d)"
  let ?p1 = "?p0\<lparr>stack := ?c # stack ?p0\<rparr>"
  let ?p2 = "?p1\<lparr>stack := fill d i items ?c # stack ?p0\<rparr>"
  have v: "valid_id i" "list_all valid_item items" using 1 by auto
  have "parse_lines k (render d (Trace i failure items) @ rest) p
      = parse_lines (Suc k) (render_items d i items @ end_line i failure # rest) ?p1"
    using parse_invoke [OF v(1)] by (simp add: Let_def)
  also have "\<dots> = parse_lines (Suc k + length (render_items d i items)) (end_line i failure # rest) ?p2"
    by (rule "1.IH") (use v in \<open>simp_all add: new_chunk_def\<close>)
  also have "\<dots> = parse_lines (k + length (render d (Trace i failure items))) rest (place d (Trace i failure items) p)"
    using end_of_trace [of ?p2 d i items ?p0 failure p] 1 by simp
  finally show ?case .
next
  case (2 d i k p c cs rest)
  then show ?case by (simp add: fill_Nil)
next
  case (3 d i m its k p c cs rest)
  have "parse_lines (Suc k) (render_items d i its @ rest) (p\<lparr>stack := fill d i [TLog m] c # cs\<rparr>)
     = parse_lines (Suc k + length (render_items d i its)) rest (p\<lparr>stack := fill d i (TLog m # its) c # cs\<rparr>)"
    using "3.IH" [of "p\<lparr>stack := fill d i [TLog m] c # cs\<rparr>" "fill d i [TLog m] c" cs] 3 fill_append [of d i its "[TLog m]" c]
    by (simp add: fill_def)
  then show ?case using 3 parse_simple(1) [of p c cs i m k d] by simp
next
  case (4 d i bss its k p c cs rest)
  have "parse_lines (Suc k) (render_items d i its @ rest) (p\<lparr>stack := fill d i [TData bss] c # cs\<rparr>)
     = parse_lines (Suc k + length (render_items d i its)) rest (p\<lparr>stack := fill d i (TData bss # its) c # cs\<rparr>)"
    using "4.IH" [of "p\<lparr>stack := fill d i [TData bss] c # cs\<rparr>" "fill d i [TData bss] c" cs] 4 fill_append [of d i its "[TData bss]" c]
    by (simp add: fill_def)
  then show ?case using 4 parse_simple(2) [of p c cs i bss k d] by simp
next
  case (5 d i n m its k p c cs rest)
  have "parse_lines (Suc k) (render_items d i its @ rest) (p\<lparr>stack := fill d i [TUnits n m] c # cs\<rparr>)
     = parse_lines (Suc k + length (render_items d i its)) rest (p\<lparr>stack := fill d i (TUnits n m # its) c # cs\<rparr>)"
    using "5.IH" [of "p\<lparr>stack := fill d i [TUnits n m] c # cs\<rparr>" "fill d i [TUnits n m] c" cs] 5 fill_append [of d i its "[TUnits n m]" c]
    by (simp add: fill_def)
  then show ?case using 5 parse_simple(3) [of p c cs i k n m d] by simp
next
  case (6 d i bs its k p c cs rest)
  have "parse_lines (Suc k) (render_items d i its @ rest) (p\<lparr>stack := fill d i [TReturn bs] c # cs\<rparr>)
     = parse_lines (Suc k + length (render_items d i its)) rest (p\<lparr>stack := fill d i (TReturn bs # its) c # cs\<rparr>)"
    using "6.IH" [of "p\<lparr>stack := fill d i [TReturn bs] c # cs\<rparr>" "fill d i [TReturn bs] c" cs] 6 fill_append [of d i its "[TReturn bs]" c]
    by (simp add: fill_def)
  then show ?case using 6 parse_simple(4) [of p c cs i k bs d] by simp
next
  case (7 d i t its k p c cs rest)
  have "parse_lines k (render (Suc d) t @ render_items d i its @ rest) p
      = parse_lines (k + length (render (Suc d) t)) (render_items d i its @ rest) (place (Suc d) t p)"
    by (rule "7.IH"(1)) (use 7 in simp)
  also have "place (Suc d) t p = p\<lparr>stack := fill d i [TCall t] c # cs\<rparr>" by (rule place_fill) (use 7 in simp)
  also have "parse_lines (k + length (render (Suc d) t)) (render_items d i its @ rest) (p\<lparr>stack := fill d i [TCall t] c # cs\<rparr>)
     = parse_lines (k + length (render (Suc d) t) + length (render_items d i its)) rest (p\<lparr>stack := fill d i (TCall t # its) c # cs\<rparr>)"
    using "7.IH"(2) [of "p\<lparr>stack := fill d i [TCall t] c # cs\<rparr>" "fill d i [TCall t] c" cs] 7 fill_append [of d i its "[TCall t]" c]
    by (simp add: fill_def)
  finally show ?case by (simp add: add.assoc)
qed

section \<open>Properties\<close>

lemma parse_rendered_list:
  assumes "list_all valid_trace ts" "stack p = []"
  shows "parse_lines k (concat (map (render 1) ts)) p = p\<lparr>roots := roots p @ map (chunk_of 1) ts\<rparr>"
  using assms
proof (induction ts arbitrary: k p)
  case Nil
  then show ?case by simp
next
  case (Cons t ts)
  have "place 1 t p = p\<lparr>roots := roots p @ [chunk_of 1 t]\<rparr>" using Cons.prems by (simp add: place_def)
  then show ?case
    using Cons parse_rendered(1) [of t k 1 "concat (map (render 1) ts)" p] by simp
qed

text \<open>
  C5. The log parser inverts the runtime's format: for any sequence of invocation trees with
  well-formed ids, messages and data (nesting, failures, events, compute units and return data
  included), parsing what they print yields exactly their chunks, with the depths of the nesting,
  no parse error and no truncation. The raw trace of a chunk holds its own lines and the first
  and last line of its direct children.
\<close>

theorem parseLogs_render:
  assumes "list_all valid_trace ts"
  shows "parseLogs (concat (map (render 1) ts)) =
    \<lparr>tl_chunks = map (chunk_of 1) ts, tl_parseErrors = [], tl_logTruncated = False\<rparr>"
proof -
  let ?init = "\<lparr>roots = [], stack = [], parseErrors = [], truncated = False\<rparr>"
  have "parse_lines 0 (concat (map (render 1) ts)) ?init = ?init\<lparr>roots := map (chunk_of 1) ts\<rparr>"
    using parse_rendered_list [OF assms, of ?init 0] by (simp del: One_nat_def)
  then show ?thesis unfolding parseLogs_def Let_def by (simp del: One_nat_def)
qed

definition sample_program :: "char \<Rightarrow> string" where
  "sample_program c = replicate 32 c"

definition sample_trace :: trace where
  "sample_trace = Trace (sample_program CHR ''A'') None
     [TLog ''Instruction: Buy'',
      TCall (Trace (sample_program CHR ''B'') (Some ''custom program error: 0x1'') [TData [[1, 2], [3]], TUnits 10 200000]),
      TReturn [255]]"

lemma sample_trace_valid: "valid_trace sample_trace"
proof -
  have "is_id_char CHR ''A''" "is_id_char CHR ''B''" by code_simp+
  then show ?thesis
    by (simp add: sample_trace_def sample_program_def valid_id_def no_newline_def list_all_iff)
qed

theorem parseLogs_render_witness:
  "parseLogs (render 1 sample_trace) = \<lparr>tl_chunks = [chunk_of 1 sample_trace], tl_parseErrors = [], tl_logTruncated = False\<rparr>
   \<and> ch_dataPayloads (c_info (hd (c_children (chunk_of 1 sample_trace)))) = [[1, 2, 3]]
   \<and> ch_success (c_info (chunk_of 1 sample_trace)) \<and> ch_depth (c_info (hd (c_children (chunk_of 1 sample_trace)))) = 2"
  using parseLogs_render [of "[sample_trace]"] sample_trace_valid
  by (simp add: sample_trace_def payloads_of_def)

section \<open>Parse errors point at their lines\<close>

definition located :: "string list \<Rightarrow> nat \<Rightarrow> log_error list \<Rightarrow> bool" where
  "located logs k errs \<longleftrightarrow> sorted_wrt (<) (map le_lineIndex errs)
     \<and> list_all (\<lambda>e. le_lineIndex e < k \<and> logs ! le_lineIndex e = le_line e) errs"

lemma on_top_errors [simp]: "parseErrors (on_top f p) = parseErrors p"
  by (simp add: on_top_def split: list.split)

lemma pop_errors [simp]: "parseErrors (pop_chunk p) = parseErrors p"
  by (simp add: pop_chunk_def split: list.split)

definition at_most_one :: "nat \<Rightarrow> string \<Rightarrow> parser \<Rightarrow> parser \<Rightarrow> bool" where
  "at_most_one k line p p' \<longleftrightarrow> parseErrors p' = parseErrors p
     \<or> (\<exists>r. parseErrors p' = parseErrors p @ [\<lparr>le_lineIndex = k, le_line = line, le_reason = r\<rparr>])"

lemma handler_errors:
  "at_most_one k line p (on_terminator k line i none mm f p)"
  "at_most_one k line p (on_log k line m p)" "at_most_one k line p (on_data k line d p)"
  "at_most_one k line p (on_consumed k line i a b p)" "at_most_one k line p (on_return k line i d p)"
  "at_most_one k line p (on_invoke line i n p)"
  by (simp_all add: at_most_one_def on_terminator_def on_log_def on_data_def on_consumed_def on_return_def on_invoke_def
      log_problem_def Let_def split: list.split sum.split)

lemma line_errors: "at_most_one k line p (parse_line k line p)"
proof -
  have "at_most_one k l p (on_top (raw l) p)" "at_most_one k l p (on_top (raw l) (p\<lparr>truncated := True\<rparr>))"
    "at_most_one k l p (on_top (raw l) (log_problem k l Unrecognized p))" for l
    by (simp_all add: at_most_one_def log_problem_def)
  then show ?thesis
    by (simp add: parse_line_def on_success_def on_failed_def handler_errors split: option.split)
qed

lemma located_lines:
  assumes "located logs k (parseErrors p)" "ls = drop k logs" "k \<le> length logs"
  shows "located logs (length logs) (parseErrors (parse_lines k ls p))"
  using assms
proof (induction ls arbitrary: k p)
  case Nil
  then show ?case by simp
next
  case (Cons l ls)
  have k: "k < length logs" "logs ! k = l" "ls = drop (Suc k) logs"
  proof -
    show "k < length logs" using Cons.prems(2) by (metis drop_all list.distinct(1) not_less)
    then show "logs ! k = l" "ls = drop (Suc k) logs"
      using Cons.prems(2) Cons_nth_drop_Suc [of k logs] by (metis list.inject)+
  qed
  have le: "list_all (\<lambda>e. le_lineIndex e < k \<and> logs ! le_lineIndex e = le_line e) (parseErrors p)"
    using Cons.prems(1) by (simp add: located_def)
  have "located logs (Suc k) (parseErrors (parse_line k l p))"
    using line_errors [of k l p] Cons.prems(1) le k(2)
    by (auto simp: located_def at_most_one_def sorted_wrt_append list_all_iff less_Suc_eq)
  then show ?case using Cons.IH [of "Suc k" "parse_line k l p"] k by simp
qed

text \<open>
  No line disappears silently and no error is invented: each parse error names a line of the
  log by its index and text, the errors come in the order of the lines and there is at most one
  per line.
\<close>

theorem parse_errors_located: "located logs (length logs) (tl_parseErrors (parseLogs logs))"
  using located_lines [of logs 0 "\<lparr>roots = [], stack = [], parseErrors = [], truncated = False\<rparr>" logs]
  by (simp add: parseLogs_def Let_def located_def)

end
