(* ===== verification/IdlCodec.thy ===== *)
theory IdlCodec
  imports PublicKey Utf8
begin

text \<open>
  \<open>packages/pumpfun-events/src\<close>: the Borsh decoder and encoder driven by an Anchor IDL
  (\<open>idl-decoder.ts\<close>, \<open>idl-encoder.ts\<close>, \<open>idl-types.ts\<close>, \<open>hex.ts\<close>) and the event decoder
  built from them (\<open>program-decoder.ts\<close>). The cursor is the list of bytes not yet taken. A type
  can refer to itself by name, so the recursion of the code is bounded by the call stack only; the
  first argument is that bound, and running over it is the \<open>RangeError\<close> \<open>StackOverflow\<close>.
\<close>

section \<open>Schemas and values\<close>

datatype idl_type =
    Prim string
  | TVec idl_type
  | TOption idl_type
  | TArray idl_type nat
  | TDefined string

datatype idl_fields = Named "(string \<times> idl_type) list" | Positional "idl_type list"

datatype idl_typedef =
    Struct "idl_fields option"
  | Enum "(string \<times> idl_fields option) list"

type_synonym idl_types = "(string, idl_typedef) jsmap"

record event_schema =
  ev_name :: string
  ev_discriminator :: string
  ev_fields :: "(string \<times> idl_type) list"

text \<open>
  A decoded value: numbers (integers of at most 32 bits), bigints, and the objects of JavaScript.
\<close>

datatype idl_value =
    VNumber int
  | VBigint int
  | VBool bool
  | VPubkey pubkey
  | VString ustring
  | VBytes bytes
  | VNull
  | VArray "idl_value list"
  | VObject "(string \<times> idl_value) list"

datatype idl_error =
    Eof
  | StackOverflow
  | UnsupportedType string
  | NotInSchema string
  | VariantOutOfRange nat
  | NoVariant string
  | NotOfType            \<comment> \<open>the encoder's casts are unchecked: a value of another shape\<close>

definition ustring_of :: "string \<Rightarrow> ustring" where
  "ustring_of s = map of_char s"

definition is_lower :: "char \<Rightarrow> bool" where
  "is_lower c \<longleftrightarrow> 97 \<le> (of_char c :: nat) \<and> (of_char c :: nat) \<le> 122"
definition is_upper :: "char \<Rightarrow> bool" where
  "is_upper c \<longleftrightarrow> 65 \<le> (of_char c :: nat) \<and> (of_char c :: nat) \<le> 90"
definition is_num :: "char \<Rightarrow> bool" where
  "is_num c \<longleftrightarrow> 48 \<le> (of_char c :: nat) \<and> (of_char c :: nat) \<le> 57"
definition to_upper :: "char \<Rightarrow> char" where
  "to_upper c = (if is_lower c then char_of ((of_char c :: nat) - 32) else c)"
definition to_lower :: "char \<Rightarrow> char" where
  "to_lower c = (if is_upper c then char_of ((of_char c :: nat) + 32) else c)"

text \<open>\<open>s.replace(/_([a-z0-9])/g, (_, c) => c.toUpperCase())\<close>\<close>

fun camelCase :: "string \<Rightarrow> string" where
  "camelCase (a # b # s) = (if a = CHR ''_'' \<and> (is_lower b \<or> is_num b) then to_upper b # camelCase s else a # camelCase (b # s))"
| "camelCase s = s"

section \<open>The non-fatal \<open>TextDecoder\<close>\<close>

text \<open>A malformed sequence becomes U+FFFD and the byte that broke it is read again.\<close>

function utf8_lossy :: "nat list \<Rightarrow> ustring" where
  "utf8_lossy [] = []"
| "utf8_lossy (a # bs) =
     (if a < 0x80 then a # utf8_lossy bs
      else if 0xC2 \<le> a \<and> a \<le> 0xDF then
        (case bs of
           [] \<Rightarrow> [0xFFFD]
         | b # bs' \<Rightarrow> if cont b then ((a - 0xC0) * 64 + (b - 0x80)) # utf8_lossy bs' else 0xFFFD # utf8_lossy bs)
      else if 0xE0 \<le> a \<and> a \<le> 0xEF then
        (case bs of
           [] \<Rightarrow> [0xFFFD]
         | b # bs' \<Rightarrow>
             if cont b \<and> (a = 0xE0 \<longrightarrow> 0xA0 \<le> b) \<and> (a = 0xED \<longrightarrow> b \<le> 0x9F)
             then (case bs' of
                     [] \<Rightarrow> [0xFFFD]
                   | c # bs'' \<Rightarrow>
                       if cont c then ((a - 0xE0) * 4096 + (b - 0x80) * 64 + (c - 0x80)) # utf8_lossy bs''
                       else 0xFFFD # utf8_lossy bs')
             else 0xFFFD # utf8_lossy bs)
      else if 0xF0 \<le> a \<and> a \<le> 0xF4 then
        (case bs of
           [] \<Rightarrow> [0xFFFD]
         | b # bs' \<Rightarrow>
             if cont b \<and> (a = 0xF0 \<longrightarrow> 0x90 \<le> b) \<and> (a = 0xF4 \<longrightarrow> b \<le> 0x8F)
             then (case bs' of
                     [] \<Rightarrow> [0xFFFD]
                   | c # bs'' \<Rightarrow>
                       if cont c
                       then (case bs'' of
                               [] \<Rightarrow> [0xFFFD]
                             | d # bs''' \<Rightarrow>
                                 if cont d
                                 then ((a - 0xF0) * 262144 + (b - 0x80) * 4096 + (c - 0x80) * 64 + (d - 0x80)) # utf8_lossy bs'''
                                 else 0xFFFD # utf8_lossy bs'')
                       else 0xFFFD # utf8_lossy bs')
             else 0xFFFD # utf8_lossy bs)
      else 0xFFFD # utf8_lossy bs)"
  by pat_completeness auto
termination by (relation "measure length") auto

definition text_decode_lossy :: "bytes \<Rightarrow> ustring" where
  "text_decode_lossy bs = drop_bom (utf8_lossy (map unat bs))"

section \<open>The decoder\<close>

definition cursor_take :: "nat \<Rightarrow> bytes \<Rightarrow> idl_error + (bytes \<times> bytes)" where
  "cursor_take n buf = (if n > length buf then Inl Eof else Inr (take n buf, drop n buf))"

fun uintLE :: "bytes \<Rightarrow> nat" where
  "uintLE [] = 0"
| "uintLE (b # bs) = uintLE bs * 256 + unat b"

definition intLE :: "bytes \<Rightarrow> int" where
  "intLE bs = (let u = int (uintLE bs); bits = length bs * 8
     in if u \<ge> 2 ^ (bits - 1) then u - 2 ^ bits else u)"

definition INT_SIZES :: "(string \<times> nat \<times> bool) list" where
  "INT_SIZES = [(''u8'', 1, False), (''i8'', 1, True), (''u16'', 2, False), (''i16'', 2, True),
     (''u32'', 4, False), (''i32'', 4, True), (''u64'', 8, False), (''i64'', 8, True), (''u128'', 16, False), (''i128'', 16, True)]"

text \<open>A read and what follows it.\<close>

type_synonym 'a idl_read = "bytes \<Rightarrow> idl_error + ('a \<times> bytes)"

definition take_len :: "bytes idl_read" where
  "take_len buf = rbind (cursor_take 4 buf) (\<lambda>(l, buf). cursor_take (uintLE l) buf)"

definition decode_prim :: "string \<Rightarrow> idl_value idl_read" where
  "decode_prim t buf =
     (case map_of INT_SIZES t of
        Some (sz, sg) \<Rightarrow>
          rbind (cursor_take sz buf) (\<lambda>(bs, buf).
            let v = (if sg then intLE bs else int (uintLE bs))
            in Inr (if sz \<le> 4 then VNumber v else VBigint v, buf))
      | None \<Rightarrow>
          if t = ''bool'' then rbind (cursor_take 1 buf) (\<lambda>(bs, buf). Inr (VBool (hd bs \<noteq> 0), buf))
          else if t = ''pubkey'' then
            rbind (cursor_take 32 buf) (\<lambda>(bs, buf). case fromBytes bs of Inr pk \<Rightarrow> Inr (VPubkey pk, buf) | Inl _ \<Rightarrow> Inl Eof)
          else if t = ''string'' then rbind (take_len buf) (\<lambda>(bs, buf). Inr (VString (text_decode_lossy bs), buf))
          else if t = ''bytes'' then rbind (take_len buf) (\<lambda>(bs, buf). Inr (VBytes bs, buf))
          else Inl (UnsupportedType t))"

text \<open>\<open>Array.from({ length: n }, () => read())\<close> and \<open>types.map(t => read(t))\<close>.\<close>

fun read_n :: "nat \<Rightarrow> 'a idl_read \<Rightarrow> 'a list idl_read" where
  "read_n 0 rd buf = Inr ([], buf)"
| "read_n (Suc n) rd buf = rbind (rd buf) (\<lambda>(x, buf). rbind (read_n n rd buf) (\<lambda>(xs, buf). Inr (x # xs, buf)))"

fun read_each :: "('t \<Rightarrow> 'a idl_read) \<Rightarrow> 't list \<Rightarrow> 'a list idl_read" where
  "read_each rd [] buf = Inr ([], buf)"
| "read_each rd (t # ts) buf = rbind (rd t buf) (\<lambda>(x, buf). rbind (read_each rd ts buf) (\<lambda>(xs, buf). Inr (x # xs, buf)))"

text \<open>\<open>out[camelCase(f.name)] = ...\<close> for the fields in order.\<close>

definition object_of :: "string list \<Rightarrow> idl_value list \<Rightarrow> idl_value" where
  "object_of ks vs = VObject (fold (\<lambda>(k, v) m. jm_set m k v) (zip ks vs) [])"

definition decodeFieldList :: "(idl_type \<Rightarrow> idl_value idl_read) \<Rightarrow> idl_fields option \<Rightarrow> idl_value idl_read" where
  "decodeFieldList rd fs buf =
     (case fs of
        None \<Rightarrow> Inr (VObject [], buf)
      | Some (Named nfs) \<Rightarrow>
          if nfs = [] then Inr (VObject [], buf)
          else rbind (read_each (rd \<circ> snd) nfs buf) (\<lambda>(vs, buf). Inr (object_of (map (camelCase \<circ> fst) nfs) vs, buf))
      | Some (Positional ts) \<Rightarrow>
          if ts = [] then Inr (VObject [], buf) else rbind (read_each rd ts buf) (\<lambda>(vs, buf). Inr (VArray vs, buf)))"

definition decodeDefined :: "(idl_type \<Rightarrow> idl_value idl_read) \<Rightarrow> idl_typedef \<Rightarrow> idl_value idl_read" where
  "decodeDefined rd def buf =
     (case def of
        Struct fs \<Rightarrow> decodeFieldList rd fs buf
      | Enum variants \<Rightarrow>
          rbind (cursor_take 1 buf) (\<lambda>(bs, buf).
            let idx = unat (hd bs)
            in case jat variants idx of
                 None \<Rightarrow> Inl (VariantOutOfRange idx)
               | Some (name, None) \<Rightarrow> Inr (VString (ustring_of name), buf)
               | Some (name, Some fs) \<Rightarrow>
                   rbind (decodeFieldList rd (Some fs) buf) (\<lambda>(v, buf).
                     Inr (VObject [(''variant'', VString (ustring_of name)), (''fields'', v)], buf))))"

fun decodeValue :: "nat \<Rightarrow> idl_types \<Rightarrow> idl_type \<Rightarrow> idl_value idl_read" where
  "decodeValue 0 types t buf = Inl StackOverflow"
| "decodeValue (Suc depth) types t buf =
     (case t of
        Prim p \<Rightarrow> decode_prim p buf
      | TVec u \<Rightarrow> rbind (cursor_take 4 buf) (\<lambda>(l, buf).
          rbind (read_n (uintLE l) (decodeValue depth types u) buf) (\<lambda>(vs, buf). Inr (VArray vs, buf)))
      | TOption u \<Rightarrow> rbind (cursor_take 1 buf) (\<lambda>(d, buf). if hd d = 0 then Inr (VNull, buf) else decodeValue depth types u buf)
      | TArray u n \<Rightarrow> rbind (read_n n (decodeValue depth types u) buf) (\<lambda>(vs, buf). Inr (VArray vs, buf))
      | TDefined name \<Rightarrow>
          (case jm_get types name of None \<Rightarrow> Inl (NotInSchema name) | Some def \<Rightarrow> decodeDefined (decodeValue depth types) def buf))"

section \<open>The encoder\<close>

definition idl_le :: "int \<Rightarrow> nat \<Rightarrow> bytes" where
  "idl_le v sz = le_bytes sz (nat (v mod 2 ^ (sz * 8)))"

definition int_of_value :: "idl_value \<Rightarrow> idl_error + int" where
  "int_of_value v = (case v of VNumber n \<Rightarrow> Inr n | VBigint n \<Rightarrow> Inr n | _ \<Rightarrow> Inl NotOfType)"

definition with_len :: "bytes \<Rightarrow> bytes" where
  "with_len bs = idl_le (int (length bs)) 4 @ bs"

definition encode_prim :: "string \<Rightarrow> idl_value \<Rightarrow> idl_error + bytes" where
  "encode_prim t v =
     (case map_of INT_SIZES t of
        Some (sz, _) \<Rightarrow> rbind (int_of_value v) (\<lambda>n. Inr (idl_le n sz))
      | None \<Rightarrow>
          if t = ''bool'' then (case v of VBool b \<Rightarrow> Inr [if b then 1 else 0] | _ \<Rightarrow> Inl NotOfType)
          else if t = ''pubkey'' then (case v of VPubkey pk \<Rightarrow> Inr (toBuffer pk) | _ \<Rightarrow> Inl NotOfType)
          else if t = ''string'' then (case v of VString s \<Rightarrow> Inr (with_len (text_encode s)) | _ \<Rightarrow> Inl NotOfType)
          else if t = ''bytes'' then (case v of VBytes bs \<Rightarrow> Inr (with_len bs) | _ \<Rightarrow> Inl NotOfType)
          else Inl (UnsupportedType t))"

text \<open>\<open>xs.flatMap(encode)\<close> with a type for each element; an absent element is \<open>undefined\<close>, encoded as \<open>null\<close>.\<close>

fun encode_each :: "('t \<Rightarrow> idl_value \<Rightarrow> idl_error + bytes) \<Rightarrow> 't list \<Rightarrow> idl_value list \<Rightarrow> idl_error + bytes" where
  "encode_each enc [] vs = Inr []"
| "encode_each enc (t # ts) vs =
     rbind (enc t (case vs of v # _ \<Rightarrow> v | [] \<Rightarrow> VNull)) (\<lambda>b. rbind (encode_each enc ts (drop 1 vs)) (\<lambda>bs. Inr (b @ bs)))"

definition encodeFieldList :: "(idl_type \<Rightarrow> idl_value \<Rightarrow> idl_error + bytes) \<Rightarrow> idl_fields option \<Rightarrow> idl_value \<Rightarrow> idl_error + bytes" where
  "encodeFieldList enc fs v =
     (case fs of
        None \<Rightarrow> Inr []
      | Some (Named nfs) \<Rightarrow>
          if nfs = [] then Inr []
          else (case v of
                  VObject obj \<Rightarrow> encode_each (enc \<circ> snd) nfs
                    (map (\<lambda>f. case jm_get obj (camelCase (fst f)) of Some x \<Rightarrow> x | None \<Rightarrow> VNull) nfs)
                | _ \<Rightarrow> Inl NotOfType)
      | Some (Positional ts) \<Rightarrow>
          if ts = [] then Inr [] else (case v of VArray vs \<Rightarrow> encode_each enc ts vs | _ \<Rightarrow> Inl NotOfType))"

definition variant_name :: "idl_value \<Rightarrow> idl_error + ustring" where
  "variant_name v = (case v of
     VString s \<Rightarrow> Inr s
   | VObject obj \<Rightarrow> (case jm_get obj ''variant'' of Some (VString s) \<Rightarrow> Inr s | _ \<Rightarrow> Inl NotOfType)
   | _ \<Rightarrow> Inl NotOfType)"

definition variant_fields :: "idl_value \<Rightarrow> idl_value" where
  "variant_fields v = (case v of VObject obj \<Rightarrow> (case jm_get obj ''fields'' of Some x \<Rightarrow> x | None \<Rightarrow> VNull) | _ \<Rightarrow> VNull)"

definition encodeDefined :: "(idl_type \<Rightarrow> idl_value \<Rightarrow> idl_error + bytes) \<Rightarrow> string \<Rightarrow> idl_typedef \<Rightarrow> idl_value \<Rightarrow> idl_error + bytes" where
  "encodeDefined enc tname def v =
     (case def of
        Struct fs \<Rightarrow> encodeFieldList enc fs v
      | Enum variants \<Rightarrow> rbind (variant_name v) (\<lambda>name.
          case findIndex (\<lambda>x. ustring_of (fst x) = name) variants of
            None \<Rightarrow> Inl (NoVariant tname)
          | Some idx \<Rightarrow> rbind (case snd (variants ! idx) of None \<Rightarrow> Inr [] | Some fs \<Rightarrow> encodeFieldList enc (Some fs) (variant_fields v))
              (\<lambda>bs. Inr (word_of_nat idx # bs))))"

fun encodeIdlValue :: "nat \<Rightarrow> idl_types \<Rightarrow> idl_type \<Rightarrow> idl_value \<Rightarrow> idl_error + bytes" where
  "encodeIdlValue 0 types t v = Inl StackOverflow"
| "encodeIdlValue (Suc depth) types t v =
     (case t of
        Prim p \<Rightarrow> encode_prim p v
      | TVec u \<Rightarrow>
          (case v of
             VArray vs \<Rightarrow> rbind (rmap (encodeIdlValue depth types u) vs) (\<lambda>bss. Inr (idl_le (int (length vs)) 4 @ concat bss))
           | _ \<Rightarrow> Inl NotOfType)
      | TOption u \<Rightarrow> if v = VNull then Inr [0] else rbind (encodeIdlValue depth types u v) (\<lambda>bs. Inr (1 # bs))
      | TArray u n \<Rightarrow> (case v of VArray vs \<Rightarrow> rbind (rmap (encodeIdlValue depth types u) vs) (\<lambda>bss. Inr (concat bss)) | _ \<Rightarrow> Inl NotOfType)
      | TDefined name \<Rightarrow>
          (case jm_get types name of None \<Rightarrow> Inl (NotInSchema name) | Some def \<Rightarrow> encodeDefined (encodeIdlValue depth types) name def v))"

definition encodeIdlFields :: "nat \<Rightarrow> (string \<times> idl_type) list \<Rightarrow> (string \<times> idl_value) list \<Rightarrow> idl_types \<Rightarrow> idl_error + bytes" where
  "encodeIdlFields depth fs values types = encodeFieldList (encodeIdlValue depth types) (Some (Named fs)) (VObject values)"

section \<open>Values of a type\<close>

definition int_in_range :: "nat \<Rightarrow> bool \<Rightarrow> int \<Rightarrow> bool" where
  "int_in_range sz sg n = (if sg then - (2 ^ (sz * 8 - 1)) \<le> n \<and> n < 2 ^ (sz * 8 - 1) else 0 \<le> n \<and> n < 2 ^ (sz * 8))"

definition prim_ok :: "string \<Rightarrow> idl_value \<Rightarrow> bool" where
  "prim_ok t v =
     (case map_of INT_SIZES t of
        Some (sz, sg) \<Rightarrow> (case v of VNumber n \<Rightarrow> sz \<le> 4 \<and> int_in_range sz sg n | VBigint n \<Rightarrow> sz > 4 \<and> int_in_range sz sg n | _ \<Rightarrow> False)
      | None \<Rightarrow>
          if t = ''bool'' then (case v of VBool b \<Rightarrow> True | _ \<Rightarrow> False)
          else if t = ''pubkey'' then (case v of VPubkey pk \<Rightarrow> True | _ \<Rightarrow> False)
          else if t = ''string'' then
            (case v of VString s \<Rightarrow> list_all scalar s \<and> drop_bom s = s \<and> length (text_encode s) < 2 ^ 32 | _ \<Rightarrow> False)
          else if t = ''bytes'' then (case v of VBytes bs \<Rightarrow> length bs < 2 ^ 32 | _ \<Rightarrow> False)
          else False)"

definition fields_ok :: "(idl_type \<Rightarrow> idl_value \<Rightarrow> bool) \<Rightarrow> idl_fields option \<Rightarrow> idl_value \<Rightarrow> bool" where
  "fields_ok ok fs v =
     (case fs of
        None \<Rightarrow> v = VObject []
      | Some (Named nfs) \<Rightarrow>
          (case v of VObject obj \<Rightarrow> map fst obj = map (camelCase \<circ> fst) nfs \<and> distinct (map fst obj)
             \<and> list_all2 (\<lambda>f kv. ok (snd f) (snd kv)) nfs obj | _ \<Rightarrow> False)
      | Some (Positional ts) \<Rightarrow>
          if ts = [] then v = VObject [] else (case v of VArray vs \<Rightarrow> list_all2 ok ts vs | _ \<Rightarrow> False))"

definition defined_ok :: "(idl_type \<Rightarrow> idl_value \<Rightarrow> bool) \<Rightarrow> idl_typedef \<Rightarrow> idl_value \<Rightarrow> bool" where
  "defined_ok ok def v =
     (case def of
        Struct fs \<Rightarrow> fields_ok ok fs v
      | Enum variants \<Rightarrow>
          (case variant_name v of
             Inl _ \<Rightarrow> False
           | Inr name \<Rightarrow>
               (case findIndex (\<lambda>x. ustring_of (fst x) = name) variants of
                  None \<Rightarrow> False
                | Some idx \<Rightarrow> idx < 256 \<and>
                    (case snd (variants ! idx) of
                       None \<Rightarrow> v = VString name
                     | Some fs \<Rightarrow> v = VObject [(''variant'', VString name), (''fields'', variant_fields v)] \<and> fields_ok ok (Some fs) (variant_fields v)))))"

fun has_type :: "nat \<Rightarrow> idl_types \<Rightarrow> idl_type \<Rightarrow> idl_value \<Rightarrow> bool" where
  "has_type 0 types t v = False"
| "has_type (Suc depth) types t v =
     (case t of
        Prim p \<Rightarrow> prim_ok p v
      | TVec u \<Rightarrow> (case v of VArray vs \<Rightarrow> length vs < 2 ^ 32 \<and> list_all (has_type depth types u) vs | _ \<Rightarrow> False)
      | TOption u \<Rightarrow> v = VNull \<or> has_type depth types u v
      | TArray u n \<Rightarrow> (case v of VArray vs \<Rightarrow> length vs = n \<and> list_all (has_type depth types u) vs | _ \<Rightarrow> False)
      | TDefined name \<Rightarrow> (case jm_get types name of None \<Rightarrow> False | Some def \<Rightarrow> defined_ok (has_type depth types) def v))"

section \<open>Primitive values\<close>

lemma uintLE_le_val: "uintLE bs = le_val bs"
  by (induction bs) simp_all

lemma cursor_take_append [simp]: "length bs = n \<Longrightarrow> cursor_take n (bs @ rest) = Inr (bs, rest)"
  by (simp add: cursor_take_def)

lemma length_idl_le [simp]: "length (idl_le v sz) = sz"
  by (simp add: idl_le_def)

lemma uintLE_idl_le: "int (uintLE (idl_le v sz)) = v mod 2 ^ (sz * 8)"
proof -
  have p: "(256 :: nat) ^ sz = 2 ^ (sz * 8)" by (simp add: power_mult mult.commute [of sz 8])
  have "nat (v mod 2 ^ (sz * 8)) < 2 ^ (sz * 8)"
    using pos_mod_bound [of "2 ^ (sz * 8)" v] by (simp add: nat_less_iff)
  then show ?thesis unfolding uintLE_le_val idl_le_def by (simp add: le_val_le_bytes p)
qed

lemma uintLE_len: "length bs < 2 ^ 32 \<Longrightarrow> uintLE (idl_le (int (length bs)) 4) = length bs"
  using uintLE_idl_le [of "int (length bs)" 4] by (simp add: zmod_int [symmetric])

lemma intLE_idl_le:
  assumes "0 < sz" "int_in_range sz True n"
  shows "intLE (idl_le n sz) = n"
proof -
  obtain k where k: "sz * 8 = Suc k" using assms(1) by (cases "sz * 8") auto
  have r: "- (2 ^ k) \<le> n" "n < 2 ^ k" using assms(2) k by (simp_all add: int_in_range_def)
  show ?thesis
  proof (cases "0 \<le> n")
    case True
    then have "n mod 2 ^ Suc k = n" using r by simp
    then show ?thesis using r True by (simp add: intLE_def Let_def uintLE_idl_le k)
  next
    case False
    have "(n + 2 ^ Suc k) mod 2 ^ Suc k = n + 2 ^ Suc k" by (rule mod_pos_pos_trivial) (use r False in simp_all)
    then have "n mod 2 ^ Suc k = n + 2 ^ Suc k" by simp
    then show ?thesis using r False by (simp add: intLE_def Let_def uintLE_idl_le k)
  qed
qed

lemma utf8_lossy_decode: "utf8_decode bs = Some s \<Longrightarrow> utf8_lossy bs = s"
proof (induction bs arbitrary: s rule: utf8_decode.induct)
  case 1
  then show ?case by simp
next
  case (2 a bs)
  consider "a < 0x80" | "0xC2 \<le> a" "a \<le> 0xDF" | "0xE0 \<le> a" "a \<le> 0xEF" | "0xF0 \<le> a" "a \<le> 0xF4"
    using "2.prems" by (fastforce split: if_splits)
  then show ?case
  proof cases
    case 1
    then show ?thesis using 2 by auto
  next
    case c: 2
    then have n: "\<not> a < 0x80" by simp
    obtain b bs' where bs: "bs = b # bs'" "cont b" using "2.prems" c n by (auto split: list.splits if_splits)
    then show ?thesis using "2.prems" "2.IH"(2) [OF n _ bs(1,2)] c n by auto
  next
    case c: 3
    then have n: "\<not> a < 0x80" "\<not> (0xC2 \<le> a \<and> a \<le> 0xDF)" by simp_all
    obtain b c' bs' where bs: "bs = b # c' # bs'" "cont b \<and> cont c' \<and> (a = 0xE0 \<longrightarrow> 0xA0 \<le> b) \<and> (a = 0xED \<longrightarrow> b \<le> 0x9F)"
      using "2.prems" c n by (auto split: list.splits if_splits)
    then show ?thesis using "2.prems" "2.IH"(3) [OF n(1,2) _ bs(1) refl bs(2)] c n by auto
  next
    case c: 4
    then have n: "\<not> a < 0x80" "\<not> (0xC2 \<le> a \<and> a \<le> 0xDF)" "\<not> (0xE0 \<le> a \<and> a \<le> 0xEF)" by simp_all
    obtain b c' d bs' where bs: "bs = b # c' # d # bs'"
      "cont b \<and> cont c' \<and> cont d \<and> (a = 0xF0 \<longrightarrow> 0x90 \<le> b) \<and> (a = 0xF4 \<longrightarrow> b \<le> 0x8F)"
      using "2.prems" c n by (auto split: list.splits if_splits)
    then show ?thesis using "2.prems" "2.IH"(4) [OF n(1,2,3) _ bs(1) refl refl bs(2)] c n by auto
  qed
qed

lemma text_decode_lossy: "text_decode bs = Some s \<Longrightarrow> text_decode_lossy bs = s"
  by (auto simp: text_decode_def text_decode_lossy_def dest: utf8_lossy_decode)

lemma take_len_with_len: "length bs < 2 ^ 32 \<Longrightarrow> take_len (with_len bs @ rest) = Inr (bs, rest)"
  by (simp add: take_len_def with_len_def uintLE_len)

lemma map_of_INT_SIZES: "map_of INT_SIZES t = Some (sz, sg) \<Longrightarrow> 0 < sz"
  by (auto simp: INT_SIZES_def split: if_splits)

lemma prim_codec:
  assumes "prim_ok t v"
  shows "\<exists>bs. encode_prim t v = Inr bs \<and> (\<forall>rest. decode_prim t (bs @ rest) = Inr (v, rest))"
proof (cases "map_of INT_SIZES t")
  case (Some p)
  then obtain sz sg where p: "map_of INT_SIZES t = Some (sz, sg)" by (cases p) auto
  obtain n where n: "int_in_range sz sg n" "int_of_value v = Inr n" "v = (if sz \<le> 4 then VNumber n else VBigint n)"
    using assms p by (auto simp: prim_ok_def int_of_value_def split: idl_value.splits)
  have "(if sg then intLE (idl_le n sz) else int (uintLE (idl_le n sz))) = n"
    using n(1) intLE_idl_le [OF map_of_INT_SIZES [OF p], of n]
    by (cases sg) (simp_all add: uintLE_idl_le int_in_range_def)
  then have "decode_prim t (idl_le n sz @ rest) = Inr (v, rest)" for rest
    using p n(3) by (simp add: decode_prim_def Let_def)
  then show ?thesis using p n(2) by (simp add: encode_prim_def)
next
  case None
  consider b where "t = ''bool''" "v = VBool b" | pk where "t = ''pubkey''" "v = VPubkey pk"
    | s where "t = ''string''" "v = VString s" "list_all scalar s" "drop_bom s = s" "length (text_encode s) < 2 ^ 32"
    | bs where "t = ''bytes''" "v = VBytes bs" "length bs < 2 ^ 32"
    using assms None by (auto simp: prim_ok_def split: if_splits idl_value.splits)
  then show ?thesis
  proof cases
    case 1
    then show ?thesis using None by (simp add: encode_prim_def decode_prim_def cursor_take_def)
  next
    case 2
    then show ?thesis using None by (simp add: encode_prim_def decode_prim_def)
  next
    case (3 s)
    have "text_decode_lossy (text_encode s) = s"
      using text_decode_encode [of s] 3 by (intro text_decode_lossy) (simp add: list_all_iff)
    then show ?thesis using None 3 by (simp add: encode_prim_def decode_prim_def take_len_with_len)
  next
    case (4 bs)
    then show ?thesis using None by (simp add: encode_prim_def decode_prim_def take_len_with_len)
  qed
qed

section \<open>The codec interface\<close>

text \<open>
  An encoder and a decoder of the values of every type: the decoder reads back what the encoder
  wrote and leaves what follows. Field lists, arrays and enums built over such a pair are such a
  pair again.
\<close>

locale idl_codec =
  fixes enc :: "idl_type \<Rightarrow> idl_value \<Rightarrow> idl_error + bytes"
    and rd :: "idl_type \<Rightarrow> idl_value idl_read"
    and ok :: "idl_type \<Rightarrow> idl_value \<Rightarrow> bool"
  assumes codec: "ok t v \<Longrightarrow> \<exists>bs. enc t v = Inr bs \<and> (\<forall>rest. rd t (bs @ rest) = Inr (v, rest))"
begin

lemma each_codec:
  assumes "list_all2 (\<lambda>x v. ok (f x) v) xs vs"
  shows "\<exists>bs. encode_each (enc \<circ> f) xs vs = Inr bs \<and> (\<forall>rest. read_each (rd \<circ> f) xs (bs @ rest) = Inr (vs, rest))"
  using assms
proof (induction xs vs rule: list_all2_induct)
  case Nil
  then show ?case by simp
next
  case (Cons x xs v vs)
  obtain b where b: "enc (f x) v = Inr b" "\<And>rest. rd (f x) (b @ rest) = Inr (v, rest)" using codec Cons by blast
  obtain bs where bs: "encode_each (enc \<circ> f) xs vs = Inr bs" "\<And>rest. read_each (rd \<circ> f) xs (bs @ rest) = Inr (vs, rest)"
    using Cons by blast
  show ?case using b bs by (intro exI [of _ "b @ bs"]) (simp add: o_def)
qed

lemma many_codec:
  assumes "list_all (ok t) vs"
  shows "\<exists>bss. rmap (enc t) vs = Inr bss \<and> (\<forall>rest. read_n (length vs) (rd t) (concat bss @ rest) = Inr (vs, rest))"
  using assms
proof (induction vs)
  case Nil
  then show ?case by simp
next
  case (Cons v vs)
  obtain b where b: "enc t v = Inr b" "\<And>rest. rd t (b @ rest) = Inr (v, rest)" using codec [of t v] Cons by auto
  obtain bss where bs: "rmap (enc t) vs = Inr bss" "\<And>rest. read_n (length vs) (rd t) (concat bss @ rest) = Inr (vs, rest)"
    using Cons by auto
  show ?case using b bs by simp
qed

end

lemma object_of_distinct: "distinct (map fst obj) \<Longrightarrow> object_of (map fst obj) (map snd obj) = VObject obj"
proof -
  have "fold (\<lambda>(k, v) m. jm_set m k v) obj m = m @ obj" if "distinct (map fst (m @ obj))" for m :: "(string \<times> idl_value) list"
    using that
  proof (induction obj arbitrary: m)
    case (Cons kv obj)
    obtain k v where kv: "kv = (k, v)" by fastforce
    have "\<not> jm_has m k" using Cons.prems kv by (simp add: jm_has_iff jm_keys_def)
    then show ?case using Cons kv by (simp add: jm_set_absent)
  qed simp
  from this [of "[]"] show "distinct (map fst obj) \<Longrightarrow> object_of (map fst obj) (map snd obj) = VObject obj"
    by (simp add: object_of_def zip_map_fst_snd)
qed

lemma object_values:
  assumes "distinct (map fst obj)" "map fst obj = map g nfs"
  shows "map (\<lambda>f. case jm_get obj (g f) of Some x \<Rightarrow> x | None \<Rightarrow> VNull) nfs = map snd obj"
proof (rule nth_equalityI)
  show "length (map (\<lambda>f. case jm_get obj (g f) of Some x \<Rightarrow> x | None \<Rightarrow> VNull) nfs) = length (map snd obj)"
    using assms(2) by (metis length_map)
next
  fix j assume "j < length (map (\<lambda>f. case jm_get obj (g f) of Some x \<Rightarrow> x | None \<Rightarrow> VNull) nfs)"
  then have j: "j < length nfs" "j < length obj" using assms(2) by (simp_all, metis length_map)
  then have "fst (obj ! j) = g (nfs ! j)" using assms(2) by (metis nth_map)
  moreover have "jm_get obj (fst (obj ! j)) = Some (snd (obj ! j))" using assms(1) j by simp
  ultimately show "map (\<lambda>f. case jm_get obj (g f) of Some x \<Rightarrow> x | None \<Rightarrow> VNull) nfs ! j = map snd obj ! j"
    using j by simp
qed

context idl_codec
begin

lemma named_codec:
  assumes "fields_ok ok (Some (Named nfs)) (VObject obj)"
  shows "\<exists>bs. encode_each (enc \<circ> snd) nfs (map snd obj) = Inr bs \<and> (\<forall>rest. read_each (rd \<circ> snd) nfs (bs @ rest) = Inr (map snd obj, rest))"
proof (rule each_codec)
  show "list_all2 (\<lambda>x v. ok (snd x) v) nfs (map snd obj)"
    using assms by (simp add: fields_ok_def list_all2_conv_all_nth)
qed

lemma fields_codec:
  assumes "fields_ok ok fs v"
  shows "\<exists>bs. encodeFieldList enc fs v = Inr bs \<and> (\<forall>rest. decodeFieldList rd fs (bs @ rest) = Inr (v, rest))"
proof (cases fs)
  case None
  then show ?thesis using assms by (simp add: fields_ok_def encodeFieldList_def decodeFieldList_def)
next
  case (Some fl)
  show ?thesis
  proof (cases fl)
    case (Named nfs)
    obtain obj where obj: "v = VObject obj" "map fst obj = map (camelCase \<circ> fst) nfs" "distinct (map fst obj)"
      using assms Some Named by (auto simp: fields_ok_def split: idl_value.splits)
    show ?thesis
    proof (cases "nfs = []")
      case True
      then show ?thesis using obj Some Named by (simp add: encodeFieldList_def decodeFieldList_def)
    next
      case False
      obtain bs where bs: "encode_each (enc \<circ> snd) nfs (map snd obj) = Inr bs"
        "\<And>rest. read_each (rd \<circ> snd) nfs (bs @ rest) = Inr (map snd obj, rest)"
        using named_codec assms Some Named obj(1) by blast
      have "map (\<lambda>f. case jm_get obj (camelCase (fst f)) of Some x \<Rightarrow> x | None \<Rightarrow> VNull) nfs = map snd obj"
        using object_values [OF obj(3), of "camelCase \<circ> fst" nfs] obj(2) by simp
      then show ?thesis
        using False bs obj Some Named object_of_distinct [OF obj(3)] by (simp add: encodeFieldList_def decodeFieldList_def)
    qed
  next
    case (Positional ts)
    show ?thesis
    proof (cases "ts = []")
      case True
      then show ?thesis using assms Some Positional by (simp add: fields_ok_def encodeFieldList_def decodeFieldList_def)
    next
      case False
      then obtain vs where vs: "v = VArray vs" "list_all2 ok ts vs"
        using assms Some Positional by (auto simp: fields_ok_def split: idl_value.splits)
      then show ?thesis
        using each_codec [of id ts vs] False Some Positional by (simp add: encodeFieldList_def decodeFieldList_def) auto
    qed
  qed
qed

lemma defined_codec:
  assumes "defined_ok ok def v"
  shows "\<exists>bs. encodeDefined enc tname def v = Inr bs \<and> (\<forall>rest. decodeDefined rd def (bs @ rest) = Inr (v, rest))"
proof (cases def)
  case (Struct fs)
  then show ?thesis using fields_codec [of fs v] assms by (simp add: defined_ok_def encodeDefined_def decodeDefined_def)
next
  case (Enum variants)
  obtain name idx where n: "variant_name v = Inr name" "findIndex (\<lambda>x. ustring_of (fst x) = name) variants = Some idx" "idx < 256"
    using assms Enum by (auto simp: defined_ok_def split: sum.splits option.splits)
  have idx: "idx < length variants" "ustring_of (fst (variants ! idx)) = name" using findIndex_Some [OF n(2)] by auto
  obtain vn vf where var: "variants ! idx = (vn, vf)" by fastforce
  have u: "unat (word_of_nat idx :: byte) = idx" using n(3) by (simp add: unat_of_nat)
  show ?thesis
  proof (cases vf)
    case None
    then have "v = VString name" using assms Enum n var by (simp add: defined_ok_def)
    then show ?thesis
      using Enum n idx var None u by (simp add: encodeDefined_def decodeDefined_def cursor_take_def jat_def Let_def)
  next
    case (Some fs)
    have ok: "v = VObject [(''variant'', VString name), (''fields'', variant_fields v)]" "fields_ok ok (Some fs) (variant_fields v)"
      using assms Enum n var Some by (simp_all add: defined_ok_def)
    obtain bs where bs: "encodeFieldList enc (Some fs) (variant_fields v) = Inr bs"
      "\<And>rest. decodeFieldList rd (Some fs) (bs @ rest) = Inr (variant_fields v, rest)"
      using fields_codec [OF ok(2)] by blast
    have "decodeDefined rd def ((word_of_nat idx # bs) @ rest) = Inr (v, rest)" for rest
      using Enum idx var Some u bs ok(1) by (simp add: decodeDefined_def cursor_take_def jat_def Let_def)
    moreover have "encodeDefined enc tname def v = Inr (word_of_nat idx # bs)"
      using Enum n var Some bs by (simp add: encodeDefined_def)
    ultimately show ?thesis by blast
  qed
qed

end

lemma value_codec: "idl_codec (encodeIdlValue depth types) (decodeValue depth types) (has_type depth types)"
proof (induction depth)
  case 0
  show ?case by unfold_locales simp
next
  case (Suc depth)
  note many = idl_codec.many_codec [OF Suc] and one = idl_codec.codec [OF Suc] and def = idl_codec.defined_codec [OF Suc]
  show ?case
  proof unfold_locales
    fix t v
    assume ok: "has_type (Suc depth) types t v"
    show "\<exists>bs. encodeIdlValue (Suc depth) types t v = Inr bs \<and> (\<forall>rest. decodeValue (Suc depth) types t (bs @ rest) = Inr (v, rest))"
    proof (cases t)
      case (Prim p)
      then show ?thesis using ok prim_codec by simp
    next
      case (TVec u)
      obtain vs where vs: "v = VArray vs" "length vs < 2 ^ 32" "list_all (has_type depth types u) vs"
        using ok TVec by (auto split: idl_value.splits)
      have len: "uintLE (idl_le (int (length vs)) 4) = length vs"
        using uintLE_idl_le [of "int (length vs)" 4] vs(2) by (simp add: zmod_int [symmetric])
      show ?thesis using many [OF vs(3)] TVec vs(1) len by (auto simp del: One_nat_def)
    next
      case (TOption u)
      show ?thesis
      proof (cases "v = VNull")
        case True
        then show ?thesis using TOption by (simp add: cursor_take_def)
      next
        case False
        then obtain bs where "encodeIdlValue depth types u v = Inr bs" "\<And>rest. decodeValue depth types u (bs @ rest) = Inr (v, rest)"
          using one [of u v] ok TOption by auto
        then show ?thesis using TOption False by (simp add: cursor_take_def)
      qed
    next
      case (TArray u n)
      obtain vs where vs: "v = VArray vs" "length vs = n" "list_all (has_type depth types u) vs"
        using ok TArray by (auto split: idl_value.splits)
      show ?thesis using many [OF vs(3)] TArray vs(1,2) by auto
    next
      case (TDefined name)
      then obtain d where d: "jm_get types name = Some d" "defined_ok (has_type depth types) d v"
        using ok by (auto split: option.splits)
      show ?thesis using def [OF d(2), of name] TDefined d(1) by simp
    qed
  qed
qed

interpretation idl: idl_codec "encodeIdlValue depth types" "decodeValue depth types" "has_type depth types" for depth types
  by (rule value_codec)

end
