(* ===== verification/IdlEvents.thy ===== *)
theory IdlEvents
  imports IdlCodec LogRoundTrip
begin

text \<open>
  \<open>packages/pumpfun-events/src\<close>: events and accounts decoded against a program's IDL
  (\<open>decodeIdlEvent\<close>, \<open>decodeIdlAccount\<close> of \<open>idl-decoder.ts\<close>), and the decoder that
  \<open>program-decoder.ts\<close> registers for a program. \<open>depth\<close> is the bound of \<open>decodeValue\<close>.
\<close>

section \<open>Schemas\<close>

record account_layout = event_schema +
  legacyFields :: "(string \<times> idl_type) list option"
  nonAppendVersion :: "string option"
  previousFieldCount :: "nat option"
  previousVersion :: "string option"
  legacyPaddedSizes :: "nat list option"

record program_schema =
  sc_address :: string
  sc_events :: "event_schema list"
  sc_accounts :: "account_layout list"
  sc_types :: idl_types

definition hex_digit :: "nat \<Rightarrow> char" where
  "hex_digit d = (if d < 10 then char_of (48 + d) else char_of (87 + d))"

definition toHex :: "bytes \<Rightarrow> string" where
  "toHex bs = concat (map (\<lambda>b. [hex_digit (unat b div 16), hex_digit (unat b mod 16)]) bs)"

type_synonym idl_object = "(string \<times> idl_value) list"

record decoded_event =
  de_name :: string
  de_fields :: idl_object
  de_complete :: bool

section \<open>Events\<close>

text \<open>The field loop of \<open>decodeIdlEvent\<close>; the flag says whether it ran to the end.\<close>

fun decode_fields :: "nat \<Rightarrow> idl_types \<Rightarrow> (string \<times> idl_type) list \<Rightarrow> bytes \<Rightarrow> idl_object \<Rightarrow> idl_error + (idl_object \<times> bool)" where
  "decode_fields depth types [] buf obj = Inr (obj, True)"
| "decode_fields depth types (f # fs) buf obj =
     (if buf = [] then Inr (obj, False)
      else rbind (decodeValue depth types (snd f) buf) (\<lambda>(v, buf).
             decode_fields depth types fs buf (jm_set obj (camelCase (fst f)) v)))"

definition decodeIdlEvent :: "nat \<Rightarrow> program_schema \<Rightarrow> bytes \<Rightarrow> idl_error + decoded_event option" where
  "decodeIdlEvent depth schema d =
     (if length d < 8 then Inr None
      else case find (\<lambda>e. ev_discriminator e = toHex (take 8 d)) (sc_events schema) of
             None \<Rightarrow> Inr None
           | Some e \<Rightarrow> rbind (decode_fields depth (sc_types schema) (ev_fields e) (drop 8 d) []) (\<lambda>(obj, complete).
               Inr (Some \<lparr>de_name = ev_name e, de_fields = obj, de_complete = complete\<rparr>)))"

section \<open>Accounts\<close>

datatype account_error =
    AccountNotInSchema string
  | DiscriminatorMismatch string
  | UnknownLayoutVersion string
  | BadAccount idl_error

definition truthy_string :: "string option \<Rightarrow> bool" where
  "truthy_string s \<longleftrightarrow> (case s of None \<Rightarrow> False | Some x \<Rightarrow> x \<noteq> [])"

definition layout_unknown :: "idl_object \<Rightarrow> idl_object" where
  "layout_unknown obj = jm_set obj ''layoutVersion'' (VString (ustring_of ''unknown''))"

text \<open>\<open>paddedAmbiguity\<close> and the fields that are read.\<close>

definition padded_ambiguity :: "account_layout \<Rightarrow> string option \<Rightarrow> nat \<Rightarrow> bool" where
  "padded_ambiguity layout version n \<longleftrightarrow> \<not> truthy_string version \<and>
     (case legacyPaddedSizes layout of None \<Rightarrow> False | Some szs \<Rightarrow> n \<in> set szs)"

definition selected_fields :: "account_layout \<Rightarrow> string option \<Rightarrow> nat \<Rightarrow> (string \<times> idl_type) list" where
  "selected_fields layout version n =
     (case (legacyFields layout, version \<noteq> nonAppendVersion layout) of
        (Some fs, True) \<Rightarrow> fs
      | _ \<Rightarrow> (case previousFieldCount layout of
                Some k \<Rightarrow> (if version = previousVersion layout \<or> padded_ambiguity layout version n
                           then take k (ev_fields layout) else ev_fields layout)
              | None \<Rightarrow> ev_fields layout))"

definition decodeIdlAccount :: "nat \<Rightarrow> program_schema \<Rightarrow> string \<Rightarrow> bytes \<Rightarrow> string option \<Rightarrow> account_error + idl_object" where
  "decodeIdlAccount depth schema accountName d version =
     (case find (\<lambda>a. ev_name a = accountName) (sc_accounts schema) of
        None \<Rightarrow> Inl (AccountNotInSchema accountName)
      | Some layout \<Rightarrow>
          if toHex (take 8 d) \<noteq> ev_discriminator layout then Inl (DiscriminatorMismatch accountName)
          else if truthy_string version \<and> (legacyFields layout \<noteq> None \<or> previousFieldCount layout \<noteq> None)
                  \<and> version \<noteq> Some ''e0687ae9'' \<and> version \<noteq> Some ''2293f9a6''
          then Inl (UnknownLayoutVersion accountName)
          else (case decode_fields depth (sc_types schema) (selected_fields layout version (length d)) (drop 8 d) [] of
                  Inl e \<Rightarrow> Inl (BadAccount e)
                | Inr (obj, _) \<Rightarrow>
                    let common = map (camelCase \<circ> fst) (filter (\<lambda>f. fst f \<noteq> ''_reserved'') (ev_fields layout));
                        obj = (if legacyFields layout \<noteq> None \<and> \<not> truthy_string version
                               then layout_unknown (filter (\<lambda>(k, _). k \<in> set common) obj) else obj)
                    in Inr (if padded_ambiguity layout version (length d) then layout_unknown obj else obj)))"

section \<open>Event kinds\<close>

text \<open>\<open>.replace(/Event$/, '')\<close>, \<open>.replace(/([a-z0-9])([A-Z])/g, '$1_$2')\<close>, \<open>.toLowerCase()\<close>.\<close>

definition drop_event :: "string \<Rightarrow> string" where
  "drop_event s = (if drop (length s - 5) s = ''Event'' then take (length s - 5) s else s)"

fun split_words :: "string \<Rightarrow> string" where
  "split_words (a # b # s) =
     (if (is_lower a \<or> is_num a) \<and> is_upper b then a # CHR ''_'' # b # split_words s else a # split_words (b # s))"
| "split_words s = s"

definition eventKindSuffix :: "string \<Rightarrow> string" where
  "eventKindSuffix name = map to_lower (split_words (drop_event name))"

section \<open>The decoder of a program\<close>

record idl_decoder =
  id_programId :: pubkey
  id_schema :: program_schema
  id_prefix :: string
  id_typed :: "(string, string list) jsmap"

definition message_of :: "idl_error \<Rightarrow> string" where
  "message_of e = (case e of
     Eof \<Rightarrow> ''eof''
   | StackOverflow \<Rightarrow> ''Maximum call stack size exceeded''
   | UnsupportedType t \<Rightarrow> ''unsupported idl type '' @ t
   | NotInSchema n \<Rightarrow> ''idl type '' @ n @ '' not in schema''
   | VariantOutOfRange idx \<Rightarrow> ''enum variant '' @ decimal idx @ '' out of range''
   | NoVariant n \<Rightarrow> ''enum '' @ n @ '' has no variant''
   | NotOfType \<Rightarrow> '''')"

definition unknown_of :: "idl_decoder \<Rightarrow> string \<Rightarrow> unknown_event" where
  "unknown_of o' reason = \<lparr>u_programId = toBase58 (id_programId o'), u_reason = reason, u_rawLines = None\<rparr>"

fun join_commas :: "string list \<Rightarrow> string" where
  "join_commas [] = []"
| "join_commas [w] = w"
| "join_commas (w # ws) = w @ '','' @ join_commas ws"

text \<open>\<open>{ kind, ...fields }\<close>: a field of the same name wins.\<close>

definition with_kind :: "string \<Rightarrow> idl_object \<Rightarrow> idl_object" where
  "with_kind kind fs = fold (\<lambda>(k, v) m. jm_set m k v) fs [(''kind'', VString (ustring_of kind))]"

definition decodePayload :: "nat \<Rightarrow> idl_decoder \<Rightarrow> bytes \<Rightarrow> (idl_object + unknown_event) option" where
  "decodePayload depth o' d =
     (case decodeIdlEvent depth (id_schema o') d of
        Inl e \<Rightarrow> Some (Inr (unknown_of o' (''borsh-parse-error:'' @ message_of e)))
      | Inr None \<Rightarrow> None
      | Inr (Some ev) \<Rightarrow>
          let suffix = eventKindSuffix (de_name ev)
          in case jm_get (id_typed o') suffix of
               None \<Rightarrow> Some (Inl [(''kind'', VString (ustring_of (id_prefix o' @ ''.other''))),
                          (''eventName'', VString (ustring_of (de_name ev))), (''fields'', VObject (de_fields ev))])
             | Some required \<Rightarrow>
                 let missing = filter (\<lambda>f. \<not> jm_has (de_fields ev) f) required
                 in if length missing > 0 then Some (Inr (unknown_of o' (''incomplete:'' @ de_name ev @ '':'' @ join_commas missing)))
                    else Some (Inl (with_kind (id_prefix o' @ ''.'' @ suffix) (de_fields ev))))"

definition unrecognised :: "idl_decoder \<Rightarrow> bytes option \<Rightarrow> unknown_event" where
  "unrecognised o' d = unknown_of o' (case d of
     None \<Rightarrow> ''no-data-payload''
   | Some bs \<Rightarrow> if length bs < 8 then ''truncated-data'' else ''unknown-discriminator:'' @ toHex (take 8 bs))"

text \<open>\<open>decode\<close>: the first payload that is an event.\<close>

fun first_event :: "nat \<Rightarrow> idl_decoder \<Rightarrow> bytes list \<Rightarrow> (idl_object + unknown_event) option" where
  "first_event depth o' [] = None"
| "first_event depth o' (d # ds) = (case decodePayload depth o' d of Some r \<Rightarrow> Some r | None \<Rightarrow> first_event depth o' ds)"

definition idl_decode :: "nat \<Rightarrow> idl_decoder \<Rightarrow> chunk \<Rightarrow> idl_object + unknown_event" where
  "idl_decode depth o' c =
     (let ps = ch_dataPayloads (c_info c)
      in case first_event depth o' ps of Some r \<Rightarrow> r | None \<Rightarrow> Inr (unrecognised o' (jat ps 0)))"

definition idl_decodeAll :: "nat \<Rightarrow> idl_decoder \<Rightarrow> chunk \<Rightarrow> (idl_object + unknown_event) list" where
  "idl_decodeAll depth o' c =
     (let ps = ch_dataPayloads (c_info c)
      in if length ps = 0 then [Inr (unrecognised o' None)]
         else map (\<lambda>d. case decodePayload depth o' d of Some r \<Rightarrow> r | None \<Rightarrow> Inr (unrecognised o' (Some d))) ps)"

text \<open>What \<open>makeIdlDecoder\<close> hands to the registry, which prefers \<open>decodeAll\<close>.\<close>

definition makeIdlDecoder :: "nat \<Rightarrow> idl_decoder \<Rightarrow> idl_object decoder" where
  "makeIdlDecoder depth o' c = Inr (idl_decodeAll depth o' c)"

section \<open>Events read back\<close>

definition event_values :: "nat \<Rightarrow> idl_types \<Rightarrow> (string \<times> idl_type) list \<Rightarrow> idl_object \<Rightarrow> bool" where
  "event_values depth types fs obj \<longleftrightarrow> fields_ok (has_type depth types) (Some (Named fs)) (VObject obj)
     \<and> list_all2 (\<lambda>f kv. encodeIdlValue depth types (snd f) (snd kv) \<noteq> Inr []) fs obj"

lemma decode_fields_values:
  assumes "list_all2 (\<lambda>f kv. has_type depth types (snd f) (snd kv) \<and> encodeIdlValue depth types (snd f) (snd kv) \<noteq> Inr []
      \<and> fst kv = camelCase (fst f)) fs obj"
    and "distinct (map fst (acc @ obj))" and rest: "fs2 = [] \<or> rest = []"
  shows "\<exists>bs. encode_each (encodeIdlValue depth types \<circ> snd) fs (map snd obj) = Inr bs
     \<and> decode_fields depth types (fs @ fs2) (bs @ rest) acc = Inr (acc @ obj, fs2 = [])"
  using assms(1,2)
proof (induction fs obj arbitrary: acc rule: list_all2_induct)
  case Nil
  then show ?case using rest by (cases fs2) simp_all
next
  case (Cons f fs kv obj)
  obtain b where b: "encodeIdlValue depth types (snd f) (snd kv) = Inr b"
      "\<And>rest. decodeValue depth types (snd f) (b @ rest) = Inr (snd kv, rest)" "b \<noteq> []"
    using idl.codec [of depth types "snd f" "snd kv"] Cons.hyps(1) by auto
  have set: "jm_set acc (camelCase (fst f)) (snd kv) = acc @ [kv]"
    using Cons.hyps(1) Cons.prems jm_set_absent [of acc "fst kv" "snd kv"] by (cases kv) (auto simp: jm_has_iff jm_keys_def)
  obtain bs where bs: "encode_each (encodeIdlValue depth types \<circ> snd) fs (map snd obj) = Inr bs"
      "decode_fields depth types (fs @ fs2) (bs @ rest) (acc @ [kv]) = Inr ((acc @ [kv]) @ obj, fs2 = [])"
  proof -
    have "distinct (map fst ((acc @ [kv]) @ obj))" using Cons.prems by simp
    from Cons.IH [OF this] show ?thesis using that by blast
  qed
  show ?case using b bs set by (intro exI [of _ "b @ bs"]) (simp add: o_def)
qed

text \<open>
  C6. An event read back: the fields of a known event, encoded by the IDL encoder after its
  discriminator, decode to the same values in the same order. This holds for every prefix of
  the event's fields as well, which is how older transactions look; \<open>complete\<close> tells the two
  apart. (Values that take no bytes, such as an empty struct, cannot be told from missing ones.)
\<close>

theorem event_roundtrip:
  assumes "find (\<lambda>e. ev_discriminator e = toHex disc) (sc_events schema) = Some ev" and "length disc = 8"
    and "n \<le> length (ev_fields ev)" and "event_values depth (sc_types schema) (take n (ev_fields ev)) obj"
  shows "\<exists>body. encodeIdlFields depth (take n (ev_fields ev)) obj (sc_types schema) = Inr body
     \<and> decodeIdlEvent depth schema (disc @ body)
         = Inr (Some \<lparr>de_name = ev_name ev, de_fields = obj, de_complete = (n = length (ev_fields ev))\<rparr>)"
proof -
  let ?fs = "take n (ev_fields ev)" and ?types = "sc_types schema"
  have ok: "map fst obj = map (camelCase \<circ> fst) ?fs" "distinct (map fst obj)"
    "list_all2 (\<lambda>f kv. has_type depth ?types (snd f) (snd kv)) ?fs obj"
    "list_all2 (\<lambda>f kv. encodeIdlValue depth ?types (snd f) (snd kv) \<noteq> Inr []) ?fs obj"
    using assms(4) by (auto simp: event_values_def fields_ok_def)
  have keys: "list_all2 (\<lambda>f kv. fst kv = camelCase (fst f)) ?fs obj"
    unfolding list_all2_conv_all_nth
  proof (intro conjI allI impI)
    show len: "length ?fs = length obj" using ok(3) by (rule list_all2_lengthD)
    show "fst (obj ! j) = camelCase (fst (?fs ! j))" if "j < length ?fs" for j
      using ok(1) that len by (metis comp_apply nth_map)
  qed
  obtain bs where bs: "encode_each (encodeIdlValue depth ?types \<circ> snd) ?fs (map snd obj) = Inr bs"
    "decode_fields depth ?types (?fs @ drop n (ev_fields ev)) bs [] = Inr ([] @ obj, drop n (ev_fields ev) = [])"
  proof -
    have "list_all2 (\<lambda>f kv. has_type depth ?types (snd f) (snd kv) \<and> encodeIdlValue depth ?types (snd f) (snd kv) \<noteq> Inr []
        \<and> fst kv = camelCase (fst f)) ?fs obj"
      using ok(3,4) keys unfolding list_all2_conv_all_nth by blast
    from decode_fields_values [OF this, of "[]" "drop n (ev_fields ev)" "[]"] show ?thesis using that ok(2) by auto
  qed
  have "encodeIdlFields depth ?fs obj ?types = Inr bs"
    using object_values [OF ok(2,1)] bs(1)
    by (cases "?fs = []") (auto simp: encodeIdlFields_def encodeFieldList_def)
  moreover have "drop n (ev_fields ev) = [] \<longleftrightarrow> n = length (ev_fields ev)" using assms(3) by auto
  ultimately show ?thesis
    using bs(2) assms(1,2) by (simp add: decodeIdlEvent_def)
qed

definition sample_event :: event_schema where
  "sample_event = \<lparr>ev_name = ''TradeEvent'', ev_discriminator = ''bddb7fd34ee661ee'',
     ev_fields = [(''sol_amount'', Prim ''u64''), (''is_buy'', Prim ''bool''), (''user_name'', TOption (Prim ''string''))]\<rparr>"

definition sample_schema :: program_schema where
  "sample_schema = \<lparr>sc_address = '''', sc_events = [sample_event], sc_accounts = [], sc_types = []\<rparr>"

definition sample_disc :: bytes where
  "sample_disc = [189, 219, 127, 211, 78, 230, 97, 238]"

definition sample_fields :: idl_object where
  "sample_fields = [(''solAmount'', VBigint 258), (''isBuy'', VBool True)]"

lemma sample_find: "find (\<lambda>e. ev_discriminator e = toHex sample_disc) (sc_events sample_schema) = Some sample_event"
  by code_simp

lemma sample_values: "event_values 2 (sc_types sample_schema) (take 2 (ev_fields sample_event)) sample_fields"
  by code_simp

theorem event_roundtrip_witness:
  "decodeIdlEvent 2 sample_schema (sample_disc @ [2, 1, 0, 0, 0, 0, 0, 0, 1])
     = Inr (Some \<lparr>de_name = ''TradeEvent'', de_fields = sample_fields, de_complete = False\<rparr>)"
proof -
  have "encodeIdlFields 2 (take 2 (ev_fields sample_event)) sample_fields (sc_types sample_schema) = Inr [2, 1, 0, 0, 0, 0, 0, 0, 1]"
    by code_simp
  moreover have "length sample_disc = 8" by (simp add: sample_disc_def)
  moreover have "length (ev_fields sample_event) = 3" "ev_name sample_event = ''TradeEvent''" by (simp_all add: sample_event_def)
  ultimately show ?thesis
    using event_roundtrip [OF sample_find _ _ sample_values] by simp
qed

end
