(* ===== verification/Pda.thy ===== *)
theory Pda
  imports PublicKey
begin

text \<open>
  \<open>packages/solana-tx/src/find-program-address.ts\<close>: program derived addresses. SHA-256 and
  the ed25519 point check are library code, the parameter \<open>hashing\<close>; what the code relies
  on is that digests have 32 bytes (\<open>hashing_ok\<close>).
\<close>

record hashing =
  h_sha256 :: "bytes \<Rightarrow> bytes"
  h_isOnCurve :: "bytes \<Rightarrow> bool"

definition hashing_ok :: "hashing \<Rightarrow> bool" where
  "hashing_ok h \<longleftrightarrow> (\<forall>bs. length (h_sha256 h bs) = 32)"

datatype pda_error =
    TooManySeeds nat
  | SeedTooLong nat nat
  | BadHash pubkey_error
  | BumpsExhausted

definition MAX_SEED_LENGTH :: nat where "MAX_SEED_LENGTH = 32"
definition MAX_SEEDS :: nat where "MAX_SEEDS = 16"
definition PDA_MARKER :: bytes where "PDA_MARKER = map (word_of_nat \<circ> of_char) ''ProgramDerivedAddress''"

fun check_seeds :: "nat \<Rightarrow> bytes list \<Rightarrow> pda_error + unit" where
  "check_seeds i [] = Inr ()"
| "check_seeds i (s # ss) = (if length s > MAX_SEED_LENGTH then Inl (SeedTooLong i (length s)) else check_seeds (i + 1) ss)"

definition preimage :: "bytes list \<Rightarrow> nat \<Rightarrow> pubkey \<Rightarrow> bytes" where
  "preimage seeds bump program = concat seeds @ [word_of_nat bump] @ toBuffer program @ PDA_MARKER"

text \<open>\<open>for (let bump = 255; bump >= 0; bump--)\<close>: the argument is the number of bumps left.\<close>

fun try_bumps :: "hashing \<Rightarrow> bytes list \<Rightarrow> pubkey \<Rightarrow> nat \<Rightarrow> pda_error + (pubkey \<times> nat)" where
  "try_bumps h seeds program 0 = Inl BumpsExhausted"
| "try_bumps h seeds program (Suc bump) =
     (let hash = h_sha256 h (preimage seeds bump program)
      in if \<not> h_isOnCurve h hash
         then (case fromBytes hash of Inl e \<Rightarrow> Inl (BadHash e) | Inr address \<Rightarrow> Inr (address, bump))
         else try_bumps h seeds program bump)"

definition findProgramAddress :: "hashing \<Rightarrow> bytes list \<Rightarrow> pubkey \<Rightarrow> pda_error + (pubkey \<times> nat)" where
  "findProgramAddress h seeds program =
     (if length seeds > MAX_SEEDS then Inl (TooManySeeds (length seeds))
      else rbind (check_seeds 0 seeds) (\<lambda>_. try_bumps h seeds program 256))"

section \<open>The canonical address\<close>

definition off_curve :: "hashing \<Rightarrow> bytes list \<Rightarrow> pubkey \<Rightarrow> nat \<Rightarrow> bool" where
  "off_curve h seeds program bump \<longleftrightarrow> \<not> h_isOnCurve h (h_sha256 h (preimage seeds bump program))"

lemma fromBytes_ok: "length bs = 32 \<Longrightarrow> \<exists>pk. fromBytes bs = Inr pk \<and> toBuffer pk = bs"
  by (simp add: fromBytes_def)

lemma try_bumps_iff:
  assumes "hashing_ok h"
  shows "try_bumps h seeds program n = Inr (address, bump) \<longleftrightarrow>
    bump < n \<and> off_curve h seeds program bump \<and> toBuffer address = h_sha256 h (preimage seeds bump program)
    \<and> (\<forall>b. bump < b \<and> b < n \<longrightarrow> \<not> off_curve h seeds program b)"
proof (induction n)
  case (Suc n)
  obtain pk where pk: "fromBytes (h_sha256 h (preimage seeds n program)) = Inr pk"
    "toBuffer pk = h_sha256 h (preimage seeds n program)"
    using fromBytes_ok assms unfolding hashing_ok_def by metis
  show ?case
  proof (cases "off_curve h seeds program n")
    case True
    then have "try_bumps h seeds program (Suc n) = Inr (pk, n)"
      using pk by (simp add: off_curve_def Let_def)
    moreover have "address = pk \<longleftrightarrow> toBuffer address = h_sha256 h (preimage seeds n program)"
      using pk(2) toBuffer_eq_iff by metis
    ultimately show ?thesis
      using True by (auto simp: less_Suc_eq)
  next
    case False
    then have "try_bumps h seeds program (Suc n) = try_bumps h seeds program n"
      by (simp add: off_curve_def Let_def)
    then show ?thesis using Suc False by (auto simp: less_Suc_eq)
  qed
qed simp

lemma check_seeds_iff: "check_seeds i seeds = Inr () \<longleftrightarrow> (\<forall>s \<in> set seeds. length s \<le> 32)"
  by (induction seeds arbitrary: i) (auto simp: MAX_SEED_LENGTH_def)

lemma check_seeds_error:
  "check_seeds i seeds = Inl e \<longleftrightarrow>
    (\<exists>k < length seeds. e = SeedTooLong (i + k) (length (seeds ! k)) \<and> 32 < length (seeds ! k) \<and> (\<forall>j < k. length (seeds ! j) \<le> 32))"
proof (induction seeds arbitrary: i)
  case (Cons s ss)
  show ?case using Cons[of "i + 1"]
    by (cases "32 < length s") (auto simp: MAX_SEED_LENGTH_def Ex_less_Suc2 All_less_Suc2)
qed simp

lemma try_bumps_error:
  assumes "hashing_ok h"
  shows "try_bumps h seeds program n = Inl e \<longleftrightarrow> e = BumpsExhausted \<and> (\<forall>b < n. \<not> off_curve h seeds program b)"
proof (induction n)
  case (Suc n)
  obtain pk where "fromBytes (h_sha256 h (preimage seeds n program)) = Inr pk"
    using fromBytes_ok assms unfolding hashing_ok_def by metis
  then show ?case using Suc by (auto simp: off_curve_def Let_def less_Suc_eq)
qed auto

text \<open>
  C7. A derived address is the canonical one: it is returned exactly for at most 16 seeds of at
  most 32 bytes, when it is the off-curve hash of the highest bump that has one; its bump is a
  byte. Every other call throws, and says why: that there are too many seeds, and how many; else
  which seed is the first one too long, and its length; else that no bump is off the curve.
\<close>

theorem findProgramAddress_canonical:
  assumes "hashing_ok h"
  shows "(findProgramAddress h seeds program = Inr (address, bump) \<longleftrightarrow>
    length seeds \<le> 16 \<and> (\<forall>s \<in> set seeds. length s \<le> 32) \<and> bump \<le> 255
    \<and> off_curve h seeds program bump \<and> toBuffer address = h_sha256 h (preimage seeds bump program)
    \<and> (\<forall>b. bump < b \<and> b \<le> 255 \<longrightarrow> \<not> off_curve h seeds program b)) \<and>
   (findProgramAddress h seeds program = Inl e \<longleftrightarrow>
    (if length seeds > 16 then e = TooManySeeds (length seeds)
     else if \<exists>s \<in> set seeds. length s > 32
     then \<exists>k < length seeds. e = SeedTooLong k (length (seeds ! k)) \<and> length (seeds ! k) > 32 \<and> (\<forall>j < k. length (seeds ! j) \<le> 32)
     else e = BumpsExhausted \<and> (\<forall>b \<le> 255. \<not> off_curve h seeds program b)))"
proof (cases "length seeds > MAX_SEEDS")
  case True
  then show ?thesis by (auto simp: findProgramAddress_def MAX_SEEDS_def)
next
  case False
  note t = try_bumps_iff [OF assms, of seeds program 256 address bump] try_bumps_error [OF assms, of seeds program 256 e]
  show ?thesis
  proof (cases "check_seeds 0 seeds")
    case (Inl e')
    then have "\<not> (\<forall>s \<in> set seeds. length s \<le> 32)" using check_seeds_iff [of 0 seeds] by auto
    then show ?thesis using False Inl check_seeds_error [of 0 seeds e]
      by (auto simp: findProgramAddress_def MAX_SEEDS_def not_le)
  next
    case (Inr u)
    then have "\<forall>s \<in> set seeds. length s \<le> 32" using check_seeds_iff [of 0 seeds] by simp
    moreover have "bump < 256 \<longleftrightarrow> bump \<le> 255" "\<And>b. b < 256 \<longleftrightarrow> b \<le> (255 :: nat)" by auto
    ultimately show ?thesis
      using False Inr t by (simp add: findProgramAddress_def MAX_SEEDS_def not_less[symmetric])
  qed
qed

definition sample_hashing :: hashing where
  "sample_hashing = \<lparr>h_sha256 = (\<lambda>bs. replicate 31 7 @ [bs ! 1]), h_isOnCurve = (\<lambda>hash. hash ! 31 \<ge> 254)\<rparr>"

lemma sample_hashing_ok: "hashing_ok sample_hashing"
  by (simp add: hashing_ok_def sample_hashing_def)

lemma sample_pda: "findProgramAddress sample_hashing [[9]] zero_key = Inr (Abs_pubkey (replicate 31 7 @ [253]), 253)"
proof -
  have "\<not> off_curve sample_hashing [[9]] zero_key b" if b: "253 < b \<and> b < 256" for b
  proof -
    have "b = 254 \<or> b = 255" using b by auto
    then show ?thesis by (auto simp: off_curve_def sample_hashing_def preimage_def nth_append)
  qed
  then have "try_bumps sample_hashing [[9]] zero_key 256 = Inr (Abs_pubkey (replicate 31 7 @ [253]), 253)"
    unfolding try_bumps_iff [OF sample_hashing_ok]
    by (simp add: off_curve_def sample_hashing_def preimage_def nth_append)
  then show ?thesis by (simp add: findProgramAddress_def MAX_SEEDS_def MAX_SEED_LENGTH_def)
qed

theorem findProgramAddress_canonical_witness:
  "findProgramAddress sample_hashing [[9]] zero_key = Inr (Abs_pubkey (replicate 31 7 @ [253]), 253) \<and>
   findProgramAddress sample_hashing [[9], replicate 33 0] zero_key = Inl (SeedTooLong 1 33)"
proof -
  have "\<not> off_curve sample_hashing [[9]] zero_key b" if b: "253 < b \<and> b \<le> 255" for b
  proof -
    have "b = 254 \<or> b = 255" using b by auto
    then show ?thesis by (auto simp: off_curve_def sample_hashing_def preimage_def nth_append)
  qed
  then have "findProgramAddress sample_hashing [[9]] zero_key = Inr (Abs_pubkey (replicate 31 7 @ [253]), 253)"
    unfolding findProgramAddress_canonical [THEN conjunct1, OF sample_hashing_ok]
    by (simp add: off_curve_def sample_hashing_def preimage_def nth_append)
  moreover have "findProgramAddress sample_hashing [[9], replicate 33 0] zero_key = Inl (SeedTooLong 1 33)"
    unfolding findProgramAddress_canonical [THEN conjunct2, OF sample_hashing_ok]
    by (simp add: Ex_less_Suc2 numeral_2_eq_2)
  ultimately show ?thesis by simp
qed

end
