(* ===== verification/IdlInstruction.thy ===== *)
theory IdlInstruction
  imports Pda IdlEvents Assembler
begin

text \<open>
  \<open>packages/pumpfun-protocol/src/instructions/idl-instruction.ts\<close>: an instruction built from
  the program's IDL, with the addresses the caller did not give resolved from fixed addresses
  and PDA seeds until nothing changes.
\<close>

section \<open>Instruction schemas\<close>

datatype idl_seed = SeedConst bytes | SeedAccount string | SeedArg string

record idl_pda =
  pda_seeds :: "idl_seed list"
  pda_program :: "idl_seed option"

record idl_account =
  ia_name :: string
  ia_writable :: bool
  ia_signer :: bool
  ia_address :: "string option"
  ia_pda :: "idl_pda option"

record idl_instruction =
  ii_name :: string
  ii_discriminator :: string
  ii_accounts :: "idl_account list"
  ii_args :: "(string \<times> idl_type) list"

record instruction_schema = program_schema +
  sc_instructions :: "idl_instruction list"

datatype build_error =
    InstructionNotInSchema string
  | BadAddress pubkey_error
  | ArgSeed
  | PdaError pda_error
  | MustBeProvided string
  | NoDiscriminator
  | BadArgs idl_error

section \<open>Resolving the accounts\<close>

definition seedBytes :: "(string, pubkey) jsmap \<Rightarrow> idl_seed \<Rightarrow> build_error + bytes option" where
  "seedBytes resolved seed = (case seed of
     SeedConst bs \<Rightarrow> Inr (Some bs)
   | SeedAccount path \<Rightarrow> Inr (map_option toBuffer (jm_get resolved path))
   | SeedArg _ \<Rightarrow> Inl ArgSeed)"

definition lift_key :: "pubkey_error + pubkey \<Rightarrow> build_error + pubkey" where
  "lift_key r = map_sum BadAddress id r"

definition pda_owner :: "pubkey \<Rightarrow> (string, pubkey) jsmap \<Rightarrow> idl_pda \<Rightarrow> build_error + pubkey option" where
  "pda_owner program resolved pda = (case pda_program pda of
     None \<Rightarrow> Inr (Some program)
   | Some (SeedConst bs) \<Rightarrow> rbind (lift_key (fromBytes bs)) (\<lambda>pk. Inr (Some pk))
   | Some (SeedAccount path) \<Rightarrow> Inr (jm_get resolved path)
   | Some (SeedArg _) \<Rightarrow> Inr None)"

definition derive :: "hashing \<Rightarrow> pubkey \<Rightarrow> (string, pubkey) jsmap \<Rightarrow> idl_account \<Rightarrow> build_error + pubkey option" where
  "derive h program resolved a =
     (if ia_address a \<noteq> None \<and> ia_address a \<noteq> Some [] then rbind (lift_key (fromBase58 (the (ia_address a)))) (\<lambda>pk. Inr (Some pk))
      else if ia_name a = ''program'' then Inr (Some program)
      else case ia_pda a of
             None \<Rightarrow> Inr None
           | Some pda \<Rightarrow>
               rbind (rmap (seedBytes resolved) (pda_seeds pda)) (\<lambda>seeds.
               rbind (pda_owner program resolved pda) (\<lambda>owner.
                 case owner of
                   None \<Rightarrow> Inr None
                 | Some pk \<Rightarrow>
                     if list_all (\<lambda>s. s \<noteq> None) seeds
                     then (case findProgramAddress h (map the seeds) pk of
                             Inl e \<Rightarrow> Inl (PdaError e)
                           | Inr (address, _) \<Rightarrow> Inr (Some address))
                     else Inr None)))"

text \<open>One pass over the accounts; the flag is \<open>progress\<close>.\<close>

fun resolve_pass :: "hashing \<Rightarrow> pubkey \<Rightarrow> idl_account list \<Rightarrow> (string, pubkey) jsmap \<Rightarrow> bool \<Rightarrow>
    build_error + (string, pubkey) jsmap \<times> bool" where
  "resolve_pass h program [] resolved progress = Inr (resolved, progress)"
| "resolve_pass h program (a # as) resolved progress =
     (if jm_has resolved (ia_name a) then resolve_pass h program as resolved progress
      else case derive h program resolved a of
             Inl e \<Rightarrow> Inl e
           | Inr None \<Rightarrow> resolve_pass h program as resolved progress
           | Inr (Some addr) \<Rightarrow> resolve_pass h program as (jm_set resolved (ia_name a) addr) True)"

definition unresolved :: "idl_account list \<Rightarrow> (string, pubkey) jsmap \<Rightarrow> nat" where
  "unresolved as resolved = length (filter (\<lambda>a. \<not> jm_has resolved (ia_name a)) as)"

lemma jm_has_set: "jm_has (jm_set m k v) k' \<longleftrightarrow> k' = k \<or> jm_has m k'"
  by (auto simp: jm_has_def jm_get_set)

lemma unresolved_set:
  assumes "a \<in> set as" "\<not> jm_has resolved (ia_name a)"
  shows "unresolved as (jm_set resolved (ia_name a) addr) < unresolved as resolved"
proof -
  have "filter (\<lambda>b. \<not> jm_has (jm_set resolved (ia_name a) addr) (ia_name b)) as
      = filter (\<lambda>b. ia_name b \<noteq> ia_name a) (filter (\<lambda>b. \<not> jm_has resolved (ia_name b)) as)"
    by (auto simp: jm_has_set intro!: filter_cong)
  moreover have "length (filter (\<lambda>b. ia_name b \<noteq> ia_name a) (filter (\<lambda>b. \<not> jm_has resolved (ia_name b)) as))
      < length (filter (\<lambda>b. \<not> jm_has resolved (ia_name b)) as)"
    by (rule length_filter_less [of a]) (use assms in simp_all)
  ultimately show ?thesis unfolding unresolved_def by (simp only:)
qed

lemma resolve_pass_Cons:
  assumes "resolve_pass h program (a # as) resolved p = Inr out"
  obtains "jm_has resolved (ia_name a) \<or> derive h program resolved a = Inr None" "resolve_pass h program as resolved p = Inr out"
  | addr where "\<not> jm_has resolved (ia_name a)" "derive h program resolved a = Inr (Some addr)"
      "resolve_pass h program as (jm_set resolved (ia_name a) addr) True = Inr out"
  using assms by (auto split: if_splits sum.splits option.splits)

text \<open>Each pass that made progress leaves fewer accounts unresolved: the loop ends.\<close>

lemma resolve_pass_unresolved:
  assumes "resolve_pass h program as resolved p = Inr (resolved', p')" "set as \<subseteq> set all"
  shows "unresolved all resolved' \<le> unresolved all resolved \<and> (p' \<longrightarrow> p \<or> unresolved all resolved' < unresolved all resolved)"
  using assms
proof (induction as arbitrary: resolved p)
  case (Cons a as)
  from Cons.prems(1) show ?case
  proof (cases rule: resolve_pass_Cons)
    case 1
    then show ?thesis using Cons by simp
  next
    case (2 addr)
    have "unresolved all resolved' \<le> unresolved all (jm_set resolved (ia_name a) addr)"
      using 2(3) Cons.IH [of "jm_set resolved (ia_name a) addr" True] Cons.prems(2) by simp
    also have "\<dots> < unresolved all resolved" using unresolved_set [OF _ 2(1)] Cons.prems(2) by simp
    finally show ?thesis by simp
  qed
qed simp

function resolve_loop :: "hashing \<Rightarrow> pubkey \<Rightarrow> idl_account list \<Rightarrow> (string, pubkey) jsmap \<Rightarrow> build_error + (string, pubkey) jsmap" where
  "resolve_loop h program as resolved =
     (case resolve_pass h program as resolved False of
        Inl e \<Rightarrow> Inl e
      | Inr (resolved', progress) \<Rightarrow> if progress then resolve_loop h program as resolved' else Inr resolved')"
  by pat_completeness auto
termination
  by (relation "measure (\<lambda>(h, program, as, resolved). unresolved as resolved)")
    (auto dest: resolve_pass_unresolved)

declare resolve_loop.simps [simp del]

section \<open>\<open>buildIdlInstruction\<close>\<close>

definition hex_value :: "char \<Rightarrow> nat option" where
  "hex_value c = (let n = of_char c :: nat
     in if 48 \<le> n \<and> n \<le> 57 then Some (n - 48) else if 97 \<le> n \<and> n \<le> 102 then Some (n - 87)
        else if 65 \<le> n \<and> n \<le> 70 then Some (n - 55) else None)"

text \<open>\<open>match(/../g)!.map((h) => parseInt(h, 16))\<close>, for the hexadecimal strings a schema holds.\<close>

fun hex_bytes :: "string \<Rightarrow> bytes" where
  "hex_bytes (a # b # s) =
     (case (hex_value a, hex_value b) of
        (Some x, Some y) \<Rightarrow> word_of_nat (x * 16 + y)
      | (Some x, None) \<Rightarrow> word_of_nat x
      | (None, _) \<Rightarrow> 0) # hex_bytes s"
| "hex_bytes _ = []"

definition account_metas :: "(string, pubkey) jsmap \<Rightarrow> idl_account list \<Rightarrow> build_error + account_meta list" where
  "account_metas resolved as = rmap (\<lambda>a. case jm_get resolved (ia_name a) of
     None \<Rightarrow> Inl (MustBeProvided (ia_name a))
   | Some pk \<Rightarrow> Inr \<lparr>m_pubkey = pk, m_isSigner = ia_signer a, m_isWritable = ia_writable a\<rparr>) as"

definition used_args :: "(string \<times> idl_type) list \<Rightarrow> idl_object \<Rightarrow> (string \<times> idl_type) list" where
  "used_args fs args = (if fs \<noteq> [] \<and> fst (last fs) = ''partial_fill'' \<and> jm_get args ''partialFill'' = None then butlast fs else fs)"

definition buildIdlInstruction :: "hashing \<Rightarrow> nat \<Rightarrow> instruction_schema \<Rightarrow> string \<Rightarrow> (string, pubkey) jsmap \<Rightarrow> idl_object \<Rightarrow>
    account_meta list \<Rightarrow> build_error + instruction" where
  "buildIdlInstruction h depth schema name known args extra =
     (case find (\<lambda>i. ii_name i = name) (sc_instructions schema) of
        None \<Rightarrow> Inl (InstructionNotInSchema name)
      | Some ix \<Rightarrow>
          rbind (lift_key (fromBase58 (sc_address schema))) (\<lambda>program.
          rbind (resolve_loop h program (ii_accounts ix) known) (\<lambda>resolved.
          rbind (account_metas resolved (ii_accounts ix)) (\<lambda>ks.
            if length (ii_discriminator ix) < 2 then Inl NoDiscriminator
            else case encodeIdlFields depth (used_args (ii_args ix) args) args (sc_types schema) of
                   Inl e \<Rightarrow> Inl (BadArgs e)
                 | Inr body \<Rightarrow> Inr \<lparr>programId = program, ix_keys = ks @ extra, ix_data = hex_bytes (ii_discriminator ix) @ body\<rparr>))))"

section \<open>What the loop resolves\<close>

definition extends :: "(string, pubkey) jsmap \<Rightarrow> (string, pubkey) jsmap \<Rightarrow> bool" where
  "extends m m' \<longleftrightarrow> (\<forall>k v. jm_get m k = Some v \<longrightarrow> jm_get m' k = Some v)"

lemma extends_refl [simp]: "extends m m"
  by (simp add: extends_def)

lemma extends_trans: "extends a b \<Longrightarrow> extends b c \<Longrightarrow> extends a c"
  by (simp add: extends_def)

lemma extends_set: "\<not> jm_has m k \<Longrightarrow> extends m (jm_set m k v)"
  by (auto simp: extends_def jm_get_set jm_has_def)

lemma seeds_extends:
  assumes "rmap (seedBytes m) seeds = Inr bss" "list_all (\<lambda>s. s \<noteq> None) bss" "extends m m'"
  shows "rmap (seedBytes m') seeds = Inr bss"
  using assms(1,2)
proof (induction seeds arbitrary: bss)
  case (Cons s seeds)
  then obtain b bs where b: "seedBytes m s = Inr b" "rmap (seedBytes m) seeds = Inr bs" "bss = b # bs"
    by (auto simp: result_simps)
  have "seedBytes m' s = Inr b"
    using b(1,3) Cons.prems(2) assms(3) by (cases s) (auto simp: seedBytes_def extends_def)
  then show ?case using b Cons by simp
qed simp

lemma derive_extends:
  assumes "derive h program m a = Inr (Some addr)" "extends m m'"
  shows "derive h program m' a = Inr (Some addr)"
proof (cases "(ia_address a \<noteq> None \<and> ia_address a \<noteq> Some []) \<or> ia_name a = ''program''")
  case True
  then show ?thesis using assms(1) by (auto simp: derive_def)
next
  case False
  then obtain pda seeds pk where p: "ia_pda a = Some pda" "rmap (seedBytes m) (pda_seeds pda) = Inr seeds"
      "pda_owner program m pda = Inr (Some pk)" "list_all (\<lambda>s. s \<noteq> None) seeds"
    using assms(1) by (auto simp: derive_def result_simps split: option.splits if_splits)
  have "pda_owner program m' pda = Inr (Some pk)"
    using p(3) assms(2) by (auto simp: pda_owner_def extends_def split: option.splits idl_seed.splits)
  moreover have "rmap (seedBytes m') (pda_seeds pda) = Inr seeds" using seeds_extends [OF p(2,4) assms(2)] .
  ultimately show ?thesis using assms(1) False p by (auto simp: derive_def)
qed

text \<open>Every entry was given, or is what its account derives; nothing that can be derived is left out.\<close>

definition sound :: "hashing \<Rightarrow> pubkey \<Rightarrow> idl_account list \<Rightarrow> (string, pubkey) jsmap \<Rightarrow> (string, pubkey) jsmap \<Rightarrow> bool" where
  "sound h program as known m \<longleftrightarrow> (\<forall>k v. jm_get m k = Some v \<longrightarrow>
     jm_get known k = Some v \<or> jm_get known k = None \<and> (\<exists>a \<in> set as. ia_name a = k \<and> derive h program m a = Inr (Some v)))"

lemma sound_set:
  assumes "sound h program all known m" "extends known m" "\<not> jm_has m (ia_name a)" "a \<in> set all"
    and "derive h program m a = Inr (Some addr)"
  shows "sound h program all known (jm_set m (ia_name a) addr)"
  unfolding sound_def
proof (intro allI impI)
  fix k v assume k: "jm_get (jm_set m (ia_name a) addr) k = Some v"
  have ext: "extends m (jm_set m (ia_name a) addr)" by (rule extends_set [OF assms(3)])
  show "jm_get known k = Some v \<or> jm_get known k = None \<and>
      (\<exists>a' \<in> set all. ia_name a' = k \<and> derive h program (jm_set m (ia_name a) addr) a' = Inr (Some v))"
  proof (cases "k = ia_name a")
    case True
    have "jm_get known k = None" using assms(2,3) True by (cases "jm_get known k") (auto simp: extends_def jm_has_def)
    moreover have "v = addr" using k True by (simp add: jm_get_set)
    ultimately show ?thesis using derive_extends [OF assms(5) ext] True assms(4) by blast
  next
    case False
    then have "jm_get m k = Some v" using k by (simp add: jm_get_set)
    then show ?thesis using assms(1) derive_extends [OF _ ext] unfolding sound_def by blast
  qed
qed

lemma resolve_pass_sound:
  assumes "resolve_pass h program as m p = Inr (m', p')" "set as \<subseteq> set all" "sound h program all known m" "extends known m"
  shows "sound h program all known m' \<and> extends m m' \<and> (\<not> p' \<longrightarrow> m' = m \<and> (\<forall>a \<in> set as. \<not> jm_has m (ia_name a) \<longrightarrow> derive h program m a = Inr None))
     \<and> (p \<longrightarrow> p')"
  using assms
proof (induction as arbitrary: m p)
  case (Cons a as)
  from Cons.prems(1) show ?case
  proof (cases rule: resolve_pass_Cons)
    case 1
    then show ?thesis using Cons.IH [OF 1(2)] Cons.prems by auto
  next
    case (2 addr)
    have ext: "extends m (jm_set m (ia_name a) addr)" by (rule extends_set [OF 2(1)])
    have "sound h program all known (jm_set m (ia_name a) addr)"
      using sound_set [OF Cons.prems(3,4) 2(1) _ 2(2)] Cons.prems(2) by simp
    then show ?thesis
      using Cons.IH [OF 2(3) _ _ extends_trans [OF Cons.prems(4) ext]] Cons.prems(2) extends_trans [OF ext] by auto
  qed
qed simp

lemma resolve_loop_sound:
  assumes "resolve_loop h program as m = Inr m'" "sound h program as known m" "extends known m"
  shows "sound h program as known m' \<and> extends m m' \<and> (\<forall>a \<in> set as. \<not> jm_has m' (ia_name a) \<longrightarrow> derive h program m' a = Inr None)"
  using assms
proof (induction h program as m rule: resolve_loop.induct)
  case (1 h program as m)
  obtain m1 p where pass: "resolve_pass h program as m False = Inr (m1, p)"
    using "1.prems"(1) by (subst (asm) resolve_loop.simps) (auto split: sum.splits)
  have s: "sound h program as known m1" "extends m m1"
      "\<not> p \<Longrightarrow> m1 = m \<and> (\<forall>a \<in> set as. \<not> jm_has m (ia_name a) \<longrightarrow> derive h program m a = Inr None)"
    using resolve_pass_sound [OF pass order_refl "1.prems"(2,3)] by auto
  show ?case
  proof (cases p)
    case True
    have "resolve_loop h program as m1 = Inr m'"
      using "1.prems"(1) pass True by (subst (asm) resolve_loop.simps) simp
    then show ?thesis
      using "1.IH" [OF pass refl True _ s(1) extends_trans [OF "1.prems"(3) s(2)]] extends_trans [OF s(2)] by blast
  next
    case False
    have "m' = m1" using "1.prems"(1) pass False by (subst (asm) resolve_loop.simps) simp
    then show ?thesis using s False by auto
  qed
qed

text \<open>
  What an IDL-built instruction contains: the program of the schema; the accounts of the
  schema in order and with its flags, then the caller's extra accounts; the address the caller
  gave for an account or else the one its fixed address, the program or its PDA seeds determine
  from the addresses of the same instruction; the discriminator and the encoded arguments as data.
\<close>

theorem buildIdlInstruction_accounts:
  assumes "buildIdlInstruction h depth schema name known args extra = Inr ins"
    and "find (\<lambda>i. ii_name i = name) (sc_instructions schema) = Some ix"
    and "distinct (map ia_name (ii_accounts ix))"
  shows "\<exists>addr body. toBase58 (programId ins) = sc_address schema
     \<and> ix_keys ins = map (\<lambda>a. \<lparr>m_pubkey = addr (ia_name a), m_isSigner = ia_signer a, m_isWritable = ia_writable a\<rparr>) (ii_accounts ix) @ extra
     \<and> ix_data ins = hex_bytes (ii_discriminator ix) @ body
     \<and> encodeIdlFields depth (used_args (ii_args ix) args) args (sc_types schema) = Inr body
     \<and> (\<forall>a \<in> set (ii_accounts ix). case jm_get known (ia_name a) of
          Some pk \<Rightarrow> addr (ia_name a) = pk
        | None \<Rightarrow> \<exists>resolved. extends known resolved
            \<and> (\<forall>b \<in> set (ii_accounts ix). jm_get resolved (ia_name b) = Some (addr (ia_name b)))
            \<and> derive h (programId ins) resolved a = Inr (Some (addr (ia_name a))))"
proof -
  let ?as = "ii_accounts ix"
  obtain program resolved ks body where b:
      "lift_key (fromBase58 (sc_address schema)) = Inr program" "resolve_loop h program ?as known = Inr resolved"
      "account_metas resolved ?as = Inr ks" "encodeIdlFields depth (used_args (ii_args ix) args) args (sc_types schema) = Inr body"
      "ins = \<lparr>programId = program, ix_keys = ks @ extra, ix_data = hex_bytes (ii_discriminator ix) @ body\<rparr>"
    using assms(1,2) by (auto simp: buildIdlInstruction_def result_simps split: if_splits sum.splits)
  have prog: "toBase58 program = sc_address schema"
    using b(1) toBase58_fromBase58 by (cases "fromBase58 (sc_address schema)") (auto simp: lift_key_def)
  have init: "sound h program ?as known known" by (simp add: sound_def)
  have s: "sound h program ?as known resolved" "extends known resolved"
    using resolve_loop_sound [OF b(2) init] by auto
  define addr where "addr k = the (jm_get resolved k)" for k
  have metas: "rmap (\<lambda>a. case jm_get resolved (ia_name a) of None \<Rightarrow> Inl (MustBeProvided (ia_name a))
     | Some pk \<Rightarrow> Inr \<lparr>m_pubkey = pk, m_isSigner = ia_signer a, m_isWritable = ia_writable a\<rparr>) ?as = Inr ks"
    using b(3) by (simp add: account_metas_def)
  have have_key: "jm_get resolved (ia_name a) = Some (addr (ia_name a))" if "a \<in> set ?as" for a
    using metas that unfolding rmap_eq_Inr_iff addr_def by (fastforce simp: in_set_conv_nth split: option.splits)
  have "rmap (\<lambda>a. case jm_get resolved (ia_name a) of None \<Rightarrow> Inl (MustBeProvided (ia_name a))
     | Some pk \<Rightarrow> Inr \<lparr>m_pubkey = pk, m_isSigner = ia_signer a, m_isWritable = ia_writable a\<rparr>) ?as
     = Inr (map (\<lambda>a. \<lparr>m_pubkey = addr (ia_name a), m_isSigner = ia_signer a, m_isWritable = ia_writable a\<rparr>) ?as)"
    by (rule rmap_all_Inr) (simp add: have_key)
  then have ks: "ks = map (\<lambda>a. \<lparr>m_pubkey = addr (ia_name a), m_isSigner = ia_signer a, m_isWritable = ia_writable a\<rparr>) ?as"
    using metas by simp
  have each: "case jm_get known (ia_name a) of
          Some pk \<Rightarrow> addr (ia_name a) = pk
        | None \<Rightarrow> \<exists>resolved. extends known resolved
            \<and> (\<forall>b \<in> set ?as. jm_get resolved (ia_name b) = Some (addr (ia_name b)))
            \<and> derive h program resolved a = Inr (Some (addr (ia_name a)))" if a: "a \<in> set ?as" for a
  proof (cases "jm_get known (ia_name a)")
    case (Some pk)
    then show ?thesis using s(2) by (simp add: extends_def addr_def)
  next
    case None
    then obtain a' where a': "a' \<in> set ?as" "ia_name a' = ia_name a" "derive h program resolved a' = Inr (Some (addr (ia_name a)))"
      using s(1) have_key [OF a] unfolding sound_def by (metis option.distinct(1))
    have "a' = a" using assms(3) a' a by (auto simp: distinct_map dest: inj_onD)
    then show ?thesis using None a' s(2) have_key by auto
  qed
  have p: "programId ins = program" "ix_keys ins = ks @ extra" "ix_data ins = hex_bytes (ii_discriminator ix) @ body"
    using b(5) by simp_all
  show ?thesis unfolding p ks
    by (intro exI [of _ addr] exI [of _ body] conjI ballI refl prog b(4) each)
qed

text \<open>
  The builder gives up on an account only when it must: the account is neither given nor
  derivable from everything that could be resolved.
\<close>

theorem must_be_provided:
  assumes "buildIdlInstruction h depth schema name known args extra = Inl (MustBeProvided n)"
    and "find (\<lambda>i. ii_name i = name) (sc_instructions schema) = Some ix"
  shows "\<exists>program resolved a. toBase58 program = sc_address schema \<and> resolve_loop h program (ii_accounts ix) known = Inr resolved
     \<and> a \<in> set (ii_accounts ix) \<and> ia_name a = n \<and> jm_get known n = None \<and> derive h program resolved a = Inr None"
proof -
  let ?as = "ii_accounts ix"
  have rmap_Inl: "\<exists>x \<in> set xs. f x = Inl e" if "rmap f xs = Inl e" for f :: "'x \<Rightarrow> 'e + 'y" and xs e
    using that by (induction xs) (auto simp: result_simps)
  have lk: "lift_key r \<noteq> Inl (MustBeProvided n)" for r by (cases r) (simp_all add: lift_key_def)
  have sb: "seedBytes m s \<noteq> Inl (MustBeProvided n)" for m s by (cases s) (simp_all add: seedBytes_def)
  have po: "pda_owner program m pda \<noteq> Inl (MustBeProvided n)" for program m pda
    using lk by (auto simp: pda_owner_def result_simps split: option.splits idl_seed.splits)
  have rm: "rmap (seedBytes m) ss \<noteq> Inl (MustBeProvided n)" for m ss using sb rmap_Inl by metis
  have dv: "derive h program m a \<noteq> Inl (MustBeProvided n)" for h program m a
    using lk rm po by (simp add: derive_def result_simps split: option.splits sum.splits)
  have pass: "resolve_pass h program as m p \<noteq> Inl (MustBeProvided n)" for h program as m p
    using dv by (induction as arbitrary: m p) (auto split: sum.splits option.splits)
  have loop: "resolve_loop h program as m \<noteq> Inl (MustBeProvided n)" for h program as m
  proof (induction h program as m rule: resolve_loop.induct)
    case (1 h program as m)
    then show ?case using pass by (subst resolve_loop.simps) (auto split: sum.splits)
  qed
  obtain program resolved where b: "lift_key (fromBase58 (sc_address schema)) = Inr program"
      "resolve_loop h program ?as known = Inr resolved" "account_metas resolved ?as = Inl (MustBeProvided n)"
    using assms lk loop
    by (cases "encodeIdlFields depth (used_args (ii_args ix) args) args (sc_types schema)")
      (auto simp: buildIdlInstruction_def result_simps split: if_splits)
  obtain a where a: "a \<in> set ?as" "jm_get resolved (ia_name a) = None" "ia_name a = n"
    using rmap_Inl [OF b(3) [unfolded account_metas_def]] by (auto split: option.splits)
  have init: "sound h program ?as known known" by (simp add: sound_def)
  have s: "extends known resolved" "\<forall>a \<in> set ?as. \<not> jm_has resolved (ia_name a) \<longrightarrow> derive h program resolved a = Inr None"
    using resolve_loop_sound [OF b(2) init] by auto
  have "toBase58 program = sc_address schema"
    using b(1) toBase58_fromBase58 by (cases "fromBase58 (sc_address schema)") (auto simp: lift_key_def)
  moreover have "jm_get known n = None" using s(1) a(2,3) by (cases "jm_get known n") (auto simp: extends_def)
  moreover have "derive h program resolved a = Inr None" using s(2) a by (simp add: jm_has_def)
  ultimately show ?thesis using a b(2) by blast
qed

definition sample_ix_schema :: "idl_pda option \<Rightarrow> instruction_schema" where
  "sample_ix_schema pda = \<lparr>sc_address = toBase58 zero_key, sc_events = [], sc_accounts = [], sc_types = [],
     sc_instructions = [\<lparr>ii_name = ''buy'', ii_discriminator = ''66063d12'',
       ii_accounts = [\<lparr>ia_name = ''vault'', ia_writable = True, ia_signer = False, ia_address = None, ia_pda = pda\<rparr>,
                      \<lparr>ia_name = ''user'', ia_writable = True, ia_signer = True, ia_address = None, ia_pda = None\<rparr>,
                      \<lparr>ia_name = ''program'', ia_writable = False, ia_signer = False, ia_address = None, ia_pda = None\<rparr>],
       ii_args = [(''amount'', Prim ''u8'')]\<rparr>]\<rparr>"

definition sample_build :: "idl_pda option \<Rightarrow> build_error + instruction" where
  "sample_build pda = buildIdlInstruction sample_hashing 2 (sample_ix_schema pda) ''buy'' [(''user'', key_of 7)] [(''amount'', VNumber 5)] []"

definition vault_pda :: idl_pda where
  "vault_pda = \<lparr>pda_seeds = [SeedConst [9]], pda_program = None\<rparr>"

lemma sample_encodes: "encodeIdlFields 2 (used_args [(''amount'', Prim ''u8'')] [(''amount'', VNumber 5)]) [(''amount'', VNumber 5)] [] = Inr [5]"
  by code_simp

lemma hex_sample: "hex_bytes ''66063d12'' = [0x66, 0x06, 0x3d, 0x12]"
  by code_simp

lemma sample_built: "sample_build (Some vault_pda) = Inr \<lparr>programId = zero_key,
   ix_keys = [\<lparr>m_pubkey = Abs_pubkey (replicate 31 7 @ [253]), m_isSigner = False, m_isWritable = True\<rparr>,
     \<lparr>m_pubkey = key_of 7, m_isSigner = True, m_isWritable = True\<rparr>, \<lparr>m_pubkey = zero_key, m_isSigner = False, m_isWritable = False\<rparr>],
   ix_data = [0x66, 0x06, 0x3d, 0x12, 5]\<rparr>"
  using sample_pda sample_encodes hex_sample
  by (simp add: sample_build_def buildIdlInstruction_def sample_ix_schema_def vault_pda_def resolve_loop.simps derive_def
      jm_has_def seedBytes_def pda_owner_def lift_key_def account_metas_def)

theorem buildIdlInstruction_accounts_witness:
  "\<exists>addr body. [5 :: byte] = body \<and> addr ''user'' = key_of 7 \<and> addr ''vault'' = Abs_pubkey (replicate 31 7 @ [253])
    \<and> [\<lparr>m_pubkey = Abs_pubkey (replicate 31 7 @ [253]), m_isSigner = False, m_isWritable = True\<rparr>,
     \<lparr>m_pubkey = key_of 7, m_isSigner = True, m_isWritable = True\<rparr>, \<lparr>m_pubkey = zero_key, m_isSigner = False, m_isWritable = False\<rparr>]
    = [\<lparr>m_pubkey = addr ''vault'', m_isSigner = False, m_isWritable = True\<rparr>, \<lparr>m_pubkey = addr ''user'', m_isSigner = True, m_isWritable = True\<rparr>,
       \<lparr>m_pubkey = addr ''program'', m_isSigner = False, m_isWritable = False\<rparr>]"
proof -
  let ?ix = "hd (sc_instructions (sample_ix_schema (Some vault_pda)))"
  have find: "find (\<lambda>i. ii_name i = ''buy'') (sc_instructions (sample_ix_schema (Some vault_pda))) = Some ?ix"
    and names: "distinct (map ia_name (ii_accounts ?ix))"
    by (simp_all add: sample_ix_schema_def)
  from buildIdlInstruction_accounts [OF sample_built [unfolded sample_build_def] find names]
  obtain addr body where ks: "[\<lparr>m_pubkey = Abs_pubkey (replicate 31 7 @ [253]), m_isSigner = False, m_isWritable = True\<rparr>,
       \<lparr>m_pubkey = key_of 7, m_isSigner = True, m_isWritable = True\<rparr>, \<lparr>m_pubkey = zero_key, m_isSigner = False, m_isWritable = False\<rparr>]
      = map (\<lambda>a. \<lparr>m_pubkey = addr (ia_name a), m_isSigner = ia_signer a, m_isWritable = ia_writable a\<rparr>) (ii_accounts ?ix) @ []"
    and d: "[0x66, 0x06, 0x3d, 0x12, 5] = hex_bytes (ii_discriminator ?ix) @ body"
    unfolding instruction.select_convs by blast
  have "ii_discriminator ?ix = ''66063d12''" by (simp add: sample_ix_schema_def)
  then have "[5] = body" using d hex_sample by simp
  then show ?thesis using ks by (intro exI [of _ addr] exI [of _ body]) (simp add: sample_ix_schema_def)
qed

theorem must_be_provided_witness:
  "\<exists>program resolved. toBase58 program = toBase58 zero_key
     \<and> resolve_loop sample_hashing program (ii_accounts (hd (sc_instructions (sample_ix_schema None)))) [(''user'', key_of 7)] = Inr resolved"
proof -
  have "sample_build None = Inl (MustBeProvided ''vault'')"
    by (simp add: sample_build_def buildIdlInstruction_def sample_ix_schema_def resolve_loop.simps derive_def
        jm_has_def lift_key_def account_metas_def)
  from must_be_provided [OF this [unfolded sample_build_def]] show ?thesis
    by (auto simp: sample_ix_schema_def)
qed

end
