(* ===== verification/HttpClient.thy ===== *)
theory HttpClient
  imports Prelude Complex_Main
begin

text \<open>
  \<open>packages/solana-core/src/http-client.ts\<close>: one HTTP request with retries behind a circuit
  breaker. \<open>fetch\<close>, the clock and the random numbers are the environment: what each attempt
  gets, and the readings of the clock. Waits are numbers of a field \<open>'n\<close> (doubles in the code).
\<close>

section \<open>The circuit breaker\<close>

datatype circuit_state = Closed | Open | HalfOpen

record breaker_policy =
  failureThreshold :: nat
  recoveryMs :: int

record breaker =
  b_state :: circuit_state
  b_consecutiveFailures :: nat
  b_openedAt :: int
  b_inflightProbe :: bool
  b_events :: "circuit_state list"   \<comment> \<open>\<open>circuit:<state>\<close> events emitted so far\<close>

definition new_breaker :: breaker where
  "new_breaker = \<lparr>b_state = Closed, b_consecutiveFailures = 0, b_openedAt = 0, b_inflightProbe = False, b_events = []\<rparr>"

definition transitionTo :: "circuit_state \<Rightarrow> breaker \<Rightarrow> breaker" where
  "transitionTo st b = (if b_state b = st then b else b\<lparr>b_state := st, b_events := b_events b @ [st]\<rparr>)"

definition breakerPreCheck :: "breaker_policy option \<Rightarrow> int \<Rightarrow> breaker \<Rightarrow> bool \<times> breaker" where
  "breakerPreCheck policy now b =
     (case policy of
        None \<Rightarrow> (True, b)
      | Some pol \<Rightarrow>
          (case b_state b of
             Closed \<Rightarrow> (True, b)
           | HalfOpen \<Rightarrow> if b_inflightProbe b then (False, b) else (True, b\<lparr>b_inflightProbe := True\<rparr>)
           | Open \<Rightarrow> if now - b_openedAt b \<ge> recoveryMs pol
                      then (True, (transitionTo HalfOpen b)\<lparr>b_inflightProbe := True\<rparr>) else (False, b)))"

definition recordSuccess :: "breaker_policy option \<Rightarrow> breaker \<Rightarrow> breaker" where
  "recordSuccess policy b =
     (case policy of
        None \<Rightarrow> b
      | Some _ \<Rightarrow> (if b_state b = HalfOpen then transitionTo Closed b else b)\<lparr>b_consecutiveFailures := 0, b_inflightProbe := False\<rparr>)"

definition recordFailure :: "breaker_policy option \<Rightarrow> int \<Rightarrow> breaker \<Rightarrow> breaker" where
  "recordFailure policy now b =
     (case policy of
        None \<Rightarrow> b
      | Some pol \<Rightarrow>
          if b_state b = HalfOpen
          then (transitionTo Open (b\<lparr>b_openedAt := now\<rparr>))\<lparr>b_consecutiveFailures := 0, b_inflightProbe := False\<rparr>
          else let b = b\<lparr>b_consecutiveFailures := b_consecutiveFailures b + 1\<rparr>;
                   b = (if b_state b = Closed \<and> b_consecutiveFailures b \<ge> failureThreshold pol
                        then transitionTo Open (b\<lparr>b_openedAt := now\<rparr>) else b)
               in b\<lparr>b_inflightProbe := False\<rparr>)"

section \<open>One request\<close>

datatype error_class = ETimeout | ENetwork | EHttp | ECircuitOpen

text \<open>
  What \<open>fetch\<close> itself does: it resolves with a response (status, \<open>Retry-After\<close> header), or it
  rejects. A rejection carries whether the error looks like an abort, and whether the caller's
  signal and the client's own timer had fired; \<open>_fetchOnce\<close> turns it into a timeout or
  propagates it.
\<close>

record rejection =
  looksAbort :: bool
  callerAborted :: bool
  internalAborted :: bool
  rejectedWith :: string

datatype raw_fetch = Resolves int "string option" | Rejects rejection

datatype fetch_result = Response int "string option" | TimedOut string | NetworkFailed string

definition isAbortFromTimeout :: "rejection \<Rightarrow> bool" where
  "isAbortFromTimeout r =
     (if \<not> looksAbort r then False else if callerAborted r then False else internalAborted r)"

definition fetchOnce :: "raw_fetch \<Rightarrow> fetch_result" where
  "fetchOnce res =
     (case res of
        Resolves status ra \<Rightarrow> Response status ra
      | Rejects r \<Rightarrow> if isAbortFromTimeout r then TimedOut ''HTTP request timed out'' else NetworkFailed (rejectedWith r))"

datatype http_error =
    CircuitOpen string
  | HttpStatus string int       \<comment> \<open>code \<open>http\<close>\<close>
  | RateLimited string int      \<comment> \<open>code \<open>rate_limited\<close>\<close>
  | Thrown string               \<comment> \<open>the error the fetch rejected with\<close>
  | RequestFailed string

record http_metrics =
  hm_statusCode :: "int option"
  hm_errorClass :: "error_class option"
  hm_retryCount :: nat

record failure =
  f_kind :: error_class
  f_statusCode :: "int option"
  f_err :: http_error

definition is_ok :: "int \<Rightarrow> bool" where
  "is_ok status \<longleftrightarrow> 200 \<le> status \<and> status \<le> 299"

definition isRetryableStatus :: "int \<Rightarrow> bool" where
  "isRetryableStatus status = (if status \<ge> 500 \<and> status \<le> 599 then True else if status = 429 then True else False)"

record 'n retry_policy =
  attempts :: nat
  backoffMs :: 'n
  jitter :: 'n

definition backoff :: "('n :: linordered_field) retry_policy \<Rightarrow> (nat \<Rightarrow> 'n) \<Rightarrow> nat \<Rightarrow> 'n" where
  "backoff retry random attempt = backoffMs retry * 2 ^ (attempt - 1) * (1 + random attempt * jitter retry)"

text \<open>\<open>Number.parseInt(s, 10)\<close>: white space, a sign, then the leading digits; \<open>NaN\<close> is \<open>None\<close>.\<close>

definition is_dec :: "char \<Rightarrow> bool" where
  "is_dec c \<longleftrightarrow> 48 \<le> (of_char c :: nat) \<and> (of_char c :: nat) \<le> 57"

definition is_space :: "char \<Rightarrow> bool" where
  "is_space c \<longleftrightarrow> c = CHR '' '' \<or> (9 \<le> (of_char c :: nat) \<and> (of_char c :: nat) \<le> 13) \<or> (of_char c :: nat) = 160"

definition parse_int :: "string \<Rightarrow> int option" where
  "parse_int s =
     (let s = dropWhile is_space s;
          (sgn, s) = (case s of c # cs \<Rightarrow> if c = CHR ''-'' then (-1, cs) else if c = CHR ''+'' then (1, cs) else (1, s) | [] \<Rightarrow> (1, s));
          ds = takeWhile is_dec s
      in if ds = [] then None else Some (sgn * foldl (\<lambda>n c. n * 10 + (of_char c - 48)) 0 ds))"

text \<open>The wait before the next attempt.\<close>

definition wait_after :: "('n :: linordered_field) retry_policy \<Rightarrow> (nat \<Rightarrow> 'n) \<Rightarrow> nat \<Rightarrow> fetch_result \<Rightarrow> 'n" where
  "wait_after retry random attempt res =
     (case res of
        Response status (Some ra) \<Rightarrow>
          if status = 429 \<and> ra \<noteq> []
          then (case parse_int ra of Some p \<Rightarrow> if p > 0 then of_int p * 1000 else backoff retry random attempt
                | None \<Rightarrow> backoff retry random attempt)
          else backoff retry random attempt
      | _ \<Rightarrow> backoff retry random attempt)"

definition failure_of :: "string \<Rightarrow> fetch_result \<Rightarrow> failure" where
  "failure_of url res =
     (case res of
        Response status _ \<Rightarrow> \<lparr>f_kind = EHttp, f_statusCode = Some status,
          f_err = (if status = 429 then RateLimited url status else HttpStatus url status)\<rparr>
      | TimedOut e \<Rightarrow> \<lparr>f_kind = ETimeout, f_statusCode = None, f_err = Thrown e\<rparr>
      | NetworkFailed e \<Rightarrow> \<lparr>f_kind = ENetwork, f_statusCode = None, f_err = Thrown e\<rparr>)"

text \<open>
  How the attempt loop ends: the result, its metrics, whether the breaker records a success, and
  the waits in between. \<open>n\<close> is the number of attempts left, \<open>attempt\<close> the current one.
\<close>

record 'n attempt_end =
  ae_result :: "http_error + int"
  ae_metrics :: http_metrics
  ae_success :: bool
  ae_waits :: "'n list"
  ae_fetches :: nat

fun attempt_loop :: "('n :: linordered_field) retry_policy \<Rightarrow> (nat \<Rightarrow> 'n) \<Rightarrow> string \<Rightarrow> (nat \<Rightarrow> fetch_result) \<Rightarrow>
    nat \<Rightarrow> nat \<Rightarrow> nat \<Rightarrow> failure option \<Rightarrow> 'n list \<Rightarrow> 'n attempt_end" where
  "attempt_loop retry random url fetch 0 attempt retryCount lastFailure waits =
     \<lparr>ae_result = Inl (case lastFailure of Some f \<Rightarrow> f_err f | None \<Rightarrow> RequestFailed url),
      ae_metrics = \<lparr>hm_statusCode = (case lastFailure of Some f \<Rightarrow> f_statusCode f | None \<Rightarrow> None),
        hm_errorClass = Some (case lastFailure of Some f \<Rightarrow> f_kind f | None \<Rightarrow> ENetwork), hm_retryCount = retryCount\<rparr>,
      ae_success = False, ae_waits = waits, ae_fetches = attempt - 1\<rparr>"
| "attempt_loop retry random url fetch (Suc n) attempt retryCount lastFailure waits =
     (let res = fetch attempt;
          exhausted = attempt_loop retry random url fetch 0 (attempt + 1) retryCount (Some (failure_of url res)) waits;
          again = attempt_loop retry random url fetch n (attempt + 1) attempt (Some (failure_of url res))
            (waits @ [wait_after retry random attempt res]);
          next_try = (if n = 0 then exhausted else again)
      in case res of
           Response status _ \<Rightarrow>
             if isRetryableStatus status then next_try
             else if is_ok status
             then \<lparr>ae_result = Inr status, ae_metrics = \<lparr>hm_statusCode = Some status, hm_errorClass = None, hm_retryCount = retryCount\<rparr>,
                   ae_success = True, ae_waits = waits, ae_fetches = attempt\<rparr>
             else \<lparr>ae_result = Inl (HttpStatus url status),
                   ae_metrics = \<lparr>hm_statusCode = Some status, hm_errorClass = Some EHttp, hm_retryCount = retryCount\<rparr>,
                   ae_success = False, ae_waits = waits, ae_fetches = attempt\<rparr>
         | _ \<Rightarrow> next_try)"

definition attempts_of :: "('n :: linordered_field) retry_policy \<Rightarrow> (nat \<Rightarrow> 'n) \<Rightarrow> string \<Rightarrow> (nat \<Rightarrow> fetch_result) \<Rightarrow> 'n attempt_end" where
  "attempts_of retry random url fetch = attempt_loop retry random url fetch (attempts retry) 1 0 None []"

section \<open>\<open>_resolveUrl\<close>\<close>

definition ends_slash :: "string \<Rightarrow> bool" where
  "ends_slash s \<longleftrightarrow> s \<noteq> [] \<and> last s = CHR ''/''"
definition starts_slash :: "string \<Rightarrow> bool" where
  "starts_slash s \<longleftrightarrow> s \<noteq> [] \<and> hd s = CHR ''/''"

definition lower_ascii :: "char \<Rightarrow> char" where
  "lower_ascii c = (if 65 \<le> (of_char c :: nat) \<and> (of_char c :: nat) \<le> 90 then char_of ((of_char c :: nat) + 32) else c)"

definition is_absolute :: "string \<Rightarrow> bool" where
  "is_absolute p \<longleftrightarrow> map lower_ascii (take 7 p) = ''http://'' \<or> map lower_ascii (take 8 p) = ''https://''"

definition resolveUrl :: "string option \<Rightarrow> string \<Rightarrow> string" where
  "resolveUrl baseUrl path =
     (if is_absolute path then path
      else case baseUrl of
             None \<Rightarrow> path
           | Some b \<Rightarrow>
               if b = [] then path
               else if path = [] then b
               else if ends_slash b \<and> starts_slash path then b @ drop 1 path
               else if \<not> ends_slash b \<and> \<not> starts_slash path then b @ ''/'' @ path
               else b @ path)"

section \<open>The request\<close>

text \<open>
  \<open>request\<close> when no other request of this client completes in between, with the clock readings of
  its start and its end: the outcome, its one metrics event and the breaker it leaves. What other
  requests may do to the breaker meanwhile is the subject of the section on interleavings.
\<close>

definition request :: "breaker_policy option \<Rightarrow> ('n :: linordered_field) retry_policy \<Rightarrow> (nat \<Rightarrow> 'n) \<Rightarrow> string option \<Rightarrow> string \<Rightarrow>
    (nat \<Rightarrow> raw_fetch) \<Rightarrow> int \<Rightarrow> int \<Rightarrow> breaker \<Rightarrow> (http_error + int) \<times> http_metrics \<times> breaker" where
  "request policy retry random baseUrl path fetch start_time end_time b =
     (case breakerPreCheck policy start_time b of
        (False, b) \<Rightarrow> (Inl (CircuitOpen path), \<lparr>hm_statusCode = None, hm_errorClass = Some ECircuitOpen, hm_retryCount = 0\<rparr>, b)
      | (True, b) \<Rightarrow>
          (let e = attempts_of retry random (resolveUrl baseUrl path) (\<lambda>i. fetchOnce (fetch i))
           in (ae_result e, ae_metrics e, if ae_success e then recordSuccess policy b else recordFailure policy end_time b)))"

section \<open>The attempt loop against its specification\<close>

definition retryable :: "fetch_result \<Rightarrow> bool" where
  "retryable res = (case res of Response status _ \<Rightarrow> isRetryableStatus status | _ \<Rightarrow> True)"

text \<open>The attempts stop at the first answer that is not retryable, or when they run out.\<close>

definition settled :: "string \<Rightarrow> nat \<Rightarrow> fetch_result \<Rightarrow> (http_error + int) \<times> http_metrics \<times> bool" where
  "settled url i res =
     (case res of
        Response status _ \<Rightarrow>
          if is_ok status
          then (Inr status, \<lparr>hm_statusCode = Some status, hm_errorClass = None, hm_retryCount = i - 1\<rparr>, True)
          else if isRetryableStatus status
          then (Inl (f_err (failure_of url res)), \<lparr>hm_statusCode = Some status, hm_errorClass = Some EHttp, hm_retryCount = i - 1\<rparr>, False)
          else (Inl (HttpStatus url status), \<lparr>hm_statusCode = Some status, hm_errorClass = Some EHttp, hm_retryCount = i - 1\<rparr>, False)
      | _ \<Rightarrow> (Inl (f_err (failure_of url res)), \<lparr>hm_statusCode = None, hm_errorClass = Some (f_kind (failure_of url res)), hm_retryCount = i - 1\<rparr>, False))"

definition attempts_spec :: "('n :: linordered_field) retry_policy \<Rightarrow> (nat \<Rightarrow> 'n) \<Rightarrow> string \<Rightarrow> (nat \<Rightarrow> fetch_result) \<Rightarrow> nat \<Rightarrow> 'n attempt_end" where
  "attempts_spec retry random url fetch last_attempt =
     (let (r, m, ok) = settled url last_attempt (fetch last_attempt)
      in \<lparr>ae_result = r, ae_metrics = m, ae_success = ok,
          ae_waits = map (\<lambda>i. wait_after retry random i (fetch i)) [1..<last_attempt], ae_fetches = last_attempt\<rparr>)"

lemma not_ok_retryable: "isRetryableStatus status \<Longrightarrow> \<not> is_ok status"
  by (auto simp: isRetryableStatus_def is_ok_def split: if_splits)

lemma attempt_loop_final:
  assumes "\<not> retryable (fetch attempt)" and "0 < attempt"
  shows "attempt_loop retry random url fetch (Suc n) attempt (attempt - 1) lf (map (\<lambda>i. wait_after retry random i (fetch i)) [1..<attempt]) =
         attempts_spec retry random url fetch attempt"
  using assms by (auto simp: retryable_def attempts_spec_def settled_def Let_def split: fetch_result.splits)

lemma attempt_loop_exhausted:
  assumes "retryable (fetch attempt)" and "0 < attempt"
  shows "attempt_loop retry random url fetch (Suc 0) attempt (attempt - 1) lf (map (\<lambda>i. wait_after retry random i (fetch i)) [1..<attempt]) =
         attempts_spec retry random url fetch attempt"
  using assms
  by (auto simp: retryable_def attempts_spec_def settled_def failure_of_def Let_def dest: not_ok_retryable split: fetch_result.splits)

lemma attempt_loop_again:
  assumes "retryable (fetch attempt)" and "0 < attempt"
  shows "attempt_loop retry random url fetch (Suc (Suc n)) attempt (attempt - 1) lf (map (\<lambda>i. wait_after retry random i (fetch i)) [1..<attempt]) =
         attempt_loop retry random url fetch (Suc n) (Suc attempt) (Suc attempt - 1) (Some (failure_of url (fetch attempt)))
           (map (\<lambda>i. wait_after retry random i (fetch i)) [1..<Suc attempt])"
proof -
  have "[1..<Suc attempt] = [1..<attempt] @ [attempt]"
    using assms(2) by simp
  then show ?thesis
    using assms by (auto simp: retryable_def Let_def simp del: upt_Suc split: fetch_result.splits)
qed

lemma attempt_loop_spec:
  assumes "0 < attempt" and "attempt \<le> k" and "k < attempt + Suc n"
    and "\<forall>i. attempt \<le> i \<and> i < k \<longrightarrow> retryable (fetch i)"
    and "k + 1 = attempt + Suc n \<or> \<not> retryable (fetch k)"
  shows "attempt_loop retry random url fetch (Suc n) attempt (attempt - 1) lf (map (\<lambda>i. wait_after retry random i (fetch i)) [1..<attempt]) =
         attempts_spec retry random url fetch k"
  using assms
proof (induction n arbitrary: attempt lf)
  case 0
  then show ?case
    using attempt_loop_final[of fetch attempt] attempt_loop_exhausted[of fetch attempt] by (metis Suc_eq_plus1 add.right_neutral add_Suc_right le_antisym less_Suc_eq_le)
next
  case (Suc n)
  show ?case
  proof (cases "retryable (fetch attempt)")
    case True
    show ?thesis
    proof (cases "attempt = k")
      case True
      then show ?thesis using Suc.prems \<open>retryable (fetch attempt)\<close> by simp
    next
      case False
      have "attempt_loop retry random url fetch (Suc n) (Suc attempt) (Suc attempt - 1) (Some (failure_of url (fetch attempt)))
           (map (\<lambda>i. wait_after retry random i (fetch i)) [1..<Suc attempt]) = attempts_spec retry random url fetch k"
        by (rule Suc.IH) (use Suc.prems False in auto)
      then show ?thesis
        unfolding attempt_loop_again[of fetch attempt, OF \<open>retryable (fetch attempt)\<close> \<open>0 < attempt\<close>] .
    qed
  next
    case False
    then have "k = attempt"
      using Suc.prems by (metis le_neq_implies_less order_refl)
    then show ?thesis
      using attempt_loop_final[of fetch attempt] False Suc.prems(1) by blast
  qed
qed

definition last_attempt :: "'n retry_policy \<Rightarrow> (nat \<Rightarrow> fetch_result) \<Rightarrow> nat" where
  "last_attempt retry fetch =
     (case List.find (\<lambda>i. \<not> retryable (fetch i)) [1..<attempts retry] of Some i \<Rightarrow> i | None \<Rightarrow> attempts retry)"

lemma last_attempt_bounds:
  assumes "0 < attempts retry"
  shows "1 \<le> last_attempt retry fetch" and "last_attempt retry fetch \<le> attempts retry"
    and "\<forall>i. 1 \<le> i \<and> i < last_attempt retry fetch \<longrightarrow> retryable (fetch i)"
    and "last_attempt retry fetch = attempts retry \<or> \<not> retryable (fetch (last_attempt retry fetch))"
proof -
  let ?P = "\<lambda>i. \<not> retryable (fetch i)"
  have "1 \<le> last_attempt retry fetch \<and> last_attempt retry fetch \<le> attempts retry \<and>
        (\<forall>i. 1 \<le> i \<and> i < last_attempt retry fetch \<longrightarrow> retryable (fetch i)) \<and>
        (last_attempt retry fetch = attempts retry \<or> \<not> retryable (fetch (last_attempt retry fetch)))"
  proof (cases "List.find ?P [1..<attempts retry]")
    case None
    then have l: "last_attempt retry fetch = attempts retry" by (simp add: last_attempt_def)
    have "retryable (fetch i)" if "1 \<le> i" "i < attempts retry" for i
      using None that by (simp add: find_None_iff)
    then show ?thesis unfolding l using assms by auto
  next
    case (Some k)
    then obtain j where j: "j < length [1..<attempts retry]" "?P ([1..<attempts retry] ! j)" "k = [1..<attempts retry] ! j"
      and before: "\<forall>i<j. \<not> ?P ([1..<attempts retry] ! i)"
      by (auto simp: find_Some_iff)
    have k: "k = 1 + j" "j < attempts retry - 1" using j(1,3) by simp_all
    have "retryable (fetch i)" if "1 \<le> i" "i < k" for i
    proof -
      have "i - 1 < j" using that k by linarith
      then have "\<not> ?P ([1..<attempts retry] ! (i - 1))" using before by blast
      moreover have "[1..<attempts retry] ! (i - 1) = i" using that k by simp
      ultimately show ?thesis by simp
    qed
    then show ?thesis using Some j(2,3) k by (simp add: last_attempt_def)
  qed
  then show "1 \<le> last_attempt retry fetch" and "last_attempt retry fetch \<le> attempts retry"
    and "\<forall>i. 1 \<le> i \<and> i < last_attempt retry fetch \<longrightarrow> retryable (fetch i)"
    and "last_attempt retry fetch = attempts retry \<or> \<not> retryable (fetch (last_attempt retry fetch))" by blast+
qed

lemma attempts_of_spec:
  assumes "0 < attempts retry"
  shows "attempts_of retry random url fetch = attempts_spec retry random url fetch (last_attempt retry fetch)"
proof -
  obtain n where n: "attempts retry = Suc n" using assms gr0_implies_Suc by blast
  show ?thesis
    using attempt_loop_spec[of 1 "last_attempt retry fetch" n fetch retry random url None] last_attempt_bounds[OF assms, of fetch] n
    by (auto simp: attempts_of_def)
qed

text \<open>
  C11. The retry loop of \<open>request\<close> is its specification: it stops at the first answer that is not
  retryable (neither 429, 5xx, a timeout nor a network failure) or at the last attempt, having
  waited once after each earlier attempt, for the time \<open>wait_after\<close> gives (the \<open>Retry-After\<close> of a
  429, else the exponential backoff). The result, the status, the error class and the retry count
  of the one metrics event all come from that last attempt; only a 2xx is a success: a
  304, which the comment of the code counts among the successes, is a recorded failure and throws.
\<close>
theorem attempts_follow_spec:
  assumes "0 < attempts retry"
  shows "attempts_of retry random url fetch = attempts_spec retry random url fetch (last_attempt retry fetch)"
  by (rule attempts_of_spec[OF assms])

definition sample_fetch :: "nat \<Rightarrow> fetch_result" where
  "sample_fetch i = (if i = 1 then Response 429 (Some ''2'') else if i = 2 then TimedOut ''t'' else Response 200 None)"

theorem attempts_follow_spec_witness:
  "attempts_of \<lparr>attempts = 5, backoffMs = (100 :: rat), jitter = 0\<rparr> (\<lambda>_. 0) ''u'' sample_fetch =
     \<lparr>ae_result = Inr 200, ae_metrics = \<lparr>hm_statusCode = Some 200, hm_errorClass = None, hm_retryCount = 2\<rparr>,
      ae_success = True, ae_waits = [2000, 200], ae_fetches = 3\<rparr>"
proof -
  have l: "last_attempt \<lparr>attempts = 5, backoffMs = (100 :: rat), jitter = 0\<rparr> sample_fetch = 3"
    by (simp add: last_attempt_def sample_fetch_def retryable_def isRetryableStatus_def upt_rec)
  have p: "parse_int ''2'' = Some 2" by code_simp
  show ?thesis
    unfolding attempts_follow_spec[of "\<lparr>attempts = 5, backoffMs = (100 :: rat), jitter = 0\<rparr>", simplified] l
    by (simp add: attempts_spec_def settled_def sample_fetch_def is_ok_def wait_after_def backoff_def upt_rec p)
qed

section \<open>The breaker under interleaved requests\<close>

text \<open>
  A client is shared: requests begin and complete in any order. What reaches the breaker is a
  sequence of checks, successes and failures, the last two of any request that was admitted at any
  earlier time.
\<close>

datatype breaker_op = Begin int | Succeeded | Failed int

fun breaker_do :: "breaker_policy option \<Rightarrow> breaker_op \<Rightarrow> breaker \<Rightarrow> breaker" where
  "breaker_do policy (Begin now) b = snd (breakerPreCheck policy now b)"
| "breaker_do policy Succeeded b = recordSuccess policy b"
| "breaker_do policy (Failed now) b = recordFailure policy now b"

definition breaker_run :: "breaker_policy option \<Rightarrow> breaker_op list \<Rightarrow> breaker" where
  "breaker_run policy ops = fold (breaker_do policy) ops new_breaker"

text \<open>The contract: a breaker with no probe flag and no counters outside the state they belong to.\<close>

datatype abstract_breaker = AClosed nat | AOpen int | AProbing

fun a_do :: "breaker_policy \<Rightarrow> breaker_op \<Rightarrow> abstract_breaker \<Rightarrow> abstract_breaker" where
  "a_do pol (Begin now) (AOpen t) = (if now - t \<ge> recoveryMs pol then AProbing else AOpen t)"
| "a_do pol (Begin now) a = a"
| "a_do pol Succeeded AProbing = AClosed 0"
| "a_do pol Succeeded (AClosed k) = AClosed 0"
| "a_do pol Succeeded (AOpen t) = AOpen t"
| "a_do pol (Failed now) (AClosed k) = (if Suc k \<ge> failureThreshold pol then AOpen now else AClosed (Suc k))"
| "a_do pol (Failed now) AProbing = AOpen now"
| "a_do pol (Failed now) (AOpen t) = AOpen t"

fun a_admits :: "breaker_policy \<Rightarrow> int \<Rightarrow> abstract_breaker \<Rightarrow> bool" where
  "a_admits pol now (AClosed k) = True"
| "a_admits pol now (AOpen t) = (now - t \<ge> recoveryMs pol)"
| "a_admits pol now AProbing = False"

definition abs_breaker :: "breaker \<Rightarrow> abstract_breaker" where
  "abs_breaker b = (case b_state b of Closed \<Rightarrow> AClosed (b_consecutiveFailures b) | Open \<Rightarrow> AOpen (b_openedAt b) | HalfOpen \<Rightarrow> AProbing)"

definition probe_flag_ok :: "breaker \<Rightarrow> bool" where
  "probe_flag_ok b \<longleftrightarrow> (b_inflightProbe b \<longleftrightarrow> b_state b = HalfOpen)"

lemmas breaker_defs = breakerPreCheck_def recordSuccess_def recordFailure_def transitionTo_def probe_flag_ok_def Let_def

lemma breaker_do_ok: "probe_flag_ok b \<Longrightarrow> probe_flag_ok (breaker_do (Some pol) op b)"
  by (cases op; cases "b_state b") (auto simp: breaker_defs)

lemma breaker_do_abs:
  "probe_flag_ok b \<Longrightarrow> abs_breaker (breaker_do (Some pol) op b) = a_do pol op (abs_breaker b)"
  by (cases op; cases "b_state b") (auto simp: breaker_defs abs_breaker_def)

lemma preCheck_abs:
  "probe_flag_ok b \<Longrightarrow> fst (breakerPreCheck (Some pol) now b) = a_admits pol now (abs_breaker b)"
  by (cases "b_state b") (auto simp: breaker_defs abs_breaker_def)

lemma breaker_run_snoc: "breaker_run policy (ops @ [op]) = breaker_do policy op (breaker_run policy ops)"
  by (simp add: breaker_run_def)

lemma breaker_run_ok: "probe_flag_ok (breaker_run (Some pol) ops)"
proof (induction ops rule: rev_induct)
  case Nil
  show ?case by (simp add: breaker_run_def new_breaker_def probe_flag_ok_def)
next
  case (snoc op ops)
  then show ?case unfolding breaker_run_snoc by (rule breaker_do_ok)
qed

text \<open>
  What the file comment of the code promises is stronger: in the half-open state the outcome of the one probe decides. That
  machine knows its requests by number and ignores the completion of any other request while the probe is out.
\<close>

datatype request_op = Starts nat int | Succeeds nat | Fails nat int

fun anonymous :: "request_op \<Rightarrow> breaker_op" where
  "anonymous (Starts i now) = Begin now"
| "anonymous (Succeeds i) = Succeeded"
| "anonymous (Fails i now) = Failed now"

datatype doc_breaker = DClosed nat | DOpen int | DProbing nat

fun d_do :: "breaker_policy \<Rightarrow> request_op \<Rightarrow> doc_breaker \<Rightarrow> doc_breaker" where
  "d_do pol (Starts i now) (DOpen t) = (if now - t \<ge> recoveryMs pol then DProbing i else DOpen t)"
| "d_do pol (Starts i now) d = d"
| "d_do pol (Succeeds i) (DProbing p) = (if i = p then DClosed 0 else DProbing p)"
| "d_do pol (Succeeds i) (DClosed k) = DClosed 0"
| "d_do pol (Succeeds i) (DOpen t) = DOpen t"
| "d_do pol (Fails i now) (DClosed k) = (if Suc k \<ge> failureThreshold pol then DOpen now else DClosed (Suc k))"
| "d_do pol (Fails i now) (DProbing p) = (if i = p then DOpen now else DProbing p)"
| "d_do pol (Fails i now) (DOpen t) = DOpen t"

fun doc_abs :: "doc_breaker \<Rightarrow> abstract_breaker" where
  "doc_abs (DClosed k) = AClosed k"
| "doc_abs (DOpen t) = AOpen t"
| "doc_abs (DProbing p) = AProbing"

text \<open>A completion is stale when the probe is out and it is another request's.\<close>

fun stale :: "request_op \<Rightarrow> doc_breaker \<Rightarrow> bool" where
  "stale (Succeeds i) (DProbing p) \<longleftrightarrow> i \<noteq> p"
| "stale (Fails i now) (DProbing p) \<longleftrightarrow> i \<noteq> p"
| "stale op d \<longleftrightarrow> False"

fun no_stale :: "breaker_policy \<Rightarrow> doc_breaker \<Rightarrow> request_op list \<Rightarrow> bool" where
  "no_stale pol d [] \<longleftrightarrow> True"
| "no_stale pol d (op # ops) \<longleftrightarrow> \<not> stale op d \<and> no_stale pol (d_do pol op d) ops"

lemma no_stale_append: "no_stale pol d (xs @ ys) \<longleftrightarrow> no_stale pol d xs \<and> no_stale pol (fold (d_do pol) xs d) ys"
  by (induction xs arbitrary: d) auto

lemma doc_step: "doc_abs (d_do pol op d) = a_do pol (anonymous op) (doc_abs d) \<longleftrightarrow> \<not> stale op d"
  by (cases op; cases d) auto

lemma no_stale_follows_doc: "no_stale pol d ops \<Longrightarrow> fold (a_do pol) (map anonymous ops) (doc_abs d) = doc_abs (fold (d_do pol) ops d)"
proof (induction ops arbitrary: d)
  case (Cons op ops)
  then have "doc_abs (d_do pol op d) = a_do pol (anonymous op) (doc_abs d)" "no_stale pol (d_do pol op d) ops" using doc_step[of pol op d] by simp_all
  then show ?case using Cons.IH[of "d_do pol op d"] by (simp del: d_do.simps a_do.simps)
qed simp

lemma breaker_run_abs: "abs_breaker (breaker_run (Some pol) ops) = fold (a_do pol) ops (AClosed 0)"
proof (induction ops rule: rev_induct)
  case Nil
  show ?case by (simp add: breaker_run_def new_breaker_def abs_breaker_def)
next
  case (snoc op ops)
  then show ?case unfolding breaker_run_snoc by (simp add: breaker_do_abs[OF breaker_run_ok])
qed

text \<open>
  C10. The breaker, whatever the order in which requests begin and complete, decides every check as a three-state machine
  with one counter and one opening time does, and its state is that machine's; the probe flag carries no
  information of its own. In that machine the completion of any request decides the half-open state, where the file comment
  promises that the outcome of the one probe does. The breaker keeps this promise up to the first stale completion,
  that of a request begun before the circuit opened while the probe is out, and that completion breaks it:
  from there on the code's state is not the documented one.
\<close>
theorem breaker_refines:
  "abs_breaker (breaker_run (Some pol) ops) = fold (a_do pol) ops (AClosed 0) \<and>
   fst (breakerPreCheck (Some pol) now (breaker_run (Some pol) ops)) = a_admits pol now (fold (a_do pol) ops (AClosed 0)) \<and>
   (no_stale pol (DClosed 0) reqs \<longrightarrow>
      abs_breaker (breaker_run (Some pol) (map anonymous reqs)) = doc_abs (fold (d_do pol) reqs (DClosed 0)) \<and>
      (abs_breaker (breaker_run (Some pol) (map anonymous (reqs @ [req]))) = doc_abs (fold (d_do pol) (reqs @ [req]) (DClosed 0)) \<longleftrightarrow>
       no_stale pol (DClosed 0) (reqs @ [req])))"
proof -
  have "fold (a_do pol) (map anonymous reqs) (AClosed 0) = doc_abs (fold (d_do pol) reqs (DClosed 0))" if "no_stale pol (DClosed 0) reqs"
    using no_stale_follows_doc[OF that] by simp
  then show ?thesis
    using doc_step[of pol req "fold (d_do pol) reqs (DClosed 0)"]
    by (auto simp: preCheck_abs[OF breaker_run_ok] breaker_run_abs no_stale_append simp del: d_do.simps stale.simps)
qed

theorem breaker_refines_witness:
  "(let pol = \<lparr>failureThreshold = 1, recoveryMs = 10\<rparr>; reqs = [Starts 0 0, Starts 1 0, Fails 0 1, Starts 2 11]
    in abs_breaker (breaker_run (Some pol) (map anonymous reqs)) = doc_abs (fold (d_do pol) reqs (DClosed 0)) \<and>
       abs_breaker (breaker_run (Some pol) (map anonymous (reqs @ [Succeeds 2]))) = doc_abs (fold (d_do pol) (reqs @ [Succeeds 2]) (DClosed 0)) \<and>
       abs_breaker (breaker_run (Some pol) (map anonymous (reqs @ [Succeeds 1]))) \<noteq> doc_abs (fold (d_do pol) (reqs @ [Succeeds 1]) (DClosed 0)))"
proof -
  let ?pol = "\<lparr>failureThreshold = 1, recoveryMs = 10\<rparr> :: breaker_policy" and ?reqs = "[Starts 0 0, Starts 1 0, Fails 0 1, Starts 2 11]"
  note t = breaker_refines[THEN conjunct2, THEN conjunct2, rule_format, of ?pol ?reqs]
  have o: "no_stale ?pol (DClosed 0) ?reqs" "no_stale ?pol (DClosed 0) (?reqs @ [Succeeds 2])" "\<not> no_stale ?pol (DClosed 0) (?reqs @ [Succeeds 1])"
    by simp_all
  show ?thesis using t[OF o(1), of "Succeeds 2"] t[OF o(1), of "Succeeds 1"] o unfolding Let_def by blast
qed

text \<open>
  One probe: in whatever order requests begin and complete, from the check that admits a
  probe every further check is refused, and changes nothing, until some request completes.
\<close>
theorem half_open_admits_one_probe:
  assumes "b_state (breaker_run (Some pol) (ops @ [Begin now])) = HalfOpen"
  shows "breaker_run (Some pol) (ops @ [Begin now] @ map Begin ts) = breaker_run (Some pol) (ops @ [Begin now]) \<and>
    \<not> fst (breakerPreCheck (Some pol) t (breaker_run (Some pol) (ops @ [Begin now] @ map Begin ts)))"
proof -
  have same: "breaker_run (Some pol) (ops @ [Begin now] @ map Begin ts) = breaker_run (Some pol) (ops @ [Begin now])"
  proof (induction ts rule: rev_induct)
    case (snoc t ts)
    have "breaker_run (Some pol) (ops @ [Begin now] @ map Begin (ts @ [t])) =
          breaker_do (Some pol) (Begin t) (breaker_run (Some pol) (ops @ [Begin now]))"
      using snoc breaker_run_snoc[of "Some pol" "ops @ [Begin now] @ map Begin ts" "Begin t"] by simp
    then show ?case
      using assms breaker_run_ok[of pol "ops @ [Begin now]"] by (simp add: breaker_defs)
  qed simp
  show ?thesis
    unfolding same using assms breaker_run_ok[of pol "ops @ [Begin now]"] by (simp add: breaker_defs)
qed

theorem half_open_admits_one_probe_witness:
  "\<not> fst (breakerPreCheck (Some \<lparr>failureThreshold = 1, recoveryMs = 10\<rparr>) 13
       (breaker_run (Some \<lparr>failureThreshold = 1, recoveryMs = 10\<rparr>) ([Begin 0, Failed 1] @ [Begin 11] @ map Begin [12])))"
  by (rule half_open_admits_one_probe[THEN conjunct2]) code_simp

lemma failures_in_a_row:
  assumes "ts \<noteq> []" and "m + length ts \<le> failureThreshold pol"
  shows "fold (a_do pol) (map Failed ts) (AClosed m) =
         (if m + length ts = failureThreshold pol then AOpen (last ts) else AClosed (m + length ts))"
  using assms
proof (induction ts arbitrary: m)
  case (Cons t ts)
  then show ?case
  proof (cases "ts = []")
    case False
    then have "\<not> failureThreshold pol \<le> Suc m" using Cons.prems by (cases ts) auto
    then show ?thesis using Cons False by simp
  qed auto
qed simp

text \<open>
  From a healthy breaker, the circuit opens exactly at \<open>failureThreshold\<close> failures in a row:
  with fewer every request is admitted, and once open every request is refused until the recovery
  window after the last failure has passed, and the first one after it is admitted.
\<close>
theorem breaker_opens_and_recovers:
  assumes "abs_breaker (breaker_run (Some pol) ops) = AClosed 0"
    and "ts \<noteq> []" and "length ts \<le> failureThreshold pol"
  shows "fst (breakerPreCheck (Some pol) now (breaker_run (Some pol) (ops @ map Failed ts))) \<longleftrightarrow>
         length ts < failureThreshold pol \<or> now - last ts \<ge> recoveryMs pol"
proof -
  have run: "abs_breaker (breaker_run (Some pol) (ops @ map Failed us)) =
        fold (a_do pol) (map Failed us) (abs_breaker (breaker_run (Some pol) ops))" for us
  proof (induction us rule: rev_induct)
    case (snoc u us)
    then show ?case
      using breaker_run_snoc[of "Some pol" "ops @ map Failed us" "Failed u"]
        breaker_do_abs[OF breaker_run_ok, where op = "Failed u"] by simp
  qed simp
  show ?thesis
    unfolding preCheck_abs[OF breaker_run_ok] run assms(1)
    using failures_in_a_row[of ts 0 pol] assms(2,3) by auto
qed

theorem breaker_opens_and_recovers_witness:
  "\<not> fst (breakerPreCheck (Some \<lparr>failureThreshold = 2, recoveryMs = 10\<rparr>) 14
       (breaker_run (Some \<lparr>failureThreshold = 2, recoveryMs = 10\<rparr>) ([Begin 0, Succeeded] @ map Failed [3, 5])))"
proof -
  have "abs_breaker (breaker_run (Some \<lparr>failureThreshold = 2, recoveryMs = 10\<rparr>) [Begin 0, Succeeded]) = AClosed 0"
    by code_simp
  from breaker_opens_and_recovers[OF this, of "[3, 5]" 14] show ?thesis by simp
qed

text \<open>
  A request that began before the circuit opened and succeeds while the probe is still out
  closes the circuit and gives the probe's slot away: with a threshold of one and a window of 10,
  two requests begin at 0, one fails at 1 and opens the circuit, the probe is admitted at 11, and
  the success of the other request closes the circuit, so that further requests are let through
  before the probe has answered; the probe's later failure is then counted as an ordinary one.
\<close>
theorem stale_success_closes_half_open:
  "(let pol = Some \<lparr>failureThreshold = 1, recoveryMs = 10\<rparr>;
        probing = breaker_run pol [Begin 0, Begin 0, Failed 1, Begin 11];
        closed = breaker_run pol [Begin 0, Begin 0, Failed 1, Begin 11, Succeeded]
    in b_state probing = HalfOpen \<and> b_inflightProbe probing \<and> \<not> fst (breakerPreCheck pol 12 probing) \<and>
       b_state closed = Closed \<and> \<not> b_inflightProbe closed \<and> fst (breakerPreCheck pol 12 closed))"
  by code_simp

section \<open>Whole requests\<close>

lemma attempts_settled:
  "ae_success (attempts_of retry random url fetch) \<longleftrightarrow> (\<exists>status. ae_result (attempts_of retry random url fetch) = Inr status)"
  "hm_errorClass (ae_metrics (attempts_of retry random url fetch)) = None \<longleftrightarrow> ae_success (attempts_of retry random url fetch)"
  "ae_result (attempts_of retry random url fetch) \<noteq> Inl (CircuitOpen path)"
proof -
  let ?e = "attempts_of retry random url fetch"
  have "((ae_success ?e) = (\<exists>status. ae_result ?e = Inr status)) \<and> (hm_errorClass (ae_metrics ?e) = None \<longleftrightarrow> ae_success ?e) \<and>
        ae_result ?e \<noteq> Inl (CircuitOpen path)"
  proof (cases "attempts retry = 0")
    case False
    obtain r m ok where s: "settled url (last_attempt retry fetch) (fetch (last_attempt retry fetch)) = (r, m, ok)"
      by (cases "settled url (last_attempt retry fetch) (fetch (last_attempt retry fetch))") auto
    then have "(ok = (\<exists>status. r = Inr status)) \<and> (hm_errorClass m = None \<longleftrightarrow> ok) \<and> r \<noteq> Inl (CircuitOpen path)"
      by (auto simp: settled_def failure_of_def split: fetch_result.splits if_splits)
    moreover have "attempts_of retry random url fetch = attempts_spec retry random url fetch (last_attempt retry fetch)"
      using False by (simp add: attempts_of_spec)
    ultimately show ?thesis using s by (simp add: attempts_spec_def)
  qed (simp add: attempts_of_def)
  then show "ae_success ?e \<longleftrightarrow> (\<exists>status. ae_result ?e = Inr status)"
    "hm_errorClass (ae_metrics ?e) = None \<longleftrightarrow> ae_success ?e" "ae_result ?e \<noteq> Inl (CircuitOpen path)" by blast+
qed

text \<open>
  One request, on a breaker that is not waiting for a probe: it is refused with
  \<open>circuit_open\<close> exactly when the contract does not admit it, and then leaves the breaker as it
  was; otherwise the breaker is told of one begin and one completion, a success exactly when the
  caller gets a response, and the metrics event names an error class exactly when the caller gets
  an error. Either way no request leaves the breaker in its half-open state.
\<close>
theorem request_drives_breaker:
  assumes "probe_flag_ok b" and "b_state b \<noteq> HalfOpen"
    and "request (Some pol) retry random baseUrl path fetch t0 t1 b = (r, m, b')"
  shows "(r = Inl (CircuitOpen path) \<longleftrightarrow> \<not> a_admits pol t0 (abs_breaker b)) \<and>
    abs_breaker b' = (if a_admits pol t0 (abs_breaker b)
           then a_do pol (if hm_errorClass m = None then Succeeded else Failed t1) (a_do pol (Begin t0) (abs_breaker b))
           else abs_breaker b) \<and>
    (hm_errorClass m = None \<longleftrightarrow> (\<exists>status. r = Inr status)) \<and>
    b_state b' \<noteq> HalfOpen"
proof -
  obtain ok b1 where pre: "breakerPreCheck (Some pol) t0 b = (ok, b1)" by fastforce
  have ok: "ok = a_admits pol t0 (abs_breaker b)" using preCheck_abs[OF assms(1), of pol t0] pre by simp
  have b1: "b1 = breaker_do (Some pol) (Begin t0) b" using pre by simp
  have f1: "probe_flag_ok b1" unfolding b1 by (rule breaker_do_ok[OF assms(1)])
  let ?e = "attempts_of retry random (resolveUrl baseUrl path) (\<lambda>i. fetchOnce (fetch i))"
  have res: "\<not> ok \<and> (r, m, b') = (Inl (CircuitOpen path), \<lparr>hm_statusCode = None, hm_errorClass = Some ECircuitOpen, hm_retryCount = 0\<rparr>, b1) \<or>
      ok \<and> (r, m, b') = (ae_result ?e, ae_metrics ?e, breaker_do (Some pol) (if ae_success ?e then Succeeded else Failed t1) b1)"
    using assms(3) pre by (cases ok) (auto simp: request_def Let_def)
  have same: "b1 = b" if "\<not> ok"
    using pre assms(2) that by (cases "b_state b") (auto simp: breaker_defs split: if_splits)
  have not_half: "b_state (breaker_do (Some pol) op b1) \<noteq> HalfOpen" if "\<forall>t. op \<noteq> Begin t" for op
    using that by (cases op; cases "b_state b1") (auto simp: breaker_defs)
  have 1: "r = Inl (CircuitOpen path) \<longleftrightarrow> \<not> a_admits pol t0 (abs_breaker b)"
    using res ok attempts_settled(3)[of retry random "resolveUrl baseUrl path" _ path] by auto
  have 2: "hm_errorClass m = None \<longleftrightarrow> (\<exists>status. r = Inr status)"
    using res attempts_settled(1,2)[of retry random "resolveUrl baseUrl path"] by auto
  have 3: "b_state b' \<noteq> HalfOpen"
    using res same assms(2) not_half[of Succeeded] not_half[of "Failed t1"] by (auto split: if_splits)
  have 4: "abs_breaker b' = (if a_admits pol t0 (abs_breaker b)
           then a_do pol (if hm_errorClass m = None then Succeeded else Failed t1) (a_do pol (Begin t0) (abs_breaker b))
           else abs_breaker b)"
  proof (cases ok)
    case True
    then have m: "m = ae_metrics ?e"
      and b': "b' = breaker_do (Some pol) (if ae_success ?e then Succeeded else Failed t1) b1"
      using res by auto
    have "abs_breaker b' = a_do pol (if ae_success ?e then Succeeded else Failed t1) (a_do pol (Begin t0) (abs_breaker b))"
      unfolding b' breaker_do_abs[OF f1] unfolding b1 breaker_do_abs[OF assms(1)] ..
    then show ?thesis
      using True unfolding ok m by (simp add: attempts_settled(2))
  next
    case False
    then show ?thesis using res same unfolding ok by simp
  qed
  show ?thesis using 1 2 3 4 by blast
qed

theorem request_drives_breaker_witness:
  "fst (request (Some \<lparr>failureThreshold = 1, recoveryMs = 10\<rparr>) \<lparr>attempts = 1, backoffMs = (0 :: rat), jitter = 0\<rparr> (\<lambda>_. 0)
     (Some ''http://h/'') ''/p'' (\<lambda>_. Resolves 200 None) 5 6
     (breaker_run (Some \<lparr>failureThreshold = 1, recoveryMs = 10\<rparr>) [Begin 0, Failed 1])) = Inl (CircuitOpen ''/p'')"
proof -
  let ?pol = "\<lparr>failureThreshold = 1, recoveryMs = 10\<rparr> :: breaker_policy"
  let ?b = "breaker_run (Some ?pol) [Begin 0, Failed 1]"
  have b: "probe_flag_ok ?b" "b_state ?b \<noteq> HalfOpen" "\<not> a_admits ?pol 5 (abs_breaker ?b)" by code_simp+
  obtain r m b' where "request (Some ?pol) \<lparr>attempts = 1, backoffMs = (0 :: rat), jitter = 0\<rparr> (\<lambda>_. 0)
     (Some ''http://h/'') ''/p'' (\<lambda>_. Resolves 200 None) 5 6 ?b = (r, m, b')" by (metis prod_cases3)
  from request_drives_breaker[OF b(1,2) this] b(3) this show ?thesis by simp
qed

end
