(* ===== verification/Outbox.thy ===== *)
theory Outbox
  imports Prelude
begin

text \<open>
  \<open>packages/solana-webhooks/src/outbox/\<close>: the storage interface of \<open>store.ts\<close> as a locale, and
  the SQL of \<open>sqlite.ts\<close> (the same statements as \<open>postgres.ts\<close>) as its provider. A table is the
  list of its rows in insertion order. SQL leaves open in which order rows with equal
  \<open>received_at\<close> come out of \<open>ORDER BY received_at\<close>: the ordering is a parameter of the model.
\<close>

section \<open>Rows\<close>

record webhook_event =
  we_id :: string
  we_source :: string
  receivedAt :: int
  rawPayload :: bytes
  metadata :: "(string \<times> string) list option"

record outbox_row = webhook_event +
  processedAt :: "int option"
  row_error :: "string option"
  row_attempts :: nat

record pending_options =
  po_limit :: nat
  po_maxAttempts :: "nat option"     \<comment> \<open>\<open>None\<close> for absent or \<open>Infinity\<close>\<close>
  po_retryDelayMs :: "int option"

type_synonym row_key = "string \<times> string"

definition row_key :: "'a webhook_event_scheme \<Rightarrow> row_key" where
  "row_key r = (we_source r, we_id r)"

definition fresh_row :: "webhook_event \<Rightarrow> outbox_row" where
  "fresh_row e = \<lparr>we_id = we_id e, we_source = we_source e, receivedAt = receivedAt e, rawPayload = rawPayload e,
     metadata = metadata e, processedAt = None, row_error = None, row_attempts = 0\<rparr>"

datatype outbox_error = NotInitialized | NoRow string string

section \<open>The SQL statements\<close>

type_synonym row_table = "outbox_row list"

text \<open>\<open>INSERT ... ON CONFLICT (source, id) DO NOTHING\<close>; the result is \<open>changes === 1\<close>.\<close>

definition outbox_insert :: "webhook_event \<Rightarrow> row_table \<Rightarrow> bool \<times> row_table" where
  "outbox_insert e t = (if list_ex (\<lambda>r. row_key r = row_key e) t then (False, t) else (True, t @ [fresh_row e]))"

text \<open>The two \<open>SELECT\<close>s: without a cap on the attempts there is no retry delay either.\<close>

definition select_pending :: "int \<Rightarrow> pending_options \<Rightarrow> outbox_row \<Rightarrow> bool" where
  "select_pending now po r =
     (case po_maxAttempts po of
        None \<Rightarrow> processedAt r = None
      | Some m \<Rightarrow>
          (let cutoff = now - (case po_retryDelayMs po of Some d \<Rightarrow> d | None \<Rightarrow> 0)
           in processedAt r = None \<and> row_attempts r < m \<and> (row_attempts r = 0 \<or> receivedAt r \<le> cutoff)))"

definition outbox_pending :: "(row_table \<Rightarrow> row_table) \<Rightarrow> int \<Rightarrow> pending_options \<Rightarrow> row_table \<Rightarrow> outbox_row list" where
  "outbox_pending order now po t = take (po_limit po) (order (filter (select_pending now po) t))"

definition update_rows :: "string \<Rightarrow> string \<Rightarrow> (outbox_row \<Rightarrow> outbox_row) \<Rightarrow> row_table \<Rightarrow> outbox_error + row_table" where
  "update_rows src i f t =
     (if list_ex (\<lambda>r. row_key r = (src, i)) t
      then Inr (map (\<lambda>r. if row_key r = (src, i) then f r else r) t)
      else Inl (NoRow src i))"

definition outbox_markProcessed :: "string \<Rightarrow> string \<Rightarrow> int \<Rightarrow> row_table \<Rightarrow> outbox_error + row_table" where
  "outbox_markProcessed src i at_time = update_rows src i (\<lambda>r. r\<lparr>processedAt := Some at_time, row_error := None\<rparr>)"

definition outbox_markFailed :: "string \<Rightarrow> string \<Rightarrow> string \<Rightarrow> nat \<Rightarrow> row_table \<Rightarrow> outbox_error + row_table" where
  "outbox_markFailed src i err n = update_rows src i (\<lambda>r. r\<lparr>row_error := Some err, row_attempts := n\<rparr>)"

definition countPending :: "row_table \<Rightarrow> nat" where
  "countPending t = length (filter (\<lambda>r. processedAt r = None) t)"

text \<open>What \<open>ORDER BY received_at ASC\<close> promises.\<close>

definition order_ok :: "(row_table \<Rightarrow> row_table) \<Rightarrow> bool" where
  "order_ok order \<longleftrightarrow> (\<forall>t. mset (order t) = mset t \<and> sorted (map receivedAt (order t)))"

lemma order_ok_sort_key: "order_ok (sort_key receivedAt)"
  by (simp add: order_ok_def)

section \<open>The interface\<close>

text \<open>The operations of \<open>Outbox\<close> that the receiver and the drainer call.\<close>

record 's outbox_ops =
  ob_insert :: "webhook_event \<Rightarrow> 's \<Rightarrow> bool \<times> 's"
  ob_pending :: "int \<Rightarrow> pending_options \<Rightarrow> 's \<Rightarrow> outbox_row list"
  ob_markProcessed :: "string \<Rightarrow> string \<Rightarrow> int \<Rightarrow> 's \<Rightarrow> outbox_error + 's"
  ob_markFailed :: "string \<Rightarrow> string \<Rightarrow> string \<Rightarrow> nat \<Rightarrow> 's \<Rightarrow> outbox_error + 's"

text \<open>
  Their contract, in terms of the row stored for a key: an insert of a new key stores a fresh row
  and an insert of a known key changes nothing; \<open>pending\<close> returns stored, eligible rows, each once,
  the oldest first, and leaves an eligible row out only for older ones when it hits the limit; the
  two marks change exactly the named row and fail when there is none.
\<close>

locale outbox =
  fixes ops :: "'s outbox_ops"
    and row_of :: "'s \<Rightarrow> row_key \<Rightarrow> outbox_row option"
    and ok :: "'s \<Rightarrow> bool"
  assumes insert_fresh: "ok s \<Longrightarrow> ob_insert ops e s =
        (row_of s (row_key e) = None, snd (ob_insert ops e s))"
    and insert_ok: "ok s \<Longrightarrow> ok (snd (ob_insert ops e s))"
    and insert_row: "ok s \<Longrightarrow> row_of (snd (ob_insert ops e s)) =
        (if row_of s (row_key e) = None then (row_of s)(row_key e \<mapsto> fresh_row e) else row_of s)"
    and pending_stored: "ok s \<Longrightarrow> r \<in> set (ob_pending ops now po s) \<Longrightarrow> row_of s (row_key r) = Some r \<and> select_pending now po r"
    and pending_distinct: "ok s \<Longrightarrow> distinct (map row_key (ob_pending ops now po s))"
    and pending_sorted: "ok s \<Longrightarrow> sorted (map receivedAt (ob_pending ops now po s))"
    and pending_complete: "ok s \<Longrightarrow> row_of s k = Some r \<Longrightarrow> select_pending now po r \<Longrightarrow>
        r \<in> set (ob_pending ops now po s) \<or>
        length (ob_pending ops now po s) = po_limit po \<and> (\<forall>r' \<in> set (ob_pending ops now po s). receivedAt r' \<le> receivedAt r)"
    and markProcessed_row: "ok s \<Longrightarrow> row_of s (src, i) = Some r \<Longrightarrow>
        \<exists>s'. ob_markProcessed ops src i t s = Inr s' \<and> ok s' \<and> row_of s' = (row_of s)((src, i) \<mapsto> r\<lparr>processedAt := Some t, row_error := None\<rparr>)"
    and markProcessed_none: "ok s \<Longrightarrow> row_of s (src, i) = None \<Longrightarrow> ob_markProcessed ops src i t s = Inl (NoRow src i)"
    and markFailed_row: "ok s \<Longrightarrow> row_of s (src, i) = Some r \<Longrightarrow>
        \<exists>s'. ob_markFailed ops src i err n s = Inr s' \<and> ok s' \<and> row_of s' = (row_of s)((src, i) \<mapsto> r\<lparr>row_error := Some err, row_attempts := n\<rparr>)"
    and markFailed_none: "ok s \<Longrightarrow> row_of s (src, i) = None \<Longrightarrow> ob_markFailed ops src i err n s = Inl (NoRow src i)"
    and keyed: "ok s \<Longrightarrow> row_of s k = Some r \<Longrightarrow> row_key r = k"

section \<open>The tables provide it\<close>

definition table_ops :: "(row_table \<Rightarrow> row_table) \<Rightarrow> row_table outbox_ops" where
  "table_ops order = \<lparr>ob_insert = outbox_insert, ob_pending = outbox_pending order,
     ob_markProcessed = outbox_markProcessed, ob_markFailed = outbox_markFailed\<rparr>"

definition stored :: "row_table \<Rightarrow> row_key \<Rightarrow> outbox_row option" where
  "stored t k = List.find (\<lambda>r. row_key r = k) t"

definition keys_distinct :: "row_table \<Rightarrow> bool" where
  "keys_distinct t \<longleftrightarrow> distinct (map row_key t)"

lemma row_key_simps [simp]:
  "row_key (r\<lparr>processedAt := p\<rparr>) = row_key r" "row_key (r\<lparr>row_error := er\<rparr>) = row_key r"
  "row_key (r\<lparr>row_attempts := n\<rparr>) = row_key r" "row_key (fresh_row e) = row_key e"
  by (simp_all add: row_key_def fresh_row_def)

lemma stored_None: "stored t k = None \<longleftrightarrow> k \<notin> row_key ` set t"
  by (auto simp: stored_def find_None_iff)

lemma stored_Some: "keys_distinct t \<Longrightarrow> stored t k = Some r \<longleftrightarrow> r \<in> set t \<and> row_key r = k"
  unfolding stored_def keys_distinct_def by (induction t) auto

lemma stored_append: "stored (t @ u) k = (case stored t k of Some r \<Rightarrow> Some r | None \<Rightarrow> stored u k)"
  unfolding stored_def by (induction t) auto

lemma stored_snoc:
  "stored (t @ [r]) k = (if stored t k = None \<and> row_key r = k then Some r else stored t k)"
  by (cases "stored t k") (auto simp: stored_append, auto simp: stored_def)

lemma stored_update:
  assumes "\<And>r. row_key (f r) = row_key r"
  shows "stored (map (\<lambda>r. if row_key r = k then f r else r) t) = (stored t)(k := map_option f (stored t k))"
  unfolding stored_def by (rule ext, induction t) (auto simp: assms)

lemma update_rows_stored:
  assumes "\<And>r. row_key (f r) = row_key r" and "keys_distinct t"
  shows "stored t (src, i) = Some r \<Longrightarrow>
      \<exists>t'. update_rows src i f t = Inr t' \<and> keys_distinct t' \<and> stored t' = (stored t)((src, i) \<mapsto> f r)"
    and "stored t (src, i) = None \<Longrightarrow> update_rows src i f t = Inl (NoRow src i)"
proof -
  have keys: "map row_key (map (\<lambda>r. if row_key r = (src, i) then f r else r) t) = map row_key t"
    by (simp add: assms(1))
  have ex: "list_ex (\<lambda>r. row_key r = (src, i)) t \<longleftrightarrow> stored t (src, i) \<noteq> None"
    unfolding stored_None list_ex_iff by force
  show "stored t (src, i) = Some r \<Longrightarrow>
      \<exists>t'. update_rows src i f t = Inr t' \<and> keys_distinct t' \<and> stored t' = (stored t)((src, i) \<mapsto> f r)"
    using ex assms(2) keys stored_update[of f "(src, i)" t, OF assms(1)]
    by (simp add: update_rows_def keys_distinct_def del: map_map)
  show "stored t (src, i) = None \<Longrightarrow> update_rows src i f t = Inl (NoRow src i)"
    using ex by (simp add: update_rows_def)
qed

lemma pending_complete_table:
  assumes "order_ok order" and "r \<in> set t" and "select_pending now po r"
  shows "r \<in> set (outbox_pending order now po t) \<or>
     length (outbox_pending order now po t) = po_limit po \<and> (\<forall>r' \<in> set (outbox_pending order now po t). receivedAt r' \<le> receivedAt r)"
proof -
  let ?s = "order (filter (select_pending now po) t)" and ?n = "po_limit po"
  have set: "set ?s = set (filter (select_pending now po) t)" and sorted: "sorted (map receivedAt ?s)"
    using assms(1) unfolding order_ok_def by (metis mset_eq_setD)+
  then have "r \<in> set (take ?n ?s) \<or> r \<in> set (drop ?n ?s)"
  proof -
    have "r \<in> set ?s" using set assms(2,3) by simp
    then have "r \<in> set (take ?n ?s @ drop ?n ?s)" by simp
    then show ?thesis unfolding set_append by blast
  qed
  moreover have "length (take ?n ?s) = ?n \<and> (\<forall>r' \<in> set (take ?n ?s). receivedAt r' \<le> receivedAt r)" if "r \<in> set (drop ?n ?s)"
  proof
    show "length (take ?n ?s) = ?n" using that by (cases "?n \<le> length ?s") auto
    have "sorted (map receivedAt (take ?n ?s) @ map receivedAt (drop ?n ?s))"
      using sorted by (simp flip: map_append)
    then show "\<forall>r' \<in> set (take ?n ?s). receivedAt r' \<le> receivedAt r"
      using that by (auto simp: sorted_append)
  qed
  ultimately show ?thesis unfolding outbox_pending_def by blast
qed

lemma table_outbox:
  assumes "order_ok order"
  shows "outbox (table_ops order) stored keys_distinct"
proof
  fix t :: row_table and e :: webhook_event and r :: outbox_row and now po k src i at_time err n
  assume d: "keys_distinct t"
  have ex: "list_ex (\<lambda>r. row_key r = row_key e) t \<longleftrightarrow> stored t (row_key e) \<noteq> None"
    unfolding stored_None list_ex_iff by force
  show "ob_insert (table_ops order) e t = (stored t (row_key e) = None, snd (ob_insert (table_ops order) e t))"
    using ex by (simp add: table_ops_def outbox_insert_def)
  show "keys_distinct (snd (ob_insert (table_ops order) e t))"
    using ex d stored_None[of t "row_key e"] by (auto simp: table_ops_def outbox_insert_def keys_distinct_def)
  show "stored (snd (ob_insert (table_ops order) e t)) =
     (if stored t (row_key e) = None then (stored t)(row_key e \<mapsto> fresh_row e) else stored t)"
    using ex by (auto simp: table_ops_def outbox_insert_def stored_snoc intro!: ext)
  have set: "set (order (filter (select_pending now po) t)) = set (filter (select_pending now po) t)"
    and mset: "mset (order (filter (select_pending now po) t)) = mset (filter (select_pending now po) t)"
    and sorted: "sorted (map receivedAt (order (filter (select_pending now po) t)))"
    using assms unfolding order_ok_def by (metis mset_eq_setD)+
  show "stored t (row_key r) = Some r \<and> select_pending now po r" if "r \<in> set (ob_pending (table_ops order) now po t)"
    using that set stored_Some[OF d] by (auto simp: table_ops_def outbox_pending_def dest!: in_set_takeD)
  have "distinct (map row_key (order (filter (select_pending now po) t)))"
    using d mset unfolding keys_distinct_def
    by (metis distinct_map_filter mset_eq_imp_distinct_iff mset_map)
  then show "distinct (map row_key (ob_pending (table_ops order) now po t))"
    by (simp add: table_ops_def outbox_pending_def flip: take_map)
  show "sorted (map receivedAt (ob_pending (table_ops order) now po t))"
    using sorted by (simp add: table_ops_def outbox_pending_def sorted_wrt_take flip: take_map)
  show "r \<in> set (ob_pending (table_ops order) now po t) \<or>
     length (ob_pending (table_ops order) now po t) = po_limit po \<and>
     (\<forall>r' \<in> set (ob_pending (table_ops order) now po t). receivedAt r' \<le> receivedAt r)"
    if "stored t k = Some r" "select_pending now po r"
    using pending_complete_table[OF assms, of r t now po] that stored_Some[OF d] by (simp add: table_ops_def)
  show "\<exists>t'. ob_markProcessed (table_ops order) src i at_time t = Inr t' \<and> keys_distinct t' \<and>
      stored t' = (stored t)((src, i) \<mapsto> r\<lparr>processedAt := Some at_time, row_error := None\<rparr>)" if "stored t (src, i) = Some r"
    using update_rows_stored(1)[OF _ d that, of "\<lambda>r. r\<lparr>processedAt := Some at_time, row_error := None\<rparr>"]
    by (simp add: table_ops_def outbox_markProcessed_def)
  show "ob_markProcessed (table_ops order) src i at_time t = Inl (NoRow src i)" if "stored t (src, i) = None"
    using update_rows_stored(2)[OF _ d that, of "\<lambda>r. r\<lparr>processedAt := Some at_time, row_error := None\<rparr>"]
    by (simp add: table_ops_def outbox_markProcessed_def)
  show "\<exists>t'. ob_markFailed (table_ops order) src i err n t = Inr t' \<and> keys_distinct t' \<and>
      stored t' = (stored t)((src, i) \<mapsto> r\<lparr>row_error := Some err, row_attempts := n\<rparr>)" if "stored t (src, i) = Some r"
    using update_rows_stored(1)[OF _ d that, of "\<lambda>r. r\<lparr>row_error := Some err, row_attempts := n\<rparr>"]
    by (simp add: table_ops_def outbox_markFailed_def)
  show "ob_markFailed (table_ops order) src i err n t = Inl (NoRow src i)" if "stored t (src, i) = None"
    using update_rows_stored(2)[OF _ d that, of "\<lambda>r. r\<lparr>row_error := Some err, row_attempts := n\<rparr>"]
    by (simp add: table_ops_def outbox_markFailed_def)
  show "row_key r = k" if "stored t k = Some r"
    using that stored_Some[OF d] by simp
qed

interpretation tables: outbox "table_ops (sort_key receivedAt)" stored keys_distinct
  by (rule table_outbox[OF order_ok_sort_key])

end
