(* ===== verification/Drainer.thy ===== *)
theory Drainer
  imports Outbox
begin

text \<open>
  \<open>packages/solana-webhooks/src/outbox/drainer.ts\<close>: the loop that reads pending rows, normalizes
  each with the driver of its source and emits the events. The drivers, the decoding of a payload,
  the application's \<open>emit\<close> and the clock are parameters. The loop is a transition function on
  labelled steps, between which deliveries, \<open>start\<close> and \<open>stop\<close> may come; the lemmas about it are
  proved for any outbox that satisfies the contract.
\<close>

declare split_paired_All [simp del] split_paired_Ex [simp del]

section \<open>One row\<close>

record 'p raw_webhook =
  rw_id :: string
  rw_source :: string
  rw_payload :: 'p

record emit_context =
  ec_source :: string
  ec_rowId :: string
  ec_receivedAt :: int

text \<open>\<open>d_emit\<close> and \<open>d_clock\<close> are asked with the number of questions put so far.\<close>

record ('p, 'e) drainer_env =
  d_drivers :: "string \<Rightarrow> ('p raw_webhook \<Rightarrow> string + 'e list) option"
  d_parse :: "bytes \<Rightarrow> string + 'p"
  d_emit :: "nat \<Rightarrow> 'e \<Rightarrow> emit_context \<Rightarrow> string option"   \<comment> \<open>\<open>Some\<close> the error it throws\<close>
  d_clock :: "nat \<Rightarrow> int"
  d_pollIntervalMs :: int
  d_batchSize :: nat
  d_maxAttempts :: nat
  d_retryDelayMs :: int

datatype drain_metric =
    NoDriver string | ParseError string | NormalizeError string | EmitError string
  | RowProcessed string | EventsPerRow nat string | CycleError

record ('e, 's) drain_state =
  dr_table :: 's
  dr_emitted :: "('e \<times> emit_context) list"   \<comment> \<open>the calls of \<open>emit\<close> that returned\<close>
  dr_ticks :: nat
  dr_metrics :: "drain_metric list"

definition tick :: "('e, 's) drain_state \<Rightarrow> ('e, 's) drain_state" where
  "tick st = st\<lparr>dr_ticks := dr_ticks st + 1\<rparr>"

definition mark_failed :: "'s outbox_ops \<Rightarrow> outbox_row \<Rightarrow> string \<Rightarrow> nat \<Rightarrow> drain_metric \<Rightarrow> ('e, 's) drain_state \<Rightarrow>
    (outbox_error + bool) \<times> ('e, 's) drain_state" where
  "mark_failed ops row err n m st =
     (case ob_markFailed ops (we_source row) (we_id row) err n (dr_table st) of
        Inl e \<Rightarrow> (Inl e, st)
      | Inr t \<Rightarrow> (Inr False, st\<lparr>dr_table := t, dr_metrics := dr_metrics st @ [m]\<rparr>))"

text \<open>\<open>for (const event of events) await emit(event, ctx)\<close>, up to the first that throws.\<close>

fun emit_all :: "('p, 'e) drainer_env \<Rightarrow> emit_context \<Rightarrow> 'e list \<Rightarrow> ('e, 's) drain_state \<Rightarrow> string option \<times> ('e, 's) drain_state" where
  "emit_all env ctx [] st = (None, st)"
| "emit_all env ctx (e # es) st =
     (case d_emit env (dr_ticks st) e ctx of
        Some err \<Rightarrow> (Some err, tick st)
      | None \<Rightarrow> emit_all env ctx es ((tick st)\<lparr>dr_emitted := dr_emitted st @ [(e, ctx)]\<rparr>))"

definition emit_context_of :: "outbox_row \<Rightarrow> emit_context" where
  "emit_context_of row = \<lparr>ec_source = we_source row, ec_rowId = we_id row, ec_receivedAt = receivedAt row\<rparr>"

definition processOne :: "('p, 'e) drainer_env \<Rightarrow> 's outbox_ops \<Rightarrow> outbox_row \<Rightarrow> ('e, 's) drain_state \<Rightarrow>
    (outbox_error + bool) \<times> ('e, 's) drain_state" where
  "processOne env ops row st =
     (case d_drivers env (we_source row) of
        None \<Rightarrow> mark_failed ops row ''no driver registered'' (d_maxAttempts env) (NoDriver (we_source row)) st
      | Some normalizeEvent \<Rightarrow>
     (case d_parse env (rawPayload row) of
        Inl e \<Rightarrow> mark_failed ops row (''payload parse: '' @ e) (d_maxAttempts env) (ParseError (we_source row)) st
      | Inr payload \<Rightarrow>
     (case normalizeEvent \<lparr>rw_id = we_id row, rw_source = we_source row, rw_payload = payload\<rparr> of
        Inl e \<Rightarrow> mark_failed ops row (''normalize: '' @ e) (row_attempts row + 1) (NormalizeError (we_source row)) st
      | Inr events \<Rightarrow>
     (case emit_all env (emit_context_of row) events st of
        (Some e, st) \<Rightarrow> mark_failed ops row (''emit: '' @ e) (row_attempts row + 1) (EmitError (we_source row)) st
      | (None, st) \<Rightarrow>
     (case ob_markProcessed ops (we_source row) (we_id row) (d_clock env (dr_ticks st)) (dr_table st) of
        Inl e \<Rightarrow> (Inl e, tick st)
      | Inr t \<Rightarrow> (Inr True, (tick st)\<lparr>dr_table := t,
          dr_metrics := dr_metrics st @ [RowProcessed (we_source row), EventsPerRow (length events) (we_source row)]\<rparr>))))))"

section \<open>The loop\<close>

text \<open>A cycle in flight: the rows it still has, and its counts.\<close>

record drain_cycle =
  cy_rows :: "outbox_row list"
  cy_processed :: nat
  cy_failed :: nat

record ('e, 's) drainer =
  lp_running :: bool
  lp_stopRequested :: bool
  lp_waiter :: bool
  lp_timers :: "int list"        \<comment> \<open>the delays of the timers set and not yet fired\<close>
  lp_cycles :: "drain_cycle list"
  lp_state :: "('e, 's) drain_state"

definition new_drainer :: "'s \<Rightarrow> ('e, 's) drainer" where
  "new_drainer table = \<lparr>lp_running = False, lp_stopRequested = False, lp_waiter = False, lp_timers = [], lp_cycles = [],
     lp_state = \<lparr>dr_table = table, dr_emitted = [], dr_ticks = 0, dr_metrics = []\<rparr>\<rparr>"

definition scheduleNext :: "int \<Rightarrow> ('e, 's) drainer \<Rightarrow> ('e, 's) drainer" where
  "scheduleNext ms d = (if lp_stopRequested d then d else d\<lparr>lp_timers := lp_timers d @ [ms]\<rparr>)"

definition drainer_start :: "('e, 's) drainer \<Rightarrow> ('e, 's) drainer" where
  "drainer_start d = (if lp_running d then d else scheduleNext 0 (d\<lparr>lp_running := True, lp_stopRequested := False\<rparr>))"

text \<open>\<open>stop\<close> up to its \<open>await\<close>; what follows the \<open>await\<close> is the step \<open>Stopped\<close>.\<close>

definition drainer_stop :: "('e, 's) drainer \<Rightarrow> ('e, 's) drainer" where
  "drainer_stop d = (if lp_running d then d\<lparr>lp_stopRequested := True\<rparr> else d)"

definition fetch_rows :: "('p, 'e) drainer_env \<Rightarrow> 's outbox_ops \<Rightarrow> ('e, 's) drain_state \<Rightarrow> outbox_row list" where
  "fetch_rows env ops st = ob_pending ops (d_clock env (dr_ticks st))
     \<lparr>po_limit = d_batchSize env, po_maxAttempts = Some (d_maxAttempts env), po_retryDelayMs = Some (d_retryDelayMs env)\<rparr> (dr_table st)"

definition runCycle :: "('p, 'e) drainer_env \<Rightarrow> 's outbox_ops \<Rightarrow> ('e, 's) drainer \<Rightarrow> ('e, 's) drainer" where
  "runCycle env ops d =
     (if lp_stopRequested d then d
      else d\<lparr>lp_waiter := True,
             lp_cycles := lp_cycles d @ [\<lparr>cy_rows = fetch_rows env ops (lp_state d), cy_processed = 0, cy_failed = 0\<rparr>],
             lp_state := tick (lp_state d)\<rparr>)"

definition cycle_row :: "('p, 'e) drainer_env \<Rightarrow> 's outbox_ops \<Rightarrow> nat \<Rightarrow> drain_cycle \<Rightarrow> outbox_row \<Rightarrow> outbox_row list \<Rightarrow>
    ('e, 's) drainer \<Rightarrow> ('e, 's) drainer" where
  "cycle_row env ops i c row rows d =
     (if lp_stopRequested d then d\<lparr>lp_cycles := (lp_cycles d)[i := c\<lparr>cy_rows := []\<rparr>]\<rparr>
      else (case processOne env ops row (lp_state d) of
              (Inr True, st) \<Rightarrow> d\<lparr>lp_cycles := (lp_cycles d)[i := c\<lparr>cy_rows := rows, cy_processed := cy_processed c + 1\<rparr>], lp_state := st\<rparr>
            | (Inr False, st) \<Rightarrow> d\<lparr>lp_cycles := (lp_cycles d)[i := c\<lparr>cy_rows := rows, cy_failed := cy_failed c + 1\<rparr>], lp_state := st\<rparr>
            | (Inl _, st) \<Rightarrow> d\<lparr>lp_cycles := (lp_cycles d)[i := \<lparr>cy_rows = [], cy_processed = 0, cy_failed = 0\<rparr>],
                lp_state := st\<lparr>dr_metrics := dr_metrics st @ [CycleError]\<rparr>\<rparr>))"

definition end_cycle :: "('p, 'e) drainer_env \<Rightarrow> nat \<Rightarrow> drain_cycle \<Rightarrow> ('e, 's) drainer \<Rightarrow> ('e, 's) drainer" where
  "end_cycle env i c d =
     scheduleNext (if cy_processed c > 0 \<or> cy_failed c > 0 then 0 else d_pollIntervalMs env)
       (d\<lparr>lp_waiter := False, lp_cycles := take i (lp_cycles d) @ drop (Suc i) (lp_cycles d)\<rparr>)"

datatype drain_label =
    Deliver webhook_event | Start | Stop | Stopped
  | Fire nat | Row nat | Finish nat   \<comment> \<open>of the timer, or of the cycle, with this index\<close>

fun drain_step :: "('p, 'e) drainer_env \<Rightarrow> 's outbox_ops \<Rightarrow> drain_label \<Rightarrow> ('e, 's) drainer \<Rightarrow> ('e, 's) drainer option" where
  "drain_step env ops (Deliver e) d =
     Some (d\<lparr>lp_state := (lp_state d)\<lparr>dr_table := snd (ob_insert ops e (dr_table (lp_state d)))\<rparr>\<rparr>)"
| "drain_step env ops Start d = Some (drainer_start d)"
| "drain_step env ops Stop d = Some (drainer_stop d)"
| "drain_step env ops Stopped d =
     (if lp_running d \<and> lp_stopRequested d \<and> \<not> lp_waiter d then Some (d\<lparr>lp_running := False\<rparr>) else None)"
| "drain_step env ops (Fire i) d =
     (if i < length (lp_timers d)
      then Some (runCycle env ops (d\<lparr>lp_timers := take i (lp_timers d) @ drop (Suc i) (lp_timers d)\<rparr>)) else None)"
| "drain_step env ops (Row i) d =
     (case jat (lp_cycles d) i of
        Some c \<Rightarrow> (case cy_rows c of row # rows \<Rightarrow> Some (cycle_row env ops i c row rows d) | [] \<Rightarrow> None)
      | None \<Rightarrow> None)"
| "drain_step env ops (Finish i) d =
     (case jat (lp_cycles d) i of
        Some c \<Rightarrow> (if cy_rows c = [] then Some (end_cycle env i c d) else None)
      | None \<Rightarrow> None)"

fun drain_steps :: "('p, 'e) drainer_env \<Rightarrow> 's outbox_ops \<Rightarrow> drain_label list \<Rightarrow> ('e, 's) drainer \<Rightarrow> ('e, 's) drainer option" where
  "drain_steps env ops [] d = Some d"
| "drain_steps env ops (l # ls) d = Option.bind (drain_step env ops l d) (drain_steps env ops ls)"

text \<open>
  Runs in which \<open>start\<close> is called only when nothing of an earlier loop is left: no timer set and no
  cycle in flight.
\<close>

definition clean_start :: "drain_label \<Rightarrow> ('e, 's) drainer \<Rightarrow> bool" where
  "clean_start l d \<longleftrightarrow> (l = Start \<longrightarrow> lp_running d \<or> lp_timers d = [] \<and> lp_cycles d = [])"

inductive drain_reach :: "('p, 'e) drainer_env \<Rightarrow> 's outbox_ops \<Rightarrow> 's \<Rightarrow> ('e, 's) drainer \<Rightarrow> bool"
  for env ops table where
  reach_new: "drain_reach env ops table (new_drainer table)"
| reach_step: "drain_reach env ops table d \<Longrightarrow> clean_start l d \<Longrightarrow> drain_step env ops l d = Some d' \<Longrightarrow> drain_reach env ops table d'"

section \<open>What a row's emissions look like\<close>

definition emitted_for :: "row_key \<Rightarrow> ('e, 's) drain_state \<Rightarrow> 'e list" where
  "emitted_for k st = map fst (filter (\<lambda>(e, ctx). (ec_source ctx, ec_rowId ctx) = k) (dr_emitted st))"

text \<open>The events of a row, when there is a driver and neither parsing nor normalizing throws.\<close>

definition events_of :: "('p, 'e) drainer_env \<Rightarrow> 'a webhook_event_scheme \<Rightarrow> 'e list option" where
  "events_of env r =
     (case d_drivers env (we_source r) of
        None \<Rightarrow> None
      | Some normalizeEvent \<Rightarrow>
     (case d_parse env (rawPayload r) of
        Inl _ \<Rightarrow> None
      | Inr payload \<Rightarrow>
     (case normalizeEvent \<lparr>rw_id = we_id r, rw_source = we_source r, rw_payload = payload\<rparr> of
        Inl _ \<Rightarrow> None
      | Inr events \<Rightarrow> Some events)))"

text \<open>
  The history of a row: each of its failed attempts emitted a proper prefix of its events, and
  once it is processed one attempt emitted them all; nothing else was emitted for it.
\<close>

definition row_history :: "('p, 'e) drainer_env \<Rightarrow> outbox_row \<Rightarrow> 'e list \<Rightarrow> bool" where
  "row_history env r emitted \<longleftrightarrow>
     row_attempts r \<le> d_maxAttempts env \<and> (row_attempts r > 0 \<and> processedAt r = None \<longrightarrow> row_error r \<noteq> None) \<and>
     (case events_of env r of
        None \<Rightarrow> emitted = [] \<and> processedAt r = None
      | Some evs \<Rightarrow> (\<exists>ns. length ns = row_attempts r \<and> (\<forall>n \<in> set ns. n < length evs) \<and>
          emitted = concat (map (\<lambda>n. take n evs) ns) @ (if processedAt r \<noteq> None then evs else [])))"

definition key_history :: "('p, 'e) drainer_env \<Rightarrow> outbox_row option \<Rightarrow> 'e list \<Rightarrow> bool" where
  "key_history env r emitted \<longleftrightarrow> (case r of None \<Rightarrow> emitted = [] | Some r \<Rightarrow> row_history env r emitted)"

lemma key_history_simps [simp]:
  "key_history env None emitted \<longleftrightarrow> emitted = []" "key_history env (Some r) emitted \<longleftrightarrow> row_history env r emitted"
  by (simp_all add: key_history_def)

text \<open>What \<open>emit_all\<close> and \<open>processOne\<close> do to the log.\<close>

lemma tick_simps [simp]:
  "dr_table (tick st) = dr_table st" "dr_emitted (tick st) = dr_emitted st" "dr_metrics (tick st) = dr_metrics st"
  by (simp_all add: tick_def)

lemma emit_all_log:
  "emit_all env ctx evs st = (res, st') \<Longrightarrow>
   dr_table st' = dr_table st \<and>
   (\<exists>n. dr_emitted st' = dr_emitted st @ map (\<lambda>e. (e, ctx)) (take n evs) \<and> (if res = None then n = length evs else n < length evs))"
proof (induction evs arbitrary: st)
  case Nil
  then show ?case by auto
next
  case (Cons e es)
  show ?case
  proof (cases "d_emit env (dr_ticks st) e ctx")
    case (Some err)
    then show ?thesis using Cons.prems by (auto intro!: exI[of _ 0])
  next
    case None
    let ?st = "(tick st)\<lparr>dr_emitted := dr_emitted st @ [(e, ctx)]\<rparr>"
    have "emit_all env ctx es ?st = (res, st')" using Cons.prems None by simp
    from Cons.IH[OF this] obtain n where "dr_table st' = dr_table st"
      "dr_emitted st' = dr_emitted st @ (e, ctx) # map (\<lambda>e. (e, ctx)) (take n es)" "if res = None then n = length es else n < length es"
      by auto
    then show ?thesis by (auto intro!: exI[of _ "Suc n"] split: if_splits)
  qed
qed

lemma emitted_for_append:
  "dr_emitted st' = dr_emitted st @ map (\<lambda>e. (e, emit_context_of r)) es \<Longrightarrow>
   emitted_for k st' = emitted_for k st @ (if row_key r = k then es else [])"
  by (auto simp: emitted_for_def emit_context_of_def row_key_def o_def)

lemma events_of_fields:
  assumes "we_source a = we_source b" and "we_id a = we_id b" and "rawPayload a = rawPayload b"
  shows "events_of env a = events_of env b"
  unfolding events_of_def assms ..

lemma events_of_simps [simp]:
  "events_of env (r\<lparr>processedAt := p\<rparr>) = events_of env r" "events_of env (r\<lparr>row_error := er\<rparr>) = events_of env r"
  "events_of env (r\<lparr>row_attempts := n\<rparr>) = events_of env r" "events_of env (fresh_row e) = events_of env e"
  by (rule events_of_fields; simp add: fresh_row_def)+

lemma row_history_fresh: "row_history env (fresh_row e) []"
  by (auto simp: row_history_def fresh_row_def split: option.splits)

lemma row_history_failed:
  assumes "row_history env r emitted" and "processedAt r = None" and "row_attempts r < d_maxAttempts env"
  shows "events_of env r = None \<Longrightarrow> 0 < n \<Longrightarrow> n \<le> d_maxAttempts env \<Longrightarrow> row_history env (r\<lparr>row_error := Some e, row_attempts := n\<rparr>) emitted"
    and "events_of env r = Some evs \<Longrightarrow> n < length evs \<Longrightarrow>
      row_history env (r\<lparr>row_error := Some e, row_attempts := row_attempts r + 1\<rparr>) (emitted @ take n evs)"
proof -
  show "events_of env r = None \<Longrightarrow> 0 < n \<Longrightarrow> n \<le> d_maxAttempts env \<Longrightarrow> row_history env (r\<lparr>row_error := Some e, row_attempts := n\<rparr>) emitted"
    using assms by (simp add: row_history_def)
  assume evs: "events_of env r = Some evs" and n: "n < length evs"
  obtain ns where "length ns = row_attempts r" "\<forall>n \<in> set ns. n < length evs" "emitted = concat (map (\<lambda>n. take n evs) ns)"
    using assms(1,2) evs by (auto simp: row_history_def)
  then show "row_history env (r\<lparr>row_error := Some e, row_attempts := row_attempts r + 1\<rparr>) (emitted @ take n evs)"
    using assms(2,3) evs n by (auto simp: row_history_def intro!: exI[of _ "ns @ [n]"])
qed

lemma row_history_processed:
  assumes "row_history env r emitted" and "processedAt r = None" and "events_of env r = Some evs"
  shows "row_history env (r\<lparr>processedAt := Some t, row_error := None\<rparr>) (emitted @ evs)"
  using assms by (auto simp: row_history_def)

text \<open>What a step keeps of a stored row.\<close>

definition row_kept :: "outbox_row \<Rightarrow> outbox_row \<Rightarrow> bool" where
  "row_kept r r' \<longleftrightarrow> webhook_event.truncate r' = webhook_event.truncate r \<and> row_attempts r \<le> row_attempts r' \<and>
     (processedAt r \<noteq> None \<longrightarrow> r' = r)"

section \<open>The loop over any outbox\<close>

context outbox
begin

definition inv_rows :: "('p, 'e) drainer_env \<Rightarrow> ('e, 's) drain_state \<Rightarrow> bool" where
  "inv_rows env st \<longleftrightarrow> ok (dr_table st) \<and> (\<forall>k. key_history env (row_of (dr_table st) k) (emitted_for k st))"

lemma inv_rowsI: "ok (dr_table st) \<Longrightarrow> (\<And>k. key_history env (row_of (dr_table st) k) (emitted_for k st)) \<Longrightarrow> inv_rows env st"
  by (simp add: inv_rows_def)

lemma inv_rowsD: "inv_rows env st \<Longrightarrow> ok (dr_table st)" "inv_rows env st \<Longrightarrow> key_history env (row_of (dr_table st) k) (emitted_for k st)"
  by (auto simp: inv_rows_def)

lemma mark_failed_step:
  assumes "ok (dr_table st)" and "row_of (dr_table st) (row_key r) = Some r"
  shows "\<exists>t. mark_failed ops r err n m st = (Inr False, st\<lparr>dr_table := t, dr_metrics := dr_metrics st @ [m]\<rparr>) \<and> ok t \<and>
    row_of t = (row_of (dr_table st))(row_key r \<mapsto> r\<lparr>row_error := Some err, row_attempts := n\<rparr>)"
  using markFailed_row[OF assms(1), of "we_source r" "we_id r" r err n] assms(2)
  by (auto simp: mark_failed_def row_key_def)

text \<open>
  \<open>processOne\<close> on a current, pending row: it does not throw, rewrites that row only, and extends the
  row's history by one attempt.
\<close>

lemma processOne_step:
  assumes ok: "ok (dr_table st)" and row: "row_of (dr_table st) (row_key r) = Some r"
    and pending: "processedAt r = None" "row_attempts r < d_maxAttempts env"
    and hist: "row_history env r (emitted_for (row_key r) st)"
  shows "\<exists>b st' r'. processOne env ops r st = (Inr b, st') \<and> ok (dr_table st') \<and>
    row_of (dr_table st') = (row_of (dr_table st))(row_key r \<mapsto> r') \<and> row_key r' = row_key r \<and>
    row_history env r' (emitted_for (row_key r) st') \<and>
    (if b then processedAt r' \<noteq> None \<and> row_attempts r' = row_attempts r else processedAt r' = None \<and> row_attempts r < row_attempts r') \<and>
    webhook_event.truncate r' = webhook_event.truncate r \<and>
    (\<forall>k. k \<noteq> row_key r \<longrightarrow> emitted_for k st' = emitted_for k st)"
proof (cases "events_of env r")
  case None
  obtain err n m where p: "processOne env ops r st = mark_failed ops r err n m st" and n: "row_attempts r < n" "n \<le> d_maxAttempts env"
    using None pending(2)
    by (auto simp: processOne_def events_of_def split: option.splits sum.splits)
  obtain t where t: "mark_failed ops r err n m st = (Inr False, st\<lparr>dr_table := t, dr_metrics := dr_metrics st @ [m]\<rparr>)" "ok t"
    "row_of t = (row_of (dr_table st))(row_key r \<mapsto> r\<lparr>row_error := Some err, row_attempts := n\<rparr>)"
    using mark_failed_step[OF ok row] by blast
  have h: "row_history env (r\<lparr>row_error := Some err, row_attempts := n\<rparr>) (emitted_for (row_key r) st)"
    using row_history_failed(1)[OF hist pending None] n by simp
  show ?thesis
    using p t h n pending(1)
    by (intro exI[of _ False] exI[of _ "st\<lparr>dr_table := t, dr_metrics := dr_metrics st @ [m]\<rparr>"] exI[of _ "r\<lparr>row_error := Some err, row_attempts := n\<rparr>"])
      (simp add: emitted_for_def webhook_event.truncate_def)
next
  case (Some evs)
  obtain res st1 where e: "emit_all env (emit_context_of r) evs st = (res, st1)" by fastforce
  obtain n where n: "dr_table st1 = dr_table st" "dr_emitted st1 = dr_emitted st @ map (\<lambda>e. (e, emit_context_of r)) (take n evs)"
    "if res = None then n = length evs else n < length evs"
    using emit_all_log[OF e] by blast
  note em = emitted_for_append[OF n(2)]
  have ok1: "ok (dr_table st1)" and row1: "row_of (dr_table st1) (row_key r) = Some r" using ok row n(1) by simp_all
  show ?thesis
  proof (cases res)
    case None
    obtain t where t: "ob_markProcessed ops (we_source r) (we_id r) (d_clock env (dr_ticks st1)) (dr_table st1) = Inr t" "ok t"
      "row_of t = (row_of (dr_table st))(row_key r \<mapsto> r\<lparr>processedAt := Some (d_clock env (dr_ticks st1)), row_error := None\<rparr>)"
      using markProcessed_row[OF ok1, of "we_source r" "we_id r" r] row1 n(1) by (auto simp: row_key_def)
    define st' where "st' = (tick st1)\<lparr>dr_table := t,
        dr_metrics := dr_metrics st1 @ [RowProcessed (we_source r), EventsPerRow (length evs) (we_source r)]\<rparr>"
    have p: "processOne env ops r st = (Inr True, st')"
      using Some e None t(1) unfolding st'_def
      by (auto simp: processOne_def events_of_def split: option.splits sum.splits)
    have em': "emitted_for k st' = emitted_for k st1" for k by (simp add: st'_def emitted_for_def)
    have tab: "dr_table st' = t" by (simp add: st'_def)
    have h: "row_history env (r\<lparr>processedAt := Some (d_clock env (dr_ticks st1)), row_error := None\<rparr>) (emitted_for (row_key r) st1)"
      using row_history_processed[OF hist pending(1) Some] em[of "row_key r"] n(3) None by simp
    show ?thesis
      using p t(2,3) h em by (intro exI[of _ True] exI[of _ st']
          exI[of _ "r\<lparr>processedAt := Some (d_clock env (dr_ticks st1)), row_error := None\<rparr>"])
        (simp add: em' tab webhook_event.truncate_def)
  next
    case err: (Some err)
    obtain t where t: "mark_failed ops r (''emit: '' @ err) (row_attempts r + 1) (EmitError (we_source r)) st1 =
        (Inr False, st1\<lparr>dr_table := t, dr_metrics := dr_metrics st1 @ [EmitError (we_source r)]\<rparr>)" "ok t"
      "row_of t = (row_of (dr_table st))(row_key r \<mapsto> r\<lparr>row_error := Some (''emit: '' @ err), row_attempts := row_attempts r + 1\<rparr>)"
      using mark_failed_step[OF ok1 row1, of "''emit: '' @ err" "row_attempts r + 1" "EmitError (we_source r)"] n(1) by auto
    define st' where "st' = st1\<lparr>dr_table := t, dr_metrics := dr_metrics st1 @ [EmitError (we_source r)]\<rparr>"
    have p: "processOne env ops r st = (Inr False, st')"
      using Some e err t(1) unfolding st'_def
      by (auto simp: processOne_def events_of_def split: option.splits sum.splits)
    have em': "emitted_for k st' = emitted_for k st1" for k by (simp add: st'_def emitted_for_def)
    have tab: "dr_table st' = t" by (simp add: st'_def)
    have h: "row_history env (r\<lparr>row_error := Some (''emit: '' @ err), row_attempts := row_attempts r + 1\<rparr>) (emitted_for (row_key r) st1)"
      using row_history_failed(2)[OF hist pending Some, of n] em[of "row_key r"] n(3) err by simp
    show ?thesis
      using p t(2,3) h em pending(1) by (intro exI[of _ False] exI[of _ st']
          exI[of _ "r\<lparr>row_error := Some (''emit: '' @ err), row_attempts := row_attempts r + 1\<rparr>"])
        (simp add: em' tab webhook_event.truncate_def)
  qed
qed

definition batch_ok :: "('p, 'e) drainer_env \<Rightarrow> 's \<Rightarrow> outbox_row list \<Rightarrow> bool" where
  "batch_ok env t rows \<longleftrightarrow> distinct (map row_key rows) \<and>
     (\<forall>r \<in> set rows. row_of t (row_key r) = Some r \<and> processedAt r = None \<and> row_attempts r < d_maxAttempts env)"

definition inv_loop :: "('p, 'e) drainer_env \<Rightarrow> ('e, 's) drainer \<Rightarrow> bool" where
  "inv_loop env d \<longleftrightarrow> inv_rows env (lp_state d) \<and> length (lp_timers d) + length (lp_cycles d) \<le> 1 \<and>
     (\<forall>c \<in> set (lp_cycles d). batch_ok env (dr_table (lp_state d)) (cy_rows c))"

lemma batch_ok_fetch:
  assumes "ok (dr_table st)"
  shows "batch_ok env (dr_table st) (fetch_rows env ops st)"
proof -
  let ?po = "\<lparr>po_limit = d_batchSize env, po_maxAttempts = Some (d_maxAttempts env), po_retryDelayMs = Some (d_retryDelayMs env)\<rparr>"
  have "row_of (dr_table st) (row_key r) = Some r \<and> processedAt r = None \<and> row_attempts r < d_maxAttempts env"
    if "r \<in> set (fetch_rows env ops st)" for r
  proof -
    have "row_of (dr_table st) (row_key r) = Some r \<and> select_pending (d_clock env (dr_ticks st)) ?po r"
      using that unfolding fetch_rows_def by (rule pending_stored[OF assms])
    then show ?thesis by (simp add: select_pending_def)
  qed
  then show ?thesis
    using pending_distinct[OF assms] unfolding batch_ok_def fetch_rows_def by blast
qed

lemma batch_ok_tail:
  assumes "batch_ok env t (r # rows)" and "row_of t' = (row_of t)(row_key r \<mapsto> r')"
  shows "batch_ok env t' rows"
  unfolding batch_ok_def
proof (intro conjI ballI)
  have d: "row_key r \<notin> row_key ` set rows" "distinct (map row_key rows)"
    using assms(1) by (simp_all add: batch_ok_def)
  then show "distinct (map row_key rows)" by blast
  fix x
  assume x: "x \<in> set rows"
  then have "row_key x \<noteq> row_key r" using d(1) by (metis image_eqI)
  then have "row_of t' (row_key x) = row_of t (row_key x)" using assms(2) by simp
  moreover have "row_of t (row_key x) = Some x \<and> processedAt x = None \<and> row_attempts x < d_maxAttempts env"
    using assms(1) x unfolding batch_ok_def by (meson list.set_intros(2))
  ultimately show "row_of t' (row_key x) = Some x" "processedAt x = None" "row_attempts x < d_maxAttempts env" by simp_all
qed

lemma batch_ok_insert:
  assumes "ok t" and "batch_ok env t rows"
  shows "batch_ok env (snd (ob_insert ops e t)) rows"
proof -
  have "row_of (snd (ob_insert ops e t)) k = Some r" if "row_of t k = Some r" for k r
    using insert_row[OF assms(1), of e] that by (cases "k = row_key e") auto
  then show ?thesis using assms(2) unfolding batch_ok_def by blast
qed

lemma emitted_for_table [simp]:
  "emitted_for k (st\<lparr>dr_table := t\<rparr>) = emitted_for k st" "emitted_for k (tick st) = emitted_for k st"
  by (simp_all add: emitted_for_def)

lemma inv_rows_insert:
  assumes "inv_rows env st"
  shows "inv_rows env (st\<lparr>dr_table := snd (ob_insert ops e (dr_table st))\<rparr>)"
proof (rule inv_rowsI)
  note ok = inv_rowsD(1)[OF assms]
  show "ok (dr_table (st\<lparr>dr_table := snd (ob_insert ops e (dr_table st))\<rparr>))" using insert_ok[OF ok] by simp
  fix k
  show "key_history env (row_of (dr_table (st\<lparr>dr_table := snd (ob_insert ops e (dr_table st))\<rparr>)) k)
     (emitted_for k (st\<lparr>dr_table := snd (ob_insert ops e (dr_table st))\<rparr>))"
    using insert_row[OF ok, of e] inv_rowsD(2)[OF assms, of k] row_history_fresh[of env e]
    by (cases "k = row_key e"; cases "row_of (dr_table st) (row_key e)") auto
qed

lemma inv_rows_process:
  assumes "inv_rows env st" and "batch_ok env (dr_table st) (r # rows)"
  shows "\<exists>b st'. processOne env ops r st = (Inr b, st') \<and> inv_rows env st' \<and> batch_ok env (dr_table st') rows"
proof -
  have ok: "ok (dr_table st)" and row: "row_of (dr_table st) (row_key r) = Some r"
    and p: "processedAt r = None" "row_attempts r < d_maxAttempts env"
    using assms unfolding inv_rows_def batch_ok_def by auto
  have h: "row_history env r (emitted_for (row_key r) st)"
    using inv_rowsD(2)[OF assms(1), of "row_key r"] row by simp
  obtain b st' r' where s: "processOne env ops r st = (Inr b, st')" "ok (dr_table st')"
    "row_of (dr_table st') = (row_of (dr_table st))(row_key r \<mapsto> r')" "row_history env r' (emitted_for (row_key r) st')"
    "\<forall>k. k \<noteq> row_key r \<longrightarrow> emitted_for k st' = emitted_for k st"
    using processOne_step[OF ok row p h] by blast
  have "inv_rows env st'"
  proof (rule inv_rowsI)
    show "key_history env (row_of (dr_table st') k) (emitted_for k st')" for k
      using inv_rowsD(2)[OF assms(1), of k] s(3-5) by (cases "k = row_key r") simp_all
  qed (rule s(2))
  then show ?thesis using s(1) batch_ok_tail[OF assms(2) s(3)] by blast
qed

lemma inv_rows_tick: "inv_rows env (tick st) = inv_rows env st"
  by (simp add: inv_rows_def)

text \<open>A list with at most one element, when an index into it is valid.\<close>

lemma single_at: "jat xs i = Some x \<Longrightarrow> length xs \<le> 1 \<Longrightarrow> xs = [x] \<and> i = 0"
  by (cases xs) (auto simp: jat_eq_Some)

lemma inv_loop_start:
  assumes "inv_loop env d" and "clean_start Start d"
  shows "inv_loop env (drainer_start d)"
  using assms by (auto simp: inv_loop_def clean_start_def drainer_start_def scheduleNext_def)

lemma inv_loop_fire:
  assumes "inv_loop env d" and "i < length (lp_timers d)"
  shows "inv_loop env (runCycle env ops (d\<lparr>lp_timers := take i (lp_timers d) @ drop (Suc i) (lp_timers d)\<rparr>))"
proof -
  have l: "length (lp_timers d) + length (lp_cycles d) \<le> 1" using assms(1) by (simp add: inv_loop_def)
  then have "lp_cycles d = []" "i = 0" "length (lp_timers d) = 1"
    using assms(2) by (cases "lp_cycles d"; simp)+
  moreover have "batch_ok env (dr_table (lp_state d)) (fetch_rows env ops (lp_state d))"
    using assms(1) by (intro batch_ok_fetch) (simp add: inv_loop_def inv_rows_def)
  ultimately show ?thesis
    using assms(1) by (simp add: inv_loop_def runCycle_def inv_rows_tick)
qed

lemma inv_loop_row:
  assumes "inv_loop env d" and "jat (lp_cycles d) i = Some c" and "cy_rows c = row # rows"
  shows "inv_loop env (cycle_row env ops i c row rows d)"
proof -
  have c: "lp_cycles d = [c]" "i = 0" and t: "lp_timers d = []"
    using single_at[OF assms(2)] assms(1) unfolding inv_loop_def by auto
  have b: "batch_ok env (dr_table (lp_state d)) (row # rows)" and r: "inv_rows env (lp_state d)"
    using assms c unfolding inv_loop_def by auto
  show ?thesis
  proof (cases "lp_stopRequested d")
    case True
    then show ?thesis using r c t by (simp add: cycle_row_def inv_loop_def batch_ok_def)
  next
    case False
    obtain ok' st' where p: "processOne env ops row (lp_state d) = (Inr ok', st')" "inv_rows env st'" "batch_ok env (dr_table st') rows"
      using inv_rows_process[OF r b] by blast
    then show ?thesis using c t False by (cases ok') (simp_all add: cycle_row_def inv_loop_def)
  qed
qed

lemma inv_loop_finish:
  assumes "inv_loop env d" and "jat (lp_cycles d) i = Some c"
  shows "inv_loop env (end_cycle env i c d)"
proof -
  have "lp_cycles d = [c]" "i = 0" "lp_timers d = []"
    using single_at[OF assms(2)] assms(1) unfolding inv_loop_def by auto
  then show ?thesis using assms(1) by (simp add: inv_loop_def end_cycle_def scheduleNext_def)
qed

lemma inv_loop_step:
  assumes "inv_loop env d" and "clean_start l d" and "drain_step env ops l d = Some d'"
  shows "inv_loop env d'"
proof (cases l)
  case (Deliver e)
  have "d' = d\<lparr>lp_state := (lp_state d)\<lparr>dr_table := snd (ob_insert ops e (dr_table (lp_state d)))\<rparr>\<rparr>"
    using assms(3) Deliver by simp
  then show ?thesis
    using assms(1) batch_ok_insert[of "dr_table (lp_state d)" env _ e] inv_rows_insert[of env "lp_state d" e]
    by (auto simp: inv_loop_def inv_rows_def)
next
  case Start
  then show ?thesis using assms inv_loop_start by auto
next
  case Stop
  then have "d' = d \<or> d' = d\<lparr>lp_stopRequested := True\<rparr>" using assms(3) by (auto simp: drainer_stop_def)
  then show ?thesis using assms(1) by (auto simp: inv_loop_def)
next
  case Stopped
  then show ?thesis using assms by (auto simp: inv_loop_def split: if_splits)
next
  case (Fire i)
  then show ?thesis using assms inv_loop_fire by (auto split: if_splits)
next
  case (Row i)
  then show ?thesis using assms inv_loop_row by (auto split: option.splits list.splits)
next
  case (Finish i)
  then show ?thesis using assms inv_loop_finish by (auto split: option.splits if_splits)
qed

lemma inv_loop_reach:
  assumes "drain_reach env ops t d" and "ok t" and "\<And>k. row_of t k = None"
  shows "inv_loop env d"
  using assms
proof (induction rule: drain_reach.induct)
  case reach_new
  then show ?case by (simp add: inv_loop_def inv_rows_def new_drainer_def emitted_for_def)
next
  case (reach_step d l d')
  then show ?case using inv_loop_step by blast
qed

lemma row_kept_process:
  assumes "inv_rows env st" and "batch_ok env (dr_table st) (row # rows)" and "row_of (dr_table st) k = Some r"
    and "processOne env ops row st = (b, st')"
  shows "\<exists>r'. row_of (dr_table st') k = Some r' \<and> row_kept r r'"
proof -
  have ok: "ok (dr_table st)" and row: "row_of (dr_table st) (row_key row) = Some row"
    and p: "processedAt row = None" "row_attempts row < d_maxAttempts env"
    using assms(1,2) unfolding inv_rows_def batch_ok_def by auto
  have h: "row_history env row (emitted_for (row_key row) st)"
    using inv_rowsD(2)[OF assms(1), of "row_key row"] row by simp
  show ?thesis
    using processOne_step[OF ok row p h] assms(3,4) p(1) row
    by (cases "k = row_key row") (auto simp: row_kept_def row_history_def split: option.splits if_splits)
qed

end

context outbox
begin

lemma step_keeps_row:
  assumes "inv_loop env d" and "drain_step env ops l d = Some d'" and "row_of (dr_table (lp_state d)) k = Some r"
  shows "\<exists>r'. row_of (dr_table (lp_state d')) k = Some r' \<and> row_kept r r'"
proof -
  have refl: "row_kept r r" by (simp add: row_kept_def)
  have same: ?thesis if "dr_table (lp_state d') = dr_table (lp_state d)"
    using that assms(3) refl by auto
  show ?thesis
  proof (cases l)
    case (Deliver e)
    then have "dr_table (lp_state d') = snd (ob_insert ops e (dr_table (lp_state d)))" using assms(2) by auto
    moreover have "ok (dr_table (lp_state d))" using assms(1) inv_rowsD(1)[of env "lp_state d"] by (auto simp: inv_loop_def)
    ultimately show ?thesis using insert_row[of "dr_table (lp_state d)" e] assms(3) refl by auto
  next
    case Start
    then show ?thesis using assms(2) by (intro same) (auto simp: drainer_start_def scheduleNext_def)
  next
    case Stop
    then show ?thesis using assms(2) by (intro same) (auto simp: drainer_stop_def)
  next
    case Stopped
    then show ?thesis using assms(2) by (intro same) (auto split: if_splits)
  next
    case (Fire i)
    then show ?thesis using assms(2) by (intro same) (auto simp: runCycle_def split: if_splits)
  next
    case (Finish i)
    then show ?thesis using assms(2) by (intro same) (auto simp: end_cycle_def scheduleNext_def split: option.splits if_splits)
  next
    case (Row i)
    then obtain c row rows where c: "jat (lp_cycles d) i = Some c" "cy_rows c = row # rows" "d' = cycle_row env ops i c row rows d"
      using assms(2) by (auto split: option.splits list.splits)
    show ?thesis
    proof (cases "lp_stopRequested d")
      case True
      then show ?thesis using c(3) by (intro same) (simp add: cycle_row_def)
    next
      case False
      have "c \<in> set (lp_cycles d)" using c(1) by (auto simp: jat_eq_Some)
      then have b: "batch_ok env (dr_table (lp_state d)) (row # rows)" and rows: "inv_rows env (lp_state d)"
        using assms(1) c(2) by (auto simp: inv_loop_def)
      obtain b' st' where p: "processOne env ops row (lp_state d) = (Inr b', st')"
        using inv_rows_process[OF rows b] by blast
      then have "lp_state d' = st'" using c(3) False by (cases b') (simp_all add: cycle_row_def)
      then show ?thesis using row_kept_process[OF rows b assms(3) p] by simp
    qed
  qed
qed

text \<open>
  A poll that finds nothing, at a time past the retry delay of every row, means that every row is
  settled: processed, or parked with as many attempts as allowed.
\<close>

lemma idle_settled:
  assumes "ok (dr_table st)" and "fetch_rows env ops st = []" and "0 < d_batchSize env"
    and "row_of (dr_table st) k = Some r" and "receivedAt r + d_retryDelayMs env \<le> d_clock env (dr_ticks st)"
  shows "processedAt r \<noteq> None \<or> d_maxAttempts env \<le> row_attempts r"
proof (rule ccontr)
  assume "\<not> ?thesis"
  then have s: "select_pending (d_clock env (dr_ticks st))
     \<lparr>po_limit = d_batchSize env, po_maxAttempts = Some (d_maxAttempts env), po_retryDelayMs = Some (d_retryDelayMs env)\<rparr> r"
    using assms(5) by (simp add: select_pending_def)
  show False
    using pending_complete[OF assms(1,4) s] assms(2,3) by (simp add: fetch_rows_def)
qed

end

text \<open>The facts about reachable states of a drainer over a table.\<close>

lemma table_reach:
  assumes "order_ok order" and "drain_reach env (table_ops order) [] d"
  shows "outbox.inv_loop stored keys_distinct env d"
proof (rule outbox.inv_loop_reach[OF table_outbox[OF assms(1)] assms(2)])
  show "keys_distinct []" by (simp add: keys_distinct_def)
  show "stored [] k = None" for k by (simp add: stored_def)
qed

lemma table_reach_ok:
  assumes "order_ok order" and "drain_reach env (table_ops order) [] d"
  shows "keys_distinct (dr_table (lp_state d))"
    and "key_history env (stored (dr_table (lp_state d)) k) (emitted_for k (lp_state d))"
proof -
  have inv: "outbox.inv_rows stored keys_distinct env (lp_state d)"
    using table_reach[OF assms] by (simp add: outbox.inv_loop_def[OF table_outbox[OF assms(1)]])
  note rows = outbox.inv_rowsD[OF table_outbox[OF assms(1)]]
  show "keys_distinct (dr_table (lp_state d))" by (rule rows(1)[OF inv])
  show "key_history env (stored (dr_table (lp_state d)) k) (emitted_for k (lp_state d))" by (rule rows(2)[OF inv])
qed

text \<open>
  C13. What a run of the drainer emits for a row, however deliveries, polls, stops and restarts
  interleave, as long as the loop is restarted only when nothing of it is left: nothing for a key
  that was never delivered; for a stored row, a proper prefix of its events for each of its failed
  attempts, of which there are at most \<open>maxAttempts\<close>, and all its events exactly once if and only
  if it is processed. A row that failed carries its error.
\<close>
theorem emissions_exactly_once:
  assumes "order_ok order" and "drain_reach env (table_ops order) [] d"
  shows "case stored (dr_table (lp_state d)) k of
      None \<Rightarrow> emitted_for k (lp_state d) = []
    | Some r \<Rightarrow> row_history env r (emitted_for k (lp_state d))"
  using table_reach_ok(2)[OF assms, of k] by (simp add: key_history_def)

text \<open>
  A delivery is never lost: after it its key has a row, and every later step, of the drainer
  or of another delivery (of the same key too), keeps that row with the identifiers, the time and
  the payload first delivered, never lowers its attempts, and does not touch it once it is
  processed.
\<close>
theorem deliveries_kept:
  assumes "order_ok order" and "drain_reach env (table_ops order) [] d"
    and "drain_step env (table_ops order) l d = Some d'"
  shows "(case stored (dr_table (lp_state d)) k of
       None \<Rightarrow> (case l of Deliver e \<Rightarrow> row_key e = k \<longrightarrow> stored (dr_table (lp_state d')) k = Some (fresh_row e) | _ \<Rightarrow> True)
     | Some r \<Rightarrow> (\<exists>r'. stored (dr_table (lp_state d')) k = Some r' \<and> row_kept r r'))"
proof (cases "stored (dr_table (lp_state d)) k")
  case None
  note ok = table_reach_ok(1)[OF assms(1,2)]
  have "stored (dr_table (lp_state d')) k = Some (fresh_row e)" if "l = Deliver e" "row_key e = k" for e
    using that assms(3) None outbox.insert_row[OF table_outbox[OF assms(1)] ok, of e] by auto
  then show ?thesis using None by (cases l) auto
next
  case (Some r)
  show ?thesis
    using outbox.step_keeps_row[OF table_outbox[OF assms(1)] table_reach[OF assms(1,2)] assms(3) Some] Some by simp
qed

text \<open>
  C14. When a poll finds nothing at a time past every row's retry delay, the outbox is drained:
  every delivered row is processed, all its events emitted, or parked at \<open>maxAttempts\<close> with its
  last error.
\<close>
theorem idle_means_drained:
  assumes "order_ok order" and "drain_reach env (table_ops order) [] d"
    and "fetch_rows env (table_ops order) (lp_state d) = []" and "0 < d_batchSize env" and "0 < d_maxAttempts env"
    and "stored (dr_table (lp_state d)) k = Some r" and "receivedAt r + d_retryDelayMs env \<le> d_clock env (dr_ticks (lp_state d))"
  shows "processedAt r \<noteq> None \<and> (\<exists>evs. events_of env r = Some evs \<and> drop (length (emitted_for k (lp_state d)) - length evs) (emitted_for k (lp_state d)) = evs) \<or>
     processedAt r = None \<and> row_attempts r = d_maxAttempts env \<and> row_error r \<noteq> None"
proof -
  have h: "row_history env r (emitted_for k (lp_state d))"
    using table_reach_ok(2)[OF assms(1,2), of k] assms(6) by simp
  have "processedAt r \<noteq> None \<or> d_maxAttempts env \<le> row_attempts r"
    by (rule outbox.idle_settled[OF table_outbox[OF assms(1)] table_reach_ok(1)[OF assms(1,2)] assms(3,4,6,7)])
  then show ?thesis
    using h assms(5) by (cases "processedAt r") (auto simp: row_history_def split: option.splits)
qed

section \<open>Sample runs\<close>

definition sample_hook :: webhook_event where
  "sample_hook = \<lparr>we_id = ''tx1'', we_source = ''helius'', receivedAt = 1000, rawPayload = [], metadata = None\<rparr>"

text \<open>Two events per row; \<open>emit\<close> throws at the questions given.\<close>

definition sample_env :: "nat list \<Rightarrow> (unit, char) drainer_env" where
  "sample_env fails = \<lparr>d_drivers = (\<lambda>s. if s = ''helius'' then Some (\<lambda>raw. Inr ''ab'') else None), d_parse = (\<lambda>_. Inr ()),
     d_emit = (\<lambda>n e ctx. if n \<in> set fails then Some ''down'' else None), d_clock = (\<lambda>n. 2000),
     d_pollIntervalMs = 250, d_batchSize = 100, d_maxAttempts = 5, d_retryDelayMs = 1000\<rparr>"

abbreviation sample_ops :: "row_table outbox_ops" where
  "sample_ops \<equiv> table_ops (sort_key receivedAt)"

fun clean_steps :: "('p, 'e) drainer_env \<Rightarrow> 's outbox_ops \<Rightarrow> drain_label list \<Rightarrow> ('e, 's) drainer \<Rightarrow> bool" where
  "clean_steps env ops [] d = True"
| "clean_steps env ops (l # ls) d =
     ((l = Start \<longrightarrow> lp_running d \<or> lp_timers d = [] \<and> lp_cycles d = []) \<and>
      (case drain_step env ops l d of Some d' \<Rightarrow> clean_steps env ops ls d' | None \<Rightarrow> False))"

lemma reach_clean_steps:
  "drain_reach env ops t d \<Longrightarrow> clean_steps env ops ls d \<Longrightarrow> drain_steps env ops ls d = Some d' \<Longrightarrow> drain_reach env ops t d'"
proof (induction ls arbitrary: d)
  case (Cons l ls)
  then obtain d1 where "drain_step env ops l d = Some d1" "clean_steps env ops ls d1" "drain_steps env ops ls d1 = Some d'"
    by (auto split: option.splits)
  moreover have "clean_start l d" using Cons.prems(2) by (simp add: clean_start_def)
  ultimately show ?case using Cons reach_step by metis
qed simp

definition retry_run :: "drain_label list" where
  "retry_run = [Deliver sample_hook, Start, Fire 0, Row 0, Finish 0, Fire 0, Row 0, Finish 0]"

definition retried :: "(char, row_table) drainer" where
  "retried = the (drain_steps (sample_env [2]) sample_ops retry_run (new_drainer []))"

lemma retried_reach: "drain_reach (sample_env [2]) sample_ops [] retried"
proof (rule reach_clean_steps[OF reach_new])
  show "clean_steps (sample_env [2]) sample_ops retry_run (new_drainer [] :: (char, row_table) drainer)" by code_simp
  have "drain_steps (sample_env [2]) sample_ops retry_run (new_drainer [] :: (char, row_table) drainer) \<noteq> None" by code_simp
  then show "drain_steps (sample_env [2]) sample_ops retry_run (new_drainer []) = Some retried"
    by (auto simp: retried_def)
qed

theorem emissions_exactly_once_witness:
  "\<exists>r. stored (dr_table (lp_state retried)) (''helius'', ''tx1'') = Some r \<and>
     row_history (sample_env [2]) r (emitted_for (''helius'', ''tx1'') (lp_state retried)) \<and>
     emitted_for (''helius'', ''tx1'') (lp_state retried) = ''aab'' \<and> row_attempts r = 1 \<and> processedAt r = Some 2000"
proof -
  have s: "\<exists>r. stored (dr_table (lp_state retried)) (''helius'', ''tx1'') = Some r \<and> row_attempts r = 1 \<and> processedAt r = Some 2000"
    by (rule exI[of _ "the (stored (dr_table (lp_state retried)) (''helius'', ''tx1''))"]) code_simp
  have e: "emitted_for (''helius'', ''tx1'') (lp_state retried) = ''aab''" by code_simp
  show ?thesis
    using emissions_exactly_once[OF order_ok_sort_key retried_reach, of "(''helius'', ''tx1'')"] s e by auto
qed

theorem deliveries_kept_witness:
  "\<exists>r'. stored (dr_table (lp_state (the (drain_step (sample_env [2]) sample_ops
       (Deliver (sample_hook\<lparr>rawPayload := [1]\<rparr>)) retried)))) (''helius'', ''tx1'') = Some r' \<and> rawPayload r' = []"
proof -
  let ?l = "Deliver (sample_hook\<lparr>rawPayload := [1]\<rparr>)"
  obtain r where r: "stored (dr_table (lp_state retried)) (''helius'', ''tx1'') = Some r" "rawPayload r = []"
  proof
    show "stored (dr_table (lp_state retried)) (''helius'', ''tx1'') = Some (the (stored (dr_table (lp_state retried)) (''helius'', ''tx1'')))"
      by code_simp
    show "rawPayload (the (stored (dr_table (lp_state retried)) (''helius'', ''tx1''))) = []" by code_simp
  qed
  have "drain_step (sample_env [2]) sample_ops ?l retried = Some (the (drain_step (sample_env [2]) sample_ops ?l retried))" by simp
  from deliveries_kept[OF order_ok_sort_key retried_reach this, of "(''helius'', ''tx1'')"] r show ?thesis
    by (auto simp: row_kept_def webhook_event.truncate_def)
qed

theorem idle_means_drained_witness:
  "\<exists>r. stored (dr_table (lp_state retried)) (''helius'', ''tx1'') = Some r \<and> processedAt r \<noteq> None"
proof -
  let ?r = "the (stored (dr_table (lp_state retried)) (''helius'', ''tx1''))"
  have r: "stored (dr_table (lp_state retried)) (''helius'', ''tx1'') = Some ?r" by code_simp
  have idle: "fetch_rows (sample_env [2]) sample_ops (lp_state retried) = []" by code_simp
  have due: "receivedAt ?r + d_retryDelayMs (sample_env [2]) \<le> d_clock (sample_env [2]) (dr_ticks (lp_state retried))" by code_simp
  have no: "row_attempts ?r \<noteq> d_maxAttempts (sample_env [2])" by code_simp
  have b: "0 < d_batchSize (sample_env [2])" "0 < d_maxAttempts (sample_env [2])" by (simp_all add: sample_env_def)
  show ?thesis
    using idle_means_drained[OF order_ok_sort_key retried_reach idle b r due] no r by blast
qed

text \<open>
  Stopping and starting again before the timer of the first loop has fired leaves two loops
  running: \<open>stop\<close> does not cancel the timer, and \<open>start\<close> clears the flag that would have ended it.
  Both loops fetch the same pending row and emit its events: an event delivered once is emitted
  twice, with no failure in between.
\<close>
theorem restart_emits_twice:
  "(case drain_steps (sample_env []) sample_ops
       [Deliver sample_hook, Start, Stop, Stopped, Start, Fire 0, Fire 0, Row 0, Row 1] (new_drainer []) of
      Some d \<Rightarrow> emitted_for (''helius'', ''tx1'') (lp_state d) = ''abab'' \<and> length (lp_cycles d) = 2
    | None \<Rightarrow> False)"
  by code_simp

text \<open>
  The retry delay does not space attempts: a row received \<open>retryDelayMs\<close> ago whose \<open>emit\<close> keeps
  failing is tried \<open>maxAttempts\<close> times in consecutive cycles at one and the same clock reading, each
  scheduled with a delay of 0, and is then parked.
\<close>
theorem retries_not_spaced:
  "(case drain_steps (sample_env [1, 3, 5, 7, 9]) sample_ops
       (Deliver sample_hook # Start # concat (replicate 5 [Fire 0, Row 0, Finish 0])) (new_drainer []) of
      Some d \<Rightarrow> map_option row_attempts (stored (dr_table (lp_state d)) (''helius'', ''tx1'')) = Some 5 \<and>
        lp_timers d = [0] \<and> fetch_rows (sample_env [1, 3, 5, 7, 9]) sample_ops (lp_state d) = []
    | None \<Rightarrow> False)"
  by code_simp

end

