(* ===== verification/Receiver.thy ===== *)
theory Receiver
  imports Outbox Utf8
begin

text \<open>
  The receiving side of \<open>packages/solana-webhooks/src/server/\<close>: the permits of
  \<open>backpressure.ts\<close>, the header check of \<open>auth.ts\<close>, and \<open>ingest\<close> with its HTTP adapter in
  \<open>http.ts\<close>. The driver's parser, \<open>JSON.stringify\<close> of its payloads and the wire are parameters.
\<close>

section \<open>Permits\<close>

record semaphore =
  sm_available :: int
  sm_max :: int

definition new_semaphore :: "int \<Rightarrow> semaphore option" where
  "new_semaphore m = (if m < 1 then None else Some \<lparr>sm_available = m, sm_max = m\<rparr>)"

definition tryAcquire :: "semaphore \<Rightarrow> semaphore option" where
  "tryAcquire s = (if sm_available s \<le> 0 then None else Some (s\<lparr>sm_available := sm_available s - 1\<rparr>))"

text \<open>The release function of one permit; \<open>released\<close> is the flag of its closure.\<close>

definition release_permit :: "bool \<Rightarrow> semaphore \<Rightarrow> bool \<times> semaphore" where
  "release_permit released s =
     (if released then (released, s)
      else let s = s\<lparr>sm_available := sm_available s + 1\<rparr>
           in (True, if sm_available s > sm_max s then s\<lparr>sm_available := sm_max s\<rparr> else s))"

definition inFlight :: "semaphore \<Rightarrow> int" where
  "inFlight s = sm_max s - sm_available s"

text \<open>Any calls of \<open>tryAcquire\<close> and of the release functions it returned, each any number of times.\<close>

datatype permit_op = Acquire | Release nat

fun permit_step :: "permit_op \<Rightarrow> semaphore \<times> bool list \<Rightarrow> semaphore \<times> bool list" where
  "permit_step Acquire (s, ps) = (case tryAcquire s of Some s' \<Rightarrow> (s', ps @ [False]) | None \<Rightarrow> (s, ps))"
| "permit_step (Release i) (s, ps) =
     (if i < length ps then (let (f, s') = release_permit (ps ! i) s in (s', ps[i := f])) else (s, ps))"

definition permit_run :: "int \<Rightarrow> permit_op list \<Rightarrow> semaphore \<times> bool list" where
  "permit_run m ops = fold permit_step ops (\<lparr>sm_available = m, sm_max = m\<rparr>, [])"

definition unreleased :: "bool list \<Rightarrow> nat" where
  "unreleased ps = length (filter Not ps)"

lemma unreleased_update: "i < length ps \<Longrightarrow> \<not> ps ! i \<Longrightarrow> Suc (unreleased (ps[i := True])) = unreleased ps"
proof (induction ps arbitrary: i)
  case (Cons p ps)
  then show ?case by (cases i) (auto simp: unreleased_def)
qed simp

definition permits_ok :: "int \<Rightarrow> semaphore \<times> bool list \<Rightarrow> bool" where
  "permits_ok m sp \<longleftrightarrow> sm_max (fst sp) = m \<and> sm_available (fst sp) = m - int (unreleased (snd sp)) \<and> 0 \<le> sm_available (fst sp)"

lemma permits_ok_step:
  assumes "permits_ok m (s, ps)"
  shows "permits_ok m (permit_step op (s, ps))"
proof (cases op)
  case Acquire
  then show ?thesis using assms by (auto simp: permits_ok_def tryAcquire_def unreleased_def)
next
  case (Release i)
  show ?thesis
  proof (cases "i < length ps \<and> \<not> ps ! i")
    case True
    then have "Suc (unreleased (ps[i := True])) = unreleased ps" by (intro unreleased_update) auto
    then show ?thesis using assms Release True by (auto simp: permits_ok_def release_permit_def Let_def)
  next
    case False
    then have "permit_step op (s, ps) = (s, ps)"
      using Release list_update_id[of ps i] by (cases "i < length ps") (auto simp: release_permit_def Let_def)
    then show ?thesis using assms by simp
  qed
qed

lemma permits_ok_run: "0 \<le> m \<Longrightarrow> permits_ok m (permit_run m ops)"
proof (induction ops rule: rev_induct)
  case Nil
  then show ?case by (simp add: permit_run_def permits_ok_def unreleased_def)
next
  case (snoc op ops)
  then show ?case using permits_ok_step[of m "fst (permit_run m ops)" "snd (permit_run m ops)" op]
    by (simp add: permit_run_def)
qed

text \<open>
  However permits are taken and given back, also more than once each, the number in flight is
  the number of permits not yet released, between 0 and the capacity; the cap in \<open>release\<close> is never
  reached; and a request is turned away exactly when \<open>max\<close> permits are out.
\<close>
theorem permits_counted:
  assumes "1 \<le> m" and "permit_run m ops = (s, ps)"
  shows "inFlight s = int (unreleased ps) \<and> 0 \<le> inFlight s \<and> inFlight s \<le> m \<and>
    (tryAcquire s = None \<longleftrightarrow> int (unreleased ps) = m) \<and>
    (i < length ps \<and> \<not> ps ! i \<longrightarrow> sm_available s + 1 \<le> sm_max s)"
proof -
  have ok: "permits_ok m (s, ps)" using permits_ok_run[of m ops] assms by simp
  have "0 < unreleased ps" if "i < length ps" "\<not> ps ! i"
    using unreleased_update[OF that] by simp
  then show ?thesis using ok assms(1) by (auto simp: permits_ok_def inFlight_def tryAcquire_def)
qed

theorem permits_counted_witness:
  "inFlight (fst (permit_run 2 [Acquire, Acquire, Acquire, Release 0, Release 0])) = 1"
proof -
  have r: "permit_run 2 [Acquire, Acquire, Acquire, Release 0, Release 0] = (\<lparr>sm_available = 1, sm_max = 2\<rparr>, [True, False])"
    by code_simp
  show ?thesis using permits_counted[OF _ r, of 0] by (simp add: r unreleased_def)
qed

section \<open>The authorization header\<close>

datatype header = One ustring | Many "ustring list"

datatype verify_result = Verified | MissingAuth | InvalidAuth

definition pad_to :: "nat \<Rightarrow> bytes \<Rightarrow> bytes" where
  "pad_to n bs = bs @ replicate (n - length bs) 0"

definition constantTimeEquals :: "ustring \<Rightarrow> ustring \<Rightarrow> bool" where
  "constantTimeEquals a b =
     (let aBuf = text_encode a; bBuf = text_encode b; n = max (length aBuf) (length bBuf)
      in pad_to n aBuf = pad_to n bBuf \<and> length aBuf = length bBuf)"

definition verifyAuthHeader :: "(string \<times> header) list \<Rightarrow> ustring \<Rightarrow> verify_result" where
  "verifyAuthHeader headers secret =
     (let header = (case map_of headers ''authorization'' of Some h \<Rightarrow> Some h | None \<Rightarrow> map_of headers ''Authorization'');
          val = (case header of Some (One v) \<Rightarrow> Some v | Some (Many (v # _)) \<Rightarrow> Some v | _ \<Rightarrow> None)
      in case val of
           None \<Rightarrow> MissingAuth
         | Some v \<Rightarrow> if v = [] then MissingAuth else if \<not> constantTimeEquals v secret then InvalidAuth else Verified)"

lemma constantTimeEquals_encoding: "constantTimeEquals a b \<longleftrightarrow> text_encode a = text_encode b"
  by (auto simp: constantTimeEquals_def Let_def pad_to_def append_eq_append_conv)

text \<open>
  The check accepts exactly the requests whose header value is the secret: for a value and a
  secret without lone surrogates, the padded comparison of the two encodings is equality of the
  strings, whatever their lengths.
\<close>
theorem auth_accepts_secret:
  assumes "\<forall>c \<in> set v \<union> set secret. scalar c" and "v \<noteq> []"
    and "map_of headers ''authorization'' = Some (One v)"
  shows "verifyAuthHeader headers secret = (if v = secret then Verified else InvalidAuth)"
proof -
  have "map to_scalar v = v" "map to_scalar secret = secret"
    using assms(1) by (auto simp: to_scalar_def intro!: map_idI)
  then show ?thesis
    using assms(2,3) by (simp add: verifyAuthHeader_def constantTimeEquals_encoding text_encode_eq)
qed

theorem auth_accepts_secret_witness:
  "verifyAuthHeader [(''authorization'', One [97, 0])] [97] = InvalidAuth"
  using auth_accepts_secret[of "[97, 0]" "[97]" "[(''authorization'', One [97, 0])]"] by (simp add: scalar_def)

section \<open>\<open>ingest\<close>\<close>

text \<open>The parts of a driver that the receiver uses; \<open>'p\<close> is the payload of one parsed event.\<close>

record ('r, 'p) receiver_env =
  rv_source :: string
  rv_verify :: "'r \<Rightarrow> string option"              \<comment> \<open>\<open>Some\<close> the reason of a refusal\<close>
  rv_parse :: "bytes \<Rightarrow> string + (string \<times> 'p) list"  \<comment> \<open>identifiers and payloads\<close>
  rv_stringify :: "'p \<Rightarrow> bytes"
  rv_maxBytes :: nat

datatype reject_reason = Auth | TooLarge | Parse | Saturated | Replay

datatype ingest_result = Accepted nat | Rejected reject_reason

fun insert_all :: "('r, 'p) receiver_env \<Rightarrow> 's outbox_ops \<Rightarrow> int \<Rightarrow> (string \<times> 'p) list \<Rightarrow> nat \<Rightarrow> nat \<Rightarrow> 's \<Rightarrow> nat \<times> nat \<times> 's" where
  "insert_all env ops now [] inserted duplicates t = (inserted, duplicates, t)"
| "insert_all env ops now ((i, p) # es) inserted duplicates t =
     (let (wasNew, t) = ob_insert ops \<lparr>we_id = i, we_source = rv_source env, receivedAt = now,
        rawPayload = rv_stringify env p, metadata = None\<rparr> t
      in if wasNew then insert_all env ops now es (inserted + 1) duplicates t
         else insert_all env ops now es inserted (duplicates + 1) t)"

definition ingest :: "('r, 'p) receiver_env \<Rightarrow> 's outbox_ops \<Rightarrow> 'r \<Rightarrow> bytes \<Rightarrow> int \<Rightarrow> semaphore \<Rightarrow> 's \<Rightarrow> ingest_result \<times> semaphore \<times> 's" where
  "ingest env ops req body now sem t =
     (case rv_verify env req of
        Some _ \<Rightarrow> (Rejected Auth, sem, t)
      | None \<Rightarrow>
          if length body > rv_maxBytes env then (Rejected TooLarge, sem, t)
          else (case tryAcquire sem of
                  None \<Rightarrow> (Rejected Saturated, sem, t)
                | Some held \<Rightarrow>
                    (case rv_parse env body of
                       Inl _ \<Rightarrow> (Rejected Parse, snd (release_permit False held), t)
                     | Inr parsed \<Rightarrow>
                         (let (inserted, duplicates, t) = insert_all env ops now parsed 0 0 t
                          in (Accepted inserted, snd (release_permit False held), t)))))"

text \<open>The HTTP adapter: what it answers. A body is \<open>None\<close> when reading it failed.\<close>

definition handle :: "('r, 'p) receiver_env \<Rightarrow> 's outbox_ops \<Rightarrow> string \<Rightarrow> 'r \<Rightarrow> bytes option \<Rightarrow> int \<Rightarrow> semaphore \<Rightarrow> 's \<Rightarrow> nat \<times> semaphore \<times> 's" where
  "handle env ops meth req body now sem t =
     (if meth \<noteq> ''POST'' then (405, sem, t)
      else case body of
             None \<Rightarrow> (400, sem, t)
           | Some body \<Rightarrow>
               if length body > rv_maxBytes env then (413, sem, t)
               else (let (res, sem, t) = ingest env ops req body now sem t
                     in (case res of
                           Accepted _ \<Rightarrow> 200
                         | Rejected reason \<Rightarrow>
                             (case reason of Auth \<Rightarrow> 401 | TooLarge \<Rightarrow> 413 | Saturated \<Rightarrow> 503 | Parse \<Rightarrow> 400 | Replay \<Rightarrow> 200),
                         sem, t)))"

lemma release_held: "tryAcquire sem = Some held \<Longrightarrow> sm_available sem \<le> sm_max sem \<Longrightarrow> snd (release_permit False held) = sem"
  by (auto simp: tryAcquire_def release_permit_def Let_def split: if_splits)

definition delivered :: "('r, 'p) receiver_env \<Rightarrow> int \<Rightarrow> string \<times> 'p \<Rightarrow> webhook_event" where
  "delivered env now e = \<lparr>we_id = fst e, we_source = rv_source env, receivedAt = now,
     rawPayload = rv_stringify env (snd e), metadata = None\<rparr>"

definition delivered_rows :: "('r, 'p) receiver_env \<Rightarrow> int \<Rightarrow> (string \<times> 'p) list \<Rightarrow> row_key \<Rightarrow> outbox_row option" where
  "delivered_rows env now es = map_of (map (\<lambda>e. (row_key (delivered env now e), fresh_row (delivered env now e))) es)"

definition delivered_keys :: "('r, 'p) receiver_env \<Rightarrow> (string \<times> 'p) list \<Rightarrow> row_key set" where
  "delivered_keys env es = (\<lambda>e. (rv_source env, fst e)) ` set es"

lemma row_key_delivered: "row_key (delivered env now e) = (rv_source env, fst e)"
  by (simp add: delivered_def row_key_def)

lemma delivered_rows_Cons:
  "delivered_rows env now (e # es) k = (if k = row_key (delivered env now e) then Some (fresh_row (delivered env now e)) else delivered_rows env now es k)"
  by (simp add: delivered_rows_def)

lemma dom_delivered_rows: "delivered_rows env now es k = None \<longleftrightarrow> k \<notin> delivered_keys env es"
  unfolding delivered_rows_def delivered_keys_def map_of_eq_None_iff set_map image_image by (simp add: row_key_delivered)

definition merged :: "(row_key \<Rightarrow> outbox_row option) \<Rightarrow> (row_key \<Rightarrow> outbox_row option) \<Rightarrow> row_key \<Rightarrow> outbox_row option" where
  "merged m d k = (case m k of Some r \<Rightarrow> Some r | None \<Rightarrow> d k)"

context outbox
begin

lemma insert_all_rows:
  assumes "ok t" and "insert_all env ops now es i d t = (i', d', t')"
  shows "ok t' \<and> row_of t' = merged (row_of t) (delivered_rows env now es) \<and>
    i' = i + card {k \<in> delivered_keys env es. row_of t k = None} \<and> i' + d' = i + d + length es"
  using assms
proof (induction es arbitrary: i d t)
  case Nil
  then show ?case by (auto simp: merged_def delivered_rows_def delivered_keys_def split: option.splits)
next
  case (Cons e es)
  define k where "k = row_key (delivered env now e)"
  define t1 where "t1 = snd (ob_insert ops (delivered env now e) t)"
  have ins: "ob_insert ops (delivered env now e) t = (row_of t k = None, t1)"
    using insert_fresh[OF Cons.prems(1)] unfolding k_def t1_def .
  have t1: "ok t1" "row_of t1 = (if row_of t k = None then (row_of t)(k \<mapsto> fresh_row (delivered env now e)) else row_of t)"
    using insert_ok[OF Cons.prems(1)] insert_row[OF Cons.prems(1)] unfolding k_def t1_def by blast+
  have step: "insert_all env ops now es (if row_of t k = None then i + 1 else i) (if row_of t k = None then d else d + 1) t1 = (i', d', t')"
    using Cons.prems(2) ins by (cases e) (auto simp: delivered_def split: if_splits)
  note ih = Cons.IH[OF t1(1) step]
  have keys: "{k' \<in> delivered_keys env (e # es). row_of t k' = None} =
      (if row_of t k = None then insert k {k' \<in> delivered_keys env es. row_of t1 k' = None} else {k' \<in> delivered_keys env es. row_of t1 k' = None})"
    using t1(2) by (auto simp: delivered_keys_def k_def row_key_delivered)
  have "k \<notin> {k' \<in> delivered_keys env es. row_of t1 k' = None}" using t1(2) by auto
  moreover have "finite {k' \<in> delivered_keys env es. row_of t1 k' = None}" by (simp add: delivered_keys_def)
  ultimately have card: "card {k' \<in> delivered_keys env (e # es). row_of t k' = None} =
      (if row_of t k = None then 1 else 0) + card {k' \<in> delivered_keys env es. row_of t1 k' = None}"
    unfolding keys by simp
  have rows: "merged (row_of t1) (delivered_rows env now es) = merged (row_of t) (delivered_rows env now (e # es))"
    using t1(2) by (auto simp: merged_def delivered_rows_Cons k_def intro!: ext split: option.splits if_splits)
  show ?case using ih card rows by (auto split: if_splits)
qed

lemma ingest_rows:
  assumes "ok t" and "sm_available sem \<le> sm_max sem" and "ingest env ops req body now sem t = (res, sem', t')"
  shows "sem' = sem \<and> ok t' \<and>
    (case res of
       Rejected _ \<Rightarrow> t' = t
     | Accepted n \<Rightarrow> (\<exists>es. rv_parse env body = Inr es \<and> row_of t' = merged (row_of t) (delivered_rows env now es) \<and>
         n = card {k \<in> delivered_keys env es. row_of t k = None}))"
proof -
  have rejected: ?thesis if "(res, sem', t') = (Rejected reason, sem, t)" for reason
    using that assms(1) by simp
  show ?thesis
  proof (cases "rv_verify env req")
    case (Some a)
    then show ?thesis using assms(3) by (intro rejected[of Auth]) (simp add: ingest_def)
  next
    case v: None
    show ?thesis
    proof (cases "length body > rv_maxBytes env")
      case True
      then show ?thesis using assms(3) v by (intro rejected[of TooLarge]) (simp add: ingest_def)
    next
      case size: False
      show ?thesis
      proof (cases "tryAcquire sem")
        case None
        then show ?thesis using assms(3) v size by (intro rejected[of Saturated]) (simp add: ingest_def)
      next
        case (Some held)
        note rel = release_held[OF Some assms(2)]
        show ?thesis
        proof (cases "rv_parse env body")
          case (Inl e)
          then show ?thesis using assms(3) v size Some rel by (intro rejected[of Parse]) (simp add: ingest_def)
        next
          case (Inr es)
          obtain i' d' t1 where ins: "insert_all env ops now es 0 0 t = (i', d', t1)" using prod_cases3 by blast
          then have "(res, sem', t') = (Accepted i', sem, t1)"
            using assms(3) v size Some rel Inr by (simp add: ingest_def)
          then show ?thesis using insert_all_rows[OF assms(1) ins] Inr by simp
        qed
      qed
    qed
  qed
qed

end

text \<open>
  What \<open>ingest\<close> does to the outbox: a rejected request, for whatever reason, leaves it as it was;
  an accepted one stores, for each key of its body that had no row, a fresh row with the first
  payload the body has for it, as the driver's stringified slice, leaves every other row alone, and
  reports the number of new rows. The permit is always given back.
\<close>
theorem ingest_stores:
  assumes "order_ok order" and "keys_distinct t" and "sm_available sem \<le> sm_max sem"
    and "ingest env (table_ops order) req body now sem t = (res, sem', t')"
  shows "sem' = sem \<and> keys_distinct t' \<and>
    (case res of
       Rejected _ \<Rightarrow> t' = t
     | Accepted n \<Rightarrow> (\<exists>es. rv_parse env body = Inr es \<and> stored t' = merged (stored t) (delivered_rows env now es) \<and>
         n = card {k \<in> delivered_keys env es. stored t k = None}))"
  by (rule outbox.ingest_rows[OF table_outbox[OF assms(1)] assms(2-4)])

definition sample_receiver :: "(unit, byte) receiver_env" where
  "sample_receiver = \<lparr>rv_source = ''helius'', rv_verify = (\<lambda>_. None), rv_parse = (\<lambda>b. Inr [(''a'', 1), (''b'', 2), (''a'', 3)]),
     rv_stringify = (\<lambda>p. [p]), rv_maxBytes = 10\<rparr>"

theorem ingest_stores_witness:
  "\<exists>r. stored (snd (snd (ingest sample_receiver (table_ops (sort_key receivedAt)) () [] 7 \<lparr>sm_available = 1, sm_max = 1\<rparr> []))) (''helius'', ''a'') = Some r
     \<and> rawPayload r = [1] \<and> fst (ingest sample_receiver (table_ops (sort_key receivedAt)) () [] 7 \<lparr>sm_available = 1, sm_max = 1\<rparr> []) = Accepted 2"
proof -
  let ?sem = "\<lparr>sm_available = 1, sm_max = 1\<rparr> :: semaphore"
  obtain t' where i: "ingest sample_receiver (table_ops (sort_key receivedAt)) () [] 7 ?sem [] = (Accepted 2, ?sem, t')"
  proof
    show "ingest sample_receiver (table_ops (sort_key receivedAt)) () [] 7 ?sem [] =
      (Accepted 2, ?sem, snd (snd (ingest sample_receiver (table_ops (sort_key receivedAt)) () [] 7 ?sem [])))" by code_simp
  qed
  have "stored t' = merged (stored []) (delivered_rows sample_receiver 7 [(''a'', 1), (''b'', 2), (''a'', 3)])"
    using ingest_stores[OF order_ok_sort_key _ _ i] by (simp add: keys_distinct_def sample_receiver_def)
  then have "stored t' (''helius'', ''a'') = Some (fresh_row (delivered sample_receiver 7 (''a'', 1)))"
    by (simp add: merged_def stored_def delivered_rows_def row_key_delivered sample_receiver_def)
  then show ?thesis using i by (simp add: fresh_row_def delivered_def sample_receiver_def)
qed

text \<open>
  Redelivery is idempotent: a request accepted once and delivered again, at any later time,
  stores nothing more and reports no event.
\<close>
theorem redelivery_idempotent:
  assumes "order_ok order" and "keys_distinct t" and "sm_available sem \<le> sm_max sem"
    and "ingest env (table_ops order) req body now sem t = (Accepted n, sem', t')"
    and "ingest env (table_ops order) req body later sem' t' = (res, sem'', t'')"
  shows "res = Accepted 0 \<and> stored t'' = stored t'"
proof -
  obtain es where p: "rv_parse env body = Inr es" and t': "stored t' = merged (stored t) (delivered_rows env now es)"
    and s: "sem' = sem" "keys_distinct t'"
    using outbox.ingest_rows[OF table_outbox[OF assms(1)] assms(2-4)] by auto
  have dom: "stored t' k \<noteq> None" if "k \<in> delivered_keys env es" for k
    using that dom_delivered_rows[of env now es k] unfolding t' merged_def by (auto split: option.splits)
  have keys: "delivered_rows env later es k = None" if "k \<notin> delivered_keys env es" for k
    using that by (simp add: dom_delivered_rows)
  have acc: "\<exists>m. res = Accepted m"
    using assms(4,5) unfolding s(1) by (auto simp: ingest_def split: option.splits sum.splits if_splits prod.splits)
  have "card {k \<in> delivered_keys env es. stored t' k = None} = 0" using dom by (auto simp: card_eq_0_iff)
  moreover have "merged (stored t') (delivered_rows env later es) = stored t'"
  proof
    show "merged (stored t') (delivered_rows env later es) k = stored t' k" for k
      using dom[of k] keys[of k] by (cases "k \<in> delivered_keys env es") (auto simp: merged_def split: option.splits)
  qed
  ultimately show ?thesis
    using outbox.ingest_rows[OF table_outbox[OF assms(1)] s(2) _ assms(5)] acc p assms(3) s(1) by auto
qed

theorem redelivery_idempotent_witness:
  "let t = snd (snd (ingest sample_receiver (table_ops (sort_key receivedAt)) () [] 7 \<lparr>sm_available = 1, sm_max = 1\<rparr> []))
   in fst (ingest sample_receiver (table_ops (sort_key receivedAt)) () [] 8 \<lparr>sm_available = 1, sm_max = 1\<rparr> t) = Accepted 0"
proof -
  let ?sem = "\<lparr>sm_available = 1, sm_max = 1\<rparr> :: semaphore"
  let ?t = "snd (snd (ingest sample_receiver (table_ops (sort_key receivedAt)) () [] 7 ?sem []))"
  have i: "ingest sample_receiver (table_ops (sort_key receivedAt)) () [] 7 ?sem [] = (Accepted 2, ?sem, ?t)" by code_simp
  obtain res sem'' t'' where j: "ingest sample_receiver (table_ops (sort_key receivedAt)) () [] 8 ?sem ?t = (res, sem'', t'')"
    using prod_cases3 by blast
  show ?thesis
    unfolding Let_def j using redelivery_idempotent[OF order_ok_sort_key _ _ i j] by (simp add: keys_distinct_def)
qed

end

