(* ===== verification/Reconstructor.thy ===== *)
theory Reconstructor
  imports Accounting PublicKey
begin

text \<open>
  \<open>packages/solana-portfolio/src/reconstructor.ts\<close> with \<open>swap-tracer.ts\<close>: rebuilding the lots of a
  token from the wallet's on-chain history. The RPC node (pages of signatures, transactions), the
  registered tracers and the transfer-basis hook are parameters; numbers and decimal strings of RPC
  answers are the integers they denote. Every call may throw.
\<close>

section \<open>RPC shapes\<close>

record signature_entry =
  sg_signature :: string
  sg_slot :: nat
  sg_blockTime :: "int option"
  sg_err :: bool

record token_balance_entry =
  tb_owner :: "string option"
  tb_mint :: "string option"
  tb_amount :: "int option"

record rpc_instruction =
  ri_programIdIndex :: nat
  ri_accounts :: "nat list option"
  ri_data :: "string option"

record rpc_transaction =
  tx_err :: bool
  tx_preBalances :: "int list option"
  tx_postBalances :: "int list option"
  tx_fee :: "int option"
  tx_preTokenBalances :: "token_balance_entry list option"
  tx_postTokenBalances :: "token_balance_entry list option"
  tx_logMessages :: "string list option"
  tx_loadedAddresses :: "(string list option \<times> string list option) option"
  tx_accountKeys :: "string list"
  tx_instructions :: "rpc_instruction list option"

section \<open>What a tracer sees\<close>

record parsed_instruction =
  pi_programId :: pubkey
  pi_accounts :: "pubkey list"
  pi_data :: bytes

record parsed_balance =
  pb_owner :: pubkey
  pb_mint :: pubkey
  pb_amount :: int

record parsed_transaction =
  pt_signature :: string
  pt_slot :: nat
  pt_programIds :: "pubkey list"
  pt_preBalances :: "(string, int) jsmap"
  pt_postBalances :: "(string, int) jsmap"
  pt_preTokenBalances :: "parsed_balance list"
  pt_postTokenBalances :: "parsed_balance list"
  pt_feeLamports :: int
  pt_logMessages :: "string list"
  pt_instructions :: "parsed_instruction list"

datatype trace_result =
    Swap int int                 \<comment> \<open>\<open>solOut\<close> and \<open>tokensIn\<close>\<close>
  | TransferredIn "pubkey option"

type_synonym swap_tracer = "parsed_transaction \<Rightarrow> pubkey \<Rightarrow> pubkey \<Rightarrow> trace_result option"
type_synonym tracer_registry = "(string, swap_tracer list) jsmap"

definition register_tracer :: "pubkey \<Rightarrow> swap_tracer \<Rightarrow> tracer_registry \<Rightarrow> tracer_registry" where
  "register_tracer programId tracer reg =
     (let key = toBase58 programId; arr = (case jm_get reg key of Some a \<Rightarrow> a | None \<Rightarrow> []) in jm_set reg key (arr @ [tracer]))"

definition tracersFor :: "tracer_registry \<Rightarrow> pubkey \<Rightarrow> swap_tracer list" where
  "tracersFor reg programId = (case jm_get reg (toBase58 programId) of Some a \<Rightarrow> a | None \<Rightarrow> [])"

section \<open>RPC transaction helpers\<close>

datatype recon_error = RpcFailed string | BadKey pubkey_error | BadData base58_error | Accounting accounting_error

definition key_of :: "string \<Rightarrow> recon_error + pubkey" where
  "key_of s = (case fromBase58 s of Inl e \<Rightarrow> Inl (BadKey e) | Inr k \<Rightarrow> Inr k)"

abbreviation listed :: "'a list option \<Rightarrow> 'a list" where
  "listed xs \<equiv> (case xs of Some ys \<Rightarrow> ys | None \<Rightarrow> [])"

definition accountKeys :: "rpc_transaction \<Rightarrow> string list" where
  "accountKeys tx = tx_accountKeys tx @
     (case tx_loadedAddresses tx of Some (w, _) \<Rightarrow> listed w | None \<Rightarrow> []) @
     (case tx_loadedAddresses tx of Some (_, r) \<Rightarrow> listed r | None \<Rightarrow> [])"

abbreviation entry_amount :: "token_balance_entry \<Rightarrow> int" where
  "entry_amount b \<equiv> (case tb_amount b of Some a \<Rightarrow> a | None \<Rightarrow> 0)"

definition ownedAmount :: "token_balance_entry list option \<Rightarrow> pubkey \<Rightarrow> pubkey \<Rightarrow> int" where
  "ownedAmount entries owner mint =
     foldl (\<lambda>s b. s + entry_amount b) 0
       (filter (\<lambda>b. tb_owner b = Some (toBase58 owner) \<and> tb_mint b = Some (toBase58 mint)) (listed entries))"

text \<open>\<open>new Set(...)\<close> keeps the first occurrence of each value.\<close>

definition unique :: "'a list \<Rightarrow> 'a list" where
  "unique xs = rev (remdups (rev xs))"

definition other_owners :: "rpc_transaction \<Rightarrow> pubkey \<Rightarrow> pubkey \<Rightarrow> string list" where
  "other_owners tx wallet mint =
     unique (map (\<lambda>b. the (tb_owner b))
       (filter (\<lambda>b. tb_mint b = Some (toBase58 mint) \<and> (case tb_owner b of Some ow \<Rightarrow> ow \<noteq> [] \<and> ow \<noteq> toBase58 wallet | None \<Rightarrow> False))
          (listed (tx_preTokenBalances tx) @ listed (tx_postTokenBalances tx))))"

fun biggest_drop :: "rpc_transaction \<Rightarrow> pubkey \<Rightarrow> string list \<Rightarrow> (string \<times> int) option \<Rightarrow> recon_error + (string \<times> int) option" where
  "biggest_drop tx mint [] best = Inr best"
| "biggest_drop tx mint (ow # ows) best =
     rbind (key_of ow) (\<lambda>pk.
       let fall = ownedAmount (tx_preTokenBalances tx) pk mint - ownedAmount (tx_postTokenBalances tx) pk mint
       in biggest_drop tx mint ows
            (if fall > 0 \<and> (case best of None \<Rightarrow> True | Some (_, d) \<Rightarrow> fall > d) then Some (ow, fall) else best))"

definition transferSource :: "rpc_transaction \<Rightarrow> pubkey \<Rightarrow> pubkey \<Rightarrow> recon_error + pubkey option" where
  "transferSource tx wallet mint =
     rbind (biggest_drop tx mint (other_owners tx wallet mint) None) (\<lambda>best.
       case best of None \<Rightarrow> Inr None | Some (ow, _) \<Rightarrow> rbind (key_of ow) (\<lambda>pk. Inr (Some pk)))"

definition parse_instruction :: "pubkey list \<Rightarrow> rpc_instruction \<Rightarrow> recon_error + parsed_instruction list" where
  "parse_instruction accounts ix =
     (case jat accounts (ri_programIdIndex ix) of
        None \<Rightarrow> Inr []
      | Some programId \<Rightarrow>
          rbind (case ri_data ix of
                   Some d \<Rightarrow> if d = [] then Inr [] else (case base58_decode d of Inl e \<Rightarrow> Inl (BadData e) | Inr bs \<Rightarrow> Inr bs)
                 | None \<Rightarrow> Inr []) (\<lambda>dat.
            Inr [\<lparr>pi_programId = programId, pi_accounts = concat (map (\<lambda>i. case jat accounts i of Some k \<Rightarrow> [k] | None \<Rightarrow> []) (listed (ri_accounts ix))),
              pi_data = dat\<rparr>]))"

definition lamports_by_key :: "string list \<Rightarrow> int list option \<Rightarrow> (string, int) jsmap" where
  "lamports_by_key ks arr =
     fold (\<lambda>(i, v) m. jm_set m (case jat ks i of Some k \<Rightarrow> k | None \<Rightarrow> decimal i) v) (enumerate 0 (listed arr)) []"

definition parse_balances :: "token_balance_entry list option \<Rightarrow> recon_error + parsed_balance list" where
  "parse_balances arr =
     rbind (rmap (\<lambda>b. case (tb_owner b, tb_mint b) of
               (Some ow, Some m) \<Rightarrow>
                 if ow = [] \<or> m = [] then Inr []
                 else rbind (key_of ow) (\<lambda>o'. rbind (key_of m) (\<lambda>m'. Inr [\<lparr>pb_owner = o', pb_mint = m', pb_amount = entry_amount b\<rparr>]))
             | _ \<Rightarrow> Inr []) (listed arr)) (\<lambda>bs. Inr (concat bs))"

definition toParsedTransaction :: "rpc_transaction \<Rightarrow> string \<Rightarrow> nat \<Rightarrow> recon_error + parsed_transaction" where
  "toParsedTransaction tx sig slot =
     (let ks = accountKeys tx in
      rbind (rmap key_of ks) (\<lambda>accounts.
      rbind (rmap (parse_instruction accounts) (listed (tx_instructions tx))) (\<lambda>ixs.
      rbind (rmap key_of (unique (map (toBase58 \<circ> pi_programId) (concat ixs)))) (\<lambda>programIds.
      rbind (parse_balances (tx_preTokenBalances tx)) (\<lambda>pre.
      rbind (parse_balances (tx_postTokenBalances tx)) (\<lambda>post.
        Inr \<lparr>pt_signature = sig, pt_slot = slot, pt_programIds = programIds,
          pt_preBalances = lamports_by_key ks (tx_preBalances tx), pt_postBalances = lamports_by_key ks (tx_postBalances tx),
          pt_preTokenBalances = pre, pt_postTokenBalances = post,
          pt_feeLamports = (case tx_fee tx of Some f \<Rightarrow> f | None \<Rightarrow> 0), pt_logMessages = listed (tx_logMessages tx),
          pt_instructions = concat ixs\<rparr>))))))"

section \<open>The history walk\<close>

record balance_change =
  bc_signature :: string
  bc_slot :: nat
  bc_tx :: rpc_transaction
  bc_pre :: int
  bc_post :: int

record recon_env =
  re_signatures :: "string option \<Rightarrow> string + signature_entry list"   \<comment> \<open>\<open>getSignaturesForAddress\<close>, by \<open>before\<close>\<close>
  re_transaction :: "string \<Rightarrow> string + rpc_transaction option"
  re_tracers :: tracer_registry
  re_transferBasis :: "(pubkey option \<Rightarrow> pubkey \<Rightarrow> int \<Rightarrow> nat \<Rightarrow> string \<Rightarrow> int option) option"
  re_now :: nat
  re_lookbackDays :: nat

definition SIG_PAGE_SIZE :: nat where "SIG_PAGE_SIZE = 1000"

record walk_state =
  wk_changes :: "balance_change list"
  wk_seen :: "string list"
  wk_oldest :: nat

definition too_old :: "recon_env \<Rightarrow> nat \<Rightarrow> signature_entry \<Rightarrow> bool" where
  "too_old env lookbackDays s = (case sg_blockTime s of None \<Rightarrow> False
     | Some t \<Rightarrow> t * 1000 < int (re_now env) - int lookbackDays * 24 * 60 * 60 * 1000)"

definition lift_rpc :: "string + 'a \<Rightarrow> recon_error + 'a" where
  "lift_rpc m = (case m of Inl e \<Rightarrow> Inl (RpcFailed e) | Inr x \<Rightarrow> Inr x)"

text \<open>One page; the flag says that the walk returned from inside it.\<close>

fun walk_page :: "recon_env \<Rightarrow> pubkey \<Rightarrow> pubkey \<Rightarrow> nat \<Rightarrow> signature_entry list \<Rightarrow> walk_state \<Rightarrow> recon_error + (bool \<times> walk_state)" where
  "walk_page env wallet mint days [] w = Inr (False, w)"
| "walk_page env wallet mint days (s # ss) w =
     (let w = w\<lparr>wk_seen := wk_seen w @ [sg_signature s]\<rparr>
      in if too_old env days s then Inr (True, w)
         else if sg_err s then walk_page env wallet mint days ss w
         else rbind (lift_rpc (re_transaction env (sg_signature s))) (\<lambda>tx.
           case tx of
             None \<Rightarrow> walk_page env wallet mint days ss w
           | Some tx \<Rightarrow>
               if tx_err tx then walk_page env wallet mint days ss w
               else let w = w\<lparr>wk_oldest := sg_slot s\<rparr>;
                        pre = ownedAmount (tx_preTokenBalances tx) wallet mint;
                        post = ownedAmount (tx_postTokenBalances tx) wallet mint
                    in if pre = post then walk_page env wallet mint days ss w
                       else let w = w\<lparr>wk_changes := wk_changes w @
                                  [\<lparr>bc_signature = sg_signature s, bc_slot = sg_slot s, bc_tx = tx, bc_pre = pre, bc_post = post\<rparr>]\<rparr>
                            in if pre = 0 then Inr (True, w) else walk_page env wallet mint days ss w))"

text \<open>\<open>for (;;)\<close> over the pages; \<open>None\<close> when the fuel runs out.\<close>

fun walk_pages :: "nat \<Rightarrow> recon_env \<Rightarrow> pubkey \<Rightarrow> pubkey \<Rightarrow> nat \<Rightarrow> string option \<Rightarrow> walk_state \<Rightarrow> (recon_error + walk_state) option" where
  "walk_pages 0 env wallet mint days before w = None"
| "walk_pages (Suc n) env wallet mint days before w =
     (case lift_rpc (re_signatures env before) of
        Inl e \<Rightarrow> Some (Inl e)
      | Inr page \<Rightarrow>
          (let fresh = filter (\<lambda>s. sg_signature s \<notin> set (wk_seen w)) page
           in if fresh = [] then Some (Inr w)
              else (case walk_page env wallet mint days fresh w of
                      Inl e \<Rightarrow> Some (Inl e)
                    | Inr (returned, w) \<Rightarrow>
                        if returned then Some (Inr w)
                        else if length page < SIG_PAGE_SIZE then Some (Inr w)
                        else walk_pages n env wallet mint days (Some (sg_signature (last page))) w)))"

definition walk_history :: "nat \<Rightarrow> recon_env \<Rightarrow> pubkey \<Rightarrow> pubkey \<Rightarrow> nat \<Rightarrow> (recon_error + walk_state) option" where
  "walk_history fuel env wallet mint days =
     walk_pages fuel env wallet mint days None \<lparr>wk_changes = [], wk_seen = [], wk_oldest = 0\<rparr>"

section \<open>Classification\<close>

definition base_lot :: "recon_env \<Rightarrow> balance_change \<Rightarrow> int \<Rightarrow> lot" where
  "base_lot env c delta = \<lparr>amount = delta, costBasisLamports = 0, acquiredSlot = bc_slot c, acquiredSig = bc_signature c,
     source = Airdrop, reconstructedAt = Some (re_now env), basisUnresolved = False\<rparr>"

definition transferIn :: "recon_env \<Rightarrow> lot \<Rightarrow> pubkey option \<Rightarrow> pubkey \<Rightarrow> lot" where
  "transferIn env base src mint =
     (case (case re_transferBasis env of Some f \<Rightarrow> f src mint (amount base) (acquiredSlot base) (acquiredSig base) | None \<Rightarrow> None) of
        None \<Rightarrow> base\<lparr>costBasisLamports := 0, source := TransferIn, basisUnresolved := True\<rparr>
      | Some basis \<Rightarrow> base\<lparr>costBasisLamports := basis, source := TransferIn\<rparr>)"

text \<open>The first tracer, in the order of the transaction's programs, that has an answer.\<close>

fun first_trace :: "swap_tracer list \<Rightarrow> parsed_transaction \<Rightarrow> pubkey \<Rightarrow> pubkey \<Rightarrow> trace_result option" where
  "first_trace [] tx wallet mint = None"
| "first_trace (t # ts) tx wallet mint = (case t tx wallet mint of Some r \<Rightarrow> Some r | None \<Rightarrow> first_trace ts tx wallet mint)"

definition solOut_of :: "rpc_transaction \<Rightarrow> pubkey \<Rightarrow> int" where
  "solOut_of tx wallet =
     (case findIndex (\<lambda>k. k = toBase58 wallet) (accountKeys tx) of
        None \<Rightarrow> 0
      | Some idx \<Rightarrow>
          (case (jat (listed (tx_preBalances tx)) idx, jat (listed (tx_postBalances tx)) idx) of
             (Some a, Some b) \<Rightarrow> a - b - (if idx = 0 then (case tx_fee tx of Some f \<Rightarrow> f | None \<Rightarrow> 0) else 0)
           | _ \<Rightarrow> 0))"

text \<open>The lot, given what the tracers said.\<close>

definition classify_untraced :: "recon_env \<Rightarrow> balance_change \<Rightarrow> pubkey \<Rightarrow> pubkey \<Rightarrow> lot \<Rightarrow> recon_error + lot" where
  "classify_untraced env c wallet mint base =
     (let solOut = solOut_of (bc_tx c) wallet
      in if solOut > 0 then Inr (base\<lparr>costBasisLamports := solOut, source := ColdStartReconstructed\<rparr>)
         else rbind (transferSource (bc_tx c) wallet mint) (\<lambda>src.
           if src \<noteq> None then Inr (transferIn env base src mint)
           else Inr (base\<lparr>costBasisLamports := 0, source := Airdrop\<rparr>)))"

fun classify_traced :: "recon_env \<Rightarrow> balance_change \<Rightarrow> pubkey \<Rightarrow> pubkey \<Rightarrow> lot \<Rightarrow> trace_result \<Rightarrow> recon_error + lot" where
  "classify_traced env c wallet mint base (Swap solOut tokensIn) =
     Inr (base\<lparr>amount := tokensIn, costBasisLamports := solOut, source := ColdStartReconstructed\<rparr>)"
| "classify_traced env c wallet mint base (TransferredIn (Some src)) = Inr (transferIn env base (Some src) mint)"
| "classify_traced env c wallet mint base (TransferredIn None) =
     rbind (transferSource (bc_tx c) wallet mint) (\<lambda>src. Inr (transferIn env base src mint))"

definition classifyInflow :: "recon_env \<Rightarrow> balance_change \<Rightarrow> pubkey \<Rightarrow> pubkey \<Rightarrow> int \<Rightarrow> recon_error + lot" where
  "classifyInflow env c wallet mint delta =
     rbind (toParsedTransaction (bc_tx c) (bc_signature c) (bc_slot c)) (\<lambda>parsed.
       case first_trace (concat (map (tracersFor (re_tracers env)) (pt_programIds parsed))) parsed wallet mint of
         Some r \<Rightarrow> classify_traced env c wallet mint (base_lot env c delta) r
       | None \<Rightarrow> classify_untraced env c wallet mint (base_lot env c delta))"

section \<open>Replay and reconciliation\<close>

definition unresolved_lot :: "recon_env \<Rightarrow> int \<Rightarrow> nat \<Rightarrow> lot" where
  "unresolved_lot env amt slot = \<lparr>amount = amt, costBasisLamports = 0, acquiredSlot = slot, acquiredSig = [],
     source = ColdStartUnresolved, reconstructedAt = Some (re_now env), basisUnresolved = True\<rparr>"

definition sell_fifo :: "lot list \<Rightarrow> int \<Rightarrow> recon_error + lot list" where
  "sell_fifo lots amt = (case reduceLots lots amt 0 FIFO of Inl e \<Rightarrow> Inl (Accounting e) | Inr r \<Rightarrow> Inr (rr_remaining r))"

fun replay :: "recon_env \<Rightarrow> pubkey \<Rightarrow> pubkey \<Rightarrow> balance_change list \<Rightarrow> lot list \<Rightarrow> recon_error + lot list" where
  "replay env wallet mint [] lots = Inr lots"
| "replay env wallet mint (c # cs) lots =
     (let delta = bc_post c - bc_pre c in
      if delta > 0
      then rbind (classifyInflow env c wallet mint delta) (\<lambda>l. replay env wallet mint cs (lots @ [l]))
      else let held = sum_amount lots; out = (if - delta < held then - delta else held)
           in rbind (sell_fifo lots out) (\<lambda>lots. replay env wallet mint cs lots))"

definition reconcile_lots :: "recon_env \<Rightarrow> int \<Rightarrow> nat \<Rightarrow> lot list \<Rightarrow> recon_error + lot list" where
  "reconcile_lots env currentBalance oldest lots =
     (let tot = sum_amount lots
      in if tot > currentBalance then sell_fifo lots (tot - currentBalance)
         else if tot < currentBalance then Inr (lots @ [unresolved_lot env (currentBalance - tot) oldest])
         else Inr lots)"

text \<open>The lots, and the unaccounted amount of the \<open>cost-basis-incomplete\<close> event if there is one.\<close>

definition rebuild_lots :: "recon_env \<Rightarrow> pubkey \<Rightarrow> pubkey \<Rightarrow> int \<Rightarrow> walk_state \<Rightarrow> recon_error + (lot list \<times> int option)" where
  "rebuild_lots env wallet mint currentBalance w =
     (let ordered = rev (wk_changes w);
          opening = (case ordered of c # _ \<Rightarrow> bc_pre c | [] \<Rightarrow> 0);
          lots = (if opening > 0 then [unresolved_lot env opening (wk_oldest w)] else [])
      in rbind (replay env wallet mint ordered lots) (\<lambda>lots.
         rbind (reconcile_lots env currentBalance (wk_oldest w) lots) (\<lambda>lots.
           let unaccounted = sum_amount (filter basisUnresolved lots)
           in Inr (lots, if unaccounted > 0 then Some unaccounted else None))))"

definition reconstruct :: "nat \<Rightarrow> recon_env \<Rightarrow> pubkey \<Rightarrow> pubkey \<Rightarrow> int \<Rightarrow> nat option \<Rightarrow> (recon_error + (lot list \<times> int option)) option" where
  "reconstruct fuel env wallet mint currentBalance lookbackDays =
     (case walk_history fuel env wallet mint (case lookbackDays of Some d \<Rightarrow> d | None \<Rightarrow> re_lookbackDays env) of
        None \<Rightarrow> None
      | Some (Inl e) \<Rightarrow> Some (Inl e)
      | Some (Inr w) \<Rightarrow> Some (rebuild_lots env wallet mint currentBalance w))"

section \<open>The lots add up\<close>

definition tracers_positive :: "tracer_registry \<Rightarrow> bool" where
  "tracers_positive reg \<longleftrightarrow> (\<forall>k ts t. jm_get reg k = Some ts \<and> t \<in> set ts \<longrightarrow>
     (\<forall>tx w m so ti. t tx w m = Some (Swap so ti) \<longrightarrow> 0 < ti))"

lemma first_trace_positive:
  assumes "tracers_positive reg" and "first_trace (concat (map (tracersFor reg) ps)) tx w m = Some (Swap so ti)"
  shows "0 < ti"
proof -
  have "\<exists>t \<in> set ts. t tx w m = Some (Swap so ti)" if "first_trace ts tx w m = Some (Swap so ti)" for ts
    using that by (induction ts) (auto split: option.splits)
  from this[OF assms(2)] obtain t p where "t \<in> set (tracersFor reg p)" "t tx w m = Some (Swap so ti)" by auto
  then obtain ts where "jm_get reg (toBase58 p) = Some ts" "t \<in> set ts"
    by (cases "jm_get reg (toBase58 p)") (auto simp: tracersFor_def)
  then show ?thesis
    using assms(1) \<open>t tx w m = Some (Swap so ti)\<close> unfolding tracers_positive_def by blast
qed

lemma transferIn_simps [simp]: "amount (transferIn env base src mint) = amount base"
  "source (transferIn env base src mint) = TransferIn"
  by (auto simp: transferIn_def split: option.splits)

lemma base_lot_simps [simp]: "amount (base_lot env c delta) = delta"
  by (simp add: base_lot_def)

lemma classify_untraced_ok:
  "classify_untraced env c wallet mint base = Inr l \<Longrightarrow> amount l = amount base \<and> source l \<noteq> ColdStartUnresolved"
  by (auto simp: classify_untraced_def result_simps Let_def split: if_splits)

lemma classify_traced_ok:
  "classify_traced env c wallet mint base r = Inr l \<Longrightarrow> (\<forall>so ti. r = Swap so ti \<longrightarrow> 0 < ti) \<Longrightarrow> 0 < amount base \<Longrightarrow>
   0 < amount l \<and> source l \<noteq> ColdStartUnresolved"
  by (cases "(env, c, wallet, mint, base, r)" rule: classify_traced.cases) (auto simp: result_simps)

lemma classifyInflow_positive:
  assumes "classifyInflow env c wallet mint delta = Inr l" and "0 < delta" and "tracers_positive (re_tracers env)"
  shows "0 < amount l \<and> source l \<noteq> ColdStartUnresolved"
proof -
  obtain parsed where p: "toParsedTransaction (bc_tx c) (bc_signature c) (bc_slot c) = Inr parsed"
    using assms(1) by (auto simp: classifyInflow_def result_simps)
  show ?thesis
  proof (cases "first_trace (concat (map (tracersFor (re_tracers env)) (pt_programIds parsed))) parsed wallet mint")
    case None
    then show ?thesis using assms(1,2) p classify_untraced_ok[of env c wallet mint "base_lot env c delta" l]
      by (simp add: classifyInflow_def)
  next
    case (Some r)
    have "classify_traced env c wallet mint (base_lot env c delta) r = Inr l"
      using assms(1) p Some by (simp add: classifyInflow_def)
    then show ?thesis
      by (rule classify_traced_ok) (use Some first_trace_positive[OF assms(3)] assms(2) in auto)
  qed
qed

lemma first_trace_no_tracers: "first_trace (concat (map (tracersFor []) ps)) tx w m = None"
  by (induction ps) (simp_all add: tracersFor_def)

lemma classifyInflow_amount:
  assumes "classifyInflow env c wallet mint delta = Inr l" and "re_tracers env = []"
  shows "amount l = delta"
  using assms classify_untraced_ok[of env c wallet mint "base_lot env c delta" l]
  by (auto simp: classifyInflow_def result_simps first_trace_no_tracers)

definition accounting_free :: "recon_error + 'a \<Rightarrow> bool" where
  "accounting_free m \<longleftrightarrow> (\<forall>e. m \<noteq> Inl (Accounting e))"

lemma accounting_free_bind: "accounting_free m \<Longrightarrow> (\<And>x. accounting_free (f x)) \<Longrightarrow> accounting_free (rbind m f)"
  by (cases m) (auto simp: accounting_free_def)

lemma accounting_free_Inr [simp]: "accounting_free (Inr x)"
  by (simp add: accounting_free_def)

lemma accounting_free_key [simp]: "accounting_free (key_of s)"
  by (simp add: accounting_free_def key_of_def split: sum.splits)

lemma accounting_free_rmap: "(\<And>x. accounting_free (f x)) \<Longrightarrow> accounting_free (rmap f xs)"
  by (induction xs) (auto intro!: accounting_free_bind)

lemma accounting_free_parse: "accounting_free (parse_instruction accounts ix)"
  unfolding parse_instruction_def
  by (auto simp: accounting_free_def result_simps split: option.splits sum.splits if_splits)

lemma accounting_free_balances: "accounting_free (parse_balances arr)"
  unfolding parse_balances_def
  by (intro accounting_free_bind accounting_free_rmap) (auto intro!: accounting_free_bind split: option.splits)

lemma accounting_free_drop: "accounting_free (biggest_drop tx mint ows best)"
  by (induction tx mint ows best rule: biggest_drop.induct) (auto simp: Let_def intro!: accounting_free_bind)

lemma accounting_free_source: "accounting_free (transferSource tx wallet mint)"
  unfolding transferSource_def
  by (intro accounting_free_bind accounting_free_drop) (auto intro!: accounting_free_bind split: option.splits)

lemma accounting_free_classify: "accounting_free (classifyInflow env c wallet mint delta)"
proof -
  have "accounting_free (toParsedTransaction tx sig slot)" for tx sig slot
    unfolding toParsedTransaction_def Let_def
    by (intro accounting_free_bind accounting_free_rmap accounting_free_balances accounting_free_parse accounting_free_key accounting_free_Inr)
  moreover have "accounting_free (classify_untraced env c wallet mint base)" for base
    unfolding classify_untraced_def Let_def by (auto intro!: accounting_free_bind accounting_free_source)
  moreover have "accounting_free (classify_traced env c wallet mint base r)" for base r
    by (cases "(env, c, wallet, mint, base, r)" rule: classify_traced.cases) (auto intro!: accounting_free_bind accounting_free_source)
  ultimately show ?thesis
    unfolding classifyInflow_def by (auto intro!: accounting_free_bind split: option.splits)
qed

lemma classifyInflow_no_accounting: "classifyInflow env c wallet mint delta \<noteq> Inl (Accounting e)"
  using accounting_free_classify[of env c wallet mint delta] by (simp add: accounting_free_def)

lemma sell_fifo_ok:
  assumes "positive lots" and "0 \<le> amt" and "amt \<le> sum_amount lots"
  shows "\<exists>lots'. sell_fifo lots amt = Inr lots' \<and> positive lots' \<and> sum_amount lots' = sum_amount lots - amt \<and>
    (lots' = lots \<or> lots' = consume amt lots)"
proof (cases "amt = 0")
  case True
  then show ?thesis using assms(1) by (simp add: sell_fifo_def reduceLots_def)
next
  case False
  then obtain r where "reduceLots lots amt 0 FIFO = Inr r" "positive (rr_remaining r)"
    "sum_amount (rr_remaining r) = sum_amount lots - amt" "rr_remaining r = consume amt lots"
    using ordered_sale[of lots amt FIFO 0] assms by auto
  then show ?thesis by (simp add: sell_fifo_def)
qed

definition fine_lots :: "recon_error + lot list \<Rightarrow> bool" where
  "fine_lots m \<longleftrightarrow> (case m of Inl e \<Rightarrow> \<forall>a. e \<noteq> Accounting a | Inr lots \<Rightarrow> positive lots)"

lemma replay_fine:
  assumes "positive lots" and "tracers_positive (re_tracers env)"
  shows "fine_lots (replay env wallet mint cs lots)"
  using assms(1)
proof (induction cs arbitrary: lots)
  case Nil
  then show ?case by (simp add: fine_lots_def)
next
  case (Cons c cs)
  let ?d = "bc_post c - bc_pre c"
  show ?case
  proof (cases "0 < ?d")
    case True
    show ?thesis
    proof (cases "classifyInflow env c wallet mint ?d")
      case (Inl e)
      then show ?thesis using True classifyInflow_no_accounting[of env c wallet mint ?d] by (auto simp: fine_lots_def)
    next
      case (Inr l)
      have "positive (lots @ [l])"
        using classifyInflow_positive[OF Inr True assms(2)] Cons.prems by simp
      from Cons.IH[OF this] show ?thesis using True Inr by simp
    qed
  next
    case False
    let ?out = "if - ?d < sum_amount lots then - ?d else sum_amount lots"
    have "0 \<le> ?out" "?out \<le> sum_amount lots" using sum_positive[OF Cons.prems] False by auto
    then obtain ls where "sell_fifo lots ?out = Inr ls" "positive ls"
      using sell_fifo_ok[OF Cons.prems, of ?out] by blast
    then show ?thesis using Cons.IH[of ls] False by (simp add: Let_def)
  qed
qed

lemma replay_positive:
  assumes "positive lots" and "tracers_positive (re_tracers env)"
  shows "replay env wallet mint cs lots \<noteq> Inl (Accounting e)"
    and "replay env wallet mint cs lots = Inr lots' \<Longrightarrow> positive lots'"
  using replay_fine[OF assms, of wallet mint cs] by (auto simp: fine_lots_def)

lemma reconcile_lots_ok:
  assumes "positive lots" and "0 \<le> currentBalance"
  shows "\<exists>lots'. reconcile_lots env currentBalance oldest lots = Inr lots' \<and> positive lots' \<and> sum_amount lots' = currentBalance"
proof -
  consider "sum_amount lots > currentBalance" | "sum_amount lots < currentBalance" | "sum_amount lots = currentBalance" by linarith
  then show ?thesis
  proof cases
    case 1
    then show ?thesis using sell_fifo_ok[OF assms(1), of "sum_amount lots - currentBalance"] assms(2) by (auto simp: reconcile_lots_def)
  next
    case 2
    then show ?thesis using assms(1) by (simp add: reconcile_lots_def unresolved_lot_def sum_amount_list)
  next
    case 3
    then show ?thesis using assms(1) by (simp add: reconcile_lots_def)
  qed
qed

lemma rebuild_lots_ok:
  assumes "tracers_positive (re_tracers env)" and "0 \<le> currentBalance"
  shows "rebuild_lots env wallet mint currentBalance w \<noteq> Inl (Accounting e)"
    and "rebuild_lots env wallet mint currentBalance w = Inr (lots, ev) \<Longrightarrow> positive lots \<and> sum_amount lots = currentBalance \<and>
      (case ev of None \<Rightarrow> list_all (\<lambda>l. \<not> basisUnresolved l) lots | Some u \<Rightarrow> u = sum_amount (filter basisUnresolved lots) \<and> 0 < u)"
proof -
  define open_amt where "open_amt = (case rev (wk_changes w) of c # _ \<Rightarrow> bc_pre c | [] \<Rightarrow> 0)"
  define start where "start = (if open_amt > 0 then [unresolved_lot env open_amt (wk_oldest w)] else [])"
  have pos: "positive start" by (simp add: start_def unresolved_lot_def)
  note rp = replay_positive[OF pos assms(1), of wallet mint "rev (wk_changes w)"]
  have eq: "rebuild_lots env wallet mint currentBalance w =
     rbind (replay env wallet mint (rev (wk_changes w)) start) (\<lambda>lots.
     rbind (reconcile_lots env currentBalance (wk_oldest w) lots) (\<lambda>lots.
       let unaccounted = sum_amount (filter basisUnresolved lots) in Inr (lots, if unaccounted > 0 then Some unaccounted else None)))"
    by (simp add: rebuild_lots_def start_def open_amt_def Let_def)
  show "rebuild_lots env wallet mint currentBalance w \<noteq> Inl (Accounting e)"
  proof (cases "replay env wallet mint (rev (wk_changes w)) start")
    case (Inl e')
    then show ?thesis unfolding eq using rp(1)[of e] by auto
  next
    case (Inr ls)
    obtain ls' where "reconcile_lots env currentBalance (wk_oldest w) ls = Inr ls'"
      using reconcile_lots_ok[OF rp(2)[OF Inr] assms(2)] by blast
    then show ?thesis unfolding eq Inr by (simp add: Let_def)
  qed
  assume "rebuild_lots env wallet mint currentBalance w = Inr (lots, ev)"
  then obtain ls where ls: "replay env wallet mint (rev (wk_changes w)) start = Inr ls"
    "reconcile_lots env currentBalance (wk_oldest w) ls = Inr lots"
    and ev: "ev = (if sum_amount (filter basisUnresolved lots) > 0 then Some (sum_amount (filter basisUnresolved lots)) else None)"
    unfolding eq by (auto simp: result_simps Let_def)
  have ok: "positive lots" "sum_amount lots = currentBalance"
    using reconcile_lots_ok[OF rp(2)[OF ls(1)] assms(2), of env "wk_oldest w"] ls(2) by auto
  have "list_all (\<lambda>l. \<not> basisUnresolved l) ls" if "sum_amount (filter basisUnresolved ls) \<le> 0" "positive ls" for ls
    using that
  proof (induction ls)
    case (Cons l ls)
    have "0 \<le> sum_amount (filter basisUnresolved ls)"
      using Cons.prems(2) by (intro sum_positive) (auto simp: positive_def)
    then show ?case using Cons by (auto simp: sum_amount_list split: if_splits)
  qed simp
  then show "positive lots \<and> sum_amount lots = currentBalance \<and>
      (case ev of None \<Rightarrow> list_all (\<lambda>l. \<not> basisUnresolved l) lots | Some u \<Rightarrow> u = sum_amount (filter basisUnresolved lots) \<and> 0 < u)"
    using ok ev by auto
qed

text \<open>
  C15. The lots of a reconstruction are worth exactly the live balance: whatever the history, with
  tracers that never report a swap of no tokens, every lot is positive, they sum to
  \<open>currentBalance\<close>, accounting never fails on the way, and the \<open>cost-basis-incomplete\<close> event is
  emitted exactly when some lot's basis is unresolved, with the sum of those lots.
\<close>
theorem reconstruct_balances:
  assumes "tracers_positive (re_tracers env)" and "0 \<le> currentBalance"
    and "reconstruct fuel env wallet mint currentBalance days = Some res"
  shows "case res of
      Inl e \<Rightarrow> \<nexists>a. e = Accounting a
    | Inr (lots, ev) \<Rightarrow> positive lots \<and> sum_amount lots = currentBalance \<and>
        (case ev of None \<Rightarrow> list_all (\<lambda>l. \<not> basisUnresolved l) lots | Some u \<Rightarrow> u = sum_amount (filter basisUnresolved lots) \<and> 0 < u)"
proof -
  have page: "accounting_free (walk_page env wallet mint d ss w)" for d ss w
    by (induction env wallet mint d ss w rule: walk_page.induct)
      (auto simp: Let_def lift_rpc_def accounting_free_def result_simps split: option.splits sum.splits if_splits)
  have walk: "accounting_free m" if "walk_pages n env wallet mint d before w = Some m" for n d before w m
    using that
  proof (induction n arbitrary: before w)
    case (Suc n)
    show ?case
    proof (cases "re_signatures env before")
      case (Inl e)
      then show ?thesis using Suc.prems by (auto simp: lift_rpc_def accounting_free_def)
    next
      case (Inr pg)
      then show ?thesis
        using Suc page[of d "filter (\<lambda>s. sg_signature s \<notin> set (wk_seen w)) pg" w]
        by (auto simp: lift_rpc_def accounting_free_def Let_def split: if_splits sum.splits prod.splits)
    qed
  qed simp
  show ?thesis
  proof (cases "walk_history fuel env wallet mint (case days of Some d \<Rightarrow> d | None \<Rightarrow> re_lookbackDays env)")
    case None
    then show ?thesis using assms(3) by (simp add: reconstruct_def)
  next
    case (Some m)
    show ?thesis
    proof (cases m)
      case (Inl e)
      then show ?thesis using assms(3) Some walk[of _ _ _ _ m] by (auto simp: reconstruct_def walk_history_def accounting_free_def)
    next
      case (Inr w)
      then have res: "res = rebuild_lots env wallet mint currentBalance w" using assms(3) Some by (simp add: reconstruct_def)
      show ?thesis
      proof (cases res)
        case (Inl e)
        then show ?thesis using rebuild_lots_ok(1)[OF assms(1,2), of wallet mint w] res by auto
      next
        case (Inr p)
        obtain lots ev where p: "p = (lots, ev)" by fastforce
        have "rebuild_lots env wallet mint currentBalance w = Inr (lots, ev)" using res Inr p by simp
        from rebuild_lots_ok(2)[OF assms(1,2) this] show ?thesis unfolding Inr p by simp
      qed
    qed
  qed
qed

section \<open>A history that explains the balance\<close>

fun chained :: "int \<Rightarrow> balance_change list \<Rightarrow> int \<Rightarrow> bool" where
  "chained p [] q \<longleftrightarrow> p = q"
| "chained p (c # cs) q \<longleftrightarrow> bc_pre c = p \<and> 0 \<le> bc_post c \<and> chained (bc_post c) cs q"

definition no_cold_start :: "lot list \<Rightarrow> bool" where
  "no_cold_start lots \<longleftrightarrow> (\<forall>l \<in> set lots. source l \<noteq> ColdStartUnresolved)"

lemma consume_source: "no_cold_start lots \<Longrightarrow> no_cold_start (consume t lots)"
  by (induction t lots rule: consume.induct) (auto simp: no_cold_start_def)

lemma tracers_positive_Nil: "tracers_positive []"
  by (simp add: tracers_positive_def)

lemma replay_chained:
  assumes "re_tracers env = []" and "chained (sum_amount lots) cs q" and "positive lots" and "no_cold_start lots"
    and "replay env wallet mint cs lots = Inr lots'"
  shows "sum_amount lots' = q \<and> no_cold_start lots'"
  using assms(2-)
proof (induction cs arbitrary: lots)
  case Nil
  then show ?case by simp
next
  case (Cons c cs)
  let ?d = "bc_post c - bc_pre c"
  have tr: "tracers_positive (re_tracers env)" using assms(1) tracers_positive_Nil by simp
  have pre: "bc_pre c = sum_amount lots" and post: "0 \<le> bc_post c" "chained (bc_post c) cs q" using Cons.prems(1) by simp_all
  show ?case
  proof (cases "0 < ?d")
    case True
    then obtain l where l: "classifyInflow env c wallet mint ?d = Inr l" "replay env wallet mint cs (lots @ [l]) = Inr lots'"
      using Cons.prems(4) by (auto simp: result_simps)
    have "amount l = ?d" "0 < amount l" "source l \<noteq> ColdStartUnresolved"
      using classifyInflow_amount[OF l(1) assms(1)] classifyInflow_positive[OF l(1) True tr] by auto
    then show ?thesis
      using Cons.IH[OF _ _ _ l(2)] Cons.prems(2,3) pre post(2) by (simp add: sum_amount_list no_cold_start_def)
  next
    case False
    have out: "(if - ?d < sum_amount lots then - ?d else sum_amount lots) = - ?d" using pre post(1) False by auto
    obtain ls where ls: "sell_fifo lots (- ?d) = Inr ls" "positive ls" "sum_amount ls = sum_amount lots + ?d" "ls = lots \<or> ls = consume (- ?d) lots"
      using sell_fifo_ok[OF Cons.prems(2), of "- ?d"] pre post(1) False by auto
    have "replay env wallet mint cs ls = Inr lots'"
      using Cons.prems(4) False ls(1) unfolding replay.simps Let_def out by simp
    moreover have "no_cold_start ls" using ls(4) Cons.prems(3) consume_source by auto
    ultimately show ?thesis using Cons.IH[of ls] ls(2,3) pre post(2) by simp
  qed
qed

text \<open>
  A history that explains the balance leaves nothing unresolved by the walk: if the walk
  reached the transaction that opened the position, each change starts where the one before ended,
  and the last one ends at the live balance, then no lot is a \<open>cold-start-unresolved\<close> one; only
  transfers without a known basis are left in the event.
\<close>
theorem explained_history_resolved:
  assumes "re_tracers env = []" and "chained 0 (rev (wk_changes w)) currentBalance"
    and "rebuild_lots env wallet mint currentBalance w = Inr (lots, ev)"
  shows "no_cold_start lots \<and> sum_amount lots = currentBalance"
proof -
  have start: "(case rev (wk_changes w) of c # _ \<Rightarrow> bc_pre c | [] \<Rightarrow> 0) = 0"
    using assms(2) by (cases "rev (wk_changes w)") auto
  obtain ls where ls: "replay env wallet mint (rev (wk_changes w)) [] = Inr ls"
    "reconcile_lots env currentBalance (wk_oldest w) ls = Inr lots"
    using assms(3) unfolding rebuild_lots_def Let_def start by (auto simp: result_simps)
  have "sum_amount ls = currentBalance \<and> no_cold_start ls"
    using replay_chained[OF assms(1) _ _ _ ls(1), of currentBalance] assms(2) by (simp add: sum_amount_def no_cold_start_def)
  then show ?thesis using ls(2) by (simp add: reconcile_lots_def)
qed

section \<open>The walk ends\<close>

definition histories_in :: "recon_env \<Rightarrow> string set \<Rightarrow> bool" where
  "histories_in env S \<longleftrightarrow> (\<forall>before page. re_signatures env before = Inr page \<longrightarrow> sg_signature ` set page \<subseteq> S)"

lemma walk_page_Cons:
  assumes "walk_page env wallet mint days (s # ss) w = Inr (b, w')"
  shows "wk_seen w' = wk_seen w @ [sg_signature s] \<or>
    (\<exists>w2. wk_seen w2 = wk_seen w @ [sg_signature s] \<and> walk_page env wallet mint days ss w2 = Inr (b, w'))"
proof -
  have next_page: ?thesis if "walk_page env wallet mint days ss w2 = Inr (b, w')" "wk_seen w2 = wk_seen w @ [sg_signature s]" for w2
    using that by blast
  show ?thesis
    using assms by (auto simp: Let_def result_simps split: if_splits option.splits intro: next_page)
qed

lemma walk_page_seen:
  "walk_page env wallet mint days ss w = Inr (b, w') \<Longrightarrow> set (wk_seen w) \<subseteq> set (wk_seen w') \<and> set (wk_seen w') \<subseteq> set (wk_seen w) \<union> sg_signature ` set ss \<and>
   (ss \<noteq> [] \<longrightarrow> sg_signature (hd ss) \<in> set (wk_seen w'))"
proof (induction ss arbitrary: w)
  case Nil
  then show ?case by simp
next
  case (Cons s ss)
  show ?case
    using walk_page_Cons[OF Cons.prems]
  proof
    assume "\<exists>w2. wk_seen w2 = wk_seen w @ [sg_signature s] \<and> walk_page env wallet mint days ss w2 = Inr (b, w')"
    then obtain w2 where w2: "wk_seen w2 = wk_seen w @ [sg_signature s]" "walk_page env wallet mint days ss w2 = Inr (b, w')" by blast
    show ?thesis using Cons.IH[OF w2(2)] w2(1) by auto
  qed auto
qed

text \<open>
  C16. The walk ends: when all the signatures the node ever lists belong to a finite history, every
  page but the last adds a signature not seen before, so as many rounds as there are signatures,
  and one more, are enough, whatever \<open>before\<close> the node is asked with.
\<close>
theorem walk_ends:
  assumes "finite S" and "histories_in env S"
  shows "walk_history (Suc (card S)) env wallet mint days \<noteq> None"
proof -
  have key: "walk_pages n env wallet mint days before w \<noteq> None" if "card (S - set (wk_seen w)) < n" for n before w
    using that
  proof (induction n arbitrary: before w)
    case (Suc n)
    show ?case
    proof (cases "re_signatures env before")
      case (Inl e)
      then show ?thesis by (simp add: lift_rpc_def)
    next
      case (Inr pg)
      define fresh where "fresh = filter (\<lambda>s. sg_signature s \<notin> set (wk_seen w)) pg"
      show ?thesis
      proof (cases "fresh = [] \<or> (\<exists>e. walk_page env wallet mint days fresh w = Inl e)")
        case True
        then show ?thesis using Inr by (auto simp: lift_rpc_def fresh_def[symmetric] Let_def)
      next
        case False
        then obtain b w' where w': "walk_page env wallet mint days fresh w = Inr (b, w')"
          by (cases "walk_page env wallet mint days fresh w") auto
        have "hd fresh \<in> set fresh" using False by simp
        then have "sg_signature (hd fresh) \<in> S" "sg_signature (hd fresh) \<notin> set (wk_seen w)"
          using assms(2) Inr unfolding histories_in_def fresh_def by (auto simp del: hd_in_set)
        moreover have "set (wk_seen w) \<subseteq> set (wk_seen w')" "sg_signature (hd fresh) \<in> set (wk_seen w')"
          using walk_page_seen[OF w'] False by auto
        ultimately have "S - set (wk_seen w') \<subset> S - set (wk_seen w)" by blast
        then have "card (S - set (wk_seen w')) < card (S - set (wk_seen w))"
          using assms(1) by (intro psubset_card_mono) auto
        then have "walk_pages n env wallet mint days (Some (sg_signature (last pg))) w' \<noteq> None"
          using Suc.IH Suc.prems by simp
        then show ?thesis using Inr w' False by (auto simp: lift_rpc_def fresh_def[symmetric] Let_def)
      qed
    qed
  qed simp
  show ?thesis unfolding walk_history_def by (rule key) simp
qed

section \<open>A sample history\<close>

definition sample_wallet :: pubkey where "sample_wallet = Abs_pubkey (replicate 32 1)"
definition sample_mint :: pubkey where "sample_mint = Abs_pubkey (replicate 32 2)"

definition sample_balance :: "int \<Rightarrow> token_balance_entry list option" where
  "sample_balance a = Some [\<lparr>tb_owner = Some (toBase58 sample_wallet), tb_mint = Some (toBase58 sample_mint), tb_amount = Some a\<rparr>]"

definition sample_tx :: "int \<Rightarrow> int \<Rightarrow> rpc_transaction" where
  "sample_tx pre post = \<lparr>tx_err = False, tx_preBalances = None, tx_postBalances = None, tx_fee = None,
     tx_preTokenBalances = sample_balance pre, tx_postTokenBalances = sample_balance post, tx_logMessages = None,
     tx_loadedAddresses = None, tx_accountKeys = [], tx_instructions = None\<rparr>"

text \<open>Newest first: 20 tokens left, after 50 had come in.\<close>

definition sample_history :: recon_env where
  "sample_history = \<lparr>re_signatures = (\<lambda>before. Inr [\<lparr>sg_signature = ''b'', sg_slot = 9, sg_blockTime = None, sg_err = False\<rparr>,
       \<lparr>sg_signature = ''a'', sg_slot = 4, sg_blockTime = None, sg_err = False\<rparr>]),
     re_transaction = (\<lambda>s. Inr (Some (if s = ''a'' then sample_tx 0 50 else sample_tx 50 30))),
     re_tracers = [], re_transferBasis = None, re_now = 1000, re_lookbackDays = 90\<rparr>"

definition sample_changes :: "balance_change list" where
  "sample_changes = [\<lparr>bc_signature = ''b'', bc_slot = 9, bc_tx = sample_tx 50 30, bc_pre = 50, bc_post = 30\<rparr>,
     \<lparr>bc_signature = ''a'', bc_slot = 4, bc_tx = sample_tx 0 50, bc_pre = 0, bc_post = 50\<rparr>]"

lemma owned_sample: "ownedAmount (sample_balance a) sample_wallet sample_mint = a"
  by (simp add: ownedAmount_def sample_balance_def)

lemma sample_walk:
  "walk_history 3 sample_history sample_wallet sample_mint 90 =
     Some (Inr \<lparr>wk_changes = sample_changes, wk_seen = [''b'', ''a''], wk_oldest = 4\<rparr>)"
  by (simp add: walk_history_def numeral_3_eq_3 sample_history_def lift_rpc_def Let_def too_old_def sample_tx_def owned_sample sample_changes_def)

lemma sample_classify: "classifyInflow sample_history (sample_changes ! 1) sample_wallet sample_mint 50 =
   Inr \<lparr>amount = 50, costBasisLamports = 0, acquiredSlot = 4, acquiredSig = ''a'', source = Airdrop, reconstructedAt = Some 1000, basisUnresolved = False\<rparr>"
proof -
  have o: "other_owners (sample_tx 0 50) sample_wallet sample_mint = []"
    by (simp add: other_owners_def sample_tx_def sample_balance_def unique_def)
  have "\<exists>p. toParsedTransaction (sample_tx 0 50) ''a'' 4 = Inr p"
    by (simp add: toParsedTransaction_def sample_tx_def accountKeys_def parse_balances_def sample_balance_def key_of_def unique_def Let_def)
  then obtain p where p: "toParsedTransaction (sample_tx 0 50) ''a'' 4 = Inr p" by blast
  have "solOut_of (sample_tx 0 50) sample_wallet = 0"
    by (simp add: solOut_of_def sample_tx_def accountKeys_def)
  then have u: "classify_untraced sample_history (sample_changes ! 1) sample_wallet sample_mint (base_lot sample_history (sample_changes ! 1) 50) =
     Inr ((base_lot sample_history (sample_changes ! 1) 50)\<lparr>costBasisLamports := 0, source := Airdrop\<rparr>)"
    by (simp add: classify_untraced_def sample_changes_def transferSource_def o Let_def)
  have "re_tracers sample_history = []" by (simp add: sample_history_def)
  then have "classifyInflow sample_history (sample_changes ! 1) sample_wallet sample_mint 50 =
     classify_untraced sample_history (sample_changes ! 1) sample_wallet sample_mint (base_lot sample_history (sample_changes ! 1) 50)"
    using p by (simp add: classifyInflow_def sample_changes_def first_trace_no_tracers)
  then show ?thesis unfolding u by (simp add: base_lot_def sample_changes_def sample_history_def)
qed

lemma sample_rebuild:
  "\<exists>lots ev. rebuild_lots sample_history sample_wallet sample_mint 30 \<lparr>wk_changes = sample_changes, wk_seen = [''b'', ''a''], wk_oldest = 4\<rparr> = Inr (lots, ev)"
proof -
  let ?l = "\<lparr>amount = 50, costBasisLamports = 0, acquiredSlot = 4, acquiredSig = ''a'', source = Airdrop, reconstructedAt = Some 1000, basisUnresolved = False\<rparr> :: lot"
  have c: "classifyInflow sample_history \<lparr>bc_signature = ''a'', bc_slot = 4, bc_tx = sample_tx 0 50, bc_pre = 0, bc_post = 50\<rparr> sample_wallet sample_mint 50 = Inr ?l"
    using sample_classify by (simp add: sample_changes_def)
  obtain ls where ls: "sell_fifo [?l] 20 = Inr ls" "positive ls" "sum_amount ls = 30"
    using sell_fifo_ok[of "[?l]" 20] by (auto simp: sum_amount_def)
  have "replay sample_history sample_wallet sample_mint (rev sample_changes) [] = Inr ls"
    by (simp add: sample_changes_def c ls(1) sum_amount_def)
  then show ?thesis
    using ls(3) by (simp add: rebuild_lots_def sample_changes_def reconcile_lots_def Let_def)
qed

theorem reconstruct_balances_witness:
  "\<exists>lots ev. reconstruct 3 sample_history sample_wallet sample_mint 30 None = Some (Inr (lots, ev)) \<and> positive lots \<and> sum_amount lots = 30"
proof -
  obtain lots ev where r: "rebuild_lots sample_history sample_wallet sample_mint 30 \<lparr>wk_changes = sample_changes, wk_seen = [''b'', ''a''], wk_oldest = 4\<rparr> = Inr (lots, ev)"
    using sample_rebuild by blast
  have d: "re_lookbackDays sample_history = 90" and t: "tracers_positive (re_tracers sample_history)"
    by (simp_all add: sample_history_def tracers_positive_Nil)
  have res: "reconstruct 3 sample_history sample_wallet sample_mint 30 None = Some (Inr (lots, ev))"
    by (simp add: reconstruct_def d sample_walk r)
  from reconstruct_balances[OF t _ res] show ?thesis using res by simp
qed

theorem explained_history_resolved_witness:
  "\<exists>lots ev. rebuild_lots sample_history sample_wallet sample_mint 30 \<lparr>wk_changes = sample_changes, wk_seen = [''b'', ''a''], wk_oldest = 4\<rparr> = Inr (lots, ev) \<and> no_cold_start lots"
proof -
  obtain lots ev where r: "rebuild_lots sample_history sample_wallet sample_mint 30 \<lparr>wk_changes = sample_changes, wk_seen = [''b'', ''a''], wk_oldest = 4\<rparr> = Inr (lots, ev)"
    using sample_rebuild by blast
  have "re_tracers sample_history = []" by (simp add: sample_history_def)
  from explained_history_resolved[OF this _ r] show ?thesis using r by (simp add: sample_changes_def)
qed

theorem walk_ends_witness: "walk_history 3 sample_history sample_wallet sample_mint 90 \<noteq> None"
proof -
  have "histories_in sample_history {''a'', ''b''}" by (simp add: histories_in_def sample_history_def)
  from walk_ends[OF _ this, of sample_wallet sample_mint 90] show ?thesis by (simp add: numeral_3_eq_3)
qed

end
