(* ===== verification/PortfolioStore.thy ===== *)
theory PortfolioStore
  imports Reconstructor
begin

text \<open>
  \<open>packages/solana-portfolio/src/store-file.ts\<close>: the positions of each wallet, kept in one file per
  wallet. The store is the map from wallets to the contents of their files; writing a file and
  reading it back is the identity (the JSON text is not modelled), and the per-wallet mutex makes
  each operation one step, except for what an operation awaits before it takes the mutex.
\<close>

section \<open>The stored data\<close>

record position =
  ps_mint :: pubkey
  ps_wallet :: pubkey
  ps_lots :: "lot list"
  ps_lastUpdatedSlot :: nat

record wallet_data =
  wd_positions :: "position list"
  wd_realizedPnl :: int
  wd_realizedByMint :: "(string, int) jsmap"
  wd_method :: "accounting_method option"

definition emptyWallet :: wallet_data where
  "emptyWallet = \<lparr>wd_positions = [], wd_realizedPnl = 0, wd_realizedByMint = [], wd_method = None\<rparr>"

record landed_trade =
  lt_signature :: string
  lt_slot :: nat
  lt_wallet :: pubkey
  lt_mint :: pubkey
  lt_amountDelta :: int
  lt_solFlowLamports :: int
  lt_feeLamports :: int

datatype change_reason = ApplyLandedTrade | ColdStart | Reconcile | ManualCorrection

record position_change =
  pc_wallet :: pubkey
  pc_mint :: pubkey
  pc_before :: "position option"
  pc_after :: position
  pc_reason :: change_reason

datatype store_event = Changed position_change | RealizedPnl pubkey pubkey reduce_result nat

record store =
  st_files :: "pubkey \<Rightarrow> wallet_data option"
  st_events :: "store_event list"

datatype store_error = ReduceFailed accounting_error | NoPosition | LotOutOfRange | ReconstructFailed recon_error | BadMint pubkey_error

definition load_or_empty :: "pubkey \<Rightarrow> store \<Rightarrow> wallet_data" where
  "load_or_empty w s = (case st_files s w of Some d \<Rightarrow> d | None \<Rightarrow> emptyWallet)"

definition write_wallet :: "pubkey \<Rightarrow> wallet_data \<Rightarrow> store_event list \<Rightarrow> store \<Rightarrow> store" where
  "write_wallet w d evs s = s\<lparr>st_files := (st_files s)(w := Some d), st_events := st_events s @ evs\<rparr>"

definition find_position :: "pubkey \<Rightarrow> position list \<Rightarrow> position option" where
  "find_position mint ps = List.find (\<lambda>p. pk_equals (ps_mint p) mint) ps"

text \<open>\<open>idx >= 0 ? positions[idx] = pos : positions.push(pos)\<close>, for the first position of the mint.\<close>

fun put_position :: "position \<Rightarrow> position list \<Rightarrow> position list" where
  "put_position pos [] = [pos]"
| "put_position pos (p # ps) = (if pk_equals (ps_mint p) (ps_mint pos) then pos # ps else p # put_position pos ps)"

definition maxSlot :: "lot list \<Rightarrow> nat" where
  "maxSlot lots = foldl (\<lambda>m l. max m (acquiredSlot l)) 0 lots"

section \<open>Reading\<close>

definition getPosition :: "pubkey \<Rightarrow> pubkey \<Rightarrow> store \<Rightarrow> position option" where
  "getPosition w mint s = (case st_files s w of Some d \<Rightarrow> find_position mint (wd_positions d) | None \<Rightarrow> None)"

definition getAllPositions :: "pubkey \<Rightarrow> store \<Rightarrow> position list" where
  "getAllPositions w s = (case st_files s w of Some d \<Rightarrow> wd_positions d | None \<Rightarrow> [])"

definition getRealizedPnl :: "pubkey \<Rightarrow> pubkey \<Rightarrow> store \<Rightarrow> int" where
  "getRealizedPnl w mint s = (case st_files s w of Some d \<Rightarrow> (case jm_get (wd_realizedByMint d) (toBase58 mint) of Some v \<Rightarrow> v | None \<Rightarrow> 0) | None \<Rightarrow> 0)"

definition getUnrealizedPnl :: "pubkey \<Rightarrow> pubkey \<Rightarrow> int \<Rightarrow> store \<Rightarrow> bigint_error + int" where
  "getUnrealizedPnl w mint price s = (case getPosition w mint s of Some p \<Rightarrow> unrealizedPnl (ps_lots p) price | None \<Rightarrow> Inr 0)"

section \<open>Landed trades\<close>

definition bought_lot :: "landed_trade \<Rightarrow> lot" where
  "bought_lot t = \<lparr>amount = lt_amountDelta t, costBasisLamports = (if lt_solFlowLamports t < 0 then - lt_solFlowLamports t else 0),
     acquiredSlot = lt_slot t, acquiredSig = lt_signature t, source = Trade, reconstructedAt = None, basisUnresolved = False\<rparr>"

definition add_realized :: "string \<Rightarrow> int \<Rightarrow> wallet_data \<Rightarrow> wallet_data" where
  "add_realized mintKey v d = d\<lparr>wd_realizedPnl := wd_realizedPnl d + v,
     wd_realizedByMint := jm_set (wd_realizedByMint d) mintKey ((case jm_get (wd_realizedByMint d) mintKey of Some x \<Rightarrow> x | None \<Rightarrow> 0) + v)\<rparr>"

definition trade_position :: "landed_trade \<Rightarrow> wallet_data \<Rightarrow> position" where
  "trade_position t d = (case find_position (lt_mint t) (wd_positions d) of Some p \<Rightarrow> p
     | None \<Rightarrow> \<lparr>ps_mint = lt_mint t, ps_wallet = lt_wallet t, ps_lots = [], ps_lastUpdatedSlot = 0\<rparr>)"

text \<open>The position, the wallet's data and the events after the trade.\<close>

definition trade_effect :: "landed_trade \<Rightarrow> wallet_data \<Rightarrow> store_error + (position \<times> wallet_data \<times> store_event list)" where
  "trade_effect t d =
     (let pos = trade_position t d in
      if lt_amountDelta t > 0
      then Inr (pos\<lparr>ps_lots := ps_lots pos @ [bought_lot t], ps_lastUpdatedSlot := lt_slot t\<rparr>, d, [])
      else if lt_amountDelta t < 0
      then (case reduceLots (ps_lots pos) (- lt_amountDelta t) (if lt_solFlowLamports t > 0 then lt_solFlowLamports t else 0)
                   (case wd_method d of Some m \<Rightarrow> m | None \<Rightarrow> FIFO) of
              Inl e \<Rightarrow> Inl (ReduceFailed e)
            | Inr r \<Rightarrow> Inr (pos\<lparr>ps_lots := rr_remaining r, ps_lastUpdatedSlot := lt_slot t\<rparr>,
                add_realized (toBase58 (lt_mint t)) (rr_realized r) d, [RealizedPnl (lt_wallet t) (lt_mint t) r (lt_slot t)]))
      else Inr (pos, d, []))"

definition applyLandedTrade :: "landed_trade \<Rightarrow> store \<Rightarrow> (store_error + position_change list) \<times> store" where
  "applyLandedTrade t s =
     (let d = load_or_empty (lt_wallet t) s in
      case trade_effect t d of
        Inl e \<Rightarrow> (Inl e, s)
      | Inr (pos, d', evs) \<Rightarrow>
          (let change = \<lparr>pc_wallet = lt_wallet t, pc_mint = lt_mint t, pc_before = find_position (lt_mint t) (wd_positions d),
                 pc_after = pos, pc_reason = ApplyLandedTrade\<rparr>
           in (Inr [change], write_wallet (lt_wallet t) (d'\<lparr>wd_positions := put_position pos (wd_positions d')\<rparr>) (evs @ [Changed change]) s)))"

section \<open>Chain access\<close>

text \<open>
  \<open>rebuild\<close> is what the reconstructor answers for a mint and a balance; \<open>rebuildPosition\<close> asks it
  before it takes the mutex, so its two parts are separate.
\<close>

fun observe_mints :: "(pubkey \<Rightarrow> int \<Rightarrow> recon_error + lot list) \<Rightarrow> pubkey \<Rightarrow> (string \<times> int) list \<Rightarrow> wallet_data \<Rightarrow> position_change list \<Rightarrow>
    store_error + (wallet_data \<times> position_change list)" where
  "observe_mints rebuild w [] d changes = Inr (d, changes)"
| "observe_mints rebuild w ((mintStr, balance) # bs) d changes =
     (if balance = 0 then observe_mints rebuild w bs d changes
      else case fromBase58 mintStr of
             Inl e \<Rightarrow> Inl (BadMint e)
           | Inr mint \<Rightarrow>
               if list_ex (\<lambda>p. pk_equals (ps_mint p) mint) (wd_positions d) then observe_mints rebuild w bs d changes
               else (case rebuild mint balance of
                       Inl e \<Rightarrow> Inl (ReconstructFailed e)
                     | Inr lots \<Rightarrow>
                         (let after = \<lparr>ps_mint = mint, ps_wallet = w, ps_lots = lots, ps_lastUpdatedSlot = maxSlot lots\<rparr>
                          in observe_mints rebuild w bs (d\<lparr>wd_positions := wd_positions d @ [after]\<rparr>)
                               (changes @ [\<lparr>pc_wallet = w, pc_mint = mint, pc_before = None, pc_after = after, pc_reason = ColdStart\<rparr>]))))"

definition observe :: "(pubkey \<Rightarrow> int \<Rightarrow> recon_error + lot list) \<Rightarrow> pubkey \<Rightarrow> (string, int) jsmap \<Rightarrow> accounting_method option \<Rightarrow> store \<Rightarrow>
    (store_error + position_change list) \<times> store" where
  "observe rebuild w balances m s =
     (let d = load_or_empty w s; d = (case m of Some _ \<Rightarrow> d\<lparr>wd_method := m\<rparr> | None \<Rightarrow> d)
      in case observe_mints rebuild w balances d [] of
           Inl e \<Rightarrow> (Inl e, s)
         | Inr (d, changes) \<Rightarrow> (Inr changes, write_wallet w d (map Changed changes) s))"

definition rebuild_commit :: "pubkey \<Rightarrow> pubkey \<Rightarrow> lot list \<Rightarrow> store \<Rightarrow> position_change \<times> store" where
  "rebuild_commit w mint lots s =
     (let d = load_or_empty w s;
          after = \<lparr>ps_mint = mint, ps_wallet = w, ps_lots = lots, ps_lastUpdatedSlot = maxSlot lots\<rparr>;
          change = \<lparr>pc_wallet = w, pc_mint = mint, pc_before = find_position mint (wd_positions d), pc_after = after, pc_reason = Reconcile\<rparr>
      in (change, write_wallet w (d\<lparr>wd_positions := put_position after (wd_positions d)\<rparr>) [Changed change] s))"

definition rebuildPosition :: "(pubkey \<Rightarrow> int \<Rightarrow> recon_error + lot list) \<Rightarrow> pubkey \<Rightarrow> pubkey \<Rightarrow> int \<Rightarrow> store \<Rightarrow> (store_error + position_change) \<times> store" where
  "rebuildPosition rebuild w mint observed s =
     (case rebuild mint observed of
        Inl e \<Rightarrow> (Inl (ReconstructFailed e), s)
      | Inr lots \<Rightarrow> (let (change, s) = rebuild_commit w mint lots s in (Inr change, s)))"

definition correctLotBasis :: "pubkey \<Rightarrow> pubkey \<Rightarrow> nat \<Rightarrow> int \<Rightarrow> store \<Rightarrow> (store_error + int) \<times> store" where
  "correctLotBasis w mint i basis s =
     (case getPosition w mint s of
        None \<Rightarrow> (Inl NoPosition, s)
      | Some pos \<Rightarrow>
          (case jat (ps_lots pos) i of
             None \<Rightarrow> (Inl LotOutOfRange, s)
           | Some l \<Rightarrow>
               (let after = pos\<lparr>ps_lots := (ps_lots pos)[i := l\<lparr>costBasisLamports := basis, basisUnresolved := False\<rparr>]\<rparr>;
                    d = load_or_empty w s
                in (Inr (costBasisLamports l),
                    write_wallet w (d\<lparr>wd_positions := put_position after (wd_positions d)\<rparr>)
                      [Changed \<lparr>pc_wallet = w, pc_mint = mint, pc_before = Some pos, pc_after = after, pc_reason = ManualCorrection\<rparr>] s))))"

section \<open>Holdings\<close>

definition holdings :: "store \<Rightarrow> pubkey \<Rightarrow> pubkey \<Rightarrow> int option" where
  "holdings s w mint = map_option (\<lambda>p. sum_amount (ps_lots p)) (getPosition w mint s)"

text \<open>One position per mint, lots of positive amounts, and a method that consumes lots in order.\<close>

definition wallet_ok :: "wallet_data \<Rightarrow> bool" where
  "wallet_ok d \<longleftrightarrow> distinct (map ps_mint (wd_positions d)) \<and> (\<forall>p \<in> set (wd_positions d). positive (ps_lots p)) \<and> wd_method d \<noteq> Some AvgCost"

definition store_ok :: "store \<Rightarrow> bool" where
  "store_ok s \<longleftrightarrow> (\<forall>w d. st_files s w = Some d \<longrightarrow> wallet_ok d)"

lemma find_put: "find_position m (put_position pos ps) = (if m = ps_mint pos then Some pos else find_position m ps)"
  unfolding find_position_def by (induction ps) (auto simp: pk_equals_eq)

lemma mints_put: "map ps_mint (put_position pos ps) = (if ps_mint pos \<in> ps_mint ` set ps then map ps_mint ps else map ps_mint ps @ [ps_mint pos])"
  by (induction ps) (auto simp: pk_equals_eq)

lemma set_put: "p \<in> set (put_position pos ps) \<Longrightarrow> p = pos \<or> p \<in> set ps"
  by (induction ps) (auto split: if_splits)

lemma find_position_set: "find_position m ps = Some p \<Longrightarrow> p \<in> set ps \<and> ps_mint p = m"
  unfolding find_position_def by (auto simp: find_Some_iff pk_equals_eq)

lemma wallet_ok_put:
  assumes "wallet_ok d" and "positive (ps_lots pos)"
  shows "wallet_ok (d\<lparr>wd_positions := put_position pos (wd_positions d)\<rparr>)"
  using assms set_put[of _ pos "wd_positions d"] by (auto simp: wallet_ok_def mints_put)

lemma wallet_ok_empty: "wallet_ok emptyWallet"
  by (simp add: wallet_ok_def emptyWallet_def)

lemma wallet_ok_load: "store_ok s \<Longrightarrow> wallet_ok (load_or_empty w s)"
  by (auto simp: store_ok_def load_or_empty_def wallet_ok_empty split: option.splits)

lemma store_ok_write: "store_ok s \<Longrightarrow> wallet_ok d \<Longrightarrow> store_ok (write_wallet w d evs s)"
  by (auto simp: store_ok_def write_wallet_def)

lemma getPosition_load: "getPosition w m s = find_position m (wd_positions (load_or_empty w s))"
  by (auto simp: getPosition_def load_or_empty_def emptyWallet_def find_position_def split: option.splits)

lemma load_write [simp]: "load_or_empty w' (write_wallet w d evs s) = (if w' = w then d else load_or_empty w' s)"
  by (simp add: load_or_empty_def write_wallet_def)

lemma holdings_put:
  assumes "wd_positions d = wd_positions (load_or_empty w s)"
  shows "holdings (write_wallet w (d\<lparr>wd_positions := put_position pos (wd_positions d)\<rparr>) evs s) =
    (holdings s)(w := (holdings s w)(ps_mint pos \<mapsto> sum_amount (ps_lots pos)))"
  by (auto simp: holdings_def find_put assms getPosition_load intro!: ext)

text \<open>A sale from lots consumed in order, over the whole range of amounts.\<close>

lemma ordered_oversale:
  assumes "positive lots" and "sum_amount lots < amt" and "m \<noteq> AvgCost"
  shows "\<exists>e. reduceLots lots amt proceeds m = Inl e"
proof -
  let ?ls = "if m = FIFO then lots else rev lots"
  let ?w0 = "\<lparr>toTake = amt, w_costBasis = 0, allocatedProceeds = 0, w_unresolved = False, w_out = []\<rparr>"
  have "0 \<le> sum_amount lots" using assms(1) by (rule sum_positive)
  then have amt: "0 < amt" using assms(2) by simp
  have pos: "positive ?ls" using assms(1) by simp
  obtain w where w: "walk_lots amt proceeds ?w0 ?ls = Inr w" "toTake w = max 0 (amt - sum_amount ?ls)"
    using walk_lots_ok[OF pos amt, of ?w0 proceeds] amt by auto
  have "sum_amount ?ls = sum_amount lots" by (simp add: sum_amount_list rev_map[symmetric])
  then show ?thesis using w amt assms(2,3) by (simp add: reduceLots_def reduce_ordered_def Let_def)
qed

definition ledger :: "wallet_data \<Rightarrow> int" where
  "ledger d = wd_realizedPnl d - sum_list (map snd (wd_realizedByMint d))"

lemma sum_list_jm_set: "sum_list (map snd (jm_set m k v)) = sum_list (map snd m) + v - (case jm_get m k of Some x \<Rightarrow> x | None \<Rightarrow> 0)" for v :: int
  by (induction m) auto

lemma ledger_add: "ledger (add_realized k v d) = ledger d"
  by (simp add: ledger_def add_realized_def sum_list_jm_set)

lemma trade_effect_ok:
  assumes "wallet_ok d"
  shows "case trade_effect t d of
      Inl e \<Rightarrow> sum_amount (ps_lots (trade_position t d)) + lt_amountDelta t < 0
    | Inr (pos, d', evs) \<Rightarrow> 0 \<le> sum_amount (ps_lots (trade_position t d)) + lt_amountDelta t \<and>
        positive (ps_lots pos) \<and> sum_amount (ps_lots pos) = sum_amount (ps_lots (trade_position t d)) + lt_amountDelta t \<and>
        ps_mint pos = lt_mint t \<and> wd_positions d' = wd_positions d \<and> wd_method d' = wd_method d \<and> ledger d' = ledger d"
proof -
  let ?pos = "trade_position t d" and ?\<delta> = "lt_amountDelta t"
  have pos: "positive (ps_lots ?pos)" "ps_mint ?pos = lt_mint t"
    using assms find_position_set[of "lt_mint t" "wd_positions d"]
    by (auto simp: trade_position_def wallet_ok_def split: option.splits)
  have nonneg: "0 \<le> sum_amount (ps_lots ?pos)" using pos(1) by (rule sum_positive)
  let ?m = "case wd_method d of Some m \<Rightarrow> m | None \<Rightarrow> FIFO"
  have m: "?m \<noteq> AvgCost" using assms by (auto simp: wallet_ok_def split: option.splits)
  let ?pr = "if lt_solFlowLamports t > 0 then lt_solFlowLamports t else 0"
  consider "0 < ?\<delta>" | "?\<delta> = 0" | "?\<delta> < 0" "sum_amount (ps_lots ?pos) < - ?\<delta>" | "?\<delta> < 0" "- ?\<delta> \<le> sum_amount (ps_lots ?pos)" by linarith
  then show ?thesis
  proof cases
    case 1
    then show ?thesis using pos nonneg by (simp add: trade_effect_def Let_def bought_lot_def sum_amount_list)
  next
    case 2
    then show ?thesis using pos nonneg by (simp add: trade_effect_def Let_def)
  next
    case 3
    obtain e where "reduceLots (ps_lots ?pos) (- ?\<delta>) ?pr ?m = Inl e"
      using ordered_oversale[OF pos(1) 3(2) m] by blast
    then show ?thesis using 3 by (simp add: trade_effect_def Let_def)
  next
    case 4
    obtain r where "reduceLots (ps_lots ?pos) (- ?\<delta>) ?pr ?m = Inr r" "positive (rr_remaining r)"
      "sum_amount (rr_remaining r) = sum_amount (ps_lots ?pos) + ?\<delta>"
      using ordered_sale[OF pos(1) _ 4(2) m, of ?pr] 4(1) by auto
    then show ?thesis using 4 pos(2) ledger_add by (simp add: trade_effect_def Let_def) (simp add: add_realized_def)
  qed
qed

section \<open>The store refines a map of balances\<close>

text \<open>The operations, and what each means for the balances alone.\<close>

datatype store_op =
    Apply landed_trade
  | Observe pubkey "(string, int) jsmap" "accounting_method option"
  | Rebuild pubkey pubkey int
  | Correct pubkey pubkey nat int

fun store_do :: "(pubkey \<Rightarrow> pubkey \<Rightarrow> int \<Rightarrow> recon_error + lot list) \<Rightarrow> store_op \<Rightarrow> store \<Rightarrow> store" where
  "store_do rebuild (Apply t) s = snd (applyLandedTrade t s)"
| "store_do rebuild (Observe w bs m) s = snd (observe (rebuild w) w bs m s)"
| "store_do rebuild (Rebuild w mint b) s = snd (rebuildPosition (rebuild w) w mint b s)"
| "store_do rebuild (Correct w mint i b) s = snd (correctLotBasis w mint i b s)"

type_synonym balances = "pubkey \<Rightarrow> pubkey \<Rightarrow> int option"

definition credited :: "landed_trade \<Rightarrow> balances \<Rightarrow> int" where
  "credited t h = (case h (lt_wallet t) (lt_mint t) of Some x \<Rightarrow> x | None \<Rightarrow> 0) + lt_amountDelta t"

definition a_apply :: "landed_trade \<Rightarrow> balances \<Rightarrow> balances" where
  "a_apply t h = (if credited t h < 0 then h else h(lt_wallet t := (h (lt_wallet t))(lt_mint t \<mapsto> credited t h)))"

text \<open>Observing credits the tokens of non-zero balance that have no position; only if all can be rebuilt.\<close>

fun a_observe :: "(pubkey \<Rightarrow> int \<Rightarrow> recon_error + lot list) \<Rightarrow> (string \<times> int) list \<Rightarrow> (pubkey \<Rightarrow> int option) \<Rightarrow> (pubkey \<Rightarrow> int option) option" where
  "a_observe rebuild [] h = Some h"
| "a_observe rebuild ((mintStr, b) # bs) h =
     (if b = 0 then a_observe rebuild bs h
      else case fromBase58 mintStr of
             Inl _ \<Rightarrow> None
           | Inr mint \<Rightarrow> if h mint \<noteq> None then a_observe rebuild bs h
               else case rebuild mint b of Inl _ \<Rightarrow> None | Inr _ \<Rightarrow> a_observe rebuild bs (h(mint \<mapsto> b)))"

fun a_do :: "(pubkey \<Rightarrow> pubkey \<Rightarrow> int \<Rightarrow> recon_error + lot list) \<Rightarrow> store_op \<Rightarrow> balances \<Rightarrow> balances" where
  "a_do rebuild (Apply t) h = a_apply t h"
| "a_do rebuild (Observe w bs m) h = (case a_observe (rebuild w) bs (h w) of Some hw \<Rightarrow> h(w := hw) | None \<Rightarrow> h)"
| "a_do rebuild (Rebuild w mint b) h = (case rebuild w mint b of Inl _ \<Rightarrow> h | Inr _ \<Rightarrow> h(w := (h w)(mint \<mapsto> b)))"
| "a_do rebuild (Correct w mint i b) h = h"

text \<open>What the store relies on: lots rebuilt for a balance are positive and worth it.\<close>

definition rebuild_ok :: "(pubkey \<Rightarrow> pubkey \<Rightarrow> int \<Rightarrow> recon_error + lot list) \<Rightarrow> bool" where
  "rebuild_ok rebuild \<longleftrightarrow> (\<forall>w mint b lots. rebuild w mint b = Inr lots \<longrightarrow> positive lots \<and> sum_amount lots = b)"

definition orderly :: "store_op \<Rightarrow> bool" where
  "orderly op \<longleftrightarrow> (case op of Observe w bs m \<Rightarrow> m \<noteq> Some AvgCost | _ \<Rightarrow> True)"

lemma holdings_trade_position:
  "credited t (holdings s) = sum_amount (ps_lots (trade_position t (load_or_empty (lt_wallet t) s))) + lt_amountDelta t"
  by (auto simp: credited_def holdings_def getPosition_load trade_position_def sum_amount_def split: option.splits)

lemma apply_refines:
  assumes "store_ok s"
  shows "store_ok (snd (applyLandedTrade t s)) \<and> holdings (snd (applyLandedTrade t s)) = a_apply t (holdings s)"
proof -
  let ?d = "load_or_empty (lt_wallet t) s"
  note ok = wallet_ok_load[OF assms, of "lt_wallet t"]
  show ?thesis
  proof (cases "trade_effect t ?d")
    case (Inl e)
    then show ?thesis
      using trade_effect_ok[OF ok, of t] assms by (simp add: applyLandedTrade_def Let_def a_apply_def holdings_trade_position)
  next
    case (Inr r)
    obtain pos d' evs where r: "r = (pos, d', evs)" by (cases r) auto
    have e: "0 \<le> credited t (holdings s)" "positive (ps_lots pos)" "sum_amount (ps_lots pos) = credited t (holdings s)"
      "ps_mint pos = lt_mint t" "wd_positions d' = wd_positions ?d" "wd_method d' = wd_method ?d"
      using trade_effect_ok[OF ok, of t] Inr r unfolding holdings_trade_position by auto
    have "wallet_ok d'" using ok e(5,6) by (simp add: wallet_ok_def)
    then show ?thesis
      using Inr r e assms wallet_ok_put[of d' pos] holdings_put[OF e(5), of pos]
      by (simp add: applyLandedTrade_def Let_def a_apply_def store_ok_write)
  qed
qed

definition wallet_holdings :: "wallet_data \<Rightarrow> pubkey \<Rightarrow> int option" where
  "wallet_holdings d m = map_option (\<lambda>p. sum_amount (ps_lots p)) (find_position m (wd_positions d))"

lemma holdings_wallet: "holdings s w = wallet_holdings (load_or_empty w s)"
  by (rule ext) (simp add: holdings_def wallet_holdings_def getPosition_load)

lemma find_position_append: "find_position m (ps @ [p]) = (case find_position m ps of Some q \<Rightarrow> Some q | None \<Rightarrow> if ps_mint p = m then Some p else None)"
  unfolding find_position_def by (induction ps) auto

lemma has_position: "list_ex (\<lambda>p. ps_mint p = mint) ps \<longleftrightarrow> find_position mint ps \<noteq> None"
  unfolding find_position_def by (induction ps) auto

lemma observe_mints_refines:
  assumes "wallet_ok d" and "\<And>mint b lots. rebuild mint b = Inr lots \<Longrightarrow> positive lots \<and> sum_amount lots = b"
  shows "case observe_mints rebuild w bs d cs of
      Inl _ \<Rightarrow> a_observe rebuild bs (wallet_holdings d) = None
    | Inr (d', _) \<Rightarrow> a_observe rebuild bs (wallet_holdings d) = Some (wallet_holdings d') \<and> wallet_ok d' \<and> ledger d' = ledger d"
  using assms(1)
proof (induction bs arbitrary: d cs)
  case Nil
  then show ?case by simp
next
  case (Cons mb bs)
  obtain mintStr b where mb: "mb = (mintStr, b)" by fastforce
  show ?case
  proof (cases "b = 0")
    case True
    have "observe_mints rebuild w (mb # bs) d cs = observe_mints rebuild w bs d cs"
      "a_observe rebuild (mb # bs) (wallet_holdings d) = a_observe rebuild bs (wallet_holdings d)"
      using True by (simp_all add: mb)
    then show ?thesis using Cons.IH[OF Cons.prems, of cs] by (simp only:)
  next
    case b: False
    show ?thesis
    proof (cases "fromBase58 mintStr")
      case (Inl e)
      then show ?thesis using b by (simp add: mb)
    next
      case (Inr mint)
      show ?thesis
      proof (cases "find_position mint (wd_positions d)")
        case (Some p)
        then have "wallet_holdings d mint \<noteq> None" by (simp add: wallet_holdings_def)
        then have "observe_mints rebuild w (mb # bs) d cs = observe_mints rebuild w bs d cs"
          "a_observe rebuild (mb # bs) (wallet_holdings d) = a_observe rebuild bs (wallet_holdings d)"
          using b Inr Some by (simp_all add: mb has_position)
        then show ?thesis using Cons.IH[OF Cons.prems, of cs] by (simp only:)
      next
        case None
        then have h: "wallet_holdings d mint = None" by (simp add: wallet_holdings_def)
        show ?thesis
        proof (cases "rebuild mint b")
          case (Inl e)
          then show ?thesis using b Inr None h by (simp add: mb has_position)
        next
          case lots: (Inr lots)
          define after where "after = \<lparr>ps_mint = mint, ps_wallet = w, ps_lots = lots, ps_lastUpdatedSlot = maxSlot lots\<rparr>"
          define d1 where "d1 = d\<lparr>wd_positions := wd_positions d @ [after]\<rparr>"
          define cs1 where "cs1 = cs @ [\<lparr>pc_wallet = w, pc_mint = mint, pc_before = None, pc_after = after, pc_reason = ColdStart\<rparr>]"
          have l: "positive lots" "sum_amount lots = b" using assms(2)[OF lots] by simp_all
          have "mint \<notin> ps_mint ` set (wd_positions d)"
            using None by (auto simp: find_position_def find_None_iff)
          then have ok: "wallet_ok d1" using Cons.prems l(1) by (auto simp: wallet_ok_def d1_def after_def)
          have wh: "wallet_holdings d1 = (wallet_holdings d)(mint \<mapsto> b)"
            using None l(2) by (auto simp: wallet_holdings_def d1_def after_def find_position_append intro!: ext split: option.splits)
          have led: "ledger d1 = ledger d" by (simp add: ledger_def d1_def)
          have "observe_mints rebuild w (mb # bs) d cs = observe_mints rebuild w bs d1 cs1"
            using b Inr None lots by (simp add: mb has_position d1_def cs1_def after_def Let_def)
          moreover have "a_observe rebuild (mb # bs) (wallet_holdings d) = a_observe rebuild bs (wallet_holdings d1)"
            using b Inr h lots wh by (simp add: mb)
          ultimately show ?thesis using Cons.IH[OF ok, of cs1] by (simp only: led)
        qed
      qed
    qed
  qed
qed

lemma observe_refines:
  assumes "store_ok s" and "m \<noteq> Some AvgCost" and "\<And>mint b lots. rebuild mint b = Inr lots \<Longrightarrow> positive lots \<and> sum_amount lots = b"
  shows "store_ok (snd (observe rebuild w bs m s)) \<and> holdings (snd (observe rebuild w bs m s)) =
    (case a_observe rebuild bs (holdings s w) of Some hw \<Rightarrow> (holdings s)(w := hw) | None \<Rightarrow> holdings s)"
proof -
  define d where "d = (case m of Some _ \<Rightarrow> (load_or_empty w s)\<lparr>wd_method := m\<rparr> | None \<Rightarrow> load_or_empty w s)"
  have ok: "wallet_ok d" using wallet_ok_load[OF assms(1), of w] assms(2) by (auto simp: d_def wallet_ok_def split: option.splits)
  have wh: "wallet_holdings d = holdings s w" by (auto simp: d_def holdings_wallet wallet_holdings_def split: option.splits)
  have eq: "observe rebuild w bs m s = (case observe_mints rebuild w bs d [] of Inl e \<Rightarrow> (Inl e, s)
     | Inr (d, changes) \<Rightarrow> (Inr changes, write_wallet w d (map Changed changes) s))"
    by (simp add: observe_def d_def Let_def)
  show ?thesis
  proof (cases "observe_mints rebuild w bs d []")
    case (Inl e)
    then show ?thesis using observe_mints_refines[where rebuild = rebuild and w = w and bs = bs and cs = "[]", OF ok assms(3)] eq assms(1) wh by simp
  next
    case (Inr r)
    obtain d' changes where r: "r = (d', changes)" by fastforce
    have "a_observe rebuild bs (holdings s w) = Some (wallet_holdings d')" "wallet_ok d'"
      using observe_mints_refines[where rebuild = rebuild and w = w and bs = bs and cs = "[]", OF ok assms(3)] Inr r wh by simp_all
    moreover have "holdings (write_wallet w d' evs s) = (holdings s)(w := wallet_holdings d')" for evs
      by (rule ext) (simp add: holdings_wallet)
    ultimately show ?thesis using eq Inr r store_ok_write[OF assms(1)] by simp
  qed
qed

lemma rebuild_refines:
  assumes "store_ok s" and "\<And>lots. rebuild mint b = Inr lots \<Longrightarrow> positive lots \<and> sum_amount lots = b"
  shows "store_ok (snd (rebuildPosition rebuild w mint b s)) \<and> holdings (snd (rebuildPosition rebuild w mint b s)) =
    (case rebuild mint b of Inl _ \<Rightarrow> holdings s | Inr _ \<Rightarrow> (holdings s)(w := (holdings s w)(mint \<mapsto> b)))"
proof (cases "rebuild mint b")
  case (Inl e)
  then show ?thesis using assms(1) by (simp add: rebuildPosition_def)
next
  case (Inr lots)
  let ?after = "\<lparr>ps_mint = mint, ps_wallet = w, ps_lots = lots, ps_lastUpdatedSlot = maxSlot lots\<rparr>"
  have "wallet_ok ((load_or_empty w s)\<lparr>wd_positions := put_position ?after (wd_positions (load_or_empty w s))\<rparr>)"
    using wallet_ok_put[OF wallet_ok_load[OF assms(1)], of ?after w] assms(2)[OF Inr] by simp
  then show ?thesis
    using Inr assms holdings_put[of "load_or_empty w s" w s ?after]
    by (simp add: rebuildPosition_def rebuild_commit_def Let_def store_ok_write)
qed

lemma correct_refines:
  assumes "store_ok s"
  shows "store_ok (snd (correctLotBasis w mint i basis s)) \<and> holdings (snd (correctLotBasis w mint i basis s)) = holdings s"
proof (cases "getPosition w mint s")
  case None
  then show ?thesis using assms by (simp add: correctLotBasis_def)
next
  case (Some pos)
  show ?thesis
  proof (cases "jat (ps_lots pos) i")
    case None
    then show ?thesis using Some assms by (simp add: correctLotBasis_def)
  next
    case lot: (Some l)
    define lots where "lots = (ps_lots pos)[i := l\<lparr>costBasisLamports := basis, basisUnresolved := False\<rparr>]"
    define after where "after = pos\<lparr>ps_lots := lots\<rparr>"
    have i: "i < length (ps_lots pos)" "ps_lots pos ! i = l" using lot by (auto simp: jat_eq_Some)
    have amounts: "map amount lots = map amount (ps_lots pos)"
      using i unfolding lots_def map_update by (simp add: list_update_same_conv)
    have p: "pos \<in> set (wd_positions (load_or_empty w s))" "ps_mint pos = mint"
      using find_position_set[of mint "wd_positions (load_or_empty w s)" pos] Some by (auto simp: getPosition_load)
    have "positive (ps_lots pos)" using wallet_ok_load[OF assms, of w] p(1) by (simp add: wallet_ok_def)
    moreover have "positive ls \<longleftrightarrow> list_all ((<) 0) (map amount ls)" for ls by (auto simp: positive_def list_all_iff)
    ultimately have "positive lots" using amounts by metis
    then have ok: "wallet_ok ((load_or_empty w s)\<lparr>wd_positions := put_position after (wd_positions (load_or_empty w s))\<rparr>)"
      using wallet_ok_put[OF wallet_ok_load[OF assms], of after w] by (simp add: after_def)
    have sum: "sum_amount (ps_lots after) = sum_amount (ps_lots pos)" using amounts by (simp add: after_def sum_amount_list)
    have "holdings s w mint = Some (sum_amount (ps_lots pos))" using Some by (simp add: holdings_def)
    then have "(holdings s)(w := (holdings s w)(mint \<mapsto> sum_amount (ps_lots pos))) = holdings s" by (auto intro!: ext)
    then show ?thesis
      using Some lot ok sum p(2) holdings_put[of "load_or_empty w s" w s after] store_ok_write[OF assms ok]
      by (simp add: correctLotBasis_def Let_def after_def lots_def)
  qed
qed

text \<open>
  C17. The store refines a map of balances: for stores whose sales consume lots in order and a
  reconstructor that returns positive lots worth the balance it is given, every operation leaves
  the sums of the lots exactly as the map says. A trade adds its signed amount to its token, and is
  refused, changing nothing, exactly when it would sell more than is held; observing credits the
  tokens without a position; a rebuild sets the balance observed; correcting a basis changes no
  amount. One position per token and lots of positive amounts are kept throughout.
\<close>
theorem store_refines:
  assumes "store_ok s" and "rebuild_ok rebuild" and "list_all orderly ops"
  shows "store_ok (fold (store_do rebuild) ops s) \<and>
    holdings (fold (store_do rebuild) ops s) = fold (a_do rebuild) ops (holdings s)"
  using assms(1,3)
proof (induction ops arbitrary: s)
  case (Cons op ops)
  have r: "rebuild w mint b = Inr lots \<Longrightarrow> positive lots \<and> sum_amount lots = b" for w mint b lots
    using assms(2) unfolding rebuild_ok_def by blast
  have "store_ok (store_do rebuild op s) \<and> holdings (store_do rebuild op s) = a_do rebuild op (holdings s)"
  proof (cases op)
    case (Apply t)
    then show ?thesis using apply_refines[OF Cons.prems(1)] by simp
  next
    case (Observe w bs m)
    then show ?thesis using observe_refines[where m = m and w = w and bs = bs and rebuild = "rebuild w", OF Cons.prems(1) _ r] Cons.prems(2) by (simp add: orderly_def)
  next
    case (Rebuild w mint b)
    then show ?thesis using rebuild_refines[where w = w and mint = mint and b = b and rebuild = "rebuild w", OF Cons.prems(1) r] by simp
  next
    case (Correct w mint i b)
    then show ?thesis using correct_refines[OF Cons.prems(1)] by simp
  qed
  then show ?case using Cons.IH[of "store_do rebuild op s"] Cons.prems(2) by simp
qed simp

section \<open>The realized ledger\<close>

definition ledger_of :: "pubkey \<Rightarrow> store \<Rightarrow> int" where
  "ledger_of w s = ledger (load_or_empty w s)"

text \<open>
  The total realized profit and the profits by token stay in step: whatever trades are applied
  to a store in order, accepted or refused, the difference between a wallet's total and the sum
  over its tokens (what files written before the split carry) never changes.
\<close>
theorem ledger_constant:
  assumes "store_ok s"
  shows "ledger_of w (fold (store_do rebuild) (map Apply ts) s) = ledger_of w s"
  using assms
proof (induction ts arbitrary: s)
  case (Cons t ts)
  let ?d = "load_or_empty (lt_wallet t) s"
  have "ledger_of w (snd (applyLandedTrade t s)) = ledger_of w s"
  proof (cases "trade_effect t ?d")
    case (Inl e)
    then show ?thesis by (simp add: applyLandedTrade_def Let_def)
  next
    case (Inr r)
    obtain pos d' evs where r: "r = (pos, d', evs)" by (cases r) auto
    have "ledger d' = ledger ?d" using trade_effect_ok[OF wallet_ok_load[OF Cons.prems], of t "lt_wallet t"] Inr r by simp
    moreover have "ledger (d'\<lparr>wd_positions := ps\<rparr>) = ledger d'" for ps by (simp add: ledger_def)
    ultimately show ?thesis using Inr r by (simp add: applyLandedTrade_def Let_def ledger_of_def)
  qed
  moreover have "store_ok (snd (applyLandedTrade t s))" using apply_refines[OF Cons.prems] by simp
  ultimately show ?case using Cons.IH by simp
qed simp

section \<open>A trade during a rebuild\<close>

definition empty_store :: store where
  "empty_store = \<lparr>st_files = (\<lambda>_. None), st_events = []\<rparr>"

lemma empty_store_ok: "store_ok empty_store"
  by (simp add: store_ok_def empty_store_def)

definition sample_trade :: "int \<Rightarrow> landed_trade" where
  "sample_trade delta = \<lparr>lt_signature = ''s'', lt_slot = 5, lt_wallet = sample_wallet, lt_mint = sample_mint, lt_amountDelta = delta,
     lt_solFlowLamports = -1000, lt_feeLamports = 5\<rparr>"

definition whole_lot :: "int \<Rightarrow> lot" where
  "whole_lot b = \<lparr>amount = b, costBasisLamports = 0, acquiredSlot = 1, acquiredSig = [], source = ColdStartUnresolved,
     reconstructedAt = None, basisUnresolved = True\<rparr>"

definition sample_rebuild_fun :: "pubkey \<Rightarrow> pubkey \<Rightarrow> int \<Rightarrow> recon_error + lot list" where
  "sample_rebuild_fun w m b = (if b > 0 then Inr [whole_lot b] else Inl (RpcFailed []))"

lemma sample_rebuild_fun_ok: "rebuild_ok sample_rebuild_fun"
  by (auto simp: rebuild_ok_def sample_rebuild_fun_def whole_lot_def sum_amount_list split: if_splits)

theorem store_refines_witness:
  "holdings (fold (store_do sample_rebuild_fun) [Observe sample_wallet [(toBase58 sample_mint, 70)] None, Apply (sample_trade 30), Apply (sample_trade (-60))] empty_store)
     sample_wallet sample_mint = Some 40"
proof -
  let ?ops = "[Observe sample_wallet [(toBase58 sample_mint, 70)] None, Apply (sample_trade 30), Apply (sample_trade (-60))]"
  have "holdings (fold (store_do sample_rebuild_fun) ?ops empty_store) = fold (a_do sample_rebuild_fun) ?ops (holdings empty_store)"
    using store_refines[OF empty_store_ok sample_rebuild_fun_ok, of ?ops] by (simp add: orderly_def)
  moreover have "holdings empty_store = (\<lambda>_ _. None)"
    by (simp add: holdings_def getPosition_def empty_store_def fun_eq_iff)
  ultimately show ?thesis
    by (simp add: a_apply_def credited_def sample_trade_def sample_rebuild_fun_def)
qed

theorem ledger_constant_witness:
  "ledger_of sample_wallet (fold (store_do sample_rebuild_fun) (map Apply [sample_trade 30, sample_trade (-10)]) empty_store) = 0"
  unfolding ledger_constant[OF empty_store_ok] by (simp add: ledger_of_def load_or_empty_def empty_store_def emptyWallet_def ledger_def)

text \<open>
  A trade that lands while a rebuild awaits the chain is lost: \<open>rebuildPosition\<close> reconstructs the
  lots before it takes the wallet's mutex, so the buy applied in between is overwritten by the lots
  of the older balance, and the position is short by the tokens bought.
\<close>
theorem rebuild_loses_trade:
  "\<exists>lots. sample_rebuild_fun sample_wallet sample_mint 70 = Inr lots \<and>
     holdings (snd (rebuild_commit sample_wallet sample_mint lots (snd (applyLandedTrade (sample_trade 30) s)))) sample_wallet sample_mint = Some 70 \<and>
     holdings (snd (applyLandedTrade (sample_trade 30) (snd (rebuild_commit sample_wallet sample_mint lots s)))) sample_wallet sample_mint = Some 100"
proof -
  have "holdings (snd (rebuild_commit sample_wallet sample_mint [whole_lot 70] s)) sample_wallet sample_mint = Some 70" for s
    by (simp add: rebuild_commit_def Let_def holdings_wallet wallet_holdings_def find_put whole_lot_def sum_amount_list)
  moreover have "holdings (snd (applyLandedTrade (sample_trade 30) (snd (rebuild_commit sample_wallet sample_mint [whole_lot 70] s)))) sample_wallet sample_mint = Some 100"
    by (simp add: applyLandedTrade_def trade_effect_def trade_position_def rebuild_commit_def Let_def holdings_wallet wallet_holdings_def find_put
        whole_lot_def sum_amount_list sample_trade_def bought_lot_def)
  ultimately show ?thesis by (simp add: sample_rebuild_fun_def)
qed

end
