(* ===== verification/Guards.thy ===== *)
theory Guards
  imports Prelude
begin

text \<open>
  \<open>packages/solana-strategy/src/guards.ts\<close>: the state of one strategy instance's guards. Clock
  readings are milliseconds; lamports and the profit sums are unbounded.
\<close>

section \<open>The tracker\<close>

record guard_config =
  gc_maxDecisionsPerMin :: "nat option"
  gc_maxOpenPositions :: "nat option"
  gc_maxLossPerDayLamports :: "int option"
  gc_errorThreshold :: "(nat \<times> int) option"   \<comment> \<open>errors, \<open>windowMs\<close>\<close>
  gc_drawdownThreshold :: "int option"

datatype guard_kind = MaxDecisionsPerMin | MaxOpenPositions | MaxLossPerDayLamports | ErrorThreshold | DrawdownThreshold

datatype guard_trip = Trip guard_kind int

text \<open>Midnight UTC of a time after the epoch: days have 86400 seconds.\<close>

definition startOfDayUtc :: "int \<Rightarrow> int" where
  "startOfDayUtc ts = ts - ts mod 86400000"

record guard_tracker =
  gt_decisionTimes :: "int list"
  gt_errorTimes :: "int list"
  gt_realizedToday :: int
  gt_dayStartTs :: int
  gt_cumulative :: int
  gt_peak :: int

definition new_tracker :: "int \<Rightarrow> guard_tracker" where
  "new_tracker now = \<lparr>gt_decisionTimes = [], gt_errorTimes = [], gt_realizedToday = 0, gt_dayStartTs = startOfDayUtc now,
     gt_cumulative = 0, gt_peak = 0\<rparr>"

text \<open>\<open>times.filter((t) => now - t < windowMs)\<close> and the \<open>push\<close> after it.\<close>

definition slide :: "int \<Rightarrow> int \<Rightarrow> int list \<Rightarrow> int list" where
  "slide windowMs now ts = filter (\<lambda>t. now - t < windowMs) ts @ [now]"

definition recordDecision :: "guard_config \<Rightarrow> int \<Rightarrow> guard_tracker \<Rightarrow> guard_trip option \<times> guard_tracker" where
  "recordDecision cfg now g =
     (let g = g\<lparr>gt_decisionTimes := slide 60000 now (gt_decisionTimes g)\<rparr>;
          n = length (gt_decisionTimes g)
      in (if n > (case gc_maxDecisionsPerMin cfg of Some m \<Rightarrow> m | None \<Rightarrow> 60) then Some (Trip MaxDecisionsPerMin (int n)) else None, g))"

definition record_error :: "guard_config \<Rightarrow> int \<Rightarrow> guard_tracker \<Rightarrow> guard_trip option \<times> guard_tracker" where
  "record_error cfg now g =
     (let windowMs = (case gc_errorThreshold cfg of Some (_, w) \<Rightarrow> w | None \<Rightarrow> 60000);
          g = g\<lparr>gt_errorTimes := slide windowMs now (gt_errorTimes g)\<rparr>;
          n = length (gt_errorTimes g)
      in (if n > (case gc_errorThreshold cfg of Some (m, _) \<Rightarrow> m | None \<Rightarrow> 5) then Some (Trip ErrorThreshold (int n)) else None, g))"

definition recordRealized :: "guard_config \<Rightarrow> int \<Rightarrow> int \<Rightarrow> guard_tracker \<Rightarrow> guard_trip option \<times> guard_tracker" where
  "recordRealized cfg now amount g =
     (let todayStart = startOfDayUtc now;
          g = (if todayStart \<noteq> gt_dayStartTs g then g\<lparr>gt_dayStartTs := todayStart, gt_realizedToday := 0\<rparr> else g);
          g = g\<lparr>gt_realizedToday := gt_realizedToday g + amount, gt_cumulative := gt_cumulative g + amount\<rparr>;
          g = (if gt_cumulative g > gt_peak g then g\<lparr>gt_peak := gt_cumulative g\<rparr> else g);
          drawdown = gt_peak g - gt_cumulative g
      in (case gc_maxLossPerDayLamports cfg of
            Some limit \<Rightarrow> if gt_realizedToday g < - limit then Some (Trip MaxLossPerDayLamports (gt_realizedToday g))
              else (case gc_drawdownThreshold cfg of Some d \<Rightarrow> if drawdown > d then Some (Trip DrawdownThreshold drawdown) else None | None \<Rightarrow> None)
          | None \<Rightarrow> (case gc_drawdownThreshold cfg of Some d \<Rightarrow> if drawdown > d then Some (Trip DrawdownThreshold drawdown) else None | None \<Rightarrow> None), g))"

definition checkOpenPositions :: "guard_config \<Rightarrow> nat \<Rightarrow> guard_trip option" where
  "checkOpenPositions cfg openCount =
     (case gc_maxOpenPositions cfg of Some m \<Rightarrow> if openCount > m then Some (Trip MaxOpenPositions (int openCount)) else None | None \<Rightarrow> None)"

section \<open>Against the history\<close>

text \<open>What an instance has done, each with the clock reading of the call.\<close>

datatype guard_op = Decision | Failure | Realized int | OpenPositions nat

definition guard_step :: "guard_config \<Rightarrow> int \<Rightarrow> guard_op \<Rightarrow> guard_tracker \<Rightarrow> guard_trip option \<times> guard_tracker" where
  "guard_step cfg now op g =
     (case op of
        Decision \<Rightarrow> recordDecision cfg now g
      | Failure \<Rightarrow> record_error cfg now g
      | Realized a \<Rightarrow> recordRealized cfg now a g
      | OpenPositions n \<Rightarrow> (checkOpenPositions cfg n, g))"

definition guard_run :: "guard_config \<Rightarrow> int \<Rightarrow> (int \<times> guard_op) list \<Rightarrow> guard_tracker" where
  "guard_run cfg t0 h = foldl (\<lambda>g (now, op). snd (guard_step cfg now op g)) (new_tracker t0) h"

text \<open>
  The specification, over the history alone: how many calls of a kind fell in a window, what was
  realized on the UTC day of a time, in total, and at most at any time so far.
\<close>

definition calls_in :: "guard_op \<Rightarrow> int \<Rightarrow> int \<Rightarrow> (int \<times> guard_op) list \<Rightarrow> nat" where
  "calls_in op windowMs now h = length (filter (\<lambda>(t, o'). o' = op \<and> now - t < windowMs) h)"

fun realized_amounts :: "(int \<Rightarrow> bool) \<Rightarrow> (int \<times> guard_op) list \<Rightarrow> int list" where
  "realized_amounts p [] = []"
| "realized_amounts p ((t, Realized a) # h) = (if p t then a # realized_amounts p h else realized_amounts p h)"
| "realized_amounts p (_ # h) = realized_amounts p h"

definition realized_on :: "int \<Rightarrow> (int \<times> guard_op) list \<Rightarrow> int" where
  "realized_on now h = sum_list (realized_amounts (\<lambda>t. startOfDayUtc t = startOfDayUtc now) h)"

definition best_ever :: "int list \<Rightarrow> int" where
  "best_ever xs = Max ((\<lambda>n. sum_list (take n xs)) ` {..length xs})"

definition drawdown_of :: "(int \<times> guard_op) list \<Rightarrow> int" where
  "drawdown_of h = (let xs = realized_amounts (\<lambda>_. True) h in best_ever xs - sum_list xs)"

definition exceeds :: "'a::linorder option \<Rightarrow> 'a \<Rightarrow> bool" where
  "exceeds limit x \<longleftrightarrow> (case limit of Some l \<Rightarrow> l < x | None \<Rightarrow> False)"

text \<open>The verdict on a history whose last call is \<open>op\<close> at \<open>now\<close>.\<close>

definition verdict :: "guard_config \<Rightarrow> int \<Rightarrow> guard_op \<Rightarrow> (int \<times> guard_op) list \<Rightarrow> guard_trip option" where
  "verdict cfg now op h =
     (case op of
        Decision \<Rightarrow> (let n = calls_in Decision 60000 now h
          in if n > (case gc_maxDecisionsPerMin cfg of Some m \<Rightarrow> m | None \<Rightarrow> 60) then Some (Trip MaxDecisionsPerMin (int n)) else None)
      | Failure \<Rightarrow> (let (m, w) = (case gc_errorThreshold cfg of Some e \<Rightarrow> e | None \<Rightarrow> (5, 60000)); n = calls_in Failure w now h
          in if n > m then Some (Trip ErrorThreshold (int n)) else None)
      | Realized _ \<Rightarrow>
          if exceeds (gc_maxLossPerDayLamports cfg) (- realized_on now h) then Some (Trip MaxLossPerDayLamports (realized_on now h))
          else if exceeds (gc_drawdownThreshold cfg) (drawdown_of h) then Some (Trip DrawdownThreshold (drawdown_of h))
          else None
      | OpenPositions n \<Rightarrow> if exceeds (gc_maxOpenPositions cfg) n then Some (Trip MaxOpenPositions (int n)) else None)"

text \<open>Clock readings never go back.\<close>

definition in_order :: "int \<Rightarrow> (int \<times> guard_op) list \<Rightarrow> bool" where
  "in_order t0 h \<longleftrightarrow> sorted (t0 # map fst h)"

section \<open>The tracker holds the history\<close>

lemma best_ever_append: "best_ever (xs @ [x]) = max (best_ever xs) (sum_list xs + x)"
proof -
  have "{..length (xs @ [x])} = insert (Suc (length xs)) {..length xs}" by auto
  then have "best_ever (xs @ [x]) = max (sum_list xs + x) (Max ((\<lambda>n. sum_list (take n (xs @ [x]))) ` {..length xs}))"
    by (simp add: best_ever_def)
  moreover have "(\<lambda>n. sum_list (take n (xs @ [x]))) ` {..length xs} = (\<lambda>n. sum_list (take n xs)) ` {..length xs}"
    by (rule image_cong) auto
  ultimately show ?thesis by (simp add: best_ever_def max.commute)
qed

lemma best_ever_Nil [simp]: "best_ever [] = 0"
  by (simp add: best_ever_def)

lemma realized_amounts_append: "realized_amounts p (h @ h') = realized_amounts p h @ realized_amounts p h'"
  by (induction p h rule: realized_amounts.induct) auto

lemma realized_amounts_one: "realized_amounts p [(t, op)] = (case op of Realized a \<Rightarrow> if p t then [a] else [] | _ \<Rightarrow> [])"
  by (cases op) auto

lemma realized_amounts_none: "(\<And>t op. (t, op) \<in> set h \<Longrightarrow> \<not> p t) \<Longrightarrow> realized_amounts p h = []"
  by (induction p h rule: realized_amounts.induct) auto

lemma realized_amounts_cong: "(\<And>t op. (t, op) \<in> set h \<Longrightarrow> p t = q t) \<Longrightarrow> realized_amounts p h = realized_amounts q h"
  by (induction p h rule: realized_amounts.induct) auto

lemma startOfDay_mono: "a \<le> b \<Longrightarrow> startOfDayUtc a \<le> startOfDayUtc b"
proof -
  assume "a \<le> b"
  moreover have "startOfDayUtc x = x div 86400000 * 86400000" for x
    by (simp add: startOfDayUtc_def minus_mod_eq_div_mult)
  ultimately show ?thesis by (simp add: zdiv_mono1)
qed

text \<open>Times of earlier calls that have left one window have left every later one.\<close>

definition times_of :: "guard_op \<Rightarrow> (int \<times> guard_op) list \<Rightarrow> int list" where
  "times_of op h = map fst (filter (\<lambda>(_, o'). o' = op) h)"

lemma calls_in_times: "calls_in op w now h = length (filter (\<lambda>t. now - t < w) (times_of op h))"
  by (induction h) (auto simp: calls_in_def times_of_def)

definition window_ok :: "int \<Rightarrow> int \<Rightarrow> int list \<Rightarrow> int list \<Rightarrow> bool" where
  "window_ok w lst kept ts \<longleftrightarrow> (\<forall>now \<ge> lst. filter (\<lambda>t. now - t < w) kept = filter (\<lambda>t. now - t < w) ts)"

lemma window_ok_slide: "window_ok w lst kept ts \<Longrightarrow> lst \<le> now \<Longrightarrow> window_ok w now (slide w now kept) (ts @ [now])"
  unfolding window_ok_def slide_def
proof (intro allI impI)
  fix n assume *: "\<forall>now\<ge>lst. filter (\<lambda>t. now - t < w) kept = filter (\<lambda>t. now - t < w) ts" "lst \<le> now" "now \<le> n"
  have "filter (\<lambda>t. n - t < w) (filter (\<lambda>t. now - t < w) kept) = filter (\<lambda>t. n - t < w) kept"
    using *(3) by (induction kept) auto
  then show "filter (\<lambda>t. n - t < w) (filter (\<lambda>t. now - t < w) kept @ [now]) = filter (\<lambda>t. n - t < w) (ts @ [now])"
    using * by simp
qed

lemma window_ok_later: "window_ok w lst kept ts \<Longrightarrow> lst \<le> now \<Longrightarrow> window_ok w now kept ts"
  by (simp add: window_ok_def)

lemma length_slide: "window_ok w lst kept ts \<Longrightarrow> lst \<le> now \<Longrightarrow> length (slide w now kept) = Suc (length (filter (\<lambda>t. now - t < w) ts))"
  by (simp add: slide_def window_ok_def)

abbreviation error_window :: "guard_config \<Rightarrow> int" where
  "error_window cfg \<equiv> (case gc_errorThreshold cfg of Some (_, w) \<Rightarrow> w | None \<Rightarrow> 60000)"

text \<open>The invariant: the tracker after a history that ended at \<open>lst\<close>.\<close>

definition tracks :: "guard_config \<Rightarrow> int \<Rightarrow> (int \<times> guard_op) list \<Rightarrow> guard_tracker \<Rightarrow> bool" where
  "tracks cfg lst h g \<longleftrightarrow>
     window_ok 60000 lst (gt_decisionTimes g) (times_of Decision h) \<and>
     window_ok (error_window cfg) lst (gt_errorTimes g) (times_of Failure h) \<and>
     gt_dayStartTs g \<le> startOfDayUtc lst \<and>
     (\<forall>t op. (t, op) \<in> set h \<longrightarrow> t \<le> lst) \<and>
     gt_realizedToday g = sum_list (realized_amounts (\<lambda>t. startOfDayUtc t = gt_dayStartTs g) h) \<and>
     (\<forall>t a. (t, Realized a) \<in> set h \<longrightarrow> startOfDayUtc t \<le> gt_dayStartTs g) \<and>
     gt_cumulative g = sum_list (realized_amounts (\<lambda>_. True) h) \<and>
     gt_peak g = best_ever (realized_amounts (\<lambda>_. True) h)"

lemma tracks_new: "tracks cfg t0 [] (new_tracker t0)"
  by (simp add: tracks_def new_tracker_def window_ok_def times_of_def)

lemma realized_after_midnight:
  assumes "\<forall>t a. (t, Realized a) \<in> set h \<longrightarrow> startOfDayUtc t \<le> d" and "d < d'"
  shows "realized_amounts (\<lambda>t. startOfDayUtc t = d') h = []"
  using assms(1) by (induction "\<lambda>t. startOfDayUtc t = d'" h rule: realized_amounts.induct) (use assms(2) in force)+

lemma times_of_append: "times_of op (h @ [(now, op')]) = times_of op h @ (if op' = op then [now] else [])"
  by (simp add: times_of_def)

lemma recordRealized_eq:
  "recordRealized cfg now a g =
     (let day = (if startOfDayUtc now \<noteq> gt_dayStartTs g then 0 else gt_realizedToday g) + a;
          cum = gt_cumulative g + a; peak = max (gt_peak g) cum
      in (if exceeds (gc_maxLossPerDayLamports cfg) (- day) then Some (Trip MaxLossPerDayLamports day)
          else if exceeds (gc_drawdownThreshold cfg) (peak - cum) then Some (Trip DrawdownThreshold (peak - cum)) else None,
          g\<lparr>gt_dayStartTs := startOfDayUtc now, gt_realizedToday := day, gt_cumulative := cum, gt_peak := peak\<rparr>))"
  by (cases g) (auto simp: recordRealized_def Let_def exceeds_def max_def split: option.splits)

lemma tracks_step:
  assumes "tracks cfg lst h g" and "lst \<le> now" and "guard_step cfg now op g = (res, g')" and "0 < error_window cfg"
  shows "tracks cfg now (h @ [(now, op)]) g' \<and> res = verdict cfg now op (h @ [(now, op)])"
proof (cases op)
  case Decision
  show ?thesis
    using assms Decision startOfDay_mono[OF assms(2)]
    by (auto simp: tracks_def guard_step_def recordDecision_def Let_def verdict_def calls_in_times times_of_append realized_amounts_append
        realized_amounts_one length_slide intro: window_ok_slide window_ok_later intro!: realized_amounts_cong dest: order_trans)
next
  case Failure
  show ?thesis
    using assms Failure startOfDay_mono[OF assms(2)]
    by (auto simp: tracks_def guard_step_def record_error_def Let_def verdict_def calls_in_times times_of_append realized_amounts_append
        realized_amounts_one length_slide split: option.splits prod.splits intro: window_ok_slide window_ok_later dest: order_trans)
next
  case (OpenPositions n)
  show ?thesis
    using assms OpenPositions startOfDay_mono[OF assms(2)]
    by (auto simp: tracks_def guard_step_def checkOpenPositions_def verdict_def exceeds_def times_of_append realized_amounts_append
        realized_amounts_one split: option.splits intro: window_ok_later dest: order_trans)
next
  case (Realized a)
  let ?d = "startOfDayUtc now"
  define day where "day = sum_list (realized_amounts (\<lambda>t. startOfDayUtc t = ?d) h)"
  have t: "gt_dayStartTs g \<le> ?d" "\<And>t op. (t, op) \<in> set h \<Longrightarrow> t \<le> now"
    "\<And>t a. (t, Realized a) \<in> set h \<Longrightarrow> startOfDayUtc t \<le> gt_dayStartTs g"
    using assms(1,2) startOfDay_mono[OF assms(2)] unfolding tracks_def by force+
  have before: "(if ?d \<noteq> gt_dayStartTs g then 0 else gt_realizedToday g) = day"
    using assms(1) realized_after_midnight[of h "gt_dayStartTs g" ?d] t unfolding tracks_def day_def by (cases "?d = gt_dayStartTs g") auto
  have step: "res = (if exceeds (gc_maxLossPerDayLamports cfg) (- (day + a)) then Some (Trip MaxLossPerDayLamports (day + a))
      else if exceeds (gc_drawdownThreshold cfg) (gt_peak g' - gt_cumulative g') then Some (Trip DrawdownThreshold (gt_peak g' - gt_cumulative g')) else None)"
    and g': "g' = g\<lparr>gt_dayStartTs := ?d, gt_realizedToday := day + a, gt_cumulative := gt_cumulative g + a,
      gt_peak := max (gt_peak g) (gt_cumulative g + a)\<rparr>"
    using assms(3) Realized before by (auto simp: guard_step_def recordRealized_eq Let_def)
  have on: "realized_on now (h @ [(now, op)]) = day + a"
    by (simp add: realized_on_def realized_amounts_append Realized day_def)
  have down: "drawdown_of (h @ [(now, op)]) = gt_peak g' - gt_cumulative g'"
    using assms(1) by (simp add: drawdown_of_def Let_def realized_amounts_append Realized g' tracks_def best_ever_append)
  have "res = verdict cfg now op (h @ [(now, op)])"
    unfolding verdict_def on down step by (simp add: Realized)
  moreover have "tracks cfg now (h @ [(now, op)]) g'"
    using assms(1,2) t Realized
    by (auto simp: tracks_def g' times_of_append realized_amounts_append day_def best_ever_append intro: window_ok_later startOfDay_mono dest: order_trans)
  ultimately show ?thesis by simp
qed

lemma guard_run_append: "guard_run cfg t0 (h @ [(now, op)]) = snd (guard_step cfg now op (guard_run cfg t0 h))"
  by (simp add: guard_run_def)

lemma in_order_append: "in_order t0 (h @ [(now, op)]) \<Longrightarrow> in_order t0 h \<and> last (t0 # map fst h) \<le> now"
proof -
  assume "in_order t0 (h @ [(now, op)])"
  then have *: "sorted ((t0 # map fst h) @ [now])" by (simp add: in_order_def)
  moreover have "last (t0 # map fst h) \<in> set (t0 # map fst h)" by (rule last_in_set) simp
  ultimately show ?thesis unfolding sorted_append in_order_def by auto
qed

lemma tracks_run:
  "in_order t0 h \<Longrightarrow> 0 < error_window cfg \<Longrightarrow> tracks cfg (last (t0 # map fst h)) h (guard_run cfg t0 h)"
proof (induction h rule: rev_induct)
  case Nil
  then show ?case using tracks_new by (simp add: guard_run_def)
next
  case (snoc e h)
  obtain now op where e: "e = (now, op)" by (cases e)
  have o: "in_order t0 h" and le: "last (t0 # map fst h) \<le> now"
    using snoc.prems(1) in_order_append unfolding e by blast+
  show ?case
    using tracks_step[OF snoc.IH[OF o snoc.prems(2)] le _ snoc.prems(2), of op "fst (guard_step cfg now op (guard_run cfg t0 h))"]
    by (simp add: e guard_run_append del: last.simps) (simp add: last_map)
qed

text \<open>
  C20. The guards of an instance say what its history says. For clock readings that never go back and
  a positive error window, each call of the tracker answers exactly as the specification does on
  the list of all calls so far: the decisions of the last 60 seconds and the errors of the last
  window are counted exactly, although the tracker forgets the times that have left a window; the
  daily loss is the sum realized on the current UTC day; the drawdown is measured from the highest
  total ever reached, starting at zero; and the loss limit is reported before the drawdown.
\<close>
theorem guards_follow_history:
  assumes "in_order t0 (h @ [(now, op)])" and "0 < error_window cfg"
  shows "fst (guard_step cfg now op (guard_run cfg t0 h)) = verdict cfg now op (h @ [(now, op)])"
proof -
  have o: "in_order t0 h" and le: "last (t0 # map fst h) \<le> now"
    using assms(1) in_order_append by blast+
  show ?thesis
    using tracks_step[OF tracks_run[OF o assms(2)] le _ assms(2), of op "fst (guard_step cfg now op (guard_run cfg t0 h))"
      "snd (guard_step cfg now op (guard_run cfg t0 h))"] by simp
qed

definition sample_guards :: guard_config where
  "sample_guards = \<lparr>gc_maxDecisionsPerMin = Some 2, gc_maxOpenPositions = Some 1, gc_maxLossPerDayLamports = Some 100,
     gc_errorThreshold = None, gc_drawdownThreshold = Some 150\<rparr>"

theorem guards_follow_history_witness:
  "fst (guard_step sample_guards 86400500 (Realized (-90)) (guard_run sample_guards 0 [(5, Realized 20), (9, Realized (-100)), (86400500, Decision)]))
     = Some (Trip DrawdownThreshold 190)"
proof -
  have "in_order 0 ([(5, Realized 20), (9, Realized (-100)), (86400500, Decision)] @ [(86400500, Realized (-90))])"
    by (simp add: in_order_def)
  moreover have "0 < error_window sample_guards" by (simp add: sample_guards_def)
  moreover have "verdict sample_guards 86400500 (Realized (-90))
      ([(5, Realized 20), (9, Realized (-100)), (86400500, Decision)] @ [(86400500, Realized (-90))]) = Some (Trip DrawdownThreshold 190)"
    by code_simp
  ultimately show ?thesis using guards_follow_history[of 0 "[(5, Realized 20), (9, Realized (-100)), (86400500, Decision)]"] by simp
qed

end
