(* ===== verification/LandedTrades.thy ===== *)
theory LandedTrades
  imports Executor PortfolioStore
begin

text \<open>
  \<open>packages/solana-strategy/src/landed-trade-adapter.ts\<close>: from the executor's result to the trades
  the portfolio applies. The RPC answer is a parameter: \<open>None\<close> stands for an answer that is not a
  transaction or has no \<open>meta\<close>; decimal strings are the integers they denote.
\<close>

section \<open>The adapter\<close>

datatype adapt_error = TransactionFailed string | BalancesMissing | MintMissing | MintInvalid pubkey_error

abbreviation or_zero :: "int option \<Rightarrow> int" where
  "or_zero x \<equiv> (case x of Some v \<Rightarrow> v | None \<Rightarrow> 0)"

definition sol_delta :: "rpc_transaction \<Rightarrow> string \<Rightarrow> adapt_error + int" where
  "sol_delta tx walletStr =
     (case findIndex (\<lambda>k. k = walletStr) (tx_accountKeys tx) of
        None \<Rightarrow> Inr 0
      | Some accountIdx \<Rightarrow>
          (case (tx_preBalances tx, tx_postBalances tx) of
             (Some pre, Some post) \<Rightarrow> Inr (or_zero (jat post accountIdx) - or_zero (jat pre accountIdx))
           | _ \<Rightarrow> Inl BalancesMissing))"

text \<open>\<open>pre.find((p) => p.owner === walletStr && p.mint === b.mint)?.uiTokenAmount?.amount ?? '0'\<close>\<close>

definition first_amount :: "token_balance_entry list \<Rightarrow> string \<Rightarrow> string option \<Rightarrow> int" where
  "first_amount pre walletStr m =
     (case List.find (\<lambda>p. tb_owner p = Some walletStr \<and> tb_mint p = m) pre of Some p \<Rightarrow> entry_amount p | None \<Rightarrow> 0)"

type_synonym deltas = "(string option, int) jsmap"

fun post_deltas :: "token_balance_entry list \<Rightarrow> string \<Rightarrow> token_balance_entry list \<Rightarrow> deltas \<times> string option list \<Rightarrow> deltas \<times> string option list" where
  "post_deltas pre walletStr [] (m, seen) = (m, seen)"
| "post_deltas pre walletStr (b # bs) (m, seen) =
     (if tb_owner b \<noteq> Some walletStr then post_deltas pre walletStr bs (m, seen)
      else post_deltas pre walletStr bs
             (jm_set m (tb_mint b) (entry_amount b - first_amount pre walletStr (tb_mint b)), tb_mint b # seen))"

fun pre_deltas :: "string \<Rightarrow> token_balance_entry list \<Rightarrow> string option list \<Rightarrow> deltas \<Rightarrow> deltas" where
  "pre_deltas walletStr [] seen m = m"
| "pre_deltas walletStr (b # bs) seen m =
     (if tb_owner b \<noteq> Some walletStr \<or> tb_mint b \<in> set seen then pre_deltas walletStr bs seen m
      else pre_deltas walletStr bs seen (jm_set m (tb_mint b) (- entry_amount b)))"

definition token_deltas :: "rpc_transaction \<Rightarrow> string \<Rightarrow> deltas" where
  "token_deltas tx walletStr =
     (let pre = listed (tx_preTokenBalances tx);
          (m, seen) = post_deltas pre walletStr (listed (tx_postTokenBalances tx)) ([], [])
      in pre_deltas walletStr pre seen m)"

fun assemble_trades :: "string \<Rightarrow> nat \<Rightarrow> pubkey \<Rightarrow> int \<Rightarrow> int \<Rightarrow> deltas \<Rightarrow> adapt_error + landed_trade list" where
  "assemble_trades sig slot wallet solDelta fee [] = Inr []"
| "assemble_trades sig slot wallet solDelta fee ((mintStr, delta) # ds) =
     (if delta = 0 then assemble_trades sig slot wallet solDelta fee ds
      else case mintStr of
             None \<Rightarrow> Inl MintMissing
           | Some s \<Rightarrow>
               (case fromBase58 s of
                  Inl e \<Rightarrow> Inl (MintInvalid e)
                | Inr mint \<Rightarrow>
                    rbind (assemble_trades sig slot wallet solDelta fee ds) (\<lambda>ts.
                      Inr (\<lparr>lt_signature = sig, lt_slot = slot, lt_wallet = wallet, lt_mint = mint, lt_amountDelta = delta,
                            lt_solFlowLamports = solDelta, lt_feeLamports = fee\<rparr> # ts))))"

definition adapt_transaction :: "string \<Rightarrow> nat \<Rightarrow> pubkey \<Rightarrow> rpc_transaction \<Rightarrow> adapt_error + landed_trade list" where
  "adapt_transaction sig slot wallet tx =
     rbind (sol_delta tx (toBase58 wallet)) (\<lambda>solDelta.
       assemble_trades sig slot wallet solDelta (or_zero (tx_fee tx)) (token_deltas tx (toBase58 wallet)))"

definition adaptToLandedTrades :: "(string \<Rightarrow> string + rpc_transaction option) \<Rightarrow> pubkey \<Rightarrow> exec_result \<Rightarrow> adapt_error + landed_trade list" where
  "adaptToLandedTrades getTransaction wallet result =
     (case result of
        Landed _ sig slot _ _ \<Rightarrow>
          (case getTransaction sig of
             Inl e \<Rightarrow> Inl (TransactionFailed e)
           | Inr None \<Rightarrow> Inr []
           | Inr (Some tx) \<Rightarrow> adapt_transaction sig slot wallet tx)
      | _ \<Rightarrow> Inr [])"

section \<open>The deltas of single-account holders\<close>

text \<open>The wallet's entries are of different mints, on each side.\<close>

definition own_entries :: "string \<Rightarrow> token_balance_entry list \<Rightarrow> token_balance_entry list" where
  "own_entries walletStr bs = filter (\<lambda>b. tb_owner b = Some walletStr) bs"

definition one_account_each :: "rpc_transaction \<Rightarrow> string \<Rightarrow> bool" where
  "one_account_each tx walletStr \<longleftrightarrow>
     distinct (map tb_mint (own_entries walletStr (listed (tx_preTokenBalances tx)))) \<and>
     distinct (map tb_mint (own_entries walletStr (listed (tx_postTokenBalances tx))))"

text \<open>What the wallet holds of a mint on one side.\<close>

definition held :: "token_balance_entry list \<Rightarrow> string \<Rightarrow> string option \<Rightarrow> int" where
  "held bs walletStr m = sum_list (map entry_amount (filter (\<lambda>b. tb_mint b = m) (own_entries walletStr bs)))"

lemma own_entries_simps [simp]:
  "own_entries w [] = []"
  "own_entries w (b # bs) = (if tb_owner b = Some w then b # own_entries w bs else own_entries w bs)"
  by (simp_all add: own_entries_def)

lemma held_absent: "m \<notin> tb_mint ` set (own_entries w bs) \<Longrightarrow> held bs w m = 0"
  by (simp add: held_def filter_False) (metis (mono_tags, lifting) filter_False image_eqI sum_list.Nil list.simps(8))

lemma first_amount_held: "distinct (map tb_mint (own_entries w bs)) \<Longrightarrow> first_amount bs w m = held bs w m"
proof (induction bs)
  case (Cons b bs)
  show ?case
  proof (cases "tb_owner b = Some w \<and> tb_mint b = m")
    case True
    then have "m \<notin> tb_mint ` set (own_entries w bs)" using Cons.prems by auto
    then have "held bs w m = 0" by (rule held_absent)
    then show ?thesis using True by (simp add: first_amount_def held_def)
  next
    case False
    then show ?thesis using Cons by (auto simp: first_amount_def held_def split: if_splits)
  qed
qed (simp add: first_amount_def held_def)

text \<open>The wallet's own entry of a mint, as a map.\<close>

definition own_map :: "string \<Rightarrow> token_balance_entry list \<Rightarrow> string option \<Rightarrow> int option" where
  "own_map w bs = map_of (map (\<lambda>b. (tb_mint b, entry_amount b)) (own_entries w bs))"

lemma own_map_held: "distinct (map tb_mint (own_entries w bs)) \<Longrightarrow> own_map w bs m = Some a \<Longrightarrow> held bs w m = a"
proof (induction bs)
  case (Cons b bs)
  have abs: "m \<notin> tb_mint ` set (own_entries w bs) \<Longrightarrow> held bs w m = 0" by (rule held_absent)
  then show ?case using Cons by (auto simp: own_map_def held_def split: if_splits)
qed (simp add: own_map_def)

lemma own_map_none: "own_map w bs m = None \<longleftrightarrow> m \<notin> tb_mint ` set (own_entries w bs)"
  by (simp add: own_map_def map_of_eq_None_iff image_image comp_def)

lemma post_deltas_eq:
  assumes "post_deltas pre w bs (m, seen) = (m', seen')" and "distinct (map tb_mint (own_entries w bs))"
  shows "set seen' = set seen \<union> tb_mint ` set (own_entries w bs) \<and>
    (\<forall>k. jm_get m' k = (case own_map w bs k of Some a \<Rightarrow> Some (a - first_amount pre w k) | None \<Rightarrow> jm_get m k))"
  using assms
proof (induction pre w bs "(m, seen)" arbitrary: m seen rule: post_deltas.induct)
  case (2 pre w b bs m seen)
  show ?case
  proof (cases "tb_owner b = Some w")
    case True
    have d: "distinct (map tb_mint (own_entries w bs))" "tb_mint b \<notin> tb_mint ` set (own_entries w bs)"
      using 2(4) True by auto
    then have none: "own_map w bs (tb_mint b) = None" by (simp add: own_map_none)
    show ?thesis using 2(2)[OF _ _ d(1)] 2(3) True none
      by (auto simp: own_map_def jm_get_set split: option.splits)
  next
    case False
    then show ?thesis using 2 by (simp add: own_map_def)
  qed
qed (simp add: own_map_def)

lemma pre_deltas_eq:
  assumes "distinct (map tb_mint (own_entries w bs))"
  shows "jm_get (pre_deltas w bs seen m) k =
    (if k \<in> set seen then jm_get m k else case own_map w bs k of Some a \<Rightarrow> Some (- a) | None \<Rightarrow> jm_get m k)"
  using assms
proof (induction w bs seen m rule: pre_deltas.induct)
  case (2 w b bs seen m)
  show ?case
  proof (cases "tb_owner b = Some w")
    case True
    have d: "distinct (map tb_mint (own_entries w bs))" "tb_mint b \<notin> tb_mint ` set (own_entries w bs)"
      using 2(3) True by auto
    then have none: "own_map w bs (tb_mint b) = None" by (simp add: own_map_none)
    then show ?thesis using 2(1)[OF _ d(1)] 2(2)[OF _ d(1)] True
      by (auto simp: own_map_def jm_get_set split: option.splits)
  next
    case False
    then show ?thesis using 2 by (simp add: own_map_def)
  qed
qed (simp add: own_map_def)

lemma post_deltas_inv: "post_deltas pre w bs (m, seen) = (m', seen') \<Longrightarrow> jm_inv m \<Longrightarrow> jm_inv m'"
  by (induction pre w bs "(m, seen)" arbitrary: m seen rule: post_deltas.induct) (auto simp: jm_inv_set split: if_splits)

lemma pre_deltas_inv: "jm_inv m \<Longrightarrow> jm_inv (pre_deltas w bs seen m)"
  by (induction w bs seen m rule: pre_deltas.induct) (auto simp: jm_inv_set)

definition involved :: "rpc_transaction \<Rightarrow> string \<Rightarrow> string option \<Rightarrow> bool" where
  "involved tx w m \<longleftrightarrow> m \<in> tb_mint ` set (own_entries w (listed (tx_preTokenBalances tx)) @ own_entries w (listed (tx_postTokenBalances tx)))"

lemma token_deltas_eq:
  assumes "one_account_each tx w"
  shows "jm_inv (token_deltas tx w) \<and> jm_get (token_deltas tx w) m =
    (if involved tx w m then Some (held (listed (tx_postTokenBalances tx)) w m - held (listed (tx_preTokenBalances tx)) w m) else None)"
proof -
  let ?pre = "listed (tx_preTokenBalances tx)" and ?post = "listed (tx_postTokenBalances tx)"
  have d: "distinct (map tb_mint (own_entries w ?pre))" "distinct (map tb_mint (own_entries w ?post))"
    using assms by (simp_all add: one_account_each_def)
  obtain md seen where ps: "post_deltas ?pre w ?post ([], []) = (md, seen)" by fastforce
  note P = post_deltas_eq[OF ps d(2)]
  have td: "token_deltas tx w = pre_deltas w ?pre seen md" by (simp add: token_deltas_def ps)
  note Q = pre_deltas_eq[OF d(1), of seen md m, folded td]
  note absent = held_absent own_map_none
  have get: "jm_get (token_deltas tx w) m =
      (if involved tx w m then Some (held ?post w m - held ?pre w m) else None)"
  proof (cases "own_map w ?post m")
    case (Some a)
    then have "m \<in> set seen" using P own_map_none[of w ?post m] by auto
    then show ?thesis using Q P Some own_map_held[OF d(2) Some] first_amount_held[OF d(1)] own_map_none[of w ?post m]
      by (simp add: involved_def image_Un)
  next
    case None
    then have n: "m \<notin> tb_mint ` set (own_entries w ?post)" by (simp add: own_map_none)
    then have "m \<notin> set seen" "jm_get md m = None" "held ?post w m = 0" using P None held_absent by auto
    then show ?thesis using Q n own_map_held[OF d(1)] own_map_none[of w ?pre m]
      by (cases "own_map w ?pre m") (auto simp: involved_def)
  qed
  moreover have "jm_inv (token_deltas tx w)"
    unfolding td by (rule pre_deltas_inv[OF post_deltas_inv[OF ps]]) simp
  ultimately show ?thesis by simp
qed

section \<open>Applying the trades\<close>

definition apply_trades :: "landed_trade list \<Rightarrow> store \<Rightarrow> store" where
  "apply_trades ts s = fold (\<lambda>t s. snd (applyLandedTrade t s)) ts s"

lemma apply_trades_refines:
  "store_ok s \<Longrightarrow> store_ok (apply_trades ts s) \<and> holdings (apply_trades ts s) = fold a_apply ts (holdings s)"
proof (induction ts arbitrary: s)
  case (Cons t ts)
  then show ?case using apply_refines[OF Cons.prems, of t] Cons.IH[of "snd (applyLandedTrade t s)"] by (simp add: apply_trades_def)
qed (simp add: apply_trades_def)

lemma assembled_holdings:
  assumes "assemble_trades sig slot w solDelta fee ds = Inr ts" and "jm_inv ds"
    and "\<And>m v. jm_get ds (Some (toBase58 m)) = Some v \<Longrightarrow> 0 \<le> or_zero (h w m) + v"
  shows "(\<forall>m. or_zero (fold a_apply ts h w m) = or_zero (h w m) + or_zero (jm_get ds (Some (toBase58 m)))) \<and>
    (\<forall>w'. w' \<noteq> w \<longrightarrow> fold a_apply ts h w' = h w')"
  using assms
proof (induction ds arbitrary: ts h)
  case (Cons e ds)
  obtain k v where e: "e = (k, v)" by (cases e)
  have inv: "jm_inv ds" "jm_get ds k = None" using Cons.prems(2) by (auto simp: e jm_inv_def jm_keys_def map_of_eq_None_iff)
  show ?case
  proof (cases "v = 0")
    case True
    have pos: "0 \<le> or_zero (h w m) + v'" if "jm_get ds (Some (toBase58 m)) = Some v'" for m v'
    proof -
      have "Some (toBase58 m) \<noteq> k" using that inv(2) by auto
      then show ?thesis using that Cons.prems(3)[of m v'] by (simp add: e)
    qed
    show ?thesis using Cons.IH[where h = h, OF _ inv(1) pos] Cons.prems(1) True inv(2) by (auto simp: e)
  next
    case False
    obtain s mint ts' where s: "k = Some s" "fromBase58 s = Inr mint" "assemble_trades sig slot w solDelta fee ds = Inr ts'"
      and ts0: "ts = \<lparr>lt_signature = sig, lt_slot = slot, lt_wallet = w, lt_mint = mint, lt_amountDelta = v,
        lt_solFlowLamports = solDelta, lt_feeLamports = fee\<rparr> # ts'"
      using Cons.prems(1) False by (auto simp: e result_simps split: option.splits sum.splits)
    obtain t where ts: "ts = t # ts'" and t: "lt_wallet t = w" "lt_mint t = mint" "lt_amountDelta t = v" using ts0 by simp
    have k: "k = Some (toBase58 mint)" using toBase58_fromBase58[OF s(2)] s(1) by simp
    have nn: "0 \<le> or_zero (h w mint) + v" using Cons.prems(3)[of mint v] k by (simp add: e)
    have a: "a_apply t h = h(w := (h w)(mint \<mapsto> or_zero (h w mint) + v))"
      using nn by (simp add: t a_apply_def credited_def)
    have "jm_get ds (Some (toBase58 m)) = Some v' \<Longrightarrow> m \<noteq> mint" for m v' using inv(2) k by auto
    then have pos: "0 \<le> or_zero (a_apply t h w m) + v'" if "jm_get ds (Some (toBase58 m)) = Some v'" for m v'
      using that Cons.prems(3)[of m v'] k by (auto simp: e a)
    have bal: "or_zero (a_apply t h w m) = or_zero (h w m) + (if m = mint then v else 0)" "w' \<noteq> w \<Longrightarrow> a_apply t h w' = h w'" for m w'
      by (simp_all add: a)
    have ds: "or_zero (jm_get (e # ds) (Some (toBase58 m))) = (if m = mint then v else 0) + or_zero (jm_get ds (Some (toBase58 m)))" for m
      using inv(2) k by (auto simp: e)
    show ?thesis using Cons.IH[where h = "a_apply t h", OF s(3) inv(1) pos] unfolding ts ds by (simp add: bal)
  qed
qed simp

text \<open>
  C21. Trades adapted from a landed transaction keep the portfolio in step with the chain, in a store none of whose
  wallets uses the average-cost method (\<open>store_ok\<close>; under that method the rounding of a sale can leave tokens that
  were sold, see \<open>Accounting.avg_cost_keeps_sold_tokens\<close>). When the wallet has at most one account of each token on either side of the transaction, and the portfolio
  holds of every token the transaction touches what the chain says the wallet held before, then
  applying the adapted trades in order leaves it with what the chain says it holds after, whether
  the token's account was opened, changed or closed; every other token and every other wallet is
  left alone.
\<close>
theorem landed_trades_track_chain:
  assumes "store_ok s" and "one_account_each tx (toBase58 w)"
    and "\<forall>b \<in> set (listed (tx_postTokenBalances tx)). 0 \<le> entry_amount b"
    and "\<forall>m. involved tx (toBase58 w) (Some (toBase58 m)) \<longrightarrow>
           or_zero (holdings s w m) = held (listed (tx_preTokenBalances tx)) (toBase58 w) (Some (toBase58 m))"
    and "adaptToLandedTrades getTransaction w (Landed i sig slot by at') = Inr ts" and "getTransaction sig = Inr (Some tx)"
  shows "store_ok (apply_trades ts s) \<and>
    (\<forall>m. or_zero (holdings (apply_trades ts s) w m) =
       (if involved tx (toBase58 w) (Some (toBase58 m))
        then held (listed (tx_postTokenBalances tx)) (toBase58 w) (Some (toBase58 m)) else or_zero (holdings s w m))) \<and>
    (\<forall>w'. w' \<noteq> w \<longrightarrow> holdings (apply_trades ts s) w' = holdings s w')"
proof -
  obtain solDelta where ts: "assemble_trades sig slot w solDelta (or_zero (tx_fee tx)) (token_deltas tx (toBase58 w)) = Inr ts"
    using assms(5,6) by (auto simp: adaptToLandedTrades_def adapt_transaction_def result_simps)
  note td = token_deltas_eq[OF assms(2)]
  have post: "0 \<le> held (listed (tx_postTokenBalances tx)) (toBase58 w) m" for m
    unfolding held_def own_entries_def by (rule sum_list_nonneg) (use assms(3) in auto)
  have nn: "0 \<le> or_zero (holdings s w m) + v" if "jm_get (token_deltas tx (toBase58 w)) (Some (toBase58 m)) = Some v" for m v
    using that td[of "Some (toBase58 m)"] assms(4) post by (auto split: if_splits)
  show ?thesis
    using assembled_holdings[where h = "holdings s" and w = w, OF ts _ nn] td apply_trades_refines[OF assms(1), of ts] assms(4) by auto
qed

section \<open>Sample transactions\<close>

definition token_entry :: "string \<Rightarrow> string \<Rightarrow> int \<Rightarrow> token_balance_entry" where
  "token_entry ow m a = \<lparr>tb_owner = Some ow, tb_mint = Some m, tb_amount = Some a\<rparr>"

definition sample_landed :: "token_balance_entry list \<Rightarrow> token_balance_entry list \<Rightarrow> rpc_transaction" where
  "sample_landed pre post = \<lparr>tx_err = False, tx_preBalances = Some [1000], tx_postBalances = Some [400], tx_fee = Some 5,
     tx_preTokenBalances = Some pre, tx_postTokenBalances = Some post, tx_logMessages = None, tx_loadedAddresses = None,
     tx_accountKeys = [toBase58 sample_wallet], tx_instructions = None\<rparr>"

abbreviation landed_result :: exec_result where
  "landed_result \<equiv> Landed ''i'' ''sig'' 9 ''rpc'' 0"

definition sample_entry :: "int \<Rightarrow> token_balance_entry" where
  "sample_entry a = token_entry (toBase58 sample_wallet) (toBase58 sample_mint) a"

lemma adapt_buy: "adaptToLandedTrades (\<lambda>_. Inr (Some (sample_landed [] [sample_entry 30]))) sample_wallet landed_result =
    Inr [\<lparr>lt_signature = ''sig'', lt_slot = 9, lt_wallet = sample_wallet, lt_mint = sample_mint, lt_amountDelta = 30,
          lt_solFlowLamports = -600, lt_feeLamports = 5\<rparr>]"
  by (simp add: adaptToLandedTrades_def adapt_transaction_def sol_delta_def sample_landed_def token_deltas_def sample_entry_def token_entry_def
      first_amount_def jat_def)

theorem landed_trades_track_chain_witness:
  "holdings (apply_trades [\<lparr>lt_signature = ''sig'', lt_slot = 9, lt_wallet = sample_wallet, lt_mint = sample_mint, lt_amountDelta = 30,
      lt_solFlowLamports = -600, lt_feeLamports = 5\<rparr>] empty_store) sample_wallet sample_mint = Some 30"
proof -
  let ?tx = "sample_landed [] [sample_entry 30]"
  have tx: "one_account_each ?tx (toBase58 sample_wallet)" "\<forall>b \<in> set (listed (tx_postTokenBalances ?tx)). 0 \<le> entry_amount b"
    "involved ?tx (toBase58 sample_wallet) (Some (toBase58 sample_mint))"
    "\<And>m. held (listed (tx_preTokenBalances ?tx)) (toBase58 sample_wallet) m = 0"
    "held (listed (tx_postTokenBalances ?tx)) (toBase58 sample_wallet) (Some (toBase58 sample_mint)) = 30"
    by (simp_all add: one_account_each_def sample_landed_def sample_entry_def token_entry_def involved_def held_def)
  have none: "holdings empty_store w m = None" for w m
    by (simp add: holdings_def getPosition_def empty_store_def)
  have "or_zero (holdings (apply_trades [\<lparr>lt_signature = ''sig'', lt_slot = 9, lt_wallet = sample_wallet, lt_mint = sample_mint, lt_amountDelta = 30,
      lt_solFlowLamports = -600, lt_feeLamports = 5\<rparr>] empty_store) sample_wallet sample_mint) = 30"
    using landed_trades_track_chain[OF empty_store_ok tx(1,2) _ adapt_buy refl] tx(3-5) none by simp
  then show ?thesis by (auto split: option.splits)
qed

text \<open>
  A wallet with two accounts of one token is misread: the adapter takes the last account of the
  token after the transaction and the first one before it, so selling 30 of the second account's 30
  out of 70 and 30 is recorded as selling 70 when the emptied account is still listed, although the
  wallet's balance fell from 100 to 70.
\<close>
theorem two_accounts_misread:
  "(let tx = sample_landed [sample_entry 70, sample_entry 30] [sample_entry 70, sample_entry 0] in
    held (listed (tx_preTokenBalances tx)) (toBase58 sample_wallet) (Some (toBase58 sample_mint)) = 100 \<and>
    held (listed (tx_postTokenBalances tx)) (toBase58 sample_wallet) (Some (toBase58 sample_mint)) = 70 \<and>
    (\<exists>t. adaptToLandedTrades (\<lambda>_. Inr (Some tx)) sample_wallet landed_result = Inr [t] \<and> lt_amountDelta t = -70))"
  by (simp add: adaptToLandedTrades_def adapt_transaction_def sol_delta_def sample_landed_def token_deltas_def sample_entry_def token_entry_def
      first_amount_def jat_def held_def)

text \<open>
  The lamports of a transaction that buys two tokens are counted once for each: both trades carry
  the wallet's whole SOL flow, so the cost basis recorded for 600 lamports spent is 1200.
\<close>
theorem two_tokens_cost_twice:
  "(let m2 = Abs_pubkey (replicate 32 3);
        tx = sample_landed [] [sample_entry 30, token_entry (toBase58 sample_wallet) (toBase58 m2) 5] in
    \<exists>ts. adaptToLandedTrades (\<lambda>_. Inr (Some tx)) sample_wallet landed_result = Inr ts \<and> length ts = 2 \<and>
      sum_list (map (costBasisLamports \<circ> bought_lot) ts) = 1200)"
proof -
  have "Abs_pubkey (replicate 32 3) \<noteq> sample_mint"
    unfolding sample_mint_def by (subst Abs_pubkey_inject) simp_all
  then show ?thesis
    by (auto simp: Let_def adaptToLandedTrades_def adapt_transaction_def sol_delta_def sample_landed_def token_deltas_def sample_entry_def
        token_entry_def first_amount_def jat_def bought_lot_def)
qed

end
