(* ===== verification/SignalIds.thy ===== *)
theory SignalIds
  imports Pda Utf8
begin

text \<open>
  \<open>packages/solana-signals/src/signal-id.ts\<close> and \<open>packages/solana-strategy/src/intent-id.ts\<close>: the
  identifiers that make signals and intents idempotent, digests of their parts joined by NUL bytes.
  SHA-256 is the parameter of the theory \<open>Pda\<close>.
\<close>

section \<open>The identifiers\<close>

text \<open>The loop that copies each part, and a separator after each but the last.\<close>

fun nul_join :: "bytes list \<Rightarrow> bytes" where
  "nul_join [] = []"
| "nul_join [p] = p"
| "nul_join (p # ps) = p @ [0] @ nul_join ps"

record signal_key =
  sk_signature :: ustring
  sk_programId :: pubkey
  sk_kind :: ustring
  sk_logIndex :: nat

definition signal_preimage :: "signal_key \<Rightarrow> bytes" where
  "signal_preimage k = nul_join [text_encode (sk_signature k), toBuffer (sk_programId k), text_encode (sk_kind k),
     text_encode (map of_char (decimal (sk_logIndex k)))]"

definition signalId :: "hashing \<Rightarrow> signal_key \<Rightarrow> string" where
  "signalId h k = base58_encode (h_sha256 h (signal_preimage k))"

record intent_key =
  ik_signalId :: ustring
  ik_strategyName :: ustring
  ik_instanceId :: ustring
  ik_decisionVersion :: "ustring option"

definition default_version :: ustring where
  "default_version = map of_char ''v1''"

definition intent_preimage :: "intent_key \<Rightarrow> bytes" where
  "intent_preimage k = nul_join [text_encode (ik_signalId k), text_encode (ik_strategyName k), text_encode (ik_instanceId k),
     text_encode (case ik_decisionVersion k of Some v \<Rightarrow> v | None \<Rightarrow> default_version)]"

definition intent_id :: "hashing \<Rightarrow> intent_key \<Rightarrow> string" where
  "intent_id h k = base58_encode (h_sha256 h (intent_preimage k))"

section \<open>Parts can be read back\<close>

text \<open>Well-formed text without NUL characters.\<close>

definition plain_text :: "ustring \<Rightarrow> bool" where
  "plain_text s \<longleftrightarrow> list_all (\<lambda>c. scalar c \<and> c \<noteq> 0) s"

lemma utf8_char_nonzero: "c \<noteq> 0 \<Longrightarrow> b \<in> set (utf8_char c) \<Longrightarrow> b \<noteq> 0"
  by (auto simp: utf8_char_def split: if_splits)

lemma map_unat_encode: "map unat (text_encode s) = concat (map (utf8_char \<circ> to_scalar) s)"
  unfolding text_encode_def
  by (rule map_unat_word_of_nat) (auto intro: utf8_char_byte[OF scalar_bound[OF to_scalar_scalar]])

lemma encode_nonzero: "plain_text s \<Longrightarrow> 0 \<notin> set (text_encode s)"
proof
  assume s: "plain_text s" and "0 \<in> set (text_encode s)"
  then have "unat (0::byte) \<in> set (map unat (text_encode s))" by (metis image_eqI list.set_map)
  then have "0 \<in> set (concat (map (utf8_char \<circ> to_scalar) s))" unfolding map_unat_encode by simp
  then obtain c where "c \<in> set s" "0 \<in> set (utf8_char (to_scalar c))" by auto
  then show False using s utf8_char_nonzero[of c 0] by (auto simp: plain_text_def list_all_iff to_scalar_def)
qed

lemma plain_inject: "plain_text s \<Longrightarrow> plain_text t \<Longrightarrow> text_encode s = text_encode t \<longleftrightarrow> s = t"
  using map_idI[of s to_scalar] map_idI[of t to_scalar] by (simp add: plain_text_def list_all_iff text_encode_eq to_scalar_def)

lemma split_at_nul:
  assumes "0 \<notin> set (as::bytes)" and "0 \<notin> set bs"
  shows "as @ 0 # x = bs @ 0 # y \<longleftrightarrow> as = bs \<and> x = y"
  using assms by (induction as arbitrary: bs) (case_tac bs; auto)+

lemma plain_decimal: "plain_text (map of_char (decimal n))"
proof -
  have "scalar c \<and> c \<noteq> 0" if "c = of_char (digit_char d)" "d < 10" for c d :: nat
    using that by (simp add: digit_char_def scalar_def)
  then show ?thesis using radix_digits[of 10 _ n] by (auto simp: plain_text_def decimal_def list_all_iff scalar_def)
qed

lemma decimal_inject: "decimal m = decimal n \<longleftrightarrow> m = n"
proof -
  have v: "foldl (\<lambda>a ch. a * 10 + (of_char ch - 48)) z (map digit_char ds) = foldl (\<lambda>a d. a * 10 + d) z ds"
    if "\<forall>d \<in> set ds. d < 10" for ds and z :: nat
    using that by (induction ds arbitrary: z) (simp_all add: digit_char_def)
  have "foldl (\<lambda>a ch. a * 10 + (of_char ch - 48)) 0 (decimal n) = n" for n
  proof (cases "n = 0")
    case False
    then show ?thesis using v[of "radix 10 n" 0] radix_digits[of 10 _ n] radix_val_radix[of 10 n]
      by (simp add: decimal_def radix_val_def)
  qed (simp add: decimal_def)
  then show ?thesis by metis
qed

lemma of_char_inject: "map (of_char :: char \<Rightarrow> nat) s = map of_char t \<longleftrightarrow> s = t"
  by (meson inj_map_eq_map inj_of_char)

section \<open>Distinct parts, distinct identifiers\<close>

lemma signal_preimage_inject:
  assumes "plain_text (sk_signature a)" "plain_text (sk_kind a)" "plain_text (sk_signature b)" "plain_text (sk_kind b)"
    and "signal_preimage a = signal_preimage b"
  shows "a = b"
proof -
  let ?rest = "\<lambda>k. toBuffer (sk_programId k) @ 0 # text_encode (sk_kind k) @ 0 # text_encode (map of_char (decimal (sk_logIndex k)))"
  have "text_encode (sk_signature a) = text_encode (sk_signature b) \<and> ?rest a = ?rest b"
    using assms(5) encode_nonzero[OF assms(1)] encode_nonzero[OF assms(3)] by (simp add: signal_preimage_def split_at_nul)
  then have "sk_signature a = sk_signature b" and r: "toBuffer (sk_programId a) = toBuffer (sk_programId b)"
    "text_encode (sk_kind a) @ 0 # text_encode (map of_char (decimal (sk_logIndex a))) =
     text_encode (sk_kind b) @ 0 # text_encode (map of_char (decimal (sk_logIndex b)))"
    using plain_inject[OF assms(1,3)] by (auto simp: append_eq_append_conv)
  moreover have "sk_kind a = sk_kind b \<and> sk_logIndex a = sk_logIndex b"
    using r(2) encode_nonzero[OF assms(2)] encode_nonzero[OF assms(4)] plain_inject[OF assms(2,4)]
      plain_inject[OF plain_decimal plain_decimal] by (simp add: split_at_nul of_char_inject decimal_inject)
  moreover have "sk_programId a = sk_programId b" using r(1) by (simp add: toBuffer_eq_iff)
  ultimately show ?thesis by simp
qed

definition version_of :: "intent_key \<Rightarrow> ustring" where
  "version_of k = (case ik_decisionVersion k of Some v \<Rightarrow> v | None \<Rightarrow> default_version)"

definition same_intent :: "intent_key \<Rightarrow> intent_key \<Rightarrow> bool" where
  "same_intent a b \<longleftrightarrow> ik_signalId a = ik_signalId b \<and> ik_strategyName a = ik_strategyName b \<and>
     ik_instanceId a = ik_instanceId b \<and> version_of a = version_of b"

definition plain_key :: "intent_key \<Rightarrow> bool" where
  "plain_key k \<longleftrightarrow> plain_text (ik_signalId k) \<and> plain_text (ik_strategyName k) \<and> plain_text (ik_instanceId k) \<and> plain_text (version_of k)"

lemma intent_preimage_inject:
  assumes "plain_key a" and "plain_key b"
  shows "intent_preimage a = intent_preimage b \<longleftrightarrow> same_intent a b"
  using assms by (simp add: plain_key_def intent_preimage_def same_intent_def split_at_nul encode_nonzero plain_inject flip: version_of_def)

text \<open>
  Two signals, or two decisions, share an identifier only if they agree in every part or SHA-256
  collides on their encodings: for parts that are well-formed text without NUL characters the
  separated encoding is injective, also across field boundaries, with the program id's 32 bytes
  unrestricted and a missing decision version standing for \<open>v1\<close>.
\<close>
theorem ids_determine_parts:
  assumes "plain_text (sk_signature a)" "plain_text (sk_kind a)" "plain_text (sk_signature b)" "plain_text (sk_kind b)"
    and "plain_key i" and "plain_key j"
  shows "(signalId h a = signalId h b \<longleftrightarrow>
      a = b \<or> signal_preimage a \<noteq> signal_preimage b \<and> h_sha256 h (signal_preimage a) = h_sha256 h (signal_preimage b)) \<and>
    (intent_id h i = intent_id h j \<longleftrightarrow>
      same_intent i j \<or> intent_preimage i \<noteq> intent_preimage j \<and> h_sha256 h (intent_preimage i) = h_sha256 h (intent_preimage j))"
  using signal_preimage_inject[OF assms(1-4)] intent_preimage_inject[OF assms(5,6)]
  by (auto simp: signalId_def intent_id_def base58_encode_inject)

definition sample_intent :: "nat list \<Rightarrow> nat list \<Rightarrow> intent_key" where
  "sample_intent s n = \<lparr>ik_signalId = s, ik_strategyName = n, ik_instanceId = [105], ik_decisionVersion = None\<rparr>"

definition sample_signal :: "nat list \<Rightarrow> nat \<Rightarrow> signal_key" where
  "sample_signal s n = \<lparr>sk_signature = s, sk_programId = Abs_pubkey (replicate 32 0), sk_kind = [116], sk_logIndex = n\<rparr>"

theorem ids_determine_parts_witness:
  "let h = \<lparr>h_sha256 = \<lambda>bs. bs, h_isOnCurve = \<lambda>_. False\<rparr> in
     signalId h (sample_signal [97] 1) \<noteq> signalId h (sample_signal [97] 11) \<and>
     intent_id h (sample_intent [97, 98] [99]) \<noteq> intent_id h (sample_intent [97] [98, 99])"
proof -
  let ?h = "\<lparr>h_sha256 = \<lambda>bs. bs, h_isOnCurve = \<lambda>_. False\<rparr>"
  have k: "plain_key (sample_intent [97, 98] [99])" "plain_key (sample_intent [97] [98, 99])"
    by (simp_all add: plain_key_def plain_text_def sample_intent_def version_of_def default_version_def scalar_def)
  have s: "plain_text (sk_signature (sample_signal [97] n))" "plain_text (sk_kind (sample_signal [97] n))" for n
    by (simp_all add: plain_text_def sample_signal_def scalar_def)
  have "\<not> same_intent (sample_intent [97, 98] [99]) (sample_intent [97] [98, 99])" "sample_signal [97] 1 \<noteq> sample_signal [97] 11"
    by (simp_all add: same_intent_def sample_intent_def sample_signal_def)
  then show ?thesis
    using ids_determine_parts[OF s s k, of ?h 1 11] by (simp add: Let_def)
qed

text \<open>
  The separator does not protect parts that hold NUL characters themselves: the name \<open>b\<close> of a signal
  \<open>a NUL b\<close>, say, is taken for the same decision as the name \<open>b NUL b\<close> of the signal \<open>a\<close>.
\<close>
theorem nul_in_parts_collides:
  "intent_id h (sample_intent [97, 0, 98] [98]) = intent_id h (sample_intent [97] [98, 0, 98])"
  by (simp add: intent_id_def intent_preimage_def sample_intent_def text_encode_def to_scalar_def scalar_def utf8_char_def)

end
