(* ===== verification/SignalCore.thy ===== *)
theory SignalCore
  imports PublicKey "HOL-Library.Sublist"
begin

text \<open>
  What the signal queue and the signal bus share (\<open>packages/solana-signals\<close>): the signal, the
  \<open>Map\<close> that is iterated while it changes, and the window of remembered signal ids, whose code is
  the same in \<open>signal-queue.ts\<close> and \<open>bus.ts\<close>. \<open>'d\<close> is the decoded event with its log chunk.
\<close>

record 'd signal =
  sl_signalId :: string
  sl_ts :: int
  sl_slot :: nat
  sl_signature :: string
  sl_programId :: pubkey
  sl_kind :: string
  sl_venue :: "string option"
  sl_decoded :: 'd
  sl_signalVersion :: "string option"

section \<open>A \<open>Map\<close> under iteration\<close>

text \<open>
  As the language defines it: a deleted entry leaves an empty place, a new key goes to the end, and
  an iterator is the index of the next place to look at, so it sees entries added and misses
  entries deleted while its consumer awaits.
\<close>

type_synonym ('k, 'v) livemap = "('k \<times> 'v) option list"

definition has_key :: "'k \<Rightarrow> ('k \<times> 'v) option \<Rightarrow> bool" where
  "has_key k e \<longleftrightarrow> (case e of Some (k', _) \<Rightarrow> k' = k | None \<Rightarrow> False)"

definition lm_set :: "('k, 'v) livemap \<Rightarrow> 'k \<Rightarrow> 'v \<Rightarrow> ('k, 'v) livemap" where
  "lm_set m k v = (if list_ex (has_key k) m then map (\<lambda>e. if has_key k e then Some (k, v) else e) m else m @ [Some (k, v)])"

definition lm_delete :: "('k, 'v) livemap \<Rightarrow> 'k \<Rightarrow> ('k, 'v) livemap" where
  "lm_delete m k = map (\<lambda>e. if has_key k e then None else e) m"

definition lm_has :: "('k, 'v) livemap \<Rightarrow> 'k \<Rightarrow> bool" where
  "lm_has m k \<longleftrightarrow> list_ex (has_key k) m"

definition lm_size :: "('k, 'v) livemap \<Rightarrow> nat" where
  "lm_size m = length (filter (\<lambda>e. e \<noteq> None) m)"

text \<open>The next place at or after \<open>i\<close> that holds an entry.\<close>

fun lm_find :: "nat \<Rightarrow> ('k, 'v) livemap \<Rightarrow> (nat \<times> 'k \<times> 'v) option" where
  "lm_find j [] = None"
| "lm_find j (None # m) = lm_find (Suc j) m"
| "lm_find j (Some (k, v) # m) = Some (j, k, v)"

definition lm_next :: "nat \<Rightarrow> ('k, 'v) livemap \<Rightarrow> (nat \<times> 'k \<times> 'v) option" where
  "lm_next i m = lm_find i (drop i m)"

lemma lm_find_None: "lm_find j m = None \<longleftrightarrow> set m \<subseteq> {None}"
  by (induction j m rule: lm_find.induct) auto

lemma lm_find_Some: "lm_find j m = Some (i, k, v) \<Longrightarrow> j \<le> i \<and> i - j < length m \<and> m ! (i - j) = Some (k, v) \<and> (\<forall>x < i - j. m ! x = None)"
proof (induction j m rule: lm_find.induct)
  case (2 j m)
  then have *: "Suc j \<le> i" "i - Suc j < length m" "m ! (i - Suc j) = Some (k, v)" "\<forall>x < i - Suc j. m ! x = None" by auto
  then have "i - j = Suc (i - Suc j)" by simp
  then show ?case using * by (auto simp: less_Suc_eq_0_disj)
qed auto

lemma lm_next_None: "lm_next i m = None \<longleftrightarrow> (\<forall>j. i \<le> j \<and> j < length m \<longrightarrow> m ! j = None)"
proof
  assume "lm_next i m = None"
  then have n: "set (drop i m) \<subseteq> {None}" by (simp add: lm_next_def lm_find_None)
  show "\<forall>j. i \<le> j \<and> j < length m \<longrightarrow> m ! j = None"
  proof (intro allI impI)
    fix j assume j: "i \<le> j \<and> j < length m"
    then have "drop i m ! (j - i) \<in> set (drop i m)" by (intro nth_mem) auto
    then have "drop i m ! (j - i) = None" using n by blast
    then show "m ! j = None" using j by simp
  qed
next
  assume *: "\<forall>j. i \<le> j \<and> j < length m \<longrightarrow> m ! j = None"
  have "x = None" if "x \<in> set (drop i m)" for x
  proof -
    obtain n where n: "n < length (drop i m)" "drop i m ! n = x" using \<open>x \<in> set (drop i m)\<close> unfolding in_set_conv_nth by blast
    then have "i \<le> i + n \<and> i + n < length m" by simp
    then have "m ! (i + n) = None" using * by blast
    then show ?thesis using n by simp
  qed
  then have "set (drop i m) \<subseteq> {None}" by blast
  then show "lm_next i m = None" by (simp add: lm_next_def lm_find_None)
qed

lemma lm_next_Some: "lm_next i m = Some (j, k, v) \<Longrightarrow> i \<le> j \<and> j < length m \<and> m ! j = Some (k, v) \<and> (\<forall>x. i \<le> x \<and> x < j \<longrightarrow> m ! x = None)"
proof -
  assume "lm_next i m = Some (j, k, v)"
  then have *: "i \<le> j" "j - i < length (drop i m)" "drop i m ! (j - i) = Some (k, v)" "\<forall>x < j - i. drop i m ! x = None"
    using lm_find_Some[of i "drop i m" j k v] by (auto simp: lm_next_def)
  have "m ! x = None" if "i \<le> x" "x < j" for x using *(4)[rule_format, of "x - i"] that *(2) by simp
  then show ?thesis using *(1-3) by simp
qed

lemma lm_size_next: "lm_size m = 0 \<longleftrightarrow> lm_next 0 m = None"
  by (auto simp: lm_size_def lm_next_def lm_find_None filter_empty_conv simp del: not_None_eq)

section \<open>The window of remembered ids\<close>

type_synonym dedup = "(string, int) jsmap"

fun evictExpired :: "int \<Rightarrow> dedup \<Rightarrow> dedup" where
  "evictExpired now [] = []"
| "evictExpired now ((i, expires) # m) = (if expires \<le> now then evictExpired now m else (i, expires) # m)"

text \<open>\<open>dedup.set(id, now + ttl)\<close>, and the oldest entry goes when the window is exceeded.\<close>

definition remember :: "nat \<Rightarrow> int \<Rightarrow> int \<Rightarrow> string \<Rightarrow> dedup \<Rightarrow> dedup" where
  "remember window ttl now i m =
     (let m = jm_set m i (now + ttl)
      in if length m > window then (case m of (firstKey, _) # _ \<Rightarrow> jm_delete m firstKey | [] \<Rightarrow> m) else m)"

text \<open>Whether the id is new, at the clock readings of the eviction and of the insertion.\<close>

definition dedup_admit :: "nat \<Rightarrow> int \<Rightarrow> int \<Rightarrow> int \<Rightarrow> string \<Rightarrow> dedup \<Rightarrow> bool \<times> dedup" where
  "dedup_admit window ttl now now' i m =
     (let m = evictExpired now m in if jm_has m i then (False, m) else (True, remember window ttl now' i m))"

section \<open>The contract of the window\<close>

text \<open>
  A client sees admissions only: an id is refused exactly when it is one of the last \<open>window\<close> ids
  admitted and was admitted less than \<open>ttl\<close> ago. \<open>holds m t h\<close> says that \<open>m\<close> is a memory of the
  admissions \<open>h\<close>, oldest first, whose last use was at \<open>t\<close>.
\<close>

definition lastn :: "nat \<Rightarrow> 'a list \<Rightarrow> 'a list" where
  "lastn n xs = drop (length xs - n) xs"

definition recent :: "nat \<Rightarrow> int \<Rightarrow> int \<Rightarrow> (int \<times> string) list \<Rightarrow> (int \<times> string) list" where
  "recent window ttl now h = filter (\<lambda>(t, _). now < t + ttl) (lastn window h)"

locale dedup_window =
  fixes window :: nat and ttl :: int
    and admit :: "int \<Rightarrow> int \<Rightarrow> string \<Rightarrow> 'm \<Rightarrow> bool \<times> 'm"
    and empty :: 'm
    and holds :: "'m \<Rightarrow> int \<Rightarrow> (int \<times> string) list \<Rightarrow> bool"
  assumes holds_empty: "0 < ttl \<Longrightarrow> holds empty t []"
    and admit_spec: "holds m t h \<Longrightarrow> t \<le> now \<Longrightarrow> now \<le> now' \<Longrightarrow> admit now now' i m = (new, m') \<Longrightarrow>
      (new \<longleftrightarrow> i \<notin> snd ` set (recent window ttl now h)) \<and> holds m' now' (if new then h @ [(now', i)] else h)"
begin

text \<open>A sequence of uses, each with its two clock readings.\<close>

fun admit_all :: "(int \<times> int \<times> string) list \<Rightarrow> 'm \<Rightarrow> (int \<times> string) list \<times> 'm" where
  "admit_all [] m = ([], m)"
| "admit_all ((now, now', i) # us) m =
     (let (new, m) = admit now now' i m; (h, m) = admit_all us m in (if new then (now', i) # h else h, m))"

fun admitted_spec :: "(int \<times> string) list \<Rightarrow> (int \<times> int \<times> string) list \<Rightarrow> (int \<times> string) list" where
  "admitted_spec h [] = []"
| "admitted_spec h ((now, now', i) # us) =
     (if i \<in> snd ` set (recent window ttl now h) then admitted_spec h us else (now', i) # admitted_spec (h @ [(now', i)]) us)"

fun clock_ok :: "int \<Rightarrow> (int \<times> int \<times> string) list \<Rightarrow> bool" where
  "clock_ok t [] = True"
| "clock_ok t ((now, now', i) # us) \<longleftrightarrow> t \<le> now \<and> now \<le> now' \<and> clock_ok now' us"

fun clock_end :: "int \<Rightarrow> (int \<times> int \<times> string) list \<Rightarrow> int" where
  "clock_end t [] = t"
| "clock_end t ((_, now', _) # us) = clock_end now' us"

lemma clock_ok_snoc: "clock_ok t (us @ [(now, now', i)]) \<longleftrightarrow> clock_ok t us \<and> clock_end t us \<le> now \<and> now \<le> now'"
  by (induction t us rule: clock_ok.induct) auto

lemma clock_end_snoc [simp]: "clock_end t (us @ [(now, now', i)]) = now'"
  by (induction t us rule: clock_end.induct) auto

lemma admitted_spec_snoc:
  "admitted_spec h (us @ [(now, now', i)]) = admitted_spec h us @
     (if i \<in> snd ` set (recent window ttl now (h @ admitted_spec h us)) then [] else [(now', i)])"
  by (induction h us rule: admitted_spec.induct) auto

text \<open>What a client keeps: its memory holds exactly the admissions of the specification.\<close>

definition remembers :: "int \<Rightarrow> (int \<times> int \<times> string) list \<Rightarrow> 'm \<Rightarrow> bool" where
  "remembers t us m \<longleftrightarrow> (clock_ok t us \<longrightarrow> holds m (clock_end t us) (admitted_spec [] us))"

lemma remembers_empty: "0 < ttl \<Longrightarrow> remembers t [] empty"
  by (simp add: remembers_def holds_empty)

lemma remembers_admit:
  assumes "remembers t us m" and "admit now now' i m = (new, m')" and "clock_ok t (us @ [(now, now', i)])"
  shows "remembers t (us @ [(now, now', i)]) m' \<and>
    admitted_spec [] (us @ [(now, now', i)]) = admitted_spec [] us @ (if new then [(now', i)] else [])"
proof -
  have c: "clock_ok t us" "clock_end t us \<le> now" "now \<le> now'" using assms(3) by (simp_all add: clock_ok_snoc)
  then have h: "holds m (clock_end t us) (admitted_spec [] us)" using assms(1) by (simp add: remembers_def)
  show ?thesis using admit_spec[OF h c(2,3) assms(2)] by (cases new) (simp_all add: remembers_def admitted_spec_snoc)
qed

lemma admit_all_spec: "holds m t h \<Longrightarrow> clock_ok t us \<Longrightarrow> fst (admit_all us m) = admitted_spec h us"
proof (induction us arbitrary: m t h)
  case (Cons u us)
  obtain now now' i where u: "u = (now, now', i)" by (cases u)
  obtain new m' where a: "admit now now' i m = (new, m')" by fastforce
  have c: "t \<le> now" "now \<le> now'" "clock_ok now' us" using Cons.prems(2) by (simp_all add: u)
  note s = admit_spec[OF Cons.prems(1) c(1,2) a]
  show ?case
    using s Cons.IH[of m' now' "h @ [(now', i)]"] Cons.IH[of m' now' h] c(3) by (cases new) (auto simp: u a split_beta)
qed simp

end

section \<open>The map keeps the contract\<close>

definition memory_of :: "int \<Rightarrow> (int \<times> string) list \<Rightarrow> dedup" where
  "memory_of ttl h = map (\<lambda>(t, i). (i, t + ttl)) h"

definition dedup_holds :: "nat \<Rightarrow> int \<Rightarrow> dedup \<Rightarrow> int \<Rightarrow> (int \<times> string) list \<Rightarrow> bool" where
  "dedup_holds window ttl m t h \<longleftrightarrow> 0 < ttl \<and> sorted (map fst h) \<and> (\<forall>e \<in> set h. fst e \<le> t) \<and>
     (\<exists>s \<le> t. m = memory_of ttl (recent window ttl s h)) \<and> jm_inv m"

lemma evict_memory: "sorted (map fst h) \<Longrightarrow> evictExpired now (memory_of ttl h) = memory_of ttl (filter (\<lambda>(t, _). now < t + ttl) h)"
proof (induction h)
  case (Cons e h)
  obtain t i where e: "e = (t, i)" by (cases e)
  have "filter (\<lambda>(t, _). now < t + ttl) h = h" if "now < t + ttl"
    using Cons.prems that by (auto simp: e filter_id_conv)
  then show ?case using Cons by (auto simp: e memory_of_def)
qed (simp add: memory_of_def)

lemma sorted_recent: "sorted (map fst h) \<Longrightarrow> sorted (map fst (recent w ttl now h))"
  unfolding recent_def lastn_def by (metis drop_map sorted_filter sorted_wrt_drop)

lemma recent_later: "s \<le> now \<Longrightarrow> filter (\<lambda>(t, _). now < t + ttl) (recent w ttl s h) = recent w ttl now h"
  by (auto simp: recent_def intro!: filter_cong)

lemma length_recent: "length (recent w ttl now h) \<le> w"
  unfolding recent_def lastn_def by (rule order_trans[OF length_filter_le]) simp

lemma lastn_append: "lastn n (xs @ [x]) = (if n = 0 then [] else (if length xs < n then xs else tl (lastn n xs)) @ [x])"
proof (cases "n = 0 \<or> length xs < n")
  case False
  then have "Suc (length xs) - n = Suc (length xs - n)" by (intro Suc_diff_le) simp
  then show ?thesis using False by (simp add: lastn_def drop_Suc tl_drop)
qed (auto simp: lastn_def)

lemma recent_append:
  assumes "sorted (map fst h)" and "\<forall>e \<in> set h. fst e \<le> now'" and "s \<le> now'" and "0 < ttl"
  shows "recent w ttl s (h @ [(now', i)]) =
    (if length (recent w ttl s h) < w then recent w ttl s h @ [(now', i)] else tl (recent w ttl s h @ [(now', i)]))"
proof (cases "w = 0")
  case True
  then show ?thesis by (simp add: recent_def lastn_def)
next
  case w: False
  let ?L = "lastn w h" and ?p = "\<lambda>(t, _). s < t + ttl"
  have srt: "sorted (map fst ?L)" using assms(1) unfolding lastn_def by (metis drop_map sorted_wrt_drop)
  have "?p (now', i)" using assms(3,4) by simp
  show ?thesis
  proof (cases "length h < w")
    case True
    then have "length (recent w ttl s h) < w"
      unfolding recent_def by (intro le_less_trans[OF length_filter_le]) (simp add: lastn_def)
    then show ?thesis using w True assms(3,4) by (simp add: recent_def lastn_append) (simp add: lastn_def)
  next
    case False
    then have "length ?L = w" by (simp add: lastn_def)
    then obtain e L where L: "?L = e # L" "Suc (length L) = w" using w by (cases ?L) auto
    have all: "?p e \<Longrightarrow> filter ?p L = L" using srt L(1) by (auto simp: filter_id_conv)
    then show ?thesis using w False assms(3,4) L length_filter_le[of ?p L]
      by (cases "?p e") (auto simp: recent_def lastn_append less_Suc_eq_le)
  qed
qed

lemma jm_delete_head: "jm_inv ((k, v) # m) \<Longrightarrow> jm_delete ((k, v) # m) k = m"
  by (auto simp: jm_delete_def jm_inv_def jm_keys_def filter_id_conv image_iff)

lemma keys_memory: "set (jm_keys (memory_of ttl h)) = snd ` set h"
  by (auto simp: jm_keys_def memory_of_def image_iff split_beta)

lemma length_memory [simp]: "length (memory_of ttl h) = length h"
  by (simp add: memory_of_def)

lemma memory_append: "memory_of ttl (h @ h') = memory_of ttl h @ memory_of ttl h'"
  by (simp add: memory_of_def)

lemma dedup_admit_holds:
  assumes "dedup_holds window ttl m t h" and "t \<le> now" and "now \<le> now'" and "dedup_admit window ttl now now' i m = (new, m')"
  shows "(new \<longleftrightarrow> i \<notin> snd ` set (recent window ttl now h)) \<and> dedup_holds window ttl m' now' (if new then h @ [(now', i)] else h)"
proof -
  obtain s where ok: "0 < ttl" "sorted (map fst h)" "\<forall>e \<in> set h. fst e \<le> t" "s \<le> t" "m = memory_of ttl (recent window ttl s h)" "jm_inv m"
    using assms(1) unfolding dedup_holds_def by blast
  let ?R = "recent window ttl now h"
  have e: "evictExpired now m = memory_of ttl ?R"
    unfolding ok(5) evict_memory[OF sorted_recent[OF ok(2)]] using recent_later[of s now] ok(4) assms(2) by simp
  have suf: "jm_inv (evictExpired n x)" if "jm_inv x" for n x
    using that by (induction n x rule: evictExpired.induct) (auto simp: jm_inv_def jm_keys_def)
  have inv: "jm_inv (memory_of ttl ?R)" using suf[OF ok(6), of now] by (simp add: e)
  have new: "new \<longleftrightarrow> i \<notin> snd ` set ?R"
    using assms(4) by (auto simp: dedup_admit_def Let_def e jm_has_iff keys_memory split: if_splits)
  show ?thesis
  proof (cases new)
    case False
    then have "m' = memory_of ttl ?R" using assms(4) by (auto simp: dedup_admit_def Let_def e split: if_splits)
    moreover have "\<forall>e \<in> set h. fst e \<le> now'" "now \<le> now'" using ok(3) assms(2,3) by force+
    ultimately have "dedup_holds window ttl m' now' h" using ok(1,2) inv unfolding dedup_holds_def by blast
    then show ?thesis using new False by simp
  next
    case True
    have ni: "\<not> jm_has (memory_of ttl ?R) i" using True new by (simp add: jm_has_iff keys_memory)
    have m': "m' = remember window ttl now' i (memory_of ttl ?R)"
      using assms(4) True ni by (auto simp: dedup_admit_def Let_def e split: if_splits)
    have srt: "sorted (map fst (h @ [(now', i)]))" using ok(2,3) assms(2,3) by (fastforce simp: sorted_append)
    have ext: "jm_set (memory_of ttl ?R) i (now' + ttl) = memory_of ttl (?R @ [(now', i)])"
      using jm_set_absent[OF ni] by (simp add: memory_of_def)
    have inv': "jm_inv (memory_of ttl (?R @ [(now', i)]))" using jm_inv_set[OF inv] unfolding ext[symmetric] .
    have ra: "recent window ttl now (h @ [(now', i)]) =
        (if length ?R < window then ?R @ [(now', i)] else tl (?R @ [(now', i)]))"
      by (rule recent_append[OF ok(2) _ _ ok(1)]) (use ok(3) assms(2,3) in force)+
    have "m' = memory_of ttl (recent window ttl now (h @ [(now', i)])) \<and> jm_inv m'"
    proof (cases "length ?R < window")
      case True
      then show ?thesis using m' inv' ra by (simp add: remember_def Let_def ext)
    next
      case False
      obtain k v r where r: "memory_of ttl (?R @ [(now', i)]) = (k, v) # r"
        by (cases "memory_of ttl (?R @ [(now', i)])") (auto simp: memory_of_def)
      have "length ((k, v) # r) = Suc (length ?R)" unfolding r[symmetric] by simp
      then have "m' = r"
        using m' False inv' jm_delete_head[of k v r]
        by (simp add: remember_def Let_def ext r)
      moreover have "r = memory_of ttl (tl (?R @ [(now', i)]))" using arg_cong[OF r, of tl] by (simp add: memory_of_def map_tl)
      moreover have "jm_inv r" using inv' unfolding r by (simp add: jm_inv_def jm_keys_def)
      ultimately show ?thesis using ra False by simp
    qed
    moreover have "\<forall>e \<in> set (h @ [(now', i)]). fst e \<le> now'" using ok(3) assms(2,3) by force
    ultimately have "dedup_holds window ttl m' now' (h @ [(now', i)])" using ok(1) srt assms(3) unfolding dedup_holds_def by blast
    then show ?thesis using new True by simp
  qed
qed

lemma dedup_holds_empty: "0 < ttl \<Longrightarrow> dedup_holds window ttl [] t []"
  by (auto simp: dedup_holds_def memory_of_def recent_def lastn_def)

interpretation dedup: dedup_window window ttl "dedup_admit window ttl" "[]" "dedup_holds window ttl" for window ttl
  by unfold_locales (use dedup_holds_empty dedup_admit_holds in blast)+

end
