(* ===== verification/Runtime.thy ===== *)
theory Runtime
  imports Guards LandedTrades SignalIds SignalCore
begin

text \<open>
  \<open>packages/solana-strategy/src/runtime.ts\<close> with \<open>filter.ts\<close>, \<open>strategy.ts\<close> and \<open>instance-queue.ts\<close>: the
  loop from signals through strategies and the executor to the portfolio. Strategies, the executor,
  the wallets and the RPC node are parameters over a world \<open>'w\<close>; the portfolio is the store of
  \<open>PortfolioStore\<close>, the adapter that of \<open>LandedTrades\<close>, the guards those of \<open>Guards\<close>. The runtime is a
  transition function: what happens between two awaits of a task is one step, so tasks of different
  instances, arriving signals and calls of the API interleave at every await.
\<close>

section \<open>Filters and hooks\<close>

datatype kind_filter = KindIs string | KindMatches "string \<Rightarrow> bool"

record signal_filter =
  sf_programId :: "pubkey list option"
  sf_venue :: "string option"
  sf_kind :: "kind_filter option"

definition matches :: "signal_filter \<Rightarrow> 'd signal \<Rightarrow> bool" where
  "matches f sig \<longleftrightarrow>
     (case sf_programId f of Some arr \<Rightarrow> list_ex (\<lambda>p. pk_equals p (sl_programId sig)) arr | None \<Rightarrow> True) \<and>
     (case sf_venue f of Some v \<Rightarrow> v = [] \<or> sl_venue sig = Some v | None \<Rightarrow> True) \<and>
     (case sf_kind f of Some (KindMatches re) \<Rightarrow> re (sl_kind sig) | Some (KindIs k) \<Rightarrow> k = [] \<or> k = sl_kind sig | None \<Rightarrow> True)"

definition matchesAny :: "signal_filter list \<Rightarrow> 'd signal \<Rightarrow> bool" where
  "matchesAny filters sig = list_ex (\<lambda>f. matches f sig) filters"

record balance_delta =
  bd_mint :: pubkey
  bd_delta :: int
  bd_preAmount :: int
  bd_postAmount :: int
  bd_slot :: nat

datatype hook_phase = StartPhase | SignalPhase | ExecutionResultPhase | PositionChangePhase | BalanceChangePhase | TickPhase | ShutdownPhase

datatype hook_call =
    OnStart | OnExecutionResult exec_result | OnPositionChange position_change | OnBalanceChange string balance_delta
  | OnTick int | OnShutdown

fun phase_of :: "hook_call \<Rightarrow> hook_phase" where
  "phase_of OnStart = StartPhase"
| "phase_of (OnExecutionResult _) = ExecutionResultPhase"
| "phase_of (OnPositionChange _) = PositionChangePhase"
| "phase_of (OnBalanceChange _ _) = BalanceChangePhase"
| "phase_of (OnTick _) = TickPhase"
| "phase_of OnShutdown = ShutdownPhase"

record strategy =
  sy_name :: string
  sy_filters :: "signal_filter list"
  sy_has :: "hook_phase \<Rightarrow> bool"   \<comment> \<open>the optional hooks it defines\<close>

section \<open>The state\<close>

datatype 'd task =
    SignalTask "'d signal"
  | HookTask hook_call
  | Barrier      \<comment> \<open>the drain barrier of \<open>deregister\<close>\<close>
  | Farewell     \<comment> \<open>its \<open>onShutdown\<close>\<close>

text \<open>Where the running signal task is: the call it makes next.\<close>

datatype 'd running =
    AtDecision "'d signal" intent
  | AtResolve "'d signal" intent
  | AtSubmit "'d signal" intent pubkey
  | AtAdapt exec_result pubkey
  | AtTrades "landed_trade list" pubkey bool
  | AtApply landed_trade "landed_trade list" pubkey int
  | AtAfter landed_trade "landed_trade list" pubkey int
  | AtPositions pubkey

record 'd inst_record =
  in_id :: string
  in_strategy :: strategy
  in_queue :: "'d task list"
  in_running :: "'d running option"
  in_guards :: guard_tracker
  in_quarantined :: bool
  in_wallets :: "(string, pubkey) jsmap"

datatype task_error = WalletFailed string | SubmitFailed string | AdaptFailed adapt_error | PortfolioFailed store_error

datatype 'd runtime_event =
    Enqueued nat "'d signal"
  | Submitted nat "'d signal" intent
  | Tripped nat guard_trip
  | StrategyError nat hook_phase string
  | HookCalled nat hook_call
  | TaskRejected nat task_error     \<comment> \<open>the promise of \<open>enqueue\<close>, which nobody awaits\<close>

text \<open>Records are named by their number: two records may have the same id, one after the other.\<close>

record ('w, 'd) runtime =
  rt_instances :: "(string, nat) jsmap"
  rt_records :: "'d inst_record list"
  rt_world :: 'w
  rt_store :: store
  rt_subscribed :: bool
  rt_listeners :: nat    \<comment> \<open>calls of \<open>start\<close>: listeners on the executor and the portfolio\<close>
  rt_intervals :: nat    \<comment> \<open>intervals that tick\<close>
  rt_tickTimer :: bool   \<comment> \<open>whether \<open>tickTimer\<close> holds one of them\<close>
  rt_log :: "'d runtime_event list"

record ('w, 'd) runtime_env =
  v_onSignal :: "string \<Rightarrow> 'd signal \<Rightarrow> 'w \<Rightarrow> (string + intent option) \<times> 'w"
  v_hook :: "string \<Rightarrow> hook_call \<Rightarrow> 'w \<Rightarrow> string option \<times> 'w"    \<comment> \<open>\<open>Some\<close> the error it throws\<close>
  v_submit :: "intent \<Rightarrow> 'w \<Rightarrow> (string + exec_result) \<times> 'w"
  v_resolveWallet :: "string \<Rightarrow> 'w \<Rightarrow> (string + pubkey) \<times> 'w"
  v_getTransaction :: "'w \<Rightarrow> string \<Rightarrow> string + rpc_transaction option"
  v_clock :: "'w \<Rightarrow> int"
  v_guards :: guard_config
  v_hashing :: hashing

definition new_runtime :: "'w \<Rightarrow> store \<Rightarrow> ('w, 'd) runtime" where
  "new_runtime w s = \<lparr>rt_instances = [], rt_records = [], rt_world = w, rt_store = s, rt_subscribed = False, rt_listeners = 0,
     rt_intervals = 0, rt_tickTimer = False, rt_log = []\<rparr>"

definition on_record :: "nat \<Rightarrow> ('d inst_record \<Rightarrow> 'd inst_record) \<Rightarrow> ('w, 'd) runtime \<Rightarrow> ('w, 'd) runtime" where
  "on_record h f r = r\<lparr>rt_records := (rt_records r)[h := f (rt_records r ! h)]\<rparr>"

definition rt_emit :: "'d runtime_event \<Rightarrow> ('w, 'd) runtime \<Rightarrow> ('w, 'd) runtime" where
  "rt_emit ev r = r\<lparr>rt_log := rt_log r @ [ev]\<rparr>"

definition enqueue :: "nat \<Rightarrow> 'd task \<Rightarrow> ('w, 'd) runtime \<Rightarrow> ('w, 'd) runtime" where
  "enqueue h t = on_record h (\<lambda>i. i\<lparr>in_queue := in_queue i @ [t]\<rparr>)"

definition set_running :: "nat \<Rightarrow> 'd running option \<Rightarrow> ('w, 'd) runtime \<Rightarrow> ('w, 'd) runtime" where
  "set_running h x = on_record h (\<lambda>i. i\<lparr>in_running := x\<rparr>)"

section \<open>Guards and hooks\<close>

definition call_hook :: "('w, 'd) runtime_env \<Rightarrow> nat \<Rightarrow> hook_call \<Rightarrow> ('w, 'd) runtime \<Rightarrow> string option \<times> ('w, 'd) runtime" where
  "call_hook env h c r =
     (case v_hook env (in_id (rt_records r ! h)) c (rt_world r) of
        (res, w) \<Rightarrow> (res, rt_emit (HookCalled h c) (r\<lparr>rt_world := w\<rparr>)))"

definition tripGuard :: "('w, 'd) runtime_env \<Rightarrow> nat \<Rightarrow> guard_trip \<Rightarrow> ('w, 'd) runtime \<Rightarrow> ('w, 'd) runtime" where
  "tripGuard env h trip r =
     (if in_quarantined (rt_records r ! h) then r
      else let r = rt_emit (Tripped h trip) (on_record h (\<lambda>i. i\<lparr>in_quarantined := True\<rparr>) r)
           in if sy_has (in_strategy (rt_records r ! h)) ShutdownPhase then snd (call_hook env h OnShutdown r) else r)"

text \<open>The guard's answer: the new tracker, and a trip if there is one.\<close>

definition guarded :: "('w, 'd) runtime_env \<Rightarrow> nat \<Rightarrow> guard_trip option \<times> guard_tracker \<Rightarrow> ('w, 'd) runtime \<Rightarrow> ('w, 'd) runtime" where
  "guarded env h res r =
     (let r = on_record h (\<lambda>i. i\<lparr>in_guards := snd res\<rparr>) r
      in case fst res of Some trip \<Rightarrow> tripGuard env h trip r | None \<Rightarrow> r)"

text \<open>The error path of \<open>callHook\<close>.\<close>

definition hook_failed :: "('w, 'd) runtime_env \<Rightarrow> nat \<Rightarrow> hook_phase \<Rightarrow> string \<Rightarrow> ('w, 'd) runtime \<Rightarrow> ('w, 'd) runtime" where
  "hook_failed env h phase err r =
     rt_emit (StrategyError h phase err)
       (guarded env h (record_error (v_guards env) (v_clock env (rt_world r)) (in_guards (rt_records r ! h))) r)"

definition callHook :: "('w, 'd) runtime_env \<Rightarrow> nat \<Rightarrow> hook_call \<Rightarrow> ('w, 'd) runtime \<Rightarrow> ('w, 'd) runtime" where
  "callHook env h c r =
     (case call_hook env h c r of
        (Some err, r) \<Rightarrow> hook_failed env h (phase_of c) err r
      | (None, r) \<Rightarrow> r)"

section \<open>Dispatch\<close>

definition for_instances :: "(nat \<Rightarrow> ('w, 'd) runtime \<Rightarrow> ('w, 'd) runtime) \<Rightarrow> ('w, 'd) runtime \<Rightarrow> ('w, 'd) runtime" where
  "for_instances f r = fold f (jm_values (rt_instances r)) r"

definition dispatchSignal :: "'d signal \<Rightarrow> ('w, 'd) runtime \<Rightarrow> ('w, 'd) runtime" where
  "dispatchSignal sig = for_instances (\<lambda>h r.
     let i = rt_records r ! h
     in if in_quarantined i \<or> \<not> matchesAny (sy_filters (in_strategy i)) sig then r
        else rt_emit (Enqueued h sig) (enqueue h (SignalTask sig) r))"

definition dispatch_hook :: "hook_call \<Rightarrow> ('w, 'd) runtime \<Rightarrow> ('w, 'd) runtime" where
  "dispatch_hook c = for_instances (\<lambda>h r.
     let i = rt_records r ! h
     in if in_quarantined i \<or> \<not> sy_has (in_strategy i) (phase_of c) then r else enqueue h (HookTask c) r)"

definition dispatchExecutionResult :: "exec_result \<Rightarrow> ('w, 'd) runtime \<Rightarrow> ('w, 'd) runtime" where
  "dispatchExecutionResult result = dispatch_hook (OnExecutionResult result)"

definition dispatchTick :: "('w, 'd) runtime_env \<Rightarrow> ('w, 'd) runtime \<Rightarrow> ('w, 'd) runtime" where
  "dispatchTick env r = dispatch_hook (OnTick (v_clock env (rt_world r))) r"

definition position_total :: "position option \<Rightarrow> int" where
  "position_total p = (case p of Some p \<Rightarrow> sum_amount (ps_lots p) | None \<Rightarrow> 0)"

definition dispatchPositionChange :: "position_change \<Rightarrow> ('w, 'd) runtime \<Rightarrow> ('w, 'd) runtime" where
  "dispatchPositionChange change =
     (let preAmount = position_total (pc_before change); postAmount = position_total (Some (pc_after change)) in
      for_instances (\<lambda>h r.
        let i = rt_records r ! h in
        if in_quarantined i then r
        else let r = (if sy_has (in_strategy i) PositionChangePhase then enqueue h (HookTask (OnPositionChange change)) r else r)
             in if \<not> sy_has (in_strategy i) BalanceChangePhase \<or> postAmount = preAmount then r
                else case List.find (\<lambda>(_, addr). pk_equals addr (pc_wallet change)) (in_wallets i) of
                       None \<Rightarrow> r
                     | Some (walletName, _) \<Rightarrow>
                         enqueue h (HookTask (OnBalanceChange walletName \<lparr>bd_mint = pc_mint change, bd_delta = postAmount - preAmount,
                           bd_preAmount = preAmount, bd_postAmount = postAmount, bd_slot = ps_lastUpdatedSlot (pc_after change)\<rparr>)) r))"

text \<open>The portfolio's \<open>change\<close> events reach every listener.\<close>

definition notify_changes :: "position_change list \<Rightarrow> ('w, 'd) runtime \<Rightarrow> ('w, 'd) runtime" where
  "notify_changes cs r = fold (\<lambda>c r. (dispatchPositionChange c ^^ rt_listeners r) r) cs r"

section \<open>The tasks of an instance\<close>

definition rejected :: "nat \<Rightarrow> task_error \<Rightarrow> ('w, 'd) runtime \<Rightarrow> ('w, 'd) runtime" where
  "rejected h e r = rt_emit (TaskRejected h e) (set_running h None r)"

definition decided_intent :: "('w, 'd) runtime_env \<Rightarrow> 'd inst_record \<Rightarrow> 'd signal \<Rightarrow> intent \<Rightarrow> intent" where
  "decided_intent env i sig decision = decision\<lparr>intentId := intent_id (v_hashing env)
     \<lparr>ik_signalId = map of_char (sl_signalId sig), ik_strategyName = map of_char (sy_name (in_strategy i)),
      ik_instanceId = map of_char (in_id i), ik_decisionVersion = None\<rparr>\<rparr>"

definition open_positions :: "pubkey \<Rightarrow> store \<Rightarrow> nat" where
  "open_positions w s = length (filter (\<lambda>p. list_ex (\<lambda>l. amount l > 0) (ps_lots p)) (getAllPositions w s))"

fun advance :: "('w, 'd) runtime_env \<Rightarrow> nat \<Rightarrow> 'd running \<Rightarrow> ('w, 'd) runtime \<Rightarrow> ('w, 'd) runtime" where
  "advance env h (AtDecision sig decision) r =
     (let i = rt_records r ! h; (trip, g) = recordDecision (v_guards env) (v_clock env (rt_world r)) (in_guards i)
      in case trip of
           Some _ \<Rightarrow> set_running h None (guarded env h (trip, g) r)
         | None \<Rightarrow>
             (let full = decided_intent env i sig decision; r = guarded env h (trip, g) r
              in set_running h (Some (case jm_get (in_wallets i) (i_wallet full) of
                                        Some w \<Rightarrow> AtSubmit sig full w
                                      | None \<Rightarrow> AtResolve sig full)) r))"
| "advance env h (AtResolve sig full) r =
     (case v_resolveWallet env (i_wallet full) (rt_world r) of
        (Inl e, w) \<Rightarrow> rejected h (WalletFailed e) (r\<lparr>rt_world := w\<rparr>)
      | (Inr pk, w) \<Rightarrow>
          set_running h (Some (AtSubmit sig full pk))
            (on_record h (\<lambda>i. i\<lparr>in_wallets := jm_set (in_wallets i) (i_wallet full) pk\<rparr>) (r\<lparr>rt_world := w\<rparr>)))"
| "advance env h (AtSubmit sig full wallet) r =
     (let r = rt_emit (Submitted h sig full) r
      in case v_submit env full (rt_world r) of
           (Inl e, w) \<Rightarrow> rejected h (SubmitFailed e) (r\<lparr>rt_world := w\<rparr>)
         | (Inr result, w) \<Rightarrow> set_running h (Some (AtAdapt result wallet)) (r\<lparr>rt_world := w\<rparr>))"
| "advance env h (AtAdapt result wallet) r =
     (case adaptToLandedTrades (v_getTransaction env (rt_world r)) wallet result of
        Inl e \<Rightarrow> rejected h (AdaptFailed e) r
      | Inr ts \<Rightarrow> set_running h (Some (AtTrades ts wallet (ts \<noteq> []))) r)"
| "advance env h (AtTrades [] wallet some) r = set_running h (if some then Some (AtPositions wallet) else None) r"
| "advance env h (AtTrades (t # ts) wallet some) r =
     set_running h (Some (AtApply t ts wallet (getRealizedPnl (lt_wallet t) (lt_mint t) (rt_store r)))) r"
| "advance env h (AtApply t ts wallet before) r =
     (case applyLandedTrade t (rt_store r) of
        (Inl e, s) \<Rightarrow> rejected h (PortfolioFailed e) (r\<lparr>rt_store := s\<rparr>)
      | (Inr cs, s) \<Rightarrow> notify_changes cs (set_running h (Some (AtAfter t ts wallet before)) (r\<lparr>rt_store := s\<rparr>)))"
| "advance env h (AtAfter t ts wallet before) r =
     (let after = getRealizedPnl (lt_wallet t) (lt_mint t) (rt_store r);
          (trip, g) = recordRealized (v_guards env) (v_clock env (rt_world r)) (after - before) (in_guards (rt_records r ! h));
          r = guarded env h (trip, g) r
      in set_running h (case trip of Some _ \<Rightarrow> None | None \<Rightarrow> Some (AtTrades ts wallet True)) r)"
| "advance env h (AtPositions wallet) r =
     (let r = (case checkOpenPositions (v_guards env) (open_positions wallet (rt_store r)) of Some trip \<Rightarrow> tripGuard env h trip r | None \<Rightarrow> r)
      in set_running h None r)"

definition remove_instance :: "string \<Rightarrow> ('w, 'd) runtime \<Rightarrow> ('w, 'd) runtime" where
  "remove_instance i r = r\<lparr>rt_instances := jm_delete (rt_instances r) i\<rparr>"

fun start_task :: "('w, 'd) runtime_env \<Rightarrow> nat \<Rightarrow> 'd task \<Rightarrow> ('w, 'd) runtime \<Rightarrow> ('w, 'd) runtime" where
  "start_task env h (SignalTask sig) r =
     (case v_onSignal env (in_id (rt_records r ! h)) sig (rt_world r) of
        (Inl e, w) \<Rightarrow> hook_failed env h SignalPhase e (r\<lparr>rt_world := w\<rparr>)
      | (Inr None, w) \<Rightarrow> r\<lparr>rt_world := w\<rparr>
      | (Inr (Some decision), w) \<Rightarrow> set_running h (Some (AtDecision sig decision)) (r\<lparr>rt_world := w\<rparr>))"
| "start_task env h (HookTask c) r = callHook env h c r"
| "start_task env h Barrier r =
     (let i = rt_records r ! h
      in if sy_has (in_strategy i) ShutdownPhase then enqueue h Farewell r else remove_instance (in_id i) r)"
| "start_task env h Farewell r = remove_instance (in_id (rt_records r ! h)) (callHook env h OnShutdown r)"

definition run_instance :: "('w, 'd) runtime_env \<Rightarrow> nat \<Rightarrow> ('w, 'd) runtime \<Rightarrow> ('w, 'd) runtime option" where
  "run_instance env h r =
     (case jat (rt_records r) h of
        None \<Rightarrow> None
      | Some i \<Rightarrow>
          (case in_running i of
             Some x \<Rightarrow> Some (advance env h x r)
           | None \<Rightarrow>
               (case in_queue i of
                  [] \<Rightarrow> None
                | t # ts \<Rightarrow> Some (start_task env h t (on_record h (\<lambda>i. i\<lparr>in_queue := ts\<rparr>) r)))))"

section \<open>The API\<close>

definition register :: "('w, 'd) runtime_env \<Rightarrow> strategy \<Rightarrow> string option \<Rightarrow> ('w, 'd) runtime \<Rightarrow> ('w, 'd) runtime option" where
  "register env sy instanceId r =
     (let i = (case instanceId of Some i \<Rightarrow> i | None \<Rightarrow> sy_name sy) in
      if jm_has (rt_instances r) i then None
      else let h = length (rt_records r);
               r = r\<lparr>rt_records := rt_records r @ [\<lparr>in_id = i, in_strategy = sy, in_queue = [], in_running = None,
                       in_guards = new_tracker (v_clock env (rt_world r)), in_quarantined = False, in_wallets = []\<rparr>],
                     rt_instances := jm_set (rt_instances r) i h\<rparr>
           in Some (if sy_has sy StartPhase then enqueue h (HookTask OnStart) r else r))"

definition deregister :: "string \<Rightarrow> ('w, 'd) runtime \<Rightarrow> ('w, 'd) runtime" where
  "deregister i r = (case jm_get (rt_instances r) i of None \<Rightarrow> r | Some h \<Rightarrow> enqueue h Barrier r)"

definition start :: "('w, 'd) runtime \<Rightarrow> ('w, 'd) runtime" where
  "start r = r\<lparr>rt_subscribed := True, rt_listeners := rt_listeners r + 1, rt_intervals := rt_intervals r + 1, rt_tickTimer := True\<rparr>"

definition stop :: "('w, 'd) runtime \<Rightarrow> ('w, 'd) runtime" where
  "stop r = (if rt_tickTimer r then r\<lparr>rt_subscribed := False, rt_intervals := rt_intervals r - 1, rt_tickTimer := False\<rparr>
     else r\<lparr>rt_subscribed := False\<rparr>)"

definition set_quarantined :: "bool \<Rightarrow> string \<Rightarrow> ('w, 'd) runtime \<Rightarrow> ('w, 'd) runtime" where
  "set_quarantined b i r =
     (case jm_get (rt_instances r) i of Some h \<Rightarrow> on_record h (\<lambda>x. x\<lparr>in_quarantined := b\<rparr>) r | None \<Rightarrow> r)"

datatype 'd runtime_label =
    Register strategy "string option" | Deregister string | StartRuntime | StopRuntime | Pause string | Resume string
  | Signal "'d signal" | ExecutorResult exec_result | PortfolioChange position_change | Tick | Run nat

fun runtime_step :: "('w, 'd) runtime_env \<Rightarrow> 'd runtime_label \<Rightarrow> ('w, 'd) runtime \<Rightarrow> ('w, 'd) runtime option" where
  "runtime_step env (Register sy i) r = register env sy i r"
| "runtime_step env (Deregister i) r = Some (deregister i r)"
| "runtime_step env StartRuntime r = Some (start r)"
| "runtime_step env StopRuntime r = Some (stop r)"
| "runtime_step env (Pause i) r = Some (set_quarantined True i r)"
| "runtime_step env (Resume i) r = Some (set_quarantined False i r)"
| "runtime_step env (Signal sig) r = (if rt_subscribed r then Some (dispatchSignal sig r) else None)"
| "runtime_step env (ExecutorResult x) r = (if rt_listeners r > 0 then Some (dispatchExecutionResult x r) else None)"
| "runtime_step env (PortfolioChange c) r = Some (notify_changes [c] r)"
| "runtime_step env Tick r = (if rt_intervals r > 0 then Some (dispatchTick env r) else None)"
| "runtime_step env (Run h) r = run_instance env h r"

fun runtime_steps :: "('w, 'd) runtime_env \<Rightarrow> 'd runtime_label list \<Rightarrow> ('w, 'd) runtime \<Rightarrow> ('w, 'd) runtime option" where
  "runtime_steps env [] r = Some r"
| "runtime_steps env (l # ls) r = Option.bind (runtime_step env l r) (runtime_steps env ls)"

section \<open>What a step does to the signals of an instance\<close>

fun queued_signals :: "'d task list \<Rightarrow> 'd signal list" where
  "queued_signals [] = []"
| "queued_signals (SignalTask s # ts) = s # queued_signals ts"
| "queued_signals (_ # ts) = queued_signals ts"

fun undecided :: "'d running option \<Rightarrow> 'd signal list" where
  "undecided (Some (AtDecision s _)) = [s]"
| "undecided (Some (AtResolve s _)) = [s]"
| "undecided (Some (AtSubmit s _ _)) = [s]"
| "undecided _ = []"

text \<open>The signals that may still lead to a submission.\<close>

definition pending_signals :: "'d inst_record \<Rightarrow> 'd signal list" where
  "pending_signals i = undecided (in_running i) @ queued_signals (in_queue i)"

fun enqueued :: "nat \<Rightarrow> 'd runtime_event list \<Rightarrow> 'd signal list" where
  "enqueued h [] = []"
| "enqueued h (Enqueued h' s # es) = (if h' = h then s # enqueued h es else enqueued h es)"
| "enqueued h (_ # es) = enqueued h es"

fun submitted :: "nat \<Rightarrow> 'd runtime_event list \<Rightarrow> ('d signal \<times> intent) list" where
  "submitted h [] = []"
| "submitted h (Submitted h' s f # es) = (if h' = h then (s, f) # submitted h es else submitted h es)"
| "submitted h (_ # es) = submitted h es"

lemma enqueued_append: "enqueued h (es @ es') = enqueued h es @ enqueued h es'"
  by (induction h es rule: enqueued.induct) auto

lemma submitted_append: "submitted h (es @ es') = submitted h es @ submitted h es'"
  by (induction h es rule: submitted.induct) auto

lemma queued_signals_append: "queued_signals (ts @ ts') = queued_signals ts @ queued_signals ts'"
  by (induction ts rule: queued_signals.induct) auto

text \<open>The identifier an intent must carry.\<close>

definition expected_id :: "('w, 'd) runtime_env \<Rightarrow> 'd inst_record \<Rightarrow> 'd signal \<Rightarrow> string" where
  "expected_id env i sig = intent_id (v_hashing env)
     \<lparr>ik_signalId = map of_char (sl_signalId sig), ik_strategyName = map of_char (sy_name (in_strategy i)),
      ik_instanceId = map of_char (in_id i), ik_decisionVersion = None\<rparr>"

fun fits :: "('w, 'd) runtime_env \<Rightarrow> 'd inst_record \<Rightarrow> 'd running option \<Rightarrow> bool" where
  "fits env i (Some (AtResolve s f)) \<longleftrightarrow> intentId f = expected_id env i s"
| "fits env i (Some (AtSubmit s f _)) \<longleftrightarrow> intentId f = expected_id env i s"
| "fits env i _ \<longleftrightarrow> True"

definition sound :: "('w, 'd) runtime_env \<Rightarrow> nat \<Rightarrow> 'd inst_record \<Rightarrow> 'd runtime_event list \<Rightarrow> bool" where
  "sound env h i log \<longleftrightarrow> fits env i (in_running i) \<and>
     (\<forall>(s, f) \<in> set (submitted h log). intentId f = expected_id env i s) \<and>
     (\<forall>s \<in> set (enqueued h log). matchesAny (sy_filters (in_strategy i)) s)"

text \<open>How record \<open>h\<close> moves: submissions are taken from the front of what was pending.\<close>

definition moves :: "('w, 'd) runtime_env \<Rightarrow> nat \<Rightarrow> 'd inst_record \<times> 'd runtime_event list \<Rightarrow> 'd inst_record \<times> 'd runtime_event list \<Rightarrow> bool" where
  "moves env h a b \<longleftrightarrow> in_id (fst b) = in_id (fst a) \<and> in_strategy (fst b) = in_strategy (fst a) \<and>
     (\<exists>sub enq. submitted h (snd b) = submitted h (snd a) @ sub \<and> enqueued h (snd b) = enqueued h (snd a) @ enq \<and>
        subseq (map fst sub @ pending_signals (fst b)) (pending_signals (fst a) @ enq) \<and>
        (in_quarantined (fst a) \<longrightarrow> in_quarantined (fst b) \<and> enq = [])) \<and>
     (sound env h (fst a) (snd a) \<longrightarrow> sound env h (fst b) (snd b))"

lemma moves_refl [simp]: "moves env h a a"
  by (simp add: moves_def)

lemma moves_trans:
  assumes "moves env h a b" and "moves env h b c"
  shows "moves env h a c"
proof -
  obtain s1 e1 where 1: "submitted h (snd b) = submitted h (snd a) @ s1" "enqueued h (snd b) = enqueued h (snd a) @ e1"
    "subseq (map fst s1 @ pending_signals (fst b)) (pending_signals (fst a) @ e1)"
    "in_quarantined (fst a) \<longrightarrow> in_quarantined (fst b) \<and> e1 = []"
    using assms(1) unfolding moves_def by blast
  obtain s2 e2 where 2: "submitted h (snd c) = submitted h (snd b) @ s2" "enqueued h (snd c) = enqueued h (snd b) @ e2"
    "subseq (map fst s2 @ pending_signals (fst c)) (pending_signals (fst b) @ e2)"
    "in_quarantined (fst b) \<longrightarrow> in_quarantined (fst c) \<and> e2 = []"
    using assms(2) unfolding moves_def by blast
  have "subseq (map fst s1 @ map fst s2 @ pending_signals (fst c)) (map fst s1 @ pending_signals (fst b) @ e2)"
    using list_emb_append_mono[OF subseq_order.order_refl 2(3)] by simp
  also have "subseq (map fst s1 @ pending_signals (fst b) @ e2) (pending_signals (fst a) @ e1 @ e2)"
    using list_emb_append_mono[OF 1(3), of e2 e2] by simp
  finally have "subseq (map fst (s1 @ s2) @ pending_signals (fst c)) (pending_signals (fst a) @ e1 @ e2)" by simp
  then show ?thesis using assms 1 2 unfolding moves_def by (metis append_assoc append_Nil2)
qed

definition keeps :: "('w, 'd) runtime_env \<Rightarrow> ('w, 'd) runtime \<Rightarrow> ('w, 'd) runtime \<Rightarrow> bool" where
  "keeps env r r' \<longleftrightarrow> length (rt_records r') = length (rt_records r) \<and> rt_instances r' = rt_instances r \<and>
     (\<forall>h < length (rt_records r). moves env h (rt_records r ! h, rt_log r) (rt_records r' ! h, rt_log r')) \<and>
     (\<forall>h \<ge> length (rt_records r). enqueued h (rt_log r') = enqueued h (rt_log r) \<and> submitted h (rt_log r') = submitted h (rt_log r))"

lemma keeps_refl [simp]: "keeps env r r"
  by (simp add: keeps_def)

lemma keeps_trans: "keeps env a b \<Longrightarrow> keeps env b c \<Longrightarrow> keeps env a c"
  unfolding keeps_def using moves_trans by fastforce

lemma keeps_same: "rt_records r' = rt_records r \<Longrightarrow> rt_log r' = rt_log r \<Longrightarrow> rt_instances r' = rt_instances r \<Longrightarrow> keeps env r r'"
  by (simp add: keeps_def)

lemma keeps_emit: "(\<And>h' s. ev \<noteq> Enqueued h' s) \<Longrightarrow> (\<And>h' s f. ev \<noteq> Submitted h' s f) \<Longrightarrow> keeps env r (rt_emit ev r)"
  by (cases ev) (auto simp: keeps_def moves_def rt_emit_def enqueued_append submitted_append sound_def)

text \<open>An update of one record that only drops pending signals.\<close>

definition shrinks :: "('w, 'd) runtime_env \<Rightarrow> 'd inst_record \<Rightarrow> 'd inst_record \<Rightarrow> bool" where
  "shrinks env i j \<longleftrightarrow> in_id j = in_id i \<and> in_strategy j = in_strategy i \<and> subseq (pending_signals j) (pending_signals i) \<and>
     (in_quarantined i \<longrightarrow> in_quarantined j) \<and> (fits env i (in_running i) \<longrightarrow> fits env j (in_running j))"

lemma expected_id_cong: "in_id j = in_id i \<Longrightarrow> in_strategy j = in_strategy i \<Longrightarrow> expected_id env j s = expected_id env i s"
  by (simp add: expected_id_def)

lemma fits_cong: "in_id j = in_id i \<Longrightarrow> in_strategy j = in_strategy i \<Longrightarrow> fits env j x \<longleftrightarrow> fits env i x"
  using expected_id_cong[of j i env] by (cases "(env, i, x)" rule: fits.cases) auto

lemma keeps_on_record:
  assumes "h < length (rt_records r) \<Longrightarrow> shrinks env (rt_records r ! h) (f (rt_records r ! h))"
  shows "keeps env r (on_record h f r)"
proof -
  have "moves env k (rt_records r ! k, rt_log r) (rt_records (on_record h f r) ! k, rt_log (on_record h f r))"
    if k: "k < length (rt_records r)" for k
  proof (cases "k = h")
    case True
    let ?i = "rt_records r ! h" and ?j = "f (rt_records r ! h)"
    have s: "shrinks env ?i ?j" using assms k True by simp
    then have "sound env h ?i (rt_log r) \<Longrightarrow> sound env h ?j (rt_log r)"
      using expected_id_cong[of ?j ?i env] by (auto simp: sound_def shrinks_def)
    then show ?thesis using True k s by (auto simp: on_record_def moves_def shrinks_def)
  qed (simp add: on_record_def)
  then show ?thesis by (simp add: keeps_def on_record_def)
qed

lemma keeps_world [simp]: "keeps env r (r\<lparr>rt_world := w\<rparr>)" "keeps env r (r\<lparr>rt_store := s\<rparr>)"
  by (simp_all add: keeps_same)

section \<open>Every operation moves its records forward\<close>

named_theorems keeps_intros

lemma keeps_record_simple:
  assumes "\<And>i. in_id (f i) = in_id i \<and> in_strategy (f i) = in_strategy i \<and> pending_signals (f i) = pending_signals i \<and>
      in_running (f i) = in_running i \<and> (in_quarantined i \<longrightarrow> in_quarantined (f i))"
  shows "keeps env r (on_record h f r)"
proof (rule keeps_on_record)
  let ?i = "rt_records r ! h"
  show "shrinks env ?i (f ?i)" using assms[of ?i] fits_cong[of "f ?i" ?i env] by (simp add: shrinks_def)
qed

lemma keeps_enqueue [keeps_intros]: "queued_signals [t] = [] \<Longrightarrow> keeps env r (enqueue h t r)"
  unfolding enqueue_def by (rule keeps_record_simple) (simp add: pending_signals_def queued_signals_append)

lemma keeps_idle [keeps_intros]: "undecided x = [] \<Longrightarrow> (\<And>i. fits env i x) \<Longrightarrow> keeps env r (set_running h x r)"
  unfolding set_running_def by (rule keeps_on_record) (auto simp: shrinks_def pending_signals_def)

lemma keeps_event [keeps_intros]:
  "keeps env r (rt_emit (Tripped h t) r)" "keeps env r (rt_emit (StrategyError h p e) r)" "keeps env r (rt_emit (HookCalled h c) r)"
  "keeps env r (rt_emit (TaskRejected h x) r)"
  by (rule keeps_emit; simp)+

lemma keeps_call_hook: "keeps env r (snd (call_hook env h c r))"
  by (auto simp: call_hook_def split: prod.splits intro!: keeps_trans[OF keeps_world(1) keeps_event(3)])

lemma keeps_trip [keeps_intros]: "keeps env r (tripGuard env h trip r)"
proof -
  have "keeps env r (rt_emit (Tripped h trip) (on_record h (\<lambda>i. i\<lparr>in_quarantined := True\<rparr>) r))"
    by (rule keeps_trans[OF keeps_record_simple keeps_event(1)]) (simp add: pending_signals_def)
  then show ?thesis by (auto simp: tripGuard_def Let_def intro: keeps_trans[OF _ keeps_call_hook])
qed

lemma keeps_guarded [keeps_intros]: "keeps env r (guarded env h res r)"
proof -
  have "keeps env r (on_record h (\<lambda>i. i\<lparr>in_guards := snd res\<rparr>) r)" by (rule keeps_record_simple) (simp add: pending_signals_def)
  then show ?thesis by (auto simp: guarded_def Let_def split: option.splits intro: keeps_trans[OF _ keeps_trip])
qed

lemma keeps_hook_failed: "keeps env r (hook_failed env h p e r)"
  unfolding hook_failed_def by (rule keeps_trans[OF keeps_guarded keeps_event(2)])

lemma keeps_callHook: "keeps env r (callHook env h c r)"
  using keeps_call_hook[of env r h c] keeps_trans[OF _ keeps_hook_failed]
  by (auto simp: callHook_def split: prod.splits option.splits)

lemma keeps_rejected: "keeps env r (rejected h e r)"
  unfolding rejected_def by (rule keeps_trans[OF keeps_idle keeps_event(4)]) simp_all

text \<open>Dispatch goes to the records of the map, which exist.\<close>

definition handles_ok :: "('w, 'd) runtime \<Rightarrow> bool" where
  "handles_ok r \<longleftrightarrow> (\<forall>h \<in> set (jm_values (rt_instances r)). h < length (rt_records r))"

lemma keeps_handles: "keeps env r r' \<Longrightarrow> handles_ok r \<Longrightarrow> handles_ok r'"
  by (simp add: keeps_def handles_ok_def)

lemma keeps_for_instances:
  assumes "handles_ok r" and "\<And>h r. h < length (rt_records r) \<Longrightarrow> keeps env r (f h r)"
  shows "keeps env r (for_instances f r)"
proof -
  have "keeps env r (fold f hs r)" if "\<forall>h \<in> set hs. h < length (rt_records r)" for hs r
    using that
  proof (induction hs arbitrary: r)
    case (Cons h hs)
    have k: "keeps env r (f h r)" using Cons.prems assms(2) by simp
    moreover have "keeps env (f h r) (fold f hs (f h r))" using Cons k by (simp add: keeps_def)
    ultimately show ?case using keeps_trans by fastforce
  qed simp
  then show ?thesis using assms(1) by (simp add: for_instances_def handles_ok_def)
qed

lemma keeps_signal:
  assumes "h < length (rt_records r)" and "\<not> in_quarantined (rt_records r ! h)" and "matchesAny (sy_filters (in_strategy (rt_records r ! h))) sig"
  shows "keeps env r (rt_emit (Enqueued h sig) (enqueue h (SignalTask sig) r))"
proof -
  let ?i = "rt_records r ! h" and ?r = "rt_emit (Enqueued h sig) (enqueue h (SignalTask sig) r)"
  have "moves env k (rt_records r ! k, rt_log r) (rt_records ?r ! k, rt_log ?r)" if "k < length (rt_records r)" for k
  proof (cases "k = h")
    case True
    then show ?thesis using assms fits_cong[of "?i\<lparr>in_queue := in_queue ?i @ [SignalTask sig]\<rparr>" ?i env]
      by (auto simp: moves_def rt_emit_def enqueue_def on_record_def enqueued_append submitted_append pending_signals_def
          queued_signals_append sound_def expected_id_def)
  qed (auto simp: moves_def rt_emit_def enqueue_def on_record_def enqueued_append submitted_append sound_def)
  then show ?thesis using assms(1) by (simp add: keeps_def rt_emit_def enqueue_def on_record_def enqueued_append submitted_append)
qed

lemma keeps_dispatchSignal: "handles_ok r \<Longrightarrow> keeps env r (dispatchSignal sig r)"
  unfolding dispatchSignal_def by (rule keeps_for_instances) (auto simp: Let_def intro: keeps_signal)

lemma keeps_dispatch_hook: "handles_ok r \<Longrightarrow> keeps env r (dispatch_hook c r)"
  unfolding dispatch_hook_def by (rule keeps_for_instances) (auto simp: Let_def intro!: keeps_intros)

lemma keeps_position_change: "handles_ok r \<Longrightarrow> keeps env r (dispatchPositionChange c r)"
  unfolding dispatchPositionChange_def Let_def
  by (rule keeps_for_instances) (auto intro!: keeps_intros keeps_trans[OF keeps_enqueue keeps_enqueue] split: option.splits)

lemma keeps_notify: "handles_ok r \<Longrightarrow> keeps env r (notify_changes cs r)"
proof -
  have n: "keeps env r ((dispatchPositionChange c ^^ n) r)" if "handles_ok r" for c n r
  proof (induction n)
    case (Suc n)
    then show ?case using keeps_trans[OF Suc keeps_position_change[OF keeps_handles[OF Suc that]]] by simp
  qed simp
  have "keeps env r (fold (\<lambda>c r. (dispatchPositionChange c ^^ rt_listeners r) r) cs r)" if "handles_ok r" for r
    using that
  proof (induction cs arbitrary: r)
    case (Cons c cs)
    let ?r = "(dispatchPositionChange c ^^ rt_listeners r) r"
    show ?case using keeps_trans[OF n[OF Cons.prems] Cons.IH[OF keeps_handles[OF n[OF Cons.prems] Cons.prems]]] by simp
  qed simp
  then show "handles_ok r \<Longrightarrow> keeps env r (notify_changes cs r)" by (simp add: notify_changes_def)
qed

section \<open>Every step moves its records forward\<close>

lemma keeps_pending:
  assumes "h < length (rt_records r) \<Longrightarrow> undecided x = undecided (in_running (rt_records r ! h)) \<and>
      (fits env (rt_records r ! h) (in_running (rt_records r ! h)) \<longrightarrow> fits env (rt_records r ! h) x)"
  shows "keeps env r (set_running h x r)"
  unfolding set_running_def
proof (rule keeps_on_record)
  assume "h < length (rt_records r)"
  note a = assms[OF this]
  let ?i = "rt_records r ! h"
  show "shrinks env ?i (?i\<lparr>in_running := x\<rparr>)"
    using a fits_cong[of "?i\<lparr>in_running := x\<rparr>" ?i env x] by (simp add: shrinks_def pending_signals_def)
qed

lemma keeps_submitted:
  assumes "h < length (rt_records r)" and "in_running (rt_records r ! h) = Some (AtSubmit sig full w)"
  shows "keeps env r (set_running h None (rt_emit (Submitted h sig full) r))"
proof -
  let ?i = "rt_records r ! h" and ?r = "set_running h None (rt_emit (Submitted h sig full) r)"
  have "moves env k (rt_records r ! k, rt_log r) (rt_records ?r ! k, rt_log ?r)" if "k < length (rt_records r)" for k
  proof (cases "k = h")
    case True
    have "sound env h ?i (rt_log r) \<Longrightarrow> sound env h (?i\<lparr>in_running := None\<rparr>) (rt_log r @ [Submitted h sig full])"
      using assms(2) expected_id_cong[of "?i\<lparr>in_running := None\<rparr>" ?i env] by (auto simp: sound_def submitted_append enqueued_append)
    then show ?thesis using assms True
      by (simp add: moves_def set_running_def on_record_def rt_emit_def submitted_append enqueued_append pending_signals_def)
  qed (auto simp: moves_def set_running_def on_record_def rt_emit_def submitted_append enqueued_append sound_def)
  then show ?thesis using assms(1) by (simp add: keeps_def set_running_def on_record_def rt_emit_def enqueued_append submitted_append)
qed

lemma set_running_twice [simp]: "set_running h x (set_running h y r) = set_running h x r"
  by (cases "h < length (rt_records r)") (simp_all add: set_running_def on_record_def list_update_beyond)

lemma rt_world_emit [simp]: "rt_world (rt_emit ev r) = rt_world r"
  by (simp add: rt_emit_def)

lemma set_running_commute: "set_running h x (r\<lparr>rt_world := w\<rparr>) = (set_running h x r)\<lparr>rt_world := w\<rparr>"
  by (simp add: set_running_def on_record_def)

lemma guarded_running:
  assumes "h < length (rt_records r)"
  shows "in_running (rt_records (guarded env h res r) ! h) = in_running (rt_records r ! h) \<and>
    in_id (rt_records (guarded env h res r) ! h) = in_id (rt_records r ! h) \<and>
    in_strategy (rt_records (guarded env h res r) ! h) = in_strategy (rt_records r ! h)"
  using assms
  by (auto simp: guarded_def Let_def tripGuard_def on_record_def rt_emit_def call_hook_def split: option.splits prod.splits)

lemma keeps_idle_after: "keeps env r r' \<Longrightarrow> undecided x = [] \<Longrightarrow> (\<And>i. fits env i x) \<Longrightarrow> keeps env r (set_running h x r')"
  by (rule keeps_trans[OF _ keeps_idle])

lemma keeps_advance:
  assumes "h < length (rt_records r)" and "in_running (rt_records r ! h) = Some x" and "handles_ok r"
  shows "keeps env r (advance env h x r)"
proof (cases x)
  case (AtDecision sig decision)
  obtain trip g where t: "recordDecision (v_guards env) (v_clock env (rt_world r)) (in_guards (rt_records r ! h)) = (trip, g)" by fastforce
  let ?r = "guarded env h (trip, g) r"
  have g: "keeps env r ?r" by (rule keeps_guarded)
  have id: "intentId (decided_intent env (rt_records r ! h) sig decision) = expected_id env (rt_records ?r ! h) sig"
    using guarded_running[OF assms(1), of env "(trip, g)"] by (simp add: decided_intent_def expected_id_def)
  show ?thesis
  proof (cases trip)
    case None
    have "keeps env ?r (set_running h (Some (case jm_get (in_wallets (rt_records r ! h)) (i_wallet (decided_intent env (rt_records r ! h) sig decision)) of
        Some w \<Rightarrow> AtSubmit sig (decided_intent env (rt_records r ! h) sig decision) w
      | None \<Rightarrow> AtResolve sig (decided_intent env (rt_records r ! h) sig decision))) ?r)"
      using guarded_running[OF assms(1), of env "(trip, g)"] assms(2) AtDecision id by (intro keeps_pending) (auto split: option.splits)
    then show ?thesis using keeps_trans[OF g] AtDecision t None by (simp add: Let_def)
  next
    case (Some a)
    then show ?thesis using keeps_idle_after[OF g, of None] AtDecision t by (simp add: Let_def)
  qed
next
  case (AtResolve sig full)
  obtain res w where v: "v_resolveWallet env (i_wallet full) (rt_world r) = (res, w)" by fastforce
  show ?thesis
  proof (cases res)
    case (Inl e)
    then show ?thesis using AtResolve v keeps_trans[OF keeps_world(1) keeps_rejected] by simp
  next
    case (Inr pk)
    let ?r = "on_record h (\<lambda>i. i\<lparr>in_wallets := jm_set (in_wallets i) (i_wallet full) pk\<rparr>) (r\<lparr>rt_world := w\<rparr>)"
    have k: "keeps env r ?r" by (rule keeps_trans[OF keeps_world(1) keeps_record_simple]) (simp add: pending_signals_def)
    have i: "rt_records ?r ! h = (rt_records r ! h)\<lparr>in_wallets := jm_set (in_wallets (rt_records r ! h)) (i_wallet full) pk\<rparr>"
      using assms(1) by (simp add: on_record_def)
    have "keeps env ?r (set_running h (Some (AtSubmit sig full pk)) ?r)"
      using assms(2) AtResolve i by (intro keeps_pending) simp
    then show ?thesis using keeps_trans[OF k] AtResolve v Inr by simp
  qed
next
  case (AtSubmit sig full w)
  let ?s = "set_running h None (rt_emit (Submitted h sig full) r)"
  obtain res w' where v: "v_submit env full (rt_world r) = (res, w')" by fastforce
  have k: "keeps env r ?s" using keeps_submitted assms(1,2) AtSubmit by blast
  have "keeps env r (?s\<lparr>rt_world := w'\<rparr>)" by (rule keeps_trans[OF k keeps_world(1)])
  then show ?thesis
    using keeps_idle_after[of env r "?s\<lparr>rt_world := w'\<rparr>" _ h] keeps_trans[OF _ keeps_event(4), of env r "?s\<lparr>rt_world := w'\<rparr>"] AtSubmit v
    by (cases res) (auto simp: rejected_def set_running_commute Let_def)
next
  case (AtAdapt res w)
  then show ?thesis by (auto split: sum.splits intro!: keeps_rejected keeps_idle)
next
  case (AtTrades ts w some)
  then show ?thesis by (cases ts) (auto intro!: keeps_idle)
next
  case (AtApply t ts w before)
  obtain res s where v: "applyLandedTrade t (rt_store r) = (res, s)" by fastforce
  have k: "keeps env r (set_running h (Some (AtAfter t ts w before)) (r\<lparr>rt_store := s\<rparr>))"
    by (rule keeps_idle_after[OF keeps_world(2)]) simp_all
  show ?thesis
    using AtApply v keeps_trans[OF keeps_world(2) keeps_rejected] keeps_trans[OF k keeps_notify[OF keeps_handles[OF k assms(3)]]]
    by (cases res) auto
next
  case (AtAfter t ts w before)
  then show ?thesis
    by (auto simp: Let_def split: prod.splits option.splits intro!: keeps_idle_after[OF keeps_guarded])
next
  case (AtPositions w)
  then show ?thesis by (auto simp: Let_def split: option.splits intro!: keeps_idle_after[OF keeps_trip] keeps_idle)
qed

text \<open>Taking a task off the queue.\<close>

lemma keeps_dequeue:
  assumes "h < length (rt_records r)" and "in_running (rt_records r ! h) = None" and "in_queue (rt_records r ! h) = t # ts" and "queued_signals [t] = []"
  shows "keeps env r (on_record h (\<lambda>i. i\<lparr>in_queue := ts\<rparr>) r)"
proof (rule keeps_on_record)
  let ?i = "rt_records r ! h"
  have "queued_signals (t # ts) = queued_signals ts" using assms(4) by (cases t) auto
  then show "shrinks env ?i (?i\<lparr>in_queue := ts\<rparr>)" using assms fits_cong[of "?i\<lparr>in_queue := ts\<rparr>" ?i env] by (simp add: shrinks_def pending_signals_def)
qed

text \<open>Starting a signal task: its signal is still pending while the strategy decides.\<close>

lemma keeps_dropped:
  assumes "in_running (rt_records r ! h) = None" and "in_queue (rt_records r ! h) = SignalTask sig # ts"
  shows "keeps env r (on_record h (\<lambda>i. i\<lparr>in_queue := ts\<rparr>) r)"
    and "keeps env r (set_running h (Some (AtDecision sig d)) (on_record h (\<lambda>i. i\<lparr>in_queue := ts\<rparr>) r))"
proof -
  show "keeps env r (on_record h (\<lambda>i. i\<lparr>in_queue := ts\<rparr>) r)"
    by (rule keeps_on_record) (auto simp: shrinks_def pending_signals_def assms)
  have eq: "set_running h (Some (AtDecision sig d)) (on_record h (\<lambda>i. i\<lparr>in_queue := ts\<rparr>) r) =
      on_record h (\<lambda>i. i\<lparr>in_queue := ts, in_running := Some (AtDecision sig d)\<rparr>) r"
    by (cases "h < length (rt_records r)") (simp_all add: set_running_def on_record_def list_update_beyond)
  show "keeps env r (set_running h (Some (AtDecision sig d)) (on_record h (\<lambda>i. i\<lparr>in_queue := ts\<rparr>) r))"
    unfolding eq by (rule keeps_on_record) (auto simp: shrinks_def pending_signals_def assms)
qed

text \<open>A step may also append a record or remove a map entry.\<close>

definition grows :: "('w, 'd) runtime_env \<Rightarrow> ('w, 'd) runtime \<Rightarrow> ('w, 'd) runtime \<Rightarrow> bool" where
  "grows env r r' \<longleftrightarrow> handles_ok r' \<and> length (rt_records r) \<le> length (rt_records r') \<and>
     (\<forall>h < length (rt_records r). moves env h (rt_records r ! h, rt_log r) (rt_records r' ! h, rt_log r')) \<and>
     (\<forall>h \<ge> length (rt_records r). enqueued h (rt_log r') = enqueued h (rt_log r) \<and> submitted h (rt_log r') = submitted h (rt_log r)) \<and>
     (\<forall>h < length (rt_records r'). length (rt_records r) \<le> h \<longrightarrow> pending_signals (rt_records r' ! h) = [] \<and> in_running (rt_records r' ! h) = None)"

lemma grows_keeps: "handles_ok r \<Longrightarrow> keeps env r r' \<Longrightarrow> grows env r r'"
  unfolding grows_def by (intro conjI) (simp_all add: keeps_handles, simp_all add: keeps_def)

lemma handles_subset: "handles_ok r \<Longrightarrow> keeps env r r' \<Longrightarrow> grows env r (remove_instance i r')"
proof -
  assume a: "handles_ok r" "keeps env r r'"
  have "set (jm_values (jm_delete m i)) \<subseteq> set (jm_values m)" for m :: "(string, nat) jsmap"
    by (auto simp: jm_delete_def jm_values_def)
  then have "handles_ok (remove_instance i r')"
    using keeps_handles[OF a(2,1)] by (auto simp: handles_ok_def remove_instance_def)
  then show ?thesis using a(2) by (auto simp: grows_def keeps_def remove_instance_def)
qed

lemma grows_start_task:
  assumes "h < length (rt_records r)" and "in_running (rt_records r ! h) = None" and "in_queue (rt_records r ! h) = t # ts" and "handles_ok r"
  shows "grows env r (start_task env h t (on_record h (\<lambda>i. i\<lparr>in_queue := ts\<rparr>) r))"
proof -
  let ?r = "on_record h (\<lambda>i. i\<lparr>in_queue := ts\<rparr>) r"
  have q: "queued_signals [t] = [] \<Longrightarrow> keeps env r ?r" using keeps_dequeue[OF assms(1-3)] .
  show ?thesis
  proof (cases t)
    case (SignalTask sig)
    obtain res w where v: "v_onSignal env (in_id (rt_records ?r ! h)) sig (rt_world r) = (res, w)" by fastforce
    have d: "keeps env r (?r\<lparr>rt_world := w\<rparr>)"
      by (rule keeps_trans[OF keeps_dropped(1) keeps_world(1)]) (use assms(2,3) SignalTask in simp_all)
    have u: "keeps env r (set_running h (Some (AtDecision sig x)) (?r\<lparr>rt_world := w\<rparr>))" for x
      unfolding set_running_commute
      by (rule keeps_trans[OF keeps_dropped(2) keeps_world(1)]) (use assms(2,3) SignalTask in simp_all)
    have "rt_world ?r = rt_world r" by (simp add: on_record_def)
    then have "keeps env r (start_task env h t ?r)"
      using v d u keeps_trans[OF d keeps_hook_failed] SignalTask by (cases res) (simp_all split: option.splits)
    then show ?thesis using grows_keeps[OF assms(4)] by blast
  next
    case (HookTask c)
    then show ?thesis using grows_keeps[OF assms(4) keeps_trans[OF q keeps_callHook]] by simp
  next
    case Barrier
    then show ?thesis using grows_keeps[OF assms(4) keeps_trans[OF q keeps_enqueue]] handles_subset[OF assms(4) q] by (simp add: Let_def)
  next
    case Farewell
    then show ?thesis using handles_subset[OF assms(4) keeps_trans[OF q keeps_callHook]] by simp
  qed
qed

lemma grows_append:
  fixes r :: "('w, 'd) runtime"
  assumes "handles_ok r" and "register env sy i r = Some r'"
  shows "grows env r r'"
proof -
  let ?id = "case i of Some i \<Rightarrow> i | None \<Rightarrow> sy_name sy"
  let ?h = "length (rt_records r)"
  let ?r = "r\<lparr>rt_records := rt_records r @ [\<lparr>in_id = ?id, in_strategy = sy, in_queue = [], in_running = None,
      in_guards = new_tracker (v_clock env (rt_world r)), in_quarantined = False, in_wallets = []\<rparr>],
    rt_instances := jm_set (rt_instances r) ?id ?h\<rparr> :: ('w, 'd) runtime"
  have new: "\<not> jm_has (rt_instances r) ?id" and r': "r' = (if sy_has sy StartPhase then enqueue ?h (HookTask OnStart) ?r else ?r)"
    using assms(2) by (auto simp: register_def Let_def split: if_splits)
  have "set (jm_values (rt_instances ?r)) = set (jm_values (rt_instances r)) \<union> {?h}"
    using jm_set_absent[OF new] by (simp add: jm_values_def)
  then have ok: "handles_ok ?r" using assms(1) by (auto simp: handles_ok_def)
  have "grows env r ?r" using ok by (auto simp: grows_def nth_append pending_signals_def)
  moreover have "pending_signals (rt_records r' ! ?h) = [] \<and> in_running (rt_records r' ! ?h) = None"
    using r' by (simp add: enqueue_def on_record_def pending_signals_def nth_append)
  moreover have k: "keeps env ?r r'" using r' by (simp add: keeps_enqueue)
  moreover have "rt_records r' ! k = rt_records ?r ! k" if "k < ?h" for k
    using that r' by (simp add: enqueue_def on_record_def nth_append)
  moreover have "rt_log r' = rt_log r" using r' by (simp add: enqueue_def on_record_def)
  ultimately show ?thesis using keeps_handles[OF k ok] by (auto simp: grows_def keeps_def less_Suc_eq nth_append)
qed

text \<open>Every step but \<open>Resume\<close> moves every record forward.\<close>

lemma grows_step:
  assumes "runtime_step env l r = Some r'" and "handles_ok r" and "\<And>i. l \<noteq> Resume i"
  shows "grows env r r'"
proof (cases l)
  case (Run h)
  then show ?thesis using assms(1)
    by (auto simp: run_instance_def jat_def split: option.splits list.splits if_splits
        intro: grows_keeps[OF assms(2) keeps_advance[OF _ _ assms(2)]] grows_start_task[OF _ _ _ assms(2)])
next
  case (Pause i)
  have "keeps env r (set_quarantined True i r)"
    by (auto simp: set_quarantined_def pending_signals_def split: option.splits intro: keeps_record_simple)
  then show ?thesis using Pause assms(1) grows_keeps[OF assms(2)] by simp
next
  case (Register sy i)
  then show ?thesis using assms(1) grows_append[OF assms(2)] by simp
next
  case Tick
  then show ?thesis using assms(1) grows_keeps[OF assms(2) keeps_dispatch_hook[OF assms(2)]] by (auto simp: dispatchTick_def split: if_splits)
next
  case (ExecutorResult x)
  then show ?thesis using assms(1) grows_keeps[OF assms(2) keeps_dispatch_hook[OF assms(2)]]
    by (auto simp: dispatchExecutionResult_def split: if_splits)
next
  case (PortfolioChange c)
  then have "r' = notify_changes [c] r" using assms(1) by simp
  then show ?thesis using grows_keeps[OF assms(2) keeps_notify[OF assms(2)], of env "[c]"] by simp
next
  case (Signal sig)
  then show ?thesis using assms(1) grows_keeps[OF assms(2) keeps_dispatchSignal[OF assms(2)], of env sig] by (simp split: if_splits)
next
  case (Deregister i)
  have "keeps env r (deregister i r)" by (auto simp: deregister_def split: option.splits intro: keeps_enqueue)
  then show ?thesis using Deregister assms(1) grows_keeps[OF assms(2)] by simp
qed (use assms in \<open>auto simp: start_def stop_def intro!: grows_keeps keeps_same\<close>)

section \<open>The history of a record\<close>

definition history :: "('w, 'd) runtime_env \<Rightarrow> nat \<Rightarrow> ('w, 'd) runtime \<Rightarrow> bool" where
  "history env h r \<longleftrightarrow>
     (let i = rt_records r ! h
      in subseq (map fst (submitted h (rt_log r)) @ pending_signals i) (enqueued h (rt_log r)) \<and> sound env h i (rt_log r))"

definition runtime_ok :: "('w, 'd) runtime_env \<Rightarrow> ('w, 'd) runtime \<Rightarrow> bool" where
  "runtime_ok env r \<longleftrightarrow> handles_ok r \<and> (\<forall>h < length (rt_records r). history env h r) \<and>
     (\<forall>h \<ge> length (rt_records r). enqueued h (rt_log r) = [] \<and> submitted h (rt_log r) = [])"

lemma history_moves:
  assumes "moves env h (rt_records r ! h, rt_log r) (rt_records r' ! h, rt_log r')" and "history env h r"
  shows "history env h r'"
proof -
  obtain s e where m: "submitted h (rt_log r') = submitted h (rt_log r) @ s" "enqueued h (rt_log r') = enqueued h (rt_log r) @ e"
    "subseq (map fst s @ pending_signals (rt_records r' ! h)) (pending_signals (rt_records r ! h) @ e)"
    using assms(1) by (auto simp: moves_def)
  have "subseq (map fst (submitted h (rt_log r)) @ map fst s @ pending_signals (rt_records r' ! h))
      (map fst (submitted h (rt_log r)) @ pending_signals (rt_records r ! h) @ e)"
    by (rule list_emb_append_mono[OF _ m(3)]) simp
  also have "subseq \<dots> (enqueued h (rt_log r) @ e)"
    using list_emb_append_mono[of "(=)" "map fst (submitted h (rt_log r)) @ pending_signals (rt_records r ! h)" "enqueued h (rt_log r)" e e] assms(2)
    by (simp add: history_def Let_def)
  finally show ?thesis using assms m by (simp add: history_def moves_def Let_def)
qed

lemma runtime_ok_new [simp]: "runtime_ok env (new_runtime w s)"
  by (simp add: runtime_ok_def new_runtime_def handles_ok_def jm_values_def)

lemma runtime_ok_grows:
  assumes "grows env r r'" and "runtime_ok env r"
  shows "runtime_ok env r'"
proof -
  have "history env h r'" if "h < length (rt_records r')" for h
  proof (cases "h < length (rt_records r)")
    case True
    have "moves env h (rt_records r ! h, rt_log r) (rt_records r' ! h, rt_log r')" using assms(1) True unfolding grows_def by blast
    moreover have "history env h r" using assms(2) True unfolding runtime_ok_def by blast
    ultimately show ?thesis by (rule history_moves)
  next
    case False
    have "enqueued h (rt_log r') = [] \<and> submitted h (rt_log r') = []" using assms False unfolding grows_def runtime_ok_def by simp
    moreover have "pending_signals (rt_records r' ! h) = [] \<and> in_running (rt_records r' ! h) = None"
      using assms(1) that False unfolding grows_def by simp
    ultimately show ?thesis by (simp add: history_def sound_def)
  qed
  then show ?thesis using assms unfolding runtime_ok_def grows_def by simp
qed

lemma runtime_ok_resume:
  assumes "runtime_ok env r"
  shows "runtime_ok env (set_quarantined b i r)"
proof -
  have e: "in_id (rt_records (on_record k (\<lambda>x. x\<lparr>in_quarantined := b\<rparr>) r) ! h) = in_id (rt_records r ! h) \<and>
      in_strategy (rt_records (on_record k (\<lambda>x. x\<lparr>in_quarantined := b\<rparr>) r) ! h) = in_strategy (rt_records r ! h) \<and>
      in_running (rt_records (on_record k (\<lambda>x. x\<lparr>in_quarantined := b\<rparr>) r) ! h) = in_running (rt_records r ! h) \<and>
      pending_signals (rt_records (on_record k (\<lambda>x. x\<lparr>in_quarantined := b\<rparr>) r) ! h) = pending_signals (rt_records r ! h)"
    if "h < length (rt_records r)" for h k
    using that by (cases "h = k") (simp_all add: on_record_def pending_signals_def)
  have "history env h (on_record k (\<lambda>x. x\<lparr>in_quarantined := b\<rparr>) r)" if h: "h < length (rt_records r)" for h k
  proof -
    have "sound env h (rt_records (on_record k (\<lambda>x. x\<lparr>in_quarantined := b\<rparr>) r) ! h) (rt_log r) = sound env h (rt_records r ! h) (rt_log r)"
      using e[OF h, of k] fits_cong[of "rt_records (on_record k (\<lambda>x. x\<lparr>in_quarantined := b\<rparr>) r) ! h" "rt_records r ! h" env]
      by (simp add: sound_def expected_id_def)
    then show ?thesis using e[OF h, of k] assms h by (simp add: history_def runtime_ok_def on_record_def Let_def)
  qed
  then show ?thesis using assms by (auto simp: set_quarantined_def runtime_ok_def handles_ok_def split: option.splits) (auto simp: on_record_def)
qed

lemma runtime_ok_step: "runtime_step env l r = Some r' \<Longrightarrow> runtime_ok env r \<Longrightarrow> runtime_ok env r'"
proof (cases "\<exists>i. l = Resume i")
  case False
  then show "runtime_step env l r = Some r' \<Longrightarrow> runtime_ok env r \<Longrightarrow> runtime_ok env r'"
    using grows_step runtime_ok_grows by (metis runtime_ok_def)
qed (auto simp: runtime_ok_resume)

lemma runtime_ok_steps: "runtime_steps env ls r = Some r' \<Longrightarrow> runtime_ok env r \<Longrightarrow> runtime_ok env r'"
  by (induction ls arbitrary: r) (auto simp: bind_eq_Some_conv intro: runtime_ok_step)

lemma grows_moves_steps:
  assumes "runtime_steps env ls r = Some r'" and "handles_ok r" and "\<forall>i. Resume i \<notin> set ls" and "h < length (rt_records r)"
  shows "moves env h (rt_records r ! h, rt_log r) (rt_records r' ! h, rt_log r')"
  using assms
proof (induction ls arbitrary: r)
  case (Cons l ls)
  obtain r1 where s: "runtime_step env l r = Some r1" "runtime_steps env ls r1 = Some r'"
    using Cons.prems(1) by (auto simp: bind_eq_Some_conv)
  have g: "grows env r r1" using grows_step[OF s(1) Cons.prems(2)] Cons.prems(3) by auto
  have "moves env h (rt_records r1 ! h, rt_log r1) (rt_records r' ! h, rt_log r')"
    using Cons.IH[OF s(2)] g Cons.prems by (auto simp: grows_def)
  moreover have "moves env h (rt_records r ! h, rt_log r) (rt_records r1 ! h, rt_log r1)" using g Cons.prems(4) by (simp add: grows_def)
  ultimately show ?case by (rule moves_trans[rotated])
qed simp

section \<open>What the runtime promises\<close>

text \<open>
  C18. Whatever the interleaving of arriving signals, API calls, executor and portfolio events and steps of the
  tasks: the signals an instance submits intents for are taken, in order and each at most once, from those the
  dispatcher enqueued to it; every one of those matches the strategy's filters; and every submitted intent
  carries the deterministic identifier of its signal, strategy and instance.
\<close>

theorem submissions_in_order:
  assumes "runtime_steps env ls (new_runtime w s) = Some r" and "h < length (rt_records r)"
  shows "subseq (map fst (submitted h (rt_log r)) @ pending_signals (rt_records r ! h)) (enqueued h (rt_log r)) \<and>
    list_all (matchesAny (sy_filters (in_strategy (rt_records r ! h)))) (enqueued h (rt_log r)) \<and>
    list_all (\<lambda>(sig, f). intentId f = expected_id env (rt_records r ! h) sig) (submitted h (rt_log r))"
  using runtime_ok_steps[OF assms(1) runtime_ok_new] assms(2)
  by (auto simp: runtime_ok_def history_def sound_def list_all_iff Let_def)

text \<open>
  C19. Once an instance is quarantined (a guard tripped, or it was paused) and until it is resumed, nothing more is
  enqueued to it, and what it still submits are intents for signals that were pending at that moment, each at
  most once and in order: the exposure after a trip is bounded by the length of its queue.
\<close>

theorem quarantine_bounds_submissions:
  assumes "runtime_steps env ks (new_runtime w s) = Some r" and "h < length (rt_records r)" and "in_quarantined (rt_records r ! h)"
    and "runtime_steps env ls r = Some r'" and "\<forall>i. Resume i \<notin> set ls"
  shows "in_quarantined (rt_records r' ! h) \<and> enqueued h (rt_log r') = enqueued h (rt_log r) \<and>
    (\<exists>sub. submitted h (rt_log r') = submitted h (rt_log r) @ sub \<and> subseq (map fst sub) (pending_signals (rt_records r ! h)))"
proof -
  have "handles_ok r" using runtime_ok_steps[OF assms(1) runtime_ok_new] by (simp add: runtime_ok_def)
  moreover have "subseq xs zs" if "subseq (xs @ ys) zs" for xs ys zs :: "'c signal list"
    using subseq_order.order_trans[OF list_emb_append2 that] subseq_order.order_trans[OF prefix_imp_subseq that] by simp
  ultimately show ?thesis using grows_moves_steps[OF assms(4) _ assms(5,2)] assms(3) by (fastforce simp: moves_def)
qed

section \<open>A trip with a signal still queued\<close>

definition desk_env :: "(unit, unit) runtime_env" where
  "desk_env = \<lparr>v_onSignal = \<lambda>_ _ w. (Inr (Some \<lparr>intentId = [], i_wallet = ''hot'', i_instructions = [], feeTier = Low, deadline = 9,
       i_submitter = None, i_retry = None\<rparr>), w),
     v_hook = \<lambda>_ c w. ((case c of OnTick _ \<Rightarrow> Some ''boom'' | _ \<Rightarrow> None), w),
     v_submit = \<lambda>f w. (Inr (TimedOut (intentId f) ''sig'' ''rpc''), w),
     v_resolveWallet = \<lambda>_ w. (Inr sample_wallet, w), v_getTransaction = \<lambda>_ _. Inr None, v_clock = \<lambda>_. 0,
     v_guards = \<lparr>gc_maxDecisionsPerMin = None, gc_maxOpenPositions = None, gc_maxLossPerDayLamports = None,
       gc_errorThreshold = Some (0, 1000), gc_drawdownThreshold = None\<rparr>,
     v_hashing = \<lparr>h_sha256 = \<lambda>bs. bs, h_isOnCurve = \<lambda>_. False\<rparr>\<rparr>"

definition desk_strategy :: strategy where
  "desk_strategy = \<lparr>sy_name = ''desk'', sy_filters = [\<lparr>sf_programId = None, sf_venue = None, sf_kind = Some (KindIs ''buy'')\<rparr>],
     sy_has = \<lambda>p. case p of TickPhase \<Rightarrow> True | _ \<Rightarrow> False\<rparr>"

definition desk_signal :: "string \<Rightarrow> unit signal" where
  "desk_signal i = \<lparr>sl_signalId = i, sl_ts = 0, sl_slot = 1, sl_signature = ''s'', sl_programId = sample_mint, sl_kind = ''buy'', sl_venue = None,
     sl_decoded = (), sl_signalVersion = None\<rparr>"

definition desk_trip_run :: "unit runtime_label list" where
  "desk_trip_run = [Register desk_strategy None, StartRuntime, Tick, Signal (desk_signal ''a''), Run 0, Signal (desk_signal ''b'')]"

lemmas desk_defs = desk_env_def desk_strategy_def desk_signal_def desk_trip_run_def new_runtime_def register_def start_def dispatchTick_def
  dispatchSignal_def dispatch_hook_def for_instances_def run_instance_def callHook_def call_hook_def hook_failed_def guarded_def tripGuard_def
  rt_emit_def enqueue_def set_running_def on_record_def matchesAny_def matches_def record_error_def recordDecision_def slide_def new_tracker_def
  jat_def jm_values_def jm_has_def decided_intent_def

lemma desk_run:
  "\<exists>r r'. runtime_steps desk_env desk_trip_run (new_runtime () empty_store) = Some r \<and> 0 < length (rt_records r) \<and>
     in_quarantined (rt_records r ! 0) \<and> submitted 0 (rt_log r) = [] \<and> Enqueued 0 (desk_signal ''b'') \<notin> set (rt_log r) \<and>
     runtime_steps desk_env [Run 0, Run 0, Run 0, Run 0] r = Some r' \<and> map fst (submitted 0 (rt_log r')) = [desk_signal ''a'']"
  by (simp add: desk_defs Let_def)

lemma desk_all: "\<exists>r. runtime_steps desk_env (desk_trip_run @ [Run 0, Run 0, Run 0, Run 0]) (new_runtime () empty_store) = Some r \<and>
    0 < length (rt_records r) \<and> map fst (submitted 0 (rt_log r)) = [desk_signal ''a'']"
  by (simp add: desk_defs Let_def)

text \<open>
  Quarantine is looked at when a signal arrives, never when its task runs: a strategy that trips its error
  guard (here in a tick hook) while a signal waits in its queue still gets that signal and still submits its
  intent afterwards. A signal that arrives after the trip is not enqueued.
\<close>

theorem tripped_instance_still_submits:
  "\<exists>r r'. runtime_steps desk_env desk_trip_run (new_runtime () empty_store) = Some r \<and> in_quarantined (rt_records r ! 0) \<and>
     submitted 0 (rt_log r) = [] \<and> Enqueued 0 (desk_signal ''b'') \<notin> set (rt_log r) \<and>
     runtime_steps desk_env [Run 0, Run 0, Run 0, Run 0] r = Some r' \<and> map fst (submitted 0 (rt_log r')) = [desk_signal ''a'']"
  by (rule desk_run[THEN exE], erule exE, intro exI conjI) (elim conjE; assumption)+

theorem submissions_in_order_witness:
  "\<exists>r. runtime_steps desk_env (desk_trip_run @ [Run 0, Run 0, Run 0, Run 0]) (new_runtime () empty_store) = Some r \<and>
     subseq ([desk_signal ''a''] @ pending_signals (rt_records r ! 0)) (enqueued 0 (rt_log r))"
proof -
  obtain r where r: "runtime_steps desk_env (desk_trip_run @ [Run 0, Run 0, Run 0, Run 0]) (new_runtime () empty_store) = Some r"
    "0 < length (rt_records r)" "map fst (submitted 0 (rt_log r)) = [desk_signal ''a'']" by (rule desk_all[THEN exE], elim exE conjE)
  then show ?thesis using submissions_in_order[OF r(1,2)] by auto
qed

theorem quarantine_bounds_submissions_witness:
  "\<exists>r r'. runtime_steps desk_env [Run 0, Run 0, Run 0, Run 0] r = Some r' \<and> in_quarantined (rt_records r' ! 0) \<and>
     subseq [desk_signal ''a''] (pending_signals (rt_records r ! 0))"
proof -
  obtain r r' where r: "runtime_steps desk_env desk_trip_run (new_runtime () empty_store) = Some r" "0 < length (rt_records r)"
    "in_quarantined (rt_records r ! 0)" "submitted 0 (rt_log r) = []" "runtime_steps desk_env [Run 0, Run 0, Run 0, Run 0] r = Some r'"
    "map fst (submitted 0 (rt_log r')) = [desk_signal ''a'']" by (rule desk_run[THEN exE], elim exE conjE)
  show ?thesis using quarantine_bounds_submissions[OF r(1-3) r(5)] r(4-6) by auto
qed

end
