(* ===== verification/SignalQueue.thy ===== *)
theory SignalQueue
  imports SignalCore
begin

text \<open>
  \<open>packages/solana-signals/src/signal-queue.ts\<close>: a bounded buffer with one dispatch loop. The
  handlers are opaque; what each call of a handler does, while the loop awaits it, is the steps
  that come before its \<open>Settle\<close>, so handlers may push, subscribe and unsubscribe.
\<close>

section \<open>The queue\<close>

record queue_opts =
  qo_capacity :: nat
  qo_dedupWindow :: nat
  qo_dedupTtlMs :: int

definition default_queue_opts :: queue_opts where
  "default_queue_opts = \<lparr>qo_capacity = 10000, qo_dedupWindow = 5000, qo_dedupTtlMs = 600000\<rparr>"

text \<open>The events, and what happens to each signal. The code's \<open>overflow\<close> does not name the signal.\<close>

datatype 'd queue_event =
    DroppedDup string
  | Overflow "'d signal option"
  | HandlerError string
  | Accepted "'d signal"
  | Dispatched "'d signal"
  | Delivered nat string "'d signal"   \<comment> \<open>place of the subscription, its name\<close>

record ('d, 'h) signal_queue =
  sq_buffer :: "'d signal list"
  sq_subscribers :: "(string, 'h) livemap"
  sq_dedup :: dedup
  sq_dispatching :: bool
  sq_delivery :: "('d signal \<times> nat \<times> string) option"   \<comment> \<open>the handler call the loop awaits\<close>
  sq_log :: "'d queue_event list"

definition new_queue :: "('d, 'h) signal_queue" where
  "new_queue = \<lparr>sq_buffer = [], sq_subscribers = [], sq_dedup = [], sq_dispatching = False, sq_delivery = None, sq_log = []\<rparr>"

definition log_events :: "'d queue_event list \<Rightarrow> ('d, 'h) signal_queue \<Rightarrow> ('d, 'h) signal_queue" where
  "log_events evs q = q\<lparr>sq_log := sq_log q @ evs\<rparr>"

definition deliver :: "'d signal \<Rightarrow> nat \<Rightarrow> string \<Rightarrow> ('d, 'h) signal_queue \<Rightarrow> ('d, 'h) signal_queue" where
  "deliver sig j name q = log_events [Delivered j name sig] (q\<lparr>sq_delivery := Some (sig, j, name)\<rparr>)"

text \<open>\<open>while (buffer.length > 0 && subscribers.size > 0)\<close>, up to the first handler call it awaits.\<close>

fun dispatch_loop :: "'d signal list \<Rightarrow> ('d, 'h) signal_queue \<Rightarrow> ('d, 'h) signal_queue" where
  "dispatch_loop [] q = q\<lparr>sq_buffer := [], sq_dispatching := False, sq_delivery := None\<rparr>"
| "dispatch_loop (sig # buf) q =
     (if lm_size (sq_subscribers q) = 0 then q\<lparr>sq_buffer := sig # buf, sq_dispatching := False, sq_delivery := None\<rparr>
      else (let q = log_events [Dispatched sig] (q\<lparr>sq_buffer := buf\<rparr>)
            in case lm_next 0 (sq_subscribers q) of
                 Some (j, name, _) \<Rightarrow> deliver sig j name q
               | None \<Rightarrow> dispatch_loop buf q))"

definition dispatch :: "('d, 'h) signal_queue \<Rightarrow> ('d, 'h) signal_queue" where
  "dispatch q = (if sq_dispatching q then q else dispatch_loop (sq_buffer q) (q\<lparr>sq_dispatching := True\<rparr>))"

definition subscribe :: "string \<Rightarrow> 'h \<Rightarrow> ('d, 'h) signal_queue \<Rightarrow> ('d, 'h) signal_queue" where
  "subscribe name handler q = dispatch (q\<lparr>sq_subscribers := lm_set (sq_subscribers q) name handler\<rparr>)"

definition unsubscribe :: "string \<Rightarrow> ('d, 'h) signal_queue \<Rightarrow> ('d, 'h) signal_queue" where
  "unsubscribe name q = q\<lparr>sq_subscribers := lm_delete (sq_subscribers q) name\<rparr>"

definition push_signal :: "queue_opts \<Rightarrow> 'd signal \<Rightarrow> int \<Rightarrow> int \<Rightarrow> ('d, 'h) signal_queue \<Rightarrow> ('d, 'h) signal_queue" where
  "push_signal opts sig now now' q =
     (let (new, m) = dedup_admit (qo_dedupWindow opts) (qo_dedupTtlMs opts) now now' (sl_signalId sig) (sq_dedup q);
          q = q\<lparr>sq_dedup := m\<rparr>
      in if \<not> new then log_events [DroppedDup (sl_signalId sig)] q
         else let q = log_events [Accepted sig] q;
                  q = (if length (sq_buffer q) \<ge> qo_capacity opts
                       then log_events [Overflow (case sq_buffer q of s # _ \<Rightarrow> Some s | [] \<Rightarrow> None)] (q\<lparr>sq_buffer := tl (sq_buffer q)\<rparr>)
                       else q)
              in dispatch (q\<lparr>sq_buffer := sq_buffer q @ [sig]\<rparr>))"

text \<open>The awaited handler call returns (\<open>ok\<close>) or throws; the iteration goes on behind its place.\<close>

definition settle :: "bool \<Rightarrow> ('d, 'h) signal_queue \<Rightarrow> ('d, 'h) signal_queue option" where
  "settle ok q =
     (case sq_delivery q of
        None \<Rightarrow> None
      | Some (sig, i, name) \<Rightarrow>
          (let q = (if ok then q else log_events [HandlerError name] q)
           in Some (case lm_next (Suc i) (sq_subscribers q) of
                      Some (j, name', _) \<Rightarrow> deliver sig j name' q
                    | None \<Rightarrow> dispatch_loop (sq_buffer q) q)))"

datatype ('d, 'h) queue_label =
    Subscribe string 'h | Unsubscribe string | Push "'d signal" int int | Settle bool
  | Drain   \<comment> \<open>a round of \<open>drain\<close>\<close>

fun queue_step :: "queue_opts \<Rightarrow> ('d, 'h) queue_label \<Rightarrow> ('d, 'h) signal_queue \<Rightarrow> ('d, 'h) signal_queue option" where
  "queue_step opts (Subscribe name h) q = Some (subscribe name h q)"
| "queue_step opts (Unsubscribe name) q = Some (unsubscribe name q)"
| "queue_step opts (Push sig now now') q = Some (push_signal opts sig now now' q)"
| "queue_step opts (Settle ok) q = settle ok q"
| "queue_step opts Drain q = (if sq_buffer q \<noteq> [] \<and> lm_size (sq_subscribers q) > 0 then Some (dispatch q) else None)"

inductive queue_reach :: "queue_opts \<Rightarrow> ('d, 'h) queue_label list \<Rightarrow> ('d, 'h) signal_queue \<Rightarrow> bool" for opts where
  q_new: "queue_reach opts [] new_queue"
| q_step: "queue_reach opts ls q \<Longrightarrow> queue_step opts l q = Some q' \<Longrightarrow> queue_reach opts (ls @ [l]) q'"

fun queue_steps :: "queue_opts \<Rightarrow> ('d, 'h) queue_label list \<Rightarrow> ('d, 'h) signal_queue \<Rightarrow> ('d, 'h) signal_queue option" where
  "queue_steps opts [] q = Some q"
| "queue_steps opts (l # ls) q = Option.bind (queue_step opts l q) (queue_steps opts ls)"

lemma steps_reach: "queue_reach opts ks q \<Longrightarrow> queue_steps opts ls q = Some q' \<Longrightarrow> queue_reach opts (ks @ ls) q'"
proof (induction ls arbitrary: ks q)
  case (Cons l ls)
  obtain q1 where q1: "queue_step opts l q = Some q1" "queue_steps opts ls q1 = Some q'"
    using Cons.prems(2) by (cases "queue_step opts l q") auto
  show ?case using Cons.IH[OF q_step[OF Cons.prems(1) q1(1)] q1(2)] by simp
qed simp

section \<open>What becomes of a signal\<close>

fun accepted :: "'d queue_event list \<Rightarrow> 'd signal list" where
  "accepted [] = []"
| "accepted (Accepted s # es) = s # accepted es"
| "accepted (_ # es) = accepted es"

fun dispatched :: "'d queue_event list \<Rightarrow> 'd signal list" where
  "dispatched [] = []"
| "dispatched (Dispatched s # es) = s # dispatched es"
| "dispatched (_ # es) = dispatched es"

fun overflowed :: "'d queue_event list \<Rightarrow> 'd signal list" where
  "overflowed [] = []"
| "overflowed (Overflow (Some s) # es) = s # overflowed es"
| "overflowed (_ # es) = overflowed es"

lemma accepted_append: "accepted (es @ es') = accepted es @ accepted es'"
  by (induction es rule: accepted.induct) auto

lemma dispatched_append: "dispatched (es @ es') = dispatched es @ dispatched es'"
  by (induction es rule: dispatched.induct) auto

lemma overflowed_append: "overflowed (es @ es') = overflowed es @ overflowed es'"
  by (induction es rule: overflowed.induct) auto

lemmas log_append = accepted_append dispatched_append overflowed_append

text \<open>
  The invariant: signals leave the buffer in the order they were accepted, none is lost or invented,
  the buffer stays within the capacity, and the loop is idle only when it has nothing to do.
\<close>

definition flow_ok :: "('d, 'h) signal_queue \<Rightarrow> bool" where
  "flow_ok q \<longleftrightarrow> subseq (dispatched (sq_log q) @ sq_buffer q) (accepted (sq_log q)) \<and>
     mset (accepted (sq_log q)) = mset (dispatched (sq_log q)) + mset (overflowed (sq_log q)) + mset (sq_buffer q)"

definition loop_ok :: "('d, 'h) signal_queue \<Rightarrow> bool" where
  "loop_ok q \<longleftrightarrow> (sq_dispatching q \<longleftrightarrow> sq_delivery q \<noteq> None) \<and>
     (\<not> sq_dispatching q \<longrightarrow> sq_buffer q = [] \<or> lm_size (sq_subscribers q) = 0)"

lemma dispatch_loop_ok:
  assumes "flow_ok (q\<lparr>sq_buffer := buf\<rparr>)" and "length buf \<le> n" and "sq_dispatching q"
  shows "flow_ok (dispatch_loop buf q) \<and> loop_ok (dispatch_loop buf q) \<and> length (sq_buffer (dispatch_loop buf q)) \<le> n"
  using assms
proof (induction buf q rule: dispatch_loop.induct)
  case (1 q)
  then show ?case by (simp add: flow_ok_def loop_ok_def)
next
  case (2 sig buf q)
  show ?case
  proof (cases "lm_size (sq_subscribers q) = 0")
    case True
    then show ?thesis using 2 by (simp add: flow_ok_def loop_ok_def)
  next
    case False
    then obtain j name h where n: "lm_next 0 (sq_subscribers q) = Some (j, name, h)"
      using lm_size_next[of "sq_subscribers q"] by fastforce
    show ?thesis using 2(2-4) False n
      by (simp add: Let_def log_events_def deliver_def flow_ok_def loop_ok_def log_append)
  qed
qed

definition queue_ok :: "queue_opts \<Rightarrow> ('d, 'h) signal_queue \<Rightarrow> bool" where
  "queue_ok opts q \<longleftrightarrow> flow_ok q \<and> loop_ok q \<and> length (sq_buffer q) \<le> max 1 (qo_capacity opts)"

lemma dispatch_ok:
  assumes "flow_ok q" and "sq_dispatching q \<longleftrightarrow> sq_delivery q \<noteq> None" and "length (sq_buffer q) \<le> max 1 (qo_capacity opts)"
  shows "queue_ok opts (dispatch q)"
  using assms dispatch_loop_ok[where q = "q\<lparr>sq_dispatching := True\<rparr>" and buf = "sq_buffer q"]
  by (simp add: dispatch_def queue_ok_def loop_ok_def flow_ok_def)

lemma flow_push:
  assumes "flow_ok q"
  shows "flow_ok (q\<lparr>sq_log := sq_log q @ [Accepted sig], sq_buffer := sq_buffer q @ [sig]\<rparr>)"
  using assms by (simp add: flow_ok_def log_append) (metis append_assoc list_emb_append_mono subseq_order.order_refl)

lemma flow_overflow:
  assumes "flow_ok q" and "sq_buffer q = s # buf"
  shows "flow_ok (q\<lparr>sq_log := sq_log q @ [Accepted sig, Overflow (Some s)], sq_buffer := buf @ [sig]\<rparr>)"
proof -
  have "subseq (dispatched (sq_log q) @ buf) (dispatched (sq_log q) @ s # buf)" by (intro list_emb_append_mono) auto
  then have "subseq (dispatched (sq_log q) @ buf) (accepted (sq_log q))"
    using assms by (simp add: flow_ok_def) (metis subseq_order.order_trans)
  then have "subseq ((dispatched (sq_log q) @ buf) @ [sig]) (accepted (sq_log q) @ [sig])"
    by (rule list_emb_append_mono) simp
  then show ?thesis using assms by (simp add: flow_ok_def log_append)
qed

lemma push_ok:
  assumes "queue_ok opts q"
  shows "queue_ok opts (push_signal opts sig now now' q)"
proof -
  obtain new m where a: "dedup_admit (qo_dedupWindow opts) (qo_dedupTtlMs opts) now now' (sl_signalId sig) (sq_dedup q) = (new, m)" by fastforce
  have ok: "flow_ok q" "sq_dispatching q \<longleftrightarrow> sq_delivery q \<noteq> None" "length (sq_buffer q) \<le> max 1 (qo_capacity opts)"
    using assms by (simp_all add: queue_ok_def loop_ok_def)
  show ?thesis
  proof (cases new)
    case False
    then show ?thesis using assms by (simp add: push_signal_def a log_events_def queue_ok_def flow_ok_def loop_ok_def log_append)
  next
    case True
    let ?d = "q\<lparr>sq_dedup := m\<rparr>"
    have d: "flow_ok ?d" using ok(1) by (simp add: flow_ok_def)
    show ?thesis
    proof (cases "length (sq_buffer q) \<ge> qo_capacity opts")
      case full: True
      show ?thesis
      proof (cases "sq_buffer q")
        case Nil
        have "flow_ok (q\<lparr>sq_dedup := m, sq_log := sq_log q @ [Accepted sig, Overflow None], sq_buffer := [sig]\<rparr>)"
          using flow_push[OF d, of sig] Nil by (simp add: flow_ok_def log_append)
        then show ?thesis using True full Nil ok(2)
          by (auto simp: push_signal_def a Let_def log_events_def intro!: dispatch_ok)
      next
        case (Cons s buf)
        have "flow_ok (q\<lparr>sq_dedup := m, sq_log := sq_log q @ [Accepted sig, Overflow (Some s)], sq_buffer := buf @ [sig]\<rparr>)"
          using flow_overflow[OF d, of s buf sig] Cons by simp
        then show ?thesis using True full Cons ok(2,3)
          by (auto simp: push_signal_def a Let_def log_events_def intro!: dispatch_ok)
      qed
    next
      case room: False
      have "flow_ok (q\<lparr>sq_dedup := m, sq_log := sq_log q @ [Accepted sig], sq_buffer := sq_buffer q @ [sig]\<rparr>)"
        using flow_push[OF d, of sig] by simp
      then show ?thesis using True room ok(2) by (auto simp: push_signal_def a Let_def log_events_def intro!: dispatch_ok)
    qed
  qed
qed

lemma lm_size_delete: "lm_size (lm_delete m k) \<le> lm_size m"
  by (induction m) (auto simp: lm_size_def lm_delete_def has_key_def split: option.splits)

lemma deliver_ok: "flow_ok q \<Longrightarrow> sq_dispatching q \<Longrightarrow> length (sq_buffer q) \<le> max 1 (qo_capacity opts) \<Longrightarrow> queue_ok opts (deliver sig j name q)"
  by (simp add: deliver_def log_events_def queue_ok_def loop_ok_def flow_ok_def log_append)

lemma settle_ok:
  assumes "queue_ok opts q" and "settle ok q = Some q'"
  shows "queue_ok opts q'"
proof -
  obtain sig i name where d: "sq_delivery q = Some (sig, i, name)" using assms(2) by (auto simp: settle_def split: option.splits)
  let ?q = "if ok then q else log_events [HandlerError name] q"
  have q: "flow_ok ?q" "sq_dispatching ?q" "sq_buffer ?q = sq_buffer q" "length (sq_buffer q) \<le> max 1 (qo_capacity opts)"
    using assms(1) d by (auto simp: queue_ok_def loop_ok_def log_events_def flow_ok_def log_append)
  show ?thesis
  proof (cases "lm_next (Suc i) (sq_subscribers q)")
    case None
    have "q' = dispatch_loop (sq_buffer ?q) ?q" using assms(2) d None by (auto simp: settle_def log_events_def Let_def)
    moreover have "flow_ok (?q\<lparr>sq_buffer := sq_buffer ?q\<rparr>)" using q(1) by simp
    ultimately show ?thesis using dispatch_loop_ok[where q = ?q and buf = "sq_buffer ?q" and n = "max 1 (qo_capacity opts)"] q by (simp add: queue_ok_def)
  next
    case (Some x)
    obtain j name' h where x: "x = (j, name', h)" by (cases x)
    have sub: "sq_subscribers ?q = sq_subscribers q" by (simp add: log_events_def)
    have "q' = deliver sig j name' ?q" using assms(2) unfolding settle_def d Let_def option.case prod.case sub Some x by simp
    then show ?thesis using q by (simp add: deliver_ok)
  qed
qed

lemma queue_step_ok: "queue_ok opts q \<Longrightarrow> queue_step opts l q = Some q' \<Longrightarrow> queue_ok opts q'"
proof (cases l)
  case (Unsubscribe name)
  assume "queue_ok opts q" "queue_step opts l q = Some q'"
  then show ?thesis using Unsubscribe lm_size_delete[of "sq_subscribers q" name]
    by (auto simp: unsubscribe_def queue_ok_def loop_ok_def flow_ok_def)
next
  case (Subscribe name h)
  assume *: "queue_ok opts q" "queue_step opts l q = Some q'"
  have "queue_ok opts (dispatch (q\<lparr>sq_subscribers := lm_set (sq_subscribers q) name h\<rparr>))"
    by (rule dispatch_ok) (use *(1) in \<open>auto simp: queue_ok_def loop_ok_def flow_ok_def\<close>)
  then show ?thesis using * Subscribe by (simp add: subscribe_def)
next
  case Drain
  assume *: "queue_ok opts q" "queue_step opts l q = Some q'"
  then show ?thesis using Drain dispatch_ok[of q opts] by (auto simp: queue_ok_def loop_ok_def split: if_splits)
qed (auto intro: push_ok settle_ok)

lemma queue_reach_ok: "queue_reach opts ls q \<Longrightarrow> queue_ok opts q"
  by (induction rule: queue_reach.induct)
    (auto simp: queue_step_ok, simp add: queue_ok_def flow_ok_def loop_ok_def new_queue_def)

text \<open>
  C22. Every accepted signal is dispatched, still buffered or reported as overflow, exactly once,
  however pushes, subscriptions and slow or throwing handlers interleave: dispatches follow the
  order of acceptance, the buffer never exceeds the capacity (1 for a capacity of 0), and the loop
  rests only when the buffer is empty or nobody subscribes.
\<close>
theorem signal_queue_accounts:
  assumes "queue_reach opts ls q"
  shows "mset (accepted (sq_log q)) = mset (dispatched (sq_log q)) + mset (overflowed (sq_log q)) + mset (sq_buffer q) \<and>
    subseq (dispatched (sq_log q) @ sq_buffer q) (accepted (sq_log q)) \<and>
    length (sq_buffer q) \<le> max 1 (qo_capacity opts) \<and>
    (sq_delivery q \<noteq> None \<or> sq_buffer q = [] \<or> lm_size (sq_subscribers q) = 0)"
  using queue_reach_ok[OF assms] by (auto simp: queue_ok_def flow_ok_def loop_ok_def)

section \<open>What is refused\<close>

fun pushes :: "('d, 'h) queue_label list \<Rightarrow> (int \<times> int \<times> string) list" where
  "pushes [] = []"
| "pushes (Push sig now now' # ls) = (now, now', sl_signalId sig) # pushes ls"
| "pushes (_ # ls) = pushes ls"

lemma pushes_append: "pushes (ks @ ls) = pushes ks @ pushes ls"
  by (induction ks rule: pushes.induct) auto

lemma dispatch_loop_keeps: "sq_dedup (dispatch_loop buf q) = sq_dedup q \<and> accepted (sq_log (dispatch_loop buf q)) = accepted (sq_log q)"
  by (induction buf q rule: dispatch_loop.induct) (auto simp: Let_def deliver_def log_events_def accepted_append split: option.splits)

lemma dispatch_keeps: "sq_dedup (dispatch q) = sq_dedup q \<and> accepted (sq_log (dispatch q)) = accepted (sq_log q)"
  by (simp add: dispatch_def dispatch_loop_keeps)

lemma step_keeps:
  assumes "queue_step opts l q = Some q'" and "\<forall>sig now now'. l \<noteq> Push sig now now'"
  shows "sq_dedup q' = sq_dedup q \<and> accepted (sq_log q') = accepted (sq_log q)"
proof (cases l)
  case (Settle ok)
  then show ?thesis using assms(1)
    by (auto simp: settle_def Let_def deliver_def log_events_def accepted_append dispatch_loop_keeps split: option.splits)
qed (use assms in \<open>auto simp: subscribe_def unsubscribe_def dispatch_keeps split: if_splits\<close>)

lemma push_keeps:
  assumes "dedup_admit (qo_dedupWindow opts) (qo_dedupTtlMs opts) now now' (sl_signalId sig) (sq_dedup q) = (new, m)"
  shows "sq_dedup (push_signal opts sig now now' q) = m \<and>
    accepted (sq_log (push_signal opts sig now now' q)) = accepted (sq_log q) @ (if new then [sig] else [])"
  by (simp add: push_signal_def assms Let_def dispatch_keeps log_events_def accepted_append)

text \<open>
  The queue refuses exactly the recent duplicates: for clocks that never go back and a positive
  time to live, the signals accepted are those whose id is not among the last \<open>dedupWindow\<close>
  accepted ids that are younger than \<open>dedupTtlMs\<close>, whatever the handlers and subscriptions do in
  between. The memory, a map swept from its oldest entry, loses none of these and keeps no other.
\<close>
theorem queue_refuses_duplicates:
  assumes "queue_reach opts ls q" and "dedup_window.clock_ok t (pushes ls)" and "0 < qo_dedupTtlMs opts"
  shows "map sl_signalId (accepted (sq_log q)) =
    map snd (dedup_window.admitted_spec (qo_dedupWindow opts) (qo_dedupTtlMs opts) [] (pushes ls))"
proof -
  have "dedup.remembers (qo_dedupWindow opts) (qo_dedupTtlMs opts) t (pushes ls) (sq_dedup q) \<and>
      map sl_signalId (accepted (sq_log q)) = map snd (dedup.admitted_spec (qo_dedupWindow opts) (qo_dedupTtlMs opts) [] (pushes ls))"
    using assms(1,2)
  proof (induction rule: queue_reach.induct)
    case q_new
    then show ?case using dedup.remembers_empty[OF assms(3)] by (simp add: new_queue_def)
  next
    case (q_step ls q l q')
    show ?case
    proof (cases "\<exists>sig now now'. l = Push sig now now'")
      case True
      then obtain sig now now' where l: "l = Push sig now now'" by blast
      obtain new m where a: "dedup_admit (qo_dedupWindow opts) (qo_dedupTtlMs opts) now now' (sl_signalId sig) (sq_dedup q) = (new, m)" by fastforce
      have c: "dedup_window.clock_ok t (pushes ls @ [(now, now', sl_signalId sig)])" using q_step.prems by (simp add: l pushes_append)
      then have c': "dedup_window.clock_ok t (pushes ls)" by (simp add: dedup.clock_ok_snoc)
      show ?thesis
        using q_step.IH[OF c'] dedup.remembers_admit[OF _ a c] push_keeps[OF a] q_step.hyps(2)
        by (auto simp: l pushes_append)
    next
      case False
      then have p: "pushes (ls @ [l]) = pushes ls" by (cases l) (auto simp: pushes_append)
      show ?thesis using q_step.IH q_step.prems step_keeps[OF q_step.hyps(2)] False unfolding p by auto
    qed
  qed
  then show ?thesis by simp
qed

section \<open>Sample runs\<close>

definition sample_sig :: "string \<Rightarrow> unit signal" where
  "sample_sig i = \<lparr>sl_signalId = i, sl_ts = 0, sl_slot = 0, sl_signature = ''s'', sl_programId = Abs_pubkey (replicate 32 0), sl_kind = ''k'',
     sl_venue = None, sl_decoded = (), sl_signalVersion = None\<rparr>"

definition small_queue :: queue_opts where
  "small_queue = \<lparr>qo_capacity = 1, qo_dedupWindow = 2, qo_dedupTtlMs = 100\<rparr>"

definition sample_run :: "(unit, unit) queue_label list" where
  "sample_run = [Push (sample_sig ''a'') 0 0, Push (sample_sig ''b'') 1 1, Subscribe ''x'' (), Push (sample_sig ''a'') 2 2, Settle False]"

definition sample_queue :: "(unit, unit) signal_queue" where
  "sample_queue = the (queue_steps small_queue sample_run new_queue)"

lemmas queue_run_simps = sample_run_def small_queue_def push_signal_def subscribe_def dispatch_def dedup_admit_def remember_def
  log_events_def deliver_def settle_def new_queue_def lm_set_def lm_size_def lm_next_def has_key_def jm_has_def sample_sig_def Let_def

lemma sample_run_log:
  "map_option sq_log (queue_steps small_queue sample_run new_queue) =
     Some [Accepted (sample_sig ''a''), Accepted (sample_sig ''b''), Overflow (Some (sample_sig ''a'')), Dispatched (sample_sig ''b''),
       Delivered 0 ''x'' (sample_sig ''b''), DroppedDup ''a'', HandlerError ''x'']"
  by (simp add: queue_run_simps)

lemma sample_run_reach: "queue_reach small_queue sample_run sample_queue"
proof -
  obtain q where "queue_steps small_queue sample_run new_queue = Some q"
    using sample_run_log by fastforce
  then show ?thesis using steps_reach[OF q_new, of small_queue sample_run q] by (simp add: sample_queue_def)
qed

theorem signal_queue_accounts_witness:
  "mset (accepted (sq_log sample_queue)) =
     mset (dispatched (sq_log sample_queue)) + mset (overflowed (sq_log sample_queue)) + mset (sq_buffer sample_queue) \<and>
   length (accepted (sq_log sample_queue)) = 2"
  using signal_queue_accounts[OF sample_run_reach] sample_run_log by (auto simp: sample_queue_def)

theorem queue_refuses_duplicates_witness:
  "dedup_window.admitted_spec 2 100 [] [(0, 0, ''a''), (1, 1, ''b''), (2, 2, ''a'')] = [(0, ''a''), (1, ''b'')] \<and>
   map sl_signalId (accepted (sq_log sample_queue)) = [''a'', ''b'']"
proof -
  have p: "pushes sample_run = [(0, 0, ''a''), (1, 1, ''b''), (2, 2, ''a'')]" by (simp add: sample_run_def sample_sig_def)
  have "dedup_window.clock_ok 0 (pushes sample_run)" by (simp add: p)
  moreover have "0 < qo_dedupTtlMs small_queue" by (simp add: small_queue_def)
  ultimately show ?thesis
    using queue_refuses_duplicates[OF sample_run_reach, of 0] by (simp add: p small_queue_def recent_def lastn_def)
qed

text \<open>
  A signal pushed out of the full buffer cannot be delivered again: it never reached a
  subscriber, but its id is remembered, so when the source redelivers it within the time to live,
  with room in the buffer and a subscriber waiting, it is dropped as a duplicate.
\<close>
theorem overflowed_signal_refused:
  "\<exists>log. map_option sq_log (queue_steps small_queue sample_run new_queue) = Some log \<and>
     Overflow (Some (sample_sig ''a'')) \<in> set log \<and> DroppedDup ''a'' \<in> set log \<and> sample_sig ''a'' \<notin> set (dispatched log)"
  using sample_run_log by (auto simp: sample_sig_def)

end
