(* ===== verification/SignalBus.thy ===== *)
theory SignalBus
  imports SignalCore
begin

text \<open>
  \<open>packages/solana-signals/src/bus.ts\<close> with the interfaces of \<open>producer.ts\<close>: producers' signals are
  fanned out to the matching consumers, one after the other. The consumers' handlers are opaque, as
  in the signal queue: while an emission awaits one, anything else may happen, other emissions
  included. An emission has the number of its call; producers' \<open>start\<close> and \<open>stop\<close> are only recorded.
\<close>

section \<open>Producers and consumers\<close>

record producer =
  pr_id :: string
  pr_source :: string
  pr_signalType :: string
  pr_signalVersion :: string

record 'd consumer =
  co_id :: string
  co_signalType :: "string option"
  co_versionPin :: "string option"
  co_filter :: "('d signal \<Rightarrow> bool) option"

datatype bus_error = BusClosed | ProducerExists string | ConsumerExists string

datatype 'd bus_event =
    BusDropped string
  | VersionMismatch string string string string   \<comment> \<open>consumer, producer, pin, version\<close>
  | BusHandlerError string
  | Started string | StopCalled string
  | Emitted nat producer "'d signal"
  | Handled nat nat "'d consumer" "'d signal"      \<comment> \<open>emission, place\<close>
  | Finished nat nat                               \<comment> \<open>emission, places looked at\<close>

record 'd emission =
  em_number :: nat
  em_producer :: producer
  em_signal :: "'d signal"
  em_place :: nat        \<comment> \<open>of the consumer whose \<open>handle\<close> is awaited\<close>
  em_consumer :: string

record bus_opts =
  bo_dedupWindow :: nat
  bo_dedupTtlMs :: int

record 'd signal_bus =
  bus_producers :: "(string, producer) jsmap"
  bus_consumers :: "(string, 'd consumer) livemap"
  bus_dedup :: dedup
  bus_closed :: bool
  bus_emissions :: "'d emission list"
  bus_count :: nat
  bus_log :: "'d bus_event list"

definition new_bus :: "'d signal_bus" where
  "new_bus = \<lparr>bus_producers = [], bus_consumers = [], bus_dedup = [], bus_closed = False, bus_emissions = [], bus_count = 0, bus_log = []\<rparr>"

section \<open>Dispatch\<close>

text \<open>The checks before \<open>handle\<close>, in their order.\<close>

definition type_differs :: "producer \<Rightarrow> 'd consumer \<Rightarrow> bool" where
  "type_differs p c \<longleftrightarrow> (case co_signalType c of Some t \<Rightarrow> t \<noteq> [] \<and> t \<noteq> pr_signalType p | None \<Rightarrow> False)"

definition pin_differs :: "'d signal \<Rightarrow> 'd consumer \<Rightarrow> bool" where
  "pin_differs sig c \<longleftrightarrow> (case co_versionPin c of Some v \<Rightarrow> sl_signalVersion sig \<noteq> Some v | None \<Rightarrow> False)"

definition filtered_out :: "'d signal \<Rightarrow> 'd consumer \<Rightarrow> bool" where
  "filtered_out sig c \<longleftrightarrow> (case co_filter c of Some f \<Rightarrow> \<not> f sig | None \<Rightarrow> False)"

definition mismatch_event :: "producer \<Rightarrow> 'd signal \<Rightarrow> 'd consumer \<Rightarrow> 'd bus_event" where
  "mismatch_event p sig c = VersionMismatch (co_id c) (pr_id p) (case co_versionPin c of Some v \<Rightarrow> v | None \<Rightarrow> [])
     (case sl_signalVersion sig of Some v \<Rightarrow> v | None \<Rightarrow> [])"

text \<open>The events up to the next \<open>handle\<close>, and its place and consumer, if there is one.\<close>

fun seek :: "producer \<Rightarrow> 'd signal \<Rightarrow> nat \<Rightarrow> (string, 'd consumer) livemap \<Rightarrow> 'd bus_event list \<times> (nat \<times> 'd consumer) option" where
  "seek p sig i [] = ([], None)"
| "seek p sig i (None # es) = seek p sig (Suc i) es"
| "seek p sig i (Some (_, c) # es) =
     (if type_differs p c then seek p sig (Suc i) es
      else if pin_differs sig c then (let (evs, r) = seek p sig (Suc i) es in (mismatch_event p sig c # evs, r))
      else if filtered_out sig c then seek p sig (Suc i) es
      else ([], Some (i, c)))"

definition bus_events :: "'d bus_event list \<Rightarrow> 'd signal_bus \<Rightarrow> 'd signal_bus" where
  "bus_events evs b = b\<lparr>bus_log := bus_log b @ evs\<rparr>"

text \<open>The loop of emission \<open>n\<close> from place \<open>i\<close>, up to the \<open>await\<close> or to its end.\<close>

definition continue_emission :: "nat \<Rightarrow> producer \<Rightarrow> 'd signal \<Rightarrow> nat \<Rightarrow> 'd signal_bus \<Rightarrow> 'd signal_bus" where
  "continue_emission n p sig i b =
     (case seek p sig i (drop i (bus_consumers b)) of
        (evs, Some (j, c)) \<Rightarrow> bus_events (evs @ [Handled n j c sig])
          (b\<lparr>bus_emissions := bus_emissions b @ [\<lparr>em_number = n, em_producer = p, em_signal = sig, em_place = j, em_consumer = co_id c\<rparr>]\<rparr>)
      | (evs, None) \<Rightarrow> bus_events (evs @ [Finished n (length (bus_consumers b))]) b)"

definition stamp_version :: "producer \<Rightarrow> 'd signal \<Rightarrow> 'd signal" where
  "stamp_version p sig = (case sl_signalVersion sig of None \<Rightarrow> sig\<lparr>sl_signalVersion := Some (pr_signalVersion p)\<rparr> | Some _ \<Rightarrow> sig)"

definition emit_signal :: "bus_opts \<Rightarrow> producer \<Rightarrow> 'd signal \<Rightarrow> int \<Rightarrow> int \<Rightarrow> 'd signal_bus \<Rightarrow> 'd signal_bus" where
  "emit_signal opts p sig now now' b =
     (if bus_closed b then b
      else let (new, m) = dedup_admit (bo_dedupWindow opts) (bo_dedupTtlMs opts) now now' (sl_signalId sig) (bus_dedup b);
               b = b\<lparr>bus_dedup := m\<rparr>
           in if \<not> new then bus_events [BusDropped (sl_signalId sig)] b
              else let stamped = stamp_version p sig; n = bus_count b
                   in continue_emission n p stamped 0 (bus_events [Emitted n p stamped] (b\<lparr>bus_count := Suc n\<rparr>)))"

definition settle_emission :: "nat \<Rightarrow> bool \<Rightarrow> 'd signal_bus \<Rightarrow> 'd signal_bus option" where
  "settle_emission k ok b =
     (case jat (bus_emissions b) k of
        None \<Rightarrow> None
      | Some e \<Rightarrow>
          (let b = b\<lparr>bus_emissions := take k (bus_emissions b) @ drop (Suc k) (bus_emissions b)\<rparr>;
               b = (if ok then b else bus_events [BusHandlerError (em_consumer e)] b)
           in Some (continue_emission (em_number e) (em_producer e) (em_signal e) (Suc (em_place e)) b)))"

section \<open>Registration and closing\<close>

definition registerProducer :: "producer \<Rightarrow> 'd signal_bus \<Rightarrow> bus_error + 'd signal_bus" where
  "registerProducer p b =
     (if bus_closed b then Inl BusClosed
      else if jm_has (bus_producers b) (pr_id p) then Inl (ProducerExists (pr_id p))
      else Inr (b\<lparr>bus_producers := jm_set (bus_producers b) (pr_id p) p\<rparr>))"

text \<open>The deferred \<open>producer.start(emit)\<close>.\<close>

definition start_producer :: "producer \<Rightarrow> 'd signal_bus \<Rightarrow> 'd signal_bus" where
  "start_producer p b = (if bus_closed b \<or> \<not> jm_has (bus_producers b) (pr_id p) then b else bus_events [Started (pr_id p)] b)"

definition dispose_producer :: "string \<Rightarrow> 'd signal_bus \<Rightarrow> 'd signal_bus" where
  "dispose_producer i b =
     (if \<not> jm_has (bus_producers b) i then b
      else bus_events [StopCalled i] (b\<lparr>bus_producers := jm_delete (bus_producers b) i\<rparr>))"

definition registerConsumer :: "'d consumer \<Rightarrow> 'd signal_bus \<Rightarrow> bus_error + 'd signal_bus" where
  "registerConsumer c b =
     (if bus_closed b then Inl BusClosed
      else if lm_has (bus_consumers b) (co_id c) then Inl (ConsumerExists (co_id c))
      else Inr (b\<lparr>bus_consumers := lm_set (bus_consumers b) (co_id c) c\<rparr>))"

definition dispose_consumer :: "string \<Rightarrow> 'd signal_bus \<Rightarrow> 'd signal_bus" where
  "dispose_consumer i b = b\<lparr>bus_consumers := lm_delete (bus_consumers b) i\<rparr>"

text \<open>\<open>close\<close> up to its \<open>await\<close>, and the clearing after it.\<close>

definition close_bus :: "'d signal_bus \<Rightarrow> 'd signal_bus" where
  "close_bus b = (if bus_closed b then b else bus_events (map StopCalled (jm_keys (bus_producers b))) (b\<lparr>bus_closed := True\<rparr>))"

definition clear_bus :: "'d signal_bus \<Rightarrow> 'd signal_bus" where
  "clear_bus b = b\<lparr>bus_producers := [], bus_consumers := map (\<lambda>_. None) (bus_consumers b), bus_dedup := []\<rparr>"

datatype 'd bus_label =
    RegisterProducer producer | StartProducer producer | DisposeProducer string
  | RegisterConsumer "'d consumer" | DisposeConsumer string
  | Emit producer "'d signal" int int | SettleEmission nat bool | Close | Clear

fun bus_step :: "bus_opts \<Rightarrow> 'd bus_label \<Rightarrow> 'd signal_bus \<Rightarrow> 'd signal_bus option" where
  "bus_step opts (RegisterProducer p) b = (case registerProducer p b of Inr b \<Rightarrow> Some b | Inl _ \<Rightarrow> Some b)"
| "bus_step opts (StartProducer p) b = Some (start_producer p b)"
| "bus_step opts (DisposeProducer i) b = Some (dispose_producer i b)"
| "bus_step opts (RegisterConsumer c) b = (case registerConsumer c b of Inr b \<Rightarrow> Some b | Inl _ \<Rightarrow> Some b)"
| "bus_step opts (DisposeConsumer i) b = Some (dispose_consumer i b)"
| "bus_step opts (Emit p sig now now') b = Some (emit_signal opts p sig now now' b)"
| "bus_step opts (SettleEmission k ok) b = settle_emission k ok b"
| "bus_step opts Close b = Some (close_bus b)"
| "bus_step opts Clear b = (if bus_closed b then Some (clear_bus b) else None)"

inductive bus_reach :: "bus_opts \<Rightarrow> 'd signal_bus \<Rightarrow> bool" for opts where
  b_new: "bus_reach opts new_bus"
| b_step: "bus_reach opts b \<Longrightarrow> bus_step opts l b = Some b' \<Longrightarrow> bus_reach opts b'"

fun bus_steps :: "bus_opts \<Rightarrow> 'd bus_label list \<Rightarrow> 'd signal_bus \<Rightarrow> 'd signal_bus option" where
  "bus_steps opts [] b = Some b"
| "bus_steps opts (l # ls) b = Option.bind (bus_step opts l b) (bus_steps opts ls)"

lemma bus_steps_reach: "bus_reach opts b \<Longrightarrow> bus_steps opts ls b = Some b' \<Longrightarrow> bus_reach opts b'"
proof (induction ls arbitrary: b)
  case (Cons l ls)
  then show ?case by (cases "bus_step opts l b") (auto intro: b_step)
qed simp

section \<open>Who gets a signal\<close>

text \<open>What the consumer asked for.\<close>

definition wants :: "producer \<Rightarrow> 'd signal \<Rightarrow> 'd consumer \<Rightarrow> bool" where
  "wants p sig c \<longleftrightarrow>
     (\<forall>t. co_signalType c = Some t \<and> t \<noteq> [] \<longrightarrow> t = pr_signalType p) \<and>
     (\<forall>v. co_versionPin c = Some v \<longrightarrow> sl_signalVersion sig = Some v) \<and>
     (\<forall>f. co_filter c = Some f \<longrightarrow> f sig)"

lemma wants_iff: "wants p sig c \<longleftrightarrow> \<not> type_differs p c \<and> \<not> pin_differs sig c \<and> \<not> filtered_out sig c"
  by (auto simp: wants_def type_differs_def pin_differs_def filtered_out_def split: option.splits)

text \<open>The events of emission \<open>n\<close> at place \<open>j\<close>.\<close>

definition handled_at :: "'d bus_event list \<Rightarrow> nat \<Rightarrow> nat \<Rightarrow> ('d consumer \<times> 'd signal) list" where
  "handled_at log n j = concat (map (\<lambda>e. case e of Handled n' j' c s \<Rightarrow> if n' = n \<and> j' = j then [(c, s)] else [] | _ \<Rightarrow> []) log)"

lemma handled_at_append: "handled_at (es @ es') n j = handled_at es n j @ handled_at es' n j"
  by (simp add: handled_at_def)

lemma handled_at_simps [simp]:
  "handled_at [] n j = []"
  "handled_at (Handled n' j' c s # es) n j = (if n' = n \<and> j' = j then [(c, s)] else []) @ handled_at es n j"
  "handled_at (Emitted n' p s # es) n j = handled_at es n j"
  "handled_at (Finished n' i # es) n j = handled_at es n j"
  "handled_at (BusDropped x # es) n j = handled_at es n j"
  "handled_at (BusHandlerError x # es) n j = handled_at es n j"
  "handled_at (Started x # es) n j = handled_at es n j"
  "handled_at (StopCalled x # es) n j = handled_at es n j"
  "handled_at (mismatch_event p sig c # es) n j = handled_at es n j"
  by (simp_all add: handled_at_def mismatch_event_def)

fun quiet :: "'d bus_event \<Rightarrow> bool" where
  "quiet (VersionMismatch _ _ _ _) = True"
| "quiet _ = False"

lemma quiet_handled: "list_all quiet evs \<Longrightarrow> handled_at evs n j = []"
proof (induction evs)
  case (Cons e evs)
  then show ?case by (cases e) (auto simp: handled_at_def)
qed simp

lemma quiet_mem: "list_all quiet evs \<Longrightarrow> Emitted n p s \<notin> set evs \<and> Finished n i \<notin> set evs"
  by (auto simp: list_all_iff)

definition seek_result :: "producer \<Rightarrow> 'd signal \<Rightarrow> nat \<Rightarrow> (string, 'd consumer) livemap \<Rightarrow> (nat \<times> 'd consumer) option \<Rightarrow> bool" where
  "seek_result p sig i es r \<longleftrightarrow>
     (case r of
       Some (j, c) \<Rightarrow> i \<le> j \<and> j - i < length es \<and> (\<exists>k. es ! (j - i) = Some (k, c)) \<and> wants p sig c \<and>
         (\<forall>x < j - i. \<forall>k c'. es ! x = Some (k, c') \<longrightarrow> \<not> wants p sig c')
     | None \<Rightarrow> \<forall>x < length es. \<forall>k c'. es ! x = Some (k, c') \<longrightarrow> \<not> wants p sig c')"

lemma seek_skip:
  assumes "seek_result p sig (Suc i) es r" and "\<And>k c. e = Some (k, c) \<Longrightarrow> \<not> wants p sig c"
  shows "seek_result p sig i (e # es) r"
proof (cases r)
  case None
  then show ?thesis using assms by (auto simp: seek_result_def nth_Cons split: nat.splits)
next
  case (Some jc)
  obtain j c where r: "r = Some (j, c)" using Some by (cases jc) auto
  have *: "Suc i \<le> j" "j - Suc i < length es" "\<exists>k. es ! (j - Suc i) = Some (k, c)" "wants p sig c"
    "\<forall>x < j - Suc i. \<forall>k c'. es ! x = Some (k, c') \<longrightarrow> \<not> wants p sig c'"
    using assms(1) by (auto simp: seek_result_def r)
  moreover have "j - i = Suc (j - Suc i)" using *(1) by simp
  ultimately show ?thesis using assms(2) by (auto simp: seek_result_def r less_Suc_eq_0_disj)
qed

lemma seek_spec: "seek p sig i es = (evs, r) \<Longrightarrow> list_all quiet evs \<and> seek_result p sig i es r"
proof (induction p sig i es arbitrary: evs r rule: seek.induct)
  case (1 p sig i)
  then show ?case by (auto simp: seek_result_def)
next
  case (2 p sig i es)
  then show ?case using seek_skip[of p sig i es r None] by auto
next
  case (3 p sig i k c es)
  show ?case
  proof (cases "wants p sig c")
    case True
    then have "evs = [] \<and> r = Some (i, c)" using "3.prems" by (auto simp: wants_iff)
    then show ?thesis using True by (simp add: seek_result_def)
  next
    case False
    obtain evs' where e: "seek p sig (Suc i) es = (evs', r)" "list_all quiet evs = list_all quiet evs'"
      using "3.prems" False by (auto simp: wants_iff mismatch_event_def split: if_splits prod.splits)
    have "list_all quiet evs' \<and> seek_result p sig (Suc i) es r"
      using "3.IH" e(1) False by (cases "type_differs p c"; cases "pin_differs sig c") (auto simp: wants_iff)
    then show ?thesis using e(2) False seek_skip[of p sig i es r "Some (k, c)"] by auto
  qed
qed

section \<open>The invariant of the bus\<close>

text \<open>Emission \<open>n\<close> has been through the first \<open>d\<close> places.\<close>

definition progress :: "'d signal_bus \<Rightarrow> nat \<Rightarrow> producer \<Rightarrow> 'd signal \<Rightarrow> nat \<Rightarrow> bool" where
  "progress b n p s d \<longleftrightarrow> d \<le> length (bus_consumers b) \<and>
     (\<forall>j. handled_at (bus_log b) n j = [] \<or> j < d \<and> (\<exists>c. handled_at (bus_log b) n j = [(c, s)] \<and> wants p s c)) \<and>
     (\<forall>j < d. \<forall>k c. bus_consumers b ! j = Some (k, c) \<and> wants p s c \<longrightarrow> handled_at (bus_log b) n j = [(c, s)])"

definition emission_of :: "'d emission \<Rightarrow> nat \<times> producer \<times> 'd signal" where
  "emission_of e = (em_number e, em_producer e, em_signal e)"

definition emitted :: "'d signal_bus \<Rightarrow> nat \<Rightarrow> producer \<Rightarrow> 'd signal \<Rightarrow> bool" where
  "emitted b n p s \<longleftrightarrow> Emitted n p s \<in> set (bus_log b)"

definition finished :: "'d signal_bus \<Rightarrow> nat \<Rightarrow> nat \<Rightarrow> bool" where
  "finished b n i \<longleftrightarrow> Finished n i \<in> set (bus_log b)"

definition accounted :: "'d signal_bus \<Rightarrow> nat \<Rightarrow> producer \<Rightarrow> 'd signal \<Rightarrow> bool" where
  "accounted b n p s \<longleftrightarrow>
     (\<exists>e \<in> set (bus_emissions b). emission_of e = (n, p, s) \<and> progress b n p s (Suc (em_place e)) \<and> (\<forall>i. \<not> finished b n i)) \<or>
     (n \<notin> em_number ` set (bus_emissions b) \<and> (\<exists>d. progress b n p s d \<and> (\<forall>i. finished b n i \<longrightarrow> i = d)))"

text \<open>The emissions of \<open>L\<close> are between two awaits.\<close>

definition bus_ok :: "nat set \<Rightarrow> 'd signal_bus \<Rightarrow> bool" where
  "bus_ok L b \<longleftrightarrow> distinct (map em_number (bus_emissions b)) \<and>
     (\<forall>e \<in> set (bus_emissions b). em_number e \<notin> L \<and> emitted b (em_number e) (em_producer e) (em_signal e)) \<and>
     (\<forall>n p s. emitted b n p s \<longrightarrow> n < bus_count b \<and> (n \<notin> L \<longrightarrow> accounted b n p s)) \<and>
     (\<forall>n p s p' s'. emitted b n p s \<longrightarrow> emitted b n p' s' \<longrightarrow> p' = p \<and> s' = s) \<and>
     (\<forall>n \<ge> bus_count b. (\<forall>j. handled_at (bus_log b) n j = []) \<and> (\<forall>i. \<not> finished b n i))"

lemma progress_log:
  assumes "bus_consumers b' = bus_consumers b" and "\<And>j. handled_at (bus_log b') n j = handled_at (bus_log b) n j"
  shows "progress b' n p s d \<longleftrightarrow> progress b n p s d"
  by (simp add: progress_def assms)

lemma accounted_other:
  assumes "bus_consumers b' = bus_consumers b" and "\<And>j. handled_at (bus_log b') n j = handled_at (bus_log b) n j"
    and "\<And>i. finished b' n i \<longleftrightarrow> finished b n i"
    and "\<And>e. em_number e = n \<Longrightarrow> e \<in> set (bus_emissions b') \<longleftrightarrow> e \<in> set (bus_emissions b)"
  shows "accounted b' n p s \<longleftrightarrow> accounted b n p s"
proof -
  have "(e \<in> set (bus_emissions b') \<and> emission_of e = (n, p, s)) \<longleftrightarrow> (e \<in> set (bus_emissions b) \<and> emission_of e = (n, p, s))" for e
    using assms(4) by (auto simp: emission_of_def)
  moreover have "n \<in> em_number ` set (bus_emissions b') \<longleftrightarrow> n \<in> em_number ` set (bus_emissions b)"
    using assms(4) by (auto simp: image_iff)
  ultimately show ?thesis unfolding accounted_def progress_log[OF assms(1,2)] assms(3) by blast
qed

lemma continue_ok:
  assumes ok: "bus_ok {n} b" and em: "emitted b n p sig" and pr: "progress b n p sig i" and fin: "\<And>k. \<not> finished b n k"
  shows "bus_ok {} (continue_emission n p sig i b)"
proof -
  let ?b = "continue_emission n p sig i b"
  obtain evs r where s: "seek p sig i (drop i (bus_consumers b)) = (evs, r)" by fastforce
  have q: "list_all quiet evs" and sr: "seek_result p sig i (drop i (bus_consumers b)) r" using seek_spec[OF s] by auto
  note qs = quiet_handled[OF q] quiet_mem[OF q]
  have i: "i \<le> length (bus_consumers b)" using pr by (simp add: progress_def)
  have hn: "j < i \<or> handled_at (bus_log b) n j = []" for j using pr by (auto simp: progress_def)
  have other: "accounted ?b m p' s' \<longleftrightarrow> accounted b m p' s'" if "m \<noteq> n" for m p' s'
    using that by (intro accounted_other) (auto simp: continue_emission_def s bus_events_def handled_at_append qs finished_def split: option.splits)
  have em': "emitted ?b m p' s' \<longleftrightarrow> emitted b m p' s'" for m p' s'
    by (auto simp: continue_emission_def s bus_events_def emitted_def qs split: option.splits)
  have count: "bus_count ?b = bus_count b" "n < bus_count b"
    using ok em by (auto simp: continue_emission_def s bus_events_def bus_ok_def split: option.splits)
  have mine: "accounted ?b n p sig"
  proof (cases r)
    case None
    have "progress ?b n p sig (length (bus_consumers b))"
      unfolding progress_def
    proof (intro conjI allI impI)
      fix j k c assume *: "j < length (bus_consumers b)" "bus_consumers ?b ! j = Some (k, c) \<and> wants p sig c"
      have "j < i"
      proof (rule ccontr)
        assume "\<not> j < i"
        then have "drop i (bus_consumers b) ! (j - i) = Some (k, c)" "j - i < length (drop i (bus_consumers b))"
          using * by (auto simp: continue_emission_def s None bus_events_def)
        then show False using sr * unfolding seek_result_def None by auto
      qed
      then show "handled_at (bus_log ?b) n j = [(c, sig)]"
        using pr * by (auto simp: progress_def continue_emission_def s None bus_events_def handled_at_append qs)
    qed (use pr hn i in \<open>auto simp: progress_def continue_emission_def s None bus_events_def handled_at_append qs\<close>)
    moreover have "n \<notin> em_number ` set (bus_emissions ?b)" using ok by (auto simp: bus_ok_def continue_emission_def s None bus_events_def)
    moreover have "finished ?b n k \<longrightarrow> k = length (bus_consumers b)" for k
      using fin by (auto simp: finished_def continue_emission_def s None bus_events_def qs)
    ultimately show ?thesis unfolding accounted_def by blast
  next
    case (Some jc)
    obtain j c where r: "r = Some (j, c)" using Some by (cases jc) auto
    have sr': "i \<le> j" "j < length (bus_consumers b)" "\<exists>k. bus_consumers b ! j = Some (k, c)" "wants p sig c"
      using sr i by (auto simp: seek_result_def r)
    have gap: "bus_consumers b ! x = Some (k, c') \<Longrightarrow> \<not> wants p sig c'" if "i \<le> x" "x < j" for x k c'
    proof -
      assume "bus_consumers b ! x = Some (k, c')"
      then have "drop i (bus_consumers b) ! (x - i) = Some (k, c')" "x - i < j - i" using that sr'(2) by auto
      then show ?thesis using sr by (auto simp: seek_result_def r)
    qed
    let ?e = "\<lparr>em_number = n, em_producer = p, em_signal = sig, em_place = j, em_consumer = co_id c\<rparr>"
    have b: "bus_consumers ?b = bus_consumers b" "bus_log ?b = bus_log b @ evs @ [Handled n j c sig]" "?e \<in> set (bus_emissions ?b)"
      by (simp_all add: continue_emission_def s r bus_events_def)
    have j: "handled_at (bus_log b) n j = []" using hn[of j] sr'(1) by auto
    have "progress ?b n p sig (Suc j)"
      unfolding progress_def b
    proof (intro conjI allI impI)
      fix x k c' assume *: "x < Suc j" "bus_consumers b ! x = Some (k, c') \<and> wants p sig c'"
      then have "x < i \<or> x = j" using gap[of x k c'] by force
      then show "handled_at (bus_log b @ evs @ [Handled n j c sig]) n x = [(c', sig)]"
        using pr * sr' j by (auto simp: progress_def handled_at_append qs)
    next
      fix x
      show "handled_at (bus_log b @ evs @ [Handled n j c sig]) n x = [] \<or>
          x < Suc j \<and> (\<exists>c'. handled_at (bus_log b @ evs @ [Handled n j c sig]) n x = [(c', sig)] \<and> wants p sig c')"
        using pr sr' j hn[of x] by (cases "x = j") (auto simp: progress_def handled_at_append qs)
    qed (use sr' in simp)
    moreover have "\<not> finished ?b n k" for k using fin b(2) by (simp add: finished_def qs)
    moreover have "emission_of ?e = (n, p, sig)" "em_place ?e = j" by (simp_all add: emission_of_def)
    ultimately show ?thesis using b(3) unfolding accounted_def by (intro disjI1 bexI[of _ ?e]) auto
  qed
  have "n \<notin> em_number ` set (bus_emissions b)" using ok by (auto simp: bus_ok_def)
  then have "distinct (map em_number (bus_emissions ?b)) \<and> (\<forall>e \<in> set (bus_emissions ?b). emitted ?b (em_number e) (em_producer e) (em_signal e))"
    using ok em unfolding em' by (auto simp: bus_ok_def continue_emission_def s bus_events_def image_iff split: option.splits)
  moreover have "accounted ?b m p' s'" if "emitted b m p' s'" for m p' s'
  proof (cases "m = n")
    case True
    then have "p' = p \<and> s' = sig" using ok em that unfolding bus_ok_def by blast
    then show ?thesis using mine True by simp
  qed (use ok that other in \<open>auto simp: bus_ok_def\<close>)
  moreover have "handled_at (bus_log ?b) m j = [] \<and> \<not> finished ?b m k" if "bus_count b \<le> m" for m j k
    using that ok count(2) by (auto simp: bus_ok_def continue_emission_def s bus_events_def finished_def handled_at_append qs split: option.splits)
  ultimately show ?thesis using ok unfolding bus_ok_def em' count(1) by blast
qed

text \<open>Consumers come at the end and leave empty places.\<close>

definition evolves :: "(string, 'd consumer) livemap \<Rightarrow> (string, 'd consumer) livemap \<Rightarrow> bool" where
  "evolves m m' \<longleftrightarrow> length m \<le> length m' \<and> (\<forall>j < length m. m' ! j = m ! j \<or> m' ! j = None)"

lemma evolves_delete: "evolves m (lm_delete m k)"
  by (auto simp: evolves_def lm_delete_def)

lemma evolves_set: "\<not> lm_has m k \<Longrightarrow> evolves m (lm_set m k v)"
  by (auto simp: evolves_def lm_set_def lm_has_def nth_append)

lemma evolves_clear: "evolves m (map (\<lambda>_. None) m)"
  by (simp add: evolves_def)

lemma progress_evolves:
  assumes e: "evolves (bus_consumers b) m" and p: "progress b n p s d"
  shows "progress (b\<lparr>bus_consumers := m\<rparr>) n p s d"
proof -
  have d: "d \<le> length (bus_consumers b)" "length (bus_consumers b) \<le> length m" using e p by (auto simp: evolves_def progress_def)
  have "handled_at (bus_log b) n j = [(c, s)]" if "j < d" "m ! j = Some (k, c)" "wants p s c" for j k c
  proof -
    have "j < length (bus_consumers b)" using that(1) d(1) by simp
    then have "m ! j = bus_consumers b ! j \<or> m ! j = None" using e by (simp add: evolves_def)
    then have "bus_consumers b ! j = Some (k, c)" using that(2) by auto
    then show ?thesis using p that(1,3) unfolding progress_def by blast
  qed
  then show ?thesis using p d by (simp add: progress_def)
qed

lemma bus_ok_consumers: "bus_ok L b \<Longrightarrow> evolves (bus_consumers b) m \<Longrightarrow> bus_ok L (b\<lparr>bus_consumers := m\<rparr>)"
proof -
  assume ok: "bus_ok L b" and e: "evolves (bus_consumers b) m"
  have same: "emitted (b\<lparr>bus_consumers := m\<rparr>) n p s = emitted b n p s" "finished (b\<lparr>bus_consumers := m\<rparr>) n i = finished b n i" for n p s i
    by (simp_all add: emitted_def finished_def)
  have "accounted b n p s \<Longrightarrow> accounted (b\<lparr>bus_consumers := m\<rparr>) n p s" for n p s
    unfolding accounted_def same using progress_evolves[OF e, of n p s] by (simp, blast)
  then show ?thesis using ok unfolding bus_ok_def same by simp
qed

text \<open>Fields and events the invariant does not read.\<close>

lemma bus_ok_irrelevant:
  assumes "bus_ok L b" and "bus_consumers b' = bus_consumers b" and "bus_emissions b' = bus_emissions b" and "bus_count b' = bus_count b"
    and "\<And>n j. handled_at (bus_log b') n j = handled_at (bus_log b) n j"
    and "\<And>n p s. emitted b' n p s = emitted b n p s" and "\<And>n i. finished b' n i = finished b n i"
  shows "bus_ok L b'"
proof -
  have "accounted b' n p s \<longleftrightarrow> accounted b n p s" for n p s
    by (rule accounted_other) (use assms in auto)
  then show ?thesis using assms(1) unfolding bus_ok_def assms(3-7) by simp
qed

lemma emit_ok:
  assumes "bus_ok {} b"
  shows "bus_ok {} (emit_signal opts p sig now now' b)"
proof -
  obtain new m where a: "dedup_admit (bo_dedupWindow opts) (bo_dedupTtlMs opts) now now' (sl_signalId sig) (bus_dedup b) = (new, m)" by fastforce
  consider "bus_closed b" | "\<not> bus_closed b" "\<not> new" | "\<not> bus_closed b" new by blast
  then show ?thesis
  proof cases
    case 2
    then show ?thesis
      by (intro bus_ok_irrelevant[OF assms]) (auto simp: emit_signal_def a bus_events_def handled_at_append emitted_def finished_def)
  next
    case 3
    let ?n = "bus_count b" and ?s = "stamp_version p sig"
    let ?b = "bus_events [Emitted ?n p ?s] (b\<lparr>bus_dedup := m, bus_count := Suc ?n\<rparr>)"
    have fresh: "handled_at (bus_log b) ?n j = []" "\<not> finished b ?n i" "\<not> emitted b ?n p' s'" for j i p' s'
      using assms unfolding bus_ok_def by blast+
    have em: "emitted ?b n' p' s' \<longleftrightarrow> emitted b n' p' s' \<or> (n', p', s') = (?n, p, ?s)" for n' p' s'
      by (auto simp: emitted_def bus_events_def)
    have fi: "finished ?b n' i \<longleftrightarrow> finished b n' i" for n' i by (simp add: finished_def bus_events_def)
    have ha: "handled_at (bus_log ?b) n' j = handled_at (bus_log b) n' j" for n' j by (simp add: bus_events_def handled_at_append)
    have acc: "accounted ?b n' p' s' \<longleftrightarrow> accounted b n' p' s'" for n' p' s'
      by (rule accounted_other) (auto simp: ha fi, simp_all add: bus_events_def)
    have "bus_ok {?n} ?b"
      using assms fresh(3) unfolding bus_ok_def acc ha fi em by (auto simp: bus_events_def less_Suc_eq)
    moreover have "progress ?b ?n p ?s 0" by (simp add: progress_def ha fresh)
    ultimately have "bus_ok {} (continue_emission ?n p ?s 0 ?b)"
      using fresh(2) fi em by (intro continue_ok) auto
    then show ?thesis using 3 by (simp add: emit_signal_def a Let_def)
  qed (use assms in \<open>simp add: emit_signal_def\<close>)
qed

lemma settle_emission_ok:
  assumes "bus_ok {} b" and "settle_emission k ok b = Some b'"
  shows "bus_ok {} b'"
proof -
  obtain e where k: "k < length (bus_emissions b)" and e: "bus_emissions b ! k = e"
    using assms(2) by (auto simp: settle_emission_def jat_def split: if_splits)
  let ?rest = "take k (bus_emissions b) @ drop (Suc k) (bus_emissions b)"
  let ?b0 = "b\<lparr>bus_emissions := ?rest\<rparr>"
  define b1 where "b1 = (if ok then ?b0 else bus_events [BusHandlerError (em_consumer e)] ?b0)"
  let ?n = "em_number e" and ?p = "em_producer e" and ?s = "em_signal e"
  have split: "bus_emissions b = take k (bus_emissions b) @ e # drop (Suc k) (bus_emissions b)" using id_take_nth_drop[OF k] e by simp
  have mem: "x \<in> set (bus_emissions b) \<longleftrightarrow> x = e \<or> x \<in> set ?rest" for x by (subst split) auto
  have dist: "distinct (map em_number (take k (bus_emissions b) @ e # drop (Suc k) (bus_emissions b)))"
    using assms(1) unfolding bus_ok_def split[symmetric] by blast
  then have n: "?n \<notin> em_number ` set ?rest" and dist': "distinct (map em_number ?rest)" by auto
  have same: "emitted b1 n' p' s' = emitted b n' p' s'" "finished b1 n' i = finished b n' i"
    "handled_at (bus_log b1) n' j = handled_at (bus_log b) n' j" "bus_count b1 = bus_count b" "bus_consumers b1 = bus_consumers b"
    "bus_emissions b1 = ?rest" for n' p' s' i j
    by (auto simp: b1_def emitted_def finished_def bus_events_def handled_at_append)
  have em: "emitted b ?n ?p ?s" using assms(1) mem[of e] unfolding bus_ok_def by blast
  then have "accounted b ?n ?p ?s" using assms(1) unfolding bus_ok_def by blast
  moreover have "?n \<in> em_number ` set (bus_emissions b)" using mem[of e] by blast
  ultimately obtain e' where e': "e' \<in> set (bus_emissions b)" "emission_of e' = (?n, ?p, ?s)" "progress b ?n ?p ?s (Suc (em_place e'))"
      "\<forall>i. \<not> finished b ?n i"
    unfolding accounted_def by blast
  have "em_number e' = ?n" using e'(2) by (simp add: emission_of_def)
  then have "e' \<notin> set ?rest" using n by (metis image_eqI)
  then have ee: "e' = e" using mem[of e'] e'(1) by blast
  have acc: "accounted b1 m p' s'" if "accounted b m p' s'" "m \<noteq> ?n" for m p' s'
  proof -
    have "accounted b1 m p' s' \<longleftrightarrow> accounted b m p' s'"
    proof (rule accounted_other)
      show "x \<in> set (bus_emissions b1) \<longleftrightarrow> x \<in> set (bus_emissions b)" if "em_number x = m" for x
        using that \<open>m \<noteq> ?n\<close> mem[of x] unfolding same by blast
    qed (simp_all only: same)
    then show ?thesis using that by simp
  qed
  have "bus_ok {?n} b1"
    unfolding bus_ok_def
  proof (intro conjI)
    show "\<forall>x \<in> set (bus_emissions b1). em_number x \<notin> {?n} \<and> emitted b1 (em_number x) (em_producer x) (em_signal x)"
    proof (intro ballI conjI)
      fix x assume "x \<in> set (bus_emissions b1)"
      then have x: "x \<in> set ?rest" by (simp only: same)
      then show "em_number x \<notin> {?n}" using n by (metis image_eqI singletonD)
      have "x \<in> set (bus_emissions b)" using x mem[of x] by blast
      then show "emitted b1 (em_number x) (em_producer x) (em_signal x)" using assms(1) unfolding bus_ok_def same by blast
    qed
    show "\<forall>m p' s'. emitted b1 m p' s' \<longrightarrow> m < bus_count b1 \<and> (m \<notin> {?n} \<longrightarrow> accounted b1 m p' s')"
      using assms(1) acc unfolding bus_ok_def same by blast
  qed (use assms(1) dist' in \<open>unfold bus_ok_def same, blast+\<close>)
  moreover have "progress b1 ?n ?p ?s (Suc (em_place e))" using e'(3) ee by (simp add: progress_log[of b1 b] same)
  ultimately have "bus_ok {} (continue_emission ?n ?p ?s (Suc (em_place e)) b1)"
    using em e'(4) by (intro continue_ok) (simp_all add: same)
  moreover have "b' = continue_emission ?n ?p ?s (Suc (em_place e)) b1"
    using assms(2) k e by (simp add: settle_emission_def jat_def Let_def b1_def)
  ultimately show ?thesis by simp
qed

lemma bus_step_ok:
  assumes "bus_ok {} b" and "bus_step opts l b = Some b'"
  shows "bus_ok {} b'"
proof (cases l)
  case (RegisterConsumer c)
  then show ?thesis
    using assms bus_ok_consumers[OF assms(1) evolves_set[of "bus_consumers b" "co_id c" c]]
    by (auto simp: registerConsumer_def split: sum.splits if_splits)
next
  case (DisposeConsumer i)
  then show ?thesis using assms(2) bus_ok_consumers[OF assms(1) evolves_delete] by (auto simp: dispose_consumer_def)
next
  case Clear
  then show ?thesis
    using assms(2) bus_ok_irrelevant[OF bus_ok_consumers[OF assms(1) evolves_clear], of b']
    by (auto simp: clear_bus_def emitted_def finished_def split: if_splits)
next
  case (RegisterProducer p)
  then show ?thesis using assms(2)
    by (intro bus_ok_irrelevant[OF assms(1)]) (auto simp: registerProducer_def emitted_def finished_def split: sum.splits if_splits)
next
  case (StartProducer p)
  then show ?thesis using assms(2)
    by (intro bus_ok_irrelevant[OF assms(1)]) (auto simp: start_producer_def bus_events_def handled_at_append emitted_def finished_def split: if_splits)
next
  case (DisposeProducer i)
  then show ?thesis using assms(2)
    by (intro bus_ok_irrelevant[OF assms(1)]) (auto simp: dispose_producer_def bus_events_def handled_at_append emitted_def finished_def split: if_splits)
next
  case Close
  have "handled_at (map StopCalled ks) n j = []" for ks :: "string list" and n j
    by (induction ks) simp_all
  then show ?thesis using assms(2) Close
    by (intro bus_ok_irrelevant[OF assms(1)]) (auto simp: close_bus_def bus_events_def handled_at_append emitted_def finished_def split: if_splits)
next
  case (SettleEmission k ok)
  then show ?thesis using assms(2) settle_emission_ok[OF assms(1), of k ok b'] by simp
qed (use assms emit_ok in auto)

lemma bus_reach_ok: "bus_reach opts b \<Longrightarrow> bus_ok {} b"
proof (induction rule: bus_reach.induct)
  case b_new
  show ?case by (simp add: bus_ok_def new_bus_def emitted_def finished_def)
qed (rule bus_step_ok)

text \<open>
  The bus delivers to exactly those who asked, once. Whatever consumers come and go and however
  emissions overlap, a consumer's place hears of an emission at most once, with the signal as
  stamped, and only if its type, version pin and filter accept it; and when the emission is
  finished, every consumer that held one of the places looked at and is still registered has
  handled the signal if it wants it.
\<close>
theorem bus_delivers_exactly:
  assumes "bus_reach opts b" and "Emitted n p s \<in> set (bus_log b)"
  shows "(\<forall>j. handled_at (bus_log b) n j = [] \<or> (\<exists>c. handled_at (bus_log b) n j = [(c, s)] \<and> wants p s c)) \<and>
    (\<forall>i j k c. Finished n i \<in> set (bus_log b) \<and> j < i \<and> bus_consumers b ! j = Some (k, c) \<and> wants p s c \<longrightarrow>
       handled_at (bus_log b) n j = [(c, s)])"
proof -
  have "accounted b n p s" using bus_reach_ok[OF assms(1)] assms(2) by (simp add: bus_ok_def emitted_def)
  then obtain d where d: "progress b n p s d" "\<forall>i. finished b n i \<longrightarrow> i = d"
    unfolding accounted_def by blast
  then show ?thesis unfolding progress_def finished_def by blast
qed

definition sample_producer :: producer where
  "sample_producer = \<lparr>pr_id = ''p'', pr_source = ''s'', pr_signalType = ''trade'', pr_signalVersion = ''2''\<rparr>"

definition sample_consumer :: "string \<Rightarrow> string option \<Rightarrow> unit consumer" where
  "sample_consumer i pin = \<lparr>co_id = i, co_signalType = Some ''trade'', co_versionPin = pin, co_filter = None\<rparr>"

definition sample_bus_run :: "unit bus_label list" where
  "sample_bus_run = [RegisterConsumer (sample_consumer ''a'' (Some ''1'')), RegisterConsumer (sample_consumer ''b'' None),
     Emit sample_producer \<lparr>sl_signalId = ''i'', sl_ts = 0, sl_slot = 0, sl_signature = ''s'', sl_programId = Abs_pubkey (replicate 32 0),
       sl_kind = ''k'', sl_venue = None, sl_decoded = (), sl_signalVersion = None\<rparr> 0 0,
     RegisterConsumer (sample_consumer ''c'' None), DisposeConsumer ''a'', SettleEmission 0 True, SettleEmission 0 False]"

definition sample_stamped :: "unit signal" where
  "sample_stamped = \<lparr>sl_signalId = ''i'', sl_ts = 0, sl_slot = 0, sl_signature = ''s'', sl_programId = Abs_pubkey (replicate 32 0),
       sl_kind = ''k'', sl_venue = None, sl_decoded = (), sl_signalVersion = Some ''2''\<rparr>"

definition sample_bus :: "unit signal_bus" where
  "sample_bus = the (bus_steps \<lparr>bo_dedupWindow = 5, bo_dedupTtlMs = 10\<rparr> sample_bus_run new_bus)"

lemma sample_bus_final:
  "\<exists>b. bus_steps \<lparr>bo_dedupWindow = 5, bo_dedupTtlMs = 10\<rparr> sample_bus_run new_bus = Some b \<and>
     bus_log b = [Emitted 0 sample_producer sample_stamped, VersionMismatch ''a'' ''p'' ''1'' ''2'', Handled 0 1 (sample_consumer ''b'' None) sample_stamped,
       Handled 0 2 (sample_consumer ''c'' None) sample_stamped, BusHandlerError ''c'', Finished 0 3] \<and>
     bus_consumers b = [None, Some (''b'', sample_consumer ''b'' None), Some (''c'', sample_consumer ''c'' None)]"
  by (simp add: sample_bus_run_def new_bus_def registerConsumer_def lm_has_def lm_set_def lm_delete_def has_key_def emit_signal_def dedup_admit_def
      remember_def jm_has_def Let_def continue_emission_def bus_events_def sample_consumer_def sample_producer_def stamp_version_def type_differs_def
      pin_differs_def filtered_out_def mismatch_event_def dispose_consumer_def settle_emission_def jat_def sample_stamped_def)

theorem bus_delivers_exactly_witness:
  "handled_at (bus_log sample_bus) 0 2 = [(sample_consumer ''c'' None, sample_stamped)] \<and>
   handled_at (bus_log sample_bus) 0 0 = []"
proof -
  let ?o = "\<lparr>bo_dedupWindow = 5, bo_dedupTtlMs = 10\<rparr>"
  obtain b where b: "bus_steps ?o sample_bus_run new_bus = Some b"
    "bus_log b = [Emitted 0 sample_producer sample_stamped, VersionMismatch ''a'' ''p'' ''1'' ''2'', Handled 0 1 (sample_consumer ''b'' None) sample_stamped,
       Handled 0 2 (sample_consumer ''c'' None) sample_stamped, BusHandlerError ''c'', Finished 0 3]"
    "bus_consumers b = [None, Some (''b'', sample_consumer ''b'' None), Some (''c'', sample_consumer ''c'' None)]"
    using sample_bus_final by blast
  have r: "bus_reach ?o b" by (rule bus_steps_reach[OF b_new b(1)])
  have "wants sample_producer sample_stamped (sample_consumer ''c'' None)"
    by (simp add: wants_def sample_consumer_def sample_producer_def)
  moreover have "Emitted 0 sample_producer sample_stamped \<in> set (bus_log b)" "Finished 0 3 \<in> set (bus_log b)"
    "bus_consumers b ! 2 = Some (''c'', sample_consumer ''c'' None)" by (simp_all add: b(2,3))
  ultimately have "handled_at (bus_log b) 0 2 = [(sample_consumer ''c'' None, sample_stamped)]"
    using bus_delivers_exactly[OF r, of 0 sample_producer sample_stamped] by force
  then show ?thesis by (simp add: sample_bus_def b(1,2)) (simp add: handled_at_def)
qed

end
