(* ===== verification/Geyser.thy ===== *)
theory Geyser
  imports Prelude "HOL-Library.Sublist" "HOL-Library.Multiset"
begin

text \<open>
  \<open>packages/solana-connectivity/src/geyser-client.ts\<close> with the interface of \<open>checkpoint-store.ts\<close>: one
  subscription to a Geyser stream, with its bounded queue, the drain loop that awaits the handler,
  gap detection and checkpoints. The gRPC stream, the handler, the store and the listeners are the
  environment: what they do arrives as labels, in any order the code allows. \<open>'d\<close> is the content of
  an update, \<open>'r\<close> the filters of a request.
\<close>

section \<open>The client\<close>

record checkpoint =
  ck_lastSlot :: int
  ck_updateCount :: nat
  ck_timestamp :: int   \<comment> \<open>milliseconds; the code stores their ISO form\<close>

text \<open>The slot of a slot update, once \<open>Number\<close> has read it.\<close>

record 'd geyser_update =
  gu_slot :: "nat option"
  gu_data :: 'd

datatype geyser_error = NoEndpoint | BadCapacity | BadCheckpointEvery

record geyser_options =
  go_url :: string
  go_checkpointKey :: "string option"
  go_queueCapacity :: "int option"
  go_checkpointEvery :: "int option"

record geyser_client =
  gc_key :: string
  gc_queueCapacity :: nat
  gc_checkpointEvery :: nat

definition DEFAULT_QUEUE_CAPACITY :: int where "DEFAULT_QUEUE_CAPACITY = 1000"
definition DEFAULT_CHECKPOINT_EVERY :: int where "DEFAULT_CHECKPOINT_EVERY = 100"

definition new_client :: "geyser_options \<Rightarrow> geyser_error + geyser_client" where
  "new_client opts =
     (if go_url opts = [] then Inl NoEndpoint
      else let queueCapacity = (case go_queueCapacity opts of Some n \<Rightarrow> n | None \<Rightarrow> DEFAULT_QUEUE_CAPACITY);
               checkpointEvery = (case go_checkpointEvery opts of Some n \<Rightarrow> n | None \<Rightarrow> DEFAULT_CHECKPOINT_EVERY)
           in if queueCapacity < 1 then Inl BadCapacity
              else if checkpointEvery < 1 then Inl BadCheckpointEvery
              else Inr \<lparr>gc_key = (case go_checkpointKey opts of Some k \<Rightarrow> k | None \<Rightarrow> go_url opts),
                        gc_queueCapacity = nat queueCapacity, gc_checkpointEvery = nat checkpointEvery\<rparr>)"

datatype commitment = Processed | Confirmed | Finalized

record 'r subscribe_request =
  sr_accounts :: "'r option"
  sr_slots :: "'r option"
  sr_transactions :: "'r option"
  sr_commitment :: "commitment option"

record 'r wire_request =
  wr_accounts :: 'r
  wr_slots :: 'r
  wr_transactions :: 'r
  wr_empty :: "'r list"   \<comment> \<open>\<open>transactionsStatus\<close>, \<open>blocks\<close>, \<open>blocksMeta\<close>, \<open>entry\<close>\<close>
  wr_commitment :: "nat option"

definition encodeSubscribeRequest :: "'r \<Rightarrow> 'r subscribe_request \<Rightarrow> 'r wire_request" where
  "encodeSubscribeRequest none req =
     \<lparr>wr_accounts = (case sr_accounts req of Some a \<Rightarrow> a | None \<Rightarrow> none), wr_slots = (case sr_slots req of Some a \<Rightarrow> a | None \<Rightarrow> none),
      wr_transactions = (case sr_transactions req of Some a \<Rightarrow> a | None \<Rightarrow> none), wr_empty = [none, none, none, none],
      wr_commitment = (case sr_commitment req of Some Processed \<Rightarrow> Some 0 | Some Confirmed \<Rightarrow> Some 1 | Some Finalized \<Rightarrow> Some 2 | None \<Rightarrow> None)\<rparr>"

section \<open>A subscription\<close>

datatype 'd geyser_event =
    DroppedEvent nat int | GapEvent int int | ErrorEvent string | UpdateEvent "'d geyser_update" | ClosedEvent

text \<open>What happens, in order: the events, and the steps the statements speak of.\<close>

datatype 'd geyser_log =
    Emitted "'d geyser_event"
  | Received "'d geyser_update"
  | Discarded "'d geyser_update option"
  | Taken "'d geyser_update"
  | Handled "'d geyser_update"
  | SeededBy checkpoint
  | SaveBegun checkpoint
  | Unhandled   \<comment> \<open>a listener's exception left the drain loop\<close>

text \<open>What \<open>queueMicrotask\<close> was given: to emit an error or \<open>closed\<close>.\<close>

datatype microtask = LaterError string | LaterClosed

fun microtask_event :: "microtask \<Rightarrow> 'd geyser_event" where
  "microtask_event (LaterError e) = ErrorEvent e"
| "microtask_event LaterClosed = ClosedEvent"

text \<open>The call the drain loop awaits.\<close>

datatype 'd drain_point = AtGap "'d geyser_update" nat | AtHandler "'d geyser_update" | AtSave

record 'd subscription =
  sub_queue :: "'d geyser_update list"
  sub_lastSlot :: int
  sub_updateCount :: nat
  sub_droppedCount :: nat
  sub_loadedCheckpoint :: "checkpoint option"
  sub_draining :: "'d drain_point option"
  sub_closed :: bool
  sub_stream :: bool     \<comment> \<open>whether the stream was opened and has its listeners\<close>
  sub_loading :: bool    \<comment> \<open>the load of the checkpoint is under way\<close>
  sub_microtasks :: "microtask list"
  sub_log :: "'d geyser_log list"

text \<open>
  \<open>ge_throws\<close> says whether some listener throws on an event (an \<open>error\<close> event that has no listener
  throws as well); it may depend on everything that happened before.
\<close>

record 'd geyser_env =
  ge_capacity :: nat
  ge_checkpointEvery :: nat
  ge_store :: bool
  ge_onGap :: bool
  ge_throws :: "'d geyser_log list \<Rightarrow> 'd geyser_event \<Rightarrow> bool"

definition log_geyser :: "'d geyser_log \<Rightarrow> 'd subscription \<Rightarrow> 'd subscription" where
  "log_geyser e s = s\<lparr>sub_log := sub_log s @ [e]\<rparr>"

text \<open>\<open>this.emit\<close>: whether it throws, and the state after it.\<close>

definition emit_event :: "'d geyser_env \<Rightarrow> 'd geyser_event \<Rightarrow> 'd subscription \<Rightarrow> bool \<times> 'd subscription" where
  "emit_event env ev s = (ge_throws env (sub_log s) ev, log_geyser (Emitted ev) s)"

definition abort_drain :: "'d subscription \<Rightarrow> 'd subscription" where
  "abort_drain s = log_geyser Unhandled (s\<lparr>sub_draining := None\<rparr>)"

text \<open>Emit, and go on unless a listener throws.\<close>

definition emitting :: "'d geyser_env \<Rightarrow> 'd geyser_event \<Rightarrow> ('d subscription \<Rightarrow> 'd subscription) \<Rightarrow> 'd subscription \<Rightarrow> 'd subscription" where
  "emitting env ev k s = (case emit_event env ev s of (True, s) \<Rightarrow> abort_drain s | (False, s) \<Rightarrow> k s)"

definition on_failure :: "'d geyser_env \<Rightarrow> string option \<Rightarrow> ('d subscription \<Rightarrow> 'd subscription) \<Rightarrow> 'd subscription \<Rightarrow> 'd subscription" where
  "on_failure env res k s = (case res of Some err \<Rightarrow> emitting env (ErrorEvent err) k s | None \<Rightarrow> k s)"

definition raise_slot :: "nat \<Rightarrow> 'd subscription \<Rightarrow> 'd subscription" where
  "raise_slot slot s = (if int slot > sub_lastSlot s then s\<lparr>sub_lastSlot := int slot\<rparr> else s)"

definition call_handler :: "'d geyser_update \<Rightarrow> 'd subscription \<Rightarrow> 'd subscription" where
  "call_handler u s = log_geyser (Handled u) (s\<lparr>sub_draining := Some (AtHandler u)\<rparr>)"

text \<open>An iteration of the drain loop, up to the first call it awaits.\<close>

definition drain_next :: "'d geyser_env \<Rightarrow> 'd subscription \<Rightarrow> 'd subscription" where
  "drain_next env s =
     (case sub_queue s of
        [] \<Rightarrow> s\<lparr>sub_draining := None\<rparr>
      | u # rest \<Rightarrow>
          if sub_closed s then s\<lparr>sub_draining := None\<rparr>
          else (let s = log_geyser (Taken u) (s\<lparr>sub_queue := rest\<rparr>) in
                case gu_slot u of
                  None \<Rightarrow> call_handler u s
                | Some slot \<Rightarrow>
                    if sub_lastSlot s \<ge> 0 \<and> int slot > sub_lastSlot s + 1
                    then emitting env (GapEvent (sub_lastSlot s + 1) (int slot))
                      (\<lambda>s. if ge_onGap env then s\<lparr>sub_draining := Some (AtGap u slot)\<rparr> else call_handler u (raise_slot slot s)) s
                    else call_handler u (raise_slot slot s)))"

definition drain :: "'d geyser_env \<Rightarrow> 'd subscription \<Rightarrow> 'd subscription" where
  "drain env s = (if sub_draining s \<noteq> None then s else drain_next env s)"

definition enqueue_update :: "'d geyser_env \<Rightarrow> int \<Rightarrow> 'd geyser_update \<Rightarrow> 'd subscription \<Rightarrow> bool \<times> 'd subscription" where
  "enqueue_update env now u s =
     (if length (sub_queue s) \<ge> ge_capacity env
      then (let s = log_geyser (Discarded (case sub_queue s of u # _ \<Rightarrow> Some u | [] \<Rightarrow> None))
                  (s\<lparr>sub_queue := tl (sub_queue s), sub_droppedCount := sub_droppedCount s + 1\<rparr>)
            in case emit_event env (DroppedEvent (sub_droppedCount s) now) s of
                 (True, s) \<Rightarrow> (True, s)
               | (False, s) \<Rightarrow> (False, s\<lparr>sub_queue := sub_queue s @ [u]\<rparr>))
      else (False, s\<lparr>sub_queue := sub_queue s @ [u]\<rparr>))"

definition on_data :: "'d geyser_env \<Rightarrow> int \<Rightarrow> 'd geyser_update \<Rightarrow> 'd subscription \<Rightarrow> 'd subscription" where
  "on_data env now u s =
     (if sub_closed s then s
      else case enqueue_update env now u (log_geyser (Received u) s) of
             (True, s) \<Rightarrow> s
           | (False, s) \<Rightarrow> drain env s)"

section \<open>Returns of awaited calls\<close>

definition gap_done :: "'d geyser_env \<Rightarrow> string option \<Rightarrow> 'd geyser_update \<Rightarrow> nat \<Rightarrow> 'd subscription \<Rightarrow> 'd subscription" where
  "gap_done env res u slot = on_failure env res (\<lambda>s. call_handler u (raise_slot slot s))"

definition after_update :: "'d geyser_env \<Rightarrow> int \<Rightarrow> 'd subscription \<Rightarrow> 'd subscription" where
  "after_update env now s =
     (let s = s\<lparr>sub_updateCount := sub_updateCount s + 1\<rparr>
      in if ge_store env \<and> sub_lastSlot s \<ge> 0 \<and> sub_updateCount s mod ge_checkpointEvery env = 0
         then log_geyser (SaveBegun \<lparr>ck_lastSlot = sub_lastSlot s, ck_updateCount = sub_updateCount s, ck_timestamp = now\<rparr>)
           (s\<lparr>sub_draining := Some AtSave\<rparr>)
         else drain_next env s)"

definition handler_done :: "'d geyser_env \<Rightarrow> string option \<Rightarrow> int \<Rightarrow> 'd geyser_update \<Rightarrow> 'd subscription \<Rightarrow> 'd subscription" where
  "handler_done env res now u = on_failure env res (emitting env (UpdateEvent u) (after_update env now))"

definition save_done :: "'d geyser_env \<Rightarrow> string option \<Rightarrow> 'd subscription \<Rightarrow> 'd subscription" where
  "save_done env res = on_failure env res (drain_next env)"

section \<open>Opening and closing\<close>

text \<open>How far \<open>start\<close> gets: \<open>createClient\<close>, \<open>subscribe\<close> or \<open>write\<close> may throw.\<close>

datatype open_result = ClientFails string | StreamFails string | WriteFails string | Opened

definition new_subscription :: "'d subscription" where
  "new_subscription = \<lparr>sub_queue = [], sub_lastSlot = -1, sub_updateCount = 0, sub_droppedCount = 0, sub_loadedCheckpoint = None,
     sub_draining = None, sub_closed = False, sub_stream = False, sub_loading = False, sub_microtasks = [], sub_log = []\<rparr>"

definition start_subscription :: "'d geyser_env \<Rightarrow> open_result \<Rightarrow> 'd subscription \<Rightarrow> 'd subscription" where
  "start_subscription env res s =
     (let s = s\<lparr>sub_loading := ge_store env\<rparr>
      in case res of
           ClientFails e \<Rightarrow> s\<lparr>sub_microtasks := sub_microtasks s @ [LaterError e]\<rparr>
         | StreamFails e \<Rightarrow> s\<lparr>sub_microtasks := sub_microtasks s @ [LaterError e]\<rparr>
         | WriteFails e \<Rightarrow> s\<lparr>sub_stream := True, sub_microtasks := sub_microtasks s @ [LaterError e]\<rparr>
         | Opened \<Rightarrow> s\<lparr>sub_stream := True\<rparr>)"

definition load_done :: "'d geyser_env \<Rightarrow> string + checkpoint option \<Rightarrow> 'd subscription \<Rightarrow> 'd subscription" where
  "load_done env res s =
     (let s = s\<lparr>sub_loading := False\<rparr>
      in case res of
           Inl e \<Rightarrow> snd (emit_event env (ErrorEvent e) s)
         | Inr None \<Rightarrow> s
         | Inr (Some c) \<Rightarrow>
             if sub_lastSlot s < 0
             then log_geyser (SeededBy c) (s\<lparr>sub_loadedCheckpoint := Some c, sub_lastSlot := ck_lastSlot c, sub_updateCount := ck_updateCount c\<rparr>)
             else s)"

definition close_subscription :: "'d subscription \<Rightarrow> 'd subscription" where
  "close_subscription s = (if sub_closed s then s else s\<lparr>sub_closed := True, sub_microtasks := sub_microtasks s @ [LaterClosed]\<rparr>)"

definition teardown :: "'d subscription \<Rightarrow> 'd subscription" where
  "teardown s = (if sub_closed s then s else s\<lparr>sub_closed := True, sub_microtasks := sub_microtasks s @ [LaterClosed]\<rparr>)"

definition stream_error :: "'d geyser_env \<Rightarrow> string \<Rightarrow> 'd subscription \<Rightarrow> 'd subscription" where
  "stream_error env e s = (if sub_closed s then s else snd (emit_event env (ErrorEvent e) s))"

text \<open>\<open>subscribe\<close>: an aborted signal closes the subscription before it starts.\<close>

definition subscribe_geyser :: "'d geyser_env \<Rightarrow> bool \<Rightarrow> open_result \<Rightarrow> 'd subscription" where
  "subscribe_geyser env aborted res =
     (if aborted then close_subscription new_subscription else start_subscription env res new_subscription)"

datatype 'd geyser_label =
    Data "'d geyser_update" int | StreamError string | StreamEnd | Close | LoadDone "string + checkpoint option"
  | GapDone "string option" | HandlerDone "string option" int | SaveDone "string option" | Microtask

fun geyser_step :: "'d geyser_env \<Rightarrow> 'd geyser_label \<Rightarrow> 'd subscription \<Rightarrow> 'd subscription option" where
  "geyser_step env (Data u now) s = (if sub_stream s then Some (on_data env now u s) else None)"
| "geyser_step env (StreamError e) s = (if sub_stream s then Some (stream_error env e s) else None)"
| "geyser_step env StreamEnd s = (if sub_stream s then Some (teardown s) else None)"
| "geyser_step env Close s = Some (close_subscription s)"
| "geyser_step env (LoadDone res) s = (if sub_loading s then Some (load_done env res s) else None)"
| "geyser_step env (GapDone res) s = (case sub_draining s of Some (AtGap u slot) \<Rightarrow> Some (gap_done env res u slot s) | _ \<Rightarrow> None)"
| "geyser_step env (HandlerDone res now) s = (case sub_draining s of Some (AtHandler u) \<Rightarrow> Some (handler_done env res now u s) | _ \<Rightarrow> None)"
| "geyser_step env (SaveDone res) s = (case sub_draining s of Some AtSave \<Rightarrow> Some (save_done env res s) | _ \<Rightarrow> None)"
| "geyser_step env Microtask s =
     (case sub_microtasks s of m # ms \<Rightarrow> Some (snd (emit_event env (microtask_event m) (s\<lparr>sub_microtasks := ms\<rparr>))) | [] \<Rightarrow> None)"

fun geyser_steps :: "'d geyser_env \<Rightarrow> 'd geyser_label list \<Rightarrow> 'd subscription \<Rightarrow> 'd subscription option" where
  "geyser_steps env [] s = Some s"
| "geyser_steps env (l # ls) s = Option.bind (geyser_step env l s) (geyser_steps env ls)"

inductive geyser_reach :: "'d geyser_env \<Rightarrow> 'd subscription \<Rightarrow> bool" for env where
  subscribed: "geyser_reach env (subscribe_geyser env aborted res)"
| step: "geyser_reach env s \<Longrightarrow> geyser_step env l s = Some s' \<Longrightarrow> geyser_reach env s'"

section \<open>The history\<close>

definition received :: "'d geyser_log list \<Rightarrow> 'd geyser_update list" where
  "received log = concat (map (\<lambda>e. case e of Received u \<Rightarrow> [u] | _ \<Rightarrow> []) log)"

definition taken :: "'d geyser_log list \<Rightarrow> 'd geyser_update list" where
  "taken log = concat (map (\<lambda>e. case e of Taken u \<Rightarrow> [u] | _ \<Rightarrow> []) log)"

definition handled :: "'d geyser_log list \<Rightarrow> 'd geyser_update list" where
  "handled log = concat (map (\<lambda>e. case e of Handled u \<Rightarrow> [u] | _ \<Rightarrow> []) log)"

definition discarded :: "'d geyser_log list \<Rightarrow> 'd geyser_update list" where
  "discarded log = concat (map (\<lambda>e. case e of Discarded (Some u) \<Rightarrow> [u] | _ \<Rightarrow> []) log)"

definition reported :: "'d geyser_log list \<Rightarrow> (int \<times> int) list" where
  "reported log = concat (map (\<lambda>e. case e of Emitted (GapEvent f t) \<Rightarrow> [(f, t)] | _ \<Rightarrow> []) log)"

text \<open>The slots seen: of the checkpoint that was loaded, and of the slot updates taken off the queue.\<close>

definition marks :: "'d geyser_log list \<Rightarrow> int list" where
  "marks log = concat (map (\<lambda>e. case e of
       SeededBy c \<Rightarrow> if ck_lastSlot c \<ge> 0 then [ck_lastSlot c] else []
     | Taken u \<Rightarrow> (case gu_slot u of Some slot \<Rightarrow> [int slot] | None \<Rightarrow> [])
     | _ \<Rightarrow> []) log)"

text \<open>The running count of updates.\<close>

definition counted :: "'d geyser_log list \<Rightarrow> nat" where
  "counted log = foldl (\<lambda>n e. case e of SeededBy c \<Rightarrow> ck_updateCount c | Emitted (UpdateEvent _) \<Rightarrow> Suc n | _ \<Rightarrow> n) 0 log"

lemmas history_defs = received_def taken_def handled_def discarded_def reported_def marks_def counted_def

lemma history_Nil [simp]: "received [] = []" "taken [] = []" "handled [] = []" "discarded [] = []" "reported [] = []" "marks [] = []" "counted [] = 0"
  by (simp_all add: history_defs)

lemma history_append [simp]:
  "received (log @ log') = received log @ received log'" "taken (log @ log') = taken log @ taken log'"
  "handled (log @ log') = handled log @ handled log'" "discarded (log @ log') = discarded log @ discarded log'"
  "reported (log @ log') = reported log @ reported log'" "marks (log @ log') = marks log @ marks log'"
  by (simp_all add: history_defs)

lemma history_Cons [simp]:
  "received (e # log) = (case e of Received u \<Rightarrow> [u] | _ \<Rightarrow> []) @ received log"
  "taken (e # log) = (case e of Taken u \<Rightarrow> [u] | _ \<Rightarrow> []) @ taken log"
  "handled (e # log) = (case e of Handled u \<Rightarrow> [u] | _ \<Rightarrow> []) @ handled log"
  "discarded (e # log) = (case e of Discarded (Some u) \<Rightarrow> [u] | _ \<Rightarrow> []) @ discarded log"
  "reported (e # log) = (case e of Emitted (GapEvent f t) \<Rightarrow> [(f, t)] | _ \<Rightarrow> []) @ reported log"
  "marks (e # log) = (case e of
       SeededBy c \<Rightarrow> if ck_lastSlot c \<ge> 0 then [ck_lastSlot c] else []
     | Taken u \<Rightarrow> (case gu_slot u of Some slot \<Rightarrow> [int slot] | None \<Rightarrow> [])
     | _ \<Rightarrow> []) @ marks log"
  by (simp_all add: history_defs)

definition count_event :: "nat \<Rightarrow> 'd geyser_log \<Rightarrow> nat" where
  "count_event n e = (case e of SeededBy c \<Rightarrow> ck_updateCount c | Emitted (UpdateEvent _) \<Rightarrow> Suc n | _ \<Rightarrow> n)"

lemma counted_snoc [simp]: "counted (log @ [e]) = count_event (counted log) e" "counted (log @ [e, e']) = count_event (count_event (counted log) e) e'"
  by (simp_all add: counted_def count_event_def[abs_def])

lemma count_event_simps [simp]:
  "count_event n (SeededBy c) = ck_updateCount c" "count_event n (Emitted (UpdateEvent u)) = Suc n" "count_event n (Emitted (GapEvent f t)) = n"
  "count_event n (Emitted (DroppedEvent k i)) = n" "count_event n (Emitted (ErrorEvent x)) = n" "count_event n (Emitted ClosedEvent) = n"
  "count_event n (Received u) = n" "count_event n (Discarded v) = n" "count_event n (Taken u) = n" "count_event n (Handled u) = n"
  "count_event n (SaveBegun c) = n" "count_event n Unhandled = n"
  by (simp_all add: count_event_def)

section \<open>Gaps between slots\<close>

text \<open>\<open>x\<close> is the first slot of its height.\<close>

definition reached :: "int list \<Rightarrow> int \<Rightarrow> bool" where
  "reached ms x \<longleftrightarrow> (\<exists>ys zs. ms = ys @ x # zs \<and> (\<forall>y \<in> set ys. y < x))"

definition in_gap :: "(int \<times> int) list \<Rightarrow> int \<Rightarrow> bool" where
  "in_gap gs x \<longleftrightarrow> (\<exists>(f, t) \<in> set gs. f \<le> x \<and> x < t)"

text \<open>Between the first and the highest slot, each slot was reached or lies in a gap, and not both; gaps follow one another.\<close>

definition timeline :: "int list \<Rightarrow> (int \<times> int) list \<Rightarrow> bool" where
  "timeline ms gs \<longleftrightarrow>
     (if ms = [] then gs = []
      else (\<forall>x. hd ms \<le> x \<and> x \<le> Max (set ms) \<longrightarrow> reached ms x \<noteq> in_gap gs x) \<and>
        (\<forall>(f, t) \<in> set gs. hd ms < f \<and> f < t \<and> t \<le> Max (set ms)) \<and> sorted_wrt (\<lambda>g g'. snd g \<le> fst g') gs)"

lemma reached_snoc: "reached (ms @ [m]) x \<longleftrightarrow> reached ms x \<or> x = m \<and> (\<forall>y \<in> set ms. y < m)"
proof
  assume "reached (ms @ [m]) x"
  then obtain ys zs where *: "ms @ [m] = ys @ x # zs" "\<forall>y \<in> set ys. y < x" by (auto simp: reached_def)
  show "reached ms x \<or> x = m \<and> (\<forall>y \<in> set ms. y < m)"
  proof (cases zs rule: rev_cases)
    case (snoc zs' z)
    then have "ms = ys @ x # zs'" using *(1) by simp
    then show ?thesis using *(2) by (auto simp: reached_def)
  qed (use * in auto)
next
  assume "reached ms x \<or> x = m \<and> (\<forall>y \<in> set ms. y < m)"
  then show "reached (ms @ [m]) x" unfolding reached_def
    by (metis append.assoc append_Cons append_Nil)
qed

lemma reached_mem: "reached ms x \<Longrightarrow> x \<in> set ms"
  by (auto simp: reached_def)

lemma timeline_first: "timeline [m] []"
  by (auto simp: timeline_def reached_def in_gap_def intro: exI[of _ "[]"])

text \<open>One more slot.\<close>

lemma timeline_snoc:
  assumes "timeline ms gs" and "ms \<noteq> []"
  shows "timeline (ms @ [m]) (if m > Max (set ms) + 1 then gs @ [(Max (set ms) + 1, m)] else gs)"
proof -
  let ?M = "Max (set ms)"
  have M: "y \<le> ?M" if "y \<in> set ms" for y using that by simp
  have hd: "hd ms \<le> ?M" using assms(2) by simp
  have new: "Max (set (ms @ [m])) = max m ?M" using assms(2) by simp
  have gs: "\<forall>(f, t) \<in> set gs. hd ms < f \<and> f < t \<and> t \<le> ?M" "sorted_wrt (\<lambda>g g'. snd g \<le> fst g') gs"
    "\<And>x. hd ms \<le> x \<Longrightarrow> x \<le> ?M \<Longrightarrow> reached ms x \<noteq> in_gap gs x" using assms by (auto simp: timeline_def)
  have above: "\<not> reached ms x \<and> \<not> in_gap gs x" if "x > ?M" for x
    using that M[of x] reached_mem[of ms x] gs(1) by (fastforce simp: in_gap_def)
  have low: "(\<forall>y \<in> set ms. y < m) \<longleftrightarrow> ?M < m" using assms(2) by auto
  show ?thesis
  proof (cases "m > ?M + 1")
    case True
    have "reached (ms @ [m]) x \<noteq> in_gap (gs @ [(?M + 1, m)]) x" if "hd ms \<le> x" "x \<le> m" for x
      using that gs(3)[of x] above[of x] True low by (cases "x \<le> ?M") (auto simp: reached_snoc in_gap_def)
    then show ?thesis using True new gs(1,2) assms(2) hd by (auto simp: timeline_def sorted_wrt_append max_def)
  next
    case False
    have "reached (ms @ [m]) x \<noteq> in_gap gs x" if "hd ms \<le> x" "x \<le> max m ?M" for x
      using that gs(3)[of x] above[of x] False low by (cases "x \<le> ?M") (auto simp: reached_snoc max_def split: if_splits)
    then show ?thesis using False new gs(1,2) assms(2) by (fastforce simp: timeline_def)
  qed
qed

section \<open>The invariant\<close>

text \<open>Listeners that never throw.\<close>

definition quiet :: "'d geyser_env \<Rightarrow> bool" where
  "quiet env \<longleftrightarrow> (\<forall>log ev. \<not> ge_throws env log ev)"

lemma quiet_emitting: "quiet env \<Longrightarrow> emitting env ev k s = k (log_geyser (Emitted ev) s)"
  by (simp add: emitting_def emit_event_def quiet_def)

definition gap_pending :: "'d subscription \<Rightarrow> 'd geyser_update list" where
  "gap_pending s = (case sub_draining s of Some (AtGap u _) \<Rightarrow> [u] | _ \<Rightarrow> [])"

text \<open>\<open>m\<close> is the slot the loop has reached: while a gap callback runs, that of the update in hand.\<close>

definition slot_at :: "'d subscription \<Rightarrow> int" where
  "slot_at s = (case sub_draining s of Some (AtGap _ slot) \<Rightarrow> int slot | _ \<Rightarrow> sub_lastSlot s)"

definition slots_ok :: "int \<Rightarrow> 'd subscription \<Rightarrow> bool" where
  "slots_ok m s \<longleftrightarrow> (if marks (sub_log s) = [] then m < 0 else m = Max (set (marks (sub_log s))) \<and> 0 \<le> m) \<and>
     timeline (marks (sub_log s)) (reported (sub_log s))"

definition flow_ok :: "'d geyser_env \<Rightarrow> 'd geyser_update list \<Rightarrow> 'd subscription \<Rightarrow> bool" where
  "flow_ok env new s \<longleftrightarrow> length (sub_queue s) \<le> ge_capacity env \<and>
     subseq (taken (sub_log s) @ sub_queue s @ new) (received (sub_log s)) \<and>
     mset (received (sub_log s)) = mset (taken (sub_log s)) + mset (discarded (sub_log s)) + mset (sub_queue s) + mset new \<and>
     sub_droppedCount s = length (discarded (sub_log s))"

definition saved_ok :: "'d geyser_env \<Rightarrow> 'd geyser_log list \<Rightarrow> checkpoint \<Rightarrow> bool" where
  "saved_ok env log c \<longleftrightarrow> marks log \<noteq> [] \<and> ck_lastSlot c = Max (set (marks log)) \<and> timeline (marks log) (reported log) \<and>
     taken log = handled log \<and> ck_updateCount c = counted log \<and> ck_updateCount c mod ge_checkpointEvery env = 0"

definition saves_ok :: "'d geyser_env \<Rightarrow> 'd geyser_log list \<Rightarrow> bool" where
  "saves_ok env log \<longleftrightarrow> (\<forall>pre c post. log = pre @ SaveBegun c # post \<longrightarrow> saved_ok env pre c)"

lemma saves_ok_snoc: "saves_ok env (log @ [e]) \<longleftrightarrow> saves_ok env log \<and> (case e of SaveBegun c \<Rightarrow> saved_ok env log c | _ \<Rightarrow> True)"
proof -
  have "log @ [e] = pre @ SaveBegun c # post \<longleftrightarrow> (e = SaveBegun c \<and> log = pre \<and> post = []) \<or> (\<exists>post'. post = post' @ [e] \<and> log = pre @ SaveBegun c # post')"
    for pre c post by (cases post rule: rev_cases) auto
  then show ?thesis unfolding saves_ok_def by (cases e) auto
qed

lemma saves_ok_two: "saves_ok env (log @ [e, e']) \<longleftrightarrow> saves_ok env (log @ [e]) \<and> (case e' of SaveBegun c \<Rightarrow> saved_ok env (log @ [e]) c | _ \<Rightarrow> True)"
  using saves_ok_snoc[of env "log @ [e]" e'] by simp

text \<open>A gap callback runs only for a slot beyond the last one.\<close>

definition ahead :: "'d subscription \<Rightarrow> bool" where
  "ahead s \<longleftrightarrow> (case sub_draining s of Some (AtGap u slot) \<Rightarrow> 0 \<le> sub_lastSlot s \<and> sub_lastSlot s < int slot | _ \<Rightarrow> True)"

lemma loop_cong:
  assumes "sub_draining s' = sub_draining s" and "sub_lastSlot s' = sub_lastSlot s"
  shows "gap_pending s' = gap_pending s" and "slot_at s' = slot_at s" and "ahead s' = ahead s"
  unfolding gap_pending_def slot_at_def ahead_def assms by (rule refl)+

definition geyser_ok :: "'d geyser_env \<Rightarrow> 'd subscription \<Rightarrow> bool" where
  "geyser_ok env s \<longleftrightarrow> flow_ok env [] s \<and> taken (sub_log s) = handled (sub_log s) @ gap_pending s \<and>
     slots_ok (slot_at s) s \<and> saves_ok env (sub_log s) \<and> sub_updateCount s = counted (sub_log s) \<and> ahead s"

text \<open>What holds between two calls: \<open>done\<close> lists the updates taken whose handler was not called yet.\<close>

definition between :: "'d geyser_env \<Rightarrow> 'd geyser_update list \<Rightarrow> 'd subscription \<Rightarrow> bool" where
  "between env us s \<longleftrightarrow> flow_ok env [] s \<and> taken (sub_log s) = handled (sub_log s) @ us \<and>
     slots_ok (sub_lastSlot s) s \<and> saves_ok env (sub_log s) \<and> sub_updateCount s = counted (sub_log s)"

lemma between_ok: "between env [] s \<Longrightarrow> gap_pending s = [] \<Longrightarrow> geyser_ok env s"
  by (cases "sub_draining s") (auto simp: between_def geyser_ok_def ahead_def gap_pending_def slot_at_def split: drain_point.splits)

lemma ok_between: "geyser_ok env s \<Longrightarrow> gap_pending s = [] \<Longrightarrow> between env [] s"
  by (cases "sub_draining s") (auto simp: between_def geyser_ok_def ahead_def gap_pending_def slot_at_def split: drain_point.splits)

text \<open>Events other than a gap leave everything as it is.\<close>

lemma between_emit:
  assumes "between env us s" and "\<And>f t. ev \<noteq> GapEvent f t" and "\<And>u. ev \<noteq> UpdateEvent u"
  shows "between env us (log_geyser (Emitted ev) s)"
  using assms by (cases ev) (auto simp: between_def flow_ok_def slots_ok_def saves_ok_snoc log_geyser_def)

lemma between_cong:
  assumes "sub_queue s' = sub_queue s" and "sub_lastSlot s' = sub_lastSlot s" and "sub_updateCount s' = sub_updateCount s"
    and "sub_droppedCount s' = sub_droppedCount s" and "sub_log s' = sub_log s"
  shows "between env us s' = between env us s"
  using assms by (simp add: between_def flow_ok_def slots_ok_def)

lemma call_handler_ok: "between env [u] s \<Longrightarrow> geyser_ok env (call_handler u s)"
  by (auto simp: between_def geyser_ok_def ahead_def flow_ok_def slots_ok_def saves_ok_snoc call_handler_def log_geyser_def gap_pending_def slot_at_def)

lemma timeline_marks:
  assumes "slots_ok m s" and "marks (sub_log s) \<noteq> [] \<longrightarrow> int slot \<le> m + 1"
  shows "timeline (marks (sub_log s) @ [int slot]) (reported (sub_log s))"
proof (cases "marks (sub_log s) = []")
  case True
  then show ?thesis using assms(1) timeline_first by (simp add: slots_ok_def timeline_def)
next
  case False
  then show ?thesis using assms timeline_snoc[of "marks (sub_log s)" "reported (sub_log s)" "int slot"] by (simp add: slots_ok_def)
qed

lemma drain_next_ok:
  assumes "quiet env" and "between env [] s"
  shows "geyser_ok env (drain_next env s)"
proof (cases "sub_queue s = [] \<or> sub_closed s")
  case True
  then have "drain_next env s = s\<lparr>sub_draining := None\<rparr>" by (auto simp: drain_next_def split: list.splits)
  then show ?thesis using assms(2) between_cong[of "s\<lparr>sub_draining := None\<rparr>" s] by (simp add: between_ok gap_pending_def)
next
  case False
  then obtain u rest where q: "sub_queue s = u # rest" by (cases "sub_queue s") auto
  let ?s = "log_geyser (Taken u) (s\<lparr>sub_queue := rest\<rparr>)"
  have flow: "flow_ok env [] ?s" using assms(2) q by (auto simp: between_def flow_ok_def log_geyser_def)
  have taken: "taken (sub_log ?s) = handled (sub_log ?s) @ [u]" using assms(2) by (auto simp: between_def log_geyser_def)
  have saves: "saves_ok env (sub_log ?s)" "sub_updateCount ?s = counted (sub_log ?s)"
    using assms(2) by (auto simp: between_def log_geyser_def saves_ok_snoc)
  have slots: "slots_ok (sub_lastSlot s) s" using assms(2) by (simp add: between_def)
  show ?thesis
  proof (cases "gu_slot u")
    case None
    then have "between env [u] ?s" using flow taken saves slots by (auto simp: between_def slots_ok_def log_geyser_def split: if_splits)
    then show ?thesis using False q None call_handler_ok by (simp add: drain_next_def Let_def)
  next
    case (Some slot)
    show ?thesis
    proof (cases "sub_lastSlot s \<ge> 0 \<and> int slot > sub_lastSlot s + 1")
      case True
      have m: "marks (sub_log s) \<noteq> []" "sub_lastSlot s = Max (set (marks (sub_log s)))"
        using slots True by (auto simp: slots_ok_def split: if_splits)
      let ?g = "log_geyser (Emitted (GapEvent (sub_lastSlot s + 1) (int slot))) ?s"
      have ahead_g: "0 \<le> sub_lastSlot ?g" "sub_lastSlot ?g < int slot" using True by (simp_all add: log_geyser_def)
      have t: "timeline (marks (sub_log ?g)) (reported (sub_log ?g))"
        using timeline_snoc[of "marks (sub_log s)" "reported (sub_log s)" "int slot"] slots m True Some
        by (simp add: slots_ok_def log_geyser_def)
      have M: "Max (set (marks (sub_log ?g))) = int slot" using m True Some by (simp add: log_geyser_def max_def)
      have sk: "slots_ok (int slot) ?g" using t M Some by (simp add: slots_ok_def log_geyser_def)
      have rest: "flow_ok env [] ?g" "taken (sub_log ?g) = handled (sub_log ?g) @ [u]" "saves_ok env (sub_log ?g)" "sub_updateCount ?g = counted (sub_log ?g)"
        using flow taken saves by (auto simp: flow_ok_def log_geyser_def saves_ok_two)
      show ?thesis
      proof (cases "ge_onGap env")
        case True
        have "geyser_ok env (?g\<lparr>sub_draining := Some (AtGap u slot)\<rparr>)"
          using sk rest ahead_g by (auto simp: geyser_ok_def ahead_def flow_ok_def slots_ok_def gap_pending_def slot_at_def split: if_splits)
        then show ?thesis using False q Some True \<open>sub_lastSlot s \<ge> 0 \<and> int slot > sub_lastSlot s + 1\<close> quiet_emitting[OF assms(1)]
          by (simp add: drain_next_def Let_def log_geyser_def)
      next
        case no: False
        have "between env [u] (raise_slot slot ?g)"
          using sk rest ahead_g by (auto simp: between_def flow_ok_def slots_ok_def raise_slot_def split: if_splits)
        then show ?thesis using False q Some True no call_handler_ok quiet_emitting[OF assms(1)]
          by (simp add: drain_next_def Let_def log_geyser_def)
      qed
    next
      case no: False
      have "marks (sub_log s) \<noteq> [] \<longrightarrow> int slot \<le> sub_lastSlot s + 1" using no slots by (auto simp: slots_ok_def split: if_splits)
      then have t: "timeline (marks (sub_log ?s)) (reported (sub_log ?s))" using timeline_marks[OF slots] Some by (simp add: log_geyser_def)
      have sk: "slots_ok (max (int slot) (sub_lastSlot s)) ?s"
        using t slots Some by (cases "marks (sub_log s) = []") (simp_all add: slots_ok_def log_geyser_def max_absorb1)
      have r: "raise_slot slot ?s = ?s\<lparr>sub_lastSlot := max (int slot) (sub_lastSlot s)\<rparr>"
        by (simp add: raise_slot_def log_geyser_def max_def)
      have "between env [u] (raise_slot slot ?s)"
        unfolding r using sk flow taken saves by (auto simp: between_def flow_ok_def slots_ok_def split: if_splits)
      then have "geyser_ok env (call_handler u (raise_slot slot ?s))" by (rule call_handler_ok)
      then show ?thesis using False q Some no by (auto simp: drain_next_def Let_def log_geyser_def)
    qed
  qed
qed

lemma on_failure_ok:
  assumes "quiet env" and "between env us s" and "\<And>s. between env us s \<Longrightarrow> geyser_ok env (k s)"
  shows "geyser_ok env (on_failure env res k s)"
  using assms between_emit[OF assms(2), of "ErrorEvent e" for e] by (auto simp: on_failure_def quiet_emitting split: option.splits)

lemma after_update_ok:
  assumes "quiet env" and "between env [] s"
  shows "geyser_ok env (emitting env (UpdateEvent u) (after_update env now) s)"
proof -
  let ?s = "(log_geyser (Emitted (UpdateEvent u)) s)\<lparr>sub_updateCount := sub_updateCount s + 1\<rparr>"
  have b: "between env [] ?s" using assms(2) by (auto simp: between_def flow_ok_def slots_ok_def saves_ok_snoc log_geyser_def)
  show ?thesis
  proof (cases "ge_store env \<and> sub_lastSlot ?s \<ge> 0 \<and> sub_updateCount ?s mod ge_checkpointEvery env = 0")
    case True
    let ?c = "\<lparr>ck_lastSlot = sub_lastSlot ?s, ck_updateCount = sub_updateCount ?s, ck_timestamp = now\<rparr>"
    have "saved_ok env (sub_log ?s) ?c" using b True by (auto simp: saved_ok_def between_def slots_ok_def split: if_splits)
    then have "geyser_ok env (log_geyser (SaveBegun ?c) (?s\<lparr>sub_draining := Some AtSave\<rparr>))"
      using b by (auto simp: geyser_ok_def ahead_def between_def flow_ok_def slots_ok_def saves_ok_two log_geyser_def gap_pending_def slot_at_def
          split: if_splits)
    then show ?thesis using True by (simp add: quiet_emitting[OF assms(1)] after_update_def Let_def log_geyser_def)
  next
    case False
    then show ?thesis using drain_next_ok[OF assms(1) b] by (auto simp: quiet_emitting[OF assms(1)] after_update_def Let_def log_geyser_def)
  qed
qed

lemma gap_done_ok:
  assumes "quiet env" and "geyser_ok env s" and "sub_draining s = Some (AtGap u slot)"
  shows "geyser_ok env (gap_done env res u slot s)"
proof -
  have k: "geyser_ok env (call_handler u (raise_slot slot s'))"
    if "flow_ok env [] s'" "taken (sub_log s') = handled (sub_log s') @ [u]" "slots_ok (int slot) s'" "saves_ok env (sub_log s')"
      "sub_updateCount s' = counted (sub_log s')" "sub_lastSlot s' < int slot" for s'
    using that by (intro call_handler_ok) (auto simp: between_def flow_ok_def slots_ok_def raise_slot_def split: if_splits)
  have ahead_s: "sub_lastSlot s < int slot" using assms(2,3) by (simp add: geyser_ok_def ahead_def)
  have s: "flow_ok env [] s" "taken (sub_log s) = handled (sub_log s) @ [u]" "slots_ok (int slot) s" "saves_ok env (sub_log s)"
    "sub_updateCount s = counted (sub_log s)" using assms(2,3) by (auto simp: geyser_ok_def ahead_def gap_pending_def slot_at_def slots_ok_def split: if_splits)
  show ?thesis
  proof (cases res)
    case None
    then show ?thesis using k s ahead_s by (simp add: gap_done_def on_failure_def)
  next
    case (Some e)
    have "flow_ok env [] (log_geyser (Emitted (ErrorEvent e)) s)" "slots_ok (int slot) (log_geyser (Emitted (ErrorEvent e)) s)"
      "saves_ok env (sub_log (log_geyser (Emitted (ErrorEvent e)) s))"
      using s by (auto simp: flow_ok_def slots_ok_def saves_ok_snoc log_geyser_def split: if_splits)
    then show ?thesis using k[of "log_geyser (Emitted (ErrorEvent e)) s"] s ahead_s Some
      by (simp add: gap_done_def on_failure_def quiet_emitting[OF assms(1)] log_geyser_def)
  qed
qed

lemma quiet_enqueue:
  assumes "quiet env"
  shows "enqueue_update env now u s = (False,
    if ge_capacity env \<le> length (sub_queue s)
    then (log_geyser (Emitted (DroppedEvent (Suc (sub_droppedCount s)) now)) (log_geyser (Discarded (case sub_queue s of u # _ \<Rightarrow> Some u | [] \<Rightarrow> None))
        (s\<lparr>sub_queue := tl (sub_queue s), sub_droppedCount := Suc (sub_droppedCount s)\<rparr>)))\<lparr>sub_queue := tl (sub_queue s) @ [u]\<rparr>
    else s\<lparr>sub_queue := sub_queue s @ [u]\<rparr>)"
  using assms by (simp add: enqueue_update_def emit_event_def quiet_def Let_def log_geyser_def)

lemma saves_ok_three: "saves_ok env (log @ [e, e', e'']) \<longleftrightarrow> saves_ok env (log @ [e, e']) \<and> (case e'' of SaveBegun c \<Rightarrow> saved_ok env (log @ [e, e']) c | _ \<Rightarrow> True)"
  using saves_ok_snoc[of env "log @ [e, e']" e''] by simp

lemma counted_three [simp]: "counted (log @ [e, e', e'']) = count_event (count_event (count_event (counted log) e) e') e''"
  by (simp add: counted_def count_event_def[abs_def])

lemma on_data_ok:
  assumes "quiet env" and "0 < ge_capacity env" and "geyser_ok env s"
  shows "geyser_ok env (on_data env now u s)"
proof (cases "sub_closed s")
  case True
  then show ?thesis using assms(3) by (simp add: on_data_def)
next
  case False
  let ?s = "log_geyser (Received u) s"
  define s' where "s' = snd (enqueue_update env now u ?s)"
  have e: "enqueue_update env now u ?s = (False, s')" using quiet_enqueue[OF assms(1)] by (simp add: s'_def)
  note q = s'_def[unfolded quiet_enqueue[OF assms(1)] snd_conv]
  have fix1: "sub_draining s' = sub_draining s \<and> sub_lastSlot s' = sub_lastSlot s \<and> sub_updateCount s' = sub_updateCount s \<and>
      taken (sub_log s') = taken (sub_log s) \<and> handled (sub_log s') = handled (sub_log s) \<and> marks (sub_log s') = marks (sub_log s) \<and>
      reported (sub_log s') = reported (sub_log s) \<and> counted (sub_log s') = counted (sub_log s)"
    unfolding q by (simp add: log_geyser_def)
  have saves: "saves_ok env (sub_log s')"
    unfolding q using assms(3) by (simp add: log_geyser_def geyser_ok_def saves_ok_snoc saves_ok_two saves_ok_three)
  have f: "flow_ok env [] s" using assms(3) by (simp add: geyser_ok_def ahead_def)
  have flow: "flow_ok env [] s'"
  proof (cases "sub_queue s")
    case Nil
    then show ?thesis unfolding q using f assms(2) by (auto simp: log_geyser_def flow_ok_def intro: list_emb_append_mono)
  next
    case (Cons v vs)
    have "subseq (taken (sub_log s) @ vs @ [u]) (received (sub_log s) @ [u])"
    proof -
      have "subseq (taken (sub_log s) @ vs) (taken (sub_log s) @ v # vs)" by (intro list_emb_append_mono) auto
      then have "subseq (taken (sub_log s) @ vs) (received (sub_log s))" using f Cons by (auto simp: flow_ok_def)
      then show ?thesis using list_emb_append_mono[of "(=)" "taken (sub_log s) @ vs" _ "[u]" "[u]"] by simp
    qed
    moreover have "subseq (taken (sub_log s) @ (v # vs) @ [u]) (received (sub_log s) @ [u])"
      using f Cons list_emb_append_mono[of "(=)" "taken (sub_log s) @ v # vs" _ "[u]" "[u]"] by (simp add: flow_ok_def)
    ultimately show ?thesis unfolding q using f Cons by (auto simp: log_geyser_def flow_ok_def)
  qed
  have "gap_pending s' = gap_pending s" "slot_at s' = slot_at s" "ahead s' = ahead s" using loop_cong[of s' s] fix1 by simp_all
  then have ok: "geyser_ok env s'" using flow saves fix1 assms(3) by (auto simp: geyser_ok_def slots_ok_def split: if_splits)
  show ?thesis
  proof (cases "sub_draining s'")
    case None
    then have "between env [] s'" using ok_between[OF ok] by (simp add: gap_pending_def)
    then show ?thesis using False e None drain_next_ok[OF assms(1)] by (simp add: on_data_def drain_def)
  next
    case (Some d)
    then show ?thesis using False e ok by (simp add: on_data_def drain_def)
  qed
qed

text \<open>Steps that touch neither the queue nor the loop.\<close>

lemma geyser_ok_cong:
  assumes "sub_queue s' = sub_queue s" and "sub_lastSlot s' = sub_lastSlot s" and "sub_updateCount s' = sub_updateCount s"
    and "sub_droppedCount s' = sub_droppedCount s" and "sub_draining s' = sub_draining s" and "sub_log s' = sub_log s"
  shows "geyser_ok env s' = geyser_ok env s"
  using assms loop_cong[OF assms(5,2)] by (simp add: geyser_ok_def flow_ok_def slots_ok_def)

lemma geyser_ok_emit:
  assumes "geyser_ok env s" and "\<And>f t. ev \<noteq> GapEvent f t" and "\<And>u. ev \<noteq> UpdateEvent u"
  shows "geyser_ok env (snd (emit_event env ev s))"
proof -
  let ?s = "log_geyser (Emitted ev) s"
  have "gap_pending ?s = gap_pending s" "slot_at ?s = slot_at s" "ahead ?s = ahead s"
    by (intro loop_cong; simp add: log_geyser_def)+
  moreover have "saves_ok env (sub_log ?s)" "counted (sub_log ?s) = counted (sub_log s)" "marks (sub_log ?s) = marks (sub_log s)"
    "reported (sub_log ?s) = reported (sub_log s)" "flow_ok env [] ?s" "taken (sub_log ?s) = taken (sub_log s)" "handled (sub_log ?s) = handled (sub_log s)"
    "sub_updateCount ?s = sub_updateCount s"
    using assms by (cases ev; simp add: saves_ok_snoc log_geyser_def geyser_ok_def flow_ok_def)+
  ultimately show ?thesis using assms(1) by (auto simp: emit_event_def geyser_ok_def slots_ok_def split: if_splits)
qed

lemma seeded_ok:
  assumes "geyser_ok env s" and "sub_lastSlot s < 0"
  shows "geyser_ok env (log_geyser (SeededBy c) (s\<lparr>sub_loadedCheckpoint := Some c, sub_lastSlot := ck_lastSlot c, sub_updateCount := ck_updateCount c\<rparr>))"
proof -
  have d: "\<not> (\<exists>u slot. sub_draining s = Some (AtGap u slot))" using assms by (auto simp: geyser_ok_def ahead_def)
  then have g: "gap_pending s = []" "slot_at s = sub_lastSlot s" by (auto simp: gap_pending_def slot_at_def split: option.splits drain_point.splits)
  then have "slots_ok (sub_lastSlot s) s" using assms(1) by (simp add: geyser_ok_def)
  then have m: "marks (sub_log s) = []" "reported (sub_log s) = []" using assms(2)
    by (metis slots_ok_def not_le, metis slots_ok_def timeline_def not_le)
  let ?s = "log_geyser (SeededBy c) (s\<lparr>sub_loadedCheckpoint := Some c, sub_lastSlot := ck_lastSlot c, sub_updateCount := ck_updateCount c\<rparr>)"
  have "gap_pending ?s = []" "slot_at ?s = ck_lastSlot c" "ahead ?s"
    using d by (auto simp: gap_pending_def slot_at_def ahead_def log_geyser_def split: option.splits drain_point.splits)
  moreover have "slots_ok (ck_lastSlot c) ?s" using m timeline_first by (simp add: slots_ok_def log_geyser_def timeline_def)
  moreover have "flow_ok env [] ?s" "taken (sub_log ?s) = handled (sub_log ?s)" "saves_ok env (sub_log ?s)" "sub_updateCount ?s = counted (sub_log ?s)"
    using assms(1) g by (auto simp: geyser_ok_def flow_ok_def log_geyser_def saves_ok_snoc)
  ultimately show ?thesis by (simp add: geyser_ok_def)
qed

lemma geyser_step_ok:
  assumes "quiet env" and "0 < ge_capacity env" and "geyser_step env l s = Some s'" and "geyser_ok env s"
  shows "geyser_ok env s'"
proof (cases l)
  case (LoadDone res)
  have "geyser_ok env (s\<lparr>sub_loading := False\<rparr>)" using assms(4) geyser_ok_cong[of "s\<lparr>sub_loading := False\<rparr>" s] by simp
  then show ?thesis using assms(3) LoadDone
    by (auto simp: load_done_def Let_def split: if_splits sum.splits option.splits intro!: geyser_ok_emit dest: seeded_ok[of env "s\<lparr>sub_loading := False\<rparr>"])
next
  case (GapDone res)
  then show ?thesis using assms gap_done_ok by (auto split: option.splits drain_point.splits)
next
  case (HandlerDone res now)
  then obtain u where d: "sub_draining s = Some (AtHandler u)" and s': "s' = handler_done env res now u s"
    using assms(3) by (auto split: option.splits drain_point.splits)
  have "between env [] s" using ok_between[OF assms(4)] d by (simp add: gap_pending_def)
  then show ?thesis unfolding s' handler_done_def by (rule on_failure_ok[OF assms(1)]) (rule after_update_ok[OF assms(1)])
next
  case (SaveDone res)
  then have d: "sub_draining s = Some AtSave" and s': "s' = save_done env res s"
    using assms(3) by (auto split: option.splits drain_point.splits)
  have "between env [] s" using ok_between[OF assms(4)] d by (simp add: gap_pending_def)
  then show ?thesis unfolding s' save_done_def by (rule on_failure_ok[OF assms(1)]) (rule drain_next_ok[OF assms(1)])
next
  case Microtask
  then obtain m ms where "s' = snd (emit_event env (microtask_event m) (s\<lparr>sub_microtasks := ms\<rparr>))" using assms(3) by (auto split: list.splits)
  moreover have "geyser_ok env (s\<lparr>sub_microtasks := ms\<rparr>)" using assms(4) geyser_ok_cong[of "s\<lparr>sub_microtasks := ms\<rparr>" s] by simp
  ultimately show ?thesis by (cases m) (auto intro: geyser_ok_emit)
next
  case (Data u now)
  then have "s' = on_data env now u s" using assms(3) by (simp split: if_splits)
  then show ?thesis using on_data_ok[OF assms(1,2,4)] by simp
next
  case (StreamError e)
  then show ?thesis using assms by (auto simp: stream_error_def split: if_splits intro: geyser_ok_emit)
next
  case StreamEnd
  then show ?thesis using assms(3,4) geyser_ok_cong[of s' s env] by (auto simp: teardown_def split: if_splits)
next
  case Close
  then show ?thesis using assms(3,4) geyser_ok_cong[of s' s env] by (auto simp: close_subscription_def split: if_splits)
qed

lemma geyser_ok_start: "geyser_ok env (subscribe_geyser env aborted res)"
  by (cases res) (auto simp: subscribe_geyser_def new_subscription_def start_subscription_def close_subscription_def geyser_ok_def ahead_def
      flow_ok_def slots_ok_def gap_pending_def slot_at_def saves_ok_def timeline_def)

lemma geyser_reach_ok: "geyser_reach env s \<Longrightarrow> quiet env \<Longrightarrow> 0 < ge_capacity env \<Longrightarrow> geyser_ok env s"
  by (induction rule: geyser_reach.induct) (auto intro: geyser_ok_start geyser_step_ok)

lemma geyser_steps_reach: "geyser_steps env ls s = Some s' \<Longrightarrow> geyser_reach env s \<Longrightarrow> geyser_reach env s'"
  by (induction ls arbitrary: s) (auto simp: bind_eq_Some_conv intro: geyser_reach.step)

section \<open>What a subscription promises\<close>

text \<open>
  C23. When no listener throws, gap detection is exact: between the first slot the subscription knows (of its
  checkpoint, or of its first slot update) and the highest one, every slot was either reached by a slot update
  taken off the queue, or lies in a reported gap, and never both; reported gaps follow one another.
\<close>

theorem gaps_exact:
  assumes "geyser_reach env s" and "quiet env" and "0 < ge_capacity env" and "marks (sub_log s) \<noteq> []"
    and "hd (marks (sub_log s)) \<le> x" and "x \<le> Max (set (marks (sub_log s)))"
  shows "reached (marks (sub_log s)) x \<noteq> in_gap (reported (sub_log s)) x \<and>
    sorted_wrt (\<lambda>g g'. snd g \<le> fst g') (reported (sub_log s)) \<and>
    list_all (\<lambda>(f, t). hd (marks (sub_log s)) < f \<and> f < t \<and> t \<le> Max (set (marks (sub_log s)))) (reported (sub_log s))"
  using geyser_reach_ok[OF assms(1-3)] assms(4-6) by (auto simp: geyser_ok_def slots_ok_def timeline_def list_all_iff)

text \<open>
  C24. When no listener throws, every update received from the stream is taken in order, or was dropped as the
  oldest of a full queue and counted, or is still in the queue, whose length stays within its capacity; every
  update taken is handed to the handler exactly once, in order (the last one after its gap callback).
\<close>

theorem updates_accounted:
  assumes "geyser_reach env s" and "quiet env" and "0 < ge_capacity env"
  shows "mset (received (sub_log s)) = mset (taken (sub_log s)) + mset (discarded (sub_log s)) + mset (sub_queue s) \<and>
    subseq (taken (sub_log s) @ sub_queue s) (received (sub_log s)) \<and> taken (sub_log s) = handled (sub_log s) @ gap_pending s \<and>
    sub_droppedCount s = length (discarded (sub_log s)) \<and> length (sub_queue s) \<le> ge_capacity env"
  using geyser_reach_ok[OF assms] by (auto simp: geyser_ok_def flow_ok_def)

text \<open>
  A checkpoint is consistent: its slot is the highest one seen, everything taken so far has been handled, up
  to that slot nothing is missing that was not reported as a gap, its count is that of the updates completed
  (from the one loaded), and it falls on a multiple of the interval.
\<close>

theorem checkpoints_consistent:
  assumes "geyser_reach env s" and "quiet env" and "0 < ge_capacity env" and "sub_log s = pre @ SaveBegun c # post"
  shows "ck_lastSlot c = Max (set (marks pre)) \<and> marks pre \<noteq> [] \<and> taken pre = handled pre \<and>
    timeline (marks pre) (reported pre) \<and> ck_updateCount c = counted pre \<and> ck_updateCount c mod ge_checkpointEvery env = 0"
  using geyser_reach_ok[OF assms(1-3)] assms(4) by (auto simp: geyser_ok_def saves_ok_def saved_ok_def)

section \<open>Examples\<close>

definition sample_geyser :: "(unit geyser_log list \<Rightarrow> unit geyser_event \<Rightarrow> bool) \<Rightarrow> unit geyser_env" where
  "sample_geyser throws = \<lparr>ge_capacity = 2, ge_checkpointEvery = 2, ge_store = True, ge_onGap = True, ge_throws = throws\<rparr>"

definition slot_update :: "nat \<Rightarrow> unit geyser_update" where
  "slot_update n = \<lparr>gu_slot = Some n, gu_data = ()\<rparr>"

definition sample_watch :: "unit geyser_label list" where
  "sample_watch = [LoadDone (Inr (Some \<lparr>ck_lastSlot = 4, ck_updateCount = 10, ck_timestamp = 0\<rparr>)), Data (slot_update 5) 1, Data (slot_update 9) 1,
     HandlerDone None 2, GapDone None, HandlerDone None 7]"

definition sample_saved :: checkpoint where
  "sample_saved = \<lparr>ck_lastSlot = 9, ck_updateCount = 12, ck_timestamp = 7\<rparr>"

lemmas geyser_defs = sample_geyser_def slot_update_def sample_watch_def sample_saved_def subscribe_geyser_def start_subscription_def new_subscription_def
  load_done_def log_geyser_def on_data_def enqueue_update_def drain_def drain_next_def call_handler_def raise_slot_def handler_done_def on_failure_def
  emitting_def emit_event_def after_update_def gap_done_def abort_drain_def

lemma sample_watched:
  "\<exists>s. geyser_steps (sample_geyser (\<lambda>_ _. False)) sample_watch (subscribe_geyser (sample_geyser (\<lambda>_ _. False)) False Opened) = Some s \<and>
     sub_log s = [SeededBy \<lparr>ck_lastSlot = 4, ck_updateCount = 10, ck_timestamp = 0\<rparr>, Received (slot_update 5), Taken (slot_update 5),
       Handled (slot_update 5), Received (slot_update 9), Emitted (UpdateEvent (slot_update 5)), Taken (slot_update 9), Emitted (GapEvent 6 9),
       Handled (slot_update 9), Emitted (UpdateEvent (slot_update 9))] @ SaveBegun sample_saved # []"
  by (simp add: geyser_defs Let_def)

lemma sample_quiet: "quiet (sample_geyser (\<lambda>_ _. False))" "0 < ge_capacity (sample_geyser (\<lambda>_ _. False))"
  by (simp_all add: quiet_def sample_geyser_def)

theorem gaps_exact_witness: "\<not> reached [4, 5, 9] 7 \<and> in_gap [(6, 9)] 7"
proof -
  obtain s where s: "geyser_steps (sample_geyser (\<lambda>_ _. False)) sample_watch (subscribe_geyser (sample_geyser (\<lambda>_ _. False)) False Opened) = Some s"
    "marks (sub_log s) = [4, 5, 9]" "reported (sub_log s) = [(6, 9)]"
    using sample_watched by (auto simp: slot_update_def)
  have "reached [4, 5, 9] 7 \<noteq> in_gap [(6, 9)] 7"
    using gaps_exact[OF geyser_steps_reach[OF s(1) geyser_reach.subscribed] sample_quiet, of 7] s by simp
  moreover have "in_gap [(6, 9)] 7" by (simp add: in_gap_def)
  ultimately show ?thesis by simp
qed

theorem updates_accounted_witness:
  "\<exists>s. geyser_steps (sample_geyser (\<lambda>_ _. False)) sample_watch (subscribe_geyser (sample_geyser (\<lambda>_ _. False)) False Opened) = Some s \<and>
     taken (sub_log s) = [slot_update 5, slot_update 9] \<and> mset (received (sub_log s)) = mset (taken (sub_log s)) + mset (discarded (sub_log s)) + mset (sub_queue s)"
proof -
  obtain s where s: "geyser_steps (sample_geyser (\<lambda>_ _. False)) sample_watch (subscribe_geyser (sample_geyser (\<lambda>_ _. False)) False Opened) = Some s"
    "taken (sub_log s) = [slot_update 5, slot_update 9]" using sample_watched by auto
  show ?thesis using updates_accounted[OF geyser_steps_reach[OF s(1) geyser_reach.subscribed] sample_quiet] s by blast
qed

theorem checkpoints_consistent_witness: "ck_lastSlot sample_saved = Max {4, 5, 9} \<and> ck_updateCount sample_saved mod 2 = 0"
proof -
  obtain s pre where s: "geyser_steps (sample_geyser (\<lambda>_ _. False)) sample_watch (subscribe_geyser (sample_geyser (\<lambda>_ _. False)) False Opened) = Some s"
    "sub_log s = pre @ SaveBegun sample_saved # []" "marks pre = [4, 5, 9]"
    using sample_watched by (auto simp: slot_update_def)
  show ?thesis using checkpoints_consistent[OF geyser_steps_reach[OF s(1) geyser_reach.subscribed] sample_quiet s(2)] s(3)
    by (auto simp: sample_geyser_def)
qed

text \<open>
  The exception of an \<open>update\<close> listener is not caught: it ends the drain loop. An update that waits in the queue
  then stays there until another one arrives, and the update whose listener threw is not counted.
\<close>

theorem throwing_listener_stalls:
  "\<exists>s. geyser_steps (sample_geyser (\<lambda>_ ev. \<exists>u. ev = UpdateEvent u))
       [Data (slot_update 5) 1, Data (slot_update 6) 1, HandlerDone None 2]
       (subscribe_geyser (sample_geyser (\<lambda>_ ev. \<exists>u. ev = UpdateEvent u)) False Opened) = Some s \<and>
     \<not> sub_closed s \<and> sub_draining s = None \<and> sub_queue s = [slot_update 6] \<and> sub_updateCount s = 0"
  by (simp add: geyser_defs Let_def)

end
