(* ===== verification/FileStores.thy ===== *)
theory FileStores
  imports Geyser Base58
begin

text \<open>
  The file-backed stores, which all write a temporary file and rename it: \<open>FileCheckpointStore\<close>
  (\<open>packages/solana-connectivity/src/checkpoint-store-file.ts\<close>), \<open>FileSignalCheckpointStore\<close>
  (\<open>packages/solana-signals/src/checkpoint-store.ts\<close>), \<open>FileStrategyStateStore\<close>
  (\<open>packages/solana-strategy/src/state-store-file.ts\<close>) and \<open>FileVaultStorage\<close>
  (\<open>packages/solana-vault/src/storage-file.ts\<close>). An operation is a sequence of file system calls; the
  calls of different operations interleave as the mutex of the store allows, any of them may fail,
  and the process may stop between any two. Files are named relative to the directory of the store;
  the JSON text of a value stands for the value.
\<close>

section \<open>Operations on files\<close>

type_synonym filename = string

text \<open>A file is being written, or holds the text of a value.\<close>

datatype 'v content = Torn | Whole 'v

type_synonym 'v files = "filename \<Rightarrow> 'v content option"

datatype 'v op_kind = Put 'v | Remove

datatype op_pc = Waiting | Made | Writing | Written | Done | Failed

record 'v file_op =
  fo_key :: string
  fo_kind :: "'v op_kind"
  fo_time :: nat     \<comment> \<open>\<open>Date.now()\<close> when it runs\<close>
  fo_pc :: op_pc

text \<open>
  A kind of store: the file of a key (\<open>None\<close> when the key is refused), the lock an operation waits for
  (\<open>None\<close> when nothing is serialized), and the temporary file.
\<close>

record store_kind =
  sk_path :: "string \<Rightarrow> filename option"
  sk_lock :: "string \<Rightarrow> string option"
  sk_tmp :: "filename \<Rightarrow> nat \<Rightarrow> filename"

record 'v file_store =
  fs_files :: "'v files"
  fs_ops :: "'v file_op list"

definition finished :: "op_pc \<Rightarrow> bool" where
  "finished pc \<longleftrightarrow> pc = Done \<or> pc = Failed"

text \<open>The operations before this one that hold its lock.\<close>

definition may_run :: "store_kind \<Rightarrow> 'v file_op list \<Rightarrow> nat \<Rightarrow> bool" where
  "may_run k ops n \<longleftrightarrow>
     (case sk_lock k (fo_key (ops ! n)) of
        None \<Rightarrow> True
      | Some l \<Rightarrow> list_all (\<lambda>x. sk_lock k (fo_key x) = Some l \<longrightarrow> finished (fo_pc x)) (take n ops))"

text \<open>\<open>save\<close>, \<open>set\<close>, \<open>write\<close> or \<open>delete\<close>: the key is checked at once.\<close>

definition issue :: "store_kind \<Rightarrow> string \<Rightarrow> 'v op_kind \<Rightarrow> nat \<Rightarrow> 'v file_store \<Rightarrow> 'v file_store option" where
  "issue k key kind now s =
     (if sk_path k key = None then None
      else Some (s\<lparr>fs_ops := fs_ops s @ [\<lparr>fo_key = key, fo_kind = kind, fo_time = now, fo_pc = Waiting\<rparr>]\<rparr>))"

definition path_of :: "store_kind \<Rightarrow> 'v file_op \<Rightarrow> filename" where
  "path_of k x = the (sk_path k (fo_key x))"

definition tmp_of :: "store_kind \<Rightarrow> 'v file_op \<Rightarrow> filename" where
  "tmp_of k x = sk_tmp k (path_of k x) (fo_time x)"

text \<open>
  The next file system call of an operation, which succeeds or throws: \<open>mkdir\<close>, \<open>writeFile\<close> (which
  truncates the file first), \<open>rename\<close>; or \<open>unlink\<close>. What follows the rename (\<open>chmod\<close>) is ignored when it fails.
\<close>

definition call_of :: "store_kind \<Rightarrow> bool \<Rightarrow> 'v file_op \<Rightarrow> 'v files \<Rightarrow> op_pc \<times> 'v files" where
  "call_of k ok x fs =
     (case fo_kind x of
        Remove \<Rightarrow> if ok then (Done, fs(path_of k x := None)) else (Failed, fs)
      | Put v \<Rightarrow>
          (case fo_pc x of
             Waiting \<Rightarrow> if ok then (Made, fs) else (Failed, fs)
           | Made \<Rightarrow> if ok then (Writing, fs(tmp_of k x := Some Torn)) else (Failed, fs)
           | Writing \<Rightarrow> if ok then (Written, fs(tmp_of k x := Some (Whole v))) else (Failed, fs)
           | Written \<Rightarrow>
               (if \<not> ok then (Failed, fs)
                else case fs (tmp_of k x) of
                       None \<Rightarrow> (Failed, fs)
                     | Some c \<Rightarrow> (Done, (fs(tmp_of k x := None))(path_of k x := Some c)))
           | pc \<Rightarrow> (pc, fs)))"

text \<open>
  Files are names here, not the objects behind them: a write that ends after its temporary file was
  renamed or rewritten by another operation is not modelled (no step). Under a lock there is none.
\<close>

definition own_file :: "store_kind \<Rightarrow> 'v file_op \<Rightarrow> 'v files \<Rightarrow> bool" where
  "own_file k x fs \<longleftrightarrow> (fo_pc x = Writing \<longrightarrow> (case fs (tmp_of k x) of Some Torn \<Rightarrow> True | _ \<Rightarrow> False))"

definition run_op :: "store_kind \<Rightarrow> nat \<Rightarrow> bool \<Rightarrow> 'v file_store \<Rightarrow> 'v file_store option" where
  "run_op k n ok s =
     (if n < length (fs_ops s) \<and> \<not> finished (fo_pc (fs_ops s ! n)) \<and> may_run k (fs_ops s) n \<and>
        own_file k (fs_ops s ! n) (fs_files s)
      then case call_of k ok (fs_ops s ! n) (fs_files s) of
             (pc, fs) \<Rightarrow> Some \<lparr>fs_files = fs, fs_ops = (fs_ops s)[n := (fs_ops s ! n)\<lparr>fo_pc := pc\<rparr>]\<rparr>
      else None)"

datatype 'v store_label = Issue string "'v op_kind" nat | Call nat bool

fun store_step :: "store_kind \<Rightarrow> 'v store_label \<Rightarrow> 'v file_store \<Rightarrow> 'v file_store option" where
  "store_step k (Issue key kind now) s = issue k key kind now s"
| "store_step k (Call n ok) s = run_op k n ok s"

fun store_steps :: "store_kind \<Rightarrow> 'v store_label list \<Rightarrow> 'v file_store \<Rightarrow> 'v file_store option" where
  "store_steps k [] s = Some s"
| "store_steps k (l # ls) s = Option.bind (store_step k l s) (store_steps k ls)"

definition opened :: "'v files \<Rightarrow> 'v file_store" where
  "opened fs = \<lparr>fs_files = fs, fs_ops = []\<rparr>"

text \<open>\<open>load\<close>, \<open>get\<close> and \<open>read\<close>: a missing file is \<open>null\<close>, a torn one does not parse.\<close>

datatype load_error = BadKey | BadJson

definition load :: "store_kind \<Rightarrow> string \<Rightarrow> 'v files \<Rightarrow> load_error + 'v option" where
  "load k key fs =
     (case sk_path k key of
        None \<Rightarrow> Inl BadKey
      | Some p \<Rightarrow> (case fs p of None \<Rightarrow> Inr None | Some (Whole v) \<Rightarrow> Inr (Some v) | Some Torn \<Rightarrow> Inl BadJson))"

section \<open>The four stores\<close>

definition alnum :: "char \<Rightarrow> bool" where
  "alnum c \<longleftrightarrow> c \<in> set ''ABCDEFGHIJKLMNOPQRSTUVWXYZabcdefghijklmnopqrstuvwxyz0123456789''"

text \<open>\<open>SAFE_KEY\<close> and \<open>SAFE_NAME\<close>, and the check for names of dots.\<close>

definition safe_name :: "string \<Rightarrow> bool" where
  "safe_name s \<longleftrightarrow> s \<noteq> [] \<and> list_all (\<lambda>c. alnum c \<or> c \<in> set ''_.-'') s \<and> \<not> list_all (\<lambda>c. c = CHR ''.'') s"

definition strict_path :: "string \<Rightarrow> filename option" where
  "strict_path key = (if safe_name key then Some (key @ ''.json'') else None)"

text \<open>\<open>replace(/[^A-Za-z0-9_-]/g, '_')\<close>.\<close>

definition sanitized :: "string \<Rightarrow> string" where
  "sanitized key = map (\<lambda>c. if alnum c \<or> c \<in> set ''_-'' then c else CHR ''_'') key"

definition loose_path :: "string \<Rightarrow> filename option" where
  "loose_path key = Some (sanitized key @ ''.json'')"

definition fixed_tmp :: "filename \<Rightarrow> nat \<Rightarrow> filename" where
  "fixed_tmp p now = p @ ''.tmp''"

definition dated_tmp :: "string \<Rightarrow> filename \<Rightarrow> nat \<Rightarrow> filename" where
  "dated_tmp pid p now = p @ ''.tmp.'' @ pid @ ''.'' @ decimal now"

definition checkpoint_file_store :: store_kind where
  "checkpoint_file_store = \<lparr>sk_path = strict_path, sk_lock = Some, sk_tmp = fixed_tmp\<rparr>"

definition signal_checkpoint_store :: store_kind where
  "signal_checkpoint_store = \<lparr>sk_path = loose_path, sk_lock = Some, sk_tmp = fixed_tmp\<rparr>"

definition strategy_state_store :: "string \<Rightarrow> store_kind" where
  "strategy_state_store pid = \<lparr>sk_path = loose_path, sk_lock = Some, sk_tmp = dated_tmp pid\<rparr>"

definition vault_file_store :: store_kind where
  "vault_file_store = \<lparr>sk_path = strict_path, sk_lock = (\<lambda>_. None), sk_tmp = fixed_tmp\<rparr>"

text \<open>\<open>list\<close>: the keys of the files that are there.\<close>

definition ends_with :: "string \<Rightarrow> string \<Rightarrow> bool" where
  "ends_with s suf \<longleftrightarrow> suffix suf s"

definition vault_list :: "filename list \<Rightarrow> string list" where
  "vault_list entries = map (\<lambda>e. take (length e - 5) e) (filter (\<lambda>e. ends_with e ''.json'' \<and> \<not> ends_with e ''.tmp'') entries)"

definition state_list :: "string option \<Rightarrow> filename list \<Rightarrow> string list" where
  "state_list pre entries =
     filter (\<lambda>k. case pre of Some p \<Rightarrow> p = [] \<or> prefix p k | None \<Rightarrow> True)
       (map (\<lambda>e. take (length e - 5) e) (filter (\<lambda>e. ends_with e ''.json'' \<and> \<not> sublist ''.tmp.'' e) entries))"

section \<open>Serialized stores are atomic\<close>

definition effect_of :: "'v op_kind \<Rightarrow> 'v content option" where
  "effect_of kd = (case kd of Put v \<Rightarrow> Some (Whole v) | Remove \<Rightarrow> None)"

text \<open>The operation that was completed last on a file decides its contents.\<close>

definition latest :: "store_kind \<Rightarrow> filename \<Rightarrow> 'v content option \<Rightarrow> 'v file_op list \<Rightarrow> 'v content option" where
  "latest k p c0 ops = foldl (\<lambda>c x. if path_of k x = p \<and> fo_pc x = Done then effect_of (fo_kind x) else c) c0 ops"

lemma latest_append: "latest k p c0 (xs @ ys) = latest k p (latest k p c0 xs) ys"
  by (simp add: latest_def)

lemma latest_Cons: "latest k p c0 (x # xs) = latest k p (if path_of k x = p \<and> fo_pc x = Done then effect_of (fo_kind x) else c0) xs"
  by (simp add: latest_def)

lemma latest_none: "(\<And>x. x \<in> set xs \<Longrightarrow> path_of k x = p \<Longrightarrow> fo_pc x \<noteq> Done) \<Longrightarrow> latest k p c0 xs = c0"
  by (induction xs) (auto simp: latest_Cons latest_def)

lemma latest_update:
  assumes "n < length ops" and "fo_pc (ops ! n) \<noteq> Done"
    and "\<And>m. n < m \<Longrightarrow> m < length ops \<Longrightarrow> path_of k (ops ! m) = path_of k (ops ! n) \<Longrightarrow> fo_pc (ops ! m) = Waiting"
  shows "latest k p c0 (ops[n := (ops ! n)\<lparr>fo_pc := pc\<rparr>]) =
    (if path_of k (ops ! n) = p \<and> pc = Done then effect_of (fo_kind (ops ! n)) else latest k p c0 ops)"
proof -
  have o: "ops = take n ops @ ops ! n # drop (Suc n) ops" using assms(1) by (rule id_take_nth_drop)
  have u: "ops[n := (ops ! n)\<lparr>fo_pc := pc\<rparr>] = take n ops @ (ops ! n)\<lparr>fo_pc := pc\<rparr> # drop (Suc n) ops"
    using assms(1) by (rule upd_conv_take_nth_drop)
  have p: "path_of k ((ops ! n)\<lparr>fo_pc := pc\<rparr>) = path_of k (ops ! n)" by (simp add: path_of_def)
  have later: "fo_pc x \<noteq> Done" if "x \<in> set (drop (Suc n) ops)" "path_of k x = path_of k (ops ! n)" for x
    using that assms(3) by (auto simp: in_set_conv_nth)
  have "latest k p c0 ops = latest k p (latest k p c0 (take n ops)) (drop (Suc n) ops)"
    by (subst o) (simp add: latest_append latest_Cons assms(2))
  then show ?thesis unfolding u latest_append latest_Cons p
    using latest_none[of "drop (Suc n) ops" k p] later by auto
qed

locale serialized_store =
  fixes k :: store_kind and okay :: "string \<Rightarrow> bool"
  assumes has_path: "okay a \<Longrightarrow> sk_path k a \<noteq> None"
    and one_lock: "okay a \<Longrightarrow> okay b \<Longrightarrow> sk_path k a = sk_path k b \<Longrightarrow> sk_lock k a \<noteq> None \<and> sk_lock k a = sk_lock k b"
    and tmp_not_final: "okay a \<Longrightarrow> okay b \<Longrightarrow> sk_path k a = Some p \<Longrightarrow> sk_path k b = Some q \<Longrightarrow> sk_tmp k p t \<noteq> q"
    and tmp_own: "okay a \<Longrightarrow> okay b \<Longrightarrow> sk_path k a = Some p \<Longrightarrow> sk_path k b = Some q \<Longrightarrow> sk_tmp k p t = sk_tmp k q t' \<Longrightarrow> p = q"
begin

definition store_inv :: "'v files \<Rightarrow> 'v file_store \<Rightarrow> bool" where
  "store_inv fs0 s \<longleftrightarrow>
     (\<forall>x \<in> set (fs_ops s). okay (fo_key x)) \<and>
     (\<forall>a p. okay a \<longrightarrow> sk_path k a = Some p \<longrightarrow> fs_files s p = latest k p (fs0 p) (fs_ops s)) \<and>
     (\<forall>n < length (fs_ops s). fo_pc (fs_ops s ! n) = Written \<longrightarrow>
        (\<exists>v. fo_kind (fs_ops s ! n) = Put v \<and> fs_files s (tmp_of k (fs_ops s ! n)) = Some (Whole v))) \<and>
     (\<forall>m < length (fs_ops s). \<forall>n < m. path_of k (fs_ops s ! n) = path_of k (fs_ops s ! m) \<longrightarrow> fo_pc (fs_ops s ! m) \<noteq> Waiting \<longrightarrow>
        finished (fo_pc (fs_ops s ! n)))"

lemma inv_opened: "store_inv fs0 (opened fs0)"
  by (simp add: store_inv_def opened_def latest_def)

lemma inv_issue: "store_inv fs0 s \<Longrightarrow> issue k key kd now s = Some s' \<Longrightarrow> okay key \<Longrightarrow> store_inv fs0 s'"
  by (auto simp: store_inv_def issue_def latest_append latest_Cons latest_def nth_append less_Suc_eq split: if_splits)

lemma path_okay: "okay (fo_key x) \<Longrightarrow> sk_path k (fo_key x) = Some (path_of k x)"
  using has_path by (auto simp: path_of_def)

lemma inv_call:
  assumes "store_inv fs0 s" and "run_op k n okc s = Some s'"
  shows "store_inv fs0 s'"
proof -
  let ?ops = "fs_ops s" and ?fs = "fs_files s"
  let ?x = "?ops ! n"
  have n: "n < length ?ops" and nf: "\<not> finished (fo_pc ?x)" and run: "may_run k ?ops n" and own: "own_file k ?x ?fs"
    using assms(2) by (auto simp: run_op_def split: if_splits)
  obtain pc fs where c: "call_of k okc ?x ?fs = (pc, fs)" by fastforce
  have s': "s' = \<lparr>fs_files = fs, fs_ops = ?ops[n := ?x\<lparr>fo_pc := pc\<rparr>]\<rparr>"
    using assms(2) c by (auto simp: run_op_def split: if_splits)
  have ok: "\<And>m. m < length ?ops \<Longrightarrow> okay (fo_key (?ops ! m))"
    and final: "\<And>a p. okay a \<Longrightarrow> sk_path k a = Some p \<Longrightarrow> ?fs p = latest k p (fs0 p) ?ops"
    and written: "\<And>m. m < length ?ops \<Longrightarrow> fo_pc (?ops ! m) = Written \<Longrightarrow> \<exists>v. fo_kind (?ops ! m) = Put v \<and> ?fs (tmp_of k (?ops ! m)) = Some (Whole v)"
    and order: "\<And>i j. j < length ?ops \<Longrightarrow> i < j \<Longrightarrow> path_of k (?ops ! i) = path_of k (?ops ! j) \<Longrightarrow> fo_pc (?ops ! j) \<noteq> Waiting \<Longrightarrow> finished (fo_pc (?ops ! i))"
    using assms(1) by (auto simp: store_inv_def)
  have path: "sk_path k (fo_key (?ops ! m)) = Some (path_of k (?ops ! m))" if "m < length ?ops" for m
    using path_okay ok that by blast
  have before: "finished (fo_pc (?ops ! m))" if mn: "m < n" and same: "path_of k (?ops ! m) = path_of k ?x" for m
  proof -
    have m: "m < length ?ops" using mn n by simp
    have "?ops ! m \<in> set (take n ?ops)" using mn n by (auto simp: in_set_conv_nth)
    moreover obtain l where "sk_lock k (fo_key ?x) = Some l" "sk_lock k (fo_key (?ops ! m)) = Some l"
      using one_lock[OF ok[OF m] ok[OF n]] path[OF m] path[OF n] same
      by (metis option.exhaust)
    ultimately show ?thesis using run by (auto simp: may_run_def list_all_iff)
  qed
  have after: "fo_pc (?ops ! m) = Waiting" if "n < m" "m < length ?ops" "path_of k (?ops ! m) = path_of k ?x" for m
    using order[of m n] that nf by auto
  have others: "fo_pc (?ops ! m) \<noteq> Written" if "m < length ?ops" "m \<noteq> n" "path_of k (?ops ! m) = path_of k ?x" for m
    using before[of m] after[of m] that by (cases "m < n") (auto simp: finished_def)
  have pcn: "fo_pc ?x \<noteq> Done" using nf by (simp add: finished_def)
  have lat: "latest k p c0 (?ops[n := ?x\<lparr>fo_pc := pc\<rparr>]) = (if path_of k ?x = p \<and> pc = Done then effect_of (fo_kind ?x) else latest k p c0 ?ops)" for p c0
    by (rule latest_update[OF n pcn after])
  have tmp: "tmp_of k ?x \<noteq> p" if "okay a" "sk_path k a = Some p" for a p
    unfolding tmp_of_def by (rule tmp_not_final[OF ok[OF n] that(1) path[OF n] that(2)])
  have self: "tmp_of k ?x \<noteq> path_of k ?x" by (rule tmp[OF ok[OF n] path[OF n]])
  have kept: "fs q = ?fs q" if "q \<noteq> tmp_of k ?x" "q \<noteq> path_of k ?x" for q
    using c that by (auto simp: call_of_def split: op_kind.splits op_pc.splits if_splits option.splits)
  have mine: "fs (path_of k ?x) = (if pc = Done then effect_of (fo_kind ?x) else ?fs (path_of k ?x))"
    using c self pcn written[OF n]
    by (auto simp: call_of_def effect_of_def split: op_kind.splits op_pc.splits if_splits option.splits)
  have wrote: "\<exists>v. fo_kind ?x = Put v \<and> fs (tmp_of k ?x) = Some (Whole v)" if "pc = Written"
    using c that pcn by (auto simp: call_of_def split: op_kind.splits op_pc.splits if_splits option.splits)
  let ?new = "?ops[n := ?x\<lparr>fo_pc := pc\<rparr>]"
  have keys: "path_of k (?new ! m) = path_of k (?ops ! m) \<and> tmp_of k (?new ! m) = tmp_of k (?ops ! m) \<and> fo_kind (?new ! m) = fo_kind (?ops ! m) \<and>
      fo_key (?new ! m) = fo_key (?ops ! m)" if "m < length ?ops" for m
    using that by (cases "m = n") (simp_all add: path_of_def tmp_of_def)
  have 1: "okay (fo_key x)" if "x \<in> set ?new" for x
    using that ok keys by (auto simp: in_set_conv_nth)
  have 2: "fs p = latest k p (fs0 p) ?new" if "okay a" "sk_path k a = Some p" for a p
    using final[OF that] mine kept[of p] tmp[OF that] by (cases "p = path_of k ?x") (auto simp: lat)
  have 3: "\<exists>v. fo_kind (?new ! m) = Put v \<and> fs (tmp_of k (?new ! m)) = Some (Whole v)" if "m < length ?ops" "fo_pc (?new ! m) = Written" for m
  proof (cases "m = n")
    case True
    then show ?thesis using that wrote keys[OF n] n by simp
  next
    case False
    have w: "fo_pc (?ops ! m) = Written" using that False by simp
    have "path_of k (?ops ! m) \<noteq> path_of k ?x" using others[OF that(1) False] w by auto
    then have "tmp_of k (?ops ! m) \<noteq> tmp_of k ?x" using tmp_own[OF ok[OF that(1)] ok[OF n] path[OF that(1)] path[OF n]] by (auto simp: tmp_of_def)
    moreover have "tmp_of k (?ops ! m) \<noteq> path_of k ?x" unfolding tmp_of_def by (rule tmp_not_final[OF ok[OF that(1)] ok[OF n] path[OF that(1)] path[OF n]])
    ultimately show ?thesis using written[OF that(1) w] kept keys[OF that(1)] by simp
  qed
  have 4: "finished (fo_pc (?new ! i))" if "j < length ?ops" "i < j" "path_of k (?new ! i) = path_of k (?new ! j)" "fo_pc (?new ! j) \<noteq> Waiting" for i j
  proof -
    have i: "i < length ?ops" using that(1,2) by simp
    have p: "path_of k (?ops ! i) = path_of k (?ops ! j)" using that(3) keys[OF i] keys[OF that(1)] by simp
    show ?thesis
    proof (cases "i = n")
      case True
      then show ?thesis using after[of j] that p by simp
    next
      case False
      then show ?thesis using before[of i] order[OF that(1,2) p] that p by (cases "j = n") auto
    qed
  qed
  show ?thesis unfolding s' store_inv_def file_store.simps length_list_update
  proof (intro conjI ballI allI impI)
    fix m i assume "m < length ?ops" "i < m" "path_of k (?new ! i) = path_of k (?new ! m)" "fo_pc (?new ! m) \<noteq> Waiting"
    then show "finished (fo_pc (?new ! i))" by (rule 4)
  qed (use 1 2 3 in blast)+
qed

lemma inv_steps:
  "store_steps k ls s = Some s' \<Longrightarrow> store_inv fs0 s \<Longrightarrow> (\<And>a kd t. Issue a kd t \<in> set ls \<Longrightarrow> okay a) \<Longrightarrow> store_inv fs0 s'"
proof (induction ls arbitrary: s)
  case (Cons l ls)
  obtain s1 where s1: "store_step k l s = Some s1" "store_steps k ls s1 = Some s'" using Cons.prems(1) by (auto simp: bind_eq_Some_conv)
  have "store_inv fs0 s1"
  proof (cases l)
    case (Issue a kd t)
    then show ?thesis using s1(1) inv_issue[OF Cons.prems(2)] Cons.prems(3)[of a kd t] by simp
  next
    case (Call n okc)
    then show ?thesis using s1(1) inv_call[OF Cons.prems(2)] by simp
  qed
  moreover have "okay a" if "Issue a kd t \<in> set ls" for a kd t using Cons.prems(3)[of a kd t] that by simp
  ultimately show ?case by (rule Cons.IH[OF s1(2)])
qed simp

text \<open>At any moment, a key reads as the operation completed last on its file left it.\<close>

lemma load_latest:
  assumes "store_steps k ls (opened fs0) = Some s" and "\<And>a kd t. Issue a kd t \<in> set ls \<Longrightarrow> okay a" and "okay key" and "sk_path k key = Some p"
  shows "fs_files s p = latest k p (fs0 p) (fs_ops s)"
  using inv_steps[OF assms(1) inv_opened assms(2)] assms(3,4) by (auto simp: store_inv_def)

end

section \<open>The stores that are serialized\<close>

lemma strict_path_inject: "strict_path a = Some p \<Longrightarrow> strict_path b = Some p \<Longrightarrow> a = b"
  by (auto simp: strict_path_def split: if_splits)

lemma json_not_tmp: "a @ ''.json'' @ ''.tmp'' \<noteq> b @ ''.json''"
proof
  assume "a @ ''.json'' @ ''.tmp'' = b @ ''.json''"
  then have "last (a @ ''.json'' @ ''.tmp'') = last (b @ ''.json'')" by (rule arg_cong)
  then show False by simp
qed

interpretation checkpoint_files: serialized_store checkpoint_file_store safe_name
proof
  show "sk_path checkpoint_file_store a \<noteq> None" if "safe_name a" for a
    using that by (simp add: checkpoint_file_store_def strict_path_def)
  show "sk_lock checkpoint_file_store a \<noteq> None \<and> sk_lock checkpoint_file_store a = sk_lock checkpoint_file_store b"
    if "safe_name a" "safe_name b" "sk_path checkpoint_file_store a = sk_path checkpoint_file_store b" for a b
    using that strict_path_inject[of a _ b] by (simp add: checkpoint_file_store_def strict_path_def)
  show "sk_tmp checkpoint_file_store p t \<noteq> q" if "sk_path checkpoint_file_store a = Some p" "sk_path checkpoint_file_store b = Some q" for a b p q t
    using that json_not_tmp by (auto simp: checkpoint_file_store_def strict_path_def fixed_tmp_def split: if_splits)
  show "p = q" if "sk_tmp checkpoint_file_store p t = sk_tmp checkpoint_file_store q t'" for p q t t'
    using that by (simp add: checkpoint_file_store_def fixed_tmp_def)
qed

text \<open>Keys that are their own file name.\<close>

definition plain_key :: "string \<Rightarrow> bool" where
  "plain_key key \<longleftrightarrow> sanitized key = key"

interpretation signal_files: serialized_store signal_checkpoint_store plain_key
proof
  show "sk_lock signal_checkpoint_store a \<noteq> None \<and> sk_lock signal_checkpoint_store a = sk_lock signal_checkpoint_store b"
    if "plain_key a" "plain_key b" "sk_path signal_checkpoint_store a = sk_path signal_checkpoint_store b" for a b
    using that by (simp add: signal_checkpoint_store_def loose_path_def plain_key_def)
  show "sk_tmp signal_checkpoint_store p t \<noteq> q" if "sk_path signal_checkpoint_store a = Some p" "sk_path signal_checkpoint_store b = Some q" for a b p q t
    using that json_not_tmp by (auto simp: signal_checkpoint_store_def loose_path_def fixed_tmp_def)
qed (simp_all add: signal_checkpoint_store_def loose_path_def fixed_tmp_def)

lemma sanitized_no_dot: "c \<in> set (sanitized key) \<Longrightarrow> c \<noteq> CHR ''.''"
  by (auto simp: sanitized_def alnum_def split: if_splits)

lemma sanitized_prefix: "sanitized a @ ''.json'' @ xs = sanitized b @ ''.json'' @ ys \<Longrightarrow> sanitized a = sanitized b \<and> xs = ys"
proof -
  assume e: "sanitized a @ ''.json'' @ xs = sanitized b @ ''.json'' @ ys"
  have t: "takeWhile (\<lambda>c. c \<noteq> CHR ''.'') (sanitized key @ CHR ''.'' # zs) = sanitized key" for key zs
    using sanitized_no_dot[of _ key] by (subst takeWhile_append2) auto
  have "sanitized a = sanitized b" using arg_cong[OF e, of "takeWhile (\<lambda>c. c \<noteq> CHR ''.'')"] t by simp
  then show ?thesis using e by simp
qed

interpretation state_files: serialized_store "strategy_state_store pid" plain_key
proof
  show "sk_lock (strategy_state_store pid) a \<noteq> None \<and> sk_lock (strategy_state_store pid) a = sk_lock (strategy_state_store pid) b"
    if "plain_key a" "plain_key b" "sk_path (strategy_state_store pid) a = sk_path (strategy_state_store pid) b" for a b
    using that by (simp add: strategy_state_store_def loose_path_def plain_key_def)
  show "sk_tmp (strategy_state_store pid) p t \<noteq> q" if "sk_path (strategy_state_store pid) a = Some p" "sk_path (strategy_state_store pid) b = Some q" for a b p q t
    using that sanitized_prefix[of a "''.tmp.'' @ pid @ ''.'' @ decimal t" b "[]"]
    by (auto simp: strategy_state_store_def loose_path_def dated_tmp_def)
  show "p = q" if "sk_path (strategy_state_store pid) a = Some p" "sk_path (strategy_state_store pid) b = Some q"
      "sk_tmp (strategy_state_store pid) p t = sk_tmp (strategy_state_store pid) q t'" for a b p q t t'
    using that sanitized_prefix[of a "''.tmp.'' @ pid @ ''.'' @ decimal t" b "''.tmp.'' @ pid @ ''.'' @ decimal t'"]
    by (auto simp: strategy_state_store_def loose_path_def dated_tmp_def)
qed (simp add: strategy_state_store_def loose_path_def)

section \<open>What the stores promise\<close>

text \<open>The value of a key: of the operation on it completed last.\<close>

definition stored_value :: "string \<Rightarrow> 'v option \<Rightarrow> 'v file_op list \<Rightarrow> 'v option" where
  "stored_value key v0 ops = foldl (\<lambda>c x. if fo_key x = key \<and> fo_pc x = Done then (case fo_kind x of Put v \<Rightarrow> Some v | Remove \<Rightarrow> None) else c) v0 ops"

text \<open>A reading of the files at the start.\<close>

definition initial_value :: "filename \<Rightarrow> 'v files \<Rightarrow> 'v option" where
  "initial_value p fs = (case fs p of Some (Whole v) \<Rightarrow> Some v | _ \<Rightarrow> None)"

lemma latest_stored:
  assumes "c0 = map_option Whole v0" and "\<And>x. x \<in> set ops \<Longrightarrow> path_of k x = p \<longleftrightarrow> fo_key x = key"
  shows "latest k p c0 ops = map_option Whole (stored_value key v0 ops)"
  using assms
proof (induction ops arbitrary: c0 v0)
  case (Cons x ops)
  let ?v = "if fo_key x = key \<and> fo_pc x = Done then (case fo_kind x of Put v \<Rightarrow> Some v | Remove \<Rightarrow> None) else v0"
  have "latest k p (map_option Whole ?v) ops = map_option Whole (stored_value key ?v ops)" using Cons.prems(2) by (intro Cons.IH) simp_all
  moreover have "(if path_of k x = p \<and> fo_pc x = Done then effect_of (fo_kind x) else c0) = map_option Whole ?v"
    using Cons.prems by (auto simp: effect_of_def split: op_kind.splits)
  ultimately show ?case by (simp add: latest_Cons stored_value_def)
qed (simp add: latest_def stored_value_def)

lemma issued_keys:
  "store_steps k ls s = Some s' \<Longrightarrow> (\<And>x. x \<in> set (fs_ops s) \<Longrightarrow> ok (fo_key x)) \<Longrightarrow> (\<And>a kd t. Issue a kd t \<in> set ls \<Longrightarrow> ok a) \<Longrightarrow>
     x \<in> set (fs_ops s') \<Longrightarrow> ok (fo_key x)"
proof (induction ls arbitrary: s)
  case (Cons l ls)
  obtain s1 where s1: "store_step k l s = Some s1" "store_steps k ls s1 = Some s'" using Cons.prems(1) by (auto simp: bind_eq_Some_conv)
  have "ok (fo_key y)" if y: "y \<in> set (fs_ops s1)" for y
  proof (cases l)
    case (Issue a kd t)
    then show ?thesis using s1(1) y Cons.prems(2) Cons.prems(3)[of a kd t] by (auto simp: issue_def split: if_splits)
  next
    case (Call n okc)
    obtain pc where "fs_ops s1 = (fs_ops s)[n := (fs_ops s ! n)\<lparr>fo_pc := pc\<rparr>]" "n < length (fs_ops s)"
      using s1(1) Call by (auto simp: run_op_def split: if_splits prod.splits)
    then show ?thesis using y Cons.prems(2) set_update_subset_insert[of "fs_ops s" n "(fs_ops s ! n)\<lparr>fo_pc := pc\<rparr>"] by fastforce
  qed
  moreover have "ok a" if "Issue a kd t \<in> set ls" for a kd t using Cons.prems(3)[of a kd t] that by simp
  ultimately show ?case using Cons.IH[OF s1(2)] Cons.prems(4) by blast
qed simp

lemma load_stored:
  assumes "fs_files s p = latest k p c0 (fs_ops s)" and "c0 \<noteq> Some Torn" and "sk_path k key = Some p"
    and "\<And>x. x \<in> set (fs_ops s) \<Longrightarrow> path_of k x = p \<longleftrightarrow> fo_key x = key"
  shows "load k key (fs_files s) = Inr (stored_value key (case c0 of Some (Whole v) \<Rightarrow> Some v | _ \<Rightarrow> None) (fs_ops s))"
proof -
  let ?v0 = "case c0 of Some (Whole v) \<Rightarrow> Some v | _ \<Rightarrow> None"
  have "c0 = map_option Whole ?v0" using assms(2) by (auto split: option.splits content.splits)
  then have "fs_files s p = map_option Whole (stored_value key ?v0 (fs_ops s))" using assms(1) latest_stored assms(4) by metis
  then show ?thesis using assms(3) by (cases "stored_value key ?v0 (fs_ops s)") (simp_all add: load_def)
qed

lemma issued_safe:
  assumes "store_steps k ls s = Some s'" and "Issue a kd t \<in> set ls"
  shows "sk_path k a \<noteq> None"
  using assms by (induction ls arbitrary: s) (auto simp: bind_eq_Some_conv issue_def split: if_splits)

text \<open>
  C25. Checkpoint files are atomic: whatever the interleaving of saves, whichever file system calls fail, and
  wherever the process stops, a key that was not torn at the start loads the checkpoint of the last save
  completed for it (or what was there before), never a partial file; saves of one key complete in the order
  they were issued.
\<close>

theorem checkpoint_saves_atomic:
  assumes "store_steps checkpoint_file_store ls (opened fs0) = Some s" and "safe_name key" and "fs0 (key @ ''.json'') \<noteq> Some Torn"
  shows "load checkpoint_file_store key (fs_files s) = Inr (stored_value key (initial_value (key @ ''.json'') fs0) (fs_ops s))"
proof -
  have path: "sk_path checkpoint_file_store a = Some p \<longleftrightarrow> safe_name a \<and> p = a @ ''.json''" for a p
    by (auto simp: checkpoint_file_store_def strict_path_def)
  have safe: "safe_name a" if "Issue a kd t \<in> set ls" for a kd t
    using issued_safe[OF assms(1) that] by (simp add: checkpoint_file_store_def strict_path_def split: if_splits)
  have keys: "safe_name (fo_key x)" if "x \<in> set (fs_ops s)" for x
    by (rule issued_keys[OF assms(1) _ safe that]) (simp_all add: opened_def)
  have "path_of checkpoint_file_store x = key @ ''.json'' \<longleftrightarrow> fo_key x = key" if "x \<in> set (fs_ops s)" for x
    using keys[OF that] by (simp add: path_of_def checkpoint_file_store_def strict_path_def)
  then show ?thesis
    using load_stored[OF checkpoint_files.load_latest[OF assms(1) safe assms(2)] assms(3)] path assms(2) by (simp add: initial_value_def)
qed

text \<open>The same for the state of a strategy instance, with deletions, as long as no two keys share a file.\<close>

lemma strategy_state_atomic:
  assumes "store_steps (strategy_state_store pid) ls (opened fs0) = Some s" and "\<And>a kd t. Issue a kd t \<in> set ls \<Longrightarrow> plain_key a"
    and "plain_key key" and "fs0 (key @ ''.json'') \<noteq> Some Torn"
  shows "load (strategy_state_store pid) key (fs_files s) = Inr (stored_value key (initial_value (key @ ''.json'') fs0) (fs_ops s))"
proof -
  have path: "sk_path (strategy_state_store pid) key = Some (key @ ''.json'')"
    using assms(3) by (simp add: strategy_state_store_def loose_path_def plain_key_def)
  have keys: "plain_key (fo_key x)" if "x \<in> set (fs_ops s)" for x
    by (rule issued_keys[OF assms(1) _ assms(2) that]) (simp_all add: opened_def)
  have "path_of (strategy_state_store pid) x = key @ ''.json'' \<longleftrightarrow> fo_key x = key" if "x \<in> set (fs_ops s)" for x
    using keys[OF that] by (simp add: path_of_def strategy_state_store_def loose_path_def plain_key_def)
  then show ?thesis
    using load_stored[OF state_files.load_latest[OF assms(1,2,3) path] assms(4) path] by (simp add: initial_value_def)
qed

text \<open>
  A Geyser client that is given a \<open>FileCheckpointStore\<close> and no key uses its endpoint's URL, whose colon the store
  refuses: no checkpoint is ever loaded or saved.
\<close>

theorem default_key_refused:
  assumes "new_client opts = Inr c" and "go_checkpointKey opts = None" and "CHR '':'' \<in> set (go_url opts)"
  shows "load checkpoint_file_store (gc_key c) fs = Inl BadKey \<and> issue checkpoint_file_store (gc_key c) kd now s = None"
proof -
  have "gc_key c = go_url opts" using assms(1,2) by (auto simp: new_client_def Let_def split: if_splits)
  moreover have "\<not> (alnum CHR '':'' \<or> CHR '':'' \<in> set ''_.-'')" by code_simp
  then have "\<not> safe_name (go_url opts)" using assms(3) unfolding safe_name_def list_all_iff by blast
  ultimately have "sk_path checkpoint_file_store (gc_key c) = None" by (simp add: checkpoint_file_store_def strict_path_def)
  then show ?thesis by (simp add: load_def issue_def)
qed

lemma hot_path: "strict_path ''hot'' = Some ''hot.json''"
  by code_simp

text \<open>
  Vault records are not serialized, and share one temporary file: when two writes of the same wallet overlap, the
  rename of the first puts the file that the second has just truncated in place of the record, and the
  encrypted key cannot be read back.
\<close>

theorem vault_writes_tear:
  "\<exists>s. store_steps vault_file_store [Issue ''hot'' (Put 1) 0, Issue ''hot'' (Put 2) 0, Call 0 True, Call 0 True, Call 0 True,
       Call 1 True, Call 1 True, Call 0 True] (opened (\<lambda>_. None)) = Some s \<and>
     fo_pc (fs_ops s ! 0) = Done \<and> load vault_file_store ''hot'' (fs_files s) = Inl BadJson"
  by (simp add: vault_file_store_def hot_path opened_def issue_def run_op_def call_of_def may_run_def own_file_def finished_def path_of_def tmp_of_def
      fixed_tmp_def load_def)

text \<open>Two subscribers whose names fall on one file hold different locks.\<close>

lemma slash_paths: "loose_path ''a/b'' = Some ''a_b.json''" "loose_path ''a_b'' = Some ''a_b.json''"
  by code_simp+

lemma colliding_subscribers_tear:
  "\<exists>s. store_steps signal_checkpoint_store [Issue ''a/b'' (Put 1) 0, Issue ''a_b'' (Put 2) 0, Call 0 True, Call 0 True, Call 0 True,
       Call 1 True, Call 1 True, Call 0 True] (opened (\<lambda>_. None)) = Some s \<and> load signal_checkpoint_store ''a_b'' (fs_files s) = Inl BadJson"
  by (simp add: signal_checkpoint_store_def slash_paths opened_def issue_def run_op_def call_of_def may_run_def own_file_def finished_def path_of_def
      tmp_of_def fixed_tmp_def load_def)

lemma feed_path: "strict_path ''feed'' = Some ''feed.json''" "safe_name ''feed''"
  by code_simp+

theorem checkpoint_saves_atomic_witness:
  "\<exists>s. store_steps checkpoint_file_store [Issue ''feed'' (Put 7) 0, Issue ''feed'' (Put 8) 0, Call 0 True, Call 0 True, Call 0 True, Call 0 True,
       Call 1 True, Call 1 True] (opened (\<lambda>_. None)) = Some s \<and> load checkpoint_file_store ''feed'' (fs_files s) = Inr (Some (7::nat))"
proof -
  obtain s where s: "store_steps checkpoint_file_store [Issue ''feed'' (Put 7) 0, Issue ''feed'' (Put 8) 0, Call 0 True, Call 0 True, Call 0 True,
      Call 0 True, Call 1 True, Call 1 True] (opened (\<lambda>_. None)) = Some s" "stored_value ''feed'' None (fs_ops s) = Some (7::nat)"
    by (simp add: checkpoint_file_store_def feed_path opened_def issue_def run_op_def call_of_def may_run_def own_file_def finished_def path_of_def
        tmp_of_def fixed_tmp_def stored_value_def)
  show ?thesis using checkpoint_saves_atomic[OF s(1) feed_path(2)] s by (simp add: initial_value_def)
qed

theorem default_key_refused_witness:
  "\<exists>c. new_client \<lparr>go_url = ''grpc.example:443'', go_checkpointKey = None, go_queueCapacity = None, go_checkpointEvery = None\<rparr> = Inr c \<and>
     load checkpoint_file_store (gc_key c) (\<lambda>_. Some (Whole sample_saved)) = Inl BadKey"
proof -
  let ?o = "\<lparr>go_url = ''grpc.example:443'', go_checkpointKey = None, go_queueCapacity = None, go_checkpointEvery = None\<rparr>"
  obtain c where c: "new_client ?o = Inr c" by (simp add: new_client_def Let_def DEFAULT_QUEUE_CAPACITY_def DEFAULT_CHECKPOINT_EVERY_def)
  have "load checkpoint_file_store (gc_key c) (\<lambda>_. Some (Whole sample_saved)) = Inl BadKey"
    by (rule default_key_refused[OF c, THEN conjunct1]) simp_all
  then show ?thesis using c by blast
qed

section \<open>The audit log\<close>

text \<open>
  One JSON text per line. \<open>JSON\<close> is a parameter: what the log relies on is that a text parses back to its
  entry and holds no line break.
\<close>

record 'e json_codec =
  jc_stringify :: "'e \<Rightarrow> string"
  jc_parse :: "string \<Rightarrow> string + 'e"

definition newline :: char where "newline = CHR 0x0A"

definition blank :: "string \<Rightarrow> bool" where
  "blank line \<longleftrightarrow> list_all (\<lambda>c. c \<in> {CHR 0x09, CHR 0x0A, CHR 0x0B, CHR 0x0C, CHR 0x0D, CHR 0x20, CHR 0xA0}) line"

definition doAppendAudit :: "'e json_codec \<Rightarrow> 'e \<Rightarrow> string \<Rightarrow> string" where
  "doAppendAudit j entry file = file @ jc_stringify j entry @ [newline]"

text \<open>\<open>content.split('\n')\<close>.\<close>

fun split_lines :: "string \<Rightarrow> string list" where
  "split_lines [] = [[]]"
| "split_lines (c # cs) =
     (if c = newline then [] # split_lines cs
      else case split_lines cs of l # ls \<Rightarrow> (c # l) # ls | [] \<Rightarrow> [[c]])"

definition readAudit :: "'e json_codec \<Rightarrow> string \<Rightarrow> string + 'e list" where
  "readAudit j file = rmap (jc_parse j) (filter (\<lambda>line. \<not> blank line) (split_lines file))"

definition json_ok :: "'e json_codec \<Rightarrow> 'e \<Rightarrow> bool" where
  "json_ok j e \<longleftrightarrow> jc_parse j (jc_stringify j e) = Inr e \<and> newline \<notin> set (jc_stringify j e) \<and> \<not> blank (jc_stringify j e)"

lemma split_lines_line: "newline \<notin> set l \<Longrightarrow> split_lines (l @ newline # rest) = l # split_lines rest"
  by (induction l) auto

lemma split_lines_tail: "newline \<notin> set l \<Longrightarrow> split_lines l = [l]"
  by (induction l) auto

lemma rmap_append: "rmap f (xs @ ys) = rbind (rmap f xs) (\<lambda>as. rbind (rmap f ys) (\<lambda>bs. Inr (as @ bs)))"
  by (induction xs) (auto simp: rbind_def split: sum.splits)

lemma fold_audit: "fold (doAppendAudit j) es f0 = f0 @ concat (map (\<lambda>e. jc_stringify j e @ [newline]) es)"
  by (induction es arbitrary: f0) (simp_all add: doAppendAudit_def)

lemma readAudit_lines:
  assumes "list_all (json_ok j) es" and "newline \<notin> set tail"
  shows "readAudit j (concat (map (\<lambda>e. jc_stringify j e @ [newline]) es) @ tail) =
    (if blank tail then Inr es else rbind (jc_parse j tail) (\<lambda>e. Inr (es @ [e])))"
  using assms(1)
proof (induction es)
  case Nil
  then show ?case using assms(2) by (simp add: readAudit_def split_lines_tail)
next
  case (Cons e es)
  have e: "json_ok j e" "list_all (json_ok j) es" using Cons.prems by simp_all
  have "readAudit j (concat (map (\<lambda>e. jc_stringify j e @ [newline]) (e # es)) @ tail) =
      rbind (readAudit j (concat (map (\<lambda>e. jc_stringify j e @ [newline]) es) @ tail)) (\<lambda>xs. Inr (e # xs))"
    using e(1) by (simp add: readAudit_def split_lines_line json_ok_def)
  then show ?case using Cons.IH[OF e(2)] by (cases "jc_parse j tail") simp_all
qed

text \<open>
  The audit log reads back as the entries appended to it, in order. But one append that was cut short makes the
  whole log unreadable when its text does not parse: the entries before it are not lost on disk, and yet no
  reading returns them.
\<close>

theorem audit_reads_back:
  assumes "list_all (json_ok j) es" and "newline \<notin> set torn" and "\<not> blank torn" and "jc_parse j torn = Inl err"
  shows "readAudit j (fold (doAppendAudit j) es []) = Inr es \<and> readAudit j (fold (doAppendAudit j) es [] @ torn) = Inl err"
  using readAudit_lines[OF assms(1), of "[]"] readAudit_lines[OF assms(1,2)] assms(3,4) by (simp add: fold_audit blank_def)

theorem audit_reads_back_witness:
  "let j = \<lparr>jc_stringify = \<lambda>e. if e then ''[1]'' else ''[0]'', jc_parse = \<lambda>s. if s = ''[1]'' then Inr True else if s = ''[0]'' then Inr False else Inl ''syntax''\<rparr>
   in readAudit j (fold (doAppendAudit j) [True, False] []) = Inr [True, False] \<and>
      readAudit j (fold (doAppendAudit j) [True, False] [] @ ''[1'') = Inl ''syntax''"
proof -
  let ?j = "\<lparr>jc_stringify = \<lambda>e. if e then ''[1]'' else ''[0]'', jc_parse = \<lambda>s. if s = ''[1]'' then Inr True else if s = ''[0]'' then Inr False else Inl ''syntax''\<rparr>"
  have "list_all (json_ok ?j) [True, False]" by (simp add: json_ok_def newline_def blank_def)
  then show ?thesis unfolding Let_def by (rule audit_reads_back) (simp_all add: newline_def blank_def)
qed

end
