(* ===== verification/Vault.thy ===== *)
theory Vault
  imports PublicKey Utf8
begin

text \<open>
  \<open>packages/solana-vault/src\<close>: \<open>vault.ts\<close>, \<open>wallet-handle.ts\<close>, \<open>reserve-guard.ts\<close>, \<open>crypto.ts\<close>
  and \<open>types.ts\<close>. Argon2id, the secret box and ed25519 are parameters; random bytes, the clock,
  balances and failures of the storage arrive with the steps. An operation is a task: what it does
  between two accesses to what it shares (the storage, the map of handles, a handle's key) is one
  step, and the steps of different operations interleave. The base64 text of bytes in a record
  stands for the bytes.
\<close>

section \<open>Records and policies\<close>

record encrypted_record =
  er_name :: string
  er_role :: string
  er_address :: string
  er_salt :: bytes
  er_opslimit :: nat
  er_memlimit :: nat
  er_nonce :: bytes
  er_ciphertext :: bytes
  er_createdAt :: int

datatype audit_event = AuditUnlock | AuditSign | AuditRotate | AuditCreate

datatype vault_error =
    PassphraseShort nat | PassphraseSimple nat | SeedLength nat | AlreadyExists string | NotFound string
  | InvalidPassphrase | ReserveNeedsHooks string | SaltLength nat | KeyLength nat | NonceLength nat | OpenFailed
  | AddressInvalid | WalletLocked | TxShort nat | NotSingleSigner | NoReserveHooks string
  | ReserveBreach string int int | StorageFailed | BalanceFailed

record passphrase_policy =
  pp_minLength :: "nat option"
  pp_minCategories :: "nat option"

definition validatePassphrase :: "ustring \<Rightarrow> passphrase_policy \<Rightarrow> vault_error + unit" where
  "validatePassphrase pp policy =
     (let minLength = (case pp_minLength policy of Some n \<Rightarrow> n | None \<Rightarrow> 12);
          minCategories = (case pp_minCategories policy of Some n \<Rightarrow> n | None \<Rightarrow> 3);
          lower = (\<lambda>c. 97 \<le> c \<and> c \<le> 122); upper = (\<lambda>c. 65 \<le> c \<and> c \<le> 90); digit = (\<lambda>c. 48 \<le> c \<and> c \<le> 57)
      in if length pp < minLength then Inl (PassphraseShort minLength)
         else let categories = length (filter id [list_ex lower pp, list_ex upper pp, list_ex digit pp,
                    list_ex (\<lambda>c. \<not> lower c \<and> \<not> upper c \<and> \<not> digit c) pp])
              in if categories < minCategories then Inl (PassphraseSimple minCategories) else Inr ())"

section \<open>Encryption\<close>

record crypto =
  cr_pwhash :: "ustring \<Rightarrow> bytes \<Rightarrow> nat \<Rightarrow> nat \<Rightarrow> bytes"
  cr_box :: "bytes \<Rightarrow> bytes \<Rightarrow> bytes \<Rightarrow> bytes"                 \<comment> \<open>plaintext, nonce, key\<close>
  cr_box_open :: "bytes \<Rightarrow> bytes \<Rightarrow> bytes \<Rightarrow> bytes option"     \<comment> \<open>ciphertext, nonce, key\<close>
  cr_publicKey :: "bytes \<Rightarrow> bytes"
  cr_sign :: "bytes \<Rightarrow> bytes \<Rightarrow> bytes"                         \<comment> \<open>message, seed\<close>

definition SALTBYTES :: nat where "SALTBYTES = 16"
definition KEYBYTES :: nat where "KEYBYTES = 32"
definition NONCEBYTES :: nat where "NONCEBYTES = 24"

definition deriveKey :: "crypto \<Rightarrow> ustring \<Rightarrow> bytes \<Rightarrow> nat \<Rightarrow> nat \<Rightarrow> vault_error + bytes" where
  "deriveKey c passphrase salt opslimit memlimit =
     (if length salt \<noteq> SALTBYTES then Inl (SaltLength (length salt)) else Inr (cr_pwhash c passphrase salt opslimit memlimit))"

text \<open>\<open>nonce\<close> is what \<open>randombytes_buf\<close> returns.\<close>

definition encrypt :: "crypto \<Rightarrow> bytes \<Rightarrow> bytes \<Rightarrow> bytes \<Rightarrow> vault_error + bytes" where
  "encrypt c key plaintext nonce =
     (if length key \<noteq> KEYBYTES then Inl (KeyLength (length key)) else Inr (cr_box c plaintext nonce key))"

definition decrypt :: "crypto \<Rightarrow> bytes \<Rightarrow> bytes \<Rightarrow> bytes \<Rightarrow> vault_error + bytes" where
  "decrypt c key nonce ciphertext =
     (if length key \<noteq> KEYBYTES then Inl (KeyLength (length key))
      else if length nonce \<noteq> NONCEBYTES then Inl (NonceLength (length nonce))
      else case cr_box_open c ciphertext nonce key of Some pt \<Rightarrow> Inr pt | None \<Rightarrow> Inl OpenFailed)"

text \<open>What an operation draws from its surroundings.\<close>

record vault_input =
  vi_salt :: bytes
  vi_nonce :: bytes
  vi_now :: int
  vi_opslimit :: nat    \<comment> \<open>\<open>kdfParams\<close>: the overrides, or libsodium's moderate tier\<close>
  vi_memlimit :: nat
  vi_balance :: "int option"   \<comment> \<open>\<open>None\<close>: \<open>getBalance\<close> rejects\<close>
  vi_storage :: bool           \<comment> \<open>whether the storage call succeeds\<close>

text \<open>The record \<open>addWallet\<close> writes.\<close>

definition new_record :: "crypto \<Rightarrow> vault_input \<Rightarrow> string \<Rightarrow> string \<Rightarrow> bytes \<Rightarrow> ustring \<Rightarrow> vault_error + encrypted_record" where
  "new_record c i name role seed passphrase =
     rbind (deriveKey c passphrase (vi_salt i) (vi_opslimit i) (vi_memlimit i)) (\<lambda>key.
     rbind (encrypt c key seed (vi_nonce i)) (\<lambda>ciphertext.
       case fromBytes (cr_publicKey c seed) of
         Inl _ \<Rightarrow> Inl AddressInvalid
       | Inr pk \<Rightarrow> Inr \<lparr>er_name = name, er_role = role, er_address = toBase58 pk, er_salt = vi_salt i, er_opslimit = vi_opslimit i,
           er_memlimit = vi_memlimit i, er_nonce = vi_nonce i, er_ciphertext = ciphertext, er_createdAt = vi_now i\<rparr>))"

text \<open>What \<open>unlock\<close> and \<open>rotateKey\<close> do with a record and a passphrase; any failure of \<open>decrypt\<close> reads the same.\<close>

definition open_record :: "crypto \<Rightarrow> encrypted_record \<Rightarrow> ustring \<Rightarrow> vault_error + bytes" where
  "open_record c rec passphrase =
     rbind (deriveKey c passphrase (er_salt rec) (er_opslimit rec) (er_memlimit rec)) (\<lambda>key.
       case decrypt c key (er_nonce rec) (er_ciphertext rec) of Inl _ \<Rightarrow> Inl InvalidPassphrase | Inr seed \<Rightarrow> Inr seed)"

definition rotated_record :: "crypto \<Rightarrow> vault_input \<Rightarrow> encrypted_record \<Rightarrow> ustring \<Rightarrow> ustring \<Rightarrow> vault_error + encrypted_record" where
  "rotated_record c i rec old new =
     rbind (open_record c rec old) (\<lambda>seed.
     rbind (deriveKey c new (vi_salt i) (vi_opslimit i) (vi_memlimit i)) (\<lambda>key.
     rbind (encrypt c key seed (vi_nonce i)) (\<lambda>ciphertext.
       Inr (rec\<lparr>er_salt := vi_salt i, er_opslimit := vi_opslimit i, er_memlimit := vi_memlimit i, er_nonce := vi_nonce i,
         er_ciphertext := ciphertext\<rparr>))))"

section \<open>Handles\<close>

text \<open>The policy of \<open>reserve-guard.ts\<close>: the floor is inclusive.\<close>

definition checkSpend :: "int \<Rightarrow> int \<Rightarrow> int \<Rightarrow> (int \<times> int) option" where
  "checkSpend reserveLamports txEstimatedDelta currentBalance =
     (let projectedBalance = currentBalance + txEstimatedDelta
      in if projectedBalance < reserveLamports then Some (projectedBalance, reserveLamports) else None)"

text \<open>
  \<open>wh_seed\<close> is the buffer \<open>#secretKey\<close> refers to, and \<open>wh_live\<close> whether it does: a signing call that took
  the reference before \<open>_lock\<close> reads the same buffer after it. \<open>wh_name\<close> is the wallet the handle was unlocked for.
\<close>

record wallet_handle =
  wh_name :: string
  wh_role :: string
  wh_address :: pubkey
  wh_seed :: bytes
  wh_live :: bool
  wh_reserve :: "int option"
  wh_getBalance :: bool
  wh_estimateDelta :: "(bytes \<Rightarrow> int) option"

definition lock_handle :: "wallet_handle \<Rightarrow> wallet_handle" where
  "lock_handle h = (if wh_live h then h\<lparr>wh_seed := replicate (length (wh_seed h)) 0, wh_live := False\<rparr> else h)"

definition V0_TX_MIN_LENGTH :: nat where "V0_TX_MIN_LENGTH = 1 + 64 + 1"
definition SIG_SLOT_END :: nat where "SIG_SLOT_END = 1 + 64"

text \<open>\<open>signTransaction\<close> up to its \<open>await\<close> of the balance: the checks, and whether there is a reserve.\<close>

definition sign_checks :: "wallet_handle \<Rightarrow> bytes \<Rightarrow> vault_error + bool" where
  "sign_checks h tx =
     (if \<not> wh_live h then Inl WalletLocked
      else if length tx < V0_TX_MIN_LENGTH then Inl (TxShort (length tx))
      else if jat tx 0 \<noteq> Some 1 then Inl NotSingleSigner
      else case wh_reserve h of
             None \<Rightarrow> Inr False
           | Some _ \<Rightarrow> if \<not> wh_getBalance h \<or> wh_estimateDelta h = None then Inl (NoReserveHooks (wh_role h)) else Inr True)"

text \<open>The signature goes into its slot of a copy.\<close>

definition signed_tx :: "crypto \<Rightarrow> wallet_handle \<Rightarrow> bytes \<Rightarrow> bytes" where
  "signed_tx c h tx = take 1 tx @ cr_sign c (drop SIG_SLOT_END tx) (wh_seed h) @ drop (1 + length (cr_sign c (drop SIG_SLOT_END tx) (wh_seed h))) tx"

definition reserve_check :: "wallet_handle \<Rightarrow> bytes \<Rightarrow> int \<Rightarrow> vault_error + unit" where
  "reserve_check h tx balance =
     (case (wh_reserve h, wh_estimateDelta h) of
        (Some reserve, Some estimate) \<Rightarrow>
          (case checkSpend reserve (estimate tx) balance of
             Some (projected, r) \<Rightarrow> Inl (ReserveBreach (wh_role h) projected r)
           | None \<Rightarrow> Inr ())
      | _ \<Rightarrow> Inr ())"

section \<open>The vault\<close>

datatype vault_task =
    AddRead string string bytes ustring bool
  | AddWrite string encrypted_record
  | UnlockRead string ustring bool "(bytes \<Rightarrow> int) option"
  | UnlockInstall string encrypted_record ustring bool "(bytes \<Rightarrow> int) option"
  | RotateRead string ustring ustring
  | RotateWrite string encrypted_record
  | SignAwaitBalance nat bytes
  | Audit string audit_event vault_task   \<comment> \<open>append an entry, then go on\<close>
  | Added
  | Unlocked nat
  | Rotated
  | SignedMessage bytes
  | SignedTx bytes
  | Threw vault_error

record vault =
  va_policy :: passphrase_policy
  va_reserves :: "string \<Rightarrow> int option"      \<comment> \<open>\<open>solReserveByRole\<close>\<close>
  va_records :: "string \<Rightarrow> encrypted_record option"   \<comment> \<open>the storage\<close>
  va_audit :: "(string \<times> audit_event) list"
  va_unlocked :: "(string, nat) jsmap"
  va_handles :: "wallet_handle list"
  va_tasks :: "vault_task list"
  va_signatures :: "(nat \<times> bytes \<times> bytes \<times> int option) list"   \<comment> \<open>handle, transaction, key used, balance read\<close>

definition on_handle :: "nat \<Rightarrow> (wallet_handle \<Rightarrow> wallet_handle) \<Rightarrow> vault \<Rightarrow> vault" where
  "on_handle h f v = v\<lparr>va_handles := (va_handles v)[h := f (va_handles v ! h)]\<rparr>"

definition lock_wallet :: "string \<Rightarrow> vault \<Rightarrow> vault" where
  "lock_wallet name v =
     (case jm_get (va_unlocked v) name of
        Some h \<Rightarrow> (on_handle h lock_handle v)\<lparr>va_unlocked := jm_delete (va_unlocked v) name\<rparr>
      | None \<Rightarrow> v)"

definition lockAll :: "vault \<Rightarrow> vault" where
  "lockAll v = (fold (\<lambda>h. on_handle h lock_handle) (jm_values (va_unlocked v)) v)\<lparr>va_unlocked := []\<rparr>"

text \<open>\<open>unlock\<close> once the key is derived: without an \<open>await\<close> up to the audit entry.\<close>

definition install :: "crypto \<Rightarrow> string \<Rightarrow> encrypted_record \<Rightarrow> bytes \<Rightarrow> bool \<Rightarrow> (bytes \<Rightarrow> int) option \<Rightarrow> vault \<Rightarrow> vault_task \<times> vault" where
  "install c name rec seed hasBalance estimate v =
     (let v = (case jm_get (va_unlocked v) name of Some h \<Rightarrow> on_handle h lock_handle v | None \<Rightarrow> v)
      in case fromBase58 (er_address rec) of
           Inl _ \<Rightarrow> (Threw AddressInvalid, v)
         | Inr address \<Rightarrow>
             (let reserve = va_reserves v (er_role rec)
              in if reserve \<noteq> None \<and> (\<not> hasBalance \<or> Option.is_none estimate) then (Threw (ReserveNeedsHooks (er_role rec)), v)
                 else if length seed \<noteq> 32 then (Threw (SeedLength (length seed)), v)
                 else let h = length (va_handles v)
                      in (Audit name AuditUnlock (Unlocked h),
                          v\<lparr>va_handles := va_handles v @ [\<lparr>wh_name = name, wh_role = er_role rec, wh_address = address, wh_seed = seed,
                              wh_live = True, wh_reserve = reserve, wh_getBalance = hasBalance, wh_estimateDelta = estimate\<rparr>],
                            va_unlocked := jm_set (va_unlocked v) name h\<rparr>)))"

text \<open>The signature, and the audit entry after it.\<close>

definition put_signature :: "crypto \<Rightarrow> nat \<Rightarrow> bytes \<Rightarrow> int option \<Rightarrow> vault \<Rightarrow> vault_task \<times> vault" where
  "put_signature c h tx balance v =
     (let x = va_handles v ! h
      in (Audit (wh_name x) AuditSign (SignedTx (signed_tx c x tx)), v\<lparr>va_signatures := va_signatures v @ [(h, tx, wh_seed x, balance)]\<rparr>))"

text \<open>The next step of a task.\<close>

fun task_step :: "crypto \<Rightarrow> vault_input \<Rightarrow> vault_task \<Rightarrow> vault \<Rightarrow> vault_task \<times> vault" where
  "task_step c i (AddRead name role seed passphrase overwrite) v =
     (if \<not> vi_storage i then (Threw StorageFailed, v)
      else if va_records v name \<noteq> None \<and> \<not> overwrite then (Threw (AlreadyExists name), v)
      else case new_record c i name role seed passphrase of Inl e \<Rightarrow> (Threw e, v) | Inr rec \<Rightarrow> (AddWrite name rec, v))"
| "task_step c i (AddWrite name rec) v =
     (if \<not> vi_storage i then (Threw StorageFailed, v)
      else (Audit name AuditCreate Added, v\<lparr>va_records := (va_records v)(name := Some rec)\<rparr>))"
| "task_step c i (UnlockRead name passphrase hasBalance estimate) v =
     (if \<not> vi_storage i then (Threw StorageFailed, v)
      else case va_records v name of None \<Rightarrow> (Threw (NotFound name), v) | Some rec \<Rightarrow> (UnlockInstall name rec passphrase hasBalance estimate, v))"
| "task_step c i (UnlockInstall name rec passphrase hasBalance estimate) v =
     (case open_record c rec passphrase of Inl e \<Rightarrow> (Threw e, v) | Inr seed \<Rightarrow> install c name rec seed hasBalance estimate v)"
| "task_step c i (RotateRead name old new) v =
     (if \<not> vi_storage i then (Threw StorageFailed, v)
      else case va_records v name of
             None \<Rightarrow> (Threw (NotFound name), v)
           | Some rec \<Rightarrow> (case rotated_record c i rec old new of Inl e \<Rightarrow> (Threw e, v) | Inr rec' \<Rightarrow> (RotateWrite name rec', v)))"
| "task_step c i (RotateWrite name rec) v =
     (if \<not> vi_storage i then (Threw StorageFailed, v)
      else (Audit name AuditRotate Rotated, v\<lparr>va_records := (va_records v)(name := Some rec)\<rparr>))"
| "task_step c i (SignAwaitBalance h tx) v =
     (case vi_balance i of
        None \<Rightarrow> (Threw BalanceFailed, v)
      | Some balance \<Rightarrow>
          (case reserve_check (va_handles v ! h) tx balance of Inl e \<Rightarrow> (Threw e, v) | Inr _ \<Rightarrow> put_signature c h tx (Some balance) v))"
| "task_step c i (Audit name ev k) v =
     (if \<not> vi_storage i then (Threw StorageFailed, v) else (k, v\<lparr>va_audit := va_audit v @ [(name, ev)]\<rparr>))"
| "task_step c i t v = (t, v)"

text \<open>The calls: what they do before their first access.\<close>

definition addWallet :: "string \<Rightarrow> string \<Rightarrow> bytes \<Rightarrow> ustring \<Rightarrow> bool \<Rightarrow> vault \<Rightarrow> vault_task" where
  "addWallet name role seed passphrase overwrite v =
     (case validatePassphrase passphrase (va_policy v) of
        Inl e \<Rightarrow> Threw e
      | Inr _ \<Rightarrow> if length seed \<noteq> 32 then Threw (SeedLength (length seed)) else AddRead name role seed passphrase overwrite)"

definition rotateKey :: "string \<Rightarrow> ustring \<Rightarrow> ustring \<Rightarrow> vault \<Rightarrow> vault_task" where
  "rotateKey name old new v = (case validatePassphrase new (va_policy v) of Inl e \<Rightarrow> Threw e | Inr _ \<Rightarrow> RotateRead name old new)"

definition sign_message :: "crypto \<Rightarrow> nat \<Rightarrow> bytes \<Rightarrow> vault \<Rightarrow> vault_task" where
  "sign_message c h message v =
     (let x = va_handles v ! h
      in if \<not> wh_live x then Threw WalletLocked else Audit (wh_name x) AuditSign (SignedMessage (cr_sign c message (wh_seed x))))"

definition signTransaction :: "crypto \<Rightarrow> nat \<Rightarrow> bytes \<Rightarrow> vault \<Rightarrow> vault_task \<times> vault" where
  "signTransaction c h tx v =
     (case sign_checks (va_handles v ! h) tx of
        Inl e \<Rightarrow> (Threw e, v)
      | Inr True \<Rightarrow> (SignAwaitBalance h tx, v)
      | Inr False \<Rightarrow> put_signature c h tx None v)"

datatype vault_label =
    CallAdd string string bytes ustring bool | CallUnlock string ustring bool "(bytes \<Rightarrow> int) option" | CallRotate string ustring ustring
  | CallSign nat bytes | CallSignTransaction nat bytes | CallLock string | CallLockAll | Go nat vault_input

definition add_task :: "vault_task \<times> vault \<Rightarrow> vault" where
  "add_task r = (case r of (t, v) \<Rightarrow> v\<lparr>va_tasks := va_tasks v @ [t]\<rparr>)"

fun vault_step :: "crypto \<Rightarrow> vault_label \<Rightarrow> vault \<Rightarrow> vault option" where
  "vault_step c (CallAdd name role seed passphrase overwrite) v = Some (add_task (addWallet name role seed passphrase overwrite v, v))"
| "vault_step c (CallUnlock name passphrase hasBalance estimate) v = Some (add_task (UnlockRead name passphrase hasBalance estimate, v))"
| "vault_step c (CallRotate name old new) v = Some (add_task (rotateKey name old new v, v))"
| "vault_step c (CallSign h message) v = (if h < length (va_handles v) then Some (add_task (sign_message c h message v, v)) else None)"
| "vault_step c (CallSignTransaction h tx) v = (if h < length (va_handles v) then Some (add_task (signTransaction c h tx v)) else None)"
| "vault_step c (CallLock name) v = Some (lock_wallet name v)"
| "vault_step c CallLockAll v = Some (lockAll v)"
| "vault_step c (Go n i) v =
     (if n < length (va_tasks v)
      then (case task_step c i (va_tasks v ! n) v of (t, v') \<Rightarrow> Some (v'\<lparr>va_tasks := (va_tasks v')[n := t]\<rparr>))
      else None)"

fun vault_steps :: "crypto \<Rightarrow> vault_label list \<Rightarrow> vault \<Rightarrow> vault option" where
  "vault_steps c [] v = Some v"
| "vault_steps c (l # ls) v = Option.bind (vault_step c l v) (vault_steps c ls)"

definition new_vault :: "passphrase_policy \<Rightarrow> (string \<Rightarrow> int option) \<Rightarrow> vault" where
  "new_vault policy reserves = \<lparr>va_policy = policy, va_reserves = reserves, va_records = (\<lambda>_. None), va_audit = [], va_unlocked = [],
     va_handles = [], va_tasks = [], va_signatures = []\<rparr>"

text \<open>\<open>list\<close>: the metadata of the names the storage lists; a record that is gone is skipped.\<close>

definition list_wallets :: "string list \<Rightarrow> vault \<Rightarrow> (string \<times> string \<times> string \<times> int) list" where
  "list_wallets names v = List.map_filter (\<lambda>n. map_option (\<lambda>rec. (er_name rec, er_role rec, er_address rec, er_createdAt rec)) (va_records v n)) names"

section \<open>Records open to their seeds\<close>

text \<open>
  What the vault relies on: the derived key has 32 bytes, a sealed box opens under its key, and under no
  other (the authentication of \<open>crypto_secretbox_open_easy\<close>), and public keys have 32 bytes.
\<close>

definition crypto_ok :: "crypto \<Rightarrow> bool" where
  "crypto_ok c \<longleftrightarrow> (\<forall>pp salt ops mem. length (cr_pwhash c pp salt ops mem) = KEYBYTES) \<and>
     (\<forall>pt n k k'. length k = KEYBYTES \<longrightarrow> length k' = KEYBYTES \<longrightarrow> cr_box_open c (cr_box c pt n k) n k' = (if k' = k then Some pt else None)) \<and>
     (\<forall>seed. length (cr_publicKey c seed) = 32)"

text \<open>The inputs a step may bring: libsodium's random buffers have the length that was asked for.\<close>

definition input_ok :: "vault_input \<Rightarrow> bool" where
  "input_ok i \<longleftrightarrow> length (vi_salt i) = SALTBYTES \<and> length (vi_nonce i) = NONCEBYTES"

definition record_key :: "crypto \<Rightarrow> encrypted_record \<Rightarrow> ustring \<Rightarrow> bytes" where
  "record_key c rec pp = cr_pwhash c pp (er_salt rec) (er_opslimit rec) (er_memlimit rec)"

text \<open>\<open>rec\<close> is sealed under the passphrase \<open>pp\<close> and holds \<open>seed\<close>.\<close>

definition seals :: "crypto \<Rightarrow> encrypted_record \<Rightarrow> ustring \<Rightarrow> bytes \<Rightarrow> bool" where
  "seals c rec pp seed \<longleftrightarrow> length (er_salt rec) = SALTBYTES \<and> length (er_nonce rec) = NONCEBYTES \<and>
     er_ciphertext rec = cr_box c seed (er_nonce rec) (record_key c rec pp) \<and>
     er_address rec = toBase58 (Abs_pubkey (cr_publicKey c seed))"

lemma seals_open:
  assumes "crypto_ok c" and "seals c rec pp seed"
  shows "open_record c rec pp' = (if record_key c rec pp' = record_key c rec pp then Inr seed else Inl InvalidPassphrase)"
  using assms by (simp add: open_record_def deriveKey_def decrypt_def seals_def crypto_ok_def record_key_def)

lemma new_record_seals:
  assumes "crypto_ok c" and "input_ok i" and "new_record c i name role seed pp = Inr rec"
  shows "seals c rec pp seed \<and> er_name rec = name \<and> er_role rec = role \<and> er_createdAt rec = vi_now i"
proof -
  have "cr_publicKey c seed = toBuffer (Abs_pubkey (cr_publicKey c seed))" using assms(1) by (simp add: crypto_ok_def)
  then have "fromBytes (cr_publicKey c seed) = Inr (Abs_pubkey (cr_publicKey c seed))" using fromBytes_toBuffer by metis
  then show ?thesis using assms
    by (auto simp: new_record_def deriveKey_def encrypt_def seals_def record_key_def input_ok_def rbind_def split: if_splits)
qed

lemma rotated_record_seals:
  assumes "crypto_ok c" and "input_ok i" and "rotated_record c i rec old new = Inr rec'" and "seals c rec pp seed"
  shows "seals c rec' new seed \<and> er_name rec' = er_name rec \<and> er_role rec' = er_role rec \<and> er_address rec' = er_address rec \<and>
    er_createdAt rec' = er_createdAt rec"
  using assms
  by (auto simp: rotated_record_def seals_open deriveKey_def encrypt_def record_key_def input_ok_def rbind_def seals_def split: if_splits)

section \<open>The invariant\<close>

definition record_ok :: "crypto \<Rightarrow> encrypted_record \<Rightarrow> bool" where
  "record_ok c rec \<longleftrightarrow> (\<exists>pp seed. seals c rec pp seed)"

text \<open>A live handle holds the seed of its address, a locked one nothing but zeros.\<close>

definition handle_ok :: "crypto \<Rightarrow> wallet_handle \<Rightarrow> bool" where
  "handle_ok c h \<longleftrightarrow> (if wh_live h then length (wh_seed h) = 32 \<and> toBuffer (wh_address h) = cr_publicKey c (wh_seed h)
     else wh_seed h = replicate 32 0)"

definition map_ok :: "vault \<Rightarrow> bool" where
  "map_ok v \<longleftrightarrow> (\<forall>name h. jm_get (va_unlocked v) name = Some h \<longrightarrow> h < length (va_handles v) \<and> wh_name (va_handles v ! h) = name) \<and>
     (\<forall>h < length (va_handles v). wh_live (va_handles v ! h) \<longrightarrow> jm_get (va_unlocked v) (wh_name (va_handles v ! h)) = Some h)"

definition signature_ok :: "crypto \<Rightarrow> wallet_handle list \<Rightarrow> nat \<times> bytes \<times> bytes \<times> int option \<Rightarrow> bool" where
  "signature_ok c hs sig \<longleftrightarrow>
     (case sig of (h, tx, key, balance) \<Rightarrow> h < length hs \<and>
        (key = replicate 32 0 \<or> toBuffer (wh_address (hs ! h)) = cr_publicKey c key) \<and>
        (case wh_reserve (hs ! h) of
           None \<Rightarrow> True
         | Some reserve \<Rightarrow> (\<exists>b estimate. balance = Some b \<and> wh_estimateDelta (hs ! h) = Some estimate \<and> reserve \<le> b + estimate tx)))"

fun task_ok :: "crypto \<Rightarrow> wallet_handle list \<Rightarrow> vault_task \<Rightarrow> bool" where
  "task_ok c hs (AddWrite _ rec) \<longleftrightarrow> record_ok c rec"
| "task_ok c hs (UnlockInstall _ rec _ _ _) \<longleftrightarrow> record_ok c rec"
| "task_ok c hs (RotateWrite _ rec) \<longleftrightarrow> record_ok c rec"
| "task_ok c hs (SignAwaitBalance h _) \<longleftrightarrow> h < length hs \<and> wh_estimateDelta (hs ! h) \<noteq> None"
| "task_ok c hs (Audit _ _ k) \<longleftrightarrow> task_ok c hs k"
| "task_ok c hs _ \<longleftrightarrow> True"

definition vault_ok :: "crypto \<Rightarrow> vault \<Rightarrow> bool" where
  "vault_ok c v \<longleftrightarrow> map_ok v \<and> list_all (handle_ok c) (va_handles v) \<and> (\<forall>name rec. va_records v name = Some rec \<longrightarrow> record_ok c rec) \<and>
     list_all (task_ok c (va_handles v)) (va_tasks v) \<and> list_all (signature_ok c (va_handles v)) (va_signatures v)"

text \<open>What stays of a handle.\<close>

definition handles_extend :: "wallet_handle list \<Rightarrow> wallet_handle list \<Rightarrow> bool" where
  "handles_extend hs hs' \<longleftrightarrow> length hs \<le> length hs' \<and> (\<forall>h < length hs. wh_name (hs' ! h) = wh_name (hs ! h) \<and> wh_address (hs' ! h) = wh_address (hs ! h) \<and>
     wh_reserve (hs' ! h) = wh_reserve (hs ! h) \<and> wh_estimateDelta (hs' ! h) = wh_estimateDelta (hs ! h))"

lemma handles_extend_refl [simp]: "handles_extend hs hs"
  by (simp add: handles_extend_def)

lemma handles_extend_trans: "handles_extend a b \<Longrightarrow> handles_extend b c \<Longrightarrow> handles_extend a c"
  by (auto simp: handles_extend_def)

lemma handles_extend_append: "handles_extend hs (hs @ xs)"
  by (simp add: handles_extend_def nth_append)

lemma handle_at: "k < length (va_handles v) \<Longrightarrow> va_handles (on_handle h f v) ! k = (if k = h then f (va_handles v ! h) else va_handles v ! k)"
  by (simp add: on_handle_def)

lemma length_on_handle [simp]: "length (va_handles (on_handle h f v)) = length (va_handles v)"
  by (simp add: on_handle_def)

lemma handles_extend_lock: "handles_extend (va_handles v) (va_handles (on_handle h lock_handle v))"
  by (simp add: handles_extend_def handle_at lock_handle_def)

lemma signature_ok_extends: "handles_extend hs hs' \<Longrightarrow> signature_ok c hs s \<Longrightarrow> signature_ok c hs' s"
  by (auto simp: handles_extend_def signature_ok_def split: prod.splits option.splits)

lemma task_ok_extends: "handles_extend hs hs' \<Longrightarrow> task_ok c hs t \<Longrightarrow> task_ok c hs' t"
  by (induction t) (auto simp: handles_extend_def)

lemma vault_ok_extends:
  assumes "vault_ok c v" and "handles_extend (va_handles v) (va_handles v')" and "map_ok v'" and "list_all (handle_ok c) (va_handles v')"
    and "va_records v' = va_records v" and "va_tasks v' = va_tasks v" and "va_signatures v' = va_signatures v"
  shows "vault_ok c v'"
  using assms signature_ok_extends[OF assms(2)] task_ok_extends[OF assms(2)] by (auto simp: vault_ok_def list_all_iff)

lemma handle_ok_lock: "handle_ok c h \<Longrightarrow> handle_ok c (lock_handle h)"
  by (simp add: handle_ok_def lock_handle_def)

lemma lock_simps [simp]: "wh_live (lock_handle h) \<longleftrightarrow> False" "wh_name (lock_handle h) = wh_name h"
  by (simp_all add: lock_handle_def)

lemma on_handle_simps [simp]:
  "va_records (on_handle h f v) = va_records v" "va_tasks (on_handle h f v) = va_tasks v" "va_signatures (on_handle h f v) = va_signatures v"
  "va_unlocked (on_handle h f v) = va_unlocked v"
  "va_reserves (on_handle h f v) = va_reserves v" "va_policy (on_handle h f v) = va_policy v"
  by (simp_all add: on_handle_def)

lemma map_ok_lock: "map_ok v \<Longrightarrow> map_ok (on_handle h lock_handle v)"
  by (auto simp: map_ok_def handle_at)

lemma handles_ok_lock: "list_all (handle_ok c) (va_handles v) \<Longrightarrow> list_all (handle_ok c) (va_handles (on_handle h lock_handle v))"
  by (auto simp: list_all_length handle_at handle_ok_lock)

lemma vault_ok_lock_handle: "vault_ok c v \<Longrightarrow> vault_ok c (on_handle h lock_handle v)"
  by (rule vault_ok_extends[OF _ handles_extend_lock]) (simp_all add: vault_ok_def map_ok_lock handles_ok_lock)

lemma vault_ok_lock_wallet:
  assumes "vault_ok c v"
  shows "vault_ok c (lock_wallet name v)"
proof (cases "jm_get (va_unlocked v) name")
  case None
  then show ?thesis using assms by (simp add: lock_wallet_def)
next
  case (Some h)
  let ?v = "on_handle h lock_handle v"
  have ok: "vault_ok c ?v" and m: "map_ok ?v" and m0: "map_ok v" using vault_ok_lock_handle[OF assms, of h] assms by (auto simp: vault_ok_def)
  have "\<not> wh_live (va_handles ?v ! k)" if "k < length (va_handles ?v)" "wh_name (va_handles ?v ! k) = name" for k
    using m that Some m0 handle_at[of h v h lock_handle] by (fastforce simp: map_ok_def)
  then have "map_ok (?v\<lparr>va_unlocked := jm_delete (va_unlocked ?v) name\<rparr>)"
    using m by (auto simp: map_ok_def jm_get_delete)
  then show ?thesis using ok Some vault_ok_extends[OF ok, of "?v\<lparr>va_unlocked := jm_delete (va_unlocked ?v) name\<rparr>"]
    by (simp add: lock_wallet_def vault_ok_def)
qed

lemma fold_lock:
  "va_unlocked (fold (\<lambda>h. on_handle h lock_handle) hs v) = va_unlocked v \<and>
   length (va_handles (fold (\<lambda>h. on_handle h lock_handle) hs v)) = length (va_handles v) \<and>
   (vault_ok c v \<longrightarrow> vault_ok c (fold (\<lambda>h. on_handle h lock_handle) hs v)) \<and>
   (\<forall>k < length (va_handles v). wh_live (va_handles (fold (\<lambda>h. on_handle h lock_handle) hs v) ! k) \<longrightarrow> wh_live (va_handles v ! k) \<and> k \<notin> set hs)"
proof (induction hs arbitrary: v)
  case (Cons h hs)
  show ?case using Cons.IH[of "on_handle h lock_handle v"] vault_ok_lock_handle[of c v h] by (auto simp: handle_at split: if_splits)
qed simp

lemma vault_ok_lockAll:
  assumes "vault_ok c v"
  shows "vault_ok c (lockAll v)"
proof -
  let ?v = "fold (\<lambda>h. on_handle h lock_handle) (jm_values (va_unlocked v)) v"
  note f = fold_lock[of "jm_values (va_unlocked v)" v c]
  have "\<not> wh_live (va_handles ?v ! k)" if "k < length (va_handles v)" for k
  proof
    assume "wh_live (va_handles ?v ! k)"
    then have "wh_live (va_handles v ! k)" "k \<notin> set (jm_values (va_unlocked v))" using f that by auto
    moreover have "jm_get (va_unlocked v) (wh_name (va_handles v ! k)) = Some k" using assms that calculation(1) by (auto simp: vault_ok_def map_ok_def)
    ultimately show False by (force simp: jm_values_def dest: map_of_SomeD)
  qed
  then have "map_ok (?v\<lparr>va_unlocked := []\<rparr>)" using f by (simp add: map_ok_def)
  then show ?thesis using f assms vault_ok_extends[of c ?v "?v\<lparr>va_unlocked := []\<rparr>"] by (simp add: lockAll_def vault_ok_def)
qed

text \<open>Tasks that are added or replaced.\<close>

lemma vault_ok_add: "vault_ok c v \<Longrightarrow> task_ok c (va_handles v) t \<Longrightarrow> vault_ok c (add_task (t, v))"
  by (auto simp: vault_ok_def add_task_def map_ok_def)

lemma vault_ok_put: "vault_ok c v \<Longrightarrow> task_ok c (va_handles v) t \<Longrightarrow> vault_ok c (v\<lparr>va_tasks := (va_tasks v)[n := t]\<rparr>)"
  by (auto simp: vault_ok_def map_ok_def list_all_iff dest!: set_update_subset_insert[THEN subsetD])

lemma install_ok:
  assumes "crypto_ok c" and "vault_ok c v" and "seals c rec pp seed" and "install c name rec seed hb est v = (t, v')"
  shows "vault_ok c v' \<and> task_ok c (va_handles v') t"
proof -
  define u where "u = (case jm_get (va_unlocked v) name of Some h \<Rightarrow> on_handle h lock_handle v | None \<Rightarrow> v)"
  have ok: "vault_ok c u" using assms(2) vault_ok_lock_handle by (auto simp: u_def split: option.splits)
  have same: "va_unlocked u = va_unlocked v" "va_reserves u = va_reserves v" by (auto simp: u_def split: option.splits)
  have dead: "\<not> wh_live (va_handles u ! k)" if "k < length (va_handles u)" "wh_name (va_handles u ! k) = name" for k
  proof
    assume l: "wh_live (va_handles u ! k)"
    then have k: "jm_get (va_unlocked v) name = Some k" using ok that same(1) by (auto simp: vault_ok_def map_ok_def)
    then show False using l that handle_at[of k v k lock_handle] by (simp add: u_def)
  qed
  let ?h = "length (va_handles u)"
  let ?x = "\<lambda>address. \<lparr>wh_name = name, wh_role = er_role rec, wh_address = address, wh_seed = seed,
       wh_live = True, wh_reserve = va_reserves v (er_role rec), wh_getBalance = hb, wh_estimateDelta = est\<rparr>"
  have i: "(t, v') = (case fromBase58 (er_address rec) of
      Inl _ \<Rightarrow> (Threw AddressInvalid, u)
    | Inr address \<Rightarrow>
        if va_reserves v (er_role rec) \<noteq> None \<and> (\<not> hb \<or> Option.is_none est) then (Threw (ReserveNeedsHooks (er_role rec)), u)
        else if length seed \<noteq> 32 then (Threw (SeedLength (length seed)), u)
        else (Audit name AuditUnlock (Unlocked ?h), u\<lparr>va_handles := va_handles u @ [?x address], va_unlocked := jm_set (va_unlocked v) name ?h\<rparr>))"
    using assms(4)[symmetric] unfolding install_def Let_def u_def[symmetric] same .
  have a: "fromBase58 (er_address rec) = Inr (Abs_pubkey (cr_publicKey c seed))" using assms(3) by (simp add: seals_def)
  let ?v = "u\<lparr>va_handles := va_handles u @ [?x (Abs_pubkey (cr_publicKey c seed))], va_unlocked := jm_set (va_unlocked v) name ?h\<rparr>"
  show ?thesis
  proof (cases "length seed = 32")
    case True
    have x: "handle_ok c (?x (Abs_pubkey (cr_publicKey c seed)))" using True assms(1) by (simp add: handle_ok_def crypto_ok_def)
    have "map_ok ?v" unfolding map_ok_def using ok dead same(1) by (auto simp: vault_ok_def map_ok_def jm_get_set nth_append less_Suc_eq)
    then have "vault_ok c ?v" using ok x handles_extend_append[of "va_handles u"] vault_ok_extends[OF ok, of ?v] by (simp add: vault_ok_def)
    then show ?thesis using i ok by (simp add: a split: if_splits)
  next
    case False
    then show ?thesis using i ok by (simp add: a split: if_splits)
  qed
qed

lemma put_signature_ok:
  assumes "vault_ok c v" and "h < length (va_handles v)" and "signature_ok c (va_handles v) (h, tx, wh_seed (va_handles v ! h), balance)"
    and "put_signature c h tx balance v = (t, v')"
  shows "vault_ok c v' \<and> task_ok c (va_handles v') t \<and> va_handles v' = va_handles v"
  using assms by (auto simp: put_signature_def Let_def vault_ok_def map_ok_def)

lemma key_used: "vault_ok c v \<Longrightarrow> h < length (va_handles v) \<Longrightarrow>
    wh_seed (va_handles v ! h) = replicate 32 0 \<or> toBuffer (wh_address (va_handles v ! h)) = cr_publicKey c (wh_seed (va_handles v ! h))"
  by (auto simp: vault_ok_def list_all_length handle_ok_def split: if_splits)

lemma vault_ok_record:
  assumes "vault_ok c v" and "record_ok c rec"
  shows "vault_ok c (v\<lparr>va_records := (va_records v)(name := Some rec)\<rparr>)"
  using assms by (auto simp: vault_ok_def map_ok_def)

lemma vault_ok_audit: "vault_ok c v \<Longrightarrow> vault_ok c (v\<lparr>va_audit := a\<rparr>)"
  by (auto simp: vault_ok_def map_ok_def)

lemma task_step_ok:
  assumes "crypto_ok c" and "input_ok i" and "vault_ok c v" and "task_ok c (va_handles v) t" and "task_step c i t v = (t', v')"
  shows "vault_ok c v' \<and> task_ok c (va_handles v') t'"
proof (cases t)
  case (AddRead name role seed pp overwrite)
  then show ?thesis using assms new_record_seals[OF assms(1,2)]
    by (fastforce simp: record_ok_def split: if_splits sum.splits)
next
  case (AddWrite name rec)
  then show ?thesis using assms vault_ok_record[OF assms(3)] by (auto split: if_splits)
next
  case (UnlockRead name pp hb est)
  then show ?thesis using assms by (auto simp: vault_ok_def split: if_splits option.splits)
next
  case (UnlockInstall name rec pp hb est)
  then obtain pp0 seed0 where s: "seals c rec pp0 seed0" using assms(4) by (auto simp: record_ok_def)
  show ?thesis
  proof (cases "open_record c rec pp")
    case (Inl e)
    then show ?thesis using assms UnlockInstall by auto
  next
    case (Inr seed)
    then have "seed = seed0" using seals_open[OF assms(1) s, of pp] by (simp split: if_splits)
    then show ?thesis using install_ok[OF assms(1,3) s] assms(5) UnlockInstall Inr by simp
  qed
next
  case (RotateRead name old new)
  have "record_ok c rec'" if "va_records v name = Some rec" "rotated_record c i rec old new = Inr rec'" for rec rec'
    using that assms(3) rotated_record_seals[OF assms(1,2) that(2)] by (fastforce simp: vault_ok_def record_ok_def)
  then show ?thesis using assms RotateRead by (auto split: if_splits sum.splits option.splits)
next
  case (RotateWrite name rec)
  then show ?thesis using assms vault_ok_record[OF assms(3)] by (auto split: if_splits)
next
  case (SignAwaitBalance h tx)
  let ?h = "va_handles v ! h"
  have h: "h < length (va_handles v)" "wh_estimateDelta ?h \<noteq> None" using assms(4) SignAwaitBalance by simp_all
  have "signature_ok c (va_handles v) (h, tx, wh_seed ?h, Some b)" if "reserve_check ?h tx b = Inr x" for b x
    using that h key_used[OF assms(3) h(1)]
    by (auto simp: signature_ok_def reserve_check_def checkSpend_def Let_def split: option.splits if_splits prod.splits)
  note checked = this
  show ?thesis
  proof (cases "vi_balance i")
    case None
    then show ?thesis using assms(3,5) SignAwaitBalance by auto
  next
    case (Some b)
    show ?thesis
    proof (cases "reserve_check ?h tx b")
      case (Inl e)
      then show ?thesis using assms(3,5) SignAwaitBalance Some by auto
    next
      case (Inr x)
      have "put_signature c h tx (Some b) v = (t', v')" using assms(5) SignAwaitBalance Some Inr by simp
      then show ?thesis using put_signature_ok[OF assms(3) h(1) checked[OF Inr]] by blast
    qed
  qed
next
  case (Audit name ev k)
  then show ?thesis using assms vault_ok_audit[OF assms(3)] by (auto split: if_splits)
qed (use assms in auto)

lemma signTransaction_ok:
  assumes "vault_ok c v" and "h < length (va_handles v)" and "signTransaction c h tx v = (t, v')"
  shows "vault_ok c v' \<and> task_ok c (va_handles v') t"
proof -
  let ?h = "va_handles v ! h"
  have "signature_ok c (va_handles v) (h, tx, wh_seed ?h, None)" if "sign_checks ?h tx = Inr False"
    using that assms(2) key_used[OF assms(1,2)] by (auto simp: signature_ok_def sign_checks_def split: option.splits if_splits)
  note checked = this
  have hooks: "wh_estimateDelta ?h \<noteq> None" if "sign_checks ?h tx = Inr True"
    using that by (auto simp: sign_checks_def split: option.splits if_splits)
  consider e where "sign_checks ?h tx = Inl e" | "sign_checks ?h tx = Inr True" | "sign_checks ?h tx = Inr False"
    by (metis sum.exhaust)
  then show ?thesis
  proof cases
    case 2
    then show ?thesis using assms hooks[OF 2] by (auto simp: signTransaction_def)
  next
    case 3
    then show ?thesis using assms(3) put_signature_ok[OF assms(1,2) checked[OF 3]] 3 by (auto simp: signTransaction_def)
  qed (use assms in \<open>auto simp: signTransaction_def\<close>)
qed

lemma vault_step_ok:
  assumes "crypto_ok c" and "vault_step c l v = Some v'" and "vault_ok c v" and "\<And>n i. l = Go n i \<Longrightarrow> input_ok i"
  shows "vault_ok c v'"
proof (cases l)
  case (Go n i)
  then have n: "n < length (va_tasks v)" using assms(2) by (auto split: if_splits)
  obtain t u where s: "task_step c i (va_tasks v ! n) v = (t, u)" by fastforce
  have "task_ok c (va_handles v) (va_tasks v ! n)" using assms(3) n by (simp add: vault_ok_def list_all_length)
  then show ?thesis using task_step_ok[OF assms(1) assms(4)[OF Go] assms(3) _ s] assms(2) Go n s vault_ok_put by (auto split: if_splits)
next
  case (CallSignTransaction h tx)
  then have h: "h < length (va_handles v)" using assms(2) by (simp split: if_splits)
  obtain t u where t: "signTransaction c h tx v = (t, u)" by fastforce
  have "v' = add_task (t, u)" using assms(2) CallSignTransaction h t by simp
  then show ?thesis using signTransaction_ok[OF assms(3) h t] vault_ok_add by simp
next
  case (CallSign h m)
  then show ?thesis using assms(2) vault_ok_add[OF assms(3)] by (auto simp: sign_message_def Let_def split: if_splits)
next
  case (CallAdd name role seed pp ow)
  then show ?thesis using assms(2) vault_ok_add[OF assms(3)] by (auto simp: addWallet_def split: sum.splits if_splits)
next
  case (CallRotate name old new)
  then show ?thesis using assms(2) vault_ok_add[OF assms(3)] by (auto simp: rotateKey_def split: sum.splits)
next
  case (CallUnlock name pp hb est)
  then show ?thesis using assms(2) vault_ok_add[OF assms(3)] by auto
qed (use assms(2,3) vault_ok_lock_wallet vault_ok_lockAll in auto)

inductive vault_reach :: "crypto \<Rightarrow> vault \<Rightarrow> bool" for c where
  new: "vault_reach c (new_vault policy reserves)"
| step: "vault_reach c v \<Longrightarrow> vault_step c l v = Some v' \<Longrightarrow> (\<And>n i. l = Go n i \<Longrightarrow> input_ok i) \<Longrightarrow> vault_reach c v'"

lemma vault_reach_ok: "vault_reach c v \<Longrightarrow> crypto_ok c \<Longrightarrow> vault_ok c v"
proof (induction rule: vault_reach.induct)
  case new
  show ?case by (simp add: vault_ok_def map_ok_def new_vault_def)
next
  case (step v l v')
  show ?case by (rule vault_step_ok[OF step.prems step.hyps(2) step.IH[OF step.prems] step.hyps(3)])
qed

section \<open>What the vault promises\<close>

text \<open>
  C26. The handles of a vault are well formed, whatever operations overlap: a live handle is the one the vault
  knows under its wallet's name (so no wallet has two live keys), and holds the 32-byte seed of its address; a
  locked handle holds nothing but zeros.
\<close>

theorem handles_well_formed:
  assumes "vault_reach c v" and "crypto_ok c" and "h < length (va_handles v)"
  shows "if wh_live (va_handles v ! h)
    then jm_get (va_unlocked v) (wh_name (va_handles v ! h)) = Some h \<and> length (wh_seed (va_handles v ! h)) = 32 \<and>
      toBuffer (wh_address (va_handles v ! h)) = cr_publicKey c (wh_seed (va_handles v ! h))
    else wh_seed (va_handles v ! h) = replicate 32 0"
proof -
  have "vault_ok c v" by (rule vault_reach_ok[OF assms(1,2)])
  then have "map_ok v" "handle_ok c (va_handles v ! h)" using assms(3) by (simp_all add: vault_ok_def list_all_length)
  then show ?thesis using assms(3) by (auto simp: map_ok_def handle_ok_def)
qed

text \<open>
  C27. No transaction of a wallet with a reserve is signed unless the balance that was read for it and the
  estimate of its change leave the reserve untouched; and the key used is that of the handle's address, or the
  zeros of a handle locked meanwhile.
\<close>

theorem signed_within_reserve:
  assumes "vault_reach c v" and "crypto_ok c" and "(h, tx, key, balance) \<in> set (va_signatures v)" and "wh_reserve (va_handles v ! h) = Some reserve"
  shows "\<exists>b estimate. balance = Some b \<and> wh_estimateDelta (va_handles v ! h) = Some estimate \<and> reserve \<le> b + estimate tx \<and>
    (key = replicate 32 0 \<or> toBuffer (wh_address (va_handles v ! h)) = cr_publicKey c key)"
proof -
  have "signature_ok c (va_handles v) (h, tx, key, balance)" using vault_reach_ok[OF assms(1,2)] assms(3) by (auto simp: vault_ok_def list_all_iff)
  then show ?thesis using assms(4) by (auto simp: signature_ok_def)
qed

text \<open>
  A stored wallet opens, with its passphrase, to the seed that was added; after a rotation it opens with the new
  passphrase to the same seed, at the same address and with its other fields unchanged, and every passphrase
  that derives another key is refused as invalid.
\<close>

theorem wallet_roundtrip:
  assumes "crypto_ok c" and "input_ok i" and "input_ok i'" and "new_record c i name role seed pp = Inr rec"
    and "rotated_record c i' rec pp new = Inr rec'"
  shows "open_record c rec pp = Inr seed \<and> open_record c rec' new = Inr seed \<and> er_address rec = toBase58 (Abs_pubkey (cr_publicKey c seed)) \<and>
    er_address rec' = er_address rec \<and> er_name rec' = name \<and> er_role rec' = role \<and> er_createdAt rec' = er_createdAt rec \<and>
    (if record_key c rec' other = record_key c rec' new then open_record c rec' other = Inr seed
     else open_record c rec' other = Inl InvalidPassphrase)"
proof -
  have s: "seals c rec pp seed" "er_name rec = name" "er_role rec = role" using new_record_seals[OF assms(1,2,4)] by simp_all
  have r: "seals c rec' new seed" "er_name rec' = er_name rec" "er_role rec' = er_role rec" "er_address rec' = er_address rec"
    "er_createdAt rec' = er_createdAt rec" using rotated_record_seals[OF assms(1,3,5) s(1)] by simp_all
  have "er_address rec = toBase58 (Abs_pubkey (cr_publicKey c seed))" using s(1) unfolding seals_def by blast
  then show ?thesis using seals_open[OF assms(1) s(1), of pp] seals_open[OF assms(1) r(1)] s r by simp
qed

section \<open>Examples\<close>

definition toy_crypto :: crypto where
  "toy_crypto = \<lparr>cr_pwhash = \<lambda>pp _ _ _. take 32 (map word_of_nat pp @ replicate 32 0), cr_box = \<lambda>pt _ k. k @ pt,
     cr_box_open = \<lambda>ct _ k. if take 32 ct = k then Some (drop 32 ct) else None,
     cr_publicKey = \<lambda>seed. take 32 (seed @ replicate 32 0), cr_sign = \<lambda>_ seed. seed @ seed\<rparr>"

lemma toy_crypto_ok: "crypto_ok toy_crypto"
  by (auto simp: crypto_ok_def toy_crypto_def KEYBYTES_def min_def)

definition toy_input :: vault_input where
  "toy_input = \<lparr>vi_salt = replicate 16 3, vi_nonce = replicate 24 4, vi_now = 0, vi_opslimit = 1, vi_memlimit = 1, vi_balance = Some 100, vi_storage = True\<rparr>"

lemma toy_input_ok: "input_ok toy_input"
  by (simp add: input_ok_def toy_input_def SALTBYTES_def NONCEBYTES_def)

definition toy_vault :: vault where
  "toy_vault = new_vault \<lparr>pp_minLength = Some 0, pp_minCategories = Some 0\<rparr> (\<lambda>role. if role = ''trader'' then Some 50 else None)"

definition toy_seed :: "byte \<Rightarrow> bytes" where
  "toy_seed b = replicate 32 b"

definition toy_tx :: bytes where
  "toy_tx = 1 # replicate 65 0"

definition toy_unlocked :: "vault_label list" where
  "toy_unlocked = [CallAdd ''hot'' ''trader'' (toy_seed 7) [] False, Go 0 toy_input, Go 0 toy_input, Go 0 toy_input,
     CallUnlock ''hot'' [] True (Some (\<lambda>_. -5)), Go 1 toy_input, Go 1 toy_input, Go 1 toy_input, CallSignTransaction 0 toy_tx]"

lemma vault_steps_reach: "vault_steps c ls v = Some v' \<Longrightarrow> vault_reach c v \<Longrightarrow> (\<And>n i. Go n i \<in> set ls \<Longrightarrow> input_ok i) \<Longrightarrow> vault_reach c v'"
proof (induction ls arbitrary: v)
  case (Cons l ls)
  obtain u where u: "vault_step c l v = Some u" "vault_steps c ls u = Some v'" using Cons.prems(1) by (auto simp: bind_eq_Some_conv)
  have "vault_reach c u" by (rule vault_reach.step[OF Cons.prems(2) u(1)]) (use Cons.prems(3) in auto)
  then show ?case using Cons.IH[OF u(2)] Cons.prems(3) by (meson list.set_intros(2))
qed simp

lemmas toy_defs = toy_vault_def toy_unlocked_def toy_input_def toy_crypto_def toy_seed_def toy_tx_def new_vault_def addWallet_def validatePassphrase_def
  add_task_def new_record_def deriveKey_def encrypt_def decrypt_def open_record_def install_def signTransaction_def sign_checks_def put_signature_def
  reserve_check_def checkSpend_def SALTBYTES_def KEYBYTES_def NONCEBYTES_def V0_TX_MIN_LENGTH_def SIG_SLOT_END_def lock_wallet_def on_handle_def
  lock_handle_def signed_tx_def rbind_def

lemma toy_address: "fromBytes (replicate 32 b) = Inr (Abs_pubkey (replicate 32 b))"
  using fromBytes_toBuffer[of "Abs_pubkey (replicate 32 b)"] by simp

lemma toy_signs:
  "\<exists>v. vault_steps toy_crypto (toy_unlocked @ [Go 2 toy_input]) toy_vault = Some v \<and> va_signatures v = [(0, toy_tx, toy_seed 7, Some 100)] \<and>
     wh_reserve (va_handles v ! 0) = Some 50 \<and> 0 < length (va_handles v) \<and> wh_live (va_handles v ! 0)"
  by (simp add: toy_defs Let_def toy_address jat_def)

lemma toy_reach: "vault_steps toy_crypto ls toy_vault = Some v \<Longrightarrow> (\<And>n i. Go n i \<in> set ls \<Longrightarrow> i = toy_input) \<Longrightarrow> vault_reach toy_crypto v"
  unfolding toy_vault_def using vault_steps_reach[OF _ vault_reach.new] toy_input_ok by blast

lemma toy_go: "Go n i \<in> set (toy_unlocked @ [Go 2 toy_input]) \<Longrightarrow> i = toy_input"
  by (auto simp: toy_unlocked_def)

lemma toy_unlocked_reach: "vault_steps toy_crypto (toy_unlocked @ [Go 2 toy_input]) toy_vault = Some v \<Longrightarrow> vault_reach toy_crypto v"
  by (rule toy_reach, assumption, rule toy_go)

theorem handles_well_formed_witness:
  "\<exists>v. vault_steps toy_crypto (toy_unlocked @ [Go 2 toy_input]) toy_vault = Some v \<and>
     toBuffer (wh_address (va_handles v ! 0)) = cr_publicKey toy_crypto (wh_seed (va_handles v ! 0))"
proof -
  obtain v where v: "vault_steps toy_crypto (toy_unlocked @ [Go 2 toy_input]) toy_vault = Some v" "0 < length (va_handles v)" "wh_live (va_handles v ! 0)"
    using toy_signs by blast
  show ?thesis using handles_well_formed[OF toy_unlocked_reach[OF v(1)] toy_crypto_ok v(2)] v by auto
qed

theorem signed_within_reserve_witness:
  "\<exists>v b estimate. vault_steps toy_crypto (toy_unlocked @ [Go 2 toy_input]) toy_vault = Some v \<and> va_signatures v = [(0, toy_tx, toy_seed 7, Some b)] \<and>
     wh_estimateDelta (va_handles v ! 0) = Some estimate \<and> 50 \<le> b + estimate toy_tx"
proof -
  obtain v where v: "vault_steps toy_crypto (toy_unlocked @ [Go 2 toy_input]) toy_vault = Some v" "va_signatures v = [(0, toy_tx, toy_seed 7, Some 100)]"
    "wh_reserve (va_handles v ! 0) = Some 50" using toy_signs by blast
  have "(0, toy_tx, toy_seed 7, Some 100) \<in> set (va_signatures v)" using v(2) by simp
  from signed_within_reserve[OF toy_unlocked_reach[OF v(1)] toy_crypto_ok this v(3)] show ?thesis using v by auto
qed

theorem wallet_roundtrip_witness:
  "\<exists>rec rec'. new_record toy_crypto toy_input ''hot'' ''trader'' (toy_seed 7) [1] = Inr rec \<and> rotated_record toy_crypto toy_input rec [1] [2] = Inr rec' \<and>
     open_record toy_crypto rec' [2] = Inr (toy_seed 7) \<and> open_record toy_crypto rec' [1] = Inl InvalidPassphrase"
proof -
  obtain rec rec' where r: "new_record toy_crypto toy_input ''hot'' ''trader'' (toy_seed 7) [1] = Inr rec" "rotated_record toy_crypto toy_input rec [1] [2] = Inr rec'"
    by (simp add: toy_defs toy_address rotated_record_def)
  have k: "record_key toy_crypto rec' [1] \<noteq> record_key toy_crypto rec' [2]" by (simp add: record_key_def toy_crypto_def)
  show ?thesis using wallet_roundtrip[OF toy_crypto_ok toy_input_ok toy_input_ok r, of "[1]"] r k by auto
qed

text \<open>A locked handle stays locked, and a task that is not resumed stays where it is.\<close>

definition stays_locked :: "vault \<Rightarrow> vault \<Rightarrow> bool" where
  "stays_locked v v' \<longleftrightarrow> handles_extend (va_handles v) (va_handles v') \<and>
     (\<forall>h < length (va_handles v). \<not> wh_live (va_handles v ! h) \<longrightarrow> \<not> wh_live (va_handles v' ! h))"

lemma stays_locked_same: "va_handles v' = va_handles v \<Longrightarrow> stays_locked v v'"
  by (simp add: stays_locked_def)

lemma stays_locked_trans: "stays_locked a b \<Longrightarrow> stays_locked b c \<Longrightarrow> stays_locked a c"
  unfolding stays_locked_def using handles_extend_trans by (metis (no_types) handles_extend_def order_less_le_trans)

lemma stays_locked_lock: "stays_locked v (on_handle h lock_handle v)"
  by (auto simp: stays_locked_def handles_extend_lock handle_at lock_handle_def)

lemma stays_locked_fold: "stays_locked v (fold (\<lambda>h. on_handle h lock_handle) hs v)"
proof (induction hs arbitrary: v)
  case (Cons h hs)
  show ?case using stays_locked_trans[OF stays_locked_lock Cons] by simp
qed (simp add: stays_locked_same)

lemma stays_locked_append: "va_handles v' = va_handles v @ xs \<Longrightarrow> stays_locked v v'"
  by (auto simp: stays_locked_def handles_extend_append nth_append)

lemma stays_locked_install: "install c name rec seed hb est v = (t, v') \<Longrightarrow> stays_locked v v' \<and> va_tasks v' = va_tasks v"
proof -
  assume i: "install c name rec seed hb est v = (t, v')"
  let ?u = "case jm_get (va_unlocked v) name of Some h \<Rightarrow> on_handle h lock_handle v | None \<Rightarrow> v"
  have "stays_locked v ?u \<and> va_tasks ?u = va_tasks v" by (auto simp: stays_locked_lock stays_locked_same split: option.splits)
  then obtain u where u: "u = ?u" "stays_locked v u" "va_tasks u = va_tasks v" by blast
  consider "v' = u" | x where "va_handles v' = va_handles u @ [x]" "va_tasks v' = va_tasks u"
    using i unfolding install_def u(1)[symmetric] Let_def by (auto split: sum.splits if_splits)
  then show ?thesis
  proof cases
    case 2
    then show ?thesis using stays_locked_trans[OF u(2) stays_locked_append[OF 2(1)]] u(3) by simp
  qed (use u in simp)
qed

lemma task_step_locked: "task_step c i t v = (t', v') \<Longrightarrow> stays_locked v v' \<and> va_tasks v' = va_tasks v"
  by (cases t) (auto simp: put_signature_def Let_def stays_locked_same split: if_splits option.splits sum.splits dest: stays_locked_install)

lemma lock_wallet_locked: "stays_locked v (lock_wallet name v) \<and> va_tasks (lock_wallet name v) = va_tasks v"
  using stays_locked_lock by (auto simp: lock_wallet_def stays_locked_def on_handle_def split: option.splits)

lemma lockAll_locked: "stays_locked v (lockAll v) \<and> va_tasks (lockAll v) = va_tasks v"
proof -
  have "va_tasks (fold (\<lambda>h. on_handle h lock_handle) hs v) = va_tasks v" for hs by (induction hs arbitrary: v) (simp_all add: on_handle_def)
  then show ?thesis using stays_locked_fold[of v "jm_values (va_unlocked v)"] by (simp add: lockAll_def stays_locked_def)
qed

lemma vault_step_locked:
  assumes "vault_step c l v = Some v'" and "n < length (va_tasks v)" and "\<And>j. l \<noteq> Go n j"
  shows "stays_locked v v' \<and> n < length (va_tasks v') \<and> va_tasks v' ! n = va_tasks v ! n"
proof (cases l)
  case (Go m j)
  obtain t u where "task_step c j (va_tasks v ! m) v = (t, u)" by fastforce
  moreover have "m \<noteq> n" using assms(3) Go by auto
  ultimately show ?thesis using task_step_locked[of c j "va_tasks v ! m" v t u] assms(1,2) Go by (auto simp: stays_locked_def split: if_splits)
next
  case (CallSignTransaction h tx)
  have "stays_locked v (snd (signTransaction c h tx v)) \<and> va_tasks (snd (signTransaction c h tx v)) = va_tasks v"
    by (auto simp: signTransaction_def put_signature_def Let_def stays_locked_same split: sum.splits bool.splits)
  then show ?thesis using assms CallSignTransaction
    by (auto simp: add_task_def stays_locked_def nth_append split: if_splits prod.splits)
next
  case (CallLock name)
  then show ?thesis using assms lock_wallet_locked by auto
next
  case CallLockAll
  then show ?thesis using assms lockAll_locked by auto
qed (use assms in \<open>auto simp: add_task_def stays_locked_same nth_append split: if_splits\<close>)

lemma vault_steps_locked:
  assumes "vault_steps c ls v = Some v'" and "n < length (va_tasks v)" and "\<forall>j. Go n j \<notin> set ls"
  shows "stays_locked v v' \<and> n < length (va_tasks v') \<and> va_tasks v' ! n = va_tasks v ! n"
  using assms
proof (induction ls arbitrary: v)
  case (Cons l ls)
  obtain u where u: "vault_step c l v = Some u" "vault_steps c ls u = Some v'" using Cons.prems(1) by (auto simp: bind_eq_Some_conv)
  have 1: "stays_locked v u \<and> n < length (va_tasks u) \<and> va_tasks u ! n = va_tasks v ! n"
    by (rule vault_step_locked[OF u(1) Cons.prems(2)]) (use Cons.prems(3) in auto)
  then have 2: "stays_locked u v' \<and> n < length (va_tasks v') \<and> va_tasks v' ! n = va_tasks u ! n" using Cons.IH[OF u(2)] Cons.prems(3) by simp
  then show ?case using 1 stays_locked_trans by metis
qed (simp add: stays_locked_same)

text \<open>What a transaction becomes with the key \<open>key\<close>.\<close>

definition signed_with :: "crypto \<Rightarrow> bytes \<Rightarrow> bytes \<Rightarrow> bytes" where
  "signed_with c key tx = (let sig = cr_sign c (drop 65 tx) key in take 1 tx @ sig @ drop (1 + length sig) tx)"

text \<open>
  C28. \<open>signTransaction\<close> takes a reference to the key before it awaits the balance, and \<open>lock\<close> clears the buffer behind
  it. In every reachable vault, a transaction that is waiting for its balance when its wallet is locked is signed, whatever
  else happens before the balance arrives and leaves the reserve untouched, with a key of 32 zeros; it is returned as if
  it were signed by the wallet, while a transaction submitted after the lock is refused because the wallet is locked.
\<close>

theorem locked_wallet_signs_with_zeros:
  assumes "vault_reach c v" and "crypto_ok c" and "n < length (va_tasks v)" and "va_tasks v ! n = SignAwaitBalance h tx"
    and "vault_steps c (CallLock (wh_name (va_handles v ! h)) # ls) v = Some v'"
    and "\<forall>j. Go n j \<notin> set ls" and "\<forall>m j. Go m j \<in> set ls \<longrightarrow> input_ok j"
    and "vi_balance i = Some b" and "reserve_check (va_handles v ! h) tx b = Inr ()" and "vi_storage i'"
  shows "\<exists>v1 v2 u. vault_step c (Go n i) v' = Some v1 \<and> vault_step c (Go n i') v1 = Some v2 \<and>
    va_signatures v2 = va_signatures v' @ [(h, tx, replicate 32 0, Some b)] \<and> va_tasks v2 ! n = SignedTx (signed_with c (replicate 32 0) tx) \<and>
    vault_step c (CallSignTransaction h tx') v' = Some u \<and> va_tasks u = va_tasks v' @ [Threw WalletLocked]"
proof -
  let ?name = "wh_name (va_handles v ! h)" and ?u = "lock_wallet (wh_name (va_handles v ! h)) v"
  have ok: "vault_ok c v" by (rule vault_reach_ok[OF assms(1,2)])
  have h: "h < length (va_handles v)" using ok assms(3,4) by (auto simp: vault_ok_def list_all_length dest!: spec[of _ n])
  have dead: "\<not> wh_live (va_handles ?u ! h)"
  proof (cases "wh_live (va_handles v ! h)")
    case True
    then have "jm_get (va_unlocked v) ?name = Some h" using ok h by (auto simp: vault_ok_def map_ok_def)
    then show ?thesis using h by (simp add: lock_wallet_def handle_at)
  next
    case False
    then show ?thesis using lock_wallet_locked[of v ?name] h by (simp add: stays_locked_def)
  qed
  have steps: "vault_steps c ls ?u = Some v'" using assms(5) by simp
  have s: "stays_locked ?u v'" "n < length (va_tasks v')" "va_tasks v' ! n = SignAwaitBalance h tx"
    using vault_steps_locked[OF steps _ assms(6)] lock_wallet_locked[of v ?name] assms(3,4) by simp_all
  have hu: "h < length (va_handles ?u)" using lock_wallet_locked[of v ?name] h by (simp add: stays_locked_def handles_extend_def)
  then have h': "h < length (va_handles v')" "\<not> wh_live (va_handles v' ! h)" using s(1) dead by (auto simp: stays_locked_def handles_extend_def)
  have "handles_extend (va_handles v) (va_handles v')"
    using s(1) lock_wallet_locked[of v ?name] handles_extend_trans by (auto simp: stays_locked_def)
  then have e: "wh_reserve (va_handles v' ! h) = wh_reserve (va_handles v ! h)" "wh_estimateDelta (va_handles v' ! h) = wh_estimateDelta (va_handles v ! h)"
    using h by (auto simp: handles_extend_def)
  have r: "reserve_check (va_handles v' ! h) tx b = Inr ()" using assms(9) by (auto simp: reserve_check_def e split: option.splits prod.splits)
  have "vault_reach c ?u" by (rule vault_reach.step[OF assms(1), of "CallLock ?name"]) simp_all
  then have "vault_reach c v'" using vault_steps_reach[OF steps] assms(7) by blast
  then have z: "wh_seed (va_handles v' ! h) = replicate 32 0"
    using vault_reach_ok[OF _ assms(2)] h' by (auto simp: vault_ok_def list_all_length handle_ok_def dest!: spec[of _ h])
  show ?thesis using s(2,3) r z h' assms(8,10)
    by (simp add: put_signature_def Let_def signed_tx_def signed_with_def SIG_SLOT_END_def signTransaction_def sign_checks_def add_task_def)
qed

lemma toy_waiting:
  "\<exists>v v'. vault_steps toy_crypto toy_unlocked toy_vault = Some v \<and> 2 < length (va_tasks v) \<and> va_tasks v ! 2 = SignAwaitBalance 0 toy_tx \<and>
     wh_name (va_handles v ! 0) = ''hot'' \<and> reserve_check (va_handles v ! 0) toy_tx 100 = Inr () \<and>
     vault_steps toy_crypto [CallLock ''hot''] v = Some v' \<and> va_signatures v' = []"
  by (simp add: toy_defs Let_def toy_address jat_def)

theorem locked_wallet_signs_with_zeros_witness:
  "\<exists>v v' v1 v2. vault_steps toy_crypto toy_unlocked toy_vault = Some v \<and> vault_steps toy_crypto [CallLock ''hot''] v = Some v' \<and>
     vault_step toy_crypto (Go 2 toy_input) v' = Some v1 \<and> vault_step toy_crypto (Go 2 toy_input) v1 = Some v2 \<and>
     va_signatures v2 = [(0, toy_tx, replicate 32 0, Some 100)] \<and> va_tasks v2 ! 2 = SignedTx (signed_with toy_crypto (replicate 32 0) toy_tx)"
proof -
  obtain v v' where v: "vault_steps toy_crypto toy_unlocked toy_vault = Some v" "2 < length (va_tasks v)" "va_tasks v ! 2 = SignAwaitBalance 0 toy_tx"
    "wh_name (va_handles v ! 0) = ''hot''" "reserve_check (va_handles v ! 0) toy_tx 100 = Inr ()"
    "vault_steps toy_crypto [CallLock ''hot''] v = Some v'" "va_signatures v' = []" using toy_waiting by blast
  have r: "vault_reach toy_crypto v" by (rule toy_reach[OF v(1)]) (auto simp: toy_unlocked_def)
  have s: "vault_steps toy_crypto (CallLock (wh_name (va_handles v ! 0)) # []) v = Some v'" using v(4,6) by simp
  have i: "vi_balance toy_input = Some 100" "vi_storage toy_input" by (simp_all add: toy_input_def)
  from locked_wallet_signs_with_zeros[OF r toy_crypto_ok v(2,3) s _ _ i(1) v(5) i(2)] obtain v1 v2
    where "vault_step toy_crypto (Go 2 toy_input) v' = Some v1" "vault_step toy_crypto (Go 2 toy_input) v1 = Some v2"
      "va_signatures v2 = va_signatures v' @ [(0, toy_tx, replicate 32 0, Some 100)]" "va_tasks v2 ! 2 = SignedTx (signed_with toy_crypto (replicate 32 0) toy_tx)"
    by fastforce
  then show ?thesis using v(1,6,7)
    by (intro exI[of _ v] exI[of _ v'] exI[of _ v1] exI[of _ v2]) (simp del: vault_step.simps vault_steps.simps)
qed

text \<open>
  The check for an existing wallet and the write of the record are not one step: of two additions of the same
  name that overlap, neither allowed to overwrite, both succeed, and the first seed is gone.
\<close>

theorem overlapping_adds_lose_seed:
  "\<exists>v rec. vault_steps toy_crypto [CallAdd ''hot'' ''trader'' (toy_seed 7) [] False, CallAdd ''hot'' ''trader'' (toy_seed 9) [] False, Go 0 toy_input,
       Go 1 toy_input, Go 0 toy_input, Go 0 toy_input, Go 1 toy_input, Go 1 toy_input] toy_vault = Some v \<and>
     va_tasks v = [Added, Added] \<and> va_records v ''hot'' = Some rec \<and> open_record toy_crypto rec [] = Inr (toy_seed 9)"
  by (simp add: toy_defs Let_def toy_address jat_def)

text \<open>A rotation that overlaps a replacement puts the replaced key back.\<close>

lemma rotation_restores_old_seed:
  "\<exists>v rec. vault_steps toy_crypto [CallAdd ''hot'' ''trader'' (toy_seed 7) [] False, Go 0 toy_input, Go 0 toy_input, Go 0 toy_input,
       CallRotate ''hot'' [] [], Go 1 toy_input, CallAdd ''hot'' ''trader'' (toy_seed 9) [] True, Go 2 toy_input, Go 2 toy_input, Go 2 toy_input,
       Go 1 toy_input, Go 1 toy_input] toy_vault = Some v \<and>
     va_tasks v = [Added, Rotated, Added] \<and> va_records v ''hot'' = Some rec \<and> open_record toy_crypto rec [] = Inr (toy_seed 7)"
  by (simp add: toy_defs Let_def toy_address jat_def rotateKey_def rotated_record_def)

end
