(* ===== verification/TxStream.thy ===== *)
theory TxStream
  imports Base64
begin

text \<open>
  \<open>packages/solana-connectivity/src/tx-stream.ts\<close>: the WebSocket transaction streams. \<open>open_stream\<close>
  is the state machine of \<open>openStream\<close>, which both subscriptions share; a label is one event of the
  socket, the timer or the caller. The socket, the JSON parser and the handlers are the environment; a
  handler may call \<open>close()\<close>.
\<close>

section \<open>Transactions\<close>

record full_transaction =
  ft_bytes :: bytes
  ft_fee :: int
  ft_writable :: "string list"
  ft_readonly :: "string list"
  ft_inner :: "(nat \<times> (nat \<times> nat list \<times> string) list) list"

record streamed_tx =
  stx_signature :: string
  stx_slot :: int
  stx_err :: "string option"
  stx_logs :: "string list"
  stx_full :: "full_transaction option"

text \<open>
  \<open>Buffer.from(s, 'base64')\<close> for any string: both alphabets, other characters are skipped, and the
  first padding character ends the input.
\<close>

definition b64_digit :: "char \<Rightarrow> nat option" where
  "b64_digit ch = (if ch = CHR ''-'' then Some 62 else if ch = CHR ''_'' then Some 63 else b64_value ch)"

fun sextet_bytes :: "nat list \<Rightarrow> bytes" where
  "sextet_bytes (a # b # c # d # rest) =
     (let n = a * 262144 + b * 4096 + c * 64 + d
      in [word_of_nat (n div 65536), word_of_nat (n div 256 mod 256), word_of_nat (n mod 256)] @ sextet_bytes rest)"
| "sextet_bytes [a, b, c] = [word_of_nat (a * 4 + b div 16), word_of_nat (b mod 16 * 16 + c div 4)]"
| "sextet_bytes [a, b] = [word_of_nat (a * 4 + b div 16)]"
| "sextet_bytes _ = []"

definition buffer_from_base64 :: "string \<Rightarrow> bytes" where
  "buffer_from_base64 s = sextet_bytes (List.map_filter b64_digit (takeWhile (\<lambda>c. c \<noteq> pad) s))"

section \<open>The two notifications\<close>

text \<open>A result whose properties cannot be read (\<open>undefined\<close>, \<open>null\<close>) is \<open>None\<close>: reading it throws.\<close>

datatype wire = WirePair string string | WireString string

record helius_meta =
  hm_err :: "string option"
  hm_logs :: "string list option"
  hm_fee :: "int option"
  hm_loaded :: "(string list option \<times> string list option) option"
  hm_inner :: "(nat \<times> (nat \<times> nat list \<times> string) list) list option"

record helius_result =
  hr_signature :: string
  hr_slot :: int
  hr_wire :: "wire option"
  hr_meta :: "helius_meta option"

definition wire_base64 :: "wire \<Rightarrow> string" where
  "wire_base64 w = (case w of WirePair b _ \<Rightarrow> b | WireString b \<Rightarrow> b)"

definition or_empty :: "'a list option \<Rightarrow> 'a list" where
  "or_empty xs = (case xs of Some l \<Rightarrow> l | None \<Rightarrow> [])"

definition full_of :: "helius_result \<Rightarrow> full_transaction option" where
  "full_of r =
     (case (map_option wire_base64 (hr_wire r), hr_meta r) of
        (Some b64, Some meta) \<Rightarrow>
          if b64 = [] then None
          else Some \<lparr>ft_bytes = buffer_from_base64 b64, ft_fee = (case hm_fee meta of Some f \<Rightarrow> f | None \<Rightarrow> 0),
                 ft_writable = (case hm_loaded meta of Some (w, _) \<Rightarrow> or_empty w | None \<Rightarrow> []),
                 ft_readonly = (case hm_loaded meta of Some (_, ro) \<Rightarrow> or_empty ro | None \<Rightarrow> []),
                 ft_inner = or_empty (hm_inner meta)\<rparr>
      | _ \<Rightarrow> None)"

definition helius_parse :: "string \<Rightarrow> helius_result option \<Rightarrow> unit \<Rightarrow> (string + streamed_tx option) \<times> unit" where
  "helius_parse method result p =
     (if method \<noteq> ''transactionNotification'' then (Inr None, p)
      else case result of
             None \<Rightarrow> (Inl ''TypeError'', p)
           | Some r \<Rightarrow>
               (Inr (Some \<lparr>stx_signature = hr_signature r, stx_slot = hr_slot r,
                  stx_err = (case hr_meta r of Some m \<Rightarrow> hm_err m | None \<Rightarrow> None),
                  stx_logs = (case hr_meta r of Some m \<Rightarrow> or_empty (hm_logs m) | None \<Rightarrow> []), stx_full = full_of r\<rparr>), p))"

text \<open>\<open>RecentSet\<close>: insertion-ordered, forgetting its oldest entry past the capacity.\<close>

definition recent_add :: "nat \<Rightarrow> string \<Rightarrow> string list \<Rightarrow> bool \<times> string list" where
  "recent_add capacity key items =
     (if key \<in> set items then (False, items)
      else let items = items @ [key] in (True, if length items > capacity then tl items else items))"

record logs_result =
  lr_slot :: int
  lr_signature :: string
  lr_err :: "string option"
  lr_logs :: "string list option"

definition SEEN_CAPACITY :: nat where "SEEN_CAPACITY = 10000"

definition logs_parse :: "nat \<Rightarrow> string \<Rightarrow> logs_result option \<Rightarrow> string list \<Rightarrow> (string + streamed_tx option) \<times> string list" where
  "logs_parse capacity method result seen =
     (if method \<noteq> ''logsNotification'' then (Inr None, seen)
      else case result of
             None \<Rightarrow> (Inl ''TypeError'', seen)
           | Some r \<Rightarrow>
               (case recent_add capacity (lr_signature r) seen of
                  (False, seen) \<Rightarrow> (Inr None, seen)
                | (True, seen) \<Rightarrow>
                    (Inr (Some \<lparr>stx_signature = lr_signature r, stx_slot = lr_slot r, stx_err = lr_err r,
                       stx_logs = or_empty (lr_logs r), stx_full = None\<rparr>), seen)))"

section \<open>The stream\<close>

datatype stream_error = SubscribeRejected string | SocketFailed string | SocketClosed nat

datatype stream_event =
    Connect
  | Send nat
  | Resolved
  | Rejected stream_error
  | Disconnected stream_error
  | Reconnected "int option"
  | OnError string
  | Streamed streamed_tx int   \<comment> \<open>\<open>receivedAt\<close>\<close>

record ('r, 'p) stream_env =
  se_requests :: nat                         \<comment> \<open>one for each subscription\<close>
  se_baseDelay :: nat
  se_maxDelay :: nat
  se_parse :: "string \<Rightarrow> 'r \<Rightarrow> 'p \<Rightarrow> (string + streamed_tx option) \<times> 'p"
  se_closes :: "stream_event \<Rightarrow> bool"          \<comment> \<open>the handler of this event calls \<open>close()\<close>\<close>

record 'p tx_stream =
  ts_socket :: "nat option"                  \<comment> \<open>the socket with its listeners, and \<open>acked\<close>\<close>
  ts_ping :: bool
  ts_retry :: "nat option"
  ts_closed :: bool
  ts_started :: bool
  ts_attempts :: nat
  ts_lastSlot :: "int option"
  ts_parser :: 'p
  ts_log :: "stream_event list"

definition log_stream :: "stream_event \<Rightarrow> 'p tx_stream \<Rightarrow> 'p tx_stream" where
  "log_stream e s = s\<lparr>ts_log := ts_log s @ [e]\<rparr>"

definition close_stream :: "'p tx_stream \<Rightarrow> 'p tx_stream" where
  "close_stream s = s\<lparr>ts_closed := True, ts_ping := False, ts_retry := None, ts_socket := None\<rparr>"

text \<open>A call of a handler.\<close>

definition notify :: "('r, 'p) stream_env \<Rightarrow> stream_event \<Rightarrow> 'p tx_stream \<Rightarrow> 'p tx_stream" where
  "notify env e s = (let s = log_stream e s in if se_closes env e then close_stream s else s)"

definition connect :: "'p tx_stream \<Rightarrow> 'p tx_stream" where
  "connect s = log_stream Connect (s\<lparr>ts_socket := Some 0\<rparr>)"

definition open_stream :: "'p \<Rightarrow> 'p tx_stream" where
  "open_stream p = connect \<lparr>ts_socket = None, ts_ping = False, ts_retry = None, ts_closed = False, ts_started = False,
     ts_attempts = 0, ts_lastSlot = None, ts_parser = p, ts_log = []\<rparr>"

definition retry_delay :: "('r, 'p) stream_env \<Rightarrow> nat \<Rightarrow> nat" where
  "retry_delay env attempts = min (se_maxDelay env) (se_baseDelay env * 2 ^ attempts)"

definition fail :: "('r, 'p) stream_env \<Rightarrow> stream_error \<Rightarrow> 'p tx_stream \<Rightarrow> 'p tx_stream" where
  "fail env err s =
     (if ts_closed s then s
      else (let s = s\<lparr>ts_ping := False, ts_socket := None\<rparr>
            in if \<not> ts_started s then log_stream (Rejected err) (s\<lparr>ts_closed := True\<rparr>)
               else (let s = notify env (Disconnected err) s
                     in s\<lparr>ts_attempts := ts_attempts s + 1, ts_retry := Some (retry_delay env (ts_attempts s))\<rparr>)))"

datatype 'r ws_message =
    Unparseable
  | Reply "string option option"     \<comment> \<open>an \<open>id\<close>; its error, with or without a message\<close>
  | Notification string 'r
  | OtherMessage

definition on_reply :: "('r, 'p) stream_env \<Rightarrow> nat \<Rightarrow> string option option \<Rightarrow> 'p tx_stream \<Rightarrow> 'p tx_stream" where
  "on_reply env acked err s =
     (case err of
        Some m \<Rightarrow> fail env (SubscribeRejected (case m of Some t \<Rightarrow> t | None \<Rightarrow> ''unknown error'')) s
      | None \<Rightarrow>
          (let s = s\<lparr>ts_socket := Some (Suc acked)\<rparr>
           in if Suc acked < se_requests env then s
              else (let s = s\<lparr>ts_attempts := 0\<rparr>
                    in if ts_started s then notify env (Reconnected (ts_lastSlot s)) s
                       else log_stream Resolved (s\<lparr>ts_started := True\<rparr>))))"

definition raise_to :: "int \<Rightarrow> int option \<Rightarrow> int option" where
  "raise_to slot seen = (case seen of None \<Rightarrow> Some slot | Some l \<Rightarrow> if slot > l then Some slot else Some l)"

definition on_notification :: "('r, 'p) stream_env \<Rightarrow> int \<Rightarrow> string \<Rightarrow> 'r \<Rightarrow> 'p tx_stream \<Rightarrow> 'p tx_stream" where
  "on_notification env receivedAt method result s =
     (case se_parse env method result (ts_parser s) of
        (Inl err, p) \<Rightarrow> notify env (OnError err) (s\<lparr>ts_parser := p\<rparr>)
      | (Inr None, p) \<Rightarrow> s\<lparr>ts_parser := p\<rparr>
      | (Inr (Some tx), p) \<Rightarrow>
          notify env (Streamed tx receivedAt) (s\<lparr>ts_parser := p, ts_lastSlot := raise_to (stx_slot tx) (ts_lastSlot s)\<rparr>))"

definition on_message :: "('r, 'p) stream_env \<Rightarrow> nat \<Rightarrow> int \<Rightarrow> 'r ws_message \<Rightarrow> 'p tx_stream \<Rightarrow> 'p tx_stream" where
  "on_message env acked receivedAt msg s =
     (case msg of
        Unparseable \<Rightarrow> notify env (OnError ''unparseable stream message'') s
      | Reply err \<Rightarrow> on_reply env acked err s
      | Notification method result \<Rightarrow> on_notification env receivedAt method result s
      | OtherMessage \<Rightarrow> s)"

datatype 'r stream_label =
    SocketOpen
  | Message int "'r ws_message"
  | SocketError string
  | SocketClose nat
  | RetryFires
  | CallClose

fun stream_step :: "('r, 'p) stream_env \<Rightarrow> 'r stream_label \<Rightarrow> 'p tx_stream \<Rightarrow> 'p tx_stream option" where
  "stream_step env SocketOpen s =
     (if ts_socket s = None then None else Some (log_stream (Send (se_requests env)) (s\<lparr>ts_ping := True\<rparr>)))"
| "stream_step env (Message now msg) s = map_option (\<lambda>acked. on_message env acked now msg s) (ts_socket s)"
| "stream_step env (SocketError m) s = (if ts_socket s = None then None else Some (fail env (SocketFailed m) s))"
| "stream_step env (SocketClose code) s = (if ts_socket s = None then None else Some (fail env (SocketClosed code) s))"
| "stream_step env RetryFires s = (if ts_retry s = None then None else Some (connect (s\<lparr>ts_retry := None\<rparr>)))"
| "stream_step env CallClose s = (if ts_started s then Some (close_stream s) else None)"

fun stream_steps :: "('r, 'p) stream_env \<Rightarrow> 'r stream_label list \<Rightarrow> 'p tx_stream \<Rightarrow> 'p tx_stream option" where
  "stream_steps env [] s = Some s"
| "stream_steps env (l # ls) s = Option.bind (stream_step env l s) (stream_steps env ls)"

inductive stream_reach :: "('r, 'p) stream_env \<Rightarrow> 'p \<Rightarrow> 'p tx_stream \<Rightarrow> bool" for env p where
  opened: "stream_reach env p (open_stream p)"
| step: "stream_reach env p s \<Longrightarrow> stream_step env l s = Some s' \<Longrightarrow> stream_reach env p s'"

section \<open>The two subscriptions\<close>

definition helius_env :: "nat \<Rightarrow> nat \<Rightarrow> (stream_event \<Rightarrow> bool) \<Rightarrow> (helius_result option, unit) stream_env" where
  "helius_env base maxDelay closes = \<lparr>se_requests = 1, se_baseDelay = base, se_maxDelay = maxDelay, se_parse = helius_parse, se_closes = closes\<rparr>"

definition logs_env :: "string list \<Rightarrow> nat \<Rightarrow> nat \<Rightarrow> (stream_event \<Rightarrow> bool) \<Rightarrow> (logs_result option, string list) stream_env" where
  "logs_env programIds base maxDelay closes = \<lparr>se_requests = length programIds, se_baseDelay = base, se_maxDelay = maxDelay,
     se_parse = logs_parse SEEN_CAPACITY, se_closes = closes\<rparr>"

definition subscribeHeliusTransactions :: "unit tx_stream" where
  "subscribeHeliusTransactions = open_stream ()"

definition subscribeProgramLogs :: "string list tx_stream" where
  "subscribeProgramLogs = open_stream []"

section \<open>What a stream keeps\<close>

definition streamed :: "stream_event list \<Rightarrow> streamed_tx list" where
  "streamed = List.map_filter (\<lambda>e. case e of Streamed tx _ \<Rightarrow> Some tx | _ \<Rightarrow> None)"

lemma streamed_Nil [simp]: "streamed [] = []"
  by (simp add: streamed_def map_filter_simps)

lemma streamed_append [simp]: "streamed (xs @ ys) = streamed xs @ streamed ys"
  by (simp add: streamed_def map_filter_def)

lemma streamed_Cons [simp]: "streamed (e # es) = (case e of Streamed tx _ \<Rightarrow> tx # streamed es | _ \<Rightarrow> streamed es)"
  by (simp add: streamed_def map_filter_simps split: stream_event.splits)

lemmas stream_defs = log_stream_def close_stream_def notify_def connect_def fail_def on_reply_def on_message_def on_notification_def Let_def

named_theorems stream_fields

lemma notify_fields [stream_fields]:
  "ts_log (notify env e s) = ts_log s @ [e]" "ts_started (notify env e s) = ts_started s" "ts_attempts (notify env e s) = ts_attempts s"
  "ts_lastSlot (notify env e s) = ts_lastSlot s" "ts_parser (notify env e s) = ts_parser s"
  "ts_closed (notify env e s) \<longleftrightarrow> ts_closed s \<or> se_closes env e"
  "ts_socket (notify env e s) = (if se_closes env e then None else ts_socket s)"
  "ts_retry (notify env e s) = (if se_closes env e then None else ts_retry s)"
  by (simp_all add: notify_def log_stream_def close_stream_def Let_def)

lemma fail_fields [stream_fields]:
  "ts_log (fail env err s) = ts_log s @ (if ts_closed s then [] else if ts_started s then [Disconnected err] else [Rejected err])"
  "ts_started (fail env err s) = ts_started s" "ts_lastSlot (fail env err s) = ts_lastSlot s" "ts_parser (fail env err s) = ts_parser s"
  "ts_attempts (fail env err s) = (if \<not> ts_closed s \<and> ts_started s then Suc (ts_attempts s) else ts_attempts s)"
  "ts_socket (fail env err s) = (if ts_closed s then ts_socket s else None)"
  "ts_closed (fail env err s) \<longleftrightarrow> ts_closed s \<or> \<not> ts_started s \<or> se_closes env (Disconnected err)"
  "ts_retry (fail env err s) = (if \<not> ts_closed s \<and> ts_started s then Some (retry_delay env (ts_attempts s)) else ts_retry s)"
  by (simp_all add: fail_def Let_def stream_fields log_stream_def)

text \<open>A step parses one notification, or delivers nothing.\<close>

lemma step_delivers:
  assumes "stream_step env l s = Some s'"
  shows "(ts_parser s' = ts_parser s \<and> streamed (ts_log s') = streamed (ts_log s) \<and> ts_lastSlot s' = ts_lastSlot s) \<or>
    (\<exists>now m r out p. l = Message now (Notification m r) \<and> se_parse env m r (ts_parser s) = (out, p) \<and> ts_parser s' = p \<and>
       streamed (ts_log s') = streamed (ts_log s) @ (case out of Inr (Some tx) \<Rightarrow> [tx] | _ \<Rightarrow> []) \<and>
       ts_lastSlot s' = (case out of Inr (Some tx) \<Rightarrow> raise_to (stx_slot tx) (ts_lastSlot s) | _ \<Rightarrow> ts_lastSlot s))"
proof (cases l)
  case (Message now msg)
  then obtain a where a: "ts_socket s = Some a" "s' = on_message env a now msg s" using assms by auto
  show ?thesis
  proof (cases msg)
    case (Notification m r)
    obtain out p where o: "se_parse env m r (ts_parser s) = (out, p)" by fastforce
    show ?thesis
    proof (rule disjI2, intro exI conjI)
      show "l = Message now (Notification m r)" using Message Notification by simp
      show "se_parse env m r (ts_parser s) = (out, p)" by (rule o)
      show "ts_parser s' = p" "streamed (ts_log s') = streamed (ts_log s) @ (case out of Inr (Some tx) \<Rightarrow> [tx] | _ \<Rightarrow> [])"
        "ts_lastSlot s' = (case out of Inr (Some tx) \<Rightarrow> raise_to (stx_slot tx) (ts_lastSlot s) | _ \<Rightarrow> ts_lastSlot s)"
        using a(2) Notification o
        by (auto simp: on_message_def on_notification_def stream_fields split: sum.splits option.splits)
    qed
  next
    case (Reply err)
    then show ?thesis using a(2) by (auto simp: on_message_def on_reply_def Let_def stream_fields log_stream_def split: option.splits)
  qed (use a(2) in \<open>simp_all add: on_message_def stream_fields\<close>)
qed (use assms in \<open>auto simp: stream_fields log_stream_def connect_def close_stream_def split: if_splits\<close>)

section \<open>Duplicates\<close>

text \<open>The recent set is the last signatures delivered.\<close>

definition last_n :: "nat \<Rightarrow> 'a list \<Rightarrow> 'a list" where
  "last_n n xs = drop (length xs - n) xs"

lemma last_n_snoc: "(let ys = last_n n xs @ [x] in if length ys > n then tl ys else ys) = last_n n (xs @ [x])"
proof (cases "length xs < n")
  case True
  then show ?thesis by (simp add: last_n_def)
next
  case False
  show ?thesis
  proof (cases n)
    case 0
    then show ?thesis by (simp add: last_n_def)
  next
    case (Suc k)
    then have "drop (length xs - n) xs \<noteq> []" "length xs - k = Suc (length xs - n)" using False by auto
    then show ?thesis using False Suc by (simp add: last_n_def drop_Suc tl_drop)
  qed
qed

lemma recent_add_last:
  "recent_add n k (last_n n xs) = (if k \<in> set (last_n n xs) then (False, last_n n xs) else (True, last_n n (xs @ [k])))"
  using last_n_snoc[of n xs k] by (simp add: recent_add_def Let_def)

definition spaced :: "nat \<Rightarrow> 'a list \<Rightarrow> bool" where
  "spaced n xs \<longleftrightarrow> (\<forall>i j. i < j \<longrightarrow> j < length xs \<longrightarrow> j \<le> i + n \<longrightarrow> xs ! i \<noteq> xs ! j)"

lemma spaced_snoc: "spaced n xs \<Longrightarrow> x \<notin> set (last_n n xs) \<Longrightarrow> spaced n (xs @ [x])"
  unfolding spaced_def
proof (intro allI impI)
  fix i j
  assume s: "\<forall>i j. i < j \<longrightarrow> j < length xs \<longrightarrow> j \<le> i + n \<longrightarrow> xs ! i \<noteq> xs ! j" and x: "x \<notin> set (last_n n xs)"
    and ij: "i < j" "j < length (xs @ [x])" "j \<le> i + n"
  show "(xs @ [x]) ! i \<noteq> (xs @ [x]) ! j"
  proof (cases "j < length xs")
    case True
    then show ?thesis using s ij by (simp add: nth_append)
  next
    case False
    then have j: "j = length xs" using ij by simp
    then have "xs ! i = last_n n xs ! (i - (length xs - n))" "i - (length xs - n) < length (last_n n xs)"
      using ij by (auto simp: last_n_def)
    then have "xs ! i \<in> set (last_n n xs)" by (metis nth_mem)
    then show ?thesis using x j ij by (auto simp: nth_append)
  qed
qed

lemma logs_parse_seen:
  assumes "seen = last_n n (map stx_signature txs)" and "spaced n (map stx_signature txs)" and "logs_parse n m r seen = (out, seen')"
  shows "seen' = last_n n (map stx_signature (txs @ (case out of Inr (Some tx) \<Rightarrow> [tx] | _ \<Rightarrow> []))) \<and>
    spaced n (map stx_signature (txs @ (case out of Inr (Some tx) \<Rightarrow> [tx] | _ \<Rightarrow> [])))"
  using assms spaced_snoc[OF assms(2)]
  by (auto simp: logs_parse_def recent_add_last split: if_splits option.splits)

lemma logs_seen:
  "stream_reach (logs_env ids base maxDelay closes) [] s \<Longrightarrow>
    ts_parser s = last_n SEEN_CAPACITY (map stx_signature (streamed (ts_log s))) \<and> spaced SEEN_CAPACITY (map stx_signature (streamed (ts_log s)))"
proof (induction rule: stream_reach.induct)
  case opened
  show ?case by (simp add: open_stream_def connect_def log_stream_def last_n_def spaced_def)
next
  case (step s l s')
  let ?seen = "\<lambda>p txs. p = last_n SEEN_CAPACITY (map stx_signature txs) \<and> spaced SEEN_CAPACITY (map stx_signature txs)"
  from step_delivers[OF step.hyps(2)] show ?case
  proof (elim disjE exE conjE)
    fix now m r out p
    assume d: "se_parse (logs_env ids base maxDelay closes) m r (ts_parser s) = (out, p)" "ts_parser s' = p"
      "streamed (ts_log s') = streamed (ts_log s) @ (case out of Inr (Some tx) \<Rightarrow> [tx] | _ \<Rightarrow> [])"
    have "logs_parse SEEN_CAPACITY m r (ts_parser s) = (out, p)" using d(1) by (simp add: logs_env_def)
    then show ?thesis using logs_parse_seen[OF step.IH[THEN conjunct1] step.IH[THEN conjunct2]] d(2,3) by simp
  qed (use step.IH in simp)
qed

text \<open>
  C31. A program-logs stream delivers no transaction twice within its memory: among any 10001 transactions delivered in a
  row, through any reconnects and however many of the programs they mention, no two have the same signature.
\<close>

theorem logs_deduplicated:
  assumes "stream_reach (logs_env ids base maxDelay closes) [] s"
    and "i < j" and "j < length (streamed (ts_log s))" and "j \<le> i + SEEN_CAPACITY"
  shows "stx_signature (streamed (ts_log s) ! i) \<noteq> stx_signature (streamed (ts_log s) ! j)"
  using logs_seen[of ids base maxDelay closes s] assms by (auto simp: spaced_def)

section \<open>Reconnecting\<close>

text \<open>A server that acknowledges each request once, and notifies only what it has acknowledged.\<close>

definition orderly :: "('r, 'p) stream_env \<Rightarrow> 'r stream_label \<Rightarrow> 'p tx_stream \<Rightarrow> bool" where
  "orderly env l s =
     (case l of
        Message _ (Reply _) \<Rightarrow> (case ts_socket s of Some acked \<Rightarrow> acked < se_requests env | None \<Rightarrow> True)
      | Message _ (Notification _ _) \<Rightarrow> (case ts_socket s of Some acked \<Rightarrow> 0 < acked | None \<Rightarrow> True)
      | _ \<Rightarrow> True)"

inductive orderly_reach :: "('r, 'p) stream_env \<Rightarrow> 'p \<Rightarrow> 'p tx_stream \<Rightarrow> bool" for env p where
  opened: "orderly_reach env p (open_stream p)"
| step: "orderly_reach env p s \<Longrightarrow> orderly env l s \<Longrightarrow> stream_step env l s = Some s' \<Longrightarrow> orderly_reach env p s'"

definition highest :: "stream_event list \<Rightarrow> int option" where
  "highest log = (if streamed log = [] then None else Some (Max (stx_slot ` set (streamed log))))"

lemma highest_snoc: "highest (log @ [e]) = (case e of Streamed tx _ \<Rightarrow> raise_to (stx_slot tx) (highest log) | _ \<Rightarrow> highest log)"
proof (cases e)
  case (Streamed tx now)
  show ?thesis
  proof (cases "streamed log = []")
    case False
    then have "Max (stx_slot ` set (streamed log @ [tx])) = max (stx_slot tx) (Max (stx_slot ` set (streamed log)))" by simp
    moreover have "raise_to (stx_slot tx) (Some m) = Some (max (stx_slot tx) m)" for m by (simp add: raise_to_def max_def)
    ultimately show ?thesis using False Streamed by (simp add: highest_def)
  qed (simp add: highest_def raise_to_def Streamed)
qed (simp_all add: highest_def)

lemma highest_same: "streamed b = [] \<Longrightarrow> highest (a @ b) = highest a"
  by (simp add: highest_def)

text \<open>A drop, and nothing delivered since.\<close>

definition dropped :: "stream_event list \<Rightarrow> bool" where
  "dropped log \<longleftrightarrow> (\<exists>a e b. log = a @ Disconnected e # b \<and> streamed b = [])"

lemma dropped_snoc: "dropped log \<Longrightarrow> (\<And>tx now. e \<noteq> Streamed tx now) \<Longrightarrow> dropped (log @ [e])"
  unfolding dropped_def
proof (elim exE conjE)
  fix a d b
  assume "\<And>tx now. e \<noteq> Streamed tx now" "log = a @ Disconnected d # b" "streamed b = []"
  then show "\<exists>a d' b. log @ [e] = a @ Disconnected d' # b \<and> streamed b = []"
    by (intro exI[of _ a] exI[of _ d] exI[of _ "b @ [e]"]) (auto split: stream_event.splits)
qed

lemma dropped_here: "dropped (log @ [Disconnected e])"
  unfolding dropped_def by (intro exI[of _ log] exI[of _ e] exI[of _ "[]"]) simp

definition reports_ok :: "stream_event list \<Rightarrow> bool" where
  "reports_ok log \<longleftrightarrow> (\<forall>pre n post. log = pre @ Reconnected n # post \<longrightarrow> dropped pre \<and> n = highest pre)"

lemma reports_snoc: "reports_ok log \<Longrightarrow> (\<And>n. e = Reconnected n \<Longrightarrow> dropped log \<and> n = highest log) \<Longrightarrow> reports_ok (log @ [e])"
  unfolding reports_ok_def
proof (intro allI impI)
  fix pre n post
  assume r: "\<forall>pre n post. log = pre @ Reconnected n # post \<longrightarrow> dropped pre \<and> n = highest pre"
    and e: "\<And>n. e = Reconnected n \<Longrightarrow> dropped log \<and> n = highest log" and l: "log @ [e] = pre @ Reconnected n # post"
  show "dropped pre \<and> n = highest pre"
  proof (cases post rule: rev_cases)
    case Nil
    then have "log = pre" "e = Reconnected n" using l by auto
    then show ?thesis using e by simp
  next
    case (snoc zs z)
    then have "(pre @ Reconnected n # zs) @ [z] = log @ [e]" using l by simp
    then have "log = pre @ Reconnected n # zs" by (simp only: append1_eq_conv)
    then show ?thesis using r by blast
  qed
qed

definition reconnect_ok :: "'p tx_stream \<Rightarrow> bool" where
  "reconnect_ok s \<longleftrightarrow> ts_lastSlot s = highest (ts_log s) \<and> reports_ok (ts_log s) \<and> (ts_retry s \<noteq> None \<longrightarrow> ts_started s \<and> ts_socket s = None) \<and>
     (ts_started s \<and> (ts_retry s \<noteq> None \<or> ts_socket s = Some 0) \<longrightarrow> dropped (ts_log s))"

lemma reconnect_ok_event:
  assumes "reconnect_ok s" and "ts_log s' = ts_log s @ [e]" and "\<And>tx now. e \<noteq> Streamed tx now" and "\<And>n. e \<noteq> Reconnected n"
    and "ts_lastSlot s' = ts_lastSlot s" and "ts_retry s' \<noteq> None \<longrightarrow> ts_started s' \<and> ts_socket s' = None"
    and "ts_started s' \<and> (ts_retry s' \<noteq> None \<or> ts_socket s' = Some 0) \<longrightarrow> dropped (ts_log s')"
  shows "reconnect_ok s'"
  using assms reports_snoc[of "ts_log s" e] highest_snoc[of "ts_log s" e] unfolding reconnect_ok_def
  by (auto split: stream_event.splits)

lemma fail_reconnect_ok: "reconnect_ok s \<Longrightarrow> reconnect_ok (fail env err s)"
proof (cases "ts_closed s")
  case False
  assume ok: "reconnect_ok s"
  show ?thesis
  proof (cases "ts_started s")
    case True
    then show ?thesis using False ok by (intro reconnect_ok_event[OF ok, of _ "Disconnected err"]) (simp_all add: stream_fields dropped_here)
  next
    case started: False
    then show ?thesis using False ok by (intro reconnect_ok_event[OF ok, of _ "Rejected err"]) (simp_all add: stream_fields reconnect_ok_def)
  qed
qed (simp add: fail_def)

lemma reconnect_step:
  assumes "stream_step env l s = Some s'" and "orderly env l s" and "se_requests env = 1" and "reconnect_ok s"
  shows "reconnect_ok s'"
proof (cases l)
  case SocketOpen
  then show ?thesis using assms(1,4) dropped_snoc[of "ts_log s" "Send 1"] assms(3)
    by (intro reconnect_ok_event[OF assms(4), of _ "Send 1"]) (auto simp: log_stream_def reconnect_ok_def split: if_splits)
next
  case RetryFires
  then show ?thesis using assms(1,4) dropped_snoc[of "ts_log s" Connect]
    by (intro reconnect_ok_event[OF assms(4), of _ Connect]) (auto simp: connect_def log_stream_def reconnect_ok_def split: if_splits)
next
  case CallClose
  then show ?thesis using assms(1,4) by (auto simp: close_stream_def reconnect_ok_def split: if_splits)
next
  case (Message now msg)
  then obtain a where a: "ts_socket s = Some a" "s' = on_message env a now msg s" using assms(1) by auto
  show ?thesis
  proof (cases msg)
    case Unparseable
    then show ?thesis using a assms(4) dropped_snoc[of "ts_log s" "OnError ''unparseable stream message''"]
      by (intro reconnect_ok_event[OF assms(4), of _ "OnError ''unparseable stream message''"]) (auto simp: on_message_def stream_fields reconnect_ok_def)
  next
    case OtherMessage
    then show ?thesis using a(2) assms(4) by (simp add: on_message_def)
  next
    case (Reply err)
    show ?thesis
    proof (cases err)
      case (Some m)
      then show ?thesis using a Reply assms(4) by (simp add: on_message_def on_reply_def fail_reconnect_ok)
    next
      case None
      have a0: "a = 0" using assms(2,3) Message Reply a(1) by (simp add: orderly_def)
      show ?thesis
      proof (cases "ts_started s")
        case True
        then have s': "s' = notify env (Reconnected (ts_lastSlot s)) (s\<lparr>ts_socket := Some 1, ts_attempts := 0\<rparr>)"
          using a(2) Reply None a0 assms(3) by (simp add: on_message_def on_reply_def Let_def)
        have d: "dropped (ts_log s)" "ts_lastSlot s = highest (ts_log s)" using assms(4) True a a0 by (auto simp: reconnect_ok_def)
        then show ?thesis using a(1) assms(4) True reports_snoc[of "ts_log s" "Reconnected (ts_lastSlot s)"] highest_snoc[of "ts_log s" "Reconnected (ts_lastSlot s)"]
            dropped_snoc[of "ts_log s" "Reconnected (ts_lastSlot s)"]
          by (simp add: s' reconnect_ok_def stream_fields)
      next
        case False
        then have s': "s' = log_stream Resolved (s\<lparr>ts_socket := Some 1, ts_attempts := 0, ts_started := True\<rparr>)"
          using a(2) Reply None a0 assms(3) by (simp add: on_message_def on_reply_def Let_def)
        then show ?thesis using False assms(4)
          by (intro reconnect_ok_event[OF assms(4), of _ Resolved]) (auto simp: log_stream_def reconnect_ok_def)
      qed
    qed
  next
    case (Notification m r)
    have a0: "0 < a" using assms(2) Message Notification a(1) by (simp add: orderly_def)
    obtain out p where o: "se_parse env m r (ts_parser s) = (out, p)" by fastforce
    consider e where "out = Inl e" | "out = Inr None" | tx where "out = Inr (Some tx)" by (metis option.exhaust sum.exhaust)
    then show ?thesis
    proof cases
      case 1
      then have "s' = notify env (OnError e) (s\<lparr>ts_parser := p\<rparr>)" using a(2) Notification o by (simp add: on_message_def on_notification_def)
      then show ?thesis using a(1) assms(4) dropped_snoc[of "ts_log s" "OnError e"]
        by (intro reconnect_ok_event[OF assms(4), of _ "OnError e"]) (auto simp: stream_fields reconnect_ok_def)
    next
      case 2
      then show ?thesis using a(2) Notification o assms(4) by (simp add: on_message_def on_notification_def reconnect_ok_def)
    next
      case (3 tx)
      then have "s' = notify env (Streamed tx now) (s\<lparr>ts_parser := p, ts_lastSlot := raise_to (stx_slot tx) (ts_lastSlot s)\<rparr>)"
        using a(2) Notification o by (simp add: on_message_def on_notification_def)
      then show ?thesis using a(1) a0 assms(4) reports_snoc[of "ts_log s" "Streamed tx now"] highest_snoc[of "ts_log s" "Streamed tx now"]
        by (auto simp: stream_fields reconnect_ok_def)
    qed
  qed
qed (use assms(1,4) fail_reconnect_ok in \<open>auto split: if_splits\<close>)

lemma orderly_reach_ok: "orderly_reach env p s \<Longrightarrow> se_requests env = 1 \<Longrightarrow> reconnect_ok s"
proof (induction rule: orderly_reach.induct)
  case opened
  have "\<not> [Connect] = pre @ Reconnected n # post" for pre n post by (cases pre) auto
  then show ?case by (simp add: reconnect_ok_def open_stream_def connect_def log_stream_def highest_def reports_ok_def)
next
  case (step s l s')
  show ?case by (rule reconnect_step[OF step.hyps(3,2) step.prems step.IH[OF step.prems]])
qed

text \<open>
  C32. With a single subscription, \<open>onReconnect\<close> reports where to backfill from: the highest slot delivered before the
  socket dropped, with nothing delivered between the drop and the call.
\<close>

theorem reconnect_reports_gap:
  assumes "orderly_reach (helius_env base maxDelay closes) () s" and "ts_log s = pre @ Reconnected n # post"
  shows "\<exists>a e b. pre = a @ Disconnected e # b \<and> streamed b = [] \<and>
    n = (if streamed a = [] then None else Some (Max (stx_slot ` set (streamed a))))"
proof -
  have "dropped pre \<and> n = highest pre" using orderly_reach_ok[OF assms(1)] assms(2) by (auto simp: helius_env_def reconnect_ok_def reports_ok_def)
  then obtain a e b where d: "pre = a @ Disconnected e # b" "streamed b = []" "n = highest (a @ Disconnected e # b)" by (auto simp: dropped_def)
  then have "n = highest a" by (simp add: highest_def)
  then show ?thesis using d(1,2) by (intro exI[of _ a] exI[of _ e] exI[of _ b]) (simp add: highest_def)
qed

section \<open>Delays, and closing\<close>

text \<open>The failures since the last time every subscription was acknowledged.\<close>

definition failures :: "stream_event list \<Rightarrow> nat" where
  "failures log = fold (\<lambda>e n. case e of Disconnected _ \<Rightarrow> Suc n | Resolved \<Rightarrow> 0 | Reconnected _ \<Rightarrow> 0 | _ \<Rightarrow> n) log 0"

lemma failures_snoc: "failures (log @ [e]) = (case e of Disconnected _ \<Rightarrow> Suc (failures log) | Resolved \<Rightarrow> 0 | Reconnected _ \<Rightarrow> 0 | _ \<Rightarrow> failures log)"
  by (simp add: failures_def split: stream_event.split)

definition delays_ok :: "('r, 'p) stream_env \<Rightarrow> 'p tx_stream \<Rightarrow> bool" where
  "delays_ok env s \<longleftrightarrow> ts_attempts s = failures (ts_log s) \<and> (ts_socket s \<noteq> None \<longrightarrow> ts_retry s = None) \<and>
     (case ts_retry s of None \<Rightarrow> True | Some d \<Rightarrow> 0 < failures (ts_log s) \<and> d = retry_delay env (failures (ts_log s) - 1))"

lemma fail_delays_ok: "delays_ok env s \<Longrightarrow> delays_ok env (fail env err s)"
  by (cases "ts_closed s") (auto simp: fail_def[of env err s] delays_ok_def stream_fields failures_snoc Let_def log_stream_def split: option.splits)

lemma delays_step:
  assumes "stream_step env l s = Some s'" and "delays_ok env s"
  shows "delays_ok env s'"
proof (cases l)
  case (Message now msg)
  then obtain a where a: "ts_socket s = Some a" "s' = on_message env a now msg s" using assms(1) by auto
  have r: "ts_retry s = None" "ts_attempts s = failures (ts_log s)" using assms(2) a(1) by (auto simp: delays_ok_def)
  show ?thesis
  proof (cases msg)
    case (Reply err)
    then show ?thesis using a(2) r assms(2) fail_delays_ok[OF assms(2)]
      by (cases err) (auto simp: on_message_def on_reply_def Let_def delays_ok_def stream_fields failures_snoc log_stream_def)
  next
    case (Notification m res)
    obtain out p where o: "se_parse env m res (ts_parser s) = (out, p)" by fastforce
    show ?thesis using a(2) r Notification o
      by (cases out) (auto simp: on_message_def on_notification_def delays_ok_def stream_fields failures_snoc split: option.splits)
  qed (use a(2) r assms(2) in \<open>auto simp: on_message_def delays_ok_def stream_fields failures_snoc\<close>)
qed (use assms fail_delays_ok[OF assms(2)] in \<open>auto simp: delays_ok_def log_stream_def connect_def close_stream_def failures_snoc split: if_splits\<close>)

text \<open>
  A reconnect is scheduled only after a failure, with the base delay doubled for each failure before it since the stream
  was last fully subscribed, and never longer than the maximum.
\<close>

theorem reconnect_backoff:
  assumes "stream_reach env p s" and "ts_retry s = Some d"
  shows "d \<le> se_maxDelay env \<and> 0 < failures (ts_log s) \<and> d = min (se_maxDelay env) (se_baseDelay env * 2 ^ (failures (ts_log s) - 1))"
proof -
  have "delays_ok env s" using assms(1)
  proof (induction rule: stream_reach.induct)
    case opened
    show ?case by (simp add: delays_ok_def open_stream_def connect_def log_stream_def failures_def)
  qed (rule delays_step)
  then show ?thesis using assms(2) by (simp add: delays_ok_def retry_delay_def)
qed

text \<open>
  A closed stream stays silent: unless it was closed by its own \<open>onDisconnect\<close>, no event of a socket or a timer follows that
  would reach a handler.
\<close>

theorem closed_stream_silent:
  assumes "stream_reach env p s" and "\<And>e. \<not> se_closes env (Disconnected e)" and "ts_closed s" and "stream_step env l s = Some s'"
  shows "ts_log s' = ts_log s \<and> ts_closed s' \<and> ts_socket s' = None \<and> ts_retry s' = None"
proof -
  let ?ok = "\<lambda>s. (ts_closed s \<longrightarrow> ts_socket s = None \<and> ts_retry s = None) \<and> (ts_retry s \<noteq> None \<longrightarrow> ts_started s \<and> ts_socket s = None)"
  have fail: "?ok (fail env err s)" if "?ok s" for err s using that assms(2) by (auto simp: stream_fields)
  have "?ok s" using assms(1)
  proof (induction rule: stream_reach.induct)
    case (step s l s')
    show ?case
    proof (cases l)
      case (Message now msg)
      then obtain a where a: "ts_socket s = Some a" "s' = on_message env a now msg s" using step.hyps(2) by auto
      have s: "\<not> ts_closed s" "ts_retry s = None" using step.IH a(1) by auto
      show ?thesis
      proof (cases msg)
        case (Reply err)
        then show ?thesis using a(2) s fail[OF step.IH]
          by (cases err) (auto simp: on_message_def on_reply_def Let_def stream_fields log_stream_def)
      next
        case (Notification m res)
        obtain out p' where o: "se_parse env m res (ts_parser s) = (out, p')" by fastforce
        show ?thesis using a(2) s Notification o
          by (cases out) (auto simp: on_message_def on_notification_def stream_fields split: option.splits)
      qed (use a(2) s in \<open>auto simp: on_message_def stream_fields\<close>)
    qed (use step.hyps(2) step.IH fail[OF step.IH] in \<open>auto simp: log_stream_def connect_def close_stream_def split: if_splits\<close>)
  qed (simp add: open_stream_def connect_def log_stream_def)
  then show ?thesis using assms(3,4) by (cases l) (auto simp: close_stream_def split: if_splits)
qed

section \<open>What goes wrong\<close>

definition log_result :: "string \<Rightarrow> int \<Rightarrow> logs_result option" where
  "log_result sig slot = Some \<lparr>lr_slot = slot, lr_signature = sig, lr_err = None, lr_logs = None\<rparr>"

definition notice :: "string \<Rightarrow> int \<Rightarrow> logs_result option stream_label" where
  "notice sig slot = Message 0 (Notification ''logsNotification'' (log_result sig slot))"

definition acknowledged :: "'r stream_label" where
  "acknowledged = Message 0 (Reply None)"

lemmas stream_run = subscribeProgramLogs_def open_stream_def logs_env_def log_result_def notice_def acknowledged_def stream_defs logs_parse_def recent_add_def
  SEEN_CAPACITY_def raise_to_def retry_delay_def or_empty_def streamed_def map_filter_simps

text \<open>
  With two programs the second acknowledgement may come after notifications of the first subscription: the slot then reported
  on reconnecting is of a transaction delivered after the drop, and the gap before it is not backfilled.
\<close>

theorem several_programs_lose_gap:
  "\<exists>s. stream_steps (logs_env [''p'', ''q''] 500 30000 (\<lambda>_. False))
       [SocketOpen, acknowledged, acknowledged, notice ''a'' 100, SocketClose 1006, RetryFires, SocketOpen, acknowledged, notice ''b'' 110, acknowledged] subscribeProgramLogs = Some s \<and>
     map stx_slot (streamed (takeWhile (\<lambda>e. \<forall>err. e \<noteq> Disconnected err) (ts_log s))) = [100] \<and> last (ts_log s) = Reconnected (Some 110)"
  by (simp add: stream_run)

text \<open>
  \<open>close()\<close> called from \<open>onDisconnect\<close> is undone: the code goes on to schedule the reconnect, and the closed stream opens a new
  socket and delivers its transactions.
\<close>

theorem close_while_disconnecting:
  "\<exists>s. stream_steps (logs_env [''p''] 500 30000 (\<lambda>e. \<exists>err. e = Disconnected err))
       [SocketOpen, acknowledged, notice ''a'' 100, SocketClose 1006, RetryFires, SocketOpen, acknowledged, notice ''b'' 110] subscribeProgramLogs = Some s \<and>
     ts_closed s \<and> ts_socket s = Some 1 \<and> map stx_signature (streamed (ts_log s)) = [''a'', ''b'']"
  by (simp add: stream_run)

section \<open>Examples\<close>

lemma stream_steps_reach: "stream_steps env ls s = Some s' \<Longrightarrow> stream_reach env p s \<Longrightarrow> stream_reach env p s'"
  by (induction ls arbitrary: s) (auto simp: bind_eq_Some_conv intro: stream_reach.step)

fun orderly_steps :: "('r, 'p) stream_env \<Rightarrow> 'r stream_label list \<Rightarrow> 'p tx_stream \<Rightarrow> bool" where
  "orderly_steps env [] s = True"
| "orderly_steps env (l # ls) s = (orderly env l s \<and> (case stream_step env l s of Some s' \<Rightarrow> orderly_steps env ls s' | None \<Rightarrow> True))"

lemma orderly_steps_reach: "stream_steps env ls s = Some s' \<Longrightarrow> orderly_steps env ls s \<Longrightarrow> orderly_reach env p s \<Longrightarrow> orderly_reach env p s'"
proof (induction ls arbitrary: s)
  case (Cons l ls)
  obtain u where u: "stream_step env l s = Some u" "stream_steps env ls u = Some s'" using Cons.prems(1) by (auto simp: bind_eq_Some_conv)
  have "orderly env l s" "orderly_steps env ls u" using Cons.prems(2) u(1) by auto
  then show ?case using Cons.IH[OF u(2)] orderly_reach.step[OF Cons.prems(3) _ u(1)] by blast
qed simp

definition sample_stream :: "logs_result option stream_label list" where
  "sample_stream = [SocketOpen, acknowledged, acknowledged, notice ''a'' 100, notice ''a'' 100, notice ''b'' 101, SocketClose 1006, RetryFires, SocketError ''refused'']"

lemma sample_streamed:
  "\<exists>s. stream_steps (logs_env [''p'', ''q''] 500 30000 (\<lambda>_. False)) sample_stream subscribeProgramLogs = Some s \<and>
     map stx_signature (streamed (ts_log s)) = [''a'', ''b''] \<and> ts_retry s = Some 1000"
  by (simp add: stream_run sample_stream_def)

theorem logs_deduplicated_witness:
  "\<exists>s. stream_steps (logs_env [''p'', ''q''] 500 30000 (\<lambda>_. False)) sample_stream subscribeProgramLogs = Some s \<and>
     length (streamed (ts_log s)) = 2 \<and> stx_signature (streamed (ts_log s) ! 0) \<noteq> stx_signature (streamed (ts_log s) ! 1)"
proof -
  obtain s where s: "stream_steps (logs_env [''p'', ''q''] 500 30000 (\<lambda>_. False)) sample_stream subscribeProgramLogs = Some s"
    "map stx_signature (streamed (ts_log s)) = [''a'', ''b'']" by (rule sample_streamed[THEN exE], elim conjE)
  have l: "length (streamed (ts_log s)) = 2" using arg_cong[OF s(2), of length] by simp
  have r: "stream_reach (logs_env [''p'', ''q''] 500 30000 (\<lambda>_. False)) [] s"
    by (rule stream_steps_reach[OF s(1)]) (simp add: subscribeProgramLogs_def stream_reach.opened)
  have "stx_signature (streamed (ts_log s) ! 0) \<noteq> stx_signature (streamed (ts_log s) ! 1)"
    by (rule logs_deduplicated[OF r]) (simp_all add: l SEEN_CAPACITY_def)
  then show ?thesis using s(1) l by blast
qed

theorem reconnect_backoff_witness:
  "\<exists>s. stream_steps (logs_env [''p'', ''q''] 500 30000 (\<lambda>_. False)) sample_stream subscribeProgramLogs = Some s \<and>
     ts_retry s = Some 1000 \<and> 1000 = min 30000 (500 * 2 ^ (failures (ts_log s) - 1) :: nat)"
proof -
  obtain s where s: "stream_steps (logs_env [''p'', ''q''] 500 30000 (\<lambda>_. False)) sample_stream subscribeProgramLogs = Some s"
    "ts_retry s = Some 1000" by (rule sample_streamed[THEN exE], elim conjE)
  have "stream_reach (logs_env [''p'', ''q''] 500 30000 (\<lambda>_. False)) [] s"
    by (rule stream_steps_reach[OF s(1)]) (simp add: subscribeProgramLogs_def stream_reach.opened)
  from reconnect_backoff[OF this s(2)] have "1000 = min 30000 (500 * 2 ^ (failures (ts_log s) - 1) :: nat)" by (simp add: logs_env_def)
  then show ?thesis using s by blast
qed

definition helius_notice :: "string \<Rightarrow> int \<Rightarrow> helius_result option stream_label" where
  "helius_notice sig slot = Message 0 (Notification ''transactionNotification'' (Some \<lparr>hr_signature = sig, hr_slot = slot, hr_wire = None, hr_meta = None\<rparr>))"

definition helius_sample :: "helius_result option stream_label list" where
  "helius_sample = [SocketOpen, acknowledged, helius_notice ''a'' 100, SocketClose 1006, RetryFires, SocketOpen, acknowledged, helius_notice ''b'' 110]"

lemmas helius_run = helius_sample_def helius_notice_def helius_env_def helius_parse_def subscribeHeliusTransactions_def open_stream_def acknowledged_def
  stream_defs raise_to_def retry_delay_def full_of_def

lemma helius_streamed:
  "\<exists>s post. stream_steps (helius_env 500 30000 (\<lambda>_. False)) helius_sample subscribeHeliusTransactions = Some s \<and>
     orderly_steps (helius_env 500 30000 (\<lambda>_. False)) helius_sample subscribeHeliusTransactions \<and>
     ts_log s = [Connect, Send 1, Resolved, Streamed \<lparr>stx_signature = ''a'', stx_slot = 100, stx_err = None, stx_logs = [], stx_full = None\<rparr> 0,
       Disconnected (SocketClosed 1006), Connect, Send 1] @ Reconnected (Some 100) # post"
  by (simp add: helius_run orderly_def)

theorem reconnect_reports_gap_witness:
  "\<exists>s pre post a e b. stream_steps (helius_env 500 30000 (\<lambda>_. False)) helius_sample subscribeHeliusTransactions = Some s \<and>
     ts_log s = pre @ Reconnected (Some 100) # post \<and> pre = a @ Disconnected e # b \<and> streamed b = [] \<and> streamed a \<noteq> [] \<and> 100 = Max (stx_slot ` set (streamed a))"
proof -
  obtain s pre post where s: "stream_steps (helius_env 500 30000 (\<lambda>_. False)) helius_sample subscribeHeliusTransactions = Some s"
    "orderly_steps (helius_env 500 30000 (\<lambda>_. False)) helius_sample subscribeHeliusTransactions" "ts_log s = pre @ Reconnected (Some 100) # post"
    by (rule helius_streamed[THEN exE], elim exE conjE)
  have "orderly_reach (helius_env 500 30000 (\<lambda>_. False)) () s"
    by (rule orderly_steps_reach[OF s(1,2)]) (simp add: subscribeHeliusTransactions_def orderly_reach.opened)
  from reconnect_reports_gap[OF this s(3)] obtain a e b where
    "pre = a @ Disconnected e # b" "streamed b = []" "Some 100 = (if streamed a = [] then None else Some (Max (stx_slot ` set (streamed a))))" by blast
  then show ?thesis using s(1,3) by (intro exI[of _ s] exI[of _ pre] exI[of _ post] exI[of _ a] exI[of _ e] exI[of _ b]) (simp split: if_splits)
qed

end
