(* ===== verification/Backfill.thy ===== *)
theory Backfill
  imports Geyser
begin

text \<open>
  \<open>packages/solana-connectivity/src/historical-backfill.ts\<close> and
  \<open>packages/solana-webhooks/src/drivers/helius/{catchup,normalize}.ts\<close>: the walks over an address's
  history. The node (the RPC pool, the Helius API) answers through functions; that it serves one history,
  newest first, is a hypothesis of the theorems.
\<close>

section \<open>The RPC methods\<close>

record sig_info =
  sgi_signature :: string
  sgi_slot :: int
  sgi_failed :: bool          \<comment> \<open>\<open>err\<close> is truthy\<close>

record sig_options =
  so_limit :: "int option"
  so_before :: "string option"
  so_until :: "string option"
  so_commitment :: "commitment option"
  so_minContextSlot :: "int option"

record iterate_options = sig_options +
  so_maxPages :: "int option"

record 'tx history_node =
  hn_signatures :: "string \<Rightarrow> sig_options \<Rightarrow> string + sig_info list"
  hn_transaction :: "string \<Rightarrow> int \<Rightarrow> string + 'tx option"    \<comment> \<open>with \<open>maxSupportedTransactionVersion\<close>\<close>
  hn_blocks :: "int \<Rightarrow> int \<Rightarrow> string + int list"

definition BLOCKS_CHUNK :: int where "BLOCKS_CHUNK = 1000"
definition DEFAULT_SIG_LIMIT :: int where "DEFAULT_SIG_LIMIT = 1000"

definition getSignaturesForAddress :: "'tx history_node \<Rightarrow> string \<Rightarrow> sig_options \<Rightarrow> string + sig_info list" where
  "getSignaturesForAddress node address opts = hn_signatures node address opts"

definition getTransaction :: "'tx history_node \<Rightarrow> string \<Rightarrow> int option \<Rightarrow> string + 'tx option" where
  "getTransaction node sig version = hn_transaction node sig (case version of Some v \<Rightarrow> v | None \<Rightarrow> 1)"

text \<open>
  A generator and its consumer: the body of \<open>for await\<close> takes a signature and either goes on or breaks. The
  next page is asked for only when the consumer has taken the last one.
\<close>

datatype 's control = Go 's | Break 's

fun consume :: "('a \<Rightarrow> 's \<Rightarrow> 's control) \<Rightarrow> 'a list \<Rightarrow> 's \<Rightarrow> 's control" where
  "consume body [] st = Go st"
| "consume body (x # xs) st = (case body x st of Go st \<Rightarrow> consume body xs st | Break st \<Rightarrow> Break st)"

definition page_options :: "iterate_options \<Rightarrow> int \<Rightarrow> string option \<Rightarrow> sig_options" where
  "page_options opts limit before = \<lparr>so_limit = Some limit, so_before = before, so_until = so_until opts,
     so_commitment = so_commitment opts, so_minContextSlot = so_minContextSlot opts\<rparr>"

partial_function (option) iterate_pages ::
    "'tx history_node \<Rightarrow> string \<Rightarrow> iterate_options \<Rightarrow> int \<Rightarrow> (sig_info \<Rightarrow> 's \<Rightarrow> 's control) \<Rightarrow> int \<Rightarrow> string option \<Rightarrow> 's \<Rightarrow> (string + 's) option" where
  "iterate_pages node address opts limit body page before st =
     (if \<not> (case so_maxPages opts of None \<Rightarrow> True | Some m \<Rightarrow> page < m) then Some (Inr st)
      else case getSignaturesForAddress node address (page_options opts limit before) of
             Inl err \<Rightarrow> Some (Inl err)
           | Inr sigs \<Rightarrow>
               if sigs = [] then Some (Inr st)
               else (case consume body sigs st of
                       Break st \<Rightarrow> Some (Inr st)
                     | Go st \<Rightarrow>
                         if int (length sigs) < limit then Some (Inr st)
                         else iterate_pages node address opts limit body (page + 1) (Some (sgi_signature (last sigs))) st))"

definition iterateSignaturesForAddress ::
    "'tx history_node \<Rightarrow> string \<Rightarrow> iterate_options \<Rightarrow> (sig_info \<Rightarrow> 's \<Rightarrow> 's control) \<Rightarrow> 's \<Rightarrow> (string + 's) option" where
  "iterateSignaturesForAddress node address opts body st =
     iterate_pages node address opts (case so_limit opts of Some l \<Rightarrow> l | None \<Rightarrow> DEFAULT_SIG_LIMIT) body 0 (so_before opts) st"

definition no_options :: iterate_options where
  "no_options = \<lparr>so_limit = None, so_before = None, so_until = None, so_commitment = None, so_minContextSlot = None, so_maxPages = None\<rparr>"

text \<open>\<open>getBlocks\<close>: a range in windows of 1000 slots.\<close>

function blocks_from :: "'tx history_node \<Rightarrow> int \<Rightarrow> int \<Rightarrow> int list \<Rightarrow> string + int list" where
  "blocks_from node start to out =
     (if start > to then Inr out
      else case hn_blocks node start (min (start + BLOCKS_CHUNK - 1) to) of
             Inl err \<Rightarrow> Inl err
           | Inr chunk \<Rightarrow> blocks_from node (start + BLOCKS_CHUNK) to (out @ chunk))"
  by pat_completeness auto
termination
  by (relation "measure (\<lambda>(_, start, to, _). nat (to + 1 - start))") (auto simp: BLOCKS_CHUNK_def)

declare blocks_from.simps [simp del]

definition getBlocks :: "'tx history_node \<Rightarrow> int \<Rightarrow> int \<Rightarrow> string + int list" where
  "getBlocks node from to = (if from > to then Inr [] else blocks_from node from to [])"

section \<open>The program sweep\<close>

record 'd decoded_result =
  dr_slot :: int
  dr_signature :: string
  dr_programId :: string
  dr_data :: 'd

datatype 'd decode_result =
    Decoded "'d decoded_result"
  | UnknownEvent int string string string   \<comment> \<open>slot, signature, program, reason\<close>

text \<open>The caller's decoder returns one result, an array of them, or throws.\<close>

datatype 'd produced = One "'d decode_result" | Many "'d decode_result list"

type_synonym ('tx, 'd) tx_decoder = "'tx \<Rightarrow> string + 'd produced"

definition decode_tx :: "('tx, 'd) tx_decoder \<Rightarrow> string \<Rightarrow> sig_info \<Rightarrow> 'tx \<Rightarrow> 'd decode_result list" where
  "decode_tx decoder programId si tx =
     (case decoder tx of
        Inl reason \<Rightarrow> [UnknownEvent (sgi_slot si) (sgi_signature si) programId reason]
      | Inr (One r) \<Rightarrow> [r]
      | Inr (Many rs) \<Rightarrow> rs)"

text \<open>What a generator yields, and the exception that ends it.\<close>

type_synonym 'd yields = "'d decode_result list \<times> string option"

fun sweep_transactions :: "'tx history_node \<Rightarrow> string \<Rightarrow> ('tx, 'd) tx_decoder \<Rightarrow> sig_info list \<Rightarrow> 'd yields" where
  "sweep_transactions node programId decoder [] = ([], None)"
| "sweep_transactions node programId decoder (si # sis) =
     (if sgi_failed si then sweep_transactions node programId decoder sis
      else case getTransaction node (sgi_signature si) None of
             Inl err \<Rightarrow> ([], Some err)
           | Inr None \<Rightarrow> sweep_transactions node programId decoder sis
           | Inr (Some tx) \<Rightarrow>
               (case sweep_transactions node programId decoder sis of (evs, e) \<Rightarrow> (decode_tx decoder programId si tx @ evs, e)))"

definition collect_range :: "int \<Rightarrow> int \<Rightarrow> sig_info \<Rightarrow> sig_info list \<Rightarrow> sig_info list control" where
  "collect_range fromSlot toSlot si acc =
     (if sgi_slot si > toSlot then Go acc else if sgi_slot si < fromSlot then Break acc else Go (acc @ [si]))"

definition fetchEventsForProgram :: "'tx history_node \<Rightarrow> string \<Rightarrow> int \<Rightarrow> int \<Rightarrow> ('tx, 'd) tx_decoder \<Rightarrow> 'd yields option" where
  "fetchEventsForProgram node programId fromSlot toSlot decoder =
     (if toSlot < fromSlot then Some ([], None)
      else map_option (\<lambda>r. case r of Inl err \<Rightarrow> ([], Some err) | Inr inRange \<Rightarrow> sweep_transactions node programId decoder (rev inRange))
        (iterateSignaturesForAddress node programId no_options (collect_range fromSlot toSlot) []))"

text \<open>\<open>deliver\<close> may throw, which ends the handler: what it was given up to then, and the exception.\<close>

fun deliver_all :: "('d decode_result \<Rightarrow> string option) \<Rightarrow> 'd decode_result list \<Rightarrow> 'd yields" where
  "deliver_all throws [] = ([], None)"
| "deliver_all throws (ev # evs) =
     (case throws ev of
        Some e \<Rightarrow> ([ev], Some e)
      | None \<Rightarrow> (case deliver_all throws evs of (out, e) \<Rightarrow> (ev # out, e)))"

fun backfill_programs :: "'tx history_node \<Rightarrow> ('tx, 'd) tx_decoder \<Rightarrow> ('d decode_result \<Rightarrow> string option) \<Rightarrow> int \<Rightarrow> int \<Rightarrow> string list \<Rightarrow> 'd yields option" where
  "backfill_programs node decoder throws from to [] = Some ([], None)"
| "backfill_programs node decoder throws from to (p # ps) =
     Option.bind (fetchEventsForProgram node p from (to - 1) decoder) (\<lambda>(evs, err).
       case deliver_all throws evs of
         (out, Some e) \<Rightarrow> Some (out, Some e)
       | (out, None) \<Rightarrow>
           (case err of
              Some e \<Rightarrow> Some (out, Some e)
            | None \<Rightarrow> map_option (\<lambda>(out', e). (out @ out', e)) (backfill_programs node decoder throws from to ps)))"

definition gapBackfill :: "'tx history_node \<Rightarrow> string list \<Rightarrow> ('tx, 'd) tx_decoder \<Rightarrow> ('d decode_result \<Rightarrow> string option) \<Rightarrow> int \<times> int \<Rightarrow> 'd yields option" where
  "gapBackfill node programIds decoder throws gap = backfill_programs node decoder throws (fst gap) (snd gap) programIds"

section \<open>A history served in pages\<close>

definition after :: "('a \<Rightarrow> string) \<Rightarrow> string option \<Rightarrow> 'a list \<Rightarrow> 'a list" where
  "after sig before h = (case before of None \<Rightarrow> h | Some b \<Rightarrow> tl (dropWhile (\<lambda>x. sig x \<noteq> b) h))"

definition serves :: "'tx history_node \<Rightarrow> string \<Rightarrow> sig_info list \<Rightarrow> bool" where
  "serves node address h \<longleftrightarrow>
     (\<forall>before. hn_signatures node address (page_options no_options DEFAULT_SIG_LIMIT before) = Inr (take (nat DEFAULT_SIG_LIMIT) (after sgi_signature before h)))"

definition newest_first :: "('a \<Rightarrow> int) \<Rightarrow> 'a list \<Rightarrow> bool" where
  "newest_first slot h \<longleftrightarrow> sorted_wrt (\<lambda>x y. slot x \<ge> slot y) h"

text \<open>The cursor of a full page is where the rest begins.\<close>

lemma after_page:
  assumes "h = pre @ t" and "distinct (map sig h)" and "0 < n" and "n \<le> length t"
  shows "after sig (Some (sig (last (take n t)))) h = drop n t"
proof -
  let ?x = "last (take n t)"
  have n: "take n t \<noteq> []" using assms(3,4) by auto
  have "t = butlast (take n t) @ ?x # drop n t"
    using append_butlast_last_id[OF n] append_take_drop_id[of n t] by (metis append.assoc append_Cons append_Nil)
  then have h: "h = (pre @ butlast (take n t)) @ ?x # drop n t" using assms(1) by simp
  then have "distinct (map sig ((pre @ butlast (take n t)) @ ?x # drop n t))" using assms(2) by simp
  then have "\<forall>y \<in> set (pre @ butlast (take n t)). sig y \<noteq> sig ?x" by (auto simp: image_iff)
  then have "dropWhile (\<lambda>y. sig y \<noteq> sig ?x) ((pre @ butlast (take n t)) @ ?x # drop n t) = ?x # drop n t"
    by (subst dropWhile_append2) auto
  then show ?thesis using h by (simp add: after_def)
qed

fun state_of :: "'s control \<Rightarrow> 's" where
  "state_of (Go st) = st"
| "state_of (Break st) = st"

lemma consume_append: "consume body (xs @ ys) st = (case consume body xs st of Go st \<Rightarrow> consume body ys st | Break st \<Rightarrow> Break st)"
  by (induction xs arbitrary: st) (auto split: control.splits)

lemma iterate_serves:
  assumes "serves node a h" and "distinct (map sgi_signature h)" and "h = pre @ after sgi_signature before h"
  shows "iterate_pages node a no_options DEFAULT_SIG_LIMIT body page before st = Some (Inr (state_of (consume body (after sgi_signature before h) st)))"
  using assms(3)
proof (induction "length (after sgi_signature before h)" arbitrary: pre before page st rule: less_induct)
  case less
  let ?t = "after sgi_signature before h" and ?p = "take (nat DEFAULT_SIG_LIMIT) (after sgi_signature before h)"
  have page: "getSignaturesForAddress node a (page_options no_options DEFAULT_SIG_LIMIT before) = Inr ?p"
    using assms(1) by (simp add: serves_def getSignaturesForAddress_def)
  have unlimited: "so_maxPages no_options = None" by (simp add: no_options_def)
  show ?case
  proof (cases "length ?t < nat DEFAULT_SIG_LIMIT")
    case True
    then have "?p = ?t" "int (length ?t) < DEFAULT_SIG_LIMIT" by (auto simp: DEFAULT_SIG_LIMIT_def)
    then show ?thesis using page by (simp add: iterate_pages.simps[of node a _ _ _ page] unlimited split: control.splits)
  next
    case False
    then have ne: "?p \<noteq> []" "\<not> int (length ?p) < DEFAULT_SIG_LIMIT" by (auto simp: DEFAULT_SIG_LIMIT_def)
    have next_page: "after sgi_signature (Some (sgi_signature (last ?p))) h = drop (nat DEFAULT_SIG_LIMIT) ?t"
      using False by (intro after_page[OF less.prems assms(2)]) (auto simp: DEFAULT_SIG_LIMIT_def)
    have rest: "iterate_pages node a no_options DEFAULT_SIG_LIMIT body (page + 1) (Some (sgi_signature (last ?p))) st' =
        Some (Inr (state_of (consume body (drop (nat DEFAULT_SIG_LIMIT) ?t) st')))" for st'
    proof -
      have "length (drop (nat DEFAULT_SIG_LIMIT) ?t) < length ?t" using False by (auto simp: DEFAULT_SIG_LIMIT_def)
      moreover have "h = (pre @ ?p) @ drop (nat DEFAULT_SIG_LIMIT) ?t" using less.prems by simp
      ultimately show ?thesis
        using less.hyps[of "Some (sgi_signature (last ?p))" "pre @ ?p" "page + 1" st'] next_page by simp
    qed
    have "consume body ?t st = consume body (?p @ drop (nat DEFAULT_SIG_LIMIT) ?t) st" by simp
    then have "consume body ?t st = (case consume body ?p st of Go st \<Rightarrow> consume body (drop (nat DEFAULT_SIG_LIMIT) ?t) st | Break st \<Rightarrow> Break st)"
      by (simp only: consume_append)
    then show ?thesis using page ne rest
      by (simp add: iterate_pages.simps[of node a _ _ _ page] unlimited split: control.splits)
  qed
qed

lemma collect_below: "\<forall>x \<in> set h. sgi_slot x < f \<Longrightarrow> f \<le> t \<Longrightarrow> state_of (consume (collect_range f t) h acc) = acc"
  by (cases h) (auto simp: collect_range_def)

lemma collect_range_newest_first:
  "newest_first sgi_slot h \<Longrightarrow> f \<le> t \<Longrightarrow>
    state_of (consume (collect_range f t) h acc) = acc @ filter (\<lambda>x. f \<le> sgi_slot x \<and> sgi_slot x \<le> t) h"
proof (induction h arbitrary: acc)
  case (Cons x h)
  then have h: "newest_first sgi_slot h" "\<forall>y \<in> set h. sgi_slot y \<le> sgi_slot x" by (auto simp: newest_first_def)
  consider "sgi_slot x > t" | "sgi_slot x < f" | "f \<le> sgi_slot x" "sgi_slot x \<le> t" by linarith
  then show ?case
  proof cases
    case 2
    then have "filter (\<lambda>x. f \<le> sgi_slot x \<and> sgi_slot x \<le> t) h = []" using h(2) by (auto simp: filter_empty_conv)
    then show ?thesis using 2 Cons.prems(2) by (simp add: collect_range_def)
  qed (use Cons.IH[OF h(1) Cons.prems(2)] Cons.prems(2) in \<open>simp_all add: collect_range_def\<close>)
qed simp

text \<open>The events of a transaction: none when it failed or the node no longer has it.\<close>

definition events_of :: "'tx history_node \<Rightarrow> ('tx, 'd) tx_decoder \<Rightarrow> string \<Rightarrow> sig_info \<Rightarrow> 'd decode_result list" where
  "events_of node decoder p si =
     (if sgi_failed si then []
      else case hn_transaction node (sgi_signature si) 1 of Inr (Some tx) \<Rightarrow> decode_tx decoder p si tx | _ \<Rightarrow> [])"

definition answers :: "'tx history_node \<Rightarrow> sig_info list \<Rightarrow> bool" where
  "answers node h \<longleftrightarrow> (\<forall>si \<in> set h. \<not> isl (hn_transaction node (sgi_signature si) 1))"

lemma sweep_answers: "answers node h \<Longrightarrow> sweep_transactions node p decoder h = (concat (map (events_of node decoder p) h), None)"
proof (induction h)
  case (Cons si h)
  have "answers node h" "\<not> isl (hn_transaction node (sgi_signature si) 1)" using Cons.prems by (simp_all add: answers_def)
  then show ?case using Cons.IH
    by (auto simp: events_of_def getTransaction_def split: sum.splits option.splits)
qed simp

definition history_ok :: "'tx history_node \<Rightarrow> string \<Rightarrow> sig_info list \<Rightarrow> bool" where
  "history_ok node p h \<longleftrightarrow> serves node p h \<and> distinct (map sgi_signature h) \<and> newest_first sgi_slot h \<and> answers node h"

lemma fetch_range:
  assumes "history_ok node p h"
  shows "fetchEventsForProgram node p f t decoder =
    Some (concat (map (events_of node decoder p) (filter (\<lambda>si. f \<le> sgi_slot si \<and> sgi_slot si \<le> t) (rev h))), None)"
proof (cases "t < f")
  case True
  then have "filter (\<lambda>si. f \<le> sgi_slot si \<and> sgi_slot si \<le> t) (rev h) = []" by (auto simp: filter_empty_conv)
  then show ?thesis using True by (simp add: fetchEventsForProgram_def)
next
  case False
  have h: "serves node p h" "distinct (map sgi_signature h)" "newest_first sgi_slot h" "answers node h" using assms by (simp_all add: history_ok_def)
  let ?r = "filter (\<lambda>x. f \<le> sgi_slot x \<and> sgi_slot x \<le> t) h"
  have "iterate_pages node p no_options DEFAULT_SIG_LIMIT (collect_range f t) 0 None [] = Some (Inr (state_of (consume (collect_range f t) h [])))"
    using iterate_serves[OF h(1,2), of "[]" None] by (simp add: after_def)
  then have "iterateSignaturesForAddress node p no_options (collect_range f t) [] = Some (Inr ?r)"
    using collect_range_newest_first[OF h(3), of f t "[]"] False by (simp add: iterateSignaturesForAddress_def no_options_def)
  moreover have "answers node (rev ?r)" using h(4) by (auto simp: answers_def)
  ultimately show ?thesis using False sweep_answers by (simp add: fetchEventsForProgram_def rev_filter)
qed

lemma deliver_quietly: "deliver_all (\<lambda>_. None) evs = (evs, None)"
  by (induction evs) auto

text \<open>What the backfill of a gap delivers.\<close>

definition backfilled :: "'tx history_node \<Rightarrow> ('tx, 'd) tx_decoder \<Rightarrow> string \<Rightarrow> sig_info list \<Rightarrow> int \<times> int \<Rightarrow> 'd decode_result list" where
  "backfilled node decoder p h gap = concat (map (events_of node decoder p) (filter (\<lambda>si. fst gap \<le> sgi_slot si \<and> sgi_slot si < snd gap) (rev h)))"

lemma gap_backfill_one:
  assumes "history_ok node p h"
  shows "gapBackfill node [p] decoder (\<lambda>_. None) g = Some (backfilled node decoder p h g, None)"
  using fetch_range[OF assms, of "fst g" "snd g - 1" decoder] by (simp add: gapBackfill_def backfilled_def deliver_quietly)

section \<open>The gaps of a live stream, filled\<close>

lemma filter_then_filter:
  assumes "sorted_wrt (\<lambda>x y. k x \<le> (k y :: int)) xs" and "\<And>x y. A x \<Longrightarrow> B y \<Longrightarrow> k x < k y"
  shows "filter A xs @ filter B xs = filter (\<lambda>x. A x \<or> B x) xs"
  using assms(1)
proof (induction xs)
  case (Cons x xs)
  show ?case
  proof (cases "B x")
    case True
    then have "\<not> A y" if "y \<in> set (x # xs)" for y using assms(2)[of y x] Cons.prems that by fastforce
    then have none: "filter A (x # xs) = []" "filter A xs = []" "\<forall>y \<in> set (x # xs). \<not> A y" by (auto simp: filter_empty_conv)
    then have "filter B (x # xs) = filter (\<lambda>x. A x \<or> B x) (x # xs)" by (intro filter_cong) auto
    then show ?thesis using none(1) by simp
  next
    case False
    then show ?thesis using Cons.IH Cons.prems by simp
  qed
qed simp

lemma filter_gaps:
  assumes "sorted_wrt (\<lambda>x y. k x \<le> (k y :: int)) xs" and "sorted_wrt (\<lambda>g g'. snd g \<le> fst g') gs" and "\<forall>(f, t) \<in> set gs. f < t"
  shows "concat (map (\<lambda>(f, t). filter (\<lambda>x. f \<le> k x \<and> k x < t) xs) gs) = filter (\<lambda>x. in_gap gs (k x)) xs"
  using assms(2,3)
proof (induction gs)
  case (Cons g gs)
  obtain f t where g: "g = (f, t)" by force
  have later: "\<forall>(f', t') \<in> set gs. t \<le> f'" using Cons.prems(1) g by auto
  have "filter (\<lambda>x. f \<le> k x \<and> k x < t) xs @ filter (\<lambda>x. in_gap gs (k x)) xs = filter (\<lambda>x. (f \<le> k x \<and> k x < t) \<or> in_gap gs (k x)) xs"
    by (rule filter_then_filter[OF assms(1)]) (use later in \<open>fastforce simp: in_gap_def\<close>)
  then show ?case using Cons.IH Cons.prems g by (simp add: in_gap_def)
qed (simp add: in_gap_def)

lemma newest_first_rev: "newest_first slot h \<Longrightarrow> sorted_wrt (\<lambda>x y. slot x \<le> (slot y :: int)) (rev h)"
  by (simp add: newest_first_def sorted_wrt_rev)

text \<open>
  C29. A live stream and its backfill miss nothing between them: when the node serves a program's history, the backfills of the
  gaps a subscription reports deliver, oldest first and each once, the events of exactly those transactions of the
  program in the slots no slot update reached, between the first slot the subscription knows and the highest.
\<close>

theorem gaps_backfilled_once:
  assumes "geyser_reach env s" and "quiet env" and "0 < ge_capacity env" and "marks (sub_log s) \<noteq> []" and "history_ok node p h"
  shows "map (gapBackfill node [p] decoder (\<lambda>_. None)) (reported (sub_log s)) = map (\<lambda>g. Some (backfilled node decoder p h g, None)) (reported (sub_log s)) \<and>
    concat (map (backfilled node decoder p h) (reported (sub_log s))) =
      concat (map (events_of node decoder p) (filter (\<lambda>si. hd (marks (sub_log s)) \<le> sgi_slot si \<and> sgi_slot si \<le> Max (set (marks (sub_log s))) \<and>
        \<not> reached (marks (sub_log s)) (sgi_slot si)) (rev h)))"
proof -
  let ?ms = "marks (sub_log s)" and ?gs = "reported (sub_log s)" and ?ev = "events_of node decoder p"
  have tl: "timeline ?ms ?gs" using geyser_reach_ok[OF assms(1-3)] by (simp add: geyser_ok_def slots_ok_def)
  then have gs: "sorted_wrt (\<lambda>g g'. snd g \<le> fst g') ?gs" "\<forall>(f, t) \<in> set ?gs. hd ?ms < f \<and> f < t \<and> t \<le> Max (set ?ms)"
    "\<And>x. hd ?ms \<le> x \<Longrightarrow> x \<le> Max (set ?ms) \<Longrightarrow> reached ?ms x \<noteq> in_gap ?gs x"
    using assms(4) by (simp_all add: timeline_def)
  have h: "sorted_wrt (\<lambda>x y. sgi_slot x \<le> sgi_slot y) (rev h)" using assms(5) newest_first_rev[of sgi_slot h] by (simp add: history_ok_def)
  have iff: "in_gap ?gs x \<longleftrightarrow> hd ?ms \<le> x \<and> x \<le> Max (set ?ms) \<and> \<not> reached ?ms x" for x
    using gs(2) gs(3)[of x] by (fastforce simp: in_gap_def)
  have "concat (map (backfilled node decoder p h) gs) = concat (map ?ev (concat (map (\<lambda>(f, t). filter (\<lambda>si. f \<le> sgi_slot si \<and> sgi_slot si < t) (rev h)) gs)))" for gs
    by (induction gs) (auto simp: backfilled_def)
  moreover have "concat (map (\<lambda>(f, t). filter (\<lambda>si. f \<le> sgi_slot si \<and> sgi_slot si < t) (rev h)) ?gs) = filter (\<lambda>si. in_gap ?gs (sgi_slot si)) (rev h)"
    by (rule filter_gaps[OF h gs(1)]) (use gs(2) in auto)
  ultimately show ?thesis using gap_backfill_one[OF assms(5)] by (auto simp: iff backfilled_def)
qed

text \<open>
  \<open>getBlocks\<close> of a range of any length is what one call without the window limit would return.
\<close>

theorem getBlocks_chunks:
  assumes "\<And>a b. a \<le> b \<Longrightarrow> b < a + BLOCKS_CHUNK \<Longrightarrow> hn_blocks node a b = Inr (filter (\<lambda>n. a \<le> n \<and> n \<le> b) blocks)" and "sorted_wrt (<) blocks"
  shows "getBlocks node from to = Inr (filter (\<lambda>n. from \<le> n \<and> n \<le> to) blocks)"
proof -
  have "sorted_wrt (\<lambda>x y. x \<le> y) blocks" using assms(2) by (simp add: strict_sorted_iff)
  then have split: "filter (\<lambda>n. a \<le> n \<and> n < b) blocks @ filter (\<lambda>n. b \<le> n \<and> n \<le> c) blocks = filter (\<lambda>n. a \<le> n \<and> n \<le> c) blocks"
    if "a \<le> b" "b \<le> c + 1" for a b c :: int
    using that filter_then_filter[of "\<lambda>x. x" blocks "\<lambda>n. a \<le> n \<and> n < b" "\<lambda>n. b \<le> n \<and> n \<le> c"] by (auto intro: filter_cong)
  have "blocks_from node start to out = Inr (out @ filter (\<lambda>n. start \<le> n \<and> n \<le> to) blocks)" for start out
  proof (induction "nat (to + 1 - start)" arbitrary: start out rule: less_induct)
    case less
    let ?f = "\<lambda>b. filter (\<lambda>n. start \<le> n \<and> n \<le> b) blocks"
    consider "start > to" | "start \<le> to" "to < start + BLOCKS_CHUNK" | "start + BLOCKS_CHUNK \<le> to" by linarith
    then show ?case
    proof cases
      case 1
      then have "?f to = []" by (auto simp: filter_empty_conv)
      then show ?thesis using 1 by (simp add: blocks_from.simps)
    next
      case 2
      then have "min (start + BLOCKS_CHUNK - 1) to = to" by simp
      then have "hn_blocks node start (min (start + BLOCKS_CHUNK - 1) to) = Inr (?f to)" using assms(1)[of start to] 2 by simp
      moreover have "blocks_from node (start + BLOCKS_CHUNK) to (out @ ?f to) = Inr (out @ ?f to)"
        using 2 by (simp add: blocks_from.simps[of node "start + BLOCKS_CHUNK"])
      ultimately show ?thesis using 2(1) by (simp add: blocks_from.simps[of node start])
    next
      case 3
      let ?c = "?f (start + BLOCKS_CHUNK - 1)"
      have "hn_blocks node start (min (start + BLOCKS_CHUNK - 1) to) = Inr ?c"
        using 3 assms(1)[of start "start + BLOCKS_CHUNK - 1"] by (simp add: min_def BLOCKS_CHUNK_def)
      moreover have "blocks_from node (start + BLOCKS_CHUNK) to (out @ ?c) = Inr ((out @ ?c) @ filter (\<lambda>n. start + BLOCKS_CHUNK \<le> n \<and> n \<le> to) blocks)"
        by (rule less.hyps) (use 3 in \<open>simp add: BLOCKS_CHUNK_def\<close>)
      moreover have "?c @ filter (\<lambda>n. start + BLOCKS_CHUNK \<le> n \<and> n \<le> to) blocks = ?f to"
        using split[of start "start + BLOCKS_CHUNK" to] 3 by (simp add: BLOCKS_CHUNK_def zless_add1_eq flip: zle_diff1_eq)
      ultimately show ?thesis using 3 by (simp add: blocks_from.simps[of node start] BLOCKS_CHUNK_def)
    qed
  qed
  then show ?thesis by (auto simp: getBlocks_def filter_empty_conv)
qed

section \<open>Helius transactions\<close>

text \<open>
  A JSON number or a string in its place; JavaScript's numbers are a parameter. Labels are ASCII, so that
  \<open>toUpperCase\<close> is \<open>upper\<close>.
\<close>

record 'n number_ops =
  nu_finite :: "'n \<Rightarrow> bool"
  nu_of_string :: "string \<Rightarrow> 'n"
  nu_zero :: 'n

datatype 'n json_number = JNumber 'n | JString string | JAbsent

definition numericOrZero :: "'n number_ops \<Rightarrow> 'n json_number \<Rightarrow> 'n" where
  "numericOrZero ops x =
     (case x of
        JNumber n \<Rightarrow> if nu_finite ops n then n else nu_zero ops
      | JString t \<Rightarrow> (let n = nu_of_string ops t in if nu_finite ops n then n else nu_zero ops)
      | JAbsent \<Rightarrow> nu_zero ops)"

record 'n raw_token_transfer =
  rt_from :: "string option"
  rt_to :: "string option"
  rt_mint :: "string option"
  rt_amount :: "'n json_number"
  rt_standard :: "string option"

record 'n token_transfer =
  tt_from :: "string option"
  tt_to :: "string option"
  tt_mint :: string
  tt_amount :: 'n
  tt_standard :: "string option"

record 'n helius_tx =
  htx_signature :: string
  htx_slot :: "int option"
  htx_timestamp :: "'n option"
  htx_type :: "string option"
  htx_source :: "string option"
  htx_feePayer :: "string option"
  htx_failed :: bool
  htx_tokens :: "'n raw_token_transfer list option"
  htx_natives :: "(string option \<times> string option \<times> 'n json_number) list option"

datatype helius_variant = HeliusSwap | HeliusTokenMint | HeliusTransfer

record 'n helius_data =
  hd_variant :: helius_variant
  hd_source :: "string option"
  hd_feePayer :: "string option"
  hd_timestamp :: "'n option"
  hd_tokens :: "'n token_transfer list"
  hd_natives :: "(string option \<times> string option \<times> 'n) list"

definition PUMPFUN_PROGRAM :: string where "PUMPFUN_PROGRAM = ''6EF8rrecthR5Dkzon8Nwu78hRvfCKubJ14M5uBEwF6P''"
definition JUPITER_V6_PROGRAM :: string where "JUPITER_V6_PROGRAM = ''JUP6LkbZbjS1jKKwapdHNy74zcZ3tLUZoi5QNyVTaV4''"
definition RAYDIUM_AMM_V4_PROGRAM :: string where "RAYDIUM_AMM_V4_PROGRAM = ''675kPX9MHTjS2zt1qfr1NYHuzeLXfQM9H24wFSUt1Mp8''"
definition UNKNOWN_PROGRAM :: string where "UNKNOWN_PROGRAM = ''11111111111111111111111111111111''"

definition upper :: "string \<Rightarrow> string" where
  "upper = map (\<lambda>c. if of_char c \<ge> (97 :: nat) \<and> of_char c \<le> (122 :: nat) then char_of (of_char c - 32 :: nat) else c)"

fun has_substring :: "string \<Rightarrow> string \<Rightarrow> bool" where
  "has_substring [] t \<longleftrightarrow> t = []"
| "has_substring (c # s) t \<longleftrightarrow> take (length t) (c # s) = t \<or> has_substring s t"

definition venueProgramId :: "'n helius_tx \<Rightarrow> string" where
  "venueProgramId tx =
     (let s = upper (case htx_source tx of Some s \<Rightarrow> s | None \<Rightarrow> [])
      in if has_substring s ''PUMP'' then PUMPFUN_PROGRAM
         else if has_substring s ''JUPITER'' then JUPITER_V6_PROGRAM
         else if has_substring s ''RAYDIUM'' then RAYDIUM_AMM_V4_PROGRAM
         else UNKNOWN_PROGRAM)"

definition normaliseTokenTransfers :: "'n number_ops \<Rightarrow> 'n raw_token_transfer list option \<Rightarrow> 'n token_transfer list" where
  "normaliseTokenTransfers ops raw =
     (case raw of
        None \<Rightarrow> []
      | Some ts \<Rightarrow> map (\<lambda>t. \<lparr>tt_from = rt_from t, tt_to = rt_to t, tt_mint = (case rt_mint t of Some m \<Rightarrow> m | None \<Rightarrow> []),
          tt_amount = numericOrZero ops (rt_amount t),
          tt_standard = (case rt_standard t of Some [] \<Rightarrow> None | st \<Rightarrow> st)\<rparr>) ts)"

definition normaliseNativeTransfers ::
    "'n number_ops \<Rightarrow> (string option \<times> string option \<times> 'n json_number) list option \<Rightarrow> (string option \<times> string option \<times> 'n) list" where
  "normaliseNativeTransfers ops raw = (case raw of None \<Rightarrow> [] | Some ts \<Rightarrow> map (\<lambda>(f, t, n). (f, t, numericOrZero ops n)) ts)"

definition variant_of :: "string \<Rightarrow> helius_variant option" where
  "variant_of t = (if t = ''SWAP'' then Some HeliusSwap else if t = ''TOKEN_MINT'' then Some HeliusTokenMint
     else if t = ''TRANSFER'' then Some HeliusTransfer else None)"

definition normalizeHeliusTx :: "'n number_ops \<Rightarrow> 'n helius_tx \<Rightarrow> 'n helius_data decode_result list" where
  "normalizeHeliusTx ops tx =
     (let slot = (case htx_slot tx of Some n \<Rightarrow> n | None \<Rightarrow> 0)
      in if htx_failed tx then [UnknownEvent slot (htx_signature tx) UNKNOWN_PROGRAM ''transaction failed'']
         else case variant_of (upper (case htx_type tx of Some t \<Rightarrow> t | None \<Rightarrow> [])) of
                None \<Rightarrow> [UnknownEvent slot (htx_signature tx) UNKNOWN_PROGRAM
                   (''helius type='' @ (case htx_type tx of Some t \<Rightarrow> t | None \<Rightarrow> ''missing'') @ '' not classifiable'')]
              | Some v \<Rightarrow> [Decoded \<lparr>dr_slot = slot, dr_signature = htx_signature tx,
                  dr_programId = (if v = HeliusTransfer then UNKNOWN_PROGRAM else venueProgramId tx),
                  dr_data = \<lparr>hd_variant = v, hd_source = htx_source tx, hd_feePayer = htx_feePayer tx, hd_timestamp = htx_timestamp tx,
                    hd_tokens = normaliseTokenTransfers ops (htx_tokens tx), hd_natives = normaliseNativeTransfers ops (htx_natives tx)\<rparr>\<rparr>])"

section \<open>Catching up\<close>

record 'n catchup =
  hc_page :: "string \<Rightarrow> int \<Rightarrow> string option \<Rightarrow> string + 'n helius_tx list"   \<comment> \<open>address, limit, before\<close>
  hc_pageSize :: int
  hc_maxPages :: "int option"

definition new_catchup :: "(string \<Rightarrow> int \<Rightarrow> string option \<Rightarrow> string + 'n helius_tx list) \<Rightarrow> int option \<Rightarrow> int option \<Rightarrow> 'n catchup" where
  "new_catchup api pageSize maxPages = \<lparr>hc_page = api, hc_pageSize = min (case pageSize of Some n \<Rightarrow> n | None \<Rightarrow> 100) 100, hc_maxPages = maxPages\<rparr>"

record catchup_args =
  ca_address :: string
  ca_fromSlot :: "int option"
  ca_toSlot :: "int option"
  ca_limit :: "int option"

definition below :: "int \<Rightarrow> int option \<Rightarrow> bool" where
  "below n lim \<longleftrightarrow> (case lim of None \<Rightarrow> True | Some l \<Rightarrow> n < l)"

fun yield_events :: "int option \<Rightarrow> 'd decode_result list \<Rightarrow> int \<Rightarrow> 'd decode_result list \<times> int \<times> bool" where
  "yield_events limit [] yielded = ([], yielded, False)"
| "yield_events limit (ev # evs) yielded =
     (if \<not> below (yielded + 1) limit then ([ev], yielded + 1, True)
      else (case yield_events limit evs (yielded + 1) of (out, y, stop) \<Rightarrow> (ev # out, y, stop)))"

fun catchup_page :: "'n number_ops \<Rightarrow> catchup_args \<Rightarrow> 'n helius_tx list \<Rightarrow> int \<Rightarrow> 'n helius_data decode_result list \<times> int \<times> bool" where
  "catchup_page ops args [] yielded = ([], yielded, False)"
| "catchup_page ops args (tx # txs) yielded =
     (let slot = (case htx_slot tx of Some n \<Rightarrow> n | None \<Rightarrow> 0)
      in if (case ca_toSlot args of Some t \<Rightarrow> slot > t | None \<Rightarrow> False) then catchup_page ops args txs yielded
         else if (case ca_fromSlot args of Some f \<Rightarrow> slot < f | None \<Rightarrow> False) then ([], yielded, True)
         else (case yield_events (ca_limit args) (normalizeHeliusTx ops tx) yielded of
                 (evs, y, True) \<Rightarrow> (evs, y, True)
               | (evs, y, False) \<Rightarrow> (case catchup_page ops args txs y of (out, y, stop) \<Rightarrow> (evs @ out, y, stop))))"

partial_function (option) catchup_pages ::
    "'n number_ops \<Rightarrow> 'n catchup \<Rightarrow> catchup_args \<Rightarrow> int \<Rightarrow> int \<Rightarrow> string option \<Rightarrow> 'n helius_data yields option" where
  "catchup_pages ops c args pages yielded before =
     (if \<not> (below pages (hc_maxPages c) \<and> below yielded (ca_limit args)) then Some ([], None)
      else case hc_page c (ca_address args) (hc_pageSize c) before of
             Inl err \<Rightarrow> Some ([], Some err)
           | Inr txs \<Rightarrow>
               if txs = [] then Some ([], None)
               else (case catchup_page ops args txs yielded of
                       (evs, y, stop) \<Rightarrow>
                         if stop \<or> htx_signature (last txs) = [] then Some (evs, None)
                         else Option.bind (catchup_pages ops c args (pages + 1) y (Some (htx_signature (last txs))))
                                (\<lambda>(out, err). Some (evs @ out, err))))"

definition fetchRange :: "'n number_ops \<Rightarrow> 'n catchup \<Rightarrow> catchup_args \<Rightarrow> 'n helius_data yields option" where
  "fetchRange ops c args = catchup_pages ops c args 0 0 None"

text \<open>The API serves one history, newest first, in pages.\<close>

definition catchup_ok :: "'n catchup \<Rightarrow> catchup_args \<Rightarrow> 'n helius_tx list \<Rightarrow> bool" where
  "catchup_ok c args h \<longleftrightarrow> 0 < hc_pageSize c \<and> hc_maxPages c = None \<and> list_all (\<lambda>tx. htx_slot tx \<noteq> None \<and> htx_signature tx \<noteq> []) h \<and>
     distinct (map htx_signature h) \<and> newest_first (\<lambda>tx. the (htx_slot tx)) h \<and>
     (\<forall>before. hc_page c (ca_address args) (hc_pageSize c) before = Inr (take (nat (hc_pageSize c)) (after htx_signature before h)))"

definition in_range :: "catchup_args \<Rightarrow> 'n helius_tx \<Rightarrow> bool" where
  "in_range args tx \<longleftrightarrow> (case ca_fromSlot args of Some f \<Rightarrow> f \<le> the (htx_slot tx) | None \<Rightarrow> True) \<and>
     (case ca_toSlot args of Some t \<Rightarrow> the (htx_slot tx) \<le> t | None \<Rightarrow> True)"

definition upto_limit :: "int option \<Rightarrow> int \<Rightarrow> 'a list \<Rightarrow> 'a list" where
  "upto_limit limit yielded xs = (case limit of None \<Rightarrow> xs | Some l \<Rightarrow> take (nat (l - yielded)) xs)"

abbreviation events_in_range :: "'n number_ops \<Rightarrow> catchup_args \<Rightarrow> 'n helius_tx list \<Rightarrow> 'n helius_data decode_result list" where
  "events_in_range ops args h \<equiv> concat (map (normalizeHeliusTx ops) (filter (in_range args) h))"

lemma normalize_one: "\<exists>ev. normalizeHeliusTx ops tx = [ev]"
  by (simp add: normalizeHeliusTx_def Let_def split: option.split)

lemma upto_limit_none: "below yielded limit \<Longrightarrow> upto_limit limit yielded [] = []"
  by (simp add: upto_limit_def split: option.splits)

lemma upto_limit_Cons: "below yielded limit \<Longrightarrow> upto_limit limit yielded (x # xs) = x # upto_limit limit (yielded + 1) xs"
proof (cases limit)
  case (Some l)
  moreover assume "below yielded limit"
  ultimately have "nat (l - yielded) = Suc (nat (l - (yielded + 1)))" by (simp add: below_def)
  then show ?thesis using Some by (simp add: upto_limit_def)
qed (simp add: upto_limit_def)

lemma upto_limit_full: "\<not> below yielded limit \<Longrightarrow> upto_limit limit yielded xs = []"
  by (simp add: upto_limit_def below_def split: option.splits)

text \<open>
  A page either ends the walk, with all that is left to yield, or it is yielded in full and the rest goes on.
\<close>

lemma catchup_page_spec:
  assumes "newest_first (\<lambda>tx. the (htx_slot tx)) (txs @ rest)" and "list_all (\<lambda>tx. htx_slot tx \<noteq> None) (txs @ rest)" and "below yielded (ca_limit args)"
    and "catchup_page ops args txs yielded = (evs, y, stop)"
  shows "if stop then evs = upto_limit (ca_limit args) yielded (events_in_range ops args (txs @ rest))
    else below y (ca_limit args) \<and>
      (\<forall>more. evs @ upto_limit (ca_limit args) y more = upto_limit (ca_limit args) yielded (events_in_range ops args txs @ more))"
  using assms
proof (induction txs arbitrary: yielded evs y stop)
  case (Cons tx txs)
  obtain n where n: "htx_slot tx = Some n" using Cons.prems(2) by auto
  have rest: "newest_first (\<lambda>tx. the (htx_slot tx)) (txs @ rest)" "list_all (\<lambda>tx. htx_slot tx \<noteq> None) (txs @ rest)"
    using Cons.prems(1,2) by (simp_all add: newest_first_def)
  obtain ev where ev: "normalizeHeliusTx ops tx = [ev]" using normalize_one by blast
  show ?case
  proof (cases "case ca_toSlot args of Some t \<Rightarrow> n > t | None \<Rightarrow> False")
    case True
    then have "\<not> in_range args tx" using n by (auto simp: in_range_def split: option.splits)
    moreover have "catchup_page ops args txs yielded = (evs, y, stop)" using Cons.prems(4) True n by simp
    ultimately show ?thesis using Cons.IH[OF rest Cons.prems(3)] by simp
  next
    case inside: False
    show ?thesis
    proof (cases "case ca_fromSlot args of Some f \<Rightarrow> n < f | None \<Rightarrow> False")
      case True
      then obtain f where f: "ca_fromSlot args = Some f" "n < f" by (auto split: option.splits)
      have "the (htx_slot x) \<le> n" if "x \<in> set (tx # txs @ rest)" for x
        using Cons.prems(1) n that by (auto simp: newest_first_def)
      then have "\<not> in_range args x" if "x \<in> set ((tx # txs) @ rest)" for x using that f by (fastforce simp: in_range_def)
      then have "filter (in_range args) ((tx # txs) @ rest) = []" by (simp add: filter_empty_conv)
      then have none: "events_in_range ops args ((tx # txs) @ rest) = []" by (simp only: list.map concat.simps)
      have "evs = []" "stop" using Cons.prems(4) inside True n by auto
      then show ?thesis by (simp only: none upto_limit_none[OF Cons.prems(3)] if_True)
    next
      case False
      then have r: "in_range args tx" using inside n by (auto simp: in_range_def split: option.splits)
      show ?thesis
      proof (cases "below (yielded + 1) (ca_limit args)")
        case True
        obtain out where out: "catchup_page ops args txs (yielded + 1) = (out, y, stop)" "evs = ev # out"
          using Cons.prems(4) inside False n True ev by (auto split: prod.splits)
        show ?thesis using Cons.IH[OF rest True out(1)] out(2) r ev Cons.prems(3) by (simp add: upto_limit_Cons split: if_splits)
      next
        case lim: False
        then have "evs = [ev]" "stop" using Cons.prems(4) inside False n ev by auto
        then show ?thesis using r ev Cons.prems(3) lim by (simp add: upto_limit_Cons upto_limit_full)
      qed
    qed
  qed
qed (simp add: upto_limit_none)

lemma catchup_pages_exact:
  assumes "catchup_ok c args h" and "h = pre @ after htx_signature before h" and "below yielded (ca_limit args)"
  shows "catchup_pages ops c args pages yielded before = Some (upto_limit (ca_limit args) yielded (events_in_range ops args (after htx_signature before h)), None)"
  using assms(2,3)
proof (induction "length (after htx_signature before h)" arbitrary: pre before pages yielded rule: less_induct)
  case less
  let ?t = "after htx_signature before h" and ?n = "nat (hc_pageSize c)"
  have ok: "0 < ?n" "hc_maxPages c = None" "list_all (\<lambda>tx. htx_slot tx \<noteq> None \<and> htx_signature tx \<noteq> []) h" "distinct (map htx_signature h)"
    "newest_first (\<lambda>tx. the (htx_slot tx)) h" "hc_page c (ca_address args) (hc_pageSize c) before = Inr (take ?n ?t)"
    using assms(1) by (simp_all add: catchup_ok_def)
  have go: "below pages (hc_maxPages c) \<and> below yielded (ca_limit args)" using ok(2) less.prems(2) by (simp add: below_def)
  show ?case
  proof (cases "?t = []")
    case True
    then show ?thesis using ok(6) go by (simp add: catchup_pages.simps[of ops c args pages] upto_limit_none)
  next
    case False
    then have ne: "take ?n ?t \<noteq> []" using ok(1) by simp
    let ?x = "last (take ?n ?t)"
    have "?x \<in> set h" using ne last_in_set[OF ne] set_take_subset[of ?n ?t] less.prems(1) by (metis in_mono Un_iff set_append)
    then have named: "htx_signature ?x \<noteq> []" using ok(3) by (auto simp: list_all_iff)
    have next_page: "after htx_signature (Some (htx_signature ?x)) h = drop ?n ?t"
    proof (cases "?n \<le> length ?t")
      case True
      show ?thesis by (rule after_page[OF less.prems(1) ok(4,1) True])
    next
      case short: False
      then show ?thesis using after_page[OF less.prems(1) ok(4) _ order_refl] False by simp
    qed
    have tl: "newest_first (\<lambda>tx. the (htx_slot tx)) (take ?n ?t @ drop ?n ?t)" "list_all (\<lambda>tx. htx_slot tx \<noteq> None) (take ?n ?t @ drop ?n ?t)"
      using ok(3,5) less.prems(1) by (metis append_take_drop_id newest_first_def sorted_wrt_append)
        (use ok(3) less.prems(1) in \<open>metis (mono_tags, lifting) append_take_drop_id list_all_append list.pred_mono_strong\<close>)
    obtain evs y stop where pg: "catchup_page ops args (take ?n ?t) yielded = (evs, y, stop)" by (metis prod_cases3)
    note spec = catchup_page_spec[OF tl less.prems(2) pg]
    show ?thesis
    proof (cases stop)
      case True
      then show ?thesis using ok(6) go ne pg spec by (simp add: catchup_pages.simps[of ops c args pages])
    next
      case False
      then have y: "below y (ca_limit args)" and full: "\<And>more. evs @ upto_limit (ca_limit args) y more =
          upto_limit (ca_limit args) yielded (events_in_range ops args (take ?n ?t) @ more)" using spec by simp_all
      have "catchup_pages ops c args (pages + 1) y (Some (htx_signature ?x)) =
          Some (upto_limit (ca_limit args) y (events_in_range ops args (drop ?n ?t)), None)"
      proof -
        have "h = (pre @ take ?n ?t) @ drop ?n ?t" using less.prems(1) by simp
        moreover have "length (drop ?n ?t) < length ?t" using ok(1) \<open>?t \<noteq> []\<close> by simp
        ultimately show ?thesis using less.hyps[of "Some (htx_signature ?x)" "pre @ take ?n ?t" y "pages + 1"] next_page y by simp
      qed
      moreover have "events_in_range ops args ?t = events_in_range ops args (take ?n ?t) @ events_in_range ops args (drop ?n ?t)"
        by (metis append_take_drop_id concat_append filter_append map_append)
      ultimately show ?thesis using ok(6) go ne pg False named full by (simp add: catchup_pages.simps[of ops c args pages])
    qed
  qed
qed

text \<open>
  C30. Catching up with the API's history without a limit on the pages, whatever the size of a page, returns and yields, newest
  first, the events of exactly the transactions between the two bounds, up to the limit on transactions. The history is
  ordered by slot, and every transaction in it has a numeric slot and a signature; the case of one that has no slot is
  \<open>slotless_ends_catchup\<close>.
\<close>

theorem catchup_exact:
  assumes "catchup_ok c args h"
  shows "fetchRange ops c args = Some (upto_limit (ca_limit args) 0 (concat (map (normalizeHeliusTx ops) (filter (in_range args) h))), None)"
proof (cases "below 0 (ca_limit args)")
  case True
  then show ?thesis using catchup_pages_exact[OF assms, of "[]" None 0] by (simp add: fetchRange_def after_def)
next
  case False
  then show ?thesis by (simp add: fetchRange_def catchup_pages.simps upto_limit_full)
qed

section \<open>Examples\<close>

definition sample_history :: "sig_info list" where
  "sample_history = [\<lparr>sgi_signature = ''d'', sgi_slot = 9, sgi_failed = False\<rparr>, \<lparr>sgi_signature = ''c'', sgi_slot = 8, sgi_failed = False\<rparr>,
     \<lparr>sgi_signature = ''b'', sgi_slot = 7, sgi_failed = False\<rparr>, \<lparr>sgi_signature = ''a'', sgi_slot = 5, sgi_failed = False\<rparr>]"

definition sample_node :: "nat history_node" where
  "sample_node = \<lparr>hn_signatures = \<lambda>_ opts. Inr (take 1000 (after sgi_signature (so_before opts) sample_history)),
     hn_transaction = \<lambda>sig _. Inr (Some (length sig)), hn_blocks = \<lambda>a b. Inr (filter (\<lambda>n. a \<le> n \<and> n \<le> b) [5, 7, 1500, 2500])\<rparr>"

definition sample_decoder :: "(nat, nat) tx_decoder" where
  "sample_decoder n = Inl ''unknown layout''"

lemma sample_history_ok: "history_ok sample_node ''p'' sample_history"
  by (simp add: history_ok_def serves_def sample_node_def page_options_def DEFAULT_SIG_LIMIT_def newest_first_def answers_def)
    (simp add: sample_history_def)

theorem gaps_backfilled_once_witness:
  "\<exists>s. geyser_steps (sample_geyser (\<lambda>_ _. False)) sample_watch (subscribe_geyser (sample_geyser (\<lambda>_ _. False)) False Opened) = Some s \<and>
     concat (map (backfilled sample_node sample_decoder ''p'' sample_history) (reported (sub_log s))) =
       [UnknownEvent 7 ''b'' ''p'' ''unknown layout'', UnknownEvent 8 ''c'' ''p'' ''unknown layout'']"
proof -
  obtain s where s: "geyser_steps (sample_geyser (\<lambda>_ _. False)) sample_watch (subscribe_geyser (sample_geyser (\<lambda>_ _. False)) False Opened) = Some s"
    "marks (sub_log s) = [4, 5, 9]" "reported (sub_log s) = [(6, 9)]"
    using sample_watched by (auto simp: slot_update_def)
  have r: "reached [4, 5, 9] 5" "reached [4, 5, 9] 9" "\<not> reached [4, 5, 9] 7" "\<not> reached [4, 5, 9] 8"
    by (auto simp: reached_def Cons_eq_append_conv intro: exI[of _ "[4]"] exI[of _ "[4, 5]"])
  show ?thesis
    using gaps_backfilled_once[OF geyser_steps_reach[OF s(1) geyser_reach.subscribed] sample_quiet _ sample_history_ok, of sample_decoder] s r
    by (simp add: sample_history_def events_of_def sample_node_def decode_tx_def sample_decoder_def)
qed

theorem getBlocks_chunks_witness: "getBlocks sample_node 6 2400 = Inr [7, 1500]"
  using getBlocks_chunks[of sample_node "[5, 7, 1500, 2500]" 6 2400] by (simp add: sample_node_def)

definition helius_example :: "string \<Rightarrow> int option \<Rightarrow> unit helius_tx" where
  "helius_example sig slot = \<lparr>htx_signature = sig, htx_slot = slot, htx_timestamp = None, htx_type = Some ''transfer'', htx_source = None, htx_feePayer = None,
     htx_failed = False, htx_tokens = None, htx_natives = None\<rparr>"

definition example_api :: "unit helius_tx list \<Rightarrow> unit catchup" where
  "example_api h = new_catchup (\<lambda>_ n before. Inr (take (nat n) (after htx_signature before h))) (Some 2) None"

definition example_ops :: "unit number_ops" where
  "example_ops = \<lparr>nu_finite = \<lambda>_. True, nu_of_string = \<lambda>_. (), nu_zero = ()\<rparr>"

definition example_args :: catchup_args where
  "example_args = \<lparr>ca_address = ''p'', ca_fromSlot = Some 5, ca_toSlot = Some 8, ca_limit = None\<rparr>"

definition event_signature :: "'d decode_result \<Rightarrow> string" where
  "event_signature ev = (case ev of Decoded r \<Rightarrow> dr_signature r | UnknownEvent _ sig _ _ \<Rightarrow> sig)"

lemma helius_example_simps [simp]: "htx_slot (helius_example sig slot) = slot" "htx_signature (helius_example sig slot) = sig"
  by (simp_all add: helius_example_def)

lemma upper_transfer: "upper ''transfer'' = ''TRANSFER''"
  by code_simp

lemma normalize_example: "normalizeHeliusTx example_ops (helius_example sig slot) =
    [Decoded \<lparr>dr_slot = (case slot of Some n \<Rightarrow> n | None \<Rightarrow> 0), dr_signature = sig, dr_programId = UNKNOWN_PROGRAM,
       dr_data = \<lparr>hd_variant = HeliusTransfer, hd_source = None, hd_feePayer = None, hd_timestamp = None, hd_tokens = [], hd_natives = []\<rparr>\<rparr>]"
  by (simp add: normalizeHeliusTx_def helius_example_def upper_transfer variant_of_def normaliseTokenTransfers_def normaliseNativeTransfers_def)

theorem catchup_exact_witness:
  "\<exists>evs. fetchRange example_ops (example_api [helius_example ''d'' (Some 9), helius_example ''c'' (Some 8), helius_example ''b'' (Some 7), helius_example ''a'' (Some 4)])
       example_args = Some (evs, None) \<and> map event_signature evs = [''c'', ''b'']"
proof -
  let ?h = "[helius_example ''d'' (Some 9), helius_example ''c'' (Some 8), helius_example ''b'' (Some 7), helius_example ''a'' (Some 4)]"
  have "catchup_ok (example_api ?h) example_args ?h" by (simp add: catchup_ok_def example_api_def new_catchup_def newest_first_def)
  from catchup_exact[OF this, of example_ops] show ?thesis
    by (simp add: in_range_def example_args_def upto_limit_def normalize_example event_signature_def)
qed

text \<open>
  A transaction without a slot counts as slot 0: with a lower bound it ends the catch-up, and the older transactions
  of the range are not yielded.
\<close>

theorem slotless_ends_catchup:
  "\<exists>evs. fetchRange example_ops (example_api [helius_example ''d'' (Some 8), helius_example ''c'' None, helius_example ''b'' (Some 7), helius_example ''a'' (Some 6)])
       example_args = Some (evs, None) \<and> map event_signature evs = [''d'']"
  by (simp add: fetchRange_def catchup_pages.simps example_api_def new_catchup_def example_args_def below_def after_def normalize_example event_signature_def)

end
