(* ===== verification/Metadata.thy ===== *)
theory Metadata
  imports Borsh Pda
begin

text \<open>
  \<open>packages/solana-metaplex/src/\<close>: \<open>metadata-decoder.ts\<close>, \<open>collection.ts\<close> and \<open>metadata-pda.ts\<close>. A record that
  ends within one of the optional blocks is decoded as the older layout that has the blocks before it.
\<close>

section \<open>Accounts\<close>

datatype metadata_version = V1 | V13 | Current

datatype token_standard = NonFungible | FungibleAsset | Fungible | NonFungibleEdition | ProgrammableNonFungible

definition TOKEN_STANDARD_VARIANTS :: "token_standard list" where
  "TOKEN_STANDARD_VARIANTS = [NonFungible, FungibleAsset, Fungible, NonFungibleEdition, ProgrammableNonFungible]"

datatype use_method = Burn | Multiple | Single

definition USE_METHOD_VARIANTS :: "use_method list" where
  "USE_METHOD_VARIANTS = [Burn, Multiple, Single]"

record creator =
  cre_address :: pubkey
  cre_verified :: bool
  cre_share :: int

record collection_field =
  cf_verified :: bool
  cf_key :: pubkey

record uses_field =
  us_useMethod :: use_method
  us_remaining :: int
  us_total :: int

record metadata_account =
  md_version :: metadata_version
  md_key :: int
  md_updateAuthority :: pubkey
  md_mint :: pubkey
  md_name :: ustring
  md_symbol :: ustring
  md_uri :: ustring
  md_sellerFeeBasisPoints :: int
  md_creators :: "creator list option"
  md_primarySaleHappened :: bool
  md_isMutable :: bool
  md_editionNonce :: "int option"
  md_tokenStandard :: "token_standard option"
  md_collection :: "collection_field option"
  md_uses :: "uses_field option"
  md_collectionDetails :: "int option"

section \<open>The decoder\<close>

datatype metadata_error =
    BorshError borsh_error
  | InvalidCOption int string
  | InvalidUseMethod int
  | UnsupportedDetails int
  | InvalidTokenStandard int

type_synonym 'a parser = "reader \<Rightarrow> metadata_error + ('a \<times> reader)"

definition lift_read :: "(reader \<Rightarrow> borsh_error + ('a \<times> reader)) \<Rightarrow> 'a parser" where
  "lift_read rd r = (case rd r of Inl e \<Rightarrow> Inl (BorshError e) | Inr x \<Rightarrow> Inr x)"

definition pbind :: "'a parser \<Rightarrow> ('a \<Rightarrow> 'b parser) \<Rightarrow> 'b parser" where
  "pbind p f r = (case p r of Inl e \<Rightarrow> Inl e | Inr (x, r') \<Rightarrow> f x r')"

definition preturn :: "'a \<Rightarrow> 'a parser" where
  "preturn x r = Inr (x, r)"

definition pthrow :: "metadata_error \<Rightarrow> 'a parser" where
  "pthrow e r = Inl e"

definition readMetaplexCOption :: "string \<Rightarrow> 'a parser \<Rightarrow> 'a option parser" where
  "readMetaplexCOption field rd =
     pbind (lift_read readU8) (\<lambda>tag.
       if tag = 0 then preturn None
       else if tag = 1 then pbind rd (\<lambda>x. preturn (Some x))
       else pthrow (InvalidCOption tag field))"

definition stripNulPadding :: "ustring \<Rightarrow> ustring" where
  "stripNulPadding s = rev (dropWhile (\<lambda>c. c = 0) (rev s))"

definition readCreator :: "creator parser" where
  "readCreator =
     pbind (lift_read readPubkey) (\<lambda>address.
     pbind (lift_read readBool) (\<lambda>verified.
     pbind (lift_read readU8) (\<lambda>share.
     preturn \<lparr>cre_address = address, cre_verified = verified, cre_share = share\<rparr>)))"

definition readCollection :: "collection_field parser" where
  "readCollection =
     pbind (lift_read readBool) (\<lambda>verified.
     pbind (lift_read readPubkey) (\<lambda>key.
     preturn \<lparr>cf_verified = verified, cf_key = key\<rparr>))"

definition readUses :: "uses_field parser" where
  "readUses =
     pbind (lift_read readU8) (\<lambda>methodByte.
       case jat USE_METHOD_VARIANTS (nat methodByte) of
         None \<Rightarrow> pthrow (InvalidUseMethod methodByte)
       | Some useMethod \<Rightarrow>
           pbind (lift_read readU64) (\<lambda>rem.
           pbind (lift_read readU64) (\<lambda>total.
           preturn \<lparr>us_useMethod = useMethod, us_remaining = rem, us_total = total\<rparr>)))"

definition readCollectionDetails :: "int parser" where
  "readCollectionDetails =
     pbind (lift_read readU8) (\<lambda>variant.
       if variant \<noteq> 0 then pthrow (UnsupportedDetails variant) else lift_read readU64)"

definition readTokenStandard :: "token_standard parser" where
  "readTokenStandard =
     pbind (lift_read readU8) (\<lambda>b.
       case jat TOKEN_STANDARD_VARIANTS (nat b) of
         None \<Rightarrow> pthrow (InvalidTokenStandard b)
       | Some v \<Rightarrow> preturn v)"

text \<open>\<open>rr.readVec(readCreator)\<close>, whose item reader is of this module.\<close>

fun read_creators :: "nat \<Rightarrow> creator list parser" where
  "read_creators 0 = preturn []"
| "read_creators (Suc n) = pbind readCreator (\<lambda>c. pbind (read_creators n) (\<lambda>cs. preturn (c # cs)))"

definition read_base :: "metadata_account parser" where
  "read_base =
     pbind (lift_read readU8) (\<lambda>key.
     pbind (lift_read readPubkey) (\<lambda>updateAuthority.
     pbind (lift_read readPubkey) (\<lambda>mint.
     pbind (lift_read readString) (\<lambda>name.
     pbind (lift_read readString) (\<lambda>sym.
     pbind (lift_read readString) (\<lambda>uri.
     pbind (lift_read readU16) (\<lambda>fee.
     pbind (readMetaplexCOption ''creators'' (pbind (lift_read readU32) (\<lambda>len. read_creators (nat len)))) (\<lambda>creators.
     pbind (lift_read readBool) (\<lambda>primarySaleHappened.
     pbind (lift_read readBool) (\<lambda>isMutable.
     preturn \<lparr>md_version = V1, md_key = key, md_updateAuthority = updateAuthority, md_mint = mint, md_name = stripNulPadding name,
       md_symbol = stripNulPadding sym, md_uri = stripNulPadding uri, md_sellerFeeBasisPoints = fee, md_creators = creators,
       md_primarySaleHappened = primarySaleHappened, md_isMutable = isMutable, md_editionNonce = None, md_tokenStandard = None,
       md_collection = None, md_uses = None, md_collectionDetails = None\<rparr>))))))))))"

definition isEndOfBuffer :: "metadata_error \<Rightarrow> bool" where
  "isEndOfBuffer e = (case e of BorshError (UnexpectedEnd _ _ _ _) \<Rightarrow> True | _ \<Rightarrow> False)"

definition isTolerableV13Error :: "metadata_error \<Rightarrow> bool" where
  "isTolerableV13Error e \<longleftrightarrow> isEndOfBuffer e \<or> (case e of InvalidCOption _ _ \<Rightarrow> True | _ \<Rightarrow> False)"

definition read_v13 :: "(token_standard option \<times> collection_field option \<times> uses_field option) parser" where
  "read_v13 =
     pbind (readMetaplexCOption ''tokenStandard'' readTokenStandard) (\<lambda>standard.
     pbind (readMetaplexCOption ''collection'' readCollection) (\<lambda>collection.
     pbind (readMetaplexCOption ''uses'' readUses) (\<lambda>uses.
     preturn (standard, collection, uses))))"

text \<open>The blocks after the base, each read only when bytes remain.\<close>

definition decode_current :: "metadata_account \<Rightarrow> reader \<Rightarrow> metadata_error + metadata_account" where
  "decode_current m r =
     (if remaining r > 0
      then case readMetaplexCOption ''collectionDetails'' readCollectionDetails r of
             Inr (details, _) \<Rightarrow> Inr (m\<lparr>md_version := Current, md_collectionDetails := details\<rparr>)
           | Inl e \<Rightarrow> if isTolerableV13Error e then Inr m else Inl e
      else Inr m)"

definition decode_v13 :: "metadata_account \<Rightarrow> reader \<Rightarrow> metadata_error + metadata_account" where
  "decode_v13 m r =
     (if remaining r > 0
      then case read_v13 r of
             Inr ((standard, collection, uses), r) \<Rightarrow>
               decode_current (m\<lparr>md_version := V13, md_tokenStandard := standard, md_collection := collection, md_uses := uses\<rparr>) r
           | Inl e \<Rightarrow> if isTolerableV13Error e then Inr m else Inl e
      else decode_current m r)"

definition decodeMetadata :: "bytes \<Rightarrow> metadata_error + metadata_account" where
  "decodeMetadata data =
     rbind (read_base (new_reader data)) (\<lambda>(m, r).
       if remaining r > 0
       then case readMetaplexCOption ''editionNonce'' (lift_read readU8) r of
              Inr (nonce, r) \<Rightarrow> decode_v13 (m\<lparr>md_editionNonce := nonce\<rparr>) r
            | Inl e \<Rightarrow> if isEndOfBuffer e then Inr m else Inl e
       else decode_v13 m r)"

section \<open>Membership\<close>

definition isCollectionMember :: "metadata_account \<Rightarrow> pubkey \<Rightarrow> bool" where
  "isCollectionMember child parent =
     (case md_collection child of None \<Rightarrow> False | Some c \<Rightarrow> cf_verified c \<and> pk_equals (cf_key c) parent)"

fun some_verified :: "creator list \<Rightarrow> pubkey \<Rightarrow> bool" where
  "some_verified [] c \<longleftrightarrow> False"
| "some_verified (e # es) c \<longleftrightarrow> (if cre_verified e \<and> pk_equals (cre_address e) c then True else some_verified es c)"

definition verifyCreator :: "metadata_account \<Rightarrow> pubkey \<Rightarrow> bool" where
  "verifyCreator m c = (case md_creators m of None \<Rightarrow> False | Some cs \<Rightarrow> some_verified cs c)"

section \<open>The address\<close>

definition METADATA_SEED :: bytes where
  "METADATA_SEED = text_encode (map of_char ''metadata'')"

text \<open>\<open>program\<close> is \<open>METADATA_PROGRAM_ID\<close>.\<close>

definition getMetadataPda :: "hashing \<Rightarrow> pubkey \<Rightarrow> pubkey \<Rightarrow> pda_error + (pubkey \<times> nat)" where
  "getMetadataPda h program mint = findProgramAddress h [METADATA_SEED, toBuffer program, toBuffer mint] program"

section \<open>What a parser takes, and what it does when the bytes end\<close>

definition parses :: "'a parser \<Rightarrow> bytes \<Rightarrow> 'a \<Rightarrow> bool" where
  "parses p bs x \<longleftrightarrow>
     (\<forall>pre post. p \<lparr>rbuf = pre @ bs @ post, roffset = length pre\<rparr> = Inr (x, \<lparr>rbuf = pre @ bs @ post, roffset = length pre + length bs\<rparr>)) \<and>
     (\<forall>pre n. n < length bs \<longrightarrow> (\<exists>e. p \<lparr>rbuf = pre @ take n bs, roffset = length pre\<rparr> = Inl e \<and> isEndOfBuffer e))"

named_theorems parsing

lemma parses_return [parsing]: "parses (preturn x) [] x"
  by (simp add: parses_def preturn_def)

lemma parses_bind:
  assumes "parses p bs x" and "parses (f x) cs y"
  shows "parses (pbind p f) (bs @ cs) y"
  unfolding parses_def
proof (intro conjI allI impI)
  fix pre post
  have "p \<lparr>rbuf = pre @ bs @ (cs @ post), roffset = length pre\<rparr> = Inr (x, \<lparr>rbuf = pre @ bs @ (cs @ post), roffset = length pre + length bs\<rparr>)"
    using assms(1) unfolding parses_def by blast
  moreover have "f x \<lparr>rbuf = (pre @ bs) @ cs @ post, roffset = length (pre @ bs)\<rparr> =
      Inr (y, \<lparr>rbuf = (pre @ bs) @ cs @ post, roffset = length (pre @ bs) + length cs\<rparr>)"
    using assms(2) unfolding parses_def by blast
  ultimately show "pbind p f \<lparr>rbuf = pre @ (bs @ cs) @ post, roffset = length pre\<rparr> =
      Inr (y, \<lparr>rbuf = pre @ (bs @ cs) @ post, roffset = length pre + length (bs @ cs)\<rparr>)" by (simp add: pbind_def add.assoc)
next
  fix pre n
  assume n: "n < length (bs @ cs)"
  show "\<exists>e. pbind p f \<lparr>rbuf = pre @ take n (bs @ cs), roffset = length pre\<rparr> = Inl e \<and> isEndOfBuffer e"
  proof (cases "n < length bs")
    case True
    then have "\<exists>e. p \<lparr>rbuf = pre @ take n bs, roffset = length pre\<rparr> = Inl e \<and> isEndOfBuffer e" using assms(1) unfolding parses_def by blast
    then show ?thesis using True by (auto simp: pbind_def)
  next
    case False
    let ?k = "n - length bs"
    have "p \<lparr>rbuf = pre @ bs @ take ?k cs, roffset = length pre\<rparr> = Inr (x, \<lparr>rbuf = pre @ bs @ take ?k cs, roffset = length pre + length bs\<rparr>)"
      using assms(1) unfolding parses_def by blast
    moreover have "\<exists>e. f x \<lparr>rbuf = (pre @ bs) @ take ?k cs, roffset = length (pre @ bs)\<rparr> = Inl e \<and> isEndOfBuffer e"
      using assms(2) n False unfolding parses_def by (metis add_diff_inverse_nat length_append nat_add_left_cancel_less)
    ultimately show ?thesis using False by (auto simp: pbind_def)
  qed
qed

lemma parses_lift:
  assumes "\<And>pre post. rd \<lparr>rbuf = pre @ bs @ post, roffset = length pre\<rparr> = Inr (x, \<lparr>rbuf = pre @ bs @ post, roffset = length pre + length bs\<rparr>)"
    and "\<And>pre n. n < length bs \<Longrightarrow> \<exists>w k i j. rd \<lparr>rbuf = pre @ take n bs, roffset = length pre\<rparr> = Inl (UnexpectedEnd w k i j)"
  shows "parses (lift_read rd) bs x"
  unfolding parses_def
proof (intro conjI allI impI)
  fix pre post
  show "lift_read rd \<lparr>rbuf = pre @ bs @ post, roffset = length pre\<rparr> = Inr (x, \<lparr>rbuf = pre @ bs @ post, roffset = length pre + length bs\<rparr>)"
    using assms(1) by (simp add: lift_read_def)
next
  fix pre n
  assume "n < length bs"
  from assms(2)[OF this, of pre] show "\<exists>e. lift_read rd \<lparr>rbuf = pre @ take n bs, roffset = length pre\<rparr> = Inl e \<and> isEndOfBuffer e"
    by (auto simp: lift_read_def isEndOfBuffer_def)
qed

lemma require_short: "length xs < k \<Longrightarrow> requireRemaining k what \<lparr>rbuf = pre @ xs, roffset = length pre\<rparr> = Inl (UnexpectedEnd what k (length pre) (int (length xs)))"
  by (simp add: requireRemaining_def remaining_def)

lemma require_none: "requireRemaining (Suc 0) what \<lparr>rbuf = pre, roffset = length pre\<rparr> = Inl (UnexpectedEnd what 1 (length pre) 0)"
  by (simp add: requireRemaining_def remaining_def)

lemma parses_u8 [parsing]: "fits 1 v \<Longrightarrow> parses (lift_read readU8) (enc_uint 1 v) v"
  by (rule parses_lift[OF u8.read_enc]) (auto simp: readU8_def require_short require_none)

lemma parses_u16 [parsing]: "fits 2 v \<Longrightarrow> parses (lift_read readU16) (enc_uint 2 v) v"
  by (rule parses_lift[OF u16.read_enc]) (auto simp: readU16_def require_short)

lemma parses_u32 [parsing]: "fits 4 v \<Longrightarrow> parses (lift_read readU32) (enc_uint 4 v) v"
  by (rule parses_lift[OF u32.read_enc]) (auto simp: readU32_def require_short)

lemma parses_u64 [parsing]: "fits 8 v \<Longrightarrow> parses (lift_read readU64) (enc_uint 8 v) v"
  by (rule parses_lift[OF u64.read_enc]) (auto simp: readU64_def require_short)

lemma parses_bool [parsing]: "parses (lift_read readBool) (enc_bool b) b"
  by (rule parses_lift[OF bool.read_enc]) (auto simp: readBool_def require_short require_none enc_bool_def)

lemma parses_pubkey [parsing]: "parses (lift_read readPubkey) (toBuffer k) k"
  by (rule parses_lift[OF pubkey.read_enc]) (auto simp: readPubkey_def readBytes_def require_short)

lemma parses_string [parsing]:
  assumes "ok_string s"
  shows "parses (lift_read readString) (enc_string s) s"
proof (rule parses_lift[OF str.read_enc[OF assms]])
  fix pre :: bytes and n
  assume n: "n < length (enc_string s)"
  let ?b = "text_encode s" and ?u = "enc_uint 4 (int (length (text_encode s)))"
  show "\<exists>w k i j. readString \<lparr>rbuf = pre @ take n (enc_string s), roffset = length pre\<rparr> = Inl (UnexpectedEnd w k i j)"
  proof (cases "n < 4")
    case True
    then show ?thesis by (auto simp: readString_def readU32_def require_short)
  next
    case False
    then have t: "take n (enc_string s) = ?u @ take (n - 4) ?b" by (simp add: enc_string_def)
    have len: "n - 4 < length ?b" using n False by (simp add: enc_string_def)
    have f: "fits 4 (int (length ?b))" using assms by (simp add: ok_string_def fits_def)
    have u: "readU32 \<lparr>rbuf = pre @ ?u @ take (n - 4) ?b, roffset = length pre\<rparr> =
        Inr (int (length ?b), \<lparr>rbuf = pre @ ?u @ take (n - 4) ?b, roffset = length pre + 4\<rparr>)"
      using u32.read_enc[OF f, of pre "take (n - 4) ?b"] by simp
    have "readBytes (length ?b) \<lparr>rbuf = (pre @ ?u) @ take (n - 4) ?b, roffset = length (pre @ ?u)\<rparr> =
        Inl (UnexpectedEnd (WRaw (length ?b)) (length ?b) (length (pre @ ?u)) (int (length (take (n - 4) ?b))))"
      using len by (simp only: readBytes_def) (subst require_short, auto)
    then show ?thesis using u by (simp add: readString_def t)
  qed
qed

text \<open>A single read at the end of a chain.\<close>

lemma parses_last: "parses p bs x \<Longrightarrow> f x = preturn y \<Longrightarrow> parses (pbind p f) bs y"
  using parses_bind[of p bs x f "[]" y] parses_return[of y] by simp

definition enc_coption :: "('a \<Rightarrow> bytes) \<Rightarrow> 'a option \<Rightarrow> bytes" where
  "enc_coption enc v = (case v of None \<Rightarrow> enc_uint 1 0 | Some x \<Rightarrow> enc_uint 1 1 @ enc x)"

lemma parses_coption [parsing]:
  assumes "\<And>x. v = Some x \<Longrightarrow> parses rd (enc x) x"
  shows "parses (readMetaplexCOption field rd) (enc_coption enc v) v"
proof (cases v)
  case None
  have "parses (readMetaplexCOption field rd) (enc_uint 1 0 @ []) None"
    unfolding readMetaplexCOption_def by (rule parses_bind[OF parses_u8]) (simp_all add: fits_def parses_return)
  then show ?thesis using None by (simp add: enc_coption_def)
next
  case (Some x)
  have "parses (readMetaplexCOption field rd) (enc_uint 1 1 @ enc x @ []) (Some x)"
    unfolding readMetaplexCOption_def
    by (rule parses_bind[OF parses_u8]) (simp_all add: fits_def parses_bind[OF assms[OF Some] parses_return, simplified])
  then show ?thesis using Some by (simp add: enc_coption_def)
qed

section \<open>The layout\<close>

definition enc_creator :: "creator \<Rightarrow> bytes" where
  "enc_creator c = toBuffer (cre_address c) @ enc_bool (cre_verified c) @ enc_uint 1 (cre_share c)"

definition enc_collection :: "collection_field \<Rightarrow> bytes" where
  "enc_collection c = enc_bool (cf_verified c) @ toBuffer (cf_key c)"

definition method_index :: "use_method \<Rightarrow> int" where
  "method_index u = (case u of Burn \<Rightarrow> 0 | Multiple \<Rightarrow> 1 | Single \<Rightarrow> 2)"

definition enc_uses :: "uses_field \<Rightarrow> bytes" where
  "enc_uses u = enc_uint 1 (method_index (us_useMethod u)) @ enc_uint 8 (us_remaining u) @ enc_uint 8 (us_total u)"

definition standard_index :: "token_standard \<Rightarrow> int" where
  "standard_index t = (case t of NonFungible \<Rightarrow> 0 | FungibleAsset \<Rightarrow> 1 | Fungible \<Rightarrow> 2 | NonFungibleEdition \<Rightarrow> 3 | ProgrammableNonFungible \<Rightarrow> 4)"

definition enc_details :: "int \<Rightarrow> bytes" where
  "enc_details n = enc_uint 1 0 @ enc_uint 8 n"

lemma parses_creator [parsing]: "fits 1 (cre_share c) \<Longrightarrow> parses readCreator (enc_creator c) c"
  unfolding readCreator_def enc_creator_def
  by (rule parses_bind[OF parses_pubkey], rule parses_bind[OF parses_bool], rule parses_last[OF parses_u8]) (cases c; simp)+

lemma parses_collection [parsing]: "parses readCollection (enc_collection c) c"
  unfolding readCollection_def enc_collection_def
  by (rule parses_bind[OF parses_bool], rule parses_last[OF parses_pubkey]) (cases c; simp)

lemma parses_standard [parsing]: "parses readTokenStandard (enc_uint 1 (standard_index t)) t"
  unfolding readTokenStandard_def
  by (rule parses_last[OF parses_u8]) (cases t; simp add: fits_def standard_index_def TOKEN_STANDARD_VARIANTS_def jat_def)+

lemma method_variant: "jat USE_METHOD_VARIANTS (nat (method_index u)) = Some u" "fits 1 (method_index u)"
  by (cases u; simp add: fits_def method_index_def USE_METHOD_VARIANTS_def jat_def)+

lemma parses_uses [parsing]: "fits 8 (us_remaining u) \<Longrightarrow> fits 8 (us_total u) \<Longrightarrow> parses readUses (enc_uses u) u"
  unfolding readUses_def enc_uses_def
  by (rule parses_bind[OF parses_u8[OF method_variant(2)]], simp only: method_variant option.case,
      rule parses_bind[OF parses_u64], assumption, rule parses_last[OF parses_u64]) (cases u; simp)+

lemma parses_details [parsing]: "fits 8 n \<Longrightarrow> parses readCollectionDetails (enc_details n) n"
  unfolding readCollectionDetails_def enc_details_def by (rule parses_bind[OF parses_u8]) (simp_all add: fits_def parses_u64)

text \<open>\<open>name\<close>, \<open>symbol\<close> and \<open>uri\<close> may be stored with NULs after them.\<close>

record padding =
  pad_name :: nat
  pad_symbol :: nat
  pad_uri :: nat

definition padded :: "ustring \<Rightarrow> nat \<Rightarrow> ustring" where
  "padded s k = s @ replicate k 0"

definition enc_base :: "padding \<Rightarrow> metadata_account \<Rightarrow> bytes" where
  "enc_base k m =
     enc_uint 1 (md_key m) @ toBuffer (md_updateAuthority m) @ toBuffer (md_mint m) @
     enc_string (padded (md_name m) (pad_name k)) @ enc_string (padded (md_symbol m) (pad_symbol k)) @ enc_string (padded (md_uri m) (pad_uri k)) @
     enc_uint 2 (md_sellerFeeBasisPoints m) @ enc_coption (enc_vec enc_creator) (md_creators m) @
     enc_bool (md_primarySaleHappened m) @ enc_bool (md_isMutable m)"

definition enc_nonce :: "metadata_account \<Rightarrow> bytes" where
  "enc_nonce m = enc_coption (enc_uint 1) (md_editionNonce m)"

definition enc_v13 :: "metadata_account \<Rightarrow> bytes" where
  "enc_v13 m = enc_coption (\<lambda>t. enc_uint 1 (standard_index t)) (md_tokenStandard m) @ enc_coption enc_collection (md_collection m) @ enc_coption enc_uses (md_uses m)"

definition enc_current :: "metadata_account \<Rightarrow> bytes" where
  "enc_current m = enc_coption enc_details (md_collectionDetails m)"

definition stored_string :: "ustring \<Rightarrow> nat \<Rightarrow> bool" where
  "stored_string s k \<longleftrightarrow> ok_string (padded s k) \<and> (s = [] \<or> last s \<noteq> 0)"

definition metadata_ok :: "padding \<Rightarrow> metadata_account \<Rightarrow> bool" where
  "metadata_ok k m \<longleftrightarrow> fits 1 (md_key m) \<and> stored_string (md_name m) (pad_name k) \<and> stored_string (md_symbol m) (pad_symbol k) \<and>
     stored_string (md_uri m) (pad_uri k) \<and> fits 2 (md_sellerFeeBasisPoints m) \<and>
     pred_option (ok_vec (\<lambda>c. fits 1 (cre_share c))) (md_creators m) \<and> pred_option (fits 1) (md_editionNonce m) \<and>
     pred_option (\<lambda>u. fits 8 (us_remaining u) \<and> fits 8 (us_total u)) (md_uses m) \<and> pred_option (fits 8) (md_collectionDetails m)"

text \<open>The account as the older layouts show it.\<close>

definition upto_base :: "metadata_account \<Rightarrow> metadata_account" where
  "upto_base m = m\<lparr>md_version := V1, md_editionNonce := None, md_tokenStandard := None, md_collection := None, md_uses := None, md_collectionDetails := None\<rparr>"

definition upto_nonce :: "metadata_account \<Rightarrow> metadata_account" where
  "upto_nonce m = (upto_base m)\<lparr>md_editionNonce := md_editionNonce m\<rparr>"

definition upto_v13 :: "metadata_account \<Rightarrow> metadata_account" where
  "upto_v13 m = m\<lparr>md_version := V13, md_collectionDetails := None\<rparr>"

lemma dropWhile_padding: "dropWhile (\<lambda>c. c = 0) (replicate k (0 :: nat) @ xs) = dropWhile (\<lambda>c. c = 0) xs"
  by (induction k) simp_all

lemma strip_padded: "s = [] \<or> last s \<noteq> 0 \<Longrightarrow> stripNulPadding (padded s k) = s"
  by (cases s rule: rev_cases) (simp_all add: stripNulPadding_def padded_def dropWhile_padding)

lemma parses_creators: "list_all (\<lambda>c. fits 1 (cre_share c)) cs \<Longrightarrow> parses (read_creators (length cs)) (concat (map enc_creator cs)) cs"
proof (induction cs)
  case (Cons c cs)
  then have c: "parses readCreator (enc_creator c) c" and cs: "parses (read_creators (length cs)) (concat (map enc_creator cs)) cs"
    by (simp_all add: parses_creator)
  show ?case by (simp, rule parses_bind[OF c], rule parses_last[OF cs], rule refl)
qed (simp add: parses_return)

lemma parses_creator_vec:
  assumes "ok_vec (\<lambda>c. fits 1 (cre_share c)) cs"
  shows "parses (pbind (lift_read readU32) (\<lambda>len. read_creators (nat len))) (enc_vec enc_creator cs) cs"
  unfolding enc_vec_def using assms by (intro parses_bind[OF parses_u32]) (simp_all add: ok_vec_def fits_def parses_creators)

lemma upto_base_fields:
  "\<lparr>md_version = V1, md_key = md_key m, md_updateAuthority = md_updateAuthority m, md_mint = md_mint m, md_name = md_name m,
    md_symbol = md_symbol m, md_uri = md_uri m, md_sellerFeeBasisPoints = md_sellerFeeBasisPoints m, md_creators = md_creators m,
    md_primarySaleHappened = md_primarySaleHappened m, md_isMutable = md_isMutable m, md_editionNonce = None, md_tokenStandard = None,
    md_collection = None, md_uses = None, md_collectionDetails = None\<rparr> = upto_base m"
  by (cases m) (simp add: upto_base_def)

lemma parses_base:
  assumes "metadata_ok k m"
  shows "parses read_base (enc_base k m) (upto_base m)"
  unfolding read_base_def enc_base_def
proof (rule parses_bind[OF parses_u8], goal_cases)
  case 2
  have m: "ok_string (padded (md_name m) (pad_name k))" "ok_string (padded (md_symbol m) (pad_symbol k))" "ok_string (padded (md_uri m) (pad_uri k))"
    "stripNulPadding (padded (md_name m) (pad_name k)) = md_name m" "stripNulPadding (padded (md_symbol m) (pad_symbol k)) = md_symbol m"
    "stripNulPadding (padded (md_uri m) (pad_uri k)) = md_uri m" "fits 2 (md_sellerFeeBasisPoints m)"
    "pred_option (ok_vec (\<lambda>c. fits 1 (cre_share c))) (md_creators m)"
    using assms by (simp_all add: metadata_ok_def stored_string_def strip_padded)
  have creators: "parses (readMetaplexCOption ''creators'' (pbind (lift_read readU32) (\<lambda>len. read_creators (nat len)))) (enc_coption (enc_vec enc_creator) (md_creators m)) (md_creators m)"
    by (rule parses_coption) (use m(8) in \<open>simp add: parses_creator_vec\<close>)
  show ?case
    by (rule parses_bind[OF parses_pubkey], rule parses_bind[OF parses_pubkey], rule parses_bind[OF parses_string[OF m(1)]],
        rule parses_bind[OF parses_string[OF m(2)]], rule parses_bind[OF parses_string[OF m(3)]], rule parses_bind[OF parses_u16[OF m(7)]],
        rule parses_bind[OF creators], rule parses_bind[OF parses_bool], rule parses_last[OF parses_bool])
      (simp only: m(4,5,6) upto_base_fields)
qed (use assms in \<open>simp add: metadata_ok_def\<close>)

lemma parses_nonce:
  assumes "metadata_ok k m"
  shows "parses (readMetaplexCOption ''editionNonce'' (lift_read readU8)) (enc_nonce m) (md_editionNonce m)"
  unfolding enc_nonce_def by (rule parses_coption, rule parses_u8) (use assms in \<open>simp add: metadata_ok_def\<close>)

lemma parses_v13:
  assumes "metadata_ok k m"
  shows "parses read_v13 (enc_v13 m) (md_tokenStandard m, md_collection m, md_uses m)"
  unfolding enc_v13_def read_v13_def
  by (rule parses_bind[OF parses_coption[OF parses_standard]], rule parses_bind[OF parses_coption[OF parses_collection]],
      rule parses_last[OF parses_coption[OF parses_uses]]) (use assms in \<open>simp_all add: metadata_ok_def\<close>)

lemma parses_current:
  assumes "metadata_ok k m"
  shows "parses (readMetaplexCOption ''collectionDetails'' readCollectionDetails) (enc_current m) (md_collectionDetails m)"
  unfolding enc_current_def by (rule parses_coption, rule parses_details) (use assms in \<open>simp add: metadata_ok_def\<close>)

section \<open>A record that ends early\<close>

text \<open>A block read at the end of what is there: all of it, or the end of the buffer.\<close>

lemma parses_all:
  assumes "parses p bs x"
  shows "p \<lparr>rbuf = pre @ bs @ post, roffset = length pre\<rparr> = Inr (x, \<lparr>rbuf = (pre @ bs) @ post, roffset = length (pre @ bs)\<rparr>)"
  using assms unfolding parses_def by (simp del: append_assoc add: append_assoc[symmetric])

lemma parses_short:
  assumes "parses p bs x" and "n < length bs"
  obtains e where "p \<lparr>rbuf = pre @ take n bs, roffset = length pre\<rparr> = Inl e" and "isEndOfBuffer e"
  using assms unfolding parses_def by blast

lemma remaining_after [simp]: "remaining \<lparr>rbuf = pre @ xs, roffset = length pre\<rparr> = int (length xs)"
  by (simp add: remaining_def)

lemma coption_nonempty [simp]: "enc_coption e v \<noteq> []"
proof -
  have "enc_uint 1 b \<noteq> []" for b using length_enc_uint[of 1 b] by (simp del: length_enc_uint) (metis list.size(3) zero_neq_one One_nat_def)
  then show ?thesis by (simp add: enc_coption_def split: option.splits)
qed

lemma remaining_end [simp]: "remaining \<lparr>rbuf = pre, roffset = length pre\<rparr> = 0"
  by (simp add: remaining_def)

lemma remaining_block: "bs \<noteq> [] \<Longrightarrow> 0 < remaining \<lparr>rbuf = pre @ bs @ post, roffset = length pre\<rparr>"
  by (cases bs) simp_all

lemma block_nonempty: "enc_nonce m \<noteq> []" "enc_v13 m \<noteq> []" "enc_current m \<noteq> []"
  by (simp_all add: enc_nonce_def enc_v13_def enc_current_def)

lemma upto_fields:
  "md_version m = Current \<Longrightarrow> upto_base m\<lparr>md_editionNonce := md_editionNonce m\<rparr> = upto_nonce m"
  "upto_nonce m\<lparr>md_version := V13, md_tokenStandard := md_tokenStandard m, md_collection := md_collection m, md_uses := md_uses m\<rparr> = upto_v13 m"
  "md_version m = Current \<Longrightarrow> upto_v13 m\<lparr>md_version := Current, md_collectionDetails := md_collectionDetails m\<rparr> = m"
  by (cases m; simp add: upto_base_def upto_nonce_def upto_v13_def)+

lemma decode_current_block:
  assumes "metadata_ok k m" and "md_version m = Current"
  shows "decode_current (upto_v13 m) \<lparr>rbuf = pre @ take n (enc_current m @ post), roffset = length pre\<rparr> =
    Inr (if n < length (enc_current m) then upto_v13 m else m)"
proof (cases "n < length (enc_current m)")
  case True
  obtain e where e: "readMetaplexCOption ''collectionDetails'' readCollectionDetails \<lparr>rbuf = pre @ take n (enc_current m), roffset = length pre\<rparr> = Inl e"
      "isEndOfBuffer e" using parses_short[OF parses_current[OF assms(1)] True] .
  show ?thesis using True e by (simp add: decode_current_def isTolerableV13Error_def)
next
  case False
  let ?rest = "take (n - length (enc_current m)) post"
  have t: "take n (enc_current m @ post) = enc_current m @ ?rest" using False by (simp add: take_append)
  have p: "readMetaplexCOption ''collectionDetails'' readCollectionDetails \<lparr>rbuf = pre @ enc_current m @ ?rest, roffset = length pre\<rparr> =
      Inr (md_collectionDetails m, \<lparr>rbuf = (pre @ enc_current m) @ ?rest, roffset = length (pre @ enc_current m)\<rparr>)"
    by (rule parses_all[OF parses_current[OF assms(1)]])
  have r: "remaining \<lparr>rbuf = pre @ enc_current m @ ?rest, roffset = length pre\<rparr> > 0" by (rule remaining_block) (simp add: block_nonempty)
  show ?thesis using False r
    by (simp only: t decode_current_def p upto_fields(3)[OF assms(2)] sum.case prod.case if_True if_False)
qed

lemma decode_v13_block:
  assumes "metadata_ok k m" and "md_version m = Current"
  shows "decode_v13 (upto_nonce m) \<lparr>rbuf = pre @ take n (enc_v13 m @ enc_current m @ post), roffset = length pre\<rparr> =
    Inr (if n < length (enc_v13 m) then upto_nonce m else if n < length (enc_v13 m) + length (enc_current m) then upto_v13 m else m)"
proof (cases "n < length (enc_v13 m)")
  case True
  obtain e where e: "read_v13 \<lparr>rbuf = pre @ take n (enc_v13 m), roffset = length pre\<rparr> = Inl e" "isEndOfBuffer e"
    using parses_short[OF parses_v13[OF assms(1)] True] .
  show ?thesis using True e by (simp add: decode_v13_def decode_current_def isTolerableV13Error_def)
next
  case False
  let ?rest = "take (n - length (enc_v13 m)) (enc_current m @ post)"
  have t: "take n (enc_v13 m @ enc_current m @ post) = enc_v13 m @ ?rest" using False by (simp add: take_append)
  have p: "read_v13 \<lparr>rbuf = pre @ enc_v13 m @ ?rest, roffset = length pre\<rparr> =
      Inr ((md_tokenStandard m, md_collection m, md_uses m), \<lparr>rbuf = (pre @ enc_v13 m) @ ?rest, roffset = length (pre @ enc_v13 m)\<rparr>)"
    by (rule parses_all[OF parses_v13[OF assms(1)]])
  have r: "remaining \<lparr>rbuf = pre @ enc_v13 m @ ?rest, roffset = length pre\<rparr> > 0" by (rule remaining_block) (simp add: block_nonempty)
  show ?thesis using False r
    by (simp only: t decode_v13_def p upto_fields(2) decode_current_block[OF assms] sum.case prod.case if_True) auto
qed

text \<open>
  C33. The bytes of a metadata account, cut at any length that leaves the base block whole, decode to the account as the layout
  of that length shows it: without the blocks the cut has reached, the strings without the NULs that pad them, the version that
  of the last complete block. No cut is refused, and no field of an incomplete block is kept.\<close>

theorem metadata_cut_anywhere:
  assumes "metadata_ok k m" and "md_version m = Current" and "length (enc_base k m) \<le> n"
  shows "decodeMetadata (take n (enc_base k m @ enc_nonce m @ enc_v13 m @ enc_current m @ post)) =
    Inr (if n < length (enc_base k m @ enc_nonce m) then upto_base m
         else if n < length (enc_base k m @ enc_nonce m @ enc_v13 m) then upto_nonce m
         else if n < length (enc_base k m @ enc_nonce m @ enc_v13 m @ enc_current m) then upto_v13 m
         else m)"
proof -
  let ?b = "enc_base k m" and ?k = "n - length (enc_base k m)" and ?more = "enc_v13 m @ enc_current m @ post"
  have t: "take n (?b @ enc_nonce m @ ?more) = ?b @ take ?k (enc_nonce m @ ?more)" using assms(3) by (simp add: take_append)
  have base: "read_base (new_reader (?b @ rest)) = Inr (upto_base m, \<lparr>rbuf = ?b @ rest, roffset = length ?b\<rparr>)" for rest
    using parses_all[OF parses_base[OF assms(1)], of "[]" rest] by (simp add: new_reader_def)
  show ?thesis
  proof (cases "?k < length (enc_nonce m)")
    case True
    obtain e where e: "readMetaplexCOption ''editionNonce'' (lift_read readU8) \<lparr>rbuf = ?b @ take ?k (enc_nonce m), roffset = length ?b\<rparr> = Inl e"
        "isEndOfBuffer e" using parses_short[OF parses_nonce[OF assms(1)] True] .
    show ?thesis using True e assms(3)
      by (simp only: t base decodeMetadata_def) (auto simp: rbind_def decode_v13_def decode_current_def)
  next
    case False
    let ?rest = "take (?k - length (enc_nonce m)) ?more"
    have t': "take ?k (enc_nonce m @ ?more) = enc_nonce m @ ?rest" using False by (simp add: take_append)
    have p: "readMetaplexCOption ''editionNonce'' (lift_read readU8) \<lparr>rbuf = ?b @ enc_nonce m @ ?rest, roffset = length ?b\<rparr> =
        Inr (md_editionNonce m, \<lparr>rbuf = (?b @ enc_nonce m) @ ?rest, roffset = length (?b @ enc_nonce m)\<rparr>)"
      by (rule parses_all[OF parses_nonce[OF assms(1)]])
    have r: "remaining \<lparr>rbuf = ?b @ enc_nonce m @ ?rest, roffset = length ?b\<rparr> > 0" by (rule remaining_block) (simp add: block_nonempty)
    have "decodeMetadata (take n (?b @ enc_nonce m @ ?more)) =
        decode_v13 (upto_nonce m) \<lparr>rbuf = (?b @ enc_nonce m) @ ?rest, roffset = length (?b @ enc_nonce m)\<rparr>"
      using r by (simp only: t t' base decodeMetadata_def rbind_def sum.case prod.case p if_True upto_fields(1)[OF assms(2)])
    then show ?thesis using False assms(3) by (simp only: decode_v13_block[OF assms(1,2)]) auto
  qed
qed

text \<open>A cut within the base block is an error of the reader.\<close>

lemma metadata_cut_in_base:
  assumes "metadata_ok k m" and "n < length (enc_base k m)"
  obtains e where "decodeMetadata (take n (enc_base k m @ post)) = Inl e" and "isEndOfBuffer e"
proof -
  obtain e where e: "read_base \<lparr>rbuf = [] @ take n (enc_base k m), roffset = length ([] :: bytes)\<rparr> = Inl e" "isEndOfBuffer e"
    using parses_short[OF parses_base[OF assms(1)] assms(2)] .
  have "decodeMetadata (take n (enc_base k m @ post)) = Inl e" using e(1) assms(2) by (simp add: decodeMetadata_def new_reader_def)
  with e(2) show ?thesis by (rule that[rotated])
qed

definition sample_metadata :: metadata_account where
  "sample_metadata = \<lparr>md_version = Current, md_key = 4, md_updateAuthority = Abs_pubkey (replicate 32 1), md_mint = Abs_pubkey (replicate 32 2),
     md_name = [0x41, 0x50, 0x33, 0x58], md_symbol = [], md_uri = [0x75], md_sellerFeeBasisPoints = 500,
     md_creators = Some [\<lparr>cre_address = Abs_pubkey (replicate 32 3), cre_verified = True, cre_share = 100\<rparr>],
     md_primarySaleHappened = True, md_isMutable = False, md_editionNonce = Some 255, md_tokenStandard = Some ProgrammableNonFungible,
     md_collection = Some \<lparr>cf_verified = True, cf_key = Abs_pubkey (replicate 32 4)\<rparr>,
     md_uses = Some \<lparr>us_useMethod = Multiple, us_remaining = 1, us_total = 2\<rparr>, md_collectionDetails = Some 7\<rparr>"

definition sample_padding :: padding where
  "sample_padding = \<lparr>pad_name = 2, pad_symbol = 3, pad_uri = 0\<rparr>"

lemma sample_strings: "stored_string [0x41, 0x50, 0x33, 0x58] 2" "stored_string [] 3" "stored_string [0x75] 0"
  by (simp_all add: stored_string_def padded_def ok_string_def scalar_def text_encode_def utf8_char_def to_scalar_def list_all_iff length_concat sum_list_replicate)

lemma sample_ok: "metadata_ok sample_padding sample_metadata" "md_version sample_metadata = Current"
  by (simp_all add: metadata_ok_def sample_padding_def sample_metadata_def sample_strings ok_vec_def fits_def)

theorem metadata_cut_anywhere_witness:
  "metadata_ok sample_padding sample_metadata \<and>
   decodeMetadata (take (length (enc_base sample_padding sample_metadata) + 4)
     (enc_base sample_padding sample_metadata @ enc_nonce sample_metadata @ enc_v13 sample_metadata @ enc_current sample_metadata @ [])) =
   Inr (upto_nonce sample_metadata)"
proof -
  have "length (enc_nonce sample_metadata) = 2" "4 < length (enc_nonce sample_metadata) + length (enc_v13 sample_metadata)"
    by (simp_all add: sample_metadata_def enc_nonce_def enc_v13_def enc_coption_def enc_collection_def)
  then show ?thesis
    using sample_ok metadata_cut_anywhere[OF sample_ok, of "length (enc_base sample_padding sample_metadata) + 4" "[]"] by simp
qed

end
