(* ===== verification/PumpSignals.thy ===== *)
theory PumpSignals
  imports Complex_Main Prelude
begin

text \<open>
  \<open>packages/pumpfun-signals/src/\<close>: \<open>types.ts\<close> and \<open>sqlite.ts\<close>. The table is the list of its rows in the order of
  their ids; a payload is the object its JSON text parses to, with the opaque values a parameter \<open>'j\<close> of the types. The
  queries are those of the prepared statements. A missing \<open>signals\<close> stands for the empty object.
\<close>

section \<open>Types\<close>

datatype wallet_tier = TierS | TierA | TierB | TierC | TierD

datatype milestone_kind = Created | FirstBuy | Fdv10k | Fdv50k | Fdv100k | Graduated | Ath | Rugged | DevSold

datatype safety_label = Safe | Warning | Danger | UnknownSafety

record convergence_state =
  cv_mint :: string
  cv_asOf :: int
  cv_windowMs :: int
  cv_buyersByTier :: "wallet_tier \<Rightarrow> nat"
  cv_totalBuyers :: nat
  cv_firstBuyAt :: "int option"
  cv_latestBuyAt :: "int option"

record 'j milestone_event =
  me_mint :: string
  me_kind :: milestone_kind
  me_observedAt :: int
  me_data :: "'j option"

record 'j safety_verdict =
  sv_mint :: string
  sv_asOf :: int
  sv_verdict :: safety_label
  sv_reasons :: "string list"
  sv_signals :: "'j option"

section \<open>The table\<close>

datatype event_type = BuyEvent | MilestoneEvent | WalletTierEvent | SafetyVerdictEvent

datatype 'j event_payload =
    BuyPayload string int string string "wallet_tier option" "rat option"
  | MilestonePayload milestone_kind "'j option"
  | TierPayload wallet_tier
  | VerdictPayload safety_label "string list" 'j

record 'j event_row =
  er_id :: nat
  er_signature :: "string option"
  er_slot :: "int option"
  er_observed_at :: int
  er_mint :: "string option"
  er_wallet :: "string option"
  er_event_type :: event_type
  er_payload :: "'j event_payload"

record 'j pumpfun_signals =
  pf_path :: string
  pf_open :: bool
  pf_rows :: "'j event_row list"

datatype signals_error = NotInitialized

definition new_signals :: "string \<Rightarrow> 'j event_row list \<Rightarrow> 'j pumpfun_signals" where
  "new_signals path on_disk = \<lparr>pf_path = path, pf_open = False, pf_rows = on_disk\<rparr>"

definition init :: "'j pumpfun_signals \<Rightarrow> 'j pumpfun_signals" where
  "init p =
     (if pf_open p then p
      else p\<lparr>pf_open := True, pf_rows := (if pf_path p = '':memory:'' then [] else pf_rows p)\<rparr>)"

definition close_signals :: "'j pumpfun_signals \<Rightarrow> 'j pumpfun_signals" where
  "close_signals p = (if \<not> pf_open p then p else p\<lparr>pf_open := False\<rparr>)"

definition requireStatements :: "'j pumpfun_signals \<Rightarrow> signals_error + 'j event_row list" where
  "requireStatements p = (if \<not> pf_open p then Inl NotInitialized else Inr (pf_rows p))"

section \<open>Ingestion\<close>

record buy_args =
  ba_signature :: string
  ba_slot :: int
  ba_observedAt :: int
  ba_mint :: string
  ba_wallet :: string
  ba_buyerTier :: "wallet_tier option"
  ba_amountSol :: "rat option"

record 'j milestone_args =
  ma_mint :: string
  ma_kind :: milestone_kind
  ma_observedAt :: int
  ma_signature :: "string option"
  ma_slot :: "int option"
  ma_data :: "'j option"

record tier_args =
  ta_wallet :: string
  ta_tier :: wallet_tier
  ta_observedAt :: int

record 'j verdict_args =
  va_mint :: string
  va_observedAt :: int
  va_verdict :: safety_label
  va_reasons :: "string list"
  va_signals :: 'j

text \<open>An id is one above the last, as no row is deleted.\<close>

definition insertEvent ::
    "string option \<Rightarrow> int option \<Rightarrow> int \<Rightarrow> string option \<Rightarrow> string option \<Rightarrow> event_type \<Rightarrow> 'j event_payload \<Rightarrow> 'j pumpfun_signals \<Rightarrow> 'j pumpfun_signals" where
  "insertEvent sig slot observed_at mint wallet event_type payload p =
     p\<lparr>pf_rows := pf_rows p @
       [\<lparr>er_id = Suc (length (pf_rows p)), er_signature = sig, er_slot = slot, er_observed_at = observed_at, er_mint = mint,
         er_wallet = wallet, er_event_type = event_type, er_payload = payload\<rparr>]\<rparr>"

definition ingestBuy :: "buy_args \<Rightarrow> 'j pumpfun_signals \<Rightarrow> signals_error + 'j pumpfun_signals" where
  "ingestBuy args p =
     rbind (requireStatements p) (\<lambda>_.
       Inr (insertEvent (Some (ba_signature args)) (Some (ba_slot args)) (ba_observedAt args) (Some (ba_mint args)) (Some (ba_wallet args)) BuyEvent
         (BuyPayload (ba_signature args) (ba_slot args) (ba_mint args) (ba_wallet args) (ba_buyerTier args) (ba_amountSol args)) p))"

definition ingestMilestone :: "'j milestone_args \<Rightarrow> 'j pumpfun_signals \<Rightarrow> signals_error + 'j pumpfun_signals" where
  "ingestMilestone args p =
     rbind (requireStatements p) (\<lambda>_.
       Inr (insertEvent (ma_signature args) (ma_slot args) (ma_observedAt args) (Some (ma_mint args)) None MilestoneEvent
         (MilestonePayload (ma_kind args) (ma_data args)) p))"

definition ingestWalletTier :: "tier_args \<Rightarrow> 'j pumpfun_signals \<Rightarrow> signals_error + 'j pumpfun_signals" where
  "ingestWalletTier args p =
     rbind (requireStatements p) (\<lambda>_.
       Inr (insertEvent None None (ta_observedAt args) None (Some (ta_wallet args)) WalletTierEvent (TierPayload (ta_tier args)) p))"

definition ingestSafetyVerdict :: "'j verdict_args \<Rightarrow> 'j pumpfun_signals \<Rightarrow> signals_error + 'j pumpfun_signals" where
  "ingestSafetyVerdict args p =
     rbind (requireStatements p) (\<lambda>_.
       Inr (insertEvent None None (va_observedAt args) (Some (va_mint args)) None SafetyVerdictEvent
         (VerdictPayload (va_verdict args) (va_reasons args) (va_signals args)) p))"

section \<open>Queries\<close>

text \<open>\<open>ORDER BY observed_at, id\<close>, ascending; a descending query takes the last row.\<close>

definition by_time :: "'j event_row list \<Rightarrow> 'j event_row list" where
  "by_time rows = sort_key er_observed_at (sort_key er_id rows)"

definition latest_row :: "'j event_row list \<Rightarrow> 'j event_row option" where
  "latest_row rows = (case rev (by_time rows) of [] \<Rightarrow> None | r # _ \<Rightarrow> Some r)"

definition walletTierLatest :: "string \<Rightarrow> int \<Rightarrow> 'j event_row list \<Rightarrow> 'j event_row option" where
  "walletTierLatest wallet asOf rows =
     latest_row (filter (\<lambda>r. er_wallet r = Some wallet \<and> er_event_type r = WalletTierEvent \<and> er_observed_at r \<le> asOf) rows)"

text \<open>\<open>ORDER BY observed_at\<close> alone leaves the order of equal times to the database; here they stay in the order of the table.\<close>

definition convergenceWindow :: "string \<Rightarrow> int \<Rightarrow> int \<Rightarrow> 'j event_row list \<Rightarrow> 'j event_row list" where
  "convergenceWindow mint from to rows =
     sort_key er_observed_at
       (filter (\<lambda>r. er_mint r = Some mint \<and> er_event_type r = BuyEvent \<and> from \<le> er_observed_at r \<and> er_observed_at r \<le> to) rows)"

definition milestonesRange :: "string \<Rightarrow> int \<Rightarrow> int \<Rightarrow> 'j event_row list \<Rightarrow> 'j event_row list" where
  "milestonesRange mint from to rows =
     by_time (filter (\<lambda>r. er_mint r = Some mint \<and> er_event_type r = MilestoneEvent \<and> from \<le> er_observed_at r \<and> er_observed_at r \<le> to) rows)"

definition safetyLatest :: "string \<Rightarrow> int \<Rightarrow> 'j event_row list \<Rightarrow> 'j event_row option" where
  "safetyLatest mint asOf rows =
     latest_row (filter (\<lambda>r. er_mint r = Some mint \<and> er_event_type r = SafetyVerdictEvent \<and> er_observed_at r \<le> asOf) rows)"

definition walletTier :: "string \<Rightarrow> int \<Rightarrow> 'j pumpfun_signals \<Rightarrow> signals_error + wallet_tier option" where
  "walletTier wallet asOf p =
     rbind (requireStatements p) (\<lambda>rows.
       Inr (case walletTierLatest wallet asOf rows of
              None \<Rightarrow> None
            | Some r \<Rightarrow> (case er_payload r of TierPayload t \<Rightarrow> Some t | _ \<Rightarrow> None)))"

record convergence =
  cg_byTier :: "wallet_tier \<Rightarrow> string list"
  cg_all :: "string list"
  cg_first :: "int option"
  cg_last :: "int option"

definition no_convergence :: convergence where
  "no_convergence = \<lparr>cg_byTier = (\<lambda>_. []), cg_all = [], cg_first = None, cg_last = None\<rparr>"

definition payload_tier :: "'j event_payload \<Rightarrow> wallet_tier option" where
  "payload_tier p = (case p of BuyPayload _ _ _ _ t _ \<Rightarrow> t | _ \<Rightarrow> None)"

text \<open>A set is the list of its elements in insertion order. A row of a buy always has a wallet.\<close>

definition converge_row :: "'j event_row \<Rightarrow> convergence \<Rightarrow> convergence" where
  "converge_row r c =
     (let w = (case er_wallet r of Some w \<Rightarrow> w | None \<Rightarrow> '''') in
      \<lparr>cg_byTier = (case payload_tier (er_payload r) of None \<Rightarrow> cg_byTier c | Some t \<Rightarrow> (cg_byTier c)(t := List.insert w (cg_byTier c t))),
       cg_all = List.insert w (cg_all c),
       cg_first = (case cg_first c of None \<Rightarrow> Some (er_observed_at r) | Some a \<Rightarrow> if er_observed_at r < a then Some (er_observed_at r) else Some a),
       cg_last = (case cg_last c of None \<Rightarrow> Some (er_observed_at r) | Some a \<Rightarrow> if er_observed_at r > a then Some (er_observed_at r) else Some a)\<rparr>)"

definition convergenceState :: "string \<Rightarrow> int \<Rightarrow> int \<Rightarrow> 'j pumpfun_signals \<Rightarrow> signals_error + convergence_state" where
  "convergenceState mint asOf windowMs p =
     rbind (requireStatements p) (\<lambda>rows.
       let c = fold converge_row (convergenceWindow mint (asOf - windowMs) asOf rows) no_convergence in
       Inr \<lparr>cv_mint = mint, cv_asOf = asOf, cv_windowMs = windowMs, cv_buyersByTier = (\<lambda>t. length (cg_byTier c t)),
            cv_totalBuyers = length (cg_all c), cv_firstBuyAt = cg_first c, cv_latestBuyAt = cg_last c\<rparr>)"

definition milestone_of :: "string \<Rightarrow> 'j event_row \<Rightarrow> 'j milestone_event option" where
  "milestone_of mint r =
     (case er_payload r of
        MilestonePayload k d \<Rightarrow> Some \<lparr>me_mint = mint, me_kind = k, me_observedAt = er_observed_at r, me_data = d\<rparr>
      | _ \<Rightarrow> None)"

definition milestoneEvents :: "string \<Rightarrow> int \<Rightarrow> int \<Rightarrow> 'j pumpfun_signals \<Rightarrow> signals_error + 'j milestone_event list" where
  "milestoneEvents mint since asOf p =
     rbind (requireStatements p) (\<lambda>rows. Inr (List.map_filter (milestone_of mint) (milestonesRange mint since asOf rows)))"

definition safetyVerdict :: "string \<Rightarrow> int \<Rightarrow> 'j pumpfun_signals \<Rightarrow> signals_error + 'j safety_verdict" where
  "safetyVerdict mint asOf p =
     rbind (requireStatements p) (\<lambda>rows.
       Inr (case safetyLatest mint asOf rows of
              None \<Rightarrow> \<lparr>sv_mint = mint, sv_asOf = asOf, sv_verdict = UnknownSafety, sv_reasons = [], sv_signals = None\<rparr>
            | Some r \<Rightarrow>
                (case er_payload r of
                   VerdictPayload v rs s \<Rightarrow> \<lparr>sv_mint = mint, sv_asOf = asOf, sv_verdict = v, sv_reasons = rs, sv_signals = Some s\<rparr>
                 | _ \<Rightarrow> \<lparr>sv_mint = mint, sv_asOf = asOf, sv_verdict = UnknownSafety, sv_reasons = [], sv_signals = None\<rparr>)))"

section \<open>Histories\<close>

datatype 'j ingest =
    IngestBuy buy_args
  | IngestMilestone "'j milestone_args"
  | IngestWalletTier tier_args
  | IngestSafetyVerdict "'j verdict_args"

definition ingest :: "'j ingest \<Rightarrow> 'j pumpfun_signals \<Rightarrow> signals_error + 'j pumpfun_signals" where
  "ingest i p =
     (case i of
        IngestBuy a \<Rightarrow> ingestBuy a p
      | IngestMilestone a \<Rightarrow> ingestMilestone a p
      | IngestWalletTier a \<Rightarrow> ingestWalletTier a p
      | IngestSafetyVerdict a \<Rightarrow> ingestSafetyVerdict a p)"

fun ingest_all :: "'j ingest list \<Rightarrow> 'j pumpfun_signals \<Rightarrow> signals_error + 'j pumpfun_signals" where
  "ingest_all [] p = Inr p"
| "ingest_all (i # evs) p = rbind (ingest i p) (ingest_all evs)"

definition observedAt :: "'j ingest \<Rightarrow> int" where
  "observedAt i =
     (case i of
        IngestBuy a \<Rightarrow> ba_observedAt a
      | IngestMilestone a \<Rightarrow> ma_observedAt a
      | IngestWalletTier a \<Rightarrow> ta_observedAt a
      | IngestSafetyVerdict a \<Rightarrow> va_observedAt a)"

definition row_of :: "nat \<Rightarrow> 'j ingest \<Rightarrow> 'j event_row" where
  "row_of n i =
     (case i of
        IngestBuy a \<Rightarrow>
          \<lparr>er_id = n, er_signature = Some (ba_signature a), er_slot = Some (ba_slot a), er_observed_at = ba_observedAt a, er_mint = Some (ba_mint a),
           er_wallet = Some (ba_wallet a), er_event_type = BuyEvent,
           er_payload = BuyPayload (ba_signature a) (ba_slot a) (ba_mint a) (ba_wallet a) (ba_buyerTier a) (ba_amountSol a)\<rparr>
      | IngestMilestone a \<Rightarrow>
          \<lparr>er_id = n, er_signature = ma_signature a, er_slot = ma_slot a, er_observed_at = ma_observedAt a, er_mint = Some (ma_mint a),
           er_wallet = None, er_event_type = MilestoneEvent, er_payload = MilestonePayload (ma_kind a) (ma_data a)\<rparr>
      | IngestWalletTier a \<Rightarrow>
          \<lparr>er_id = n, er_signature = None, er_slot = None, er_observed_at = ta_observedAt a, er_mint = None,
           er_wallet = Some (ta_wallet a), er_event_type = WalletTierEvent, er_payload = TierPayload (ta_tier a)\<rparr>
      | IngestSafetyVerdict a \<Rightarrow>
          \<lparr>er_id = n, er_signature = None, er_slot = None, er_observed_at = va_observedAt a, er_mint = Some (va_mint a),
           er_wallet = None, er_event_type = SafetyVerdictEvent, er_payload = VerdictPayload (va_verdict a) (va_reasons a) (va_signals a)\<rparr>)"

lemmas ingest_defs = ingest_def ingestBuy_def ingestMilestone_def ingestWalletTier_def ingestSafetyVerdict_def insertEvent_def

lemma ingest_row: "ingest i p = (if pf_open p then Inr (p\<lparr>pf_rows := pf_rows p @ [row_of (Suc (length (pf_rows p))) i]\<rparr>) else Inl NotInitialized)"
  by (cases i) (simp_all add: ingest_defs requireStatements_def row_of_def)

lemma row_time [simp]: "er_observed_at (row_of n i) = observedAt i"
  by (cases i) (simp_all add: row_of_def observedAt_def)

lemma ingest_all_rows:
  "pf_open p \<Longrightarrow> ingest_all evs p = Inr (p\<lparr>pf_rows := pf_rows p @ map (\<lambda>(n, i). row_of n i) (enumerate (Suc (length (pf_rows p))) evs)\<rparr>)"
  by (induction evs arbitrary: p) (simp_all add: ingest_row)

lemma ingest_all_open: "ingest_all evs p = Inr q \<Longrightarrow> evs \<noteq> [] \<Longrightarrow> pf_open p"
  by (cases evs) (auto simp: ingest_row rbind_def split: if_splits)

section \<open>No lookahead\<close>

text \<open>A row observed after \<open>asOf\<close> is not selected by a query as of then.\<close>

lemma filter_later: "list_all (\<lambda>r. \<not> P r) later \<Longrightarrow> filter P (rows @ later) = filter P rows"
  by (induction later) simp_all

lemma later_rows:
  assumes "\<And>i. i \<in> set evs \<Longrightarrow> asOf < observedAt i"
  shows "list_all (\<lambda>r. asOf < er_observed_at r) (map (\<lambda>(n, i). row_of n i) (enumerate k evs))"
  using assms by (auto simp: list_all_iff dest!: set_zip_rightD simp: enumerate_eq_zip)

lemma queries_later:
  assumes "list_all (\<lambda>r. asOf < er_observed_at r) later"
  shows "walletTierLatest w asOf (rows @ later) = walletTierLatest w asOf rows"
    and "convergenceWindow m from asOf (rows @ later) = convergenceWindow m from asOf rows"
    and "milestonesRange m from asOf (rows @ later) = milestonesRange m from asOf rows"
    and "safetyLatest m asOf (rows @ later) = safetyLatest m asOf rows"
proof -
  have f: "filter P (rows @ later) = filter P rows" if "\<And>r. P r \<Longrightarrow> er_observed_at r \<le> asOf" for P
    using assms that by (intro filter_later) (auto simp: list_all_iff leD)
  show "walletTierLatest w asOf (rows @ later) = walletTierLatest w asOf rows" unfolding walletTierLatest_def by (subst f) auto
  show "convergenceWindow m from asOf (rows @ later) = convergenceWindow m from asOf rows" unfolding convergenceWindow_def by (subst f) auto
  show "milestonesRange m from asOf (rows @ later) = milestonesRange m from asOf rows" unfolding milestonesRange_def by (subst f) auto
  show "safetyLatest m asOf (rows @ later) = safetyLatest m asOf rows" unfolding safetyLatest_def by (subst f) auto
qed

text \<open>
  C34. Whatever is ingested, in any order, if it was observed after \<open>asOf\<close> then no answer as of \<open>asOf\<close> changes: not a
  wallet's tier, a mint's convergence over any window, its milestones or its safety verdict.\<close>

theorem no_lookahead:
  assumes "ingest_all later p = Inr q" and "\<And>i. i \<in> set later \<Longrightarrow> asOf < observedAt i"
  shows "walletTier w asOf q = walletTier w asOf p \<and> convergenceState m asOf windowMs q = convergenceState m asOf windowMs p \<and>
    milestoneEvents m since asOf q = milestoneEvents m since asOf p \<and> safetyVerdict m asOf q = safetyVerdict m asOf p"
proof (cases "later = []")
  case True
  then show ?thesis using assms(1) by simp
next
  case False
  note op = ingest_all_open[OF assms(1) False]
  have q: "q = p\<lparr>pf_rows := pf_rows p @ map (\<lambda>(n, i). row_of n i) (enumerate (Suc (length (pf_rows p))) later)\<rparr>"
    using assms(1) ingest_all_rows[OF op, of later] by simp
  show ?thesis using op queries_later[OF later_rows[OF assms(2)]]
    by (simp add: q walletTier_def convergenceState_def milestoneEvents_def safetyVerdict_def requireStatements_def)
qed

section \<open>What the answers are\<close>

text \<open>The last of the elements with the highest key.\<close>

primrec latest_by :: "('a \<Rightarrow> int) \<Rightarrow> 'a list \<Rightarrow> 'a option" where
  "latest_by f [] = None"
| "latest_by f (x # xs) = (case latest_by f xs of None \<Rightarrow> Some x | Some y \<Rightarrow> if f x > f y then Some x else Some y)"

lemma last_insort_key: "last (insort_key f x xs) = (if xs = [] \<or> (\<forall>y\<in>set xs. f y < f x) then x else last xs)"
  by (induction xs) auto

lemma sort_key_Nil [simp]: "sort_key f xs = [] \<longleftrightarrow> xs = []"
  by (metis length_0_conv length_sort)

lemma last_sorted: "sorted (map f ys) \<Longrightarrow> y \<in> set ys \<Longrightarrow> f y \<le> f (last ys)"
  by (cases ys rule: rev_cases) (auto simp: sorted_append)

lemma last_sort_key: "latest_by f xs = (if xs = [] then None else Some (last (sort_key f xs)))"
proof (induction xs)
  case (Cons x xs)
  show ?case
  proof (cases "xs = []")
    case False
    have m: "f y \<le> f (last (sort_key f xs))" if "y \<in> set xs" for y
      using that by (intro last_sorted) simp_all
    have l: "last (sort_key f xs) \<in> set xs" using False last_in_set[of "sort_key f xs"] by simp
    have "(\<forall>y\<in>set xs. f y < f x) \<longleftrightarrow> f (last (sort_key f xs)) < f x" using m l by (meson order_le_less_trans)
    then show ?thesis using Cons False by (simp add: last_insort_key)
  qed simp
qed simp

lemma sort_key_map: "sort_key f (map g xs) = map g (sort_key (\<lambda>x. f (g x)) xs)"
proof -
  have i: "insort_key f (g x) (map g ys) = map g (insort_key (\<lambda>x. f (g x)) x ys)" for x ys by (induction ys) simp_all
  show ?thesis by (induction xs) (simp_all add: i)
qed

lemma latest_row_by_id: "sorted (map er_id rows) \<Longrightarrow> latest_row rows = latest_by er_observed_at rows"
proof -
  assume s: "sorted (map er_id rows)"
  have "sort_key er_id rows = rows" using s by (rule sort_key_id_if_sorted)
  then show ?thesis by (cases "sort_key er_observed_at rows" rule: rev_cases) (auto simp: latest_row_def by_time_def last_sort_key)
qed

definition rows_of :: "nat \<Rightarrow> 'j ingest list \<Rightarrow> 'j event_row list" where
  "rows_of k evs = map (\<lambda>(n, i). row_of n i) (enumerate k evs)"

lemma rows_of_simps [simp]: "rows_of k [] = []" "rows_of k (i # evs) = row_of k i # rows_of (Suc k) evs"
  by (simp_all add: rows_of_def)

lemma row_id [simp]: "er_id (row_of n i) = n"
  by (cases i) (simp_all add: row_of_def)

lemma rows_ids: "map er_id (rows_of k evs) = [k..<k + length evs]"
  by (induction evs arbitrary: k) (simp_all add: upt_rec)

lemma filter_ids: "sorted (map er_id (filter P (rows_of k evs)))"
  using rows_ids[of k evs] by (simp add: sorted_filter)

text \<open>The rows a query selects are those of the ingestions of one kind that it asks for.\<close>

lemma rows_selected:
  assumes "\<And>i n. P (row_of n i) \<longleftrightarrow> (\<exists>a. sel i = Some a \<and> Q a)" and "\<And>i a. sel i = Some a \<Longrightarrow> i = C a"
  obtains zs where "filter P (rows_of k evs) = map (\<lambda>(n, a). row_of n (C a)) zs" and "map snd zs = filter Q (List.map_filter sel evs)"
proof -
  have "\<exists>zs. filter P (rows_of k evs) = map (\<lambda>(n, a). row_of n (C a)) zs \<and> map snd zs = filter Q (List.map_filter sel evs)"
  proof (induction evs arbitrary: k)
    case (Cons i evs)
    obtain zs where zs: "filter P (rows_of (Suc k) evs) = map (\<lambda>(n, a). row_of n (C a)) zs" "map snd zs = filter Q (List.map_filter sel evs)"
      using Cons by blast
    show ?case
    proof (cases "sel i")
      case None
      then show ?thesis using zs assms(1) by (auto simp: map_filter_simps)
    next
      case (Some a)
      then have "i = C a" by (rule assms(2))
      then show ?thesis using zs assms(1) Some
        by (cases "Q a") (auto simp: map_filter_simps intro: exI[of _ "(k, a) # zs"])
    qed
  qed (simp add: map_filter_simps)
  then show thesis using that by blast
qed

lemma latest_by_map: "latest_by f (map g xs) = map_option g (latest_by (\<lambda>x. f (g x)) xs)"
  by (induction xs) (auto split: option.splits)

definition buys :: "'j ingest list \<Rightarrow> buy_args list" where
  "buys = List.map_filter (\<lambda>i. case i of IngestBuy a \<Rightarrow> Some a | _ \<Rightarrow> None)"

definition milestones :: "'j ingest list \<Rightarrow> 'j milestone_args list" where
  "milestones = List.map_filter (\<lambda>i. case i of IngestMilestone a \<Rightarrow> Some a | _ \<Rightarrow> None)"

definition tiers :: "'j ingest list \<Rightarrow> tier_args list" where
  "tiers = List.map_filter (\<lambda>i. case i of IngestWalletTier a \<Rightarrow> Some a | _ \<Rightarrow> None)"

definition verdicts :: "'j ingest list \<Rightarrow> 'j verdict_args list" where
  "verdicts = List.map_filter (\<lambda>i. case i of IngestSafetyVerdict a \<Rightarrow> Some a | _ \<Rightarrow> None)"

lemma tier_latest:
  "map_option er_payload (walletTierLatest w asOf (rows_of k evs)) =
   map_option (\<lambda>a. TierPayload (ta_tier a)) (latest_by ta_observedAt (filter (\<lambda>a. ta_wallet a = w \<and> ta_observedAt a \<le> asOf) (tiers evs)))"
proof -
  let ?P = "\<lambda>r. er_wallet r = Some w \<and> er_event_type r = WalletTierEvent \<and> er_observed_at r \<le> asOf"
  let ?Q = "\<lambda>a. ta_wallet a = w \<and> ta_observedAt a \<le> asOf"
  obtain zs where zs: "filter ?P (rows_of k evs) = map (\<lambda>(n, a). row_of n (IngestWalletTier a)) zs" "map snd zs = filter ?Q (tiers evs)"
    by (rule rows_selected[where P = ?P and Q = ?Q and C = IngestWalletTier and sel = "\<lambda>i. case i of IngestWalletTier a \<Rightarrow> Some a | _ \<Rightarrow> None" and k = k and evs = evs])
      (auto simp: row_of_def tiers_def split: ingest.splits)
  show ?thesis using filter_ids[of ?P k evs]
    by (simp add: walletTierLatest_def latest_row_by_id zs(2)[symmetric])
      (simp add: zs(1) latest_by_map option.map_comp comp_def case_prod_beta row_of_def observedAt_def)
qed

lemma verdict_latest:
  "map_option er_payload (safetyLatest m asOf (rows_of k evs)) =
   map_option (\<lambda>a. VerdictPayload (va_verdict a) (va_reasons a) (va_signals a))
     (latest_by va_observedAt (filter (\<lambda>a. va_mint a = m \<and> va_observedAt a \<le> asOf) (verdicts evs)))"
proof -
  let ?P = "\<lambda>r. er_mint r = Some m \<and> er_event_type r = SafetyVerdictEvent \<and> er_observed_at r \<le> asOf"
  let ?Q = "\<lambda>a. va_mint a = m \<and> va_observedAt a \<le> asOf"
  obtain zs where zs: "filter ?P (rows_of k evs) = map (\<lambda>(n, a). row_of n (IngestSafetyVerdict a)) zs" "map snd zs = filter ?Q (verdicts evs)"
    by (rule rows_selected[where P = ?P and Q = ?Q and C = IngestSafetyVerdict and sel = "\<lambda>i. case i of IngestSafetyVerdict a \<Rightarrow> Some a | _ \<Rightarrow> None" and k = k and evs = evs])
      (auto simp: row_of_def verdicts_def split: ingest.splits)
  show ?thesis using filter_ids[of ?P k evs]
    by (simp add: safetyLatest_def latest_row_by_id zs(2)[symmetric])
      (simp add: zs(1) latest_by_map option.map_comp comp_def case_prod_beta row_of_def observedAt_def)
qed

lemma milestones_listed:
  "List.map_filter (milestone_of m) (milestonesRange m from to (rows_of k evs)) =
   map (\<lambda>a. \<lparr>me_mint = m, me_kind = ma_kind a, me_observedAt = ma_observedAt a, me_data = ma_data a\<rparr>)
     (sort_key ma_observedAt (filter (\<lambda>a. ma_mint a = m \<and> from \<le> ma_observedAt a \<and> ma_observedAt a \<le> to) (milestones evs)))"
proof -
  let ?P = "\<lambda>r. er_mint r = Some m \<and> er_event_type r = MilestoneEvent \<and> from \<le> er_observed_at r \<and> er_observed_at r \<le> to"
  let ?Q = "\<lambda>a. ma_mint a = m \<and> from \<le> ma_observedAt a \<and> ma_observedAt a \<le> to"
  obtain zs where zs: "filter ?P (rows_of k evs) = map (\<lambda>(n, a). row_of n (IngestMilestone a)) zs" "map snd zs = filter ?Q (milestones evs)"
    by (rule rows_selected[where P = ?P and Q = ?Q and C = IngestMilestone and sel = "\<lambda>i. case i of IngestMilestone a \<Rightarrow> Some a | _ \<Rightarrow> None" and k = k and evs = evs])
      (auto simp: row_of_def milestones_def split: ingest.splits)
  have "sort_key er_id (filter ?P (rows_of k evs)) = filter ?P (rows_of k evs)" by (rule sort_key_id_if_sorted[OF filter_ids])
  then show ?thesis
    by (simp add: milestonesRange_def by_time_def zs(2)[symmetric])
      (simp add: zs(1) sort_key_map case_prod_beta observedAt_def map_filter_def comp_def milestone_of_def row_of_def)
qed

text \<open>The fold over the rows of a window, in whatever order the database gives them.\<close>

definition converged :: "'j event_row set \<Rightarrow> convergence \<Rightarrow> bool" where
  "converged R c \<longleftrightarrow>
     (\<forall>t. distinct (cg_byTier c t) \<and> set (cg_byTier c t) = {w. \<exists>r\<in>R. er_wallet r = Some w \<and> payload_tier (er_payload r) = Some t}) \<and>
     distinct (cg_all c) \<and> set (cg_all c) = {w. \<exists>r\<in>R. er_wallet r = Some w} \<and>
     cg_first c = (if R = {} then None else Some (Min (er_observed_at ` R))) \<and>
     cg_last c = (if R = {} then None else Some (Max (er_observed_at ` R)))"

lemma converge_row_converged:
  assumes "converged R c" and "er_wallet r \<noteq> None" and "finite R"
  shows "converged (insert r R) (converge_row r c)"
proof -
  obtain w where w: "er_wallet r = Some w" using assms(2) by blast
  have sets: "distinct (cg_byTier (converge_row r c) t) \<and>
      set (cg_byTier (converge_row r c) t) = {w. \<exists>r\<in>insert r R. er_wallet r = Some w \<and> payload_tier (er_payload r) = Some t}" for t
    using assms(1) w by (auto simp: converged_def converge_row_def Let_def distinct_insert split: option.splits)
  have "all": "distinct (cg_all (converge_row r c)) \<and> set (cg_all (converge_row r c)) = {w. \<exists>r\<in>insert r R. er_wallet r = Some w}"
    using assms(1) w by (auto simp: converged_def converge_row_def Let_def distinct_insert)
  have ends: "Min (er_observed_at ` insert r R) = (if er_observed_at r < Min (er_observed_at ` R) then er_observed_at r else Min (er_observed_at ` R))"
    "Max (er_observed_at ` insert r R) = (if er_observed_at r > Max (er_observed_at ` R) then er_observed_at r else Max (er_observed_at ` R))"
    if "R \<noteq> {}" using that assms(3) by (simp_all only: image_insert Min_insert Max_insert finite_imageI image_is_empty not_False_eq_True) (simp_all only: min_def max_def split: if_split, linarith+)
  have "first": "cg_first (converge_row r c) = Some (Min (er_observed_at ` insert r R))"
    using assms(1) ends by (cases "R = {}") (simp_all del: image_insert add: converged_def converge_row_def Let_def, simp)
  have last: "cg_last (converge_row r c) = Some (Max (er_observed_at ` insert r R))"
    using assms(1) ends by (cases "R = {}") (simp_all del: image_insert add: converged_def converge_row_def Let_def, simp)
  show ?thesis using sets "all" "first" last by (simp add: converged_def)
qed

lemma fold_converged:
  "converged R c \<Longrightarrow> finite R \<Longrightarrow> \<forall>r\<in>set rows. er_wallet r \<noteq> None \<Longrightarrow> converged (R \<union> set rows) (fold converge_row rows c)"
proof (induction rows arbitrary: R c)
  case (Cons r rows)
  have "converged (insert r R) (converge_row r c)" using Cons.prems by (intro converge_row_converged) simp_all
  from Cons.IH[OF this] Cons.prems show ?case by simp
qed simp

lemma none_converged: "converged {} no_convergence"
  by (simp add: converged_def no_convergence_def)

definition bought :: "string \<Rightarrow> int \<Rightarrow> int \<Rightarrow> 'j ingest list \<Rightarrow> buy_args set" where
  "bought m from to evs = {a \<in> set (buys evs). ba_mint a = m \<and> from \<le> ba_observedAt a \<and> ba_observedAt a \<le> to}"

lemma window_converged:
  fixes evs :: "'j ingest list"
  assumes B_def: "B = bought m from to evs"
    and c_def: "c = fold converge_row (convergenceWindow m from to (rows_of k evs)) no_convergence"
  shows "length (cg_byTier c t) = card (ba_wallet ` {a \<in> B. ba_buyerTier a = Some t})"
    and "length (cg_all c) = card (ba_wallet ` B)"
    and "cg_first c = (if B = {} then None else Some (Min (ba_observedAt ` B)))"
    and "cg_last c = (if B = {} then None else Some (Max (ba_observedAt ` B)))"
proof -
  let ?P = "\<lambda>r. er_mint r = Some m \<and> er_event_type r = BuyEvent \<and> from \<le> er_observed_at r \<and> er_observed_at r \<le> to"
  let ?Q = "\<lambda>a. ba_mint a = m \<and> from \<le> ba_observedAt a \<and> ba_observedAt a \<le> to"
  obtain zs where zs: "filter ?P (rows_of k evs) = map (\<lambda>(n, a). row_of n (IngestBuy a)) zs" "map snd zs = filter ?Q (buys evs)"
    by (rule rows_selected[where P = ?P and Q = ?Q and C = IngestBuy and sel = "\<lambda>i. case i of IngestBuy a \<Rightarrow> Some a | _ \<Rightarrow> None" and k = k and evs = evs])
      (auto simp: row_of_def buys_def split: ingest.splits)
  let ?R = "set (convergenceWindow m from to (rows_of k evs))"
  have R: "?R = (\<lambda>(n, a). row_of n (IngestBuy a)) ` set zs" by (simp add: convergenceWindow_def zs(1))
  have B: "B = snd ` set zs" using arg_cong[OF zs(2), of set] by (auto simp: B_def bought_def)
  have "\<forall>r\<in>?R. er_wallet r \<noteq> None" by (auto simp: R row_of_def)
  then have c: "converged ?R c" using fold_converged[OF none_converged] by (simp add: c_def)
  have "{w. \<exists>r\<in>?R. er_wallet r = Some w \<and> payload_tier (er_payload r) = Some t} = ba_wallet ` {a \<in> B. ba_buyerTier a = Some t}"
    by (force simp: R B row_of_def payload_tier_def)
  then show "length (cg_byTier c t) = card (ba_wallet ` {a \<in> B. ba_buyerTier a = Some t})"
    using c distinct_card[of "cg_byTier c t"] by (simp add: converged_def)
  have "{w. \<exists>r\<in>?R. er_wallet r = Some w} = ba_wallet ` B" by (force simp: R B row_of_def)
  then show "length (cg_all c) = card (ba_wallet ` B)" using c distinct_card[of "cg_all c"] by (simp add: converged_def)
  have t: "er_observed_at ` ?R = ba_observedAt ` B" "?R = {} \<longleftrightarrow> B = {}"
    by (simp_all add: R B image_image case_prod_beta observedAt_def)
  show "cg_first c = (if B = {} then None else Some (Min (ba_observedAt ` B)))"
    "cg_last c = (if B = {} then None else Some (Max (ba_observedAt ` B)))" using c t by (simp_all add: converged_def)
qed

text \<open>
  C35. Over any history of ingestions, in any order of their times: a wallet's tier is that of its latest classification
  by \<open>asOf\<close> (of two at one time, the one ingested later), likewise a mint's verdict, unknown if there is none; the milestones are those
  observed in the range, in the order of their times and then of ingestion; convergence counts the distinct wallets that bought in the
  window, by tier and in all, with the first and the last buy.\<close>

theorem answers_follow_history:
  "\<exists>q. ingest_all evs (init (new_signals path [])) = Inr q \<and>
     walletTier w asOf q = Inr (map_option ta_tier (latest_by ta_observedAt (filter (\<lambda>a. ta_wallet a = w \<and> ta_observedAt a \<le> asOf) (tiers evs)))) \<and>
     safetyVerdict m asOf q =
       Inr (case latest_by va_observedAt (filter (\<lambda>a. va_mint a = m \<and> va_observedAt a \<le> asOf) (verdicts evs)) of
              None \<Rightarrow> \<lparr>sv_mint = m, sv_asOf = asOf, sv_verdict = UnknownSafety, sv_reasons = [], sv_signals = None\<rparr>
            | Some a \<Rightarrow> \<lparr>sv_mint = m, sv_asOf = asOf, sv_verdict = va_verdict a, sv_reasons = va_reasons a, sv_signals = Some (va_signals a)\<rparr>) \<and>
     milestoneEvents m since asOf q =
       Inr (map (\<lambda>a. \<lparr>me_mint = m, me_kind = ma_kind a, me_observedAt = ma_observedAt a, me_data = ma_data a\<rparr>)
         (sort_key ma_observedAt (filter (\<lambda>a. ma_mint a = m \<and> since \<le> ma_observedAt a \<and> ma_observedAt a \<le> asOf) (milestones evs)))) \<and>
     convergenceState m asOf windowMs q =
       Inr (let B = bought m (asOf - windowMs) asOf evs in
         \<lparr>cv_mint = m, cv_asOf = asOf, cv_windowMs = windowMs,
          cv_buyersByTier = (\<lambda>t. card (ba_wallet ` {a \<in> B. ba_buyerTier a = Some t})), cv_totalBuyers = card (ba_wallet ` B),
          cv_firstBuyAt = (if B = {} then None else Some (Min (ba_observedAt ` B))),
          cv_latestBuyAt = (if B = {} then None else Some (Max (ba_observedAt ` B)))\<rparr>)"
proof -
  let ?p = "init (new_signals path []) :: 'a pumpfun_signals"
  let ?q = "?p\<lparr>pf_rows := rows_of 1 evs\<rparr>"
  have op: "pf_open ?p" "pf_rows ?p = []" by (simp_all add: init_def new_signals_def)
  have q: "ingest_all evs ?p = Inr ?q" using ingest_all_rows[OF op(1), of evs] op(2) by (simp add: rows_of_def)
  have t: "walletTier w asOf ?q = Inr (map_option ta_tier (latest_by ta_observedAt (filter (\<lambda>a. ta_wallet a = w \<and> ta_observedAt a \<le> asOf) (tiers evs))))"
    using tier_latest[of w asOf 1 evs] op(1)
    by (cases "latest_by ta_observedAt (filter (\<lambda>a. ta_wallet a = w \<and> ta_observedAt a \<le> asOf) (tiers evs))")
      (auto simp: walletTier_def requireStatements_def map_option_eq_Some)
  have v: "safetyVerdict m asOf ?q =
       Inr (case latest_by va_observedAt (filter (\<lambda>a. va_mint a = m \<and> va_observedAt a \<le> asOf) (verdicts evs)) of
              None \<Rightarrow> \<lparr>sv_mint = m, sv_asOf = asOf, sv_verdict = UnknownSafety, sv_reasons = [], sv_signals = None\<rparr>
            | Some a \<Rightarrow> \<lparr>sv_mint = m, sv_asOf = asOf, sv_verdict = va_verdict a, sv_reasons = va_reasons a, sv_signals = Some (va_signals a)\<rparr>)"
    using verdict_latest[of m asOf 1 evs] op(1) by (auto simp: safetyVerdict_def requireStatements_def split: option.splits)
  have c: "convergenceState m asOf windowMs ?q =
       Inr (let B = bought m (asOf - windowMs) asOf evs in
         \<lparr>cv_mint = m, cv_asOf = asOf, cv_windowMs = windowMs,
          cv_buyersByTier = (\<lambda>t. card (ba_wallet ` {a \<in> B. ba_buyerTier a = Some t})), cv_totalBuyers = card (ba_wallet ` B),
          cv_firstBuyAt = (if B = {} then None else Some (Min (ba_observedAt ` B))),
          cv_latestBuyAt = (if B = {} then None else Some (Max (ba_observedAt ` B)))\<rparr>)"
    using op(1) by (simp add: convergenceState_def requireStatements_def Let_def window_converged[OF refl refl])
  have e: "milestoneEvents m since asOf ?q =
       Inr (map (\<lambda>a. \<lparr>me_mint = m, me_kind = ma_kind a, me_observedAt = ma_observedAt a, me_data = ma_data a\<rparr>)
         (sort_key ma_observedAt (filter (\<lambda>a. ma_mint a = m \<and> since \<le> ma_observedAt a \<and> ma_observedAt a \<le> asOf) (milestones evs))))"
    using op(1) by (simp add: milestoneEvents_def requireStatements_def milestones_listed)
  show ?thesis using q t v e c by blast
qed

text \<open>A store in use, and what it does not answer when it is closed.\<close>

definition sample_buys :: "unit ingest list" where
  "sample_buys =
     [IngestBuy \<lparr>ba_signature = ''s1'', ba_slot = 1, ba_observedAt = 10, ba_mint = ''m'', ba_wallet = ''w'', ba_buyerTier = Some TierS, ba_amountSol = None\<rparr>,
      IngestWalletTier \<lparr>ta_wallet = ''w'', ta_tier = TierS, ta_observedAt = 5\<rparr>]"

definition sample_later :: "unit ingest list" where
  "sample_later =
     [IngestWalletTier \<lparr>ta_wallet = ''w'', ta_tier = TierD, ta_observedAt = 21\<rparr>,
      IngestBuy \<lparr>ba_signature = ''s2'', ba_slot = 2, ba_observedAt = 30, ba_mint = ''m'', ba_wallet = ''v'', ba_buyerTier = None, ba_amountSol = None\<rparr>]"

definition sample_store :: "unit pumpfun_signals" where
  "sample_store = (case ingest_all sample_buys (init (new_signals '':memory:'' [])) of Inr p \<Rightarrow> p | Inl _ \<Rightarrow> new_signals '''' [])"

theorem no_lookahead_witness:
  "\<exists>q. ingest_all sample_later sample_store = Inr q \<and> length (pf_rows q) = 4 \<and>
     walletTier ''w'' 20 q = Inr (Some TierS) \<and> convergenceState ''m'' 20 100 q = convergenceState ''m'' 20 100 sample_store"
proof -
  have op: "pf_open sample_store" "length (pf_rows sample_store) = 2" "walletTier ''w'' 20 sample_store = Inr (Some TierS)" by code_simp+
  obtain q where q: "ingest_all sample_later sample_store = Inr q" "length (pf_rows q) = 4"
    using ingest_all_rows[OF op(1), of sample_later] op(2) by (simp add: sample_later_def)
  have "\<And>i. i \<in> set sample_later \<Longrightarrow> 20 < observedAt i" by (auto simp: sample_later_def observedAt_def)
  from no_lookahead[OF q(1) this, of "''w''" "''m''" 100 0] show ?thesis using q op(3) by auto
qed

end
