(* ===== verification/Replay.thy ===== *)
theory Replay
  imports Complex_Main Prelude "HOL-Library.Sublist"
begin

text \<open>
  \<open>packages/solana-trading/src/backtester/\<close>: \<open>types.ts\<close>, \<open>walk-forward.ts\<close> and \<open>portfolio.ts\<close>. A number is a rational and
  \<open>fl\<close> the rounding of the double arithmetic to it, a parameter: \<open>a * b\<close> of the code is \<open>fl (a * b)\<close>. Not-a-number and infinities are
  left out, except the infinite time of the last \<open>closeUntil\<close>, which is \<open>None\<close>.
\<close>

section \<open>Types\<close>

record price_point =
  pp_ts :: rat
  pp_price :: rat

record exit_rules =
  xr_holdMinutes :: rat
  xr_hardStopPct :: rat
  xr_takeProfitMultiple :: rat
  xr_trailingStopPct :: rat
  xr_trailingActivationMultiple :: rat

datatype exit_reason = TimeLimit | HardStop | TakeProfit | TrailingStop | EndOfData

record backtest_trade =
  bt_entryPrice :: rat
  bt_exitPrice :: rat
  bt_roi :: rat
  bt_holdMinutes :: rat
  bt_exitReason :: exit_reason
  bt_entryTimeMs :: "rat option"
  bt_exitTimeMs :: "rat option"

record replay_config =
  rc_startCapital :: rat
  rc_tradeSize :: rat
  rc_maxConcurrent :: "nat option"

record replay_result =
  rr_finalEquity :: rat
  rr_returnPct :: rat
  rr_maxDrawdown :: rat
  rr_peakEquity :: rat
  rr_tradesTaken :: nat
  rr_tradesSkipped :: nat

section \<open>Walking a price series\<close>

function search_gte :: "price_point list \<Rightarrow> rat \<Rightarrow> nat \<Rightarrow> nat \<Rightarrow> nat" where
  "search_gte points target lo hi =
     (if lo < hi
      then let mid = (lo + hi) div 2 in
           if pp_ts (points ! mid) < target then search_gte points target (mid + 1) hi else search_gte points target lo mid
      else lo)"
  by pat_completeness auto
termination by (relation "measure (\<lambda>(points, target, lo, hi). hi - lo)") auto

declare search_gte.simps [simp del]

definition binarySearchFirstGte :: "price_point list \<Rightarrow> rat \<Rightarrow> nat" where
  "binarySearchFirstGte points target = search_gte points target 0 (length points)"

definition makeTrade :: "(rat \<Rightarrow> rat) \<Rightarrow> rat \<Rightarrow> rat \<Rightarrow> rat \<Rightarrow> rat \<Rightarrow> rat \<Rightarrow> exit_reason \<Rightarrow> backtest_trade" where
  "makeTrade fl entryPrice rawExitPrice exitSlippage entryTimeMs exitTimeMs reason =
     (let exitPrice = fl (rawExitPrice * fl (1 - exitSlippage)) in
      \<lparr>bt_entryPrice = entryPrice, bt_exitPrice = exitPrice, bt_roi = fl (exitPrice / entryPrice),
       bt_holdMinutes = fl (fl (exitTimeMs - entryTimeMs) / 60000), bt_exitReason = reason,
       bt_entryTimeMs = Some entryTimeMs, bt_exitTimeMs = Some exitTimeMs\<rparr>)"

text \<open>What a point of the series does, once \<open>peak\<close> includes it.\<close>

definition exit_at :: "(rat \<Rightarrow> rat) \<Rightarrow> rat \<Rightarrow> exit_rules \<Rightarrow> rat \<Rightarrow> rat \<Rightarrow> price_point \<Rightarrow> exit_reason option" where
  "exit_at fl entryPrice rules maxExitTime peak p =
     (if pp_ts p > maxExitTime then Some TimeLimit
      else if pp_price p \<le> fl (entryPrice * fl (1 - fl (xr_hardStopPct rules / 100))) then Some HardStop
      else if pp_price p \<ge> fl (entryPrice * xr_takeProfitMultiple rules) then Some TakeProfit
      else if peak \<ge> fl (entryPrice * xr_trailingActivationMultiple rules) \<and> pp_price p \<le> fl (peak * fl (1 - fl (xr_trailingStopPct rules / 100)))
           then Some TrailingStop
      else None)"

fun walk_points :: "(rat \<Rightarrow> rat) \<Rightarrow> rat \<Rightarrow> exit_rules \<Rightarrow> rat \<Rightarrow> rat \<Rightarrow> price_point list \<Rightarrow> (price_point \<times> exit_reason) option" where
  "walk_points fl entryPrice rules maxExitTime peak [] = None"
| "walk_points fl entryPrice rules maxExitTime peak (p # ps) =
     (let peak' = (if pp_ts p > maxExitTime then peak else max peak (pp_price p)) in
      case exit_at fl entryPrice rules maxExitTime peak' p of
        Some reason \<Rightarrow> Some (p, reason)
      | None \<Rightarrow> walk_points fl entryPrice rules maxExitTime peak' ps)"

text \<open>\<open>None\<close> is the \<open>TypeError\<close> of an empty series.\<close>

definition walkForwardExit :: "(rat \<Rightarrow> rat) \<Rightarrow> price_point list \<Rightarrow> nat \<Rightarrow> rat \<Rightarrow> exit_rules \<Rightarrow> rat \<Rightarrow> rat \<Rightarrow> backtest_trade option" where
  "walkForwardExit fl points entryIdx entryPrice rules entryTimeMs exitSlippage =
     (let maxExitTime = fl (entryTimeMs + fl (xr_holdMinutes rules * 60000));
          peak = (if entryIdx < length points then pp_price (points ! entryIdx) else entryPrice) in
      case walk_points fl entryPrice rules maxExitTime peak (drop entryIdx points) of
        Some (p, reason) \<Rightarrow> Some (makeTrade fl entryPrice (pp_price p) exitSlippage entryTimeMs (pp_ts p) reason)
      | None \<Rightarrow>
          if points = [] then None
          else Some (makeTrade fl entryPrice (pp_price (last points)) exitSlippage entryTimeMs (pp_ts (last points)) EndOfData))"

section \<open>Replaying trades\<close>

record open_position =
  op_exitTimeMs :: rat
  op_amount :: rat
  op_roi :: rat

record replay =
  rp_cash :: rat
  rp_peakEquity :: rat
  rp_maxDrawdown :: rat
  rp_tradesTaken :: nat
  rp_tradesSkipped :: nat
  rp_open :: "open_position list"

definition equity :: "(rat \<Rightarrow> rat) \<Rightarrow> replay \<Rightarrow> rat" where
  "equity fl r = fl (rp_cash r + fold (\<lambda>p sum. fl (sum + op_amount p)) (rp_open r) 0)"

definition mark :: "(rat \<Rightarrow> rat) \<Rightarrow> replay \<Rightarrow> replay" where
  "mark fl r =
     (let current = equity fl r; r = r\<lparr>rp_peakEquity := max (rp_peakEquity r) current\<rparr> in
      if rp_peakEquity r > 0
      then r\<lparr>rp_maxDrawdown := max (rp_maxDrawdown r) (fl (fl (rp_peakEquity r - current) / rp_peakEquity r))\<rparr>
      else r)"

definition due :: "rat option \<Rightarrow> rat \<Rightarrow> bool" where
  "due ts exit \<longleftrightarrow> (case ts of None \<Rightarrow> True | Some t \<Rightarrow> exit \<le> t)"

definition close_position :: "(rat \<Rightarrow> rat) \<Rightarrow> open_position \<Rightarrow> open_position list \<Rightarrow> replay \<Rightarrow> replay" where
  "close_position fl p ps r = mark fl (r\<lparr>rp_open := ps, rp_cash := fl (rp_cash r + fl (op_amount p * op_roi p))\<rparr>)"

fun close_due :: "(rat \<Rightarrow> rat) \<Rightarrow> rat option \<Rightarrow> open_position list \<Rightarrow> replay \<Rightarrow> replay" where
  "close_due fl ts [] r = r\<lparr>rp_open := []\<rparr>"
| "close_due fl ts (p # ps) r =
     (if due ts (op_exitTimeMs p) then close_due fl ts ps (close_position fl p ps r) else r\<lparr>rp_open := p # ps\<rparr>)"

definition closeUntil :: "(rat \<Rightarrow> rat) \<Rightarrow> rat option \<Rightarrow> replay \<Rightarrow> replay" where
  "closeUntil fl ts r = close_due fl ts (sort_key op_exitTimeMs (rp_open r)) r"

definition tradeEntryTime :: "backtest_trade \<Rightarrow> rat" where
  "tradeEntryTime t = (case bt_entryTimeMs t of Some ms \<Rightarrow> ms | None \<Rightarrow> 0)"

definition tradeExitTime :: "(rat \<Rightarrow> rat) \<Rightarrow> backtest_trade \<Rightarrow> rat \<Rightarrow> rat" where
  "tradeExitTime fl t entryTimeMs = (case bt_exitTimeMs t of Some ms \<Rightarrow> ms | None \<Rightarrow> fl (entryTimeMs + fl (bt_holdMinutes t * 60000)))"

definition at_limit :: "replay_config \<Rightarrow> replay \<Rightarrow> bool" where
  "at_limit config r \<longleftrightarrow> (case rc_maxConcurrent config of None \<Rightarrow> False | Some n \<Rightarrow> length (rp_open r) \<ge> n)"

definition replay_trade :: "(rat \<Rightarrow> rat) \<Rightarrow> replay_config \<Rightarrow> backtest_trade \<Rightarrow> replay \<Rightarrow> replay" where
  "replay_trade fl config t r =
     (let entryTimeMs = tradeEntryTime t; r = closeUntil fl (Some entryTimeMs) r in
      if at_limit config r \<or> rp_cash r < rc_tradeSize config then r\<lparr>rp_tradesSkipped := rp_tradesSkipped r + 1\<rparr>
      else mark fl (r\<lparr>rp_cash := fl (rp_cash r - rc_tradeSize config),
                      rp_open := rp_open r @ [\<lparr>op_exitTimeMs = tradeExitTime fl t entryTimeMs, op_amount = rc_tradeSize config, op_roi = bt_roi t\<rparr>],
                      rp_tradesTaken := rp_tradesTaken r + 1\<rparr>))"

definition new_replay :: "replay_config \<Rightarrow> replay" where
  "new_replay config =
     \<lparr>rp_cash = rc_startCapital config, rp_peakEquity = rc_startCapital config, rp_maxDrawdown = 0, rp_tradesTaken = 0, rp_tradesSkipped = 0, rp_open = []\<rparr>"

definition replay_all :: "(rat \<Rightarrow> rat) \<Rightarrow> replay_config \<Rightarrow> backtest_trade list \<Rightarrow> replay" where
  "replay_all fl config trades =
     mark fl (closeUntil fl None (fold (replay_trade fl config) (sort_key tradeEntryTime trades) (new_replay config)))"

definition replayPortfolio :: "(rat \<Rightarrow> rat) \<Rightarrow> backtest_trade list \<Rightarrow> replay_config \<Rightarrow> replay_result" where
  "replayPortfolio fl trades config =
     (let r = replay_all fl config trades; finalEquity = equity fl r in
      \<lparr>rr_finalEquity = finalEquity, rr_returnPct = fl (fl (fl (finalEquity / rc_startCapital config) - 1) * 100),
       rr_maxDrawdown = rp_maxDrawdown r, rr_peakEquity = rp_peakEquity r, rr_tradesTaken = rp_tradesTaken r, rr_tradesSkipped = rp_tradesSkipped r\<rparr>)"

section \<open>The search\<close>

lemma search_gte_exact:
  assumes "sorted (map pp_ts points)" and "lo \<le> hi" and "hi \<le> length points"
    and "\<And>i. i < lo \<Longrightarrow> pp_ts (points ! i) < target" and "\<And>i. hi \<le> i \<Longrightarrow> i < length points \<Longrightarrow> target \<le> pp_ts (points ! i)"
  shows "search_gte points target lo hi = length (takeWhile (\<lambda>p. pp_ts p < target) points)"
  using assms(2-)
proof (induction "hi - lo" arbitrary: lo hi rule: less_induct)
  case less
  show ?case
  proof (cases "lo < hi")
    case False
    then have "lo = hi" using less.prems by simp
    then have "takeWhile (\<lambda>p. pp_ts p < target) points = take lo points"
      using less.prems(3,4) by (intro takeWhile_eq_take_P_nth) (auto simp: not_less)
    then show ?thesis using False less.prems(1,2) by (simp add: search_gte.simps)
  next
    case True
    let ?mid = "(lo + hi) div 2"
    have mid: "lo \<le> ?mid" "?mid < hi" "?mid < length points" using True less.prems by auto
    have le: "pp_ts (points ! i) \<le> pp_ts (points ! j)" if "i \<le> j" "j < length points" for i j
      using sorted_nth_mono[OF assms(1), of i j] that by simp
    show ?thesis
    proof (cases "pp_ts (points ! ?mid) < target")
      case lt: True
      have "search_gte points target (?mid + 1) hi = length (takeWhile (\<lambda>p. pp_ts p < target) points)"
      proof (rule less.hyps)
        show "pp_ts (points ! i) < target" if "i < ?mid + 1" for i using le[of i ?mid] that mid(3) lt by simp
      qed (use True mid less.prems in auto)
      then show ?thesis using True lt by (simp add: search_gte.simps Let_def)
    next
      case ge: False
      have "search_gte points target lo ?mid = length (takeWhile (\<lambda>p. pp_ts p < target) points)"
      proof (rule less.hyps)
        show "target \<le> pp_ts (points ! i)" if "?mid \<le> i" "i < length points" for i using le[of ?mid i] that ge by simp
      qed (use True mid less.prems in auto)
      then show ?thesis using True ge by (simp add: search_gte.simps Let_def)
    qed
  qed
qed

text \<open>
  In a series sorted by time the binary search returns the first index whose time is at least the target, and the
  length of the series if there is none.\<close>

theorem binarySearch_first:
  assumes "sorted (map pp_ts points)"
  shows "binarySearchFirstGte points target = length (takeWhile (\<lambda>p. pp_ts p < target) points)"
  unfolding binarySearchFirstGte_def by (rule search_gte_exact[OF assms]) simp_all

theorem binarySearch_first_witness:
  "binarySearchFirstGte [\<lparr>pp_ts = 1, pp_price = 5\<rparr>, \<lparr>pp_ts = 2, pp_price = 6\<rparr>, \<lparr>pp_ts = 2, pp_price = 7\<rparr>, \<lparr>pp_ts = 4, pp_price = 8\<rparr>] 2 = 1"
  by (subst binarySearch_first) simp_all

section \<open>The exit\<close>

text \<open>The highest price from the entry to a point.\<close>

definition peak_to :: "price_point list \<Rightarrow> nat \<Rightarrow> nat \<Rightarrow> rat" where
  "peak_to points entryIdx i = Max (pp_price ` set (take (Suc i - entryIdx) (drop entryIdx points)))"

definition fires :: "(rat \<Rightarrow> rat) \<Rightarrow> price_point list \<Rightarrow> nat \<Rightarrow> rat \<Rightarrow> exit_rules \<Rightarrow> rat \<Rightarrow> nat \<Rightarrow> exit_reason option" where
  "fires fl points entryIdx entryPrice rules entryTimeMs i =
     exit_at fl entryPrice rules (fl (entryTimeMs + fl (xr_holdMinutes rules * 60000))) (peak_to points entryIdx i) (points ! i)"

lemma find_map_pred: "find P (map f xs) = map_option f (find (\<lambda>x. P (f x)) xs)"
  by (induction xs) simp_all

definition step_at :: "(rat \<Rightarrow> rat) \<Rightarrow> rat \<Rightarrow> exit_rules \<Rightarrow> rat \<Rightarrow> rat \<Rightarrow> price_point list \<Rightarrow> nat \<Rightarrow> exit_reason option" where
  "step_at fl ep rules mx pk ps i = exit_at fl ep rules mx (Max (insert pk (pp_price ` set (take (Suc i) ps)))) (ps ! i)"

lemma step_at_0: "step_at fl ep rules mx pk (p # ps) 0 = exit_at fl ep rules mx (if pp_ts p > mx then pk else max pk (pp_price p)) p"
  by (simp add: step_at_def exit_at_def max.commute)

lemma step_at_Suc: "step_at fl ep rules mx pk (p # ps) (Suc i) = step_at fl ep rules mx (max pk (pp_price p)) ps i"
proof -
  have "Max (insert pk (pp_price ` set (take (Suc (Suc i)) (p # ps)))) = Max (insert (max pk (pp_price p)) (pp_price ` set (take (Suc i) ps)))"
    by (cases "take (Suc i) ps = []") (simp_all add: max.assoc)
  then show ?thesis by (simp add: step_at_def)
qed

lemma walk_points_find:
  "walk_points fl ep rules mx pk ps =
   map_option (\<lambda>i. (ps ! i, the (step_at fl ep rules mx pk ps i))) (find (\<lambda>i. step_at fl ep rules mx pk ps i \<noteq> None) [0..<length ps])"
proof (induction ps arbitrary: pk)
  case (Cons p ps)
  have u: "[0..<length (p # ps)] = 0 # map Suc [0..<length ps]" by (simp add: map_Suc_upt upt_conv_Cons del: upt_Suc)
  show ?case
  proof (cases "step_at fl ep rules mx pk (p # ps) 0")
    case None
    then have "(if pp_ts p > mx then pk else max pk (pp_price p)) = max pk (pp_price p)"
      by (auto simp: step_at_0 exit_at_def split: if_splits)
    then have "walk_points fl ep rules mx pk (p # ps) = walk_points fl ep rules mx (max pk (pp_price p)) ps"
      using None by (simp add: step_at_0)
    then show ?thesis using None unfolding u Cons.IH
      by (simp add: find_map_pred step_at_Suc option.map_comp comp_def del: walk_points.simps)
  next
    case (Some reason)
    then show ?thesis unfolding u by (simp add: step_at_0)
  qed
qed simp

text \<open>
  A trade exits at the first point from its entry at which a rule fires: the time limit, the hard stop, the take-profit or the
  trailing stop under the highest price since entry, in this order when several fire at once; at the last point if none ever
  fires.\<close>

theorem walk_exits_first:
  assumes "entryIdx < length points"
  shows "walkForwardExit fl points entryIdx entryPrice rules entryTimeMs exitSlippage = Some
    (case find (\<lambda>i. fires fl points entryIdx entryPrice rules entryTimeMs i \<noteq> None) [entryIdx..<length points] of
       Some i \<Rightarrow> makeTrade fl entryPrice (pp_price (points ! i)) exitSlippage entryTimeMs (pp_ts (points ! i))
                  (the (fires fl points entryIdx entryPrice rules entryTimeMs i))
     | None \<Rightarrow> makeTrade fl entryPrice (pp_price (last points)) exitSlippage entryTimeMs (pp_ts (last points)) EndOfData)"
proof -
  let ?ps = "drop entryIdx points" and ?mx = "fl (entryTimeMs + fl (xr_holdMinutes rules * 60000))" and ?pk = "pp_price (points ! entryIdx)"
  let ?fires = "fires fl points entryIdx entryPrice rules entryTimeMs"
  have ps: "?ps \<noteq> []" "?ps ! 0 = points ! entryIdx" "points \<noteq> []" using assms by auto
  have "insert ?pk (pp_price ` set (take (Suc i) ?ps)) = pp_price ` set (take (Suc i) ?ps)" for i
    using ps by (cases ?ps) auto
  then have e: "step_at fl entryPrice rules ?mx ?pk ?ps i = ?fires (i + entryIdx)" for i
    using assms by (simp add: step_at_def fires_def peak_to_def add.commute)
  have u: "[entryIdx..<length points] = map (\<lambda>i. i + entryIdx) [0..<length ?ps]"
    using assms by (simp add: map_add_upt)
  have "walk_points fl entryPrice rules ?mx ?pk ?ps =
      map_option (\<lambda>i. (points ! i, the (?fires i))) (find (\<lambda>i. ?fires i \<noteq> None) [entryIdx..<length points])"
    unfolding walk_points_find e u find_map_pred
    by (cases "find (\<lambda>i. ?fires (i + entryIdx) \<noteq> None) [0..<length ?ps]") (simp_all only: option.case option.map, use assms in \<open>simp_all add: add.commute\<close>)
  then show ?thesis using assms ps
    by (cases "find (\<lambda>i. ?fires i \<noteq> None) [entryIdx..<length points]") (simp_all only: walkForwardExit_def Let_def option.case option.map if_True if_False prod.case)
qed

definition sample_rules :: exit_rules where
  "sample_rules = \<lparr>xr_holdMinutes = 60, xr_hardStopPct = 50, xr_takeProfitMultiple = 3, xr_trailingStopPct = 30, xr_trailingActivationMultiple = 2\<rparr>"

theorem walk_exits_first_witness:
  "walkForwardExit (\<lambda>x. x) [\<lparr>pp_ts = 0, pp_price = 10\<rparr>, \<lparr>pp_ts = 1, pp_price = 25\<rparr>, \<lparr>pp_ts = 2, pp_price = 15\<rparr>] 0 10 sample_rules 0 0 =
   Some (makeTrade (\<lambda>x. x) 10 15 0 0 2 TrailingStop)"
  by (subst walk_exits_first) (simp_all add: fires_def exit_at_def peak_to_def sample_rules_def upt_rec)

text \<open>
  A price below the hard stop that is first observed after the time limit exits as \<open>time\<close>: the limit is tested before the
  stop, which the header of the file ranks first.\<close>

theorem late_stop_is_time:
  "map_option bt_exitReason
     (walkForwardExit (\<lambda>x. x) [\<lparr>pp_ts = 0, pp_price = 10\<rparr>, \<lparr>pp_ts = 3600001, pp_price = 1\<rparr>] 0 10 sample_rules 0 0) = Some TimeLimit"
  by (simp add: walkForwardExit_def exit_at_def sample_rules_def makeTrade_def)

section \<open>The ledger\<close>

text \<open>What the open positions pay when they close, and what a trade earns.\<close>

definition exit_value :: "open_position list \<Rightarrow> rat" where
  "exit_value ps = (\<Sum>p\<leftarrow>ps. op_amount p * op_roi p)"

definition earned :: "replay_config \<Rightarrow> backtest_trade list \<Rightarrow> rat" where
  "earned config ts = (\<Sum>t\<leftarrow>ts. rc_tradeSize config * (bt_roi t - 1))"

definition cost :: "open_position list \<Rightarrow> rat" where
  "cost ps = (\<Sum>p\<leftarrow>ps. op_amount p)"

lemma fold_amounts: "fold (\<lambda>p sum. sum + op_amount p) ps x = x + cost ps"
  by (induction ps arbitrary: x) (simp_all add: cost_def)

lemma equity_exact: "equity (\<lambda>x. x) r = rp_cash r + cost (rp_open r)"
  by (simp add: equity_def fold_amounts)

lemma sum_sorted: "exit_value (sort_key f ps) = exit_value ps" "cost (sort_key f ps) = cost ps"
proof -
  have i: "exit_value (insort_key f p ps) = exit_value (p # ps)" "cost (insort_key f p ps) = cost (p # ps)" for p ps
    by (induction ps) (simp_all add: exit_value_def cost_def)
  show "exit_value (sort_key f ps) = exit_value ps" by (induction ps) (simp_all add: i(1), simp_all add: exit_value_def)
  show "cost (sort_key f ps) = cost ps" by (induction ps) (simp_all add: i(2), simp_all add: cost_def)
qed

text \<open>A portfolio in exact arithmetic: no debt, the drawdown a fraction that covers the present loss.\<close>

definition replay_ok :: "replay_config \<Rightarrow> replay \<Rightarrow> bool" where
  "replay_ok config r \<longleftrightarrow>
     0 \<le> rp_cash r \<and> (\<forall>p\<in>set (rp_open r). op_amount p = rc_tradeSize config \<and> 0 \<le> op_roi p) \<and>
     (\<forall>n. rc_maxConcurrent config = Some n \<longrightarrow> length (rp_open r) \<le> n) \<and>
     rc_startCapital config \<le> rp_peakEquity r \<and> 0 \<le> rp_maxDrawdown r \<and> rp_maxDrawdown r \<le> 1"

definition config_ok :: "replay_config \<Rightarrow> bool" where
  "config_ok config \<longleftrightarrow> 0 < rc_startCapital config \<and> 0 \<le> rc_tradeSize config"

definition marked :: "replay \<Rightarrow> bool" where
  "marked r \<longleftrightarrow> equity (\<lambda>x. x) r \<le> rp_peakEquity r \<and> (rp_peakEquity r - equity (\<lambda>x. x) r) / rp_peakEquity r \<le> rp_maxDrawdown r"

lemma cost_nonneg: "config_ok config \<Longrightarrow> \<forall>p\<in>set ps. op_amount p = rc_tradeSize config \<Longrightarrow> 0 \<le> cost ps"
  by (induction ps) (simp_all add: cost_def config_ok_def)

lemma mark_fields [simp]: "rp_cash (mark fl r) = rp_cash r" "rp_open (mark fl r) = rp_open r"
  "rp_tradesTaken (mark fl r) = rp_tradesTaken r" "rp_tradesSkipped (mark fl r) = rp_tradesSkipped r"
  by (simp_all add: mark_def Let_def)

lemma mark_ok:
  assumes "config_ok config" and "replay_ok config r"
  shows "replay_ok config (mark (\<lambda>x. x) r) \<and> marked (mark (\<lambda>x. x) r)"
proof -
  let ?e = "equity (\<lambda>x. x) r" and ?p = "max (rp_peakEquity r) (equity (\<lambda>x. x) r)"
  have e: "0 \<le> ?e" using assms cost_nonneg by (simp add: equity_exact replay_ok_def)
  have p: "0 < ?p" "?e \<le> ?p" using assms by (auto simp: config_ok_def replay_ok_def)
  have d: "0 \<le> (?p - ?e) / ?p" "(?p - ?e) / ?p \<le> 1" using e p by (simp_all add: divide_simps)
  have q: "equity (\<lambda>x. x) (mark (\<lambda>x. x) r) = ?e" by (simp add: equity_exact)
  have m: "rp_peakEquity (mark (\<lambda>x. x) r) = ?p" "rp_maxDrawdown (mark (\<lambda>x. x) r) = max (rp_maxDrawdown r) ((?p - ?e) / ?p)"
    using p by (simp_all add: mark_def Let_def)
  have "0 \<le> max (rp_maxDrawdown r) ((?p - ?e) / ?p)" "rc_startCapital config \<le> ?p" using assms(2) by (simp_all add: replay_ok_def le_max_iff_disj)
  then show ?thesis using assms(2) p(2) d(2) unfolding replay_ok_def marked_def q m mark_fields by simp
qed

definition ledger :: "replay_config \<Rightarrow> backtest_trade list \<Rightarrow> replay \<Rightarrow> bool" where
  "ledger config ts r \<longleftrightarrow> rp_cash r + exit_value (rp_open r) = rc_startCapital config + earned config ts"

lemma due_None [simp]: "due None t"
  by (simp add: due_def)

lemma close_due_ok:
  assumes "config_ok config" and "replay_ok config (r\<lparr>rp_open := ps\<rparr>)"
  shows "replay_ok config (close_due (\<lambda>x. x) ts ps r) \<and>
    rp_cash (close_due (\<lambda>x. x) ts ps r) + exit_value (rp_open (close_due (\<lambda>x. x) ts ps r)) = rp_cash r + exit_value ps \<and>
    rp_tradesTaken (close_due (\<lambda>x. x) ts ps r) = rp_tradesTaken r \<and> rp_tradesSkipped (close_due (\<lambda>x. x) ts ps r) = rp_tradesSkipped r \<and>
    (ts = None \<longrightarrow> rp_open (close_due (\<lambda>x. x) ts ps r) = [])"
  using assms(2)
proof (induction ps arbitrary: r)
  case Nil
  then show ?case by (simp add: exit_value_def)
next
  case (Cons p ps)
  show ?case
  proof (cases "due ts (op_exitTimeMs p)")
    case False
    then show ?thesis using Cons.prems by (auto simp: due_def)
  next
    case True
    let ?r = "r\<lparr>rp_open := ps, rp_cash := rp_cash r + op_amount p * op_roi p\<rparr>"
    have "0 \<le> op_amount p * op_roi p" using Cons.prems assms(1) by (simp add: replay_ok_def config_ok_def)
    then have "replay_ok config ?r" using Cons.prems by (auto simp: replay_ok_def split: option.splits)
    from mark_ok[OF assms(1) this] have m: "replay_ok config (mark (\<lambda>x. x) ?r)" by simp
    have "(mark (\<lambda>x. x) ?r)\<lparr>rp_open := ps\<rparr> = mark (\<lambda>x. x) ?r" by (rule replay.equality) simp_all
    with m have "replay_ok config ((mark (\<lambda>x. x) ?r)\<lparr>rp_open := ps\<rparr>)" by (simp only:)
    from Cons.IH[OF this] True show ?thesis by (simp add: close_position_def exit_value_def)
  qed
qed

lemma closeUntil_ok:
  assumes "config_ok config" and "replay_ok config r"
  shows "replay_ok config (closeUntil (\<lambda>x. x) ts r)" and "ledger config tr r \<Longrightarrow> ledger config tr (closeUntil (\<lambda>x. x) ts r)"
    and "rp_tradesTaken (closeUntil (\<lambda>x. x) ts r) = rp_tradesTaken r" and "rp_tradesSkipped (closeUntil (\<lambda>x. x) ts r) = rp_tradesSkipped r"
    and "rp_open (closeUntil (\<lambda>x. x) None r) = []"
proof -
  have "replay_ok config (r\<lparr>rp_open := sort_key op_exitTimeMs (rp_open r)\<rparr>)" using assms(2) by (simp add: replay_ok_def split: option.splits)
  note c = close_due_ok[OF assms(1) this]
  show "replay_ok config (closeUntil (\<lambda>x. x) ts r)" "rp_tradesTaken (closeUntil (\<lambda>x. x) ts r) = rp_tradesTaken r"
    "rp_tradesSkipped (closeUntil (\<lambda>x. x) ts r) = rp_tradesSkipped r" "rp_open (closeUntil (\<lambda>x. x) None r) = []"
    using c[of ts] c[of None] by (simp_all add: closeUntil_def)
  show "ledger config tr (closeUntil (\<lambda>x. x) ts r)" if "ledger config tr r"
    using that c[of ts] by (simp add: closeUntil_def ledger_def sum_sorted)
qed

lemma replay_trade_ok:
  assumes "config_ok config" and "replay_ok config r" and "0 \<le> bt_roi t" and "ledger config ts r"
  defines "r' \<equiv> replay_trade (\<lambda>x. x) config t r"
  shows "replay_ok config r' \<and>
    (rp_tradesTaken r' = rp_tradesTaken r + 1 \<and> rp_tradesSkipped r' = rp_tradesSkipped r \<and> ledger config (ts @ [t]) r' \<or>
     rp_tradesTaken r' = rp_tradesTaken r \<and> rp_tradesSkipped r' = rp_tradesSkipped r + 1 \<and> ledger config ts r')"
proof -
  let ?c = "closeUntil (\<lambda>x. x) (Some (tradeEntryTime t)) r"
  note c = closeUntil_ok(1-4)[OF assms(1,2), where ts = "Some (tradeEntryTime t)"]
  note l = c(2)[OF assms(4)]
  show ?thesis
  proof (cases "at_limit config ?c \<or> rp_cash ?c < rc_tradeSize config")
    case True
    then have "r' = ?c\<lparr>rp_tradesSkipped := rp_tradesSkipped ?c + 1\<rparr>" by (simp add: r'_def replay_trade_def Let_def)
    then show ?thesis using c(1,3,4) l by (simp add: replay_ok_def ledger_def)
  next
    case False
    let ?p = "\<lparr>op_exitTimeMs = tradeExitTime (\<lambda>x. x) t (tradeEntryTime t), op_amount = rc_tradeSize config, op_roi = bt_roi t\<rparr>"
    let ?r = "?c\<lparr>rp_cash := rp_cash ?c - rc_tradeSize config, rp_open := rp_open ?c @ [?p], rp_tradesTaken := rp_tradesTaken ?c + 1\<rparr>"
    have r': "r' = mark (\<lambda>x. x) ?r" using False by (simp add: r'_def replay_trade_def Let_def)
    have "replay_ok config ?r" using False c(1) assms(3) by (auto simp: replay_ok_def at_limit_def split: option.splits)
    from mark_ok[OF assms(1) this] have "replay_ok config r'" by (simp add: r')
    moreover have "ledger config (ts @ [t]) r'" using l by (simp add: r' ledger_def exit_value_def earned_def algebra_simps)
    ultimately show ?thesis using c(3,4) by (simp add: r')
  qed
qed

lemma fold_replay_ok:
  assumes "config_ok config" and "\<forall>t\<in>set trades. 0 \<le> bt_roi t"
  shows "\<exists>ts. subseq ts trades \<and> (let r = fold (replay_trade (\<lambda>x. x) config) trades (new_replay config) in
    replay_ok config r \<and> ledger config ts r \<and> rp_tradesTaken r = length ts \<and> rp_tradesTaken r + rp_tradesSkipped r = length trades)"
  using assms(2)
proof (induction trades rule: rev_induct)
  case Nil
  have "replay_ok config (new_replay config)" using assms(1) by (simp add: replay_ok_def new_replay_def config_ok_def split: option.splits)
  then show ?case by (simp add: ledger_def new_replay_def exit_value_def earned_def)
next
  case (snoc t trades)
  let ?r = "fold (replay_trade (\<lambda>x. x) config) trades (new_replay config)"
  obtain ts where ts: "subseq ts trades" "replay_ok config ?r" "ledger config ts ?r" "rp_tradesTaken ?r = length ts"
    "rp_tradesTaken ?r + rp_tradesSkipped ?r = length trades" using snoc by (auto simp: Let_def)
  have "0 \<le> bt_roi t" using snoc.prems by simp
  from replay_trade_ok[OF assms(1) ts(2) this ts(3)] show ?case
  proof (elim conjE disjE, goal_cases)
    case 1
    moreover have "subseq (ts @ [t]) (trades @ [t])" using ts(1) by simp
    ultimately show ?case using ts by (intro exI[of _ "ts @ [t]"]) (simp add: Let_def)
  next
    case 2
    moreover have "subseq ts (trades @ [t])" using ts(1) by (meson list_emb_append2 subseq_order.order_trans subseq_rev_drop_many)
    ultimately show ?case using ts by (intro exI[of _ ts]) (simp add: Let_def)
  qed
qed

text \<open>
  C38. In exact arithmetic a replay ends with the start capital and what the trades it took earned, each at the fixed size; every
  trade is taken or skipped; no position is left open. The drawdown it reports is a fraction between 0 and 1 and at least the final
  fall from the peak, and the peak is at least the start and the final capital.\<close>

theorem replay_accounts:
  assumes "0 < rc_startCapital config" and "0 \<le> rc_tradeSize config" and "\<forall>t\<in>set trades. 0 \<le> bt_roi t"
  shows "\<exists>taken. subseq taken (sort_key tradeEntryTime trades) \<and> (let res = replayPortfolio (\<lambda>x. x) trades config in
    rr_finalEquity res = rc_startCapital config + (\<Sum>t\<leftarrow>taken. rc_tradeSize config * (bt_roi t - 1)) \<and> 0 \<le> rr_finalEquity res \<and>
    rr_tradesTaken res = length taken \<and> rr_tradesTaken res + rr_tradesSkipped res = length trades \<and>
    0 \<le> rr_maxDrawdown res \<and> rr_maxDrawdown res \<le> 1 \<and> rc_startCapital config \<le> rr_peakEquity res \<and> rr_finalEquity res \<le> rr_peakEquity res \<and>
    (rr_peakEquity res - rr_finalEquity res) / rr_peakEquity res \<le> rr_maxDrawdown res)"
proof -
  let ?r = "fold (replay_trade (\<lambda>x. x) config) (sort_key tradeEntryTime trades) (new_replay config)"
  let ?c = "closeUntil (\<lambda>x. x) None ?r"
  have ok: "config_ok config" using assms by (simp add: config_ok_def)
  obtain ts where ts: "subseq ts (sort_key tradeEntryTime trades)" "replay_ok config ?r" "ledger config ts ?r" "rp_tradesTaken ?r = length ts"
    "rp_tradesTaken ?r + rp_tradesSkipped ?r = length trades"
    using fold_replay_ok[OF ok, of "sort_key tradeEntryTime trades"] assms(3) by (auto simp: Let_def)
  note c = closeUntil_ok(1-4)[OF ok ts(2), where ts = None] closeUntil_ok(5)[OF ok ts(2)]
  note m = mark_ok[OF ok c(1)]
  have e: "equity (\<lambda>x. x) (mark (\<lambda>x. x) ?c) = rc_startCapital config + earned config ts"
    using c(2)[OF ts(3)] c(5) by (simp add: equity_exact ledger_def exit_value_def cost_def)
  have "0 \<le> equity (\<lambda>x. x) (mark (\<lambda>x. x) ?c)" using m c(5) by (simp add: equity_exact cost_def replay_ok_def)
  then show ?thesis using ts m c(3,4) e
    by (intro exI[of _ ts]) (simp add: replayPortfolio_def replay_all_def Let_def replay_ok_def marked_def earned_def)
qed

definition sample_trades :: "backtest_trade list" where
  "sample_trades =
     [\<lparr>bt_entryPrice = 1, bt_exitPrice = 2, bt_roi = 2, bt_holdMinutes = 10, bt_exitReason = TakeProfit, bt_entryTimeMs = Some 5, bt_exitTimeMs = Some 50\<rparr>,
      \<lparr>bt_entryPrice = 1, bt_exitPrice = 1, bt_roi = 1 / 2, bt_holdMinutes = 10, bt_exitReason = HardStop, bt_entryTimeMs = Some 0, bt_exitTimeMs = Some 10\<rparr>]"

theorem replay_accounts_witness:
  "\<exists>taken. subseq taken (sort_key tradeEntryTime sample_trades) \<and> (let res = replayPortfolio (\<lambda>x. x) sample_trades \<lparr>rc_startCapital = 1500, rc_tradeSize = 100, rc_maxConcurrent = Some 1\<rparr> in
     rr_finalEquity res = 1500 + (\<Sum>t\<leftarrow>taken. 100 * (bt_roi t - 1)) \<and> rr_finalEquity res = 1450 \<and> rr_maxDrawdown res \<le> 1 \<and> length taken = 1)"
proof -
  have v: "rr_finalEquity (replayPortfolio (\<lambda>x. x) sample_trades \<lparr>rc_startCapital = 1500, rc_tradeSize = 100, rc_maxConcurrent = Some 1\<rparr>) = 1450 \<and>
      rr_tradesTaken (replayPortfolio (\<lambda>x. x) sample_trades \<lparr>rc_startCapital = 1500, rc_tradeSize = 100, rc_maxConcurrent = Some 1\<rparr>) = 1"
    by (simp add: replayPortfolio_def replay_all_def replay_trade_def closeUntil_def close_position_def mark_def equity_def at_limit_def due_def
        tradeEntryTime_def tradeExitTime_def new_replay_def sample_trades_def Let_def)
  have "\<forall>t\<in>set sample_trades. 0 \<le> bt_roi t" by (simp add: sample_trades_def)
  from replay_accounts[OF _ _ this, of "\<lparr>rc_startCapital = 1500, rc_tradeSize = 100, rc_maxConcurrent = Some 1\<rparr>"] v
  show ?thesis by (auto simp: Let_def)
qed

end
