(* ===== verification/MonteCarlo.thy ===== *)
theory MonteCarlo
  imports Replay "HOL-Library.Word" "HOL-Library.Multiset"
begin

text \<open>
  \<open>packages/solana-trading/src/backtester/monte-carlo.ts\<close>. The generator's state is the 32-bit integer the code keeps (products
  below \<open>2 ^ 53\<close> are exact); an index one past the end is the \<open>undefined\<close> of the code: a slot whose time is
  not a number (\<open>None\<close>), or the \<open>TypeError\<close> that ends the run (\<open>None\<close>).
\<close>

section \<open>The generator\<close>

type_synonym rng_state = "32 word"

definition rng :: "(rat \<Rightarrow> rat) \<Rightarrow> rng_state \<Rightarrow> rat \<times> rng_state" where
  "rng fl s = (let s = s * 1664525 + 1013904223 in (fl (of_nat (unat s) / 4294967295), s))"

definition pick :: "(rat \<Rightarrow> rat) \<Rightarrow> nat \<Rightarrow> rng_state \<Rightarrow> nat \<times> rng_state" where
  "pick fl n s = (let (x, s) = rng fl s in (nat \<lfloor>fl (x * of_nat n)\<rfloor>, s))"

section \<open>One run\<close>

record mc_config =
  mc_runs :: nat
  mc_days :: nat
  mc_startCapital :: rat
  mc_tradeSize :: rat
  mc_maxConcurrent :: nat
  mc_seed :: int

record slot =
  sl_busyUntil :: "rat option"
  sl_amount :: rat
  sl_roi :: "rat option"

record run =
  ru_bankroll :: rat
  ru_slots :: "slot list"
  ru_peakEquity :: rat
  ru_maxDrawdown :: rat
  ru_taken :: nat
  ru_skipped :: nat

definition free_slot :: slot where
  "free_slot = \<lparr>sl_busyUntil = Some 0, sl_amount = 0, sl_roi = Some 1\<rparr>"

definition mark_run :: "(rat \<Rightarrow> rat) \<Rightarrow> run \<Rightarrow> run" where
  "mark_run fl r =
     (let openCost = fold (\<lambda>s sum. fl (sum + sl_amount s)) (ru_slots r) 0;
          equity = fl (ru_bankroll r + openCost);
          peak = max (ru_peakEquity r) equity
      in r\<lparr>ru_peakEquity := peak, ru_maxDrawdown := max (ru_maxDrawdown r) (fl (fl (peak - equity) / peak))\<rparr>)"

definition pays :: "rat option \<Rightarrow> slot \<Rightarrow> bool" where
  "pays t s \<longleftrightarrow> (case sl_busyUntil s of None \<Rightarrow> False | Some b \<Rightarrow> b > 0 \<and> (case t of None \<Rightarrow> True | Some t \<Rightarrow> b \<le> t))"

definition payout :: "(rat \<Rightarrow> rat) \<Rightarrow> slot \<Rightarrow> rat" where
  "payout fl s = (case sl_roi s of None \<Rightarrow> 0 | Some roi \<Rightarrow> fl (sl_amount s * roi))"

definition close_completed :: "(rat \<Rightarrow> rat) \<Rightarrow> rat \<Rightarrow> nat \<Rightarrow> run \<Rightarrow> run" where
  "close_completed fl t i r =
     (let s = ru_slots r ! i in
      if pays (Some t) s
      then mark_run fl (r\<lparr>ru_bankroll := fl (ru_bankroll r + payout fl s), ru_slots := (ru_slots r)[i := free_slot]\<rparr>)
      else r)"

definition close_remaining :: "(rat \<Rightarrow> rat) \<Rightarrow> nat \<Rightarrow> run \<Rightarrow> run" where
  "close_remaining fl i r =
     (let s = ru_slots r ! i in
      if pays None s
      then mark_run fl (r\<lparr>ru_bankroll := fl (ru_bankroll r + payout fl s), ru_slots := (ru_slots r)[i := s\<lparr>sl_amount := 0\<rparr>]\<rparr>)
      else r)"

definition free_index :: "slot list \<Rightarrow> nat option" where
  "free_index slots = find (\<lambda>i. sl_busyUntil (slots ! i) = Some 0) [0..<length slots]"

definition taken_slot :: "(rat \<Rightarrow> rat) \<Rightarrow> rat list \<Rightarrow> rat list \<Rightarrow> rat \<Rightarrow> rat \<Rightarrow> nat \<Rightarrow> slot" where
  "taken_slot fl roiPool holdHoursPool t amount tradeIdx =
     \<lparr>sl_busyUntil = (if tradeIdx < length holdHoursPool then Some (fl (t + holdHoursPool ! tradeIdx)) else None), sl_amount = amount,
      sl_roi = (if tradeIdx < length roiPool then Some (roiPool ! tradeIdx) else None)\<rparr>"

definition alert :: "(rat \<Rightarrow> rat) \<Rightarrow> rat list \<Rightarrow> rat list \<Rightarrow> mc_config \<Rightarrow> rat \<Rightarrow> run \<times> rng_state \<Rightarrow> run \<times> rng_state" where
  "alert fl roiPool holdHoursPool config t rs =
     (let (r, s) = rs; r = fold (close_completed fl t) [0..<length (ru_slots r)] r in
      case free_index (ru_slots r) of
        None \<Rightarrow> (r\<lparr>ru_skipped := ru_skipped r + 1\<rparr>, s)
      | Some idx \<Rightarrow>
          if ru_bankroll r < mc_tradeSize config then (r\<lparr>ru_skipped := ru_skipped r + 1\<rparr>, s)
          else let (tradeIdx, s) = pick fl (length roiPool) s in
            (mark_run fl (r\<lparr>ru_bankroll := fl (ru_bankroll r - mc_tradeSize config),
                            ru_slots := (ru_slots r)[idx := taken_slot fl roiPool holdHoursPool t (mc_tradeSize config) tradeIdx],
                            ru_taken := ru_taken r + 1\<rparr>), s))"

fun draw_times :: "(rat \<Rightarrow> rat) \<Rightarrow> nat \<Rightarrow> nat \<Rightarrow> rng_state \<Rightarrow> rat list \<times> rng_state" where
  "draw_times fl days 0 s = ([], s)"
| "draw_times fl days (Suc n) s =
     (let (x, s) = rng fl s; (ts, s) = draw_times fl days n s in (fl (fl (x * of_nat days) * 24) # ts, s))"

definition n_alerts :: "(rat \<Rightarrow> rat) \<Rightarrow> rat \<Rightarrow> mc_config \<Rightarrow> nat" where
  "n_alerts fl alertsPerDay config = nat \<lfloor>fl (alertsPerDay * of_nat (mc_days config)) + 1 / 2\<rfloor>"

definition new_run :: "mc_config \<Rightarrow> run" where
  "new_run config =
     \<lparr>ru_bankroll = mc_startCapital config, ru_slots = replicate (mc_maxConcurrent config) free_slot, ru_peakEquity = mc_startCapital config,
      ru_maxDrawdown = 0, ru_taken = 0, ru_skipped = 0\<rparr>"

definition simulateOneRun :: "(rat \<Rightarrow> rat) \<Rightarrow> rat list \<Rightarrow> rat list \<Rightarrow> rat \<Rightarrow> mc_config \<Rightarrow> rng_state \<Rightarrow> run \<times> rng_state" where
  "simulateOneRun fl roiPool holdHoursPool alertsPerDay config s =
     (let (times, s) = draw_times fl (mc_days config) (n_alerts fl alertsPerDay config) s;
          (r, s) = fold (alert fl roiPool holdHoursPool config) (sort_key id times) (new_run config, s)
      in (fold (close_remaining fl) [0..<length (ru_slots r)] r, s))"

section \<open>The distribution\<close>

record mc_result =
  mr_medianFinal :: rat
  mr_medianReturn :: rat
  mr_p10 :: rat
  mr_p25 :: rat
  mr_p75 :: rat
  mr_p90 :: rat
  mr_bustRate :: rat
  mr_avgTradesTaken :: rat
  mr_avgTradesSkipped :: "rat option"
  mr_medianMaxDrawdown :: "rat option"
  mr_p90MaxDrawdown :: "rat option"

definition percentile :: "(rat \<Rightarrow> rat) \<Rightarrow> rat list \<Rightarrow> rat \<Rightarrow> rat" where
  "percentile fl xs pct = xs ! nat \<lfloor>fl (fl (pct / 100) * of_nat (length xs - 1))\<rfloor>"

text \<open>The end of both simulations; without a run the percentiles are \<open>undefined\<close>.\<close>

datatype mc_failure = UndefinedBlock | UndefinedPercentile

definition summarize :: "(rat \<Rightarrow> rat) \<Rightarrow> mc_config \<Rightarrow> rat list \<Rightarrow> rat list \<Rightarrow> nat \<Rightarrow> nat \<Rightarrow> mc_failure + mc_result" where
  "summarize fl config finals drawdowns totalTrades totalSkipped =
     (let finals = sort_key id finals; drawdowns = sort_key id drawdowns; p = percentile fl finals; dd = percentile fl drawdowns;
          bust = length (filter (\<lambda>v. v < fl (mc_startCapital config * fl (33 / 100))) finals); runs = of_nat (mc_runs config)
      in if finals = [] then Inl UndefinedPercentile
         else Inr \<lparr>mr_medianFinal = p 50, mr_medianReturn = fl (fl (fl (p 50 / mc_startCapital config) - 1) * 100),
           mr_p10 = p 10, mr_p25 = p 25, mr_p75 = p 75, mr_p90 = p 90, mr_bustRate = fl (fl (of_nat bust / runs) * 100),
           mr_avgTradesTaken = fl (of_nat totalTrades / runs), mr_avgTradesSkipped = Some (fl (of_nat totalSkipped / runs)),
           mr_medianMaxDrawdown = Some (dd 50), mr_p90MaxDrawdown = Some (dd 90)\<rparr>)"

fun runs_from :: "(rng_state \<Rightarrow> run \<times> rng_state) \<Rightarrow> nat \<Rightarrow> rng_state \<Rightarrow> run list" where
  "runs_from one 0 s = []"
| "runs_from one (Suc n) s = (let (r, s) = one s in r # runs_from one n s)"

definition runMonteCarlo :: "(rat \<Rightarrow> rat) \<Rightarrow> rat list \<Rightarrow> rat list \<Rightarrow> rat \<Rightarrow> mc_config \<Rightarrow> mc_failure + mc_result" where
  "runMonteCarlo fl roiPool holdHoursPool alertsPerDay config =
     (if roiPool = []
      then Inr \<lparr>mr_medianFinal = mc_startCapital config, mr_medianReturn = 0, mr_p10 = mc_startCapital config, mr_p25 = mc_startCapital config,
        mr_p75 = mc_startCapital config, mr_p90 = mc_startCapital config, mr_bustRate = 0, mr_avgTradesTaken = 0, mr_avgTradesSkipped = None,
        mr_medianMaxDrawdown = None, mr_p90MaxDrawdown = None\<rparr>
      else let rs = runs_from (simulateOneRun fl roiPool holdHoursPool alertsPerDay config) (mc_runs config) (word_of_int (mc_seed config)) in
        summarize fl config (map ru_bankroll rs) (map ru_maxDrawdown rs) (sum_list (map ru_taken rs)) (sum_list (map ru_skipped rs)))"

section \<open>The bootstrap of days\<close>

record block =
  bl_dayStartMs :: rat
  bl_trades :: "backtest_trade list"

definition day_ms :: rat where
  "day_ms = 86400000"

definition day_start :: "(rat \<Rightarrow> rat) \<Rightarrow> backtest_trade \<Rightarrow> rat" where
  "day_start fl t = fl (of_int \<lfloor>fl (tradeEntryTime t / day_ms)\<rfloor> * day_ms)"

fun put_block :: "rat \<Rightarrow> backtest_trade \<Rightarrow> block list \<Rightarrow> block list" where
  "put_block d t [] = [\<lparr>bl_dayStartMs = d, bl_trades = [t]\<rparr>]"
| "put_block d t (b # bs) = (if bl_dayStartMs b = d then b\<lparr>bl_trades := bl_trades b @ [t]\<rparr> # bs else b # put_block d t bs)"

definition buildDailyBlocks :: "(rat \<Rightarrow> rat) \<Rightarrow> backtest_trade list \<Rightarrow> block list" where
  "buildDailyBlocks fl trades =
     map (\<lambda>b. b\<lparr>bl_trades := sort_key tradeEntryTime (bl_trades b)\<rparr>)
       (sort_key bl_dayStartMs (fold (\<lambda>t. put_block (day_start fl t) t) trades []))"

definition resampled :: "(rat \<Rightarrow> rat) \<Rightarrow> nat \<Rightarrow> rat \<Rightarrow> backtest_trade \<Rightarrow> backtest_trade" where
  "resampled fl day dayStartMs t =
     (let entryOffset = fl (tradeEntryTime t - dayStartMs); entryTimeMs = fl (fl (of_nat day * day_ms) + entryOffset);
          durationMs = (case bt_exitTimeMs t of Some x \<Rightarrow> max 0 (fl (x - tradeEntryTime t)) | None \<Rightarrow> fl (bt_holdMinutes t * 60000))
      in t\<lparr>bt_entryTimeMs := Some entryTimeMs, bt_exitTimeMs := Some (fl (entryTimeMs + durationMs))\<rparr>)"

fun sample_days :: "(rat \<Rightarrow> rat) \<Rightarrow> block list \<Rightarrow> nat list \<Rightarrow> rng_state \<Rightarrow> mc_failure + (backtest_trade list \<times> rng_state)" where
  "sample_days fl blocks [] s = Inr ([], s)"
| "sample_days fl blocks (day # days) s =
     (let (i, s) = pick fl (length blocks) s in
      if i < length blocks
      then rbind (sample_days fl blocks days s) (\<lambda>(ts, s). Inr (map (resampled fl day (bl_dayStartMs (blocks ! i))) (bl_trades (blocks ! i)) @ ts, s))
      else Inl UndefinedBlock)"

fun historical_runs :: "(rat \<Rightarrow> rat) \<Rightarrow> block list \<Rightarrow> mc_config \<Rightarrow> nat \<Rightarrow> rng_state \<Rightarrow> mc_failure + replay_result list" where
  "historical_runs fl blocks config 0 s = Inr []"
| "historical_runs fl blocks config (Suc n) s =
     rbind (sample_days fl blocks [0..<mc_days config] s) (\<lambda>(sampled, s).
       let r = replayPortfolio fl sampled
         \<lparr>rc_startCapital = mc_startCapital config, rc_tradeSize = mc_tradeSize config, rc_maxConcurrent = Some (mc_maxConcurrent config)\<rparr>
       in rbind (historical_runs fl blocks config n s) (\<lambda>rs. Inr (r # rs)))"

definition runHistoricalMonteCarlo :: "(rat \<Rightarrow> rat) \<Rightarrow> backtest_trade list \<Rightarrow> mc_config \<Rightarrow> mc_failure + mc_result" where
  "runHistoricalMonteCarlo fl trades config =
     (let timedTrades = filter (\<lambda>t. bt_entryTimeMs t \<noteq> None) trades in
      if timedTrades = []
      then runMonteCarlo fl (map bt_roi trades) (map (\<lambda>t. fl (bt_holdMinutes t / 60)) trades) (fl (of_nat (length trades) / of_nat (max (mc_days config) 1))) config
      else rbind (historical_runs fl (buildDailyBlocks fl timedTrades) config (mc_runs config) (word_of_int (mc_seed config))) (\<lambda>rs.
        summarize fl config (map rr_finalEquity rs) (map rr_maxDrawdown rs) (sum_list (map rr_tradesTaken rs)) (sum_list (map rr_tradesSkipped rs))))"

section \<open>Blocks\<close>

definition blocks_for :: "(rat \<Rightarrow> rat) \<Rightarrow> backtest_trade list \<Rightarrow> block list \<Rightarrow> bool" where
  "blocks_for fl trades bs \<longleftrightarrow>
     distinct (map bl_dayStartMs bs) \<and> bl_dayStartMs ` set bs = day_start fl ` set trades \<and>
     (\<forall>b\<in>set bs. bl_trades b = filter (\<lambda>t. day_start fl t = bl_dayStartMs b) trades)"

lemma put_block_days: "bl_dayStartMs ` set (put_block d t bs) = insert d (bl_dayStartMs ` set bs)"
  by (induction bs) auto

lemma put_block_distinct: "distinct (map bl_dayStartMs bs) \<Longrightarrow> distinct (map bl_dayStartMs (put_block d t bs))"
  by (induction bs) (auto simp: put_block_days)

lemma put_block_trades:
  "distinct (map bl_dayStartMs bs) \<Longrightarrow> b \<in> set (put_block d t bs) \<Longrightarrow>
   (if bl_dayStartMs b = d then bl_trades b = [t] \<and> d \<notin> bl_dayStartMs ` set bs \<or> (\<exists>b'\<in>set bs. bl_dayStartMs b' = d \<and> bl_trades b = bl_trades b' @ [t])
    else b \<in> set bs)"
  by (induction bs) (auto split: if_splits intro: image_eqI, metis image_eqI)

lemma put_block_for:
  assumes "blocks_for fl trades bs"
  shows "blocks_for fl (trades @ [t]) (put_block (day_start fl t) t bs)"
  unfolding blocks_for_def
proof (intro conjI ballI)
  show "distinct (map bl_dayStartMs (put_block (day_start fl t) t bs))" using assms by (simp add: blocks_for_def put_block_distinct)
  show "bl_dayStartMs ` set (put_block (day_start fl t) t bs) = day_start fl ` set (trades @ [t])"
    using assms by (simp add: blocks_for_def put_block_days)
  fix b
  assume "b \<in> set (put_block (day_start fl t) t bs)"
  from put_block_trades[OF _ this] assms
  have "if bl_dayStartMs b = day_start fl t
        then bl_trades b = [t] \<and> day_start fl t \<notin> bl_dayStartMs ` set bs \<or> (\<exists>b'\<in>set bs. bl_dayStartMs b' = day_start fl t \<and> bl_trades b = bl_trades b' @ [t])
        else b \<in> set bs" by (simp add: blocks_for_def)
  moreover have "filter (\<lambda>u. day_start fl u = day_start fl t) trades = []" if "day_start fl t \<notin> bl_dayStartMs ` set bs"
    using that assms by (simp add: blocks_for_def filter_empty_conv) (metis image_eqI)
  ultimately show "bl_trades b = filter (\<lambda>u. day_start fl u = bl_dayStartMs b) (trades @ [t])"
    using assms by (auto simp: blocks_for_def split: if_splits)
qed

lemma fold_put_block: "blocks_for fl trades (fold (\<lambda>t. put_block (day_start fl t) t) trades [])"
  by (induction trades rule: rev_induct) (simp_all add: put_block_for, simp add: blocks_for_def)

lemma map_sort_key: "map f (sort_key f xs) = sort_key id (map f xs)"
proof -
  have "map f (insort_key f x xs) = insort_key id (f x) (map f xs)" for x xs by (induction xs) simp_all
  then show ?thesis by (induction xs) simp_all
qed

text \<open>
  The daily blocks are the days on which a trade was entered, in order, each with all trades of its day in the order of
  their entry.\<close>

theorem daily_blocks:
  "buildDailyBlocks fl trades =
   map (\<lambda>d. \<lparr>bl_dayStartMs = d, bl_trades = sort_key tradeEntryTime (filter (\<lambda>t. day_start fl t = d) trades)\<rparr>)
     (sorted_list_of_set (day_start fl ` set trades))"
proof -
  let ?bs = "fold (\<lambda>t. put_block (day_start fl t) t) trades []"
  have b: "blocks_for fl trades ?bs" by (rule fold_put_block)
  have "map bl_dayStartMs (sort_key bl_dayStartMs ?bs) = sort_key id (map bl_dayStartMs ?bs)" by (rule map_sort_key)
  also have "\<dots> = sorted_list_of_set (set (map bl_dayStartMs ?bs))"
    using b unfolding sorted_list_of_set_sort_remdups by (simp add: blocks_for_def distinct_remdups_id id_def)
  finally have days: "map bl_dayStartMs (sort_key bl_dayStartMs ?bs) = sorted_list_of_set (day_start fl ` set trades)"
    using b by (simp add: blocks_for_def)
  have "buildDailyBlocks fl trades =
      map (\<lambda>b. \<lparr>bl_dayStartMs = bl_dayStartMs b, bl_trades = sort_key tradeEntryTime (filter (\<lambda>t. day_start fl t = bl_dayStartMs b) trades)\<rparr>)
        (sort_key bl_dayStartMs ?bs)"
    unfolding buildDailyBlocks_def using b by (intro map_cong refl) (auto simp: blocks_for_def)
  also have "\<dots> = map (\<lambda>d. \<lparr>bl_dayStartMs = d, bl_trades = sort_key tradeEntryTime (filter (\<lambda>t. day_start fl t = d) trades)\<rparr>)
      (map bl_dayStartMs (sort_key bl_dayStartMs ?bs))" by simp
  finally show ?thesis by (simp only: days)
qed

lemma length_blocks: "length (buildDailyBlocks fl trades) \<le> length trades"
proof -
  have "length bs' \<le> length bs + length trades" if "bs' = fold (\<lambda>t. put_block (day_start fl t) t) trades bs" for bs bs'
    using that
  proof (induction trades arbitrary: bs)
    case (Cons t trades)
    have "length (put_block d t bs) \<le> Suc (length bs)" for d by (induction bs) auto
    from this[of "day_start fl t"] Cons.IH[of "put_block (day_start fl t) t bs"] Cons.prems show ?case by simp
  qed simp
  from this[OF refl, of "[]"] show ?thesis by (simp add: buildDailyBlocks_def)
qed

section \<open>A seed whose first reading is one\<close>

lemma rng_one: "fl 1 = 1 \<Longrightarrow> rng fl (word_of_int 653637408) = (1, 4294967295)"
  by (simp add: rng_def)

text \<open>
  C39. The generator divides by \<open>0xFFFFFFFF\<close> and so can answer one, which is an index past the end. For this seed the
  historical simulation of any trades with times fails in its first draw, however many runs and days it is asked for.\<close>

theorem historical_seed_fails:
  assumes "mc_seed config = 653637408" and "0 < mc_runs config" and "0 < mc_days config" and "\<exists>t\<in>set trades. bt_entryTimeMs t \<noteq> None"
    and "\<And>n. n \<le> length trades \<Longrightarrow> fl (of_nat n) = of_nat n"
  shows "runHistoricalMonteCarlo fl trades config = Inl UndefinedBlock"
proof -
  let ?timed = "filter (\<lambda>t. bt_entryTimeMs t \<noteq> None) trades"
  let ?bs = "buildDailyBlocks fl ?timed"
  have l: "length ?bs \<le> length trades" using length_blocks[of fl ?timed] length_filter_le[of "\<lambda>t. bt_entryTimeMs t \<noteq> None" trades] by linarith
  have "1 \<le> length trades" using assms(4) by (cases trades) simp_all
  then have one: "fl 1 = 1" using assms(5)[of 1] by simp
  have "pick fl (length ?bs) (word_of_int 653637408) = (length ?bs, 4294967295)"
    by (simp only: pick_def rng_one[of fl, OF one] prod.case Let_def mult_1 assms(5)[OF l]) simp
  moreover obtain runs days where n: "mc_runs config = Suc runs" "mc_days config = Suc days"
    using assms(2,3) by (auto simp: gr0_conv_Suc)
  moreover have "[0..<Suc days] = 0 # [Suc 0..<Suc days]" by (rule upt_conv_Cons) simp
  ultimately have "historical_runs fl ?bs config (mc_runs config) (word_of_int 653637408) = Inl UndefinedBlock" by (simp del: upt_Suc)
  moreover have "?timed \<noteq> []" using assms(4) by (auto simp: filter_empty_conv)
  ultimately show ?thesis by (simp only: runHistoricalMonteCarlo_def Let_def if_False assms(1) rbind_Inl)
qed

definition sample_timed :: backtest_trade where
  "sample_timed = \<lparr>bt_entryPrice = 1, bt_exitPrice = 2, bt_roi = 2, bt_holdMinutes = 10, bt_exitReason = TakeProfit, bt_entryTimeMs = Some 0, bt_exitTimeMs = Some 600000\<rparr>"

definition sample_mc :: mc_config where
  "sample_mc = \<lparr>mc_runs = 2, mc_days = 3, mc_startCapital = 1500, mc_tradeSize = 100, mc_maxConcurrent = 3, mc_seed = 653637408\<rparr>"

theorem historical_seed_fails_witness: "runHistoricalMonteCarlo (\<lambda>x. x) [sample_timed] sample_mc = Inl UndefinedBlock"
  by (rule historical_seed_fails) (simp_all add: sample_timed_def sample_mc_def)

section \<open>The distribution of the runs\<close>

lemma mark_run_counts [simp]: "ru_taken (mark_run fl r) = ru_taken r" "ru_skipped (mark_run fl r) = ru_skipped r" "ru_slots (mark_run fl r) = ru_slots r"
  by (simp_all add: mark_run_def Let_def)

lemma fold_close_counts:
  "ru_taken (fold (close_completed fl t) ks r) = ru_taken r \<and> ru_skipped (fold (close_completed fl t) ks r) = ru_skipped r"
  "ru_taken (fold (close_remaining fl) ks r) = ru_taken r \<and> ru_skipped (fold (close_remaining fl) ks r) = ru_skipped r"
  by (induction ks arbitrary: r) (simp_all add: close_completed_def close_remaining_def Let_def)

lemma alert_counts: "alert fl rois holds config t (r, s) = (r', s') \<Longrightarrow> ru_taken r' + ru_skipped r' = Suc (ru_taken r + ru_skipped r)"
  by (auto simp: alert_def Let_def fold_close_counts split: option.splits if_splits prod.splits)

lemma fold_alert_counts:
  "fold (alert fl rois holds config) ts (r, s) = (r', s') \<Longrightarrow> ru_taken r' + ru_skipped r' = length ts + ru_taken r + ru_skipped r"
proof (induction ts arbitrary: r s)
  case (Cons t ts)
  obtain r1 s1 where a: "alert fl rois holds config t (r, s) = (r1, s1)" by (cases "alert fl rois holds config t (r, s)")
  show ?case using Cons.IH[of r1 s1] Cons.prems alert_counts[OF a] by (simp add: a)
qed simp

lemma draw_times_length: "draw_times fl days n s = (ts, s') \<Longrightarrow> length ts = n"
  by (induction n arbitrary: s ts s') (auto simp: Let_def split: prod.splits)

lemma simulate_counts:
  assumes "simulateOneRun fl rois holds alertsPerDay config s = (r, s')"
  shows "ru_taken r + ru_skipped r = n_alerts fl alertsPerDay config"
proof -
  obtain ts s1 where t: "draw_times fl (mc_days config) (n_alerts fl alertsPerDay config) s = (ts, s1)" by fastforce
  obtain r1 s2 where f: "fold (alert fl rois holds config) (sort_key id ts) (new_run config, s1) = (r1, s2)" by fastforce
  show ?thesis using assms fold_alert_counts[OF f] draw_times_length[OF t]
    unfolding simulateOneRun_def Let_def t prod.case f by (auto simp: fold_close_counts new_run_def)
qed

lemma runs_counts:
  assumes "\<And>s r s'. one s = (r, s') \<Longrightarrow> ru_taken r + ru_skipped r = k"
  shows "length (runs_from one n s) = n \<and> sum_list (map ru_taken (runs_from one n s)) + sum_list (map ru_skipped (runs_from one n s)) = n * k"
proof (induction n arbitrary: s)
  case (Suc n)
  obtain r s' where o: "one s = (r, s')" by (cases "one s")
  show ?case using Suc[of s'] assms[OF o] by (simp add: o)
qed simp

lemma percentile_mono:
  assumes "sorted xs" and "xs \<noteq> []" and "0 \<le> p" and "p \<le> q" and "q \<le> 100"
  shows "percentile (\<lambda>x. x) xs p \<le> percentile (\<lambda>x. x) xs q" and "percentile (\<lambda>x. x) xs p \<in> set xs"
proof -
  let ?i = "\<lambda>p. nat \<lfloor>p / 100 * of_nat (length xs - 1)\<rfloor>"
  have i: "?i p \<le> ?i q" using assms(3,4) by (intro nat_mono floor_mono mult_right_mono) simp_all
  have "q / 100 * of_nat (length xs - 1) \<le> of_nat (length xs - 1)" using assms(3-5) by (intro mult_left_le_one_le) simp_all
  then have "\<lfloor>q / 100 * of_nat (length xs - 1)\<rfloor> \<le> int (length xs - 1)" by (metis floor_mono floor_of_nat)
  then have "?i q \<le> length xs - 1" by simp
  then have q: "?i q < length xs" using assms(2) by (cases xs) simp_all
  show "percentile (\<lambda>x. x) xs p \<le> percentile (\<lambda>x. x) xs q" unfolding percentile_def using sorted_nth_mono[OF assms(1) i q] .
  show "percentile (\<lambda>x. x) xs p \<in> set xs" unfolding percentile_def using i q by (intro nth_mem) linarith
qed

text \<open>
  In exact arithmetic a simulation of one or more runs answers percentiles in order, each the outcome of one of its runs, a
  bust rate between 0 and 100, and every run takes or skips each of its alerts.\<close>

theorem monte_carlo_distribution:
  assumes "roiPool \<noteq> []" and "0 < mc_runs config"
  shows "\<exists>res. runMonteCarlo (\<lambda>x. x) roiPool holdHoursPool alertsPerDay config = Inr res \<and>
    mr_p10 res \<le> mr_p25 res \<and> mr_p25 res \<le> mr_medianFinal res \<and> mr_medianFinal res \<le> mr_p75 res \<and> mr_p75 res \<le> mr_p90 res \<and>
    {mr_p10 res, mr_p25 res, mr_medianFinal res, mr_p75 res, mr_p90 res} \<subseteq>
      ru_bankroll ` set (runs_from (simulateOneRun (\<lambda>x. x) roiPool holdHoursPool alertsPerDay config) (mc_runs config) (word_of_int (mc_seed config))) \<and>
    0 \<le> mr_bustRate res \<and> mr_bustRate res \<le> 100 \<and>
    map_option (\<lambda>skipped. mr_avgTradesTaken res + skipped) (mr_avgTradesSkipped res) = Some (of_nat (n_alerts (\<lambda>x. x) alertsPerDay config))"
proof -
  let ?rs = "runs_from (simulateOneRun (\<lambda>x. x) roiPool holdHoursPool alertsPerDay config) (mc_runs config) (word_of_int (mc_seed config))"
  let ?f = "sort_key id (map ru_bankroll ?rs)" and ?taken = "sum_list (map ru_taken ?rs)" and ?skipped = "sum_list (map ru_skipped ?rs)"
  let ?bust = "length (filter (\<lambda>v. v < mc_startCapital config * (33 / 100)) ?f)"
  have n: "length ?rs = mc_runs config" "?taken + ?skipped = mc_runs config * n_alerts (\<lambda>x. x) alertsPerDay config"
    using runs_counts[of "simulateOneRun (\<lambda>x. x) roiPool holdHoursPool alertsPerDay config" "n_alerts (\<lambda>x. x) alertsPerDay config"] simulate_counts
    by blast+
  have f: "sorted ?f" "length ?f = mc_runs config" using n(1) sorted_sort_key[of id "map ru_bankroll ?rs"] by simp_all
  have ne: "?f \<noteq> []" using f(2) assms(2) by (metis length_greater_0_conv)
  have s: "set ?f = ru_bankroll ` set ?rs" by simp
  obtain res where res: "runMonteCarlo (\<lambda>x. x) roiPool holdHoursPool alertsPerDay config = Inr res"
    "mr_p10 res = percentile (\<lambda>x. x) ?f 10" "mr_p25 res = percentile (\<lambda>x. x) ?f 25" "mr_medianFinal res = percentile (\<lambda>x. x) ?f 50"
    "mr_p75 res = percentile (\<lambda>x. x) ?f 75" "mr_p90 res = percentile (\<lambda>x. x) ?f 90"
    "mr_bustRate res = of_nat ?bust / of_nat (mc_runs config) * 100" "mr_avgTradesTaken res = of_nat ?taken / of_nat (mc_runs config)"
    "mr_avgTradesSkipped res = Some (of_nat ?skipped / of_nat (mc_runs config))"
    using assms(1) ne by (simp add: runMonteCarlo_def summarize_def Let_def)
  note m = percentile_mono(1)[OF f(1) ne] and i = percentile_mono(2)[OF f(1) ne, where q = 100, unfolded s]
  have "?bust \<le> mc_runs config" using length_filter_le[of _ ?f] f(2) by metis
  then have b: "0 \<le> mr_bustRate res" "mr_bustRate res \<le> 100" using assms(2) by (simp_all add: res(7) divide_simps)
  have "of_nat ?taken + of_nat ?skipped = (of_nat (mc_runs config) :: rat) * of_nat (n_alerts (\<lambda>x. x) alertsPerDay config)"
    using arg_cong[OF n(2), of "of_nat :: nat \<Rightarrow> rat"] by simp
  then have a: "of_nat ?taken / of_nat (mc_runs config) + of_nat ?skipped / of_nat (mc_runs config) =
      (of_nat (n_alerts (\<lambda>x. x) alertsPerDay config) :: rat)"
    using assms(2) by (simp add: add_divide_distrib[symmetric])
  show ?thesis
    by (intro exI[of _ res] conjI) (simp_all add: res(1-6) b m i, simp add: res(8,9) a)
qed

theorem monte_carlo_distribution_witness:
  "\<exists>res. runMonteCarlo (\<lambda>x. x) [2, 1 / 2] [1, 5] 4 sample_mc = Inr res \<and> mr_p10 res \<le> mr_p25 res \<and> mr_bustRate res \<le> 100 \<and>
     map_option (\<lambda>skipped. mr_avgTradesTaken res + skipped) (mr_avgTradesSkipped res) = Some 12"
proof -
  have "n_alerts (\<lambda>x. x) 4 sample_mc = 12" by (simp add: n_alerts_def sample_mc_def floor_eq_iff nat_eq_iff)
  moreover have "0 < mc_runs sample_mc" by (simp add: sample_mc_def)
  ultimately show ?thesis using monte_carlo_distribution[of "[2, 1 / 2]" sample_mc "[1, 5]" 4] by auto
qed

end
