(* ===== verification/PriorityFee.thy ===== *)
theory PriorityFee
  imports Complex_Main Prelude
begin

text \<open>
  \<open>packages/solana-tx/src/priority-fee.ts\<close>. Rates are rationals and \<open>fl\<close> the rounding of the double arithmetic, a parameter. A
  reading \<open>Number(...)\<close> is \<open>None\<close> when it is not finite. The observer \<open>onSlot\<close> is the log of its calls.
\<close>

section \<open>The estimator\<close>

datatype rate_tier = LowTier | MedTier | HighTier | TurboTier

definition SIGNATURE_FEE_LAMPORTS :: rat where "SIGNATURE_FEE_LAMPORTS = 5000"
definition MICROLAMPORTS_PER_LAMPORT :: rat where "MICROLAMPORTS_PER_LAMPORT = 1000000"

definition WARMUP_DEFAULTS :: "rate_tier \<Rightarrow> rat" where
  "WARMUP_DEFAULTS t = (case t of LowTier \<Rightarrow> 1 | MedTier \<Rightarrow> 10 | HighTier \<Rightarrow> 100 | TurboTier \<Rightarrow> 1000)"

definition DEFAULT_WINDOW_SLOTS :: int where "DEFAULT_WINDOW_SLOTS = 150"
definition DEFAULT_WARMUP_SLOTS :: int where "DEFAULT_WARMUP_SLOTS = 30"

record fee_sample =
  fs_slot :: "int option"
  fs_rate :: rat

record estimator =
  pe_windowSlots :: int
  pe_warmupSlots :: int
  pe_samples :: "fee_sample list"
  pe_slotsSeen :: "int list"
  pe_lastSlot :: int
  pe_subscribed :: bool
  pe_started :: bool
  pe_closed :: bool
  pe_onSlot :: "int list"

datatype estimator_error = WindowSlotsRange | WarmupSlotsRange

definition new_estimator :: "int option \<Rightarrow> int option \<Rightarrow> estimator_error + estimator" where
  "new_estimator window warmup =
     (let windowSlots = (case window of Some w \<Rightarrow> w | None \<Rightarrow> DEFAULT_WINDOW_SLOTS);
          warmupSlots = (case warmup of Some w \<Rightarrow> w | None \<Rightarrow> DEFAULT_WARMUP_SLOTS)
      in if windowSlots < 1 then Inl WindowSlotsRange
         else if warmupSlots < 0 then Inl WarmupSlotsRange
         else Inr \<lparr>pe_windowSlots = windowSlots, pe_warmupSlots = warmupSlots, pe_samples = [], pe_slotsSeen = [], pe_lastSlot = -1,
                   pe_subscribed = False, pe_started = False, pe_closed = False, pe_onSlot = []\<rparr>)"

definition start_estimator :: "estimator \<Rightarrow> estimator" where
  "start_estimator p = (if pe_started p \<or> pe_closed p then p else p\<lparr>pe_started := True, pe_subscribed := True\<rparr>)"

definition close_estimator :: "estimator \<Rightarrow> estimator" where
  "close_estimator p = (if pe_closed p then p else p\<lparr>pe_closed := True, pe_subscribed := False\<rparr>)"

section \<open>Samples\<close>

definition minSlot :: "estimator \<Rightarrow> int" where
  "minSlot p = pe_lastSlot p - pe_windowSlots p + 1"

definition pruneWindow :: "estimator \<Rightarrow> estimator" where
  "pruneWindow p =
     (if pe_lastSlot p < 0 then p
      else if minSlot p \<le> 0 then p
      else p\<lparr>pe_samples := filter (\<lambda>s. case fs_slot s of None \<Rightarrow> False | Some k \<Rightarrow> k \<ge> minSlot p) (pe_samples p),
             pe_slotsSeen := filter (\<lambda>s. \<not> s < minSlot p) (pe_slotsSeen p)\<rparr>)"

definition observeSlot :: "int option \<Rightarrow> estimator \<Rightarrow> estimator" where
  "observeSlot slot p =
     (case slot of
        None \<Rightarrow> p
      | Some slot \<Rightarrow>
          if slot < 0 then p
          else let isNew = (slot \<notin> set (pe_slotsSeen p));
                   p = p\<lparr>pe_slotsSeen := (if isNew then pe_slotsSeen p @ [slot] else pe_slotsSeen p),
                         pe_lastSlot := (if slot > pe_lastSlot p then slot else pe_lastSlot p)\<rparr>;
                   p = pruneWindow p
               in if isNew then p\<lparr>pe_onSlot := pe_onSlot p @ [slot]\<rparr> else p)"

definition ingestSample :: "int option \<Rightarrow> rat \<Rightarrow> estimator \<Rightarrow> estimator" where
  "ingestSample slot rate p =
     (if rate < 0 then p
      else let p = observeSlot slot p in
        pruneWindow (p\<lparr>pe_samples := pe_samples p @ [\<lparr>fs_slot = slot, fs_rate = rate\<rparr>]\<rparr>))"

section \<open>Updates\<close>

record fee_meta =
  fm_fee :: "rat option"
  fm_err :: bool
  fm_computeUnitsConsumed :: "rat option"

record fee_tx =
  ft_slot :: "int option option"
  ft_meta :: "fee_meta option"
  ft_numRequiredSignatures :: "int option"
  ft_signatures :: "nat option"
  ft_innerSignatures :: "nat option"

record fee_update =
  fu_slot :: "int option option"
  fu_transaction :: "fee_tx option"

definition or_positive :: "int option \<Rightarrow> int \<Rightarrow> int" where
  "or_positive n rest = (case n of Some n \<Rightarrow> if n > 0 then n else rest | None \<Rightarrow> rest)"

definition extractSigCount :: "fee_tx \<Rightarrow> int" where
  "extractSigCount u =
     or_positive (ft_numRequiredSignatures u)
       (or_positive (map_option int (ft_signatures u)) (or_positive (map_option int (ft_innerSignatures u)) 1))"

text \<open>The sample a transaction gives, once its slot is observed.\<close>

definition sample_of :: "(rat \<Rightarrow> rat) \<Rightarrow> fee_tx \<Rightarrow> int \<Rightarrow> (int option \<times> rat) option" where
  "sample_of fl u lastSlot =
     (case ft_meta u of
        None \<Rightarrow> None
      | Some meta \<Rightarrow>
          if fm_err meta then None
          else (case (fm_fee meta, fm_computeUnitsConsumed meta) of
                  (Some feeLamports, Some unitsConsumed) \<Rightarrow>
                    if unitsConsumed \<le> 0 then None
                    else let priorityLamports = fl (feeLamports - fl (of_int (extractSigCount u) * SIGNATURE_FEE_LAMPORTS)) in
                      if priorityLamports < 0 then None
                      else let rate = fl (fl (priorityLamports * MICROLAMPORTS_PER_LAMPORT) / unitsConsumed);
                               sampleSlot = (case ft_slot u of Some s \<Rightarrow> s | None \<Rightarrow> Some lastSlot)
                           in if (case sampleSlot of Some s \<Rightarrow> s < 0 | None \<Rightarrow> False) then None else Some (sampleSlot, rate)
                | _ \<Rightarrow> None))"

definition onUpdate :: "(rat \<Rightarrow> rat) \<Rightarrow> fee_update \<Rightarrow> estimator \<Rightarrow> estimator" where
  "onUpdate fl u p =
     (case fu_slot u of
        Some slot \<Rightarrow> observeSlot slot p
      | None \<Rightarrow>
          (case fu_transaction u of
             None \<Rightarrow> p
           | Some tx \<Rightarrow>
               let p = (case ft_slot tx of Some s \<Rightarrow> observeSlot s p | None \<Rightarrow> p) in
               (case sample_of fl tx (pe_lastSlot p) of None \<Rightarrow> p | Some (slot, rate) \<Rightarrow> ingestSample slot rate p)))"

section \<open>Rates\<close>

definition quantile :: "(rat \<Rightarrow> rat) \<Rightarrow> rat list \<Rightarrow> rat \<Rightarrow> rat option" where
  "quantile fl sortedAsc p =
     (if sortedAsc = [] then None
      else if p \<le> 0 then Some (hd sortedAsc)
      else if p \<ge> 1 then Some (last sortedAsc)
      else let idx = fl (p * of_nat (length sortedAsc - 1)); lo = nat \<lfloor>idx\<rfloor>; hi = nat \<lceil>idx\<rceil> in
        if lo = hi then Some (sortedAsc ! lo)
        else let frac = fl (idx - of_nat lo) in Some (fl (fl (sortedAsc ! lo * fl (1 - frac)) + fl (sortedAsc ! hi * frac))))"

definition tierPercentile :: "(rat \<Rightarrow> rat) \<Rightarrow> rate_tier \<Rightarrow> rat" where
  "tierPercentile fl t = (case t of LowTier \<Rightarrow> 1 / 2 | MedTier \<Rightarrow> 3 / 4 | HighTier \<Rightarrow> fl (9 / 10) | TurboTier \<Rightarrow> fl (99 / 100))"

definition isWarmup :: "estimator \<Rightarrow> bool" where
  "isWarmup p \<longleftrightarrow> int (length (pe_slotsSeen p)) < pe_warmupSlots p"

definition tier :: "(rat \<Rightarrow> rat) \<Rightarrow> estimator \<Rightarrow> rate_tier \<Rightarrow> rat" where
  "tier fl p t =
     (if int (length (pe_slotsSeen p)) < pe_warmupSlots p then WARMUP_DEFAULTS t
      else (case quantile fl (sort_key id (map fs_rate (pe_samples p))) (tierPercentile fl t) of
              None \<Rightarrow> WARMUP_DEFAULTS t
            | Some base \<Rightarrow> if t = TurboTier then fl (base * fl (11 / 10)) else base))"

section \<open>The window\<close>

definition in_window :: "estimator \<Rightarrow> int option \<Rightarrow> bool" where
  "in_window p slot \<longleftrightarrow> minSlot p \<le> 0 \<or> (case slot of None \<Rightarrow> False | Some k \<Rightarrow> minSlot p \<le> k)"

text \<open>What a sequence of updates observes and samples.\<close>

definition valid_slot :: "int option \<Rightarrow> int list" where
  "valid_slot slot = (case slot of None \<Rightarrow> [] | Some s \<Rightarrow> if s < 0 then [] else [s])"

definition update_effect :: "(rat \<Rightarrow> rat) \<Rightarrow> fee_update \<Rightarrow> estimator \<Rightarrow> int list \<times> fee_sample list" where
  "update_effect fl u p =
     (case fu_slot u of
        Some slot \<Rightarrow> (valid_slot slot, [])
      | None \<Rightarrow>
          (case fu_transaction u of
             None \<Rightarrow> ([], [])
           | Some tx \<Rightarrow>
               let p = (case ft_slot tx of Some s \<Rightarrow> observeSlot s p | None \<Rightarrow> p);
                   observed = (case ft_slot tx of Some s \<Rightarrow> valid_slot s | None \<Rightarrow> [])
               in (case sample_of fl tx (pe_lastSlot p) of
                     None \<Rightarrow> (observed, [])
                   | Some (slot, rate) \<Rightarrow> if rate < 0 then (observed, []) else (observed @ valid_slot slot, [\<lparr>fs_slot = slot, fs_rate = rate\<rparr>]))))"

fun history :: "(rat \<Rightarrow> rat) \<Rightarrow> fee_update list \<Rightarrow> estimator \<Rightarrow> int list \<times> fee_sample list" where
  "history fl [] p = ([], [])"
| "history fl (u # us) p =
     (let (obs, ing) = update_effect fl u p; (obs', ing') = history fl us (onUpdate fl u p) in (obs @ obs', ing @ ing'))"

definition window_ok :: "int list \<Rightarrow> fee_sample list \<Rightarrow> estimator \<Rightarrow> bool" where
  "window_ok obs ing p \<longleftrightarrow>
     1 \<le> pe_windowSlots p \<and> (\<forall>s\<in>set obs. 0 \<le> s) \<and> pe_lastSlot p = Max (insert (-1) (set obs)) \<and>
     distinct (pe_slotsSeen p) \<and> set (pe_slotsSeen p) = {s \<in> set obs. in_window p (Some s)} \<and>
     pe_samples p = filter (\<lambda>s. in_window p (fs_slot s)) ing"

lemma pruneWindow_eq:
  "1 \<le> pe_windowSlots p \<Longrightarrow> pruneWindow p = p\<lparr>pe_samples := filter (\<lambda>s. in_window p (fs_slot s)) (pe_samples p), pe_slotsSeen := filter (\<lambda>s. in_window p (Some s)) (pe_slotsSeen p)\<rparr>"
  by (auto simp: pruneWindow_def in_window_def minSlot_def not_less intro!: estimator.equality filter_cong split: option.splits)

lemma in_window_later:
  "pe_windowSlots p' = pe_windowSlots p \<Longrightarrow> pe_lastSlot p \<le> pe_lastSlot p' \<Longrightarrow> in_window p' s \<Longrightarrow> in_window p s"
  by (auto simp: in_window_def minSlot_def split: option.splits)

lemma in_window_simps [simp]:
  "in_window (p\<lparr>pe_samples := x\<rparr>) = in_window p" "in_window (p\<lparr>pe_slotsSeen := y\<rparr>) = in_window p" "in_window (p\<lparr>pe_onSlot := z\<rparr>) = in_window p"
  by (auto simp: in_window_def minSlot_def fun_eq_iff split: option.splits)

lemma observeSlot_ok:
  assumes "window_ok obs ing p"
  shows "window_ok (obs @ valid_slot slot) ing (observeSlot slot p) \<and> pe_windowSlots (observeSlot slot p) = pe_windowSlots p \<and>
    pe_warmupSlots (observeSlot slot p) = pe_warmupSlots p"
proof (cases "valid_slot slot")
  case Nil
  then have "observeSlot slot p = p" by (auto simp: valid_slot_def observeSlot_def split: option.splits if_splits)
  then show ?thesis using assms Nil by simp
next
  case (Cons k ks)
  then have k: "slot = Some k" "0 \<le> k" "ks = []" by (auto simp: valid_slot_def split: option.splits if_splits)
  let ?seen = "if k \<notin> set (pe_slotsSeen p) then pe_slotsSeen p @ [k] else pe_slotsSeen p"
  let ?last = "if k > pe_lastSlot p then k else pe_lastSlot p"
  define q where "q = p\<lparr>pe_slotsSeen := ?seen, pe_lastSlot := ?last\<rparr>"
  have q: "pe_slotsSeen q = ?seen" "pe_lastSlot q = ?last" "pe_samples q = pe_samples p" "pe_windowSlots q = pe_windowSlots p"
    "pe_warmupSlots q = pe_warmupSlots p" by (simp_all add: q_def)
  have p: "1 \<le> pe_windowSlots p" "pe_lastSlot p = Max (insert (-1) (set obs))" "distinct (pe_slotsSeen p)"
    "set (pe_slotsSeen p) = {s \<in> set obs. in_window p (Some s)}" "pe_samples p = filter (\<lambda>s. in_window p (fs_slot s)) ing"
    "\<forall>s\<in>set obs. 0 \<le> s" using assms unfolding window_ok_def by blast+
  have w: "1 \<le> pe_windowSlots q" using p(1) q(4) by simp
  have later: "in_window q s \<Longrightarrow> in_window p s" for s by (rule in_window_later[of q p]) (simp_all add: q)
  have last: "?last = Max (insert (-1) (set (obs @ [k])))"
  proof -
    have "insert (-1) (set (obs @ [k])) = insert k (insert (-1) (set obs))" by auto
    then have "Max (insert (-1) (set (obs @ [k]))) = max k (Max (insert (-1) (set obs)))" by (simp only: Max_insert finite_insert finite_set insert_not_empty not_False_eq_True)
    moreover have "?last = max k (pe_lastSlot p)" by (simp add: max_def)
    ultimately show ?thesis by (simp only: p(2))
  qed
  have samples: "filter (\<lambda>s. in_window q (fs_slot s)) (pe_samples p) = filter (\<lambda>s. in_window q (fs_slot s)) ing"
    unfolding p(5) filter_filter by (rule filter_cong[OF refl]) (use later in blast)
  have seen: "{s \<in> set ?seen. in_window q (Some s)} = {s \<in> set (obs @ [k]). in_window q (Some s)}" "distinct ?seen"
    using later p(3,4) by auto
  have i: "in_window (pruneWindow q) = in_window q" by (simp add: pruneWindow_eq[OF w])
  have r: "pe_lastSlot (pruneWindow q) = ?last" "pe_windowSlots (pruneWindow q) = pe_windowSlots p" "pe_warmupSlots (pruneWindow q) = pe_warmupSlots p"
    "pe_slotsSeen (pruneWindow q) = filter (\<lambda>s. in_window q (Some s)) ?seen"
    "pe_samples (pruneWindow q) = filter (\<lambda>s. in_window q (fs_slot s)) (pe_samples p)" by (simp_all add: pruneWindow_eq[OF w] q)
  have "window_ok (obs @ [k]) ing (pruneWindow q)"
    unfolding window_ok_def i r set_filter seen(1) samples using p(1,6) k(2) last seen(2) by (intro conjI) (simp_all only: distinct_filter, auto)
  then have "window_ok (obs @ [k]) ing (pruneWindow q\<lparr>pe_onSlot := l\<rparr>)" for l by (simp add: window_ok_def)
  moreover have "\<not> k < 0" using k(2) by simp
  then have "observeSlot slot p = (if k \<notin> set (pe_slotsSeen p) then pruneWindow q\<lparr>pe_onSlot := pe_onSlot (pruneWindow q) @ [k]\<rparr> else pruneWindow q)"
    by (simp only: k(1) observeSlot_def option.case Let_def q_def if_False)
  ultimately have "window_ok (obs @ [k]) ing (observeSlot slot p)"
    "pe_windowSlots (observeSlot slot p) = pe_windowSlots p" "pe_warmupSlots (observeSlot slot p) = pe_warmupSlots p"
    using \<open>window_ok (obs @ [k]) ing (pruneWindow q)\<close> r(2,3) by simp_all
  then show ?thesis using Cons k(3) by simp
qed

lemma ingestSample_ok:
  assumes "window_ok obs ing p" and "0 \<le> rate"
  shows "window_ok (obs @ valid_slot slot) (ing @ [\<lparr>fs_slot = slot, fs_rate = rate\<rparr>]) (ingestSample slot rate p) \<and>
    pe_windowSlots (ingestSample slot rate p) = pe_windowSlots p \<and> pe_warmupSlots (ingestSample slot rate p) = pe_warmupSlots p"
proof -
  let ?s = "\<lparr>fs_slot = slot, fs_rate = rate\<rparr>" and ?o = "observeSlot slot p"
  have o: "window_ok (obs @ valid_slot slot) ing ?o" "pe_windowSlots ?o = pe_windowSlots p" "pe_warmupSlots ?o = pe_warmupSlots p"
    using observeSlot_ok[OF assms(1), of slot] by simp_all
  let ?p = "?o\<lparr>pe_samples := pe_samples ?o @ [?s]\<rparr>"
  have w: "1 \<le> pe_windowSlots ?p" using o(1) by (simp add: window_ok_def)
  have i: "in_window ?p = in_window ?o" by simp
  have "filter (\<lambda>s. in_window ?o (Some s)) (pe_slotsSeen ?o) = pe_slotsSeen ?o" using o(1) by (auto simp: window_ok_def filter_id_conv)
  moreover have "filter (\<lambda>s. in_window ?o (fs_slot s)) (pe_samples ?o) = pe_samples ?o" using o(1) by (simp add: window_ok_def)
  ultimately have "window_ok (obs @ valid_slot slot) (ing @ [?s]) (pruneWindow ?p)"
    using o(1) w unfolding pruneWindow_eq[OF w] i by (simp add: window_ok_def)
  moreover have "pe_windowSlots (pruneWindow ?p) = pe_windowSlots p" "pe_warmupSlots (pruneWindow ?p) = pe_warmupSlots p"
    using o(2,3) by (simp_all add: pruneWindow_eq[OF w])
  ultimately show ?thesis using assms(2) by (simp add: ingestSample_def Let_def)
qed

lemma onUpdate_ok:
  assumes "window_ok obs ing p" and "update_effect fl u p = (obs', ing')"
  shows "window_ok (obs @ obs') (ing @ ing') (onUpdate fl u p) \<and> pe_windowSlots (onUpdate fl u p) = pe_windowSlots p \<and>
    pe_warmupSlots (onUpdate fl u p) = pe_warmupSlots p"
proof (cases "fu_slot u")
  case (Some slot)
  then show ?thesis using assms observeSlot_ok[OF assms(1), of slot] by (auto simp: update_effect_def onUpdate_def)
next
  case None
  show ?thesis
  proof (cases "fu_transaction u")
    case no: None
    then show ?thesis using assms None by (auto simp: update_effect_def onUpdate_def)
  next
    case (Some tx)
    let ?p = "case ft_slot tx of Some s \<Rightarrow> observeSlot s p | None \<Rightarrow> p" and ?o = "case ft_slot tx of Some s \<Rightarrow> valid_slot s | None \<Rightarrow> []"
    have p: "window_ok (obs @ ?o) ing ?p" "pe_windowSlots ?p = pe_windowSlots p" "pe_warmupSlots ?p = pe_warmupSlots p"
      using assms(1) observeSlot_ok[OF assms(1)] by (auto split: option.splits)
    show ?thesis
    proof (cases "sample_of fl tx (pe_lastSlot ?p)")
      case no: None
      then show ?thesis using assms(2) None Some p by (auto simp: update_effect_def onUpdate_def Let_def)
    next
      case s: (Some sr)
      obtain slot rate where sr: "sr = (slot, rate)" by fastforce
      show ?thesis
      proof (cases "rate < 0")
        case True
        then show ?thesis using assms(2) None Some p s sr by (auto simp: update_effect_def onUpdate_def Let_def ingestSample_def)
      next
        case False
        then show ?thesis using assms(2) None Some s sr p(2,3) ingestSample_ok[OF p(1), of rate slot]
          by (auto simp: update_effect_def onUpdate_def Let_def)
      qed
    qed
  qed
qed

lemma history_ok:
  assumes "window_ok obs ing p" and "history fl us p = (obs', ing')"
  shows "window_ok (obs @ obs') (ing @ ing') (fold (onUpdate fl) us p) \<and> pe_windowSlots (fold (onUpdate fl) us p) = pe_windowSlots p \<and>
    pe_warmupSlots (fold (onUpdate fl) us p) = pe_warmupSlots p"
  using assms
proof (induction us arbitrary: p obs ing obs' ing')
  case (Cons u us)
  obtain o1 i1 where e: "update_effect fl u p = (o1, i1)" by fastforce
  obtain o2 i2 where h: "history fl us (onUpdate fl u p) = (o2, i2)" by fastforce
  note u = onUpdate_ok[OF Cons.prems(1) e]
  have "window_ok (obs @ o1) (ing @ i1) (onUpdate fl u p)" using u by simp
  from Cons.IH[OF this h] u Cons.prems(2) show ?case by (auto simp: e h Let_def)
qed simp

lemma new_window_ok:
  "new_estimator w m = Inr p \<Longrightarrow> window_ok [] [] p \<and> pe_windowSlots p = (case w of Some w \<Rightarrow> w | None \<Rightarrow> DEFAULT_WINDOW_SLOTS) \<and>
    pe_warmupSlots p = (case m of Some m \<Rightarrow> m | None \<Rightarrow> DEFAULT_WARMUP_SLOTS)"
  by (auto simp: new_estimator_def Let_def window_ok_def in_window_def minSlot_def split: if_splits)

lemma reachable_window:
  assumes "new_estimator w m = Inr p" and "history fl us p = (obs, ing)"
  shows "window_ok obs ing (fold (onUpdate fl) us p)" and "pe_windowSlots (fold (onUpdate fl) us p) = pe_windowSlots p"
    and "pe_warmupSlots (fold (onUpdate fl) us p) = pe_warmupSlots p"
  using history_ok[OF _ assms(2), of "[]" "[]"] new_window_ok[OF assms(1)] by simp_all

text \<open>
  C36. After any updates, late and repeated ones included, the last slot is the highest observed, and what is kept is what lies in
  the window of \<open>windowSlots\<close> slots that ends there: of the samples taken, in order, and of the slots observed, each
  once. The window does not hold the slot \<open>lastSlot - windowSlots\<close>, which the comment on \<open>#pruneWindow\<close> includes; samples are
  kept whatever their slot is until the last slot reaches the size of the window.\<close>

theorem window_exact:
  assumes "new_estimator window warmup = Inr p" and "history fl us p = (obs, ing)"
  defines "q \<equiv> fold (onUpdate fl) us p"
  shows "pe_lastSlot q = Max (insert (-1) (set obs)) \<and>
    pe_samples q = filter (\<lambda>s. pe_lastSlot q < pe_windowSlots p \<or> (\<exists>k. fs_slot s = Some k \<and> pe_lastSlot q - pe_windowSlots p < k)) ing \<and>
    distinct (pe_slotsSeen q) \<and> set (pe_slotsSeen q) = {s \<in> set obs. pe_lastSlot q - pe_windowSlots p < s}"
proof -
  have w: "window_ok obs ing q" "pe_windowSlots q = pe_windowSlots p" using reachable_window[OF assms(1,2)] by (simp_all add: q_def)
  have "{s \<in> set obs. in_window q (Some s)} = {s \<in> set obs. pe_lastSlot q - pe_windowSlots p < s}"
    using w by (auto simp: window_ok_def in_window_def minSlot_def)
  moreover have "in_window q s = (pe_lastSlot q < pe_windowSlots p \<or> (\<exists>k. s = Some k \<and> pe_lastSlot q - pe_windowSlots p < k))" for s
    by (auto simp: in_window_def minSlot_def w(2) split: option.splits)
  ultimately show ?thesis using w by (simp add: window_ok_def)
qed

lemma slots_in_window:
  assumes "window_ok obs ing q"
  shows "int (length (pe_slotsSeen q)) \<le> pe_windowSlots q"
proof -
  have d: "distinct (pe_slotsSeen q)" "set (pe_slotsSeen q) = {s \<in> set obs. in_window q (Some s)}" "1 \<le> pe_windowSlots q"
    using assms by (simp_all add: window_ok_def)
  have "s \<le> pe_lastSlot q" if "s \<in> set obs" for s using assms that by (simp add: window_ok_def)
  then have "set (pe_slotsSeen q) \<subseteq> {pe_lastSlot q - pe_windowSlots q + 1..pe_lastSlot q}"
    using assms by (auto simp: d(2) in_window_def minSlot_def window_ok_def)
  then have "card (set (pe_slotsSeen q)) \<le> card {pe_lastSlot q - pe_windowSlots q + 1..pe_lastSlot q}" by (intro card_mono) simp_all
  then show ?thesis using d(3) by (simp add: distinct_card[OF d(1)])
qed

text \<open>
  C37. An estimator whose warm-up asks for more slots than its window holds never ends its warm-up: whatever it observes, every
  tier stays at its default.\<close>

theorem warmup_never_ends:
  assumes "new_estimator (Some window) (Some warmup) = Inr p" and "window < warmup"
  shows "isWarmup (fold (onUpdate fl) us p) \<and> tier fl (fold (onUpdate fl) us p) t = WARMUP_DEFAULTS t"
proof -
  obtain obs ing where h: "history fl us p = (obs, ing)" by fastforce
  note r = reachable_window[OF assms(1) h]
  have "pe_windowSlots p = window" "pe_warmupSlots p = warmup" using new_window_ok[OF assms(1)] by simp_all
  then have "int (length (pe_slotsSeen (fold (onUpdate fl) us p))) < pe_warmupSlots (fold (onUpdate fl) us p)"
    using slots_in_window[OF r(1)] r(2,3) assms(2) by simp
  then show ?thesis by (simp add: isWarmup_def tier_def)
qed

section \<open>The order of the tiers\<close>

text \<open>The linear interpolation between the neighbours of an index.\<close>

definition interpolated :: "rat list \<Rightarrow> rat \<Rightarrow> rat" where
  "interpolated xs r = xs ! nat \<lfloor>r\<rfloor> * (1 - (r - of_int \<lfloor>r\<rfloor>)) + xs ! nat \<lceil>r\<rceil> * (r - of_int \<lfloor>r\<rfloor>)"

lemma quantile_interpolated:
  assumes "xs \<noteq> []" and "0 < p" and "p < 1"
  shows "quantile (\<lambda>x. x) xs p = Some (interpolated xs (p * of_nat (length xs - 1)))"
proof -
  let ?r = "p * of_nat (length xs - 1)"
  have r: "0 \<le> ?r" using assms(2) by simp
  have lo: "of_nat (nat \<lfloor>?r\<rfloor>) = (of_int \<lfloor>?r\<rfloor> :: rat)" using r by (simp add: zero_le_floor)
  have eq: "nat \<lfloor>?r\<rfloor> = nat \<lceil>?r\<rceil> \<longleftrightarrow> \<lfloor>?r\<rfloor> = \<lceil>?r\<rceil>" using r by (simp add: eq_nat_nat_iff zero_le_floor zero_le_ceiling order_less_le_trans[of "-1" 0])
  have int: "?r = of_int \<lfloor>?r\<rfloor>" if "\<lfloor>?r\<rfloor> = \<lceil>?r\<rceil>" using that by (metis floor_eq_iff le_of_int_ceiling of_int_floor_le order_antisym)
  show ?thesis
  proof (cases "\<lfloor>?r\<rfloor> = \<lceil>?r\<rceil>")
    case True
    have "interpolated xs ?r = xs ! nat \<lfloor>?r\<rfloor>" unfolding interpolated_def using int[OF True] True by (simp add: algebra_simps)
    then show ?thesis using assms True by (simp add: quantile_def Let_def)
  next
    case False
    then show ?thesis using assms eq lo by (simp add: quantile_def interpolated_def Let_def)
  qed
qed

lemma interpolated_bounds:
  assumes "sorted xs" and "0 \<le> r" and "r \<le> of_nat (length xs - 1)" and "xs \<noteq> []"
  shows "xs ! nat \<lfloor>r\<rfloor> \<le> interpolated xs r" and "interpolated xs r \<le> xs ! nat \<lceil>r\<rceil>" and "nat \<lceil>r\<rceil> < length xs" and "nat \<lfloor>r\<rfloor> \<le> nat \<lceil>r\<rceil>"
proof -
  have "\<lceil>r\<rceil> \<le> int (length xs - 1)" using assms(3) by (simp add: ceiling_le_iff)
  then show c: "nat \<lceil>r\<rceil> < length xs" using assms(4) by (cases xs) simp_all
  show fc: "nat \<lfloor>r\<rfloor> \<le> nat \<lceil>r\<rceil>" by (simp add: nat_mono floor_le_ceiling)
  let ?f = "r - of_int \<lfloor>r\<rfloor>" and ?a = "xs ! nat \<lfloor>r\<rfloor>" and ?b = "xs ! nat \<lceil>r\<rceil>"
  have f: "0 \<le> ?f" "?f \<le> 1" using of_int_floor_le[of r] floor_correct[of r] by linarith+
  have ab: "?a \<le> ?b" using sorted_nth_mono[OF assms(1) fc c] .
  have e: "interpolated xs r = ?a + (?b - ?a) * ?f" by (simp add: interpolated_def algebra_simps)
  show "?a \<le> interpolated xs r" unfolding e using ab f(1) by simp
  have "(?b - ?a) * ?f \<le> ?b - ?a" using ab f by (simp add: mult_left_le)
  then show "interpolated xs r \<le> ?b" unfolding e by simp
qed

lemma interpolated_mono:
  assumes "sorted xs" and "0 \<le> r" and "r \<le> s" and "s \<le> of_nat (length xs - 1)" and "xs \<noteq> []"
  shows "interpolated xs r \<le> interpolated xs s"
proof (cases "\<lfloor>r\<rfloor> = \<lfloor>s\<rfloor>")
  case False
  then have "\<lfloor>r\<rfloor> < \<lfloor>s\<rfloor>" using floor_mono[OF assms(3)] by simp
  then have "\<lceil>r\<rceil> \<le> \<lfloor>s\<rfloor>" using ceiling_diff_floor_le_1[of r] by linarith
  then have "nat \<lceil>r\<rceil> \<le> nat \<lfloor>s\<rfloor>" by simp
  note b = interpolated_bounds(2)[OF assms(1,2) order_trans[OF assms(3,4)] assms(5)]
    interpolated_bounds[OF assms(1) order_trans[OF assms(2,3)] assms(4,5)]
  have "xs ! nat \<lceil>r\<rceil> \<le> xs ! nat \<lfloor>s\<rfloor>" using sorted_nth_mono[OF assms(1) \<open>nat \<lceil>r\<rceil> \<le> nat \<lfloor>s\<rfloor>\<close>] b(4,5) by simp
  then show ?thesis using b(1,2) by linarith
next
  case True
  let ?a = "xs ! nat \<lfloor>s\<rfloor>" and ?b = "xs ! nat \<lceil>s\<rceil>"
  have e: "interpolated xs s = ?a + (?b - ?a) * (s - of_int \<lfloor>s\<rfloor>)" by (simp add: interpolated_def algebra_simps)
  have d: "interpolated xs r = ?a + (?b - ?a) * (r - of_int \<lfloor>s\<rfloor>)"
  proof (cases "r = of_int \<lfloor>s\<rfloor>")
    case False
    then have "\<lceil>r\<rceil> = \<lfloor>s\<rfloor> + 1" using True of_int_floor_le[of r] by (simp add: ceiling_eq_iff floor_eq_iff)
    moreover have "\<lceil>s\<rceil> = \<lfloor>s\<rfloor> + 1"
    proof -
      have "s \<noteq> of_int \<lfloor>s\<rfloor>" using False True assms(3) of_int_floor_le[of r] by auto
      then have "of_int \<lfloor>s\<rfloor> < s" by (metis of_int_floor_le order_less_le)
      then show ?thesis using floor_correct[of s] by (simp add: ceiling_eq_iff)
    qed
    ultimately show ?thesis by (simp add: interpolated_def True algebra_simps)
  qed (simp add: interpolated_def)
  have "?a \<le> ?b" using interpolated_bounds(1,2)[OF assms(1) order_trans[OF assms(2,3)] assms(4,5)] by linarith
  then show ?thesis unfolding d e using assms(3) by (simp add: mult_left_mono)
qed

text \<open>
  In exact arithmetic the tiers come in order, in the warm-up and after it: low, med, high, turbo; and the first three lie
  between the lowest and the highest rate of the window.\<close>

theorem tiers_ordered:
  assumes "\<forall>s\<in>set (pe_samples p). 0 \<le> fs_rate s"
  shows "tier (\<lambda>x. x) p LowTier \<le> tier (\<lambda>x. x) p MedTier \<and> tier (\<lambda>x. x) p MedTier \<le> tier (\<lambda>x. x) p HighTier \<and>
    tier (\<lambda>x. x) p HighTier \<le> tier (\<lambda>x. x) p TurboTier \<and>
    (isWarmup p \<or> pe_samples p = [] \<or>
     Min (fs_rate ` set (pe_samples p)) \<le> tier (\<lambda>x. x) p LowTier \<and> tier (\<lambda>x. x) p HighTier \<le> Max (fs_rate ` set (pe_samples p)))"
proof (cases "isWarmup p \<or> pe_samples p = []")
  case True
  then have "tier (\<lambda>x. x) p t = WARMUP_DEFAULTS t" for t by (auto simp: tier_def isWarmup_def quantile_def)
  then show ?thesis using True by (auto simp: WARMUP_DEFAULTS_def)
next
  case False
  let ?xs = "sort_key id (map fs_rate (pe_samples p))"
  have len: "length ?xs = length (pe_samples p)" by simp
  have xs: "sorted ?xs" "?xs \<noteq> []" using False sorted_sort_key[of id "map fs_rate (pe_samples p)"] len by (simp, metis length_0_conv)
  let ?q = "\<lambda>x. interpolated ?xs (x * of_nat (length ?xs - 1))"
  have t: "tier (\<lambda>x. x) p LowTier = ?q (1 / 2)" "tier (\<lambda>x. x) p MedTier = ?q (3 / 4)" "tier (\<lambda>x. x) p HighTier = ?q (9 / 10)"
    "tier (\<lambda>x. x) p TurboTier = ?q (99 / 100) * (11 / 10)"
    using False xs(2) by (simp_all add: tier_def isWarmup_def tierPercentile_def quantile_interpolated)
  have mono: "?q x \<le> ?q y" if "0 \<le> x" "x \<le> y" "y \<le> 1" for x y
    using that by (intro interpolated_mono[OF xs(1)] xs(2)) (simp_all add: mult_right_mono mult_left_le_one_le)
  have b: "?xs ! nat \<lfloor>x * of_nat (length ?xs - 1)\<rfloor> \<le> ?q x" "?q x \<le> ?xs ! nat \<lceil>x * of_nat (length ?xs - 1)\<rceil>"
    "nat \<lceil>x * of_nat (length ?xs - 1)\<rceil> < length ?xs" "nat \<lfloor>x * of_nat (length ?xs - 1)\<rfloor> \<le> nat \<lceil>x * of_nat (length ?xs - 1)\<rceil>" if "0 \<le> x" "x \<le> 1" for x
    using that by (intro interpolated_bounds[OF xs(1) _ _ xs(2)]; simp add: mult_left_le_one_le)+
  have set: "set ?xs = fs_rate ` set (pe_samples p)" by simp
  have lo: "Min (fs_rate ` set (pe_samples p)) \<le> ?q (1 / 2)"
  proof -
    have "?xs ! nat \<lfloor>(1 / 2 :: rat) * of_nat (length ?xs - 1)\<rfloor> \<in> set ?xs"
      by (intro nth_mem le_less_trans[OF b(4) b(3)]) simp_all
    then have "Min (fs_rate ` set (pe_samples p)) \<le> ?xs ! nat \<lfloor>(1 / 2 :: rat) * of_nat (length ?xs - 1)\<rfloor>" unfolding set by (intro Min_le) simp_all
    then show ?thesis using b(1)[of "1 / 2"] by simp
  qed
  have hi: "?q (9 / 10) \<le> Max (fs_rate ` set (pe_samples p))"
  proof -
    have "?xs ! nat \<lceil>(9 / 10 :: rat) * of_nat (length ?xs - 1)\<rceil> \<in> set ?xs" by (intro nth_mem b(3)) simp_all
    then have "?xs ! nat \<lceil>(9 / 10 :: rat) * of_nat (length ?xs - 1)\<rceil> \<le> Max (fs_rate ` set (pe_samples p))" unfolding set by (intro Max_ge) simp_all
    then show ?thesis using b(2)[of "9 / 10"] by simp
  qed
  have "0 \<le> Min (fs_rate ` set (pe_samples p))" using assms False by simp
  then have "0 \<le> ?q (99 / 100)" using lo mono[of "1 / 2" "99 / 100"] by linarith
  then have "?q (99 / 100) \<le> ?q (99 / 100) * (11 / 10)" by simp
  then show ?thesis using mono[of "1 / 2" "3 / 4"] mono[of "3 / 4" "9 / 10"] mono[of "9 / 10" "99 / 100"] lo hi unfolding t by simp
qed

section \<open>An estimator at work\<close>

definition sample_tx :: "int \<Rightarrow> rat \<Rightarrow> fee_update" where
  "sample_tx slot fee =
     \<lparr>fu_slot = None, fu_transaction = Some \<lparr>ft_slot = Some (Some slot), ft_meta = Some \<lparr>fm_fee = Some fee, fm_err = False, fm_computeUnitsConsumed = Some 1000\<rparr>,
        ft_numRequiredSignatures = Some 1, ft_signatures = None, ft_innerSignatures = None\<rparr>\<rparr>"

definition sample_updates :: "fee_update list" where
  "sample_updates = [sample_tx 10 5001, sample_tx 12 5003, sample_tx 11 5002, \<lparr>fu_slot = Some (Some 13), fu_transaction = None\<rparr>]"

definition sample_estimator :: estimator where
  "sample_estimator = \<lparr>pe_windowSlots = 2, pe_warmupSlots = 1, pe_samples = [], pe_slotsSeen = [], pe_lastSlot = -1,
     pe_subscribed = False, pe_started = False, pe_closed = False, pe_onSlot = []\<rparr>"

lemma sample_new: "new_estimator (Some 2) (Some 1) = Inr sample_estimator"
  by (simp add: new_estimator_def sample_estimator_def)

lemmas estimator_defs = sample_updates_def sample_tx_def sample_estimator_def onUpdate_def observeSlot_def ingestSample_def pruneWindow_def minSlot_def
  sample_of_def extractSigCount_def or_positive_def SIGNATURE_FEE_LAMPORTS_def MICROLAMPORTS_PER_LAMPORT_def update_effect_def valid_slot_def

lemma sample_history:
  "history (\<lambda>x. x) sample_updates sample_estimator =
   ([10, 10, 12, 12, 11, 11, 13], [\<lparr>fs_slot = Some 10, fs_rate = 1000\<rparr>, \<lparr>fs_slot = Some 12, fs_rate = 3000\<rparr>, \<lparr>fs_slot = Some 11, fs_rate = 2000\<rparr>])"
  by (simp add: estimator_defs Let_def)

lemma sample_run:
  "pe_samples (fold (onUpdate (\<lambda>x. x)) sample_updates sample_estimator) = [\<lparr>fs_slot = Some 12, fs_rate = 3000\<rparr>]"
  by (simp add: estimator_defs Let_def)

theorem window_exact_witness:
  "pe_lastSlot (fold (onUpdate (\<lambda>x. x)) sample_updates sample_estimator) = 13 \<and>
   set (pe_slotsSeen (fold (onUpdate (\<lambda>x. x)) sample_updates sample_estimator)) = {12, 13} \<and>
   pe_samples (fold (onUpdate (\<lambda>x. x)) sample_updates sample_estimator) = [\<lparr>fs_slot = Some 12, fs_rate = 3000\<rparr>]"
proof -
  have "{s \<in> {10, 10, 12, 12, 11, 11, 13}. 13 - 2 < s} = {12, 13 :: int}" by auto
  then show ?thesis using window_exact[OF sample_new sample_history] sample_run by (simp add: sample_estimator_def)
qed

theorem warmup_never_ends_witness:
  "\<exists>p. new_estimator (Some 10) (Some 30) = Inr p \<and> tier (\<lambda>x. x) (fold (onUpdate (\<lambda>x. x)) sample_updates p) HighTier = 100"
proof -
  obtain p where p: "new_estimator (Some 10) (Some 30) = Inr p" by (simp add: new_estimator_def)
  from warmup_never_ends[OF p, of "\<lambda>x. x" sample_updates HighTier] p show ?thesis by (simp add: WARMUP_DEFAULTS_def)
qed

theorem tiers_ordered_witness:
  "tier (\<lambda>x. x) (fold (onUpdate (\<lambda>x. x)) sample_updates sample_estimator) HighTier \<le>
   tier (\<lambda>x. x) (fold (onUpdate (\<lambda>x. x)) sample_updates sample_estimator) TurboTier \<and>
   pe_samples (fold (onUpdate (\<lambda>x. x)) sample_updates sample_estimator) \<noteq> []"
  using tiers_ordered[of "fold (onUpdate (\<lambda>x. x)) sample_updates sample_estimator"] by (simp add: sample_run)

end
