(* ===== verification/TxTools.thy ===== *)
theory TxTools
  imports Complex_Main SignedTx Pda
begin

text \<open>
  \<open>packages/solana-tx/src/\<close>: \<open>system-transfer.ts\<close>, \<open>compute-budget-instructions.ts\<close>, \<open>compute-budget.ts\<close>,
  \<open>lookup-table-instructions.ts\<close> and \<open>jito-bundle.ts\<close>; and the transfer decoder of \<open>packages/solana-spl/src/decoders/\<close>.
  The answer of the RPC node is a parameter, \<open>fl\<close> the rounding of the double arithmetic.
\<close>

datatype builder_error =
    InvalidTransfer int
  | InvalidComputeBudget int
  | InvalidLookupTable int
  | LookupTablePda pda_error
  | BundleEmpty
  | BundleTooLarge nat
  | InvalidTip int

abbreviation U64_MAX :: int where
  "U64_MAX \<equiv> 2 ^ 64 - 1"

section \<open>Transfers\<close>

definition SYSTEM_PROGRAM_ID :: pubkey where
  "SYSTEM_PROGRAM_ID = Abs_pubkey (replicate 32 0)"

definition TRANSFER :: nat where "TRANSFER = 2"
definition DATA_LENGTH :: nat where "DATA_LENGTH = 12"

record system_transfer =
  st_from :: pubkey
  st_to :: pubkey
  st_lamports :: int

definition systemTransfer :: "pubkey \<Rightarrow> pubkey \<Rightarrow> int \<Rightarrow> builder_error + instruction" where
  "systemTransfer from to lamports =
     (if lamports \<le> 0 \<or> lamports > U64_MAX then Inl (InvalidTransfer lamports)
      else Inr \<lparr>programId = SYSTEM_PROGRAM_ID,
                ix_keys = [\<lparr>m_pubkey = from, m_isSigner = True, m_isWritable = True\<rparr>, \<lparr>m_pubkey = to, m_isSigner = False, m_isWritable = True\<rparr>],
                ix_data = le_bytes 4 TRANSFER @ le_bytes 8 (nat lamports)\<rparr>)"

definition parseSystemTransfer :: "instruction \<Rightarrow> system_transfer option" where
  "parseSystemTransfer ix =
     (if \<not> pk_equals (programId ix) SYSTEM_PROGRAM_ID \<or> length (ix_data ix) \<noteq> DATA_LENGTH \<or> length (ix_keys ix) \<noteq> 2 then None
      else if le_val (take 4 (ix_data ix)) \<noteq> TRANSFER then None
      else let from = ix_keys ix ! 0; to = ix_keys ix ! 1 in
        if \<not> m_isSigner from \<or> \<not> m_isWritable from \<or> \<not> m_isWritable to then None
        else Some \<lparr>st_from = m_pubkey from, st_to = m_pubkey to, st_lamports = int (le_val (take 8 (drop 4 (ix_data ix))))\<rparr>)"

section \<open>The compute budget\<close>

definition COMPUTE_BUDGET_PROGRAM_ID :: pubkey where
  "COMPUTE_BUDGET_PROGRAM_ID = projr (fromBase58 ''ComputeBudget111111111111111111111111111111'')"

definition MAX_COMPUTE_UNITS :: int where "MAX_COMPUTE_UNITS = 1400000"

definition setComputeUnitLimit :: "int \<Rightarrow> builder_error + instruction" where
  "setComputeUnitLimit units =
     (if units \<le> 0 \<or> units > MAX_COMPUTE_UNITS then Inl (InvalidComputeBudget units)
      else Inr \<lparr>programId = COMPUTE_BUDGET_PROGRAM_ID, ix_keys = [], ix_data = 2 # le_bytes 4 (nat units)\<rparr>)"

definition setComputeUnitPrice :: "int \<Rightarrow> builder_error + instruction" where
  "setComputeUnitPrice microLamports =
     (if microLamports < 0 \<or> microLamports > U64_MAX then Inl (InvalidComputeBudget microLamports)
      else Inr \<lparr>programId = COMPUTE_BUDGET_PROGRAM_ID, ix_keys = [], ix_data = 3 # le_bytes 8 (nat microLamports)\<rparr>)"

record simulate_result =
  sr_unitsConsumed :: rat
  sr_unitsLimit :: int

definition FALLBACK_UNITS_CONSUMED :: rat where "FALLBACK_UNITS_CONSUMED = 200000"
definition FALLBACK_UNITS_LIMIT :: int where "FALLBACK_UNITS_LIMIT = 230000"

definition BUDGET_HEADROOM :: "(rat \<Rightarrow> rat) \<Rightarrow> rat" where
  "BUDGET_HEADROOM fl = fl (115 / 100)"

text \<open>The answers of \<open>simulateTransaction\<close>; \<open>unitsConsumed\<close> is \<open>None\<close> when it is not a finite number.\<close>

datatype simulation = CallThrows string | NoValue | SimulationError string | Simulated "rat option"

definition fallback :: "string \<Rightarrow> simulate_result \<times> string list" where
  "fallback reason = (\<lparr>sr_unitsConsumed = FALLBACK_UNITS_CONSUMED, sr_unitsLimit = FALLBACK_UNITS_LIMIT\<rparr>, [reason])"

definition simulateAndBudget :: "(rat \<Rightarrow> rat) \<Rightarrow> simulation \<Rightarrow> simulate_result \<times> string list" where
  "simulateAndBudget fl answer =
     (case answer of
        CallThrows reason \<Rightarrow> fallback reason
      | NoValue \<Rightarrow> fallback ''unexpected response shape - value missing''
      | SimulationError err \<Rightarrow> fallback (''simulation error: '' @ err)
      | Simulated units \<Rightarrow>
          let unitsConsumed = (case units of Some u \<Rightarrow> max 0 u | None \<Rightarrow> FALLBACK_UNITS_CONSUMED) in
          (\<lparr>sr_unitsConsumed = unitsConsumed, sr_unitsLimit = \<lceil>fl (unitsConsumed * BUDGET_HEADROOM fl)\<rceil>\<rparr>, []))"

section \<open>Lookup tables\<close>

definition ADDRESS_LOOKUP_TABLE_PROGRAM_ID :: pubkey where
  "ADDRESS_LOOKUP_TABLE_PROGRAM_ID = projr (fromBase58 ''AddressLookupTab1e1111111111111111111111111'')"

definition MAX_EXTEND_ADDRESSES :: nat where "MAX_EXTEND_ADDRESSES = 30"

definition createLookupTable :: "hashing \<Rightarrow> pubkey \<Rightarrow> pubkey \<Rightarrow> int \<Rightarrow> builder_error + (pubkey \<times> instruction)" where
  "createLookupTable h auth payer recentSlot =
     (if recentSlot < 0 \<or> recentSlot \<ge> 2 ^ 64 then Inl (InvalidLookupTable recentSlot)
      else (case findProgramAddress h [toBuffer auth, le_bytes 8 (nat recentSlot)] ADDRESS_LOOKUP_TABLE_PROGRAM_ID of
              Inl e \<Rightarrow> Inl (LookupTablePda e)
            | Inr (table, bump) \<Rightarrow>
                Inr (table, \<lparr>programId = ADDRESS_LOOKUP_TABLE_PROGRAM_ID,
                  ix_keys = [\<lparr>m_pubkey = table, m_isSigner = False, m_isWritable = True\<rparr>, \<lparr>m_pubkey = auth, m_isSigner = False, m_isWritable = False\<rparr>,
                             \<lparr>m_pubkey = payer, m_isSigner = True, m_isWritable = True\<rparr>, \<lparr>m_pubkey = SYSTEM_PROGRAM_ID, m_isSigner = False, m_isWritable = False\<rparr>],
                  ix_data = le_bytes 4 0 @ le_bytes 8 (nat recentSlot) @ [word_of_nat bump]\<rparr>)))"

definition extendLookupTable :: "pubkey \<Rightarrow> pubkey \<Rightarrow> pubkey \<Rightarrow> pubkey list \<Rightarrow> builder_error + instruction" where
  "extendLookupTable table auth payer addrs =
     (if length addrs < 1 \<or> length addrs > MAX_EXTEND_ADDRESSES then Inl (InvalidLookupTable (int (length addrs)))
      else Inr \<lparr>programId = ADDRESS_LOOKUP_TABLE_PROGRAM_ID,
                ix_keys = [\<lparr>m_pubkey = table, m_isSigner = False, m_isWritable = True\<rparr>, \<lparr>m_pubkey = auth, m_isSigner = True, m_isWritable = False\<rparr>,
                           \<lparr>m_pubkey = payer, m_isSigner = True, m_isWritable = True\<rparr>, \<lparr>m_pubkey = SYSTEM_PROGRAM_ID, m_isSigner = False, m_isWritable = False\<rparr>],
                ix_data = le_bytes 4 2 @ le_bytes 8 (length addrs) @ concat (map toBuffer addrs)\<rparr>)"

section \<open>Bundles\<close>

definition JITO_MAX_TXS_PER_BUNDLE :: nat where "JITO_MAX_TXS_PER_BUNDLE = 5"

definition compose_bundle :: "bytes list \<Rightarrow> builder_error + bytes list" where
  "compose_bundle txs =
     (if length txs = 0 then Inl BundleEmpty
      else if length txs > JITO_MAX_TXS_PER_BUNDLE then Inl (BundleTooLarge (length txs))
      else Inr txs)"

definition tipInstruction :: "pubkey \<Rightarrow> pubkey \<Rightarrow> int \<Rightarrow> builder_error + instruction" where
  "tipInstruction from tipAccount lamports =
     (if lamports \<le> 0 then Inl (InvalidTip lamports) else systemTransfer from tipAccount lamports)"

section \<open>Token transfers\<close>

definition SPL_TOKEN_PROGRAM_ID :: pubkey where
  "SPL_TOKEN_PROGRAM_ID = projr (fromBase58 ''TokenkegQfeZyiNwAJbNbGKPFXCWuBvf9Ss623VQ5DA'')"

definition SPL_TOKEN_2022_PROGRAM_ID :: pubkey where
  "SPL_TOKEN_2022_PROGRAM_ID = projr (fromBase58 ''TokenzQdBNbLqP5VEhdkAS6EPFLC1PHnBqCXEpPxuEb'')"

record instruction_shape =
  is_programId :: pubkey
  is_accounts :: "pubkey list"
  is_data :: bytes

record decoded_transfer =
  dt_source :: pubkey
  dt_dest :: pubkey
  dt_amount :: int

fun read_bits :: "bytes \<Rightarrow> nat \<Rightarrow> nat \<Rightarrow> nat" where
  "read_bits buf offset 0 = 0"
| "read_bits buf offset (Suc k) = or (read_bits buf offset k) (push_bit (k * 8) (unat (buf ! (offset + k))))"

definition readU64LE :: "bytes \<Rightarrow> nat \<Rightarrow> int" where
  "readU64LE buf offset = int (read_bits buf offset 8)"

definition decodeTransferInstruction :: "instruction_shape \<Rightarrow> decoded_transfer option" where
  "decodeTransferInstruction ix =
     (if \<not> pk_equals (is_programId ix) SPL_TOKEN_PROGRAM_ID \<and> \<not> pk_equals (is_programId ix) SPL_TOKEN_2022_PROGRAM_ID then None
      else if length (is_data ix) = 0 then None
      else let variant = is_data ix ! 0 in
        if variant = 3 then
          if length (is_data ix) < 9 \<or> length (is_accounts ix) < 3 then None
          else Some \<lparr>dt_source = is_accounts ix ! 0, dt_dest = is_accounts ix ! 1, dt_amount = readU64LE (is_data ix) 1\<rparr>
        else if variant = 12 then
          if length (is_data ix) < 10 \<or> length (is_accounts ix) < 4 then None
          else Some \<lparr>dt_source = is_accounts ix ! 0, dt_dest = is_accounts ix ! 2, dt_amount = readU64LE (is_data ix) 1\<rparr>
        else None)"

section \<open>A transfer and its bytes\<close>

lemma two_elements: "length xs = 2 \<longleftrightarrow> (\<exists>a b. xs = [a, b])"
  by (auto simp: numeral_2_eq_2 length_Suc_conv)

lemma transfer_data:
  "length bs = 12 \<and> le_val (take 4 bs) = 2 \<and> int (le_val (take 8 (drop 4 bs))) = l \<longleftrightarrow>
   0 \<le> l \<and> l \<le> U64_MAX \<and> bs = le_bytes 4 2 @ le_bytes 8 (nat l)"
proof
  assume a: "length bs = 12 \<and> le_val (take 4 bs) = 2 \<and> int (le_val (take 8 (drop 4 bs))) = l"
  have t: "length (take 4 bs) = 4" "length (drop 4 bs) = 8" "take 8 (drop 4 bs) = drop 4 bs" using a by simp_all
  have "le_bytes 4 2 = take 4 bs" "le_bytes 8 (nat l) = drop 4 bs" using le_bytes_le_val[of "take 4 bs"] le_bytes_le_val[of "drop 4 bs"] a t by auto
  moreover have "le_val (drop 4 bs) < 256 ^ 8" using le_val_bound[of "drop 4 bs"] t by simp
  ultimately show "0 \<le> l \<and> l \<le> U64_MAX \<and> bs = le_bytes 4 2 @ le_bytes 8 (nat l)" using a t by auto
next
  assume a: "0 \<le> l \<and> l \<le> U64_MAX \<and> bs = le_bytes 4 2 @ le_bytes 8 (nat l)"
  then have "nat l < 256 ^ 8" by auto
  then show "length bs = 12 \<and> le_val (take 4 bs) = 2 \<and> int (le_val (take 8 (drop 4 bs))) = l"
    using a by (simp add: le_val_le_bytes_small)
qed

lemma meta_shape: "(\<exists>s. m = \<lparr>m_pubkey = k, m_isSigner = s, m_isWritable = w\<rparr>) \<longleftrightarrow> m_pubkey m = k \<and> m_isWritable m = w"
  by (cases m) auto

lemma parse_transfer_iff:
  "parseSystemTransfer ix = Some \<lparr>st_from = from, st_to = to, st_lamports = l\<rparr> \<longleftrightarrow>
   0 \<le> l \<and> l \<le> U64_MAX \<and>
   (\<exists>toSigns. ix = \<lparr>programId = SYSTEM_PROGRAM_ID,
      ix_keys = [\<lparr>m_pubkey = from, m_isSigner = True, m_isWritable = True\<rparr>, \<lparr>m_pubkey = to, m_isSigner = toSigns, m_isWritable = True\<rparr>],
      ix_data = le_bytes 4 2 @ le_bytes 8 (nat l)\<rparr>)"
proof -
  have "parseSystemTransfer ix = Some \<lparr>st_from = from, st_to = to, st_lamports = l\<rparr> \<longleftrightarrow>
      programId ix = SYSTEM_PROGRAM_ID \<and> length (ix_keys ix) = 2 \<and>
      (length (ix_data ix) = 12 \<and> le_val (take 4 (ix_data ix)) = 2 \<and> int (le_val (take 8 (drop 4 (ix_data ix)))) = l) \<and>
      m_isSigner (ix_keys ix ! 0) \<and> m_isWritable (ix_keys ix ! 0) \<and> m_isWritable (ix_keys ix ! 1) \<and>
      m_pubkey (ix_keys ix ! 0) = from \<and> m_pubkey (ix_keys ix ! 1) = to"
    by (auto simp: parseSystemTransfer_def DATA_LENGTH_def TRANSFER_def Let_def)
  also have "\<dots> \<longleftrightarrow> 0 \<le> l \<and> l \<le> U64_MAX \<and>
     (\<exists>toSigns. ix = \<lparr>programId = SYSTEM_PROGRAM_ID,
        ix_keys = [\<lparr>m_pubkey = from, m_isSigner = True, m_isWritable = True\<rparr>, \<lparr>m_pubkey = to, m_isSigner = toSigns, m_isWritable = True\<rparr>],
        ix_data = le_bytes 4 2 @ le_bytes 8 (nat l)\<rparr>)"
    unfolding transfer_data two_elements by (cases ix) (auto simp: meta_shape intro: account_meta.equality)
  finally show ?thesis .
qed

text \<open>
  A transfer can be built for every amount from 1 to the largest u64 and for no other, and parses to what it was built
  from. The parser accepts exactly the instructions of this form: of the system program, with two accounts, the first signing and
  writable, the second writable, and the twelve bytes of an amount.\<close>

theorem transfer_roundtrip:
  "(case systemTransfer from to lamports of
      Inr ix \<Rightarrow> parseSystemTransfer ix = Some \<lparr>st_from = from, st_to = to, st_lamports = lamports\<rparr>
    | Inl e \<Rightarrow> lamports < 1 \<or> U64_MAX < lamports) \<and>
   (parseSystemTransfer ix = Some \<lparr>st_from = from, st_to = to, st_lamports = lamports\<rparr> \<longleftrightarrow>
    0 \<le> lamports \<and> lamports \<le> U64_MAX \<and>
    (\<exists>toSigns. ix = \<lparr>programId = SYSTEM_PROGRAM_ID,
       ix_keys = [\<lparr>m_pubkey = from, m_isSigner = True, m_isWritable = True\<rparr>, \<lparr>m_pubkey = to, m_isSigner = toSigns, m_isWritable = True\<rparr>],
       ix_data = le_bytes 4 2 @ le_bytes 8 (nat lamports)\<rparr>))"
proof
  show "case systemTransfer from to lamports of
      Inr ix \<Rightarrow> parseSystemTransfer ix = Some \<lparr>st_from = from, st_to = to, st_lamports = lamports\<rparr>
    | Inl e \<Rightarrow> lamports < 1 \<or> U64_MAX < lamports"
    by (auto simp: systemTransfer_def parse_transfer_iff TRANSFER_def split: sum.splits)
qed (rule parse_transfer_iff)

section \<open>A transfer in a compiled message\<close>

lemma built_transfer_parses:
  "systemTransfer from to lamports = Inr ix \<Longrightarrow> parseSystemTransfer ix = Some \<lparr>st_from = from, st_to = to, st_lamports = lamports\<rparr>"
  by (auto simp: systemTransfer_def parse_transfer_iff TRANSFER_def split: if_splits)

lemma effective_transfer:
  assumes "ix \<in> set ixs" and "parseSystemTransfer ix = Some t"
  shows "parseSystemTransfer (effective_instruction (mentions ixs payer) ix) = Some t"
proof -
  obtain src dst l where t: "t = \<lparr>st_from = src, st_to = dst, st_lamports = l\<rparr>" by (cases t) simp
  obtain toSigns where ix: "0 \<le> l" "l \<le> U64_MAX" "ix = \<lparr>programId = SYSTEM_PROGRAM_ID,
      ix_keys = [\<lparr>m_pubkey = src, m_isSigner = True, m_isWritable = True\<rparr>, \<lparr>m_pubkey = dst, m_isSigner = toSigns, m_isWritable = True\<rparr>],
      ix_data = le_bytes 4 2 @ le_bytes 8 (nat l)\<rparr>"
    using assms(2) unfolding t parse_transfer_iff by blast
  have "signs (mentions ixs payer) src" "writes (mentions ixs payer) src" "writes (mentions ixs payer) dst"
    using assms(1) by (auto simp: signs_iff writes_iff ix(3) intro!: disjI2 bexI[of _ ix])
  then show ?thesis unfolding t parse_transfer_iff using ix(1,2) by (simp add: effective_instruction_def effective_meta_def ix(3))
qed

text \<open>
  C40. A transfer put into a message that uses at most one lookup table is found in the message's bytes: after compilation and
  decompilation, the instruction at its place parses to the same payer, receiver and amount, whatever the other
  instructions do with those accounts. With two tables the accounts of a message can be resolved in another order
  (\<open>TransactionProperties.two_tables_misordered\<close>), those of a transfer included.\<close>

theorem compiled_transfer_found:
  assumes "compile_message opts = Inr r" and "length (o_alts opts) \<le> 1"
    and "\<forall>(key, t) \<in> set (map normaliseAlt (o_alts opts)). tables (toBase58 key) = Some (addresses t) \<and> length (addresses t) \<le> 256"
    and "length (r_accountKeys r) \<le> 256" and "numRequiredSignatures (r_compiled r) \<le> 255"
    and "i < length (o_instructions opts)" and "systemTransfer from to lamports = Inr (o_instructions opts ! i)"
  shows "\<exists>d. decompileMessage (r_messageBytes r) tables None = Inr d \<and> i < length (d_instructions d) \<and>
    parseSystemTransfer (d_instructions d ! i) = Some \<lparr>st_from = from, st_to = to, st_lamports = lamports\<rparr>"
proof -
  have c: "r_compiled r = compileAccounts (o_instructions opts) (o_payer opts) (map normaliseAlt (o_alts opts))"
    by (rule compile_message_Inr[OF assms(1)])
  obtain lks where "buildAddressTableLookups (altWritable (r_compiled r)) (altReadonly (r_compiled r)) = Inr lks"
    and "list_all (lookup_ok tables) lks" and "tables_in_order tables (r_compiled r) lks"
    using one_table_lookups[of "map normaliseAlt (o_alts opts)" tables "o_instructions opts" "o_payer opts"] assms(2,3) unfolding c by auto
  note d = decompile_in_order[OF assms(1,4,5) this]
  have "o_instructions opts ! i \<in> set (o_instructions opts)" using assms(6) by simp
  moreover have "parseSystemTransfer (o_instructions opts ! i) = Some \<lparr>st_from = from, st_to = to, st_lamports = lamports\<rparr>"
    by (rule built_transfer_parses[OF assms(7)])
  ultimately show ?thesis using d assms(6) by (simp add: effective_transfer)
qed

section \<open>The budget\<close>

text \<open>
  The limit the simulation recommends is not always one that can be set: for a transaction that used \<open>n\<close> units it can exactly
  from 1 to 1217391 units, as the headroom is not capped at the limit of the runtime, and a limit of zero is refused.\<close>

theorem budget_settable:
  "(\<exists>ix. setComputeUnitLimit (sr_unitsLimit (fst (simulateAndBudget (\<lambda>x. x) (Simulated (Some (of_nat n)))))) = Inr ix) \<longleftrightarrow> 1 \<le> n \<and> n \<le> 1217391"
proof -
  have l: "sr_unitsLimit (fst (simulateAndBudget (\<lambda>x. x) (Simulated (Some (of_nat n))))) = \<lceil>of_nat n * (115 / 100) :: rat\<rceil>"
    by (simp add: simulateAndBudget_def BUDGET_HEADROOM_def Let_def mult.commute)
  have lo: "\<lceil>of_nat n * (115 / 100) :: rat\<rceil> \<le> 0 \<longleftrightarrow> n = 0" by (simp add: ceiling_le_iff)
  have "of_nat n * (115 / 100) \<le> (1400000 :: rat) \<longleftrightarrow> of_nat (n * 115) \<le> (of_nat 140000000 :: rat)" by (simp add: mult.commute)
  also have "\<dots> \<longleftrightarrow> n * 115 \<le> 140000000" by (rule of_nat_le_iff)
  also have "\<dots> \<longleftrightarrow> n \<le> 1217391" by linarith
  finally have hi: "\<lceil>of_nat n * (115 / 100) :: rat\<rceil> \<le> 1400000 \<longleftrightarrow> n \<le> 1217391" by (simp add: ceiling_le_iff)
  show ?thesis unfolding l using lo hi by (auto simp: setComputeUnitLimit_def MAX_COMPUTE_UNITS_def not_le not_less)
qed

section \<open>Token instructions\<close>

lemma read_bits_le_val: "offset + k \<le> length buf \<Longrightarrow> read_bits buf offset k = le_val (take k (drop offset buf))"
proof (induction k)
  case (Suc k)
  have app: "le_val (xs @ [b]) = le_val xs + 256 ^ length xs * unat b" for xs b by (induction xs) (simp_all add: algebra_simps)
  have t: "take (Suc k) (drop offset buf) = take k (drop offset buf) @ [buf ! (offset + k)]" using Suc.prems by (simp add: take_Suc_conv_app_nth)
  let ?v = "le_val (take k (drop offset buf))"
  let ?b = "unat (buf ! (offset + k))"
  have p: "(256 :: nat) ^ k = 2 ^ (k * 8)" by (simp add: power_mult mult.commute [of k 8])
  have b: "?v < 2 ^ (k * 8)" using le_val_bound[of "take k (drop offset buf)"] Suc.prems by (simp add: p)
  have "and ?v (push_bit (k * 8) ?b) = 0" by (subst take_bit_nat_eq_self[OF b, symmetric]) (auto intro!: bit_eqI simp: bit_simps)
  then have "or ?v (push_bit (k * 8) ?b) = ?v + ?b * 2 ^ (k * 8)" by (simp add: disjunctive_add_eq_or push_bit_eq_mult)
  then show ?case using Suc app[of "take k (drop offset buf)" "buf ! (offset + k)"] t by (simp add: p)
qed simp

text \<open>
  The token transfer decoder reads the layouts it documents: \<open>Transfer\<close> with source, destination and owner, and
  \<open>TransferChecked\<close> with source, mint, destination and owner, each followed by anything, for both token programs.\<close>

theorem token_transfer_decodes:
  assumes "program = SPL_TOKEN_PROGRAM_ID \<or> program = SPL_TOKEN_2022_PROGRAM_ID" and "0 \<le> amount" and "amount \<le> U64_MAX"
  shows "decodeTransferInstruction \<lparr>is_programId = program, is_accounts = source # dest # owner # others, is_data = 3 # le_bytes 8 (nat amount) @ rest\<rparr> =
      Some \<lparr>dt_source = source, dt_dest = dest, dt_amount = amount\<rparr> \<and>
    decodeTransferInstruction \<lparr>is_programId = program, is_accounts = source # mint # dest # owner # others,
        is_data = 12 # le_bytes 8 (nat amount) @ decimals # rest\<rparr> =
      Some \<lparr>dt_source = source, dt_dest = dest, dt_amount = amount\<rparr>"
proof -
  have n: "nat amount < 256 ^ 8" using assms(3) by auto
  have r: "readU64LE (v # le_bytes 8 (nat amount) @ xs) 1 = amount" for v xs
    using n assms(2) by (simp add: readU64LE_def read_bits_le_val le_val_le_bytes_small del: read_bits.simps)
  show ?thesis using assms(1) by (auto simp: decodeTransferInstruction_def Let_def r[unfolded One_nat_def])
qed

theorem token_transfer_decodes_witness:
  "decodeTransferInstruction \<lparr>is_programId = SPL_TOKEN_PROGRAM_ID, is_accounts = [key_of 1, key_of 2, key_of 3], is_data = [3, 7, 0, 0, 0, 0, 0, 0, 0]\<rparr> =
     Some \<lparr>dt_source = key_of 1, dt_dest = key_of 2, dt_amount = 7\<rparr>"
  using token_transfer_decodes[of SPL_TOKEN_PROGRAM_ID 7 "key_of 1" "key_of 2" "key_of 3" "[]" "[]"] by (simp add: le_bytes_numeral)

section \<open>A message that pays\<close>

lemma system_key: "SYSTEM_PROGRAM_ID = key_of 0"
proof -
  have "replicate 32 (0 :: byte) = replicate 31 0 @ [0]" by (simp add: numeral_eq_Suc)
  then show ?thesis by (simp add: SYSTEM_PROGRAM_ID_def key_of_def)
qed

definition paying_ix :: instruction where
  "paying_ix = \<lparr>programId = key_of 0,
     ix_keys = [\<lparr>m_pubkey = key_of 1, m_isSigner = True, m_isWritable = True\<rparr>, \<lparr>m_pubkey = key_of 2, m_isSigner = False, m_isWritable = True\<rparr>],
     ix_data = [2, 0, 0, 0, 9, 0, 0, 0, 0, 0, 0, 0]\<rparr>"

lemma paying_built: "systemTransfer (key_of 1) (key_of 2) 9 = Inr paying_ix"
  by (simp add: systemTransfer_def paying_ix_def system_key TRANSFER_def le_bytes_numeral)

definition paying_opts :: compile_options where
  "paying_opts = \<lparr>o_instructions = [paying_ix], o_payer = key_of 1, o_recentBlockhash = base58_encode (replicate 32 7), o_alts = []\<rparr>"

definition paying_compiled :: compiled_accounts where
  "paying_compiled = \<lparr>staticAccounts = map (\<lambda>(n, s, w). \<lparr>a_pubkey = key_of n, a_isSigner = s, a_isWritable = w, a_alt = None\<rparr>)
       [(1, True, True), (2, False, True), (0, False, False)],
     altWritable = [], altReadonly = [], indexByBase58 = [(toBase58 (key_of 1), 0), (toBase58 (key_of 2), 1), (toBase58 (key_of 0), 2)],
     numRequiredSignatures = 1, numReadonlySigned = 0, numReadonlyUnsigned = 1\<rparr>"

lemma paying_compileAccounts: "compileAccounts [paying_ix] (key_of 1) [] = paying_compiled"
  by (simp add: paying_compiled_def compileAccounts_def collect_accounts_def collect_instruction_def upsert_def paying_ix_def
      resolve_alt_def jm_values_def Let_def)

lemma paying_serialized: "\<exists>bytes. serializeMessage paying_compiled [paying_ix] (replicate 32 7) = Inr bytes"
  unfolding serializeMessage_def
  by (simp add: push_compact_small serialize_instruction_def lookup_index_def paying_compiled_def paying_ix_def buildAddressTableLookups_def
      pushCompactArrayU8_def serialize_lookup_def VERSION_V0_def BLOCKHASH_LENGTH_def jm_values_def)

lemma paying_compiles:
  obtains r where "compile_message paying_opts = Inr r" and "length (r_accountKeys r) = 3" and "numRequiredSignatures (r_compiled r) = 1"
proof -
  obtain bytes where s: "serializeMessage paying_compiled [paying_ix] (replicate 32 7) = Inr bytes" using paying_serialized by blast
  have "length (staticAccounts paying_compiled) = 3" "altWritable paying_compiled = []" "altReadonly paying_compiled = []" "numRequiredSignatures paying_compiled = 1"
    by (simp_all add: paying_compiled_def)
  then show thesis using that s
    by (simp add: compile_message_def paying_opts_def base58_decode_encode BLOCKHASH_LENGTH_def paying_compileAccounts Let_def del: One_nat_def)
qed

theorem compiled_transfer_found_witness:
  "\<exists>r d. compile_message paying_opts = Inr r \<and> decompileMessage (r_messageBytes r) (\<lambda>_. None) None = Inr d \<and>
     parseSystemTransfer (d_instructions d ! 0) = Some \<lparr>st_from = key_of 1, st_to = key_of 2, st_lamports = 9\<rparr>"
proof -
  obtain r where r: "compile_message paying_opts = Inr r" "length (r_accountKeys r) = 3" "numRequiredSignatures (r_compiled r) = 1"
    by (rule paying_compiles)
  have "systemTransfer (key_of 1) (key_of 2) 9 = Inr (o_instructions paying_opts ! 0)" by (simp add: paying_built paying_opts_def del: One_nat_def)
  then have "\<exists>d. decompileMessage (r_messageBytes r) (\<lambda>_. None) None = Inr d \<and> 0 < length (d_instructions d) \<and>
      parseSystemTransfer (d_instructions d ! 0) = Some \<lparr>st_from = key_of 1, st_to = key_of 2, st_lamports = 9\<rparr>"
    by (intro compiled_transfer_found[OF r(1)]) (simp_all add: r paying_opts_def)
  then show ?thesis using r(1) by blast
qed

end
