(* ===== verification/Backtest.thy ===== *)
theory Backtest
  imports Complex_Main Runtime
begin

text \<open>
  \<open>packages/solana-strategy/src/backtest.ts\<close>: the backtest harness, which runs a strategy on the runtime of
  \<open>Runtime\<close> with a simulated executor and a portfolio in memory. The harness is an environment of that runtime, over a world
  of its own: its random numbers, its portfolio and its logs. The strategy, the clock and the callback
  from intents to trades are parameters; \<open>bo_clock n\<close> is the answer to the harness's reading number \<open>n\<close> of the clock,
  whatever the runtime reads in between. \<open>fl\<close> rounds a result to the nearest double.
\<close>

unbundle bit_operations_syntax

section \<open>Random numbers\<close>

type_synonym mulberry = "32 word"

definition mulberry32 :: "mulberry \<Rightarrow> rat \<times> mulberry" where
  "mulberry32 s =
     (let s = s + 0x6d2b79f5;
          t = (s XOR drop_bit 15 s) * (1 OR s);
          t = t + (t XOR drop_bit 7 t) * (61 OR t)
      in (of_nat (unat (t XOR drop_bit 14 t)) / 4294967296, s))"

section \<open>The portfolio in memory\<close>

record realized_event =
  re_wallet :: pubkey
  re_mint :: pubkey
  re_realized :: int
  re_slot :: nat

record pnl_point =
  pp_tsMs :: int
  pp_slot :: nat
  pp_realized :: int
  pp_cumulative :: int

record sim_portfolio =
  sp_positions :: "(string, (string, position) jsmap) jsmap"
  sp_realizedPnl :: "(string, int) jsmap"

definition new_portfolio :: sim_portfolio where
  "new_portfolio = \<lparr>sp_positions = [], sp_realizedPnl = []\<rparr>"

definition pnl_key :: "pubkey \<Rightarrow> pubkey \<Rightarrow> string" where
  "pnl_key wallet mint = toBase58 wallet @ '':'' @ toBase58 mint"

definition sim_getAllPositions :: "pubkey \<Rightarrow> sim_portfolio \<Rightarrow> position list" where
  "sim_getAllPositions wallet p = (case jm_get (sp_positions p) (toBase58 wallet) of Some byMint \<Rightarrow> jm_values byMint | None \<Rightarrow> [])"

definition sim_getPosition :: "pubkey \<Rightarrow> pubkey \<Rightarrow> sim_portfolio \<Rightarrow> position option" where
  "sim_getPosition wallet mint p = Option.bind (jm_get (sp_positions p) (toBase58 wallet)) (\<lambda>byMint. jm_get byMint (toBase58 mint))"

definition sim_getRealizedPnl :: "pubkey \<Rightarrow> pubkey \<Rightarrow> sim_portfolio \<Rightarrow> int" where
  "sim_getRealizedPnl wallet mint p = (case jm_get (sp_realizedPnl p) (pnl_key wallet mint) of Some v \<Rightarrow> v | None \<Rightarrow> 0)"

definition sim_getUnrealizedPnl :: "pubkey \<Rightarrow> pubkey \<Rightarrow> int \<Rightarrow> sim_portfolio \<Rightarrow> bigint_error + int" where
  "sim_getUnrealizedPnl wallet mint price p = (case sim_getPosition wallet mint p of Some pos \<Rightarrow> unrealizedPnl (ps_lots pos) price | None \<Rightarrow> Inr 0)"

text \<open>The position after the trade, and the realized profit of a sale: what is sold is at most what is held.\<close>

definition sim_trade :: "landed_trade \<Rightarrow> position \<Rightarrow> accounting_error + (position \<times> int option)" where
  "sim_trade t pos =
     (if lt_amountDelta t > 0 then Inr (pos\<lparr>ps_lots := ps_lots pos @ [bought_lot t], ps_lastUpdatedSlot := lt_slot t\<rparr>, None)
      else if lt_amountDelta t < 0
      then (let held = sum_amount (ps_lots pos); sold = (if - lt_amountDelta t < held then - lt_amountDelta t else held)
            in rbind (reduceLots (ps_lots pos) sold (if lt_solFlowLamports t > 0 then lt_solFlowLamports t else 0) FIFO) (\<lambda>r.
               Inr (pos\<lparr>ps_lots := rr_remaining r, ps_lastUpdatedSlot := lt_slot t\<rparr>, Some (rr_realized r))))
      else Inr (pos, None))"

text \<open>The map of the wallet is created before the trade is worked out, and stays if that throws.\<close>

definition sim_apply :: "landed_trade \<Rightarrow> sim_portfolio \<Rightarrow> (accounting_error + (position_change \<times> realized_event option)) \<times> sim_portfolio" where
  "sim_apply t p =
     (let walletStr = toBase58 (lt_wallet t); mintStr = toBase58 (lt_mint t);
          positions = (if jm_has (sp_positions p) walletStr then sp_positions p else jm_set (sp_positions p) walletStr []);
          byMint = (case jm_get positions walletStr of Some m \<Rightarrow> m | None \<Rightarrow> []);
          existing = jm_get byMint mintStr;
          pos = (case existing of Some pos \<Rightarrow> pos | None \<Rightarrow> \<lparr>ps_mint = lt_mint t, ps_wallet = lt_wallet t, ps_lots = [], ps_lastUpdatedSlot = 0\<rparr>)
      in case sim_trade t pos of
           Inl e \<Rightarrow> (Inl e, p\<lparr>sp_positions := positions\<rparr>)
         | Inr (pos, realized) \<Rightarrow>
             (Inr (\<lparr>pc_wallet = lt_wallet t, pc_mint = lt_mint t, pc_before = existing, pc_after = pos, pc_reason = ApplyLandedTrade\<rparr>,
                   map_option (\<lambda>v. \<lparr>re_wallet = lt_wallet t, re_mint = lt_mint t, re_realized = v, re_slot = lt_slot t\<rparr>) realized),
              \<lparr>sp_positions = jm_set positions walletStr (jm_set byMint mintStr pos),
               sp_realizedPnl = (case realized of
                   None \<Rightarrow> sp_realizedPnl p
                 | Some v \<Rightarrow> jm_set (sp_realizedPnl p) (pnl_key (lt_wallet t) (lt_mint t))
                     ((case jm_get (sp_realizedPnl p) (pnl_key (lt_wallet t) (lt_mint t)) of Some x \<Rightarrow> x | None \<Rightarrow> 0) + v))\<rparr>))"

definition totalRealizedPnl :: "sim_portfolio \<Rightarrow> int" where
  "totalRealizedPnl p = foldl (+) 0 (jm_values (sp_realizedPnl p))"

definition allPositionsFlat :: "sim_portfolio \<Rightarrow> position list" where
  "allPositionsFlat p = concat (map jm_values (jm_values (sp_positions p)))"

section \<open>The world of the harness\<close>

record decision_entry =
  de_intentId :: string
  de_signalId :: string
  de_tsMs :: int

datatype lifecycle_meta = NoMeta | SignalMeta string | ResultMeta string string | TickMeta int

record lifecycle_entry =
  le_phase :: hook_phase
  le_tsMs :: int
  le_meta :: lifecycle_meta

record ('s, 'g) bt_world =
  bw_strategy :: 's
  bw_rng :: 'g
  bw_reads :: nat
  bw_portfolio :: sim_portfolio
  bw_pnlSeries :: "pnl_point list"
  bw_trades :: "intent list"
  bw_decisionLog :: "decision_entry list"
  bw_lifecycleLog :: "lifecycle_entry list"
  bw_signalIds :: "(string, string) jsmap"
  bw_pending :: "string option"

record sim_config =
  sc_landingSuccessRate :: "rat option"
  sc_minLatencyMs :: "int option"
  sc_maxLatencyMs :: "int option"

record ('s, 'g, 'd) bt_opts =
  bo_strategy :: strategy
  bo_onSignal :: "'d signal \<Rightarrow> sim_portfolio \<Rightarrow> 's \<Rightarrow> (string + intent option) \<times> 's"
  bo_hook :: "hook_call \<Rightarrow> sim_portfolio \<Rightarrow> 's \<Rightarrow> string option \<times> 's"
  bo_intentToTrade :: "(intent \<Rightarrow> exec_result \<Rightarrow> 's \<Rightarrow> (string + landed_trade list) \<times> 's) option"
  bo_clock :: "nat \<Rightarrow> int"
  bo_runtime_clock :: "('s, 'g) bt_world \<Rightarrow> int"
  bo_rng :: "'g \<Rightarrow> rat \<times> 'g"
  bo_config :: sim_config
  bo_guards :: guard_config
  bo_hashing :: hashing

definition new_world :: "'s \<Rightarrow> 'g \<Rightarrow> ('s, 'g) bt_world" where
  "new_world s g = \<lparr>bw_strategy = s, bw_rng = g, bw_reads = 0, bw_portfolio = new_portfolio, bw_pnlSeries = [], bw_trades = [],
     bw_decisionLog = [], bw_lifecycleLog = [], bw_signalIds = [], bw_pending = None\<rparr>"

definition read_clock :: "('s, 'g, 'd) bt_opts \<Rightarrow> ('s, 'g) bt_world \<Rightarrow> int \<times> ('s, 'g) bt_world" where
  "read_clock bo w = (bo_clock bo (bw_reads w), w\<lparr>bw_reads := bw_reads w + 1\<rparr>)"

definition draw :: "('s, 'g, 'd) bt_opts \<Rightarrow> ('s, 'g) bt_world \<Rightarrow> rat \<times> ('s, 'g) bt_world" where
  "draw bo w = (case bo_rng bo (bw_rng w) of (x, g) \<Rightarrow> (x, w\<lparr>bw_rng := g\<rparr>))"

section \<open>The simulated executor\<close>

text \<open>The listener of \<open>realized-pnl\<close>.\<close>

definition on_realized :: "('s, 'g, 'd) bt_opts \<Rightarrow> realized_event \<Rightarrow> ('s, 'g) bt_world \<Rightarrow> ('s, 'g) bt_world" where
  "on_realized bo e w =
     (let cumulative = (if bw_pnlSeries w = [] then 0 else pp_cumulative (last (bw_pnlSeries w))) + re_realized e;
          (ts, w) = read_clock bo w
      in w\<lparr>bw_pnlSeries := bw_pnlSeries w @ [\<lparr>pp_tsMs = ts, pp_slot = re_slot e, pp_realized = re_realized e, pp_cumulative = cumulative\<rparr>]\<rparr>)"

definition world_apply :: "('s, 'g, 'd) bt_opts \<Rightarrow> landed_trade \<Rightarrow> ('s, 'g) bt_world \<Rightarrow> (accounting_error + position_change) \<times> ('s, 'g) bt_world" where
  "world_apply bo t w =
     (case sim_apply t (bw_portfolio w) of
        (Inl e, p) \<Rightarrow> (Inl e, w\<lparr>bw_portfolio := p\<rparr>)
      | (Inr (change, None), p) \<Rightarrow> (Inr change, w\<lparr>bw_portfolio := p\<rparr>)
      | (Inr (change, Some e), p) \<Rightarrow> (Inr change, on_realized bo e (w\<lparr>bw_portfolio := p\<rparr>)))"

fun apply_all :: "('s, 'g, 'd) bt_opts \<Rightarrow> landed_trade list \<Rightarrow> ('s, 'g) bt_world \<Rightarrow> (accounting_error + position_change list) \<times> ('s, 'g) bt_world" where
  "apply_all bo [] w = (Inr [], w)"
| "apply_all bo (t # ts) w =
     (case world_apply bo t w of
        (Inl e, w) \<Rightarrow> (Inl e, w)
      | (Inr c, w) \<Rightarrow> (case apply_all bo ts w of (res, w) \<Rightarrow> (map_sum id (Cons c) res, w)))"

text \<open>\<open>latency\<close> draws one number and reads the clock that many times.\<close>

definition latency :: "(rat \<Rightarrow> rat) \<Rightarrow> ('s, 'g, 'd) bt_opts \<Rightarrow> ('s, 'g) bt_world \<Rightarrow> int \<times> ('s, 'g) bt_world" where
  "latency fl bo w =
     (let least = (case sc_minLatencyMs (bo_config bo) of Some n \<Rightarrow> n | None \<Rightarrow> 0); most = (case sc_maxLatencyMs (bo_config bo) of Some n \<Rightarrow> n | None \<Rightarrow> 0)
      in if least > 0 \<or> most > 0
         then (let (x, w) = draw bo w; l = least + \<lfloor>fl (x * of_int (most - least + 1))\<rfloor>
               in (l, ((\<lambda>w. snd (read_clock bo w)) ^^ nat l) w))
         else (0, w))"

definition record_decision :: "intent \<Rightarrow> int \<Rightarrow> ('s, 'g) bt_world \<Rightarrow> ('s, 'g) bt_world" where
  "record_decision i landedAt w = w\<lparr>bw_decisionLog := bw_decisionLog w @
     [\<lparr>de_intentId = intentId i, de_signalId = (case jm_get (bw_signalIds w) (intentId i) of Some s \<Rightarrow> s | None \<Rightarrow> []), de_tsMs = landedAt\<rparr>]\<rparr>"

definition sim_submit :: "(rat \<Rightarrow> rat) \<Rightarrow> ('s, 'g, 'd) bt_opts \<Rightarrow> intent \<Rightarrow> ('s, 'g) bt_world \<Rightarrow> (string + exec_result) \<times> ('s, 'g) bt_world" where
  "sim_submit fl bo i w =
     (let w = w\<lparr>bw_trades := bw_trades w @ [i]\<rparr>;
          (slot, w) = latency fl bo w;
          (landedAt, w) = read_clock bo w;
          (x, w) = draw bo w;
          rate = (case sc_landingSuccessRate (bo_config bo) of Some r \<Rightarrow> r | None \<Rightarrow> 1)
      in if x < rate
         then (let result = Landed (intentId i) (''sim-'' @ intentId i) (nat slot) ''simulated'' landedAt
               in case bo_intentToTrade bo of
                    None \<Rightarrow> (Inr result, record_decision i landedAt w)
                  | Some toTrades \<Rightarrow>
                      (case toTrades i result (bw_strategy w) of
                         (Inl e, s) \<Rightarrow> (Inl e, w\<lparr>bw_strategy := s\<rparr>)
                       | (Inr trades, s) \<Rightarrow>
                           (case apply_all bo trades (w\<lparr>bw_strategy := s\<rparr>) of
                              (Inl e, w) \<Rightarrow> (Inl ''reduceLots'', w)
                            | (Inr changes, w) \<Rightarrow> (Inr result, record_decision i landedAt w))))
         else (Inr (Rejected (intentId i) (Some ''simulated'') ''simulated_failure'' ''Simulated execution failure''), record_decision i landedAt w))"

text \<open>The wrapper that \<open>runBacktest\<close> installs: the pending signal becomes that of the intent.\<close>

definition wrapped_submit :: "(rat \<Rightarrow> rat) \<Rightarrow> ('s, 'g, 'd) bt_opts \<Rightarrow> intent \<Rightarrow> ('s, 'g) bt_world \<Rightarrow> (string + exec_result) \<times> ('s, 'g) bt_world" where
  "wrapped_submit fl bo i w =
     sim_submit fl bo i (case bw_pending w of
       Some signal \<Rightarrow> w\<lparr>bw_signalIds := jm_set (bw_signalIds w) (intentId i) signal, bw_pending := None\<rparr>
     | None \<Rightarrow> w)"

section \<open>The instrumented strategy\<close>

definition logPhase :: "('s, 'g, 'd) bt_opts \<Rightarrow> hook_phase \<Rightarrow> lifecycle_meta \<Rightarrow> ('s, 'g) bt_world \<Rightarrow> ('s, 'g) bt_world" where
  "logPhase bo phase meta w =
     (let (ts, w) = read_clock bo w in w\<lparr>bw_lifecycleLog := bw_lifecycleLog w @ [\<lparr>le_phase = phase, le_tsMs = ts, le_meta = meta\<rparr>]\<rparr>)"

text \<open>The hooks it passes on; \<open>onBalanceChange\<close> is not one of them.\<close>

definition instrumented :: "strategy \<Rightarrow> strategy" where
  "instrumented inner = inner\<lparr>sy_has := (\<lambda>phase. phase \<noteq> BalanceChangePhase \<and> sy_has inner phase)\<rparr>"

definition instrumented_onSignal :: "('s, 'g, 'd) bt_opts \<Rightarrow> 'd signal \<Rightarrow> ('s, 'g) bt_world \<Rightarrow> (string + intent option) \<times> ('s, 'g) bt_world" where
  "instrumented_onSignal bo sig w =
     (let w = logPhase bo SignalPhase (SignalMeta (sl_signalId sig)) w
      in case bo_onSignal bo sig (bw_portfolio w) (bw_strategy w) of
           (Inr (Some decision), s) \<Rightarrow> (Inr (Some decision), w\<lparr>bw_strategy := s, bw_pending := Some (sl_signalId sig)\<rparr>)
         | (res, s) \<Rightarrow> (res, w\<lparr>bw_strategy := s\<rparr>))"

fun result_meta :: "exec_result \<Rightarrow> lifecycle_meta" where
  "result_meta (Landed i _ _ _ _) = ResultMeta ''landed'' i"
| "result_meta (Reverted i _ _ _ _ _) = ResultMeta ''reverted'' i"
| "result_meta (TimedOut i _ _) = ResultMeta ''timeout'' i"
| "result_meta (Rejected i _ _ _) = ResultMeta ''rejected'' i"

definition hook_meta :: "hook_call \<Rightarrow> lifecycle_meta" where
  "hook_meta c = (case c of OnExecutionResult result \<Rightarrow> result_meta result | OnTick tsMs \<Rightarrow> TickMeta tsMs | _ \<Rightarrow> NoMeta)"

definition instrumented_hook :: "('s, 'g, 'd) bt_opts \<Rightarrow> hook_call \<Rightarrow> ('s, 'g) bt_world \<Rightarrow> string option \<times> ('s, 'g) bt_world" where
  "instrumented_hook bo c w =
     (let w = logPhase bo (phase_of c) (hook_meta c) w
      in case bo_hook bo c (bw_portfolio w) (bw_strategy w) of (res, s) \<Rightarrow> (res, w\<lparr>bw_strategy := s\<rparr>))"

section \<open>The wallets\<close>

text \<open>A name is the list of its UTF-16 code units, of which the low byte counts.\<close>

fun spread :: "nat \<Rightarrow> nat \<Rightarrow> byte \<Rightarrow> bytes" where
  "spread 0 i b = []"
| "spread (Suc n) i b = (let b = b * 31 + of_nat i in b # spread n (Suc i) b)"

definition address_bytes :: "nat list \<Rightarrow> bytes" where
  "address_bytes name =
     (let bs = map of_nat (take 32 name) in bs @ spread (32 - length name) (length name) (if bs = [] then 0 else last bs))"

definition deterministicAddress :: "nat list \<Rightarrow> pubkey" where
  "deterministicAddress name = Abs_pubkey (address_bytes name)"

section \<open>The run\<close>

definition backtest_env :: "(rat \<Rightarrow> rat) \<Rightarrow> ('s, 'g, 'd) bt_opts \<Rightarrow> (('s, 'g) bt_world, 'd) runtime_env" where
  "backtest_env fl bo =
     \<lparr>v_onSignal = (\<lambda>_. instrumented_onSignal bo), v_hook = (\<lambda>_. instrumented_hook bo), v_submit = wrapped_submit fl bo,
      v_resolveWallet = (\<lambda>name w. (Inr (deterministicAddress (map of_char name)), w)), v_getTransaction = (\<lambda>_ _. Inr None),
      v_clock = bo_runtime_clock bo, v_guards = bo_guards bo, v_hashing = bo_hashing bo\<rparr>"

text \<open>
  \<open>runBacktest\<close> up to its result: one instance is registered, the runtime started, and signals, results, changes and tasks
  follow in the order of \<open>ls\<close>, in which nothing else is registered.\<close>

definition runBacktest :: "(rat \<Rightarrow> rat) \<Rightarrow> ('s, 'g, 'd) bt_opts \<Rightarrow> 's \<Rightarrow> 'g \<Rightarrow> 'd runtime_label list \<Rightarrow> (('s, 'g) bt_world, 'd) runtime option" where
  "runBacktest fl bo s g ls =
     runtime_steps (backtest_env fl bo) (Register (instrumented (bo_strategy bo)) None # StartRuntime # ls)
       (new_runtime (new_world s g) \<lparr>st_files = (\<lambda>_. None), st_events = []\<rparr>)"

section \<open>The result\<close>

fun drawdown_from :: "int \<Rightarrow> int \<Rightarrow> int list \<Rightarrow> int" where
  "drawdown_from peak worst [] = worst"
| "drawdown_from peak worst (v # vs) =
     (let peak = (if v > peak then v else peak) in drawdown_from peak (if peak - v > worst then peak - v else worst) vs)"

definition maxDrawdown :: "int list \<Rightarrow> int" where
  "maxDrawdown cumulative = drawdown_from 0 0 cumulative"

text \<open>\<open>sq\<close> is the square root of doubles.\<close>

definition sharpeRatio :: "(rat \<Rightarrow> rat) \<Rightarrow> (rat \<Rightarrow> rat) \<Rightarrow> int list \<Rightarrow> rat option" where
  "sharpeRatio fl sq returns =
     (if length returns < 2 then None
      else let xs = map (\<lambda>v. fl (of_int v)) returns;
               mean = fl (foldl (\<lambda>a b. fl (a + b)) 0 xs / of_nat (length xs));
               variance = fl (foldl (\<lambda>a b. fl (a + fl (fl (b - mean) ^ 2))) 0 xs / of_nat (length xs - 1))
           in if variance = 0 then None else Some (fl (mean / sq variance)))"

fun unrealized_sum :: "(string, int) jsmap \<Rightarrow> position list \<Rightarrow> int \<Rightarrow> bigint_error + int" where
  "unrealized_sum prices [] acc = Inr acc"
| "unrealized_sum prices (p # ps) acc =
     (case jm_get prices (toBase58 (ps_mint p)) of
        None \<Rightarrow> unrealized_sum prices ps acc
      | Some price \<Rightarrow> rbind (unrealizedPnl (ps_lots p) price) (\<lambda>v. unrealized_sum prices ps (acc + v)))"

record backtest_result =
  br_trades :: "intent list"
  br_realizedPnl :: int
  br_decisionLog :: "decision_entry list"
  br_lifecycleLog :: "lifecycle_entry list"
  br_finalPositions :: "position list"
  br_unrealizedPnl :: int
  br_pnlSeries :: "pnl_point list"
  br_maxDrawdown :: int
  br_sharpe :: "rat option"

definition build_result :: "(rat \<Rightarrow> rat) \<Rightarrow> (rat \<Rightarrow> rat) \<Rightarrow> (string, int) jsmap \<Rightarrow> ('s, 'g) bt_world \<Rightarrow> bigint_error + backtest_result" where
  "build_result fl sq finalPrices w =
     (let finalPositions = allPositionsFlat (bw_portfolio w) in
      rbind (unrealized_sum finalPrices finalPositions 0) (\<lambda>unrealized.
      Inr \<lparr>br_trades = bw_trades w, br_realizedPnl = totalRealizedPnl (bw_portfolio w), br_decisionLog = bw_decisionLog w,
           br_lifecycleLog = bw_lifecycleLog w, br_finalPositions = finalPositions, br_unrealizedPnl = unrealized, br_pnlSeries = bw_pnlSeries w,
           br_maxDrawdown = maxDrawdown (map pp_cumulative (bw_pnlSeries w)), br_sharpe = sharpeRatio fl sq (map pp_realized (bw_pnlSeries w))\<rparr>))"

section \<open>The portfolio in memory follows the file store\<close>

lemma base58_chars: "set (toBase58 pk) \<subseteq> set ALPHABET"
proof -
  have "set (base58_encode bs) \<subseteq> set ALPHABET" for bs
    using radix_digits[of 58 _ "bytes_to_int bs"] by (auto simp: base58_encode_eq)
  then show ?thesis by (simp add: toBase58_def)
qed

lemma pnl_key_eq [simp]: "pnl_key w m = pnl_key w' m' \<longleftrightarrow> w = w' \<and> m = m'"
proof -
  have c: "CHR '':'' \<notin> set (toBase58 pk)" for pk using base58_chars[of pk] by (auto simp: ALPHABET_def)
  have "takeWhile (\<lambda>c. c \<noteq> CHR '':'') (pnl_key w m) = toBase58 w" for w m
    using c[of w] by (simp add: pnl_key_def takeWhile_tail) (metis (full_types) takeWhile_eq_all_conv)
  then show ?thesis by (metis pnl_key_def same_append_eq toBase58_eq_iff)
qed

definition by_mint :: "pubkey \<Rightarrow> sim_portfolio \<Rightarrow> (string, position) jsmap" where
  "by_mint w p = (case jm_get (sp_positions p) (toBase58 w) of Some m \<Rightarrow> m | None \<Rightarrow> [])"

definition keyed :: "position list \<Rightarrow> (string, position) jsmap" where
  "keyed ps = map (\<lambda>p. (toBase58 (ps_mint p), p)) ps"

lemma keyed_get: "jm_get (keyed ps) (toBase58 m) = find_position m ps"
  unfolding keyed_def find_position_def by (induction ps) auto

lemma keyed_set: "jm_set (keyed ps) (toBase58 (ps_mint pos)) pos = keyed (put_position pos ps)"
  unfolding keyed_def by (induction ps) auto

lemma keyed_values: "jm_values (keyed ps) = ps"
  by (simp add: keyed_def jm_values_def comp_def)

definition mirrors :: "sim_portfolio \<Rightarrow> store \<Rightarrow> bool" where
  "mirrors p s \<longleftrightarrow> (\<forall>w. by_mint w p = keyed (wd_positions (load_or_empty w s)) \<and> wd_method (load_or_empty w s) = None \<and>
     (\<forall>m. jm_get (sp_realizedPnl p) (pnl_key w m) = jm_get (wd_realizedByMint (load_or_empty w s)) (toBase58 m)))"

lemma sim_apply_by_mint:
  assumes "sim_apply t p = (Inr (c, e), p')"
  shows "by_mint w p' = (if w = lt_wallet t then jm_set (by_mint w p) (toBase58 (lt_mint t)) (pc_after c) else by_mint w p)"
  using assms by (auto simp: sim_apply_def by_mint_def Let_def jm_get_set jm_has_def split: sum.splits prod.splits option.splits)

lemma sim_apply_step:
  assumes "pos = (case jm_get (by_mint (lt_wallet t) p) (toBase58 (lt_mint t)) of Some pos \<Rightarrow> pos
      | None \<Rightarrow> \<lparr>ps_mint = lt_mint t, ps_wallet = lt_wallet t, ps_lots = [], ps_lastUpdatedSlot = 0\<rparr>)"
    and "sim_trade t pos = Inr (pos', v)"
  shows "\<exists>ev p'. sim_apply t p = (Inr (\<lparr>pc_wallet = lt_wallet t, pc_mint = lt_mint t, pc_before = jm_get (by_mint (lt_wallet t) p) (toBase58 (lt_mint t)),
      pc_after = pos', pc_reason = ApplyLandedTrade\<rparr>, ev), p') \<and>
    sp_realizedPnl p' = (case v of None \<Rightarrow> sp_realizedPnl p | Some v \<Rightarrow> jm_set (sp_realizedPnl p) (pnl_key (lt_wallet t) (lt_mint t))
      ((case jm_get (sp_realizedPnl p) (pnl_key (lt_wallet t) (lt_mint t)) of Some x \<Rightarrow> x | None \<Rightarrow> 0) + v))"
proof -
  let ?positions = "if jm_has (sp_positions p) (toBase58 (lt_wallet t)) then sp_positions p else jm_set (sp_positions p) (toBase58 (lt_wallet t)) []"
  have "(case jm_get ?positions (toBase58 (lt_wallet t)) of Some m \<Rightarrow> m | None \<Rightarrow> []) = by_mint (lt_wallet t) p"
    by (auto simp: by_mint_def jm_has_def jm_get_set)
  then show ?thesis using assms by (simp add: sim_apply_def Let_def)
qed

lemma sim_trade_effect:
  assumes eff: "trade_effect t d = Inr (pos, d', evs)" and "wd_method d = None"
    and "0 \<le> sum_amount (ps_lots (trade_position t d)) + lt_amountDelta t"
  shows "\<exists>v. sim_trade t (trade_position t d) = Inr (pos, v) \<and> d' = (case v of None \<Rightarrow> d | Some v \<Rightarrow> add_realized (toBase58 (lt_mint t)) v d)"
proof -
  let ?lots = "ps_lots (trade_position t d)"
  consider "lt_amountDelta t > 0" | "lt_amountDelta t = 0" | "lt_amountDelta t < 0" by linarith
  then show ?thesis
  proof cases
    case 3
    have sold: "(if - lt_amountDelta t < sum_amount ?lots then - lt_amountDelta t else sum_amount ?lots) = - lt_amountDelta t"
      using assms(3) by simp
    let ?r = "reduceLots ?lots (- lt_amountDelta t) (if lt_solFlowLamports t > 0 then lt_solFlowLamports t else 0) FIFO"
    show ?thesis
    proof (cases ?r)
      case (Inl e)
      then show ?thesis using eff 3 assms(2) by (simp add: trade_effect_def Let_def)
    next
      case (Inr r)
      then show ?thesis using eff 3 assms(2)
        by (intro exI[of _ "Some (rr_realized r)"]) (simp add: trade_effect_def sim_trade_def Let_def sold result_simps)
    qed
  qed (use eff in \<open>auto simp: trade_effect_def sim_trade_def Let_def\<close>)
qed

lemma sim_matches:
  assumes m: "mirrors p s" and ok: "store_ok s" and a: "applyLandedTrade t s = (Inr cs, s')"
  shows "\<exists>c e p'. sim_apply t p = (Inr (c, e), p') \<and> cs = [c] \<and> mirrors p' s' \<and> store_ok s'"
proof -
  let ?w = "lt_wallet t" and ?d = "load_or_empty (lt_wallet t) s"
  let ?pos = "trade_position t ?d" and ?key = "pnl_key (lt_wallet t) (lt_mint t)"
  obtain pos d' evs where eff: "trade_effect t ?d = Inr (pos, d', evs)"
    and cs: "cs = [\<lparr>pc_wallet = ?w, pc_mint = lt_mint t, pc_before = find_position (lt_mint t) (wd_positions ?d), pc_after = pos, pc_reason = ApplyLandedTrade\<rparr>]"
    and s': "s' = write_wallet ?w (d'\<lparr>wd_positions := put_position pos (wd_positions d')\<rparr>)
       (evs @ [Changed \<lparr>pc_wallet = ?w, pc_mint = lt_mint t, pc_before = find_position (lt_mint t) (wd_positions ?d), pc_after = pos, pc_reason = ApplyLandedTrade\<rparr>]) s"
    using a by (auto simp: applyLandedTrade_def Let_def split: sum.splits)
  have e: "0 \<le> sum_amount (ps_lots ?pos) + lt_amountDelta t" "ps_mint pos = lt_mint t" "wd_positions d' = wd_positions ?d" "wd_method d' = wd_method ?d"
    "positive (ps_lots pos)"
    using trade_effect_ok[OF wallet_ok_load[OF ok], of t ?w] eff by simp_all
  have meth: "wd_method ?d = None" using m by (simp add: mirrors_def)
  have ex: "jm_get (by_mint ?w p) (toBase58 (lt_mint t)) = find_position (lt_mint t) (wd_positions ?d)"
    using m by (simp add: mirrors_def keyed_get)
  obtain v where tr: "sim_trade t ?pos = Inr (pos, v)" and d': "d' = (case v of None \<Rightarrow> ?d | Some v \<Rightarrow> add_realized (toBase58 (lt_mint t)) v ?d)"
    using sim_trade_effect[OF eff meth e(1)] by blast
  let ?c = "\<lparr>pc_wallet = ?w, pc_mint = lt_mint t, pc_before = find_position (lt_mint t) (wd_positions ?d), pc_after = pos, pc_reason = ApplyLandedTrade\<rparr>"
  let ?old = "case jm_get (sp_realizedPnl p) ?key of Some x \<Rightarrow> x | None \<Rightarrow> 0"
  obtain p' ev where ap: "sim_apply t p = (Inr (?c, ev), p')"
    "sp_realizedPnl p' = (case v of None \<Rightarrow> sp_realizedPnl p | Some v \<Rightarrow> jm_set (sp_realizedPnl p) ?key (?old + v))"
    using sim_apply_step[where p = p, OF _ tr] ex by (auto simp: trade_position_def)
  have ld: "load_or_empty w s' = (if w = ?w then d'\<lparr>wd_positions := put_position pos (wd_positions ?d)\<rparr> else load_or_empty w s)" for w
    by (simp add: s' e(3))
  have rel: "by_mint w p' = keyed (wd_positions (load_or_empty w s'))" for w
    using m sim_apply_by_mint[OF ap(1), of w] keyed_set[of "wd_positions ?d" pos] by (simp add: ld mirrors_def e(2))
  have old: "?old = (case jm_get (wd_realizedByMint ?d) (toBase58 (lt_mint t)) of Some x \<Rightarrow> x | None \<Rightarrow> 0)" using m by (simp add: mirrors_def)
  have re: "jm_get (sp_realizedPnl p') (pnl_key w k) = jm_get (wd_realizedByMint (load_or_empty w s')) (toBase58 k)" for w k
    using m old by (cases v) (auto simp: ap(2) ld d' add_realized_def jm_get_set mirrors_def)
  have "store_ok s'" unfolding s'
    by (rule store_ok_write[OF ok]) (use wallet_ok_load[OF ok, of ?w] wallet_ok_put[of d' pos] e in \<open>simp add: wallet_ok_def\<close>)
  moreover have "mirrors p' s'" using rel re m meth e(4) by (auto simp: mirrors_def ld)
  ultimately show ?thesis using ap(1) cs by blast
qed

fun store_all :: "landed_trade list \<Rightarrow> store \<Rightarrow> (store_error + position_change list) \<times> store" where
  "store_all [] s = (Inr [], s)"
| "store_all (t # ts) s =
     (case applyLandedTrade t s of
        (Inl e, s) \<Rightarrow> (Inl e, s)
      | (Inr cs, s) \<Rightarrow> (case store_all ts s of (res, s) \<Rightarrow> (map_sum id ((@) cs) res, s)))"

lemma world_apply_portfolio:
  assumes "sim_apply t (bw_portfolio w) = (Inr (c, e), p)"
  shows "\<exists>w'. world_apply bo t w = (Inr c, w') \<and> bw_portfolio w' = p"
  using assms by (cases e) (auto simp: world_apply_def on_realized_def read_clock_def Let_def)

lemma map_sum_Inr: "map_sum f g x = Inr y \<longleftrightarrow> (\<exists>z. x = Inr z \<and> y = g z)"
  by (cases x) auto

lemma apply_all_matches:
  assumes "mirrors (bw_portfolio w) s" and "store_ok s" and "store_all ts s = (Inr cs, s')"
  shows "\<exists>w'. apply_all bo ts w = (Inr cs, w') \<and> mirrors (bw_portfolio w') s'"
  using assms
proof (induction ts arbitrary: w s cs)
  case (Cons t ts)
  obtain cs1 s1 cs2 where a: "applyLandedTrade t s = (Inr cs1, s1)" "store_all ts s1 = (Inr cs2, s')" "cs = cs1 @ cs2"
    using Cons.prems(3) by (auto simp: map_sum_Inr split: sum.splits prod.splits)
  obtain c e p where p: "sim_apply t (bw_portfolio w) = (Inr (c, e), p)" "cs1 = [c]" "mirrors p s1" "store_ok s1"
    using sim_matches[OF Cons.prems(1,2) a(1)] by blast
  obtain w1 where w1: "world_apply bo t w = (Inr c, w1)" "bw_portfolio w1 = p" using world_apply_portfolio[OF p(1)] by blast
  obtain w2 where "apply_all bo ts w1 = (Inr cs2, w2)" "mirrors (bw_portfolio w2) s'"
    using Cons.IH[of w1 s1 cs2] p(3,4) w1(2) a(2) by auto
  then show ?case using w1(1) a(3) p(2) by simp
qed simp

definition no_files :: store where
  "no_files = \<lparr>st_files = (\<lambda>_. None), st_events = []\<rparr>"

lemma mirrors_new: "mirrors new_portfolio no_files"
  by (simp add: mirrors_def new_portfolio_def no_files_def by_mint_def keyed_def load_or_empty_def emptyWallet_def)

lemma mirrors_positions:
  assumes "mirrors p s"
  shows "sim_getAllPositions w p = getAllPositions w s" and "sim_getPosition w m p = getPosition w m s"
    and "sim_getRealizedPnl w m p = getRealizedPnl w m s"
proof -
  have k: "by_mint w p = keyed (wd_positions (load_or_empty w s))" using assms by (simp add: mirrors_def)
  have "sim_getAllPositions w p = jm_values (by_mint w p)" by (auto simp: sim_getAllPositions_def by_mint_def jm_values_def split: option.splits)
  then show "sim_getAllPositions w p = getAllPositions w s"
    by (auto simp: k keyed_values getAllPositions_def load_or_empty_def emptyWallet_def split: option.splits)
  have "sim_getPosition w m p = jm_get (by_mint w p) (toBase58 m)" by (auto simp: sim_getPosition_def by_mint_def split: option.splits)
  then show "sim_getPosition w m p = getPosition w m s" by (simp add: k keyed_get getPosition_load)
  show "sim_getRealizedPnl w m p = getRealizedPnl w m s"
    using assms by (auto simp: mirrors_def sim_getRealizedPnl_def getRealizedPnl_def load_or_empty_def emptyWallet_def split: option.splits)
qed

text \<open>
  As long as the file store accepts the trades applied to it, the portfolio of a backtest answers as it does: the changes reported, and
  every position, list of positions, realized and unrealized profit are the same.\<close>

theorem portfolio_matches_store:
  assumes "store_all trades no_files = (Inr changes, s)"
  shows "\<exists>w. apply_all bo trades (new_world strategy g) = (Inr changes, w) \<and>
    (\<forall>wallet mint. sim_getPosition wallet mint (bw_portfolio w) = getPosition wallet mint s \<and>
      sim_getAllPositions wallet (bw_portfolio w) = getAllPositions wallet s \<and>
      sim_getRealizedPnl wallet mint (bw_portfolio w) = getRealizedPnl wallet mint s \<and>
      (\<forall>price. sim_getUnrealizedPnl wallet mint price (bw_portfolio w) = getUnrealizedPnl wallet mint price s))"
proof -
  have "store_ok no_files" by (simp add: store_ok_def no_files_def)
  then obtain w where "apply_all bo trades (new_world strategy g) = (Inr changes, w)" "mirrors (bw_portfolio w) s"
    using apply_all_matches[OF _ _ assms, of "new_world strategy g" bo] mirrors_new by (auto simp: new_world_def)
  then show ?thesis using mirrors_positions[of "bw_portfolio w" s] by (auto simp: sim_getUnrealizedPnl_def getUnrealizedPnl_def)
qed

section \<open>An invariant of the world of a runtime\<close>

text \<open>What every call of the environment keeps is kept by every step of the runtime.\<close>

locale world_invariant =
  fixes env :: "('w, 'd) runtime_env" and I :: "'w \<Rightarrow> bool"
  assumes signal: "I w \<Longrightarrow> I (snd (v_onSignal env i sig w))"
    and hook: "I w \<Longrightarrow> I (snd (v_hook env i c w))"
    and submit: "I w \<Longrightarrow> I (snd (v_submit env f w))"
    and resolve: "I w \<Longrightarrow> I (snd (v_resolveWallet env n w))"
begin

lemma record_world [simp]: "rt_world (on_record h f r) = rt_world r" "rt_world (rt_emit e r) = rt_world r" "rt_world (enqueue h t r) = rt_world r"
  "rt_world (set_running h x r) = rt_world r" "rt_world (rejected h er r) = rt_world r"
  by (simp_all add: on_record_def rt_emit_def enqueue_def set_running_def rejected_def)

lemma call_hook_I: "I (rt_world r) \<Longrightarrow> I (rt_world (snd (call_hook env h c r)))"
  using hook[of "rt_world r" "in_id (rt_records r ! h)" c] by (auto simp: call_hook_def split: prod.splits)

lemma tripGuard_I: "I (rt_world r) \<Longrightarrow> I (rt_world (tripGuard env h trip r))"
  by (auto simp: tripGuard_def Let_def intro!: call_hook_I)

lemma guarded_I: "I (rt_world r) \<Longrightarrow> I (rt_world (guarded env h res r))"
  by (auto simp: guarded_def Let_def intro!: tripGuard_I split: option.splits)

lemma callHook_I: "I (rt_world r) \<Longrightarrow> I (rt_world (callHook env h c r))"
  using call_hook_I[of r h c] by (auto simp: callHook_def hook_failed_def intro!: guarded_I split: prod.splits option.splits)

lemma for_instances_world: "(\<And>h r. rt_world (f h r) = rt_world r) \<Longrightarrow> rt_world (for_instances f r) = rt_world r"
proof -
  assume f: "\<And>h r. rt_world (f h r) = rt_world r"
  have "rt_world (fold f hs r) = rt_world r" for hs by (induction hs arbitrary: r) (simp_all add: f)
  then show ?thesis by (simp add: for_instances_def)
qed

lemma dispatch_world: "rt_world (dispatchSignal sig r) = rt_world r" "rt_world (dispatch_hook c r) = rt_world r" "rt_world (dispatchPositionChange pc r) = rt_world r"
  unfolding dispatchSignal_def dispatch_hook_def dispatchPositionChange_def Let_def
  by (rule for_instances_world; simp split: option.splits prod.splits)+

lemma notify_world: "rt_world (notify_changes cs r) = rt_world r" for r :: "('w, 'd) runtime"
proof -
  have n: "rt_world ((dispatchPositionChange c ^^ n) r) = rt_world r" for c n and r :: "('w, 'd) runtime"
    by (induction n) (simp_all add: dispatch_world)
  have "rt_world (fold (\<lambda>c r. (dispatchPositionChange c ^^ rt_listeners r) r) cs r) = rt_world r" for r :: "('w, 'd) runtime"
    by (induction cs arbitrary: r) (simp_all add: n)
  then show ?thesis by (simp add: notify_changes_def)
qed

lemma advance_I:
  assumes "I (rt_world r)"
  shows "I (rt_world (advance env h x r))"
proof (cases x)
  case (AtResolve sig full)
  then show ?thesis using assms resolve[of "rt_world r" "i_wallet full"] by (auto split: prod.splits sum.splits)
next
  case (AtSubmit sig full w)
  then show ?thesis using assms submit[of "rt_world r" full] by (auto simp: Let_def split: prod.splits sum.splits)
next
  case (AtTrades ts w some)
  then show ?thesis using assms by (cases ts) simp_all
qed (use assms in \<open>auto simp: Let_def notify_world intro!: guarded_I tripGuard_I split: prod.splits option.splits sum.splits\<close>)

lemma start_task_I:
  assumes "I (rt_world r)"
  shows "I (rt_world (start_task env h t r))"
proof (cases t)
  case (SignalTask sig)
  then show ?thesis using assms signal[of "rt_world r" "in_id (rt_records r ! h)" sig]
    by (auto simp: hook_failed_def intro!: guarded_I split: prod.splits sum.splits option.splits)
qed (use assms in \<open>auto simp: Let_def remove_instance_def intro!: callHook_I\<close>)

lemma step_I:
  assumes "runtime_step env l r = Some r'" and "I (rt_world r)"
  shows "I (rt_world r')"
proof (cases l)
  case (Run h)
  then show ?thesis using assms by (auto simp: run_instance_def intro!: advance_I start_task_I split: option.splits list.splits)
qed (use assms in \<open>auto simp: register_def deregister_def start_def stop_def set_quarantined_def dispatchExecutionResult_def dispatchTick_def
    dispatch_world notify_world Let_def split: if_splits option.splits\<close>)

lemma steps_I: "runtime_steps env ls r = Some r' \<Longrightarrow> I (rt_world r) \<Longrightarrow> I (rt_world r')"
proof (induction ls arbitrary: r)
  case (Cons l ls)
  then show ?case using step_I[of l r] by (auto split: bind_splits)
qed simp

end

section \<open>Profit\<close>

definition prefix_sums :: "int list \<Rightarrow> int list" where
  "prefix_sums rs = map (\<lambda>k. sum_list (take (Suc k) rs)) [0..<length rs]"

lemma prefix_sums_snoc: "prefix_sums (rs @ [r]) = prefix_sums rs @ [sum_list rs + r]"
  by (simp add: prefix_sums_def)

lemma prefix_sums_simps [simp]: "prefix_sums [] = []" "prefix_sums [r] = [r]"
  by (simp_all add: prefix_sums_def)

lemma last_prefix_sums: "(if rs = [] then 0 else last (prefix_sums rs)) = sum_list rs"
  by (induction rs rule: rev_induct) (simp_all add: prefix_sums_snoc)

definition series_ok :: "('s, 'g) bt_world \<Rightarrow> bool" where
  "series_ok w \<longleftrightarrow> map pp_cumulative (bw_pnlSeries w) = prefix_sums (map pp_realized (bw_pnlSeries w)) \<and>
     totalRealizedPnl (bw_portfolio w) = sum_list (map pp_realized (bw_pnlSeries w))"

lemma series_ok_same: "bw_pnlSeries w' = bw_pnlSeries w \<Longrightarrow> bw_portfolio w' = bw_portfolio w \<Longrightarrow> series_ok w' = series_ok w"
  by (simp add: series_ok_def)

lemma total_sum: "totalRealizedPnl p = sum_list (map snd (sp_realizedPnl p))"
  by (simp add: totalRealizedPnl_def jm_values_def foldl_map foldl_sum)

lemma sim_apply_total:
  "totalRealizedPnl (snd (sim_apply t p)) = totalRealizedPnl p + (case fst (sim_apply t p) of Inr (c, Some e) \<Rightarrow> re_realized e | _ \<Rightarrow> 0)"
  by (auto simp: sim_apply_def Let_def total_sum sum_list_jm_set split: sum.splits prod.splits option.splits)

lemma world_apply_series:
  assumes "series_ok w"
  shows "series_ok (snd (world_apply bo t w))"
proof -
  obtain res p where a: "sim_apply t (bw_portfolio w) = (res, p)" by fastforce
  have cum: "(if bw_pnlSeries w = [] then 0 else pp_cumulative (last (bw_pnlSeries w))) = sum_list (map pp_realized (bw_pnlSeries w))"
    using assms last_prefix_sums[of "map pp_realized (bw_pnlSeries w)"] by (cases "bw_pnlSeries w = []") (auto simp: series_ok_def last_map[symmetric])
  show ?thesis using assms sim_apply_total[of t "bw_portfolio w"] a cum
    by (cases res) (auto simp: world_apply_def on_realized_def read_clock_def Let_def series_ok_def prefix_sums_snoc split: option.splits)
qed

lemma apply_all_series: "series_ok w \<Longrightarrow> series_ok (snd (apply_all bo ts w))"
proof (induction ts arbitrary: w)
  case (Cons t ts)
  obtain res w1 where a: "world_apply bo t w = (res, w1)" by fastforce
  then have "series_ok w1" using world_apply_series[OF Cons.prems, of bo t] by simp
  then have "series_ok (snd (apply_all bo ts w1))" by (rule Cons.IH)
  then show ?case using a \<open>series_ok w1\<close> by (auto split: prod.splits sum.splits)
qed simp

text \<open>What the executor does besides applying trades leaves the portfolio and the series alone.\<close>

lemma reads_same: "bw_pnlSeries (((\<lambda>w. snd (read_clock bo w)) ^^ n) w) = bw_pnlSeries w \<and>
    bw_portfolio (((\<lambda>w. snd (read_clock bo w)) ^^ n) w) = bw_portfolio w"
  by (induction n) (simp_all add: read_clock_def)

lemma latency_same: "bw_pnlSeries (snd (latency fl bo w)) = bw_pnlSeries w \<and> bw_portfolio (snd (latency fl bo w)) = bw_portfolio w"
  by (auto simp: latency_def Let_def draw_def reads_same split: prod.splits)

lemma sim_submit_series:
  assumes "series_ok w"
  shows "series_ok (snd (sim_submit fl bo i w))"
proof -
  obtain slot w1 where l: "latency fl bo (w\<lparr>bw_trades := bw_trades w @ [i]\<rparr>) = (slot, w1)" by fastforce
  obtain at' w2 where c: "read_clock bo w1 = (at', w2)" by fastforce
  obtain x w3 where d: "draw bo w2 = (x, w3)" by fastforce
  have w3: "bw_pnlSeries w3 = bw_pnlSeries w" "bw_portfolio w3 = bw_portfolio w"
    using latency_same[of fl bo "w\<lparr>bw_trades := bw_trades w @ [i]\<rparr>"] l c d by (auto simp: read_clock_def draw_def split: prod.splits)
  have r: "series_ok (record_decision i t v) = series_ok v" for t and v :: "('a, 'b) bt_world" by (simp add: record_decision_def series_ok_def)
  have s: "series_ok (w3\<lparr>bw_strategy := s\<rparr>)" for s using assms w3 by (simp add: series_ok_def)
  have s3: "series_ok w3" using assms w3 by (simp add: series_ok_def)
  have a: "series_ok w4" if "apply_all bo ts (w3\<lparr>bw_strategy := s\<rparr>) = (res, w4)" for ts s res w4
    using apply_all_series[OF s, of bo ts s] that by simp
  show ?thesis using s3 s by (auto simp: sim_submit_def Let_def l c d r dest: a split: option.splits prod.splits sum.splits)
qed

lemma wrapped_submit_series: "series_ok w \<Longrightarrow> series_ok (snd (wrapped_submit fl bo i w))"
  unfolding wrapped_submit_def by (rule sim_submit_series) (simp add: series_ok_def split: option.splits)

lemma logPhase_series [simp]: "series_ok (logPhase bo phase m w) = series_ok w"
  by (simp add: logPhase_def read_clock_def series_ok_def)

lemma instrumented_series:
  assumes "series_ok w"
  shows "series_ok (snd (instrumented_onSignal bo sig w))" and "series_ok (snd (instrumented_hook bo c w))"
proof -
  have l: "series_ok (logPhase bo p m w)" for p m using assms by simp
  show "series_ok (snd (instrumented_onSignal bo sig w))" using l
    by (auto simp: instrumented_onSignal_def Let_def series_ok_def split: prod.splits sum.splits option.splits)
  show "series_ok (snd (instrumented_hook bo c w))" using l
    by (auto simp: instrumented_hook_def Let_def series_ok_def split: prod.splits)
qed

interpretation series: world_invariant "backtest_env fl bo" series_ok for fl bo
  by unfold_locales (simp_all add: backtest_env_def wrapped_submit_series instrumented_series)

lemma drawdown_from_le:
  assumes "0 \<le> b"
  shows "drawdown_from p d vs \<le> b \<longleftrightarrow> d \<le> b \<and> sorted_wrt (\<lambda>x y. x - y \<le> b) (p # vs)"
  by (induction vs arbitrary: p d) (use assms in \<open>auto simp: Let_def\<close>)

lemma drawdown_from_ge: "d \<le> drawdown_from p d vs"
proof (induction vs arbitrary: p d)
  case (Cons v vs)
  have "d \<le> (if x > d then x else d)" for x by simp
  then show ?case using order_trans[OF _ Cons] by (simp only: drawdown_from.simps Let_def)
qed simp

text \<open>
  Whatever the strategy does and in whatever order tasks run, the realized profit a backtest reports is the sum of its series, each
  cumulative value the sum up to there, and the drawdown is the largest fall from an earlier value, or from 0, to a later one: it is at
  most \<open>b\<close> exactly if no fall exceeds \<open>b\<close>.\<close>

theorem backtest_profit:
  assumes "runBacktest fl bo s g ls = Some r" and "build_result fl sq prices (rt_world r) = Inr res"
  defines "c \<equiv> map pp_cumulative (br_pnlSeries res)" and "rs \<equiv> map pp_realized (br_pnlSeries res)"
  shows "br_realizedPnl res = sum_list rs \<and> (\<forall>k < length rs. c ! k = sum_list (take (Suc k) rs)) \<and>
    0 \<le> br_maxDrawdown res \<and> (\<forall>b \<ge> 0. br_maxDrawdown res \<le> b \<longleftrightarrow> (\<forall>i j. i < j \<and> j \<le> length c \<longrightarrow> (0 # c) ! i - (0 # c) ! j \<le> b))"
proof -
  have "series_ok (new_world s g)" by (simp add: series_ok_def new_world_def new_portfolio_def totalRealizedPnl_def jm_values_def prefix_sums_def)
  then have ok: "series_ok (rt_world r)"
    using series.steps_I[OF assms(1)[unfolded runBacktest_def]] by (simp add: new_runtime_def)
  have res: "br_pnlSeries res = bw_pnlSeries (rt_world r)" "br_realizedPnl res = totalRealizedPnl (bw_portfolio (rt_world r))"
    "br_maxDrawdown res = drawdown_from 0 0 c"
    using assms(2) by (auto simp: build_result_def Let_def result_simps maxDrawdown_def c_def)
  have c: "c = prefix_sums rs" using ok by (simp add: c_def rs_def res(1) series_ok_def)
  have "sorted_wrt (\<lambda>x y. x - y \<le> b) (0 # c) \<longleftrightarrow> (\<forall>i j. i < j \<and> j \<le> length c \<longrightarrow> (0 # c) ! i - (0 # c) ! j \<le> b)" for b
    unfolding sorted_wrt_iff_nth_less by (metis length_Cons less_Suc_eq_le)
  then show ?thesis using ok res drawdown_from_le[of _ 0 0 c] drawdown_from_ge[of 0 0 c] 
    by (auto simp: c prefix_sums_def series_ok_def rs_def simp del: sorted_wrt.simps)
qed

section \<open>Decisions and signals\<close>

text \<open>What matters of a state: the running task of the one instance, its submissions, and the logs of the world.\<close>

definition quiet :: "(('s, 'g) bt_world, 'd) runtime \<Rightarrow> (('s, 'g) bt_world, 'd) runtime \<Rightarrow> bool" where
  "quiet r r' \<longleftrightarrow> length (rt_records r') = length (rt_records r) \<and> in_running (rt_records r' ! 0) = in_running (rt_records r ! 0) \<and>
     submitted 0 (rt_log r') = submitted 0 (rt_log r) \<and> bw_trades (rt_world r') = bw_trades (rt_world r) \<and>
     bw_decisionLog (rt_world r') = bw_decisionLog (rt_world r) \<and> bw_pending (rt_world r') = bw_pending (rt_world r)"

lemma quiet_refl [simp, intro]: "quiet r r"
  by (simp add: quiet_def)

lemma quiet_trans: "quiet a b \<Longrightarrow> quiet b c \<Longrightarrow> quiet a c"
  by (simp add: quiet_def)

lemma quiet_record: "(\<And>i. in_running (f i) = in_running i) \<Longrightarrow> quiet r (on_record h f r)"
  by (cases "h < length (rt_records r)") (auto simp: quiet_def on_record_def nth_list_update list_update_beyond)

lemma quiet_emit: "(\<And>sig f. e \<noteq> Submitted 0 sig f) \<Longrightarrow> quiet r (rt_emit e r)"
  by (cases e) (auto simp: quiet_def rt_emit_def submitted_append)

lemma quiet_queueing: "quiet r (enqueue h t r)"
  unfolding enqueue_def by (rule quiet_record) simp

lemma quiet_world:
  "bw_trades w = bw_trades (rt_world r) \<Longrightarrow> bw_decisionLog w = bw_decisionLog (rt_world r) \<Longrightarrow> bw_pending w = bw_pending (rt_world r) \<Longrightarrow>
    quiet r (r\<lparr>rt_world := w\<rparr>)"
  by (simp add: quiet_def)

lemma logPhase_same [simp]: "bw_trades (logPhase bo p m w) = bw_trades w" "bw_decisionLog (logPhase bo p m w) = bw_decisionLog w"
  "bw_pending (logPhase bo p m w) = bw_pending w"
  by (simp_all add: logPhase_def read_clock_def)

lemma quiet_call_hook: "quiet r (snd (call_hook (backtest_env fl bo) h c r))"
proof -
  obtain res w where v: "instrumented_hook bo c (rt_world r) = (res, w)" by fastforce
  then have "quiet r (r\<lparr>rt_world := w\<rparr>)"
    by (intro quiet_world) (auto simp: instrumented_hook_def Let_def split: prod.splits)
  then show ?thesis using quiet_trans[OF _ quiet_emit] v by (fastforce simp: call_hook_def backtest_env_def)
qed

lemma quiet_trip: "quiet r (tripGuard (backtest_env fl bo) h trip r)"
proof -
  let ?r = "rt_emit (Tripped h trip) (on_record h (\<lambda>i. i\<lparr>in_quarantined := True\<rparr>) r)"
  have "quiet r ?r" by (rule quiet_trans[OF quiet_record quiet_emit]) simp_all
  then show ?thesis using quiet_trans[OF _ quiet_call_hook] by (auto simp: tripGuard_def Let_def)
qed

lemma quiet_guarded: "quiet r (guarded (backtest_env fl bo) h res r)"
proof -
  have "quiet r (on_record h (\<lambda>i. i\<lparr>in_guards := snd res\<rparr>) r)" by (rule quiet_record) simp
  then show ?thesis using quiet_trans[OF _ quiet_trip] by (auto simp: guarded_def Let_def split: option.splits)
qed

lemma quiet_hook_failed: "quiet r (hook_failed (backtest_env fl bo) h p e r)"
  unfolding hook_failed_def by (rule quiet_trans[OF quiet_guarded quiet_emit]) simp

lemma quiet_callHook: "quiet r (callHook (backtest_env fl bo) h c r)"
  using quiet_call_hook[of r fl bo h c] quiet_trans[OF _ quiet_hook_failed] by (auto simp: callHook_def split: prod.splits option.splits)

lemma quiet_for_instances: "(\<And>h r. quiet r (f h r)) \<Longrightarrow> quiet r (for_instances f r)"
proof -
  assume f: "\<And>h r. quiet r (f h r)"
  have "quiet r (fold f hs r)" for hs
  proof (induction hs arbitrary: r)
    case (Cons h hs)
    show ?case using quiet_trans[OF f Cons] by simp
  qed simp
  then show ?thesis by (simp add: for_instances_def)
qed

lemma quiet_dispatch: "quiet r (dispatchSignal sig r)" "quiet r (dispatch_hook c r)" "quiet r (dispatchPositionChange pc r)"
proof -
  show "quiet r (dispatchSignal sig r)" unfolding dispatchSignal_def Let_def
    by (rule quiet_for_instances) (auto intro: quiet_trans[OF quiet_queueing quiet_emit])
  show "quiet r (dispatch_hook c r)" unfolding dispatch_hook_def Let_def
    by (rule quiet_for_instances) (auto intro: quiet_queueing)
  show "quiet r (dispatchPositionChange pc r)" unfolding dispatchPositionChange_def Let_def
    by (rule quiet_for_instances) (auto intro!: quiet_queueing quiet_trans[OF quiet_queueing quiet_queueing] split: option.splits)
qed

lemma quiet_notify: "quiet r (notify_changes cs r)"
proof -
  have n: "quiet r ((dispatchPositionChange c ^^ n) r)" for c n and r :: "(('a, 'b) bt_world, 'd) runtime"
  proof (induction n)
    case (Suc n)
    show ?case using quiet_trans[OF Suc quiet_dispatch(3)] by simp
  qed simp
  have "quiet r (fold (\<lambda>c r. (dispatchPositionChange c ^^ rt_listeners r) r) cs r)" for r :: "(('a, 'b) bt_world, 'd) runtime"
  proof (induction cs arbitrary: r)
    case (Cons c cs)
    show ?case using quiet_trans[OF n Cons] by simp
  qed simp
  then show ?thesis by (simp add: notify_changes_def)
qed

definition entry_of :: "'d signal \<times> intent \<Rightarrow> string \<times> string" where
  "entry_of x = (intentId (snd x), sl_signalId (fst x))"

definition entries :: "('s, 'g) bt_world \<Rightarrow> (string \<times> string) list" where
  "entries w = map (\<lambda>e. (de_intentId e, de_signalId e)) (bw_decisionLog w)"

definition traced :: "('s, 'g, 'd) bt_opts \<Rightarrow> (('s, 'g) bt_world, 'd) runtime \<Rightarrow> bool" where
  "traced bo r \<longleftrightarrow> length (rt_records r) = 1 \<and> bw_trades (rt_world r) = map snd (submitted 0 (rt_log r)) \<and>
     subseq (entries (rt_world r)) (map entry_of (submitted 0 (rt_log r))) \<and>
     (bo_intentToTrade bo = None \<longrightarrow> entries (rt_world r) = map entry_of (submitted 0 (rt_log r))) \<and>
     (\<forall>sig \<in> set (undecided (in_running (rt_records r ! 0))). bw_pending (rt_world r) = Some (sl_signalId sig))"

lemma traced_quiet: "quiet r r' \<Longrightarrow> traced bo r \<Longrightarrow> traced bo r'"
  by (simp add: quiet_def traced_def entries_def)

lemma traced_running:
  assumes "traced bo r" and "\<forall>sig \<in> set (undecided x). bw_pending (rt_world r) = Some (sl_signalId sig)"
  shows "traced bo (set_running 0 x r)"
  using assms by (auto simp: traced_def set_running_def on_record_def)

text \<open>A submission adds its intent and, unless it throws, the entry of the pending signal.\<close>

lemma apply_all_logs: "bw_trades (snd (apply_all bo ts w)) = bw_trades w \<and> bw_decisionLog (snd (apply_all bo ts w)) = bw_decisionLog w \<and>
    bw_signalIds (snd (apply_all bo ts w)) = bw_signalIds w \<and> bw_pending (snd (apply_all bo ts w)) = bw_pending w"
proof (induction ts arbitrary: w)
  case (Cons t ts)
  obtain res w1 where a: "world_apply bo t w = (res, w1)" by fastforce
  then have "bw_trades w1 = bw_trades w \<and> bw_decisionLog w1 = bw_decisionLog w \<and> bw_signalIds w1 = bw_signalIds w \<and> bw_pending w1 = bw_pending w"
    by (auto simp: world_apply_def on_realized_def read_clock_def Let_def split: prod.splits sum.splits option.splits)
  then show ?case using a Cons[of w1] by (auto split: prod.splits sum.splits)
qed simp

lemma reads_logs: "bw_trades (((\<lambda>w. snd (read_clock bo w)) ^^ n) w) = bw_trades w \<and> bw_decisionLog (((\<lambda>w. snd (read_clock bo w)) ^^ n) w) = bw_decisionLog w \<and>
    bw_signalIds (((\<lambda>w. snd (read_clock bo w)) ^^ n) w) = bw_signalIds w \<and> bw_pending (((\<lambda>w. snd (read_clock bo w)) ^^ n) w) = bw_pending w"
  by (induction n) (simp_all add: read_clock_def)

lemma latency_logs: "bw_trades (snd (latency fl bo w)) = bw_trades w \<and> bw_decisionLog (snd (latency fl bo w)) = bw_decisionLog w \<and>
    bw_signalIds (snd (latency fl bo w)) = bw_signalIds w \<and> bw_pending (snd (latency fl bo w)) = bw_pending w"
  by (auto simp: latency_def Let_def draw_def reads_logs split: prod.splits)

lemma sim_submit_logs:
  assumes "sim_submit fl bo i w = (res, w')"
  shows "bw_trades w' = bw_trades w @ [i]" and "bw_pending w' = bw_pending w"
    and "entries w' = entries w @ (case res of Inl _ \<Rightarrow> [] | Inr _ \<Rightarrow> [(intentId i, case jm_get (bw_signalIds w) (intentId i) of Some s \<Rightarrow> s | None \<Rightarrow> [])])"
    and "bo_intentToTrade bo = None \<Longrightarrow> \<exists>x. res = Inr x"
proof -
  obtain slot w1 where l: "latency fl bo (w\<lparr>bw_trades := bw_trades w @ [i]\<rparr>) = (slot, w1)" by fastforce
  obtain at' w2 where c: "read_clock bo w1 = (at', w2)" by fastforce
  obtain x w3 where d: "draw bo w2 = (x, w3)" by fastforce
  have w3: "bw_trades w3 = bw_trades w @ [i]" "bw_decisionLog w3 = bw_decisionLog w" "bw_signalIds w3 = bw_signalIds w" "bw_pending w3 = bw_pending w"
    using latency_logs[of fl bo "w\<lparr>bw_trades := bw_trades w @ [i]\<rparr>"] l c d by (auto simp: read_clock_def draw_def split: prod.splits)
  have a: "bw_trades v = bw_trades w @ [i] \<and> bw_decisionLog v = bw_decisionLog w \<and> bw_signalIds v = bw_signalIds w \<and> bw_pending v = bw_pending w"
    if "apply_all bo ts (w3\<lparr>bw_strategy := s\<rparr>) = (y, v)" for ts s y v
    using apply_all_logs[of bo ts "w3\<lparr>bw_strategy := s\<rparr>"] that w3 by simp
  note s = assms[unfolded sim_submit_def Let_def l c d prod.case]
  show "bw_trades w' = bw_trades w @ [i]" "bw_pending w' = bw_pending w"
    "entries w' = entries w @ (case res of Inl _ \<Rightarrow> [] | Inr _ \<Rightarrow> [(intentId i, case jm_get (bw_signalIds w) (intentId i) of Some s \<Rightarrow> s | None \<Rightarrow> [])])"
    "bo_intentToTrade bo = None \<Longrightarrow> \<exists>x. res = Inr x"
    using s w3 by (auto simp: record_decision_def entries_def dest!: a split: if_splits option.splits prod.splits sum.splits)
qed

lemma wrapped_submit_logs:
  assumes "wrapped_submit fl bo i w = (res, w')" and "bw_pending w = Some sid"
  shows "bw_trades w' = bw_trades w @ [i]" and "entries w' = entries w @ (case res of Inl _ \<Rightarrow> [] | Inr _ \<Rightarrow> [(intentId i, sid)])"
    and "bo_intentToTrade bo = None \<Longrightarrow> \<exists>x. res = Inr x"
  using sim_submit_logs[OF assms(1)[unfolded wrapped_submit_def assms(2) option.case]] by (cases res; auto simp: jm_get_set entries_def)+

lemma traced_submit:
  assumes "traced bo r" and "in_running (rt_records r ! 0) = Some (AtSubmit sig full wallet)"
  shows "traced bo (advance (backtest_env fl bo) 0 (AtSubmit sig full wallet) r)"
proof -
  let ?r = "rt_emit (Submitted 0 sig full) r"
  obtain res w where v: "wrapped_submit fl bo full (rt_world r) = (res, w)" by fastforce
  have pend: "bw_pending (rt_world r) = Some (sl_signalId sig)" using assms by (simp add: traced_def)
  note logs = wrapped_submit_logs[OF v pend]
  have sub: "submitted 0 (rt_log ?r) = submitted 0 (rt_log r) @ [(sig, full)]" by (simp add: rt_emit_def submitted_append)
  have e: "subseq (entries w) (map entry_of (submitted 0 (rt_log ?r)))"
    using assms(1) by (cases res) (auto simp: traced_def logs(2) sub entry_of_def intro: list_emb_append_mono subseq_rev_drop_many)
  have eq: "entries w = map entry_of (submitted 0 (rt_log ?r))" if "bo_intentToTrade bo = None"
    using assms(1) logs(3)[OF that] that by (auto simp: traced_def logs(2) sub entry_of_def)
  have t: "traced bo (set_running 0 None (?r\<lparr>rt_world := w\<rparr>)) \<and> traced bo (set_running 0 (Some (AtAdapt y wallet)) (?r\<lparr>rt_world := w\<rparr>))" for y
    using assms(1) e eq logs(1) sub by (auto simp: traced_def set_running_def on_record_def) (auto simp: rt_emit_def)
  show ?thesis
  proof (cases res)
    case (Inl er)
    have "traced bo (rejected 0 (SubmitFailed er) (?r\<lparr>rt_world := w\<rparr>))"
      unfolding rejected_def by (rule traced_quiet[OF quiet_emit]) (use t in simp_all)
    then show ?thesis using v Inl by (simp add: Let_def backtest_env_def rt_emit_def)
  qed (use t v in \<open>simp add: Let_def backtest_env_def rt_emit_def\<close>)
qed

lemma traced_advance:
  assumes "traced bo r" and "in_running (rt_records r ! 0) = Some x"
  shows "traced bo (advance (backtest_env fl bo) 0 x r)"
proof -
  let ?env = "backtest_env fl bo"
  have pend: "\<forall>sig \<in> set (undecided (Some x)). bw_pending (rt_world r) = Some (sl_signalId sig)" using assms by (simp add: traced_def)
  have idle: "traced bo (set_running 0 None r')" if "quiet r r'" for r'
    using traced_running[OF traced_quiet[OF that assms(1)], of None] by simp
  have move: "traced bo (set_running 0 y r')" if "quiet r r'" "set (undecided y) \<subseteq> set (undecided (Some x))" for r' y
    using traced_running[OF traced_quiet[OF that(1) assms(1)], of y] pend that by (auto simp: quiet_def)
  have rej: "traced bo (rejected 0 e r')" if "quiet r r'" for e r'
    unfolding rejected_def by (rule traced_quiet[OF quiet_emit idle[OF that]]) simp
  show ?thesis
  proof (cases x)
    case (AtDecision sig d)
    obtain trip g where t: "recordDecision (v_guards ?env) (v_clock ?env (rt_world r)) (in_guards (rt_records r ! 0)) = (trip, g)" by fastforce
    show ?thesis using AtDecision t
      by (cases trip) (auto simp: Let_def intro!: idle move quiet_guarded split: option.splits)
  next
    case (AtResolve sig full)
    have "quiet r (on_record 0 (\<lambda>i. i\<lparr>in_wallets := jm_set (in_wallets i) (i_wallet full) pk\<rparr>) r)" for pk by (rule quiet_record) simp
    then show ?thesis using AtResolve by (auto simp: backtest_env_def intro!: move)
  next
    case (AtSubmit sig full w)
    then show ?thesis using traced_submit[OF assms(1)] assms(2) by blast
  next
    case (AtAdapt result w)
    then show ?thesis by (auto intro!: move rej split: sum.splits)
  next
    case (AtTrades ts w some)
    then show ?thesis by (cases ts) (auto intro!: move)
  next
    case (AtApply t ts w before)
    have "quiet r (r\<lparr>rt_store := s\<rparr>)" for s by (simp add: quiet_def)
    then show ?thesis using AtApply by (auto intro!: rej traced_quiet[OF quiet_notify] move split: prod.splits sum.splits)
  next
    case (AtAfter t ts w before)
    then show ?thesis by (auto simp: Let_def intro!: move quiet_guarded split: prod.splits option.splits)
  next
    case (AtPositions w)
    then show ?thesis by (auto simp: Let_def intro!: idle quiet_trip split: option.splits)
  qed
qed

lemma env_onSignal: "v_onSignal (backtest_env fl bo) i = instrumented_onSignal bo"
  by (simp add: backtest_env_def)

lemma quiet_switch: "quiet r (start r)" "quiet r (stop r)"
  by (simp_all add: quiet_def start_def stop_def)

lemma quiet_resume: "quiet r (on_record h (\<lambda>i. i\<lparr>in_queue := ts\<rparr>) r)"
  by (rule quiet_record) simp

lemma traced_start_task:
  assumes "traced bo r" and "in_running (rt_records r ! 0) = None"
  shows "traced bo (start_task (backtest_env fl bo) 0 t r)"
proof (cases t)
  case (SignalTask sig)
  obtain res w where v: "instrumented_onSignal bo sig (rt_world r) = (res, w)" by fastforce
  have w: "bw_trades w = bw_trades (rt_world r)" "bw_decisionLog w = bw_decisionLog (rt_world r)"
    "\<And>d. res = Inr (Some d) \<Longrightarrow> bw_pending w = Some (sl_signalId sig)"
    using v by (auto simp: instrumented_onSignal_def Let_def split: prod.splits sum.splits option.splits)
  have t: "traced bo (r\<lparr>rt_world := w\<rparr>)" using assms w(1,2) by (simp add: traced_def entries_def)
  show ?thesis using t w(3) SignalTask v
    by (auto simp: env_onSignal intro!: traced_quiet[OF quiet_hook_failed] traced_running split: sum.splits option.splits)
next
  case (HookTask c)
  then show ?thesis using traced_quiet[OF quiet_callHook assms(1)] by simp
next
  case Barrier
  have "quiet r (remove_instance i r)" for i by (simp add: quiet_def remove_instance_def)
  then show ?thesis using Barrier traced_quiet[OF quiet_queueing assms(1)] traced_quiet[OF _ assms(1)] by (simp add: Let_def)
next
  case Farewell
  have gone: "quiet r (remove_instance i r)" for i and r :: "(('a, 'b) bt_world, 'c) runtime" by (simp add: quiet_def remove_instance_def)
  show ?thesis using Farewell traced_quiet[OF quiet_trans[OF quiet_callHook gone] assms(1)] by simp
qed

lemma traced_step:
  assumes "runtime_step (backtest_env fl bo) l r = Some r'" and "traced bo r" and "\<And>sy i. l \<noteq> Register sy i"
  shows "traced bo r'"
proof (cases l)
  case (Run h)
  have h: "h = 0" using assms Run by (auto simp: run_instance_def jat_def traced_def split: option.splits if_splits)
  then show ?thesis using assms Run traced_quiet[OF quiet_resume assms(2)]
    by (auto simp: run_instance_def jat_def intro!: traced_advance traced_start_task split: option.splits list.splits if_splits)
       (auto simp: on_record_def traced_def)
next
  case (Register sy i)
  then show ?thesis using assms(3) by simp
qed (use assms in \<open>auto simp: deregister_def set_quarantined_def dispatchExecutionResult_def dispatchTick_def
    intro!: traced_quiet[OF quiet_switch(1)] traced_quiet[OF quiet_switch(2)] traced_quiet[OF quiet_queueing] traced_quiet[OF quiet_notify] traced_quiet[OF quiet_dispatch(1)] traced_quiet[OF quiet_dispatch(2)]
      traced_quiet[OF quiet_record] split: if_splits option.splits\<close>)

text \<open>
  A backtest, in any order of its steps, returns the intents its strategy's instance submitted, in order, and its decision log names for
  every submission that did not throw the intent and the signal that caused it; without a callback from intents to trades it is
  complete.\<close>

theorem decisions_traced:
  assumes "runBacktest fl bo s g ls = Some r" and "\<forall>sy i. Register sy i \<notin> set ls"
  defines "subs \<equiv> submitted 0 (rt_log r)" and "decided \<equiv> map (\<lambda>e. (de_intentId e, de_signalId e)) (bw_decisionLog (rt_world r))"
  shows "bw_trades (rt_world r) = map snd subs \<and> subseq decided (map (\<lambda>(sig, f). (intentId f, sl_signalId sig)) subs) \<and>
    (bo_intentToTrade bo = None \<longrightarrow> decided = map (\<lambda>(sig, f). (intentId f, sl_signalId sig)) subs)"
proof -
  have steps: "traced bo r'" if "runtime_steps (backtest_env fl bo) ks q = Some r'" "traced bo q" "\<forall>sy i. Register sy i \<notin> set ks" for ks q r'
    using that
  proof (induction ks arbitrary: q)
    case (Cons l ks)
    then obtain q1 where q1: "runtime_step (backtest_env fl bo) l q = Some q1" "runtime_steps (backtest_env fl bo) ks q1 = Some r'"
      by (auto split: bind_splits)
    have "traced bo q1" by (rule traced_step[OF q1(1) Cons.prems(2)]) (use Cons.prems(3) in auto)
    then show ?case using Cons.IH[OF q1(2)] Cons.prems(3) by simp
  qed simp
  let ?q = "new_runtime (new_world s g) \<lparr>st_files = (\<lambda>_. None), st_events = []\<rparr> :: (('a, 'b) bt_world, 'c) runtime"
  obtain q where q: "register (backtest_env fl bo) (instrumented (bo_strategy bo)) None ?q = Some q"
    "runtime_steps (backtest_env fl bo) (StartRuntime # ls) q = Some r"
    using assms(1) by (auto simp: runBacktest_def split: bind_splits)
  have "traced bo q" using q(1)
    by (auto simp: register_def new_runtime_def new_world_def Let_def traced_def entries_def enqueue_def on_record_def split: if_splits)
  then have "traced bo r" using steps[OF q(2)] assms(2) by simp
  moreover have "entry_of = (\<lambda>(sig :: 'c signal, f). (intentId f, sl_signalId sig))" by (auto simp: entry_of_def)
  ultimately show ?thesis by (simp add: traced_def entries_def subs_def decided_def)
qed

section \<open>Random numbers and addresses\<close>

text \<open>A draw lies in \<open>[0, 1)\<close>: at the default rate of 1 every submission lands.\<close>

lemma mulberry32_range: "0 \<le> fst (mulberry32 s) \<and> fst (mulberry32 s) < 1"
proof -
  obtain w :: "32 word" where "fst (mulberry32 s) = of_nat (unat w) / 4294967296"
    by (rule that, unfold mulberry32_def Let_def fst_conv, rule refl)
  moreover have "unat w < 4294967296" using unsigned_less[of w, where ?'a = nat] by simp
  ultimately obtain k where "k < 4294967296" "fst (mulberry32 s) = of_nat k / 4294967296" by blast
  then show ?thesis by simp
qed

lemma lands_by_default:
  assumes "sc_landingSuccessRate (bo_config bo) = None" and "bo_rng bo = mulberry32" and "bo_intentToTrade bo = None"
  shows "\<exists>slot at'. fst (sim_submit fl bo i w) = Inr (Landed (intentId i) (''sim-'' @ intentId i) slot ''simulated'' at')"
  using assms mulberry32_range by (auto simp: sim_submit_def Let_def draw_def split: prod.splits) (metis fst_conv)

lemma length_spread: "length (spread n i b) = n"
  by (induction n arbitrary: i b) (simp_all add: Let_def)

lemma length_address_bytes [simp]: "length (address_bytes name) = 32"
  by (simp add: address_bytes_def Let_def length_spread)

lemma address_eq: "deterministicAddress n = deterministicAddress m \<longleftrightarrow> address_bytes n = address_bytes m"
  by (metis deterministicAddress_def length_address_bytes toBuffer_Abs)

text \<open>
  Names of one length, up to 32 characters of Latin-1, have different addresses; but names that agree on their first 32 characters share
  one, and so does a name with itself extended by the filler computed for it.\<close>

theorem names_alias:
  assumes "length n = 32"
  shows "deterministicAddress (n @ x) = deterministicAddress (n @ y)"
    and "deterministicAddress [97] = deterministicAddress [97, 192]"
    and "length a = length b \<Longrightarrow> length a \<le> 32 \<Longrightarrow> \<forall>c \<in> set a \<union> set b. c < 256 \<Longrightarrow>
      deterministicAddress a = deterministicAddress b \<longleftrightarrow> a = b"
proof -
  show "deterministicAddress (n @ x) = deterministicAddress (n @ y)" using assms by (simp add: address_eq address_bytes_def)
  show "deterministicAddress [97] = deterministicAddress [97, 192]" by (simp only: address_eq) code_simp
  assume ab: "length a = length b" "length a \<le> 32" "\<forall>c \<in> set a \<union> set b. c < 256"
  have "map (of_nat :: nat \<Rightarrow> byte) a = map of_nat b \<Longrightarrow> a = b"
    using ab by (intro nth_equalityI) (auto simp: list_eq_iff_nth_eq word_of_nat_eq_iff take_bit_nat_eq_self)
  moreover have "address_bytes a = address_bytes b \<Longrightarrow> map (of_nat :: nat \<Rightarrow> byte) a = map of_nat b"
    using ab by (auto simp: address_bytes_def Let_def append_eq_append_conv)
  ultimately show "deterministicAddress a = deterministicAddress b \<longleftrightarrow> a = b" by (auto simp: address_eq)
qed

end
