(* ===== verification/Spec2Isabelle.thy ===== *)
theory Spec2Isabelle
  imports TransactionProperties CodecProperties BondingCurve Accounting RpcPool SplToken Executor LogRoundTrip IdlEvents
    IdlInstruction HttpClient Drainer Receiver PortfolioStore Runtime SignalQueue SignalBus FileStores Vault TxStream Backfill Metadata PumpSignals
    Replay MonteCarlo PriorityFee TxTools Backtest
begin

text \<open>
  A verification of the TypeScript packages under \<open>src/packages\<close>: a toolkit for programs that watch and trade on Solana.

  \<^bold>\<open>The program.\<close> \<open>solana-core\<close> has the keys, the binary codecs and the HTTP client. \<open>solana-tx\<close> builds, signs and
  reads back transactions, derives addresses and estimates fees. \<open>solana-connectivity\<close> talks to nodes: a pool of RPC
  endpoints, a Geyser subscription, a WebSocket stream, and backfill of what they missed. \<open>solana-events\<close> parses the
  log of a transaction into a tree of invocations, whose data \<open>pumpfun-events\<close>, \<open>solana-spl\<close> and \<open>solana-metaplex\<close> decode.
  \<open>solana-signals\<close> queues what was decoded; \<open>solana-strategy\<close> hands each signal to the strategies, whose intents
  \<open>solana-executor\<close> signs with a wallet of \<open>solana-vault\<close>, submits and confirms; the trades that landed change the
  positions of \<open>solana-portfolio\<close>. \<open>solana-webhooks\<close> receives events over HTTP into an outbox that a loop drains.
  \<open>pumpfun-protocol\<close> quotes and builds trades, \<open>pumpfun-signals\<close> stores facts on wallets and tokens, and
  \<open>solana-trading\<close> and \<open>solana-strategy\<close> replay the past.

  \<^bold>\<open>The theories.\<close> \<open>Prelude\<close> has bytes, results with errors as values (\<open>'e + 'a\<close>, \<open>Inl\<close> an error), the loops over them,
  JavaScript's insertion-ordered \<open>Map\<close> and the list lemmas of the components; \<open>BigInt\<close>, \<open>Utf8\<close> and \<open>Base64\<close> what the code
  uses of the platform. A record, datatype or function has the name of the type, class or function it models where that
  name is free; a class is a record of its fields and a method a function from the record to the record; an event or a metric
  is a value the operation returns or appends to a log.
  \<^item> \<open>solana-core\<close>: \<open>Base58\<close>, \<open>PublicKey\<close>, \<open>CompactU16\<close>, \<open>Borsh\<close> (\<open>base58.ts\<close>, \<open>public-key.ts\<close>, \<open>compact-u16.ts\<close>,
    \<open>borsh.ts\<close>) with \<open>CodecProperties\<close>: what is written is read back, whatever follows it. \<open>HttpClient\<close> (\<open>http-client.ts\<close>):
    the retry loop equals a specification, and the breaker is a three-state machine under any interleaving of requests.
  \<^item> \<open>solana-tx\<close>: \<open>AddressLookupTable\<close>, \<open>Assembler\<close> (\<open>transaction-assembler.ts\<close>) and \<open>TxCodec\<close> (\<open>transaction-codec.ts\<close>,
    \<open>transaction-v1.ts\<close>), with the lemmas on account order (\<open>AccountOrder\<close>), message bytes (\<open>TxRoundTrip\<close>),
    decompilation (\<open>CompileRoundTrip\<close>) and signatures (\<open>SignedTx\<close>) on which \<open>TransactionProperties\<close> rests; \<open>Pda\<close>
    (\<open>find-program-address.ts\<close>), \<open>PriorityFee\<close>, and \<open>TxTools\<close> (transfers, compute budget, lookup tables, bundles, token transfers).
  \<^item> \<open>solana-connectivity\<close>: \<open>HealthState\<close> and \<open>RpcPool\<close>; \<open>Geyser\<close> (\<open>geyser-client.ts\<close>): queue, gaps and checkpoints of a
    subscription; \<open>TxStream\<close>: deduplication and reconnects; \<open>Backfill\<close> (\<open>historical-backfill.ts\<close>, and the Helius catch-up of
    \<open>solana-webhooks\<close>), whose theorem composes with \<open>Geyser\<close>: each skipped slot's events, once. \<open>FileStores\<close>: the
    stores of four packages that write a temporary file and rename it, under interleaving, failures and crashes.
  \<^item> \<open>solana-events\<close>, \<open>pumpfun-events\<close> and the decoders: \<open>LogTree\<close> (\<open>parse-logs.ts\<close>, \<open>cpi-decoder.ts\<close>, \<open>registry.ts\<close>) and \<open>LogRoundTrip\<close>
    (the log of a tree parses to it); \<open>IdlCodec\<close> and \<open>IdlEvents\<close> (values, events and accounts of a schema),
    \<open>IdlInstruction\<close> (\<open>pumpfun-protocol\<close>), \<open>SplToken\<close>, \<open>Metadata\<close> (\<open>solana-metaplex\<close>).
  \<^item> \<open>solana-signals\<close>: \<open>SignalIds\<close>, \<open>SignalCore\<close> (the signal, the deduplication window), \<open>SignalQueue\<close>, \<open>SignalBus\<close>.
  \<^item> \<open>solana-strategy\<close>: \<open>Guards\<close>, \<open>LandedTrades\<close> (from a landed transaction to trades), \<open>Runtime\<close> (\<open>runtime.ts\<close>:
    dispatch, the task queue of an instance, quarantine) and \<open>Backtest\<close> (\<open>backtest.ts\<close>), which is an environment of
    the runtime with a simulated executor and portfolio.
  \<^item> \<open>solana-executor\<close>: \<open>Executor\<close> (\<open>executor.ts\<close>, \<open>confirm-landed.ts\<close>). \<open>solana-vault\<close>: \<open>Vault\<close>, operations suspended at their awaits.
  \<^item> \<open>solana-portfolio\<close>: \<open>Accounting\<close> (lots), \<open>Reconstructor\<close> (lots from the history), \<open>PortfolioStore\<close> (a map from wallet and
    token to an amount, implemented).
  \<^item> \<open>solana-webhooks\<close>: \<open>Outbox\<close> (the storage contract and the SQL that provides it), \<open>Drainer\<close>, \<open>Receiver\<close>.
  \<^item> \<open>pumpfun-protocol\<close> and \<open>pumpfun-signals\<close>: \<open>BondingCurve\<close> (quotes of the curve and the pool), \<open>PumpSignals\<close> (the event
    table and its queries). \<open>solana-trading\<close>: \<open>Replay\<close> and \<open>MonteCarlo\<close>.

  \<^bold>\<open>Interfaces.\<close> A locale states each contract and is interpreted on the code's model: \<open>map_like\<close> (\<open>Map\<close>, \<open>Prelude\<close>), \<open>borsh_codec\<close>
  and \<open>idl_codec\<close> (a writer and its reader), \<open>outbox\<close> (the table under the drainer and the receiver), \<open>serialized_store\<close>
  (three of the file stores), \<open>dedup_window\<close> (the signal queue's window), \<open>world_invariant\<close> (what every step of a runtime keeps).

  \<^bold>\<open>Concurrency.\<close> JavaScript runs one piece of code at a time and changes over at an \<open>await\<close>. \<open>Drainer\<close>, \<open>Runtime\<close>, \<open>SignalQueue\<close>,
  \<open>SignalBus\<close>, \<open>Geyser\<close>, \<open>TxStream\<close>, \<open>Vault\<close> and \<open>FileStores\<close> are transition functions whose step is the code between two awaits; a list of
  labels says what happens, in any order the code allows, and the theorems hold for every list. The breaker of \<open>HttpClient\<close> takes the
  begin and the completion of each request as steps. The other components run one operation after another.

  \<^bold>\<open>Loops.\<close> \<open>Executor\<close> polls with one unit of fuel a round: \<open>submit_returns\<close> derives from the deadline and the clock how many are enough.
  \<open>Reconstructor\<close> walks pages with fuel: \<open>walk_ends\<close> gives the number for every finite history. The recursion of types in an IDL is bounded by
  a depth, with which values encode and decode alike, so that a recursive type ends in an error beyond it. The walks of \<open>Backfill\<close> are
  partial functions into \<open>option\<close>, for which \<open>catchup_exact\<close> and \<open>gaps_backfilled_once\<close> prove that they return. All other functions
  are total. Integers of the code are \<open>int\<close> and \<open>nat\<close> where it uses \<open>BigInt\<close> or small numbers, words where it masks or shifts, and rationals where it
  computes with doubles, whose rounding is a parameter \<open>fl\<close> (only \<open>BondingCurve.priceImpact\<close> leaves it out).

  \<^bold>\<open>Parameters and hypotheses.\<close> What is not in the repository is an argument: SHA-256 and the curve test (\<open>hashing_ok\<close>: digests have 32
  bytes), ed25519, Argon2 and the secret box (\<open>crypto_ok\<close>: lengths, and that opening a box gives what was put in), RPC nodes and services
  (that they serve one history, newest first, for \<open>Backfill\<close>), sockets, timers, clocks (\<open>clock_ok\<close>: time passes when the executor sleeps),
  random numbers, and the callbacks of an application. The file system writes and renames as its documentation says, and SQLite and Postgres execute
  their statements in the same way; JSON stands for the value it denotes, and strings are sequences of 8-bit characters
  except where UTF-8 and UTF-16 matter (\<open>Utf8\<close>, \<open>SignalIds\<close>, \<open>Backtest\<close>).

  \<^bold>\<open>Where the theorems say that the code fails.\<close> \<open>two_tables_misordered\<close>: with two lookup tables accounts are resolved in
  another order, for which reason the round trips ask for at most one. \<open>locked_wallet_signs_with_zeros\<close>: a wallet that is locked
  while a transaction waits signs it with zeros. \<open>warmup_never_ends\<close> and \<open>historical_seed_fails\<close>: a fee estimator that never
  leaves its defaults, a simulation that throws. \<open>breaker_refines\<close>: the state of a half-open breaker is the documented one until a
  request begun before the circuit opened completes. \<open>attempts_follow_spec\<close> and \<open>window_exact\<close> describe the code where a
  comment says otherwise (a 304 is a failure; the oldest slot of the window is \<open>lastSlot - windowSlots + 1\<close>).
  The average-cost method can leave tokens that were sold (\<open>Accounting.avg_cost_keeps_sold_tokens\<close>), so \<open>store_ok\<close> and what rests on
  it exclude it. Further counterexamples stand beside the definitions they are about.

  \<^bold>\<open>Not modelled\<close>: errors as classes, cluster tables and metrics (\<open>solana-core\<close>); the sources that connect streams to queues
  (\<open>solana-signals/src/sources\<close>); generated schemas; the account fetches and routing of \<open>pumpfun-protocol\<close>; token holders and associated
  accounts (\<open>solana-spl\<close>); the metadata resolver; the executor's bundle timer and submitters, which are parameters of its model; the
  reconciler and command line of the portfolio; the vault's heartbeat; the Helius admin API and driver; trading intents and ratios of
  \<open>solana-trading\<close>; diagnostics, examples, scripts and tools. They call what is modelled, or a service, and keep no state of their own that the
  rest depends on. Within modelled components: metrics and logging, listeners that throw (except in \<open>Geyser\<close>), the setting up of
  databases and connections, and the wiring of abort signals.
\<close>

end
